(* ===== verification/Prelude.thy ===== *)
theory Prelude
  imports "HOL-Library.Word" "HOL-Library.AList" "HOL-Library.Multiset" "HOL-Library.Monad_Syntax"
begin

unbundle bit_operations_syntax

text \<open>
  Shared vocabulary of the development: the byte and identifier types, the byte
  representation of machine words, the glib containers the sources use, and the generic
  lemmas on lists, maps and words the component theories draw on.

  \<^item> \<open>word_bytes\<close> and \<open>bytes_word\<close> are the little-endian bytes of a word and their inverse;
    \<open>mem_bytes\<close> is the representation of a word in the memory of a host of either byte order.
  \<^item> A \<open>GHashTable\<close> is an association list with at most one entry per key; the
    order in which the library iterates over a table is never fixed: every operation that
    iterates takes the iteration order as a parameter. A \<open>GQueue\<close>, \<open>GList\<close> or
    \<open>GSequence\<close> is a list.
  \<^item> An operation that can abort the process (a failed \<open>assert\<close>, \<open>exit(1)\<close>, a dereference of
    \<open>NULL\<close>) has a result of type \<open>'a option\<close>, with \<open>None\<close> for the abort; \<open>assertion\<close> is
    the C macro.
\<close>

section \<open>Types and collections\<close>

type_synonym byte = "8 word"
type_synonym fingerprint = "byte list"
type_synonym containerid = int
type_synonym segmentid = int
type_synonym ('k, 'v) ghash = "('k \<times> 'v) list"

named_theorems flag_simps \<open>reading the flag word of a chunk after it was changed\<close>
named_theorems codec_simps \<open>decoding what was just encoded\<close>
named_theorems frame_simps \<open>fields an operation leaves alone\<close>

section \<open>Bytes of words\<close>

primrec word_bytes :: "nat \<Rightarrow> 'a::len word \<Rightarrow> byte list" where
  "word_bytes 0 w = []"
| "word_bytes (Suc n) w = ucast w # word_bytes n (drop_bit 8 w)"

primrec bytes_word :: "byte list \<Rightarrow> 'a::len word" where
  "bytes_word [] = 0"
| "bytes_word (b # bs) = ucast b OR push_bit 8 (bytes_word bs)"

text \<open>The bytes of a word in host memory; \<open>be\<close> says that the host is big-endian.\<close>

definition mem_bytes :: "bool \<Rightarrow> nat \<Rightarrow> 'a::len word \<Rightarrow> byte list" where
  "mem_bytes be n w = (if be then rev (word_bytes n w) else word_bytes n w)"

definition mem_word :: "bool \<Rightarrow> byte list \<Rightarrow> 'a::len word" where
  "mem_word be bs = bytes_word (if be then rev bs else bs)"

lemma length_word_bytes [simp]: "length (word_bytes n w) = n"
  by (induction n arbitrary: w) auto

lemma length_mem_bytes [simp]: "length (mem_bytes be n w) = n"
  by (simp add: mem_bytes_def)

lemma bytes_word_word_bytes:
  fixes w :: "'a::len word"
  shows "(bytes_word (word_bytes n w) :: 'a word) = take_bit (8 * n) w"
proof (induction n arbitrary: w)
  case 0
  then show ?case by simp
next
  case (Suc n)
  have "ucast (ucast w :: byte) OR push_bit 8 (take_bit (8 * n) (drop_bit 8 w)) = take_bit (8 * Suc n) w"
    by (rule bit_word_eqI)
       (auto simp: bit_or_iff bit_ucast_iff bit_push_bit_iff bit_take_bit_iff bit_drop_bit_eq
          dest: bit_imp_le_length)
  with Suc show ?case by simp
qed

lemma word_bytes_numeral [simp]:
  "word_bytes (numeral k) w = ucast w # word_bytes (pred_numeral k) (drop_bit 8 w)"
  by (simp add: numeral_eq_Suc)

lemma word_bytes_take_bit:
  fixes w :: "'a::len word"
  assumes "8 * n \<le> m"
  shows "word_bytes n (take_bit m w) = word_bytes n w"
  using assms
proof (induction n arbitrary: m w)
  case 0
  then show ?case by simp
next
  case (Suc n)
  have "(ucast (take_bit m w) :: byte) = ucast w"
    using Suc.prems by (intro bit_word_eqI) (auto simp: bit_ucast_iff bit_take_bit_iff)
  moreover have "drop_bit 8 (take_bit m w) = take_bit (m - 8) (drop_bit 8 w)"
    by (simp add: drop_bit_take_bit)
  ultimately show ?case
    using Suc.prems by (simp add: Suc.IH)
qed

lemma word_bytes_bytes_word:
  assumes "8 * length bs \<le> LENGTH('a::len)"
  shows "word_bytes (length bs) (bytes_word bs :: 'a word) = bs"
  using assms
proof (induction bs)
  case Nil
  then show ?case by simp
next
  case (Cons b bs)
  let ?X = "bytes_word bs :: 'a word"
  have "ucast (ucast b OR push_bit 8 ?X) = b"
    using Cons.prems
    by (intro bit_word_eqI) (auto simp: bit_ucast_iff bit_or_iff bit_push_bit_iff)
  moreover have "drop_bit 8 (ucast b OR push_bit 8 ?X) = take_bit (LENGTH('a) - 8) ?X"
    using Cons.prems
    by (intro bit_word_eqI)
       (auto simp: bit_ucast_iff bit_or_iff bit_push_bit_iff bit_drop_bit_eq bit_take_bit_iff
          dest: bit_imp_le_length)
  moreover have "word_bytes (length bs) (take_bit (LENGTH('a) - 8) ?X) = bs"
    using Cons by (simp add: word_bytes_take_bit)
  ultimately show ?case by simp
qed

lemma bytes_word_full [codec_simps, simp]:
  fixes w :: "'a::len word"
  assumes "LENGTH('a) \<le> 8 * n"
  shows "(bytes_word (word_bytes n w) :: 'a word) = w"
  using assms by (simp add: bytes_word_word_bytes take_bit_word_eq_self)

lemma mem_word_mem_bytes [codec_simps, simp]:
  fixes w :: "'a::len word"
  assumes "LENGTH('a) \<le> 8 * n"
  shows "(mem_word be (mem_bytes be n w) :: 'a word) = w"
  using assms by (simp add: mem_word_def mem_bytes_def)

section \<open>Aborting operations\<close>

definition assertion :: "bool \<Rightarrow> unit option" where
  "assertion b = (if b then Some () else None)"

lemma assertion_bind [simp]:
  "(assertion b \<bind> f = Some r) = (b \<and> f () = Some r)"
  "(assertion True \<bind> f) = f ()"
  "b \<Longrightarrow> (assertion b \<bind> f) = f ()"
  by (simp_all add: assertion_def)

text \<open>A loop that runs a step over a list and may abort.\<close>

fun fold_opt :: "('a \<Rightarrow> 's \<Rightarrow> 's option) \<Rightarrow> 'a list \<Rightarrow> 's \<Rightarrow> 's option" where
  "fold_opt f [] s = Some s"
| "fold_opt f (x # xs) s = f x s \<bind> fold_opt f xs"

lemma fold_opt_append: "fold_opt f (xs @ ys) s = fold_opt f xs s \<bind> fold_opt f ys"
  by (induction xs arbitrary: s) (auto simp: bind_assoc intro: arg_cong [where f = "Option.bind _"])

lemma fold_opt_invariant:
  assumes "I s" and "\<And>x s. x \<in> set xs \<Longrightarrow> I s \<Longrightarrow> \<exists>s'. f x s = Some s' \<and> I s'"
  shows "\<exists>s'. fold_opt f xs s = Some s' \<and> I s'"
  using assms
proof (induction xs arbitrary: s)
  case Nil
  then show ?case by simp
next
  case (Cons x xs)
  then obtain s1 where "f x s = Some s1" "I s1" by (meson list.set_intros(1))
  with Cons.IH [of s1] Cons.prems(2) show ?case by auto
qed

text \<open>Removing the first element of a list that satisfies a predicate.\<close>

fun take_first :: "('a \<Rightarrow> bool) \<Rightarrow> 'a list \<Rightarrow> ('a \<times> 'a list) option" where
  "take_first p [] = None"
| "take_first p (x # xs) =
     (if p x then Some (x, xs) else map_option (\<lambda>(y, ys). (y, x # ys)) (take_first p xs))"

lemma take_first_None: "(take_first p xs = None) = (\<forall>x \<in> set xs. \<not> p x)"
  by (induction xs) auto

lemma take_first_SomeD:
  "take_first p xs = Some (y, ys) \<Longrightarrow>
     p y \<and> (\<exists>as bs. xs = as @ y # bs \<and> ys = as @ bs \<and> (\<forall>a \<in> set as. \<not> p a))"
proof (induction xs arbitrary: y ys)
  case Nil
  then show ?case by simp
next
  case (Cons x xs)
  show ?case
  proof (cases "p x")
    case True
    with Cons.prems show ?thesis by (auto intro: exI [of _ "[]"])
  next
    case False
    with Cons.prems obtain ys' where *: "take_first p xs = Some (y, ys')" "ys = x # ys'" by auto
    from Cons.IH [OF *(1)] obtain as bs where
      "p y" "xs = as @ y # bs" "ys' = as @ bs" "\<forall>a \<in> set as. \<not> p a" by auto
    with False *(2) show ?thesis by (auto intro: exI [of _ "x # as"])
  qed
qed

lemma take_first_mset: "take_first p xs = Some (y, ys) \<Longrightarrow> mset xs = add_mset y (mset ys)"
  by (auto dest!: take_first_SomeD)

lemma take_first_set: "take_first p xs = Some (y, ys) \<Longrightarrow> set xs = insert y (set ys)"
  by (auto dest!: take_first_SomeD)

lemma take_first_length: "take_first p xs = Some (y, ys) \<Longrightarrow> length xs = Suc (length ys)"
  by (auto dest!: take_first_SomeD)

section \<open>Maps and numbers\<close>

lemma map_some_eqI:
  fixes f g :: "'a \<Rightarrow> 'b option"
  assumes "\<And>k v. (f k = Some v) = (g k = Some v)"
  shows "f = g"
proof
  fix k
  show "f k = g k"
  proof (cases "g k")
    case None
    with assms [of k "the (f k)"] show ?thesis by (cases "f k") simp_all
  next
    case (Some v)
    with assms [of k v] show ?thesis by simp
  qed
qed

lemma AList_update_new: "map_of t k = None \<Longrightarrow> AList.update k v t = t @ [(k, v)]"
  by (induction t) (auto split: if_splits)

lemma blocks_disjoint: "(i::nat) \<noteq> j \<Longrightarrow> i * n + 8 + n \<le> j * n + 8 \<or> j * n + 8 + n \<le> i * n + 8"
proof -
  assume "i \<noteq> j"
  then have "Suc i * n \<le> j * n \<or> Suc j * n \<le> i * n" by (metis Suc_leI linorder_neqE_nat mult_le_mono1)
  then show ?thesis by auto
qed

lemma sint_of_int_32: "0 \<le> x \<Longrightarrow> x < 2 ^ 31 \<Longrightarrow> sint (word_of_int x :: 32 word) = x"
  by (simp add: sint_sbintrunc' signed_take_bit_int_eq_self)

lemma sint_of_int_64: "- (2 ^ 63) \<le> x \<Longrightarrow> x < 2 ^ 63 \<Longrightarrow> sint (word_of_int x :: 64 word) = x"
  by (simp add: sint_sbintrunc' signed_take_bit_int_eq_self)

lemma sint_int_32: "- (2 ^ 31) \<le> x \<Longrightarrow> x < 2 ^ 31 \<Longrightarrow> sint (word_of_int x :: 32 word) = x"
  by (simp add: sint_sbintrunc' signed_take_bit_int_eq_self)

end
