(* ===== verification/Galois.thy ===== *)
theory Galois
  imports Prelude
begin

unbundle bit_operations_syntax

text \<open>
  The field in which the erasure code computes (\<^verbatim>\<open>storage/src/util/galois.c\<close>), for the width 8 that the storage service
  uses. The elements are bytes. The arithmetic itself is that of the library GF-Complete, which is a parameter of the
  model; the locale \<open>galois_field\<close> is what its documentation promises, and \<open>gf_w8\<close> is the field that it names.
\<close>

section \<open>The operations\<close>

text \<open>The functions of the library: \<open>multiply.w32\<close>, \<open>divide.w32\<close> and, per width, \<open>multiply_region.w32\<close>
  (source, factor, destination, whether to add).\<close>

record gf =
  gf_multiply :: "byte \<Rightarrow> byte \<Rightarrow> byte"
  gf_divide :: "byte \<Rightarrow> byte \<Rightarrow> byte"
  gf_multiply_region :: "nat \<Rightarrow> byte list \<Rightarrow> byte \<Rightarrow> byte list \<Rightarrow> bool \<Rightarrow> byte list"

definition galois_single_multiply :: "gf \<Rightarrow> byte \<Rightarrow> byte \<Rightarrow> byte" where
  "galois_single_multiply F x y = (if x = 0 \<or> y = 0 then 0 else gf_multiply F x y)"

text \<open>The result \<open>-1\<close> is \<open>None\<close>.\<close>

definition galois_single_divide :: "gf \<Rightarrow> byte \<Rightarrow> byte \<Rightarrow> byte option" where
  "galois_single_divide F x y = (if x = 0 then Some 0 else if y = 0 then None else Some (gf_divide F x y))"

definition galois_inverse :: "gf \<Rightarrow> byte \<Rightarrow> byte option" where
  "galois_inverse F y = (if y = 0 then None else galois_single_divide F 1 y)"

definition galois_w08_region_multiply :: "gf \<Rightarrow> byte list \<Rightarrow> byte \<Rightarrow> byte list \<Rightarrow> bool \<Rightarrow> byte list" where
  "galois_w08_region_multiply F region multby r2 add = gf_multiply_region F 8 region multby r2 add"

definition galois_w32_region_xor :: "gf \<Rightarrow> byte list \<Rightarrow> byte list \<Rightarrow> byte list" where
  "galois_w32_region_xor F src dest = gf_multiply_region F 32 src 1 dest True"

definition galois_region_xor :: "gf \<Rightarrow> byte list \<Rightarrow> byte list \<Rightarrow> byte list" where
  "galois_region_xor F src dest =
     (if 16 \<le> length dest then galois_w32_region_xor F src dest else map2 (XOR) dest src)"

section \<open>Sums\<close>

primrec xsum :: "(nat \<Rightarrow> byte) \<Rightarrow> nat \<Rightarrow> byte" where
  "xsum f 0 = 0"
| "xsum f (Suc n) = xsum f n XOR f n"

lemma xor_self_byte [simp]: "x XOR x = 0" "x XOR (x XOR y) = y" for x y :: byte
  by (simp_all flip: xor.assoc)

lemma xor_eq_0: "x XOR y = 0 \<longleftrightarrow> x = y" for x y :: byte
  by (metis xor_self_byte xor.right_neutral)

lemmas xor_ac = xor.assoc xor.commute xor.left_commute

lemma xsum_0 [simp]: "xsum (\<lambda>_. 0) n = 0"
  by (induction n) auto

lemma xsum_cong: "(\<And>i. i < n \<Longrightarrow> f i = g i) \<Longrightarrow> xsum f n = xsum g n"
  by (induction n) auto

lemma xsum_xor: "xsum (\<lambda>i. f i XOR g i) n = xsum f n XOR xsum g n"
  by (induction n) (auto simp: xor_ac)

lemma xsum_swap: "xsum (\<lambda>i. xsum (\<lambda>j. f i j) m) n = xsum (\<lambda>j. xsum (\<lambda>i. f i j) n) m"
  by (induction n) (auto simp: xsum_xor)

lemma xsum_single: "i < n \<Longrightarrow> xsum (\<lambda>j. if j = i then f j else 0) n = f i"
proof (induction n)
  case (Suc n)
  have "xsum (\<lambda>j. if j = n then f j else 0) n = xsum (\<lambda>_. 0) n" by (rule xsum_cong) simp
  with Suc show ?case by (cases "i = n") auto
qed simp

lemma xsum_remove: "i < n \<Longrightarrow> xsum f n = f i XOR xsum (\<lambda>j. if j = i then 0 else f j) n"
proof -
  assume i: "i < n"
  have "xsum f n = xsum (\<lambda>j. (if j = i then f j else 0) XOR (if j = i then 0 else f j)) n" by (rule xsum_cong) simp
  also have "\<dots> = f i XOR xsum (\<lambda>j. if j = i then 0 else f j) n" by (simp add: xsum_xor xsum_single [OF i])
  finally show ?thesis .
qed

section \<open>The laws of the field\<close>

locale galois_field =
  fixes F :: gf
  assumes mul_comm: "gf_multiply F x y = gf_multiply F y x"
    and mul_assoc: "gf_multiply F (gf_multiply F x y) z = gf_multiply F x (gf_multiply F y z)"
    and mul_xor: "gf_multiply F x (y XOR z) = gf_multiply F x y XOR gf_multiply F x z"
    and mul_one: "gf_multiply F 1 x = x"
    and divide_mul: "y \<noteq> 0 \<Longrightarrow> gf_multiply F (gf_divide F x y) y = x"
    and region_8: "length d = length s \<Longrightarrow>
      gf_multiply_region F 8 s c d add = map2 (\<lambda>x y. if add then y XOR gf_multiply F x c else gf_multiply F x c) s d"
    and region_32: "length d = length s \<Longrightarrow> gf_multiply_region F 32 s 1 d True = map2 (XOR) d s"
begin

lemma mul_zero: "gf_multiply F x 0 = 0" "gf_multiply F 0 x = 0"
  using mul_xor [of x 0 0] mul_comm [of 0 x] by simp_all

lemma mul_one_right: "gf_multiply F x 1 = x"
  by (metis mul_one mul_comm)

lemma single_multiply: "galois_single_multiply F = gf_multiply F"
  by (auto simp: galois_single_multiply_def mul_zero fun_eq_iff)

lemma mul_eq_0: "gf_multiply F x y = 0 \<longleftrightarrow> x = 0 \<or> y = 0"
proof
  assume z: "gf_multiply F x y = 0"
  show "x = 0 \<or> y = 0"
  proof (cases "y = 0")
    case False
    have "x = gf_multiply F (gf_multiply F 1 x) 1" by (metis mul_one mul_comm)
    also have "\<dots> = gf_multiply F x (gf_multiply F (gf_divide F 1 y) y)" using divide_mul [OF False, of 1] mul_one by simp
    also have "\<dots> = gf_multiply F (gf_divide F 1 y) (gf_multiply F x y)" by (metis mul_assoc mul_comm)
    finally show ?thesis using z mul_zero by simp
  qed simp
qed (auto simp: mul_zero)

lemma inverse_mul: "x \<noteq> 0 \<Longrightarrow> galois_single_divide F 1 x = Some (gf_divide F 1 x)" "x \<noteq> 0 \<Longrightarrow> gf_multiply F x (gf_divide F 1 x) = 1"
  using divide_mul [of x 1] mul_comm by (simp_all add: galois_single_divide_def)

lemma mul_xor_left: "gf_multiply F (y XOR z) x = gf_multiply F y x XOR gf_multiply F z x"
  using mul_xor mul_comm by simp

lemma xsum_mul: "gf_multiply F x (xsum f n) = xsum (\<lambda>i. gf_multiply F x (f i)) n"
  by (induction n) (auto simp: mul_zero mul_xor)

end

section \<open>The field of width 8\<close>

text \<open>The polynomials modulo \<open>x^8 + x^4 + x^3 + x^2 + 1\<close>, the default of GF-Complete for this width and the field of ISA-L.\<close>

definition xtime :: "byte \<Rightarrow> byte" where
  "xtime a = push_bit 1 a XOR (if bit a 7 then 0x1D else 0)"

definition gf_w8_multiply :: "byte \<Rightarrow> byte \<Rightarrow> byte" where
  "gf_w8_multiply a b = xsum (\<lambda>i. if bit b i then (xtime ^^ i) a else 0) 8"

lemma xtime_xor: "xtime (a XOR b) = xtime a XOR xtime b"
  by (auto simp: xtime_def push_bit_xor bit_xor_iff xor_ac)

lemma xtime_pow_xor: "(xtime ^^ i) (a XOR b) = (xtime ^^ i) a XOR (xtime ^^ i) b"
  by (induction i) (auto simp: xtime_xor)

lemma xtime_0 [simp]: "xtime 0 = 0" "(xtime ^^ i) 0 = 0"
proof -
  show 0: "xtime 0 = 0" by (simp add: xtime_def)
  then show "(xtime ^^ i) 0 = 0" by (induction i) auto
qed

lemma xtime_xsum: "xtime (xsum f n) = xsum (\<lambda>i. xtime (f i)) n"
  by (induction n) (auto simp: xtime_xor)

lemma w8_xor_left: "gf_w8_multiply (a XOR b) c = gf_w8_multiply a c XOR gf_w8_multiply b c"
  unfolding gf_w8_multiply_def xsum_xor [symmetric] by (rule xsum_cong) (simp add: xtime_pow_xor)

lemma w8_xor_right: "gf_w8_multiply a (b XOR c) = gf_w8_multiply a b XOR gf_w8_multiply a c"
  unfolding gf_w8_multiply_def xsum_xor [symmetric] by (rule xsum_cong) (simp add: bit_xor_iff)

lemma w8_xtime: "gf_w8_multiply (xtime a) b = xtime (gf_w8_multiply a b)"
  unfolding gf_w8_multiply_def xtime_xsum by (rule xsum_cong) (simp flip: funpow_swap1)

text \<open>A byte is the sum of its bits.\<close>

lemma byte_bits: "b = xsum (\<lambda>i. if bit b i then push_bit i 1 else 0) 8" for b :: byte
proof (rule bit_word_eqI)
  fix n assume n: "n < LENGTH(8)"
  have "bit (xsum (\<lambda>i. if bit b i then push_bit i 1 else 0) m) n = (n < m \<and> bit b n)" if "m \<le> 8" for m
    using that by (induction m) (auto simp: bit_xor_iff bit_push_bit_iff bit_exp_iff less_Suc_eq)
  from this [of 8] n show "bit b n = bit (xsum (\<lambda>i. if bit b i then push_bit i 1 else 0) 8) n" by simp
qed

lemma w8_xsum_right: "gf_w8_multiply a (xsum f n) = xsum (\<lambda>i. gf_w8_multiply a (f i)) n"
proof (induction n)
  case 0
  show ?case by (simp add: gf_w8_multiply_def cong: if_cong)
qed (simp add: w8_xor_right)

lemma w8_xsum_left: "gf_w8_multiply (xsum f n) a = xsum (\<lambda>i. gf_w8_multiply (f i) a) n"
proof (induction n)
  case 0
  show ?case by (simp add: gf_w8_multiply_def cong: if_cong)
qed (simp add: w8_xor_left)

lemma w8_shift: "j < 8 \<Longrightarrow> gf_w8_multiply a (push_bit j 1) = (xtime ^^ j) a"
proof -
  assume j: "j < 8"
  have "gf_w8_multiply a (push_bit j 1) = xsum (\<lambda>i. if i = j then (xtime ^^ i) a else 0) 8"
    unfolding gf_w8_multiply_def by (rule xsum_cong) (auto simp: bit_exp_iff)
  with j show ?thesis by (simp add: xsum_single)
qed

lemma w8_units: "list_all (\<lambda>i. push_bit i 1 = (xtime ^^ i) 1) [0..<8]"
  by code_simp

lemma w8_basis: "i < 8 \<Longrightarrow> j < 8 \<Longrightarrow> gf_w8_multiply (push_bit i 1) (push_bit j 1) = gf_w8_multiply (push_bit j 1) (push_bit i 1)"
proof -
  assume ij: "i < 8" "j < 8"
  then have "push_bit i 1 = (xtime ^^ i) 1" "push_bit j 1 = (xtime ^^ j) 1" using w8_units unfolding list_all_iff by auto
  moreover have "(xtime ^^ j) ((xtime ^^ i) 1) = (xtime ^^ i) ((xtime ^^ j) 1)" by (metis add.commute comp_apply funpow_add)
  ultimately show ?thesis using w8_shift [OF ij(1)] w8_shift [OF ij(2)] by metis
qed

lemma w8_bits: "gf_w8_multiply a b = xsum (\<lambda>i. xsum (\<lambda>j. gf_w8_multiply (if bit a i then push_bit i 1 else 0)
    (if bit b j then push_bit j 1 else 0)) 8) 8"
proof -
  let ?e = "\<lambda>b i. if bit b i then push_bit i 1 else (0 :: byte)"
  have "gf_w8_multiply a b = xsum (\<lambda>i. gf_w8_multiply (?e a i) b) 8" by (subst byte_bits [of a]) (rule w8_xsum_left)
  moreover have "gf_w8_multiply x b = xsum (\<lambda>j. gf_w8_multiply x (?e b j)) 8" for x by (subst byte_bits [of b]) (rule w8_xsum_right)
  ultimately show ?thesis by simp
qed

lemma w8_zero [simp]: "gf_w8_multiply a 0 = 0" "gf_w8_multiply 0 a = 0"
  by (simp_all add: gf_w8_multiply_def cong: if_cong)

lemma w8_comm: "gf_w8_multiply a b = gf_w8_multiply b a"
proof -
  let ?e = "\<lambda>b i. if bit b i then push_bit i 1 else (0 :: byte)"
  have "xsum (\<lambda>i. xsum (\<lambda>j. gf_w8_multiply (?e a i) (?e b j)) 8) 8 = xsum (\<lambda>i. xsum (\<lambda>j. gf_w8_multiply (?e b j) (?e a i)) 8) 8"
    by (intro xsum_cong) (simp add: w8_basis [simplified])
  then show ?thesis unfolding w8_bits [of a b] w8_bits [of b a] by (subst xsum_swap)
qed

lemma w8_xtime_pow: "gf_w8_multiply a ((xtime ^^ i) b) = (xtime ^^ i) (gf_w8_multiply a b)"
  using w8_xtime w8_comm by (induction i) auto

lemma w8_assoc: "gf_w8_multiply (gf_w8_multiply a b) c = gf_w8_multiply a (gf_w8_multiply b c)"
proof -
  have "gf_w8_multiply a (gf_w8_multiply b c) = xsum (\<lambda>i. gf_w8_multiply a (if bit c i then (xtime ^^ i) b else 0)) 8"
    unfolding gf_w8_multiply_def [of b c] by (rule w8_xsum_right)
  also have "\<dots> = gf_w8_multiply (gf_w8_multiply a b) c"
    unfolding gf_w8_multiply_def [of "gf_w8_multiply a b" c]
    by (rule xsum_cong) (simp add: w8_xtime_pow)
  finally show ?thesis ..
qed

lemma w8_one: "gf_w8_multiply 1 x = x"
proof -
  have "gf_w8_multiply x 1 = xsum (\<lambda>i. if i = 0 then (xtime ^^ i) x else 0) 8"
    unfolding gf_w8_multiply_def by (rule xsum_cong) (simp add: bit_1_iff)
  then show ?thesis using w8_comm [of 1 x] by (simp add: xsum_single)
qed

text \<open>The element \<open>x\<close> generates the field: its first 254 powers differ from 1.\<close>

definition w8_exp :: "nat \<Rightarrow> byte" where
  "w8_exp k = (xtime ^^ k) 1"

primrec w8_powers :: "nat \<Rightarrow> byte \<Rightarrow> byte list" where
  "w8_powers 0 a = []"
| "w8_powers (Suc n) a = a # w8_powers n (xtime a)"

lemma w8_powers_nth: "i < n \<Longrightarrow> w8_powers n a ! i = (xtime ^^ i) a" "length (w8_powers n a) = n"
proof -
  show "i < n \<Longrightarrow> w8_powers n a ! i = (xtime ^^ i) a"
    by (induction n arbitrary: a i) (auto simp: nth_Cons funpow_swap1 split: nat.splits)
  show "length (w8_powers n a) = n" by (induction n arbitrary: a) auto
qed

lemma w8_no_period: "list_all (\<lambda>x. x \<noteq> 1) (w8_powers 254 (xtime 1))"
  by code_simp

lemma w8_period: "xtime (List.last (w8_powers 254 (xtime 1))) = 1"
  by code_simp

lemma w8_exp_add: "gf_w8_multiply (w8_exp i) (w8_exp j) = w8_exp (i + j)"
  by (induction i) (auto simp: w8_exp_def w8_xtime w8_one)

lemma w8_exp_255: "w8_exp (255 * k) = 1"
proof -
  have "List.last (w8_powers 254 (xtime 1)) = (xtime ^^ 253) (xtime 1)"
    using w8_powers_nth(1) [of 253 254 "xtime 1"] w8_powers_nth(2) [of 254 "xtime 1"]
    by (subst last_conv_nth) (simp_all del: w8_powers.simps flip: length_0_conv)
  then have "xtime ((xtime ^^ 253) (xtime 1)) = 1" using w8_period by simp
  then have "w8_exp 255 = 1" unfolding w8_exp_def by (simp add: funpow_swap1 numeral_eq_Suc)
  then show ?thesis using w8_exp_add [of 255] by (induction k) (auto simp: w8_exp_def w8_one simp flip: w8_exp_add)
qed

lemma xtime_inj: "xtime a = xtime b \<Longrightarrow> a = b"
proof -
  assume "xtime a = xtime b"
  then have z: "xtime (a XOR b) = 0" by (simp add: xtime_xor)
  have "bit (xtime (a XOR b)) 0 = bit (a XOR b) 7" unfolding xtime_def bit_xor_iff [of "push_bit 1 _"] bit_push_bit_iff by simp
  then have "\<not> bit (a XOR b) 7" using z by simp
  then have p: "push_bit 1 (a XOR b) = 0" using z by (simp add: xtime_def)
  have "a XOR b = 0"
  proof (rule bit_word_eqI)
    fix n assume n: "n < LENGTH(8)"
    have "bit (push_bit 1 (a XOR b)) (Suc n) = (n < 7 \<and> bit (a XOR b) n)" unfolding bit_push_bit_iff by auto
    then have "\<not> (n < 7 \<and> bit (a XOR b) n)" using p by simp
    then show "bit (a XOR b) n = bit (0 :: byte) n" using \<open>\<not> bit (a XOR b) 7\<close> n by (cases "n = 7") auto
  qed
  then show "a = b" by (simp add: xor_eq_0)
qed

lemma w8_exp_neq_1: "0 < k \<Longrightarrow> k < 255 \<Longrightarrow> w8_exp k \<noteq> 1"
proof -
  assume k: "0 < k" "k < 255"
  then have "w8_powers 254 (xtime 1) ! (k - 1) = w8_exp k"
    using funpow_swap1 [of xtime "k - 1" 1] by (cases k) (simp_all add: w8_powers_nth w8_exp_def del: w8_powers.simps)
  moreover have "k - 1 < length (w8_powers 254 (xtime 1))" using k by (simp add: w8_powers_nth del: w8_powers.simps)
  ultimately show ?thesis using w8_no_period unfolding list_all_length by metis
qed

lemma w8_exp_inj: "inj_on w8_exp {..<255}"
proof (rule linorder_inj_onI')
  fix i j :: nat assume ij: "i \<in> {..<255}" "j \<in> {..<255}" "i < j"
  have "(xtime ^^ i) x = (xtime ^^ i) y \<Longrightarrow> x = y" for x y by (induction i) (auto dest: xtime_inj)
  moreover have "w8_exp j = (xtime ^^ i) (w8_exp (j - i))" using ij(3) funpow_add [of i "j - i" xtime] by (simp add: w8_exp_def)
  moreover have "w8_exp (j - i) \<noteq> 1" using w8_exp_neq_1 ij by simp
  ultimately show "w8_exp i \<noteq> w8_exp j" by (metis w8_exp_def)
qed

lemma w8_exp_surj: "y \<noteq> 0 \<Longrightarrow> \<exists>k. y = w8_exp k"
proof -
  assume y: "y \<noteq> 0"
  have "xtime x \<noteq> 0" if "x \<noteq> 0" for x using xtime_inj [of x 0] that by auto
  then have nz: "w8_exp k \<noteq> 0" for k by (induction k) (auto simp: w8_exp_def)
  have "card (w8_exp ` {..<255}) = 255" using card_image [OF w8_exp_inj] by simp
  moreover have "card (UNIV - {0 :: byte}) = 255" by (simp add: card_Diff_singleton card_word)
  ultimately have "w8_exp ` {..<255} = UNIV - {0}" using nz by (intro card_subset_eq) auto
  with y show ?thesis by blast
qed

text \<open>The inverse of \<open>y\<close> is its power with exponent 254.\<close>

definition gf_w8_inverse :: "byte \<Rightarrow> byte" where
  "gf_w8_inverse y = (let m = gf_w8_multiply; y2 = m y y; y4 = m y2 y2; y8 = m y4 y4; y16 = m y8 y8; y32 = m y16 y16;
     y64 = m y32 y32; y128 = m y64 y64 in m y2 (m y4 (m y8 (m y16 (m y32 (m y64 y128))))))"

definition gf_w8_divide :: "byte \<Rightarrow> byte \<Rightarrow> byte" where
  "gf_w8_divide x y = gf_w8_multiply x (gf_w8_inverse y)"

lemma w8_divide: "y \<noteq> 0 \<Longrightarrow> gf_w8_multiply (gf_w8_divide x y) y = x"
proof -
  assume "y \<noteq> 0"
  then obtain k where "y = w8_exp k" using w8_exp_surj by blast
  then have "gf_w8_multiply (gf_w8_inverse y) y = w8_exp (255 * k)"
    by (simp only: gf_w8_inverse_def Let_def w8_exp_add) (rule arg_cong [where f = w8_exp], simp)
  then show ?thesis using w8_exp_255 w8_one [of x] w8_comm [of x 1] by (simp add: gf_w8_divide_def w8_assoc)
qed

definition gf_w8 :: gf where
  "gf_w8 = \<lparr>gf_multiply = gf_w8_multiply, gf_divide = gf_w8_divide, gf_multiply_region = (\<lambda>w s c d add.
     map2 (\<lambda>x y. if add then y XOR gf_w8_multiply x c else gf_w8_multiply x c) s d)\<rparr>"

interpretation w8: galois_field gf_w8
proof
  show "gf_multiply_region gf_w8 32 s 1 d True = map2 (XOR) d s" if "length d = length s" for d s
    using that w8_one w8_comm by (induction d s rule: list_induct2) (auto simp: gf_w8_def)
qed (auto simp: gf_w8_def w8_assoc w8_xor_right w8_one w8_divide intro: w8_comm)

end
