(* ===== verification/Jerasure.thy ===== *)
theory Jerasure
  imports Galois
begin

unbundle bit_operations_syntax

text \<open>
  The matrices of the erasure code (\<^verbatim>\<open>storage/src/util/jerasure.c\<close>). A matrix is the list of its rows. The inversion keeps
  two arrays, the matrix and the inverse in the making, and does to each row of one what it does to the same row of the
  other: the two are a list of pairs of rows.
\<close>

section \<open>The operations\<close>

type_synonym matrix = "byte list list"
type_synonym rows = "(byte list \<times> byte list) list"

definition jerasure_matrix_multiply :: "gf \<Rightarrow> matrix \<Rightarrow> matrix \<Rightarrow> nat \<Rightarrow> nat \<Rightarrow> matrix" where
  "jerasure_matrix_multiply F m1 m2 r2 c2 =
     map (\<lambda>r. map (\<lambda>j. fold (\<lambda>k acc. acc XOR galois_single_multiply F (r ! k) (m2 ! k ! j)) [0..<r2] 0) [0..<c2]) m1"

definition identity_row :: "nat \<Rightarrow> nat \<Rightarrow> byte list" where
  "identity_row n i = map (\<lambda>j. if i = j then 1 else 0) [0..<n]"

text \<open>The first row from \<open>i\<close> on that is not zero in column \<open>i\<close> comes to place \<open>i\<close>.\<close>

definition swap_row :: "nat \<Rightarrow> rows \<Rightarrow> rows option" where
  "swap_row i rows =
     (if fst (rows ! i) ! i = 0
      then case List.find (\<lambda>j. fst (rows ! j) ! i \<noteq> 0) [Suc i..<length rows] of
             None \<Rightarrow> None
           | Some j \<Rightarrow> Some (rows[i := rows ! j, j := rows ! i])
      else Some rows)"

definition scale_row :: "gf \<Rightarrow> nat \<Rightarrow> byte list \<times> byte list \<Rightarrow> byte list \<times> byte list" where
  "scale_row F i = (\<lambda>(r, s).
     if r ! i \<noteq> 1
     then let y = (case galois_single_divide F 1 (r ! i) of Some y \<Rightarrow> y | None \<Rightarrow> -1)
          in (map (\<lambda>x. galois_single_multiply F x y) r, map (\<lambda>x. galois_single_multiply F x y) s)
     else (r, s))"

definition add_row :: "gf \<Rightarrow> byte \<Rightarrow> byte list \<Rightarrow> byte list \<Rightarrow> byte list" where
  "add_row F c src dst = map2 (\<lambda>x y. x XOR (if c = 1 then y else galois_single_multiply F c y)) dst src"

definition clear_below :: "gf \<Rightarrow> nat \<Rightarrow> rows \<Rightarrow> rows" where
  "clear_below F i rows =
     map (\<lambda>j. let (r, s) = rows ! j in
            if i < j \<and> r ! i \<noteq> 0 then (add_row F (r ! i) (fst (rows ! i)) r, add_row F (r ! i) (snd (rows ! i)) s) else (r, s))
       [0..<length rows]"

fun triangular :: "gf \<Rightarrow> nat list \<Rightarrow> rows \<Rightarrow> bool \<times> rows" where
  "triangular F [] rows = (True, rows)"
| "triangular F (i # is) rows =
     (case swap_row i rows of
        None \<Rightarrow> (False, rows)
      | Some rows \<Rightarrow> triangular F is (clear_below F i (rows[i := scale_row F i (rows ! i)])))"

definition clear_above :: "gf \<Rightarrow> nat \<Rightarrow> rows \<Rightarrow> rows" where
  "clear_above F i rows =
     map (\<lambda>j. let (r, s) = rows ! j in
            if j < i \<and> r ! i \<noteq> 0
            then (r[i := 0], map2 (\<lambda>x y. x XOR galois_single_multiply F (r ! i) y) s (snd (rows ! i)))
            else (r, s))
       [0..<length rows]"

text \<open>Whether the matrix could be inverted, and what is in the second array at the end.\<close>

definition jerasure_invert_matrix :: "gf \<Rightarrow> matrix \<Rightarrow> nat \<Rightarrow> bool \<times> matrix" where
  "jerasure_invert_matrix F mat n =
     (let (ok, rows) = triangular F [0..<n] (zip mat (map (identity_row n) [0..<n]))
      in if ok then (True, map snd (fold (clear_above F) (rev [0..<n]) rows)) else (False, map snd rows))"

section \<open>Rows as linear functions\<close>

definition dot :: "gf \<Rightarrow> nat \<Rightarrow> byte list \<Rightarrow> (nat \<Rightarrow> byte) \<Rightarrow> byte" where
  "dot F n r v = xsum (\<lambda>i. gf_multiply F (r ! i) (v i)) n"

text \<open>A pair of rows is what it should be: the first applied to \<open>v\<close> is the second applied to the product of the
  original matrix with \<open>v\<close>.\<close>

definition pair_ok :: "gf \<Rightarrow> nat \<Rightarrow> matrix \<Rightarrow> byte list \<times> byte list \<Rightarrow> bool" where
  "pair_ok F n A = (\<lambda>(r, s). length r = n \<and> length s = n \<and> (\<forall>v. dot F n r v = dot F n s (\<lambda>l. dot F n (A ! l) v)))"

definition kernel :: "gf \<Rightarrow> nat \<Rightarrow> matrix \<Rightarrow> (nat \<Rightarrow> byte) \<Rightarrow> bool" where
  "kernel F n A v = (\<forall>r \<in> set A. dot F n r v = 0)"

text \<open>The columns before \<open>i\<close> are those of an upper triangular matrix with ones on the diagonal.\<close>

definition upper :: "nat \<Rightarrow> nat \<Rightarrow> matrix \<Rightarrow> bool" where
  "upper n i A = (\<forall>c<i. A ! c ! c = 1 \<and> (\<forall>j<n. c < j \<longrightarrow> A ! j ! c = 0))"

text \<open>What holds of the rows at every moment of the first loop.\<close>

definition rows_inv :: "gf \<Rightarrow> nat \<Rightarrow> matrix \<Rightarrow> rows \<Rightarrow> bool" where
  "rows_inv F n A rows =
     (length rows = n \<and> (\<forall>p \<in> set rows. pair_ok F n A p) \<and> (\<forall>v. kernel F n (map fst rows) v = kernel F n A v))"

context galois_field
begin

lemma dot_xor: "length r = n \<Longrightarrow> length s = n \<Longrightarrow> dot F n (map2 (\<lambda>x y. x XOR gf_multiply F c y) r s) v = dot F n r v XOR gf_multiply F c (dot F n s v)"
  unfolding dot_def xsum_mul xsum_xor [symmetric] by (rule xsum_cong) (simp add: mul_xor_left mul_assoc)

lemma dot_scale: "length r = n \<Longrightarrow> dot F n (map (\<lambda>x. gf_multiply F x c) r) v = gf_multiply F c (dot F n r v)"
  unfolding dot_def xsum_mul by (rule xsum_cong) (metis mul_assoc mul_comm nth_map)

lemma add_row_mul: "add_row F c src dst = map2 (\<lambda>x y. x XOR gf_multiply F c y) dst src"
  using mul_one by (auto simp: add_row_def single_multiply)

lemma dot_zero: "(\<And>i. i < n \<Longrightarrow> v i = 0) \<Longrightarrow> dot F n r v = 0"
  using xsum_cong [of n "\<lambda>i. gf_multiply F (r ! i) (v i)" "\<lambda>_. 0"] by (simp add: dot_def mul_zero)

lemma dot_unit: "i < n \<Longrightarrow> (\<And>j. j < n \<Longrightarrow> r ! j = (if j = i then 1 else 0)) \<Longrightarrow> dot F n r v = v i"
proof -
  assume i: "i < n" and r: "\<And>j. j < n \<Longrightarrow> r ! j = (if j = i then 1 else 0)"
  have "dot F n r v = xsum (\<lambda>j. if j = i then v j else 0) n"
    unfolding dot_def by (rule xsum_cong) (auto simp: r mul_one mul_zero)
  then show ?thesis using xsum_single [OF i] by simp
qed

lemma dot_update: "i < n \<Longrightarrow> length r = n \<Longrightarrow> dot F n (r[i := 0]) v = dot F n r v XOR gf_multiply F (r ! i) (v i)"
proof -
  assume i: "i < n" "length r = n"
  have "dot F n r v XOR dot F n (r[i := 0]) v = xsum (\<lambda>j. if j = i then gf_multiply F (r ! j) (v j) else 0) n"
    unfolding dot_def xsum_xor [symmetric] by (rule xsum_cong) (use i in \<open>auto simp: nth_list_update mul_zero\<close>)
  then have "dot F n r v XOR dot F n (r[i := 0]) v = gf_multiply F (r ! i) (v i)" using xsum_single [OF i(1)] by simp
  then show ?thesis by (metis xor_self_byte(2))
qed

lemma pair_ok_scale: "pair_ok F n A (r, s) \<Longrightarrow> pair_ok F n A (map (\<lambda>x. gf_multiply F x c) r, map (\<lambda>x. gf_multiply F x c) s)"
  by (auto simp: pair_ok_def dot_scale)

lemma pair_ok_add:
  "pair_ok F n A (r, s) \<Longrightarrow> pair_ok F n A (r', s') \<Longrightarrow>
     pair_ok F n A (map2 (\<lambda>x y. x XOR gf_multiply F c y) r r', map2 (\<lambda>x y. x XOR gf_multiply F c y) s s')"
  by (auto simp: pair_ok_def dot_xor)

lemma rows_inv_pair: "rows_inv F n A rows \<Longrightarrow> j < n \<Longrightarrow> pair_ok F n A (rows ! j)"
  by (auto simp: rows_inv_def)

lemma rows_inv_length: "rows_inv F n A rows \<Longrightarrow> j < n \<Longrightarrow> length (fst (rows ! j)) = n \<and> length (snd (rows ! j)) = n"
  using rows_inv_pair by (fastforce simp: pair_ok_def)

lemma kernel_nth: "length rows = n \<Longrightarrow> kernel F n (map fst rows) v = (\<forall>j<n. dot F n (fst (rows ! j)) v = 0)"
  by (auto simp: kernel_def all_set_conv_all_nth)

lemma upper_fst: "length rows = n \<Longrightarrow> i \<le> n \<Longrightarrow>
    upper n i (map fst rows) = (\<forall>c<i. fst (rows ! c) ! c = 1 \<and> (\<forall>j<n. c < j \<longrightarrow> fst (rows ! j) ! c = 0))"
  by (auto simp: upper_def)

lemma swap_row_ok:
  assumes "swap_row i rows = Some rows'" "rows_inv F n A rows" "upper n i (map fst rows)" "i < n"
  shows "rows_inv F n A rows' \<and> upper n i (map fst rows') \<and> fst (rows' ! i) ! i \<noteq> 0"
proof (cases "fst (rows ! i) ! i = 0")
  case True
  with assms(1) obtain j where j: "List.find (\<lambda>j. fst (rows ! j) ! i \<noteq> 0) [Suc i..<length rows] = Some j"
    "rows' = rows[i := rows ! j, j := rows ! i]" by (auto simp: swap_row_def split: option.splits)
  have n: "length rows = n" using assms(2) by (simp add: rows_inv_def)
  from j(1) n have ij: "i < j" "j < n" "fst (rows ! j) ! i \<noteq> 0" by (auto simp: find_Some_iff nth_append)
  have "set rows' = set rows" using j(2) ij n by (simp add: set_swap)
  moreover have "length rows' = n" using j(2) n by simp
  ultimately have "rows_inv F n A rows'" using assms(2) by (simp add: rows_inv_def kernel_def)
  moreover have "upper n i (map fst rows')"
    using assms(3,4) ij n \<open>length rows' = n\<close> unfolding j(2) by (auto simp: upper_fst nth_list_update)
  ultimately show ?thesis using ij n assms(4) unfolding j(2) by (simp add: nth_list_update)
qed (use assms in \<open>simp add: swap_row_def\<close>)

lemma swap_row_none: "swap_row i rows = None \<Longrightarrow> i \<le> j \<Longrightarrow> j < length rows \<Longrightarrow> fst (rows ! j) ! i = 0"
  by (cases "i = j") (auto simp: swap_row_def find_None_iff split: if_splits option.splits)

lemma scale_row_ok:
  assumes "rows_inv F n A rows" "upper n i (map fst rows)" "fst (rows ! i) ! i \<noteq> 0" "i < n"
  shows "rows_inv F n A (rows[i := scale_row F i (rows ! i)]) \<and> upper n i (map fst (rows[i := scale_row F i (rows ! i)]))
     \<and> fst (rows[i := scale_row F i (rows ! i)] ! i) ! i = 1"
proof -
  obtain r s where rs: "rows ! i = (r, s)" by fastforce
  define c where "c = (if r ! i = 1 then 1 else gf_divide F 1 (r ! i))"
  have nz: "r ! i \<noteq> 0" using assms(3) rs by simp
  have l: "length rows = n" "length r = n" "length s = n" using assms(1) rows_inv_length [OF assms(1,4)] rs by (auto simp: rows_inv_def)
  have sc: "scale_row F i (rows ! i) = (map (\<lambda>x. gf_multiply F x c) r, map (\<lambda>x. gf_multiply F x c) s)"
    using rs nz by (simp add: scale_row_def c_def inverse_mul(1) single_multiply mul_one_right Let_def)
  have c: "gf_multiply F (r ! i) c = 1" using inverse_mul(2) [OF nz] by (simp add: c_def mul_one_right)
  then have "c \<noteq> 0" using mul_zero(1) [of "r ! i"] by auto
  let ?rows = "rows[i := scale_row F i (rows ! i)]"
  have "pair_ok F n A (scale_row F i (rows ! i))" unfolding sc using rows_inv_pair [OF assms(1,4)] rs by (simp add: pair_ok_scale)
  moreover have "dot F n (fst (?rows ! j)) v = 0 \<longleftrightarrow> dot F n (fst (rows ! j)) v = 0" for j v
    using l assms(4) \<open>c \<noteq> 0\<close> by (cases "j = i") (simp_all add: sc [unfolded rs] rs dot_scale mul_eq_0)
  then have "kernel F n (map fst ?rows) v = kernel F n (map fst rows) v" for v using l(1) by (simp add: kernel_nth)
  ultimately have "rows_inv F n A ?rows" using assms(1) using set_update_subset_insert [of rows i "scale_row F i (rows ! i)"] by (auto simp: rows_inv_def)
  moreover have "r ! x = 0" if "x < i" for x 
  proof -
    have "map fst rows ! i ! x = 0" using assms(2,4) that unfolding upper_def by blast
    then show ?thesis using rs assms(4) l(1) by simp
  qed
  then have "upper n i (map fst ?rows)"
    using assms(2,4) l rs by (auto simp: upper_fst sc [unfolded rs] nth_list_update mul_zero)
  moreover have "fst (?rows ! i) ! i = 1" using l assms(4) c by (simp add: sc)
  ultimately show ?thesis by blast
qed

lemma clear_below_ok:
  assumes "rows_inv F n A rows" "upper n i (map fst rows)" "fst (rows ! i) ! i = 1" "i < n"
  shows "rows_inv F n A (clear_below F i rows) \<and> upper n (Suc i) (map fst (clear_below F i rows))"
proof -
  let ?m = "clear_below F i rows"
  have n: "length rows = n" using assms(1) by (simp add: rows_inv_def)
  have nth: "?m ! j = (if i < j
      then (map2 (\<lambda>x y. x XOR gf_multiply F (fst (rows ! j) ! i) y) (fst (rows ! j)) (fst (rows ! i)),
            map2 (\<lambda>x y. x XOR gf_multiply F (fst (rows ! j) ! i) y) (snd (rows ! j)) (snd (rows ! i))) else rows ! j)" if "j < n" for j
  proof -
    have z: "map2 (\<lambda>x y. x XOR gf_multiply F 0 y) a b = a" if "length a = n" "length b = n" for a b
      using that by (intro nth_equalityI) (auto simp: mul_zero)
    show ?thesis using that n rows_inv_length [OF assms(1) that] rows_inv_length [OF assms(1,4)] z
      by (auto simp: clear_below_def Let_def case_prod_unfold add_row_mul)
  qed
  have ln: "length ?m = n" using n by (simp add: clear_below_def)
  have p: "pair_ok F n A (?m ! j)" if "j < n" for j
    using pair_ok_add [of n A "fst (rows ! j)" "snd (rows ! j)" "fst (rows ! i)" "snd (rows ! i)"]
      rows_inv_pair [OF assms(1) that] rows_inv_pair [OF assms(1,4)] nth [OF that] by simp
  have l: "length (fst (rows ! j)) = n" if "j < n" for j using rows_inv_length [OF assms(1) that] by simp
  have d: "dot F n (fst (?m ! j)) v = (if i < j then dot F n (fst (rows ! j)) v XOR gf_multiply F (fst (rows ! j) ! i) (dot F n (fst (rows ! i)) v)
      else dot F n (fst (rows ! j)) v)" if "j < n" for j v
    using nth [OF that] l [OF that] l [OF assms(4)] by (simp add: dot_xor)
  have "kernel F n (map fst ?m) v = kernel F n (map fst rows) v" for v
  proof
    assume "kernel F n (map fst ?m) v"
    then have k: "dot F n (fst (?m ! j)) v = 0" if "j < n" for j using that ln by (simp add: kernel_nth)
    from k [OF assms(4)] d [OF assms(4)] have "dot F n (fst (rows ! i)) v = 0" by simp
    with k d have "dot F n (fst (rows ! j)) v = 0" if "j < n" for j using that by (metis mul_zero(1) xor.right_neutral)
    then show "kernel F n (map fst rows) v" using n by (simp add: kernel_nth)
  next
    assume "kernel F n (map fst rows) v"
    then show "kernel F n (map fst ?m) v" using n ln d assms(4) by (simp add: kernel_nth mul_zero)
  qed
  then have "rows_inv F n A ?m" using assms(1) p ln by (auto simp: rows_inv_def all_set_conv_all_nth)
  moreover have "upper n (Suc i) (map fst ?m)"
    using assms(2-4) n ln l by (auto simp: upper_fst nth less_Suc_eq mul_zero mul_one) (metis mul_comm mul_one xor_self_byte(1))+
  ultimately show ?thesis by blast
qed

lemma triangular_ok:
  assumes "triangular F [i..<n] rows = (ok, rows')" "rows_inv F n A rows" "upper n i (map fst rows)" "i \<le> n"
  shows "rows_inv F n A rows' \<and> (if ok then upper n n (map fst rows')
     else \<exists>c<n. upper n c (map fst rows') \<and> (\<forall>j<n. c \<le> j \<longrightarrow> fst (rows' ! j) ! c = 0))"
  using assms
proof (induction "n - i" arbitrary: i rows)
  case (Suc m)
  then have i: "i < n" "[i..<n] = i # [Suc i..<n]" by (auto simp: upt_conv_Cons)
  show ?case
  proof (cases "swap_row i rows")
    case None
    with Suc.prems i have "ok = False" "rows' = rows" by auto
    moreover have "length rows = n" using Suc.prems(2) by (simp add: rows_inv_def)
    ultimately show ?thesis using swap_row_none [OF None] Suc.prems(2,3) i(1) by auto
  next
    case (Some m1)
    let ?m = "clear_below F i (m1[i := scale_row F i (m1 ! i)])"
    from swap_row_ok [OF Some Suc.prems(2,3) i(1)] scale_row_ok [of n A m1 i] clear_below_ok [of n A "m1[i := scale_row F i (m1 ! i)]" i] i(1)
    have "rows_inv F n A ?m" "upper n (Suc i) (map fst ?m)" by auto
    moreover have "triangular F [Suc i..<n] ?m = (ok, rows')" using Suc.prems(1) i(2) Some by simp
    ultimately show ?thesis using Suc.hyps(1) [of "Suc i" ?m] Suc.hyps(2) i(1) by simp
  qed
qed simp

lemma dot_upd: "k < n \<Longrightarrow> dot F n r (v(k := x)) = dot F n r v XOR gf_multiply F (r ! k) (v k XOR x)"
proof -
  assume k: "k < n"
  have "dot F n r v XOR dot F n r (v(k := x)) = xsum (\<lambda>j. if j = k then gf_multiply F (r ! j) (v k XOR x) else 0) n"
    unfolding dot_def xsum_xor [symmetric] by (rule xsum_cong) (auto simp: mul_xor)
  then have "dot F n r v XOR dot F n r (v(k := x)) = gf_multiply F (r ! k) (v k XOR x)" using xsum_single [OF k] by simp
  then show ?thesis by (metis xor_self_byte(2))
qed

lemma upper_solve:
  assumes "upper n c M" "c < n" "k \<le> c"
  shows "\<exists>v. v c = 1 \<and> (\<forall>x>c. v x = 0) \<and> (\<forall>j. k \<le> j \<and> j < c \<longrightarrow> dot F n (M ! j) v = 0)"
  using assms(3)
proof (induction rule: inc_induct)
  case base
  show ?case by (rule exI [of _ "\<lambda>x. if x = c then 1 else 0"]) auto
next
  case (step k)
  then obtain v where v: "v c = 1" "\<forall>x>c. v x = 0" "\<forall>j. Suc k \<le> j \<and> j < c \<longrightarrow> dot F n (M ! j) v = 0" by blast
  have k: "k < n" "M ! k ! k = 1" using step.hyps assms(1,2) by (auto simp: upper_def)
  let ?v = "v(k := v k XOR dot F n (M ! k) v)"
  have "dot F n (M ! j) ?v = 0" if "k \<le> j" "j < c" for j
  proof (cases "j = k")
    case True
    then show ?thesis using k by (simp add: dot_upd mul_one)
  next
    case False
    then have "M ! j ! k = 0" using that step.hyps assms(1,2) by (auto simp: upper_def)
    then show ?thesis using False that v(3) k(1) by (simp add: dot_upd mul_zero)
  qed
  moreover have "?v c = 1" "\<forall>x>c. ?v x = 0" using v(1,2) step.hyps by auto
  ultimately show ?case by blast
qed

lemma singular:
  assumes "upper n c M" "c < n" "\<forall>j<n. c \<le> j \<longrightarrow> M ! j ! c = 0" "length M = n"
  shows "\<exists>v. v c = 1 \<and> kernel F n M v"
proof -
  obtain v where v: "v c = 1" "\<forall>x>c. v x = 0" "\<forall>j. 0 \<le> j \<and> j < c \<longrightarrow> dot F n (M ! j) v = 0"
    using upper_solve [OF assms(1,2), of 0] by auto
  have "dot F n (M ! j) v = 0" if "j < n" for j
  proof (cases "j < c")
    case False
    have "dot F n (M ! j) v = xsum (\<lambda>_. 0) n"
      unfolding dot_def
    proof (rule xsum_cong)
      fix x assume x: "x < n"
      consider "x < c" | "x = c" | "c < x" by linarith
      then show "gf_multiply F (M ! j ! x) (v x) = 0"
        using False that assms(1,3) v(2) by cases (auto simp: upper_def mul_zero)
    qed
    then show ?thesis by simp
  qed (use v(3) in simp)
  then show ?thesis using v(1) assms(4) by (auto simp: kernel_def all_set_conv_all_nth)
qed

text \<open>The second loop: the columns from \<open>i\<close> on are zero above the diagonal.\<close>

lemma clear_above_ok:
  assumes "length rows = n" "\<forall>p \<in> set rows. pair_ok F n A p" "upper n n (map fst rows)" "i < n"
    and "\<forall>c<n. Suc i \<le> c \<longrightarrow> (\<forall>j<c. fst (rows ! j) ! c = 0)"
  defines "m \<equiv> clear_above F i rows"
  shows "length m = n \<and> (\<forall>p \<in> set m. pair_ok F n A p) \<and> upper n n (map fst m) \<and> (\<forall>c<n. i \<le> c \<longrightarrow> (\<forall>j<c. fst (m ! j) ! c = 0))"
proof -
  have po: "pair_ok F n A (fst (rows ! j), snd (rows ! j))" if "j < n" for j using assms(1,2) that by simp
  then have l: "length (fst (rows ! j)) = n" "length (snd (rows ! j)) = n" if "j < n" for j using that by (auto simp: pair_ok_def case_prod_unfold)
  have nth: "m ! j = (if j < i \<and> fst (rows ! j) ! i \<noteq> 0
      then ((fst (rows ! j))[i := 0], map2 (\<lambda>x y. x XOR gf_multiply F (fst (rows ! j) ! i) y) (snd (rows ! j)) (snd (rows ! i)))
      else rows ! j)" if "j < n" for j
    using that assms(1) by (simp add: m_def clear_above_def Let_def case_prod_unfold single_multiply)
  have ln: "length m = n" using assms(1) by (simp add: m_def clear_above_def)
  have u: "fst (rows ! c) ! c = 1" "\<And>j. j < n \<Longrightarrow> c < j \<Longrightarrow> fst (rows ! j) ! c = 0" if "c < n" for c
    using assms(1,3) that by (auto simp: upper_fst)
  have unit: "dot F n (fst (rows ! i)) v = v i" for v
  proof (rule dot_unit [OF assms(4)])
    fix j assume "j < n"
    then show "fst (rows ! i) ! j = (if j = i then 1 else 0)" using u assms(4,5) by (cases j i rule: linorder_cases) auto
  qed
  have "pair_ok F n A (m ! j)" if "j < n" for j
  proof (cases "j < i \<and> fst (rows ! j) ! i \<noteq> 0")
    case True
    have si: "dot F n (snd (rows ! i)) (\<lambda>l. dot F n (A ! l) v) = v i" for v using po [OF assms(4)] unit by (simp add: pair_ok_def case_prod_unfold)
    have e: "dot F n (fst (rows ! j)) v = dot F n (snd (rows ! j)) (\<lambda>l. dot F n (A ! l) v)" for v
      using po [OF that] by (simp add: pair_ok_def case_prod_unfold)
    show ?thesis using True l [OF that] l [OF assms(4)] assms(4)
      by (simp add: nth [OF that] pair_ok_def dot_update dot_xor si e)
  qed (use nth that po in auto)
  moreover have "upper n n (map fst m)"
    using u ln l assms(4) by (auto simp: upper_fst nth nth_list_update)
  moreover have "fst (m ! j) ! c = 0" if "c < n" "i \<le> c" "j < c" for c j
    using that assms(5) l assms(4) by (cases "c = i") (auto simp: nth nth_list_update)
  ultimately show ?thesis using ln by (auto simp: all_set_conv_all_nth)
qed

lemma clear_all:
  assumes "length rows = n" "\<forall>p \<in> set rows. pair_ok F n A p" "upper n n (map fst rows)" "i \<le> n"
  defines "m \<equiv> \<lambda>i. fold (clear_above F) (rev [i..<n]) rows"
  shows "length (m i) = n \<and> (\<forall>p \<in> set (m i). pair_ok F n A p) \<and> upper n n (map fst (m i)) \<and> (\<forall>c<n. i \<le> c \<longrightarrow> (\<forall>j<c. fst (m i ! j) ! c = 0))"
  using assms(4)
proof (induction rule: inc_induct)
  case base
  show ?case using assms(1-3) by (simp add: m_def)
next
  case (step i)
  have "m i = clear_above F i (m (Suc i))" using step.hyps by (simp add: m_def upt_conv_Cons)
  with clear_above_ok [of "m (Suc i)" n A i] step show ?case by simp
qed

lemma invert_matrix_ok:
  assumes "length A = n" "\<forall>r \<in> set A. length r = n" "jerasure_invert_matrix F A n = (ok, B)"
  shows "if ok then length B = n \<and> (\<forall>i<n. length (B ! i) = n) \<and> (\<forall>v. \<forall>i<n. dot F n (B ! i) (\<lambda>l. dot F n (A ! l) v) = v i)
     else \<exists>v. (\<exists>i<n. v i \<noteq> 0) \<and> kernel F n A v"
proof -
  let ?rows = "zip A (map (identity_row n) [0..<n])"
  have nth: "?rows ! j = (A ! j, identity_row n j)" if "j < n" for j using that assms(1) by simp
  have f: "map fst ?rows = A" using assms(1) by (simp add: map_fst_zip)
  have "pair_ok F n A (?rows ! j)" if "j < n" for j
    using that assms(1,2) nth [OF that] dot_unit [OF that, of "identity_row n j"]
    by (auto simp: pair_ok_def identity_row_def)
  then have inv: "rows_inv F n A ?rows" using assms(1) f by (auto simp: rows_inv_def all_set_conv_all_nth)
  obtain ok' rows where t: "triangular F [0..<n] ?rows = (ok', rows)" by fastforce
  note t' = triangular_ok [OF t inv] 
  have up: "upper n 0 (map fst ?rows)" by (simp add: upper_def)
  note tr = t' [OF up le0]
  have ln: "length rows = n" using tr by (simp add: rows_inv_def)
  show ?thesis
  proof (cases ok')
    case True
    let ?m = "fold (clear_above F) (rev [0..<n]) rows"
    have B: "ok = True" "B = map snd ?m" using assms(3) t True by (simp_all add: jerasure_invert_matrix_def)
    have "\<forall>p \<in> set rows. pair_ok F n A p" "upper n n (map fst rows)" using tr True by (auto simp: rows_inv_def)
    note c = clear_all [OF ln this le0]
    have po: "pair_ok F n A (fst (?m ! i), snd (?m ! i))" if "i < n" for i using c that by simp
    have "dot F n (snd (?m ! i)) (\<lambda>l. dot F n (A ! l) v) = v i" if i: "i < n" for v i
    proof -
      have "fst (?m ! i) ! j = (if j = i then 1 else 0)" if "j < n" for j
        using c that i upper_fst [of ?m n n] by (cases j i rule: linorder_cases) auto
      from dot_unit [OF i this] po [OF i] show ?thesis by (simp add: pair_ok_def case_prod_unfold)
    qed
    then show ?thesis using B c po by (simp add: pair_ok_def case_prod_unfold)
  next
    case False
    then have "\<not> ok" using assms(3) t by (simp add: jerasure_invert_matrix_def)
    from tr False obtain c where c: "c < n" "upper n c (map fst rows)" "\<forall>j<n. c \<le> j \<longrightarrow> fst (rows ! j) ! c = 0" by auto
    from singular [OF c(2,1)] c(3) ln obtain v where "v c = 1" "kernel F n (map fst rows) v" by auto
    moreover have "kernel F n (map fst rows) v = kernel F n A v" for v using tr by (simp add: rows_inv_def)
    ultimately show ?thesis using \<open>\<not> ok\<close> c(1) by (metis zero_neq_one)
  qed
qed

end

section \<open>The inversion\<close>

text \<open>C22: In every field that keeps the laws of the arithmetic, \<open>jerasure_invert_matrix\<close> succeeds on a square matrix exactly
  if the matrix is regular (no vector but zero is mapped to zero), and then what it leaves in the second array is a left
  inverse: applied to the product of the matrix with any vector it gives the vector.\<close>

theorem inversion_exact:
  assumes "galois_field F" "length A = n" "\<forall>r \<in> set A. length r = n"
  shows "(fst (jerasure_invert_matrix F A n) \<longleftrightarrow> (\<forall>v. kernel F n A v \<longrightarrow> (\<forall>i<n. v i = 0)))
     \<and> (fst (jerasure_invert_matrix F A n) \<longrightarrow>
          (\<forall>v. \<forall>i<n. dot F n (snd (jerasure_invert_matrix F A n) ! i) (\<lambda>l. dot F n (A ! l) v) = v i))"
proof -
  obtain ok B where b: "jerasure_invert_matrix F A n = (ok, B)" by fastforce
  note r = galois_field.invert_matrix_ok [OF assms(1-3) b]
  have "v i = 0" if "ok" "kernel F n A v" "i < n" for v i
  proof -
    have "dot F n (A ! l) v = 0" if "l < n" for l using \<open>kernel F n A v\<close> that assms(2) by (simp add: kernel_def)
    then have "dot F n (B ! i) (\<lambda>l. dot F n (A ! l) v) = 0" by (rule galois_field.dot_zero [OF assms(1)])
    then show ?thesis using r \<open>ok\<close> \<open>i < n\<close> by auto
  qed
  then show ?thesis using r b by (auto split: if_splits)
qed

theorem inversion_exact_witness:
  "fst (jerasure_invert_matrix gf_w8 [[0, 1], [1, 2]] 2) \<and> \<not> fst (jerasure_invert_matrix gf_w8 [[1, 2], [1, 2]] 2)
   \<and> (\<forall>v. dot gf_w8 2 (snd (jerasure_invert_matrix gf_w8 [[0, 1], [1, 2]] 2) ! 1) (\<lambda>l. dot gf_w8 2 ([[0, 1], [1, 2]] ! l) v) = v 1)"
proof -
  have "fst (jerasure_invert_matrix gf_w8 [[0, 1], [1, 2]] 2)" "\<not> fst (jerasure_invert_matrix gf_w8 [[1, 2], [1, 2]] 2)" by code_simp+
  then show ?thesis using inversion_exact [OF w8.galois_field_axioms, of "[[0, 1], [1, 2]]" 2] by simp
qed

end
