(* ===== verification/Ecdag.thy ===== *)
theory Ecdag
  imports Jerasure
begin

unbundle bit_operations_syntax

text \<open>
  The graph of a coding operation (\<^verbatim>\<open>storage/src/ec\<close>: \<^verbatim>\<open>ECDAG.cc\<close>, \<^verbatim>\<open>ECNode.cc\<close>, \<^verbatim>\<open>Cluster.cc\<close>, \<^verbatim>\<open>ECTask.cc\<close>). A node stands for
  a sub-block; its children and coefficients say of which sub-blocks it is a linear combination. The coordinator sorts
  the graph and makes a list of compute tasks of it. A pointer to a node is the identifier of the node; an
  \<open>unordered_map\<close> is an association list, walked in the order that a parameter \<open>ord\<close> gives.
\<close>

section \<open>Nodes\<close>

record ecnode =
  en_childs :: "nat list"
  en_coefs :: "(nat \<times> byte list) list"
  en_refs :: "(nat \<times> int) list"

definition new_ecnode :: ecnode where
  "new_ecnode = \<lparr>en_childs = [], en_coefs = [], en_refs = []\<rparr>"

definition addCoefs :: "nat \<Rightarrow> byte list \<Rightarrow> ecnode \<Rightarrow> ecnode" where
  "addCoefs calfor coefs nd = nd\<lparr>en_coefs := AList.update calfor coefs (en_coefs nd)\<rparr>"

definition cleanChilds :: "ecnode \<Rightarrow> ecnode" where
  "cleanChilds nd = nd\<lparr>en_childs := [], en_coefs := []\<rparr>"

text \<open>The recursion follows a chain of bind nodes; \<open>fuel\<close> is the number of nodes.\<close>

fun incRefNumFor :: "nat \<Rightarrow> nat \<Rightarrow> nat \<Rightarrow> (nat \<times> ecnode) list \<Rightarrow> (nat \<times> ecnode) list option" where
  "incRefNumFor 0 nid i nodes = None"
| "incRefNumFor (Suc fuel) nid i nodes = do {
     nd \<leftarrow> map_of nodes nid;
     let r = (case map_of (en_refs nd) i of None \<Rightarrow> 1 | Some x \<Rightarrow> x + 1);
     let nodes = AList.update nid (nd\<lparr>en_refs := AList.update i r (en_refs nd)\<rparr>) nodes;
     case en_childs nd of
       [c] \<Rightarrow> do {
         cn \<leftarrow> map_of nodes c;
         if 1 < length (en_coefs cn) then incRefNumFor fuel c i nodes else Some nodes
       }
     | _ \<Rightarrow> Some nodes
   }"

section \<open>The graph\<close>

record cluster =
  cl_childs :: "nat list"
  cl_parents :: "nat list"
  cl_opted :: int

record ecdag =
  dg_nodes :: "(nat \<times> ecnode) list"
  dg_headers :: "nat list"
  dg_clusters :: "cluster list"

definition new_ecdag :: ecdag where
  "new_ecdag = \<lparr>dg_nodes = [], dg_headers = [], dg_clusters = []\<rparr>"

definition childsInCluster :: "nat list \<Rightarrow> cluster \<Rightarrow> bool" where
  "childsInCluster childs cl = (length childs = length (cl_childs cl) \<and> list_all (\<lambda>c. c \<in> set (cl_childs cl)) childs)"

fun join_cluster :: "nat list \<Rightarrow> nat \<Rightarrow> cluster list \<Rightarrow> cluster list" where
  "join_cluster childs pidx [] = [\<lparr>cl_childs = sort childs, cl_parents = [pidx], cl_opted = -1\<rparr>]"
| "join_cluster childs pidx (cl # cls) =
     (if childsInCluster childs cl then cl\<lparr>cl_parents := cl_parents cl @ [pidx]\<rparr> # cls else cl # join_cluster childs pidx cls)"

definition join_child :: "nat \<Rightarrow> ecdag \<Rightarrow> ecdag option" where
  "join_child c d = do {
     let nodes = (if map_of (dg_nodes d) c = None then dg_nodes d @ [(c, new_ecnode)] else dg_nodes d);
     nodes \<leftarrow> incRefNumFor (Suc (length nodes)) c c nodes;
     Some (d\<lparr>dg_nodes := nodes, dg_headers := remove1 c (dg_headers d)\<rparr>)
   }"

fun join_children :: "nat list \<Rightarrow> ecdag \<Rightarrow> ecdag option" where
  "join_children [] d = Some d"
| "join_children (c # cs) d = do { d \<leftarrow> join_child c d; join_children cs d }"

definition Join :: "nat \<Rightarrow> nat list \<Rightarrow> byte list \<Rightarrow> ecdag \<Rightarrow> ecdag option" where
  "Join pidx cidx coefs d = do {
     d \<leftarrow> join_children cidx d;
     let d = (case map_of (dg_nodes d) pidx of
                None \<Rightarrow> d\<lparr>dg_nodes := dg_nodes d @ [(pidx, addCoefs pidx coefs (new_ecnode\<lparr>en_childs := cidx\<rparr>))],
                          dg_headers := dg_headers d @ [pidx]\<rparr>
              | Some nd \<Rightarrow> d\<lparr>dg_nodes := AList.update pidx (addCoefs pidx coefs ((cleanChilds nd)\<lparr>en_childs := cidx\<rparr>)) (dg_nodes d)\<rparr>);
     Some (d\<lparr>dg_clusters := join_cluster (sort cidx) pidx (dg_clusters d)\<rparr>)
   }"

fun joins :: "(nat \<times> nat list \<times> byte list) list \<Rightarrow> ecdag \<Rightarrow> ecdag option" where
  "joins [] d = Some d"
| "joins ((p, cs, co) # js) d = do { d \<leftarrow> Join p cs co d; joins js d }"

definition getLeaves :: "ecdag \<Rightarrow> nat list" where
  "getLeaves d = sort (map fst (filter (\<lambda>(i, nd). en_childs nd = []) (dg_nodes d)))"

section \<open>Sorting\<close>

definition child2Parent :: "(nat \<times> ecnode) list \<Rightarrow> nat \<Rightarrow> nat list" where
  "child2Parent nodes c = concat (map (\<lambda>(i, nd). map (\<lambda>_. i) (filter (\<lambda>x. x = c) (en_childs nd))) nodes)"

text \<open>The parents of a node that was taken out, each with one incoming edge less. An \<open>erase\<close> of what is not in the list
  is undefined.\<close>

fun lower_parents :: "nat list \<Rightarrow> (int \<Rightarrow> nat list) \<times> (nat \<Rightarrow> int) \<Rightarrow> ((int \<Rightarrow> nat list) \<times> (nat \<Rightarrow> int)) option" where
  "lower_parents [] s = Some s"
| "lower_parents (p # ps) (l, num) =
     (let cur = num p; upd = cur - 1; l' = l(cur := remove1 p (l cur)) in
      if p \<in> set (l cur) then lower_parents ps (l'(upd := l' upd @ [p]), num(p := upd)) else None)"

fun toposort_loop :: "nat \<Rightarrow> (nat \<times> ecnode) list \<Rightarrow> nat list \<Rightarrow> (int \<Rightarrow> nat list) \<times> (nat \<Rightarrow> int) \<Rightarrow> nat list option" where
  "toposort_loop fuel nodes out (l, num) =
     (if l 0 = [] then Some out
      else case fuel of
        0 \<Rightarrow> None
      | Suc fuel \<Rightarrow> do {
          s \<leftarrow> lower_parents (concat (map (child2Parent nodes) (l 0))) (l(0 := []), num);
          toposort_loop fuel nodes (out @ l 0) s
        })"

text \<open>Every round of the loop takes out a node, so the number of nodes is fuel enough.\<close>

definition toposort :: "((nat \<times> ecnode) list \<Rightarrow> (nat \<times> ecnode) list) \<Rightarrow> ecdag \<Rightarrow> nat list option" where
  "toposort ord d =
     (let nodes = ord (dg_nodes d);
          num = (\<lambda>i. case map_of nodes i of None \<Rightarrow> 0 | Some nd \<Rightarrow> int (length (en_childs nd)));
          l = (\<lambda>m. map fst (filter (\<lambda>(i, nd). int (length (en_childs nd)) = m) nodes))
      in toposort_loop (length nodes) nodes [] (l, num))"

section \<open>Tasks\<close>

record ectask =
  et_children :: "nat list"
  et_coefs :: "(nat \<times> byte list) list"

definition parseForClient :: "ecdag \<Rightarrow> nat \<Rightarrow> ectask list option" where
  "parseForClient d i = do {
     nd \<leftarrow> map_of (dg_nodes d) i;
     compute \<leftarrow> (case en_childs nd of
                  [] \<Rightarrow> Some False
                | [c] \<Rightarrow> do {
                    cn \<leftarrow> map_of (dg_nodes d) c;
                    Some (if 1 < length (en_coefs cn) then False
                          else if length (en_coefs cn) = 1 then True else length (en_coefs nd) = 1)
                  }
                | _ \<Rightarrow> Some True);
     Some (if compute then [\<lparr>et_children = en_childs nd, et_coefs = en_coefs nd\<rparr>] else [])
   }"

fun parse_tasks :: "ecdag \<Rightarrow> nat list \<Rightarrow> ectask list option" where
  "parse_tasks d [] = Some []"
| "parse_tasks d (i # is) = do { t \<leftarrow> parseForClient d i; ts \<leftarrow> parse_tasks d is; Some (t @ ts) }"

section \<open>The order of the tasks\<close>

definition childs_of :: "(nat \<times> ecnode) list \<Rightarrow> nat \<Rightarrow> nat list" where
  "childs_of nodes p = (case map_of nodes p of None \<Rightarrow> [] | Some nd \<Rightarrow> en_childs nd)"

lemma count_parents: "distinct (map fst nodes) \<Longrightarrow> count_list (child2Parent nodes c) p = count_list (childs_of nodes p) c"
proof (induction nodes)
  case (Cons n nodes)
  obtain i nd where n: "n = (i, nd)" by fastforce
  have *: "count_list (map (\<lambda>_. i) (filter (\<lambda>x. x = c) xs)) p = (if i = p then count_list xs c else 0)" for xs
    by (induction xs) auto
  have "map_of nodes i = None" using Cons.prems n by (simp add: map_of_eq_None_iff)
  then show ?case using Cons n by (auto simp: child2Parent_def childs_of_def *)
qed (simp add: child2Parent_def childs_of_def)

text \<open>The nodes of \<open>T\<close> have been put out; the edges from nodes of \<open>P\<close> are taken away, apart from those to the parents
  \<open>ps\<close> that are still to come.\<close>

definition topo_ok :: "(nat \<times> ecnode) list \<Rightarrow> nat set \<Rightarrow> nat set \<Rightarrow> nat list \<Rightarrow> (int \<Rightarrow> nat list) \<Rightarrow> (nat \<Rightarrow> int) \<Rightarrow> bool" where
  "topo_ok nodes T P ps l num =
     ((\<forall>p \<in> fst ` set nodes. num p = int (length (filter (\<lambda>c. c \<notin> P) (childs_of nodes p)) + count_list ps p))
      \<and> (\<forall>m. distinct (l m)) \<and> (\<forall>m p. p \<in> set (l m) \<longleftrightarrow> p \<in> fst ` set nodes \<and> p \<notin> T \<and> num p = m))"

lemma lower_ok:
  assumes "topo_ok nodes T P ps l num" "\<forall>p \<in> set ps. p \<in> fst ` set nodes \<and> p \<notin> T"
  shows "\<exists>l' num'. lower_parents ps (l, num) = Some (l', num') \<and> topo_ok nodes T P [] l' num'"
  using assms
proof (induction ps arbitrary: l num)
  case (Cons p ps)
  let ?cur = "num p" and ?l = "l(num p := remove1 p (l (num p)))"
  let ?l2 = "?l(?cur - 1 := ?l (?cur - 1) @ [p])" and ?num = "num(p := ?cur - 1)"
  have p: "p \<in> set (l ?cur)" using Cons.prems by (auto simp: topo_ok_def)
  have d: "distinct (l m)" and m: "\<And>q. q \<in> set (l m) \<longleftrightarrow> q \<in> fst ` set nodes \<and> q \<notin> T \<and> num q = m" for m
    using Cons.prems(1) by (auto simp: topo_ok_def)
  have "topo_ok nodes T P ps ?l2 ?num"
    unfolding topo_ok_def
  proof (intro conjI ballI allI)
    fix q assume "q \<in> fst ` set nodes"
    then show "?num q = int (length (filter (\<lambda>c. c \<notin> P) (childs_of nodes q)) + count_list ps q)"
      using Cons.prems(1) by (auto simp: topo_ok_def)
  next
    fix k show "distinct (?l2 k)" using d m p by (auto simp: distinct_remove1)
  next
    fix k q show "q \<in> set (?l2 k) \<longleftrightarrow> q \<in> fst ` set nodes \<and> q \<notin> T \<and> ?num q = k"
      using d m p Cons.prems(2) by (auto simp: set_remove1_eq)
  qed
  then have "\<exists>l' num'. lower_parents ps (?l2, ?num) = Some (l', num') \<and> topo_ok nodes T P [] l' num'"
    by (rule Cons.IH) (use Cons.prems(2) in simp)
  then show ?case by (simp only: lower_parents.simps Let_def p if_True)
qed auto

lemma count_zero:
  assumes "distinct zs" "set zs \<inter> T = {}"
  shows "length (filter (\<lambda>c. c \<notin> T) xs) = length (filter (\<lambda>c. c \<notin> T \<union> set zs) xs) + sum_list (map (count_list xs) zs)"
proof (induction xs)
  case Nil
  have "sum_list (map (count_list []) zs) = 0" by (induction zs) auto
  then show ?case by simp
next
  case (Cons x xs)
  have "sum_list (map (count_list (x # xs)) zs) = sum_list (map (count_list xs) zs) + (if x \<in> set zs then 1 else 0)"
    using assms(1) by (induction zs) auto
  with Cons assms(2) show ?case by (auto simp del: count_list.simps)
qed

lemma count_list_concat_map: "count_list (concat (map f zs)) p = sum_list (map (\<lambda>z. count_list (f z) p) zs)"
  by (induction zs) auto

lemma round_ok:
  assumes "topo_ok nodes T T [] l num" "distinct (map fst nodes)" "\<forall>p \<in> T. set (childs_of nodes p) \<subseteq> T"
  defines "ps \<equiv> concat (map (child2Parent nodes) (l 0))"
  shows "topo_ok nodes (T \<union> set (l 0)) (T \<union> set (l 0)) ps (l(0 := [])) num
     \<and> (\<forall>p \<in> set ps. p \<in> fst ` set nodes \<and> p \<notin> T \<union> set (l 0)) \<and> (\<forall>z \<in> set (l 0). set (childs_of nodes z) \<subseteq> T)"
proof -
  have num: "num p = int (length (filter (\<lambda>c. c \<notin> T) (childs_of nodes p)))" if "p \<in> fst ` set nodes" for p
    using assms(1) that by (auto simp: topo_ok_def)
  have l: "distinct (l m)" "p \<in> set (l m) \<longleftrightarrow> p \<in> fst ` set nodes \<and> p \<notin> T \<and> num p = m" for m p
    using assms(1) by (auto simp: topo_ok_def)
  have z: "set (childs_of nodes z) \<subseteq> T" if "z \<in> set (l 0)" for z
    using that num [of z] l(2) [of z 0] by (auto simp: filter_empty_conv)
  have c: "count_list ps p = sum_list (map (count_list (childs_of nodes p)) (l 0))" for p
    unfolding ps_def count_list_concat_map using count_parents [OF assms(2)] by simp
  have e: "length (filter (\<lambda>c. c \<notin> T) (childs_of nodes p))
      = length (filter (\<lambda>c. c \<notin> T \<union> set (l 0)) (childs_of nodes p)) + count_list ps p" for p
    unfolding c by (rule count_zero) (use l in auto)
  have "topo_ok nodes (T \<union> set (l 0)) (T \<union> set (l 0)) ps (l(0 := [])) num"
    unfolding topo_ok_def
  proof (intro conjI ballI allI)
    show "num p = int (length (filter (\<lambda>c. c \<notin> T \<union> set (l 0)) (childs_of nodes p)) + count_list ps p)" if "p \<in> fst ` set nodes" for p
      using num [OF that] e [of p] by argo
    show "distinct ((l(0 := [])) m)" for m using l(1) by simp
    show "p \<in> set ((l(0 := [])) m) \<longleftrightarrow> p \<in> fst ` set nodes \<and> p \<notin> T \<union> set (l 0) \<and> num p = m" for m p
      using l(2) [of p m] l(2) [of p 0] by (cases "m = 0") auto
  qed
  moreover have "p \<in> fst ` set nodes \<and> p \<notin> T \<union> set (l 0)" if p: "p \<in> set ps" for p
  proof -
    from p obtain x where x: "x \<in> set (l 0)" "p \<in> set (child2Parent nodes x)" by (auto simp: ps_def)
    then have "x \<in> set (childs_of nodes p)" using count_parents [OF assms(2), of x p] by (metis count_list_0_iff)
    moreover have "x \<notin> T" using x(1) l(2) by blast
    ultimately have "p \<notin> T" "p \<notin> set (l 0)" using assms(3) z by blast+
    moreover have "p \<in> fst ` set nodes" using x(2) by (force simp: child2Parent_def)
    ultimately show ?thesis by simp
  qed
  ultimately show ?thesis using z by blast
qed

text \<open>Every node comes after its children.\<close>

definition ordered_nodes :: "(nat \<times> ecnode) list \<Rightarrow> nat list \<Rightarrow> bool" where
  "ordered_nodes nodes xs = (\<forall>as p bs. xs = as @ p # bs \<longrightarrow> set (childs_of nodes p) \<subseteq> set as)"

lemma ordered_append:
  assumes "ordered_nodes nodes xs" "\<forall>z \<in> set zs. set (childs_of nodes z) \<subseteq> set xs"
  shows "ordered_nodes nodes (xs @ zs)"
  unfolding ordered_nodes_def
proof (intro allI impI)
  fix as p bs assume "xs @ zs = as @ p # bs"
  then consider us where "xs = as @ p # us" | us where "as = xs @ us" "zs = us @ p # bs"
    by (auto simp: append_eq_append_conv2 append_eq_Cons_conv)
  then show "set (childs_of nodes p) \<subseteq> set as"
    using assms by cases (auto simp: ordered_nodes_def)
qed

lemma ordered_closed: "ordered_nodes nodes xs \<Longrightarrow> p \<in> set xs \<Longrightarrow> set (childs_of nodes p) \<subseteq> set xs"
proof -
  assume o: "ordered_nodes nodes xs" and "p \<in> set xs"
  then obtain as bs where "xs = as @ p # bs" by (meson split_list)
  with o have "set (childs_of nodes p) \<subseteq> set as" "set as \<subseteq> set xs" by (auto simp: ordered_nodes_def)
  then show "set (childs_of nodes p) \<subseteq> set xs" by blast
qed

lemma toposort_loop_ok:
  assumes "topo_ok nodes (set out) (set out) [] l num" "distinct (map fst nodes)" "ordered_nodes nodes out" "distinct out"
    and "set out \<subseteq> fst ` set nodes" "length nodes - length out \<le> fuel"
    and acyclic: "\<forall>p \<in> fst ` set nodes. \<forall>c \<in> set (childs_of nodes p). c \<in> fst ` set nodes \<and> (rank c :: nat) < rank p"
  shows "\<exists>seq. toposort_loop fuel nodes out (l, num) = Some seq \<and> distinct seq \<and> set seq = fst ` set nodes \<and> ordered_nodes nodes seq"
  using assms(1,3-6)
proof (induction fuel arbitrary: out l num)
  case (0 out l num)
  have "length nodes = card (fst ` set nodes)" "length out = card (set out)"
    using distinct_card [OF assms(2)] distinct_card [OF 0(3)] by simp_all
  then have "set out = fst ` set nodes" using 0(4,5) by (intro card_seteq) auto
  moreover have "p \<notin> set (l 0)" for p using 0(1) \<open>set out = fst ` set nodes\<close> unfolding topo_ok_def by metis
  then have "l 0 = []" by (cases "l 0") auto
  ultimately show ?case using 0 by simp
next
  case (Suc fuel out l num)
  have m: "p \<in> set (l k) \<longleftrightarrow> p \<in> fst ` set nodes \<and> p \<notin> set out \<and> num p = k" for k p using Suc.prems(1) by (auto simp: topo_ok_def)
  show ?case
  proof (cases "l 0 = []")
    case True
    have "set out = fst ` set nodes"
    proof (rule ccontr)
      assume "set out \<noteq> fst ` set nodes"
      then obtain q where "q \<in> fst ` set nodes - set out" using Suc.prems(4) by blast
      from ex_has_least_nat [of "\<lambda>x. x \<in> fst ` set nodes - set out", OF this, of rank] obtain p where
        p: "p \<in> fst ` set nodes - set out" "\<And>q. q \<in> fst ` set nodes - set out \<Longrightarrow> rank p \<le> rank q" by blast
      then have "set (childs_of nodes p) \<subseteq> set out" using acyclic by (fastforce simp: not_le [symmetric])
      then have "filter (\<lambda>c. c \<notin> set out) (childs_of nodes p) = []" by (auto simp: filter_empty_conv)
      moreover have "num p = int (length (filter (\<lambda>c. c \<notin> set out) (childs_of nodes p)) + count_list [] p)"
        using Suc.prems(1) p(1) unfolding topo_ok_def by blast
      ultimately have "num p = 0" by simp
      then show False using m [of p 0] p(1) True by simp
    qed
    with Suc.prems True show ?thesis by simp
  next
    case False
    let ?ps = "concat (map (child2Parent nodes) (l 0))"
    have cl: "\<forall>p \<in> set out. set (childs_of nodes p) \<subseteq> set out" using ordered_closed [OF Suc.prems(2)] by blast
    note r = round_ok [OF Suc.prems(1) assms(2) cl]
    from lower_ok [of nodes "set out \<union> set (l 0)" "set out \<union> set (l 0)" ?ps "l(0 := [])" num] r obtain l' num' where
      n: "lower_parents ?ps (l(0 := []), num) = Some (l', num')" "topo_ok nodes (set (out @ l 0)) (set (out @ l 0)) [] l' num'" by auto
    have o: "ordered_nodes nodes (out @ l 0)" using ordered_append [OF Suc.prems(2)] r by blast
    have d: "distinct (out @ l 0)" using Suc.prems(1,3) m by (auto simp: topo_ok_def)
    have s: "set (out @ l 0) \<subseteq> fst ` set nodes" using Suc.prems(4) m by auto
    have f: "length nodes - length (out @ l 0) \<le> fuel" using Suc.prems(5) False by (cases "l 0") auto
    from Suc.IH [OF n(2) o d s f] n(1) False show ?thesis by simp
  qed
qed

lemma toposort_ok:
  assumes "distinct (map fst (dg_nodes d))" "mset (ord (dg_nodes d)) = mset (dg_nodes d)"
    and acyclic: "\<forall>p \<in> fst ` set (dg_nodes d). \<forall>c \<in> set (childs_of (dg_nodes d) p). c \<in> fst ` set (dg_nodes d) \<and> (rank c :: nat) < rank p"
  obtains seq where "toposort ord d = Some seq" "distinct seq" "set seq = fst ` set (dg_nodes d)" "ordered_nodes (dg_nodes d) seq"
proof -
  let ?n = "ord (dg_nodes d)"
  have s: "set ?n = set (dg_nodes d)" using assms(2) by (metis set_mset_mset)
  have dis: "distinct (map fst ?n)" using assms(1,2) by (metis mset_map mset_eq_imp_distinct_iff)
  have mo: "map_of ?n = map_of (dg_nodes d)" using map_of_inject_set [OF dis assms(1)] s by simp
  have ch: "childs_of ?n = childs_of (dg_nodes d)" by (simp add: childs_of_def fun_eq_iff mo)
  let ?num = "\<lambda>i. case map_of ?n i of None \<Rightarrow> 0 | Some nd \<Rightarrow> int (length (en_childs nd))"
  let ?l = "\<lambda>m. map fst (filter (\<lambda>(i, nd). int (length (en_childs nd)) = m) ?n)"
  have "distinct (?l m)" for m using dis by (simp add: distinct_map inj_on_def)
  moreover have "p \<in> set (?l m) \<longleftrightarrow> p \<in> fst ` set ?n \<and> ?num p = m" for m p
    using dis by (force simp: map_of_is_SomeI)
  moreover have "?num p = int (length (childs_of ?n p))" for p by (simp add: childs_of_def split: option.splits)
  ultimately have t: "topo_ok ?n (set []) (set []) [] ?l ?num" by (simp add: topo_ok_def)
  have "ordered_nodes ?n []" by (simp add: ordered_nodes_def)
  from toposort_loop_ok [OF t dis this, of "length ?n" rank] acyclic s ch that show thesis
    by (auto simp: toposort_def Let_def ordered_nodes_def)
qed

section \<open>What \<open>Join\<close> builds\<close>

text \<open>What the computation sees of a node.\<close>

definition node_view :: "(nat \<times> ecnode) list \<Rightarrow> nat \<Rightarrow> (nat list \<times> (nat \<times> byte list) list) option" where
  "node_view nodes i = map_option (\<lambda>nd. (en_childs nd, en_coefs nd)) (map_of nodes i)"

text \<open>A graph without bind nodes.\<close>

definition plain_nodes :: "(nat \<times> ecnode) list \<Rightarrow> bool" where
  "plain_nodes nodes = (distinct (map fst nodes) \<and>
     (\<forall>i cs co. node_view nodes i = Some (cs, co) \<longrightarrow> length co \<le> 1 \<and> (\<forall>c \<in> set cs. node_view nodes c \<noteq> None)))"

lemma node_view_None: "node_view nodes i = None \<longleftrightarrow> i \<notin> fst ` set nodes"
  by (simp add: node_view_def map_of_eq_None_iff)

lemma childs_view: "childs_of nodes i = (case node_view nodes i of None \<Rightarrow> [] | Some (cs, co) \<Rightarrow> cs)"
  by (simp add: childs_of_def node_view_def split: option.splits)

lemma view_update: "node_view (AList.update k nd nodes) = (node_view nodes)(k \<mapsto> (en_childs nd, en_coefs nd))"
  by (auto simp: node_view_def update_conv' fun_eq_iff)

lemma view_snoc: "node_view nodes k = None \<Longrightarrow> node_view (nodes @ [(k, nd)]) = (node_view nodes)(k \<mapsto> (en_childs nd, en_coefs nd))"
  by (auto simp: node_view_def fun_eq_iff map_add_def split: option.splits)

lemma inc_ok:
  assumes "plain_nodes nodes" "node_view nodes i \<noteq> None"
  shows "\<exists>nodes'. incRefNumFor (Suc f) i x nodes = Some nodes' \<and> node_view nodes' = node_view nodes \<and> map fst nodes' = map fst nodes"
proof -
  from assms(2) obtain nd where nd: "map_of nodes i = Some nd" by (auto simp: node_view_def)
  let ?nd = "nd\<lparr>en_refs := AList.update x (case map_of (en_refs nd) x of None \<Rightarrow> 1 | Some y \<Rightarrow> y + 1) (en_refs nd)\<rparr>"
  let ?nodes = "AList.update i ?nd nodes"
  have v: "node_view ?nodes = node_view nodes" using nd by (auto simp: view_update fun_eq_iff node_view_def)
  have k: "map fst ?nodes = map fst nodes" using nd by (force simp: update_keys dest: map_of_SomeD)
  have "(case en_childs nd of [c] \<Rightarrow> do { cn \<leftarrow> map_of ?nodes c; if 1 < length (en_coefs cn) then incRefNumFor f c x ?nodes else Some ?nodes }
      | _ \<Rightarrow> Some ?nodes) = Some ?nodes"
  proof (cases "\<exists>c. en_childs nd = [c]")
    case True
    then obtain c where c: "en_childs nd = [c]" by blast
    have "node_view nodes i = Some ([c], en_coefs nd)" using nd c by (simp add: node_view_def)
    then have "node_view nodes c \<noteq> None" using assms(1) unfolding plain_nodes_def by fastforce
    then obtain cn where cn: "map_of ?nodes c = Some cn" using fun_cong [OF v, of c] by (auto simp: node_view_def)
    then have "node_view nodes c = Some (en_childs cn, en_coefs cn)" using fun_cong [OF v, of c] by (simp add: node_view_def)
    then have "length (en_coefs cn) \<le> 1" using assms(1) by (auto simp: plain_nodes_def)
    then show ?thesis using c cn by simp
  qed (auto split: list.splits)
  then show ?thesis using nd v k by (simp add: Let_def)
qed

lemma plain_same: "plain_nodes nodes \<Longrightarrow> node_view nodes' = node_view nodes \<Longrightarrow> map fst nodes' = map fst nodes \<Longrightarrow> plain_nodes nodes'"
  by (simp add: plain_nodes_def)

lemma plain_new_node:
  assumes "plain_nodes nodes" "node_view nodes c = None"
  shows "plain_nodes (nodes @ [(c, new_ecnode)])"
proof -
  have v: "node_view (nodes @ [(c, new_ecnode)]) = (node_view nodes)(c \<mapsto> ([], []))"
    using view_snoc [OF assms(2)] by (simp add: new_ecnode_def)
  have "c \<notin> set (map fst nodes)" using assms(2) by (simp add: node_view_None)
  then show ?thesis using assms(1) unfolding plain_nodes_def v by (auto split: if_splits)
qed

text \<open>The leaves that are missing are added.\<close>

definition with_leaves :: "nat set \<Rightarrow> (nat \<Rightarrow> (nat list \<times> (nat \<times> byte list) list) option) \<Rightarrow> nat \<Rightarrow> (nat list \<times> (nat \<times> byte list) list) option" where
  "with_leaves C f i = (if i \<in> C \<and> f i = None then Some ([], []) else f i)"

lemma join_child_ok:
  assumes "plain_nodes (dg_nodes d)"
  shows "\<exists>d'. join_child c d = Some d' \<and> plain_nodes (dg_nodes d') \<and> node_view (dg_nodes d') = with_leaves {c} (node_view (dg_nodes d))"
proof -
  let ?nodes = "if map_of (dg_nodes d) c = None then dg_nodes d @ [(c, new_ecnode)] else dg_nodes d"
  have p: "plain_nodes ?nodes" using plain_new_node [OF assms] assms by (simp add: node_view_def)
  have v: "node_view ?nodes = with_leaves {c} (node_view (dg_nodes d))"
    using view_snoc [of "dg_nodes d" c new_ecnode] by (auto simp: with_leaves_def new_ecnode_def node_view_def fun_eq_iff)
  then have "node_view ?nodes c \<noteq> None" by (auto simp: with_leaves_def)
  from inc_ok [OF p this, of "length ?nodes" c] obtain nodes' where
    n: "incRefNumFor (Suc (length ?nodes)) c c ?nodes = Some nodes'" "node_view nodes' = node_view ?nodes" "map fst nodes' = map fst ?nodes" by blast
  have "join_child c d = Some (d\<lparr>dg_nodes := nodes', dg_headers := remove1 c (dg_headers d)\<rparr>)"
    unfolding join_child_def Let_def n(1) by simp
  then show ?thesis using plain_same [OF p n(2,3)] n(2) v by simp
qed

lemma with_leaves_with_leaves: "with_leaves C (with_leaves D f) = with_leaves (C \<union> D) f"
  by (auto simp: with_leaves_def fun_eq_iff)

lemma join_children_ok:
  assumes "plain_nodes (dg_nodes d)"
  shows "\<exists>d'. join_children cs d = Some d' \<and> plain_nodes (dg_nodes d') \<and> node_view (dg_nodes d') = with_leaves (set cs) (node_view (dg_nodes d))"
  using assms
proof (induction cs arbitrary: d)
  case Nil
  then show ?case by (simp add: with_leaves_def fun_eq_iff)
next
  case (Cons c cs)
  from join_child_ok [OF Cons.prems, of c] obtain d1 where
    d1: "join_child c d = Some d1" "plain_nodes (dg_nodes d1)" "node_view (dg_nodes d1) = with_leaves {c} (node_view (dg_nodes d))" by blast
  from Cons.IH [OF d1(2)] d1 show ?case by (auto simp: with_leaves_with_leaves)
qed

lemma Join_ok:
  assumes "plain_nodes (dg_nodes d)"
  shows "\<exists>d'. Join p cs co d = Some d' \<and> plain_nodes (dg_nodes d')
     \<and> node_view (dg_nodes d') = (with_leaves (set cs) (node_view (dg_nodes d)))(p \<mapsto> (cs, [(p, co)]))"
proof -
  from join_children_ok [OF assms, of cs] obtain d1 where
    d1: "join_children cs d = Some d1" "plain_nodes (dg_nodes d1)" "node_view (dg_nodes d1) = with_leaves (set cs) (node_view (dg_nodes d))" by blast
  define nodes where "nodes = (case map_of (dg_nodes d1) p of
      None \<Rightarrow> dg_nodes d1 @ [(p, addCoefs p co (new_ecnode\<lparr>en_childs := cs\<rparr>))]
    | Some nd \<Rightarrow> AList.update p (addCoefs p co ((cleanChilds nd)\<lparr>en_childs := cs\<rparr>)) (dg_nodes d1))"
  have v: "node_view nodes = (node_view (dg_nodes d1))(p \<mapsto> (cs, [(p, co)]))"
  proof (cases "map_of (dg_nodes d1) p")
    case None
    then have "node_view (dg_nodes d1) p = None" by (simp add: node_view_def)
    from view_snoc [OF this] None show ?thesis by (simp add: nodes_def addCoefs_def new_ecnode_def)
  qed (simp add: nodes_def view_update addCoefs_def cleanChilds_def)
  have di: "distinct (map fst (dg_nodes d1))" using d1(2) by (simp add: plain_nodes_def)
  then have k: "distinct (map fst nodes)"
    by (auto simp: nodes_def map_of_eq_None_iff distinct_update split: option.splits)
  have "\<forall>c \<in> set cs. node_view (dg_nodes d1) c \<noteq> None" using d1(3) by (auto simp: with_leaves_def)
  then have "plain_nodes nodes" using d1(2) k unfolding plain_nodes_def v by (auto split: if_splits)
  moreover have "\<exists>d'. Join p cs co d = Some d' \<and> dg_nodes d' = nodes"
    unfolding Join_def d1(1) nodes_def by (cases "map_of (dg_nodes d1) p") (auto simp: Let_def)
  ultimately show ?thesis using v d1(3) by auto
qed

text \<open>A graph of one level: the parents are no children.\<close>

definition one_level :: "(nat \<times> nat list \<times> byte list) list \<Rightarrow> bool" where
  "one_level js = (distinct (map fst js) \<and> (\<forall>(p, cs, co) \<in> set js. \<forall>c \<in> set cs. c \<notin> fst ` set js))"

lemma one_level_child: "one_level js \<Longrightarrow> (p, cs, co) \<in> set js \<Longrightarrow> c \<in> set cs \<Longrightarrow> c \<notin> fst ` set js"
  unfolding one_level_def by (drule conjunct2, drule bspec [where x = "(p, cs, co)"]) auto

definition level_view :: "(nat \<times> nat list \<times> byte list) list \<Rightarrow> nat \<Rightarrow> (nat list \<times> (nat \<times> byte list) list) option" where
  "level_view js i = (case map_of js i of
      Some (cs, co) \<Rightarrow> Some (cs, [(i, co)])
    | None \<Rightarrow> if \<exists>(p, cs, co) \<in> set js. i \<in> set cs then Some ([], []) else None)"

lemma joins_ok:
  assumes "distinct (map fst js)" "\<forall>(p, cs, co) \<in> set js. \<forall>c \<in> set cs. c \<notin> fst ` set js" "plain_nodes (dg_nodes d)"
  shows "\<exists>d'. joins js d = Some d' \<and> plain_nodes (dg_nodes d') \<and> node_view (dg_nodes d') = (\<lambda>i. case map_of js i of
      Some (cs, co) \<Rightarrow> Some (cs, [(i, co)])
    | None \<Rightarrow> with_leaves (\<Union>(p, cs, co) \<in> set js. set cs) (node_view (dg_nodes d)) i)"
  using assms
proof (induction js arbitrary: d)
  case Nil
  then show ?case by (auto simp: with_leaves_def)
next
  case (Cons j js)
  obtain p cs co where j: "j = (p, cs, co)" by (cases j) auto
  from Join_ok [OF Cons.prems(3), of p cs co] obtain d1 where d1: "Join p cs co d = Some d1" "plain_nodes (dg_nodes d1)"
    "node_view (dg_nodes d1) = (with_leaves (set cs) (node_view (dg_nodes d)))(p \<mapsto> (cs, [(p, co)]))" by blast
  have p: "p \<notin> fst ` set js" "p \<notin> (\<Union>(p, cs, co) \<in> set js. set cs)" using Cons.prems(1,2) j by auto
  have IH: "\<exists>d'. joins js d1 = Some d' \<and> plain_nodes (dg_nodes d') \<and> node_view (dg_nodes d') = (\<lambda>i. case map_of js i of
      Some (cs, co) \<Rightarrow> Some (cs, [(i, co)])
    | None \<Rightarrow> with_leaves (\<Union>(p, cs, co) \<in> set js. set cs) (node_view (dg_nodes d1)) i)"
  proof (rule Cons.IH [OF _ _ d1(2)])
    show "distinct (map fst js)" using Cons.prems(1) by simp
    show "\<forall>(p, cs, co) \<in> set js. \<forall>c \<in> set cs. c \<notin> fst ` set js"
      using Cons.prems(2) by (simp add: case_prod_unfold)
  qed
  have n: "map_of js p = None" using p(1) by (simp add: map_of_eq_None_iff)
  have "(case map_of js i of Some (cs, co) \<Rightarrow> Some (cs, [(i, co)])
      | None \<Rightarrow> with_leaves (\<Union>(p, cs, co) \<in> set js. set cs) (node_view (dg_nodes d1)) i)
    = (case map_of (j # js) i of Some (cs, co) \<Rightarrow> Some (cs, [(i, co)])
      | None \<Rightarrow> with_leaves (\<Union>(p, cs, co) \<in> set (j # js). set cs) (node_view (dg_nodes d)) i)" for i
    using n p(2) by (cases "i = p"; cases "map_of js i") (auto simp: j d1(3) with_leaves_def)
  with IH d1(1) j show ?case by simp
qed

lemma joins_level:
  assumes "one_level js"
  obtains d where "joins js new_ecdag = Some d" "plain_nodes (dg_nodes d)" "node_view (dg_nodes d) = level_view js"
proof -
  have n: "plain_nodes (dg_nodes new_ecdag)" "node_view (dg_nodes new_ecdag) = (\<lambda>_. None)"
    by (auto simp: plain_nodes_def new_ecdag_def node_view_def)
  have "(\<lambda>i. case map_of js i of Some (cs, co) \<Rightarrow> Some (cs, [(i, co)])
      | None \<Rightarrow> with_leaves (\<Union>(p, cs, co) \<in> set js. set cs) (node_view (dg_nodes new_ecdag)) i) = level_view js"
    by (auto simp: level_view_def with_leaves_def n(2) fun_eq_iff split: option.splits)
  with joins_ok [of js new_ecdag] assms n(1) that show thesis by (auto simp: one_level_def)
qed

section \<open>The tasks of a graph of one level\<close>

definition level_task :: "(nat \<times> nat list \<times> byte list) list \<Rightarrow> nat \<Rightarrow> ectask" where
  "level_task js i = (case map_of js i of
      Some (cs, co) \<Rightarrow> \<lparr>et_children = cs, et_coefs = [(i, co)]\<rparr> | None \<Rightarrow> \<lparr>et_children = [], et_coefs = []\<rparr>)"

text \<open>A task with \<open>k\<close> children and a single target, of nodes below \<open>b\<close>.\<close>

definition small_task :: "nat \<Rightarrow> nat \<Rightarrow> ectask \<Rightarrow> bool" where
  "small_task b k t = (length (et_children t) = k \<and> (\<forall>c \<in> set (et_children t). c < b) \<and> (\<exists>i co. et_coefs t = [(i, co)] \<and> i < b \<and> length co = k))"

lemma level_small:
  assumes "i \<in> fst ` set js" "\<And>p cs co. (p, cs, co) \<in> set js \<Longrightarrow> p < b \<and> length cs = k \<and> length co = k \<and> (\<forall>c \<in> set cs. c < b)"
  shows "small_task b k (level_task js i)"
proof -
  from assms(1) obtain cs co where m: "map_of js i = Some (cs, co)" by (metis map_of_eq_None_iff not_None_eq prod.exhaust)
  then have "(i, cs, co) \<in> set js" by (simp add: map_of_SomeD)
  from assms(2) [OF this] m show ?thesis by (simp add: small_task_def level_task_def)
qed

lemma parse_level:
  assumes "node_view (dg_nodes d) = level_view js" "one_level js" "\<forall>(p, cs, co) \<in> set js. cs \<noteq> []" "node_view (dg_nodes d) i \<noteq> None"
  shows "parseForClient d i = Some (if i \<in> fst ` set js then [level_task js i] else [])"
proof -
  from assms(4) obtain nd where nd: "map_of (dg_nodes d) i = Some nd" by (auto simp: node_view_def)
  then have v: "level_view js i = Some (en_childs nd, en_coefs nd)" using fun_cong [OF assms(1), of i] by (simp add: node_view_def)
  show ?thesis
  proof (cases "map_of js i")
    case None
    then have "en_childs nd = []" using v by (auto simp: level_view_def split: if_splits)
    moreover have "i \<notin> fst ` set js" using None by (simp add: map_of_eq_None_iff)
    ultimately show ?thesis using nd by (simp add: parseForClient_def)
  next
    case (Some x)
    obtain cs co where x: "x = (cs, co)" by fastforce
    have js: "(i, cs, co) \<in> set js" using Some x by (simp add: map_of_SomeD)
    have n: "en_childs nd = cs" "en_coefs nd = [(i, co)]" using v Some x by (auto simp: level_view_def)
    have ne: "cs \<noteq> []" using assms(3) js by auto
    have leaf: "\<exists>cn. map_of (dg_nodes d) c = Some cn \<and> en_coefs cn = []" if "c \<in> set cs" for c
    proof -
      have "c \<notin> fst ` set js" using one_level_child [OF assms(2) js that] .
      then have "map_of js c = None" by (simp add: map_of_eq_None_iff)
      then have "level_view js c = Some ([], [])" using js that by (auto simp: level_view_def)
      then show ?thesis using fun_cong [OF assms(1), of c] by (auto simp: node_view_def)
    qed
    have "i \<in> fst ` set js" using js by force
    moreover have "level_task js i = \<lparr>et_children = cs, et_coefs = [(i, co)]\<rparr>" using Some x by (simp add: level_task_def)
    moreover have "parseForClient d i = Some [\<lparr>et_children = cs, et_coefs = [(i, co)]\<rparr>]"
      using nd n ne leaf by (auto simp: parseForClient_def split: list.splits)
    ultimately show ?thesis by simp
  qed
qed

lemma level_tasks:
  assumes "node_view (dg_nodes d) = level_view js" "plain_nodes (dg_nodes d)" "one_level js" "\<forall>(p, cs, co) \<in> set js. cs \<noteq> []"
    and "mset (ord (dg_nodes d)) = mset (dg_nodes d)"
  obtains seq ids where "toposort ord d = Some seq" "parse_tasks d seq = Some (map (level_task js) ids)" "distinct ids" "set ids = fst ` set js"
proof -
  let ?rank = "\<lambda>i. if i \<in> fst ` set js then 1 else 0 :: nat"
  have ch: "c \<in> fst ` set (dg_nodes d) \<and> ?rank c < ?rank p" if c: "c \<in> set (childs_of (dg_nodes d) p)" for p c
  proof -
    from c obtain cs co where js: "map_of js p = Some (cs, co)" "c \<in> set cs"
      by (auto simp: childs_view assms(1) level_view_def split: option.splits if_splits)
    then have m: "(p, cs, co) \<in> set js" by (simp add: map_of_SomeD)
    then have "c \<notin> fst ` set js" "p \<in> fst ` set js" using one_level_child [OF assms(3) m js(2)] by force+
    moreover have "level_view js c \<noteq> None" using m js(2) by (auto simp: level_view_def split: option.splits)
    then have "c \<in> fst ` set (dg_nodes d)" using node_view_None [of "dg_nodes d" c] assms(1) by auto
    ultimately show ?thesis by simp
  qed
  then have ac: "\<forall>p \<in> fst ` set (dg_nodes d). \<forall>c \<in> set (childs_of (dg_nodes d) p). c \<in> fst ` set (dg_nodes d) \<and> ?rank c < ?rank p" by blast
  have di: "distinct (map fst (dg_nodes d))" using assms(2) by (simp add: plain_nodes_def)
  obtain seq where s: "toposort ord d = Some seq" "distinct seq" "set seq = fst ` set (dg_nodes d)"
    by (rule toposort_ok [where d = d and ord = ord and rank = ?rank, OF di assms(5) ac])
  have p: "parse_tasks d xs = Some (map (level_task js) (filter (\<lambda>i. i \<in> fst ` set js) xs))" if "set xs \<subseteq> fst ` set (dg_nodes d)" for xs
    using that
  proof (induction xs)
    case (Cons i xs)
    then have "node_view (dg_nodes d) i \<noteq> None" using node_view_None by auto
    from parse_level [OF assms(1,3,4) this] Cons show ?case by auto
  qed simp
  have "fst ` set js \<subseteq> set seq"
  proof
    fix i assume "i \<in> fst ` set js"
    then have "level_view js i \<noteq> None" by (auto simp: level_view_def map_of_eq_None_iff split: option.splits)
    then show "i \<in> set seq" using node_view_None [of "dg_nodes d" i] assms(1) s(3) by auto
  qed
  then have "set (filter (\<lambda>i. i \<in> fst ` set js) seq) = fst ` set js" by auto
  moreover have "parse_tasks d seq = Some (map (level_task js) (filter (\<lambda>i. i \<in> fst ` set js) seq))" using p s(3) by simp
  ultimately show thesis using that [OF s(1)] s(2) distinct_filter by blast
qed

lemma level_leaves:
  assumes "node_view (dg_nodes d) = level_view js" "plain_nodes (dg_nodes d)" "one_level js" "\<forall>(p, cs, co) \<in> set js. cs \<noteq> []"
  shows "set (getLeaves d) = (\<Union>(p, cs, co) \<in> set js. set cs)"
proof -
  have di: "distinct (map fst (dg_nodes d))" using assms(2) by (simp add: plain_nodes_def)
  have "i \<in> set (getLeaves d) \<longleftrightarrow> (\<exists>nd. (i, nd) \<in> set (dg_nodes d) \<and> en_childs nd = [])" for i
    by (auto simp: getLeaves_def image_iff)
  then have "i \<in> set (getLeaves d) \<longleftrightarrow> (\<exists>co. node_view (dg_nodes d) i = Some ([], co))" for i
    by (simp add: node_view_def map_of_eq_Some_iff [OF di, symmetric])
  moreover have "(\<exists>co. level_view js i = Some ([], co)) \<longleftrightarrow> i \<in> (\<Union>(p, cs, co) \<in> set js. set cs)" for i
  proof (cases "map_of js i")
    case None
    then show ?thesis by (auto simp: level_view_def)
  next
    case (Some x)
    then have "(i, x) \<in> set js" by (simp add: map_of_SomeD)
    then have "i \<in> fst ` set js" "fst x \<noteq> []" using assms(4) by force+
    then have "i \<notin> (\<Union>(p, cs, co) \<in> set js. set cs)" using one_level_child [OF assms(3)] by blast
    then show ?thesis using Some \<open>fst x \<noteq> []\<close> by (cases x) (auto simp: level_view_def)
  qed
  ultimately show ?thesis using assms(1) by (auto simp: set_eq_iff)
qed

section \<open>Sorting ends\<close>

text \<open>C24: \<open>toposort\<close> of a graph without cycles ends and never erases what is not there, in whatever order the map of the
  nodes is walked; the sequence has every node once, after all its children, so that each task finds its data.\<close>

theorem toposort_complete:
  assumes "distinct (map fst (dg_nodes d))" "\<And>xs. mset (ord xs) = mset xs"
    and "\<forall>p \<in> fst ` set (dg_nodes d). \<forall>c \<in> set (childs_of (dg_nodes d) p). c \<in> fst ` set (dg_nodes d) \<and> (rank c :: nat) < rank p"
  shows "\<exists>seq. toposort ord d = Some seq \<and> distinct seq \<and> set seq = fst ` set (dg_nodes d)
     \<and> (\<forall>as p bs. seq = as @ p # bs \<longrightarrow> set (childs_of (dg_nodes d) p) \<subseteq> set as)"
  by (rule toposort_ok [where d = d and ord = ord and rank = rank, OF assms(1) assms(2) assms(3)])
    (auto simp: ordered_nodes_def)

theorem toposort_complete_witness:
  "\<exists>seq. toposort rev (the (joins [(4, [0, 1], [1, 1]), (5, [4, 2], [1, 3])] new_ecdag)) = Some seq \<and> distinct seq \<and> set seq = {0, 1, 2, 4, 5}"
proof -
  let ?d = "the (joins [(4, [0, 1], [1, 1]), (5, [4, 2], [1, 3])] new_ecdag)"
  have n: "map fst (dg_nodes ?d) = [0, 1, 4, 2, 5]" "list_all (\<lambda>p. list_all (\<lambda>c. c \<in> set [0, 1, 4, 2, 5] \<and> c < p) (childs_of (dg_nodes ?d) p)) [0, 1, 4, 2, 5]"
    by code_simp+
  have "fst ` set (dg_nodes ?d) = set [0, 1, 4, 2, 5]" using n(1) by (metis set_map)
  moreover have "\<forall>p \<in> set [0, 1, 4, 2, 5]. \<forall>c \<in> set (childs_of (dg_nodes ?d) p). c \<in> set [0, 1, 4, 2, 5] \<and> id c < id p"
    using n(2) unfolding list_all_iff by simp
  moreover have "distinct (map fst (dg_nodes ?d))" unfolding n(1) by simp
  ultimately obtain seq where "toposort rev ?d = Some seq" "distinct seq" "set seq = set [0, 1, 4, 2, 5]"
    using toposort_complete [of ?d rev id] by (metis mset_rev)
  then show ?thesis by (auto simp: insert_commute)
qed

end
