(* ===== verification/Destor.thy ===== *)
theory Destor
  imports Prelude Complex_Main
begin

unbundle bit_operations_syntax

text \<open>
  The shared data of the deduplication engine: constants and types of
  \<^verbatim>\<open>src/destor/src/destor.h\<close>, the constructors and comparison functions of
  \<^verbatim>\<open>src/destor/src/destor.c\<close> and the job control record of \<^verbatim>\<open>src/destor/src/jcr.c\<close>.

  Sizes, counters and identifiers (\<open>int32_t\<close>, \<open>int64_t\<close>) are mathematical integers;
  the flag word is kept at its width because the code tests and sets its bits. The data
  pointer of a chunk is \<open>None\<close> for \<open>NULL\<close> and otherwise the bytes it points to. The
  floating-point configuration values are real numbers.
\<close>

section \<open>Constants\<close>

definition TEMPORARY_ID :: int where "TEMPORARY_ID = -1"

abbreviation CHUNK_UNIQUE :: "32 word" where "CHUNK_UNIQUE \<equiv> 0x0000"
abbreviation CHUNK_DUPLICATE :: "32 word" where "CHUNK_DUPLICATE \<equiv> 0x0100"
abbreviation CHUNK_SPARSE :: "32 word" where "CHUNK_SPARSE \<equiv> 0x0200"
abbreviation CHUNK_OUT_OF_ORDER :: "32 word" where "CHUNK_OUT_OF_ORDER \<equiv> 0x0400"
abbreviation CHUNK_IN_CACHE :: "32 word" where "CHUNK_IN_CACHE \<equiv> 0x0800"
abbreviation CHUNK_REWRITE_DENIED :: "32 word" where "CHUNK_REWRITE_DENIED \<equiv> 0x1000"
abbreviation CHUNK_FILE_START :: "32 word" where "CHUNK_FILE_START \<equiv> 0x0001"
abbreviation CHUNK_FILE_END :: "32 word" where "CHUNK_FILE_END \<equiv> 0x0002"
abbreviation CHUNK_SEGMENT_START :: "32 word" where "CHUNK_SEGMENT_START \<equiv> 0x0004"
abbreviation CHUNK_SEGMENT_END :: "32 word" where "CHUNK_SEGMENT_END \<equiv> 0x0008"
abbreviation CHUNK_WAIT :: "32 word" where "CHUNK_WAIT \<equiv> 0x0010"
abbreviation CHUNK_READY :: "32 word" where "CHUNK_READY \<equiv> 0x0020"

datatype simulation_level = SIMULATION_NO | SIMULATION_RESTORE | SIMULATION_APPEND | SIMULATION_ALL

instantiation simulation_level :: linorder
begin

fun sim_rank :: "simulation_level \<Rightarrow> nat" where
  "sim_rank SIMULATION_NO = 0"
| "sim_rank SIMULATION_RESTORE = 1"
| "sim_rank SIMULATION_APPEND = 2"
| "sim_rank SIMULATION_ALL = 3"

definition less_eq_simulation_level :: "simulation_level \<Rightarrow> simulation_level \<Rightarrow> bool" where
  "less_eq_simulation_level a b = (sim_rank a \<le> sim_rank b)"

definition less_simulation_level :: "simulation_level \<Rightarrow> simulation_level \<Rightarrow> bool" where
  "less_simulation_level a b = (sim_rank a < sim_rank b)"

instance
proof
  fix x y z :: simulation_level
  show "(x < y) = (x \<le> y \<and> \<not> y \<le> x)" "x \<le> x" "x \<le> y \<or> y \<le> x"
    by (auto simp: less_eq_simulation_level_def less_simulation_level_def)
  show "x \<le> y \<Longrightarrow> y \<le> z \<Longrightarrow> x \<le> z"
    by (auto simp: less_eq_simulation_level_def)
  show "x \<le> y \<Longrightarrow> y \<le> x \<Longrightarrow> x = y"
    by (cases x; cases y) (auto simp: less_eq_simulation_level_def)
qed

end

datatype chunk_algorithm = CHUNK_FIXED | CHUNK_RABIN | CHUNK_NORMALIZED_RABIN | CHUNK_FILE
  | CHUNK_AE | CHUNK_TTTD
datatype index_exactness = INDEX_CATEGORY_EXACT | INDEX_CATEGORY_NEAR_EXACT
datatype index_locality = INDEX_CATEGORY_PHYSICAL_LOCALITY | INDEX_CATEGORY_LOGICAL_LOCALITY
datatype index_sampling = INDEX_SAMPLING_RANDOM | INDEX_SAMPLING_MIN | INDEX_SAMPLING_UNIFORM
  | INDEX_SAMPLING_OPTIMIZED_MIN
datatype index_segment = INDEX_SEGMENT_FIXED | INDEX_SEGMENT_CONTENT_DEFINED
  | INDEX_SEGMENT_FILE_DEFINED
datatype index_selection = INDEX_SEGMENT_SELECT_BASE | INDEX_SEGMENT_SELECT_TOP
  | INDEX_SEGMENT_SELECT_MIX
datatype index_specific = INDEX_SPECIFIC_NO | INDEX_SPECIFIC_DDFS | INDEX_SPECIFIC_EXTREME_BINNING
  | INDEX_SPECIFIC_SILO | INDEX_SPECIFIC_SPARSE | INDEX_SPECIFIC_SAMPLED
  | INDEX_SPECIFIC_BLOCK_LOCALITY_CACHING
datatype restore_cache = RESTORE_CACHE_LRU | RESTORE_CACHE_OPT | RESTORE_CACHE_ASM
datatype rewrite_algorithm = REWRITE_NO | REWRITE_CFL_SELECTIVE_DEDUPLICATION
  | REWRITE_CONTEXT_BASED | REWRITE_CAPPING

section \<open>Configuration\<close>

record destor =
  simulation_level :: simulation_level
  chunk_algorithm :: chunk_algorithm
  chunk_max_size :: int
  chunk_min_size :: int
  chunk_avg_size :: int
  restore_cache0 :: restore_cache
  restore_cache1 :: int
  restore_opt_window_size :: int
  index_category0 :: index_exactness
  index_category1 :: index_locality
  index_specific :: index_specific
  index_cache_size :: int
  index_sampling_method0 :: index_sampling
  index_sampling_method1 :: int
  index_value_length :: nat
  index_key_size :: nat
  index_segment_algorithm0 :: index_segment
  index_segment_algorithm1 :: int
  index_segment_min :: int
  index_segment_max :: int
  index_segment_selection_method0 :: index_selection
  index_segment_selection_method1 :: int
  index_segment_prefech :: int
  rewrite_algorithm0 :: rewrite_algorithm
  rewrite_algorithm1 :: int
  rewrite_enable_cfl_switch :: bool
  rewrite_cfl_require :: real
  rewrite_cfl_usage_threshold :: real
  rewrite_cbr_limit :: real
  rewrite_cbr_minimal_utility :: real
  rewrite_capping_level :: int
  rewrite_enable_har :: bool
  rewrite_har_utilization_threshold :: real
  rewrite_har_rewrite_limit :: real
  rewrite_enable_cache_aware :: bool
  backup_retention_time :: int

text \<open>The values \<open>destor_start\<close> assigns before the configuration file is read; the fields
  it does not assign have the zero of static storage.\<close>

definition destor_start_config :: destor where
  "destor_start_config = \<lparr>
     simulation_level = SIMULATION_NO, chunk_algorithm = CHUNK_RABIN,
     chunk_max_size = 65536, chunk_min_size = 1024, chunk_avg_size = 8192,
     restore_cache0 = RESTORE_CACHE_LRU, restore_cache1 = 1024, restore_opt_window_size = 1000000,
     index_category0 = INDEX_CATEGORY_NEAR_EXACT,
     index_category1 = INDEX_CATEGORY_PHYSICAL_LOCALITY,
     index_specific = INDEX_SPECIFIC_NO, index_cache_size = 4096,
     index_sampling_method0 = INDEX_SAMPLING_UNIFORM, index_sampling_method1 = 1,
     index_value_length = 1, index_key_size = 20,
     index_segment_algorithm0 = INDEX_SEGMENT_FIXED, index_segment_algorithm1 = 1024,
     index_segment_min = 128, index_segment_max = 10240,
     index_segment_selection_method0 = INDEX_SEGMENT_SELECT_TOP,
     index_segment_selection_method1 = 1, index_segment_prefech = 0,
     rewrite_algorithm0 = REWRITE_NO, rewrite_algorithm1 = 1024,
     rewrite_enable_cfl_switch = False, rewrite_cfl_require = 0,
     rewrite_cfl_usage_threshold = 0, rewrite_cbr_limit = 0, rewrite_cbr_minimal_utility = 0,
     rewrite_capping_level = 0,
     rewrite_enable_har = False, rewrite_har_utilization_threshold = 1 / 2,
     rewrite_har_rewrite_limit = 1 / 20, rewrite_enable_cache_aware = False,
     backup_retention_time = -1\<rparr>"

definition check_simulation_level :: "simulation_level \<Rightarrow> simulation_level \<Rightarrow> bool" where
  "check_simulation_level last_level current_level =
     (\<not> ((last_level \<le> SIMULATION_RESTORE \<and> current_level \<ge> SIMULATION_APPEND)
        \<or> (last_level \<ge> SIMULATION_APPEND \<and> current_level \<le> SIMULATION_RESTORE)))"

section \<open>Chunks\<close>

record chunk =
  ck_size :: int
  ck_flag :: "32 word"
  ck_id :: containerid
  ck_fp :: fingerprint
  ck_data :: "byte list option"

definition SET_CHUNK :: "chunk \<Rightarrow> 32 word \<Rightarrow> chunk" where
  "SET_CHUNK c f = c\<lparr>ck_flag := ck_flag c OR f\<rparr>"

definition UNSET_CHUNK :: "chunk \<Rightarrow> 32 word \<Rightarrow> chunk" where
  "UNSET_CHUNK c f = c\<lparr>ck_flag := ck_flag c AND NOT f\<rparr>"

definition CHECK_CHUNK :: "chunk \<Rightarrow> 32 word \<Rightarrow> bool" where
  "CHECK_CHUNK c f = (ck_flag c AND f \<noteq> 0)"

text \<open>\<open>malloc(size)\<close> leaves the bytes unspecified: they are the parameter \<open>junk\<close>.\<close>

definition new_chunk :: "(nat \<Rightarrow> byte) \<Rightarrow> int \<Rightarrow> chunk" where
  "new_chunk junk sz = \<lparr>ck_size = sz, ck_flag = CHUNK_UNIQUE, ck_id = TEMPORARY_ID,
     ck_fp = replicate 20 0,
     ck_data = (if sz > 0 then Some (map junk [0..<nat sz]) else None)\<rparr>"

abbreviation is_file_signal :: "chunk \<Rightarrow> bool" where
  "is_file_signal c \<equiv> CHECK_CHUNK c CHUNK_FILE_START \<or> CHECK_CHUNK c CHUNK_FILE_END"

abbreviation is_signal :: "chunk \<Rightarrow> bool" where
  "is_signal c \<equiv> CHECK_CHUNK c CHUNK_FILE_START \<or> CHECK_CHUNK c CHUNK_FILE_END
     \<or> CHECK_CHUNK c CHUNK_SEGMENT_START \<or> CHECK_CHUNK c CHUNK_SEGMENT_END"

lemma and_or_ne0 [simp]:
  fixes a :: "'a::len word"
  shows "((a OR f) AND g = 0) = (a AND g = 0 \<and> f AND g = 0)"
  by (auto simp: bit_eq_iff bit_simps)

lemma check_set [flag_simps]:
  "CHECK_CHUNK (SET_CHUNK c f) g = (CHECK_CHUNK c g \<or> f AND g \<noteq> 0)"
  by (simp add: CHECK_CHUNK_def SET_CHUNK_def)

lemma check_unset_same [flag_simps]: "\<not> CHECK_CHUNK (UNSET_CHUNK c f) f"
  by (auto simp: CHECK_CHUNK_def UNSET_CHUNK_def bit_eq_iff bit_simps)

lemma check_id_upd [flag_simps]: "CHECK_CHUNK (c\<lparr>ck_id := i\<rparr>) g = CHECK_CHUNK c g"
  by (simp add: CHECK_CHUNK_def)

lemma check_data_upd [flag_simps]: "CHECK_CHUNK (c\<lparr>ck_data := d\<rparr>) g = CHECK_CHUNK c g"
  by (simp add: CHECK_CHUNK_def)

lemma check_fp_upd [flag_simps]: "CHECK_CHUNK (c\<lparr>ck_fp := d\<rparr>) g = CHECK_CHUNK c g"
  by (simp add: CHECK_CHUNK_def)

lemma check_size_upd [flag_simps]: "CHECK_CHUNK (c\<lparr>ck_size := d\<rparr>) g = CHECK_CHUNK c g"
  by (simp add: CHECK_CHUNK_def)

lemma check_new_chunk [flag_simps]: "\<not> CHECK_CHUNK (new_chunk junk n) f"
  by (simp add: CHECK_CHUNK_def new_chunk_def)

lemma set_chunk_sel [simp]:
  "ck_size (SET_CHUNK c f) = ck_size c" "ck_id (SET_CHUNK c f) = ck_id c"
  "ck_fp (SET_CHUNK c f) = ck_fp c" "ck_data (SET_CHUNK c f) = ck_data c"
  "ck_flag (SET_CHUNK c f) = ck_flag c OR f"
  by (simp_all add: SET_CHUNK_def)

section \<open>Segments\<close>

record segment =
  sg_id :: segmentid
  sg_chunk_num :: int
  sg_chunks :: "chunk list"
  sg_features :: "byte list list option"

definition new_segment :: segment where
  "new_segment = \<lparr>sg_id = TEMPORARY_ID, sg_chunk_num = 0, sg_chunks = [], sg_features = None\<rparr>"

definition new_segment_full :: segment where
  "new_segment_full = new_segment\<lparr>sg_features := Some []\<rparr>"

section \<open>Comparing fingerprints\<close>

text \<open>\<open>memcmp\<close>: the sign of the first difference of two byte strings.\<close>

fun memcmp :: "byte list \<Rightarrow> byte list \<Rightarrow> int" where
  "memcmp (a # as) (b # bs) = (if a < b then -1 else if b < a then 1 else memcmp as bs)"
| "memcmp _ _ = 0"

definition g_fingerprint_equal :: "fingerprint \<Rightarrow> fingerprint \<Rightarrow> bool" where
  "g_fingerprint_equal fp1 fp2 = (memcmp (take 20 fp1) (take 20 fp2) = 0)"

definition g_fingerprint_cmp :: "fingerprint \<Rightarrow> fingerprint \<Rightarrow> int" where
  "g_fingerprint_cmp fp1 fp2 = memcmp (take 20 fp1) (take 20 fp2)"

definition g_chunk_cmp :: "chunk \<Rightarrow> chunk \<Rightarrow> int" where
  "g_chunk_cmp a b = memcmp (take 20 (ck_fp a)) (take 20 (ck_fp b))"

definition g_feature_equal :: "destor \<Rightarrow> byte list \<Rightarrow> byte list \<Rightarrow> bool" where
  "g_feature_equal d a b = (memcmp (take (index_key_size d) a) (take (index_key_size d) b) = 0)"

lemma memcmp_eq_0: "length a = length b \<Longrightarrow> (memcmp a b = 0) = (a = b)"
  by (induction a b rule: memcmp.induct) auto

lemma memcmp_refl [simp]: "memcmp a a = 0"
  by (induction a) auto

lemma memcmp_antisym: "memcmp b a = - memcmp a b"
  by (induction a b rule: memcmp.induct) auto

lemma memcmp_Cons_le:
  "(memcmp (x # xs) (y # ys) \<le> 0) = (x < y \<or> x = y \<and> memcmp xs ys \<le> 0)"
  by (cases x y rule: linorder_cases) (simp_all, metis less_irrefl)

lemma memcmp_trans:
  "length a = length b \<Longrightarrow> length b = length c \<Longrightarrow> memcmp a b \<le> 0 \<Longrightarrow> memcmp b c \<le> 0 \<Longrightarrow> memcmp a c \<le> 0"
proof (induction a b c rule: list_induct3)
  case Nil
  then show ?case by simp
next
  case (Cons x xs y ys z zs)
  then show ?case
    unfolding memcmp_Cons_le by (blast intro: order.strict_trans)
qed

lemma g_fingerprint_equal_iff:
  "length a = 20 \<Longrightarrow> length b = 20 \<Longrightarrow> g_fingerprint_equal a b = (a = b)"
  by (simp add: g_fingerprint_equal_def memcmp_eq_0)

end
