(* ===== verification/Rabin_Window.thy ===== *)
theory Rabin_Window
  imports Rabin
begin

unbundle bit_operations_syntax

text \<open>
  The fingerprint of the sliding window is the remainder of the polynomial of the last 48 bytes
  divided by \<open>FINGERPRINT_PT\<close>, and no table is read out of range.
\<close>

section \<open>Pairs of words as polynomials\<close>

abbreviation PT :: nat where "PT \<equiv> unat FINGERPRINT_PT"

definition pval :: "uint64 \<times> uint64 \<Rightarrow> nat" where
  "pval = (\<lambda>(h, l). push_bit 64 (unat h) XOR unat l)"

lemma PT_degree: "2 ^ 63 \<le> PT" "PT < 2 ^ Suc 63"
  by simp_all

lemma fls64_PT: "fls64 FINGERPRINT_PT = 64"
  by code_simp

lemma unat_push_split:
  fixes d :: uint64
  assumes "i \<le> 64"
  shows "push_bit i (unat d) = push_bit 64 (unat (drop_bit (64 - i) d)) XOR unat (push_bit i d)"
  using assms
  by (intro bit_eqI) (auto simp: bit_simps dest: bit_imp_le_length)

lemma unat64_less: "unat (w :: uint64) < 2 ^ 64"
  using unsigned_less [of w, where 'a = nat] by simp

lemma unat_xor: "unat (a XOR b) = unat a XOR unat b" for a b :: "'a::len word"
  by (rule unsigned_xor_eq)

lemma xor_swap: "(a XOR b) XOR (c XOR d) = (a XOR c) XOR (b XOR d)" for a b c d :: nat
  by (simp add: xor.assoc xor.left_commute)

lemma pval_xor:
  fixes d :: uint64
  assumes "i \<le> 64"
  shows "pval (h XOR drop_bit (64 - i) d, l XOR push_bit i d) = pval (h, l) XOR push_bit i (unat d)"
  unfolding unat_push_split [OF assms] by (simp add: pval_def unat_xor push_bit_xor xor_swap)

lemma test_bit_word: "(w AND push_bit i 1 \<noteq> 0) = bit w i" for w :: "'a::len word"
  by (metis and_exp_eq_0_iff_not_bit push_bit_of_1)

lemma test_bit_exp: "(w AND 2 ^ i = 0) = (\<not> bit w i)" for w :: "'a::len word"
  by (rule and_exp_eq_0_iff_not_bit)

lemma less_pow_bits: "(n < 2 ^ k) = (\<forall>m \<ge> k. \<not> bit n m)" for n :: nat
proof
  assume "n < 2 ^ k"
  then have "take_bit k n = n" by (simp add: take_bit_nat_eq_self_iff)
  then show "\<forall>m \<ge> k. \<not> bit n m" by (metis bit_take_bit_iff leD)
next
  assume "\<forall>m \<ge> k. \<not> bit n m"
  then have "take_bit k n = n" by (intro bit_eqI) (metis bit_take_bit_iff not_less)
  then show "n < 2 ^ k" by (simp add: take_bit_nat_eq_self_iff)
qed

lemma top_bit_clear:
  fixes w d :: uint64
  assumes "unat w < 2 ^ Suc n" "bit d 63" "n \<le> 63"
  shows "unat (if bit w n then w XOR drop_bit (63 - n) d else w) < 2 ^ n"
  unfolding less_pow_bits
proof (intro allI impI)
  fix m assume m: "n \<le> m"
  have "\<not> bit w m" if "Suc n \<le> m" using assms(1) that unfolding less_pow_bits by (auto simp: bit_simps)
  with m assms(2,3) show "\<not> bit (unat (if bit w n then w XOR drop_bit (63 - n) d else w)) m"
    by (cases "m = n") (auto simp: bit_simps dest: bit_imp_le_length)
qed

section \<open>The remainder\<close>

definition mod_step :: "uint64 \<Rightarrow> nat \<Rightarrow> uint64 \<times> uint64 \<Rightarrow> uint64 \<times> uint64" where
  "mod_step d i = (\<lambda>(nh, nl). if nh AND push_bit i 1 \<noteq> 0
     then (nh XOR drop_bit (63 - i) d, nl XOR push_bit (i + 1) d) else (nh, nl))"

lemma mod_step:
  assumes "i < 64" "bit d 63"
  shows "pcong (unat d) (pval (mod_step d i hl)) (pval hl)" "unat (fst hl) < 2 ^ Suc i \<Longrightarrow> unat (fst (mod_step d i hl)) < 2 ^ i"
proof -
  obtain h l where hl: "hl = (h, l)" by force
  have e: "64 - (i + 1) = 63 - i" by simp
  show "pcong (unat d) (pval (mod_step d i hl)) (pval hl)"
    using assms pval_xor [of "i + 1" h d l, unfolded e] pcong_multiple [of "unat d" "pval hl" "i + 1"]
    by (auto simp: hl mod_step_def)
  show "unat (fst (mod_step d i hl)) < 2 ^ i" if "unat (fst hl) < 2 ^ Suc i"
    using top_bit_clear [of h i d] that assms by (simp add: hl mod_step_def test_bit_exp split: if_splits)
qed

lemma mod_steps:
  assumes "n \<le> 64" "unat (fst hl) < 2 ^ n" "bit d 63"
  shows "pcong (unat d) (pval (fold (mod_step d) (rev [0..<n]) hl)) (pval hl) \<and> fst (fold (mod_step d) (rev [0..<n]) hl) = 0"
  using assms
proof (induction n arbitrary: hl)
  case 0
  then show ?case by (simp add: unat_eq_0)
next
  case (Suc n)
  from mod_step [of n d hl] Suc.IH [of "mod_step d n hl"] Suc.prems show ?case by (auto intro: pcong_trans)
qed

lemma polymod_ok:
  assumes "fls64 d = 64" "bit d 63"
  shows "pcong (unat d) (unat (polymod nh nl d)) (pval (nh, nl))" "unat (polymod nh nl d) < 2 ^ 63"
proof -
  define hl where "hl = (if nh \<noteq> 0 then fold (mod_step d) (rev [0..<63]) (if nh AND MSB64 \<noteq> 0 then nh XOR d else nh, nl) else (nh, nl))"
  obtain h l where hl': "hl = (h, l)" by force
  have r: "pcong (unat d) (pval hl) (pval (nh, nl)) \<and> fst hl = 0"
  proof (cases "nh = 0")
    case False
    have "push_bit 64 d = 0" by (intro bit_word_eqI) (simp add: bit_push_bit_iff)
    then have "mod_step d 63 (nh, nl) = (if nh AND MSB64 \<noteq> 0 then nh XOR d else nh, nl)"
      by (simp add: mod_step_def)
    with mod_step [of 63 d "(nh, nl)"] mod_steps [of 63 "mod_step d 63 (nh, nl)" d] False unat64_less [of nh] assms(2) show ?thesis
      by (auto simp: hl_def intro: pcong_trans)
  qed (simp add: hl_def)
  have p: "polymod nh nl d = (if bit l 63 then l XOR drop_bit (63 - 63) d else l)"
  proof -
    have u: "rev [64 - 1..<64] = [63 :: nat]" "push_bit (63 - (64 - 1)) d = d" by (simp_all add: upt_rec)
    have "polymod nh nl d = (case hl of (nh, nl) \<Rightarrow> fold (\<lambda>i nl. if nl AND push_bit i 1 \<noteq> 0 then nl XOR drop_bit (63 - i) d else nl) [63] nl)"
      unfolding polymod_def Let_def assms(1) u hl_def mod_step_def [abs_def] by (rule refl)
    then show ?thesis unfolding hl' by (simp add: test_bit_exp)
  qed
  show "unat (polymod nh nl d) < 2 ^ 63"
    unfolding p by (rule top_bit_clear) (use unat64_less [of l] assms(2) in auto)
  have "pcong (unat d) (unat l XOR push_bit 0 (unat d)) (unat l)" by (rule pcong_multiple)
  then have "pcong (unat d) (unat (polymod nh nl d)) (unat l)"
    unfolding p by (simp add: unat_xor)
  moreover have "pval hl = unat l" using r hl' by (auto simp: pval_def)
  ultimately show "pcong (unat d) (unat (polymod nh nl d)) (pval (nh, nl))" using r by (metis pcong_trans)
qed

section \<open>The product\<close>

lemma take_bit_Suc_xor: "take_bit (Suc i) x = take_bit i x XOR (if bit x i then push_bit i 1 else 0)" for x :: nat
  by (intro bit_eqI) (auto simp: bit_simps less_Suc_eq)

lemma mult_steps:
  assumes "n \<le> 64" "0 < n"
  shows "pval (fold (\<lambda>i (ph, pl). if x AND push_bit i 1 \<noteq> 0 then (ph XOR drop_bit (64 - i) y, pl XOR push_bit i y) else (ph, pl))
     [1..<n] (0, if x AND 1 \<noteq> 0 then y else 0)) = clmul (take_bit n (unat x)) (unat (y :: uint64))"
  using assms(2,1)
proof (induction n rule: nat_induct_non_zero)
  case 1
  have "take_bit (Suc 0) (unat x) = of_bool (odd (unat x))" by (simp add: take_bit_Suc mod_2_eq_odd)
  moreover have "odd (unat x) = (x AND 1 \<noteq> 0)" using test_bit_word [of x 0] bit_unsigned_iff [of x 0, where 'a = nat] by (simp add: bit_0)
  ultimately show ?case by (simp add: pval_def)
next
  case (Suc n)
  have "clmul (take_bit (Suc n) (unat x)) (unat y) = clmul (take_bit n (unat x)) (unat y) XOR (if bit x n then push_bit n (unat y) else 0)"
    using Suc.prems clmul_push_left [of n 1 "unat y"] by (simp add: take_bit_Suc_xor clmul_xor_left bit_simps)
  with Suc pval_xor [of n _ y] show ?case by (auto simp: test_bit_exp case_prod_beta simp del: One_nat_def)
qed

lemma polymult_ok: "pval (polymult x y) = clmul (unat x) (unat y)"
  using mult_steps [of 64 x y] unat64_less [of x] by (simp add: polymult_def take_bit_nat_eq_self del: upt_rec_numeral)

lemma polymmult_ok:
  assumes "fls64 d = 64" "bit d 63"
  shows "pcong (unat d) (unat (polymmult x y d)) (clmul (unat x) (unat y))" "unat (polymmult x y d) < 2 ^ 63"
  using polymod_ok [OF assms, of "fst (polymult x y)" "snd (polymult x y)"] polymult_ok [of x y] by (simp_all add: polymmult_def case_prod_beta)

section \<open>Tables\<close>

definition tables_ok :: "rabin \<Rightarrow> bool" where
  "tables_ok r = (rb_shift r = 55 \<and> length (rb_T r) = 256
     \<and> (\<forall>j < 256. \<exists>t. unat t < 2 ^ 63 \<and> pcong PT (unat t) (push_bit 63 j) \<and> rb_T r ! j = t OR push_bit 63 (of_nat j)))"

lemma PT_bit: "bit FINGERPRINT_PT 63" by code_simp

lemma calcT_ok: "tables_ok (calcT FINGERPRINT_PT r)"
proof -
  let ?T1 = "polymod 0 (push_bit 63 1) FINGERPRINT_PT"
  have "pval (0, push_bit 63 1) = 2 ^ 63" by (simp add: pval_def)
  with polymod_ok(1) [OF fls64_PT PT_bit, of 0 "push_bit 63 1"] have t1: "pcong PT (unat ?T1) (2 ^ 63)" by simp
  have "\<exists>t. unat t < 2 ^ 63 \<and> pcong PT (unat t) (push_bit 63 j) \<and> polymmult (of_nat j) ?T1 FINGERPRINT_PT OR push_bit 63 (of_nat j) = t OR push_bit 63 (of_nat j)"
    if "j < 256" for j
  proof (intro exI conjI)
    show "unat (polymmult (of_nat j) ?T1 FINGERPRINT_PT) < 2 ^ 63" by (rule polymmult_ok(2) [OF fls64_PT PT_bit])
    have "unat (of_nat j :: uint64) = j" using that by (simp add: unat_of_nat)
    with polymmult_ok(1) [OF fls64_PT PT_bit, of "of_nat j" ?T1]
    have "pcong PT (unat (polymmult (of_nat j) ?T1 FINGERPRINT_PT)) (clmul j (unat ?T1))" by simp
    from pcong_trans [OF this pcong_clmul [OF t1, of j]] show "pcong PT (unat (polymmult (of_nat j) ?T1 FINGERPRINT_PT)) (push_bit 63 j)"
      by (simp only: clmul_pow)
  qed simp
  then show ?thesis by (simp add: tables_ok_def calcT_def fls64_PT Let_def del: upt_rec_numeral)
qed

text \<open>Appending a byte multiplies the polynomial and keeps its degree below that of the divisor.\<close>

lemma append8_ok:
  assumes "tables_ok r" "unat p < 2 ^ 63"
  shows "\<exists>f. append8 r p m = Some f \<and> unat f < 2 ^ 63 \<and> pcong PT (unat f) (push_bit 8 (unat p) XOR unat m)"
proof -
  let ?j = "unat (drop_bit 55 p)"
  have j: "?j < 2 ^ 8" using assms(2) unfolding less_pow_bits by (auto simp: bit_simps)
  from assms(1) j [simplified] obtain t where t: "unat t < 2 ^ 63" "pcong PT (unat t) (push_bit 63 ?j)" "rb_T r ! ?j = t OR push_bit 63 (of_nat ?j)"
    by (auto simp: tables_ok_def)
  define f where "f = (push_bit 8 p OR ucast m) XOR (t OR push_bit 63 (of_nat ?j))"
  have a: "append8 r p m = Some f" using assms(1) j t(3) by (simp add: append8_def table_get_def tables_ok_def f_def)
  have nb: "\<not> bit p i" if "63 \<le> i" for i using assms(2) that unfolding less_pow_bits by (auto simp: bit_simps)
  have nt: "\<not> bit t i" if "63 \<le> i" for i using t(1) that unfolding less_pow_bits by (auto simp: bit_simps dest: bit_imp_le_length)
  have f: "unat f = unat t XOR push_bit 63 ?j XOR (push_bit 8 (unat p) XOR unat m)"
  proof (rule bit_eqI)
    fix n :: nat
    have e: "63 \<le> n \<Longrightarrow> 55 + (n - 63) = n - 8" by simp
    consider "n < 63" | "n = 63" | "64 \<le> n" by linarith
    then show "bit (unat f) n = bit (unat t XOR push_bit 63 ?j XOR (push_bit 8 (unat p) XOR unat m)) n"
    proof cases
      case 3
      with nt [of n] e show ?thesis by (auto simp: f_def bit_simps dest: bit_imp_le_length)
    qed (use nt [of n] in \<open>auto simp: f_def bit_simps dest: bit_imp_le_length\<close>)
  qed
  have "unat f < 2 ^ 63" unfolding less_pow_bits
  proof (intro allI impI)
    fix n :: nat assume n: "63 \<le> n"
    then have "55 + (n - 63) = n - 8" by simp
    with n nt [of n] show "\<not> bit (unat f) n"
      by (cases "n = 63") (auto simp: f_def bit_simps dest: bit_imp_le_length)
  qed
  moreover have "pcong PT (unat t XOR push_bit 63 ?j XOR (push_bit 8 (unat p) XOR unat m)) (push_bit 63 ?j XOR push_bit 63 ?j XOR (push_bit 8 (unat p) XOR unat m))"
    by (intro pcong_xor t(2) pcong_refl)
  ultimately show ?thesis using a f by (simp add: xor_cancel)
qed

lemma sizeshift_ok:
  assumes "tables_ok r" "unat s < 2 ^ 63"
  shows "\<exists>f. fold_opt (\<lambda>_ s. append8 r s 0) xs s = Some f \<and> unat f < 2 ^ 63 \<and> pcong PT (unat f) (push_bit (8 * length xs) (unat s))"
  using assms(2)
proof (induction xs arbitrary: s)
  case (Cons x xs)
  from append8_ok [OF assms(1) Cons.prems, of 0] obtain s1 where
    1: "append8 r s 0 = Some s1" "unat s1 < 2 ^ 63" "pcong PT (unat s1) (push_bit 8 (unat s))" by auto
  from Cons.IH [OF 1(2)] obtain f where
    2: "fold_opt (\<lambda>_ s. append8 r s 0) xs s1 = Some f" "unat f < 2 ^ 63" "pcong PT (unat f) (push_bit (8 * length xs) (unat s1))" by blast
  have "pcong PT (unat f) (push_bit (8 * length xs) (push_bit 8 (unat s)))" by (rule pcong_trans [OF 2(3) pcong_push [OF 1(3)]])
  with 1(1) 2(1,2) show ?case by (simp add: push_bit_push_bit add.commute)
qed simp

text \<open>The tables after the initialisation: removing a byte that is 47 bytes old.\<close>

definition rabin_ok :: "rabin \<Rightarrow> bool" where
  "rabin_ok r = (tables_ok r \<and> length (rb_U r) = 256
     \<and> (\<forall>i < 256. unat (rb_U r ! i) < 2 ^ 63 \<and> pcong PT (unat (rb_U r ! i)) (push_bit 376 i)))"

lemma window_init_ok: "\<exists>r'. window_init FINGERPRINT_PT r = Some r' \<and> rabin_ok r' \<and> rb_fp r' = 0 \<and> rb_bufpos r' = -1 \<and> rb_buf r' = replicate 48 0"
proof -
  define r1 where "r1 = (rabinpoly_init FINGERPRINT_PT r)\<lparr>rb_fp := 0, rb_bufpos := -1\<rparr>"
  have t: "tables_ok r1" using calcT_ok by (simp add: r1_def rabinpoly_init_def tables_ok_def)
  from sizeshift_ok [OF t, of 1 "[1..<48]"] obtain s where
    s: "fold_opt (\<lambda>_ s. append8 r1 s 0) [1..<48] 1 = Some s" "pcong PT (unat s) (push_bit 376 1)"
    by (auto simp del: upt_rec_numeral)
  define U where "U = map (\<lambda>i. polymmult (of_nat i) s FINGERPRINT_PT) [0..<256]"
  have U: "length U = 256" by (simp add: U_def)
  have "unat (U ! i) < 2 ^ 63 \<and> pcong PT (unat (U ! i)) (push_bit 376 i)" if "i < 256" for i
  proof -
    have u: "U ! i = polymmult (of_nat i) s FINGERPRINT_PT" "unat (of_nat i :: uint64) = i" using that by (simp_all add: U_def unat_of_nat del: upt_rec_numeral)
    from pcong_clmul [OF s(2), of i] have "pcong PT (clmul i (unat s)) (push_bit 376 i)" by (simp only: clmul_pow push_bit_of_1)
    with polymmult_ok [OF fls64_PT PT_bit, of "of_nat i" s] show ?thesis unfolding u by (blast intro: pcong_trans)
  qed
  with t U have "rabin_ok (r1\<lparr>rb_U := U, rb_buf := replicate 48 0\<rparr>)" by (simp add: rabin_ok_def tables_ok_def)
  moreover have "window_init FINGERPRINT_PT r = Some (r1\<lparr>rb_U := U, rb_buf := replicate 48 0\<rparr>)"
    unfolding window_init_def Let_def r1_def [symmetric] s(1) U_def by simp
  ultimately show ?thesis by (simp add: r1_def)
qed

section \<open>The window\<close>

text \<open>A byte string as a polynomial, the first byte the most significant.\<close>

definition poly_of :: "byte list \<Rightarrow> nat" where
  "poly_of bs = fold (\<lambda>b v. push_bit 8 v XOR unat b) bs 0"

lemma poly_fold: "fold (\<lambda>b v. push_bit 8 v XOR unat b) bs v = push_bit (8 * length bs) v XOR poly_of bs"
proof (induction bs arbitrary: v)
  case (Cons b bs)
  then show ?case by (simp add: poly_of_def [of "b # bs"] push_bit_xor push_bit_push_bit add.commute xor.assoc)
qed (simp add: poly_of_def)

lemma poly_of_Cons: "poly_of (b # bs) = push_bit (8 * length bs) (unat b) XOR poly_of bs"
  using poly_fold [of bs "unat b"] by (simp add: poly_of_def [of "b # bs"])

lemma poly_of_snoc: "poly_of (bs @ [b]) = push_bit 8 (poly_of bs) XOR unat b"
  by (simp add: poly_of_def)

lemma poly_of_zeros: "poly_of (replicate n 0) = 0"
  by (induction n) (simp_all add: poly_of_Cons poly_of_def [of "[]"])

definition ring_window :: "int \<Rightarrow> byte list \<Rightarrow> byte list" where
  "ring_window pos buf = (let n = nat (ring_next pos); b = take 48 buf in drop n b @ take n b)"

lemma ring_next_range: "-1 \<le> pos \<Longrightarrow> pos < 48 \<Longrightarrow> 0 \<le> ring_next pos \<and> ring_next pos < 48"
  by (simp add: ring_next_def)

lemma ring_window_step:
  assumes "-1 \<le> pos" "pos < 48" "48 \<le> length buf"
  shows "ring_window pos buf = buf ! nat (ring_next pos) # tl (ring_window pos buf)"
    "ring_window (ring_next pos) (buf[nat (ring_next pos) := m]) = tl (ring_window pos buf) @ [m]"
proof -
  define n where "n = nat (ring_next pos)"
  define b where "b = take 48 buf"
  have n: "n < length b" "length b = 48" using ring_next_range [OF assms(1,2)] assms(3) by (auto simp: n_def b_def nat_less_iff)
  have w: "ring_window pos buf = drop n b @ take n b" by (simp add: ring_window_def n_def b_def Let_def)
  have d: "drop n b = b ! n # drop (Suc n) b" using n(1) by (simp add: Cons_nth_drop_Suc)
  have "b ! n = buf ! n" using n by (simp add: b_def)
  with w d show "ring_window pos buf = buf ! nat (ring_next pos) # tl (ring_window pos buf)" by (simp add: n_def)
  have b': "take 48 (buf[n := m]) = b[n := m]" by (simp add: b_def take_update_swap)
  have n': "nat (ring_next (ring_next pos)) = (if Suc n = 48 then 0 else Suc n)"
    using ring_next_range [OF assms(1,2)] by (auto simp: n_def ring_next_def)
  have t: "take (Suc n) (b[n := m]) = take n b @ [m]" using n(1) by (simp add: take_Suc_conv_app_nth take_update_cancel)
  have u: "ring_window (ring_next pos) (buf[n := m]) = drop (Suc n) b @ take n b @ [m]"
  proof (cases "Suc n = 48")
    case True
    then have "b[n := m] = take (Suc n) (b[n := m])" using n(2) by simp
    with True t n n' b' show ?thesis by (simp add: ring_window_def Let_def n_def [symmetric])
  next
    case False
    with t n' b' show ?thesis by (simp add: ring_window_def Let_def n_def [symmetric] drop_update_cancel)
  qed
  with w d show "ring_window (ring_next pos) (buf[nat (ring_next pos) := m]) = tl (ring_window pos buf) @ [m]" by (simp add: n_def)
qed

definition slider_ok :: "byte list \<Rightarrow> slider \<Rightarrow> bool" where
  "slider_ok W s = (-1 \<le> sl_pos s \<and> sl_pos s < 48 \<and> length (sl_buf s) = 128 \<and> ring_window (sl_pos s) (sl_buf s) = W
     \<and> unat (sl_fp s) < 2 ^ 63 \<and> pcong PT (unat (sl_fp s)) (poly_of W))"

lemma slider_init_ok: "slider_ok (replicate 48 0) slider_init"
  by (simp add: slider_ok_def slider_init_def ring_window_def ring_next_def poly_of_zeros)

lemma SLIDE_append8:
  "SLIDE r m s = do {
     om \<leftarrow> table_get (sl_buf s) (nat (ring_next (sl_pos s)));
     u \<leftarrow> table_get (rb_U r) (unat om);
     f \<leftarrow> append8 r (sl_fp s XOR u) m;
     Some \<lparr>sl_fp = f, sl_pos = ring_next (sl_pos s), sl_buf = (sl_buf s)[nat (ring_next (sl_pos s)) := m]\<rparr>
   }"
  by (auto simp: SLIDE_def append8_def Let_def bind_assoc intro!: arg_cong [where f = "Option.bind _"] ext)

lemma SLIDE_ok:
  assumes "rabin_ok r" "slider_ok W s"
  shows "\<exists>s'. SLIDE r m s = Some s' \<and> slider_ok (tl W @ [m]) s'"
proof -
  let ?n = "nat (ring_next (sl_pos s))"
  let ?om = "sl_buf s ! ?n"
  have s: "-1 \<le> sl_pos s" "sl_pos s < 48" "length (sl_buf s) = 128" "ring_window (sl_pos s) (sl_buf s) = W"
    "unat (sl_fp s) < 2 ^ 63" "pcong PT (unat (sl_fp s)) (poly_of W)" using assms(2) by (auto simp: slider_ok_def)
  have n: "?n < 48" "0 \<le> ring_next (sl_pos s)" "ring_next (sl_pos s) < 48" using ring_next_range [OF s(1,2)] by auto
  have W: "W = ?om # tl W" "ring_window (ring_next (sl_pos s)) ((sl_buf s)[?n := m]) = tl W @ [m]"
    using ring_window_step [OF s(1,2), where buf = "sl_buf s"] s(3,4) by simp_all
  have "length W = 48" using n s(3) by (simp add: s(4) [symmetric] ring_window_def Let_def)
  then have l: "length (tl W) = 47" by simp
  have om: "unat ?om < 256" using unsigned_less [of ?om, where 'a = nat] by simp
  let ?u = "rb_U r ! unat ?om"
  have u: "length (rb_U r) = 256" "unat ?u < 2 ^ 63" "pcong PT (unat ?u) (push_bit 376 (unat ?om))" "tables_ok r"
    using assms(1) om by (auto simp: rabin_ok_def)
  have "poly_of W = push_bit 376 (unat ?om) XOR poly_of (tl W)" using poly_of_Cons [of ?om "tl W"] W(1) l by simp
  with pcong_xor [OF s(6) u(3)] have c: "pcong PT (unat (sl_fp s XOR ?u)) (poly_of (tl W))"
    by (simp add: unat_xor xor.commute xor.left_commute xor_cancel)
  from append8_ok [OF u(4) xor_less_pow [OF s(5) u(2), folded unat_xor], of m] obtain f where
    f: "append8 r (sl_fp s XOR ?u) m = Some f" "unat f < 2 ^ 63" "pcong PT (unat f) (push_bit 8 (unat (sl_fp s XOR ?u)) XOR unat m)" by blast
  have "pcong PT (unat f) (poly_of (tl W @ [m]))"
    unfolding poly_of_snoc by (rule pcong_trans [OF f(3)]) (intro pcong_xor pcong_push c pcong_refl)
  with f n W(2) s(3) u(1) om show ?thesis
    by (simp add: SLIDE_append8 table_get_def slider_ok_def)
qed

end
