(* ===== verification/Serial.thy ===== *)
theory Serial
  imports Prelude
begin

unbundle bit_operations_syntax

text \<open>
  Serialisation of integers and strings (\<^verbatim>\<open>src/destor/src/utils/serial.c\<close> and the macros of
  \<^verbatim>\<open>serial.h\<close>). A buffer under construction is the list of the bytes written so far, so
  advancing the write pointer is appending; reading consumes a prefix and returns the rest.
  A read past the end of the buffer, which the C code does not check, is \<open>None\<close>. The byte
  order of the host is the parameter \<open>be\<close>.
\<close>

section \<open>Byte order conversion\<close>

definition bswap16 :: "16 word \<Rightarrow> 16 word" where
  "bswap16 w = bytes_word (rev (word_bytes 2 w))"

definition bswap32 :: "32 word \<Rightarrow> 32 word" where
  "bswap32 w = bytes_word (rev (word_bytes 4 w))"

definition htons :: "bool \<Rightarrow> 16 word \<Rightarrow> 16 word" where
  "htons be w = (if be then w else bswap16 w)"

definition htonl :: "bool \<Rightarrow> 32 word \<Rightarrow> 32 word" where
  "htonl be w = (if be then w else bswap32 w)"

abbreviation "ntohs \<equiv> htons"
abbreviation "ntohl \<equiv> htonl"

section \<open>Writing\<close>

definition serial_int16 :: "bool \<Rightarrow> 16 word \<Rightarrow> byte list \<Rightarrow> byte list" where
  "serial_int16 be v ptr = ptr @ mem_bytes be 2 (htons be v)"

definition serial_uint16 :: "bool \<Rightarrow> 16 word \<Rightarrow> byte list \<Rightarrow> byte list" where
  "serial_uint16 be v ptr = ptr @ mem_bytes be 2 (htons be v)"

definition serial_int32 :: "bool \<Rightarrow> 32 word \<Rightarrow> byte list \<Rightarrow> byte list" where
  "serial_int32 be v ptr = ptr @ mem_bytes be 4 (htonl be v)"

definition serial_uint32 :: "bool \<Rightarrow> 32 word \<Rightarrow> byte list \<Rightarrow> byte list" where
  "serial_uint32 be v ptr = ptr @ mem_bytes be 4 (htonl be v)"

text \<open>The loop \<open>rv[i] = pv[7 - i]\<close> of the 64-bit functions.\<close>

definition reverse8 :: "byte list \<Rightarrow> byte list" where
  "reverse8 pv = map (\<lambda>i. pv ! (7 - i)) [0..<8]"

definition serial_int64 :: "bool \<Rightarrow> 64 word \<Rightarrow> byte list \<Rightarrow> byte list" where
  "serial_int64 be v ptr =
     (if htonl be 1 = 1 then ptr @ mem_bytes be 8 v
      else ptr @ reverse8 (mem_bytes be 8 v))"

definition serial_uint64 :: "bool \<Rightarrow> 64 word \<Rightarrow> byte list \<Rightarrow> byte list" where
  "serial_uint64 be v ptr =
     (if htonl be 1 = 1 then ptr @ mem_bytes be 8 v
      else ptr @ reverse8 (mem_bytes be 8 v))"

text \<open>A C string is the list of its bytes before the terminating zero byte.\<close>

definition serial_string :: "byte list \<Rightarrow> byte list \<Rightarrow> byte list" where
  "serial_string str ptr = ptr @ str @ [0]"

definition ser_bytes :: "byte list \<Rightarrow> byte list \<Rightarrow> byte list" where
  "ser_bytes x ptr = ptr @ x"

section \<open>Reading\<close>

definition read_n :: "nat \<Rightarrow> byte list \<Rightarrow> (byte list \<times> byte list) option" where
  "read_n n ptr = (if n \<le> length ptr then Some (take n ptr, drop n ptr) else None)"

definition unserial_int16 :: "bool \<Rightarrow> byte list \<Rightarrow> (16 word \<times> byte list) option" where
  "unserial_int16 be ptr =
     (case read_n 2 ptr of None \<Rightarrow> None | Some (bs, r) \<Rightarrow> Some (ntohs be (mem_word be bs), r))"

definition unserial_uint16 :: "bool \<Rightarrow> byte list \<Rightarrow> (16 word \<times> byte list) option" where
  "unserial_uint16 be ptr =
     (case read_n 2 ptr of None \<Rightarrow> None | Some (bs, r) \<Rightarrow> Some (ntohs be (mem_word be bs), r))"

definition unserial_int32 :: "bool \<Rightarrow> byte list \<Rightarrow> (32 word \<times> byte list) option" where
  "unserial_int32 be ptr =
     (case read_n 4 ptr of None \<Rightarrow> None | Some (bs, r) \<Rightarrow> Some (ntohl be (mem_word be bs), r))"

definition unserial_uint32 :: "bool \<Rightarrow> byte list \<Rightarrow> (32 word \<times> byte list) option" where
  "unserial_uint32 be ptr =
     (case read_n 4 ptr of None \<Rightarrow> None | Some (bs, r) \<Rightarrow> Some (ntohl be (mem_word be bs), r))"

definition unserial_int64 :: "bool \<Rightarrow> byte list \<Rightarrow> (64 word \<times> byte list) option" where
  "unserial_int64 be ptr =
     (case read_n 8 ptr of None \<Rightarrow> None
      | Some (bs, r) \<Rightarrow> Some (mem_word be (if htonl be 1 = 1 then bs else reverse8 bs), r))"

definition unserial_uint64 :: "bool \<Rightarrow> byte list \<Rightarrow> (64 word \<times> byte list) option" where
  "unserial_uint64 be ptr =
     (case read_n 8 ptr of None \<Rightarrow> None
      | Some (bs, r) \<Rightarrow> Some (mem_word be (if htonl be 1 = 1 then bs else reverse8 bs), r))"

definition unserial_string :: "byte list \<Rightarrow> (byte list \<times> byte list) option" where
  "unserial_string ptr =
     (if 0 \<in> set ptr
      then Some (takeWhile (\<lambda>b. b \<noteq> 0) ptr, tl (dropWhile (\<lambda>b. b \<noteq> 0) ptr))
      else None)"

definition unser_bytes :: "nat \<Rightarrow> byte list \<Rightarrow> (byte list \<times> byte list) option" where
  "unser_bytes n ptr = read_n n ptr"

section \<open>Lemmas\<close>

lemma read_n_append [simp, codec_simps]: "length a = n \<Longrightarrow> read_n n (a @ r) = Some (a, r)"
  by (simp add: read_n_def)

lemma reverse8_rev: "length pv = 8 \<Longrightarrow> reverse8 pv = rev pv"
  unfolding reverse8_def by (rule nth_equalityI) (auto simp: rev_nth)

lemma htonl_1: "(htonl be 1 = 1) = be"
  by (simp add: htonl_def bswap32_def)

lemma mem_bytes_htonl: "mem_bytes be 4 (htonl be v) = rev (word_bytes 4 v)"
  using word_bytes_bytes_word [where 'a = 32, of "rev (word_bytes 4 v)"]
  by (simp add: mem_bytes_def htonl_def bswap32_def del: word_bytes_numeral)

lemma mem_bytes_htons: "mem_bytes be 2 (htons be v) = rev (word_bytes 2 v)"
  using word_bytes_bytes_word [where 'a = 16, of "rev (word_bytes 2 v)"]
  by (simp add: mem_bytes_def htons_def bswap16_def del: word_bytes_numeral)

lemma htonl_mem_word: "length bs = 4 \<Longrightarrow> htonl be (mem_word be bs) = bytes_word (rev bs)"
  using word_bytes_bytes_word [where 'a = 32, of bs]
  by (auto simp: mem_word_def htonl_def bswap32_def simp del: word_bytes_numeral)

lemma htons_mem_word: "length bs = 2 \<Longrightarrow> htons be (mem_word be bs) = bytes_word (rev bs)"
  using word_bytes_bytes_word [where 'a = 16, of bs]
  by (auto simp: mem_word_def htons_def bswap16_def simp del: word_bytes_numeral)

text \<open>Every integer is written most significant byte first, whatever the byte order of the host.\<close>

lemma serial_int16_bytes: "serial_int16 be v ptr = ptr @ rev (word_bytes 2 v)"
  by (simp add: serial_int16_def mem_bytes_htons del: word_bytes_numeral)

lemma serial_int32_bytes: "serial_int32 be v ptr = ptr @ rev (word_bytes 4 v)"
  by (simp add: serial_int32_def mem_bytes_htonl del: word_bytes_numeral)

lemma serial_int64_bytes: "serial_int64 be v ptr = ptr @ rev (word_bytes 8 v)"
  by (simp add: serial_int64_def htonl_1 reverse8_rev mem_bytes_def del: word_bytes_numeral)

lemmas serial_bytes = serial_int16_bytes serial_int32_bytes serial_int64_bytes

lemma unserial_int16_bytes [codec_simps]:
  "unserial_int16 be (rev (word_bytes 2 v) @ r) = Some (v, r)"
  by (simp add: unserial_int16_def htons_mem_word del: word_bytes_numeral)

lemma unserial_int32_bytes [codec_simps]:
  "unserial_int32 be (rev (word_bytes 4 v) @ r) = Some (v, r)"
  by (simp add: unserial_int32_def htonl_mem_word del: word_bytes_numeral)

lemma unserial_int64_bytes [codec_simps]:
  "unserial_int64 be (rev (word_bytes 8 v) @ r) = Some (v, r)"
  by (simp add: unserial_int64_def htonl_1 reverse8_rev mem_word_def del: word_bytes_numeral)

lemma uint_int_codec_eq:
  "serial_uint16 = serial_int16" "serial_uint32 = serial_int32" "serial_uint64 = serial_int64"
  "unserial_uint16 = unserial_int16" "unserial_uint32 = unserial_int32"
  "unserial_uint64 = unserial_int64"
  by (auto simp: fun_eq_iff serial_uint16_def serial_int16_def serial_uint32_def serial_int32_def
      serial_uint64_def serial_int64_def unserial_uint16_def unserial_int16_def
      unserial_uint32_def unserial_int32_def unserial_uint64_def unserial_int64_def)

lemma unserial_string_bytes [codec_simps]:
  "0 \<notin> set str \<Longrightarrow> unserial_string (str @ 0 # r) = Some (str, r)"
  by (simp add: unserial_string_def takeWhile_append dropWhile_append)

section \<open>The codec interface\<close>

text \<open>
  What the readers and writers promise each other: a writer appends the encoding of its
  value to the buffer, and a reader standing before that encoding returns the value and
  stops right after it. Clients that serialise several fields one after the other rely on
  nothing else.
\<close>

locale codec =
  fixes put :: "'v \<Rightarrow> byte list \<Rightarrow> byte list"
    and get :: "byte list \<Rightarrow> ('v \<times> byte list) option"
    and enc :: "'v \<Rightarrow> byte list"
    and ok :: "'v \<Rightarrow> bool"
  assumes put_enc: "put v ptr = ptr @ enc v"
    and get_enc: "ok v \<Longrightarrow> get (enc v @ r) = Some (v, r)"
begin

lemma roundtrip: "ok v \<Longrightarrow> get (put v [] @ r) = Some (v, r)"
  by (simp add: put_enc get_enc)

primrec put_all :: "'v list \<Rightarrow> byte list \<Rightarrow> byte list" where
  "put_all [] ptr = ptr"
| "put_all (v # vs) ptr = put_all vs (put v ptr)"

primrec get_n :: "nat \<Rightarrow> byte list \<Rightarrow> ('v list \<times> byte list) option" where
  "get_n 0 ptr = Some ([], ptr)"
| "get_n (Suc n) ptr =
     (case get ptr of None \<Rightarrow> None
      | Some (v, r) \<Rightarrow> (case get_n n r of None \<Rightarrow> None | Some (vs, r') \<Rightarrow> Some (v # vs, r')))"

lemma put_all_enc: "put_all vs ptr = ptr @ concat (map enc vs)"
  by (induction vs arbitrary: ptr) (auto simp: put_enc)

lemma get_n_enc: "\<forall>v \<in> set vs. ok v \<Longrightarrow> get_n (length vs) (concat (map enc vs) @ r) = Some (vs, r)"
  by (induction vs) (auto simp: get_enc)

lemma sequence_roundtrip:
  "\<forall>v \<in> set vs. ok v \<Longrightarrow> get_n (length vs) (put_all vs [] @ r) = Some (vs, r)"
  by (simp add: put_all_enc get_n_enc)

lemma enc_inj: "ok v \<Longrightarrow> ok v' \<Longrightarrow> enc v = enc v' \<Longrightarrow> v = v'"
  using get_enc [of v "[]"] get_enc [of v' "[]"] by simp

end

interpretation int16: codec "serial_int16 be" "unserial_int16 be'" "\<lambda>v. rev (word_bytes 2 v)" "\<lambda>_. True"
  by unfold_locales (simp_all add: serial_bytes codec_simps del: word_bytes_numeral)

interpretation int32: codec "serial_int32 be" "unserial_int32 be'" "\<lambda>v. rev (word_bytes 4 v)" "\<lambda>_. True"
  by unfold_locales (simp_all add: serial_bytes codec_simps del: word_bytes_numeral)

interpretation int64: codec "serial_int64 be" "unserial_int64 be'" "\<lambda>v. rev (word_bytes 8 v)" "\<lambda>_. True"
  by unfold_locales (simp_all add: serial_bytes codec_simps del: word_bytes_numeral)

interpretation cstring: codec serial_string unserial_string "\<lambda>s. s @ [0]" "\<lambda>s. 0 \<notin> set s"
  by unfold_locales (simp_all add: serial_string_def unserial_string_bytes)

section \<open>Properties\<close>

text \<open>The serialised form of the integers does not depend on the byte order of the
  machine that writes, and a machine of any byte order reads back the value and leaves the
  pointer behind it.\<close>

theorem serial_roundtrip:
  "serial_int32 be v [] = serial_int32 be' v [] \<and> unserial_int32 be' (serial_int32 be v [] @ r) = Some (v, r)
   \<and> serial_int64 be w [] = serial_int64 be' w [] \<and> unserial_int64 be' (serial_int64 be w [] @ r) = Some (w, r)"
  using int32.roundtrip [of be' be v r] int64.roundtrip [of be' be w r] by (simp only: serial_bytes simp_thms)

end
