(* ===== verification/Queue.thy ===== *)
theory Queue
  imports Prelude
begin

text \<open>
  The linked queue of \<^verbatim>\<open>src/destor/src/utils/queue.c\<close> over an explicit store of cells.
  A \<open>queue_ele_t\<close> is a record of the store, a pointer is \<open>Some\<close> address or \<open>None\<close> for
  \<open>NULL\<close>. \<open>malloc\<close> is represented by the address it returned, which is a parameter of
  \<open>queue_push\<close> (\<open>None\<close> when it failed). A result \<open>None\<close> of an operation is a
  dereference of \<open>NULL\<close> or of a cell that is not allocated: undefined behaviour in C.

  The representation predicate \<open>q_repr\<close> relates a queue to the list of its elements; the
  interface \<open>fifo\<close> is what the clients of a queue rely on.
\<close>

section \<open>Definitions\<close>

record 'a queue_ele =
  qe_next :: "nat option"
  qe_data :: 'a

type_synonym 'a qheap = "nat \<rightharpoonup> 'a queue_ele"

record 'a Queue =
  q_first :: "nat option"
  q_last :: "nat option"
  elem_num :: int
  q_heap :: "'a qheap"

definition queue_new :: "'a Queue" where
  "queue_new = \<lparr>q_first = None, q_last = None, elem_num = 0, q_heap = Map.empty\<rparr>"

definition queue_push :: "nat option \<Rightarrow> 'a Queue \<Rightarrow> 'a \<Rightarrow> 'a Queue option" where
  "queue_push new queue element =
     (case new of
        None \<Rightarrow> Some queue
      | Some item \<Rightarrow>
          let h = (q_heap queue)(item \<mapsto> \<lparr>qe_next = None, qe_data = element\<rparr>) in
          (case q_first queue of
             None \<Rightarrow> Some (queue\<lparr>q_first := Some item, q_last := Some item,
                             elem_num := elem_num queue + 1, q_heap := h\<rparr>)
           | Some _ \<Rightarrow>
               (case q_last queue of
                  None \<Rightarrow> None
                | Some l \<Rightarrow>
                    (case h l of
                       None \<Rightarrow> None
                     | Some c \<Rightarrow>
                         Some (queue\<lparr>q_last := Some item, elem_num := elem_num queue + 1,
                            q_heap := h(l \<mapsto> c\<lparr>qe_next := Some item\<rparr>)\<rparr>)))))"

definition queue_pop :: "'a Queue \<Rightarrow> ('a option \<times> 'a Queue) option" where
  "queue_pop queue =
     (if elem_num queue = 0 then Some (None, queue)
      else case q_first queue of
        None \<Rightarrow> None
      | Some item \<Rightarrow>
          (case q_heap queue item of
             None \<Rightarrow> None
           | Some c \<Rightarrow>
               Some (Some (qe_data c),
                 queue\<lparr>q_first := qe_next c,
                       q_last := (if q_last queue = Some item then None else q_last queue),
                       elem_num := elem_num queue - 1,
                       q_heap := (q_heap queue)(item := None)\<rparr>)))"

definition queue_top :: "'a Queue \<Rightarrow> 'a option option" where
  "queue_top queue =
     (if elem_num queue = 0 then Some None
      else case q_first queue of
        None \<Rightarrow> None
      | Some item \<Rightarrow> map_option (\<lambda>c. Some (qe_data c)) (q_heap queue item))"

definition queue_size :: "'a Queue \<Rightarrow> int" where
  "queue_size queue = elem_num queue"

text \<open>\<open>queue_empty\<close> pops until the counter is zero, handing each element to \<open>free_data\<close>;
  the list of the freed elements is returned.\<close>

partial_function (option) queue_empty_loop ::
    "'a Queue \<Rightarrow> 'a option list \<Rightarrow> ('a option list \<times> 'a Queue) option" where
  "queue_empty_loop queue freed =
     (if elem_num queue = 0 then Some (freed, queue)
      else case queue_pop queue of
        None \<Rightarrow> None
      | Some (d, queue') \<Rightarrow> queue_empty_loop queue' (freed @ [d]))"

definition queue_empty :: "'a Queue \<Rightarrow> ('a option list \<times> 'a Queue) option" where
  "queue_empty queue = queue_empty_loop queue []"

text \<open>\<open>queue_free\<close>: the queue itself is released after it was emptied.\<close>

definition queue_free :: "'a Queue \<Rightarrow> 'a option list option" where
  "queue_free queue = map_option fst (queue_empty queue)"

partial_function (option) queue_foreach_loop ::
    "('a \<Rightarrow> 'u \<Rightarrow> 'u) \<Rightarrow> 'a qheap \<Rightarrow> nat option \<Rightarrow> 'u \<Rightarrow> 'u option" where
  "queue_foreach_loop func h item u =
     (case item of
        None \<Rightarrow> Some u
      | Some a \<Rightarrow> (case h a of
          None \<Rightarrow> None
        | Some c \<Rightarrow> queue_foreach_loop func h (qe_next c) (func (qe_data c) u)))"

definition queue_foreach :: "'a Queue \<Rightarrow> ('a \<Rightarrow> 'u \<Rightarrow> 'u) \<Rightarrow> 'u \<Rightarrow> 'u option" where
  "queue_foreach queue func u =
     (if elem_num queue = 0 then Some u else queue_foreach_loop func (q_heap queue) (q_first queue) u)"

fun queue_walk :: "'a qheap \<Rightarrow> nat \<Rightarrow> nat option \<Rightarrow> nat option option" where
  "queue_walk h 0 item = Some item"
| "queue_walk h (Suc n) item =
     (case item of None \<Rightarrow> None
      | Some a \<Rightarrow> (case h a of None \<Rightarrow> None | Some c \<Rightarrow> queue_walk h n (qe_next c)))"

text \<open>For a negative \<open>n\<close> the loop \<open>while (i < n)\<close> does not run and the first cell is read.\<close>

definition queue_get_n :: "'a Queue \<Rightarrow> int \<Rightarrow> 'a option option" where
  "queue_get_n queue n =
     (if n \<ge> queue_size queue then Some None
      else case queue_walk (q_heap queue) (nat n) (q_first queue) of
        None \<Rightarrow> None
      | Some None \<Rightarrow> None
      | Some (Some a) \<Rightarrow> map_option (\<lambda>c. Some (qe_data c)) (q_heap queue a))"

partial_function (option) queue_find_loop ::
    "('a \<Rightarrow> 'd \<Rightarrow> int) \<Rightarrow> 'd \<Rightarrow> 'a qheap \<Rightarrow> nat \<Rightarrow> 'a option option" where
  "queue_find_loop hit d h item =
     (case h item of
        None \<Rightarrow> None
      | Some c \<Rightarrow>
          if hit (qe_data c) d = 1 then Some (Some (qe_data c))
          else (case qe_next c of
            None \<Rightarrow> Some None
          | Some item' \<Rightarrow> queue_find_loop hit d h item'))"

definition queue_find :: "'a Queue \<Rightarrow> ('a \<Rightarrow> 'd \<Rightarrow> int) \<Rightarrow> 'd \<Rightarrow> 'a option option" where
  "queue_find queue hit d =
     (if elem_num queue = 0 then Some None
      else case q_first queue of
        None \<Rightarrow> None
      | Some item \<Rightarrow> queue_find_loop hit d (q_heap queue) item)"

section \<open>Representation\<close>

fun cells :: "'a qheap \<Rightarrow> nat option \<Rightarrow> nat list \<Rightarrow> 'a list \<Rightarrow> bool" where
  "cells h p [] xs = (p = None \<and> xs = [])"
| "cells h p (a # as) xs =
     (p = Some a \<and> (\<exists>c xs'. h a = Some c \<and> xs = qe_data c # xs' \<and> cells h (qe_next c) as xs'))"

definition q_repr_at :: "nat list \<Rightarrow> 'a Queue \<Rightarrow> 'a list \<Rightarrow> bool" where
  "q_repr_at as queue xs =
     (cells (q_heap queue) (q_first queue) as xs \<and> distinct as \<and> dom (q_heap queue) = set as
      \<and> q_last queue = (if as = [] then None else Some (last as))
      \<and> elem_num queue = int (length xs))"

definition q_repr :: "'a Queue \<Rightarrow> 'a list \<Rightarrow> bool" where
  "q_repr queue xs = (\<exists>as. q_repr_at as queue xs)"

lemma cells_length: "cells h p as xs \<Longrightarrow> length as = length xs"
  by (induction as arbitrary: p xs) auto

lemma cells_frame: "a \<notin> set as \<Longrightarrow> cells (h(a := v)) p as xs = cells h p as xs"
  by (induction as arbitrary: p xs) auto

lemma cells_append_cell:
  assumes "cells h p as xs" "as \<noteq> []" "distinct as" "h (last as) = Some c" "item \<notin> set as"
  shows "cells (h(item \<mapsto> \<lparr>qe_next = None, qe_data = e\<rparr>, last as \<mapsto> c\<lparr>qe_next := Some item\<rparr>))
           p (as @ [item]) (xs @ [e])"
  using assms
proof (induction as arbitrary: p xs)
  case Nil
  then show ?case by simp
next
  case (Cons a as)
  show ?case
  proof (cases "as = []")
    case True
    with Cons.prems show ?thesis by auto
  next
    case False
    from Cons.prems obtain c0 xs' where
      *: "p = Some a" "h a = Some c0" "xs = qe_data c0 # xs'" "cells h (qe_next c0) as xs'"
      by auto
    from False Cons.prems have "last as \<noteq> a" "a \<noteq> item" by auto
    with * Cons.IH [OF *(4) False] Cons.prems False show ?thesis by auto
  qed
qed

lemma q_repr_new: "q_repr queue_new []"
  by (auto simp: q_repr_def q_repr_at_def queue_new_def intro: exI [of _ "[]"])

lemma q_repr_size: "q_repr queue xs \<Longrightarrow> queue_size queue = int (length xs)"
  by (auto simp: q_repr_def q_repr_at_def queue_size_def)

lemma queue_push_ok:
  assumes "q_repr queue xs" "q_heap queue item = None"
  shows "\<exists>queue'. queue_push (Some item) queue e = Some queue' \<and> q_repr queue' (xs @ [e])"
proof -
  from assms(1) obtain as where r: "q_repr_at as queue xs" by (auto simp: q_repr_def)
  with assms(2) have fresh: "item \<notin> set as" by (auto simp: q_repr_at_def)
  let ?h = "(q_heap queue)(item \<mapsto> \<lparr>qe_next = None, qe_data = e\<rparr>)"
  show ?thesis
  proof (cases as)
    case Nil
    with r have "queue_push (Some item) queue e = Some (queue\<lparr>q_first := Some item, q_last := Some item,
        elem_num := elem_num queue + 1, q_heap := ?h\<rparr>)"
      by (simp add: queue_push_def q_repr_at_def Let_def)
    moreover have "q_repr_at [item] (queue\<lparr>q_first := Some item, q_last := Some item,
        elem_num := elem_num queue + 1, q_heap := ?h\<rparr>) (xs @ [e])"
      using r Nil by (auto simp: q_repr_at_def)
    ultimately show ?thesis by (auto simp: q_repr_def)
  next
    case (Cons a as')
    then have ne: "as \<noteq> []" by simp
    then have "last as \<in> dom (q_heap queue)" using r by (auto simp: q_repr_at_def)
    then obtain c where c: "q_heap queue (last as) = Some c" by auto
    have "last as \<noteq> item" using ne fresh by auto
    let ?q = "queue\<lparr>q_last := Some item, elem_num := elem_num queue + 1,
        q_heap := ?h(last as \<mapsto> c\<lparr>qe_next := Some item\<rparr>)\<rparr>"
    have "queue_push (Some item) queue e = Some ?q"
      using r Cons c \<open>last as \<noteq> item\<close> by (auto simp: queue_push_def q_repr_at_def Let_def)
    moreover have "q_repr_at (as @ [item]) ?q (xs @ [e])"
      using r ne c fresh cells_append_cell [of "q_heap queue" "q_first queue" as xs c item e]
      by (auto simp: q_repr_at_def)
    ultimately show ?thesis by (auto simp: q_repr_def)
  qed
qed

lemma queue_pop_empty: "q_repr queue [] \<Longrightarrow> queue_pop queue = Some (None, queue)"
  by (auto simp: q_repr_def q_repr_at_def queue_pop_def)

lemma queue_pop_ok:
  assumes "q_repr queue (x # xs)"
  shows "\<exists>queue'. queue_pop queue = Some (Some x, queue') \<and> q_repr queue' xs"
proof -
  from assms obtain as where r: "q_repr_at as queue (x # xs)" by (auto simp: q_repr_def)
  then obtain a as' where as: "as = a # as'" by (cases as) (auto simp: q_repr_at_def)
  with r obtain c where c: "q_first queue = Some a" "q_heap queue a = Some c" "qe_data c = x"
      "cells (q_heap queue) (qe_next c) as' xs"
    by (auto simp: q_repr_at_def)
  let ?q = "queue\<lparr>q_first := qe_next c,
                  q_last := (if q_last queue = Some a then None else q_last queue),
                  elem_num := elem_num queue - 1, q_heap := (q_heap queue)(a := None)\<rparr>"
  have "queue_pop queue = Some (Some x, ?q)"
    using r c by (simp add: queue_pop_def q_repr_at_def)
  moreover have "q_repr_at as' ?q xs"
    using r c as by (auto simp: q_repr_at_def cells_frame split: if_splits)
  ultimately show ?thesis by (auto simp: q_repr_def)
qed

lemma q_repr_NilD: "q_repr queue [] \<Longrightarrow> elem_num queue = 0"
  by (auto simp: q_repr_def q_repr_at_def)

lemma q_repr_Cons_num: "q_repr queue (x # xs) \<Longrightarrow> elem_num queue \<noteq> 0"
  by (auto simp: q_repr_def q_repr_at_def)

lemma q_repr_ConsD:
  assumes "q_repr queue (x # xs)"
  obtains a as c where "elem_num queue \<noteq> 0" "q_first queue = Some a" "q_heap queue a = Some c"
    "qe_data c = x" "cells (q_heap queue) (Some a) (a # as) (x # xs)"
proof -
  from assms obtain as' where r: "q_repr_at as' queue (x # xs)" by (auto simp: q_repr_def)
  then obtain a as where "as' = a # as" by (cases as') (auto simp: q_repr_at_def)
  with r that show thesis by (auto simp: q_repr_at_def)
qed

lemma queue_top_ok: "q_repr queue xs \<Longrightarrow> queue_top queue = Some (case xs of [] \<Rightarrow> None | x # _ \<Rightarrow> Some x)"
  by (cases xs) (auto simp: queue_top_def dest: q_repr_NilD elim: q_repr_ConsD)

lemma queue_empty_ok: "q_repr queue xs \<Longrightarrow> \<exists>queue'. queue_empty queue = Some (map Some xs, queue') \<and> q_repr queue' []"
proof -
  have "q_repr queue xs \<Longrightarrow>
      \<exists>queue'. queue_empty_loop queue freed = Some (freed @ map Some xs, queue') \<and> q_repr queue' []" for freed
  proof (induction xs arbitrary: queue freed)
    case Nil
    then have "elem_num queue = 0" by (rule q_repr_NilD)
    with Nil show ?case by (simp add: queue_empty_loop.simps [of queue])
  next
    case (Cons x xs)
    from Cons.prems have "elem_num queue \<noteq> 0" by (rule q_repr_Cons_num)
    moreover from queue_pop_ok [OF Cons.prems]
    obtain q' where "queue_pop queue = Some (Some x, q')" "q_repr q' xs" by auto
    moreover from Cons.IH [OF this(2), of "freed @ [Some x]"] obtain q'' where
      "queue_empty_loop q' (freed @ [Some x]) = Some (freed @ map Some (x # xs), q'')" "q_repr q'' []" by auto
    ultimately show ?case by (simp add: queue_empty_loop.simps [of queue])
  qed
  from this [of "[]"] show "q_repr queue xs \<Longrightarrow> ?thesis" by (simp add: queue_empty_def)
qed

lemma queue_foreach_loop_ok:
  "cells h p as xs \<Longrightarrow> queue_foreach_loop func h p u = Some (fold func xs u)"
proof (induction as arbitrary: p xs u)
  case Nil
  then show ?case by (simp add: queue_foreach_loop.simps)
next
  case (Cons a as)
  then show ?case by (subst queue_foreach_loop.simps) auto
qed

lemma queue_foreach_ok: "q_repr queue xs \<Longrightarrow> queue_foreach queue func u = Some (fold func xs u)"
  by (auto simp: q_repr_def q_repr_at_def queue_foreach_def intro: queue_foreach_loop_ok)

lemma queue_walk_ok:
  "cells h p as xs \<Longrightarrow> n < length as \<Longrightarrow> queue_walk h n p = Some (Some (as ! n))"
  by (induction n arbitrary: p as xs) (case_tac as, auto)+

lemma cells_nth: "cells h p as xs \<Longrightarrow> n < length as \<Longrightarrow> \<exists>c. h (as ! n) = Some c \<and> qe_data c = xs ! n"
  by (induction as arbitrary: p xs n) (auto simp: nth_Cons split: nat.splits)

lemma queue_get_n_ok:
  assumes "q_repr queue xs" "0 \<le> n"
  shows "queue_get_n queue n = Some (if n < int (length xs) then Some (xs ! nat n) else None)"
proof (cases "n < int (length xs)")
  case True
  from assms obtain as where r: "q_repr_at as queue xs" by (auto simp: q_repr_def)
  then have c: "cells (q_heap queue) (q_first queue) as xs" by (simp add: q_repr_at_def)
  with True assms have l: "nat n < length as" by (auto dest: cells_length)
  from cells_nth [OF c l] obtain e where "q_heap queue (as ! nat n) = Some e" "qe_data e = xs ! nat n" by auto
  with True q_repr_size [OF assms(1)] queue_walk_ok [OF c l] show ?thesis
    by (auto simp: queue_get_n_def)
next
  case False
  with q_repr_size [OF assms(1)] show ?thesis by (simp add: queue_get_n_def)
qed

lemma queue_find_loop_ok:
  "cells h (Some a) as xs \<Longrightarrow> queue_find_loop hit d h a = Some (find (\<lambda>x. hit x d = 1) xs)"
proof (induction as arbitrary: a xs)
  case Nil
  then show ?case by simp
next
  case (Cons b as)
  then obtain c xs' where *: "a = b" "h b = Some c" "xs = qe_data c # xs'" "cells h (qe_next c) as xs'" by auto
  show ?case
  proof (cases "qe_next c")
    case None
    with * have "xs' = []" by (cases as) auto
    with * None show ?thesis by (subst queue_find_loop.simps) auto
  next
    case (Some a')
    with Cons.IH [of a' xs'] * show ?thesis by (subst queue_find_loop.simps) auto
  qed
qed

lemma queue_find_ok:
  assumes "q_repr queue xs"
  shows "queue_find queue hit d = Some (find (\<lambda>x. hit x d = 1) xs)"
proof (cases xs)
  case Nil
  with assms show ?thesis by (auto simp: queue_find_def dest: q_repr_NilD)
next
  case (Cons x xs')
  with assms obtain a as where "elem_num queue \<noteq> 0" "q_first queue = Some a"
      "cells (q_heap queue) (Some a) (a # as) xs"
    by (metis q_repr_ConsD)
  then show ?thesis by (simp add: queue_find_def queue_find_loop_ok del: cells.simps)
qed

section \<open>The interface of a queue\<close>

text \<open>
  A client calls \<open>push\<close>, \<open>pop\<close> and \<open>size\<close>. A run is a sequence of calls; each push names
  the cell \<open>malloc\<close> returned for it.
\<close>

datatype 'a qop = QPush nat 'a | QPop

fun spec_run :: "'a qop list \<Rightarrow> 'a list \<Rightarrow> 'a option list \<times> 'a list" where
  "spec_run [] xs = ([], xs)"
| "spec_run (QPush _ e # ops) xs = spec_run ops (xs @ [e])"
| "spec_run (QPop # ops) [] = (let (out, xs') = spec_run ops [] in (None # out, xs'))"
| "spec_run (QPop # ops) (x # xs) = (let (out, xs') = spec_run ops xs in (Some x # out, xs'))"

locale fifo =
  fixes push :: "nat \<Rightarrow> 'q \<Rightarrow> 'a \<Rightarrow> 'q option"
    and pop :: "'q \<Rightarrow> ('a option \<times> 'q) option"
    and size_of :: "'q \<Rightarrow> int"
    and fresh :: "'q \<Rightarrow> nat \<Rightarrow> bool"
    and repr :: "'q \<Rightarrow> 'a list \<Rightarrow> bool"
  assumes push_repr: "repr q xs \<Longrightarrow> fresh q i \<Longrightarrow> \<exists>q'. push i q e = Some q' \<and> repr q' (xs @ [e])"
    and pop_nil: "repr q [] \<Longrightarrow> pop q = Some (None, q)"
    and pop_cons: "repr q (x # xs) \<Longrightarrow> \<exists>q'. pop q = Some (Some x, q') \<and> repr q' xs"
    and size_repr: "repr q xs \<Longrightarrow> size_of q = int (length xs)"
begin

fun run :: "'a qop list \<Rightarrow> 'q \<Rightarrow> ('a option list \<times> 'q) option" where
  "run [] q = Some ([], q)"
| "run (QPush i e # ops) q = (case push i q e of None \<Rightarrow> None | Some q' \<Rightarrow> run ops q')"
| "run (QPop # ops) q = (case pop q of None \<Rightarrow> None
     | Some (r, q') \<Rightarrow> map_option (\<lambda>(out, q''). (r # out, q'')) (run ops q'))"

fun fresh_run :: "'a qop list \<Rightarrow> 'q \<Rightarrow> bool" where
  "fresh_run [] q = True"
| "fresh_run (QPush i e # ops) q = (fresh q i \<and> (case push i q e of None \<Rightarrow> False | Some q' \<Rightarrow> fresh_run ops q'))"
| "fresh_run (QPop # ops) q = (case pop q of None \<Rightarrow> False | Some (r, q') \<Rightarrow> fresh_run ops q')"

lemma run_refines:
  "repr q xs \<Longrightarrow> fresh_run ops q \<Longrightarrow>
     \<exists>q'. run ops q = Some (fst (spec_run ops xs), q') \<and> repr q' (snd (spec_run ops xs))"
proof (induction ops xs arbitrary: q rule: spec_run.induct)
  case (1 xs)
  then show ?case by simp
next
  case (2 i e ops xs)
  from 2 push_repr [of q xs i e] show ?case by auto
next
  case (3 ops)
  with pop_nil [of q] 3 show ?case by (fastforce simp: split_beta Let_def)
next
  case (4 ops x xs)
  with pop_cons [of q x xs] show ?case by (fastforce simp: split_beta Let_def)
qed

lemma repr_unique_size: "repr q xs \<Longrightarrow> repr q ys \<Longrightarrow> length xs = length ys"
  using size_repr [of q xs] size_repr [of q ys] by simp

end

interpretation linked: fifo "\<lambda>i. queue_push (Some i)" queue_pop queue_size "\<lambda>q i. q_heap q i = None" q_repr
  by unfold_locales (auto simp: queue_push_ok queue_pop_empty queue_pop_ok q_repr_size)

section \<open>Properties\<close>

text \<open>a run of pushes and pops on the linked queue, where each push gets a cell that is not in
  use, succeeds and gives the answers of a list that is extended at its end and consumed at its
  head; the linked queue then represents the final list.\<close>

theorem queue_run_refines:
  assumes "linked.fresh_run ops (queue_new :: 'a Queue)"
  shows "\<exists>q. linked.run ops queue_new = Some (fst (spec_run ops []), q) \<and> q_repr q (snd (spec_run ops []))"
  using linked.run_refines [OF q_repr_new assms] .

theorem queue_run_refines_witness:
  "linked.fresh_run [QPush 3 True, QPush 1 False, QPop, QPush 3 False, QPop, QPop, QPop] (queue_new :: bool Queue)
   \<and> (\<exists>q. linked.run [QPush 3 True, QPush 1 False, QPop, QPush 3 False, QPop, QPop, QPop] queue_new
         = Some ([Some True, Some False, Some False, None], q) \<and> q_repr q [])"
proof -
  have "linked.fresh_run [QPush 3 True, QPush 1 False, QPop, QPush 3 False, QPop, QPop, QPop] (queue_new :: bool Queue)"
    by (simp add: queue_push_def queue_pop_def queue_new_def Let_def)
  with queue_run_refines [OF this] show ?thesis by simp
qed

end
