(* ===== verification/Sync_Queue.thy ===== *)
theory Sync_Queue
  imports Queue
begin

text \<open>
  The bounded blocking queue that connects the threads of the pipeline
  (\<^verbatim>\<open>src/destor/src/utils/sync_queue.c\<close>). The linked queue inside is represented by the list
  of its elements, which theory \<open>Queue\<close> justifies. Each operation is split at
  \<open>pthread_cond_wait\<close>, the only point where the mutex is released: the \<open>_enter\<close> part
  runs from the lock to the first wait or to the unlock, the \<open>_loop\<close> part from a wake-up to the
  next wait or to the unlock.

  The step relation \<open>sq_step\<close> interleaves any number of producers, consumers and terminators;
  it records which threads wait, which of them were signalled, and the history of accepted
  and delivered items.
\<close>

section \<open>Operations\<close>

record 'a SyncQueue =
  sq_term :: bool
  sq_max_size :: int
  sq_queue :: "'a list"

text \<open>The outcome of a critical section: it returned a value, it waits on the condition
  variable, or the mutex could not be locked.\<close>

datatype 'r outcome = Returned 'r | Waits | Lock_Failed

definition sync_queue_new :: "int \<Rightarrow> 'a SyncQueue" where
  "sync_queue_new sz = \<lparr>sq_term = False, sq_max_size = sz, sq_queue = []\<rparr>"

definition sync_queue_size :: "'a SyncQueue \<Rightarrow> int" where
  "sync_queue_size s = int (length (sq_queue s))"

definition sync_queue_push_loop :: "'a SyncQueue \<Rightarrow> 'a \<Rightarrow> 'a SyncQueue outcome" where
  "sync_queue_push_loop s item =
     (if sq_max_size s > 0 \<and> sync_queue_size s \<ge> sq_max_size s then Waits
      else Returned (s\<lparr>sq_queue := sq_queue s @ [item]\<rparr>))"

definition sync_queue_push_enter :: "bool \<Rightarrow> 'a SyncQueue \<Rightarrow> 'a \<Rightarrow> 'a SyncQueue outcome" where
  "sync_queue_push_enter lock_ok s item =
     (if \<not> lock_ok then Lock_Failed
      else if sq_term s then Returned s
      else sync_queue_push_loop s item)"

definition sync_queue_pop_loop :: "'a SyncQueue \<Rightarrow> ('a option \<times> 'a SyncQueue) outcome" where
  "sync_queue_pop_loop s =
     (case sq_queue s of
        [] \<Rightarrow> if sq_term s then Returned (None, s) else Waits
      | item # rest \<Rightarrow> Returned (Some item, s\<lparr>sq_queue := rest\<rparr>))"

definition sync_queue_pop_enter :: "bool \<Rightarrow> 'a SyncQueue \<Rightarrow> ('a option \<times> 'a SyncQueue) outcome" where
  "sync_queue_pop_enter lock_ok s = (if \<not> lock_ok then Lock_Failed else sync_queue_pop_loop s)"

definition sync_queue_get_top_loop :: "'a SyncQueue \<Rightarrow> 'a option outcome" where
  "sync_queue_get_top_loop s =
     (case sq_queue s of
        [] \<Rightarrow> if sq_term s then Returned None else Waits
      | item # rest \<Rightarrow> Returned (Some item))"

definition sync_queue_get_top_enter :: "bool \<Rightarrow> 'a SyncQueue \<Rightarrow> 'a option outcome" where
  "sync_queue_get_top_enter lock_ok s = (if \<not> lock_ok then Lock_Failed else sync_queue_get_top_loop s)"

definition sync_queue_term :: "bool \<Rightarrow> 'a SyncQueue \<Rightarrow> 'a SyncQueue outcome" where
  "sync_queue_term lock_ok s = (if \<not> lock_ok then Lock_Failed else Returned (s\<lparr>sq_term := True\<rparr>))"

definition sync_queue_find ::
    "bool \<Rightarrow> 'a SyncQueue \<Rightarrow> ('a \<Rightarrow> 'd \<Rightarrow> int) \<Rightarrow> 'd \<Rightarrow> ('a \<Rightarrow> 'r) \<Rightarrow> 'r option outcome" where
  "sync_queue_find lock_ok s hit d dup =
     (if \<not> lock_ok then Lock_Failed
      else Returned (map_option dup (find (\<lambda>x. hit x d = 1) (sq_queue s))))"

section \<open>Interleavings\<close>

datatype consumer = Pops | Tops

text \<open>
  \<open>max_wait\<close>/\<open>min_wait\<close>: threads blocked on \<open>max_work\<close>/\<open>min_work\<close> (a producer with its item);
  \<open>max_woken\<close>/\<open>min_woken\<close>: threads that were signalled and compete for the mutex;
  \<open>accepted\<close>, \<open>refused\<close>, \<open>delivered\<close>: items appended, items dropped because the queue was
  terminated, items returned by \<open>sync_queue_pop\<close>, each oldest first; \<open>ended\<close>: the number of
  \<open>NULL\<close> results.
\<close>

record 'a sq_sys =
  sys_q :: "'a SyncQueue"
  max_wait :: "'a list"
  max_woken :: "'a list"
  min_wait :: "consumer list"
  min_woken :: "consumer list"
  accepted :: "'a list"
  refused :: "'a list"
  delivered :: "'a list"
  ended :: nat

definition sq_init :: "int \<Rightarrow> 'a sq_sys" where
  "sq_init sz = \<lparr>sys_q = sync_queue_new sz, max_wait = [], max_woken = [], min_wait = [],
     min_woken = [], accepted = [], refused = [], delivered = [], ended = 0\<rparr>"

definition wake_min :: "'a sq_sys \<Rightarrow> 'a sq_sys" where
  "wake_min s = s\<lparr>min_woken := min_woken s @ min_wait s, min_wait := []\<rparr>"

definition wake_max :: "'a sq_sys \<Rightarrow> 'a sq_sys" where
  "wake_max s = s\<lparr>max_woken := max_woken s @ max_wait s, max_wait := []\<rparr>"

definition did_push :: "'a \<Rightarrow> 'a SyncQueue \<Rightarrow> 'a sq_sys \<Rightarrow> 'a sq_sys" where
  "did_push item q s = wake_min (s\<lparr>sys_q := q, accepted := accepted s @ [item]\<rparr>)"

definition did_pop :: "'a option \<Rightarrow> 'a SyncQueue \<Rightarrow> 'a sq_sys \<Rightarrow> 'a sq_sys" where
  "did_pop r q s = (case r of
      None \<Rightarrow> s\<lparr>sys_q := q, ended := Suc (ended s)\<rparr>
    | Some item \<Rightarrow> wake_max (s\<lparr>sys_q := q, delivered := delivered s @ [item]\<rparr>))"

inductive sq_step :: "'a sq_sys \<Rightarrow> 'a sq_sys \<Rightarrow> bool" where
  push_refused: "sq_term (sys_q s) \<Longrightarrow> sync_queue_push_enter True (sys_q s) item = Returned q \<Longrightarrow>
     sq_step s (s\<lparr>sys_q := q, refused := refused s @ [item]\<rparr>)"
| push_enter: "\<not> sq_term (sys_q s) \<Longrightarrow> sync_queue_push_enter True (sys_q s) item = Returned q \<Longrightarrow>
     sq_step s (did_push item q s)"
| push_blocks: "sync_queue_push_enter True (sys_q s) item = Waits \<Longrightarrow>
     sq_step s (s\<lparr>max_wait := max_wait s @ [item]\<rparr>)"
| push_resumes: "max_woken s = ws @ item # ws' \<Longrightarrow> sync_queue_push_loop (sys_q s) item = Returned q \<Longrightarrow>
     sq_step s (did_push item q (s\<lparr>max_woken := ws @ ws'\<rparr>))"
| push_blocks_again: "max_woken s = ws @ item # ws' \<Longrightarrow> sync_queue_push_loop (sys_q s) item = Waits \<Longrightarrow>
     sq_step s (s\<lparr>max_woken := ws @ ws', max_wait := max_wait s @ [item]\<rparr>)"
| pop_enter: "sync_queue_pop_enter True (sys_q s) = Returned (r, q) \<Longrightarrow> sq_step s (did_pop r q s)"
| pop_blocks: "sync_queue_pop_enter True (sys_q s) = Waits \<Longrightarrow>
     sq_step s (s\<lparr>min_wait := min_wait s @ [Pops]\<rparr>)"
| pop_resumes: "min_woken s = ws @ Pops # ws' \<Longrightarrow> sync_queue_pop_loop (sys_q s) = Returned (r, q) \<Longrightarrow>
     sq_step s (did_pop r q (s\<lparr>min_woken := ws @ ws'\<rparr>))"
| top_enter: "sync_queue_get_top_enter True (sys_q s) = Returned r \<Longrightarrow> sq_step s s"
| top_blocks: "sync_queue_get_top_enter True (sys_q s) = Waits \<Longrightarrow>
     sq_step s (s\<lparr>min_wait := min_wait s @ [Tops]\<rparr>)"
| top_resumes: "min_woken s = ws @ Tops # ws' \<Longrightarrow> sync_queue_get_top_loop (sys_q s) = Returned r \<Longrightarrow>
     sq_step s (s\<lparr>min_woken := ws @ ws'\<rparr>)"
| consumer_blocks_again: "min_woken s = ws @ k # ws' \<Longrightarrow> sync_queue_pop_loop (sys_q s) = Waits \<Longrightarrow>
     sq_step s (s\<lparr>min_woken := ws @ ws', min_wait := min_wait s @ [k]\<rparr>)"
| terminate: "sync_queue_term True (sys_q s) = Returned q \<Longrightarrow>
     sq_step s (wake_min (s\<lparr>sys_q := q\<rparr>))"

inductive sq_reach :: "int \<Rightarrow> 'a sq_sys \<Rightarrow> bool" for sz where
  sq_start: "sq_reach sz (sq_init sz)"
| sq_next: "sq_reach sz s \<Longrightarrow> sq_step s t \<Longrightarrow> sq_reach sz t"

section \<open>Invariant\<close>

definition sq_inv :: "int \<Rightarrow> 'a sq_sys \<Rightarrow> bool" where
  "sq_inv sz s =
     (accepted s = delivered s @ sq_queue (sys_q s)
      \<and> sq_max_size (sys_q s) = sz
      \<and> (sz > 0 \<longrightarrow> sync_queue_size (sys_q s) \<le> sz)
      \<and> (max_wait s \<noteq> [] \<longrightarrow> sz > 0 \<and> sync_queue_size (sys_q s) = sz)
      \<and> (min_wait s \<noteq> [] \<longrightarrow> sq_queue (sys_q s) = [] \<and> \<not> sq_term (sys_q s))
      \<and> (refused s \<noteq> [] \<longrightarrow> sq_term (sys_q s))
      \<and> (ended s > 0 \<longrightarrow> sq_term (sys_q s)))"

lemmas sq_defs = sync_queue_push_enter_def sync_queue_push_loop_def sync_queue_pop_enter_def
  sync_queue_pop_loop_def sync_queue_get_top_enter_def sync_queue_get_top_loop_def
  sync_queue_term_def sync_queue_size_def did_push_def did_pop_def wake_min_def wake_max_def

lemma sq_inv_init: "0 \<le> sz \<Longrightarrow> sq_inv sz (sq_init sz)"
  by (simp add: sq_inv_def sq_init_def sync_queue_new_def sync_queue_size_def)

lemma sq_inv_step: "sq_step s t \<Longrightarrow> sq_inv sz s \<Longrightarrow> sq_inv sz t"
  by (induction rule: sq_step.induct)
     (auto simp: sq_inv_def sq_defs split: if_splits list.splits option.splits)

lemma sq_inv_reach: "sq_reach sz s \<Longrightarrow> 0 \<le> sz \<Longrightarrow> sq_inv sz s"
  by (induction rule: sq_reach.induct) (auto intro: sq_inv_init sq_inv_step)

section \<open>Properties\<close>

text \<open>C37: in every state that any interleaving of producers, consumers, peeking consumers and the
  terminating thread can reach, the items delivered so far are the first ones accepted, in order,
  the queue holds the others and never more than its bound; nobody waits for room while there is
  room, and nobody waits for an item while there is one or after termination.\<close>

theorem sync_queue_safe:
  assumes "sq_reach sz s" "0 \<le> sz"
  shows "accepted s = delivered s @ sq_queue (sys_q s) \<and> (sz > 0 \<longrightarrow> sync_queue_size (sys_q s) \<le> sz)
     \<and> (max_wait s \<noteq> [] \<longrightarrow> sync_queue_size (sys_q s) = sz)
     \<and> (min_wait s \<noteq> [] \<longrightarrow> sq_queue (sys_q s) = [] \<and> \<not> sq_term (sys_q s))"
  using sq_inv_reach [OF assms] by (simp add: sq_inv_def)

theorem sync_queue_safe_witness:
  "\<exists>s. sq_reach 1 s \<and> accepted s = [True] \<and> max_wait s = [False] \<and> sync_queue_size (sys_q s) = 1"
proof -
  let ?s1 = "did_push True ((sync_queue_new 1)\<lparr>sq_queue := [True]\<rparr>) (sq_init 1)"
  have "sq_step (sq_init 1) ?s1"
    by (rule sq_step.push_enter) (simp_all add: sq_init_def sync_queue_new_def sq_defs)
  with sq_start have 1: "sq_reach 1 ?s1" by (rule sq_next)
  let ?s2 = "?s1\<lparr>max_wait := max_wait ?s1 @ [False]\<rparr>"
  have "sq_step ?s1 ?s2"
    by (rule sq_step.push_blocks) (simp add: sq_init_def sync_queue_new_def sq_defs)
  with 1 have 2: "sq_reach 1 ?s2" by (rule sq_next)
  from sync_queue_safe [OF 2] have "max_wait ?s2 \<noteq> [] \<longrightarrow> sync_queue_size (sys_q ?s2) = 1" by simp
  moreover have "accepted ?s2 = [True]" "max_wait ?s2 = [False]" by (simp_all add: sq_init_def did_push_def wake_min_def)
  ultimately show ?thesis using 2 by (intro exI [of _ ?s2]) simp
qed

end
