(* ===== verification/Container_Store.thy ===== *)
theory Container_Store
  imports Destor Serial Sync_Queue
begin

unbundle bit_operations_syntax

text \<open>
  The container store (\<^verbatim>\<open>src/destor/src/storage/containerstore.c\<close>): in-memory containers with
  their metadata table, the binary layout of a container in \<^verbatim>\<open>container.pool\<close>, the reader
  of that layout, and the append thread that drains the buffer of full containers.

  A memory area or the contents of a file is a function from offsets to bytes; a file also
  has a length, and a read past it is \<open>None\<close> (the code does not check the result of
  \<open>fread\<close> and would go on with an uninitialised buffer). The order in which
  \<open>g_hash_table_iter_next\<close> visits the metadata table is the parameter \<open>ord\<close>.
\<close>

section \<open>Data\<close>

definition CONTAINER_SIZE :: nat where "CONTAINER_SIZE = 4194304"
definition CONTAINER_META_SIZE :: nat where "CONTAINER_META_SIZE = 32768"
definition CONTAINER_META_ENTRY :: nat where "CONTAINER_META_ENTRY = 28"

record metaEntry =
  me_off :: int
  me_len :: int
  me_fp :: fingerprint

record containerMeta =
  cm_id :: containerid
  cm_data_size :: int
  cm_chunk_num :: int
  cm_map :: "(fingerprint, metaEntry) ghash"

type_synonym memory = "nat \<Rightarrow> byte"

record container =
  con_meta :: containerMeta
  con_data :: "memory option"

record FILE =
  f_bytes :: memory
  f_len :: nat

section \<open>Memory and files\<close>

definition overlay :: "memory \<Rightarrow> nat \<Rightarrow> byte list \<Rightarrow> memory" where
  "overlay m off bs = (\<lambda>i. if off \<le> i \<and> i < off + length bs then bs ! (i - off) else m i)"

definition get_bytes :: "memory \<Rightarrow> nat \<Rightarrow> nat \<Rightarrow> byte list" where
  "get_bytes m off n = map (\<lambda>i. m (off + i)) [0..<n]"

text \<open>\<open>fseek\<close> followed by \<open>fwrite\<close> of the first \<open>n\<close> bytes of a memory area.\<close>

definition fwrite_at :: "FILE \<Rightarrow> nat \<Rightarrow> memory \<Rightarrow> nat \<Rightarrow> FILE" where
  "fwrite_at f off m n =
     \<lparr>f_bytes = (\<lambda>i. if off \<le> i \<and> i < off + n then m (i - off) else f_bytes f i),
      f_len = max (f_len f) (off + n)\<rparr>"

definition fread_at :: "FILE \<Rightarrow> nat \<Rightarrow> nat \<Rightarrow> memory option" where
  "fread_at f off n = (if off + n \<le> f_len f then Some (\<lambda>i. f_bytes f (off + i)) else None)"

section \<open>Containers in memory\<close>

definition init_container_meta :: containerMeta where
  "init_container_meta = \<lparr>cm_id = TEMPORARY_ID, cm_data_size = 0, cm_chunk_num = 0, cm_map = []\<rparr>"

text \<open>The static counter \<open>container_count\<close> is passed and returned.\<close>

definition create_container :: "simulation_level \<Rightarrow> int \<Rightarrow> container \<times> int" where
  "create_container sim container_count =
     (\<lparr>con_meta = init_container_meta\<lparr>cm_id := container_count\<rparr>,
       con_data = (if sim < SIMULATION_APPEND then Some (\<lambda>_. 0) else None)\<rparr>,
      container_count + 1)"

definition get_container_id :: "container \<Rightarrow> containerid" where
  "get_container_id c = cm_id (con_meta c)"

definition container_empty :: "container \<Rightarrow> bool" where
  "container_empty c = (cm_chunk_num (con_meta c) = 0)"

definition container_overflow :: "container \<Rightarrow> int \<Rightarrow> bool" where
  "container_overflow c sz =
     (if cm_data_size (con_meta c) + sz > int CONTAINER_SIZE - int CONTAINER_META_SIZE then True
      else if (cm_chunk_num (con_meta c) + 1) * 28 + 16 > int CONTAINER_META_SIZE then True
      else False)"

definition lookup_fingerprint_in_container_meta :: "containerMeta \<Rightarrow> fingerprint \<Rightarrow> bool" where
  "lookup_fingerprint_in_container_meta cm fp = (map_of (cm_map cm) fp \<noteq> None)"

definition lookup_fingerprint_in_container :: "container \<Rightarrow> fingerprint \<Rightarrow> bool" where
  "lookup_fingerprint_in_container c fp = lookup_fingerprint_in_container_meta (con_meta c) fp"

definition container_meta_check_id :: "containerMeta \<Rightarrow> containerid \<Rightarrow> int" where
  "container_meta_check_id cm i = (if cm_id cm = i then 1 else 0)"

definition container_check_id :: "container \<Rightarrow> containerid \<Rightarrow> int" where
  "container_check_id c i = container_meta_check_id (con_meta c) i"

text \<open>The comparison returns a \<open>gint\<close>: the 64-bit difference is cut to 32 bits.\<close>

definition g_container_meta_cmp_desc :: "containerMeta \<Rightarrow> containerMeta \<Rightarrow> int" where
  "g_container_meta_cmp_desc cm1 cm2 = sint (word_of_int (cm_id cm2 - cm_id cm1) :: 32 word)"

definition g_container_cmp_desc :: "container \<Rightarrow> container \<Rightarrow> int" where
  "g_container_cmp_desc c1 c2 = g_container_meta_cmp_desc (con_meta c1) (con_meta c2)"

text \<open>The result is the return value, the container and the chunk, both updated.\<close>

definition add_chunk_to_container ::
    "simulation_level \<Rightarrow> container \<Rightarrow> chunk \<Rightarrow> (bool \<times> container \<times> chunk) option" where
  "add_chunk_to_container sim c ck = do {
     assertion (\<not> container_overflow c (ck_size ck));
     let m = con_meta c;
     if map_of (cm_map m) (ck_fp ck) \<noteq> None
     then Some (False, c, ck\<lparr>ck_id := cm_id m\<rparr>)
     else do {
       let me = \<lparr>me_off = cm_data_size m, me_len = ck_size ck, me_fp = ck_fp ck\<rparr>;
       data' \<leftarrow> (if sim < SIMULATION_APPEND
                then (case (con_data c, ck_data ck) of
                        (Some d, Some bs) \<Rightarrow>
                          Some (Some (overlay d (nat (cm_data_size m)) (take (nat (ck_size ck)) bs)))
                      | _ \<Rightarrow> None)
                else Some (con_data c));
       Some (True,
         c\<lparr>con_meta := m\<lparr>cm_map := AList.update (ck_fp ck) me (cm_map m),
                         cm_chunk_num := cm_chunk_num m + 1,
                         cm_data_size := cm_data_size m + ck_size ck\<rparr>,
           con_data := data'\<rparr>,
         ck\<lparr>ck_id := cm_id m\<rparr>)
     }
   }"

text \<open>\<open>memcpy(&ck->fp, &fp, sizeof(fingerprint))\<close> copies the 20 bytes that start at the
  parameter variable \<open>fp\<close> (a pointer and whatever follows it on the stack) and not
  the fingerprint it points to; these bytes are the parameter \<open>stack\<close>.\<close>

definition get_chunk_in_container ::
    "simulation_level \<Rightarrow> (nat \<Rightarrow> byte) \<Rightarrow> byte list \<Rightarrow> container \<Rightarrow> fingerprint \<Rightarrow> chunk option" where
  "get_chunk_in_container sim junk stack c fp = do {
     me \<leftarrow> map_of (cm_map (con_meta c)) fp;
     let ck = new_chunk junk (me_len me);
     ck' \<leftarrow> (if sim < SIMULATION_RESTORE
            then (case con_data c of
                    None \<Rightarrow> None
                  | Some d \<Rightarrow> Some (if me_len me > 0
                      then ck\<lparr>ck_data := Some (get_bytes d (nat (me_off me)) (nat (me_len me)))\<rparr>
                      else ck))
            else Some ck);
     Some (ck'\<lparr>ck_size := me_len me, ck_id := cm_id (con_meta c), ck_fp := take 20 stack\<rparr>)
   }"

definition container_meta_foreach ::
    "((fingerprint \<times> metaEntry) list \<Rightarrow> (fingerprint \<times> metaEntry) list) \<Rightarrow>
     containerMeta \<Rightarrow> (fingerprint \<Rightarrow> 'u \<Rightarrow> 'u option) \<Rightarrow> 'u \<Rightarrow> 'u option" where
  "container_meta_foreach ord cm func u = fold_opt (\<lambda>(fp, _). func fp) (ord (cm_map cm)) u"

section \<open>Layout on disk\<close>

definition ser_entry :: "bool \<Rightarrow> metaEntry \<Rightarrow> byte list" where
  "ser_entry be me = take 20 (me_fp me) @ mem_bytes be 4 (word_of_int (me_len me) :: 32 word)
     @ mem_bytes be 4 (word_of_int (me_off me) :: 32 word)"

definition ser_meta ::
    "bool \<Rightarrow> ((fingerprint \<times> metaEntry) list \<Rightarrow> (fingerprint \<times> metaEntry) list) \<Rightarrow> containerMeta \<Rightarrow> byte list" where
  "ser_meta be ord m =
     (let p = serial_int64 be (word_of_int (cm_id m)) [];
          p = serial_int32 be (word_of_int (cm_chunk_num m)) p;
          p = serial_int32 be (word_of_int (cm_data_size m)) p
      in fold (\<lambda>(_, me) p. ser_bytes (ser_entry be me) p) (ord (cm_map m)) p)"

text \<open>The store: the counter and the pool file.\<close>

record container_store =
  container_count :: int
  pool :: FILE

definition write_container ::
    "bool \<Rightarrow> ((fingerprint \<times> metaEntry) list \<Rightarrow> (fingerprint \<times> metaEntry) list) \<Rightarrow> simulation_level \<Rightarrow>
     container \<Rightarrow> container_store \<Rightarrow> container_store option" where
  "write_container be ord sim c st = do {
     let m = con_meta c;
     assertion (cm_chunk_num m = int (length (cm_map m)));
     if container_empty c then Some (st\<lparr>container_count := container_count st - 1\<rparr>)
     else do {
       let meta = ser_meta be ord m;
       if sim < SIMULATION_APPEND
       then (case con_data c of
               None \<Rightarrow> None
             | Some d \<Rightarrow> do {
                 let cur = overlay d (CONTAINER_SIZE - CONTAINER_META_SIZE) meta;
                 assertion (length meta \<le> CONTAINER_META_SIZE);
                 Some (st\<lparr>pool := fwrite_at (pool st) (nat (cm_id m) * CONTAINER_SIZE + 8) cur CONTAINER_SIZE\<rparr>)
               })
       else do {
         let buf = overlay (\<lambda>_. 0) 0 meta;
         assertion (length meta \<le> CONTAINER_META_SIZE);
         Some (st\<lparr>pool := fwrite_at (pool st) (nat (cm_id m) * CONTAINER_META_SIZE + 8) buf CONTAINER_META_SIZE\<rparr>)
       }
     }
   }"

fun unser_entries ::
    "bool \<Rightarrow> memory \<Rightarrow> nat \<Rightarrow> nat \<Rightarrow> (fingerprint, metaEntry) ghash \<Rightarrow> (fingerprint, metaEntry) ghash" where
  "unser_entries be m p 0 t = t"
| "unser_entries be m p (Suc n) t =
     (let fp = get_bytes m p 20;
          len = sint (mem_word be (get_bytes m (p + 20) 4) :: 32 word);
          off = sint (mem_word be (get_bytes m (p + 24) 4) :: 32 word)
      in unser_entries be m (p + 28) n
           (AList.update fp \<lparr>me_off = off, me_len = len, me_fp = fp\<rparr> t))"

text \<open>The common reader of \<open>retrieve_container_by_id\<close> and \<open>retrieve_container_meta_by_id\<close>: the
  metadata that starts at offset \<open>p\<close> of a buffer.\<close>

definition unser_meta :: "bool \<Rightarrow> memory \<Rightarrow> nat \<Rightarrow> containerid \<Rightarrow> containerMeta option" where
  "unser_meta be m p i = do {
     (wid, _) \<leftarrow> unserial_int64 be (get_bytes m p 8);
     (wnum, _) \<leftarrow> unserial_int32 be (get_bytes m (p + 8) 4);
     (wsize, _) \<leftarrow> unserial_int32 be (get_bytes m (p + 12) 4);
     assertion (sint wid = i);
     Some \<lparr>cm_id = sint wid, cm_data_size = sint wsize, cm_chunk_num = sint wnum,
           cm_map = unser_entries be m (p + 16) (nat (sint wnum)) []\<rparr>
   }"

definition retrieve_container_by_id ::
    "bool \<Rightarrow> simulation_level \<Rightarrow> container_store \<Rightarrow> containerid \<Rightarrow> container option" where
  "retrieve_container_by_id be sim st i =
     (if sim \<ge> SIMULATION_RESTORE
      then do {
        d \<leftarrow> (if sim \<ge> SIMULATION_APPEND
             then fread_at (pool st) (nat i * CONTAINER_META_SIZE + 8) CONTAINER_META_SIZE
             else fread_at (pool st) ((nat i + 1) * CONTAINER_SIZE - CONTAINER_META_SIZE + 8) CONTAINER_META_SIZE);
        m \<leftarrow> unser_meta be d 0 i;
        Some \<lparr>con_meta = m, con_data = None\<rparr>
      }
      else do {
        d \<leftarrow> fread_at (pool st) (nat i * CONTAINER_SIZE + 8) CONTAINER_SIZE;
        m \<leftarrow> unser_meta be d (CONTAINER_SIZE - CONTAINER_META_SIZE) i;
        Some \<lparr>con_meta = m, con_data = Some d\<rparr>
      })"

text \<open>\<open>container_meta_duplicate\<close> copies the table entry by entry into a new one.\<close>

definition container_meta_duplicate ::
    "((fingerprint \<times> metaEntry) list \<Rightarrow> (fingerprint \<times> metaEntry) list) \<Rightarrow> container \<Rightarrow> containerMeta" where
  "container_meta_duplicate ord c =
     (let base = con_meta c in
      init_container_meta\<lparr>cm_id := cm_id base, cm_chunk_num := cm_chunk_num base,
        cm_data_size := cm_data_size base,
        cm_map := fold (\<lambda>(_, me) t. AList.update (me_fp me) me t) (ord (cm_map base)) []\<rparr>)"

definition retrieve_meta_from_pool ::
    "bool \<Rightarrow> simulation_level \<Rightarrow> container_store \<Rightarrow> containerid \<Rightarrow> containerMeta option" where
  "retrieve_meta_from_pool be sim st i = do {
     buf \<leftarrow> (if sim \<ge> SIMULATION_APPEND
            then fread_at (pool st) (nat i * CONTAINER_META_SIZE + 8) CONTAINER_META_SIZE
            else fread_at (pool st) ((nat i + 1) * CONTAINER_SIZE - CONTAINER_META_SIZE + 8) CONTAINER_META_SIZE);
     unser_meta be buf 0 i
   }"

definition retrieve_container_meta_by_id ::
    "bool \<Rightarrow> ((fingerprint \<times> metaEntry) list \<Rightarrow> (fingerprint \<times> metaEntry) list) \<Rightarrow> simulation_level \<Rightarrow>
     container SyncQueue \<Rightarrow> container_store \<Rightarrow> containerid \<Rightarrow> containerMeta option" where
  "retrieve_container_meta_by_id be ord sim buffer st i =
     (case sync_queue_find True buffer container_check_id i (container_meta_duplicate ord) of
        Returned (Some cm) \<Rightarrow> Some cm
      | _ \<Rightarrow> retrieve_meta_from_pool be sim st i)"

text \<open>\<open>write_container_async\<close>: an empty container gives its number back, any other is pushed
  to the buffer (or waits there when the buffer holds 25 containers).\<close>

definition write_container_async ::
    "container SyncQueue \<Rightarrow> container_store \<Rightarrow> container \<Rightarrow> (container SyncQueue outcome \<times> container_store) option" where
  "write_container_async buffer st c = do {
     assertion (cm_chunk_num (con_meta c) = int (length (cm_map (con_meta c))));
     if container_empty c then Some (Returned buffer, st\<lparr>container_count := container_count st - 1\<rparr>)
     else Some (sync_queue_push_enter True buffer c, st)
   }"

text \<open>Opening and closing the pool: the counter lives in the first eight bytes, in the byte
  order of the host.\<close>

definition init_container_store :: "bool \<Rightarrow> FILE option \<Rightarrow> container_store option" where
  "init_container_store be f =
     (case f of
        None \<Rightarrow> Some \<lparr>container_count = 0, pool = \<lparr>f_bytes = (\<lambda>_. 0), f_len = 0\<rparr>\<rparr>
      | Some p \<Rightarrow> map_option (\<lambda>m. \<lparr>container_count = sint (mem_word be (get_bytes m 0 8) :: 64 word), pool = p\<rparr>)
                   (fread_at p 0 8))"

definition close_container_store :: "bool \<Rightarrow> container_store \<Rightarrow> FILE" where
  "close_container_store be st =
     fwrite_at (pool st) 0 (overlay (\<lambda>_. 0) 0 (mem_bytes be 8 (word_of_int (container_count st) :: 64 word))) 8"

section \<open>Reading back bytes\<close>

lemma length_get_bytes [simp]: "length (get_bytes m off n) = n"
  by (simp add: get_bytes_def)

lemma get_bytes_cong: "(\<And>i. i < n \<Longrightarrow> m (off + i) = m' (off' + i)) \<Longrightarrow> get_bytes m off n = get_bytes m' off' n"
  by (simp add: get_bytes_def)

lemma get_bytes_overlay_inside:
  "p + n \<le> length bs \<Longrightarrow> get_bytes (overlay m off bs) (off + p) n = take n (drop p bs)"
  by (rule nth_equalityI) (auto simp: get_bytes_def overlay_def add.assoc)

lemma get_bytes_overlay_before: "p + n \<le> off \<Longrightarrow> get_bytes (overlay m off bs) p n = get_bytes m p n"
  by (rule get_bytes_cong) (auto simp: overlay_def)

lemma get_bytes_add: "get_bytes m off (a + b) = get_bytes m off a @ get_bytes m (off + a) b"
  by (rule nth_equalityI) (auto simp: get_bytes_def nth_append add.assoc)

lemma fread_fwrite_same:
  "p + k \<le> n \<Longrightarrow>
     \<exists>m'. fread_at (fwrite_at f off m n) (off + p) k = Some m' \<and> (\<forall>i < k. m' i = m (p + i))"
  by (auto simp: fread_at_def fwrite_at_def add.assoc)

lemma fread_fwrite_other:
  assumes "fread_at f p k = Some m" "p + k \<le> off \<or> off + n \<le> p"
  shows "\<exists>m''. fread_at (fwrite_at f off m' n) p k = Some m'' \<and> (\<forall>i < k. m'' i = m i)"
  using assms by (auto simp: fread_at_def fwrite_at_def split: if_splits)

section \<open>Metadata round trip\<close>

definition entry_ok :: "metaEntry \<Rightarrow> bool" where
  "entry_ok me = (length (me_fp me) = 20 \<and> 0 \<le> me_off me \<and> me_off me < 2 ^ 31
     \<and> 0 \<le> me_len me \<and> me_len me < 2 ^ 31)"

definition container_ok :: "container \<Rightarrow> bool" where
  "container_ok c =
     (let m = con_meta c in
      0 \<le> cm_id m \<and> cm_id m < 2 ^ 40
      \<and> cm_chunk_num m = int (length (cm_map m)) \<and> distinct (map fst (cm_map m))
      \<and> (cm_map m = [] \<longrightarrow> cm_data_size m = 0)
      \<and> 0 \<le> cm_data_size m \<and> cm_data_size m \<le> int CONTAINER_SIZE - int CONTAINER_META_SIZE
      \<and> cm_chunk_num m * 28 + 16 \<le> int CONTAINER_META_SIZE
      \<and> (\<forall>(fp, me) \<in> set (cm_map m). me_fp me = fp \<and> length fp = 20
           \<and> 0 \<le> me_off me \<and> 0 \<le> me_len me \<and> me_off me + me_len me \<le> cm_data_size m))"

text \<open>Two metadata records describe the same container: the tables may differ in order only.\<close>

definition meta_equiv :: "containerMeta \<Rightarrow> containerMeta \<Rightarrow> bool" where
  "meta_equiv m m' = (cm_id m = cm_id m' \<and> cm_data_size m = cm_data_size m'
     \<and> cm_chunk_num m = cm_chunk_num m' \<and> map_of (cm_map m) = map_of (cm_map m'))"

lemma length_ser_entry: "length (me_fp me) = 20 \<Longrightarrow> length (ser_entry be me) = 28"
  by (simp add: ser_entry_def)

lemma ser_meta_bytes:
  "ser_meta be ord m = rev (word_bytes 8 (word_of_int (cm_id m) :: 64 word))
     @ rev (word_bytes 4 (word_of_int (cm_chunk_num m) :: 32 word))
     @ rev (word_bytes 4 (word_of_int (cm_data_size m) :: 32 word))
     @ concat (map (\<lambda>(_, me). ser_entry be me) (ord (cm_map m)))"
proof -
  have "fold (\<lambda>(_, me) p. ser_bytes (ser_entry be me) p) es p = p @ concat (map (\<lambda>(_, me). ser_entry be me) es)"
    for es :: "(fingerprint \<times> metaEntry) list" and p by (induction es arbitrary: p) (auto simp: ser_bytes_def split: prod.splits)
  then show ?thesis by (simp add: ser_meta_def serial_bytes del: word_bytes_numeral)
qed

lemma length_concat_entries:
  "\<forall>me \<in> set es. entry_ok me \<Longrightarrow> length (concat (map (ser_entry be) es)) = 28 * length es"
  by (induction es) (auto simp: length_ser_entry entry_ok_def)

lemma unser_entries_bytes:
  "\<forall>me \<in> set es. entry_ok me \<Longrightarrow> get_bytes m p (28 * length es) = concat (map (ser_entry be) es) \<Longrightarrow>
     unser_entries be m p (length es) t = fold (\<lambda>me t. AList.update (me_fp me) me t) es t"
proof (induction es arbitrary: p t)
  case Nil
  then show ?case by simp
next
  case (Cons me es)
  then have ok: "entry_ok me" by simp
  have "get_bytes m p 28 @ get_bytes m (p + 28) (28 * length es) = ser_entry be me @ concat (map (ser_entry be) es)"
    using Cons.prems(2) by (simp add: get_bytes_add [of m p 28])
  then have e: "get_bytes m p 28 = ser_entry be me"
    and r: "get_bytes m (p + 28) (28 * length es) = concat (map (ser_entry be) es)"
    using ok by (auto simp: length_ser_entry entry_ok_def append_eq_append_conv)
  have "get_bytes m p 20 @ get_bytes m (p + 20) 4 @ get_bytes m (p + 24) 4 = ser_entry be me"
    using e get_bytes_add [of m p 20 8] get_bytes_add [of m "p + 20" 4 4] by (simp add: add.commute)
  then have parts: "get_bytes m p 20 = me_fp me"
      "get_bytes m (p + 20) 4 = mem_bytes be 4 (word_of_int (me_len me) :: 32 word)"
      "get_bytes m (p + 24) 4 = mem_bytes be 4 (word_of_int (me_off me) :: 32 word)"
    using ok by (auto simp: ser_entry_def entry_ok_def append_eq_append_conv)
  from parts ok Cons.IH [of "p + 28"] Cons.prems(1) r show ?case
    by (cases me) (simp add: entry_ok_def sint_of_int_32 Let_def del: word_bytes_numeral)
qed

lemma map_of_fold_update:
  "distinct (map f es) \<Longrightarrow>
     (map_of (fold (\<lambda>e t. AList.update (f e) e t) es t) k = Some v) =
     ((v \<in> set es \<and> f v = k) \<or> (k \<notin> f ` set es \<and> map_of t k = Some v))"
  by (induction es arbitrary: t) (auto simp: update_conv' split: if_splits)

lemma map_of_rebuilt:
  assumes "mset es = mset (cm_map m)" "distinct (map fst (cm_map m))"
    and "\<forall>(fp, me) \<in> set (cm_map m). me_fp me = fp"
  shows "map_of (fold (\<lambda>me t. AList.update (me_fp me) me t) (map snd es) []) = map_of (cm_map m)"
proof -
  have s: "set es = set (cm_map m)" using assms(1) by (metis set_mset_mset)
  have "map me_fp (map snd es) = map fst es" using assms(3) s by auto
  moreover have "distinct (map fst es)" using assms(1,2) using mset_eq_imp_distinct_iff [of "map fst es" "map fst (cm_map m)"] by simp
  ultimately have d: "distinct (map me_fp (map snd es))" by metis
  have "(map_of (fold (\<lambda>me t. AList.update (me_fp me) me t) (map snd es) []) k = Some v)
      = (map_of (cm_map m) k = Some v)" for k v
  proof -
    have "(v \<in> set (map snd es) \<and> me_fp v = k) = ((k, v) \<in> set (cm_map m))"
    proof
      assume "v \<in> set (map snd es) \<and> me_fp v = k"
      then obtain fp where "(fp, v) \<in> set (cm_map m)" "me_fp v = k" using s by auto
      with assms(3) show "(k, v) \<in> set (cm_map m)" by auto
    next
      assume "(k, v) \<in> set (cm_map m)"
      with assms(3) s show "v \<in> set (map snd es) \<and> me_fp v = k" by (auto simp: image_iff intro: bexI [of _ "(k, v)"])
    qed
    then show ?thesis
      unfolding map_of_fold_update [OF d] map_of_eq_Some_iff [OF assms(2)] by simp
  qed
  then show ?thesis by (rule map_some_eqI)
qed

lemma unser_meta_ser_meta:
  assumes "container_ok c" "mset (ord (cm_map (con_meta c))) = mset (cm_map (con_meta c))"
    and "\<And>i. i < length (ser_meta be ord (con_meta c)) \<Longrightarrow> m (p + i) = ser_meta be ord (con_meta c) ! i"
  shows "\<exists>cm. unser_meta be m p (cm_id (con_meta c)) = Some cm \<and> meta_equiv cm (con_meta c)"
proof -
  let ?M = "con_meta c" and ?es = "map snd (ord (cm_map (con_meta c)))"
  let ?W8 = "rev (word_bytes 8 (word_of_int (cm_id ?M) :: 64 word))"
  let ?W4 = "rev (word_bytes 4 (word_of_int (cm_chunk_num ?M) :: 32 word))"
  let ?W5 = "rev (word_bytes 4 (word_of_int (cm_data_size ?M) :: 32 word))"
  let ?E = "concat (map (ser_entry be) ?es)"
  have set_eq: "set (ord (cm_map ?M)) = set (cm_map ?M)" using assms(2) by (metis set_mset_mset)
  have bounds: "cm_id ?M < 2 ^ 40" "0 \<le> cm_id ?M" "0 \<le> cm_chunk_num ?M" "cm_chunk_num ?M < 2 ^ 31"
      "0 \<le> cm_data_size ?M" "cm_data_size ?M < 2 ^ 31" "cm_chunk_num ?M = int (length ?es)"
    using assms(1) mset_eq_length [OF assms(2)]
    by (auto simp: container_ok_def Let_def CONTAINER_META_SIZE_def CONTAINER_SIZE_def)
  have ok: "\<forall>me \<in> set ?es. entry_ok me"
    using assms(1) set_eq bounds(6) by (auto simp: container_ok_def Let_def entry_ok_def; fastforce)
  have ser: "ser_meta be ord ?M = ?W8 @ ?W4 @ ?W5 @ ?E"
    by (simp add: ser_meta_bytes comp_def case_prod_unfold del: word_bytes_numeral)
  have all: "get_bytes m p (16 + 28 * length ?es) = ?W8 @ ?W4 @ ?W5 @ ?E"
    using assms(3) ok length_concat_entries [of ?es be]
    by (intro nth_equalityI) (simp_all add: get_bytes_def ser del: word_bytes_numeral)
  have split: "get_bytes m p (16 + 28 * length ?es) =
      get_bytes m p 8 @ get_bytes m (p + 8) 4 @ get_bytes m (p + 12) 4 @ get_bytes m (p + 16) (28 * length ?es)"
    using get_bytes_add [of m p 16 "28 * length ?es"] get_bytes_add [of m p 8 8] get_bytes_add [of m "p + 8" 4 4]
    by (simp add: add.commute)
  from all split have parts: "get_bytes m p 8 = ?W8" "get_bytes m (p + 8) 4 = ?W4"
      "get_bytes m (p + 12) 4 = ?W5" "get_bytes m (p + 16) (28 * length ?es) = ?E"
    by (simp_all add: append_eq_append_conv del: word_bytes_numeral)
  let ?cm = "\<lparr>cm_id = cm_id ?M, cm_data_size = cm_data_size ?M, cm_chunk_num = cm_chunk_num ?M,
     cm_map = unser_entries be m (p + 16) (length ?es) []\<rparr>"
  have n: "nat (cm_chunk_num ?M) = length ?es" using bounds(7) by simp
  have "unser_meta be m p (cm_id ?M) = Some ?cm"
    using bounds(1-6) n unserial_int64_bytes [where r = "[]"] unserial_int32_bytes [where r = "[]"]
    by (simp add: unser_meta_def parts sint_of_int_32 sint_of_int_64 del: word_bytes_numeral)
  moreover have "map_of (cm_map ?cm) = map_of (cm_map ?M)"
    using unser_entries_bytes [OF ok parts(4)] map_of_rebuilt [OF assms(2)] assms(1)
    by (simp add: container_ok_def Let_def del: word_bytes_numeral; blast)
  ultimately show ?thesis by (auto simp: meta_equiv_def)
qed

lemma write_read_meta_region:
  assumes ok: "container_ok c" and ord: "mset (ord (cm_map (con_meta c))) = mset (cm_map (con_meta c))"
  shows "length (ser_meta be ord (con_meta c)) = 16 + 28 * length (cm_map (con_meta c))"
    and "length (ser_meta be ord (con_meta c)) \<le> CONTAINER_META_SIZE"
proof -
  let ?es = "map snd (ord (cm_map (con_meta c)))"
  have set_eq: "set (ord (cm_map (con_meta c))) = set (cm_map (con_meta c))" using ord by (metis set_mset_mset)
  have "\<forall>me \<in> set ?es. entry_ok me"
    using ok set_eq by (auto simp: container_ok_def Let_def entry_ok_def CONTAINER_SIZE_def CONTAINER_META_SIZE_def; fastforce)
  from length_concat_entries [OF this, of be] mset_eq_length [OF ord]
  show l: "length (ser_meta be ord (con_meta c)) = 16 + 28 * length (cm_map (con_meta c))"
    by (simp add: ser_meta_bytes comp_def case_prod_unfold del: word_bytes_numeral)
  show "length (ser_meta be ord (con_meta c)) \<le> CONTAINER_META_SIZE"
    using ok unfolding l by (auto simp: container_ok_def Let_def)
qed

lemma meta_in_container: "CONTAINER_META_SIZE \<le> CONTAINER_SIZE"
  by (simp add: CONTAINER_META_SIZE_def CONTAINER_SIZE_def)

lemma write_container_ok:
  assumes ok: "container_ok c" and ne: "\<not> container_empty c"
    and ord: "mset (ord (cm_map (con_meta c))) = mset (cm_map (con_meta c))"
    and data: "sim < SIMULATION_APPEND \<longrightarrow> con_data c \<noteq> None"
  shows "\<exists>st'. write_container be ord sim c st = Some st' \<and> container_count st' = container_count st"
  using write_read_meta_region(2) [where ord = ord, OF ok ord] ok ne data
  by (auto simp: write_container_def container_ok_def Let_def)

text \<open>What \<open>write_container\<close> leaves in the pool: the metadata alone in the simulation modes that do
  not append, the whole container otherwise.\<close>

lemma pool_after_write:
  assumes ok: "container_ok c" and ne: "\<not> container_empty c"
    and ord: "mset (ord (cm_map (con_meta c))) = mset (cm_map (con_meta c))"
    and w: "write_container be ord sim c st = Some st'"
  shows "\<not> sim < SIMULATION_APPEND \<Longrightarrow>
      \<exists>m. fread_at (pool st') (nat (cm_id (con_meta c)) * CONTAINER_META_SIZE + 8) CONTAINER_META_SIZE = Some m
        \<and> (\<forall>j < length (ser_meta be ord (con_meta c)). m j = ser_meta be ord (con_meta c) ! j)"
    and "sim < SIMULATION_APPEND \<Longrightarrow>
      \<exists>m. fread_at (pool st') ((nat (cm_id (con_meta c)) + 1) * CONTAINER_SIZE - CONTAINER_META_SIZE + 8) CONTAINER_META_SIZE = Some m
        \<and> (\<forall>j < length (ser_meta be ord (con_meta c)). m j = ser_meta be ord (con_meta c) ! j)"
    and "sim < SIMULATION_APPEND \<Longrightarrow>
      \<exists>m d. fread_at (pool st') (nat (cm_id (con_meta c)) * CONTAINER_SIZE + 8) CONTAINER_SIZE = Some m
        \<and> con_data c = Some d \<and> (\<forall>j < CONTAINER_SIZE - CONTAINER_META_SIZE. m j = d j)
        \<and> (\<forall>j < length (ser_meta be ord (con_meta c)).
             m (CONTAINER_SIZE - CONTAINER_META_SIZE + j) = ser_meta be ord (con_meta c) ! j)"
proof -
  let ?i = "nat (cm_id (con_meta c))" and ?s = "ser_meta be ord (con_meta c)"
  let ?D = "CONTAINER_SIZE - CONTAINER_META_SIZE"
  note len = write_read_meta_region(2) [where ord = ord and be = be, OF ok ord]
  show "\<exists>m. fread_at (pool st') (?i * CONTAINER_META_SIZE + 8) CONTAINER_META_SIZE = Some m
       \<and> (\<forall>j < length ?s. m j = ?s ! j)" if "\<not> sim < SIMULATION_APPEND"
  proof -
    from that w ne have "st' = st\<lparr>pool := fwrite_at (pool st) (?i * CONTAINER_META_SIZE + 8)
        (overlay (\<lambda>_. 0) 0 ?s) CONTAINER_META_SIZE\<rparr>"
      by (auto simp: write_container_def Let_def)
    with fread_fwrite_same [of 0 CONTAINER_META_SIZE CONTAINER_META_SIZE "pool st" "?i * CONTAINER_META_SIZE + 8"
        "overlay (\<lambda>_. 0) 0 ?s"] len
    show ?thesis by (auto simp: overlay_def)
  qed
  have B: "\<exists>d. con_data c = Some d \<and> (\<forall>p k. p + k \<le> CONTAINER_SIZE \<longrightarrow>
        (\<exists>m. fread_at (pool st') (?i * CONTAINER_SIZE + 8 + p) k = Some m
          \<and> (\<forall>j < k. m j = overlay d ?D ?s (p + j))))"
    if "sim < SIMULATION_APPEND"
  proof -
    from that w ne obtain d where d: "con_data c = Some d"
      and st': "st' = st\<lparr>pool := fwrite_at (pool st) (?i * CONTAINER_SIZE + 8) (overlay d ?D ?s) CONTAINER_SIZE\<rparr>"
      by (auto simp: write_container_def Let_def split: option.splits)
    then show ?thesis
      using fread_fwrite_same [of _ _ CONTAINER_SIZE "pool st" "?i * CONTAINER_SIZE + 8" "overlay d ?D ?s"] by auto
  qed
  have off: "(?i + 1) * CONTAINER_SIZE - CONTAINER_META_SIZE + 8 = ?i * CONTAINER_SIZE + 8 + ?D"
    using meta_in_container by simp
  have D: "?D + CONTAINER_META_SIZE \<le> CONTAINER_SIZE" using meta_in_container by simp
  show "\<exists>m. fread_at (pool st') ((?i + 1) * CONTAINER_SIZE - CONTAINER_META_SIZE + 8) CONTAINER_META_SIZE = Some m
       \<and> (\<forall>j < length ?s. m j = ?s ! j)" if "sim < SIMULATION_APPEND"
  proof -
    from B [OF that] D obtain d m where
      "fread_at (pool st') (?i * CONTAINER_SIZE + 8 + ?D) CONTAINER_META_SIZE = Some m"
      "\<forall>j < CONTAINER_META_SIZE. m j = overlay d ?D ?s (?D + j)" by fastforce
    with len show ?thesis unfolding off by (auto simp: overlay_def)
  qed
  show "\<exists>m d. fread_at (pool st') (?i * CONTAINER_SIZE + 8) CONTAINER_SIZE = Some m
        \<and> con_data c = Some d \<and> (\<forall>j < ?D. m j = d j) \<and> (\<forall>j < length ?s. m (?D + j) = ?s ! j)"
    if "sim < SIMULATION_APPEND"
  proof -
    from B [OF that] obtain d where d: "con_data c = Some d"
      and r: "0 + CONTAINER_SIZE \<le> CONTAINER_SIZE \<longrightarrow>
        (\<exists>m. fread_at (pool st') (?i * CONTAINER_SIZE + 8 + 0) CONTAINER_SIZE = Some m
          \<and> (\<forall>j < CONTAINER_SIZE. m j = overlay d ?D ?s (0 + j)))" by blast
    from r obtain m where "fread_at (pool st') (?i * CONTAINER_SIZE + 8) CONTAINER_SIZE = Some m"
      "\<forall>j < CONTAINER_SIZE. m j = overlay d ?D ?s j" by auto
    with d len D show ?thesis by (intro exI [of _ m] exI [of _ d]) (auto simp: overlay_def)
  qed
qed

lemma unser_written_meta:
  assumes "container_ok c" "mset (ord (cm_map (con_meta c))) = mset (cm_map (con_meta c))"
    and "\<forall>j < length (ser_meta be ord (con_meta c)). m (p + j) = ser_meta be ord (con_meta c) ! j"
  shows "\<exists>cm. unser_meta be m p (cm_id (con_meta c)) = Some cm \<and> meta_equiv cm (con_meta c)"
  using unser_meta_ser_meta [where ord = ord and be = be and m = m and p = p, OF assms(1,2)] assms(3) by simp

lemma retrieve_meta_after_write:
  assumes ok: "container_ok c" and ne: "\<not> container_empty c"
    and ord: "mset (ord (cm_map (con_meta c))) = mset (cm_map (con_meta c))"
    and w: "write_container be ord sim c st = Some st'"
  shows "\<exists>cm. retrieve_meta_from_pool be sim st' (cm_id (con_meta c)) = Some cm \<and> meta_equiv cm (con_meta c)"
proof -
  note p = pool_after_write [where ord = ord and st' = st', OF ok ne ord w]
  note u = unser_written_meta [where ord = ord and p = 0 and be = be, OF ok ord]
  show ?thesis
  proof (cases "sim < SIMULATION_APPEND")
    case True
    with p(2) obtain m where "fread_at (pool st') ((nat (cm_id (con_meta c)) + 1) * CONTAINER_SIZE - CONTAINER_META_SIZE + 8) CONTAINER_META_SIZE = Some m"
      "\<forall>j < length (ser_meta be ord (con_meta c)). m j = ser_meta be ord (con_meta c) ! j" by auto
    with True u [of m] show ?thesis by (simp add: retrieve_meta_from_pool_def not_le [symmetric])
  next
    case False
    with p(1) obtain m where "fread_at (pool st') (nat (cm_id (con_meta c)) * CONTAINER_META_SIZE + 8) CONTAINER_META_SIZE = Some m"
      "\<forall>j < length (ser_meta be ord (con_meta c)). m j = ser_meta be ord (con_meta c) ! j" by auto
    with False u [of m] show ?thesis by (simp add: retrieve_meta_from_pool_def not_less)
  qed
qed

lemma retrieve_after_write:
  assumes ok: "container_ok c" and ne: "\<not> container_empty c"
    and ord: "mset (ord (cm_map (con_meta c))) = mset (cm_map (con_meta c))"
    and w: "write_container be ord sim c st = Some st'"
  shows "\<exists>c'. retrieve_container_by_id be sim st' (cm_id (con_meta c)) = Some c'
      \<and> meta_equiv (con_meta c') (con_meta c)
      \<and> (sim = SIMULATION_NO \<longrightarrow> (\<exists>d d'. con_data c = Some d \<and> con_data c' = Some d'
            \<and> (\<forall>i < CONTAINER_SIZE - CONTAINER_META_SIZE. d' i = d i)))"
proof (cases "sim \<ge> SIMULATION_RESTORE")
  case True
  from retrieve_meta_after_write [where ord = ord and st' = st', OF ok ne ord w] obtain cm where
    "retrieve_meta_from_pool be sim st' (cm_id (con_meta c)) = Some cm" "meta_equiv cm (con_meta c)" by blast
  moreover have "sim \<noteq> SIMULATION_NO" using True by (auto simp: less_eq_simulation_level_def)
  moreover have "retrieve_container_by_id be sim st' i
      = map_option (\<lambda>m. \<lparr>con_meta = m, con_data = None\<rparr>) (retrieve_meta_from_pool be sim st' i)" for i
    using True by (simp add: retrieve_container_by_id_def retrieve_meta_from_pool_def map_conv_bind_option bind_assoc comp_def)
  ultimately show ?thesis by auto
next
  case False
  then have "sim < SIMULATION_APPEND" by (cases sim) (auto simp: less_eq_simulation_level_def less_simulation_level_def)
  from pool_after_write(3) [where ord = ord and st' = st', OF ok ne ord w this] obtain m d where
    m: "fread_at (pool st') (nat (cm_id (con_meta c)) * CONTAINER_SIZE + 8) CONTAINER_SIZE = Some m"
    "con_data c = Some d" "\<forall>j < CONTAINER_SIZE - CONTAINER_META_SIZE. m j = d j"
    "\<forall>j < length (ser_meta be ord (con_meta c)).
             m (CONTAINER_SIZE - CONTAINER_META_SIZE + j) = ser_meta be ord (con_meta c) ! j" by blast
  from unser_written_meta [where ord = ord, OF ok ord m(4)] obtain cm where
    "unser_meta be m (CONTAINER_SIZE - CONTAINER_META_SIZE) (cm_id (con_meta c)) = Some cm" "meta_equiv cm (con_meta c)"
    by blast
  with m(1-3) False show ?thesis by (simp add: retrieve_container_by_id_def)
qed

text \<open>Writing one container leaves every other container of the pool readable as before.\<close>

lemma unser_entries_cong:
  "\<forall>i < p + 28 * n. m i = m' i \<Longrightarrow> unser_entries be m p n t = unser_entries be m' p n t"
proof (induction n arbitrary: p t)
  case 0
  then show ?case by simp
next
  case (Suc n)
  have "get_bytes m p 20 = get_bytes m' p 20" "get_bytes m (p + 20) 4 = get_bytes m' (p + 20) 4"
    "get_bytes m (p + 24) 4 = get_bytes m' (p + 24) 4"
    using Suc.prems by (auto intro!: get_bytes_cong)
  moreover have "\<forall>i < p + 28 + 28 * n. m i = m' i" using Suc.prems by auto
  ultimately show ?case using Suc.IH [of "p + 28"] by (simp add: Let_def)
qed

text \<open>The place of the metadata of container \<open>i\<close> in the pool.\<close>

definition meta_place :: "simulation_level \<Rightarrow> nat \<Rightarrow> nat" where
  "meta_place sim i = (if sim \<ge> SIMULATION_APPEND then i * CONTAINER_META_SIZE + 8
     else (i + 1) * CONTAINER_SIZE - CONTAINER_META_SIZE + 8)"

lemma retrieve_meta_frame:
  assumes r: "retrieve_meta_from_pool be sim st i = Some cm"
    and p': "pool st' = fwrite_at (pool st) off m' n"
    and dis: "meta_place sim (nat i) + CONTAINER_META_SIZE \<le> off \<or> off + n \<le> meta_place sim (nat i)"
    and fit: "16 + 28 * nat (cm_chunk_num cm) \<le> CONTAINER_META_SIZE"
  shows "retrieve_meta_from_pool be sim st' i = Some cm"
proof -
  have ret: "retrieve_meta_from_pool be sim s i
      = fread_at (pool s) (meta_place sim (nat i)) CONTAINER_META_SIZE \<bind> (\<lambda>buf. unser_meta be buf 0 i)" for s
    by (simp add: retrieve_meta_from_pool_def meta_place_def)
  from r obtain buf where b: "fread_at (pool st) (meta_place sim (nat i)) CONTAINER_META_SIZE = Some buf"
    and u: "unser_meta be buf 0 i = Some cm"
    unfolding ret by (auto simp: bind_eq_Some_conv)
  from fread_fwrite_other [OF b dis, of m'] p' obtain buf' where
    b': "fread_at (pool st') (meta_place sim (nat i)) CONTAINER_META_SIZE = Some buf'"
      "\<forall>i < CONTAINER_META_SIZE. buf' i = buf i" by auto
  have same: "get_bytes buf' x y = get_bytes buf x y" if "x + y \<le> 16" for x y
    using that b'(2) by (intro get_bytes_cong) (auto simp: CONTAINER_META_SIZE_def)
  have "unser_meta be buf' 0 i = Some cm"
    using u fit b'(2) same [of 0 8] same [of 8 4] same [of 12 4]
    by (auto simp: unser_meta_def bind_eq_Some_conv split: prod.splits intro!: unser_entries_cong)
  with b'(1) show ?thesis by (simp add: ret)
qed

lemma write_frame:
  assumes w: "write_container be ord sim c st = Some st'"
    and r: "retrieve_meta_from_pool be sim st i = Some cm"
    and ij: "0 \<le> i" "0 \<le> cm_id (con_meta c)" "i \<noteq> cm_id (con_meta c)"
    and fit: "16 + 28 * nat (cm_chunk_num cm) \<le> CONTAINER_META_SIZE"
  shows "retrieve_meta_from_pool be sim st' i = Some cm"
proof (cases "container_empty c")
  case True
  with w r show ?thesis by (auto simp: write_container_def retrieve_meta_from_pool_def Let_def)
next
  case ne: False
  let ?j = "nat (cm_id (con_meta c))" and ?i = "nat i"
  have dj: "?i \<noteq> ?j" using ij by simp
  show ?thesis
  proof (cases "sim \<ge> SIMULATION_APPEND")
    case True
    with w ne have "pool st' = fwrite_at (pool st) (?j * CONTAINER_META_SIZE + 8)
        (overlay (\<lambda>_. 0) 0 (ser_meta be ord (con_meta c))) CONTAINER_META_SIZE"
      by (auto simp: write_container_def Let_def not_le [symmetric])
    from retrieve_meta_frame [OF r this _ fit] blocks_disjoint [OF dj, of CONTAINER_META_SIZE] True
    show ?thesis by (simp add: meta_place_def)
  next
    case False
    with w ne obtain d where "pool st' = fwrite_at (pool st) (?j * CONTAINER_SIZE + 8) d CONTAINER_SIZE"
      unfolding not_le
      by (auto simp: write_container_def Let_def split: option.splits)
    moreover have "meta_place sim ?i + CONTAINER_META_SIZE \<le> ?j * CONTAINER_SIZE + 8
        \<or> ?j * CONTAINER_SIZE + 8 + CONTAINER_SIZE \<le> meta_place sim ?i"
      using False blocks_disjoint [OF dj, of CONTAINER_SIZE] meta_in_container by (auto simp: meta_place_def)
    ultimately show ?thesis using retrieve_meta_frame [OF r _ _ fit] by blast
  qed
qed

text \<open>The same for a whole container, its data included.\<close>

lemma unser_meta_cong:
  assumes "unser_meta be m p i = Some cm" "\<forall>k < p + 16 + 28 * nat (cm_chunk_num cm). m' k = m k"
  shows "unser_meta be m' p i = Some cm"
proof -
  have same: "get_bytes m' (p + x) y = get_bytes m (p + x) y" if "x + y \<le> 16" for x y
    using that assms(2) by (intro get_bytes_cong) auto
  show ?thesis using assms same [of 0 8] same [of 8 4] same [of 12 4]
    by (auto simp: unser_meta_def bind_eq_Some_conv split: prod.splits intro!: unser_entries_cong)
qed

lemma retrieve_container_frame:
  assumes w: "write_container be ord SIMULATION_NO c st = Some st'"
    and r: "retrieve_container_by_id be SIMULATION_NO st i = Some c0"
    and ij: "0 \<le> i" "0 \<le> cm_id (con_meta c)" "i \<noteq> cm_id (con_meta c)"
    and fit: "16 + 28 * nat (cm_chunk_num (con_meta c0)) \<le> CONTAINER_META_SIZE"
  shows "\<exists>d d'. con_data c0 = Some d \<and> retrieve_container_by_id be SIMULATION_NO st' i = Some (c0\<lparr>con_data := Some d'\<rparr>)
     \<and> (\<forall>k < CONTAINER_SIZE. d' k = d k)"
proof -
  let ?p = "CONTAINER_SIZE - CONTAINER_META_SIZE" and ?j = "nat (cm_id (con_meta c))" and ?i = "nat i"
  have no: "\<not> SIMULATION_NO \<ge> SIMULATION_RESTORE" "SIMULATION_NO < SIMULATION_APPEND"
    by (simp_all add: less_eq_simulation_level_def less_simulation_level_def)
  have ret: "retrieve_container_by_id be SIMULATION_NO s i = do {
        d \<leftarrow> fread_at (pool s) (?i * CONTAINER_SIZE + 8) CONTAINER_SIZE;
        m \<leftarrow> unser_meta be d ?p i;
        Some \<lparr>con_meta = m, con_data = Some d\<rparr>}" for s
    using no(1) by (simp add: retrieve_container_by_id_def)
  from r obtain d where d: "fread_at (pool st) (?i * CONTAINER_SIZE + 8) CONTAINER_SIZE = Some d" "con_data c0 = Some d"
    "unser_meta be d ?p i = Some (con_meta c0)" unfolding ret by (auto simp: bind_eq_Some_conv)
  have "\<exists>d'. fread_at (pool st') (?i * CONTAINER_SIZE + 8) CONTAINER_SIZE = Some d' \<and> (\<forall>k < CONTAINER_SIZE. d' k = d k)"
  proof (cases "container_empty c")
    case True
    with w d(1) show ?thesis by (auto simp: write_container_def Let_def)
  next
    case False
    with w no(2) obtain m where p: "pool st' = fwrite_at (pool st) (?j * CONTAINER_SIZE + 8) m CONTAINER_SIZE"
      by (auto simp: write_container_def Let_def split: option.splits)
    have "?i \<noteq> ?j" using ij by simp
    from fread_fwrite_other [OF d(1), of "?j * CONTAINER_SIZE + 8" CONTAINER_SIZE m] blocks_disjoint [OF this, of CONTAINER_SIZE] p
    show ?thesis by auto
  qed
  then obtain d' where d': "fread_at (pool st') (?i * CONTAINER_SIZE + 8) CONTAINER_SIZE = Some d'" "\<forall>k < CONTAINER_SIZE. d' k = d k" by blast
  have "?p + CONTAINER_META_SIZE = CONTAINER_SIZE" by (simp add: CONTAINER_SIZE_def CONTAINER_META_SIZE_def)
  with fit d'(2) have "\<forall>k < ?p + 16 + 28 * nat (cm_chunk_num (con_meta c0)). d' k = d k" by auto
  from unser_meta_cong [OF d(3) this] have "unser_meta be d' ?p i = Some (con_meta c0)" .
  with d d'(1) have "retrieve_container_by_id be SIMULATION_NO st' i = Some (c0\<lparr>con_data := Some d'\<rparr>)" by (simp add: ret)
  with d(2) d'(2) show ?thesis by blast
qed

section \<open>Filling a container\<close>

lemma create_container_ok: "0 \<le> n \<Longrightarrow> n < 2 ^ 40 \<Longrightarrow> container_ok (fst (create_container sim n))"
  by (simp add: create_container_def container_ok_def init_container_meta_def CONTAINER_SIZE_def CONTAINER_META_SIZE_def)

text \<open>The bytes a table entry stands for.\<close>

definition entry_data :: "container \<Rightarrow> fingerprint \<Rightarrow> byte list option" where
  "entry_data c fp = (case (map_of (cm_map (con_meta c)) fp, con_data c) of
      (Some me, Some d) \<Rightarrow> Some (get_bytes d (nat (me_off me)) (nat (me_len me)))
    | _ \<Rightarrow> None)"

lemma add_chunk_ok:
  assumes ok: "container_ok c" and size: "0 \<le> ck_size ck" and fp: "length (ck_fp ck) = 20"
    and room: "\<not> container_overflow c (ck_size ck)"
    and data: "sim < SIMULATION_APPEND \<longrightarrow> con_data c \<noteq> None \<and> ck_data ck \<noteq> None"
  shows "\<exists>r c' ck'. add_chunk_to_container sim c ck = Some (r, c', ck') \<and> container_ok c'
     \<and> r = (\<not> lookup_fingerprint_in_container c (ck_fp ck))
     \<and> lookup_fingerprint_in_container c' (ck_fp ck) \<and> ck' = ck\<lparr>ck_id := get_container_id c\<rparr>
     \<and> get_container_id c' = get_container_id c \<and> \<not> container_empty c'"
proof (cases "map_of (cm_map (con_meta c)) (ck_fp ck)")
  case None
  let ?m = "con_meta c"
  have "ck_fp ck \<notin> fst ` set (cm_map ?m)" using None by (simp add: map_of_eq_None_iff)
  then have "container_ok (c\<lparr>con_meta := ?m\<lparr>cm_map := cm_map ?m @ [(ck_fp ck, \<lparr>me_off = cm_data_size ?m, me_len = ck_size ck, me_fp = ck_fp ck\<rparr>)],
       cm_chunk_num := cm_chunk_num ?m + 1, cm_data_size := cm_data_size ?m + ck_size ck\<rparr>, con_data := d\<rparr>)" for d
    using ok size fp room
    by (fastforce simp: container_ok_def Let_def container_overflow_def split: if_splits)
  with None room data ok show ?thesis
    by (auto simp: add_chunk_to_container_def Let_def AList_update_new lookup_fingerprint_in_container_def
        lookup_fingerprint_in_container_meta_def get_container_id_def container_empty_def container_ok_def
        map_of_eq_None_iff map_add_def)
next
  case (Some me)
  then have "cm_map (con_meta c) \<noteq> []" by auto
  with Some room ok show ?thesis
    by (auto simp: add_chunk_to_container_def lookup_fingerprint_in_container_def Let_def
        lookup_fingerprint_in_container_meta_def get_container_id_def container_empty_def container_ok_def)
qed

lemma add_chunk_data:
  assumes ok: "container_ok c" and size: "ck_size ck = int (length bs)" "ck_data ck = Some bs"
    and sim: "sim < SIMULATION_APPEND"
    and add: "add_chunk_to_container sim c ck = Some (r, c', ck')"
  shows "r \<Longrightarrow> entry_data c' (ck_fp ck) = Some bs"
    and "entry_data c fp = Some x \<Longrightarrow> entry_data c' fp = Some x"
proof -
  let ?m = "con_meta c"
  have old: "entry_data c' = entry_data c" if "\<not> r"
    using add that by (auto simp: add_chunk_to_container_def Let_def bind_eq_Some_conv split: if_splits)
  have new: "\<exists>d. con_data c = Some d \<and> map_of (cm_map ?m) (ck_fp ck) = None
      \<and> con_data c' = Some (overlay d (nat (cm_data_size ?m)) bs)
      \<and> map_of (cm_map (con_meta c')) = (map_of (cm_map ?m))(ck_fp ck \<mapsto>
           \<lparr>me_off = cm_data_size ?m, me_len = ck_size ck, me_fp = ck_fp ck\<rparr>)" if r
    using add that sim size
    by (auto simp: add_chunk_to_container_def Let_def bind_eq_Some_conv update_conv' split: if_splits option.splits)
  show "entry_data c' (ck_fp ck) = Some bs" if r
    using new [OF that] size get_bytes_overlay_inside [of 0 "length bs" bs]
    by (auto simp: entry_data_def)
  show "entry_data c' fp = Some x" if x: "entry_data c fp = Some x"
  proof (cases r)
    case False
    with old x show ?thesis by simp
  next
    case True
    from new [OF True] obtain d where d: "con_data c = Some d" "map_of (cm_map ?m) (ck_fp ck) = None"
      "con_data c' = Some (overlay d (nat (cm_data_size ?m)) bs)"
      "map_of (cm_map (con_meta c')) = (map_of (cm_map ?m))(ck_fp ck \<mapsto>
           \<lparr>me_off = cm_data_size ?m, me_len = ck_size ck, me_fp = ck_fp ck\<rparr>)" by blast
    from x obtain me where me: "map_of (cm_map ?m) fp = Some me" "x = get_bytes d (nat (me_off me)) (nat (me_len me))"
      using d by (auto simp: entry_data_def split: option.splits)
    with ok have "0 \<le> me_off me" "0 \<le> me_len me" "me_off me + me_len me \<le> cm_data_size ?m"
      by (auto simp: container_ok_def Let_def dest!: map_of_SomeD)
    then have "get_bytes (overlay d (nat (cm_data_size ?m)) bs) (nat (me_off me)) (nat (me_len me)) = x"
      unfolding me(2) by (intro get_bytes_overlay_before) linarith
    moreover have "fp \<noteq> ck_fp ck" using me(1) d(2) by auto
    ultimately show ?thesis using d me(1) by (simp add: entry_data_def)
  qed
qed

lemma get_chunk_data:
  assumes "entry_data c fp = Some bs" "sim < SIMULATION_RESTORE"
  shows "\<exists>ck. get_chunk_in_container sim junk stack c fp = Some ck
     \<and> (bs \<noteq> [] \<longrightarrow> ck_data ck = Some bs) \<and> ck_id ck = get_container_id c
     \<and> (\<exists>me. map_of (cm_map (con_meta c)) fp = Some me \<and> ck_size ck = me_len me)"
proof -
  from assms(1) obtain me d where "map_of (cm_map (con_meta c)) fp = Some me" "con_data c = Some d"
    "bs = get_bytes d (nat (me_off me)) (nat (me_len me))" by (auto simp: entry_data_def split: option.splits)
  with assms(2) show ?thesis
    by (cases "me_len me > 0") (auto simp: get_chunk_in_container_def get_container_id_def Let_def get_bytes_def)
qed

section \<open>The container counter\<close>

lemma init_close:
  assumes "0 \<le> container_count st" "container_count st < 2 ^ 63"
  shows "init_container_store be (Some (close_container_store be st))
    = Some \<lparr>container_count = container_count st, pool = close_container_store be st\<rparr>"
proof -
  let ?m = "overlay (\<lambda>_. 0) 0 (mem_bytes be 8 (word_of_int (container_count st) :: 64 word))"
  have "get_bytes ?m 0 8 = mem_bytes be 8 (word_of_int (container_count st) :: 64 word)"
    using get_bytes_overlay_inside [of 0 8 "mem_bytes be 8 (word_of_int (container_count st) :: 64 word)" "\<lambda>_. 0" 0]
    by (simp del: word_bytes_numeral)
  moreover have "get_bytes (f_bytes (close_container_store be st)) 0 8 = get_bytes ?m 0 8"
    by (rule get_bytes_cong) (simp add: close_container_store_def fwrite_at_def)
  ultimately show ?thesis
    using assms sint_of_int_64 [of "container_count st"]
    by (simp add: init_container_store_def fread_at_def close_container_store_def fwrite_at_def del: word_bytes_numeral)
qed

text \<open>Everything behind the counter is read as before.\<close>

lemma close_fread: "8 \<le> off \<Longrightarrow> 0 < n \<Longrightarrow> fread_at (close_container_store be st) off n = fread_at (pool st) off n"
  by (auto simp: fread_at_def close_container_store_def fwrite_at_def)

lemma close_retrieve:
  assumes "pool st' = close_container_store be st"
  shows "retrieve_meta_from_pool be' sim st' i = retrieve_meta_from_pool be' sim st i"
    "retrieve_container_by_id be' sim st' i = retrieve_container_by_id be' sim st i"
proof -
  have 1: "8 \<le> (nat i + 1) * CONTAINER_SIZE - CONTAINER_META_SIZE + 8" "0 < CONTAINER_META_SIZE" "0 < CONTAINER_SIZE"
    by (simp_all add: CONTAINER_SIZE_def CONTAINER_META_SIZE_def)
  show "retrieve_meta_from_pool be' sim st' i = retrieve_meta_from_pool be' sim st i"
    "retrieve_container_by_id be' sim st' i = retrieve_container_by_id be' sim st i"
    using 1 by (simp_all add: assms retrieve_meta_from_pool_def retrieve_container_by_id_def close_fread)
qed

section \<open>Properties\<close>

lemma entry_data_equiv:
  assumes ok: "container_ok c" and eq: "meta_equiv (con_meta c') (con_meta c)" and data: "con_data c = Some d" "con_data c' = Some d'"
    and same: "\<forall>i < CONTAINER_SIZE - CONTAINER_META_SIZE. d' i = d i"
  shows "entry_data c' fp = entry_data c fp"
proof (cases "map_of (cm_map (con_meta c)) fp")
  case None
  with eq show ?thesis by (simp add: entry_data_def meta_equiv_def)
next
  case (Some me)
  then have "(fp, me) \<in> set (cm_map (con_meta c))" by (rule map_of_SomeD)
  with ok have "0 \<le> me_off me" "0 \<le> me_len me" "me_off me + me_len me \<le> int CONTAINER_SIZE - int CONTAINER_META_SIZE"
    by (auto simp: container_ok_def Let_def)
  then have "nat (me_off me) + nat (me_len me) \<le> CONTAINER_SIZE - CONTAINER_META_SIZE"
    by (simp add: CONTAINER_SIZE_def CONTAINER_META_SIZE_def)
  with same have "get_bytes d' (nat (me_off me)) (nat (me_len me)) = get_bytes d (nat (me_off me)) (nat (me_len me))"
    by (auto simp: get_bytes_def)
  with Some eq data show ?thesis by (simp add: entry_data_def meta_equiv_def)
qed

lemma chunk_after_write:
  assumes ok: "container_ok c" and ne: "\<not> container_empty c"
    and ord: "mset (ord (cm_map (con_meta c))) = mset (cm_map (con_meta c))"
    and w: "write_container be ord SIMULATION_NO c st = Some st'" and e: "entry_data c fp = Some bs"
  shows "\<exists>c'. retrieve_container_by_id be SIMULATION_NO st' (get_container_id c) = Some c'
     \<and> get_container_id c' = get_container_id c \<and> entry_data c' fp = Some bs"
proof -
  from retrieve_after_write [OF ok ne ord w] obtain c' d d' where
    "retrieve_container_by_id be SIMULATION_NO st' (cm_id (con_meta c)) = Some c'" "meta_equiv (con_meta c') (con_meta c)"
    "con_data c = Some d" "con_data c' = Some d'" "\<forall>i < CONTAINER_SIZE - CONTAINER_META_SIZE. d' i = d i" by auto
  with entry_data_equiv [OF ok this(2-5), of fp] e show ?thesis by (auto simp: get_container_id_def meta_equiv_def)
qed

text \<open>C35: a chunk of a well-formed container that was written to the pool, whatever the order in
  which the table of its entries is walked, is found in the container that is read back and has the
  bytes it had.\<close>

theorem container_chunk_roundtrip:
  assumes "container_ok c" "\<not> container_empty c" "mset (ord (cm_map (con_meta c))) = mset (cm_map (con_meta c))"
    and "write_container be ord SIMULATION_NO c st = Some st'" "entry_data c fp = Some bs" "bs \<noteq> []"
  shows "\<exists>c' ck. retrieve_container_by_id be SIMULATION_NO st' (get_container_id c) = Some c'
     \<and> get_chunk_in_container SIMULATION_NO junk stack c' fp = Some ck
     \<and> ck_data ck = Some bs \<and> ck_id ck = get_container_id c"
proof -
  from chunk_after_write [where ord = ord, OF assms(1-5)] obtain c' where
    c': "retrieve_container_by_id be SIMULATION_NO st' (get_container_id c) = Some c'"
      "get_container_id c' = get_container_id c" "entry_data c' fp = Some bs" by blast
  from get_chunk_data [OF c'(3), of SIMULATION_NO junk stack] c' assms(6) show ?thesis by (fastforce simp: less_simulation_level_def)
qed

text \<open>A container with one chunk.\<close>

lemma sample_container:
  "\<exists>r c ck. add_chunk_to_container SIMULATION_NO (fst (create_container SIMULATION_NO 0))
       \<lparr>ck_size = 3, ck_flag = 0, ck_id = -1, ck_fp = replicate 20 7, ck_data = Some [1, 2, 3]\<rparr> = Some (r, c, ck)
     \<and> container_ok c \<and> \<not> container_empty c \<and> cm_id (con_meta c) = 0 \<and> entry_data c (replicate 20 7) = Some [1, 2, 3]
     \<and> (\<exists>st'. write_container False id SIMULATION_NO c \<lparr>container_count = 1, pool = \<lparr>f_bytes = (\<lambda>_. 0), f_len = 8\<rparr>\<rparr> = Some st'
          \<and> container_count st' = 1)"
proof -
  let ?c0 = "fst (create_container SIMULATION_NO 0)"
  let ?ck = "\<lparr>ck_size = 3, ck_flag = 0, ck_id = -1, ck_fp = replicate 20 7, ck_data = Some [1, 2, 3]\<rparr>"
  let ?st = "\<lparr>container_count = 1, pool = \<lparr>f_bytes = (\<lambda>_. 0), f_len = 8\<rparr>\<rparr>"
  have ok: "container_ok ?c0" using create_container_ok [of 0 SIMULATION_NO] by simp
  have room: "\<not> container_overflow ?c0 (ck_size ?ck)" "con_data ?c0 \<noteq> None" "\<not> lookup_fingerprint_in_container ?c0 (ck_fp ?ck)"
    by (simp_all add: create_container_def container_overflow_def init_container_meta_def CONTAINER_META_SIZE_def CONTAINER_SIZE_def
        lookup_fingerprint_in_container_def lookup_fingerprint_in_container_meta_def less_simulation_level_def)
  from add_chunk_ok [where ck = ?ck and sim = SIMULATION_NO, OF ok _ _ room(1)] room obtain r c ck where
    a: "add_chunk_to_container SIMULATION_NO ?c0 ?ck = Some (r, c, ck)" "container_ok c" "r" "\<not> container_empty c" by auto
  have e: "entry_data c (replicate 20 7) = Some [1, 2, 3]"
    using add_chunk_data [OF ok _ _ _ a(1), of "[1, 2, 3]"] a(3) by (simp add: less_simulation_level_def)
  then have d: "con_data c \<noteq> None" by (auto simp: entry_data_def split: option.splits)
  have i: "cm_id (con_meta c) = 0"
    using a(1) by (auto simp: add_chunk_to_container_def create_container_def bind_eq_Some_conv Let_def split: if_splits)
  have m: "mset (id (cm_map (con_meta c))) = mset (cm_map (con_meta c))" by simp
  from write_container_ok [where be = False and sim = SIMULATION_NO and st = ?st and ord = id, OF a(2,4) m] d obtain st' where
    w: "write_container False id SIMULATION_NO c ?st = Some st'" by blast
  have "container_count st' = 1"
    using w a(4) by (auto simp: write_container_def Let_def assertion_def less_simulation_level_def split: option.splits if_splits)
  with a i e w show ?thesis by blast
qed

text \<open>A container with room takes a chunk: it stays well-formed, it holds the fingerprint, the
  chunk gets its identifier, the result says whether the chunk was new, a new chunk is stored with
  its bytes and the chunks that were there keep theirs.\<close>

theorem container_add_chunk:
  assumes "container_ok c" "ck_size ck = int (length bs)" "ck_data ck = Some bs" "length (ck_fp ck) = 20"
    and "\<not> container_overflow c (ck_size ck)" "con_data c \<noteq> None"
  shows "\<exists>r c'. add_chunk_to_container SIMULATION_NO c ck = Some (r, c', ck\<lparr>ck_id := get_container_id c\<rparr>) \<and> container_ok c'
     \<and> r = (\<not> lookup_fingerprint_in_container c (ck_fp ck)) \<and> lookup_fingerprint_in_container c' (ck_fp ck)
     \<and> (r \<longrightarrow> entry_data c' (ck_fp ck) = Some bs)
     \<and> (\<forall>fp x. entry_data c fp = Some x \<longrightarrow> entry_data c' fp = Some x)"
proof -
  from add_chunk_ok [where ck = ck and sim = SIMULATION_NO, OF assms(1) _ assms(4,5)] assms(2,3,6) obtain r c' where
    a: "add_chunk_to_container SIMULATION_NO c ck = Some (r, c', ck\<lparr>ck_id := get_container_id c\<rparr>)" "container_ok c'"
      "r = (\<not> lookup_fingerprint_in_container c (ck_fp ck))" "lookup_fingerprint_in_container c' (ck_fp ck)" by auto
  from add_chunk_data [OF assms(1-3) _ a(1)] a show ?thesis by (auto simp: less_simulation_level_def)
qed

theorem container_add_chunk_witness:
  "\<exists>r c'. add_chunk_to_container SIMULATION_NO (fst (create_container SIMULATION_NO 0))
       \<lparr>ck_size = 3, ck_flag = 0, ck_id = -1, ck_fp = replicate 20 7, ck_data = Some [1, 2, 3]\<rparr>
       = Some (r, c', \<lparr>ck_size = 3, ck_flag = 0, ck_id = 0, ck_fp = replicate 20 7, ck_data = Some [1, 2, 3]\<rparr>)
     \<and> r \<and> entry_data c' (replicate 20 7) = Some [1, 2, 3]"
proof -
  let ?c = "fst (create_container SIMULATION_NO 0)"
  let ?ck = "\<lparr>ck_size = 3, ck_flag = 0, ck_id = -1, ck_fp = replicate 20 7, ck_data = Some [1, 2, 3]\<rparr>"
  have "container_ok ?c" using create_container_ok [of 0 SIMULATION_NO] by simp
  moreover have "\<not> container_overflow ?c (ck_size ?ck)" "con_data ?c \<noteq> None" "\<not> lookup_fingerprint_in_container ?c (ck_fp ?ck)"
    by (simp_all add: create_container_def container_overflow_def init_container_meta_def CONTAINER_META_SIZE_def CONTAINER_SIZE_def
        lookup_fingerprint_in_container_def lookup_fingerprint_in_container_meta_def less_simulation_level_def)
  ultimately show ?thesis
    using container_add_chunk [of ?c ?ck "[1, 2, 3]"] by (auto simp: create_container_def get_container_id_def init_container_meta_def)
qed

theorem container_chunk_roundtrip_witness:
  "\<exists>r c ck st' c' ck'. add_chunk_to_container SIMULATION_NO (fst (create_container SIMULATION_NO 0))
       \<lparr>ck_size = 3, ck_flag = 0, ck_id = -1, ck_fp = replicate 20 7, ck_data = Some [1, 2, 3]\<rparr> = Some (r, c, ck)
     \<and> write_container False id SIMULATION_NO c \<lparr>container_count = 1, pool = \<lparr>f_bytes = (\<lambda>_. 0), f_len = 8\<rparr>\<rparr> = Some st'
     \<and> retrieve_container_by_id False SIMULATION_NO st' (get_container_id c) = Some c'
     \<and> get_chunk_in_container SIMULATION_NO (\<lambda>_. 0) [] c' (replicate 20 7) = Some ck' \<and> ck_data ck' = Some [1, 2, 3]"
proof -
  obtain r c ck st' where c: "add_chunk_to_container SIMULATION_NO (fst (create_container SIMULATION_NO 0))
       \<lparr>ck_size = 3, ck_flag = 0, ck_id = -1, ck_fp = replicate 20 7, ck_data = Some [1, 2, 3]\<rparr> = Some (r, c, ck)"
    "container_ok c" "\<not> container_empty c" "entry_data c (replicate 20 7) = Some [1, 2, 3]"
    "write_container False id SIMULATION_NO c \<lparr>container_count = 1, pool = \<lparr>f_bytes = (\<lambda>_. 0), f_len = 8\<rparr>\<rparr> = Some st'"
    using sample_container by blast
  have m: "mset (id (cm_map (con_meta c))) = mset (cm_map (con_meta c))" by simp
  from container_chunk_roundtrip [where ord = id, OF c(2,3) m c(5,4), of "\<lambda>_. 0" "[]"] c show ?thesis by blast
qed

end
