(* ===== verification/Recipe_Store.thy ===== *)
theory Recipe_Store
  imports Container_Store
begin

unbundle bit_operations_syntax

text \<open>
  The recipe store (\<^verbatim>\<open>src/destor/src/recipe/recipestore.c\<close>): backup versions and their three files.
  The \<open>.meta\<close> file holds a header and one record per backed-up file, the \<open>.recipe\<close> file the
  chunk pointers of every segment between two boundary flags, the \<open>.records\<close> file the
  sequence of containers a restore will access.

  A file is its bytes and the position of the stream; the write buffers hold the bytes
  that are not yet in the file. Reading past the end of a file is \<open>None\<close> (the code goes on with
  uninitialised memory). The static variables \<open>read_file_num\<close>, \<open>read_chunk_num\<close>, \<open>access_record\<close>
  and \<open>end\<close> are fields of the state the operations pass on.
\<close>

section \<open>Streams\<close>

record stream =
  s_bytes :: "byte list"
  s_pos :: nat

definition s_write :: "byte list \<Rightarrow> stream \<Rightarrow> stream" where
  "s_write bs s = \<lparr>s_bytes = take (s_pos s) (s_bytes s) @ bs @ drop (s_pos s + length bs) (s_bytes s),
     s_pos = s_pos s + length bs\<rparr>"

definition s_read :: "nat \<Rightarrow> stream \<Rightarrow> (byte list \<times> stream) option" where
  "s_read n s = (if s_pos s + n \<le> length (s_bytes s)
     then Some (take n (drop (s_pos s) (s_bytes s)), s\<lparr>s_pos := s_pos s + n\<rparr>) else None)"

definition s_read_int :: "bool \<Rightarrow> stream \<Rightarrow> (int \<times> stream) option" where
  "s_read_int be s = do { (bs, s) \<leftarrow> s_read 4 s; Some (sint (mem_word be bs :: 32 word), s) }"

definition s_read_int64 :: "bool \<Rightarrow> stream \<Rightarrow> (int \<times> stream) option" where
  "s_read_int64 be s = do { (bs, s) \<leftarrow> s_read 8 s; Some (sint (mem_word be bs :: 64 word), s) }"

abbreviation int_bytes :: "bool \<Rightarrow> int \<Rightarrow> byte list" where
  "int_bytes be i \<equiv> mem_bytes be 4 (word_of_int i :: 32 word)"

abbreviation int64_bytes :: "bool \<Rightarrow> int \<Rightarrow> byte list" where
  "int64_bytes be i \<equiv> mem_bytes be 8 (word_of_int i :: 64 word)"

section \<open>Data\<close>

record chunkPointer =
  cp_fp :: fingerprint
  cp_id :: containerid
  cp_size :: int

record fileRecipeMeta =
  fr_chunknum :: int
  fr_filesize :: int
  fr_filename :: "byte list"

record segmentRecipe =
  sr_id :: segmentid
  sr_kvpairs :: "(fingerprint, chunkPointer) ghash"

record backupVersion =
  bv_path :: "byte list"
  bv_num :: int
  bv_deleted :: int
  number_of_files :: int
  number_of_chunks :: int
  metadata_fp :: stream
  recipe_fp :: stream
  record_fp :: stream
  metabuf :: "byte list option"
  recordbuf :: "byte list option"
  segmentbuf :: "byte list"
  segmentlen :: nat

text \<open>The static variables of the file.\<close>

record recipe_statics =
  backup_version_count :: int
  access_record :: containerid
  read_file_num :: int
  read_chunk_num :: int
  records_end :: bool

record bv_files =
  meta_bytes :: "byte list"
  recipe_bytes :: "byte list"
  records_bytes :: "byte list"

definition metabufsize :: nat where "metabufsize = 64 * 1024"
definition recordbufsize :: nat where "recordbufsize = 64 * 1024"

section \<open>The version counter\<close>

definition init_recipe_store :: "bool \<Rightarrow> byte list option \<Rightarrow> recipe_statics \<Rightarrow> recipe_statics option" where
  "init_recipe_store be count_file st =
     (case count_file of
        None \<Rightarrow> Some st
      | Some bs \<Rightarrow> do { (n, _) \<leftarrow> s_read_int be \<lparr>s_bytes = bs, s_pos = 0\<rparr>;
                       Some (st\<lparr>backup_version_count := n\<rparr>) })"

definition close_recipe_store :: "bool \<Rightarrow> recipe_statics \<Rightarrow> byte list" where
  "close_recipe_store be st = int_bytes be (backup_version_count st)"

definition get_next_version_number :: "recipe_statics \<Rightarrow> int \<times> recipe_statics" where
  "get_next_version_number st =
     (backup_version_count st, st\<lparr>backup_version_count := backup_version_count st + 1\<rparr>)"

section \<open>Backup versions\<close>

text \<open>The header of the \<open>.meta\<close> file, as \<open>create_backup_version\<close> and \<open>update_backup_version\<close> write it.\<close>

definition bv_header :: "bool \<Rightarrow> backupVersion \<Rightarrow> byte list" where
  "bv_header be b = int_bytes be (bv_num b) @ int_bytes be (bv_deleted b)
     @ int64_bytes be (number_of_files b) @ int64_bytes be (number_of_chunks b)
     @ int_bytes be (int (length (bv_path b))) @ bv_path b"

text \<open>The loop that cuts the path after its last slash runs off the start of the string when
  there is none.\<close>

definition dir_of :: "byte list \<Rightarrow> byte list option" where
  "dir_of path = (if 47 \<in> set path then Some (rev (dropWhile (\<lambda>b. b \<noteq> 47) (rev path))) else None)"

definition empty_stream :: stream where "empty_stream = \<lparr>s_bytes = [], s_pos = 0\<rparr>"

definition create_backup_version ::
    "bool \<Rightarrow> byte list \<Rightarrow> recipe_statics \<Rightarrow> (backupVersion \<times> recipe_statics) option" where
  "create_backup_version be path st = do {
     let (n, st) = get_next_version_number st;
     path \<leftarrow> dir_of path;
     let b = \<lparr>bv_path = path, bv_num = n, bv_deleted = 0, number_of_files = 0, number_of_chunks = 0,
              metadata_fp = empty_stream, recipe_fp = empty_stream, record_fp = empty_stream,
              metabuf = Some [], recordbuf = Some [], segmentbuf = [], segmentlen = 0\<rparr>;
     Some (b\<lparr>metadata_fp := s_write (bv_header be b) (metadata_fp b)\<rparr>, st)
   }"

definition backup_version_exists :: "(int \<rightharpoonup> bv_files) \<Rightarrow> int \<Rightarrow> bool" where
  "backup_version_exists fs n = (fs n \<noteq> None)"

definition open_backup_version :: "bool \<Rightarrow> (int \<rightharpoonup> bv_files) \<Rightarrow> int \<Rightarrow> backupVersion option" where
  "open_backup_version be fs n = do {
     f \<leftarrow> fs n;
     let s = \<lparr>s_bytes = meta_bytes f, s_pos = 0\<rparr>;
     (num, s) \<leftarrow> s_read_int be s;
     assertion (num = n);
     (del, s) \<leftarrow> s_read_int be s;
     (files, s) \<leftarrow> s_read_int64 be s;
     (chunks, s) \<leftarrow> s_read_int64 be s;
     (pathlen, s) \<leftarrow> s_read_int be s;
     (path, s) \<leftarrow> s_read (nat pathlen) s;
     Some \<lparr>bv_path = takeWhile (\<lambda>b. b \<noteq> 0) path, bv_num = num, bv_deleted = del, number_of_files = files,
           number_of_chunks = chunks, metadata_fp = s,
           recipe_fp = \<lparr>s_bytes = recipe_bytes f, s_pos = 0\<rparr>,
           record_fp = \<lparr>s_bytes = records_bytes f, s_pos = 0\<rparr>,
           metabuf = None, recordbuf = None, segmentbuf = [], segmentlen = 0\<rparr>
   }"

definition flush_metabuf :: "backupVersion \<Rightarrow> backupVersion" where
  "flush_metabuf b = (case metabuf b of
      Some m \<Rightarrow> if length m > 0 then b\<lparr>metadata_fp := s_write m (metadata_fp b), metabuf := Some []\<rparr> else b
    | None \<Rightarrow> b)"

definition flush_recordbuf :: "backupVersion \<Rightarrow> backupVersion" where
  "flush_recordbuf b = (case recordbuf b of
      Some m \<Rightarrow> if length m > 0 then b\<lparr>record_fp := s_write m (record_fp b), recordbuf := Some []\<rparr> else b
    | None \<Rightarrow> b)"

definition update_backup_version ::
    "bool \<Rightarrow> backupVersion \<Rightarrow> recipe_statics \<Rightarrow> backupVersion \<times> recipe_statics" where
  "update_backup_version be b st =
     (let b = flush_metabuf b;
          b = b\<lparr>metadata_fp := s_write (bv_header be b) ((metadata_fp b)\<lparr>s_pos := 0\<rparr>)\<rparr>;
          b = flush_recordbuf b;
          b = (if access_record st \<noteq> TEMPORARY_ID
               then b\<lparr>record_fp := s_write (int64_bytes be (access_record st)) (record_fp b)\<rparr> else b)
      in (b\<lparr>record_fp := s_write (int64_bytes be TEMPORARY_ID) (record_fp b)\<rparr>,
          st\<lparr>access_record := TEMPORARY_ID\<rparr>))"

text \<open>Closing the streams makes their contents the files of the version.\<close>

definition free_backup_version :: "backupVersion \<Rightarrow> (int \<rightharpoonup> bv_files) \<Rightarrow> (int \<rightharpoonup> bv_files)" where
  "free_backup_version b fs = fs(bv_num b \<mapsto>
     \<lparr>meta_bytes = s_bytes (metadata_fp b), recipe_bytes = s_bytes (recipe_fp b),
      records_bytes = s_bytes (record_fp b)\<rparr>)"

section \<open>File recipes\<close>

definition file_meta_bytes :: "bool \<Rightarrow> fileRecipeMeta \<Rightarrow> byte list" where
  "file_meta_bytes be r = int_bytes be (int (length (fr_filename r))) @ fr_filename r
     @ int64_bytes be (fr_chunknum r) @ int64_bytes be (fr_filesize r)"

text \<open>\<open>None\<close>: the version was not opened for writing, or the record does not fit into the buffer.\<close>

definition append_file_recipe_meta :: "bool \<Rightarrow> backupVersion \<Rightarrow> fileRecipeMeta \<Rightarrow> backupVersion option" where
  "append_file_recipe_meta be b r = do {
     m \<leftarrow> metabuf b;
     let len = length (fr_filename r);
     let b = (if 4 + len + 8 + 8 > metabufsize - length m
              then b\<lparr>metadata_fp := s_write m (metadata_fp b), metabuf := Some []\<rparr> else b);
     m \<leftarrow> metabuf b;
     assertion (length m + length (file_meta_bytes be r) \<le> metabufsize);
     Some (b\<lparr>metabuf := Some (m @ file_meta_bytes be r), number_of_files := number_of_files b + 1\<rparr>)
   }"

definition new_file_recipe_meta :: "byte list \<Rightarrow> fileRecipeMeta" where
  "new_file_recipe_meta name =
     \<lparr>fr_chunknum = 0, fr_filesize = 0, fr_filename = takeWhile (\<lambda>b. b \<noteq> 0) name\<rparr>"

definition read_next_file_recipe_meta ::
    "bool \<Rightarrow> backupVersion \<Rightarrow> recipe_statics \<Rightarrow> (fileRecipeMeta \<times> backupVersion \<times> recipe_statics) option" where
  "read_next_file_recipe_meta be b st = do {
     assertion (read_file_num st \<le> number_of_files b);
     (len, s) \<leftarrow> s_read_int be (metadata_fp b);
     (name, s) \<leftarrow> s_read (nat len) s;
     let r = new_file_recipe_meta name;
     (chunknum, s) \<leftarrow> s_read_int64 be s;
     (filesize, s) \<leftarrow> s_read_int64 be s;
     Some (r\<lparr>fr_chunknum := chunknum, fr_filesize := filesize\<rparr>, b\<lparr>metadata_fp := s\<rparr>,
           st\<lparr>read_file_num := read_file_num st + 1\<rparr>)
   }"

section \<open>Segment identifiers\<close>

definition make_segment_id :: "64 word \<Rightarrow> 64 word \<Rightarrow> 64 word \<Rightarrow> 64 word" where
  "make_segment_id bid off sz = push_bit 48 bid + push_bit 16 off + sz"

definition id_to_size :: "64 word \<Rightarrow> 64 word" where
  "id_to_size i = i AND 0xffff"

definition id_to_off :: "64 word \<Rightarrow> 64 word" where
  "id_to_off i = signed_drop_bit 16 i AND 0xffffffff"

definition id_to_bnum :: "64 word \<Rightarrow> 64 word" where
  "id_to_bnum i = signed_drop_bit 48 i"

section \<open>Chunk pointers\<close>

definition ptr_bytes :: "bool \<Rightarrow> chunkPointer \<Rightarrow> byte list" where
  "ptr_bytes be cp = take 20 (cp_fp cp) @ int64_bytes be (cp_id cp) @ int_bytes be (cp_size cp)"

definition read_ptr :: "bool \<Rightarrow> stream \<Rightarrow> (chunkPointer \<times> stream) option" where
  "read_ptr be s = do {
     (fp, s) \<leftarrow> s_read 20 s;
     (i, s) \<leftarrow> s_read_int64 be s;
     (sz, s) \<leftarrow> s_read_int be s;
     Some (\<lparr>cp_fp = fp, cp_id = i, cp_size = sz\<rparr>, s)
   }"

text \<open>The bytes are copied into the buffer that \<open>append_segment_flag\<close> allocated; running over its
  end is undefined behaviour (\<open>None\<close>).\<close>

definition segbuf_append :: "byte list \<Rightarrow> backupVersion \<Rightarrow> backupVersion option" where
  "segbuf_append bs b = do {
     assertion (length (segmentbuf b) + length bs \<le> segmentlen b);
     Some (b\<lparr>segmentbuf := segmentbuf b @ bs\<rparr>)
   }"

definition append_segment_flag ::
    "bool \<Rightarrow> (nat \<Rightarrow> byte) \<Rightarrow> backupVersion \<Rightarrow> 32 word \<Rightarrow> int \<Rightarrow> (segmentid \<times> backupVersion) option" where
  "append_segment_flag be junk b flag segment_size = do {
     assertion (flag = CHUNK_SEGMENT_START \<or> flag = CHUNK_SEGMENT_END);
     let cp = \<lparr>cp_fp = replicate 20 0, cp_id = 0 - uint flag, cp_size = segment_size\<rparr>;
     let b = b\<lparr>recipe_fp := (recipe_fp b)\<lparr>s_pos := length (s_bytes (recipe_fp b))\<rparr>\<rparr>;
     let off = s_pos (recipe_fp b);
     let b = (if flag = CHUNK_SEGMENT_START
              then b\<lparr>segmentlen := nat (32 * 2 + segment_size * 32), segmentbuf := []\<rparr> else b);
     b \<leftarrow> segbuf_append (ptr_bytes be cp) b;
     if flag = CHUNK_SEGMENT_END
     then Some (TEMPORARY_ID,
        b\<lparr>recipe_fp := s_write (segmentbuf b @ map junk [length (segmentbuf b)..<segmentlen b]) (recipe_fp b),
          segmentbuf := [], segmentlen := 0\<rparr>)
     else Some (sint (make_segment_id (word_of_int (bv_num b)) (of_nat off) (word_of_int segment_size)), b)
   }"

definition append_chunk_pointer ::
    "bool \<Rightarrow> chunkPointer \<Rightarrow> backupVersion \<times> recipe_statics \<Rightarrow> (backupVersion \<times> recipe_statics) option" where
  "append_chunk_pointer be cp = (\<lambda>(b, st). do {
     b \<leftarrow> (if access_record st \<noteq> TEMPORARY_ID \<and> access_record st \<noteq> cp_id cp
          then do {
            m \<leftarrow> recordbuf b;
            let b = (if length m + 8 > recordbufsize
                     then b\<lparr>record_fp := s_write m (record_fp b), recordbuf := Some []\<rparr> else b);
            m \<leftarrow> recordbuf b;
            Some (b\<lparr>recordbuf := Some (m @ int64_bytes be (access_record st))\<rparr>)
          } else Some b);
     let st = st\<lparr>access_record := cp_id cp\<rparr>;
     assertion (cp_id cp \<noteq> TEMPORARY_ID);
     b \<leftarrow> segbuf_append (ptr_bytes be cp) b;
     Some (b\<lparr>number_of_chunks := number_of_chunks b + 1\<rparr>, st)
   })"

definition append_n_chunk_pointers ::
    "bool \<Rightarrow> backupVersion \<Rightarrow> chunkPointer list \<Rightarrow> recipe_statics \<Rightarrow> (backupVersion \<times> recipe_statics) option" where
  "append_n_chunk_pointers be b cps st = fold_opt (append_chunk_pointer be) cps (b, st)"

text \<open>The reading loop repeats an index when it meets a segment boundary; it ends because every
  round moves the stream on.\<close>

function read_ptrs :: "bool \<Rightarrow> nat \<Rightarrow> stream \<Rightarrow> (chunkPointer list \<times> stream) option" where
  "read_ptrs be 0 s = Some ([], s)"
| "read_ptrs be (Suc n) s =
     (case read_ptr be s of
        None \<Rightarrow> None
      | Some (cp, s') \<Rightarrow>
          if cp_id cp = 0 - uint (CHUNK_SEGMENT_START) \<or> cp_id cp = 0 - uint (CHUNK_SEGMENT_END)
          then read_ptrs be (Suc n) s'
          else map_option (\<lambda>(cps, s). (cp # cps, s)) (read_ptrs be n s'))"
  by pat_completeness auto
termination
  by (relation "measure (\<lambda>(_, n, s). length (s_bytes s) - s_pos s + n)")
     (auto simp: read_ptr_def s_read_def s_read_int_def s_read_int64_def bind_eq_Some_conv split: if_splits)

definition read_next_n_chunk_pointers ::
    "bool \<Rightarrow> backupVersion \<Rightarrow> int \<Rightarrow> recipe_statics \<Rightarrow> (chunkPointer list \<times> backupVersion \<times> recipe_statics) option" where
  "read_next_n_chunk_pointers be b n st =
     (if read_chunk_num st = number_of_chunks b then Some ([], b, st)
      else do {
        let num = (if number_of_chunks b - read_chunk_num st > n then n else number_of_chunks b - read_chunk_num st);
        (cps, s) \<leftarrow> read_ptrs be (nat num) (recipe_fp b);
        let st = st\<lparr>read_chunk_num := read_chunk_num st + num\<rparr>;
        assertion (read_chunk_num st \<le> number_of_chunks b);
        Some (cps, b\<lparr>recipe_fp := s\<rparr>, st)
      })"

section \<open>Access records\<close>

text \<open>\<open>fread\<close> returns the number of whole items it could read.\<close>

fun read_ids :: "bool \<Rightarrow> nat \<Rightarrow> stream \<Rightarrow> containerid list \<times> stream" where
  "read_ids be 0 s = ([], s)"
| "read_ids be (Suc n) s =
     (case s_read_int64 be s of
        None \<Rightarrow> ([], s)
      | Some (i, s') \<Rightarrow> let (is, s'') = read_ids be n s' in (i # is, s''))"

definition read_next_n_records ::
    "bool \<Rightarrow> backupVersion \<Rightarrow> nat \<Rightarrow> recipe_statics \<Rightarrow> (containerid list option \<times> backupVersion \<times> recipe_statics)" where
  "read_next_n_records be b n st =
     (if records_end st then (None, b, st)
      else let (ids, s) = read_ids be n (record_fp b)
           in (Some ids, b\<lparr>record_fp := s\<rparr>,
               if ids \<noteq> [] \<and> last ids = TEMPORARY_ID then st\<lparr>records_end := True\<rparr> else st))"

section \<open>Segment recipes\<close>

definition new_segment_recipe :: segmentRecipe where
  "new_segment_recipe = \<lparr>sr_id = TEMPORARY_ID, sr_kvpairs = []\<rparr>"

definition segment_recipe_foreach ::
    "((fingerprint \<times> chunkPointer) list \<Rightarrow> (fingerprint \<times> chunkPointer) list) \<Rightarrow>
     segmentRecipe \<Rightarrow> (fingerprint \<Rightarrow> 'u \<Rightarrow> 'u option) \<Rightarrow> 'u \<Rightarrow> 'u option" where
  "segment_recipe_foreach ord sr func u = fold_opt (\<lambda>(fp, _). func fp) (ord (sr_kvpairs sr)) u"

definition segment_recipe_check_id :: "segmentRecipe \<Rightarrow> segmentid \<Rightarrow> bool" where
  "segment_recipe_check_id sr i = (sr_id sr = i)"

definition lookup_fingerprint_in_segment_recipe :: "segmentRecipe \<Rightarrow> fingerprint \<Rightarrow> bool" where
  "lookup_fingerprint_in_segment_recipe sr fp = (map_of (sr_kvpairs sr) fp \<noteq> None)"

fun read_kvpairs ::
    "bool \<Rightarrow> nat \<Rightarrow> stream \<Rightarrow> (fingerprint, chunkPointer) ghash \<Rightarrow> ((fingerprint, chunkPointer) ghash \<times> stream) option" where
  "read_kvpairs be 0 s kv = Some (kv, s)"
| "read_kvpairs be (Suc n) s kv = do {
     (cp, s) \<leftarrow> read_ptr be s;
     assertion (cp_id cp > TEMPORARY_ID);
     read_kvpairs be n s (AList.update (cp_fp cp) cp kv)
   }"

text \<open>The common part of \<open>prefetch_segments\<close> and \<open>read_next_segment\<close>: the pointers after the start
  flag and the end flag.\<close>

definition read_segment_body ::
    "bool \<Rightarrow> int \<Rightarrow> nat \<Rightarrow> chunkPointer \<Rightarrow> stream \<Rightarrow> (segmentRecipe \<times> stream) option" where
  "read_segment_body be num current_off flag s = do {
     (kv, s) \<leftarrow> read_kvpairs be (nat (cp_size flag)) s [];
     (fin, s) \<leftarrow> read_ptr be s;
     assertion (cp_id fin = 0 - uint (CHUNK_SEGMENT_END));
     Some (\<lparr>sr_id = sint (make_segment_id (word_of_int num) (of_nat current_off) (word_of_int (cp_size flag))),
            sr_kvpairs = kv\<rparr>, s)
   }"

definition read_next_segment ::
    "bool \<Rightarrow> backupVersion \<Rightarrow> (segmentRecipe option \<times> backupVersion) option" where
  "read_next_segment be b =
     (case read_ptr be (recipe_fp b) of
        None \<Rightarrow> Some (None, b\<lparr>recipe_fp := (recipe_fp b)\<lparr>s_pos := length (s_bytes (recipe_fp b))\<rparr>\<rparr>)
      | Some (flag, s) \<Rightarrow>
          if cp_id flag \<noteq> 0 - uint (CHUNK_SEGMENT_START) then Some (None, b\<lparr>recipe_fp := s\<rparr>)
          else do {
            (sr, s) \<leftarrow> read_segment_body be (bv_num b) (s_pos (recipe_fp b)) flag s;
            Some (Some sr, b\<lparr>recipe_fp := s\<rparr>)
          })"

text \<open>The loop of \<open>prefetch_segments\<close> from round \<open>j\<close> on. At the end of the file \<open>fread\<close> leaves the
  previous flag, an end flag, in place (in the first round, \<open>j = 0\<close>, it is
  uninitialised): either way the loop stops there.\<close>

fun prefetch_loop ::
    "bool \<Rightarrow> int \<Rightarrow> nat \<Rightarrow> nat \<Rightarrow> stream \<Rightarrow> (segmentRecipe list \<times> stream) option" where
  "prefetch_loop be num j 0 s = Some ([], s)"
| "prefetch_loop be num j (Suc n) s =
     (case read_ptr be s of
        None \<Rightarrow> if j = 0 then None else Some ([], s\<lparr>s_pos := length (s_bytes s)\<rparr>)
      | Some (flag, s') \<Rightarrow>
          if cp_id flag \<noteq> 0 - uint (CHUNK_SEGMENT_START)
          then (if j = 0 then None else Some ([], s'))
          else do {
            (sr, s'') \<leftarrow> read_segment_body be num (s_pos s) flag s';
            (srs, s'') \<leftarrow> prefetch_loop be num (Suc j) n s'';
            Some (sr # srs, s'')
          })"

text \<open>\<open>opened_bv\<close> is unset, the version of the running job, or another version.\<close>

datatype opened_bv = Not_opened | Own | Other backupVersion

definition prefetch_segments ::
    "bool \<Rightarrow> (int \<rightharpoonup> bv_files) \<Rightarrow> backupVersion \<Rightarrow> opened_bv \<Rightarrow> segmentid \<Rightarrow> nat \<Rightarrow>
     (segmentRecipe list \<times> backupVersion \<times> opened_bv) option" where
  "prefetch_segments be fs own opened i prefetch_num = do {
     assertion (i \<noteq> TEMPORARY_ID);
     let w = (word_of_int i :: 64 word);
     let bnum = sint (id_to_bnum w);
     let off = unat (id_to_off w);
     opened \<leftarrow>
       (case opened of
          Own \<Rightarrow> if bv_num own \<noteq> bnum then map_option Other (open_backup_version be fs bnum) else Some Own
        | Other b \<Rightarrow> if bv_num b = bnum then Some (Other b)
                     else if bnum = bv_num own then Some Own
                     else map_option Other (open_backup_version be fs bnum)
        | Not_opened \<Rightarrow> if bnum = bv_num own then Some Own
                        else map_option Other (open_backup_version be fs bnum));
     let b = (case opened of Other b \<Rightarrow> b | _ \<Rightarrow> own);
     (srs, s) \<leftarrow> prefetch_loop be (bv_num b) 0 prefetch_num ((recipe_fp b)\<lparr>s_pos := off\<rparr>);
     let b = b\<lparr>recipe_fp := s\<rparr>;
     Some (case opened of Other _ \<Rightarrow> (srs, own, Other b) | _ \<Rightarrow> (srs, b, Own))
   }"

section \<open>Segment identifiers read back\<close>

lemma make_segment_id_parts:
  fixes bid off sz :: "64 word"
  assumes "bid < 2 ^ 15" "off < 2 ^ 32" "sz < 2 ^ 16"
  shows "id_to_bnum (make_segment_id bid off sz) = bid"
    and "id_to_off (make_segment_id bid off sz) = off"
    and "id_to_size (make_segment_id bid off sz) = sz"
proof -
  have b: "take_bit 15 bid = bid" and o: "take_bit 32 off = off" and s: "take_bit 16 sz = sz"
    using assms by (simp_all add: take_bit_eq_mod mod_word_less)
  have nb: "\<not> bit bid n" if "n \<ge> 15" for n using arg_cong [OF b, of "\<lambda>w. bit w n"] that by (simp add: bit_take_bit_iff)
  have no: "\<not> bit off n" if "n \<ge> 32" for n using arg_cong [OF o, of "\<lambda>w. bit w n"] that by (simp add: bit_take_bit_iff)
  have ns: "\<not> bit sz n" if "n \<ge> 16" for n using arg_cong [OF s, of "\<lambda>w. bit w n"] that by (simp add: bit_take_bit_iff)
  have "push_bit 48 bid AND push_bit 16 off = 0" "(push_bit 48 bid OR push_bit 16 off) AND sz = 0"
    using no ns by (auto intro!: bit_word_eqI simp: bit_simps)
  then have m: "make_segment_id bid off sz = push_bit 48 bid OR push_bit 16 off OR sz"
    by (simp add: make_segment_id_def disjunctive_add_eq_or or.assoc)
  have x: "(0xffff :: 64 word) = mask 16" "(0xffffffff :: 64 word) = mask 32" by (simp_all add: mask_eq_exp_minus_1)
  show "id_to_size (make_segment_id bid off sz) = sz"
    unfolding id_to_size_def m x by (rule bit_word_eqI) (use ns not_le in \<open>auto simp: bit_simps\<close>)
  show "id_to_off (make_segment_id bid off sz) = off"
    unfolding id_to_off_def m x by (rule bit_word_eqI) (use ns no nb in \<open>auto simp: bit_simps min_def intro: ccontr\<close>)
  show "id_to_bnum (make_segment_id bid off sz) = bid"
    unfolding id_to_bnum_def m by (rule bit_word_eqI) (use ns no nb in \<open>auto simp: bit_simps min_def not_le\<close>)
qed

section \<open>Reading what was written\<close>

definition rest :: "stream \<Rightarrow> byte list" where
  "rest s = drop (s_pos s) (s_bytes s)"

abbreviation skip :: "nat \<Rightarrow> stream \<Rightarrow> stream" where
  "skip n s \<equiv> s\<lparr>s_pos := s_pos s + n\<rparr>"

lemma length_rest: "rest s = a @ r \<Longrightarrow> s_pos s \<le> length (s_bytes s) \<Longrightarrow> s_pos s + length a \<le> length (s_bytes s)"
  unfolding rest_def using arg_cong [of "drop (s_pos s) (s_bytes s)" "a @ r" length] unfolding length_drop length_append by linarith

lemma s_read_rest [codec_simps]:
  "rest s = a @ r \<Longrightarrow> n = length a \<Longrightarrow> s_pos s \<le> length (s_bytes s) \<Longrightarrow> s_read n s = Some (a, skip n s)"
  using length_rest [of s a r] by (simp add: s_read_def rest_def)

lemma rest_skip: "rest s = a @ r \<Longrightarrow> n = length a \<Longrightarrow> rest (skip n s) = r"
  unfolding rest_def by (metis add.commute append_eq_conv_conj drop_drop stream.select_convs(1,2) stream.surjective
      stream.update_convs(2))

lemma pos_skip: "rest s = a @ r \<Longrightarrow> n = length a \<Longrightarrow> s_pos s \<le> length (s_bytes s) \<Longrightarrow>
    s_pos (skip n s) \<le> length (s_bytes (skip n s))"
  using length_rest [of s a r] by simp

definition int32_range :: "int \<Rightarrow> bool" where "int32_range x = (- (2 ^ 31) \<le> x \<and> x < 2 ^ 31)"
definition int64_range :: "int \<Rightarrow> bool" where "int64_range x = (- (2 ^ 63) \<le> x \<and> x < 2 ^ 63)"

definition valid :: "stream \<Rightarrow> bool" where
  "valid s = (s_pos s \<le> length (s_bytes s))"

text \<open>A reader that consumes the bytes \<open>bs\<close> and returns \<open>v\<close>.\<close>

definition reads :: "(stream \<Rightarrow> ('v \<times> stream) option) \<Rightarrow> byte list \<Rightarrow> 'v \<Rightarrow> bool" where
  "reads get bs v = (\<forall>s r. valid s \<longrightarrow> rest s = bs @ r \<longrightarrow> get s = Some (v, skip (length bs) s))"

lemma reads_D: "reads get bs v \<Longrightarrow> valid s \<Longrightarrow> rest s = bs @ r \<Longrightarrow>
    get s = Some (v, skip (length bs) s) \<and> rest (skip (length bs) s) = r \<and> valid (skip (length bs) s)"
  using rest_skip [of s bs r] pos_skip [of s bs r] by (auto simp: reads_def valid_def)

lemma reads_raw: "n = length bs \<Longrightarrow> reads (s_read n) bs bs"
  by (simp add: reads_def valid_def s_read_rest)

lemma reads_int: "int32_range x \<Longrightarrow> reads (s_read_int be) (int_bytes be x) x"
  by (simp add: reads_def valid_def s_read_int_def s_read_rest int32_range_def sint_int_32 del: word_bytes_numeral)

lemma reads_int64: "int64_range x \<Longrightarrow> reads (s_read_int64 be) (int64_bytes be x) x"
  by (simp add: reads_def valid_def s_read_int64_def s_read_rest int64_range_def sint_of_int_64 del: word_bytes_numeral)

lemma reads_bind:
  assumes "reads get bs v" "reads (k v) cs w"
  shows "reads (\<lambda>s. get s \<bind> (\<lambda>(v, s). k v s)) (bs @ cs) w"
  unfolding reads_def
proof (intro allI impI)
  fix s r
  assume v: "valid s" and r: "rest s = (bs @ cs) @ r"
  from reads_D [OF assms(1) v, of "cs @ r"] r have g: "get s = Some (v, skip (length bs) s)"
    "rest (skip (length bs) s) = cs @ r" "valid (skip (length bs) s)" by auto
  from reads_D [OF assms(2) g(3,2)] g(1)
  show "get s \<bind> (\<lambda>(v, s). k v s) = Some (w, skip (length (bs @ cs)) s)" by (simp add: add.assoc)
qed

lemma reads_return: "reads (\<lambda>s. Some (v, s)) [] v"
  by (simp add: reads_def)

definition ptr_ok :: "chunkPointer \<Rightarrow> bool" where
  "ptr_ok cp = (length (cp_fp cp) = 20 \<and> int64_range (cp_id cp) \<and> int32_range (cp_size cp))"

lemma length_ptr_bytes [simp]: "ptr_ok cp \<Longrightarrow> length (ptr_bytes be cp) = 32"
  by (simp add: ptr_bytes_def ptr_ok_def)

lemma reads_ptr: "ptr_ok cp \<Longrightarrow> reads (read_ptr be) (ptr_bytes be cp) cp"
proof -
  assume ok: "ptr_ok cp"
  then have l: "length (cp_fp cp) = 20" and i: "int64_range (cp_id cp)" and z: "int32_range (cp_size cp)"
    by (simp_all add: ptr_ok_def)
  have "reads (read_ptr be) (take 20 (cp_fp cp) @ int64_bytes be (cp_id cp) @ int_bytes be (cp_size cp) @ [])
      \<lparr>cp_fp = take 20 (cp_fp cp), cp_id = cp_id cp, cp_size = cp_size cp\<rparr>"
    unfolding read_ptr_def [abs_def]
    by (rule reads_bind, rule reads_raw, simp add: l, rule reads_bind, rule reads_int64 [OF i],
        rule reads_bind, rule reads_int [OF z], rule reads_return)
  then show ?thesis using ok by (cases cp) (simp add: ptr_bytes_def ptr_ok_def del: word_bytes_numeral)
qed

section \<open>Segments and recipes\<close>

definition flag_ptr :: "32 word \<Rightarrow> int \<Rightarrow> chunkPointer" where
  "flag_ptr flag n = \<lparr>cp_fp = replicate 20 0, cp_id = 0 - uint flag, cp_size = n\<rparr>"

definition seg_items :: "chunkPointer list \<Rightarrow> chunkPointer list" where
  "seg_items cps = flag_ptr CHUNK_SEGMENT_START (int (length cps)) # cps @ [flag_ptr CHUNK_SEGMENT_END 0]"

definition items_bytes :: "bool \<Rightarrow> chunkPointer list \<Rightarrow> byte list" where
  "items_bytes be cps = concat (map (ptr_bytes be) cps)"

text \<open>A pointer as the filter phase appends it.\<close>

definition data_ptr :: "chunkPointer \<Rightarrow> bool" where
  "data_ptr cp = (ptr_ok cp \<and> cp_id cp > TEMPORARY_ID)"

definition boundary :: "chunkPointer \<Rightarrow> bool" where
  "boundary cp = (cp_id cp = -4 \<or> cp_id cp = -8)"

lemma flag_ptr_ok: "int32_range n \<Longrightarrow> ptr_ok (flag_ptr CHUNK_SEGMENT_START n) \<and> ptr_ok (flag_ptr CHUNK_SEGMENT_END n)"
  by (simp add: ptr_ok_def flag_ptr_def int64_range_def)

lemma items_bytes_simps [simp]:
  "items_bytes be [] = []" "items_bytes be (cp # cps) = ptr_bytes be cp @ items_bytes be cps"
  "items_bytes be (xs @ ys) = items_bytes be xs @ items_bytes be ys"
  by (simp_all add: items_bytes_def)

lemma length_items_bytes: "\<forall>cp \<in> set cps. ptr_ok cp \<Longrightarrow> length (items_bytes be cps) = 32 * length cps"
  by (induction cps) auto

lemma read_ptr_items:
  assumes "valid s" "rest s = items_bytes be (cp # cps) @ r" "ptr_ok cp"
  shows "read_ptr be s = Some (cp, skip 32 s) \<and> rest (skip 32 s) = items_bytes be cps @ r \<and> valid (skip 32 s)"
  using reads_D [OF reads_ptr [OF assms(3), of be] assms(1), of "items_bytes be cps @ r"] assms(2,3) by simp

lemma read_ptrs_items:
  assumes "valid s" "rest s = items_bytes be items @ r" "\<forall>cp \<in> set items. ptr_ok cp"
    and "n \<le> length (filter (\<lambda>cp. \<not> boundary cp) items)"
  shows "\<exists>s' items'. read_ptrs be n s = Some (take n (filter (\<lambda>cp. \<not> boundary cp) items), s') \<and> valid s'
     \<and> rest s' = items_bytes be items' @ r \<and> (\<forall>cp \<in> set items'. ptr_ok cp)
     \<and> filter (\<lambda>cp. \<not> boundary cp) items' = drop n (filter (\<lambda>cp. \<not> boundary cp) items)
     \<and> s_bytes s' = s_bytes s"
  using assms
proof (induction items arbitrary: n s)
  case Nil
  then show ?case by (intro exI [of _ s] exI [of _ "[]"]) simp
next
  case (Cons cp items)
  show ?case
  proof (cases n)
    case 0
    with Cons.prems show ?thesis by (intro exI [of _ s] exI [of _ "cp # items"]) simp
  next
    case (Suc k)
    have ok: "ptr_ok cp" using Cons.prems by simp
    from read_ptr_items [OF Cons.prems(1,2) ok]
    have step: "read_ptr be s = Some (cp, skip 32 s)" "rest (skip 32 s) = items_bytes be items @ r" "valid (skip 32 s)"
      by auto
    show ?thesis
    proof (cases "boundary cp")
      case True
      with Cons.prems(3,4) Cons.IH [OF step(3,2), of n] Suc step(1) show ?thesis
        by (auto simp: boundary_def)
    next
      case False
      with Cons.prems(3,4) Cons.IH [OF step(3,2), of k] Suc step(1) show ?thesis
        by (auto simp: boundary_def)
    qed
  qed
qed

lemma read_kvpairs_items:
  assumes "valid s" "rest s = items_bytes be cps @ r" "\<forall>cp \<in> set cps. data_ptr cp"
  shows "\<exists>s'. read_kvpairs be (length cps) s kv = Some (fold (\<lambda>cp t. AList.update (cp_fp cp) cp t) cps kv, s')
     \<and> valid s' \<and> rest s' = r \<and> s_bytes s' = s_bytes s \<and> s_pos s' = s_pos s + 32 * length cps"
  using assms
proof (induction cps arbitrary: s kv)
  case Nil
  then show ?case by simp
next
  case (Cons cp cps)
  have ok: "ptr_ok cp" "cp_id cp > TEMPORARY_ID" using Cons.prems by (simp_all add: data_ptr_def)
  from read_ptr_items [OF Cons.prems(1,2) ok(1)]
  have step: "read_ptr be s = Some (cp, skip 32 s)" "rest (skip 32 s) = items_bytes be cps @ r" "valid (skip 32 s)"
    by auto
  from Cons.IH [OF step(3,2)] Cons.prems(3) step(1) ok(2) show ?case by fastforce
qed

text \<open>The segment recipe that the readers build from the pointers of a segment stored at offset \<open>off\<close>.\<close>

definition recipe_of :: "int \<Rightarrow> nat \<Rightarrow> chunkPointer list \<Rightarrow> segmentRecipe" where
  "recipe_of num off cps = \<lparr>sr_id = sint (make_segment_id (word_of_int num) (of_nat off) (word_of_int (int (length cps)))),
     sr_kvpairs = fold (\<lambda>cp t. AList.update (cp_fp cp) cp t) cps []\<rparr>"

lemma read_segment_items:
  assumes "valid s" "rest s = items_bytes be (seg_items cps) @ r" "\<forall>cp \<in> set cps. data_ptr cp"
    and "int32_range (int (length cps))"
  shows "\<exists>s' s''. read_ptr be s = Some (flag_ptr CHUNK_SEGMENT_START (int (length cps)), s')
     \<and> read_segment_body be num (s_pos s) (flag_ptr CHUNK_SEGMENT_START (int (length cps))) s' = Some (recipe_of num (s_pos s) cps, s'')
     \<and> valid s'' \<and> rest s'' = r \<and> s_bytes s'' = s_bytes s \<and> s_pos s'' = s_pos s + 32 * (length cps + 2)"
proof -
  let ?st = "flag_ptr CHUNK_SEGMENT_START (int (length cps))" and ?en = "flag_ptr CHUNK_SEGMENT_END 0"
  have ok: "ptr_ok ?st" "ptr_ok ?en" using assms(4) flag_ptr_ok [of 0] flag_ptr_ok by (auto simp: int32_range_def)
  from read_ptr_items [OF assms(1) _ ok(1), of be "cps @ [?en]" r] assms(2)
  have a: "read_ptr be s = Some (?st, skip 32 s)" "rest (skip 32 s) = items_bytes be cps @ items_bytes be [?en] @ r"
    "valid (skip 32 s)" by (auto simp: seg_items_def)
  from read_kvpairs_items [OF a(3,2) assms(3), of "[]"] obtain s1 where
    b: "read_kvpairs be (length cps) (skip 32 s) [] = Some (fold (\<lambda>cp t. AList.update (cp_fp cp) cp t) cps [], s1)"
    "valid s1" "rest s1 = items_bytes be [?en] @ r" "s_bytes s1 = s_bytes s" "s_pos s1 = s_pos s + 32 + 32 * length cps" by auto
  from read_ptr_items [OF b(2,3) ok(2)]
  have c: "read_ptr be s1 = Some (?en, skip 32 s1)" "rest (skip 32 s1) = r" "valid (skip 32 s1)" by auto
  have "read_segment_body be num (s_pos s) ?st (skip 32 s) = Some (recipe_of num (s_pos s) cps, skip 32 s1)"
    using b(1) c(1) by (simp add: read_segment_body_def flag_ptr_def recipe_of_def)
  with a(1) c b(4,5) show ?thesis by (intro exI [of _ "skip 32 s"] exI [of _ "skip 32 s1"]) simp
qed

definition segs_bytes :: "bool \<Rightarrow> chunkPointer list list \<Rightarrow> byte list" where
  "segs_bytes be segs = concat (map (\<lambda>cps. items_bytes be (seg_items cps)) segs)"

text \<open>The recipes of a run of segments, the first at offset \<open>off\<close>.\<close>

fun recipes_of :: "int \<Rightarrow> nat \<Rightarrow> chunkPointer list list \<Rightarrow> segmentRecipe list" where
  "recipes_of num off [] = []"
| "recipes_of num off (cps # segs) = recipe_of num off cps # recipes_of num (off + 32 * (length cps + 2)) segs"

definition seg_ok :: "chunkPointer list \<Rightarrow> bool" where
  "seg_ok cps = ((\<forall>cp \<in> set cps. data_ptr cp) \<and> int32_range (int (length cps)))"

lemma read_ptr_eof: "rest s = [] \<Longrightarrow> read_ptr be s = None"
  by (simp add: rest_def read_ptr_def s_read_def)

lemma prefetch_loop_items:
  assumes "valid s" "rest s = segs_bytes be segs" "\<forall>cps \<in> set segs. seg_ok cps" "segs \<noteq> [] \<or> j > 0"
  shows "\<exists>s'. prefetch_loop be num j n s = Some (recipes_of num (s_pos s) (take n segs), s') \<and> s_bytes s' = s_bytes s"
  using assms
proof (induction n arbitrary: j s segs)
  case 0
  then show ?case by simp
next
  case (Suc n)
  show ?case
  proof (cases segs)
    case Nil
    with Suc.prems show ?thesis by (simp add: segs_bytes_def read_ptr_eof)
  next
    case (Cons cps segs')
    have "rest s = items_bytes be (seg_items cps) @ segs_bytes be segs'"
      using Suc.prems(2) Cons by (simp add: segs_bytes_def)
    from read_segment_items [OF Suc.prems(1) this, of num] Suc.prems(3) Cons obtain s1 s2 where
      r: "read_ptr be s = Some (flag_ptr CHUNK_SEGMENT_START (int (length cps)), s1)"
      "read_segment_body be num (s_pos s) (flag_ptr CHUNK_SEGMENT_START (int (length cps))) s1 = Some (recipe_of num (s_pos s) cps, s2)"
      "valid s2" "rest s2 = segs_bytes be segs'" "s_bytes s2 = s_bytes s" "s_pos s2 = s_pos s + 32 * (length cps + 2)"
      by (auto simp: seg_ok_def)
    from Suc.IH [OF r(3,4), of "Suc j"] Suc.prems(3) Cons obtain s3 where
      "prefetch_loop be num (Suc j) n s2 = Some (recipes_of num (s_pos s2) (take n segs'), s3)" "s_bytes s3 = s_bytes s2" by auto
    with r Cons show ?thesis by (simp add: flag_ptr_def)
  qed
qed
section \<open>Writing a backup version\<close>

text \<open>The calls the filter phase makes for one segment.\<close>

definition write_segment_recipe ::
    "bool \<Rightarrow> (nat \<Rightarrow> byte) \<Rightarrow> chunkPointer list \<Rightarrow> backupVersion \<Rightarrow> recipe_statics \<Rightarrow>
     (segmentid \<times> backupVersion \<times> recipe_statics) option" where
  "write_segment_recipe be junk cps b st = do {
     (i, b) \<leftarrow> append_segment_flag be junk b CHUNK_SEGMENT_START (int (length cps));
     (b, st) \<leftarrow> append_n_chunk_pointers be b cps st;
     (_, b) \<leftarrow> append_segment_flag be junk b CHUNK_SEGMENT_END 0;
     Some (i, b, st)
   }"

definition at_end :: "stream \<Rightarrow> bool" where
  "at_end s = (s_pos s = length (s_bytes s))"

lemma s_write_end [simp]: "at_end s \<Longrightarrow> s_bytes (s_write bs s) = s_bytes s @ bs"
  "at_end s \<Longrightarrow> at_end (s_write bs s)"
  by (simp_all add: s_write_def at_end_def)

definition ids_bytes :: "bool \<Rightarrow> containerid list \<Rightarrow> byte list" where
  "ids_bytes be is = concat (map (int64_bytes be) is)"

text \<open>The access records of a version in progress: what the pointers appended so far
  determine of the record file, its buffer and \<open>access_record\<close>.\<close>

definition records_hold :: "bool \<Rightarrow> backupVersion \<Rightarrow> recipe_statics \<Rightarrow> containerid list \<Rightarrow> bool" where
  "records_hold be b st ids =
     (at_end (record_fp b)
      \<and> (\<exists>m. recordbuf b = Some m \<and> s_bytes (record_fp b) @ m = ids_bytes be (butlast (remdups_adj ids)))
      \<and> access_record st = (if ids = [] then TEMPORARY_ID else last ids))"

lemma remdups_adj_snoc:
  "remdups_adj (xs @ [x]) = (if xs \<noteq> [] \<and> last xs = x then remdups_adj xs else remdups_adj xs @ [x])"
  by (induction xs rule: remdups_adj.induct) auto

lemma ids_bytes_snoc [simp]: "ids_bytes be (is @ [i]) = ids_bytes be is @ int64_bytes be i"
  by (simp add: ids_bytes_def)

lemma append_pointer_step:
  assumes "records_hold be b st ids" "data_ptr cp" "TEMPORARY_ID \<notin> set ids"
    and "length (segmentbuf b) + 32 \<le> segmentlen b"
  shows "\<exists>b' st'. append_chunk_pointer be cp (b, st) = Some (b', st') \<and> records_hold be b' st' (ids @ [cp_id cp])
     \<and> segmentbuf b' = segmentbuf b @ ptr_bytes be cp \<and> segmentlen b' = segmentlen b
     \<and> number_of_chunks b' = number_of_chunks b + 1 \<and> number_of_files b' = number_of_files b
     \<and> recipe_fp b' = recipe_fp b \<and> metadata_fp b' = metadata_fp b \<and> metabuf b' = metabuf b
     \<and> bv_path b' = bv_path b \<and> bv_num b' = bv_num b \<and> bv_deleted b' = bv_deleted b"
proof -
  from assms(1) obtain m where m: "recordbuf b = Some m" "at_end (record_fp b)"
    "s_bytes (record_fp b) @ m = ids_bytes be (butlast (remdups_adj ids))"
    "access_record st = (if ids = [] then TEMPORARY_ID else last ids)" by (auto simp: records_hold_def)
  have cp: "cp_id cp \<noteq> TEMPORARY_ID" "length (ptr_bytes be cp) = 32" using assms(2) by (auto simp: data_ptr_def)
  have acc: "access_record st \<noteq> TEMPORARY_ID \<longleftrightarrow> ids \<noteq> []"
    using assms(3) m(4) by (metis last_in_set)
  have keep: "ids_bytes be (remdups_adj ids) = ids_bytes be (butlast (remdups_adj ids)) @ int64_bytes be (last ids)"
    if "ids \<noteq> []"
    using that append_butlast_last_id [of "remdups_adj ids"]
    by (metis ids_bytes_snoc last_remdups_adj remdups_adj_Nil_iff)
  show ?thesis
  proof (cases "ids = [] \<or> last ids = cp_id cp")
    case True
    then have "butlast (remdups_adj (ids @ [cp_id cp])) = butlast (remdups_adj ids)"
      by (auto simp: remdups_adj_snoc)
    with True m acc cp assms(4) show ?thesis
      by (auto simp: append_chunk_pointer_def segbuf_append_def records_hold_def)
  next
    case False
    then have "butlast (remdups_adj (ids @ [cp_id cp])) = remdups_adj ids" by (simp add: remdups_adj_snoc)
    with False m acc cp assms(4) keep show ?thesis
      by (auto simp: append_chunk_pointer_def segbuf_append_def records_hold_def Let_def)
  qed
qed

lemma append_pointers:
  assumes "records_hold be b st ids" "\<forall>cp \<in> set cps. data_ptr cp" "TEMPORARY_ID \<notin> set ids"
    and "length (segmentbuf b) + 32 * length cps \<le> segmentlen b"
  shows "\<exists>b' st'. append_n_chunk_pointers be b cps st = Some (b', st') \<and> records_hold be b' st' (ids @ map cp_id cps)
     \<and> segmentbuf b' = segmentbuf b @ items_bytes be cps \<and> segmentlen b' = segmentlen b
     \<and> number_of_chunks b' = number_of_chunks b + int (length cps) \<and> number_of_files b' = number_of_files b
     \<and> recipe_fp b' = recipe_fp b \<and> metadata_fp b' = metadata_fp b \<and> metabuf b' = metabuf b
     \<and> bv_path b' = bv_path b \<and> bv_num b' = bv_num b \<and> bv_deleted b' = bv_deleted b"
  using assms
proof (induction cps arbitrary: b st ids)
  case Nil
  then show ?case by (simp add: append_n_chunk_pointers_def)
next
  case (Cons cp cps)
  from append_pointer_step [OF Cons.prems(1), of cp] Cons.prems obtain b1 st1 where
    one: "append_chunk_pointer be cp (b, st) = Some (b1, st1)" "records_hold be b1 st1 (ids @ [cp_id cp])"
    "segmentbuf b1 = segmentbuf b @ ptr_bytes be cp" "segmentlen b1 = segmentlen b"
     "number_of_chunks b1 = number_of_chunks b + 1" "number_of_files b1 = number_of_files b"
     "recipe_fp b1 = recipe_fp b" "metadata_fp b1 = metadata_fp b" "metabuf b1 = metabuf b"
     "bv_path b1 = bv_path b" "bv_num b1 = bv_num b" "bv_deleted b1 = bv_deleted b" by auto
  have "length (segmentbuf b1) + 32 * length cps \<le> segmentlen b1" "TEMPORARY_ID \<notin> set (ids @ [cp_id cp])"
    using Cons.prems one(3,4) by (auto simp: data_ptr_def)
  from Cons.IH [OF one(2) _ this(2,1)] Cons.prems(2) one show ?case
    by (auto simp: append_n_chunk_pointers_def)
qed

lemma write_segment:
  assumes "records_hold be b st ids" "seg_ok cps" "TEMPORARY_ID \<notin> set ids"
  shows "\<exists>b' st'. write_segment_recipe be junk cps b st
       = Some (sr_id (recipe_of (bv_num b) (length (s_bytes (recipe_fp b))) cps), b', st')
     \<and> records_hold be b' st' (ids @ map cp_id cps)
     \<and> s_bytes (recipe_fp b') = s_bytes (recipe_fp b) @ items_bytes be (seg_items cps) \<and> at_end (recipe_fp b')
     \<and> number_of_chunks b' = number_of_chunks b + int (length cps) \<and> number_of_files b' = number_of_files b
     \<and> metadata_fp b' = metadata_fp b \<and> metabuf b' = metabuf b
     \<and> bv_path b' = bv_path b \<and> bv_num b' = bv_num b \<and> bv_deleted b' = bv_deleted b"
proof -
  let ?st = "flag_ptr CHUNK_SEGMENT_START (int (length cps))" and ?en = "flag_ptr CHUNK_SEGMENT_END 0"
  have ok: "ptr_ok ?st" "ptr_ok ?en" using assms(2) flag_ptr_ok [of 0] flag_ptr_ok by (auto simp: int32_range_def seg_ok_def)
  have lens: "length (ptr_bytes be ?st) = 32" "length (ptr_bytes be ?en) = 32" using ok by simp_all
  let ?b0 = "b\<lparr>recipe_fp := (recipe_fp b)\<lparr>s_pos := length (s_bytes (recipe_fp b))\<rparr>,
     segmentlen := 32 * (length cps + 2), segmentbuf := ptr_bytes be ?st\<rparr>"
  have n: "nat (64 + int (length cps) * 32) = 64 + 32 * length cps" by simp
  have 1: "append_segment_flag be junk b CHUNK_SEGMENT_START (int (length cps))
      = Some (sr_id (recipe_of (bv_num b) (length (s_bytes (recipe_fp b))) cps), ?b0)"
    using lens(1) n by (simp add: append_segment_flag_def segbuf_append_def flag_ptr_def recipe_of_def Let_def)
  have "records_hold be ?b0 st ids" using assms(1) by (simp add: records_hold_def)
  from append_pointers [OF this, of cps] assms(2,3) ok(1) obtain b1 st1 where
    2: "append_n_chunk_pointers be ?b0 cps st = Some (b1, st1)" "records_hold be b1 st1 (ids @ map cp_id cps)"
     "segmentbuf b1 = ptr_bytes be ?st @ items_bytes be cps" "segmentlen b1 = 32 * (length cps + 2)"
     "number_of_chunks b1 = number_of_chunks b + int (length cps)" "number_of_files b1 = number_of_files b"
     "recipe_fp b1 = recipe_fp ?b0" "metadata_fp b1 = metadata_fp b" "metabuf b1 = metabuf b"
     "bv_path b1 = bv_path b" "bv_num b1 = bv_num b" "bv_deleted b1 = bv_deleted b" by (auto simp: seg_ok_def)
  have len: "length (items_bytes be cps) = 32 * length cps"
    using assms(2) by (intro length_items_bytes) (auto simp: seg_ok_def data_ptr_def)
  let ?all = "ptr_bytes be ?st @ items_bytes be cps @ ptr_bytes be ?en"
  have all: "length ?all = 32 * (length cps + 2)" "items_bytes be (seg_items cps) = ?all" using len ok by (auto simp: seg_items_def)
  have pos: "recipe_fp b1\<lparr>s_pos := length (s_bytes (recipe_fp b1))\<rparr> = recipe_fp b1" using 2(7) by simp
  have 3: "append_segment_flag be junk b1 CHUNK_SEGMENT_END 0
      = Some (TEMPORARY_ID, b1\<lparr>recipe_fp := s_write ?all (recipe_fp b1), segmentbuf := [], segmentlen := 0\<rparr>)"
    using 2(3,4) len lens all
    by (simp add: append_segment_flag_def segbuf_append_def flag_ptr_def pos Let_def)
  have "at_end (recipe_fp b1)" using 2(7) by (simp add: at_end_def)
  with 1 2 3 all(2) show ?thesis
    by (auto simp: write_segment_recipe_def records_hold_def)
qed

section \<open>Opening a version that was written\<close>

definition file_ok :: "fileRecipeMeta \<Rightarrow> bool" where
  "file_ok r = (0 \<notin> set (fr_filename r) \<and> 20 + length (fr_filename r) \<le> metabufsize
     \<and> int64_range (fr_chunknum r) \<and> int64_range (fr_filesize r))"

definition files_bytes :: "bool \<Rightarrow> fileRecipeMeta list \<Rightarrow> byte list" where
  "files_bytes be rs = concat (map (file_meta_bytes be) rs)"

definition meta_holds :: "bool \<Rightarrow> byte list \<Rightarrow> stream \<Rightarrow> byte list option \<Rightarrow> fileRecipeMeta list \<Rightarrow> bool" where
  "meta_holds be path fp buf rs =
     (at_end fp \<and> (\<exists>h x m. buf = Some m \<and> s_bytes fp = h @ x \<and> length h = 28 + length path \<and> x @ m = files_bytes be rs))"

text \<open>A version in progress that holds the given file records and segments.\<close>

definition bv_holds :: "bool \<Rightarrow> backupVersion \<Rightarrow> recipe_statics \<Rightarrow> fileRecipeMeta list \<Rightarrow> chunkPointer list list \<Rightarrow> bool" where
  "bv_holds be b st rs segs =
     (meta_holds be (bv_path b) (metadata_fp b) (metabuf b) rs
      \<and> s_bytes (recipe_fp b) = segs_bytes be segs
      \<and> records_hold be b st (map cp_id (concat segs))
      \<and> number_of_files b = int (length rs) \<and> number_of_chunks b = int (length (concat segs))
      \<and> (\<forall>cps \<in> set segs. seg_ok cps) \<and> (\<forall>r \<in> set rs. file_ok r))"

lemma length_bv_header: "length (bv_header be b) = 28 + length (bv_path b)"
  by (simp add: bv_header_def)

lemma create_holds:
  assumes "create_backup_version be path st = Some (b, st')" "access_record st = TEMPORARY_ID"
  shows "bv_holds be b st' [] [] \<and> bv_num b = backup_version_count st \<and> bv_deleted b = 0
     \<and> backup_version_count st' = backup_version_count st + 1 \<and> dir_of path = Some (bv_path b)"
proof -
  from assms obtain p b0 where b: "dir_of path = Some p" "bv_path b0 = p" "metadata_fp b0 = empty_stream"
    "b0 = \<lparr>bv_path = p, bv_num = backup_version_count st, bv_deleted = 0, number_of_files = 0, number_of_chunks = 0,
              metadata_fp = empty_stream, recipe_fp = empty_stream, record_fp = empty_stream,
              metabuf = Some [], recordbuf = Some [], segmentbuf = [], segmentlen = 0\<rparr>"
    "b = b0\<lparr>metadata_fp := s_write (bv_header be b0) empty_stream\<rparr>"
    "st' = st\<lparr>backup_version_count := backup_version_count st + 1\<rparr>"
    by (auto simp: create_backup_version_def get_next_version_number_def Let_def bind_eq_Some_conv)
  have e: "at_end empty_stream" "s_bytes empty_stream = []" by (simp_all add: at_end_def empty_stream_def)
  have "s_bytes (metadata_fp b) = bv_header be b0 @ []" "bv_path b = p" "metabuf b = Some []" "at_end (metadata_fp b)"
    using b e by simp_all
  with b e length_bv_header [of be b0] assms(2) show ?thesis
    by (auto simp: bv_holds_def meta_holds_def files_bytes_def segs_bytes_def records_hold_def ids_bytes_def)
qed

lemma append_file_step:
  assumes "meta_holds be (bv_path b) (metadata_fp b) (metabuf b) rs" "file_ok r"
  shows "\<exists>fp m. append_file_recipe_meta be b r
       = Some (b\<lparr>metadata_fp := fp, metabuf := m, number_of_files := number_of_files b + 1\<rparr>)
     \<and> meta_holds be (bv_path b) fp m (rs @ [r])"
proof -
  from assms(1) obtain h x m where m: "metabuf b = Some m" "s_bytes (metadata_fp b) = h @ x"
    "length h = 28 + length (bv_path b)" "x @ m = files_bytes be rs" "at_end (metadata_fp b)" by (auto simp: meta_holds_def)
  let ?f = "file_meta_bytes be r"
  have len: "length ?f = 20 + length (fr_filename r)" by (simp add: file_meta_bytes_def)
  have app: "files_bytes be (rs @ [r]) = files_bytes be rs @ ?f" by (simp add: files_bytes_def)
  show ?thesis
  proof (cases "4 + length (fr_filename r) + 8 + 8 > metabufsize - length m")
    case True
    with m app len assms(2) show ?thesis
      by (intro exI [of _ "s_write m (metadata_fp b)"] exI [of _ "Some ?f"])
        (auto simp: append_file_recipe_meta_def file_ok_def Let_def meta_holds_def intro: exI [of _ h] exI [of _ "x @ m"])
  next
    case False
    with m app len show ?thesis
      by (intro exI [of _ "metadata_fp b"] exI [of _ "Some (m @ ?f)"])
        (auto simp: append_file_recipe_meta_def Let_def meta_holds_def intro: exI [of _ h] exI [of _ x])
  qed
qed

lemma append_file_holds:
  assumes "bv_holds be b st rs segs" "file_ok r"
  shows "\<exists>b'. append_file_recipe_meta be b r = Some b' \<and> bv_holds be b' st (rs @ [r]) segs
     \<and> bv_path b' = bv_path b \<and> bv_num b' = bv_num b \<and> bv_deleted b' = bv_deleted b"
  using append_file_step [of be b rs r] assms by (auto simp: bv_holds_def records_hold_def)

lemma ids_not_temporary: "\<forall>cps \<in> set segs. seg_ok cps \<Longrightarrow> TEMPORARY_ID \<notin> set (map cp_id (concat segs))"
  by (fastforce simp: seg_ok_def data_ptr_def)

lemma append_segment_holds:
  assumes "bv_holds be b st rs segs" "seg_ok cps"
  shows "\<exists>b' st'. write_segment_recipe be junk cps b st
       = Some (sr_id (recipe_of (bv_num b) (length (segs_bytes be segs)) cps), b', st')
     \<and> bv_holds be b' st' rs (segs @ [cps])
     \<and> bv_path b' = bv_path b \<and> bv_num b' = bv_num b \<and> bv_deleted b' = bv_deleted b"
proof -
  have h: "records_hold be b st (map cp_id (concat segs))" "s_bytes (recipe_fp b) = segs_bytes be segs"
    "\<forall>cps \<in> set segs. seg_ok cps" using assms(1) by (auto simp: bv_holds_def)
  from write_segment [OF h(1) assms(2) ids_not_temporary [OF h(3)], of junk] h(2) assms show ?thesis
    by (auto simp: bv_holds_def segs_bytes_def)
qed

lemma drop_after_header:
  "length h = length h' \<Longrightarrow> s_write h' \<lparr>s_bytes = h @ x, s_pos = 0\<rparr> = \<lparr>s_bytes = h' @ x, s_pos = length h'\<rparr>"
  by (simp add: s_write_def)

lemma update_holds:
  assumes "bv_holds be b st rs segs" "update_backup_version be b st = (b', st')"
  shows "s_bytes (metadata_fp b') = bv_header be b @ files_bytes be rs"
    and "s_bytes (recipe_fp b') = segs_bytes be segs"
    and "s_bytes (record_fp b') = ids_bytes be (remdups_adj (map cp_id (concat segs)) @ [TEMPORARY_ID])"
    and "bv_num b' = bv_num b" and "access_record st' = TEMPORARY_ID"
proof -
  define ids where "ids = map cp_id (concat segs)"
  from assms(1) obtain h x m where m: "metabuf b = Some m" "s_bytes (metadata_fp b) = h @ x"
    "length h = 28 + length (bv_path b)" "x @ m = files_bytes be rs" "at_end (metadata_fp b)" by (auto simp: bv_holds_def meta_holds_def)
  from assms(1) obtain q where q: "recordbuf b = Some q" "at_end (record_fp b)"
    "s_bytes (record_fp b) @ q = ids_bytes be (butlast (remdups_adj ids))"
    "access_record st = (if ids = [] then TEMPORARY_ID else last ids)" by (auto simp: bv_holds_def records_hold_def ids_def)
  have seg: "\<forall>cps \<in> set segs. seg_ok cps" "s_bytes (recipe_fp b) = segs_bytes be segs" using assms(1) by (auto simp: bv_holds_def)
  have nt: "TEMPORARY_ID \<notin> set ids" using ids_not_temporary [OF seg(1)] by (simp add: ids_def)
  let ?b1 = "flush_metabuf b"
  let ?b2 = "?b1\<lparr>metadata_fp := s_write (bv_header be ?b1) ((metadata_fp ?b1)\<lparr>s_pos := 0\<rparr>)\<rparr>"
  let ?b3 = "flush_recordbuf ?b2"
  have b1: "s_bytes (metadata_fp ?b1) = h @ files_bytes be rs" "bv_header be ?b1 = bv_header be b"
    "recipe_fp ?b1 = recipe_fp b" "bv_num ?b1 = bv_num b" "record_fp ?b1 = record_fp b" "recordbuf ?b1 = recordbuf b"
    using m by (auto simp: flush_metabuf_def bv_header_def)
  have b2: "s_bytes (metadata_fp ?b2) = bv_header be b @ files_bytes be rs"
    using b1(1,2) m(3) length_bv_header [of be b] by (simp add: s_write_def)
  have b3: "s_bytes (record_fp ?b3) = ids_bytes be (butlast (remdups_adj ids))" "at_end (record_fp ?b3)"
    "metadata_fp ?b3 = metadata_fp ?b2" "recipe_fp ?b3 = recipe_fp b" "bv_num ?b3 = bv_num b"
    using q b1 by (auto simp: flush_recordbuf_def)
  have u: "b' = (let b4 = (if access_record st \<noteq> TEMPORARY_ID
               then ?b3\<lparr>record_fp := s_write (int64_bytes be (access_record st)) (record_fp ?b3)\<rparr> else ?b3)
      in b4\<lparr>record_fp := s_write (int64_bytes be TEMPORARY_ID) (record_fp b4)\<rparr>)"
     "st' = st\<lparr>access_record := TEMPORARY_ID\<rparr>"
    using assms(2) by (simp_all add: update_backup_version_def Let_def split: if_splits)
  show "s_bytes (metadata_fp b') = bv_header be b @ files_bytes be rs"
    unfolding u(1) using b2 b3(3) by (simp add: Let_def)
  show "s_bytes (recipe_fp b') = segs_bytes be segs" "bv_num b' = bv_num b"
    unfolding u(1) using b3 seg(2) by (simp_all add: Let_def)
  show "access_record st' = TEMPORARY_ID" using u(2) by simp
  have "s_bytes (record_fp b') = ids_bytes be (remdups_adj ids @ [TEMPORARY_ID])"
  proof (cases "ids = []")
    case True
    with q b3 show ?thesis unfolding u(1) by (simp add: ids_bytes_def Let_def)
  next
    case False
    then have "access_record st = last ids" "last ids \<noteq> TEMPORARY_ID"
      using q(4) nt last_in_set [OF False] by (metis (full_types))+
    moreover have "remdups_adj ids = butlast (remdups_adj ids) @ [last ids]"
      using False append_butlast_last_id [of "remdups_adj ids"] by (metis last_remdups_adj remdups_adj_Nil_iff)
    moreover have "s_bytes (record_fp b') = s_bytes (record_fp ?b3) @ int64_bytes be (last ids) @ int64_bytes be TEMPORARY_ID"
      unfolding u(1) using b3(2) calculation(1,2) by (simp add: Let_def del: word_bytes_numeral)
    ultimately show ?thesis using b3(1) ids_bytes_snoc [of be "butlast (remdups_adj ids)" "last ids"]
      by (simp del: word_bytes_numeral)
  qed
  then show "s_bytes (record_fp b') = ids_bytes be (remdups_adj (map cp_id (concat segs)) @ [TEMPORARY_ID])"
    by (simp add: ids_def)
qed

definition bv_ok :: "backupVersion \<Rightarrow> bool" where
  "bv_ok b = (int32_range (bv_num b) \<and> int32_range (bv_deleted b) \<and> int64_range (number_of_files b)
     \<and> int64_range (number_of_chunks b) \<and> int32_range (int (length (bv_path b))) \<and> 0 \<notin> set (bv_path b))"

lemma takeWhile_all: "0 \<notin> set bs \<Longrightarrow> takeWhile (\<lambda>b. b \<noteq> (0::byte)) bs = bs"
  by (induction bs) auto

text \<open>The part of \<open>open_backup_version\<close> that parses the header.\<close>

lemma open_header:
  assumes "bv_ok b" "fs (bv_num b) = Some f" "meta_bytes f = bv_header be b @ x"
  shows "open_backup_version be fs (bv_num b) = Some \<lparr>bv_path = bv_path b, bv_num = bv_num b, bv_deleted = bv_deleted b,
     number_of_files = number_of_files b, number_of_chunks = number_of_chunks b,
     metadata_fp = \<lparr>s_bytes = bv_header be b @ x, s_pos = length (bv_header be b)\<rparr>,
     recipe_fp = \<lparr>s_bytes = recipe_bytes f, s_pos = 0\<rparr>, record_fp = \<lparr>s_bytes = records_bytes f, s_pos = 0\<rparr>,
     metabuf = None, recordbuf = None, segmentbuf = [], segmentlen = 0\<rparr>"
proof -
  let ?s = "\<lparr>s_bytes = bv_header be b @ x, s_pos = 0\<rparr>"
  have r: "int32_range (bv_num b)" "int32_range (bv_deleted b)" "int64_range (number_of_files b)"
     "int64_range (number_of_chunks b)" "int32_range (int (length (bv_path b)))" "0 \<notin> set (bv_path b)"
    using assms(1) by (auto simp: bv_ok_def)
  have s0: "valid ?s" "rest ?s = int_bytes be (bv_num b) @ (int_bytes be (bv_deleted b)
     @ int64_bytes be (number_of_files b) @ int64_bytes be (number_of_chunks b)
     @ int_bytes be (int (length (bv_path b))) @ bv_path b @ x)"
    by (simp_all add: valid_def rest_def bv_header_def del: word_bytes_numeral)
  note 1 = reads_D [OF reads_int [OF r(1)] s0, simplified length_mem_bytes]
  note 2 = reads_D [OF reads_int [OF r(2)] 1 [THEN conjunct2, THEN conjunct2] 1 [THEN conjunct2, THEN conjunct1], simplified length_mem_bytes]
  note 3 = reads_D [OF reads_int64 [OF r(3)] 2 [THEN conjunct2, THEN conjunct2] 2 [THEN conjunct2, THEN conjunct1], simplified length_mem_bytes]
  note 4 = reads_D [OF reads_int64 [OF r(4)] 3 [THEN conjunct2, THEN conjunct2] 3 [THEN conjunct2, THEN conjunct1], simplified length_mem_bytes]
  note 5 = reads_D [OF reads_int [OF r(5)] 4 [THEN conjunct2, THEN conjunct2] 4 [THEN conjunct2, THEN conjunct1], simplified length_mem_bytes]
  note 6 = reads_D [OF reads_raw [OF refl] 5 [THEN conjunct2, THEN conjunct2] 5 [THEN conjunct2, THEN conjunct1]]
  show ?thesis
    using assms(2,3) 1 2 3 4 5 6 r(6)
    by (simp add: open_backup_version_def takeWhile_all length_bv_header del: word_bytes_numeral)
qed

lemma reads_file_meta:
  assumes "file_ok r" "read_file_num st \<le> number_of_files b" "valid (metadata_fp b)"
    "rest (metadata_fp b) = file_meta_bytes be r @ x"
  shows "\<exists>s. read_next_file_recipe_meta be b st = Some (r, b\<lparr>metadata_fp := s\<rparr>, st\<lparr>read_file_num := read_file_num st + 1\<rparr>)
     \<and> valid s \<and> rest s = x"
proof -
  have r: "int32_range (int (length (fr_filename r)))" "int64_range (fr_chunknum r)" "int64_range (fr_filesize r)"
    "takeWhile (\<lambda>b. b \<noteq> 0) (fr_filename r) = fr_filename r"
    using assms(1) by (auto simp: file_ok_def int32_range_def metabufsize_def takeWhile_all)
  have s0: "rest (metadata_fp b) = int_bytes be (int (length (fr_filename r))) @ fr_filename r
     @ int64_bytes be (fr_chunknum r) @ int64_bytes be (fr_filesize r) @ x"
    using assms(4) by (simp add: file_meta_bytes_def del: word_bytes_numeral)
  note 1 = reads_D [OF reads_int [OF r(1)] assms(3) s0, simplified length_mem_bytes]
  note 2 = reads_D [OF reads_raw [OF refl] 1 [THEN conjunct2, THEN conjunct2] 1 [THEN conjunct2, THEN conjunct1]]
  note 3 = reads_D [OF reads_int64 [OF r(2)] 2 [THEN conjunct2, THEN conjunct2] 2 [THEN conjunct2, THEN conjunct1], simplified length_mem_bytes]
  note 4 = reads_D [OF reads_int64 [OF r(3)] 3 [THEN conjunct2, THEN conjunct2] 3 [THEN conjunct2, THEN conjunct1], simplified length_mem_bytes]
  show ?thesis
    using assms(2) 1 2 3 4 r(4)
    by (cases r) (simp add: read_next_file_recipe_meta_def new_file_recipe_meta_def del: word_bytes_numeral,
        rule exI, rule conjI [OF refl], simp)
qed

lemma segs_items: "segs_bytes be segs = items_bytes be (concat (map seg_items segs))"
  by (induction segs) (auto simp: segs_bytes_def)

lemma segs_data:
  "\<forall>cps \<in> set segs. seg_ok cps \<Longrightarrow>
     filter (\<lambda>cp. \<not> boundary cp) (concat (map seg_items segs)) = concat segs
     \<and> (\<forall>cp \<in> set (concat (map seg_items segs)). ptr_ok cp)"
proof (induction segs)
  case Nil
  then show ?case by simp
next
  case (Cons cps segs)
  have "\<forall>cp \<in> set cps. \<not> boundary cp \<and> ptr_ok cp"
    using Cons.prems by (auto simp: seg_ok_def data_ptr_def boundary_def TEMPORARY_ID_def)
  moreover have "boundary (flag_ptr CHUNK_SEGMENT_START n)" "boundary (flag_ptr CHUNK_SEGMENT_END n)" for n
    by (simp_all add: boundary_def flag_ptr_def)
  moreover have "ptr_ok (flag_ptr CHUNK_SEGMENT_START (int (length cps)))" "ptr_ok (flag_ptr CHUNK_SEGMENT_END 0)"
    using Cons.prems flag_ptr_ok [of 0] flag_ptr_ok [of "int (length cps)"] by (auto simp: seg_ok_def int32_range_def)
  ultimately show ?case using Cons by (auto simp: seg_items_def filter_empty_conv filter_id_conv)
qed

text \<open>The file a restore job works on: the version written before, read back.\<close>

lemma open_after_update:
  assumes "bv_holds be b st rs segs" "bv_ok b" "update_backup_version be b st = (b', st')"
  shows "\<exists>r. open_backup_version be (free_backup_version b' fs) (bv_num b) = Some r
     \<and> bv_path r = bv_path b \<and> bv_deleted r = bv_deleted b
     \<and> number_of_files r = int (length rs) \<and> number_of_chunks r = int (length (concat segs))
     \<and> valid (metadata_fp r) \<and> rest (metadata_fp r) = files_bytes be rs
     \<and> recipe_fp r = \<lparr>s_bytes = segs_bytes be segs, s_pos = 0\<rparr>
     \<and> record_fp r = \<lparr>s_bytes = ids_bytes be (remdups_adj (map cp_id (concat segs)) @ [TEMPORARY_ID]), s_pos = 0\<rparr>"
proof -
  note u = update_holds [OF assms(1,3)]
  let ?f = "\<lparr>meta_bytes = s_bytes (metadata_fp b'), recipe_bytes = s_bytes (recipe_fp b'), records_bytes = s_bytes (record_fp b')\<rparr>"
  have "free_backup_version b' fs (bv_num b) = Some ?f" using u(4) by (simp add: free_backup_version_def)
  from open_header [where b = b and f = ?f and be = be and fs = "free_backup_version b' fs" and x = "files_bytes be rs", OF assms(2) this] u assms(1)
  show ?thesis by (auto simp: valid_def rest_def bv_holds_def)
qed

text \<open>An opened version with the pointers \<open>xs\<close> still to be read.\<close>

definition ptrs_left :: "bool \<Rightarrow> backupVersion \<Rightarrow> recipe_statics \<Rightarrow> chunkPointer list \<Rightarrow> bool" where
  "ptrs_left be r st xs =
     (valid (recipe_fp r) \<and> number_of_chunks r = read_chunk_num st + int (length xs)
      \<and> (\<exists>items. rest (recipe_fp r) = items_bytes be items \<and> (\<forall>cp \<in> set items. ptr_ok cp)
            \<and> filter (\<lambda>cp. \<not> boundary cp) items = xs))"

lemma ptrs_left_open:
  assumes "recipe_fp r = \<lparr>s_bytes = segs_bytes be segs, s_pos = 0\<rparr>" "\<forall>cps \<in> set segs. seg_ok cps"
    and "number_of_chunks r = int (length (concat segs))" "read_chunk_num st = 0"
  shows "ptrs_left be r st (concat segs)"
  using assms segs_data [OF assms(2)] unfolding ptrs_left_def
  by (auto simp: valid_def rest_def segs_items intro!: exI [of _ "concat (map seg_items segs)"])

lemma read_next_pointers:
  assumes "ptrs_left be r st xs" "0 \<le> n"
  shows "\<exists>s st'. read_next_n_chunk_pointers be r n st = Some (take (nat n) xs, r\<lparr>recipe_fp := s\<rparr>, st')
     \<and> ptrs_left be (r\<lparr>recipe_fp := s\<rparr>) st' (drop (nat n) xs) \<and> s_bytes s = s_bytes (recipe_fp r)"
proof (cases "xs = []")
  case True
  then have "read_chunk_num st = number_of_chunks r" using assms(1) by (simp add: ptrs_left_def)
  with True assms show ?thesis
    by (auto simp: read_next_n_chunk_pointers_def intro!: exI [of _ "recipe_fp r"] exI [of _ st])
next
  case False
  from assms(1) obtain items where i: "valid (recipe_fp r)" "rest (recipe_fp r) = items_bytes be items @ []"
    "\<forall>cp \<in> set items. ptr_ok cp" "filter (\<lambda>cp. \<not> boundary cp) items = xs"
    and num: "number_of_chunks r = read_chunk_num st + int (length xs)" by (auto simp: ptrs_left_def)
  let ?k = "min (nat n) (length xs)"
  from read_ptrs_items [OF i(1-3), of ?k] i(4) obtain s items' where
    s: "read_ptrs be ?k (recipe_fp r) = Some (take ?k xs, s)" "valid s" "rest s = items_bytes be items'"
      "\<forall>cp \<in> set items'. ptr_ok cp" "filter (\<lambda>cp. \<not> boundary cp) items' = drop ?k xs" "s_bytes s = s_bytes (recipe_fp r)"
    by auto
  have k: "(if number_of_chunks r - read_chunk_num st > n then n else number_of_chunks r - read_chunk_num st) = int ?k"
    using num assms(2) by (simp add: min_def) linarith
  have tk: "take ?k xs = take (nat n) xs" "drop ?k xs = drop (nat n) xs" by (simp_all add: min_def)
  let ?st = "st\<lparr>read_chunk_num := read_chunk_num st + int ?k\<rparr>"
  have "read_next_n_chunk_pointers be r n st = Some (take (nat n) xs, r\<lparr>recipe_fp := s\<rparr>, ?st)"
    unfolding read_next_n_chunk_pointers_def k using False num s(1) tk by simp
  moreover have "ptrs_left be (r\<lparr>recipe_fp := s\<rparr>) ?st (drop (nat n) xs)"
    using s(2-5) num tk by (auto simp: ptrs_left_def)
  ultimately show ?thesis using s(6) by blast
qed

text \<open>Reading pointers \<open>n\<close> at a time until the stream ends, as the restore threads do.\<close>

fun read_batches :: "bool \<Rightarrow> int \<Rightarrow> nat \<Rightarrow> backupVersion \<Rightarrow> recipe_statics \<Rightarrow> chunkPointer list option" where
  "read_batches be n 0 b st = None"
| "read_batches be n (Suc fuel) b st = do {
     (cps, b, st) \<leftarrow> read_next_n_chunk_pointers be b n st;
     if cps = [] then Some [] else do { more \<leftarrow> read_batches be n fuel b st; Some (cps @ more) }
   }"

lemma read_batches_all:
  "ptrs_left be r st xs \<Longrightarrow> 0 < n \<Longrightarrow> length xs < fuel \<Longrightarrow> read_batches be n fuel r st = Some xs"
proof (induction fuel arbitrary: r st xs)
  case 0
  then show ?case by simp
next
  case (Suc fuel)
  from read_next_pointers [OF Suc.prems(1), of n] Suc.prems(2) obtain s st' where
    "read_next_n_chunk_pointers be r n st = Some (take (nat n) xs, r\<lparr>recipe_fp := s\<rparr>, st')"
    "ptrs_left be (r\<lparr>recipe_fp := s\<rparr>) st' (drop (nat n) xs)" by auto
  moreover have "length (drop (nat n) xs) < fuel" if "xs \<noteq> []" using that Suc.prems by (cases xs) auto
  ultimately show ?case using Suc.IH [of "r\<lparr>recipe_fp := s\<rparr>" st' "drop (nat n) xs"] Suc.prems(2)
    by (cases "xs = []") auto
qed

text \<open>The access records of the version, read back in full.\<close>

lemma read_ids_bytes:
  "\<forall>i \<in> set is. int64_range i \<Longrightarrow> valid s \<Longrightarrow> rest s = ids_bytes be is @ x \<Longrightarrow> length is \<le> n \<Longrightarrow>
     n = length is \<or> x = [] \<Longrightarrow> \<exists>s'. read_ids be n s = (is, s')"
proof (induction "is" arbitrary: s n)
  case Nil
  have "read_ids be n s = ([], s)" if "n \<noteq> 0"
    using that Nil.prems(2,3,5) by (cases n) (auto simp: s_read_int64_def s_read_def rest_def ids_bytes_def)
  then show ?case by (cases n) auto
next
  case (Cons i "is")
  then obtain k where k: "n = Suc k" by (cases n) auto
  have r: "rest s = int64_bytes be i @ (ids_bytes be is @ x)" "int64_range i"
    using Cons.prems(1,3) by (auto simp: ids_bytes_def simp del: word_bytes_numeral)
  note d = reads_D [OF reads_int64 [OF r(2)] Cons.prems(2) r(1)]
  have "\<exists>s'. read_ids be k (skip (length (int64_bytes be i)) s) = (is, s')"
    by (rule Cons.IH) (use Cons.prems k d in auto)
  with d k show ?case by auto
qed

section \<open>Properties\<close>

text \<open>C36: a backup version that was created, filled with file records and segments, updated and
  closed can be opened again under its number; its counters are right and reading its chunk
  pointers in batches of any size gives the pointers of all segments in order.\<close>

theorem recipe_reopen:
  assumes "bv_holds be b st rs segs" "bv_ok b" "update_backup_version be b st = (b', st')"
    and "read_chunk_num st0 = 0" "0 < n" "length (concat segs) < fuel"
  shows "\<exists>r. open_backup_version be (free_backup_version b' fs) (bv_num b) = Some r
     \<and> bv_path r = bv_path b \<and> number_of_files r = int (length rs) \<and> number_of_chunks r = int (length (concat segs))
     \<and> rest (metadata_fp r) = files_bytes be rs \<and> read_batches be n fuel r st0 = Some (concat segs)"
proof -
  from open_after_update [OF assms(1-3), of fs] obtain r where
    r: "open_backup_version be (free_backup_version b' fs) (bv_num b) = Some r" "bv_path r = bv_path b"
      "number_of_files r = int (length rs)" "number_of_chunks r = int (length (concat segs))"
      "rest (metadata_fp r) = files_bytes be rs" "recipe_fp r = \<lparr>s_bytes = segs_bytes be segs, s_pos = 0\<rparr>" by blast
  have "\<forall>cps \<in> set segs. seg_ok cps" using assms(1) by (simp add: bv_holds_def)
  from read_batches_all [OF ptrs_left_open [OF r(6) this r(4) assms(4)] assms(5,6)] r show ?thesis by blast
qed

theorem recipe_reopen_witness:
  "\<exists>b st sid b1 st1 r. create_backup_version False [47, 97, 47] \<lparr>backup_version_count = 4, access_record = TEMPORARY_ID,
        read_file_num = 0, read_chunk_num = 0, records_end = False\<rparr> = Some (b, st)
     \<and> write_segment_recipe False (\<lambda>_. 0) [\<lparr>cp_fp = replicate 20 1, cp_id = 9, cp_size = 5\<rparr>] b st = Some (sid, b1, st1)
     \<and> open_backup_version False (free_backup_version (fst (update_backup_version False b1 st1)) Map.empty) 4 = Some r
     \<and> read_batches False 100 2 r st = Some [\<lparr>cp_fp = replicate 20 1, cp_id = 9, cp_size = 5\<rparr>]"
proof -
  let ?st0 = "\<lparr>backup_version_count = 4, access_record = TEMPORARY_ID, read_file_num = 0, read_chunk_num = 0, records_end = False\<rparr>"
  let ?cp = "\<lparr>cp_fp = replicate 20 1, cp_id = 9, cp_size = 5\<rparr>"
  obtain b st where c: "create_backup_version False [47, 97, 47] ?st0 = Some (b, st)" "read_chunk_num st = 0"
    by (simp add: create_backup_version_def dir_of_def get_next_version_number_def)
  from create_holds [OF c(1)] have h: "bv_holds False b st [] []" "bv_num b = 4" "bv_deleted b = 0" "bv_path b = [47, 97, 47]"
    by (simp_all add: dir_of_def)
  have ok: "seg_ok [?cp]" by (simp add: seg_ok_def data_ptr_def ptr_ok_def TEMPORARY_ID_def int64_range_def int32_range_def)
  from append_segment_holds [OF h(1) ok, of "\<lambda>_. 0"] obtain sid b1 st1 where
    s: "write_segment_recipe False (\<lambda>_. 0) [?cp] b st = Some (sid, b1, st1)" "bv_holds False b1 st1 [] [[?cp]]"
      "bv_num b1 = 4" "bv_deleted b1 = 0" "bv_path b1 = [47, 97, 47]" using h by auto
  obtain b2 st2 where u: "update_backup_version False b1 st1 = (b2, st2)" by fastforce
  have "bv_ok b1" using s by (simp add: bv_ok_def bv_holds_def int32_range_def int64_range_def)
  from recipe_reopen [OF s(2) this u c(2), of 100 2 Map.empty] c s u show ?thesis by auto
qed

text \<open>The three fields of a segment identifier are recovered from it, as long as the number
  of the backup has 15, the offset 32 and the size 16 bits.\<close>

theorem segment_id_fields:
  fixes bid off sz :: "64 word"
  assumes "bid < 2 ^ 15" "off < 2 ^ 32" "sz < 2 ^ 16"
  shows "id_to_bnum (make_segment_id bid off sz) = bid \<and> id_to_off (make_segment_id bid off sz) = off
     \<and> id_to_size (make_segment_id bid off sz) = sz"
  using make_segment_id_parts [OF assms] by blast

theorem segment_id_fields_witness:
  "id_to_bnum (make_segment_id 3 70000 1024) = 3 \<and> id_to_off (make_segment_id 3 70000 1024) = 70000
     \<and> id_to_size (make_segment_id 3 70000 1024) = 1024"
  by (rule segment_id_fields) simp_all


end
