(* ===== verification/Recipe_Segment.thy ===== *)
theory Recipe_Segment
  imports Recipe_Store
begin

unbundle bit_operations_syntax

text \<open>
  A backup version while a segment is being appended: the filter phase appends the chunk
  pointers of a segment one at a time and may append the record of a finished file between two
  of them. \<open>bv_open\<close> describes the version between two such calls; \<open>n\<close> is the announced number
  of chunks.
\<close>

definition bv_open ::
    "bool \<Rightarrow> backupVersion \<Rightarrow> recipe_statics \<Rightarrow> fileRecipeMeta list \<Rightarrow> chunkPointer list list \<Rightarrow> nat \<Rightarrow> chunkPointer list \<Rightarrow> bool" where
  "bv_open be b st rs segs n cps =
     (meta_holds be (bv_path b) (metadata_fp b) (metabuf b) rs
      \<and> s_bytes (recipe_fp b) = segs_bytes be segs \<and> at_end (recipe_fp b)
      \<and> records_hold be b st (map cp_id (concat segs @ cps))
      \<and> number_of_files b = int (length rs) \<and> number_of_chunks b = int (length (concat segs @ cps))
      \<and> (\<forall>cps \<in> set segs. seg_ok cps) \<and> (\<forall>r \<in> set rs. file_ok r) \<and> (\<forall>cp \<in> set cps. data_ptr cp)
      \<and> segmentbuf b = ptr_bytes be (flag_ptr CHUNK_SEGMENT_START (int n)) @ items_bytes be cps
      \<and> segmentlen b = 32 * (n + 2) \<and> int32_range (int n))"

definition same_version :: "backupVersion \<Rightarrow> backupVersion \<Rightarrow> bool" where
  "same_version b b' = (bv_path b' = bv_path b \<and> bv_num b' = bv_num b \<and> bv_deleted b' = bv_deleted b)"

lemma same_version_refl [simp]: "same_version b b"
  by (simp add: same_version_def)

lemma same_version_trans: "same_version a b \<Longrightarrow> same_version b c \<Longrightarrow> same_version a c"
  by (simp add: same_version_def)

lemma flag_ptr_bytes: "int32_range n \<Longrightarrow> length (ptr_bytes be (flag_ptr CHUNK_SEGMENT_START n)) = 32"
  "length (ptr_bytes be (flag_ptr CHUNK_SEGMENT_END 0)) = 32"
  using flag_ptr_ok [of 0] flag_ptr_ok [of n] by (auto simp: int32_range_def)

lemma open_segment:
  assumes "bv_holds be b st rs segs" "int32_range (int n)"
  shows "\<exists>b'. append_segment_flag be junk b CHUNK_SEGMENT_START (int n) =
       Some (sint (make_segment_id (word_of_int (bv_num b)) (of_nat (length (segs_bytes be segs))) (word_of_int (int n))), b')
     \<and> bv_open be b' st rs segs n [] \<and> same_version b b'"
proof -
  let ?st = "flag_ptr CHUNK_SEGMENT_START (int n)"
  let ?b0 = "b\<lparr>recipe_fp := (recipe_fp b)\<lparr>s_pos := length (s_bytes (recipe_fp b))\<rparr>,
     segmentlen := 32 * (n + 2), segmentbuf := ptr_bytes be ?st\<rparr>"
  have n: "nat (64 + int n * 32) = 64 + 32 * n" by simp
  have "append_segment_flag be junk b CHUNK_SEGMENT_START (int n)
      = Some (sint (make_segment_id (word_of_int (bv_num b)) (of_nat (length (s_bytes (recipe_fp b)))) (word_of_int (int n))), ?b0)"
    using flag_ptr_bytes(1) [OF assms(2), of be] n by (simp add: append_segment_flag_def segbuf_append_def flag_ptr_def Let_def)
  moreover have "bv_open be ?b0 st rs segs n []"
    using assms by (auto simp: bv_open_def bv_holds_def records_hold_def at_end_def)
  ultimately show ?thesis using assms(1) by (auto simp: same_version_def bv_holds_def)
qed

lemma open_pointer:
  assumes "bv_open be b st rs segs n cps" "data_ptr cp" "length cps < n"
  shows "\<exists>b' st'. append_n_chunk_pointers be b [cp] st = Some (b', st')
     \<and> bv_open be b' st' rs segs n (cps @ [cp]) \<and> same_version b b'"
proof -
  have o: "records_hold be b st (map cp_id (concat segs @ cps))" "\<forall>cps \<in> set segs. seg_ok cps" "\<forall>cp \<in> set cps. data_ptr cp"
    "segmentbuf b = ptr_bytes be (flag_ptr CHUNK_SEGMENT_START (int n)) @ items_bytes be cps" "segmentlen b = 32 * (n + 2)"
    "int32_range (int n)" using assms(1) by (auto simp: bv_open_def)
  have "length (items_bytes be cps) = 32 * length cps"
    using o(3) by (intro length_items_bytes) (auto simp: data_ptr_def)
  with o(4-6) assms(3) have room: "length (segmentbuf b) + 32 * length [cp] \<le> segmentlen b"
    using flag_ptr_bytes(1) [OF o(6), of be] by simp
  have nt: "TEMPORARY_ID \<notin> set (map cp_id (concat segs @ cps))"
    using ids_not_temporary [OF o(2)] o(3) by (auto simp: data_ptr_def)
  have cp: "\<forall>x \<in> set [cp]. data_ptr x" using assms(2) by simp
  from append_pointers [OF o(1) cp nt room] assms obtain b' st' where
    "append_n_chunk_pointers be b [cp] st = Some (b', st')" "bv_open be b' st' rs segs n (cps @ [cp])" "same_version b b'"
    by (auto simp: bv_open_def same_version_def)
  then show ?thesis by blast
qed

lemma open_file:
  assumes "bv_open be b st rs segs n cps" "file_ok r"
  shows "\<exists>b'. append_file_recipe_meta be b r = Some b' \<and> bv_open be b' st (rs @ [r]) segs n cps \<and> same_version b b'"
  using append_file_step [of be b rs r] assms by (auto simp: bv_open_def records_hold_def same_version_def)

lemma close_segment:
  assumes "bv_open be b st rs segs n cps" "length cps = n"
  shows "\<exists>b'. append_segment_flag be junk b CHUNK_SEGMENT_END 0 = Some (TEMPORARY_ID, b')
     \<and> bv_holds be b' st rs (segs @ [cps]) \<and> same_version b b'"
proof -
  let ?st = "flag_ptr CHUNK_SEGMENT_START (int n)" and ?en = "flag_ptr CHUNK_SEGMENT_END 0"
  have o: "segmentbuf b = ptr_bytes be ?st @ items_bytes be cps" "segmentlen b = 32 * (n + 2)" "int32_range (int n)"
    "at_end (recipe_fp b)" "\<forall>cp \<in> set cps. data_ptr cp" "s_bytes (recipe_fp b) = segs_bytes be segs"
    using assms(1) by (auto simp: bv_open_def)
  have len: "length (items_bytes be cps) = 32 * length cps"
    using o(5) by (intro length_items_bytes) (auto simp: data_ptr_def)
  let ?all = "ptr_bytes be ?st @ items_bytes be cps @ ptr_bytes be ?en"
  have all: "items_bytes be (seg_items cps) = ?all" using assms(2) by (simp add: seg_items_def)
  have pos: "recipe_fp b\<lparr>s_pos := length (s_bytes (recipe_fp b))\<rparr> = recipe_fp b" using o(4) by (simp add: at_end_def)
  have e: "append_segment_flag be junk b CHUNK_SEGMENT_END 0
      = Some (TEMPORARY_ID, b\<lparr>recipe_fp := s_write ?all (recipe_fp b), segmentbuf := [], segmentlen := 0\<rparr>)"
    using o(1,2) len flag_ptr_bytes(1) [OF o(3), of be] flag_ptr_bytes(2) [of be] assms(2)
    by (simp add: append_segment_flag_def segbuf_append_def flag_ptr_def pos Let_def)
  have "bv_holds be (b\<lparr>recipe_fp := s_write ?all (recipe_fp b), segmentbuf := [], segmentlen := 0\<rparr>) st rs (segs @ [cps])"
    using assms o(4,6) all by (auto simp: bv_holds_def bv_open_def segs_bytes_def seg_ok_def records_hold_def)
  with e show ?thesis by (simp add: same_version_def)
qed

end
