(* ===== verification/Kvstore.thy ===== *)
theory Kvstore
  imports Recipe_Store
begin

text \<open>
  The key-value store of the fingerprint index (\<^verbatim>\<open>src/destor/src/index/kvstore.c\<close> and
  \<^verbatim>\<open>kvstore_htable.c\<close>): a table from features (the first \<open>index_key_size\<close> bytes of a fingerprint)
  to the last \<open>index_value_length\<close> containers or segments that hold them, newest first, and
  its dump file. The configuration has \<open>index_value_length \<ge> 1\<close>.
\<close>

type_synonym kvstore = "(byte list, int list) ghash"

section \<open>Operations\<close>

definition new_kvpair_full :: "destor \<Rightarrow> byte list \<Rightarrow> byte list \<times> int list" where
  "new_kvpair_full d key = (take (index_key_size d) key, replicate (index_value_length d) TEMPORARY_ID)"

definition new_kvpair :: "destor \<Rightarrow> int list" where
  "new_kvpair d = replicate (index_value_length d) TEMPORARY_ID"

definition kv_update :: "destor \<Rightarrow> int list \<Rightarrow> int \<Rightarrow> int list" where
  "kv_update d value i = i # take (index_value_length d - 1) value"

definition kvstore_htable_lookup :: "destor \<Rightarrow> kvstore \<Rightarrow> byte list \<Rightarrow> int list option" where
  "kvstore_htable_lookup d t key = map_of t (take (index_key_size d) key)"

definition kvstore_htable_update :: "destor \<Rightarrow> kvstore \<Rightarrow> byte list \<Rightarrow> int \<Rightarrow> kvstore" where
  "kvstore_htable_update d t key i =
     (let value = (case kvstore_htable_lookup d t key of Some v \<Rightarrow> v | None \<Rightarrow> snd (new_kvpair_full d key))
      in AList.update (take (index_key_size d) key) (kv_update d value i) t)"

text \<open>The loop stops at the first occurrence of the identifier. The \<open>memmove\<close> after the assertion
  is never reached: its condition contradicts the assertion.\<close>

fun remove_id :: "int list \<Rightarrow> int \<Rightarrow> int list option" where
  "remove_id [] i = Some []"
| "remove_id (v # vs) i =
     (if v = i
      then do { assertion (vs = [] \<or> hd vs = TEMPORARY_ID); Some (TEMPORARY_ID # vs) }
      else map_option ((#) v) (remove_id vs i))"

definition kvstore_htable_delete :: "destor \<Rightarrow> kvstore \<Rightarrow> byte list \<Rightarrow> int \<Rightarrow> kvstore option" where
  "kvstore_htable_delete d t key i =
     (case kvstore_htable_lookup d t key of
        None \<Rightarrow> Some t
      | Some value \<Rightarrow> do {
          value \<leftarrow> remove_id value i;
          Some (if hd value = TEMPORARY_ID then AList.delete (take (index_key_size d) key) t
                else AList.update (take (index_key_size d) key) value t)
        })"

section \<open>The dump file\<close>

definition kv_bytes :: "bool \<Rightarrow> destor \<Rightarrow> byte list \<times> int list \<Rightarrow> byte list" where
  "kv_bytes be d = (\<lambda>(key, value). take (index_key_size d) key @ int_bytes be (int (index_value_length d))
     @ concat (map (int64_bytes be) (take (index_value_length d) value)))"

definition close_kvstore_htable ::
    "bool \<Rightarrow> (kvstore \<Rightarrow> kvstore) \<Rightarrow> destor \<Rightarrow> kvstore \<Rightarrow> byte list" where
  "close_kvstore_htable be ord d t =
     int_bytes be (int (length t)) @ concat (map (kv_bytes be d) (ord t))"

fun read_values :: "bool \<Rightarrow> nat \<Rightarrow> stream \<Rightarrow> (int list \<times> stream) option" where
  "read_values be 0 s = Some ([], s)"
| "read_values be (Suc n) s = do {
     (v, s) \<leftarrow> s_read_int64 be s;
     (vs, s) \<leftarrow> read_values be n s;
     Some (v # vs, s)
   }"

definition read_kvpair :: "bool \<Rightarrow> destor \<Rightarrow> stream \<Rightarrow> ((byte list \<times> int list) \<times> stream) option" where
  "read_kvpair be d s = do {
     (key, s) \<leftarrow> s_read (index_key_size d) s;
     (id_num, s) \<leftarrow> s_read_int be s;
     _ \<leftarrow> assertion (id_num \<le> int (index_value_length d));
     (vs, s) \<leftarrow> read_values be (nat id_num) s;
     Some ((key, vs @ drop (nat id_num) (new_kvpair d)), s)
   }"

fun read_kvpairs_file :: "bool \<Rightarrow> destor \<Rightarrow> nat \<Rightarrow> stream \<Rightarrow> kvstore \<Rightarrow> kvstore option" where
  "read_kvpairs_file be d 0 s t = Some t"
| "read_kvpairs_file be d (Suc n) s t = do {
     ((key, value), s) \<leftarrow> read_kvpair be d s;
     read_kvpairs_file be d n s (AList.update key value t)
   }"

definition init_kvstore_htable :: "bool \<Rightarrow> destor \<Rightarrow> byte list option \<Rightarrow> kvstore option" where
  "init_kvstore_htable be d f =
     (case f of
        None \<Rightarrow> Some []
      | Some bs \<Rightarrow> do {
          (key_num, s) \<leftarrow> s_read_int be \<lparr>s_bytes = bs, s_pos = 0\<rparr>;
          read_kvpairs_file be d (nat key_num) s []
        })"

section \<open>Invariant\<close>

definition kv_inv :: "destor \<Rightarrow> kvstore \<Rightarrow> bool" where
  "kv_inv d t = (distinct (map fst t)
     \<and> (\<forall>(key, value) \<in> set t. length key = index_key_size d \<and> length value = index_value_length d
           \<and> hd value \<noteq> TEMPORARY_ID))"

lemma kv_inv_lookup:
  "kv_inv d t \<Longrightarrow> kvstore_htable_lookup d t key = Some v \<Longrightarrow>
     length v = index_value_length d \<and> hd v \<noteq> TEMPORARY_ID"
  by (auto simp: kv_inv_def kvstore_htable_lookup_def dest!: map_of_SomeD)

lemma length_kv_update:
  "length v = index_value_length d \<Longrightarrow> index_value_length d \<ge> 1 \<Longrightarrow> length (kv_update d v i) = index_value_length d"
  by (simp add: kv_update_def)

lemma set_update_subset: "set (AList.update k v t) \<subseteq> insert (k, v) (set t)"
  by (induction t) auto

lemma kv_inv_AList_update:
  "kv_inv d t \<Longrightarrow> length k = index_key_size d \<Longrightarrow> length v = index_value_length d \<Longrightarrow> hd v \<noteq> TEMPORARY_ID \<Longrightarrow>
     kv_inv d (AList.update k v t)"
  using set_update_subset [of k v t] by (fastforce simp: kv_inv_def distinct_update)

lemma kv_inv_update:
  assumes "kv_inv d t" "index_value_length d \<ge> 1" "i \<noteq> TEMPORARY_ID" "index_key_size d \<le> length key"
  shows "kv_inv d (kvstore_htable_update d t key i)"
proof -
  let ?v = "case kvstore_htable_lookup d t key of Some v \<Rightarrow> v | None \<Rightarrow> snd (new_kvpair_full d key)"
  have "length ?v = index_value_length d"
    using kv_inv_lookup [OF assms(1)] by (auto simp: new_kvpair_full_def split: option.splits)
  with assms show ?thesis
    by (auto simp: kvstore_htable_update_def Let_def kv_update_def intro!: kv_inv_AList_update)
qed

lemma length_remove_id: "remove_id v i = Some v' \<Longrightarrow> length v' = length v"
  by (induction v arbitrary: v') (auto simp: assertion_def split: if_splits)

lemma kv_inv_delete:
  assumes "kv_inv d t" "kvstore_htable_delete d t key i = Some t'" "index_key_size d \<le> length key"
  shows "kv_inv d t'"
proof (cases "kvstore_htable_lookup d t key")
  case None
  with assms show ?thesis by (simp add: kvstore_htable_delete_def)
next
  case (Some v)
  with assms(2) obtain v' where v': "remove_id v i = Some v'"
    "t' = (if hd v' = TEMPORARY_ID then AList.delete (take (index_key_size d) key) t
           else AList.update (take (index_key_size d) key) v' t)"
    by (auto simp: kvstore_htable_delete_def bind_eq_Some_conv)
  have "kv_inv d (AList.delete k t)" for k
    using assms(1) by (auto simp: kv_inv_def intro: distinct_delete) (auto simp: AList.delete_eq)
  with v' kv_inv_lookup [OF assms(1) Some] length_remove_id [OF v'(1)] assms(1,3) show ?thesis
    by (auto intro!: kv_inv_AList_update)
qed

section \<open>Behaviour\<close>

lemma lookup_update_same:
  "kvstore_htable_lookup d (kvstore_htable_update d t key i) key =
     Some (i # take (index_value_length d - 1)
       (case kvstore_htable_lookup d t key of Some v \<Rightarrow> v | None \<Rightarrow> replicate (index_value_length d) TEMPORARY_ID))"
  by (simp add: kvstore_htable_lookup_def kvstore_htable_update_def Let_def update_conv' kv_update_def new_kvpair_full_def split: option.splits)

lemma lookup_update_other:
  "take (index_key_size d) key \<noteq> take (index_key_size d) key' \<Longrightarrow>
     kvstore_htable_lookup d (kvstore_htable_update d t key i) key' = kvstore_htable_lookup d t key'"
  by (simp add: kvstore_htable_lookup_def kvstore_htable_update_def Let_def update_conv')

text \<open>After a history of updates a key maps to the last \<open>index_value_length\<close> identifiers it was
  updated with, newest first.\<close>

definition history :: "destor \<Rightarrow> (byte list \<times> int) list \<Rightarrow> byte list \<Rightarrow> int list" where
  "history d us key = rev (map snd (filter (\<lambda>u. take (index_key_size d) (fst u) = take (index_key_size d) key) us))"

definition kv_run :: "destor \<Rightarrow> (byte list \<times> int) list \<Rightarrow> kvstore" where
  "kv_run d us = fold (\<lambda>(key, i) t. kvstore_htable_update d t key i) us []"

lemma kv_run_history:
  assumes "index_value_length d \<ge> 1"
  shows "kvstore_htable_lookup d (kv_run d us) key =
     (if history d us key = [] then None
      else Some (take (index_value_length d) (history d us key @ replicate (index_value_length d) TEMPORARY_ID)))"
proof (induction us rule: rev_induct)
  case Nil
  then show ?case by (simp add: kv_run_def history_def kvstore_htable_lookup_def)
next
  case (snoc u us)
  obtain k i where u: "u = (k, i)" by (cases u)
  have run: "kv_run d (us @ [u]) = kvstore_htable_update d (kv_run d us) k i" by (simp add: kv_run_def u)
  show ?case
  proof (cases "take (index_key_size d) k = take (index_key_size d) key")
    case True
    then have h: "history d (us @ [u]) key = i # history d us key" by (simp add: history_def u)
    have k: "kvstore_htable_lookup d t k = kvstore_htable_lookup d t key" for t
      using True by (simp add: kvstore_htable_lookup_def)
    obtain m where n: "index_value_length d = Suc m" using assms by (cases "index_value_length d") auto
    show ?thesis using lookup_update_same [of d "kv_run d us" k i] snoc
      unfolding run h k n by (cases "history d us key = []") (simp_all del: take_append replicate_Suc)
  next
    case False
    then have "history d (us @ [u]) key = history d us key" by (simp add: history_def u)
    with lookup_update_other [OF False] snoc run show ?thesis by simp
  qed
qed

lemma remove_id_absent: "i \<notin> set v \<Longrightarrow> remove_id v i = Some v"
  by (induction v) auto

text \<open>Deleting in FIFO order: the identifier stored last among the live ones can always be
  removed, and only it.\<close>

lemma remove_id_last:
  "i \<notin> set vs \<Longrightarrow> remove_id (vs @ i # replicate n TEMPORARY_ID) i = Some (vs @ TEMPORARY_ID # replicate n TEMPORARY_ID)"
  by (induction vs) (auto simp: assertion_def, cases n, auto)

section \<open>Dump and reload\<close>

lemma reads_values:
  "\<forall>v \<in> set vs. int64_range v \<Longrightarrow> reads (read_values be (length vs)) (concat (map (int64_bytes be) vs)) vs"
proof (induction vs)
  case Nil
  then show ?case by (simp add: reads_def)
next
  case (Cons v vs)
  then have v: "int64_range v" and vs: "reads (read_values be (length vs)) (concat (map (int64_bytes be) vs)) vs" by auto
  have "reads (read_values be (length (v # vs))) (int64_bytes be v @ concat (map (int64_bytes be) vs) @ []) (v # vs)"
    unfolding read_values.simps list.size add_Suc_right add_0_right plus_1_eq_Suc
    by (rule reads_bind, rule reads_int64 [OF v], rule reads_bind, rule vs, rule reads_return)
  then show ?case by (simp del: read_values.simps)
qed

lemma reads_assertion: "b \<Longrightarrow> reads g bs v \<Longrightarrow> reads (\<lambda>s. assertion b \<bind> (\<lambda>_. g s)) bs v"
  by (simp add: assertion_def)

definition kv_ok :: "destor \<Rightarrow> byte list \<times> int list \<Rightarrow> bool" where
  "kv_ok d = (\<lambda>(key, value). length key = index_key_size d \<and> length value = index_value_length d
     \<and> (\<forall>v \<in> set value. int64_range v))"

lemma reads_kvpair:
  assumes "kv_ok d kv" "int32_range (int (index_value_length d))"
  shows "reads (read_kvpair be d) (kv_bytes be d kv) kv"
proof -
  obtain key vs where kv: "kv = (key, vs)" by (cases kv)
  have o: "length key = index_key_size d" "length vs = index_value_length d" "\<forall>v \<in> set vs. int64_range v"
    using assms(1) by (auto simp: kv_ok_def kv)
  have rv: "reads (read_values be (nat (int (index_value_length d)))) (concat (map (int64_bytes be) vs)) vs"
    using reads_values [OF o(3), of be] o(2) by simp
  have "reads (read_kvpair be d) (key @ int_bytes be (int (index_value_length d)) @ concat (map (int64_bytes be) vs) @ [])
     (key, vs @ drop (nat (int (index_value_length d))) (new_kvpair d))"
    unfolding read_kvpair_def [abs_def]
    by (rule reads_bind, rule reads_raw, simp add: o, rule reads_bind, rule reads_int [OF assms(2)],
        rule reads_assertion, simp, rule reads_bind, rule rv, rule reads_return)
  then show ?thesis using o by (simp add: kv kv_bytes_def new_kvpair_def del: word_bytes_numeral)
qed

lemma read_kvpairs_file_bytes:
  assumes "\<forall>kv \<in> set kvs. kv_ok d kv" "int32_range (int (index_value_length d))"
    and "valid s" "rest s = concat (map (kv_bytes be d) kvs)"
  shows "read_kvpairs_file be d (length kvs) s t = Some (fold (\<lambda>(key, value) t. AList.update key value t) kvs t)"
  using assms
proof (induction kvs arbitrary: s t)
  case Nil
  then show ?case by simp
next
  case (Cons kv kvs)
  from reads_D [OF reads_kvpair [OF _ Cons.prems(2)], of kv s be "concat (map (kv_bytes be d) kvs)"] Cons.prems
  have "read_kvpair be d s = Some (kv, skip (length (kv_bytes be d kv)) s)"
    "rest (skip (length (kv_bytes be d kv)) s) = concat (map (kv_bytes be d) kvs)"
    "valid (skip (length (kv_bytes be d kv)) s)" by auto
  with Cons.IH Cons.prems(1,2) show ?case by (cases kv) simp
qed

lemma map_of_fold_AList_update:
  "distinct (map fst kvs) \<Longrightarrow> map_of (fold (\<lambda>(k, v) t. AList.update k v t) kvs t) = map_of t ++ map_of kvs"
proof (induction kvs arbitrary: t)
  case Nil
  then show ?case by simp
next
  case (Cons kv kvs)
  obtain k v where "kv = (k, v)" by (cases kv)
  with Cons show ?case by (auto simp: update_conv' map_add_upd_left fun_eq_iff map_add_def dest!: map_of_SomeD split: option.splits intro: rev_image_eqI)
qed

lemma kvstore_reload:
  assumes "kv_inv d t" "\<forall>(key, value) \<in> set t. \<forall>v \<in> set value. int64_range v"
    and "int32_range (int (index_value_length d))" "int32_range (int (length t))" "mset (ord t) = mset t"
  shows "\<exists>t'. init_kvstore_htable be d (Some (close_kvstore_htable be ord d t)) = Some t' \<and> map_of t' = map_of t"
proof -
  let ?s = "\<lparr>s_bytes = close_kvstore_htable be ord d t, s_pos = 0\<rparr>"
  have st: "set (ord t) = set t" "length (ord t) = length t" using assms(5) by (metis set_mset_mset, metis size_mset)
  have ok: "\<forall>kv \<in> set (ord t). kv_ok d kv" using assms(1,2) st by (auto simp: kv_ok_def kv_inv_def)
  have "distinct (map fst (ord t))" "distinct (map fst t)"
    using assms(1,5) mset_eq_imp_distinct_iff [of "map fst (ord t)" "map fst t"] by (auto simp: kv_inv_def)
  then have m: "map_of (fold (\<lambda>(k, v) t. AList.update k v t) (ord t) []) = map_of t"
    using map_of_fold_AList_update [of "ord t" "[]"] st by (auto intro: map_of_eqI simp: map_of_inject_set)
  have r: "valid ?s" "rest ?s = int_bytes be (int (length t)) @ concat (map (kv_bytes be d) (ord t))"
    by (simp_all add: valid_def rest_def close_kvstore_htable_def)
  note d = reads_D [OF reads_int [OF assms(4)] r]
  from read_kvpairs_file_bytes [OF ok assms(3)] d st(2) m show ?thesis
    by (auto simp: init_kvstore_htable_def)
qed

section \<open>Properties\<close>

text \<open>after any sequence of updates the store gives for a key the identifiers that were stored
  under it, the latest first, as many as a value holds, padded with \<open>TEMPORARY_ID\<close>; keys that
  agree on the first \<open>index_key_size\<close> bytes are the same key.\<close>

theorem kvstore_history:
  assumes "index_value_length d \<ge> 1"
  shows "kvstore_htable_lookup d (kv_run d us) key =
     (if history d us key = [] then None
      else Some (take (index_value_length d) (history d us key @ replicate (index_value_length d) TEMPORARY_ID)))"
  using kv_run_history [OF assms] .

theorem kvstore_history_witness:
  "kvstore_htable_lookup (destor_start_config\<lparr>index_key_size := 1, index_value_length := 2\<rparr>)
     (kv_run (destor_start_config\<lparr>index_key_size := 1, index_value_length := 2\<rparr>)
        [([7, 1], 10), ([8, 1], 11), ([7, 2], 12), ([7, 3], 13)]) [7, 9] = Some [13, 12]"
  using kvstore_history [of "destor_start_config\<lparr>index_key_size := 1, index_value_length := 2\<rparr>"
      "[([7, 1], 10), ([8, 1], 11), ([7, 2], 12), ([7, 3], 13)]" "[7, 9]"]
  by (simp add: history_def)

text \<open>the store written by \<open>close_kvstore_htable\<close>, in whatever order the table is walked, is
  read back by \<open>init_kvstore_htable\<close> as the same map.\<close>

theorem kvstore_close_init:
  assumes "kv_inv d t" "\<forall>(key, value) \<in> set t. \<forall>v \<in> set value. int64_range v"
    and "int32_range (int (index_value_length d))" "int32_range (int (length t))" "mset (ord t) = mset t"
  shows "\<exists>t'. init_kvstore_htable be d (Some (close_kvstore_htable be ord d t)) = Some t' \<and> map_of t' = map_of t"
  using kvstore_reload [where ord = ord, OF assms] .

theorem kvstore_close_init_witness:
  "\<exists>t'. init_kvstore_htable False (destor_start_config\<lparr>index_key_size := 1, index_value_length := 2\<rparr>)
       (Some (close_kvstore_htable False rev (destor_start_config\<lparr>index_key_size := 1, index_value_length := 2\<rparr>)
          [([7], [12, 10]), ([8], [11, TEMPORARY_ID])])) = Some t'
     \<and> map_of t' = map_of [([7], [12, 10]), ([8], [11, TEMPORARY_ID])]"
  by (rule kvstore_close_init)
    (simp_all add: kv_inv_def int64_range_def int32_range_def TEMPORARY_ID_def)

end
