(* ===== verification/Segmenting.thy ===== *)
theory Segmenting
  imports Destor
begin

unbundle bit_operations_syntax

text \<open>
  Grouping the chunk stream into segments (\<^verbatim>\<open>src/destor/src/index/segmenting_method.c\<close>) and
  marking them in the queue to the rewrite phase (\<open>send_segment\<close> of
  \<^verbatim>\<open>src/destor/src/dedup_phase.c\<close>). The static variable \<open>tmp\<close> of each method is the state; a call
  returns a finished segment or \<open>NULL\<close> (\<open>None\<close>). The call with \<open>NULL\<close> ends the stream.
\<close>

section \<open>Methods\<close>

type_synonym segmenter = "chunk option \<Rightarrow> segment option \<Rightarrow> segment option \<times> segment option"

definition cur_segment :: "segment option \<Rightarrow> segment" where
  "cur_segment tmp = (case tmp of None \<Rightarrow> new_segment | Some s \<Rightarrow> s)"

definition seg_append :: "chunk \<Rightarrow> segment \<Rightarrow> segment" where
  "seg_append c s = s\<lparr>sg_chunks := sg_chunks s @ [c]\<rparr>"

definition seg_count :: "segment \<Rightarrow> segment" where
  "seg_count s = s\<lparr>sg_chunk_num := sg_chunk_num s + 1\<rparr>"

definition segment_fixed :: "destor \<Rightarrow> segmenter" where
  "segment_fixed d c0 tmp0 =
     (let tmp = cur_segment tmp0 in
      case c0 of
        None \<Rightarrow> (Some tmp, Some tmp)
      | Some c \<Rightarrow>
          let tmp = seg_append c tmp in
          if is_file_signal c then (None, Some tmp)
          else let tmp = seg_count tmp in
               if sg_chunk_num tmp = index_segment_algorithm1 d then (Some tmp, None)
               else (None, Some tmp))"

definition segment_file_defined :: "segmenter" where
  "segment_file_defined c0 tmp0 =
     (let tmp = cur_segment tmp0 in
      case c0 of
        None \<Rightarrow> (Some tmp, Some tmp)
      | Some c \<Rightarrow>
          let tmp = seg_append c tmp in
          if CHECK_CHUNK c CHUNK_FILE_END then (Some tmp, None)
          else if CHECK_CHUNK c CHUNK_FILE_START then (None, Some tmp)
          else (None, Some (seg_count tmp)))"

text \<open>\<open>*(int* )&c->fp[16]\<close>: the last four bytes of the fingerprint as a signed integer of the
  host; \<open>%\<close> truncates towards zero, which does not matter for the comparison with 0.\<close>

definition fp_head :: "bool \<Rightarrow> fingerprint \<Rightarrow> int" where
  "fp_head be fp = sint (mem_word be (take 4 (drop 16 fp)) :: 32 word)"

definition segment_content_defined :: "bool \<Rightarrow> destor \<Rightarrow> segmenter" where
  "segment_content_defined be d c0 tmp0 =
     (let tmp = cur_segment tmp0 in
      case c0 of
        None \<Rightarrow> (Some tmp, Some tmp)
      | Some c \<Rightarrow>
          if is_file_signal c then (None, Some (seg_append c tmp))
          else if sg_chunk_num tmp < index_segment_min d then (None, Some (seg_count (seg_append c tmp)))
          else if fp_head be (ck_fp c) mod index_segment_algorithm1 d = 0
          then (Some tmp, Some (seg_count (seg_append c new_segment)))
          else let tmp = seg_count (seg_append c tmp) in
               if sg_chunk_num tmp \<ge> index_segment_max d then (Some tmp, Some new_segment)
               else (None, Some tmp))"

definition segmenting :: "bool \<Rightarrow> destor \<Rightarrow> segmenter" where
  "segmenting be d = (case index_segment_algorithm0 d of
      INDEX_SEGMENT_FIXED \<Rightarrow> segment_fixed d
    | INDEX_SEGMENT_CONTENT_DEFINED \<Rightarrow> segment_content_defined be d
    | INDEX_SEGMENT_FILE_DEFINED \<Rightarrow> segment_file_defined)"

section \<open>The whole stream\<close>

text \<open>The loop of \<open>dedup_thread\<close> around a segmenting method: the segments in the order they are
  sent, the last one by the call that ends the stream.\<close>

fun segment_stream :: "segmenter \<Rightarrow> chunk list \<Rightarrow> segment option \<Rightarrow> segment list" where
  "segment_stream m [] tmp = (case fst (m None tmp) of None \<Rightarrow> [] | Some s \<Rightarrow> [s])"
| "segment_stream m (c # cs) tmp =
     (case m (Some c) tmp of
        (None, tmp') \<Rightarrow> segment_stream m cs tmp'
      | (Some s, tmp') \<Rightarrow> s # segment_stream m cs tmp')"

definition data_chunks :: "chunk list \<Rightarrow> chunk list" where
  "data_chunks cs = filter (\<lambda>c. \<not> is_file_signal c) cs"

definition segment_wf :: "segment \<Rightarrow> bool" where
  "segment_wf s = (sg_chunk_num s = int (length (data_chunks (sg_chunks s))))"

lemma data_chunks_append [simp]: "data_chunks (xs @ ys) = data_chunks xs @ data_chunks ys"
  by (simp add: data_chunks_def)

text \<open>The contract of a segmenting method: the chunks it was given are in the segments it
  returned and in the one it is filling, in order, and the counter of every segment is
  right.\<close>

locale segmenter =
  fixes m :: segmenter
  assumes feed: "m (Some c) tmp = (r, tmp') \<Longrightarrow>
      (case r of None \<Rightarrow> [] | Some s \<Rightarrow> sg_chunks s) @ sg_chunks (cur_segment tmp') = sg_chunks (cur_segment tmp) @ [c]"
    and feed_wf: "m (Some c) tmp = (r, tmp') \<Longrightarrow> segment_wf (cur_segment tmp) \<Longrightarrow>
      segment_wf (cur_segment tmp') \<and> (\<forall>s. r = Some s \<longrightarrow> segment_wf s)"
    and finish: "fst (m None tmp) = Some (cur_segment tmp)"
begin

lemma stream_chunks: "concat (map sg_chunks (segment_stream m cs tmp)) = sg_chunks (cur_segment tmp) @ cs"
proof (induction cs arbitrary: tmp)
  case Nil
  then show ?case by (simp add: finish)
next
  case (Cons c cs)
  obtain r tmp' where m: "m (Some c) tmp = (r, tmp')" by (cases "m (Some c) tmp")
  from feed [OF m] Cons.IH [of tmp'] m show ?case by (cases r) auto
qed

lemma stream_wf: "segment_wf (cur_segment tmp) \<Longrightarrow> s \<in> set (segment_stream m cs tmp) \<Longrightarrow> segment_wf s"
proof (induction cs arbitrary: tmp)
  case Nil
  then show ?case by (simp add: finish)
next
  case (Cons c cs)
  obtain r tmp' where m: "m (Some c) tmp = (r, tmp')" by (cases "m (Some c) tmp")
  from feed_wf [OF m Cons.prems(1)] Cons.IH [of tmp'] Cons.prems(2) m show ?case by (cases r) auto
qed

end

lemmas segment_simps = cur_segment_def seg_append_def seg_count_def Let_def

lemma new_segment_wf [simp]: "segment_wf new_segment"
  by (simp add: segment_wf_def new_segment_def data_chunks_def)

lemma seg_append_wf:
  "segment_wf s \<Longrightarrow> is_file_signal c \<Longrightarrow> segment_wf (seg_append c s)"
  "segment_wf s \<Longrightarrow> \<not> is_file_signal c \<Longrightarrow> segment_wf (seg_count (seg_append c s))"
  by (auto simp: segment_wf_def segment_simps data_chunks_def)

interpretation fixed: segmenter "segment_fixed d"
proof
  fix c tmp r tmp'
  assume m: "segment_fixed d (Some c) tmp = (r, tmp')"
  show "(case r of None \<Rightarrow> [] | Some s \<Rightarrow> sg_chunks s) @ sg_chunks (cur_segment tmp') = sg_chunks (cur_segment tmp) @ [c]"
    using m by (auto simp: segment_fixed_def segment_simps new_segment_def split: if_splits option.splits)
  show "segment_wf (cur_segment tmp) \<Longrightarrow> segment_wf (cur_segment tmp') \<and> (\<forall>s. r = Some s \<longrightarrow> segment_wf s)"
    using m seg_append_wf [of "cur_segment tmp" c]
    by (auto simp: segment_fixed_def Let_def cur_segment_def [of "Some _"] cur_segment_def [of None] split: if_splits)
next
  fix tmp
  show "fst (segment_fixed d None tmp) = Some (cur_segment tmp)" by (simp add: segment_fixed_def Let_def)
qed

interpretation file_defined: segmenter segment_file_defined
proof
  fix c tmp r tmp'
  assume m: "segment_file_defined (Some c) tmp = (r, tmp')"
  show "(case r of None \<Rightarrow> [] | Some s \<Rightarrow> sg_chunks s) @ sg_chunks (cur_segment tmp') = sg_chunks (cur_segment tmp) @ [c]"
    using m by (auto simp: segment_file_defined_def segment_simps new_segment_def split: if_splits option.splits)
  show "segment_wf (cur_segment tmp) \<Longrightarrow> segment_wf (cur_segment tmp') \<and> (\<forall>s. r = Some s \<longrightarrow> segment_wf s)"
    using m seg_append_wf [of "cur_segment tmp" c]
    by (auto simp: segment_file_defined_def Let_def cur_segment_def [of "Some _"] cur_segment_def [of None] split: if_splits)
next
  fix tmp
  show "fst (segment_file_defined None tmp) = Some (cur_segment tmp)" by (simp add: segment_file_defined_def Let_def)
qed

interpretation content_defined: segmenter "segment_content_defined be d"
proof
  fix c tmp r tmp'
  assume m: "segment_content_defined be d (Some c) tmp = (r, tmp')"
  show "(case r of None \<Rightarrow> [] | Some s \<Rightarrow> sg_chunks s) @ sg_chunks (cur_segment tmp') = sg_chunks (cur_segment tmp) @ [c]"
    using m by (auto simp: segment_content_defined_def segment_simps new_segment_def split: if_splits option.splits)
  show "segment_wf (cur_segment tmp) \<Longrightarrow> segment_wf (cur_segment tmp') \<and> (\<forall>s. r = Some s \<longrightarrow> segment_wf s)"
    using m seg_append_wf [of "cur_segment tmp" c] seg_append_wf [of new_segment c]
    by (auto simp: segment_content_defined_def Let_def cur_segment_def [of "Some _"] cur_segment_def [of None] split: if_splits)
next
  fix tmp
  show "fst (segment_content_defined be d None tmp) = Some (cur_segment tmp)"
    by (simp add: segment_content_defined_def Let_def)
qed

lemma segmenting_stream_chunks: "concat (map sg_chunks (segment_stream (segmenting be d) cs None)) = cs"
proof -
  have e: "sg_chunks (cur_segment None) = []" by (simp add: cur_segment_def new_segment_def)
  show ?thesis
    by (cases "index_segment_algorithm0 d")
       (simp_all add: segmenting_def fixed.stream_chunks file_defined.stream_chunks content_defined.stream_chunks e)
qed

lemma segmenting_stream_wf: "s \<in> set (segment_stream (segmenting be d) cs None) \<Longrightarrow> segment_wf s"
proof -
  assume s: "s \<in> set (segment_stream (segmenting be d) cs None)"
  have e: "segment_wf (cur_segment None)" by (simp add: cur_segment_def)
  show ?thesis
    using s fixed.stream_wf [OF e] file_defined.stream_wf [OF e] content_defined.stream_wf [OF e]
    by (cases "index_segment_algorithm0 d") (simp_all add: segmenting_def)
qed

section \<open>Sizes\<close>

text \<open>Fixed segmenting closes a segment at the configured number of chunks.\<close>

lemma fixed_sizes:
  assumes "index_segment_algorithm1 d > 0"
  shows "sg_chunk_num (cur_segment tmp) < index_segment_algorithm1 d \<Longrightarrow>
    segment_stream (segment_fixed d) cs tmp = ss @ [s] \<Longrightarrow>
    (\<forall>x \<in> set ss. sg_chunk_num x = index_segment_algorithm1 d) \<and> sg_chunk_num s < index_segment_algorithm1 d"
proof (induction cs arbitrary: tmp ss)
  case Nil
  then show ?case by (simp add: segment_fixed_def Let_def)
next
  case (Cons c cs)
  obtain r tmp' where m: "segment_fixed d (Some c) tmp = (r, tmp')" by (cases "segment_fixed d (Some c) tmp")
  have small: "sg_chunk_num (cur_segment tmp') < index_segment_algorithm1 d"
    using m Cons.prems(1) assms by (auto simp: segment_fixed_def segment_simps new_segment_def split: if_splits option.splits)
  have full: "r = Some x \<Longrightarrow> sg_chunk_num x = index_segment_algorithm1 d" for x
    using m by (auto simp: segment_fixed_def segment_simps split: if_splits)
  show ?case
  proof (cases r)
    case None
    with m Cons.prems(2) Cons.IH [OF small] show ?thesis by simp
  next
    case (Some x)
    have "segment_stream (segment_fixed d) cs tmp' \<noteq> []" using fixed.stream_chunks [of d cs tmp']
      by (induction cs arbitrary: tmp') (auto simp: segment_fixed_def Let_def split: prod.splits option.splits)
    with Some m Cons.prems(2) obtain ss' where "ss = x # ss'" "segment_stream (segment_fixed d) cs tmp' = ss' @ [s]"
      by (cases ss) auto
    with Cons.IH [OF small] full [OF Some] show ?thesis by auto
  qed
qed

text \<open>Content-defined segmenting never exceeds the maximum.\<close>

lemma content_defined_max:
  assumes "index_segment_min d < index_segment_max d" "1 < index_segment_max d"
  shows "sg_chunk_num (cur_segment tmp) < index_segment_max d \<Longrightarrow>
    s \<in> set (segment_stream (segment_content_defined be d) cs tmp) \<Longrightarrow> sg_chunk_num s \<le> index_segment_max d"
proof (induction cs arbitrary: tmp)
  case Nil
  then show ?case by (simp add: segment_content_defined_def Let_def)
next
  case (Cons c cs)
  obtain r tmp' where m: "segment_content_defined be d (Some c) tmp = (r, tmp')"
    by (cases "segment_content_defined be d (Some c) tmp")
  have small: "sg_chunk_num (cur_segment tmp') < index_segment_max d"
    and full: "\<And>x. r = Some x \<Longrightarrow> sg_chunk_num x \<le> index_segment_max d"
    using m Cons.prems(1) assms
    by (auto simp: segment_content_defined_def segment_simps new_segment_def split: if_splits option.splits)
  from Cons.IH [OF small] full Cons.prems(2) m show ?case by (cases r) auto
qed

section \<open>Marking segments in the queue\<close>

definition segment_mark :: "(nat \<Rightarrow> byte) \<Rightarrow> 32 word \<Rightarrow> chunk" where
  "segment_mark junk f = SET_CHUNK (new_chunk junk 0) f"

text \<open>What \<open>send_segment\<close> pushes to \<open>dedup_queue\<close>.\<close>

definition send_segment :: "(nat \<Rightarrow> byte) \<Rightarrow> segment \<Rightarrow> chunk list" where
  "send_segment junk s = segment_mark junk CHUNK_SEGMENT_START # sg_chunks s @ [segment_mark junk CHUNK_SEGMENT_END]"

text \<open>The loop of \<open>filter_thread\<close> that rebuilds a segment: the rest of the queue after its end
  mark. \<open>None\<close> is a failed assertion or the end of the queue inside a segment.\<close>

fun collect_segment :: "chunk list \<Rightarrow> segment \<Rightarrow> (segment \<times> chunk list) option" where
  "collect_segment [] s = None"
| "collect_segment (c # cs) s =
     (if CHECK_CHUNK c CHUNK_SEGMENT_END then Some (s, cs)
      else collect_segment cs (if is_file_signal c then seg_append c s else seg_count (seg_append c s)))"

definition receive_segment :: "chunk list \<Rightarrow> (segment \<times> chunk list) option" where
  "receive_segment q = (case q of
      [] \<Rightarrow> None
    | c # cs \<Rightarrow> if CHECK_CHUNK c CHUNK_SEGMENT_START then collect_segment cs new_segment else None)"

lemma collect_chunks:
  "\<forall>c \<in> set cs. \<not> CHECK_CHUNK c CHUNK_SEGMENT_END \<Longrightarrow> CHECK_CHUNK e CHUNK_SEGMENT_END \<Longrightarrow> segment_wf s \<Longrightarrow>
     \<exists>s'. collect_segment (cs @ e # r) s = Some (s', r) \<and> sg_chunks s' = sg_chunks s @ cs \<and> segment_wf s'
       \<and> sg_features s' = sg_features s"
proof (induction cs arbitrary: s)
  case Nil
  then show ?case by simp
next
  case (Cons c cs)
  show ?case
  proof (cases "is_file_signal c")
    case True
    from Cons.IH [of "seg_append c s"] Cons.prems True seg_append_wf(1) [OF Cons.prems(3) True] show ?thesis
      by (auto simp: seg_append_def)
  next
    case False
    from Cons.IH [of "seg_count (seg_append c s)"] Cons.prems False seg_append_wf(2) [OF Cons.prems(3) False] show ?thesis
      by (auto simp: seg_append_def seg_count_def)
  qed
qed

lemma send_receive:
  assumes "\<forall>c \<in> set (sg_chunks s). \<not> CHECK_CHUNK c CHUNK_SEGMENT_END"
  shows "\<exists>s'. receive_segment (send_segment junk s @ r) = Some (s', r) \<and> sg_chunks s' = sg_chunks s \<and> segment_wf s'"
proof -
  have "CHECK_CHUNK (segment_mark junk CHUNK_SEGMENT_END) CHUNK_SEGMENT_END"
    "CHECK_CHUNK (segment_mark junk CHUNK_SEGMENT_START) CHUNK_SEGMENT_START"
    by (simp_all add: segment_mark_def CHECK_CHUNK_def)
  with collect_chunks [OF assms, of "segment_mark junk CHUNK_SEGMENT_END" new_segment r] show ?thesis
    by (auto simp: receive_segment_def send_segment_def) (auto simp: new_segment_def)
qed

section \<open>Properties\<close>

text \<open>cutting a stream into segments, by any of the three methods, neither loses, adds nor
  reorders chunks, and the chunk number of every segment is the number of its data chunks.\<close>

theorem segmenting_partition:
  "concat (map sg_chunks (segment_stream (segmenting be d) cs None)) = cs
   \<and> list_all segment_wf (segment_stream (segmenting be d) cs None)"
  using segmenting_stream_chunks [of be d cs] segmenting_stream_wf by (auto simp: list_all_iff)

text \<open>With fixed segmenting every segment but the last has exactly the configured number of
  chunks and the last has fewer.\<close>

theorem segment_fixed_exact:
  assumes "index_segment_algorithm1 d > 0" "segment_stream (segment_fixed d) cs None = ss @ [s]"
  shows "list_all (\<lambda>x. sg_chunk_num x = index_segment_algorithm1 d) ss \<and> sg_chunk_num s < index_segment_algorithm1 d"
  using fixed_sizes [of d None cs ss s] assms by (auto simp: cur_segment_def new_segment_def list_all_iff)

theorem segment_fixed_exact_witness:
  "\<exists>ss s. segment_stream (segment_fixed (destor_start_config\<lparr>index_segment_algorithm1 := 2\<rparr>)) (replicate 5 (new_chunk (\<lambda>_. 0) 4)) None = ss @ [s]
     \<and> map sg_chunk_num ss = [2, 2] \<and> list_all (\<lambda>x. sg_chunk_num x = 2) ss \<and> sg_chunk_num s < 2"
proof -
  let ?d = "destor_start_config\<lparr>index_segment_algorithm1 := 2\<rparr>" and ?cs = "replicate 5 (new_chunk (\<lambda>_. 0) 4)"
  obtain a b c where s: "segment_stream (segment_fixed ?d) ?cs None = [a, b] @ [c]" "map sg_chunk_num [a, b] = [2, 2]"
    by (simp add: eval_nat_numeral segment_fixed_def cur_segment_def new_segment_def seg_append_def seg_count_def flag_simps Let_def)
  from segment_fixed_exact [OF _ s(1)] s show ?thesis by (intro exI [of _ "[a, b]"] exI [of _ c]) simp
qed

text \<open>With content-defined segmenting no segment has more chunks than the maximum.\<close>

theorem segment_content_bound:
  assumes "index_segment_min d < index_segment_max d" "1 < index_segment_max d"
    and "s \<in> set (segment_stream (segment_content_defined be d) cs None)"
  shows "sg_chunk_num s \<le> index_segment_max d"
  using content_defined_max [OF assms(1,2), of None s be cs] assms(3,2) by (simp add: cur_segment_def new_segment_def)

theorem segment_content_bound_witness:
  "\<exists>s. s \<in> set (segment_stream (segment_content_defined False (destor_start_config\<lparr>index_segment_min := 1, index_segment_max := 2\<rparr>))
         (replicate 5 (new_chunk (\<lambda>_. 0) 4)) None) \<and> sg_chunk_num s \<le> 2 \<and> sg_chunk_num s > 0"
proof -
  let ?d = "destor_start_config\<lparr>index_segment_min := 1, index_segment_max := 2\<rparr>"
  let ?ss = "segment_stream (segment_content_defined False ?d) (replicate 5 (new_chunk (\<lambda>_. 0) 4)) None"
  have "hd ?ss \<in> set ?ss \<and> sg_chunk_num (hd ?ss) > 0"
    by (simp add: eval_nat_numeral segment_content_defined_def cur_segment_def new_segment_def seg_append_def seg_count_def flag_simps Let_def)
  moreover from this segment_content_bound [of ?d "hd ?ss" False "replicate 5 (new_chunk (\<lambda>_. 0) 4)"]
  have "sg_chunk_num (hd ?ss) \<le> 2" by simp
  ultimately show ?thesis by blast
qed

text \<open>The filter phase rebuilds from the queue the chunks of the segment that the
  deduplication phase sent, and leaves the rest of the queue.\<close>

theorem segment_sent_received:
  assumes "\<forall>c \<in> set (sg_chunks s). \<not> CHECK_CHUNK c CHUNK_SEGMENT_END"
  shows "\<exists>s'. receive_segment (send_segment junk s @ r) = Some (s', r) \<and> sg_chunks s' = sg_chunks s \<and> segment_wf s'"
  using send_receive [OF assms] .

theorem segment_sent_received_witness:
  "\<exists>s'. receive_segment (send_segment (\<lambda>_. 0) (new_segment\<lparr>sg_chunks := [new_chunk (\<lambda>_. 0) 4], sg_chunk_num := 1\<rparr>) @ [new_chunk (\<lambda>_. 0) 5])
       = Some (s', [new_chunk (\<lambda>_. 0) 5]) \<and> sg_chunks s' = [new_chunk (\<lambda>_. 0) 4]"
  using segment_sent_received [of "new_segment\<lparr>sg_chunks := [new_chunk (\<lambda>_. 0) 4], sg_chunk_num := 1\<rparr>" "\<lambda>_. 0" "[new_chunk (\<lambda>_. 0) 5]"]
  by (auto simp: flag_simps)

end
