(* ===== verification/Sampling.thy ===== *)
theory Sampling
  imports Segmenting
begin

text \<open>
  Sampling features of a chunk sequence (\<^verbatim>\<open>src/destor/src/index/sampling_method.c\<close>). A feature is
  the first \<open>index_key_size\<close> bytes of a fingerprint; the table of features is the list of its
  keys. The sequences of candidates are sorted with \<open>g_sequence_insert_sorted\<close>, which puts
  an element behind the equal ones.
\<close>

section \<open>Sorted insertion\<close>

definition insert_sorted :: "('a \<Rightarrow> 'a \<Rightarrow> int) \<Rightarrow> 'a \<Rightarrow> 'a list \<Rightarrow> 'a list" where
  "insert_sorted cmp x xs = takeWhile (\<lambda>y. cmp y x \<le> 0) xs @ x # dropWhile (\<lambda>y. cmp y x \<le> 0) xs"

definition sorted_cmp :: "('a \<Rightarrow> 'a \<Rightarrow> int) \<Rightarrow> 'a list \<Rightarrow> bool" where
  "sorted_cmp cmp xs = sorted_wrt (\<lambda>x y. cmp x y \<le> 0) xs"

lemma mset_insert_sorted: "mset (insert_sorted cmp x xs) = add_mset x (mset xs)"
proof -
  have "mset (takeWhile P xs) + mset (dropWhile P xs) = mset xs" for P
    by (metis mset_append takeWhile_dropWhile_id)
  then show ?thesis by (simp add: insert_sorted_def)
qed

lemma length_insert_sorted [simp]: "length (insert_sorted cmp x xs) = Suc (length xs)"
  using arg_cong [OF mset_insert_sorted [of cmp x xs], of size] by simp

lemma set_insert_sorted: "set (insert_sorted cmp x xs) = insert x (set xs)"
  using arg_cong [OF mset_insert_sorted [of cmp x xs], of set_mset] by simp

text \<open>A preorder given by a comparison function.\<close>

locale comparison =
  fixes cmp :: "'a \<Rightarrow> 'a \<Rightarrow> int" and ok :: "'a \<Rightarrow> bool"
  assumes cmp_trans: "ok a \<Longrightarrow> ok b \<Longrightarrow> ok c \<Longrightarrow> cmp a b \<le> 0 \<Longrightarrow> cmp b c \<le> 0 \<Longrightarrow> cmp a c \<le> 0"
    and cmp_total: "ok a \<Longrightarrow> ok b \<Longrightarrow> cmp a b > 0 \<Longrightarrow> cmp b a \<le> 0"
begin

lemma insert_sorted_sorted:
  assumes "sorted_cmp cmp xs" "\<forall>y \<in> set xs. ok y" "ok x"
  shows "sorted_cmp cmp (insert_sorted cmp x xs)"
  using assms
proof (induction xs)
  case Nil
  then show ?case by (simp add: insert_sorted_def sorted_cmp_def)
next
  case (Cons y ys)
  show ?case
  proof (cases "cmp y x \<le> 0")
    case True
    then have "insert_sorted cmp x (y # ys) = y # insert_sorted cmp x ys" by (simp add: insert_sorted_def)
    with Cons True show ?thesis by (auto simp: sorted_cmp_def set_insert_sorted)
  next
    case False
    have "cmp x z \<le> 0" if "z \<in> set (y # ys)" for z
    proof -
      have xy: "cmp x y \<le> 0" using False cmp_total [of y x] Cons.prems by simp
      show ?thesis
      proof (cases "z = y")
        case True
        with xy show ?thesis by simp
      next
        case False
        with that Cons.prems have "cmp y z \<le> 0" "ok z" "ok y" by (auto simp: sorted_cmp_def)
        with xy cmp_trans [of x y z] Cons.prems(3) show ?thesis by blast
      qed
    qed
    with False Cons.prems show ?thesis by (auto simp: insert_sorted_def sorted_cmp_def)
  qed
qed

text \<open>Keeping only the first \<open>n\<close> elements while inserting keeps the first \<open>n\<close> of all.\<close>

lemma insert_take:
  "take n (insert_sorted cmp x (take n xs)) = take n (insert_sorted cmp x xs)"
proof (induction xs arbitrary: n)
  case Nil
  then show ?case by simp
next
  case (Cons y ys)
  show ?case
  proof (cases n)
    case 0
    then show ?thesis by simp
  next
    case (Suc m)
    have "insert_sorted cmp x (y # zs) = (if cmp y x \<le> 0 then y # insert_sorted cmp x zs else x # y # zs)" for zs
      by (simp add: insert_sorted_def)
    with Cons.IH [of m] Suc show ?thesis by (simp add: take_Cons')
  qed
qed

lemma insert_beyond:
  assumes "sorted_cmp cmp xs" "\<forall>y \<in> set xs. ok y" "ok x" "n \<le> length xs" "0 < n" "cmp (xs ! (n - 1)) x \<le> 0"
  shows "take n (insert_sorted cmp x xs) = take n xs"
proof -
  have le: "cmp (xs ! i) x \<le> 0" if "i < n" for i
  proof (cases "i = n - 1")
    case True
    with assms(6) show ?thesis by simp
  next
    case False
    with that assms(1,4) have "cmp (xs ! i) (xs ! (n - 1)) \<le> 0"
      by (auto simp: sorted_cmp_def intro: sorted_wrt_nth_less)
    with assms that cmp_trans [of "xs ! i" "xs ! (n - 1)" x] show ?thesis by simp
  qed
  have "\<forall>y \<in> set (take n xs). cmp y x \<le> 0" using le assms(4) by (auto simp: in_set_conv_nth)
  then have "takeWhile (\<lambda>y. cmp y x \<le> 0) xs = take n xs @ takeWhile (\<lambda>y. cmp y x \<le> 0) (drop n xs)"
    by (metis (no_types, lifting) append_take_drop_id takeWhile_append2)
  with assms(4) show ?thesis by (simp add: insert_sorted_def)
qed

end

interpretation fp_cmp: comparison g_fingerprint_cmp "\<lambda>fp. length fp = 20"
proof
  fix a b c :: fingerprint
  show "length a = 20 \<Longrightarrow> length b = 20 \<Longrightarrow> length c = 20 \<Longrightarrow> g_fingerprint_cmp a b \<le> 0 \<Longrightarrow>
      g_fingerprint_cmp b c \<le> 0 \<Longrightarrow> g_fingerprint_cmp a c \<le> 0"
    using memcmp_trans [of a b c] by (simp add: g_fingerprint_cmp_def)
  show "length a = 20 \<Longrightarrow> length b = 20 \<Longrightarrow> g_fingerprint_cmp a b > 0 \<Longrightarrow> g_fingerprint_cmp b a \<le> 0"
    using memcmp_antisym [of a b] by (simp add: g_fingerprint_cmp_def)
qed

section \<open>Methods\<close>

definition feature_of :: "destor \<Rightarrow> fingerprint \<Rightarrow> byte list" where
  "feature_of d fp = take (index_key_size d) fp"

text \<open>\<open>g_hash_table_insert\<close> into the table of features.\<close>

definition add_feature :: "byte list \<Rightarrow> byte list list \<Rightarrow> byte list list" where
  "add_feature f fs = (if f \<in> set fs then fs else fs @ [f])"

definition min_feature_num :: "destor \<Rightarrow> chunk list \<Rightarrow> int \<Rightarrow> nat" where
  "min_feature_num d chunks chunk_num =
     (let n = (if chunk_num = 0 then int (length chunks) else chunk_num);
          k = index_sampling_method1 d
      in if k \<noteq> 0 \<and> n > k
         then nat (if (n mod k) * 2 > k then n div k + 1 else n div k)
         else 1)"

definition min_candidate :: "nat \<Rightarrow> fingerprint list \<Rightarrow> fingerprint \<Rightarrow> fingerprint list" where
  "min_candidate n candidates fp =
     (if length candidates < n \<or> memcmp fp (last candidates) < 0
      then take n (insert_sorted g_fingerprint_cmp fp candidates)
      else candidates)"

definition data_fps :: "chunk list \<Rightarrow> fingerprint list" where
  "data_fps chunks = map ck_fp (data_chunks chunks)"

definition index_sampling_min :: "destor \<Rightarrow> chunk list \<Rightarrow> int \<Rightarrow> byte list list" where
  "index_sampling_min d chunks chunk_num =
     (let n = min_feature_num d chunks chunk_num;
          candidates = foldl (min_candidate n) [] (data_fps chunks);
          features = fold (\<lambda>fp fs. add_feature (feature_of d fp) fs) candidates []
      in if features = [] then [replicate (index_key_size d) 0xff] else features)"

text \<open>The optimised variant remembers, with every anchor, the fingerprint eight chunks before
  it; \<open>prefix\<close> holds the last nine fingerprints, newest first.\<close>

definition optimized_step ::
    "nat \<Rightarrow> (fingerprint \<times> fingerprint) list \<times> fingerprint list \<times> nat \<Rightarrow> fingerprint \<Rightarrow>
     (fingerprint \<times> fingerprint) list \<times> fingerprint list \<times> nat" where
  "optimized_step n = (\<lambda>(anchors, prefix, count) fp.
     let prefix = fp # take 8 prefix;
         anchors = (if length anchors < n \<or> memcmp fp (fst (last anchors)) < 0
                    then take n (insert_sorted (\<lambda>a b. g_fingerprint_cmp (fst a) (fst b))
                           (fp, prefix ! (if count \<ge> 8 then 8 else count)) anchors)
                    else anchors)
     in (anchors, prefix, count + 1))"

definition index_sampling_optimized_min :: "destor \<Rightarrow> chunk list \<Rightarrow> int \<Rightarrow> byte list list" where
  "index_sampling_optimized_min d chunks chunk_num =
     (let n = min_feature_num d chunks chunk_num;
          (anchors, _, _) = foldl (optimized_step n) ([], replicate 9 (replicate 20 0xff), 0) (data_fps chunks);
          features = fold (\<lambda>a fs. add_feature (feature_of d (snd a)) fs) anchors []
      in if features = [] then [replicate (index_key_size d) 0xff] else features)"

definition index_sampling_random :: "bool \<Rightarrow> destor \<Rightarrow> chunk list \<Rightarrow> int \<Rightarrow> byte list list option" where
  "index_sampling_random be d chunks chunk_num = do {
     assertion (index_sampling_method1 d \<noteq> 0);
     let features = fold (\<lambda>fp fs. if fp_head be fp mod index_sampling_method1 d = 0
                                  then add_feature (feature_of d fp) fs else fs) (data_fps chunks) [];
     Some (if features = [] then [replicate (index_key_size d) 0] else features)
   }"

text \<open>Uniform sampling looks at every chunk of the sequence, file boundaries included.\<close>

definition index_sampling_uniform :: "destor \<Rightarrow> chunk list \<Rightarrow> int \<Rightarrow> byte list list option" where
  "index_sampling_uniform d chunks chunk_num = do {
     assertion (index_sampling_method1 d \<noteq> 0);
     let features = fold (\<lambda>(i, c) fs. if int i mod index_sampling_method1 d = 0
                                       then add_feature (feature_of d (ck_fp c)) fs else fs)
                       (enumerate 0 chunks) [];
     if features = [] then do { assertion (chunk_num = 0); Some [replicate (index_key_size d) 0] }
     else Some features
   }"

definition sampling :: "bool \<Rightarrow> destor \<Rightarrow> chunk list \<Rightarrow> int \<Rightarrow> byte list list option" where
  "sampling be d chunks chunk_num = (case index_sampling_method0 d of
      INDEX_SAMPLING_RANDOM \<Rightarrow> index_sampling_random be d chunks chunk_num
    | INDEX_SAMPLING_OPTIMIZED_MIN \<Rightarrow> Some (index_sampling_optimized_min d chunks chunk_num)
    | INDEX_SAMPLING_MIN \<Rightarrow> Some (index_sampling_min d chunks chunk_num)
    | INDEX_SAMPLING_UNIFORM \<Rightarrow> index_sampling_uniform d chunks chunk_num)"

section \<open>The smallest fingerprints\<close>

lemma set_fold_add_feature: "set (fold (\<lambda>x fs. add_feature (f x) fs) xs fs) = set fs \<union> f ` set xs"
  by (induction xs arbitrary: fs) (auto simp: add_feature_def)

definition sort_fps :: "fingerprint list \<Rightarrow> fingerprint list" where
  "sort_fps fps = foldl (\<lambda>xs fp. insert_sorted g_fingerprint_cmp fp xs) [] fps"

lemma sort_fps_snoc: "sort_fps (fps @ [fp]) = insert_sorted g_fingerprint_cmp fp (sort_fps fps)"
  by (simp add: sort_fps_def)

lemma sort_fps_mset: "mset (sort_fps fps) = mset fps"
  by (induction fps rule: rev_induct) (simp_all add: sort_fps_snoc mset_insert_sorted, simp add: sort_fps_def)

lemma sort_fps_set: "set (sort_fps fps) = set fps"
  using sort_fps_mset [of fps] by (metis set_mset_mset)

lemma sort_fps_sorted: "\<forall>fp \<in> set fps. length fp = 20 \<Longrightarrow> sorted_cmp g_fingerprint_cmp (sort_fps fps)"
proof (induction fps rule: rev_induct)
  case Nil
  then show ?case by (simp add: sort_fps_def sorted_cmp_def)
next
  case (snoc fp fps)
  then show ?case by (simp add: sort_fps_snoc fp_cmp.insert_sorted_sorted sort_fps_set)
qed

lemma min_candidates:
  assumes "0 < n" "\<forall>fp \<in> set fps. length fp = 20"
  shows "foldl (min_candidate n) [] fps = take n (sort_fps fps)"
  using assms(2)
proof (induction fps rule: rev_induct)
  case Nil
  then show ?case by (simp add: sort_fps_def)
next
  case (snoc fp fps)
  let ?xs = "sort_fps fps"
  have IH: "foldl (min_candidate n) [] fps = take n ?xs" and fp: "length fp = 20" and fps: "\<forall>y \<in> set ?xs. length y = 20"
    using snoc by (auto simp: sort_fps_set)
  have step: "foldl (min_candidate n) [] (fps @ [fp]) = min_candidate n (take n ?xs) fp" using IH by simp
  show ?case
  proof (cases "length (take n ?xs) < n \<or> memcmp fp (last (take n ?xs)) < 0")
    case True
    then show ?thesis unfolding step unfolding min_candidate_def sort_fps_snoc fp_cmp.insert_take by simp
  next
    case False
    then have n: "n \<le> length ?xs" by auto
    then have l: "last (take n ?xs) = ?xs ! (n - 1)" using assms(1) by (subst last_conv_nth) (auto simp: min_def)
    have "?xs ! (n - 1) \<in> set ?xs" using n assms(1) by simp
    then have "length (?xs ! (n - 1)) = 20" using fps by blast
    then have "g_fingerprint_cmp (?xs ! (n - 1)) fp \<le> 0"
      using False fp l memcmp_antisym [of fp "?xs ! (n - 1)"] by (simp add: g_fingerprint_cmp_def)
    from fp_cmp.insert_beyond [OF sort_fps_sorted fps fp n assms(1) this] snoc.prems False
    show ?thesis unfolding step unfolding min_candidate_def sort_fps_snoc by simp
  qed
qed

lemma min_feature_num_pos: "0 < min_feature_num d chunks chunk_num" if "0 \<le> index_sampling_method1 d"
proof -
  let ?k = "index_sampling_method1 d" and ?n = "if chunk_num = 0 then int (length chunks) else chunk_num"
  have "?n div ?k > 0" if "?k \<noteq> 0" "?n > ?k" using that \<open>0 \<le> ?k\<close> by (simp add: pos_imp_zdiv_pos_iff)
  then show ?thesis by (auto simp: min_feature_num_def Let_def)
qed

lemma sampling_min_features:
  assumes "0 \<le> index_sampling_method1 d" "\<forall>fp \<in> set (data_fps chunks). length fp = 20" "data_fps chunks \<noteq> []"
  shows "set (index_sampling_min d chunks chunk_num) =
     feature_of d ` set (take (min_feature_num d chunks chunk_num) (sort_fps (data_fps chunks)))"
proof -
  let ?n = "min_feature_num d chunks chunk_num" and ?fps = "data_fps chunks"
  have c: "foldl (min_candidate ?n) [] ?fps = take ?n (sort_fps ?fps)"
    by (rule min_candidates [OF min_feature_num_pos [OF assms(1)] assms(2)])
  have "sort_fps ?fps \<noteq> []" using assms(3) sort_fps_set [of ?fps] by (metis set_empty)
  then have "take ?n (sort_fps ?fps) \<noteq> []" using min_feature_num_pos [OF assms(1), of chunks chunk_num] by simp
  then have "fold (\<lambda>fp fs. add_feature (feature_of d fp) fs) (take ?n (sort_fps ?fps)) [] \<noteq> []"
    using set_fold_add_feature [of "feature_of d" "take ?n (sort_fps ?fps)" "[]"] by (metis image_is_empty set_empty Un_empty_left)
  with c show ?thesis by (simp add: index_sampling_min_def Let_def set_fold_add_feature)
qed

section \<open>Uniform and random sampling\<close>

lemma set_fold_if_feature:
  "set (fold (\<lambda>x fs. if p x then add_feature (f x) fs else fs) xs fs) = set fs \<union> f ` {x \<in> set xs. p x}"
  by (induction xs arbitrary: fs) (auto simp: add_feature_def)

lemma set_fold_indexed:
  "set (fold (\<lambda>(i, c) fs. if p i then add_feature (f c) fs else fs) ics fs) =
     set fs \<union> {f c | i c. (i, c) \<in> set ics \<and> p i}"
proof (induction ics arbitrary: fs)
  case Nil
  then show ?case by simp
next
  case (Cons ic ics)
  then show ?case by (cases ic) (auto simp: add_feature_def)
qed

lemma chosen_features:
  "set F = g ` {x \<in> A. P x} \<Longrightarrow> z \<noteq> [] \<Longrightarrow>
     \<exists>fs. Some (if F = [] then z else F) = Some fs \<and> fs \<noteq> [] \<and> (\<forall>x \<in> A. P x \<longrightarrow> g x \<in> set fs)"
  by (cases "F = []") auto

lemma sampling_uniform_features:
  assumes "index_sampling_method1 d \<noteq> 0" "chunks \<noteq> []"
  shows "\<exists>fs. index_sampling_uniform d chunks chunk_num = Some fs \<and>
     set fs = {feature_of d (ck_fp (chunks ! i)) | i. i < length chunks \<and> int i mod index_sampling_method1 d = 0}"
proof -
  let ?F = "fold (\<lambda>(i, c) fs. if int i mod index_sampling_method1 d = 0
      then add_feature (feature_of d (ck_fp c)) fs else fs) (enumerate 0 chunks) []"
  have "set ?F = {feature_of d (ck_fp (chunks ! i)) | i. i < length chunks \<and> int i mod index_sampling_method1 d = 0}"
    unfolding set_fold_indexed by (fastforce simp: in_set_enumerate_eq)
  moreover from this have "feature_of d (ck_fp (chunks ! 0)) \<in> set ?F" using assms(2) by (auto intro!: exI [of _ 0])
  then have "?F \<noteq> []" by (metis empty_iff list.set(1))
  then have "index_sampling_uniform d chunks chunk_num = Some ?F" using assms(1)
    by (simp add: index_sampling_uniform_def Let_def)
  ultimately show ?thesis by blast
qed

lemma sampling_random_features:
  assumes "index_sampling_method1 d \<noteq> 0"
  shows "\<exists>fs. index_sampling_random be d chunks chunk_num = Some fs \<and> fs \<noteq> [] \<and>
     (\<forall>fp \<in> set (data_fps chunks). fp_head be fp mod index_sampling_method1 d = 0 \<longrightarrow> feature_of d fp \<in> set fs)"
proof -
  let ?F = "fold (\<lambda>fp fs. if fp_head be fp mod index_sampling_method1 d = 0
      then add_feature (feature_of d fp) fs else fs) (data_fps chunks) []"
  have "set ?F = feature_of d ` {fp \<in> set (data_fps chunks). fp_head be fp mod index_sampling_method1 d = 0}"
    by (simp add: set_fold_if_feature)
  moreover have "index_sampling_random be d chunks chunk_num
      = Some (if ?F = [] then [replicate (index_key_size d) 0] else ?F)"
    using assms by (simp add: index_sampling_random_def Let_def)
  ultimately show ?thesis
    using chosen_features [of ?F "feature_of d" "set (data_fps chunks)" "\<lambda>fp. fp_head be fp mod index_sampling_method1 d = 0"
        "[replicate (index_key_size d) 0]"] by simp
qed

text \<open>Every method that returns, returns at least one feature.\<close>

lemma sampling_nonempty: "sampling be d chunks chunk_num = Some fs \<Longrightarrow> fs \<noteq> []"
  by (auto simp: sampling_def index_sampling_random_def index_sampling_min_def index_sampling_uniform_def
      index_sampling_optimized_min_def Let_def split: index_sampling.splits if_splits prod.splits)

section \<open>Properties\<close>

text \<open>The minimum sampling of a segment keeps the features of its smallest fingerprints, as
  many as the sampling rate asks for.\<close>

theorem sampling_min_smallest:
  assumes "0 \<le> index_sampling_method1 d" "\<forall>fp \<in> set (data_fps chunks). length fp = 20" "data_fps chunks \<noteq> []"
  shows "set (index_sampling_min d chunks chunk_num) =
     feature_of d ` set (take (min_feature_num d chunks chunk_num) (sort_fps (data_fps chunks)))"
  using sampling_min_features [OF assms] .

theorem sampling_min_smallest_witness:
  "set (index_sampling_min (destor_start_config\<lparr>index_sampling_method1 := 2\<rparr>)
       (map (\<lambda>x. (new_chunk (\<lambda>_. 0) 4)\<lparr>ck_fp := replicate 20 x\<rparr>) [9, 5, 7, 6]) 4) =
     feature_of (destor_start_config\<lparr>index_sampling_method1 := 2\<rparr>) ` {replicate 20 5, replicate 20 6}"
proof -
  let ?d = "destor_start_config\<lparr>index_sampling_method1 := 2\<rparr>"
  let ?cs = "map (\<lambda>x. (new_chunk (\<lambda>_. 0) 4)\<lparr>ck_fp := replicate 20 x\<rparr>) [9, 5, 7, 6]"
  have f: "data_fps ?cs = map (replicate 20) [9, 5, 7, 6]" by (simp add: data_fps_def data_chunks_def flag_simps)
  have n: "min_feature_num ?d ?cs 4 = 2" by (simp add: min_feature_num_def flag_simps)
  have s: "sort_fps (map (replicate 20) [9, 5, 7, 6]) = map (replicate 20) [5, 6, 7, 9 :: byte]"
    by code_simp
  from sampling_min_smallest [of ?d ?cs 4] show ?thesis unfolding f n s by simp
qed

text \<open>The uniform sampling keeps the features of every \<open>n\<close>-th entry of the segment, the
  file marks included in the count.\<close>

theorem sampling_uniform_every:
  assumes "index_sampling_method1 d \<noteq> 0" "chunks \<noteq> []"
  shows "\<exists>fs. index_sampling_uniform d chunks chunk_num = Some fs \<and>
     set fs = {feature_of d (ck_fp (chunks ! i)) | i. i < length chunks \<and> int i mod index_sampling_method1 d = 0}"
  using sampling_uniform_features [OF assms] .

theorem sampling_uniform_every_witness:
  "\<exists>fs. index_sampling_uniform (destor_start_config\<lparr>index_sampling_method1 := 2\<rparr>)
       (map (\<lambda>x. (new_chunk (\<lambda>_. 0) 4)\<lparr>ck_fp := replicate 20 x\<rparr>) [9, 5, 7]) 3 = Some fs
     \<and> feature_of (destor_start_config\<lparr>index_sampling_method1 := 2\<rparr>) (replicate 20 7) \<in> set fs"
proof -
  let ?d = "destor_start_config\<lparr>index_sampling_method1 := 2\<rparr>"
  let ?cs = "map (\<lambda>x. (new_chunk (\<lambda>_. 0) 4)\<lparr>ck_fp := replicate 20 x\<rparr>) [9, 5, 7]"
  from sampling_uniform_every [of ?d ?cs 3] obtain fs where fs: "index_sampling_uniform ?d ?cs 3 = Some fs"
    "set fs = {feature_of ?d (ck_fp (?cs ! i)) | i. i < length ?cs \<and> int i mod index_sampling_method1 ?d = 0}" by auto
  have "feature_of ?d (ck_fp (?cs ! 2)) \<in> set fs" unfolding fs(2) by (intro CollectI exI [of _ 2]) simp
  with fs(1) show ?thesis by simp
qed

end
