(* ===== verification/Lru_Cache.thy ===== *)
theory Lru_Cache
  imports Prelude
begin

text \<open>
  The list-based LRU cache of \<^verbatim>\<open>src/destor/src/utils/lru_cache.c\<close>. The head of \<open>elem_queue\<close> is
  the most recently used element. The function pointer \<open>hit_elem\<close> is a field; \<open>free_elem\<close>
  only releases memory and is dropped, the victims of an operation are returned instead. The
  counters of type \<open>double\<close> only count and are natural numbers.
\<close>

section \<open>Definitions\<close>

record ('a, 'k) lruCache =
  elem_queue :: "'a list"
  lc_max_size :: int
  lc_size :: int
  hit_count :: nat
  miss_count :: nat
  hit_elem :: "'a \<Rightarrow> 'k \<Rightarrow> bool"

definition new_lru_cache :: "int \<Rightarrow> ('a \<Rightarrow> 'k \<Rightarrow> bool) \<Rightarrow> ('a, 'k) lruCache" where
  "new_lru_cache sz hit = \<lparr>elem_queue = [], lc_max_size = sz, lc_size = 0, hit_count = 0,
     miss_count = 0, hit_elem = hit\<rparr>"

definition lru_cache_lookup :: "('a, 'k) lruCache \<Rightarrow> 'k \<Rightarrow> 'a option \<times> ('a, 'k) lruCache" where
  "lru_cache_lookup c user_data =
     (case take_first (\<lambda>e. hit_elem c e user_data) (elem_queue c) of
        Some (e, rest) \<Rightarrow> (Some e, c\<lparr>elem_queue := e # rest, hit_count := Suc (hit_count c)\<rparr>)
      | None \<Rightarrow> (None, c\<lparr>miss_count := Suc (miss_count c)\<rparr>))"

definition lru_cache_lookup_without_update :: "('a, 'k) lruCache \<Rightarrow> 'k \<Rightarrow> 'a option" where
  "lru_cache_lookup_without_update c user_data = find (\<lambda>e. hit_elem c e user_data) (elem_queue c)"

definition lru_cache_hits ::
    "('a, 'k) lruCache \<Rightarrow> 'd \<Rightarrow> ('a \<Rightarrow> 'd \<Rightarrow> bool) \<Rightarrow> 'a option \<times> ('a, 'k) lruCache" where
  "lru_cache_hits c user_data hit =
     (case take_first (\<lambda>e. hit e user_data) (elem_queue c) of
        Some (e, rest) \<Rightarrow> (Some e, c\<lparr>elem_queue := e # rest\<rparr>)
      | None \<Rightarrow> (None, c))"

text \<open>With a full cache and an empty list the code dereferences the \<open>NULL\<close> of \<open>g_list_last\<close>.\<close>

definition lru_cache_insert :: "('a, 'k) lruCache \<Rightarrow> 'a \<Rightarrow> ('a option \<times> ('a, 'k) lruCache) option" where
  "lru_cache_insert c d =
     (if lc_max_size c > 0 \<and> lc_size c = lc_max_size c
      then if elem_queue c = [] then None
           else Some (Some (last (elem_queue c)),
                  c\<lparr>elem_queue := d # butlast (elem_queue c), lc_size := lc_size c - 1 + 1\<rparr>)
      else Some (None, c\<lparr>elem_queue := d # elem_queue c, lc_size := lc_size c + 1\<rparr>))"

text \<open>\<open>lru_cache_kicks\<close> searches from the tail.\<close>

definition lru_cache_kicks ::
    "('a, 'k) lruCache \<Rightarrow> 'd \<Rightarrow> ('a \<Rightarrow> 'd \<Rightarrow> bool) \<Rightarrow> 'a option \<times> ('a, 'k) lruCache" where
  "lru_cache_kicks c user_data func =
     (case take_first (\<lambda>e. func e user_data) (rev (elem_queue c)) of
        Some (e, rest) \<Rightarrow> (Some e, c\<lparr>elem_queue := rev rest, lc_size := lc_size c - 1\<rparr>)
      | None \<Rightarrow> (None, c))"

definition lru_cache_is_full :: "('a, 'k) lruCache \<Rightarrow> bool" where
  "lru_cache_is_full c = (if lc_max_size c < 0 then False else lc_size c \<ge> lc_max_size c)"

section \<open>Invariant\<close>

definition lru_inv :: "('a, 'k) lruCache \<Rightarrow> bool" where
  "lru_inv c = (lc_size c = int (length (elem_queue c)) \<and> (lc_max_size c > 0 \<longrightarrow> lc_size c \<le> lc_max_size c))"

lemma lru_inv_new: "lru_inv (new_lru_cache sz hit)"
  by (simp add: lru_inv_def new_lru_cache_def)

lemma lru_inv_lookup: "lru_inv c \<Longrightarrow> lru_inv (snd (lru_cache_lookup c k))"
  by (auto simp: lru_inv_def lru_cache_lookup_def dest: take_first_length split: option.splits)

lemma lru_inv_hits: "lru_inv c \<Longrightarrow> lru_inv (snd (lru_cache_hits c k h))"
  by (auto simp: lru_inv_def lru_cache_hits_def dest: take_first_length split: option.splits)

lemma lru_inv_insert:
  "lru_inv c \<Longrightarrow> \<exists>v c'. lru_cache_insert c d = Some (v, c') \<and> lru_inv c'"
  by (auto simp: lru_inv_def lru_cache_insert_def)

lemma lru_inv_kicks: "lru_inv c \<Longrightarrow> lru_inv (snd (lru_cache_kicks c k h))"
  by (auto simp: lru_inv_def lru_cache_kicks_def split: option.splits dest: take_first_length)

lemma lru_lookup_frame [frame_simps]:
  "hit_elem (snd (lru_cache_lookup c k)) = hit_elem c"
  "lc_max_size (snd (lru_cache_lookup c k)) = lc_max_size c"
  "set (elem_queue (snd (lru_cache_lookup c k))) = set (elem_queue c)"
  by (auto simp: lru_cache_lookup_def dest: take_first_set split: option.splits)

lemma lru_hits_frame [frame_simps]:
  "hit_elem (snd (lru_cache_hits c k h)) = hit_elem c"
  "lc_max_size (snd (lru_cache_hits c k h)) = lc_max_size c"
  "set (elem_queue (snd (lru_cache_hits c k h))) = set (elem_queue c)"
  by (auto simp: lru_cache_hits_def dest: take_first_set split: option.splits)

lemma lru_insert_frame:
  "lru_cache_insert c d = Some (v, c') \<Longrightarrow>
     hit_elem c' = hit_elem c \<and> lc_max_size c' = lc_max_size c
     \<and> set (elem_queue c') \<subseteq> insert d (set (elem_queue c)) \<and> hd (elem_queue c') = d \<and> elem_queue c' \<noteq> []"
  by (auto simp: lru_cache_insert_def split: if_splits dest: in_set_butlastD)

lemma lru_lookup_hit:
  "fst (lru_cache_lookup c k) = Some e \<Longrightarrow> e \<in> set (elem_queue c) \<and> hit_elem c e k"
  by (auto simp: lru_cache_lookup_def split: option.splits dest!: take_first_SomeD)

lemma lru_lookup_miss:
  "(fst (lru_cache_lookup c k) = None) = (\<forall>e \<in> set (elem_queue c). \<not> hit_elem c e k)"
  by (auto simp: lru_cache_lookup_def take_first_None split: option.splits dest: take_first_SomeD)

lemma lru_lookup_insert:
  "lru_cache_insert c d = Some (v, c') \<Longrightarrow> hit_elem c d k \<Longrightarrow> fst (lru_cache_lookup c' k) = Some d"
  by (auto simp: lru_cache_insert_def lru_cache_lookup_def split: if_splits)

section \<open>The interface of a cache\<close>

text \<open>
  What the users of the cache (the fingerprint cache, the restore caches and the
  restore-aware monitor) rely on: a lookup returns a cached element that answers the key, and
  an element just inserted answers its keys. Whatever holds of every inserted element then
  holds of every element ever looked up.
\<close>

locale element_cache =
  fixes lookup :: "'c \<Rightarrow> 'k \<Rightarrow> 'a option \<times> 'c"
    and insert_elem :: "'c \<Rightarrow> 'a \<Rightarrow> ('a option \<times> 'c) option"
    and elems :: "'c \<Rightarrow> 'a set"
    and answers :: "'c \<Rightarrow> 'a \<Rightarrow> 'k \<Rightarrow> bool"
    and invar :: "'c \<Rightarrow> bool"
  assumes lookup_elem: "invar c \<Longrightarrow> fst (lookup c k) = Some e \<Longrightarrow> e \<in> elems c \<and> answers c e k"
    and lookup_miss: "invar c \<Longrightarrow> fst (lookup c k) = None \<Longrightarrow> e \<in> elems c \<Longrightarrow> \<not> answers c e k"
    and lookup_elems: "invar c \<Longrightarrow> elems (snd (lookup c k)) = elems c"
    and lookup_answers: "answers (snd (lookup c k)) = answers c"
    and lookup_invar: "invar c \<Longrightarrow> invar (snd (lookup c k))"
    and insert_ok: "invar c \<Longrightarrow> \<exists>v c'. insert_elem c e = Some (v, c') \<and> invar c'"
    and insert_elems: "insert_elem c e = Some (v, c') \<Longrightarrow> elems c' \<subseteq> insert e (elems c)"
    and insert_answers: "insert_elem c e = Some (v, c') \<Longrightarrow> answers c' = answers c"
    and insert_lookup: "insert_elem c e = Some (v, c') \<Longrightarrow> answers c e k \<Longrightarrow> fst (lookup c' k) = Some e"
begin

lemma all_elems_lookup:
  "invar c \<Longrightarrow> \<forall>e \<in> elems c. P e \<Longrightarrow> fst (lookup c k) = Some e \<Longrightarrow> P e"
  using lookup_elem by blast

lemma all_elems_insert:
  "\<forall>e \<in> elems c. P e \<Longrightarrow> P e \<Longrightarrow> insert_elem c e = Some (v, c') \<Longrightarrow> \<forall>e \<in> elems c'. P e"
  using insert_elems by blast

text \<open>The miss path of every client: look up, fetch on a miss, insert, look up again.\<close>

lemma fetch_on_miss:
  assumes "invar c" "fst (lookup c k) = None" "answers c e k"
  shows "\<exists>v c'. insert_elem (snd (lookup c k)) e = Some (v, c') \<and> invar c' \<and> fst (lookup c' k) = Some e"
proof -
  have "invar (snd (lookup c k))" using assms(1) by (rule lookup_invar)
  then obtain v c' where "insert_elem (snd (lookup c k)) e = Some (v, c')" "invar c'"
    using insert_ok by blast
  then show ?thesis using assms(3) insert_lookup lookup_answers by metis
qed

end

interpretation lru: element_cache lru_cache_lookup lru_cache_insert "\<lambda>c. set (elem_queue c)"
  hit_elem lru_inv
proof unfold_locales
  fix c :: "('a, 'b) lruCache" and c' k e v
  show "fst (lru_cache_lookup c k) = Some e \<Longrightarrow> e \<in> set (elem_queue c) \<and> hit_elem c e k"
    by (rule lru_lookup_hit)
  show "fst (lru_cache_lookup c k) = None \<Longrightarrow> e \<in> set (elem_queue c) \<Longrightarrow> \<not> hit_elem c e k"
    by (simp add: lru_lookup_miss)
  show "set (elem_queue (snd (lru_cache_lookup c k))) = set (elem_queue c)"
    "hit_elem (snd (lru_cache_lookup c k)) = hit_elem c"
    by (simp_all add: frame_simps)
  show "lru_inv c \<Longrightarrow> lru_inv (snd (lru_cache_lookup c k))" by (rule lru_inv_lookup)
  show "lru_inv c \<Longrightarrow> \<exists>v c'. lru_cache_insert c e = Some (v, c') \<and> lru_inv c'" by (rule lru_inv_insert)
  assume "lru_cache_insert c e = Some (v, c')"
  then show "set (elem_queue c') \<subseteq> insert e (set (elem_queue c))" "hit_elem c' = hit_elem c"
    "hit_elem c e k \<Longrightarrow> fst (lru_cache_lookup c' k) = Some e"
    using lru_insert_frame [of c e v c'] lru_lookup_insert [of c e v c' k] by simp_all
qed

section \<open>The replacement policy\<close>

text \<open>
  A keyed client looks an element up and, on a miss, fetches and inserts it. The reference
  policy keeps the list of all keys ever used, most recent first.
\<close>

definition lru_access :: "('k \<Rightarrow> 'a) \<Rightarrow> ('a, 'k) lruCache \<Rightarrow> 'k \<Rightarrow> ('a, 'k) lruCache option" where
  "lru_access fetch c k =
     (case lru_cache_lookup c k of
        (Some _, c') \<Rightarrow> Some c'
      | (None, c') \<Rightarrow> map_option snd (lru_cache_insert c' (fetch k)))"

definition use_key :: "'k \<Rightarrow> 'k list \<Rightarrow> 'k list" where
  "use_key k l = k # removeAll k l"

lemma use_key_distinct: "distinct l \<Longrightarrow> distinct (use_key k l)"
  by (simp add: use_key_def distinct_removeAll)

lemma take_removeAll_in:
  "distinct l \<Longrightarrow> k \<in> set (take n l) \<Longrightarrow> take (n - 1) (removeAll k l) = removeAll k (take n l)"
proof (induction l arbitrary: n)
  case Nil
  then show ?case by simp
next
  case (Cons x l)
  then obtain m where n: "n = Suc m" by (cases n) auto
  show ?case
  proof (cases "x = k")
    case True
    with Cons.prems have "k \<notin> set l" by auto
    moreover then have "k \<notin> set (take m l)" by (meson in_set_takeD)
    ultimately show ?thesis using True n by simp
  next
    case False
    with Cons.prems n have k: "k \<in> set (take m l)" "distinct l" by auto
    then obtain m' where "m = Suc m'" by (cases m) auto
    with Cons.IH [OF k(2,1)] False n show ?thesis by simp
  qed
qed

lemma take_removeAll_notin: "k \<notin> set (take n l) \<Longrightarrow> m \<le> n \<Longrightarrow> take m (removeAll k l) = take m l"
proof (induction l arbitrary: n m)
  case Nil
  then show ?case by simp
next
  case (Cons x l)
  then show ?case by (cases n; cases m) auto
qed

lemma take_first_key:
  "distinct (map key q) \<Longrightarrow> take_first (\<lambda>e. key e = k) q = Some (e, rest) \<Longrightarrow>
     key e = k \<and> map key rest = removeAll k (map key q)"
proof (induction q arbitrary: e rest)
  case Nil
  then show ?case by simp
next
  case (Cons x q)
  show ?case
  proof (cases "key x = k")
    case True
    with Cons.prems have "e = x" "rest = q" "k \<notin> set (map key q)" by auto
    with True show ?thesis by simp
  next
    case False
    with Cons.prems obtain rest' where "take_first (\<lambda>e. key e = k) q = Some (e, rest')" "rest = x # rest'"
      by auto
    with Cons.IH [of e rest'] Cons.prems(1) False show ?thesis by simp
  qed
qed

lemma take_short: "length (take n l) < n \<Longrightarrow> take n l = take (n - 1) l"
  by (cases "length l < n") auto

lemma lru_access_policy:
  assumes "lru_inv c" "lc_max_size c = int n" "n > 0" "distinct l"
    and hit: "hit_elem c = (\<lambda>e k. key e = k)" and fetch: "\<And>k. key (fetch k) = k"
    and q: "map key (elem_queue c) = take n l"
  shows "\<exists>c'. lru_access fetch c k = Some c' \<and> lru_inv c' \<and> lc_max_size c' = int n
     \<and> hit_elem c' = (\<lambda>e k. key e = k) \<and> map key (elem_queue c') = take n (use_key k l)"
proof (cases "take_first (\<lambda>e. key e = k) (elem_queue c)")
  case None
  let ?c = "c\<lparr>miss_count := Suc (miss_count c)\<rparr>"
  have miss: "lru_cache_lookup c k = (None, ?c)"
    using None hit by (simp add: lru_cache_lookup_def)
  have "lru_inv ?c" using assms(1) by (auto simp: lru_inv_def)
  from lru_inv_insert [OF this, of "fetch k"]
  obtain v c' where c': "lru_cache_insert ?c (fetch k) = Some (v, c')" "lru_inv c'" by auto
  from None have "k \<notin> set (map key (elem_queue c))" by (auto simp: take_first_None)
  then have "k \<notin> set (take n l)" by (simp add: q)
  then have t: "take n (use_key k l) = k # take (n - 1) l"
    using assms(3) by (cases n) (auto simp: use_key_def intro: take_removeAll_notin [where n = n])
  have "length (elem_queue c) \<le> n" using assms(1,2,3) by (simp add: lru_inv_def)
  moreover have "map key (butlast (elem_queue c)) = take (n - 1) l" if "length (elem_queue c) = n"
    using that by (simp add: map_butlast q butlast_take flip: length_map [of key])
  moreover have "map key (elem_queue c) = take (n - 1) l" if "length (elem_queue c) \<noteq> n"
  proof -
    have "length (elem_queue c) = length (take n l)" by (metis length_map q)
    with that \<open>length (elem_queue c) \<le> n\<close> have "length (take n l) < n" by linarith
    then show ?thesis using take_short q by metis
  qed
  ultimately have "map key (elem_queue c') = take n (use_key k l)"
    using c'(1) assms(1,2,3) t fetch by (auto simp: lru_cache_insert_def lru_inv_def split: if_splits)
  with miss c' hit assms(2) lru_insert_frame [OF c'(1)] show ?thesis by (auto simp: lru_access_def)
next
  case (Some p)
  then obtain e rest where tf: "take_first (\<lambda>e. key e = k) (elem_queue c) = Some (e, rest)" by (cases p) auto
  let ?c = "c\<lparr>elem_queue := e # rest, hit_count := Suc (hit_count c)\<rparr>"
  have look: "lru_cache_lookup c k = (Some e, ?c)" using tf hit by (simp add: lru_cache_lookup_def)
  have "distinct (map key (elem_queue c))" using assms(4) by (simp add: q)
  from take_first_key [OF this tf] have e: "key e = k" "map key rest = removeAll k (take n l)" by (simp_all add: q)
  have "k \<in> set (take n l)" using tf e(1) by (auto simp flip: q dest: take_first_set)
  then have "map key (e # rest) = take n (use_key k l)"
    using e assms(3) take_removeAll_in [OF assms(4), of k n] by (cases n) (auto simp: use_key_def)
  moreover have "lru_inv ?c" using lru_inv_lookup [OF assms(1), of k] look by simp
  ultimately show ?thesis using look assms(2) hit by (simp add: lru_access_def)
qed

primrec lru_run :: "('k \<Rightarrow> 'a) \<Rightarrow> 'k list \<Rightarrow> ('a, 'k) lruCache \<Rightarrow> ('a, 'k) lruCache option" where
  "lru_run fetch [] c = Some c"
| "lru_run fetch (k # ks) c = lru_access fetch c k \<bind> lru_run fetch ks"

lemma lru_run_policy:
  assumes "n > 0" "\<And>k. key (fetch k) = k"
    and "lru_inv c" "lc_max_size c = int n" "distinct l" "hit_elem c = (\<lambda>e k. key e = k)"
        "map key (elem_queue c) = take n l"
  shows "\<exists>c'. lru_run fetch ks c = Some c' \<and> map key (elem_queue c') = take n (fold use_key ks l)"
  using assms(3-)
proof (induction ks arbitrary: c l)
  case Nil
  then show ?case by simp
next
  case (Cons k ks)
  from lru_access_policy [OF Cons.prems(1,2) assms(1) Cons.prems(3,4) assms(2) Cons.prems(5)]
  obtain c' where "lru_access fetch c k = Some c'" "lru_inv c'" "lc_max_size c' = int n"
    "hit_elem c' = (\<lambda>e k. key e = k)" "map key (elem_queue c') = take n (use_key k l)" by blast
  with Cons.IH [of c' "use_key k l"] Cons.prems(3) show ?case by (auto simp: use_key_distinct)
qed

section \<open>Properties\<close>

text \<open>C39: starting from an empty cache of \<open>n\<close> places, any sequence of accesses (a lookup, and an
  insertion where it misses) leaves the \<open>n\<close> most recently used distinct keys in the cache, the
  most recent first.\<close>

theorem lru_cache_policy:
  assumes "n > 0" "\<And>k. key (fetch k) = k"
  shows "\<exists>c. lru_run fetch ks (new_lru_cache (int n) (\<lambda>e k. key e = k)) = Some c
     \<and> map key (elem_queue c) = take n (fold use_key ks [])"
proof -
  let ?c = "new_lru_cache (int n) (\<lambda>e k. key e = k)"
  have c: "lc_max_size ?c = int n" "distinct []" "hit_elem ?c = (\<lambda>e k. key e = k)" "map key (elem_queue ?c) = take n []"
    by (simp_all add: new_lru_cache_def)
  from lru_run_policy [OF assms lru_inv_new c] show ?thesis .
qed

theorem lru_cache_policy_witness:
  "\<exists>c. lru_run (\<lambda>k. (k, k * k)) [1, 2, 3, 1, 4] (new_lru_cache 2 (\<lambda>e k. fst e = k)) = Some c
     \<and> map fst (elem_queue c) = [4, 1 :: nat]"
  using lru_cache_policy [of 2 fst "\<lambda>k. (k, k * k)" "[1, 2, 3, 1, 4 :: nat]"] by (simp add: use_key_def)

end
