(* ===== verification/Fingerprint_Index.thy ===== *)
theory Fingerprint_Index
  imports Kvstore Sampling Lru_Cache
begin

unbundle bit_operations_syntax

text \<open>
  The fingerprint index: the fingerprint cache (\<^verbatim>\<open>src/destor/src/index/fingerprint_cache.c\<close>), the
  base lookup, the index buffer and the configuration of \<^verbatim>\<open>index.c\<close>, and the similarity-based lookup
  of \<^verbatim>\<open>similarity_detection.c\<close>.

  The units a prefetch reads come from the container store or from the recipe store; the
  record \<open>units\<close> holds the two readers (\<open>retrieve_container_meta_by_id\<close> and
  \<open>prefetch_segments\<close>), so that the lookup does not depend on where a container is at the
  moment. \<open>storage_buffer.container_buffer\<close> is an argument of the lookups.
\<close>

section \<open>State\<close>

datatype fcache = Physical "(containerMeta, fingerprint) lruCache"
  | Logical "(segmentRecipe, fingerprint) lruCache"

record indexElem =
  ie_id :: containerid
  ie_fp :: fingerprint

record fp_index =
  ix_kv :: kvstore
  ix_cache :: fcache
  buffered_fingerprints :: "(fingerprint, indexElem list) ghash"
  ix_chunk_num :: int
  lookup_requests :: int
  update_requests :: int
  lookup_requests_for_unique :: int
  read_prefetching_units :: int

record units =
  fetch_container :: "containerid \<Rightarrow> containerMeta option"
  fetch_segments :: "segmentid \<Rightarrow> segmentRecipe list option"

section \<open>Configuration\<close>

definition index_specific_config :: "destor \<Rightarrow> destor option" where
  "index_specific_config d =
     (case index_specific d of
        INDEX_SPECIFIC_NO \<Rightarrow> Some d
      | INDEX_SPECIFIC_DDFS \<Rightarrow> Some (d\<lparr>index_key_size := 20,
          index_category0 := INDEX_CATEGORY_EXACT, index_category1 := INDEX_CATEGORY_PHYSICAL_LOCALITY\<rparr>)
      | INDEX_SPECIFIC_BLOCK_LOCALITY_CACHING \<Rightarrow> Some (d\<lparr>index_key_size := 20,
          index_category0 := INDEX_CATEGORY_EXACT, index_category1 := INDEX_CATEGORY_LOGICAL_LOCALITY,
          index_sampling_method0 := INDEX_SAMPLING_UNIFORM, index_sampling_method1 := 1,
          index_segment_prefech := (if index_segment_prefech d > 1 then index_segment_prefech d else 16)\<rparr>)
      | INDEX_SPECIFIC_SAMPLED \<Rightarrow> Some (d\<lparr>index_key_size := 20,
          index_category0 := INDEX_CATEGORY_NEAR_EXACT, index_category1 := INDEX_CATEGORY_PHYSICAL_LOCALITY,
          index_sampling_method0 := INDEX_SAMPLING_UNIFORM,
          index_sampling_method1 := (if index_sampling_method1 d > 1 then index_sampling_method1 d else 128)\<rparr>)
      | INDEX_SPECIFIC_SPARSE \<Rightarrow> Some (d\<lparr>index_key_size := 20,
          index_category0 := INDEX_CATEGORY_NEAR_EXACT, index_category1 := INDEX_CATEGORY_LOGICAL_LOCALITY,
          index_segment_algorithm0 := INDEX_SEGMENT_CONTENT_DEFINED,
          index_segment_selection_method0 := INDEX_SEGMENT_SELECT_TOP,
          index_sampling_method0 := INDEX_SAMPLING_RANDOM,
          index_sampling_method1 := (if index_sampling_method1 d > 1 then index_sampling_method1 d else 128),
          index_segment_prefech := 1\<rparr>)
      | INDEX_SPECIFIC_SILO \<Rightarrow> Some (d\<lparr>index_key_size := 20,
          index_category0 := INDEX_CATEGORY_NEAR_EXACT, index_category1 := INDEX_CATEGORY_LOGICAL_LOCALITY,
          index_segment_algorithm0 := INDEX_SEGMENT_FIXED,
          index_segment_selection_method0 := INDEX_SEGMENT_SELECT_TOP, index_segment_selection_method1 := 1,
          index_sampling_method0 := INDEX_SAMPLING_MIN, index_sampling_method1 := 0,
          index_segment_prefech := (if index_segment_prefech d > 1 then index_segment_prefech d else 16)\<rparr>)
      | INDEX_SPECIFIC_EXTREME_BINNING \<Rightarrow> None)"

definition init_index_config :: "destor \<Rightarrow> destor option" where
  "init_index_config d = do {
     d \<leftarrow> index_specific_config d;
     let d = (if index_category0 d = INDEX_CATEGORY_EXACT then d\<lparr>index_key_size := 20\<rparr> else d);
     let d = (if index_category1 d = INDEX_CATEGORY_PHYSICAL_LOCALITY
              then (let d = d\<lparr>index_segment_algorithm0 := INDEX_SEGMENT_FIXED\<rparr> in
                    if index_category0 d = INDEX_CATEGORY_EXACT
                    then d\<lparr>index_sampling_method0 := INDEX_SAMPLING_UNIFORM, index_sampling_method1 := 1\<rparr> else d)
              else d);
     assertion (index_key_size d > 0 \<and> index_key_size d \<le> 20);
     Some d
   }"

definition init_fingerprint_cache :: "destor \<Rightarrow> fcache" where
  "init_fingerprint_cache d = (case index_category1 d of
      INDEX_CATEGORY_PHYSICAL_LOCALITY \<Rightarrow>
        Physical (new_lru_cache (index_cache_size d) lookup_fingerprint_in_container_meta)
    | INDEX_CATEGORY_LOGICAL_LOCALITY \<Rightarrow>
        Logical (new_lru_cache (index_cache_size d) lookup_fingerprint_in_segment_recipe))"

definition init_index :: "bool \<Rightarrow> byte list option \<Rightarrow> destor \<Rightarrow> (destor \<times> fp_index) option" where
  "init_index be dump d = do {
     d \<leftarrow> init_index_config d;
     kv \<leftarrow> init_kvstore_htable be d dump;
     Some (d, \<lparr>ix_kv = kv, ix_cache = init_fingerprint_cache d, buffered_fingerprints = [], ix_chunk_num = 0,
               lookup_requests = 0, update_requests = 0, lookup_requests_for_unique = 0,
               read_prefetching_units = 0\<rparr>)
   }"

section \<open>The fingerprint cache\<close>

definition fingerprint_cache_lookup :: "fp_index \<Rightarrow> fingerprint \<Rightarrow> (int \<times> fp_index) option" where
  "fingerprint_cache_lookup ix fp =
     (case ix_cache ix of
        Physical c \<Rightarrow>
          (case lru_cache_lookup c fp of
             (Some cm, c') \<Rightarrow> Some (cm_id cm, ix\<lparr>ix_cache := Physical c'\<rparr>)
           | (None, c') \<Rightarrow> Some (TEMPORARY_ID, ix\<lparr>ix_cache := Physical c'\<rparr>))
      | Logical c \<Rightarrow>
          (case lru_cache_lookup c fp of
             (Some sr, c') \<Rightarrow> do {
               cp \<leftarrow> map_of (sr_kvpairs sr) fp;
               assertion (cp_id cp > TEMPORARY_ID);
               Some (cp_id cp, ix\<lparr>ix_cache := Logical c'\<rparr>)
             }
           | (None, c') \<Rightarrow> Some (TEMPORARY_ID, ix\<lparr>ix_cache := Logical c'\<rparr>)))"

definition cache_segment ::
    "segmentRecipe \<Rightarrow> (segmentRecipe, fingerprint) lruCache \<Rightarrow> (segmentRecipe, fingerprint) lruCache option" where
  "cache_segment sr c =
     (case lru_cache_hits c (sr_id sr) segment_recipe_check_id of
        (Some _, c') \<Rightarrow> Some c'
      | (None, c') \<Rightarrow> map_option snd (lru_cache_insert c' sr))"

definition fingerprint_cache_prefetch :: "units \<Rightarrow> fp_index \<Rightarrow> int \<Rightarrow> fp_index option" where
  "fingerprint_cache_prefetch u ix i =
     (case ix_cache ix of
        Physical c \<Rightarrow> do {
          cm \<leftarrow> fetch_container u i;
          (_, c') \<leftarrow> lru_cache_insert c cm;
          Some (ix\<lparr>ix_cache := Physical c', read_prefetching_units := read_prefetching_units ix + 1\<rparr>)
        }
      | Logical c \<Rightarrow>
          (case lru_cache_hits c i segment_recipe_check_id of
             (Some _, c') \<Rightarrow> Some (ix\<lparr>ix_cache := Logical c'\<rparr>)
           | (None, c') \<Rightarrow> do {
               segments \<leftarrow> fetch_segments u i;
               c'' \<leftarrow> fold_opt cache_segment (rev segments) c';
               Some (ix\<lparr>ix_cache := Logical c'', read_prefetching_units := read_prefetching_units ix + 1\<rparr>)
             }))"

section \<open>Looking up one chunk\<close>

definition check_storage_buffer :: "container option \<Rightarrow> chunk \<Rightarrow> chunk" where
  "check_storage_buffer buf c =
     (case buf of
        Some b \<Rightarrow> if lookup_fingerprint_in_container b (ck_fp c)
                   then SET_CHUNK (SET_CHUNK (c\<lparr>ck_id := get_container_id b\<rparr>) CHUNK_DUPLICATE) CHUNK_REWRITE_DENIED
                   else c
      | None \<Rightarrow> c)"

definition check_buffered :: "fp_index \<Rightarrow> chunk \<Rightarrow> chunk option" where
  "check_buffered ix c =
     (case map_of (buffered_fingerprints ix) (ck_fp c) of
        None \<Rightarrow> Some c
      | Some tq \<Rightarrow>
          if CHECK_CHUNK c CHUNK_DUPLICATE then Some c
          else (case tq of
                  [] \<Rightarrow> None
                | e # _ \<Rightarrow> Some (SET_CHUNK (c\<lparr>ck_id := ie_id e\<rparr>) CHUNK_DUPLICATE)))"

definition check_cache :: "chunk \<Rightarrow> fp_index \<Rightarrow> (chunk \<times> fp_index) option" where
  "check_cache c ix =
     (if CHECK_CHUNK c CHUNK_DUPLICATE then Some (c, ix)
      else do {
        (i, ix) \<leftarrow> fingerprint_cache_lookup ix (ck_fp c);
        Some (if i \<noteq> TEMPORARY_ID then SET_CHUNK (c\<lparr>ck_id := i\<rparr>) CHUNK_DUPLICATE else c, ix)
      })"

definition check_kvstore :: "units \<Rightarrow> destor \<Rightarrow> chunk \<Rightarrow> fp_index \<Rightarrow> (chunk \<times> fp_index) option" where
  "check_kvstore u d c ix =
     (if CHECK_CHUNK c CHUNK_DUPLICATE then Some (c, ix)
      else case kvstore_htable_lookup d (ix_kv ix) (ck_fp c) of
        Some ids \<Rightarrow> do {
          let ix = ix\<lparr>lookup_requests := lookup_requests ix + 1\<rparr>;
          ix \<leftarrow> fingerprint_cache_prefetch u ix (hd ids);
          (i, ix) \<leftarrow> fingerprint_cache_lookup ix (ck_fp c);
          Some (if i \<noteq> TEMPORARY_ID then SET_CHUNK (c\<lparr>ck_id := i\<rparr>) CHUNK_DUPLICATE else c, ix)
        }
      | None \<Rightarrow> Some (c, ix\<lparr>lookup_requests_for_unique := lookup_requests_for_unique ix + 1\<rparr>))"

definition buffer_insert :: "chunk \<Rightarrow> fp_index \<Rightarrow> fp_index" where
  "buffer_insert c ix =
     (let tq = (case map_of (buffered_fingerprints ix) (ck_fp c) of None \<Rightarrow> [] | Some tq \<Rightarrow> tq);
          ne = \<lparr>ie_id = ck_id c, ie_fp = ck_fp c\<rparr>
      in ix\<lparr>buffered_fingerprints := AList.update (ck_fp c) (tq @ [ne]) (buffered_fingerprints ix),
            ix_chunk_num := ix_chunk_num ix + 1\<rparr>)"

text \<open>\<open>use_kv\<close> says whether the key-value store is asked: always in the base lookup, for exact
  or mixed selection in the similarity-based one.\<close>

definition lookup_chunk ::
    "units \<Rightarrow> destor \<Rightarrow> container option \<Rightarrow> bool \<Rightarrow> chunk \<Rightarrow> fp_index \<Rightarrow> (chunk \<times> fp_index) option" where
  "lookup_chunk u d buf use_kv c ix =
     (if is_file_signal c then Some (c, ix)
      else do {
        let c = check_storage_buffer buf c;
        c \<leftarrow> check_buffered ix c;
        (c, ix) \<leftarrow> check_cache c ix;
        (c, ix) \<leftarrow> (if use_kv then check_kvstore u d c ix else Some (c, ix));
        Some (c, buffer_insert c ix)
      })"

fun lookup_chunks ::
    "units \<Rightarrow> destor \<Rightarrow> container option \<Rightarrow> bool \<Rightarrow> chunk list \<Rightarrow> fp_index \<Rightarrow> (chunk list \<times> fp_index) option" where
  "lookup_chunks u d buf use_kv [] ix = Some ([], ix)"
| "lookup_chunks u d buf use_kv (c # cs) ix = do {
     (c', ix) \<leftarrow> lookup_chunk u d buf use_kv c ix;
     (cs', ix) \<leftarrow> lookup_chunks u d buf use_kv cs ix;
     Some (c' # cs', ix)
   }"

definition index_lookup_base ::
    "units \<Rightarrow> destor \<Rightarrow> container option \<Rightarrow> segment \<Rightarrow> fp_index \<Rightarrow> (segment \<times> fp_index) option" where
  "index_lookup_base u d buf s ix = do {
     (cs, ix) \<leftarrow> lookup_chunks u d buf True (sg_chunks s) ix;
     Some (s\<lparr>sg_chunks := cs\<rparr>, ix)
   }"

section \<open>Similar segments\<close>

definition feature_count :: "segment \<Rightarrow> int" where
  "feature_count s = (case sg_features s of None \<Rightarrow> 0 | Some fs \<Rightarrow> int (length fs))"

definition g_segment_cmp_feature_num :: "segment \<Rightarrow> segment \<Rightarrow> int" where
  "g_segment_cmp_feature_num a b =
     (let ret = feature_count b - feature_count a
      in if ret = 0 then (if sg_id b > sg_id a then 1 else -1) else ret)"

definition features_trim :: "segment \<Rightarrow> segment \<Rightarrow> segment" where
  "features_trim best target =
     target\<lparr>sg_features := map_option (filter (\<lambda>f. f \<notin> set (case sg_features best of None \<Rightarrow> [] | Some fs \<Rightarrow> fs)))
              (sg_features target)\<rparr>"

text \<open>One feature shared with segment \<open>i\<close>.\<close>

definition similar_add ::
    "byte list \<Rightarrow> segmentid \<Rightarrow> (segmentid, segment) ghash \<Rightarrow> (segmentid, segment) ghash option" where
  "similar_add f i sims = do {
     let s = (case map_of sims i of Some s \<Rightarrow> s | None \<Rightarrow> new_segment_full\<lparr>sg_id := i\<rparr>);
     fs \<leftarrow> sg_features s;
     assertion (f \<notin> set fs);
     Some (AList.update i (s\<lparr>sg_features := Some (fs @ [f])\<rparr>) sims)
   }"

definition similar_feature ::
    "destor \<Rightarrow> byte list \<Rightarrow> (segmentid, segment) ghash \<times> fp_index \<Rightarrow> ((segmentid, segment) ghash \<times> fp_index) option" where
  "similar_feature d f = (\<lambda>(sims, ix).
     case kvstore_htable_lookup d (ix_kv ix) f of
       Some ids \<Rightarrow> do {
         sims \<leftarrow> fold_opt (similar_add f) (takeWhile (\<lambda>i. i \<noteq> TEMPORARY_ID) (take (index_value_length d) ids)) sims;
         Some (sims, ix\<lparr>lookup_requests := lookup_requests ix + 1\<rparr>)
       }
     | None \<Rightarrow> Some (sims, ix\<lparr>lookup_requests_for_unique := lookup_requests_for_unique ix + 1\<rparr>))"

definition sort_segments :: "segment list \<Rightarrow> segment list" where
  "sort_segments ss = foldl (\<lambda>xs s. insert_sorted g_segment_cmp_feature_num s xs) [] ss"

fun prefetch_top :: "units \<Rightarrow> nat \<Rightarrow> segment list \<Rightarrow> fp_index \<Rightarrow> fp_index option" where
  "prefetch_top u 0 sq ix = Some ix"
| "prefetch_top u (Suc n) [] ix = None"
| "prefetch_top u (Suc n) (best # sq) ix = do {
     ix \<leftarrow> fingerprint_cache_prefetch u ix (sg_id best);
     prefetch_top u n (sort_segments (map (features_trim best) sq)) ix
   }"

definition top_segment_select ::
    "(byte list list \<Rightarrow> byte list list) \<Rightarrow> units \<Rightarrow> destor \<Rightarrow> byte list list \<Rightarrow> fp_index \<Rightarrow> fp_index option" where
  "top_segment_select ord u d features ix = do {
     (sims, ix) \<leftarrow> fold_opt (similar_feature d) (ord features) ([], ix);
     let sq = sort_segments (map snd sims);
     prefetch_top u (if int (length sq) > index_segment_selection_method1 d
                     then nat (index_segment_selection_method1 d) else length sq) sq ix
   }"

definition index_lookup_similarity_detection ::
    "(byte list list \<Rightarrow> byte list list) \<Rightarrow> units \<Rightarrow> destor \<Rightarrow> container option \<Rightarrow> segment \<Rightarrow> fp_index \<Rightarrow>
     (segment \<times> fp_index) option" where
  "index_lookup_similarity_detection ord u d buf s ix = do {
     features \<leftarrow> sg_features s;
     ix \<leftarrow> top_segment_select ord u d features ix;
     (cs, ix) \<leftarrow> lookup_chunks u d buf
        (index_category0 d = INDEX_CATEGORY_EXACT \<or> index_segment_selection_method0 d = INDEX_SEGMENT_SELECT_MIX)
        (sg_chunks s) ix;
     Some (s\<lparr>sg_chunks := cs\<rparr>, ix)
   }"

section \<open>Index operations\<close>

text \<open>The first component is the return value: \<open>False\<close> when the index buffer is full.\<close>

definition index_lookup ::
    "bool \<Rightarrow> (byte list list \<Rightarrow> byte list list) \<Rightarrow> units \<Rightarrow> destor \<Rightarrow> int \<Rightarrow> container option \<Rightarrow> segment \<Rightarrow> fp_index \<Rightarrow>
     (bool \<times> segment \<times> fp_index) option" where
  "index_lookup be ord u d wait_threshold buf s ix =
     (if wait_threshold > 0 \<and> ix_chunk_num ix \<ge> wait_threshold then Some (False, s, ix)
      else if index_category1 d = INDEX_CATEGORY_LOGICAL_LOCALITY
              \<and> index_segment_selection_method0 d \<noteq> INDEX_SEGMENT_SELECT_BASE
      then do {
        fs \<leftarrow> sampling be d (sg_chunks s) (sg_chunk_num s);
        (s, ix) \<leftarrow> index_lookup_similarity_detection ord u d buf (s\<lparr>sg_features := Some fs\<rparr>) ix;
        Some (True, s, ix)
      }
      else do {
        (s, ix) \<leftarrow> index_lookup_base u d buf s ix;
        Some (True, s, ix)
      })"

definition index_update ::
    "(byte list list \<Rightarrow> byte list list) \<Rightarrow> destor \<Rightarrow> byte list list \<Rightarrow> int \<Rightarrow> fp_index \<Rightarrow> fp_index" where
  "index_update ord d features i ix =
     fold (\<lambda>f ix. ix\<lparr>update_requests := update_requests ix + 1,
                    ix_kv := kvstore_htable_update d (ix_kv ix) f i\<rparr>) (ord features) ix"

definition index_delete :: "destor \<Rightarrow> fingerprint \<Rightarrow> int \<Rightarrow> fp_index \<Rightarrow> fp_index option" where
  "index_delete d fp i ix = map_option (\<lambda>kv. ix\<lparr>ix_kv := kv\<rparr>) (kvstore_htable_delete d (ix_kv ix) fp i)"

definition check_buffer_chunk :: "fp_index \<Rightarrow> chunk \<Rightarrow> chunk option" where
  "check_buffer_chunk ix c =
     (if is_file_signal c then Some c
      else if (CHECK_CHUNK c CHUNK_DUPLICATE \<and> ck_id c = TEMPORARY_ID)
              \<or> CHECK_CHUNK c CHUNK_OUT_OF_ORDER \<or> CHECK_CHUNK c CHUNK_SPARSE
      then (case map_of (buffered_fingerprints ix) (ck_fp c) of
              Some (e # _) \<Rightarrow>
                Some (if ie_id e > ck_id c
                      then (if ck_id c \<noteq> TEMPORARY_ID then SET_CHUNK c CHUNK_REWRITE_DENIED else c)\<lparr>ck_id := ie_id e\<rparr>
                      else c)
            | _ \<Rightarrow> None)
      else Some c)"

fun map_opt :: "('a \<Rightarrow> 'b option) \<Rightarrow> 'a list \<Rightarrow> 'b list option" where
  "map_opt f [] = Some []"
| "map_opt f (x # xs) = do { y \<leftarrow> f x; ys \<leftarrow> map_opt f xs; Some (y # ys) }"

definition index_check_buffer :: "fp_index \<Rightarrow> segment \<Rightarrow> segment option" where
  "index_check_buffer ix s = map_option (\<lambda>cs. s\<lparr>sg_chunks := cs\<rparr>) (map_opt (check_buffer_chunk ix) (sg_chunks s))"

definition update_buffer_chunk :: "chunk \<Rightarrow> fp_index \<Rightarrow> fp_index option" where
  "update_buffer_chunk c ix =
     (if is_file_signal c then Some ix
      else do {
        assertion (ck_id c \<noteq> TEMPORARY_ID);
        bq \<leftarrow> map_of (buffered_fingerprints ix) (ck_fp c);
        let bq = tl bq;
        Some (ix\<lparr>buffered_fingerprints :=
                   (if bq = [] then AList.delete (ck_fp c) (buffered_fingerprints ix)
                    else AList.update (ck_fp c) (map (\<lambda>ie. ie\<lparr>ie_id := ck_id c\<rparr>) bq) (buffered_fingerprints ix)),
                 ix_chunk_num := ix_chunk_num ix - 1\<rparr>)
      })"

text \<open>The first component of the result says that the buffer remains full.\<close>

definition index_update_buffer :: "int \<Rightarrow> segment \<Rightarrow> fp_index \<Rightarrow> (bool \<times> fp_index) option" where
  "index_update_buffer wait_threshold s ix = do {
     ix \<leftarrow> fold_opt update_buffer_chunk (sg_chunks s) ix;
     Some (\<not> (wait_threshold \<le> 0 \<or> ix_chunk_num ix < wait_threshold), ix)
   }"

end
