(* ===== verification/Restore.thy ===== *)
theory Restore
  imports Recipe_Segment Fingerprint_Index
begin

unbundle bit_operations_syntax

text \<open>
  The restore job (\<^verbatim>\<open>src/destor/src/do_restore.c\<close>, \<^verbatim>\<open>assembly_restore.c\<close>). The three threads of the job form a pipeline without feedback, so each is a
  function on the stream of chunks it receives. \<open>fetch\<close> is \<open>retrieve_container_by_id\<close>; at the
  simulation levels that read metadata only it gives a container without data.
\<close>

section \<open>Counters and environment\<close>

record restore_jcr =
  rj_data_size :: int
  rj_chunk_num :: int
  rj_read_container_num :: int

record restore_env =
  re_conf :: destor
  re_be :: bool
  re_junk :: "nat \<Rightarrow> byte"
  re_stack :: "byte list"
  re_fetch :: "containerid \<Rightarrow> container option"

definition restore_fetch ::
    "bool \<Rightarrow> ((fingerprint \<times> metaEntry) list \<Rightarrow> (fingerprint \<times> metaEntry) list) \<Rightarrow> simulation_level \<Rightarrow>
     container SyncQueue \<Rightarrow> container_store \<Rightarrow> containerid \<Rightarrow> container option" where
  "restore_fetch be ord sim buf st i =
     (if sim \<ge> SIMULATION_RESTORE
      then map_option (\<lambda>m. \<lparr>con_meta = m, con_data = None\<rparr>) (retrieve_container_meta_by_id be ord sim buf st i)
      else retrieve_container_by_id be sim st i)"

definition count_chunk :: "chunk \<Rightarrow> restore_jcr \<Rightarrow> restore_jcr" where
  "count_chunk c jc = jc\<lparr>rj_data_size := rj_data_size jc + ck_size c, rj_chunk_num := rj_chunk_num jc + 1\<rparr>"

definition count_container :: "restore_jcr \<Rightarrow> restore_jcr" where
  "count_container jc = jc\<lparr>rj_read_container_num := rj_read_container_num jc + 1\<rparr>"

section \<open>Reading the recipe\<close>

fun read_file_chunks ::
    "bool \<Rightarrow> (nat \<Rightarrow> byte) \<Rightarrow> nat \<Rightarrow> backupVersion \<Rightarrow> recipe_statics \<Rightarrow> (chunk list \<times> backupVersion \<times> recipe_statics) option" where
  "read_file_chunks be junk 0 b st = Some ([], b, st)"
| "read_file_chunks be junk (Suc n) b st = do {
     (cps, b, st) \<leftarrow> read_next_n_chunk_pointers be b 1 st;
     case cps of
       [] \<Rightarrow> None
     | cp # _ \<Rightarrow> do {
         let c = (new_chunk junk 0)\<lparr>ck_fp := cp_fp cp, ck_size := cp_size cp, ck_id := cp_id cp\<rparr>;
         (cs, b, st) \<leftarrow> read_file_chunks be junk n b st;
         Some (c # cs, b, st)
       }
   }"

fun read_recipe_files ::
    "bool \<Rightarrow> (nat \<Rightarrow> byte) \<Rightarrow> nat \<Rightarrow> backupVersion \<Rightarrow> recipe_statics \<Rightarrow> (chunk list \<times> backupVersion \<times> recipe_statics) option" where
  "read_recipe_files be junk 0 b st = Some ([], b, st)"
| "read_recipe_files be junk (Suc n) b st = do {
     (r, b, st) \<leftarrow> read_next_file_recipe_meta be b st;
     let c = SET_CHUNK ((new_chunk junk (int (length (fr_filename r)) + 1))\<lparr>ck_data := Some (fr_filename r @ [0])\<rparr>) CHUNK_FILE_START;
     (cs, b, st) \<leftarrow> read_file_chunks be junk (nat (fr_chunknum r)) b st;
     let e = SET_CHUNK (new_chunk junk 0) CHUNK_FILE_END;
     (more, b, st) \<leftarrow> read_recipe_files be junk n b st;
     Some (c # cs @ e # more, b, st)
   }"

definition read_recipe_thread ::
    "bool \<Rightarrow> (nat \<Rightarrow> byte) \<Rightarrow> backupVersion \<Rightarrow> recipe_statics \<Rightarrow> (chunk list \<times> backupVersion \<times> recipe_statics) option" where
  "read_recipe_thread be junk b st = read_recipe_files be junk (nat (number_of_files b)) b st"

section \<open>The LRU cache\<close>

type_synonym con_cache = "(container, fingerprint) lruCache"

definition lru_fetch :: "restore_env \<Rightarrow> containerid \<Rightarrow> con_cache \<Rightarrow> restore_jcr \<Rightarrow> (container \<times> con_cache \<times> restore_jcr) option" where
  "lru_fetch e i cache jc = do {
     con \<leftarrow> re_fetch e i;
     (_, cache) \<leftarrow> lru_cache_insert cache con;
     Some (con, cache, count_container jc)
   }"

definition lru_restore_chunk ::
    "restore_env \<Rightarrow> chunk \<Rightarrow> con_cache \<Rightarrow> restore_jcr \<Rightarrow> (chunk list \<times> con_cache \<times> restore_jcr) option" where
  "lru_restore_chunk e c cache jc =
     (if is_file_signal c then Some ([c], cache, jc)
      else do {
        let (hit, cache) = lru_cache_lookup cache (ck_fp c);
        (out, cache, jc) \<leftarrow>
          (if simulation_level (re_conf e) \<ge> SIMULATION_RESTORE
           then (case hit of
                   Some _ \<Rightarrow> Some ([], cache, jc)
                 | None \<Rightarrow> do {
                     (con, cache, jc) \<leftarrow> lru_fetch e (ck_id c) cache jc;
                     assertion (lookup_fingerprint_in_container con (ck_fp c));
                     Some ([], cache, jc)
                   })
           else do {
             (con, cache, jc) \<leftarrow> (case hit of Some con \<Rightarrow> Some (con, cache, jc) | None \<Rightarrow> lru_fetch e (ck_id c) cache jc);
             rc \<leftarrow> get_chunk_in_container (simulation_level (re_conf e)) (re_junk e) (re_stack e) con (ck_fp c);
             Some ([rc], cache, jc)
           });
        Some (out, cache, count_chunk c jc)
      })"

fun lru_restore ::
    "restore_env \<Rightarrow> chunk list \<Rightarrow> con_cache \<Rightarrow> restore_jcr \<Rightarrow> (chunk list \<times> con_cache \<times> restore_jcr) option" where
  "lru_restore e [] cache jc = Some ([], cache, jc)"
| "lru_restore e (c # cs) cache jc = do {
     (out, cache, jc) \<leftarrow> lru_restore_chunk e c cache jc;
     (outs, cache, jc) \<leftarrow> lru_restore e cs cache jc;
     Some (out @ outs, cache, jc)
   }"

definition lru_restore_thread :: "restore_env \<Rightarrow> chunk list \<Rightarrow> restore_jcr \<Rightarrow> (chunk list \<times> restore_jcr) option" where
  "lru_restore_thread e cs jc = do {
     (out, _, jc) \<leftarrow> lru_restore e cs (new_lru_cache (restore_cache1 (re_conf e)) lookup_fingerprint_in_container) jc;
     Some (out, jc)
   }"

section \<open>The assembly area\<close>

record assembly_area =
  aa_area :: "chunk list"
  aa_area_size :: int
  aa_size :: int

definition init_assembly_area :: "destor \<Rightarrow> assembly_area" where
  "init_assembly_area d = \<lparr>aa_area = [], aa_area_size = (restore_cache1 d - 1) * int CONTAINER_SIZE, aa_size = 0\<rparr>"

definition assemble_chunk :: "restore_env \<Rightarrow> containerid \<Rightarrow> container option \<Rightarrow> chunk \<Rightarrow> chunk option" where
  "assemble_chunk e i con c =
     (if \<not> is_file_signal c \<and> i = ck_id c
      then do {
        c \<leftarrow> (if simulation_level (re_conf e) = SIMULATION_NO
             then do {
               con \<leftarrow> con;
               buf \<leftarrow> get_chunk_in_container SIMULATION_NO (re_junk e) (re_stack e) con (ck_fp c);
               assertion (ck_size c = ck_size buf);
               Some (c\<lparr>ck_data := Some (case ck_data buf of Some bs \<Rightarrow> take (nat (ck_size c)) bs | None \<Rightarrow> [])\<rparr>)
             }
             else Some c);
        Some (SET_CHUNK c CHUNK_READY)
      }
      else Some c)"

definition issued :: "chunk \<Rightarrow> bool" where
  "issued c = (is_file_signal c \<or> CHECK_CHUNK c CHUNK_READY)"

text \<open>The result is \<open>None\<close> inside \<open>Some\<close> where the code returns \<open>NULL\<close>.\<close>

definition assemble_area ::
    "restore_env \<Rightarrow> assembly_area \<Rightarrow> restore_jcr \<Rightarrow> (chunk list option \<times> assembly_area \<times> restore_jcr) option" where
  "assemble_area e a jc =
     (if aa_area a = [] then Some (None, a, jc)
      else (let q = takeWhile is_file_signal (aa_area a); area = dropWhile is_file_signal (aa_area a) in
        case area of
          [] \<Rightarrow> Some (Some q, a\<lparr>aa_area := []\<rparr>, jc)
        | c # _ \<Rightarrow> do {
            let i = ck_id c;
            con \<leftarrow> (if simulation_level (re_conf e) = SIMULATION_NO then map_option Some (re_fetch e i) else Some None);
            area \<leftarrow> map_opt (assemble_chunk e i con) area;
            let out = takeWhile issued area;
            let sz = sum_list (map ck_size (filter (\<lambda>c. \<not> is_file_signal c) out));
            Some (Some (q @ out), a\<lparr>aa_area := dropWhile issued area, aa_size := aa_size a - sz\<rparr>, count_container jc)
          }))"

definition assembly_area_push :: "chunk \<Rightarrow> assembly_area \<Rightarrow> bool \<times> assembly_area" where
  "assembly_area_push c a =
     (let a = a\<lparr>aa_area := aa_area a @ [c]\<rparr> in
      if is_file_signal c then (False, a)
      else let a = a\<lparr>aa_size := aa_size a + ck_size c\<rparr> in (aa_size a \<ge> aa_area_size a, a))"

text \<open>The chunks of an assembled queue go on, data chunks only where the restore is not
  simulated.\<close>

definition issue_queue :: "restore_env \<Rightarrow> chunk list \<Rightarrow> restore_jcr \<Rightarrow> chunk list \<times> restore_jcr" where
  "issue_queue e q jc =
     (filter (\<lambda>c. is_file_signal c \<or> \<not> simulation_level (re_conf e) \<ge> SIMULATION_RESTORE) q,
      fold (\<lambda>c jc. if is_file_signal c then jc else count_chunk c jc) q jc)"

fun assembly_restore_loop ::
    "restore_env \<Rightarrow> chunk list \<Rightarrow> assembly_area \<Rightarrow> restore_jcr \<Rightarrow> (chunk list \<times> assembly_area \<times> restore_jcr) option" where
  "assembly_restore_loop e [] a jc = Some ([], a, jc)"
| "assembly_restore_loop e (c # cs) a jc = do {
     let (full, a) = assembly_area_push c a;
     (out, a, jc) \<leftarrow>
       (if full then do {
          (q, a, jc) \<leftarrow> assemble_area e a jc;
          q \<leftarrow> q;
          let (out, jc) = issue_queue e q jc;
          Some (out, a, jc)
        }
        else Some ([], a, jc));
     (outs, a, jc) \<leftarrow> assembly_restore_loop e cs a jc;
     Some (out @ outs, a, jc)
   }"

lemma map_opt_length: "map_opt f xs = Some ys \<Longrightarrow> length ys = length xs"
  by (induction xs arbitrary: ys) (auto simp: bind_eq_Some_conv)

lemma assemble_chunk_head:
  "assemble_chunk e (ck_id c) con c = Some c' \<Longrightarrow> \<not> is_file_signal c \<Longrightarrow> issued c'"
  by (auto simp: assemble_chunk_def issued_def bind_eq_Some_conv flag_simps split: if_splits)

text \<open>Every round hands on at least one chunk, so the final loop ends.\<close>

lemma assemble_area_cons:
  "dropWhile is_file_signal (aa_area a) = c # cs \<Longrightarrow> assemble_area e a jc = do {
     con \<leftarrow> (if simulation_level (re_conf e) = SIMULATION_NO then map_option Some (re_fetch e (ck_id c)) else Some None);
     area \<leftarrow> map_opt (assemble_chunk e (ck_id c) con) (c # cs);
     Some (Some (takeWhile is_file_signal (aa_area a) @ takeWhile issued area),
       a\<lparr>aa_area := dropWhile issued area,
         aa_size := aa_size a - sum_list (map ck_size (filter (\<lambda>c. \<not> is_file_signal c) (takeWhile issued area)))\<rparr>,
       count_container jc)
   }"
  by (auto simp: assemble_area_def Let_def simp del: map_opt.simps)

lemma assemble_area_shorter:
  assumes "assemble_area e a jc = Some (Some q, a', jc')"
  shows "length (aa_area a') < length (aa_area a)"
proof (cases "dropWhile is_file_signal (aa_area a)")
  case Nil
  have "aa_area a \<noteq> []" using assms by (simp add: assemble_area_def split: if_splits)
  moreover have "aa_area a' = []" using assms Nil by (auto simp add: assemble_area_def split: if_splits simp del: dropWhile_eq_Nil_conv)
  ultimately show ?thesis by simp
next
  case (Cons c cs)
  have sig: "\<not> is_file_signal c" using hd_dropWhile [of is_file_signal "aa_area a"] Cons by auto
  from assms Cons obtain con area where
    1: "map_opt (assemble_chunk e (ck_id c) con) (c # cs) = Some area" "aa_area a' = dropWhile issued area"
    by (auto simp: assemble_area_cons [OF Cons] bind_eq_Some_conv simp del: map_opt.simps)
  then obtain c' cs' where 2: "area = c' # cs'" "assemble_chunk e (ck_id c) con c = Some c'" "length cs' = length cs"
    by (auto simp: bind_eq_Some_conv dest: map_opt_length)
  have "length (dropWhile issued area) \<le> length cs'"
    using assemble_chunk_head [OF 2(2) sig] 2(1) length_dropWhile_le [of issued cs'] by simp
  moreover have "length (c # cs) \<le> length (aa_area a)" using length_dropWhile_le [of is_file_signal "aa_area a"] Cons by simp
  ultimately show ?thesis using 1(2) 2(3) by simp
qed

function assembly_restore_drain ::
    "restore_env \<Rightarrow> assembly_area \<Rightarrow> restore_jcr \<Rightarrow> (chunk list \<times> restore_jcr) option" where
  "assembly_restore_drain e a jc =
     (case assemble_area e a jc of
        None \<Rightarrow> None
      | Some (None, a, jc) \<Rightarrow> Some ([], jc)
      | Some (Some q, a, jc) \<Rightarrow>
          (let (out, jc) = issue_queue e q jc in
           map_option (\<lambda>(outs, jc). (out @ outs, jc)) (assembly_restore_drain e a jc)))"
  by pat_completeness auto
termination
  by (relation "measure (\<lambda>(_, a, _). length (aa_area a))") (auto dest: assemble_area_shorter)

declare assembly_restore_drain.simps [simp del]

definition assembly_restore_thread :: "restore_env \<Rightarrow> chunk list \<Rightarrow> restore_jcr \<Rightarrow> (chunk list \<times> restore_jcr) option" where
  "assembly_restore_thread e cs jc = do {
     (out, a, jc) \<leftarrow> assembly_restore_loop e cs (init_assembly_area (re_conf e)) jc;
     (outs, jc) \<leftarrow> assembly_restore_drain e a jc;
     Some (out @ outs, jc)
   }"

section \<open>Sending the data to the client\<close>

text \<open>\<open>sprintf\<close> of a number that is not negative.\<close>

fun decimal :: "nat \<Rightarrow> byte list" where
  "decimal n = (if n < 10 then [] else decimal (n div 10)) @ [of_nat (48 + n mod 10)]"

declare decimal.simps [simp del]

definition MAX_OEC_FILENAME_LEN :: nat where "MAX_OEC_FILENAME_LEN = 80"

text \<open>The name is printed into a buffer of fixed length; a longer name, its final zero
  included, runs past it.\<close>

definition pkt_name :: "byte list \<Rightarrow> nat \<Rightarrow> byte list option" where
  "pkt_name path n = (let s = path @ [58] @ decimal n in
     if length s < MAX_OEC_FILENAME_LEN then Some s else None)"

definition pkt_data :: "bool \<Rightarrow> int \<Rightarrow> byte list option \<Rightarrow> byte list option" where
  "pkt_data be sz d = do {
     bs \<leftarrow> (if sz > 0 then d else Some []);
     assertion (0 \<le> sz \<and> nat sz \<le> length bs);
     Some (mem_bytes be 4 (htonl be (word_of_int sz)) @ take (nat sz) bs)
   }"

type_synonym packet = "byte list \<times> byte list"

text \<open>\<open>n\<close> is \<open>chunk_num\<close> and \<open>files\<close> the number of files of the job so far.\<close>

fun write_restore_data ::
    "restore_env \<Rightarrow> byte list \<Rightarrow> chunk list \<Rightarrow> nat \<Rightarrow> int \<Rightarrow> (packet list \<times> int) option" where
  "write_restore_data e path [] n files = Some ([], files)"
| "write_restore_data e path (c # cs) n files =
     (if CHECK_CHUNK c CHUNK_FILE_START then write_restore_data e path cs n files
      else if CHECK_CHUNK c CHUNK_FILE_END then do {
        let files = files + 1;
        assertion (files = 1);
        nm \<leftarrow> pkt_name path n;
        (ps, files) \<leftarrow> write_restore_data e path cs (Suc n) files;
        Some ((nm, mem_bytes (re_be e) 4 (htonl (re_be e) 0)) # ps, files)
      }
      else do {
        assertion (simulation_level (re_conf e) = SIMULATION_NO);
        nm \<leftarrow> pkt_name path n;
        bs \<leftarrow> pkt_data (re_be e) (ck_size c) (ck_data c);
        (ps, files) \<leftarrow> write_restore_data e path cs (Suc n) files;
        Some ((nm, bs) # ps, files)
      })"

end
