(* ===== verification/Chunking.thy ===== *)
theory Chunking
  imports Rabin_Window Restore
begin

unbundle bit_operations_syntax

text \<open>
  Cutting a file into chunks: the chunking functions of
  \<^verbatim>\<open>src/destor/src/chunking/rabin_chunking.c\<close> and \<^verbatim>\<open>ae_chunking.c\<close> and the chunk phase of
  \<^verbatim>\<open>src/destor/src/chunk_phase.c\<close>. A chunking function gets the unread bytes of the buffer and
  returns the length of the next chunk. The buffer of the thread has its real length, so a copy
  past its end is the result \<open>None\<close>, as is a read past a table.
\<close>

section \<open>Chunking functions\<close>

record chunk_env =
  ce_conf :: destor
  ce_rabin :: rabin
  ce_rabin_mask :: int
  ce_window_size :: int
  ce_be :: bool
  ce_junk :: "nat \<Rightarrow> byte"

type_synonym chunker = "chunk_env \<Rightarrow> byte list \<Rightarrow> int option"

definition fixed_chunk_data :: chunker where
  "fixed_chunk_data e p =
     (let d = ce_conf e; size = int (length p) in Some (if chunk_avg_size d > size then size else chunk_avg_size d))"

definition byte_at :: "byte list \<Rightarrow> int \<Rightarrow> byte option" where
  "byte_at p i = (if 0 \<le> i \<and> i < int (length p) then Some (p ! nat i) else None)"

definition masked :: "slider \<Rightarrow> int \<Rightarrow> uint64" where
  "masked s k = sl_fp s AND word_of_int k"

function rabin_loop :: "chunk_env \<Rightarrow> byte list \<Rightarrow> int \<Rightarrow> int \<Rightarrow> slider \<Rightarrow> int option" where
  "rabin_loop e p fin i s =
     (if i < fin then do {
        m \<leftarrow> byte_at p (i - 1);
        s \<leftarrow> SLIDE (ce_rabin e) m s;
        if masked s (ce_rabin_mask e) = BREAKMARK_VALUE then Some i else rabin_loop e p fin (i + 1) s
      }
      else Some i)"
  by pat_completeness auto
termination by (relation "measure (\<lambda>(_, _, fin, i, _). nat (fin - i))") auto

declare rabin_loop.simps [simp del]

definition chunk_end :: "chunk_env \<Rightarrow> byte list \<Rightarrow> int" where
  "chunk_end e p = (let d = ce_conf e; n = int (length p) in if n > chunk_max_size d then chunk_max_size d else n)"

definition rabin_chunk_data :: chunker where
  "rabin_chunk_data e p =
     (let n = int (length p); d = ce_conf e in
      if n \<le> chunk_min_size d then Some n
      else rabin_loop e p (chunk_end e p) (chunk_min_size d) slider_init)"

function normalized_loop :: "chunk_env \<Rightarrow> byte list \<Rightarrow> int \<Rightarrow> int \<Rightarrow> slider \<Rightarrow> int option" where
  "normalized_loop e p fin i s =
     (if i < fin then do {
        m \<leftarrow> byte_at p (i - 1);
        s \<leftarrow> SLIDE (ce_rabin e) m s;
        let avg = chunk_avg_size (ce_conf e);
        let k = (if i < avg then avg * 2 - 1 else avg div 2 - 1);
        if masked s k = BREAKMARK_VALUE then Some i else normalized_loop e p fin (i + 1) s
      }
      else Some i)"
  by pat_completeness auto
termination by (relation "measure (\<lambda>(_, _, fin, i, _). nat (fin - i))") auto

declare normalized_loop.simps [simp del]

definition normalized_rabin_chunk_data :: chunker where
  "normalized_rabin_chunk_data e p =
     (let n = int (length p); d = ce_conf e in
      if n \<le> chunk_min_size d then Some n
      else normalized_loop e p (chunk_end e p) (chunk_min_size d) slider_init)"

text \<open>\<open>m\<close> is the last position where the weaker condition held, 0 before there is one.\<close>

function tttd_loop :: "chunk_env \<Rightarrow> byte list \<Rightarrow> int \<Rightarrow> int \<Rightarrow> int \<Rightarrow> slider \<Rightarrow> int option" where
  "tttd_loop e p fin i m s =
     (if i < fin then do {
        b \<leftarrow> byte_at p (i - 1);
        s \<leftarrow> SLIDE (ce_rabin e) b s;
        if masked s (chunk_avg_size (ce_conf e) div 2 - 1) = BREAKMARK_VALUE
        then (if masked s (ce_rabin_mask e) = BREAKMARK_VALUE then Some i else tttd_loop e p fin (i + 1) i s)
        else tttd_loop e p fin (i + 1) m s
      }
      else Some (if m \<noteq> 0 then m else i))"
  by pat_completeness auto
termination by (relation "measure (\<lambda>(_, _, fin, i, _, _). nat (fin - i))") auto

declare tttd_loop.simps [simp del]

definition tttd_chunk_data :: chunker where
  "tttd_chunk_data e p =
     (let n = int (length p); d = ce_conf e in
      if n \<le> chunk_min_size d then Some n
      else tttd_loop e p (chunk_end e p) (chunk_min_size d) 0 slider_init)"

text \<open>The eight bytes at a position, loaded by the host and swapped.\<close>

definition ae_value :: "chunk_env \<Rightarrow> byte list \<Rightarrow> nat \<Rightarrow> uint64" where
  "ae_value e p i = mem_word (\<not> ce_be e) (take 8 (drop i p))"

definition my_memcmp :: "uint64 \<Rightarrow> uint64 \<Rightarrow> int" where
  "my_memcmp a b = (if a > b then 1 else -1)"

function ae_loop :: "chunk_env \<Rightarrow> byte list \<Rightarrow> nat \<Rightarrow> nat \<Rightarrow> int" where
  "ae_loop e p cur mx =
     (if cur + 8 \<le> length p
      then (if my_memcmp (ae_value e p cur) (ae_value e p mx) < 0 then ae_loop e p (Suc cur) cur
            else if int cur = int mx + ce_window_size e \<or> int cur = chunk_max_size (ce_conf e) then int cur
            else ae_loop e p (Suc cur) mx)
      else int (length p))"
  by pat_completeness auto
termination by (relation "measure (\<lambda>(_, p, cur, _). length p - cur)") auto

declare ae_loop.simps [simp del]

definition ae_chunk_data :: chunker where
  "ae_chunk_data e p =
     Some (if int (length p) \<le> ce_window_size e + 8 then int (length p) else ae_loop e p 1 0)"

definition ae_init :: "chunk_env \<Rightarrow> chunk_env" where
  "ae_init e = e\<lparr>ce_window_size := \<lfloor>real_of_int (chunk_avg_size (ce_conf e)) / (2.718281828 - 1)\<rfloor>\<rparr>"

definition chunkAlg_init :: "chunk_env \<Rightarrow> chunk_env option" where
  "chunkAlg_init e = do {
     r \<leftarrow> window_init FINGERPRINT_PT (ce_rabin e);
     Some (e\<lparr>ce_rabin := windows_reset r, ce_rabin_mask := chunk_avg_size (ce_conf e) - 1\<rparr>)
   }"

definition chunking :: chunker where
  "chunking e = (case chunk_algorithm (ce_conf e) of
     CHUNK_RABIN \<Rightarrow> rabin_chunk_data e
   | CHUNK_NORMALIZED_RABIN \<Rightarrow> normalized_rabin_chunk_data e
   | CHUNK_TTTD \<Rightarrow> tttd_chunk_data e
   | CHUNK_FIXED \<Rightarrow> fixed_chunk_data e
   | CHUNK_FILE \<Rightarrow> fixed_chunk_data e
   | CHUNK_AE \<Rightarrow> ae_chunk_data e)"

section \<open>Starting the phase\<close>

fun bit_length :: "nat \<Rightarrow> nat" where
  "bit_length n = (if n = 0 then 0 else Suc (bit_length (n div 2)))"

declare bit_length.simps [simp del]

text \<open>The loop that shifts the average size does not end for a negative number, and a shift by
  \<open>-1\<close> is undefined.\<close>

definition round_avg :: "destor \<Rightarrow> destor option" where
  "round_avg d = do {
     assertion (chunk_avg_size d > 0);
     let d = d\<lparr>chunk_avg_size := 2 ^ (bit_length (nat (chunk_avg_size d)) - 1)\<rparr>;
     assertion (chunk_avg_size d \<ge> chunk_min_size d);
     assertion (chunk_avg_size d \<le> chunk_max_size d);
     assertion (chunk_max_size d \<le> int CONTAINER_SIZE - int CONTAINER_META_SIZE);
     Some d
   }"

definition start_chunk_phase :: "chunk_env \<Rightarrow> chunk_env option" where
  "start_chunk_phase e =
     (let d = ce_conf e; room = int CONTAINER_SIZE - int CONTAINER_META_SIZE in
      case chunk_algorithm d of
        CHUNK_FIXED \<Rightarrow> do {
          assertion (chunk_avg_size d \<le> room);
          Some (e\<lparr>ce_conf := d\<lparr>chunk_max_size := chunk_avg_size d\<rparr>\<rparr>)
        }
      | CHUNK_FILE \<Rightarrow> Some (e\<lparr>ce_conf := d\<lparr>chunk_avg_size := room, chunk_max_size := room\<rparr>\<rparr>)
      | CHUNK_AE \<Rightarrow> do {
          assertion (chunk_avg_size d \<le> chunk_max_size d);
          assertion (chunk_max_size d \<le> room);
          Some (ae_init e)
        }
      | _ \<Rightarrow> do {
          d \<leftarrow> round_avg d;
          chunkAlg_init (e\<lparr>ce_conf := d\<rparr>)
        })"

section \<open>The thread\<close>

definition DEFAULT_BLOCK_SIZE :: nat where "DEFAULT_BLOCK_SIZE = 1048576"

definition mem_read :: "byte list \<Rightarrow> nat \<Rightarrow> nat \<Rightarrow> byte list option" where
  "mem_read b off n = (if off + n \<le> length b then Some (take n (drop off b)) else None)"

definition mem_write :: "byte list \<Rightarrow> nat \<Rightarrow> byte list \<Rightarrow> byte list option" where
  "mem_write b off bs = (if off + length bs \<le> length b then Some (take off b @ bs @ drop (off + length bs) b) else None)"

definition chunk_bytes :: "chunk \<Rightarrow> byte list option" where
  "chunk_bytes c = (if ck_size c = 0 then Some [] else do {
     bs \<leftarrow> ck_data c;
     assertion (0 \<le> ck_size c \<and> nat (ck_size c) \<le> length bs);
     Some (take (nat (ck_size c)) bs)
   })"

record chunk_counts =
  cc_chunk_num :: int
  cc_zero_chunk_num :: int
  cc_zero_chunk_size :: int

text \<open>The unread bytes of the file are \<open>len\<close> bytes of the buffer from \<open>off\<close> on; \<open>c\<close> is the end
  signal of the file once it has been received.\<close>

fun fill_leftbuf ::
    "chunk_env \<Rightarrow> chunk list \<Rightarrow> byte list \<Rightarrow> nat \<Rightarrow> nat \<Rightarrow> (chunk list \<times> byte list \<times> nat \<times> nat \<times> chunk option) option" where
  "fill_leftbuf e q buf off len =
     (if int len < chunk_max_size (ce_conf e)
      then (case q of
              [] \<Rightarrow> None
            | c # q \<Rightarrow>
                if CHECK_CHUNK c CHUNK_FILE_END then Some (q, buf, off, len, Some c)
                else do {
                  left \<leftarrow> mem_read buf off len;
                  buf \<leftarrow> mem_write buf 0 left;
                  bs \<leftarrow> chunk_bytes c;
                  buf \<leftarrow> mem_write buf len bs;
                  fill_leftbuf e q buf 0 (len + length bs)
                })
      else Some (q, buf, off, len, None))"

declare fill_leftbuf.simps [simp del]

definition count_cut :: "byte list \<Rightarrow> chunk_counts \<Rightarrow> chunk_counts" where
  "count_cut bs cc =
     (let cc = cc\<lparr>cc_chunk_num := cc_chunk_num cc + 1\<rparr> in
      if list_all (\<lambda>b. b = 0) bs
      then cc\<lparr>cc_zero_chunk_num := cc_zero_chunk_num cc + 1, cc_zero_chunk_size := cc_zero_chunk_size cc + int (length bs)\<rparr>
      else cc)"

text \<open>The chunk is compared with \<open>chunk_max_size\<close> zeros, so a longer chunk is compared past the
  end of the array of zeros. A chunking function never returns more than it was given.\<close>

partial_function (option) cut_file ::
    "chunker \<Rightarrow> chunk_env \<Rightarrow> chunk list \<Rightarrow> byte list \<Rightarrow> nat \<Rightarrow> nat \<Rightarrow> chunk option \<Rightarrow> chunk_counts \<Rightarrow>
     (chunk list \<times> chunk \<times> chunk list \<times> byte list \<times> chunk_counts) option" where
  "cut_file cutf e q buf off len c cc = do {
     (q, buf, off, len, c) \<leftarrow> (case c of None \<Rightarrow> fill_leftbuf e q buf off len | Some _ \<Rightarrow> Some (q, buf, off, len, c));
     if len = 0 then do { c \<leftarrow> c; Some ([], c, q, buf, cc) }
     else do {
       p \<leftarrow> mem_read buf off len;
       n \<leftarrow> cutf e p;
       assertion (0 \<le> n \<and> n \<le> int len);
       data \<leftarrow> mem_read buf off (nat n);
       assertion (n \<le> chunk_max_size (ce_conf e));
       let nc = (new_chunk (ce_junk e) n)\<lparr>ck_data := if n > 0 then Some data else None\<rparr>;
       (out, c, q, buf, cc) \<leftarrow> cut_file cutf e q buf (off + nat n) (len - nat n) c (count_cut data cc);
       Some (nc # out, c, q, buf, cc)
     }
   }"

definition reset_windows :: "chunk_env \<Rightarrow> chunk_env" where
  "reset_windows e = (if chunk_algorithm (ce_conf e) \<in> {CHUNK_RABIN, CHUNK_NORMALIZED_RABIN}
     then e\<lparr>ce_rabin := windows_reset (ce_rabin e)\<rparr> else e)"

partial_function (option) chunk_files ::
    "chunker \<Rightarrow> chunk_env \<Rightarrow> chunk list \<Rightarrow> byte list \<Rightarrow> chunk_counts \<Rightarrow> (chunk list \<times> chunk_counts) option" where
  "chunk_files cutf e q buf cc =
     (case q of
        [] \<Rightarrow> Some ([], cc)
      | c # q \<Rightarrow> do {
          assertion (CHECK_CHUNK c CHUNK_FILE_START);
          (case q of
             [] \<Rightarrow> None
           | c1 # q \<Rightarrow> do {
               (buf, len, fe) \<leftarrow>
                 (if CHECK_CHUNK c1 CHUNK_FILE_END then Some (buf, 0, Some c1)
                  else do {
                    bs \<leftarrow> chunk_bytes c1;
                    buf \<leftarrow> mem_write buf 0 bs;
                    Some (buf, length bs, None)
                  });
               (out, fe, q, buf, cc) \<leftarrow> cut_file cutf e q buf 0 len fe cc;
               (outs, cc) \<leftarrow> chunk_files cutf (reset_windows e) q buf cc;
               Some (c # out @ fe # outs, cc)
             })
        })"

definition chunk_thread :: "chunk_env \<Rightarrow> chunk list \<Rightarrow> chunk_counts \<Rightarrow> (chunk list \<times> chunk_counts) option" where
  "chunk_thread e q cc =
     chunk_files chunking e q (map (ce_junk e) [0..<DEFAULT_BLOCK_SIZE + nat (chunk_max_size (ce_conf e))]) cc"

end
