(* ===== verification/Chunking_Correct.thy ===== *)
theory Chunking_Correct
  imports Chunking
begin

unbundle bit_operations_syntax

text \<open>
  Chunking neither loses nor invents data: the contract of a chunking function as a locale, the
  chunk thread proved once on top of it, and the contract for every algorithm.
\<close>

section \<open>The contract of a chunking function\<close>

definition cut_of :: "chunk_env \<Rightarrow> byte list \<Rightarrow> chunk list \<Rightarrow> bool" where
  "cut_of e bs cs = (concat (map (\<lambda>c. the (ck_data c)) cs) = bs
     \<and> (\<forall>c \<in> set cs. \<exists>d. d \<noteq> [] \<and> int (length d) \<le> chunk_max_size (ce_conf e)
          \<and> c = (new_chunk (ce_junk e) (int (length d)))\<lparr>ck_data := Some d\<rparr>))"

definition block_ok :: "chunk \<Rightarrow> bool" where
  "block_ok c = (\<not> CHECK_CHUNK c CHUNK_FILE_END \<and> (\<exists>bs. chunk_bytes c = Some bs \<and> length bs \<le> DEFAULT_BLOCK_SIZE))"

definition blocks_bytes :: "chunk list \<Rightarrow> byte list" where
  "blocks_bytes cs = concat (map (\<lambda>c. the (chunk_bytes c)) cs)"

lemma blocks_bytes_simps [simp]:
  "blocks_bytes [] = []" "blocks_bytes (c # cs) = the (chunk_bytes c) @ blocks_bytes cs"
  "blocks_bytes (cs @ ds) = blocks_bytes cs @ blocks_bytes ds"
  by (simp_all add: blocks_bytes_def)

definition buf_ok :: "chunk_env \<Rightarrow> byte list \<Rightarrow> nat \<Rightarrow> nat \<Rightarrow> bool" where
  "buf_ok e buf off len = (length buf = DEFAULT_BLOCK_SIZE + nat (chunk_max_size (ce_conf e)) \<and> off + len \<le> length buf)"

abbreviation unread :: "byte list \<Rightarrow> nat \<Rightarrow> nat \<Rightarrow> byte list" where
  "unread buf off len \<equiv> take len (drop off buf)"

lemma fill_leftbuf_ok:
  assumes "buf_ok e buf off len" "\<forall>c \<in> set blocks. block_ok c" "CHECK_CHUNK en CHUNK_FILE_END"
  shows "\<exists>b1 b2 buf' off' len' q c. fill_leftbuf e (blocks @ en # later) buf off len = Some (q, buf', off', len', c)
     \<and> blocks = b1 @ b2 \<and> buf_ok e buf' off' len' \<and> unread buf' off' len' = unread buf off len @ blocks_bytes b1
     \<and> (c = None \<and> q = b2 @ en # later \<and> chunk_max_size (ce_conf e) \<le> int len' \<or> c = Some en \<and> q = later \<and> b2 = [])"
  using assms
proof (induction blocks arbitrary: buf off len)
  case Nil
  then show ?case
    by (subst fill_leftbuf.simps) (auto intro!: exI [of _ "[]"])
next
  case (Cons c blocks)
  show ?case
  proof (cases "int len < chunk_max_size (ce_conf e)")
    case False
    with Cons.prems show ?thesis by (subst fill_leftbuf.simps) (auto intro!: exI [of _ "[]"] exI [of _ "c # blocks"])
  next
    case True
    from Cons.prems(2) obtain bs where bs: "chunk_bytes c = Some bs" "length bs \<le> DEFAULT_BLOCK_SIZE" "\<not> CHECK_CHUNK c CHUNK_FILE_END"
      by (auto simp: block_ok_def)
    let ?u = "unread buf off len"
    have l: "length ?u = len" "len \<le> length buf" using Cons.prems(1) by (auto simp: buf_ok_def)
    define b1 where "b1 = ?u @ drop len buf"
    have b1: "mem_read buf off len = Some ?u" "mem_write buf 0 ?u = Some b1" "length b1 = length buf" "take len b1 = ?u"
      using Cons.prems(1) l by (auto simp: mem_read_def mem_write_def buf_ok_def b1_def)
    have room: "len + length bs \<le> length buf" using Cons.prems(1) bs(2) True by (simp add: buf_ok_def)
    define b2 where "b2 = take len b1 @ bs @ drop (len + length bs) b1"
    have b2: "mem_write b1 len bs = Some b2" "buf_ok e b2 0 (len + length bs)" "unread b2 0 (len + length bs) = ?u @ bs"
      using room b1(3,4) l Cons.prems(1) by (auto simp: mem_write_def b2_def buf_ok_def)
    have f: "fill_leftbuf e ((c # blocks) @ en # later) buf off len = fill_leftbuf e (blocks @ en # later) b2 0 (len + length bs)"
      using True bs b1 b2 by (subst fill_leftbuf.simps) simp
    have "\<forall>c \<in> set blocks. block_ok c" using Cons.prems(2) by simp
    from Cons.IH [OF b2(2) this Cons.prems(3)] obtain x1 x2 buf' off' len' q c' where
      i: "fill_leftbuf e (blocks @ en # later) b2 0 (len + length bs) = Some (q, buf', off', len', c')" "blocks = x1 @ x2"
        "buf_ok e buf' off' len'" "unread buf' off' len' = (?u @ bs) @ blocks_bytes x1"
        "c' = None \<and> q = x2 @ en # later \<and> chunk_max_size (ce_conf e) \<le> int len' \<or> c' = Some en \<and> q = later \<and> x2 = []"
      unfolding b2(3) by blast
    show ?thesis unfolding f
      by (rule exI [of _ "c # x1"], rule exI [of _ x2], intro exI conjI, rule i(1)) (use i bs in auto)
  qed
qed

text \<open>A file as the read phase sends it: the start signal, blocks of data, the end signal.\<close>

definition file_in :: "chunk \<times> chunk list \<times> chunk \<Rightarrow> bool" where
  "file_in = (\<lambda>(st, blocks, en). CHECK_CHUNK st CHUNK_FILE_START \<and> list_all block_ok blocks \<and> CHECK_CHUNK en CHUNK_FILE_END)"

definition file_stream :: "chunk \<times> chunk list \<times> chunk \<Rightarrow> chunk list" where
  "file_stream = (\<lambda>(st, blocks, en). st # blocks @ [en])"

locale cutter =
  fixes ok :: "chunk_env \<Rightarrow> bool" and cutf :: chunker
  assumes cut_progress: "ok e \<Longrightarrow> p \<noteq> [] \<Longrightarrow> \<exists>n. cutf e p = Some n \<and> 0 < n \<and> n \<le> int (length p)"

locale bounded_cutter = cutter +
  assumes cut_max: "ok e \<Longrightarrow> p \<noteq> [] \<Longrightarrow> cutf e p = Some n \<Longrightarrow> n \<le> chunk_max_size (ce_conf e)"
    and cut_reset: "ok e \<Longrightarrow> ok (reset_windows e)"
begin

lemma max_positive: "ok e \<Longrightarrow> 0 < chunk_max_size (ce_conf e)"
  using cut_progress [of e "[0]"] cut_max [of e "[0]"] by fastforce

text \<open>Cutting the unread bytes of the buffer and the blocks that are still to come.\<close>

lemma cut_file_ok:
  assumes "ok e" "buf_ok e buf off len" "\<forall>c \<in> set blocks. block_ok c" "CHECK_CHUNK en CHUNK_FILE_END"
    and "c = None \<and> q = blocks @ en # later \<or> c = Some en \<and> q = later \<and> blocks = []"
  shows "\<exists>cs buf' cc'. cut_file cutf e q buf off len c cc = Some (cs, en, later, buf', cc')
     \<and> cut_of e (unread buf off len @ blocks_bytes blocks) cs \<and> buf_ok e buf' 0 0"
  using assms
proof (induction "len + length (blocks_bytes blocks)" arbitrary: buf off len blocks c q cc rule: less_induct)
  case less
  have "\<exists>b1 b2 buf' off' len' q' c'. (case c of None \<Rightarrow> fill_leftbuf e q buf off len | Some _ \<Rightarrow> Some (q, buf, off, len, c)) = Some (q', buf', off', len', c')
     \<and> blocks = b1 @ b2 \<and> buf_ok e buf' off' len' \<and> unread buf' off' len' = unread buf off len @ blocks_bytes b1
     \<and> (c' = None \<and> q' = b2 @ en # later \<and> chunk_max_size (ce_conf e) \<le> int len' \<or> c' = Some en \<and> q' = later \<and> b2 = [])"
    using less.prems(5) fill_leftbuf_ok [OF less.prems(2-4), of later] less.prems(2) by (cases c) auto
  then obtain b1 b2 buf' off' len' q' c' where
    f: "(case c of None \<Rightarrow> fill_leftbuf e q buf off len | Some _ \<Rightarrow> Some (q, buf, off, len, c)) = Some (q', buf', off', len', c')"
      "blocks = b1 @ b2" "buf_ok e buf' off' len'" "unread buf' off' len' = unread buf off len @ blocks_bytes b1"
      "c' = None \<and> q' = b2 @ en # later \<and> chunk_max_size (ce_conf e) \<le> int len' \<or> c' = Some en \<and> q' = later \<and> b2 = []" by blast
  have len: "length (unread buf' off' len') = len'" "length (unread buf off len) = len" using f(3) less.prems(2) by (auto simp: buf_ok_def)
  show ?case
  proof (cases "len' = 0")
    case True
    with f max_positive [OF less.prems(1)] have "c' = Some en" "q' = later" "unread buf off len = []" "blocks_bytes blocks = []" by auto
    with True f(1,3) show ?thesis by (subst cut_file.simps) (auto simp: cut_of_def buf_ok_def)
  next
    case False
    let ?p = "unread buf' off' len'"
    have p: "?p \<noteq> []" using False len(1) by auto
    from cut_progress [OF less.prems(1) p] obtain n where n: "cutf e ?p = Some n" "0 < n" "n \<le> int len'" using len(1) by auto
    note n = n cut_max [OF less.prems(1) p n(1)]
    define k where "k = nat n"
    have k: "0 < k" "k \<le> len'" "n = int k" using n by (auto simp: k_def)
    have r: "mem_read buf' off' len' = Some ?p" "mem_read buf' off' k = Some (unread buf' off' k)" using f(3) k by (auto simp: mem_read_def buf_ok_def)
    have b: "buf_ok e buf' (off' + k) (len' - k)" using f(3) k by (auto simp: buf_ok_def)
    have u: "?p = unread buf' off' k @ unread buf' (off' + k) (len' - k)"
      using take_add [of k "len' - k" "drop off' buf'"] k by (simp add: add.commute)
    let ?cc = "count_cut (unread buf' off' k) cc"
    have "len' - k + length (blocks_bytes b2) < len + length (blocks_bytes blocks)"
      using arg_cong [OF f(4), of length] len k f(2) by simp
    from less.hyps [OF this less.prems(1) b, of c' q' ?cc] less.prems(3,4) f(2,5) obtain cs buf2 cc' where
      i: "cut_file cutf e q' buf' (off' + k) (len' - k) c' ?cc = Some (cs, en, later, buf2, cc')"
        "cut_of e (unread buf' (off' + k) (len' - k) @ blocks_bytes b2) cs" "buf_ok e buf2 0 0" by auto
    let ?nc = "(new_chunk (ce_junk e) n)\<lparr>ck_data := Some (unread buf' off' k)\<rparr>"
    have "cut_file cutf e q buf off len c cc = Some (?nc # cs, en, later, buf2, cc')"
      using False f(1) r n i(1) k by (subst cut_file.simps) simp
    moreover have "cut_of e (unread buf off len @ blocks_bytes blocks) (?nc # cs)"
    proof -
      have "length (unread buf' off' k) = k" "unread buf' off' k \<noteq> []" using f(3) k by (auto simp: buf_ok_def)
      with i(2) n(4) k have "cut_of e (unread buf' off' k @ unread buf' (off' + k) (len' - k) @ blocks_bytes b2) (?nc # cs)"
        by (auto simp: cut_of_def intro!: exI [of _ "unread buf' off' k"])
      then show ?thesis using u f(2,4) by (metis append.assoc blocks_bytes_simps(3))
    qed
    ultimately show ?thesis using i(3) by blast
  qed
qed

text \<open>A whole stream of files.\<close>

lemma chunk_files_ok:
  assumes "ok e" "buf_ok e buf 0 0" "list_all file_in fs"
  shows "\<exists>css cc'. chunk_files cutf e (concat (map file_stream fs)) buf cc =
       Some (concat (map2 (\<lambda>(st, blocks, en) cs. st # cs @ [en]) fs css), cc')
     \<and> list_all2 (\<lambda>(st, blocks, en) cs. cut_of e (blocks_bytes blocks) cs) fs css"
  using assms
proof (induction fs arbitrary: e buf cc)
  case Nil
  then show ?case by (subst chunk_files.simps) simp
next
  case (Cons f fs)
  obtain st blocks en where f: "f = (st, blocks, en)" by (metis prod_cases3)
  have fi: "CHECK_CHUNK st CHUNK_FILE_START" "\<forall>c \<in> set blocks. block_ok c" "CHECK_CHUNK en CHUNK_FILE_END"
    using Cons.prems(3) by (auto simp: f file_in_def list_all_iff)
  define later where "later = concat (map file_stream fs)"
  have same: "ce_conf (reset_windows e) = ce_conf e" "ce_junk (reset_windows e) = ce_junk e" by (auto simp: reset_windows_def)
  then have b_e: "buf_ok (reset_windows e) = buf_ok e" "cut_of (reset_windows e) = cut_of e" by (simp_all add: buf_ok_def [abs_def] cut_of_def [abs_def])
  have first: "\<exists>cs buf' cc'. chunk_files cutf e (file_stream f @ later) buf cc =
      do { (outs, cc) \<leftarrow> chunk_files cutf (reset_windows e) later buf' cc'; Some (st # cs @ en # outs, cc) }
     \<and> cut_of e (blocks_bytes blocks) cs \<and> buf_ok e buf' 0 0"
  proof (cases blocks)
    case Nil
    from cut_file_ok [OF Cons.prems(1,2) _ fi(3), of "[]" "Some en" later later cc] obtain cs buf' cc' where
      c: "cut_file cutf e later buf 0 0 (Some en) cc = Some (cs, en, later, buf', cc')" "cut_of e [] cs" "buf_ok e buf' 0 0" by auto
    with Nil fi f show ?thesis by (subst chunk_files.simps) (auto simp: file_stream_def)
  next
    case (Cons b bs)
    with fi(2) obtain x where x: "chunk_bytes b = Some x" "length x \<le> DEFAULT_BLOCK_SIZE" "\<not> CHECK_CHUNK b CHUNK_FILE_END" "\<forall>c \<in> set bs. block_ok c"
      by (auto simp: block_ok_def)
    define buf1 where "buf1 = x @ drop (length x) buf"
    have b1: "mem_write buf 0 x = Some buf1" "buf_ok e buf1 0 (length x)" "unread buf1 0 (length x) = x"
      using \<open>buf_ok e buf 0 0\<close> x(2) by (auto simp: mem_write_def buf1_def buf_ok_def)
    from cut_file_ok [OF \<open>ok e\<close> b1(2) x(4) fi(3), of None "bs @ en # later" later cc] obtain cs buf' cc' where
      c: "cut_file cutf e (bs @ en # later) buf1 0 (length x) None cc = Some (cs, en, later, buf', cc')"
        "cut_of e (x @ blocks_bytes bs) cs" "buf_ok e buf' 0 0" unfolding b1(3) by auto
    with Cons fi f x b1 show ?thesis by (subst chunk_files.simps) (auto simp: file_stream_def)
  qed
  then obtain cs buf' cc' where 1: "chunk_files cutf e (file_stream f @ later) buf cc =
      do { (outs, cc) \<leftarrow> chunk_files cutf (reset_windows e) later buf' cc'; Some (st # cs @ en # outs, cc) }"
    "cut_of e (blocks_bytes blocks) cs" "buf_ok e buf' 0 0" by blast
  from Cons.IH [OF cut_reset [OF Cons.prems(1)], of buf' cc'] 1(3) Cons.prems(3) obtain css cc2 where
    2: "chunk_files cutf (reset_windows e) later buf' cc' = Some (concat (map2 (\<lambda>(st, blocks, en) cs. st # cs @ [en]) fs css), cc2)"
      "list_all2 (\<lambda>(st, blocks, en) cs. cut_of e (blocks_bytes blocks) cs) fs css"
    by (auto simp: b_e later_def)
  show ?case
    by (rule exI [of _ "cs # css"], rule exI [of _ cc2]) (use 1 2 f in \<open>simp add: later_def\<close>)
qed

end

section \<open>The algorithms keep the contract\<close>

definition fixed_ok :: "chunk_env \<Rightarrow> bool" where
  "fixed_ok e = (0 < chunk_avg_size (ce_conf e) \<and> chunk_avg_size (ce_conf e) \<le> chunk_max_size (ce_conf e))"

definition rabin_conf :: "chunk_env \<Rightarrow> bool" where
  "rabin_conf e = (rabin_ok (ce_rabin e) \<and> 0 < chunk_min_size (ce_conf e) \<and> chunk_min_size (ce_conf e) \<le> chunk_max_size (ce_conf e))"

lemma windows_reset_ok: "rabin_ok (windows_reset r) = rabin_ok r"
  by (simp add: rabin_ok_def tables_ok_def windows_reset_def)

lemma conf_reset: "fixed_ok e \<Longrightarrow> fixed_ok (reset_windows e)" "rabin_conf e \<Longrightarrow> rabin_conf (reset_windows e)"
  by (auto simp: fixed_ok_def rabin_conf_def reset_windows_def windows_reset_ok)

interpretation fixed_cut: bounded_cutter fixed_ok fixed_chunk_data
proof
  fix e :: chunk_env and p :: "byte list" and n
  assume "fixed_ok e" "p \<noteq> []"
  then show "\<exists>n. fixed_chunk_data e p = Some n \<and> 0 < n \<and> n \<le> int (length p)"
    by (auto simp: fixed_ok_def fixed_chunk_data_def Let_def)
  assume "fixed_chunk_data e p = Some n"
  with \<open>fixed_ok e\<close> show "n \<le> chunk_max_size (ce_conf e)" by (auto simp: fixed_ok_def fixed_chunk_data_def Let_def split: if_splits)
qed (rule conf_reset)

lemma byte_at_ok: "1 \<le> i \<Longrightarrow> i \<le> int (length p) \<Longrightarrow> byte_at p (i - 1) = Some (p ! nat (i - 1))"
  by (simp add: byte_at_def)

lemma rabin_loop_ok:
  assumes "rabin_ok (ce_rabin e)" "slider_ok W s" "1 \<le> i" "i \<le> fin" "fin \<le> int (length p)"
  shows "\<exists>n. rabin_loop e p fin i s = Some n \<and> i \<le> n \<and> n \<le> fin"
  using assms(2-)
proof (induction "nat (fin - i)" arbitrary: i s W)
  case 0
  then show ?case by (subst rabin_loop.simps) simp
next
  case (Suc k)
  then have b: "byte_at p (i - 1) = Some (p ! nat (i - 1))" by (intro byte_at_ok) simp_all
  from SLIDE_ok [OF assms(1) Suc.prems(1), of "p ! nat (i - 1)"] obtain s' where
    s: "SLIDE (ce_rabin e) (p ! nat (i - 1)) s = Some s'" "slider_ok (tl W @ [p ! nat (i - 1)]) s'" by blast
  with Suc.hyps(1) [of "i + 1", OF _ s(2)] Suc.hyps(2) Suc.prems b show ?case
    by (subst rabin_loop.simps) force
qed

lemma normalized_loop_ok:
  assumes "rabin_ok (ce_rabin e)" "slider_ok W s" "1 \<le> i" "i \<le> fin" "fin \<le> int (length p)"
  shows "\<exists>n. normalized_loop e p fin i s = Some n \<and> i \<le> n \<and> n \<le> fin"
  using assms(2-)
proof (induction "nat (fin - i)" arbitrary: i s W)
  case 0
  then show ?case by (subst normalized_loop.simps) simp
next
  case (Suc k)
  then have b: "byte_at p (i - 1) = Some (p ! nat (i - 1))" by (intro byte_at_ok) simp_all
  from SLIDE_ok [OF assms(1) Suc.prems(1), of "p ! nat (i - 1)"] obtain s' where
    s: "SLIDE (ce_rabin e) (p ! nat (i - 1)) s = Some s'" "slider_ok (tl W @ [p ! nat (i - 1)]) s'" by blast
  with Suc.hyps(1) [of "i + 1", OF _ s(2)] Suc.hyps(2) Suc.prems b show ?case
    by (subst normalized_loop.simps) (force simp: Let_def)
qed

lemma tttd_loop_ok:
  assumes "rabin_ok (ce_rabin e)" "slider_ok W s" "1 \<le> i" "i \<le> fin" "fin \<le> int (length p)" "0 \<le> m" "m \<le> i"
  shows "\<exists>n. tttd_loop e p fin i m s = Some n \<and> 1 \<le> n \<and> n \<le> fin"
  using assms(2-)
proof (induction "nat (fin - i)" arbitrary: i m s W)
  case 0
  then show ?case by (subst tttd_loop.simps) simp
next
  case (Suc k)
  then have b: "byte_at p (i - 1) = Some (p ! nat (i - 1))" by (intro byte_at_ok) simp_all
  from SLIDE_ok [OF assms(1) Suc.prems(1), of "p ! nat (i - 1)"] obtain s' where
    s: "SLIDE (ce_rabin e) (p ! nat (i - 1)) s = Some s'" "slider_ok (tl W @ [p ! nat (i - 1)]) s'" by blast
  with Suc.hyps(1) [of "i + 1", OF _ s(2), of i] Suc.hyps(1) [of "i + 1", OF _ s(2), of m] Suc.hyps(2) Suc.prems b show ?case
    by (subst tttd_loop.simps) force
qed

lemma chunk_end_range: "rabin_conf e \<Longrightarrow> chunk_min_size (ce_conf e) < int (length p) \<Longrightarrow>
    chunk_min_size (ce_conf e) \<le> chunk_end e p \<and> chunk_end e p \<le> int (length p) \<and> chunk_end e p \<le> chunk_max_size (ce_conf e)"
  by (auto simp: rabin_conf_def chunk_end_def Let_def)

text \<open>The three content-defined functions return at least the minimum, where the data has it.\<close>

lemma rabin_sizes:
  assumes "rabin_conf e" "p \<noteq> []" "f \<in> {rabin_chunk_data, normalized_rabin_chunk_data, tttd_chunk_data}"
  shows "\<exists>n. f e p = Some n \<and> 1 \<le> n \<and> n \<le> int (length p) \<and> n \<le> chunk_max_size (ce_conf e)"
proof (cases "int (length p) \<le> chunk_min_size (ce_conf e)")
  case True
  have "0 < length p" using assms(2) by simp
  with True assms(1,3) show ?thesis
    by (auto simp: rabin_chunk_data_def normalized_rabin_chunk_data_def tttd_chunk_data_def rabin_conf_def Suc_le_eq)
next
  case False
  have c: "rabin_ok (ce_rabin e)" "1 \<le> chunk_min_size (ce_conf e)" using assms(1) by (auto simp: rabin_conf_def)
  note ce = chunk_end_range [OF assms(1), of p]
  from False ce rabin_loop_ok [OF c(1) slider_init_ok c(2), of "chunk_end e p" p]
    normalized_loop_ok [OF c(1) slider_init_ok c(2), of "chunk_end e p" p]
    tttd_loop_ok [OF c(1) slider_init_ok c(2), of "chunk_end e p" p 0] c(2) assms(3)
  show ?thesis
    by (fastforce simp: rabin_chunk_data_def normalized_rabin_chunk_data_def tttd_chunk_data_def)
qed

interpretation rabin_cut: bounded_cutter rabin_conf rabin_chunk_data
  using rabin_sizes [of _ _ rabin_chunk_data] conf_reset by unfold_locales force+

interpretation normalized_cut: bounded_cutter rabin_conf normalized_rabin_chunk_data
  using rabin_sizes [of _ _ normalized_rabin_chunk_data] conf_reset by unfold_locales force+

interpretation tttd_cut: bounded_cutter rabin_conf tttd_chunk_data
  using rabin_sizes [of _ _ tttd_chunk_data] conf_reset by unfold_locales force+

lemma ae_loop_range: "0 < cur \<Longrightarrow> cur \<le> length p \<Longrightarrow> 0 < ae_loop e p cur mx \<and> ae_loop e p cur mx \<le> int (length p)"
proof (induction "length p - cur" arbitrary: cur mx)
  case 0
  then show ?case using ae_loop.simps [of e p cur mx] by simp
next
  case (Suc k)
  have "0 < length p" using Suc.prems by linarith
  with Suc.hyps(1) [of "Suc cur" cur] Suc.hyps(1) [of "Suc cur" mx] Suc.hyps(2) Suc.prems show ?case
    using ae_loop.simps [of e p cur mx] by (auto split: if_splits)
qed

interpretation ae_cut: cutter "\<lambda>e. 0 \<le> ce_window_size e" ae_chunk_data
proof
  fix e :: chunk_env and p :: "byte list"
  assume "0 \<le> ce_window_size e" "p \<noteq> []"
  then show "\<exists>n. ae_chunk_data e p = Some n \<and> 0 < n \<and> n \<le> int (length p)"
    using ae_loop_range [of 1 p e 0] by (cases p) (auto simp: ae_chunk_data_def)
qed

definition chunk_conf :: "chunk_env \<Rightarrow> bool" where
  "chunk_conf e = (case chunk_algorithm (ce_conf e) of
     CHUNK_FIXED \<Rightarrow> fixed_ok e | CHUNK_FILE \<Rightarrow> fixed_ok e | CHUNK_AE \<Rightarrow> False | _ \<Rightarrow> rabin_conf e)"

interpretation phase_cut: bounded_cutter chunk_conf chunking
proof
  fix e :: chunk_env and p :: "byte list" and n
  assume c: "chunk_conf e" and p: "p \<noteq> []"
  show "\<exists>n. chunking e p = Some n \<and> 0 < n \<and> n \<le> int (length p)"
    using c fixed_cut.cut_progress [OF _ p, of e] rabin_cut.cut_progress [OF _ p, of e] normalized_cut.cut_progress [OF _ p, of e] tttd_cut.cut_progress [OF _ p, of e]
    by (auto simp: chunk_conf_def chunking_def split: chunk_algorithm.splits)
  assume "chunking e p = Some n"
  then show "n \<le> chunk_max_size (ce_conf e)"
    using c fixed_cut.cut_max [OF _ p, of e n] rabin_cut.cut_max [OF _ p, of e n] normalized_cut.cut_max [OF _ p, of e n] tttd_cut.cut_max [OF _ p, of e n]
    by (auto simp: chunk_conf_def chunking_def split: chunk_algorithm.splits)
next
  fix e :: chunk_env
  assume "chunk_conf e"
  moreover have "ce_conf (reset_windows e) = ce_conf e" by (simp add: reset_windows_def)
  ultimately show "chunk_conf (reset_windows e)" using conf_reset [of e]
    by (auto simp: chunk_conf_def split: chunk_algorithm.splits)
qed

section \<open>The phase\<close>

lemma round_avg_conf:
  "round_avg d = Some d' \<Longrightarrow> chunk_algorithm d' = chunk_algorithm d \<and> chunk_min_size d' = chunk_min_size d
     \<and> chunk_max_size d' = chunk_max_size d \<and> chunk_min_size d \<le> chunk_max_size d
     \<and> chunk_max_size d \<le> int CONTAINER_SIZE - int CONTAINER_META_SIZE"
  by (auto simp: round_avg_def)

lemma chunkAlg_init_ok: "\<exists>e'. chunkAlg_init e = Some e' \<and> rabin_ok (ce_rabin e') \<and> ce_conf e' = ce_conf e
    \<and> ce_rabin_mask e' = chunk_avg_size (ce_conf e) - 1 \<and> ce_junk e' = ce_junk e"
  using window_init_ok [of "ce_rabin e"] by (auto simp: chunkAlg_init_def windows_reset_ok)

lemma container_room: "0 < int CONTAINER_SIZE - int CONTAINER_META_SIZE"
  by (simp add: CONTAINER_SIZE_def CONTAINER_META_SIZE_def)

text \<open>Sizes the start of the phase does not check.\<close>

definition sizes_positive :: "destor \<Rightarrow> bool" where
  "sizes_positive d = (0 < chunk_min_size d \<and> 0 < chunk_avg_size d)"

lemma start_chunk_conf:
  assumes "start_chunk_phase e = Some e'" "chunk_algorithm (ce_conf e) \<noteq> CHUNK_AE" "sizes_positive (ce_conf e)"
  shows "chunk_conf e' \<and> ce_junk e' = ce_junk e \<and> chunk_max_size (ce_conf e') \<le> int CONTAINER_SIZE - int CONTAINER_META_SIZE"
proof -
  have "chunk_conf e2 \<and> ce_junk e2 = ce_junk e \<and> chunk_max_size (ce_conf e2) \<le> int CONTAINER_SIZE - int CONTAINER_META_SIZE"
    if d: "round_avg (ce_conf e) = Some d" "chunkAlg_init (e\<lparr>ce_conf := d\<rparr>) = Some e2"
      and a: "chunk_algorithm (ce_conf e) \<in> {CHUNK_RABIN, CHUNK_NORMALIZED_RABIN, CHUNK_TTTD}" for d e2
    using round_avg_conf [OF d(1)] chunkAlg_init_ok [of "e\<lparr>ce_conf := d\<rparr>"] d(2) a assms(3)
    by (auto simp: chunk_conf_def rabin_conf_def sizes_positive_def split: chunk_algorithm.splits)
  note rabin = this
  show ?thesis
  proof (cases "chunk_algorithm (ce_conf e)")
    case CHUNK_FIXED
    with assms(1,3) show ?thesis by (auto simp: start_chunk_phase_def chunk_conf_def fixed_ok_def sizes_positive_def Let_def)
  next
    case CHUNK_FILE
    with assms(1) container_room show ?thesis by (auto simp: start_chunk_phase_def chunk_conf_def fixed_ok_def Let_def)
  qed (use assms(1,2) rabin in \<open>auto simp: start_chunk_phase_def bind_eq_Some_conv Let_def\<close>)
qed

lemma chunk_thread_ok:
  assumes "chunk_conf e" "list_all file_in fs"
  shows "\<exists>css cc'. chunk_thread e (concat (map file_stream fs)) cc =
       Some (concat (map2 (\<lambda>(st, blocks, en) cs. st # cs @ [en]) fs css), cc')
     \<and> list_all2 (\<lambda>(st, blocks, en) cs. cut_of e (blocks_bytes blocks) cs) fs css"
  unfolding chunk_thread_def by (rule phase_cut.chunk_files_ok [OF assms(1) _ assms(2)]) (simp add: buf_ok_def)

text \<open>C17: the chunk phase, started with any of the algorithms but AE, takes a stream of files in blocks
  of at most a megabyte and ends without an access out of range; every file comes out between its
  signals as chunks that are not empty, not longer than the maximum and together have exactly the
  bytes of the file.\<close>

theorem chunk_phase_exact:
  assumes "start_chunk_phase e = Some e'" "chunk_algorithm (ce_conf e) \<noteq> CHUNK_AE" "sizes_positive (ce_conf e)" "list_all file_in fs"
  shows "\<exists>css cc'. chunk_thread e' (concat (map file_stream fs)) cc =
       Some (concat (map2 (\<lambda>(st, blocks, en) cs. st # cs @ [en]) fs css), cc')
     \<and> list_all2 (\<lambda>(st, blocks, en) cs. cut_of e' (blocks_bytes blocks) cs) fs css"
  using start_chunk_conf [OF assms(1-3)] assms(4) by (blast intro: chunk_thread_ok)

definition ex_chunk_env :: "chunk_algorithm \<Rightarrow> chunk_env" where
  "ex_chunk_env a = \<lparr>ce_conf = destor_start_config\<lparr>chunk_algorithm := a, chunk_avg_size := 2, chunk_min_size := 1, chunk_max_size := 4\<rparr>,
     ce_rabin = \<lparr>rb_poly = 0, rb_shift = 0, rb_T = [], rb_U = [], rb_fp = 0, rb_bufpos = 0, rb_buf = []\<rparr>,
     ce_rabin_mask = 0, ce_window_size = 0, ce_be = False, ce_junk = (\<lambda>_. 0)\<rparr>"

definition ex_mark :: "32 word \<Rightarrow> chunk" where
  "ex_mark f = \<lparr>ck_size = 0, ck_flag = f, ck_id = TEMPORARY_ID, ck_fp = replicate 20 0, ck_data = None\<rparr>"

definition ex_block :: "byte list \<Rightarrow> chunk" where
  "ex_block bs = \<lparr>ck_size = int (length bs), ck_flag = 0, ck_id = TEMPORARY_ID, ck_fp = replicate 20 0, ck_data = Some bs\<rparr>"

lemma ex_file_in: "length bs \<le> DEFAULT_BLOCK_SIZE \<Longrightarrow> file_in (ex_mark CHUNK_FILE_START, [ex_block bs], ex_mark CHUNK_FILE_END)"
  by (simp add: file_in_def ex_mark_def ex_block_def block_ok_def chunk_bytes_def CHECK_CHUNK_def)

theorem chunk_phase_exact_witness:
  "\<exists>e' cs cc'. start_chunk_phase (ex_chunk_env CHUNK_RABIN) = Some e'
     \<and> chunk_thread e' [ex_mark CHUNK_FILE_START, ex_block [1, 2, 3], ex_mark CHUNK_FILE_END] \<lparr>cc_chunk_num = 0, cc_zero_chunk_num = 0, cc_zero_chunk_size = 0\<rparr> =
         Some (ex_mark CHUNK_FILE_START # cs @ [ex_mark CHUNK_FILE_END], cc')
     \<and> concat (map (\<lambda>c. the (ck_data c)) cs) = [1, 2, 3]"
proof -
  let ?f = "(ex_mark CHUNK_FILE_START, [ex_block [1, 2, 3]], ex_mark CHUNK_FILE_END)"
  have b: "bit_length 2 = 2" by (simp add: bit_length.simps)
  let ?d = "(ce_conf (ex_chunk_env CHUNK_RABIN))\<lparr>chunk_avg_size := 2\<rparr>"
  have "round_avg (ce_conf (ex_chunk_env CHUNK_RABIN)) = Some ?d"
    by (simp add: ex_chunk_env_def round_avg_def b CONTAINER_SIZE_def CONTAINER_META_SIZE_def)
  with chunkAlg_init_ok [of "(ex_chunk_env CHUNK_RABIN)\<lparr>ce_conf := ?d\<rparr>"] obtain e' where
    e': "start_chunk_phase (ex_chunk_env CHUNK_RABIN) = Some e'" by (auto simp: start_chunk_phase_def ex_chunk_env_def)
  have c: "chunk_algorithm (ce_conf (ex_chunk_env CHUNK_RABIN)) \<noteq> CHUNK_AE" "sizes_positive (ce_conf (ex_chunk_env CHUNK_RABIN))"
    by (simp_all add: ex_chunk_env_def sizes_positive_def)
  have f: "list_all file_in [?f]" using ex_file_in [of "[1, 2, 3]"] by (simp add: DEFAULT_BLOCK_SIZE_def)
  from chunk_phase_exact [OF e' c f, of "\<lparr>cc_chunk_num = 0, cc_zero_chunk_num = 0, cc_zero_chunk_size = 0\<rparr>"] e' show ?thesis
    by (auto simp: file_stream_def list_all2_Cons1 cut_of_def blocks_bytes_def ex_block_def chunk_bytes_def)
qed

lemma ae_value_zeros: "i + 8 \<le> n \<Longrightarrow> ae_value e (replicate n 0) i = ae_value e (replicate 8 0) 0"
proof -
  assume "i + 8 \<le> n"
  then have "8 \<le> n - i" by linarith
  then show ?thesis by (simp add: ae_value_def min_absorb1)
qed

lemma ae_zeros: "mx < cur \<Longrightarrow> ae_loop e (replicate n 0) cur mx = int n"
proof (induction "n - cur" arbitrary: cur mx)
  case 0
  then show ?case by (subst ae_loop.simps) simp
next
  case (Suc k)
  show ?case
  proof (cases "cur + 8 \<le> n")
    case True
    then have "my_memcmp (ae_value e (replicate n 0) cur) (ae_value e (replicate n 0) mx) < 0"
      using Suc.prems ae_value_zeros [of cur n e] ae_value_zeros [of mx n e] by (simp add: my_memcmp_def)
    with True Suc.hyps(1) [of "Suc cur" cur] Suc.hyps(2) ae_loop.simps [of e "replicate n 0" cur mx] show ?thesis by simp
  qed (simp add: ae_loop.simps [of e "replicate n 0" cur mx])
qed

lemma ae_chunk_zeros: "ae_chunk_data e (replicate n 0) = Some (int n)"
  by (simp add: ae_chunk_data_def ae_zeros)

text \<open>C33: AE chunking does not keep to the maximum. The comparison of its window takes equal values as
  smaller, so data of zeros is never cut, and a file of zeros longer than the maximum makes the chunk
  thread compare the chunk with its array of zeros past the end of that array.\<close>

theorem ae_zeros_overrun:
  assumes "start_chunk_phase e = Some e'" "chunk_algorithm (ce_conf e) = CHUNK_AE"
    and "CHECK_CHUNK st CHUNK_FILE_START" "ck_size c = int n" "ck_data c = Some (replicate n 0)" "\<not> CHECK_CHUNK c CHUNK_FILE_END"
    and "chunk_max_size (ce_conf e) < int n" "0 < n" "n \<le> DEFAULT_BLOCK_SIZE"
  shows "chunking e' (replicate n 0) = Some (int n) \<and> chunk_thread e' (st # c # q) cc = None"
proof -
  have e': "ce_conf e' = ce_conf e" using assms(1,2) by (auto simp: start_chunk_phase_def ae_init_def Let_def)
  have k: "chunking e' = ae_chunk_data e'" using assms(2) by (simp add: chunking_def e')
  have b: "chunk_bytes c = Some (replicate n 0)" using assms(4,5,8) by (simp add: chunk_bytes_def)
  define buf where "buf = map (ce_junk e') [0..<DEFAULT_BLOCK_SIZE + nat (chunk_max_size (ce_conf e'))]"
  define buf1 where "buf1 = replicate n 0 @ drop n buf"
  have w: "mem_write buf 0 (replicate n 0) = Some buf1" "mem_read buf1 0 n = Some (replicate n 0)"
    using assms(9) by (simp_all add: buf1_def buf_def mem_write_def mem_read_def)
  have "cut_file chunking e' q buf1 0 n None cc = None" for q cc
    using assms(7,8) w(2) by (subst cut_file.simps) (simp add: fill_leftbuf.simps k ae_chunk_zeros assertion_def e')
  then have "chunk_files chunking e' (st # c # q) buf cc = None"
    using assms(3,6) b w(1) by (subst chunk_files.simps) simp
  then show ?thesis by (simp add: chunk_thread_def buf_def k ae_chunk_zeros)
qed

definition ex_counts :: chunk_counts where
  "ex_counts = \<lparr>cc_chunk_num = 0, cc_zero_chunk_num = 0, cc_zero_chunk_size = 0\<rparr>"

theorem ae_zeros_overrun_witness:
  "\<exists>e'. start_chunk_phase (ex_chunk_env CHUNK_AE) = Some e'
     \<and> chunk_thread e' [ex_mark CHUNK_FILE_START, ex_block (replicate 5 0), ex_mark CHUNK_FILE_END] ex_counts = None"
proof -
  let ?e = "ex_chunk_env CHUNK_AE"
  have e': "start_chunk_phase ?e = Some (ae_init ?e)"
    by (simp add: start_chunk_phase_def ex_chunk_env_def CONTAINER_SIZE_def CONTAINER_META_SIZE_def)
  have "chunk_thread (ae_init ?e) (ex_mark CHUNK_FILE_START # ex_block (replicate 5 0) # [ex_mark CHUNK_FILE_END]) ex_counts = None"
    using ae_zeros_overrun [OF e', of "ex_mark CHUNK_FILE_START" "ex_block (replicate 5 0)" 5 "[ex_mark CHUNK_FILE_END]" ex_counts]
    by (simp add: ex_chunk_env_def ex_mark_def ex_block_def CHECK_CHUNK_def DEFAULT_BLOCK_SIZE_def)
  with e' show ?thesis by blast
qed

section \<open>Where the Rabin functions cut\<close>

text \<open>The reference: the remainder of a byte string by long division, bit after bit.\<close>

definition shift_bit :: "nat \<Rightarrow> bool \<Rightarrow> nat" where
  "shift_bit r b = (let r = (2 * r) XOR of_bool b in if bit r 63 then r XOR PT else r)"

definition poly_rem :: "byte list \<Rightarrow> nat" where
  "poly_rem bs = fold (\<lambda>b r. fold (\<lambda>i r. shift_bit r (bit b i)) (rev [0..<8]) r) bs 0"

lemma PT_bits: "bit PT 63" "\<And>m. 64 \<le> m \<Longrightarrow> \<not> bit PT m"
proof -
  show "bit PT 63" unfolding bit_unsigned_iff using PT_bit by simp
  show "\<not> bit PT m" if "64 \<le> m" for m using PT_degree(2) that unfolding less_pow_bits by simp
qed

lemma shift_bit_ok:
  assumes "r < 2 ^ 63"
  shows "shift_bit r b < 2 ^ 63" "pcong PT (shift_bit r b) ((2 * r) XOR of_bool b)"
proof -
  let ?r = "(2 * r) XOR of_bool b"
  have b: "(of_bool b :: nat) < 2 ^ 64" by (cases b) simp_all
  have "?r < 2 ^ 64" by (rule xor_less_pow [OF _ b]) (use assms in simp)
  then have r: "\<And>m. 64 \<le> m \<Longrightarrow> \<not> bit ?r m" unfolding less_pow_bits by blast
  show "shift_bit r b < 2 ^ 63" unfolding less_pow_bits
  proof (intro allI impI)
    fix m :: nat assume "63 \<le> m"
    then show "\<not> bit (shift_bit r b) m" using r [of m] PT_bits(2) [of m] PT_bits(1)
      by (cases "m = 63") (auto simp: shift_bit_def Let_def bit_xor_iff simp del: unat_numeral)
  qed
  show "pcong PT (shift_bit r b) ?r"
    using pcong_multiple [of PT ?r 0] by (simp add: shift_bit_def Let_def)
qed

lemma shift_bits_ok:
  assumes "r < 2 ^ 63"
  shows "fold (\<lambda>i r. shift_bit r (bit b i)) (rev [0..<n]) r < 2 ^ 63
     \<and> pcong PT (fold (\<lambda>i r. shift_bit r (bit b i)) (rev [0..<n]) r) (push_bit n r XOR take_bit n (unat (b :: byte)))"
  using assms
proof (induction n arbitrary: r)
  case (Suc n)
  note s = shift_bit_ok [OF Suc.prems, of "bit b n"]
  have "push_bit n ((2 * r) XOR of_bool (bit b n)) XOR take_bit n (unat b) = push_bit (Suc n) r XOR take_bit (Suc n) (unat b)"
    by (simp add: take_bit_Suc_xor push_bit_xor bit_unsigned_iff mult.commute xor.assoc xor.commute xor.left_commute)
  with pcong_xor [OF pcong_push [OF s(2), of n] pcong_refl, of "take_bit n (unat b)"]
  have "pcong PT (push_bit n (shift_bit r (bit b n)) XOR take_bit n (unat b)) (push_bit (Suc n) r XOR take_bit (Suc n) (unat b))" by metis
  with Suc.IH [OF s(1)] show ?case by (auto intro: pcong_trans)
qed simp

lemma poly_rem_ok: "poly_rem bs < 2 ^ 63 \<and> pcong PT (poly_rem bs) (poly_of bs)"
proof (induction bs rule: rev_induct)
  case Nil
  then show ?case by (simp add: poly_rem_def poly_of_def)
next
  case (snoc b bs)
  have t: "take_bit 8 (unat b) = unat b" using unsigned_less [of b, where 'a = nat] by (simp add: take_bit_nat_eq_self)
  have e: "poly_rem (bs @ [b]) = fold (\<lambda>i r. shift_bit r (bit b i)) (rev [0..<8]) (poly_rem bs)" by (simp add: poly_rem_def del: upt_rec_numeral)
  from shift_bits_ok [of "poly_rem bs" b 8] snoc have "poly_rem (bs @ [b]) < 2 ^ 63 \<and> pcong PT (poly_rem (bs @ [b])) (push_bit 8 (poly_rem bs) XOR unat b)"
    unfolding e t by simp
  with snoc pcong_xor [OF pcong_push [of PT "poly_rem bs" "poly_of bs" 8] pcong_refl] show ?case
    unfolding poly_of_snoc by (blast intro: pcong_trans)
qed

lemma slider_fp: "slider_ok W s \<Longrightarrow> unat (sl_fp s) = poly_rem W"
  using poly_rem_ok [of W] PT_degree by (intro pcong_unique [of PT _ _ 63]) (auto simp: slider_ok_def intro: pcong_trans pcong_sym)

text \<open>The last 48 bytes read when the byte before position \<open>i\<close> was read, zeros before position \<open>k - 1\<close>.\<close>

definition window_at :: "byte list \<Rightarrow> int \<Rightarrow> int \<Rightarrow> byte list" where
  "window_at p k i = (let bs = take (nat (i - k + 1)) (drop (nat (k - 1)) p) in drop (length bs) (replicate 48 0 @ bs))"

lemma window_at_step:
  assumes "1 \<le> k" "k \<le> i" "i \<le> int (length p)"
  shows "window_at p k i = tl (window_at p k (i - 1)) @ [p ! nat (i - 1)]"
proof -
  let ?bs = "take (nat (i - k)) (drop (nat (k - 1)) p)"
  have "nat (i - k + 1) = Suc (nat (i - k))" "nat (i - k) + nat (k - 1) = nat (i - 1)" using assms by auto
  then have t: "take (nat (i - k + 1)) (drop (nat (k - 1)) p) = ?bs @ [p ! nat (i - 1)]" "length ?bs = nat (i - k)"
    using assms by (auto simp: take_Suc_conv_app_nth add.commute)
  define z where "z = replicate 48 0 @ ?bs"
  have "length ?bs < length z" by (simp add: z_def)
  then have "drop (Suc (length ?bs)) (z @ [p ! nat (i - 1)]) = tl (drop (length ?bs) z) @ [p ! nat (i - 1)]" by (simp add: drop_Suc tl_drop)
  moreover have "window_at p k i = drop (Suc (length ?bs)) (z @ [p ! nat (i - 1)])"
    unfolding window_at_def Let_def t(1) z_def by simp
  moreover have "i - 1 - k + 1 = i - k" by simp
  then have "window_at p k (i - 1) = drop (length ?bs) z" unfolding window_at_def Let_def z_def by (simp only:)
  ultimately show ?thesis by simp
qed

lemma window_at_start: "window_at p k (k - 1) = replicate 48 0"
  by (simp add: window_at_def)

definition mark_at :: "int \<Rightarrow> byte list \<Rightarrow> bool" where
  "mark_at k W = ((of_nat (poly_rem W) :: uint64) AND word_of_int k = BREAKMARK_VALUE)"

lemma masked_mark: "slider_ok W s \<Longrightarrow> (masked s k = BREAKMARK_VALUE) = mark_at k W"
  using slider_fp [of W s] by (simp add: masked_def mark_at_def flip: slider_fp)

definition first_or :: "int \<Rightarrow> int \<Rightarrow> (int \<Rightarrow> bool) \<Rightarrow> int" where
  "first_or i fin P = (case find P [i..fin - 1] of Some j \<Rightarrow> j | None \<Rightarrow> fin)"

lemma first_or_step: "i < fin \<Longrightarrow> first_or i fin P = (if P i then i else first_or (i + 1) fin P)"
  by (simp add: first_or_def upto_rec1)

lemma first_or_end: "first_or fin fin P = fin"
  by (simp add: first_or_def)

lemma rabin_loop_first:
  assumes "rabin_ok (ce_rabin e)" "slider_ok (window_at p k (i - 1)) s" "1 \<le> k" "k \<le> i" "i \<le> fin" "fin \<le> int (length p)"
  shows "rabin_loop e p fin i s = Some (first_or i fin (\<lambda>i. mark_at (ce_rabin_mask e) (window_at p k i)))"
  using assms(2-)
proof (induction "nat (fin - i)" arbitrary: i s)
  case 0
  then show ?case by (subst rabin_loop.simps) (simp add: first_or_end)
next
  case (Suc n)
  then have b: "byte_at p (i - 1) = Some (p ! nat (i - 1))" by (intro byte_at_ok) simp_all
  from SLIDE_ok [OF assms(1) Suc.prems(1), of "p ! nat (i - 1)"] Suc.prems obtain s' where
    s: "SLIDE (ce_rabin e) (p ! nat (i - 1)) s = Some s'" "slider_ok (window_at p k i) s'" by (auto simp flip: window_at_step)
  have lt: "i < fin" using Suc.hyps(2) by linarith
  with Suc.hyps(1) [of "i + 1" s'] Suc.hyps(2) Suc.prems s b masked_mark [OF s(2)] first_or_step [OF lt] show ?case
    by (subst rabin_loop.simps) (simp add: Let_def)
qed

lemma normalized_loop_first:
  assumes "rabin_ok (ce_rabin e)" "slider_ok (window_at p k (i - 1)) s" "1 \<le> k" "k \<le> i" "i \<le> fin" "fin \<le> int (length p)"
  shows "normalized_loop e p fin i s = Some (first_or i fin (\<lambda>i.
     mark_at (if i < chunk_avg_size (ce_conf e) then chunk_avg_size (ce_conf e) * 2 - 1 else chunk_avg_size (ce_conf e) div 2 - 1) (window_at p k i)))"
  using assms(2-)
proof (induction "nat (fin - i)" arbitrary: i s)
  case 0
  then show ?case by (subst normalized_loop.simps) (simp add: first_or_end)
next
  case (Suc n)
  then have b: "byte_at p (i - 1) = Some (p ! nat (i - 1))" by (intro byte_at_ok) simp_all
  from SLIDE_ok [OF assms(1) Suc.prems(1), of "p ! nat (i - 1)"] Suc.prems obtain s' where
    s: "SLIDE (ce_rabin e) (p ! nat (i - 1)) s = Some s'" "slider_ok (window_at p k i) s'" by (auto simp flip: window_at_step)
  have lt: "i < fin" using Suc.hyps(2) by linarith
  with Suc.hyps(1) [of "i + 1" s'] Suc.hyps(2) Suc.prems s b masked_mark [OF s(2)] first_or_step [OF lt] show ?case
    by (subst normalized_loop.simps) (simp add: Let_def)
qed

text \<open>C18: with the tables of the initialisation the Rabin functions cut at the first position, from the
  minimum on, where the remainder of the last 48 bytes has the break mark under the mask, and at
  the end of the data or the maximum when there is none. The remainder is that of the long division
  of the bytes as a polynomial, although the code keeps it with two tables and a ring buffer.\<close>

theorem rabin_cut_reference:
  assumes "chunkAlg_init e0 = Some e" "0 < chunk_min_size (ce_conf e0)" "chunk_min_size (ce_conf e0) \<le> chunk_max_size (ce_conf e0)"
    and "chunk_min_size (ce_conf e0) < int (length p)"
  shows "rabin_chunk_data e p = Some (first_or (chunk_min_size (ce_conf e0)) (min (int (length p)) (chunk_max_size (ce_conf e0)))
       (\<lambda>i. mark_at (chunk_avg_size (ce_conf e0) - 1) (window_at p (chunk_min_size (ce_conf e0)) i)))
    \<and> normalized_rabin_chunk_data e p = Some (first_or (chunk_min_size (ce_conf e0)) (min (int (length p)) (chunk_max_size (ce_conf e0)))
       (\<lambda>i. mark_at (if i < chunk_avg_size (ce_conf e0) then chunk_avg_size (ce_conf e0) * 2 - 1 else chunk_avg_size (ce_conf e0) div 2 - 1)
              (window_at p (chunk_min_size (ce_conf e0)) i)))"
proof -
  let ?k = "chunk_min_size (ce_conf e0)"
  from chunkAlg_init_ok [of e0] assms(1) have e: "rabin_ok (ce_rabin e)" "ce_conf e = ce_conf e0" "ce_rabin_mask e = chunk_avg_size (ce_conf e0) - 1" by auto
  have f: "chunk_end e p = min (int (length p)) (chunk_max_size (ce_conf e0))" by (simp add: chunk_end_def e(2) min_def)
  have s: "slider_ok (window_at p ?k (?k - 1)) slider_init" unfolding window_at_start by (rule slider_init_ok)
  from rabin_loop_first [OF e(1) s, of "chunk_end e p"] normalized_loop_first [OF e(1) s, of "chunk_end e p"] assms(2-4) f
  show ?thesis by (simp add: rabin_chunk_data_def normalized_rabin_chunk_data_def e Let_def)
qed

theorem rabin_cut_reference_witness:
  "\<exists>e. chunkAlg_init (ex_chunk_env CHUNK_RABIN) = Some e
     \<and> rabin_chunk_data e [1, 2, 3] = Some (first_or 1 3 (\<lambda>i. mark_at 1 (window_at [1, 2, 3] 1 i)))"
proof -
  from chunkAlg_init_ok [of "ex_chunk_env CHUNK_RABIN"] obtain e where e: "chunkAlg_init (ex_chunk_env CHUNK_RABIN) = Some e" by blast
  from rabin_cut_reference [OF e, of "[1, 2, 3]"] e show ?thesis by (simp add: ex_chunk_env_def)
qed

end
