(* ===== verification/Restore_Correct.thy ===== *)
theory Restore_Correct
  imports Restore
begin

unbundle bit_operations_syntax

text \<open>
  The restore caches serve the data the recipe names. \<open>fetch_sound\<close> is what the backup leaves
  behind: every container of \<open>fetch\<close>, a part of the pool \<open>disk\<close> (the part the recipe refers to), carries its
  number and holds, under a fingerprint, the content of that fingerprint. \<open>served\<close> says of a chunk of the recipe that the container it names
  has its fingerprint.
\<close>

section \<open>What a restore has to deliver\<close>

definition fetch_sound :: "(containerid \<Rightarrow> container option) \<Rightarrow> (containerid \<Rightarrow> container option) \<Rightarrow> (fingerprint \<Rightarrow> byte list) \<Rightarrow> bool" where
  "fetch_sound disk fetch content = (\<forall>i con. fetch i = Some con \<longrightarrow> disk i = Some con \<and>
     get_container_id con = i \<and> con_data con \<noteq> None \<and> (\<forall>fp bs. entry_data con fp = Some bs \<longrightarrow> bs = content fp))"

definition served :: "(containerid \<Rightarrow> container option) \<Rightarrow> (fingerprint \<Rightarrow> byte list) \<Rightarrow> chunk \<Rightarrow> bool" where
  "served fetch content c =
     (\<not> is_file_signal c \<longrightarrow>
       (case fetch (ck_id c) of None \<Rightarrow> False | Some con \<Rightarrow> lookup_fingerprint_in_container con (ck_fp c))
       \<and> content (ck_fp c) \<noteq> [] \<and> ck_size c = int (length (content (ck_fp c))))"

definition restored :: "(fingerprint \<Rightarrow> byte list) \<Rightarrow> chunk \<Rightarrow> chunk \<Rightarrow> bool" where
  "restored content c c' =
     (if is_file_signal c then c' = c
      else \<not> is_file_signal c' \<and> ck_size c' = ck_size c \<and> ck_data c' = Some (content (ck_fp c)))"

lemma fetch_soundD:
  assumes "fetch_sound disk fetch content" "fetch i = Some con"
  shows "get_container_id con = i" "\<exists>d. con_data con = Some d" "entry_data con fp = Some bs \<Longrightarrow> bs = content fp"
    "disk i = Some con"
  using assms by (simp_all add: fetch_sound_def)

lemma get_chunk_content:
  assumes "fetch_sound disk fetch content" "fetch i = Some con" "lookup_fingerprint_in_container con fp" "content fp \<noteq> []"
  shows "\<exists>ck. get_chunk_in_container SIMULATION_NO junk stack con fp = Some ck \<and> ck_data ck = Some (content fp)
     \<and> ck_size ck = int (length (content fp)) \<and> \<not> is_file_signal ck"
proof -
  from assms(3) obtain me where me: "map_of (cm_map (con_meta con)) fp = Some me"
    by (auto simp: lookup_fingerprint_in_container_def lookup_fingerprint_in_container_meta_def)
  from fetch_soundD(2) [OF assms(1,2)] obtain d where d: "con_data con = Some d" by blast
  then have "entry_data con fp = Some (get_bytes d (nat (me_off me)) (nat (me_len me)))" using me by (simp add: entry_data_def)
  then have bs: "content fp = get_bytes d (nat (me_off me)) (nat (me_len me))"
    using fetch_soundD(3) [OF assms(1,2)] by metis
  with assms(4) have "me_len me > 0" by (cases "me_len me > 0") (auto simp: get_bytes_def)
  with me d bs show ?thesis
    by (auto simp: get_chunk_in_container_def Let_def flag_simps less_simulation_level_def)
qed

section \<open>The LRU cache\<close>

definition cache_from :: "(containerid \<Rightarrow> container option) \<Rightarrow> con_cache \<Rightarrow> bool" where
  "cache_from fetch cache = (lru_inv cache \<and> hit_elem cache = lookup_fingerprint_in_container
     \<and> (\<forall>con \<in> set (elem_queue cache). fetch (get_container_id con) = Some con))"

lemma cache_from_new: "cache_from fetch (new_lru_cache n lookup_fingerprint_in_container)"
  by (simp add: cache_from_def lru_inv_new new_lru_cache_def lru_inv_def)

lemma cache_from_lookup: "cache_from fetch cache \<Longrightarrow> cache_from fetch (snd (lru_cache_lookup cache fp))"
  by (simp add: cache_from_def lru_inv_lookup frame_simps)

lemma cache_from_insert:
  assumes "cache_from fetch cache" "fetch (get_container_id con) = Some con"
  shows "\<exists>v cache'. lru_cache_insert cache con = Some (v, cache') \<and> cache_from fetch cache'"
  using assms lru.insert_ok [of cache con] lru_insert_frame [of cache con]
  by (force simp: cache_from_def)

lemma cache_from_hit:
  assumes "cache_from fetch cache" "lru_cache_lookup cache fp = (Some con, cache')"
  shows "fetch (get_container_id con) = Some con \<and> lookup_fingerprint_in_container con fp"
  using assms lru.lookup_elem [of cache fp con] by (simp add: cache_from_def)

lemma lru_chunk_restored:
  assumes "fetch_sound (re_fetch e) fetch content" "served fetch content c" "simulation_level (re_conf e) = SIMULATION_NO"
    and "cache_from fetch cache"
  shows "\<exists>c' cache' jc'. lru_restore_chunk e c cache jc = Some ([c'], cache', jc')
     \<and> cache_from fetch cache' \<and> restored content c c'"
proof (cases "is_file_signal c")
  case True
  with assms(4) show ?thesis by (auto simp: lru_restore_chunk_def restored_def)
next
  case False
  obtain hit cache1 where l: "lru_cache_lookup cache (ck_fp c) = (hit, cache1)" by force
  have c1: "cache_from fetch cache1" using cache_from_lookup [OF assms(4), of "ck_fp c"] l by simp
  from assms(2) False obtain con0 where con0: "fetch (ck_id c) = Some con0"
    "lookup_fingerprint_in_container con0 (ck_fp c)" and ct: "content (ck_fp c) \<noteq> []" "ck_size c = int (length (content (ck_fp c)))"
    by (auto simp: served_def split: option.splits)
  have id0: "get_container_id con0 = ck_id c" using fetch_soundD(1) [OF assms(1) con0(1)] .
  have "\<exists>con cache2 jc2. (case hit of Some con \<Rightarrow> Some (con, cache1, jc) | None \<Rightarrow> lru_fetch e (ck_id c) cache1 jc) = Some (con, cache2, jc2)
      \<and> cache_from fetch cache2 \<and> fetch (get_container_id con) = Some con \<and> lookup_fingerprint_in_container con (ck_fp c)"
  proof (cases hit)
    case None
    with cache_from_insert [OF c1, of con0] con0 id0 fetch_soundD(4) [OF assms(1) con0(1)] show ?thesis by (auto simp: lru_fetch_def)
  next
    case (Some con)
    with cache_from_hit [OF assms(4)] l c1 show ?thesis by auto
  qed
  then obtain con cache2 jc2 where f: "(case hit of Some con \<Rightarrow> Some (con, cache1, jc) | None \<Rightarrow> lru_fetch e (ck_id c) cache1 jc)
      = Some (con, cache2, jc2)" "cache_from fetch cache2" "fetch (get_container_id con) = Some con"
      "lookup_fingerprint_in_container con (ck_fp c)" by blast
  from get_chunk_content [OF assms(1) f(3,4) ct(1), of "re_junk e" "re_stack e"] obtain ck where
    ck: "get_chunk_in_container SIMULATION_NO (re_junk e) (re_stack e) con (ck_fp c) = Some ck"
    "ck_data ck = Some (content (ck_fp c))" "ck_size ck = int (length (content (ck_fp c)))" "\<not> is_file_signal ck" by blast
  have "lru_restore_chunk e c cache jc = Some ([ck], cache2, count_chunk c jc2)"
    using False l f(1) ck(1) assms(3) by (auto simp: lru_restore_chunk_def less_eq_simulation_level_def)
  with f(2) ck False ct show ?thesis by (auto simp: restored_def)
qed

lemma lru_restored:
  assumes "fetch_sound (re_fetch e) fetch content" "simulation_level (re_conf e) = SIMULATION_NO"
  shows "list_all (served fetch content) cs \<Longrightarrow> cache_from fetch cache \<Longrightarrow>
     \<exists>out cache' jc'. lru_restore e cs cache jc = Some (out, cache', jc') \<and> list_all2 (restored content) cs out"
proof (induction cs arbitrary: cache jc)
  case Nil
  then show ?case by simp
next
  case (Cons c cs)
  from lru_chunk_restored [OF assms(1) _ assms(2) Cons.prems(2), of c jc] Cons.prems(1) obtain c' cache1 jc1 where
    1: "lru_restore_chunk e c cache jc = Some ([c'], cache1, jc1)" "cache_from fetch cache1" "restored content c c'" by auto
  from Cons.IH [OF _ 1(2), of jc1] Cons.prems(1) 1 show ?case by auto
qed

lemma lru_thread_restored:
  assumes "fetch_sound (re_fetch e) fetch content" "simulation_level (re_conf e) = SIMULATION_NO"
    and "list_all (served fetch content) cs"
  shows "\<exists>out jc'. lru_restore_thread e cs jc = Some (out, jc') \<and> list_all2 (restored content) cs out"
  using lru_restored [OF assms cache_from_new, of "restore_cache1 (re_conf e)" jc]
  by (auto simp: lru_restore_thread_def)

section \<open>The assembly area\<close>

text \<open>A chunk of the recipe and the chunk that waits for it in the area: its data are there once
  it is ready.\<close>

definition waiting :: "(fingerprint \<Rightarrow> byte list) \<Rightarrow> chunk \<Rightarrow> chunk \<Rightarrow> bool" where
  "waiting content c a =
     (if is_file_signal c then a = c
      else \<not> is_file_signal a \<and> ck_fp a = ck_fp c \<and> ck_id a = ck_id c \<and> ck_size a = ck_size c
        \<and> (CHECK_CHUNK a CHUNK_READY \<longrightarrow> ck_data a = Some (content (ck_fp c))))"

lemma waiting_signal: "waiting content c a \<Longrightarrow> is_file_signal a = is_file_signal c"
  by (auto simp: waiting_def split: if_splits)

lemma waiting_issued: "waiting content c a \<Longrightarrow> issued a \<Longrightarrow> restored content c a"
  by (auto simp: waiting_def issued_def restored_def split: if_splits)

lemma waiting_fresh: "\<not> CHECK_CHUNK c CHUNK_READY \<Longrightarrow> waiting content c c"
  by (simp add: waiting_def)

lemma assemble_chunk_waiting:
  assumes "fetch_sound (re_fetch e) fetch content" "simulation_level (re_conf e) = SIMULATION_NO"
    and "fetch i = Some con" "served fetch content c" "waiting content c a"
  shows "\<exists>a'. assemble_chunk e i (Some con) a = Some a' \<and> waiting content c a'"
proof (cases "\<not> is_file_signal a \<and> i = ck_id a")
  case False
  with assms(5) show ?thesis by (auto simp: assemble_chunk_def)
next
  case True
  then have c: "\<not> is_file_signal c" "ck_fp a = ck_fp c" "ck_id a = ck_id c" "ck_size a = ck_size c"
    using assms(5) waiting_signal [OF assms(5)] by (auto simp: waiting_def)
  with assms(3,4) True have l: "lookup_fingerprint_in_container con (ck_fp a)" "content (ck_fp a) \<noteq> []"
    "ck_size a = int (length (content (ck_fp a)))" by (auto simp: served_def)
  from get_chunk_content [OF assms(1,3) l(1,2), of "re_junk e" "re_stack e"] obtain ck where
    ck: "get_chunk_in_container SIMULATION_NO (re_junk e) (re_stack e) con (ck_fp a) = Some ck"
    "ck_data ck = Some (content (ck_fp a))" "ck_size ck = int (length (content (ck_fp a)))" by blast
  have "assemble_chunk e i (Some con) a = Some (SET_CHUNK (a\<lparr>ck_data := Some (content (ck_fp a))\<rparr>) CHUNK_READY)"
    using True ck l assms(2) by (simp add: assemble_chunk_def)
  moreover have "waiting content c (SET_CHUNK (a\<lparr>ck_data := Some (content (ck_fp a))\<rparr>) CHUNK_READY)"
    using c True by (simp add: waiting_def flag_simps)
  ultimately show ?thesis by blast
qed

lemma map_opt_list_all2:
  assumes "\<And>x y. P x y \<Longrightarrow> x \<in> set xs \<Longrightarrow> \<exists>y'. f y = Some y' \<and> Q x y'"
  shows "list_all2 P xs ys \<Longrightarrow> \<exists>ys'. map_opt f ys = Some ys' \<and> list_all2 Q xs ys'"
  using assms
proof (induction xs arbitrary: ys)
  case Nil
  then show ?case by simp
next
  case (Cons x xs)
  then obtain y ys0 where ys: "ys = y # ys0" "P x y" "list_all2 P xs ys0" by (auto simp: list_all2_Cons1)
  from Cons.prems(2) [OF ys(2)] obtain y' where "f y = Some y'" "Q x y'" by auto
  moreover from Cons.IH [OF ys(3)] Cons.prems(2) obtain ys' where "map_opt f ys0 = Some ys'" "list_all2 Q xs ys'" by auto
  ultimately show ?case using ys(1) by auto
qed

text \<open>A prefix of what waits is complete when its chunks are issued.\<close>

lemma list_all2_takeWhile:
  "list_all2 P xs as \<Longrightarrow> \<exists>ys zs. xs = ys @ zs \<and> list_all2 (\<lambda>x a. P x a \<and> p a) ys (takeWhile p as)
     \<and> list_all2 P zs (dropWhile p as)"
proof (induction rule: list_all2_induct)
  case Nil
  then show ?case by simp
next
  case (Cons x xs a as)
  show ?case
  proof (cases "p a")
    case False
    with Cons show ?thesis by (intro exI [of _ "[]"] exI [of _ "x # xs"]) simp
  next
    case True
    from Cons.IH obtain ys zs where "xs = ys @ zs" "list_all2 (\<lambda>x a. P x a \<and> p a) ys (takeWhile p as)"
      "list_all2 P zs (dropWhile p as)" by blast
    with True Cons.hyps show ?thesis by (intro exI [of _ "x # ys"] exI [of _ zs]) simp
  qed
qed

lemma waiting_prefix:
  assumes "list_all2 (waiting content) xs as" "\<And>a. p a \<Longrightarrow> issued a"
  shows "\<exists>ys zs. xs = ys @ zs \<and> list_all2 (restored content) ys (takeWhile p as)
     \<and> list_all2 (waiting content) zs (dropWhile p as)"
proof -
  from list_all2_takeWhile [OF assms(1), of p] obtain ys zs where
    1: "xs = ys @ zs" "list_all2 (\<lambda>x a. waiting content x a \<and> p a) ys (takeWhile p as)"
    "list_all2 (waiting content) zs (dropWhile p as)" by blast
  from 1(2) have "list_all2 (restored content) ys (takeWhile p as)"
    by (rule list_all2_mono) (auto intro: waiting_issued assms(2))
  with 1 show ?thesis by blast
qed

lemma area_assembled:
  assumes "fetch_sound (re_fetch e) fetch content" "simulation_level (re_conf e) = SIMULATION_NO"
    and "list_all (served fetch content) xs" "list_all2 (waiting content) xs (aa_area a)" "xs \<noteq> []"
  shows "\<exists>q a' jc' ys zs. assemble_area e a jc = Some (Some q, a', jc') \<and> xs = ys @ zs
     \<and> list_all2 (restored content) ys q \<and> list_all2 (waiting content) zs (aa_area a')"
proof -
  from waiting_prefix [OF assms(4), of is_file_signal] obtain ss ds where
    xs: "xs = ss @ ds" "list_all2 (restored content) ss (takeWhile is_file_signal (aa_area a))"
    "list_all2 (waiting content) ds (dropWhile is_file_signal (aa_area a))" by (auto simp: issued_def)
  show ?thesis
  proof (cases "dropWhile is_file_signal (aa_area a)")
    case Nil
    have "aa_area a \<noteq> []" using assms(4,5) by auto
    with Nil have "assemble_area e a jc = Some (Some (takeWhile is_file_signal (aa_area a)), a\<lparr>aa_area := []\<rparr>, jc)"
      by (simp add: assemble_area_def del: dropWhile_eq_Nil_conv)
    moreover have "ds = []" using xs(3) unfolding Nil by simp
    ultimately show ?thesis using xs by auto
  next
    case (Cons a0 as)
    with xs(3) obtain c0 cs where c0: "ds = c0 # cs" "waiting content c0 a0" by (auto simp: list_all2_Cons2)
    have "\<not> is_file_signal a0" using hd_dropWhile [of is_file_signal "aa_area a"] Cons by auto
    with c0(2) have "\<not> is_file_signal c0" "ck_id a0 = ck_id c0" using waiting_signal [OF c0(2)] by (auto simp: waiting_def)
    moreover have "served fetch content c0" using assms(3) xs(1) c0(1) by simp
    ultimately obtain con where con: "fetch (ck_id a0) = Some con" by (auto simp: served_def split: option.splits)
    have "\<exists>area. map_opt (assemble_chunk e (ck_id a0) (Some con)) (a0 # as) = Some area \<and> list_all2 (waiting content) ds area"
      using map_opt_list_all2 [where P = "waiting content" and Q = "waiting content" and xs = ds and ys = "a0 # as"
          and f = "assemble_chunk e (ck_id a0) (Some con)"] assemble_chunk_waiting [OF assms(1,2) con] assms(3) xs(1,3) Cons
      by (simp add: list_all_iff)
    then obtain area where area: "map_opt (assemble_chunk e (ck_id a0) (Some con)) (a0 # as) = Some area"
      "list_all2 (waiting content) ds area" by blast
    from waiting_prefix [OF area(2), of issued] obtain ys zs where
      y: "ds = ys @ zs" "list_all2 (restored content) ys (takeWhile issued area)" "list_all2 (waiting content) zs (dropWhile issued area)"
      by auto
    have r: "list_all2 (restored content) (ss @ ys) (takeWhile is_file_signal (aa_area a) @ takeWhile issued area)"
      using xs(2) y(2) by (rule list_all2_appendI)
    let ?a = "a\<lparr>aa_area := dropWhile issued area,
         aa_size := aa_size a - sum_list (map ck_size (filter (\<lambda>c. \<not> is_file_signal c) (takeWhile issued area)))\<rparr>"
    have "assemble_area e a jc
        = Some (Some (takeWhile is_file_signal (aa_area a) @ takeWhile issued area), ?a, count_container jc)"
      unfolding assemble_area_cons [OF Cons] using fetch_soundD(4) [OF assms(1) con] assms(2) area(1) by (simp del: map_opt.simps)
    moreover have "xs = (ss @ ys) @ zs" "list_all2 (waiting content) zs (aa_area ?a)" using xs(1) y(1,3) by simp_all
    ultimately show ?thesis using r by blast
  qed
qed

lemma issue_all: "simulation_level (re_conf e) = SIMULATION_NO \<Longrightarrow> fst (issue_queue e q jc) = q"
  by (simp add: issue_queue_def less_eq_simulation_level_def)

lemma loop_restored:
  assumes "fetch_sound (re_fetch e) fetch content" "simulation_level (re_conf e) = SIMULATION_NO"
  shows "list_all (served fetch content) (xs @ cs) \<Longrightarrow> list_all2 (waiting content) xs (aa_area a) \<Longrightarrow>
     list_all (\<lambda>c. \<not> CHECK_CHUNK c CHUNK_READY) cs \<Longrightarrow>
     \<exists>out a' jc' ys zs. assembly_restore_loop e cs a jc = Some (out, a', jc') \<and> xs @ cs = ys @ zs
       \<and> list_all2 (restored content) ys out \<and> list_all2 (waiting content) zs (aa_area a')"
proof (induction cs arbitrary: xs a jc)
  case Nil
  then show ?case by auto
next
  case (Cons c cs)
  obtain full a1 where p: "assembly_area_push c a = (full, a1)" by force
  then have a1: "aa_area a1 = aa_area a @ [c]" by (auto simp: assembly_area_push_def Let_def split: if_splits)
  have w: "list_all2 (waiting content) (xs @ [c]) (aa_area a1)"
    using Cons.prems(2,3) a1 waiting_fresh by (auto intro: list_all2_appendI)
  have s: "list_all (served fetch content) (xs @ [c])" using Cons.prems(1) by simp
  have "\<exists>out a' jc' ys zs. (if full then do {
          (q, a, jc) \<leftarrow> assemble_area e a1 jc;
          q \<leftarrow> q;
          let (out, jc) = issue_queue e q jc;
          Some (out, a, jc)
        }
        else Some ([], a1, jc)) = Some (out, a', jc') \<and> xs @ [c] = ys @ zs
       \<and> list_all2 (restored content) ys out \<and> list_all2 (waiting content) zs (aa_area a')"
  proof (cases full)
    case False
    with w show ?thesis by (auto intro!: exI [of _ "[]"])
  next
    case True
    from area_assembled [OF assms s w, of jc] obtain q a' jc' ys zs where
      1: "assemble_area e a1 jc = Some (Some q, a', jc')" "xs @ [c] = ys @ zs"
      "list_all2 (restored content) ys q" "list_all2 (waiting content) zs (aa_area a')" by auto
    obtain jc2 where "issue_queue e q jc' = (q, jc2)" using issue_all [OF assms(2), of q jc'] by (cases "issue_queue e q jc'") auto
    with 1 True show ?thesis by (intro exI [of _ q] exI [of _ a'] exI [of _ jc2] exI [of _ ys] exI [of _ zs]) simp
  qed
  then obtain out a' jc' ys zs where o: "(if full then do {
          (q, a, jc) \<leftarrow> assemble_area e a1 jc;
          q \<leftarrow> q;
          let (out, jc) = issue_queue e q jc;
          Some (out, a, jc)
        }
        else Some ([], a1, jc)) = Some (out, a', jc')" "xs @ [c] = ys @ zs"
       "list_all2 (restored content) ys out" "list_all2 (waiting content) zs (aa_area a')" by blast
  have e: "xs @ c # cs = ys @ zs @ cs" using o(2) by (metis append_assoc append_Cons append_Nil)
  then have "list_all (served fetch content) (zs @ cs)" using Cons.prems(1) by (metis list_all_append)
  from Cons.IH [OF this o(4), of jc'] Cons.prems(3) obtain outs a2 jc2 ys2 zs2 where
    2: "assembly_restore_loop e cs a' jc' = Some (outs, a2, jc2)" "zs @ cs = ys2 @ zs2"
    "list_all2 (restored content) ys2 outs" "list_all2 (waiting content) zs2 (aa_area a2)" by auto
  have "assembly_restore_loop e (c # cs) a jc = Some (out @ outs, a2, jc2)" using p o(1) 2(1) by (simp add: Let_def)
  moreover have "xs @ c # cs = (ys @ ys2) @ zs2" using e 2(2) by simp
  ultimately show ?case using list_all2_appendI [OF o(3) 2(3)] 2(4) by blast
qed

lemma drain_restored:
  assumes "fetch_sound (re_fetch e) fetch content" "simulation_level (re_conf e) = SIMULATION_NO"
  shows "list_all (served fetch content) xs \<Longrightarrow> list_all2 (waiting content) xs (aa_area a) \<Longrightarrow>
     \<exists>out jc'. assembly_restore_drain e a jc = Some (out, jc') \<and> list_all2 (restored content) xs out"
proof (induction "length (aa_area a)" arbitrary: xs a jc rule: less_induct)
  case less
  show ?case
  proof (cases "xs = []")
    case True
    with less.prems show ?thesis by (subst assembly_restore_drain.simps) (simp add: assemble_area_def)
  next
    case False
    from area_assembled [OF assms less.prems False, of jc] obtain q a' jc' ys zs where
      1: "assemble_area e a jc = Some (Some q, a', jc')" "xs = ys @ zs"
      "list_all2 (restored content) ys q" "list_all2 (waiting content) zs (aa_area a')" by blast
    obtain jc2 where i: "issue_queue e q jc' = (q, jc2)" using issue_all [OF assms(2), of q jc'] by (cases "issue_queue e q jc'") auto
    from less.hyps [OF assemble_area_shorter [OF 1(1)], of zs jc2] less.prems(1) 1(2,4) obtain out jc3 where
      2: "assembly_restore_drain e a' jc2 = Some (out, jc3)" "list_all2 (restored content) zs out" by auto
    have "assembly_restore_drain e a jc = Some (q @ out, jc3)"
      using 1(1) i 2(1) by (subst assembly_restore_drain.simps) simp
    with 1(2,3) 2(2) list_all2_appendI show ?thesis by blast
  qed
qed

lemma assembly_thread_restored:
  assumes "fetch_sound (re_fetch e) fetch content" "simulation_level (re_conf e) = SIMULATION_NO"
    and "list_all (served fetch content) cs" "list_all (\<lambda>c. \<not> CHECK_CHUNK c CHUNK_READY) cs"
  shows "\<exists>out jc'. assembly_restore_thread e cs jc = Some (out, jc') \<and> list_all2 (restored content) cs out"
proof -
  from loop_restored [OF assms(1,2), where xs = "[]" and a = "init_assembly_area (re_conf e)" and jc = jc and cs = cs] assms(3,4)
  obtain out a' jc' ys zs where
    1: "assembly_restore_loop e cs (init_assembly_area (re_conf e)) jc = Some (out, a', jc')" "cs = ys @ zs"
    "list_all2 (restored content) ys out" "list_all2 (waiting content) zs (aa_area a')" by (auto simp: init_assembly_area_def)
  from drain_restored [OF assms(1,2) _ 1(4), of jc'] assms(3) 1(2) obtain out2 jc2 where
    2: "assembly_restore_drain e a' jc' = Some (out2, jc2)" "list_all2 (restored content) zs out2" by auto
  show ?thesis using 1 2 list_all2_appendI [OF 1(3) 2(2)] by (auto simp: assembly_restore_thread_def)
qed

end
