(* ===== verification/Optimal_Restore.thy ===== *)
theory Optimal_Restore
  imports Restore_Correct
begin

text \<open>
  The optimal restore cache (\<^verbatim>\<open>src/destor/src/optimal_restore.c\<close>). It reads ahead in the access records of
  the version, one for every change of the container along the recipe, and evicts a container
  without an access in the window or, when there is none, the one at the end of the sorted
  sequence.

  An access record is named by its container number and lives in the hash table; the sequence of
  the records of cached containers is a list of these numbers. The comparison of the sequence
  calls two records without pending accesses greater than each other, so nothing is known of the
  order that GLib's sorting makes of it: \<open>g_sequence_sort\<close> and \<open>g_sequence_insert_sorted\<close> are the
  parameters \<open>oe_sort\<close> and \<open>oe_insert\<close>. The job's backup version is shared with the thread that
  reads the recipe; this thread uses its stream of records only. Sequence numbers are unbounded.
\<close>

section \<open>Definitions\<close>

record optimal_cache =
  oc_seqno :: int
  oc_table :: "containerid \<Rightarrow> int list option"
  oc_buffered :: int
  oc_sorted :: "containerid list"
  oc_lru :: con_cache
  oc_bv :: backupVersion
  oc_statics :: recipe_statics
  oc_last_id :: containerid

record optimal_env =
  oe_env :: restore_env
  oe_sort :: "(containerid \<Rightarrow> containerid \<Rightarrow> int) \<Rightarrow> containerid list \<Rightarrow> containerid list"
  oe_insert :: "(containerid \<Rightarrow> containerid \<Rightarrow> int) \<Rightarrow> containerid \<Rightarrow> containerid list \<Rightarrow> containerid list"

definition g_access_records_cmp_by_first_seqno :: "int list \<Rightarrow> int list \<Rightarrow> int" where
  "g_access_records_cmp_by_first_seqno a b =
     (case a of [] \<Rightarrow> 1 | da # _ \<Rightarrow> (case b of [] \<Rightarrow> - 1 | db # _ \<Rightarrow> da - db))"

definition push_access :: "containerid \<Rightarrow> optimal_cache \<Rightarrow> optimal_cache" where
  "push_access i oc =
     oc\<lparr>oc_table := (oc_table oc)(i \<mapsto> (case oc_table oc i of None \<Rightarrow> [] | Some q \<Rightarrow> q) @ [oc_seqno oc]),
        oc_seqno := oc_seqno oc + 1\<rparr>"

definition optimal_cache_window_fill :: "restore_env \<Rightarrow> optimal_cache \<Rightarrow> optimal_cache" where
  "optimal_cache_window_fill e oc =
     (let n = restore_opt_window_size (re_conf e) - oc_buffered oc;
          (ids, b, st) = read_next_n_records (re_be e) (oc_bv oc) (nat n) (oc_statics oc);
          oc = oc\<lparr>oc_bv := b, oc_statics := st\<rparr>
      in case ids of
           None \<Rightarrow> oc
         | Some ids \<Rightarrow> fold push_access ids (oc\<lparr>oc_buffered := oc_buffered oc + int (length ids)\<rparr>))"

text \<open>\<open>lid\<close> is the static variable of \<open>optimal_cache_hits\<close>, which is not reset between jobs.\<close>

definition init_optimal_cache :: "restore_env \<Rightarrow> containerid \<Rightarrow> backupVersion \<Rightarrow> recipe_statics \<Rightarrow> optimal_cache" where
  "init_optimal_cache e lid b st = optimal_cache_window_fill e
     \<lparr>oc_seqno = 0, oc_table = Map.empty, oc_buffered = 0, oc_sorted = [],
      oc_lru = new_lru_cache (restore_cache1 (re_conf e)) lookup_fingerprint_in_container,
      oc_bv = b, oc_statics = st, oc_last_id = lid\<rparr>"

definition optimal_cache_window_slides :: "restore_env \<Rightarrow> containerid \<Rightarrow> optimal_cache \<Rightarrow> optimal_cache option" where
  "optimal_cache_window_slides e i oc = do {
     let oc = (if oc_buffered oc * 2 \<le> restore_opt_window_size (re_conf e) then optimal_cache_window_fill e oc else oc);
     q \<leftarrow> oc_table oc i;
     Some (oc\<lparr>oc_table := (oc_table oc)(i \<mapsto> tl q), oc_buffered := oc_buffered oc - 1\<rparr>)
   }"

definition optimal_cache_hits :: "restore_env \<Rightarrow> containerid \<Rightarrow> optimal_cache \<Rightarrow> (bool \<times> optimal_cache) option" where
  "optimal_cache_hits e i oc = do {
     oc \<leftarrow> (if oc_last_id oc \<noteq> i then do {
              oc \<leftarrow> optimal_cache_window_slides e i oc;
              Some (oc\<lparr>oc_last_id := i\<rparr>)
            }
            else Some oc);
     let (hit, l) = lru_cache_hits (oc_lru oc) i (\<lambda>con i. container_check_id con i \<noteq> 0);
     Some (hit \<noteq> None, oc\<lparr>oc_lru := l\<rparr>)
   }"

definition optimal_cache_lookup :: "restore_env \<Rightarrow> fingerprint \<Rightarrow> optimal_cache \<Rightarrow> (chunk \<times> optimal_cache) option" where
  "optimal_cache_lookup e fp oc = do {
     assertion (simulation_level (re_conf e) = SIMULATION_NO);
     let (con, l) = lru_cache_lookup (oc_lru oc) fp;
     con \<leftarrow> con;
     c \<leftarrow> get_chunk_in_container SIMULATION_NO (re_junk e) (re_stack e) con fp;
     Some (c, oc\<lparr>oc_lru := l\<rparr>)
   }"

text \<open>The records at the end of the sequence that may be evicted: the last one and up to ten
  before it, as long as they have no pending access.\<close>

definition victim_candidates :: "(containerid \<Rightarrow> int list) \<Rightarrow> containerid list \<Rightarrow> containerid list" where
  "victim_candidates queue srt =
     (case rev srt of [] \<Rightarrow> [] | r # rs \<Rightarrow> r # takeWhile (\<lambda>i. queue i = []) (take 10 rs))"

definition find_kicked_container :: "container \<Rightarrow> containerid list \<Rightarrow> bool" where
  "find_kicked_container con ht = (get_container_id con \<in> set ht)"

text \<open>The queue of a record of the sequence; the records of the sequence are in the table.\<close>

definition record_queue :: "optimal_cache \<Rightarrow> containerid \<Rightarrow> int list" where
  "record_queue oc i = (case oc_table oc i of Some q \<Rightarrow> q | None \<Rightarrow> [])"

definition cmp_records :: "optimal_cache \<Rightarrow> containerid \<Rightarrow> containerid \<Rightarrow> int" where
  "cmp_records oc a b = g_access_records_cmp_by_first_seqno (record_queue oc a) (record_queue oc b)"

text \<open>The last record is read from an empty sequence, and no container may be found: both are
  \<open>None\<close>. The evicted record is looked for from the end of the sequence.\<close>

definition optimal_cache_evict :: "optimal_env \<Rightarrow> optimal_cache \<Rightarrow> optimal_cache option" where
  "optimal_cache_evict oe oc = do {
     assertion (oc_sorted oc \<noteq> [] \<and> list_all (\<lambda>i. oc_table oc i \<noteq> None) (oc_sorted oc));
     let srt = oe_sort oe (cmp_records oc) (oc_sorted oc);
     let (con, l) = lru_cache_kicks (oc_lru oc) (victim_candidates (record_queue oc) srt) find_kicked_container;
     con \<leftarrow> con;
     let victim = get_container_id con;
     (r, others) \<leftarrow> take_first (\<lambda>i. i = victim) (rev srt);
     Some (oc\<lparr>oc_lru := l, oc_sorted := rev others,
              oc_table := (if record_queue oc r = [] then (oc_table oc)(r := None) else oc_table oc)\<rparr>)
   }"

definition optimal_cache_insert ::
    "optimal_env \<Rightarrow> containerid \<Rightarrow> optimal_cache \<Rightarrow> restore_jcr \<Rightarrow> (optimal_cache \<times> restore_jcr) option" where
  "optimal_cache_insert oe i oc jc = do {
     oc \<leftarrow> (if lru_cache_is_full (oc_lru oc) then optimal_cache_evict oe oc else Some oc);
     con \<leftarrow> re_fetch (oe_env oe) i;
     (_, l) \<leftarrow> lru_cache_insert (oc_lru oc) con;
     let oc = oc\<lparr>oc_lru := l\<rparr>;
     assertion (oc_table oc i \<noteq> None);
     Some (oc\<lparr>oc_sorted := oe_insert oe (cmp_records oc) i (oc_sorted oc)\<rparr>,
           count_container jc)
   }"

definition optimal_restore_chunk ::
    "optimal_env \<Rightarrow> chunk \<Rightarrow> optimal_cache \<Rightarrow> restore_jcr \<Rightarrow> (chunk list \<times> optimal_cache \<times> restore_jcr) option" where
  "optimal_restore_chunk oe c oc jc =
     (if is_file_signal c then Some ([c], oc, jc)
      else do {
        (hit, oc) \<leftarrow> optimal_cache_hits (oe_env oe) (ck_id c) oc;
        (oc, jc) \<leftarrow> (if hit then Some (oc, jc) else optimal_cache_insert oe (ck_id c) oc jc);
        (out, oc) \<leftarrow> (if simulation_level (re_conf (oe_env oe)) = SIMULATION_NO
                      then do { (rc, oc) \<leftarrow> optimal_cache_lookup (oe_env oe) (ck_fp c) oc; Some ([rc], oc) }
                      else Some ([], oc));
        Some (out, oc, count_chunk c jc)
      })"

fun optimal_restore ::
    "optimal_env \<Rightarrow> chunk list \<Rightarrow> optimal_cache \<Rightarrow> restore_jcr \<Rightarrow> (chunk list \<times> optimal_cache \<times> restore_jcr) option" where
  "optimal_restore oe [] oc jc = Some ([], oc, jc)"
| "optimal_restore oe (c # cs) oc jc = do {
     (out, oc, jc) \<leftarrow> optimal_restore_chunk oe c oc jc;
     (outs, oc, jc) \<leftarrow> optimal_restore oe cs oc jc;
     Some (out @ outs, oc, jc)
   }"

definition optimal_restore_thread ::
    "optimal_env \<Rightarrow> containerid \<Rightarrow> backupVersion \<Rightarrow> recipe_statics \<Rightarrow> chunk list \<Rightarrow> restore_jcr \<Rightarrow>
     (chunk list \<times> restore_jcr) option" where
  "optimal_restore_thread oe lid b st cs jc = do {
     (out, _, jc) \<leftarrow> optimal_restore oe cs (init_optimal_cache (oe_env oe) lid b st) jc;
     Some (out, jc)
   }"

section \<open>The window\<close>

text \<open>\<open>nexts\<close> are the changes of container that are still to come; a prefix \<open>buf\<close> of them and of
  the end mark is in the table, the others are still in the file.\<close>

definition window :: "bool \<Rightarrow> optimal_cache \<Rightarrow> containerid list \<Rightarrow> bool" where
  "window be oc nexts = (\<exists>buf unread. nexts @ [TEMPORARY_ID] = buf @ unread \<and> oc_buffered oc = int (length buf)
     \<and> records_end (oc_statics oc) = (unread = []) \<and> valid (record_fp (oc_bv oc))
     \<and> rest (record_fp (oc_bv oc)) = ids_bytes be unread \<and> (\<forall>i \<in> set unread. int64_range i)
     \<and> (\<forall>i. length (record_queue oc i) = count_list buf i) \<and> (\<forall>i \<in> set buf. oc_table oc i \<noteq> None))"

lemma read_ids_prefix:
  "\<forall>i \<in> set is. int64_range i \<Longrightarrow> valid s \<Longrightarrow> rest s = ids_bytes be is \<Longrightarrow>
     \<exists>s'. read_ids be n s = (take n is, s') \<and> valid s' \<and> rest s' = ids_bytes be (drop n is)"
proof (induction n arbitrary: "is" s)
  case 0
  then show ?case by simp
next
  case (Suc n)
  show ?case
  proof (cases "is")
    case Nil
    with Suc.prems have "s_read_int64 be s = None" by (auto simp: s_read_int64_def s_read_def rest_def ids_bytes_def)
    with Nil Suc.prems show ?thesis by simp
  next
    case (Cons i js)
    have r: "rest s = int64_bytes be i @ ids_bytes be js" "int64_range i"
      using Suc.prems Cons by (auto simp: ids_bytes_def simp del: word_bytes_numeral)
    note d = reads_D [OF reads_int64 [OF r(2)] Suc.prems(2) r(1)]
    have "\<exists>s'. read_ids be n (skip (length (int64_bytes be i)) s) = (take n js, s') \<and> valid s' \<and> rest s' = ids_bytes be (drop n js)"
      by (rule Suc.IH) (use Suc.prems Cons d in auto)
    with d Cons show ?thesis by auto
  qed
qed

lemma push_access_queue:
  "length (record_queue (push_access i oc) j) = length (record_queue oc j) + (if j = i then 1 else 0)"
  "oc_table (push_access i oc) j = None \<longleftrightarrow> oc_table oc j = None \<and> j \<noteq> i"
  by (auto simp: push_access_def record_queue_def split: option.splits)

lemma push_all_queue:
  "length (record_queue (fold push_access ids oc) j) = length (record_queue oc j) + count_list ids j"
  "oc_table (fold push_access ids oc) j = None \<longleftrightarrow> oc_table oc j = None \<and> j \<notin> set ids"
  by (induction ids arbitrary: oc) (auto simp: push_access_queue)

lemma push_all_frame [simp]:
  "oc_buffered (fold push_access ids oc) = oc_buffered oc" "oc_statics (fold push_access ids oc) = oc_statics oc"
  "oc_bv (fold push_access ids oc) = oc_bv oc" "oc_lru (fold push_access ids oc) = oc_lru oc"
  "oc_sorted (fold push_access ids oc) = oc_sorted oc" "oc_last_id (fold push_access ids oc) = oc_last_id oc"
  by (induction ids arbitrary: oc) (auto simp: push_access_def)

lemma last_take_mark:
  assumes "last xs = m" "m \<notin> set (butlast xs)" "n > 0" "xs \<noteq> []"
  shows "(last (take n xs) = m) = (drop n xs = [])"
proof (cases "n < length xs")
  case True
  then have "n \<le> length xs - 1" by simp
  then have "take n xs = take n (butlast xs)" by (simp add: butlast_conv_take)
  moreover have "take n xs \<noteq> []" using assms(3,4) by simp
  ultimately have "last (take n xs) \<in> set (butlast xs)" by (metis in_set_takeD last_in_set)
  with True assms(2) show ?thesis by auto
qed (use assms(1) in auto)

lemma window_fill:
  assumes "window (re_be e) oc nexts" "TEMPORARY_ID \<notin> set nexts"
    and "0 < restore_opt_window_size (re_conf e)" "oc_buffered oc * 2 \<le> restore_opt_window_size (re_conf e)"
  shows "window (re_be e) (optimal_cache_window_fill e oc) nexts \<and> oc_buffered (optimal_cache_window_fill e oc) > 0"
proof -
  from assms(1) obtain buf unread where w: "nexts @ [TEMPORARY_ID] = buf @ unread" "oc_buffered oc = int (length buf)"
    "records_end (oc_statics oc) = (unread = [])" "valid (record_fp (oc_bv oc))" "rest (record_fp (oc_bv oc)) = ids_bytes (re_be e) unread"
    "\<forall>i \<in> set unread. int64_range i" "\<forall>i. length (record_queue oc i) = count_list buf i" "\<forall>i \<in> set buf. oc_table oc i \<noteq> None"
    unfolding window_def by blast
  show ?thesis
  proof (cases "unread = []")
    case True
    then have "optimal_cache_window_fill e oc = oc" using w(3) by (simp add: optimal_cache_window_fill_def read_next_n_records_def)
    moreover have "length buf > 0" using w(1) True by (metis append_Nil2 length_greater_0_conv snoc_eq_iff_butlast)
    ultimately show ?thesis using assms(1) w(2) by simp
  next
    case False
    let ?n = "nat (restore_opt_window_size (re_conf e) - oc_buffered oc)"
    have n: "?n > 0" using assms(3,4) by linarith
    from read_ids_prefix [OF w(6,4,5), of ?n] obtain s' where
      s': "read_ids (re_be e) ?n (record_fp (oc_bv oc)) = (take ?n unread, s')" "valid s'" "rest s' = ids_bytes (re_be e) (drop ?n unread)" by blast
    have ne: "take ?n unread \<noteq> []" using False n by simp
    have "last unread = TEMPORARY_ID" using w(1) False by (metis last_appendR last_snoc)
    moreover have "TEMPORARY_ID \<notin> set (butlast unread)"
      using w(1) False assms(2) by (metis UnCI butlast_append butlast_snoc set_append)
    ultimately have lt: "(last (take ?n unread) = TEMPORARY_ID) = (drop ?n unread = [])"
      using last_take_mark [OF _ _ n False] by blast
    let ?oc = "optimal_cache_window_fill e oc"
    let ?oc1 = "oc\<lparr>oc_bv := (oc_bv oc)\<lparr>record_fp := s'\<rparr>,
        oc_statics := (if drop ?n unread = [] then (oc_statics oc)\<lparr>records_end := True\<rparr> else oc_statics oc),
        oc_buffered := oc_buffered oc + int (length (take ?n unread))\<rparr>"
    have oc: "?oc = fold push_access (take ?n unread) ?oc1"
      using False w(3) s'(1) ne lt by (simp add: optimal_cache_window_fill_def read_next_n_records_def Let_def)
    have q: "record_queue ?oc1 = record_queue oc" "oc_table ?oc1 = oc_table oc" by (auto simp: record_queue_def fun_eq_iff)
    have "window (re_be e) ?oc nexts" unfolding window_def
    proof (rule exI [of _ "buf @ take ?n unread"], rule exI [of _ "drop ?n unread"], intro conjI)
      show "nexts @ [TEMPORARY_ID] = (buf @ take ?n unread) @ drop ?n unread" using w(1) by simp
      show "oc_buffered ?oc = int (length (buf @ take ?n unread))" unfolding oc using w(2) by simp
      show "records_end (oc_statics ?oc) = (drop ?n unread = [])" unfolding oc using w(3) False by simp
      show "valid (record_fp (oc_bv ?oc))" "rest (record_fp (oc_bv ?oc)) = ids_bytes (re_be e) (drop ?n unread)"
        unfolding oc using s' by simp_all
      show "\<forall>i \<in> set (drop ?n unread). int64_range i" using w(6) by (meson in_set_dropD)
      show "\<forall>i. length (record_queue ?oc i) = count_list (buf @ take ?n unread) i"
        unfolding oc push_all_queue(1) q using w(7) by simp
      show "\<forall>i \<in> set (buf @ take ?n unread). oc_table ?oc i \<noteq> None"
        unfolding oc push_all_queue(2) q using w(8) by auto
    qed
    moreover have "int (length (take ?n unread)) > 0" using ne by (metis length_greater_0_conv of_nat_0_less_iff)
    then have "oc_buffered ?oc > 0" unfolding oc push_all_frame using w(2) by (simp del: length_take of_nat_0_less_iff length_greater_0_conv)
    ultimately show ?thesis by blast
  qed
qed

lemma fill_frame:
  "oc_lru (optimal_cache_window_fill e oc) = oc_lru oc" "oc_sorted (optimal_cache_window_fill e oc) = oc_sorted oc"
  "oc_last_id (optimal_cache_window_fill e oc) = oc_last_id oc"
  "oc_table oc j \<noteq> None \<Longrightarrow> oc_table (optimal_cache_window_fill e oc) j \<noteq> None"
  by (simp_all add: optimal_cache_window_fill_def Let_def push_all_queue(2) split: prod.splits option.splits del: not_None_eq)

lemma window_slides:
  assumes "window (re_be e) oc (i # nexts)" "TEMPORARY_ID \<notin> set (i # nexts)" "0 < restore_opt_window_size (re_conf e)"
  shows "\<exists>oc'. optimal_cache_window_slides e i oc = Some oc' \<and> window (re_be e) oc' nexts
     \<and> oc_table oc' i \<noteq> None \<and> (\<forall>j. oc_table oc j \<noteq> None \<longrightarrow> oc_table oc' j \<noteq> None)
     \<and> oc_lru oc' = oc_lru oc \<and> oc_sorted oc' = oc_sorted oc"
proof -
  let ?oc = "if oc_buffered oc * 2 \<le> restore_opt_window_size (re_conf e) then optimal_cache_window_fill e oc else oc"
  have frame: "oc_lru ?oc = oc_lru oc" "oc_sorted ?oc = oc_sorted oc" "\<And>j. oc_table oc j \<noteq> None \<Longrightarrow> oc_table ?oc j \<noteq> None"
    using fill_frame [where e = e and oc = oc] by simp_all
  have "window (re_be e) ?oc (i # nexts) \<and> oc_buffered ?oc > 0"
    using window_fill [OF assms(1,2,3)] assms by auto
  then obtain buf unread where w: "i # nexts @ [TEMPORARY_ID] = buf @ unread" "oc_buffered ?oc = int (length buf)"
    "records_end (oc_statics ?oc) = (unread = [])" "valid (record_fp (oc_bv ?oc))" "rest (record_fp (oc_bv ?oc)) = ids_bytes (re_be e) unread"
    "\<forall>i \<in> set unread. int64_range i" "\<forall>i. length (record_queue ?oc i) = count_list buf i" "\<forall>i \<in> set buf. oc_table ?oc i \<noteq> None"
    "length buf > 0" unfolding window_def by auto
  then obtain buf' where buf: "buf = i # buf'" by (cases buf) auto
  with w(8) obtain q where q: "oc_table ?oc i = Some q" by auto
  let ?oc' = "?oc\<lparr>oc_table := (oc_table ?oc)(i \<mapsto> tl q), oc_buffered := oc_buffered ?oc - 1\<rparr>"
  have s: "optimal_cache_window_slides e i oc = Some ?oc'" using q by (simp add: optimal_cache_window_slides_def Let_def)
  have "window (re_be e) ?oc' nexts" unfolding window_def
  proof (rule exI [of _ buf'], rule exI [of _ unread], intro conjI)
    show "nexts @ [TEMPORARY_ID] = buf' @ unread" using w(1) buf by simp
    show "oc_buffered ?oc' = int (length buf')" using w(2) buf by simp
    show "\<forall>j. length (record_queue ?oc' j) = count_list buf' j"
    proof
      fix j show "length (record_queue ?oc' j) = count_list buf' j"
        using spec [OF w(7), of j] q by (cases "j = i") (simp_all add: record_queue_def buf)
    qed
    show "\<forall>i \<in> set buf'. oc_table ?oc' i \<noteq> None" using w(8) buf by auto
  qed (use w(3-6) in simp_all)
  with s frame show ?thesis by auto
qed

section \<open>The cache\<close>

definition cached :: "optimal_cache \<Rightarrow> containerid list" where
  "cached oc = map get_container_id (elem_queue (oc_lru oc))"

definition opt_cache_ok :: "(containerid \<Rightarrow> container option) \<Rightarrow> optimal_cache \<Rightarrow> bool" where
  "opt_cache_ok fetch oc = (cache_from fetch (oc_lru oc) \<and> lc_max_size (oc_lru oc) \<noteq> 0 \<and> distinct (cached oc)
     \<and> mset (oc_sorted oc) = mset (cached oc) \<and> (\<forall>i \<in> set (cached oc). oc_table oc i \<noteq> None))"

text \<open>What the cache relies on of the two functions on sequences: they keep the elements.\<close>

definition sequence_functions :: "optimal_env \<Rightarrow> bool" where
  "sequence_functions oe = (\<forall>cmp xs x. mset (oe_sort oe cmp xs) = mset xs \<and> mset (oe_insert oe cmp x xs) = add_mset x (mset xs))"

lemma candidates_sub: "set (victim_candidates q srt) \<subseteq> set srt"
proof (cases "rev srt")
  case (Cons r rs)
  then have "set srt = set (r # rs)" by (metis set_rev)
  with Cons show ?thesis by (auto simp: victim_candidates_def dest!: set_takeWhileD in_set_takeD)
qed (simp add: victim_candidates_def)

lemma candidates_ne: "srt \<noteq> [] \<Longrightarrow> victim_candidates q srt \<noteq> []"
  by (auto simp: victim_candidates_def split: list.splits)

lemma evict_ok:
  assumes "sequence_functions oe" "opt_cache_ok fetch oc" "window be oc nexts" "lru_cache_is_full (oc_lru oc)"
  shows "\<exists>oc'. optimal_cache_evict oe oc = Some oc' \<and> opt_cache_ok fetch oc' \<and> window be oc' nexts
     \<and> set (cached oc') \<subset> set (cached oc) \<and> (\<forall>i. i \<notin> set (cached oc) \<longrightarrow> oc_table oc' i = oc_table oc i)
     \<and> lc_size (oc_lru oc') < lc_max_size (oc_lru oc') \<and> oc_last_id oc' = oc_last_id oc"
proof -
  let ?l = "oc_lru oc"
  have ok: "cache_from fetch ?l" "lc_max_size ?l \<noteq> 0" "distinct (cached oc)" "mset (oc_sorted oc) = mset (cached oc)"
    "\<forall>i \<in> set (cached oc). oc_table oc i \<noteq> None" using assms(2) by (auto simp: opt_cache_ok_def)
  have st: "set (oc_sorted oc) = set (cached oc)" using ok(4) by (metis set_mset_mset)
  have full: "lc_max_size ?l > 0" "lc_size ?l = lc_max_size ?l" "lc_size ?l = int (length (elem_queue ?l))"
    using assms(4) ok(1,2) by (auto simp: lru_cache_is_full_def cache_from_def lru_inv_def split: if_splits)
  then have ne: "oc_sorted oc \<noteq> []" using ok(4) by (auto simp: cached_def)
  define srt where "srt = oe_sort oe (cmp_records oc) (oc_sorted oc)"
  have srt: "mset srt = mset (cached oc)" using assms(1) ok(4) by (simp add: srt_def sequence_functions_def)
  then have srt_set: "set srt = set (cached oc)" by (metis set_mset_mset)
  have srt_ne: "srt \<noteq> []" using srt ok(4) ne by (metis mset_zero_iff)
  let ?cand = "victim_candidates (record_queue oc) srt"
  obtain x where "x \<in> set ?cand" using candidates_ne [OF srt_ne] by (meson last_in_set)
  then have "x \<in> set (cached oc)" using candidates_sub srt_set by blast
  then obtain con0 where "con0 \<in> set (elem_queue ?l)" "get_container_id con0 = x" by (auto simp: cached_def)
  with \<open>x \<in> set ?cand\<close> have "take_first (\<lambda>e. find_kicked_container e ?cand) (rev (elem_queue ?l)) \<noteq> None"
    by (auto simp: take_first_None find_kicked_container_def)
  then obtain con more where tf: "take_first (\<lambda>e. find_kicked_container e ?cand) (rev (elem_queue ?l)) = Some (con, more)" by auto
  have con: "mset (elem_queue ?l) = add_mset con (mset more)" using take_first_mset [OF tf] by simp
  let ?v = "get_container_id con" and ?l' = "?l\<lparr>elem_queue := rev more, lc_size := lc_size ?l - 1\<rparr>"
  have kick: "lru_cache_kicks ?l ?cand find_kicked_container = (Some con, ?l')" using tf by (simp add: lru_cache_kicks_def)
  have "con \<in> set (elem_queue ?l)" using con by (metis set_mset_mset union_single_eq_member)
  then have "?v \<in> set srt" using srt_set by (auto simp: cached_def)
  then obtain others where r: "take_first (\<lambda>i. i = ?v) (rev srt) = Some (?v, others)"
    using take_first_None [of "\<lambda>i. i = ?v" "rev srt"] take_first_SomeD [of "\<lambda>i. i = ?v" "rev srt"] by fastforce
  let ?oc' = "oc\<lparr>oc_lru := ?l', oc_sorted := rev others,
      oc_table := (if record_queue oc ?v = [] then (oc_table oc)(?v := None) else oc_table oc)\<rparr>"
  have ev: "optimal_cache_evict oe oc = Some ?oc'"
    using ne ok(5) st kick r by (simp add: optimal_cache_evict_def srt_def [symmetric] Let_def list_all_iff)
  have cm: "mset (cached oc) = add_mset ?v (mset (cached ?oc'))"
    using arg_cong [OF con, of "image_mset get_container_id"] by (simp add: cached_def)
  have vn: "?v \<notin> set (cached ?oc')" "distinct (cached ?oc')"
    using ok(3) cm by (metis distinct_count_atmost_1 distinct.simps(2) mset.simps(2) mset_eq_imp_distinct_iff)+
  have sub: "set (cached oc) = insert ?v (set (cached ?oc'))" using cm by (metis set_mset_add_mset_insert set_mset_mset)
  have ok': "opt_cache_ok fetch ?oc'" unfolding opt_cache_ok_def
  proof (intro conjI)
    have "length (elem_queue ?l) = Suc (length more)" using take_first_length [OF tf] by simp
    moreover have "set more \<subseteq> set (elem_queue ?l)" using con by (metis set_mset_add_mset_insert set_mset_mset subset_insertI)
    ultimately show "cache_from fetch (oc_lru ?oc')" using ok(1) by (auto simp: cache_from_def lru_inv_def)
    show "mset (oc_sorted ?oc') = mset (cached ?oc')" using take_first_mset [OF r] srt cm by simp
    show "\<forall>i \<in> set (cached ?oc'). oc_table ?oc' i \<noteq> None" using ok(5) sub vn(1) by auto
  qed (use ok(2) vn(2) in simp_all)
  have rq: "record_queue ?oc' = record_queue oc" by (auto simp: record_queue_def fun_eq_iff)
  have "window be ?oc' nexts"
  proof -
    from assms(3) obtain buf unread where w: "nexts @ [TEMPORARY_ID] = buf @ unread" "oc_buffered oc = int (length buf)"
      "records_end (oc_statics oc) = (unread = [])" "valid (record_fp (oc_bv oc))" "rest (record_fp (oc_bv oc)) = ids_bytes be unread"
      "\<forall>i \<in> set unread. int64_range i" "\<forall>i. length (record_queue oc i) = count_list buf i" "\<forall>i \<in> set buf. oc_table oc i \<noteq> None"
      unfolding window_def by blast
    have "?v \<notin> set buf" if "record_queue oc ?v = []"
      using spec [OF w(7), of ?v] that by (metis count_list_0_iff list.size(3))
    then have "\<forall>i \<in> set buf. oc_table ?oc' i \<noteq> None" using w(8) by auto
    with w rq show ?thesis unfolding window_def by (intro exI [of _ buf] exI [of _ unread]) simp
  qed
  with ev ok' sub vn(1) full show ?thesis by auto
qed

lemma insert_ok:
  assumes "sequence_functions oe" "opt_cache_ok fetch oc" "window be oc nexts"
    and "i \<notin> set (cached oc)" "oc_table oc i \<noteq> None" "re_fetch (oe_env oe) i = Some con" "get_container_id con = i" "fetch i = Some con"
  shows "\<exists>oc'. optimal_cache_insert oe i oc jc = Some (oc', count_container jc) \<and> opt_cache_ok fetch oc'
     \<and> window be oc' nexts \<and> i \<in> set (cached oc') \<and> oc_last_id oc' = oc_last_id oc"
proof -
  let ?f = fetch
  have "\<exists>oc1. (if lru_cache_is_full (oc_lru oc) then optimal_cache_evict oe oc else Some oc) = Some oc1
      \<and> opt_cache_ok ?f oc1 \<and> window be oc1 nexts \<and> i \<notin> set (cached oc1) \<and> oc_table oc1 i \<noteq> None
      \<and> \<not> (lc_max_size (oc_lru oc1) > 0 \<and> lc_size (oc_lru oc1) = lc_max_size (oc_lru oc1)) \<and> oc_last_id oc1 = oc_last_id oc"
  proof (cases "lru_cache_is_full (oc_lru oc)")
    case True
    from evict_ok [OF assms(1-3) True] obtain oc1 where
      "optimal_cache_evict oe oc = Some oc1" "opt_cache_ok ?f oc1" "window be oc1 nexts" "set (cached oc1) \<subset> set (cached oc)"
      "\<forall>i. i \<notin> set (cached oc) \<longrightarrow> oc_table oc1 i = oc_table oc i" "lc_size (oc_lru oc1) < lc_max_size (oc_lru oc1)"
      "oc_last_id oc1 = oc_last_id oc" by blast
    with True assms(4,5) show ?thesis by (intro exI [of _ oc1]) auto
  next
    case False
    with assms show ?thesis by (auto simp: lru_cache_is_full_def split: if_splits)
  qed
  then obtain oc1 where 1: "(if lru_cache_is_full (oc_lru oc) then optimal_cache_evict oe oc else Some oc) = Some oc1"
    "opt_cache_ok ?f oc1" "window be oc1 nexts" "i \<notin> set (cached oc1)" "oc_table oc1 i \<noteq> None"
    "\<not> (lc_max_size (oc_lru oc1) > 0 \<and> lc_size (oc_lru oc1) = lc_max_size (oc_lru oc1))" "oc_last_id oc1 = oc_last_id oc" by blast
  let ?l = "(oc_lru oc1)\<lparr>elem_queue := con # elem_queue (oc_lru oc1), lc_size := lc_size (oc_lru oc1) + 1\<rparr>"
  let ?oc2 = "oc1\<lparr>oc_lru := ?l\<rparr>"
  let ?oc3 = "?oc2\<lparr>oc_sorted := oe_insert oe (cmp_records ?oc2) i (oc_sorted oc1)\<rparr>"
  have "lru_cache_insert (oc_lru oc1) con = Some (None, ?l)" using 1(6) by (auto simp: lru_cache_insert_def)
  then have ins: "optimal_cache_insert oe i oc jc = Some (?oc3, count_container jc)"
    using 1(1,5) assms(6) by (simp add: optimal_cache_insert_def Let_def)
  have c: "cached ?oc3 = i # cached oc1" using assms(7) by (simp add: cached_def)
  have "opt_cache_ok ?f ?oc3" unfolding opt_cache_ok_def
  proof (intro conjI)
    show "cache_from ?f (oc_lru ?oc3)"
      using 1(2,6) assms(7,8) by (auto simp: opt_cache_ok_def cache_from_def lru_inv_def)
    show "mset (oc_sorted ?oc3) = mset (cached ?oc3)" "lc_max_size (oc_lru ?oc3) \<noteq> 0" "distinct (cached ?oc3)"
      "\<forall>i \<in> set (cached ?oc3). oc_table ?oc3 i \<noteq> None"
      unfolding c using 1(2,4,5) assms(1) by (auto simp: opt_cache_ok_def sequence_functions_def)
  qed
  moreover have "window be ?oc3 nexts" using 1(3) by (simp add: window_def record_queue_def)
  ultimately show ?thesis using ins c 1(7) by auto
qed

lemma hits_reorder:
  assumes "opt_cache_ok fetch oc" "lru_cache_hits (oc_lru oc) i (\<lambda>con i. container_check_id con i \<noteq> 0) = (hit, l)"
  shows "opt_cache_ok fetch (oc\<lparr>oc_lru := l\<rparr>) \<and> set (cached (oc\<lparr>oc_lru := l\<rparr>)) = set (cached oc)
     \<and> (hit \<noteq> None) = (i \<in> set (cached oc))"
proof -
  let ?p = "\<lambda>con. container_check_id con i \<noteq> 0"
  have p: "?p con = (get_container_id con = i)" for con
    by (simp add: container_check_id_def container_meta_check_id_def get_container_id_def)
  show ?thesis
  proof (cases "take_first ?p (elem_queue (oc_lru oc))")
    case None
    then have "hit = None" "l = oc_lru oc" using assms(2) by (simp_all add: lru_cache_hits_def)
    moreover have "i \<notin> set (cached oc)" using None unfolding take_first_None p by (auto simp: cached_def)
    ultimately show ?thesis using assms(1) by simp
  next
    case (Some x)
    obtain con more where x: "x = (con, more)" by force
    have tf: "take_first ?p (elem_queue (oc_lru oc)) = Some (con, more)" using Some x by simp
    have l: "l = (oc_lru oc)\<lparr>elem_queue := con # more\<rparr>" "hit = Some con" using assms(2) tf by (auto simp: lru_cache_hits_def)
    have m: "mset (elem_queue (oc_lru oc)) = mset (con # more)" using take_first_mset [OF tf] by simp
    then have mc: "mset (cached (oc\<lparr>oc_lru := l\<rparr>)) = mset (cached oc)" using arg_cong [OF m, of "image_mset get_container_id"] l by (simp add: cached_def)
    have "get_container_id con = i" "con \<in> set (elem_queue (oc_lru oc))" using take_first_SomeD [OF tf] p by auto
    moreover have "set (cached (oc\<lparr>oc_lru := l\<rparr>)) = set (cached oc)" "distinct (cached (oc\<lparr>oc_lru := l\<rparr>)) = distinct (cached oc)"
      using mset_eq_setD [OF mc] mset_eq_imp_distinct_iff [OF mc] by simp_all
    moreover have "length (elem_queue (oc_lru oc)) = length (con # more)" "set (elem_queue (oc_lru oc)) = set (con # more)"
      using mset_eq_length [OF m] mset_eq_setD [OF m] by simp_all
    ultimately show ?thesis using assms(1) l mc by (auto simp: opt_cache_ok_def cache_from_def lru_inv_def cached_def)
  qed
qed

section \<open>The restore\<close>

text \<open>The state before the chunks whose containers are \<open>xs\<close>.\<close>

definition opt_inv :: "(containerid \<Rightarrow> container option) \<Rightarrow> optimal_env \<Rightarrow> optimal_cache \<Rightarrow> containerid list \<Rightarrow> bool" where
  "opt_inv fetch oe oc xs = (window (re_be (oe_env oe)) oc (tl (remdups_adj (oc_last_id oc # xs)))
     \<and> opt_cache_ok fetch oc \<and> (oc_last_id oc \<noteq> TEMPORARY_ID \<longrightarrow> oc_last_id oc \<in> set (cached oc)))"

lemma hits_ok:
  assumes "opt_inv fetch oe oc (i # xs)" "TEMPORARY_ID \<notin> set (i # xs)" "0 < restore_opt_window_size (re_conf (oe_env oe))"
  shows "\<exists>hit oc'. optimal_cache_hits (oe_env oe) i oc = Some (hit, oc') \<and> oc_last_id oc' = i
     \<and> window (re_be (oe_env oe)) oc' (tl (remdups_adj (i # xs))) \<and> opt_cache_ok fetch oc'
     \<and> hit = (i \<in> set (cached oc')) \<and> (\<not> hit \<longrightarrow> oc_table oc' i \<noteq> None)"
proof -
  let ?e = "oe_env oe"
  have inv: "window (re_be ?e) oc (tl (remdups_adj (oc_last_id oc # i # xs)))" "opt_cache_ok fetch oc"
    "oc_last_id oc \<noteq> TEMPORARY_ID \<Longrightarrow> oc_last_id oc \<in> set (cached oc)" using assms(1) by (auto simp: opt_inv_def)
  have "\<exists>oc1. (if oc_last_id oc \<noteq> i then do {
              oc \<leftarrow> optimal_cache_window_slides ?e i oc;
              Some (oc\<lparr>oc_last_id := i\<rparr>)
            }
            else Some oc) = Some oc1 \<and> oc_last_id oc1 = i \<and> window (re_be ?e) oc1 (tl (remdups_adj (i # xs)))
        \<and> opt_cache_ok fetch oc1 \<and> (i \<notin> set (cached oc1) \<longrightarrow> oc_table oc1 i \<noteq> None)"
  proof (cases "oc_last_id oc = i")
    case True
    with inv assms(2) show ?thesis by auto
  next
    case False
    obtain n where n: "remdups_adj (i # xs) = i # n" by (metis hd_remdups_adj list.sel(1) list.exhaust_sel list.distinct(1) remdups_adj_Nil_iff)
    then have t: "tl (remdups_adj (oc_last_id oc # i # xs)) = i # n" using False by simp
    have "set (i # n) = set (i # xs)" using n by (metis remdups_adj_set)
    then have nt: "TEMPORARY_ID \<notin> set (i # n)" using assms(2) by simp
    from window_slides [OF inv(1) [unfolded t] nt assms(3)] obtain oc1 where
      o: "optimal_cache_window_slides ?e i oc = Some oc1" "window (re_be ?e) oc1 n" "oc_table oc1 i \<noteq> None"
      "\<forall>j. oc_table oc j \<noteq> None \<longrightarrow> oc_table oc1 j \<noteq> None" "oc_lru oc1 = oc_lru oc" "oc_sorted oc1 = oc_sorted oc" by blast
    have "opt_cache_ok fetch (oc1\<lparr>oc_last_id := i\<rparr>)" using inv(2) o(4-6) by (auto simp: opt_cache_ok_def cached_def)
    moreover have "window (re_be ?e) (oc1\<lparr>oc_last_id := i\<rparr>) (tl (remdups_adj (i # xs)))" using o(2) n by (simp add: window_def record_queue_def)
    ultimately show ?thesis using False o(1,3) by auto
  qed
  then obtain oc1 where 1: "(if oc_last_id oc \<noteq> i then do {
              oc \<leftarrow> optimal_cache_window_slides ?e i oc;
              Some (oc\<lparr>oc_last_id := i\<rparr>)
            }
            else Some oc) = Some oc1" "oc_last_id oc1 = i" "window (re_be ?e) oc1 (tl (remdups_adj (i # xs)))"
        "opt_cache_ok fetch oc1" "i \<notin> set (cached oc1) \<longrightarrow> oc_table oc1 i \<noteq> None" by blast
  obtain hit l where l: "lru_cache_hits (oc_lru oc1) i (\<lambda>con i. container_check_id con i \<noteq> 0) = (hit, l)" by force
  have "optimal_cache_hits ?e i oc = Some (hit \<noteq> None, oc1\<lparr>oc_lru := l\<rparr>)"
    using 1(1) l by (simp add: optimal_cache_hits_def)
  moreover have "window (re_be ?e) (oc1\<lparr>oc_lru := l\<rparr>) (tl (remdups_adj (i # xs)))" using 1(3) by (simp add: window_def record_queue_def)
  ultimately show ?thesis using hits_reorder [OF 1(4) l] 1(2,5) by auto
qed

definition data_ids :: "chunk list \<Rightarrow> containerid list" where
  "data_ids cs = map ck_id (filter (\<lambda>c. \<not> is_file_signal c) cs)"

lemma lookup_ok:
  assumes "fetch_sound disk fetch content" "simulation_level (re_conf e) = SIMULATION_NO"
    and "opt_cache_ok fetch oc" "con \<in> set (elem_queue (oc_lru oc))" "lookup_fingerprint_in_container con fp" "content fp \<noteq> []"
  shows "\<exists>ck l. optimal_cache_lookup e fp oc = Some (ck, oc\<lparr>oc_lru := l\<rparr>) \<and> opt_cache_ok fetch (oc\<lparr>oc_lru := l\<rparr>)
     \<and> set (cached (oc\<lparr>oc_lru := l\<rparr>)) = set (cached oc)
     \<and> ck_data ck = Some (content fp) \<and> ck_size ck = int (length (content fp)) \<and> \<not> is_file_signal ck"
proof -
  have ok: "cache_from fetch (oc_lru oc)" "mset (oc_sorted oc) = mset (cached oc)" "distinct (cached oc)"
    "\<forall>i \<in> set (cached oc). oc_table oc i \<noteq> None" "lc_max_size (oc_lru oc) \<noteq> 0" using assms(3) by (auto simp: opt_cache_ok_def)
  have "fst (lru_cache_lookup (oc_lru oc) fp) \<noteq> None"
    using assms(4,5) ok(1) by (auto simp: lru_lookup_miss cache_from_def)
  then obtain c l where l: "lru_cache_lookup (oc_lru oc) fp = (Some c, l)" by (cases "lru_cache_lookup (oc_lru oc) fp") auto
  from cache_from_hit [OF ok(1) l] have c: "fetch (get_container_id c) = Some c" "lookup_fingerprint_in_container c fp" by auto
  from get_chunk_content [OF assms(1) c assms(6), of "re_junk e" "re_stack e"] obtain ck where
    ck: "get_chunk_in_container SIMULATION_NO (re_junk e) (re_stack e) c fp = Some ck" "ck_data ck = Some (content fp)"
    "ck_size ck = int (length (content fp))" "\<not> is_file_signal ck" by blast
  obtain more where m: "take_first (\<lambda>e. hit_elem (oc_lru oc) e fp) (elem_queue (oc_lru oc)) = Some (c, more)" "elem_queue l = c # more"
    using l by (auto simp: lru_cache_lookup_def split: option.splits)
  have mc: "mset (cached (oc\<lparr>oc_lru := l\<rparr>)) = mset (cached oc)"
    using arg_cong [OF take_first_mset [OF m(1)], of "image_mset get_container_id"] m(2) by (simp add: cached_def)
  have "cache_from fetch l" "lc_max_size l = lc_max_size (oc_lru oc)"
    using cache_from_lookup [OF ok(1), of fp] l lru_lookup_frame(2) [of "oc_lru oc" fp] by simp_all
  then have "opt_cache_ok fetch (oc\<lparr>oc_lru := l\<rparr>)"
    using ok mc mset_eq_setD [OF mc] mset_eq_imp_distinct_iff [OF mc] by (simp add: opt_cache_ok_def)
  with l ck assms(2) mset_eq_setD [OF mc] show ?thesis by (auto simp: optimal_cache_lookup_def)
qed

lemma optimal_chunk_restored:
  assumes "sequence_functions oe" "fetch_sound (re_fetch (oe_env oe)) fetch content" "simulation_level (re_conf (oe_env oe)) = SIMULATION_NO"
    and "0 < restore_opt_window_size (re_conf (oe_env oe))" "served fetch content c"
    and "opt_inv fetch oe oc (data_ids (c # cs))" "TEMPORARY_ID \<notin> set (data_ids (c # cs))"
  shows "\<exists>c' oc' jc'. optimal_restore_chunk oe c oc jc = Some ([c'], oc', jc') \<and> opt_inv fetch oe oc' (data_ids cs) \<and> restored content c c'"
proof (cases "is_file_signal c")
  case True
  then have "data_ids (c # cs) = data_ids cs" by (auto simp: data_ids_def)
  with True assms(6) show ?thesis by (auto simp: optimal_restore_chunk_def restored_def)
next
  case False
  let ?e = "oe_env oe" and ?i = "ck_id c"
  have ids: "data_ids (c # cs) = ?i # data_ids cs" using False by (auto simp: data_ids_def)
  from assms(5) False obtain con where con: "fetch ?i = Some con" "lookup_fingerprint_in_container con (ck_fp c)"
    "content (ck_fp c) \<noteq> []" "ck_size c = int (length (content (ck_fp c)))" by (auto simp: served_def split: option.splits)
  have cid: "get_container_id con = ?i" by (rule fetch_soundD(1) [OF assms(2) con(1)])
  from hits_ok [OF assms(6) [unfolded ids] assms(7) [unfolded ids] assms(4)] obtain hit oc1 where
    1: "optimal_cache_hits ?e ?i oc = Some (hit, oc1)" "oc_last_id oc1 = ?i" "window (re_be ?e) oc1 (tl (remdups_adj (?i # data_ids cs)))"
    "opt_cache_ok fetch oc1" "hit = (?i \<in> set (cached oc1))" "\<not> hit \<longrightarrow> oc_table oc1 ?i \<noteq> None" by blast
  have "\<exists>oc2 jc2. (if hit then Some (oc1, jc) else optimal_cache_insert oe ?i oc1 jc) = Some (oc2, jc2)
      \<and> opt_cache_ok fetch oc2 \<and> window (re_be ?e) oc2 (tl (remdups_adj (?i # data_ids cs)))
      \<and> ?i \<in> set (cached oc2) \<and> oc_last_id oc2 = ?i"
  proof (cases hit)
    case True
    with 1 show ?thesis by auto
  next
    case False
    with insert_ok [OF assms(1) 1(4,3) _ _ fetch_soundD(4) [OF assms(2) con(1)] cid con(1), of jc] 1 show ?thesis by auto
  qed
  then obtain oc2 jc2 where 2: "(if hit then Some (oc1, jc) else optimal_cache_insert oe ?i oc1 jc) = Some (oc2, jc2)"
    "opt_cache_ok fetch oc2" "window (re_be ?e) oc2 (tl (remdups_adj (?i # data_ids cs)))"
    "?i \<in> set (cached oc2)" "oc_last_id oc2 = ?i" by blast
  from 2(4) obtain con' where con': "con' \<in> set (elem_queue (oc_lru oc2))" "get_container_id con' = ?i" by (auto simp: cached_def)
  with 2(2) con(1) have "con' = con" by (auto simp: opt_cache_ok_def cache_from_def)
  with con' have "con \<in> set (elem_queue (oc_lru oc2))" by simp
  from lookup_ok [OF assms(2,3) 2(2) this con(2,3)] obtain ck l where
    3: "optimal_cache_lookup ?e (ck_fp c) oc2 = Some (ck, oc2\<lparr>oc_lru := l\<rparr>)" "opt_cache_ok fetch (oc2\<lparr>oc_lru := l\<rparr>)"
    "set (cached (oc2\<lparr>oc_lru := l\<rparr>)) = set (cached oc2)" "ck_data ck = Some (content (ck_fp c))"
    "ck_size ck = int (length (content (ck_fp c)))" "\<not> is_file_signal ck" by blast
  have "optimal_restore_chunk oe c oc jc = Some ([ck], oc2\<lparr>oc_lru := l\<rparr>, count_chunk c jc2)"
    using False 1(1) 2(1) 3(1) assms(3) by (simp add: optimal_restore_chunk_def)
  moreover have "opt_inv fetch oe (oc2\<lparr>oc_lru := l\<rparr>) (data_ids cs)"
    using 2(3-5) 3(2,3) by (simp add: opt_inv_def window_def record_queue_def)
  moreover have "restored content c ck" using 3(4-6) False con(4) by (simp add: restored_def)
  ultimately show ?thesis by blast
qed

lemma optimal_restored:
  assumes "sequence_functions oe" "fetch_sound (re_fetch (oe_env oe)) fetch content" "simulation_level (re_conf (oe_env oe)) = SIMULATION_NO"
    and "0 < restore_opt_window_size (re_conf (oe_env oe))"
  shows "list_all (served fetch content) cs \<Longrightarrow> opt_inv fetch oe oc (data_ids cs) \<Longrightarrow> TEMPORARY_ID \<notin> set (data_ids cs) \<Longrightarrow>
     \<exists>out oc' jc'. optimal_restore oe cs oc jc = Some (out, oc', jc') \<and> list_all2 (restored content) cs out"
proof (induction cs arbitrary: oc jc)
  case Nil
  then show ?case by simp
next
  case (Cons c cs)
  have s: "served fetch content c" using Cons.prems(1) by simp
  from optimal_chunk_restored [OF assms s Cons.prems(2,3), of jc] obtain c' oc1 jc1 where
    1: "optimal_restore_chunk oe c oc jc = Some ([c'], oc1, jc1)" "opt_inv fetch oe oc1 (data_ids cs)" "restored content c c'" by blast
  have "TEMPORARY_ID \<notin> set (data_ids cs)" using Cons.prems(3) by (auto simp: data_ids_def)
  from Cons.IH [OF _ 1(2) this, of jc1] Cons.prems(1) 1 show ?case by auto
qed

text \<open>At the start of a job the records are those that \<open>update_backup_version\<close> left for this recipe.\<close>

definition records_ready :: "optimal_env \<Rightarrow> containerid \<Rightarrow> backupVersion \<Rightarrow> recipe_statics \<Rightarrow> chunk list \<Rightarrow> bool" where
  "records_ready oe lid b st cs = (lid = TEMPORARY_ID \<and> \<not> records_end st \<and> TEMPORARY_ID \<notin> set (data_ids cs)
     \<and> (\<forall>i \<in> set (data_ids cs). int64_range i) \<and> valid (record_fp b)
     \<and> rest (record_fp b) = ids_bytes (re_be (oe_env oe)) (remdups_adj (data_ids cs) @ [TEMPORARY_ID])
     \<and> sequence_functions oe \<and> 0 < restore_opt_window_size (re_conf (oe_env oe)) \<and> restore_cache1 (re_conf (oe_env oe)) \<noteq> 0)"

lemma opt_inv_init:
  assumes "records_ready oe lid b st cs"
  shows "opt_inv fetch oe (init_optimal_cache (oe_env oe) lid b st) (data_ids cs)"
proof -
  let ?e = "oe_env oe"
  let ?oc = "\<lparr>oc_seqno = 0, oc_table = Map.empty, oc_buffered = 0, oc_sorted = [],
      oc_lru = new_lru_cache (restore_cache1 (re_conf ?e)) lookup_fingerprint_in_container,
      oc_bv = b, oc_statics = st, oc_last_id = lid\<rparr>"
  let ?n = "remdups_adj (data_ids cs)"
  have r: "lid = TEMPORARY_ID" "\<not> records_end st" "TEMPORARY_ID \<notin> set (data_ids cs)" "\<forall>i \<in> set (data_ids cs). int64_range i"
    "valid (record_fp b)" "rest (record_fp b) = ids_bytes (re_be ?e) (?n @ [TEMPORARY_ID])" "0 < restore_opt_window_size (re_conf ?e)"
    "restore_cache1 (re_conf ?e) \<noteq> 0" using assms by (auto simp: records_ready_def)
  have "int64_range TEMPORARY_ID" by (simp add: int64_range_def TEMPORARY_ID_def)
  then have "window (re_be ?e) ?oc ?n" unfolding window_def using r
    by (intro exI [of _ "[]"] exI [of _ "?n @ [TEMPORARY_ID]"]) (auto simp: record_queue_def)
  from window_fill [OF this _ r(7)] r(3,7) have w: "window (re_be ?e) (optimal_cache_window_fill ?e ?oc) ?n" by simp
  have n: "tl (remdups_adj (lid # data_ids cs)) = ?n" using r(1,3) by (cases "data_ids cs") auto
  have f: "oc_lru (optimal_cache_window_fill ?e ?oc) = new_lru_cache (restore_cache1 (re_conf ?e)) lookup_fingerprint_in_container"
    "oc_sorted (optimal_cache_window_fill ?e ?oc) = []" "oc_last_id (optimal_cache_window_fill ?e ?oc) = lid"
    using fill_frame(1-3) [of ?e ?oc] by simp_all
  have "cached (optimal_cache_window_fill ?e ?oc) = []" using f(1) by (simp add: cached_def new_lru_cache_def)
  with w n f r(1,8) cache_from_new show ?thesis
    by (simp add: opt_inv_def init_optimal_cache_def opt_cache_ok_def) (simp add: new_lru_cache_def)
qed

lemma optimal_thread_restored:
  assumes "fetch_sound (re_fetch (oe_env oe)) fetch content" "simulation_level (re_conf (oe_env oe)) = SIMULATION_NO"
    and "list_all (served fetch content) cs" "records_ready oe lid b st cs"
  shows "\<exists>out jc'. optimal_restore_thread oe lid b st cs jc = Some (out, jc') \<and> list_all2 (restored content) cs out"
proof -
  have r: "sequence_functions oe" "0 < restore_opt_window_size (re_conf (oe_env oe))" "TEMPORARY_ID \<notin> set (data_ids cs)"
    using assms(4) by (auto simp: records_ready_def)
  from optimal_restored [OF r(1) assms(1,2) r(2) assms(3) opt_inv_init [OF assms(4)] r(3), of jc]
  show ?thesis by (auto simp: optimal_restore_thread_def)
qed

end
