(* ===== verification/Restore_Job.thy ===== *)
theory Restore_Job
  imports Optimal_Restore
begin

unbundle bit_operations_syntax

text \<open>
  The restore job as a whole: \<open>do_restore\<close> (\<^verbatim>\<open>src/destor/src/do_restore.c\<close>, \<^verbatim>\<open>jcr.c\<close>) reads the recipe, restores the
  chunks through the configured cache and sends them, and the client
  (\<^verbatim>\<open>src/client/src/common/Worker.cc\<close>) collects the packets. The three caches satisfy one
  interface, from which it follows once that the client receives the bytes of the file.
\<close>

section \<open>Definitions\<close>

datatype restore_error = Backup_deleted | Restore_failed

definition init_restore_jcr :: "bool \<Rightarrow> (int \<rightharpoonup> bv_files) \<Rightarrow> int \<Rightarrow> restore_error + backupVersion" where
  "init_restore_jcr be fs revision =
     (case open_backup_version be fs revision of
        None \<Rightarrow> Inl Restore_failed
      | Some b \<Rightarrow> if bv_deleted b = 1 then Inl Backup_deleted else Inr b)"

definition init_jcr :: restore_jcr where
  "init_jcr = \<lparr>rj_data_size = 0, rj_chunk_num = 0, rj_read_container_num = 0\<rparr>"

text \<open>The thread that restores the chunks, as the configuration selects it.\<close>

definition restore_thread ::
    "optimal_env \<Rightarrow> containerid \<Rightarrow> backupVersion \<Rightarrow> recipe_statics \<Rightarrow> chunk list \<Rightarrow> restore_jcr \<Rightarrow>
     (chunk list \<times> restore_jcr) option" where
  "restore_thread oe lid b st cs jc =
     (case restore_cache0 (re_conf (oe_env oe)) of
        RESTORE_CACHE_LRU \<Rightarrow> lru_restore_thread (oe_env oe) cs jc
      | RESTORE_CACHE_OPT \<Rightarrow> optimal_restore_thread oe lid b st cs jc
      | RESTORE_CACHE_ASM \<Rightarrow> assembly_restore_thread (oe_env oe) cs jc)"

definition restore_pipeline ::
    "optimal_env \<Rightarrow> containerid \<Rightarrow> backupVersion \<Rightarrow> recipe_statics \<Rightarrow> byte list \<Rightarrow> (packet list \<times> restore_jcr \<times> int) option" where
  "restore_pipeline oe lid b st path = do {
     let e = oe_env oe;
     (cs, _, _) \<leftarrow> read_recipe_thread (re_be e) (re_junk e) b st;
     (out, jc) \<leftarrow> restore_thread oe lid b st cs init_jcr;
     (ps, files) \<leftarrow> write_restore_data e path out 0 0;
     Some (ps, jc, files)
   }"

definition do_restore ::
    "optimal_env \<Rightarrow> containerid \<Rightarrow> (int \<rightharpoonup> bv_files) \<Rightarrow> recipe_statics \<Rightarrow> int \<Rightarrow> byte list \<Rightarrow>
     restore_error + (packet list \<times> restore_jcr \<times> int)" where
  "do_restore oe lid fs st revision path =
     (case init_restore_jcr (re_be (oe_env oe)) fs revision of
        Inl err \<Rightarrow> Inl err
      | Inr b \<Rightarrow> (case restore_pipeline oe lid b st path of None \<Rightarrow> Inl Restore_failed | Some r \<Rightarrow> Inr r))"

text \<open>The client asks for the packets of a group one after the other, by name, until one says
  that it has no data. \<open>blpop\<close> is the reply of the server to the name; a name that is never
  pushed blocks, \<open>None\<close>, and so does a loop that never meets the last packet.\<close>

partial_function (option) receive_group ::
    "bool \<Rightarrow> (byte list \<Rightarrow> byte list option) \<Rightarrow> byte list \<Rightarrow> nat \<Rightarrow> byte list option" where
  "receive_group be blpop name i = do {
     content \<leftarrow> blpop (name @ [58] @ decimal i);
     (len_bytes, bs) \<leftarrow> read_n 4 content;
     let data_len = sint (htonl be (mem_word be len_bytes :: 32 word));
     if data_len = 0 then Some []
     else do {
       assertion (0 \<le> data_len \<and> nat data_len \<le> length bs);
       more \<leftarrow> receive_group be blpop name (Suc i);
       Some (take (nat data_len) bs @ more)
     }
   }"

section \<open>Sending and receiving\<close>

text \<open>What the connection to the server does with packets of different names: a name that was
  pushed is answered with its data.\<close>

definition packets_delivered :: "(byte list \<Rightarrow> byte list option) \<Rightarrow> packet list \<Rightarrow> bool" where
  "packets_delivered blpop ps = (\<forall>(k, v) \<in> set ps. blpop k = Some v)"

definition names_fit :: "byte list \<Rightarrow> nat \<Rightarrow> bool" where
  "names_fit path n = (\<forall>i \<le> n. length path + 1 + length (decimal i) < MAX_OEC_FILENAME_LEN)"

lemma decimal_length_mono: "m \<le> n \<Longrightarrow> length (decimal m) \<le> length (decimal n)"
proof (induction n arbitrary: m rule: decimal.induct)
  case (1 n)
  show ?case
  proof (cases "n < 10")
    case True
    with 1 show ?thesis by (simp add: decimal.simps [of n] decimal.simps [of m])
  next
    case False
    have "length (decimal (m div 10)) \<le> length (decimal (n div 10))" by (rule 1(1)) (use False 1(2) in \<open>simp_all add: div_le_mono\<close>)
    with False show ?thesis by (simp add: decimal.simps [of n] decimal.simps [of m])
  qed
qed

lemma names_fit_last: "names_fit path n = (length path + 1 + length (decimal n) < MAX_OEC_FILENAME_LEN)"
  using decimal_length_mono by (fastforce simp: names_fit_def)

lemma pkt_name_fits: "names_fit path n \<Longrightarrow> i \<le> n \<Longrightarrow> pkt_name path i = Some (path @ [58] @ decimal i)"
  by (simp add: pkt_name_def names_fit_def)

lemma htonl_htonl: "htonl be (htonl be w) = w"
proof -
  have m: "mem_word be (mem_bytes be 4 (htonl be w)) = htonl be w" by simp
  have "htonl be (mem_word be (mem_bytes be 4 (htonl be w))) = w"
    using htonl_mem_word [of "mem_bytes be 4 (htonl be w)" be] by (simp add: mem_bytes_htonl del: word_bytes_numeral)
  then show ?thesis unfolding m .
qed

lemma length_field: "read_n 4 (mem_bytes be 4 (htonl be w) @ bs) = Some (mem_bytes be 4 (htonl be w), bs)"
  "htonl be (mem_word be (mem_bytes be 4 (htonl be (w :: 32 word)))) = w"
  by (simp_all add: htonl_htonl del: word_bytes_numeral)

lemma receive_data:
  assumes "blpop (name @ [58] @ decimal i) = Some (mem_bytes be 4 (htonl be (word_of_int (int (length bs)))) @ bs)"
    and "bs \<noteq> []" "length bs < 2 ^ 31"
  shows "receive_group be blpop name i = map_option (\<lambda>more. bs @ more) (receive_group be blpop name (Suc i))"
proof -
  have "sint (word_of_int (int (length bs)) :: 32 word) = int (length bs)" using assms(3) sint_of_int_32 [of "int (length bs)"] by simp
  with assms show ?thesis
    by (subst receive_group.simps) (simp add: length_field htonl_htonl Let_def map_option_case del: append_assoc word_bytes_numeral split: option.splits)
qed

lemma receive_end:
  assumes "blpop (name @ [58] @ decimal i) = Some (mem_bytes be 4 (htonl be 0))"
  shows "receive_group be blpop name i = Some []"
  using assms length_field(1) [of be 0 "[]"] length_field(2) [of be 0] by (subst receive_group.simps) (simp del: word_bytes_numeral)

text \<open>No two packets have the same name, so a server that keeps them under their names delivers them.\<close>

lemma decimal_inj: "decimal m = decimal n \<Longrightarrow> m = n"
proof (induction m arbitrary: n rule: decimal.induct)
  case (1 m)
  have ne: "decimal k \<noteq> []" for k by (subst decimal.simps) simp
  have eq: "(if m < 10 then [] else decimal (m div 10)) @ [of_nat (48 + m mod 10) :: byte]
      = (if n < 10 then [] else decimal (n div 10)) @ [of_nat (48 + n mod 10)]"
    using 1(2) decimal.simps [of m] decimal.simps [of n] by simp
  then have "(of_nat (48 + m mod 10) :: byte) = of_nat (48 + n mod 10)" by simp
  then have "unat (of_nat (48 + m mod 10) :: byte) = unat (of_nat (48 + n mod 10) :: byte)" by (rule arg_cong)
  moreover have "unat (of_nat (48 + k mod 10) :: byte) = 48 + k mod 10" for k 
  proof -
    have "k mod 10 < 10" by simp
    then have "take_bit LENGTH(8) (48 + k mod 10) = 48 + k mod 10" by (intro take_bit_nat_eq_self) simp
    then show ?thesis unfolding unsigned_of_nat by simp
  qed
  ultimately have "48 + m mod 10 = 48 + n mod 10" by metis
  then have l: "m mod 10 = n mod 10" by simp
  have "(m < 10) = (n < 10) \<and> (\<not> m < 10 \<longrightarrow> m div 10 = n div 10)"
    using eq ne [of "m div 10"] ne [of "n div 10"] 1(1) by (auto split: if_splits)
  with l show ?case by (metis div_mult_mod_eq mod_less)
qed

lemma delivered_map_of: "distinct (map fst ps) \<Longrightarrow> packets_delivered (map_of ps) ps"
  by (auto simp: packets_delivered_def)

lemma packet_names:
  "write_restore_data e path cs n files = Some (ps, files') \<Longrightarrow>
     distinct (map fst ps) \<and> (\<forall>p \<in> set ps. \<exists>i \<ge> n. fst p = path @ [58] @ decimal i)"
proof (induction cs arbitrary: n files ps files')
  case (Cons c cs)
  show ?case
  proof (cases "CHECK_CHUNK c CHUNK_FILE_START")
    case True
    with Cons show ?thesis by simp
  next
    case False
    with Cons.prems obtain nm bs qs files1 where
      p: "pkt_name path n = Some nm" "write_restore_data e path cs (Suc n) files1 = Some (qs, files')" "ps = (nm, bs) # qs"
      by (auto simp: bind_eq_Some_conv Let_def split: if_splits)
    have nm: "nm = path @ [58] @ decimal n" using p(1) by (simp add: pkt_name_def Let_def split: if_splits)
    have "nm \<noteq> fst q" if "q \<in> set qs" for q
      using Cons.IH [OF p(2)] that nm decimal_inj [of n] by (metis Suc_n_not_le_n append_same_eq same_append_eq)
    then have "nm \<notin> set (map fst qs)" by auto
    moreover have "\<exists>i \<ge> n. fst q = path @ [58] @ decimal i" if "q \<in> set qs" for q
      using Cons.IH [OF p(2)] that by (metis Suc_leD)
    ultimately show ?thesis using Cons.IH [OF p(2)] nm p(3) by auto
  qed
qed simp

text \<open>The chunks of one file, and the end of it.\<close>

lemma sent_received:
  assumes "simulation_level (re_conf e) = SIMULATION_NO" "CHECK_CHUNK t CHUNK_FILE_END" "\<not> CHECK_CHUNK t CHUNK_FILE_START"
  shows "list_all2 (restored content) datas outs \<Longrightarrow>
     list_all (\<lambda>c. \<not> is_file_signal c \<and> ck_size c = int (length (content (ck_fp c))) \<and> content (ck_fp c) \<noteq> [] \<and> ck_size c < 2 ^ 31) datas \<Longrightarrow>
     names_fit path (n + length datas) \<Longrightarrow>
     \<exists>ps. write_restore_data e path (outs @ [t]) n 0 = Some (ps, 1)
       \<and> (\<forall>blpop. packets_delivered blpop ps \<longrightarrow> receive_group (re_be e) blpop path n = Some (concat (map (\<lambda>c. content (ck_fp c)) datas)))"
proof (induction datas arbitrary: outs n)
  case Nil
  then have nm: "pkt_name path n = Some (path @ [58] @ decimal n)" by (simp add: pkt_name_fits)
  with Nil assms show ?case by (auto simp: packets_delivered_def intro!: receive_end simp del: word_bytes_numeral)
next
  case (Cons c datas)
  then obtain o1 os where o: "outs = o1 # os" "restored content c o1" "list_all2 (restored content) datas os" by (auto simp: list_all2_Cons1)
  have c: "\<not> is_file_signal c" "ck_size c = int (length (content (ck_fp c)))" "content (ck_fp c) \<noteq> []" "ck_size c < 2 ^ 31"
    using Cons.prems(2) by auto
  then have o1: "\<not> is_file_signal o1" "ck_size o1 = int (length (content (ck_fp c)))" "ck_data o1 = Some (content (ck_fp c))"
    using o(2) by (auto simp: restored_def)
  have nm: "pkt_name path n = Some (path @ [58] @ decimal n)" by (rule pkt_name_fits [OF Cons.prems(3)]) simp
  let ?bs = "content (ck_fp c)" and ?p = "mem_bytes (re_be e) 4 (htonl (re_be e) (word_of_int (int (length (content (ck_fp c))))))"
  have pd: "pkt_data (re_be e) (ck_size o1) (ck_data o1) = Some (?p @ ?bs)" using o1 c by (simp add: pkt_data_def del: word_bytes_numeral)
  from Cons.IH [OF o(3), of "Suc n"] Cons.prems(2,3) obtain ps where
    ps: "write_restore_data e path (os @ [t]) (Suc n) 0 = Some (ps, 1)"
    "\<forall>blpop. packets_delivered blpop ps \<longrightarrow> receive_group (re_be e) blpop path (Suc n) = Some (concat (map (\<lambda>c. content (ck_fp c)) datas))" by auto
  have "write_restore_data e path (outs @ [t]) n 0 = Some ((path @ [58] @ decimal n, ?p @ ?bs) # ps, 1)"
    using o(1) o1(1) assms(1) nm pd ps(1) by (simp del: word_bytes_numeral)
  moreover have "receive_group (re_be e) blpop path n = Some (concat (map (\<lambda>c. content (ck_fp c)) (c # datas)))"
    if d: "packets_delivered blpop ((path @ [58] @ decimal n, ?p @ ?bs) # ps)" for blpop
  proof -
    have "blpop (path @ [58] @ decimal n) = Some (?p @ ?bs)" "packets_delivered blpop ps" using d by (auto simp: packets_delivered_def)
    with receive_data [of blpop path n "re_be e" ?bs] c ps(2) show ?thesis by simp
  qed
  ultimately show ?case by blast
qed

section \<open>The interface of a restore cache\<close>

text \<open>Recipe chunks of one file: its start, its data, its end.\<close>

definition one_file :: "(fingerprint \<Rightarrow> byte list) \<Rightarrow> chunk list \<Rightarrow> chunk list \<Rightarrow> bool" where
  "one_file content cs datas = (\<exists>s t. cs = s # datas @ [t] \<and> CHECK_CHUNK s CHUNK_FILE_START
     \<and> CHECK_CHUNK t CHUNK_FILE_END \<and> \<not> CHECK_CHUNK t CHUNK_FILE_START
     \<and> list_all (\<lambda>c. \<not> is_file_signal c \<and> ck_size c = int (length (content (ck_fp c))) \<and> content (ck_fp c) \<noteq> [] \<and> ck_size c < 2 ^ 31) datas)"

locale restore_algorithm =
  fixes run :: "'e \<Rightarrow> chunk list \<Rightarrow> restore_jcr \<Rightarrow> (chunk list \<times> restore_jcr) option"
    and env :: "'e \<Rightarrow> restore_env"
    and ready :: "'e \<Rightarrow> chunk list \<Rightarrow> bool"
  assumes run_restores: "ready x cs \<Longrightarrow> fetch_sound (re_fetch (env x)) fetch content \<Longrightarrow>
      simulation_level (re_conf (env x)) = SIMULATION_NO \<Longrightarrow> list_all (served fetch content) cs \<Longrightarrow>
      \<exists>out jc'. run x cs jc = Some (out, jc') \<and> list_all2 (restored content) cs out"
begin

lemma file_received:
  assumes "ready x cs" "fetch_sound (re_fetch (env x)) fetch content" "simulation_level (re_conf (env x)) = SIMULATION_NO"
    and "list_all (served fetch content) cs" "one_file content cs datas" "names_fit path (length datas)"
  shows "\<exists>out jc' ps. run x cs jc = Some (out, jc') \<and> write_restore_data (env x) path out 0 0 = Some (ps, 1)
     \<and> (\<forall>blpop. packets_delivered blpop ps \<longrightarrow>
          receive_group (re_be (env x)) blpop path 0 = Some (concat (map (\<lambda>c. content (ck_fp c)) datas)))"
proof -
  from run_restores [OF assms(1-4)] obtain out jc' where
    r: "run x cs jc = Some (out, jc')" "list_all2 (restored content) cs out" by blast
  from assms(5) obtain s t where st: "cs = s # datas @ [t]" "CHECK_CHUNK s CHUNK_FILE_START" "CHECK_CHUNK t CHUNK_FILE_END"
    "\<not> CHECK_CHUNK t CHUNK_FILE_START" "list_all (\<lambda>c. \<not> is_file_signal c \<and> ck_size c = int (length (content (ck_fp c)))
       \<and> content (ck_fp c) \<noteq> [] \<and> ck_size c < 2 ^ 31) datas" by (auto simp: one_file_def)
  from r(2) st(1) obtain s' outs t' where o: "out = s' # outs @ [t']" "restored content s s'" "list_all2 (restored content) datas outs"
    "restored content t t'" by (auto simp: list_all2_Cons1 list_all2_append1)
  have "s' = s" "t' = t" using o(2,4) st(2,3) by (auto simp: restored_def)
  with sent_received [OF assms(3) st(3,4) o(3) st(5), of path 0] assms(6) r(1) o(1) st(2) show ?thesis by auto
qed

end

interpretation lru_alg: restore_algorithm lru_restore_thread "\<lambda>e. e" "\<lambda>_ _. True"
  by unfold_locales (rule lru_thread_restored)

interpretation asm_alg: restore_algorithm assembly_restore_thread "\<lambda>e. e" "\<lambda>_ cs. list_all (\<lambda>c. \<not> CHECK_CHUNK c CHUNK_READY) cs"
  by unfold_locales (rule assembly_thread_restored)

interpretation opt_alg: restore_algorithm "\<lambda>(oe, lid, b, st). optimal_restore_thread oe lid b st" "\<lambda>x. oe_env (fst x)"
  "\<lambda>x cs. case x of (oe, lid, b, st) \<Rightarrow> records_ready oe lid b st cs"
proof unfold_locales
  fix x :: "optimal_env \<times> containerid \<times> backupVersion \<times> recipe_statics" and cs content fetch jc
  obtain oe lid b st where x: "x = (oe, lid, b, st)" by (cases x) auto
  assume "case x of (oe, lid, b, st) \<Rightarrow> records_ready oe lid b st cs" "fetch_sound (re_fetch (oe_env (fst x))) fetch content"
    "simulation_level (re_conf (oe_env (fst x))) = SIMULATION_NO" "list_all (served fetch content) cs"
  then show "\<exists>out jc'. (case x of (oe, lid, b, st) \<Rightarrow> optimal_restore_thread oe lid b st) cs jc = Some (out, jc')
      \<and> list_all2 (restored content) cs out"
    using optimal_thread_restored [of oe fetch content cs lid b st jc] by (simp add: x)
qed

text \<open>The thread that the configuration selects.\<close>

definition cache_ready :: "optimal_env \<Rightarrow> containerid \<Rightarrow> backupVersion \<Rightarrow> recipe_statics \<Rightarrow> chunk list \<Rightarrow> bool" where
  "cache_ready oe lid b st cs =
     (case restore_cache0 (re_conf (oe_env oe)) of
        RESTORE_CACHE_LRU \<Rightarrow> True
      | RESTORE_CACHE_OPT \<Rightarrow> records_ready oe lid b st cs
      | RESTORE_CACHE_ASM \<Rightarrow> list_all (\<lambda>c. \<not> CHECK_CHUNK c CHUNK_READY) cs)"

interpretation job_alg: restore_algorithm "\<lambda>(oe, lid, b, st). restore_thread oe lid b st" "\<lambda>x. oe_env (fst x)"
  "\<lambda>x cs. case x of (oe, lid, b, st) \<Rightarrow> cache_ready oe lid b st cs"
proof unfold_locales
  fix x :: "optimal_env \<times> containerid \<times> backupVersion \<times> recipe_statics" and cs content fetch jc
  obtain oe lid b st where x: "x = (oe, lid, b, st)" by (cases x) auto
  assume "case x of (oe, lid, b, st) \<Rightarrow> cache_ready oe lid b st cs" "fetch_sound (re_fetch (oe_env (fst x))) fetch content"
    "simulation_level (re_conf (oe_env (fst x))) = SIMULATION_NO" "list_all (served fetch content) cs"
  then show "\<exists>out jc'. (case x of (oe, lid, b, st) \<Rightarrow> restore_thread oe lid b st) cs jc = Some (out, jc') \<and> list_all2 (restored content) cs out"
    using lru_alg.run_restores [where x = "oe_env oe" and cs = cs and content = content and fetch = fetch and jc = jc]
      asm_alg.run_restores [where x = "oe_env oe" and cs = cs and content = content and fetch = fetch and jc = jc]
      opt_alg.run_restores [where x = "(oe, lid, b, st)" and cs = cs and content = content and fetch = fetch and jc = jc]
    by (auto simp: x cache_ready_def restore_thread_def split: restore_cache.splits)
qed

section \<open>The recipe\<close>

text \<open>The chunks the recipe thread makes of the files and chunk pointers of a version.\<close>

definition ptr_chunk :: "(nat \<Rightarrow> byte) \<Rightarrow> chunkPointer \<Rightarrow> chunk" where
  "ptr_chunk junk cp = (new_chunk junk 0)\<lparr>ck_fp := cp_fp cp, ck_size := cp_size cp, ck_id := cp_id cp\<rparr>"

definition start_chunk :: "(nat \<Rightarrow> byte) \<Rightarrow> fileRecipeMeta \<Rightarrow> chunk" where
  "start_chunk junk r =
     SET_CHUNK ((new_chunk junk (int (length (fr_filename r)) + 1))\<lparr>ck_data := Some (fr_filename r @ [0])\<rparr>) CHUNK_FILE_START"

definition end_chunk :: "(nat \<Rightarrow> byte) \<Rightarrow> chunk" where
  "end_chunk junk = SET_CHUNK (new_chunk junk 0) CHUNK_FILE_END"

fun recipe_stream :: "(nat \<Rightarrow> byte) \<Rightarrow> fileRecipeMeta list \<Rightarrow> chunkPointer list \<Rightarrow> chunk list" where
  "recipe_stream junk [] cps = []"
| "recipe_stream junk (r # rs) cps =
     start_chunk junk r # map (ptr_chunk junk) (take (nat (fr_chunknum r)) cps) @ end_chunk junk #
     recipe_stream junk rs (drop (nat (fr_chunknum r)) cps)"

lemma file_chunks_read:
  "ptrs_left be b st xs \<Longrightarrow> n \<le> length xs \<Longrightarrow>
     \<exists>s st'. read_file_chunks be junk n b st = Some (map (ptr_chunk junk) (take n xs), b\<lparr>recipe_fp := s\<rparr>, st')
       \<and> ptrs_left be (b\<lparr>recipe_fp := s\<rparr>) st' (drop n xs) \<and> read_file_num st' = read_file_num st"
proof (induction n arbitrary: b st xs)
  case 0
  then show ?case by (auto intro!: exI [of _ "recipe_fp b"])
next
  case (Suc n)
  then obtain x xs' where xs: "xs = x # xs'" by (cases xs) auto
  from read_next_pointers [OF Suc.prems(1), of 1] xs obtain s st' where
    1: "read_next_n_chunk_pointers be b 1 st = Some ([x], b\<lparr>recipe_fp := s\<rparr>, st')" "ptrs_left be (b\<lparr>recipe_fp := s\<rparr>) st' xs'" by auto
  have rf: "read_file_num st' = read_file_num st"
    using 1(1) by (auto simp: read_next_n_chunk_pointers_def Let_def bind_eq_Some_conv split: if_splits)
  from Suc.IH [OF 1(2)] Suc.prems(2) xs obtain s2 st2 where
    "read_file_chunks be junk n (b\<lparr>recipe_fp := s\<rparr>) st' = Some (map (ptr_chunk junk) (take n xs'), b\<lparr>recipe_fp := s2\<rparr>, st2)"
    "ptrs_left be (b\<lparr>recipe_fp := s2\<rparr>) st2 (drop n xs')" "read_file_num st2 = read_file_num st'" by auto
  with 1(1) xs rf show ?case by (auto simp: ptr_chunk_def Let_def)
qed

lemma recipe_read:
  "ptrs_left be b st xs \<Longrightarrow> valid (metadata_fp b) \<Longrightarrow> rest (metadata_fp b) = files_bytes be rs \<Longrightarrow>
     \<forall>r \<in> set rs. file_ok r \<and> 0 \<le> fr_chunknum r \<Longrightarrow> read_file_num st + int (length rs) \<le> number_of_files b + 1 \<Longrightarrow>
     (\<Sum>r \<leftarrow> rs. nat (fr_chunknum r)) \<le> length xs \<Longrightarrow>
     \<exists>b' st'. read_recipe_files be junk (length rs) b st = Some (recipe_stream junk rs xs, b', st')"
proof (induction rs arbitrary: b st xs)
  case Nil
  then show ?case by simp
next
  case (Cons r rs)
  have r: "file_ok r" "read_file_num st \<le> number_of_files b" "rest (metadata_fp b) = file_meta_bytes be r @ files_bytes be rs"
    using Cons.prems(3-5) by (auto simp: files_bytes_def)
  from reads_file_meta [OF r(1,2) Cons.prems(2) r(3)] obtain s where
    1: "read_next_file_recipe_meta be b st = Some (r, b\<lparr>metadata_fp := s\<rparr>, st\<lparr>read_file_num := read_file_num st + 1\<rparr>)"
    "valid s" "rest s = files_bytes be rs" by blast
  have "ptrs_left be (b\<lparr>metadata_fp := s\<rparr>) (st\<lparr>read_file_num := read_file_num st + 1\<rparr>) xs"
    using Cons.prems(1) by (simp add: ptrs_left_def)
  from file_chunks_read [OF this, of "nat (fr_chunknum r)" junk] Cons.prems(6) obtain s2 st2 where
    2: "read_file_chunks be junk (nat (fr_chunknum r)) (b\<lparr>metadata_fp := s\<rparr>) (st\<lparr>read_file_num := read_file_num st + 1\<rparr>)
        = Some (map (ptr_chunk junk) (take (nat (fr_chunknum r)) xs), b\<lparr>metadata_fp := s, recipe_fp := s2\<rparr>, st2)"
    "ptrs_left be (b\<lparr>metadata_fp := s, recipe_fp := s2\<rparr>) st2 (drop (nat (fr_chunknum r)) xs)"
    "read_file_num st2 = read_file_num st + 1" by auto
  have "(\<Sum>r \<leftarrow> rs. nat (fr_chunknum r)) \<le> length (drop (nat (fr_chunknum r)) xs)" using Cons.prems(6) by simp
  from Cons.IH [OF 2(2) _ _ _ _ this] 1(2,3) 2(3) Cons.prems(4,5) obtain b' st' where
    "read_recipe_files be junk (length rs) (b\<lparr>metadata_fp := s, recipe_fp := s2\<rparr>) st2
      = Some (recipe_stream junk rs (drop (nat (fr_chunknum r)) xs), b', st')" by auto
  with 1(1) 2(1) show ?case by (simp add: Let_def start_chunk_def end_chunk_def)
qed

section \<open>The job\<close>

text \<open>What the backup leaves for a restore: a version that holds the files \<open>rs\<close> and the segments
  \<open>segs\<close>, updated and closed, whose chunk pointers name containers with their data.\<close>

definition ptr_served :: "(containerid \<Rightarrow> container option) \<Rightarrow> (fingerprint \<Rightarrow> byte list) \<Rightarrow> chunkPointer \<Rightarrow> bool" where
  "ptr_served fetch content cp =
     ((case fetch (cp_id cp) of None \<Rightarrow> False | Some con \<Rightarrow> lookup_fingerprint_in_container con (cp_fp cp))
      \<and> content (cp_fp cp) \<noteq> [] \<and> cp_size cp = int (length (content (cp_fp cp))))"

definition fresh_statics :: "recipe_statics \<Rightarrow> bool" where
  "fresh_statics st = (read_file_num st = 0 \<and> read_chunk_num st = 0 \<and> \<not> records_end st)"

definition restore_conf :: "optimal_env \<Rightarrow> bool" where
  "restore_conf oe = (simulation_level (re_conf (oe_env oe)) = SIMULATION_NO
     \<and> (restore_cache0 (re_conf (oe_env oe)) = RESTORE_CACHE_OPT \<longrightarrow>
          sequence_functions oe \<and> 0 < restore_opt_window_size (re_conf (oe_env oe)) \<and> restore_cache1 (re_conf (oe_env oe)) \<noteq> 0))"

lemma signal_chunks [simp]:
  "CHECK_CHUNK (start_chunk junk r) CHUNK_FILE_START" "CHECK_CHUNK (end_chunk junk) CHUNK_FILE_END"
  "\<not> CHECK_CHUNK (end_chunk junk) CHUNK_FILE_START" "\<not> CHECK_CHUNK (ptr_chunk junk cp) f"
  "\<not> CHECK_CHUNK (start_chunk junk r) CHUNK_READY" "\<not> CHECK_CHUNK (end_chunk junk) CHUNK_READY"
  by (simp_all add: start_chunk_def end_chunk_def ptr_chunk_def flag_simps)

lemma recipe_stream_fresh: "list_all (\<lambda>c. \<not> CHECK_CHUNK c CHUNK_READY) (recipe_stream junk rs cps)"
  by (induction rs arbitrary: cps) (auto simp: list_all_iff)

lemma served_ptr_chunk: "ptr_served fetch content cp \<Longrightarrow> served fetch content (ptr_chunk junk cp)"
  by (auto simp: served_def ptr_served_def ptr_chunk_def split: option.splits)

lemma recipe_stream_served:
  "list_all (ptr_served fetch content) cps \<Longrightarrow> list_all (served fetch content) (recipe_stream junk rs cps)"
proof (induction rs arbitrary: cps)
  case (Cons r rs)
  have "list_all (ptr_served fetch content) (drop n cps)" "list_all (ptr_served fetch content) (take n cps)" for n
    using Cons.prems by (auto simp: list_all_iff dest: in_set_dropD in_set_takeD)
  moreover from this(1) have "list_all (served fetch content) (recipe_stream junk rs (drop n cps))" for n by (rule Cons.IH)
  moreover have "served fetch content (start_chunk junk r)" "served fetch content (end_chunk junk)" by (simp_all add: served_def)
  ultimately show ?case by (auto simp: list_all_iff intro: served_ptr_chunk)
qed simp

lemma recipe_stream_ids:
  "(\<Sum>r \<leftarrow> rs. nat (fr_chunknum r)) = length cps \<Longrightarrow> data_ids (recipe_stream junk rs cps) = map cp_id cps"
proof (induction rs arbitrary: cps)
  case (Cons r rs)
  let ?n = "nat (fr_chunknum r)"
  have "data_ids (recipe_stream junk rs (drop ?n cps)) = map cp_id (drop ?n cps)"
    by (rule Cons.IH) (use Cons.prems in simp)
  moreover have "filter (\<lambda>c. \<not> is_file_signal c) (map (ptr_chunk junk) xs) = map (ptr_chunk junk) xs" for xs by simp
  moreover have "ck_id (ptr_chunk junk cp) = cp_id cp" for cp by (simp add: ptr_chunk_def)
  ultimately have "data_ids (recipe_stream junk (r # rs) cps) = map cp_id (take ?n cps) @ map cp_id (drop ?n cps)"
    by (simp add: data_ids_def o_def)
  then show ?case by (simp flip: map_append)
qed (simp add: data_ids_def)

lemma recipe_restored:
  assumes "bv_holds be b0 st0 rs segs" "bv_ok b0" "update_backup_version be b0 st0 = (b1, st1)" "bv_deleted b0 = 0"
    and "\<forall>r \<in> set rs. 0 \<le> fr_chunknum r" "(\<Sum>r \<leftarrow> rs. nat (fr_chunknum r)) = length (concat segs)"
    and "fetch_sound (re_fetch (oe_env oe)) fetch content" "list_all (ptr_served fetch content) (concat segs)"
    and "restore_conf oe" "be = re_be (oe_env oe)" "fresh_statics st"
  shows "\<exists>b b' st'. init_restore_jcr be (free_backup_version b1 fs) (bv_num b0) = Inr b
     \<and> read_recipe_thread be junk b st = Some (recipe_stream junk rs (concat segs), b', st')
     \<and> cache_ready oe TEMPORARY_ID b st (recipe_stream junk rs (concat segs))"
proof -
  from open_after_update [OF assms(1-3), of fs] obtain b where
    b: "open_backup_version be (free_backup_version b1 fs) (bv_num b0) = Some b" "bv_deleted b = bv_deleted b0"
    "number_of_files b = int (length rs)" "number_of_chunks b = int (length (concat segs))"
    "valid (metadata_fp b)" "rest (metadata_fp b) = files_bytes be rs" "recipe_fp b = \<lparr>s_bytes = segs_bytes be segs, s_pos = 0\<rparr>"
    "record_fp b = \<lparr>s_bytes = ids_bytes be (remdups_adj (map cp_id (concat segs)) @ [TEMPORARY_ID]), s_pos = 0\<rparr>" by blast
  have ok: "\<forall>cps \<in> set segs. seg_ok cps" "\<forall>r \<in> set rs. file_ok r" using assms(1) by (auto simp: bv_holds_def)
  have "ptrs_left be b st (concat segs)"
    using ptrs_left_open [OF b(7) ok(1) b(4)] assms(11) by (simp add: fresh_statics_def)
  from recipe_read [OF this b(5,6)] ok(2) assms(5,6,11) b(3) obtain b' st' where
    r: "read_recipe_files be junk (length rs) b st = Some (recipe_stream junk rs (concat segs), b', st')"
    by (force simp: fresh_statics_def)
  have nt: "\<forall>i \<in> set (map cp_id (concat segs)). int64_range i" "TEMPORARY_ID \<notin> set (map cp_id (concat segs))"
    using ok(1) ids_not_temporary [OF ok(1)] by (auto simp: seg_ok_def data_ptr_def ptr_ok_def)
  have "records_ready oe TEMPORARY_ID b st (recipe_stream junk rs (concat segs))" if "restore_cache0 (re_conf (oe_env oe)) = RESTORE_CACHE_OPT"
    unfolding records_ready_def recipe_stream_ids [OF assms(6)]
    using that assms(9-11) b(8) nt by (simp add: restore_conf_def fresh_statics_def valid_def rest_def)
  then have "cache_ready oe TEMPORARY_ID b st (recipe_stream junk rs (concat segs))"
    using recipe_stream_fresh by (simp add: cache_ready_def split: restore_cache.splits)
  with b(1-3) r assms(4) show ?thesis by (auto simp: init_restore_jcr_def read_recipe_thread_def)
qed

text \<open>Equal chunks make equal packets, whatever cache they come from.\<close>

lemma packets_agree:
  "list_all2 (restored content) cs xs \<Longrightarrow> list_all2 (restored content) cs ys \<Longrightarrow>
     write_restore_data e path xs n files = write_restore_data e path ys n files"
proof (induction cs arbitrary: xs ys n files)
  case (Cons c cs)
  then obtain x xs' y ys' where
    v: "xs = x # xs'" "ys = y # ys'" "restored content c x" "restored content c y"
    "list_all2 (restored content) cs xs'" "list_all2 (restored content) cs ys'" by (auto simp: list_all2_Cons1)
  then have "CHECK_CHUNK x CHUNK_FILE_START = CHECK_CHUNK y CHUNK_FILE_START" "CHECK_CHUNK x CHUNK_FILE_END = CHECK_CHUNK y CHUNK_FILE_END"
    "\<not> is_file_signal x \<Longrightarrow> ck_size x = ck_size y \<and> ck_data x = ck_data y" by (auto simp: restored_def split: if_splits)
  with v(1,2) Cons.IH [OF v(5,6)] show ?case by (auto split: if_splits)
qed simp

text \<open>A stream with two ends of a file is not sent.\<close>

lemma second_end_fails:
  "2 \<le> files + int (length (filter (\<lambda>c. CHECK_CHUNK c CHUNK_FILE_END \<and> \<not> CHECK_CHUNK c CHUNK_FILE_START) xs)) \<Longrightarrow> files \<le> 1 \<Longrightarrow>
     write_restore_data e path xs n files = None"
proof (induction xs arbitrary: n files)
  case (Cons x xs)
  show ?case
  proof (cases "CHECK_CHUNK x CHUNK_FILE_END \<and> \<not> CHECK_CHUNK x CHUNK_FILE_START")
    case True
    show ?thesis
    proof (cases "files + 1 = 1")
      case f: True
      have "write_restore_data e path xs (Suc n) (files + 1) = None" by (rule Cons.IH) (use Cons.prems True f in auto)
      with True show ?thesis by (simp add: Let_def bind_eq_None_conv)
    next
      case False
      with True show ?thesis by (simp add: assertion_def)
    qed
  next
    case False
    have "write_restore_data e path xs n files = None" "write_restore_data e path xs (Suc n) files = None" by (rule Cons.IH; use Cons.prems False in auto)+
    with False show ?thesis by (auto simp: bind_eq_None_conv)
  qed
qed simp

lemma restored_ends:
  "list_all2 (restored content) cs xs \<Longrightarrow>
     length (filter (\<lambda>c. CHECK_CHUNK c CHUNK_FILE_END \<and> \<not> CHECK_CHUNK c CHUNK_FILE_START) xs)
     = length (filter (\<lambda>c. CHECK_CHUNK c CHUNK_FILE_END \<and> \<not> CHECK_CHUNK c CHUNK_FILE_START) cs)"
  by (induction rule: list_all2_induct) (auto simp: restored_def split: if_splits)

lemma recipe_stream_ends:
  "length (filter (\<lambda>c. CHECK_CHUNK c CHUNK_FILE_END \<and> \<not> CHECK_CHUNK c CHUNK_FILE_START) (recipe_stream junk rs cps)) = length rs"
  by (induction rs arbitrary: cps) (auto simp: filter_empty_conv)

lemma restore_delivered:
  assumes "bv_holds (re_be (oe_env oe)) b0 st0 [r] segs" "bv_ok b0" "update_backup_version (re_be (oe_env oe)) b0 st0 = (b1, st1)"
    and "bv_deleted b0 = 0" "fr_chunknum r = int (length (concat segs))" "fresh_statics st" "restore_conf oe"
    and "fetch_sound (re_fetch (oe_env oe)) fetch content" "list_all (ptr_served fetch content) (concat segs)"
    and "names_fit path (length (concat segs))"
  shows "\<exists>ps jc. do_restore oe TEMPORARY_ID (free_backup_version b1 fs) st (bv_num b0) path = Inr (ps, jc, 1) \<and> distinct (map fst ps)
     \<and> (\<forall>blpop. packets_delivered blpop ps \<longrightarrow>
          receive_group (re_be (oe_env oe)) blpop path 0 = Some (concat (map (\<lambda>cp. content (cp_fp cp)) (concat segs))))"
proof -
  let ?e = "oe_env oe" and ?cps = "concat segs"
  define cs where "cs = recipe_stream (re_junk ?e) [r] ?cps"
  from recipe_restored [OF assms(1-4) _ _ assms(8,9,7) refl assms(6), of fs "re_junk ?e", folded cs_def] assms(5) obtain b b' st' where
    b: "init_restore_jcr (re_be ?e) (free_backup_version b1 fs) (bv_num b0) = Inr b"
    "read_recipe_thread (re_be ?e) (re_junk ?e) b st = Some (cs, b', st')" "cache_ready oe TEMPORARY_ID b st cs" by auto
  have sz: "\<forall>cp \<in> set ?cps. cp_size cp < 2 ^ 31" using assms(1) by (auto simp: bv_holds_def seg_ok_def data_ptr_def ptr_ok_def int32_range_def)
  have one: "one_file content cs (map (ptr_chunk (re_junk ?e)) ?cps)"
    unfolding one_file_def using sz assms(9)
    by (intro exI [of _ "start_chunk (re_junk ?e) r"] exI [of _ "end_chunk (re_junk ?e)"])
      (simp add: assms(5) cs_def list_all_iff ptr_served_def ptr_chunk_def [abs_def] flag_simps)
  from job_alg.file_received [where x = "(oe, TEMPORARY_ID, b, st)" and cs = cs and content = content and fetch = fetch and path = path and jc = init_jcr
      and datas = "map (ptr_chunk (re_junk ?e)) ?cps"] one b(3) assms(7,8,10) recipe_stream_served [OF assms(9), of "re_junk ?e" "[r]", folded cs_def]
  obtain out jc ps where o: "restore_thread oe TEMPORARY_ID b st cs init_jcr = Some (out, jc)" "write_restore_data ?e path out 0 0 = Some (ps, 1)"
    "\<forall>blpop. packets_delivered blpop ps \<longrightarrow>
          receive_group (re_be ?e) blpop path 0 = Some (concat (map (\<lambda>c. content (ck_fp c)) (map (ptr_chunk (re_junk ?e)) ?cps)))"
    by (auto simp: restore_conf_def)
  have m: "map (\<lambda>c. content (ck_fp c)) (map (ptr_chunk (re_junk ?e)) ?cps) = map (\<lambda>cp. content (cp_fp cp)) ?cps"
    by (simp add: ptr_chunk_def)
  note o(3) [unfolded m]
  moreover have "do_restore oe TEMPORARY_ID (free_backup_version b1 fs) st (bv_num b0) path = Inr (ps, jc, 1)"
    using b(1,2) o(1,2) by (simp add: do_restore_def restore_pipeline_def)
  moreover have "distinct (map fst ps)" using packet_names [OF o(2)] by blast
  ultimately show ?thesis by blast
qed

section \<open>An example\<close>

text \<open>A pool with one container and versions that refer to it.\<close>

definition rx_fp :: fingerprint where "rx_fp = replicate 20 1"

definition rx_content :: "fingerprint \<Rightarrow> byte list" where
  "rx_content fp = (if fp = rx_fp then [1, 2, 3, 4, 5] else [])"

definition rx_con :: container where
  "rx_con = \<lparr>con_meta = \<lparr>cm_id = 9, cm_data_size = 5, cm_chunk_num = 1, cm_map = [(rx_fp, \<lparr>me_off = 0, me_len = 5, me_fp = rx_fp\<rparr>)]\<rparr>,
     con_data = Some (\<lambda>n. of_nat (n + 1))\<rparr>"

definition rx_restore :: "restore_cache \<Rightarrow> optimal_env" where
  "rx_restore k = \<lparr>oe_env = \<lparr>re_conf = destor_start_config\<lparr>restore_cache0 := k, restore_cache1 := 1, restore_opt_window_size := 1\<rparr>,
       re_be = False, re_junk = (\<lambda>_. 0), re_stack = [], re_fetch = (\<lambda>i. if i = 9 then Some rx_con else None)\<rparr>,
     oe_sort = (\<lambda>_ xs. xs), oe_insert = (\<lambda>_ x xs. x # xs)\<rparr>"

definition rx_ptr :: chunkPointer where "rx_ptr = \<lparr>cp_fp = rx_fp, cp_id = 9, cp_size = 5\<rparr>"

definition rx_file :: "int \<Rightarrow> fileRecipeMeta" where
  "rx_file n = \<lparr>fr_chunknum = n, fr_filesize = 5 * n, fr_filename = [97]\<rparr>"

definition rx_statics :: recipe_statics where
  "rx_statics = \<lparr>backup_version_count = 4, access_record = TEMPORARY_ID, read_file_num = 0, read_chunk_num = 0, records_end = False\<rparr>"

definition rx_bv :: backupVersion where
  "rx_bv = \<lparr>bv_path = [], bv_num = 4, bv_deleted = 0, number_of_files = 1, number_of_chunks = 1, metadata_fp = empty_stream,
     recipe_fp = empty_stream, record_fp = \<lparr>s_bytes = ids_bytes False [9, TEMPORARY_ID], s_pos = 0\<rparr>, metabuf = None,
     recordbuf = None, segmentbuf = [], segmentlen = 0\<rparr>"

lemma rx_fetch_sound: "fetch_sound (re_fetch (oe_env (rx_restore k))) (re_fetch (oe_env (rx_restore k))) rx_content"
  by (auto simp: fetch_sound_def rx_restore_def rx_con_def get_container_id_def entry_data_def rx_content_def get_bytes_def
      upt_rec split: if_splits)

lemma rx_served: "list_all (ptr_served (re_fetch (oe_env (rx_restore k))) rx_content) [rx_ptr]"
  by (simp add: ptr_served_def rx_ptr_def rx_restore_def rx_con_def rx_content_def
      lookup_fingerprint_in_container_def lookup_fingerprint_in_container_meta_def)

lemma rx_restore_conf: "restore_conf (rx_restore k)"
  by (simp add: restore_conf_def rx_restore_def destor_start_config_def sequence_functions_def)

lemma rx_statics_fresh: "fresh_statics rx_statics"
  by (simp add: fresh_statics_def rx_statics_def)

lemma rx_version:
  assumes "\<forall>r \<in> set rs. file_ok r" "length rs < 10"
  shows "\<exists>b st. bv_holds False b st rs [[rx_ptr]] \<and> bv_ok b \<and> bv_num b = 4 \<and> bv_deleted b = 0"
proof -
  obtain b0 st0 where c: "create_backup_version False [47, 97, 47] rx_statics = Some (b0, st0)"
    by (simp add: create_backup_version_def dir_of_def get_next_version_number_def)
  from create_holds [OF c] have h: "bv_holds False b0 st0 [] []" "bv_num b0 = 4" "bv_deleted b0 = 0" "bv_path b0 = [47, 97, 47]"
    by (simp_all add: dir_of_def rx_statics_def)
  have "\<exists>b. bv_holds False b st0 rs [] \<and> bv_num b = 4 \<and> bv_deleted b = 0 \<and> bv_path b = [47, 97, 47]" using assms(1)
  proof (induction rs rule: rev_induct)
    case Nil
    with h show ?case by blast
  next
    case (snoc r rs)
    then obtain b where "bv_holds False b st0 rs []" "bv_num b = 4" "bv_deleted b = 0" "bv_path b = [47, 97, 47]" by auto
    with append_file_holds [of False b st0 rs "[]" r] snoc.prems show ?case by force
  qed
  then obtain b where b: "bv_holds False b st0 rs []" "bv_num b = 4" "bv_deleted b = 0" "bv_path b = [47, 97, 47]" by blast
  have "seg_ok [rx_ptr]"
    by (simp add: seg_ok_def rx_ptr_def rx_fp_def data_ptr_def ptr_ok_def TEMPORARY_ID_def int64_range_def int32_range_def)
  from append_segment_holds [OF b(1) this, of "\<lambda>_. 0"] b obtain b1 st1 where
    "bv_holds False b1 st1 rs [[rx_ptr]]" "bv_num b1 = 4" "bv_deleted b1 = 0" "bv_path b1 = [47, 97, 47]" by auto
  with assms(2) show ?thesis by (intro exI [of _ b1] exI [of _ st1]) (simp add: bv_ok_def bv_holds_def int32_range_def int64_range_def)
qed

lemma rx_file_ok: "file_ok (rx_file 0)" "file_ok (rx_file 1)"
  by (simp_all add: file_ok_def rx_file_def metabufsize_def int64_range_def)

lemma rx_be: "re_be (oe_env (rx_restore k)) = False"
  by (simp add: rx_restore_def)

section \<open>Properties\<close>

text \<open>C15: restoring a version of one file delivers it: from a version that holds the record of the
  file and the chunk pointers of its segments, updated, closed and opened again, and a pool whose
  containers hold what the pointers name, every one of the three restore caches ends without a
  failed assertion and sends packets of different names, and the client that asks for the packets one by one ends with exactly the
  content of the chunks, in the order of the recipe.\<close>

theorem restore_delivers:
  assumes "bv_holds (re_be (oe_env oe)) b0 st0 [r] segs" "bv_ok b0" "update_backup_version (re_be (oe_env oe)) b0 st0 = (b1, st1)"
    and "bv_deleted b0 = 0" "fr_chunknum r = int (length (concat segs))" "fresh_statics st" "restore_conf oe"
    and "fetch_sound (re_fetch (oe_env oe)) fetch content" "list_all (ptr_served fetch content) (concat segs)"
    and "names_fit path (length (concat segs))"
  shows "\<exists>ps jc. do_restore oe TEMPORARY_ID (free_backup_version b1 fs) st (bv_num b0) path = Inr (ps, jc, 1) \<and> distinct (map fst ps)
     \<and> (\<forall>blpop. packets_delivered blpop ps \<longrightarrow>
          receive_group (re_be (oe_env oe)) blpop path 0 = Some (concat (map (\<lambda>cp. content (cp_fp cp)) (concat segs))))"
  using restore_delivered [OF assms] .

theorem restore_delivers_witness:
  "\<exists>fs ps jc. do_restore (rx_restore RESTORE_CACHE_OPT) TEMPORARY_ID fs rx_statics 4 [102] = Inr (ps, jc, 1)
     \<and> receive_group False (map_of ps) [102] 0 = Some [1, 2, 3, 4, 5]"
proof -
  let ?oe = "rx_restore RESTORE_CACHE_OPT"
  from rx_version [of "[rx_file 1]"] rx_file_ok obtain b st where
    b: "bv_holds False b st [rx_file 1] [[rx_ptr]]" "bv_ok b" "bv_num b = 4" "bv_deleted b = 0" by auto
  obtain b1 st1 where u: "update_backup_version False b st = (b1, st1)" by force
  have n: "fr_chunknum (rx_file 1) = int (length (concat [[rx_ptr]]))" "names_fit [102] (length (concat [[rx_ptr]]))"
    by (simp_all add: rx_file_def names_fit_last decimal.simps MAX_OEC_FILENAME_LEN_def)
  from restore_delivers [where oe = ?oe and content = rx_content and path = "[102]" and fs = Map.empty, unfolded rx_be, OF b(1,2) u b(4) n(1)
      rx_statics_fresh rx_restore_conf rx_fetch_sound _ n(2)] rx_served obtain ps jc where
    "do_restore ?oe TEMPORARY_ID (free_backup_version b1 Map.empty) rx_statics (bv_num b) [102] = Inr (ps, jc, 1)" "distinct (map fst ps)"
    "\<forall>blpop. packets_delivered blpop ps \<longrightarrow>
        receive_group False blpop [102] 0 = Some (concat (map (\<lambda>cp. rx_content (cp_fp cp)) (concat [[rx_ptr]])))" by auto
  moreover from this(2) have "packets_delivered (map_of ps) ps" by (rule delivered_map_of)
  ultimately show ?thesis using b(3) by (auto simp: rx_ptr_def rx_content_def)
qed

text \<open>C16: the three restore caches are interchangeable: on the same recipe the LRU cache, the
  assembly area and the optimal cache all succeed, and the packets sent are the same, byte for
  byte.\<close>

theorem restore_caches_equivalent:
  assumes "fetch_sound (re_fetch (oe_env oe)) fetch content" "list_all (served fetch content) cs"
    and "simulation_level (re_conf (oe_env oe)) = SIMULATION_NO" "list_all (\<lambda>c. \<not> CHECK_CHUNK c CHUNK_READY) cs"
    and "records_ready oe lid b st cs"
  shows "\<exists>x1 x2 x3 j1 j2 j3. lru_restore_thread (oe_env oe) cs jc = Some (x1, j1)
     \<and> assembly_restore_thread (oe_env oe) cs jc = Some (x2, j2) \<and> optimal_restore_thread oe lid b st cs jc = Some (x3, j3)
     \<and> write_restore_data (oe_env oe) path x1 0 0 = write_restore_data (oe_env oe) path x2 0 0
     \<and> write_restore_data (oe_env oe) path x1 0 0 = write_restore_data (oe_env oe) path x3 0 0"
proof -
  from lru_alg.run_restores [OF _ assms(1,3,2), of jc] obtain x1 j1 where
    1: "lru_restore_thread (oe_env oe) cs jc = Some (x1, j1)" "list_all2 (restored content) cs x1" by auto
  from asm_alg.run_restores [OF assms(4,1,3,2), of jc] obtain x2 j2 where
    2: "assembly_restore_thread (oe_env oe) cs jc = Some (x2, j2)" "list_all2 (restored content) cs x2" by auto
  from opt_alg.run_restores [where x = "(oe, lid, b, st)" and cs = cs and content = content and fetch = fetch and jc = jc] assms obtain x3 j3 where
    3: "optimal_restore_thread oe lid b st cs jc = Some (x3, j3)" "list_all2 (restored content) cs x3" by auto
  from 1 2 3 packets_agree [OF 1(2) 2(2)] packets_agree [OF 1(2) 3(2)] show ?thesis by blast
qed

theorem restore_caches_equivalent_witness:
  "\<exists>x1 x2 x3 j1 j2 j3. lru_restore_thread (oe_env (rx_restore RESTORE_CACHE_OPT)) [ptr_chunk (\<lambda>_. 0) rx_ptr] init_jcr = Some (x1, j1)
     \<and> assembly_restore_thread (oe_env (rx_restore RESTORE_CACHE_OPT)) [ptr_chunk (\<lambda>_. 0) rx_ptr] init_jcr = Some (x2, j2)
     \<and> optimal_restore_thread (rx_restore RESTORE_CACHE_OPT) TEMPORARY_ID rx_bv rx_statics [ptr_chunk (\<lambda>_. 0) rx_ptr] init_jcr = Some (x3, j3)
     \<and> write_restore_data (oe_env (rx_restore RESTORE_CACHE_OPT)) [102] x1 0 0 = write_restore_data (oe_env (rx_restore RESTORE_CACHE_OPT)) [102] x2 0 0
     \<and> write_restore_data (oe_env (rx_restore RESTORE_CACHE_OPT)) [102] x1 0 0 = write_restore_data (oe_env (rx_restore RESTORE_CACHE_OPT)) [102] x3 0 0"
proof (rule restore_caches_equivalent [OF rx_fetch_sound])
  let ?oe = "rx_restore RESTORE_CACHE_OPT"
  show "list_all (served (re_fetch (oe_env ?oe)) rx_content) [ptr_chunk (\<lambda>_. 0) rx_ptr]"
    using rx_served by (simp add: served_ptr_chunk)
  show "simulation_level (re_conf (oe_env ?oe)) = SIMULATION_NO" by (simp add: rx_restore_def destor_start_config_def)
  show "list_all (\<lambda>c. \<not> CHECK_CHUNK c CHUNK_READY) [ptr_chunk (\<lambda>_. 0) rx_ptr]" by simp
  have ids: "data_ids [ptr_chunk (\<lambda>_. 0) rx_ptr] = [9]" by (simp add: data_ids_def) (simp add: ptr_chunk_def rx_ptr_def)
  show "records_ready ?oe TEMPORARY_ID rx_bv rx_statics [ptr_chunk (\<lambda>_. 0) rx_ptr]"
    unfolding records_ready_def ids
    by (simp add: rx_statics_def rx_bv_def rx_restore_def sequence_functions_def TEMPORARY_ID_def int64_range_def valid_def rest_def)
qed

text \<open>a version with more than one file cannot be restored: whatever the cache, the job fails,
  because the sending thread asserts that it has met the end of one file only.\<close>

theorem restore_one_file_only:
  assumes "bv_holds (re_be (oe_env oe)) b0 st0 rs segs" "bv_ok b0" "update_backup_version (re_be (oe_env oe)) b0 st0 = (b1, st1)"
    and "bv_deleted b0 = 0" "list_all (\<lambda>r. 0 \<le> fr_chunknum r) rs" "(\<Sum>r \<leftarrow> rs. nat (fr_chunknum r)) = length (concat segs)"
    and "fresh_statics st" "restore_conf oe"
    and "fetch_sound (re_fetch (oe_env oe)) fetch content" "list_all (ptr_served fetch content) (concat segs)"
    and "2 \<le> length rs"
  shows "do_restore oe TEMPORARY_ID (free_backup_version b1 fs) st (bv_num b0) path = Inl Restore_failed"
proof -
  let ?e = "oe_env oe"
  let ?cs = "recipe_stream (re_junk ?e) rs (concat segs)"
  from recipe_restored [OF assms(1-4) _ assms(6,9,10,8) refl assms(7), of fs "re_junk ?e"] assms(5) obtain b b' st' where
    b: "init_restore_jcr (re_be ?e) (free_backup_version b1 fs) (bv_num b0) = Inr b"
    "read_recipe_thread (re_be ?e) (re_junk ?e) b st = Some (?cs, b', st')" "cache_ready oe TEMPORARY_ID b st ?cs"
    by (auto simp: list_all_iff)
  from job_alg.run_restores [where x = "(oe, TEMPORARY_ID, b, st)" and cs = ?cs and content = content and fetch = fetch and jc = init_jcr]
    b(3) assms(8,9) recipe_stream_served [OF assms(10)]
  obtain out jc where o: "restore_thread oe TEMPORARY_ID b st ?cs init_jcr = Some (out, jc)" "list_all2 (restored content) ?cs out"
    by (auto simp: restore_conf_def)
  have "write_restore_data ?e path out 0 0 = None"
    by (rule second_end_fails) (use restored_ends [OF o(2)] recipe_stream_ends [of "re_junk ?e" rs "concat segs"] assms(11) in simp_all)
  with b(1,2) o(1) show ?thesis by (simp add: do_restore_def restore_pipeline_def)
qed

theorem restore_one_file_only_witness:
  "\<exists>fs. do_restore (rx_restore RESTORE_CACHE_LRU) TEMPORARY_ID fs rx_statics 4 [102] = Inl Restore_failed"
proof -
  let ?oe = "rx_restore RESTORE_CACHE_LRU"
  from rx_version [of "[rx_file 0, rx_file 1]"] rx_file_ok obtain b st where
    b: "bv_holds False b st [rx_file 0, rx_file 1] [[rx_ptr]]" "bv_ok b" "bv_num b = 4" "bv_deleted b = 0" by auto
  obtain b1 st1 where u: "update_backup_version False b st = (b1, st1)" by force
  from restore_one_file_only [where oe = ?oe and content = rx_content and path = "[102]" and fs = Map.empty and st = rx_statics, unfolded rx_be,
      OF b(1,2) u b(4) _ _ rx_statics_fresh rx_restore_conf rx_fetch_sound] rx_served b(3) show ?thesis by (auto simp: rx_file_def)
qed

text \<open>C34: the final loop of the assembly area ends: every call that returns a queue moves at least
  one chunk out of the area into it, and loses none, so the area is empty after at most as many
  calls as it holds chunks.\<close>

theorem assembly_progress:
  assumes "assemble_area e a jc = Some (Some q, a', jc')"
  shows "q \<noteq> [] \<and> length q + length (aa_area a') = length (aa_area a)"
proof -
  have "length q + length (aa_area a') = length (aa_area a)"
  proof (cases "dropWhile is_file_signal (aa_area a)")
    case Nil
    have t: "takeWhile is_file_signal (aa_area a) = aa_area a"
      using Nil takeWhile_dropWhile_id [of is_file_signal "aa_area a"] by simp
    have "q = takeWhile is_file_signal (aa_area a) \<and> aa_area a' = []"
      using assms Nil by (auto simp add: assemble_area_def split: if_splits simp del: dropWhile_eq_Nil_conv)
    with t show ?thesis by (metis add.right_neutral list.size(3))
  next
    case (Cons c cs)
    from assms Cons obtain con area where
      1: "map_opt (assemble_chunk e (ck_id c) con) (c # cs) = Some area" "aa_area a' = dropWhile issued area"
      "q = takeWhile is_file_signal (aa_area a) @ takeWhile issued area"
      by (auto simp: assemble_area_cons [OF Cons] bind_eq_Some_conv simp del: map_opt.simps)
    have l: "length (takeWhile p xs) + length (dropWhile p xs) = length xs" for p and xs :: "chunk list"
      by (metis length_append takeWhile_dropWhile_id)
    show ?thesis
      using 1(2,3) map_opt_length [OF 1(1)] Cons l [of issued area] l [of is_file_signal "aa_area a"] by (simp del: map_opt.simps)
  qed
  with assemble_area_shorter [OF assms] show ?thesis by auto
qed

theorem assembly_progress_witness:
  "\<exists>q a' jc'. assemble_area (oe_env (rx_restore RESTORE_CACHE_ASM)) \<lparr>aa_area = [ptr_chunk (\<lambda>_. 0) rx_ptr], aa_area_size = 0, aa_size = 5\<rparr> init_jcr
       = Some (Some q, a', jc') \<and> q \<noteq> [] \<and> length q + length (aa_area a') = 1"
proof -
  let ?a = "\<lparr>aa_area = [ptr_chunk (\<lambda>_. 0) rx_ptr], aa_area_size = 0, aa_size = 5\<rparr>" and ?e = "oe_env (rx_restore RESTORE_CACHE_ASM)"
  have "list_all (served (re_fetch ?e) rx_content) [ptr_chunk (\<lambda>_. 0) rx_ptr]"
    using rx_served by (simp add: served_ptr_chunk)
  moreover have "list_all2 (waiting rx_content) [ptr_chunk (\<lambda>_. 0) rx_ptr] (aa_area ?a)" by (simp add: waiting_fresh)
  moreover have "simulation_level (re_conf ?e) = SIMULATION_NO" by (simp add: rx_restore_def destor_start_config_def)
  ultimately obtain q a' jc' where "assemble_area ?e ?a init_jcr = Some (Some q, a', jc')"
    using area_assembled [OF rx_fetch_sound] by blast
  with assembly_progress [OF this] show ?thesis by auto
qed

end
