(* ===== verification/Group_Transfer.thy ===== *)
theory Group_Transfer
  imports Chunking_Correct Restore_Job
begin

unbundle bit_operations_syntax

text \<open>
  From a group of the client to fingerprinted chunks: the loop of \<open>clientWrite\<close> that sends a group in
  packets (\<^verbatim>\<open>src/client/src/common/Worker.cc\<close>), the read phase of the server that receives them
  (\<^verbatim>\<open>src/destor/src/destor_server.c\<close>), the read phase from files (\<^verbatim>\<open>read_phase.c\<close>) and the hash
  phase (\<^verbatim>\<open>hash_phase.c\<close>). Redis lists are a map from keys to packets; SHA-1 is a parameter.
\<close>

section \<open>Sending a group\<close>

text \<open>The characters \<open>_data_\<close>.\<close>

definition data_infix :: "byte list" where "data_infix = [95, 100, 97, 116, 97, 95]"

function send_packets :: "bool \<Rightarrow> byte list \<Rightarrow> byte list \<Rightarrow> nat \<Rightarrow> nat \<Rightarrow> packet list" where
  "send_packets be name data written pktid =
     (if written < length data
      then (let n = (if length data - written \<ge> DEFAULT_BLOCK_SIZE then DEFAULT_BLOCK_SIZE else length data - written)
            in (name @ data_infix @ decimal pktid, mem_bytes be 4 (htonl be (of_nat n)) @ take n (drop written data))
               # send_packets be name data (written + n) (Suc pktid))
      else [])"
  by pat_completeness auto
termination by (relation "measure (\<lambda>(_, _, data, written, _). length data - written)") (auto simp: DEFAULT_BLOCK_SIZE_def Let_def)

declare send_packets.simps [simp del]

section \<open>Receiving it\<close>

text \<open>\<open>intToChar\<close> fills the buffer from its end; the final zero, which it writes one byte past the
  buffer, is not modelled.\<close>

fun digits_from :: "nat \<Rightarrow> byte list \<Rightarrow> byte list" where
  "digits_from a p = (if a > 0 then digits_from (a div 10) (of_nat (a mod 10 + 48) # p) else p)"

declare digits_from.simps [simp del]

definition intToChar :: "nat \<Rightarrow> byte list" where
  "intToChar a = (if a = 0 then [48] else digits_from a [])"

definition start_signal :: "(nat \<Rightarrow> byte) \<Rightarrow> byte list \<Rightarrow> chunk" where
  "start_signal junk name = SET_CHUNK ((new_chunk junk (int (length name) + 1))\<lparr>ck_data := Some (name @ [0])\<rparr>) CHUNK_FILE_START"

definition end_signal :: "(nat \<Rightarrow> byte) \<Rightarrow> chunk" where
  "end_signal junk = SET_CHUNK (new_chunk junk 0) CHUNK_FILE_END"

definition data_block :: "(nat \<Rightarrow> byte) \<Rightarrow> byte list \<Rightarrow> chunk" where
  "data_block junk bs = (new_chunk junk (int (length bs)))\<lparr>ck_data := if bs = [] then None else Some bs\<rparr>"

definition read_pkt :: "bool \<Rightarrow> (nat \<Rightarrow> byte) \<Rightarrow> byte list \<Rightarrow> chunk option" where
  "read_pkt be junk pkt = do {
     (len_bytes, bs) \<leftarrow> read_n 4 pkt;
     let pkt_size = unat (htonl be (mem_word be len_bytes :: 32 word));
     assertion (pkt_size \<le> length bs);
     Some (data_block junk (take pkt_size bs))
   }"

definition read_data ::
    "bool \<Rightarrow> (nat \<Rightarrow> byte) \<Rightarrow> (byte list \<Rightarrow> byte list option) \<Rightarrow> byte list \<Rightarrow> nat \<Rightarrow> chunk list option" where
  "read_data be junk blpop path sz = do {
     let pktnum = sz div DEFAULT_BLOCK_SIZE + (if sz mod DEFAULT_BLOCK_SIZE \<noteq> 0 then 1 else 0);
     cs \<leftarrow> map_opt (\<lambda>i. do { pkt \<leftarrow> blpop (path @ data_infix @ intToChar i); read_pkt be junk pkt }) [0..<pktnum];
     Some (start_signal junk path # cs @ [end_signal junk])
   }"

section \<open>Reading files\<close>

text \<open>The tree of files as the system calls show it: \<open>None\<close> where \<open>stat\<close> fails on a directory entry.\<close>

datatype fs_node = Regular "byte list" | Directory "(byte list \<times> fs_node option) list"

function blocks_of :: "byte list \<Rightarrow> byte list list" where
  "blocks_of bs = (if bs = [] then [] else take DEFAULT_BLOCK_SIZE bs # blocks_of (drop DEFAULT_BLOCK_SIZE bs))"
  by pat_completeness auto
termination by (relation "measure length") (auto simp: DEFAULT_BLOCK_SIZE_def)

declare blocks_of.simps [simp del]

text \<open>The name of the file in the recipe: the path below the backup directory, or from the last
  slash on.\<close>

definition stored_name :: "byte list \<Rightarrow> byte list \<Rightarrow> byte list option" where
  "stored_name jcr_path path = do {
     assertion (jcr_path \<noteq> []);
     if List.last jcr_path = 47 then Some (drop (length jcr_path) path)
     else do {
       assertion (47 \<in> set path);
       Some (47 # rev (takeWhile (\<lambda>b. b \<noteq> 47) (rev path)))
     }
   }"

definition read_file :: "(nat \<Rightarrow> byte) \<Rightarrow> byte list \<Rightarrow> byte list \<Rightarrow> byte list \<Rightarrow> chunk list option" where
  "read_file junk jcr_path path content = do {
     filename \<leftarrow> stored_name jcr_path path;
     Some (start_signal junk filename # map (data_block junk) (blocks_of content) @ [end_signal junk])
   }"

text \<open>A path with a final slash is a directory. An entry that \<open>stat\<close> does not find ends the walk of its
  directory; opening a directory as a file gives no bytes.\<close>

function find_one_file :: "(nat \<Rightarrow> byte) \<Rightarrow> byte list \<Rightarrow> byte list \<Rightarrow> fs_node \<Rightarrow> chunk list option"
  and find_entries :: "(nat \<Rightarrow> byte) \<Rightarrow> byte list \<Rightarrow> byte list \<Rightarrow> (byte list \<times> fs_node option) list \<Rightarrow> chunk list option" where
  "find_one_file junk jcr_path path node =
     (if path \<noteq> [] \<and> List.last path = 47
      then (case node of Directory es \<Rightarrow> find_entries junk jcr_path path es | Regular _ \<Rightarrow> None)
      else read_file junk jcr_path path (case node of Regular bs \<Rightarrow> bs | Directory _ \<Rightarrow> []))"
| "find_entries junk jcr_path path [] = Some []"
| "find_entries junk jcr_path path ((name, node) # es) =
     (if name = [46] \<or> name = [46, 46] then find_entries junk jcr_path path es
      else (case node of
              None \<Rightarrow> Some []
            | Some n \<Rightarrow> do {
                cs \<leftarrow> find_one_file junk jcr_path (path @ name @ (case n of Directory _ \<Rightarrow> [47] | Regular _ \<Rightarrow> [])) n;
                ds \<leftarrow> find_entries junk jcr_path path es;
                Some (cs @ ds)
              }))"
  by pat_completeness auto
termination
  by (relation "measure (\<lambda>x. case x of Inl (_, _, _, n) \<Rightarrow> size n | Inr (_, _, _, es) \<Rightarrow> size_list (size_prod (\<lambda>_. 0) (size_option size)) es)") auto

section \<open>Fingerprints\<close>

definition sha1_chunk :: "(byte list \<Rightarrow> fingerprint) \<Rightarrow> chunk \<Rightarrow> chunk option" where
  "sha1_chunk sha c =
     (if is_file_signal c then Some c
      else do { bs \<leftarrow> chunk_bytes c; Some (c\<lparr>ck_fp := sha bs\<rparr>) })"

definition sha1_thread :: "(byte list \<Rightarrow> fingerprint) \<Rightarrow> chunk list \<Rightarrow> chunk list option" where
  "sha1_thread sha cs = map_opt (sha1_chunk sha) cs"

section \<open>What the server receives is what the client sent\<close>

lemma digits_from_append: "digits_from a p = digits_from a [] @ p"
proof (induction a arbitrary: p rule: less_induct)
  case (less a)
  show ?case
  proof (cases "a > 0")
    case True
    then have u: "digits_from a q = digits_from (a div 10) (of_nat (a mod 10 + 48) # q)" for q by (simp add: digits_from.simps [of a])
    have d: "a div 10 < a" using True by simp
    show ?thesis unfolding u less [OF d, of "of_nat (a mod 10 + 48) # p"] less [OF d, of "[of_nat (a mod 10 + 48)]"] by simp
  qed (simp add: digits_from.simps [of 0])
qed

lemma digits_decimal: "0 < n \<Longrightarrow> digits_from n [] = decimal n"
proof (induction n rule: decimal.induct)
  case (1 n)
  have d: "digits_from n [] = digits_from (n div 10) [] @ [of_nat (n mod 10 + 48)]"
    using 1(2) digits_from_append [of "n div 10" "[of_nat (n mod 10 + 48)]"] by (simp add: digits_from.simps [of n])
  show ?case
  proof (cases "n < 10")
    case True
    then show ?thesis using d by (simp add: decimal.simps [of n] digits_from.simps [of 0] add.commute)
  next
    case False
    with 1(1) have "digits_from (n div 10) [] = decimal (n div 10)" by simp
    with d False show ?thesis by (simp add: decimal.simps [of n] add.commute)
  qed
qed

lemma intToChar_decimal: "intToChar n = decimal n"
  by (simp add: intToChar_def digits_decimal decimal.simps [of 0])

lemma read_pkt_field:
  assumes "length bs < 2 ^ 32"
  shows "read_pkt be junk (mem_bytes be 4 (htonl be (of_nat (length bs))) @ bs) = Some (data_block junk bs)"
proof -
  have "unat (of_nat (length bs) :: 32 word) = length bs" using assms by (simp add: unat_of_nat)
  then show ?thesis by (simp add: read_pkt_def length_field htonl_htonl Let_def del: word_bytes_numeral)
qed

lemma blocks_of_props:
  "concat (blocks_of bs) = bs" "\<forall>b \<in> set (blocks_of bs). b \<noteq> [] \<and> length b \<le> DEFAULT_BLOCK_SIZE \<and> length b \<le> length bs"
  "length (blocks_of bs) = length bs div DEFAULT_BLOCK_SIZE + (if length bs mod DEFAULT_BLOCK_SIZE \<noteq> 0 then 1 else 0)"
proof (induction bs rule: blocks_of.induct)
  case (1 bs)
  { case 1 show ?case using "1.IH"(1) by (subst blocks_of.simps) simp }
  { case 2
    have "length b \<le> length bs" if "length b \<le> length (drop DEFAULT_BLOCK_SIZE bs)" for b :: "byte list" using that by simp
    with "1.IH"(2) have "\<forall>b \<in> set (blocks_of (drop DEFAULT_BLOCK_SIZE bs)). b \<noteq> [] \<and> length b \<le> DEFAULT_BLOCK_SIZE \<and> length b \<le> length bs"
      if "bs \<noteq> []" using that by blast
    then show ?case by (subst blocks_of.simps) (simp add: DEFAULT_BLOCK_SIZE_def) }
  { case 3
    show ?case
    proof (cases "length bs < DEFAULT_BLOCK_SIZE")
      case True
      then show ?thesis by (subst blocks_of.simps) (simp add: blocks_of.simps [of "[]"])
    next
      case False
      then have "bs \<noteq> []" "length bs div DEFAULT_BLOCK_SIZE = Suc ((length bs - DEFAULT_BLOCK_SIZE) div DEFAULT_BLOCK_SIZE)"
        "length bs mod DEFAULT_BLOCK_SIZE = (length bs - DEFAULT_BLOCK_SIZE) mod DEFAULT_BLOCK_SIZE"
        by (auto simp: le_div_geq le_mod_geq DEFAULT_BLOCK_SIZE_def)
      with "1.IH"(3) show ?thesis by (subst blocks_of.simps) simp
    qed }
qed

lemma send_packets_blocks:
  "send_packets be name data w k =
     map (\<lambda>(i, b). (name @ data_infix @ decimal i, mem_bytes be 4 (htonl be (of_nat (length b))) @ b)) (List.enumerate k (blocks_of (drop w data)))"
proof (induction be name data w k rule: send_packets.induct)
  case (1 be name data w k)
  show ?case
  proof (cases "w < length data")
    case True
    define n where "n = (if length data - w \<ge> DEFAULT_BLOCK_SIZE then DEFAULT_BLOCK_SIZE else length data - w)"
    have n: "take n (drop w data) = take DEFAULT_BLOCK_SIZE (drop w data)" "length (take n (drop w data)) = n"
      "drop (w + n) data = drop DEFAULT_BLOCK_SIZE (drop w data)" by (auto simp: n_def add.commute)
    have b: "blocks_of (drop w data) = take n (drop w data) # blocks_of (drop (w + n) data)"
      using True n(1,3) by (subst blocks_of.simps) simp
    have "send_packets be name data w k = (name @ data_infix @ decimal k, mem_bytes be 4 (htonl be (of_nat n)) @ take n (drop w data))
        # send_packets be name data (w + n) (Suc k)"
      using True by (subst send_packets.simps) (simp add: n_def Let_def)
    with "1.IH" [OF True n_def] b n(2) show ?thesis by simp
  next
    case False
    then show ?thesis by (subst send_packets.simps) (simp add: blocks_of.simps)
  qed
qed

lemma map_opt_all: "(\<And>x. x \<in> set xs \<Longrightarrow> f x = Some (g x)) \<Longrightarrow> map_opt f xs = Some (map g xs)"
  by (induction xs) auto

lemma read_data_ok:
  assumes "packets_delivered blpop (send_packets be name data 0 0)" "length data < 2 ^ 32"
  shows "read_data be junk blpop name (length data) = Some (start_signal junk name # map (data_block junk) (blocks_of data) @ [end_signal junk])"
proof -
  let ?b = "blocks_of data"
  have "do { pkt \<leftarrow> blpop (name @ data_infix @ intToChar i); read_pkt be junk pkt } = Some (data_block junk (?b ! i))" if "i < length ?b" for i
  proof -
    have "(i, ?b ! i) \<in> set (List.enumerate 0 ?b)" using that by (force simp: in_set_enumerate_eq)
    then have "blpop (name @ data_infix @ decimal i) = Some (mem_bytes be 4 (htonl be (of_nat (length (?b ! i)))) @ ?b ! i)"
      using assms(1) by (force simp: packets_delivered_def send_packets_blocks)
    moreover have "length (?b ! i) < 2 ^ 32" using blocks_of_props(2) [of data] that assms(2) by (meson le_less_trans nth_mem)
    ultimately show ?thesis by (simp add: intToChar_decimal read_pkt_field del: word_bytes_numeral)
  qed
  then have "map_opt (\<lambda>i. do { pkt \<leftarrow> blpop (name @ data_infix @ intToChar i); read_pkt be junk pkt }) [0..<length ?b] =
      Some (map (\<lambda>i. data_block junk (?b ! i)) [0..<length ?b])" by (intro map_opt_all) simp
  moreover have "map (\<lambda>i. data_block junk (?b ! i)) [0..<length ?b] = map (data_block junk) ?b" by (rule nth_equalityI) simp_all
  moreover note blocks_of_props(3) [of data, symmetric]
  ultimately show ?thesis unfolding read_data_def Let_def by (simp only: bind.bind_lunit)
qed

end
