(* ===== verification/Commands.thy ===== *)
theory Commands
  imports Group_Transfer
begin

text \<open>
  The commands that travel between the client and the servers through redis: the client builds them with
  \<^verbatim>\<open>src/client/src/protocol/destorCommand.cc\<close> and \<^verbatim>\<open>AgentCommand.cc\<close>, the server reads them with
  \<^verbatim>\<open>src/destor/src/utils/redis_util.c\<close> and dispatches them in \<^verbatim>\<open>destor_server.c\<close>. The two sides may run on hosts
  of different byte order.
\<close>

section \<open>Building a command\<close>

abbreviation MAX_COMMAND_LEN :: nat where "MAX_COMMAND_LEN \<equiv> 4096"

record command =
  cmd_buf :: "byte list"
  cmd_len :: nat

definition new_command :: command where
  "new_command = \<lparr>cmd_buf = replicate MAX_COMMAND_LEN 0, cmd_len = 0\<rparr>"

definition cmd_copy :: "byte list \<Rightarrow> command \<Rightarrow> command option" where
  "cmd_copy bs c = do {
     buf \<leftarrow> mem_write (cmd_buf c) (cmd_len c) bs;
     Some (c\<lparr>cmd_buf := buf, cmd_len := cmd_len c + length bs\<rparr>)
   }"

definition writeInt :: "bool \<Rightarrow> int \<Rightarrow> command \<Rightarrow> command option" where
  "writeInt be v c = cmd_copy (mem_bytes be 4 (htonl be (word_of_int v))) c"

definition writeUInt :: "bool \<Rightarrow> 32 word \<Rightarrow> command \<Rightarrow> command option" where
  "writeUInt be v c = cmd_copy (mem_bytes be 4 (htonl be v)) c"

definition writeString :: "bool \<Rightarrow> byte list \<Rightarrow> command \<Rightarrow> command option" where
  "writeString be s c = do {
     c \<leftarrow> cmd_copy (mem_bytes be 4 (htonl be (of_nat (length s)))) c;
     cmd_copy s c
   }"

definition buildType0 :: "bool \<Rightarrow> int \<Rightarrow> byte list \<Rightarrow> 32 word \<Rightarrow> command \<Rightarrow> command option" where
  "buildType0 be type groupName sz c = do {
     c \<leftarrow> writeInt be type c;
     c \<leftarrow> writeString be groupName c;
     writeUInt be sz c
   }"

definition buildType1 :: "bool \<Rightarrow> int \<Rightarrow> byte list \<Rightarrow> 32 word \<Rightarrow> command \<Rightarrow> command option" where
  "buildType1 be type filename ip c = do {
     c \<leftarrow> writeInt be type c;
     c \<leftarrow> writeString be filename c;
     writeUInt be ip c
   }"

definition agent_buildType0 :: "bool \<Rightarrow> int \<Rightarrow> byte list \<Rightarrow> byte list \<Rightarrow> int \<Rightarrow> command \<Rightarrow> command option" where
  "agent_buildType0 be type filepath saveas filesize c = do {
     c \<leftarrow> writeInt be type c;
     c \<leftarrow> writeString be filepath c;
     c \<leftarrow> writeString be saveas c;
     writeInt be filesize c
   }"

definition agent_buildType1 :: "bool \<Rightarrow> int \<Rightarrow> byte list \<Rightarrow> byte list \<Rightarrow> command \<Rightarrow> command option" where
  "agent_buildType1 be type filename saveas c = do {
     c \<leftarrow> writeInt be type c;
     c \<leftarrow> writeString be filename c;
     writeString be saveas c
   }"

text \<open>What \<open>sendTo\<close> pushes: the first \<open>_cmLen\<close> bytes. The reply object ends them with a zero.\<close>

definition sent :: "command \<Rightarrow> byte list" where
  "sent c = take (cmd_len c) (cmd_buf c) @ [0]"

section \<open>Reading a command\<close>

record destor_cmd =
  dm_cmd :: "byte list"
  dm_len :: nat
  dm_type :: int
  dm_group_name :: "byte list"
  dm_size :: "32 word"
  dm_to_read_filename :: "byte list"
  dm_client_ip :: "32 word"

definition destor_cmd_read_uint :: "bool \<Rightarrow> destor_cmd \<Rightarrow> (32 word \<times> destor_cmd) option" where
  "destor_cmd_read_uint be m = do {
     bs \<leftarrow> mem_read (dm_cmd m) (dm_len m) 4;
     Some (htonl be (mem_word be bs), m\<lparr>dm_len := dm_len m + 4\<rparr>)
   }"

definition destor_cmd_read_int :: "bool \<Rightarrow> destor_cmd \<Rightarrow> (int \<times> destor_cmd) option" where
  "destor_cmd_read_int be m = do {
     bs \<leftarrow> mem_read (dm_cmd m) (dm_len m) 4;
     Some (sint (htonl be (mem_word be bs :: 32 word)), m\<lparr>dm_len := dm_len m + 4\<rparr>)
   }"

text \<open>The string is copied into zeroed memory with room for the final zero.\<close>

definition destor_cmd_read_string :: "bool \<Rightarrow> destor_cmd \<Rightarrow> (byte list \<times> destor_cmd) option" where
  "destor_cmd_read_string be m = do {
     (slen, m) \<leftarrow> destor_cmd_read_int be m;
     assertion (0 \<le> slen);
     bs \<leftarrow> mem_read (dm_cmd m) (dm_len m) (nat slen);
     Some (bs @ [0], m\<lparr>dm_len := dm_len m + nat slen\<rparr>)
   }"

definition resolve_destor_command_type0 :: "bool \<Rightarrow> destor_cmd \<Rightarrow> destor_cmd option" where
  "resolve_destor_command_type0 be m = do {
     (s, m) \<leftarrow> destor_cmd_read_string be m;
     (n, m) \<leftarrow> destor_cmd_read_uint be (m\<lparr>dm_group_name := s\<rparr>);
     Some (m\<lparr>dm_size := n\<rparr>)
   }"

definition resolve_destor_command_type1 :: "bool \<Rightarrow> destor_cmd \<Rightarrow> destor_cmd option" where
  "resolve_destor_command_type1 be m = do {
     (s, m) \<leftarrow> destor_cmd_read_string be m;
     (n, m) \<leftarrow> destor_cmd_read_uint be (m\<lparr>dm_to_read_filename := s\<rparr>);
     Some (m\<lparr>dm_client_ip := n\<rparr>)
   }"

definition destor_cmd_init_with_reqstr :: "bool \<Rightarrow> byte list \<Rightarrow> destor_cmd \<Rightarrow> destor_cmd option" where
  "destor_cmd_init_with_reqstr be reqstr m = do {
     (t, m) \<leftarrow> destor_cmd_read_int be (m\<lparr>dm_cmd := reqstr, dm_len := 0\<rparr>);
     let m = m\<lparr>dm_type := t\<rparr>;
     m \<leftarrow> (if t = 0 then resolve_destor_command_type0 be m
           else if t = 1 then resolve_destor_command_type1 be m
           else Some m);
     Some (m\<lparr>dm_cmd := [], dm_len := 0\<rparr>)
   }"

text \<open>The commands of the server itself. \<open>build_destor_command_type0\<close> writes the field \<open>_size\<close>, which it does
  not set from its parameter.\<close>

definition destor_cmd_write_string :: "bool \<Rightarrow> byte list \<Rightarrow> command \<Rightarrow> command option" where
  "destor_cmd_write_string be s c = do {
     let s = takeWhile (\<lambda>b. b \<noteq> 0) s;
     c \<leftarrow> cmd_copy (mem_bytes be 4 (htonl be (of_nat (length s)))) c;
     cmd_copy s c
   }"

definition build_destor_command_type0 :: "bool \<Rightarrow> 32 word \<Rightarrow> int \<Rightarrow> byte list \<Rightarrow> 32 word \<Rightarrow> command \<Rightarrow> command option" where
  "build_destor_command_type0 be field_size type group_name sz c = do {
     c \<leftarrow> writeInt be type c;
     c \<leftarrow> destor_cmd_write_string be group_name c;
     writeUInt be field_size c
   }"

definition build_destor_command_type1 :: "bool \<Rightarrow> int \<Rightarrow> byte list \<Rightarrow> 32 word \<Rightarrow> command \<Rightarrow> command option" where
  "build_destor_command_type1 be type filename client_ip c = do {
     c \<leftarrow> writeInt be type c;
     c \<leftarrow> destor_cmd_write_string be filename c;
     writeUInt be client_ip c
   }"

text \<open>The client as the receiver: its strings end at the first zero.\<close>

record agent_command =
  ag_type :: int
  ag_filepath :: "byte list"
  ag_filesaveas :: "byte list"
  ag_filesize :: int
  ag_to_read_filename :: "byte list"
  ag_to_save_as :: "byte list"

definition agent_readInt :: "bool \<Rightarrow> byte list \<times> nat \<Rightarrow> (int \<times> byte list \<times> nat) option" where
  "agent_readInt be = (\<lambda>(cmd, pos). do {
     bs \<leftarrow> mem_read cmd pos 4;
     Some (sint (htonl be (mem_word be bs :: 32 word)), cmd, pos + 4)
   })"

definition agent_readString :: "bool \<Rightarrow> byte list \<times> nat \<Rightarrow> (byte list \<times> byte list \<times> nat) option" where
  "agent_readString be r = do {
     (slen, cmd, pos) \<leftarrow> agent_readInt be r;
     assertion (0 \<le> slen);
     bs \<leftarrow> mem_read cmd pos (nat slen);
     Some (takeWhile (\<lambda>b. b \<noteq> 0) bs, cmd, pos + nat slen)
   }"

definition agent_resolveType0 :: "bool \<Rightarrow> byte list \<times> nat \<Rightarrow> agent_command \<Rightarrow> agent_command option" where
  "agent_resolveType0 be r a = do {
     (p, r) \<leftarrow> agent_readString be r;
     (s, r) \<leftarrow> agent_readString be r;
     (n, r) \<leftarrow> agent_readInt be r;
     Some (a\<lparr>ag_filepath := p, ag_filesaveas := s, ag_filesize := n\<rparr>)
   }"

definition agent_resolveType1 :: "bool \<Rightarrow> byte list \<times> nat \<Rightarrow> agent_command \<Rightarrow> agent_command option" where
  "agent_resolveType1 be r a = do {
     (f, r) \<leftarrow> agent_readString be r;
     (s, r) \<leftarrow> agent_readString be r;
     Some (a\<lparr>ag_to_read_filename := f, ag_to_save_as := s\<rparr>)
   }"

definition AgentCommand :: "bool \<Rightarrow> byte list \<Rightarrow> agent_command \<Rightarrow> agent_command option" where
  "AgentCommand be reqStr a = do {
     (t, r) \<leftarrow> agent_readInt be (reqStr, 0);
     let a = a\<lparr>ag_type := t\<rparr>;
     if t = 0 then agent_resolveType0 be r a else if t = 1 then agent_resolveType1 be r a else Some a
   }"

section \<open>Dispatch\<close>

datatype redis_reply = Reply_nil | Reply_error | Reply_element "byte list"

datatype request = Destor_write "byte list" "32 word" | Destor_read "32 word" "byte list" | No_request

text \<open>\<open>destor_server_process\<close> up to the call of the job; a name is used as a string that ends at the first
  zero. The command is allocated with \<open>calloc\<close>.\<close>

definition calloc_cmd :: destor_cmd where
  "calloc_cmd = \<lparr>dm_cmd = [], dm_len = 0, dm_type = 0, dm_group_name = [], dm_size = 0, dm_to_read_filename = [], dm_client_ip = 0\<rparr>"

definition destor_server_process :: "bool \<Rightarrow> redis_reply \<Rightarrow> request option" where
  "destor_server_process be reply = (case reply of
     Reply_nil \<Rightarrow> Some No_request
   | Reply_error \<Rightarrow> Some No_request
   | Reply_element reqStr \<Rightarrow> do {
       m \<leftarrow> destor_cmd_init_with_reqstr be reqStr calloc_cmd;
       Some (if dm_type m = 0 then Destor_write (takeWhile (\<lambda>b. b \<noteq> 0) (dm_group_name m)) (dm_size m)
             else if dm_type m = 1 then Destor_read (dm_client_ip m) (takeWhile (\<lambda>b. b \<noteq> 0) (dm_to_read_filename m))
             else No_request)
     })"

section \<open>What is built is what is read\<close>

definition holds :: "command \<Rightarrow> byte list \<Rightarrow> bool" where
  "holds c bs = (length (cmd_buf c) = MAX_COMMAND_LEN \<and> cmd_len c = length bs \<and> take (length bs) (cmd_buf c) = bs)"

lemma holds_new: "holds new_command []"
  by (simp add: holds_def new_command_def)

lemma holds_sent: "holds c bs \<Longrightarrow> sent c = bs @ [0]"
  by (simp add: holds_def sent_def)

lemma cmd_copy_ok: "holds c bs \<Longrightarrow> length bs + length x \<le> MAX_COMMAND_LEN \<Longrightarrow> \<exists>c'. cmd_copy x c = Some c' \<and> holds c' (bs @ x)"
  by (auto simp: holds_def cmd_copy_def mem_write_def)

lemma cmd_copy_full: "holds c bs \<Longrightarrow> MAX_COMMAND_LEN < length bs + length x \<Longrightarrow> cmd_copy x c = None"
  by (simp add: holds_def cmd_copy_def mem_write_def)

text \<open>The four bytes of a number in network order.\<close>

definition net_bytes :: "32 word \<Rightarrow> byte list" where
  "net_bytes w = rev (word_bytes 4 w)"

lemma net_bytes_mem: "mem_bytes be 4 (htonl be w) = net_bytes w"
  by (simp add: net_bytes_def mem_bytes_htonl del: word_bytes_numeral)

lemma length_net_bytes [simp]: "length (net_bytes w) = 4"
  by (simp add: net_bytes_def del: word_bytes_numeral)

lemma read_net_bytes: "htonl be (mem_word be (net_bytes w)) = w"
  by (simp add: htonl_mem_word net_bytes_def del: word_bytes_numeral)

lemma mem_read_mid: "pos = length pre \<Longrightarrow> n = length x \<Longrightarrow> mem_read (pre @ x @ y) pos n = Some x"
  by (simp add: mem_read_def)

definition string_bytes :: "byte list \<Rightarrow> byte list" where
  "string_bytes s = net_bytes (of_nat (length s)) @ s"

lemma writeInt_ok: "holds c bs \<Longrightarrow> length bs + 4 \<le> MAX_COMMAND_LEN \<Longrightarrow> \<exists>c'. writeInt be v c = Some c' \<and> holds c' (bs @ net_bytes (word_of_int v))"
  unfolding writeInt_def net_bytes_mem by (rule cmd_copy_ok) simp_all

lemma writeUInt_ok: "holds c bs \<Longrightarrow> length bs + 4 \<le> MAX_COMMAND_LEN \<Longrightarrow> \<exists>c'. writeUInt be v c = Some c' \<and> holds c' (bs @ net_bytes v)"
  unfolding writeUInt_def net_bytes_mem by (rule cmd_copy_ok) simp_all

lemma writeString_ok:
  assumes "holds c bs" "length bs + 4 + length s \<le> MAX_COMMAND_LEN"
  shows "\<exists>c'. writeString be s c = Some c' \<and> holds c' (bs @ string_bytes s)"
proof -
  from cmd_copy_ok [OF assms(1), of "net_bytes (of_nat (length s))"] assms(2) obtain c1 where
    1: "cmd_copy (net_bytes (of_nat (length s))) c = Some c1" "holds c1 (bs @ net_bytes (of_nat (length s)))" by auto
  from cmd_copy_ok [OF 1(2), of s] assms(2) 1(1) show ?thesis by (auto simp: writeString_def net_bytes_mem string_bytes_def)
qed

lemma read_int_ok:
  "dm_cmd m = pre @ net_bytes w @ y \<Longrightarrow> dm_len m = length pre \<Longrightarrow>
     destor_cmd_read_int be m = Some (sint w, m\<lparr>dm_len := length pre + 4\<rparr>)"
  "dm_cmd m = pre @ net_bytes w @ y \<Longrightarrow> dm_len m = length pre \<Longrightarrow>
     destor_cmd_read_uint be m = Some (w, m\<lparr>dm_len := length pre + 4\<rparr>)"
  by (simp_all add: destor_cmd_read_int_def destor_cmd_read_uint_def mem_read_mid read_net_bytes)

lemma sint_length: "n < 2 ^ 31 \<Longrightarrow> sint (of_nat n :: 32 word) = int n"
  using sint_of_int_32 [of "int n"] by simp

lemma read_string_ok:
  assumes "dm_cmd m = pre @ string_bytes s @ y" "dm_len m = length pre" "length s < 2 ^ 31"
  shows "destor_cmd_read_string be m = Some (s @ [0], m\<lparr>dm_len := length pre + length (string_bytes s)\<rparr>)"
proof -
  have 1: "destor_cmd_read_int be m = Some (int (length s), m\<lparr>dm_len := length pre + 4\<rparr>)"
    using read_int_ok(1) [of m pre "of_nat (length s)" "s @ y" be] assms sint_length by (simp add: string_bytes_def)
  have "mem_read ((pre @ net_bytes (of_nat (length s))) @ s @ y) (length pre + 4) (length s) = Some s" by (rule mem_read_mid) simp_all
  with 1 assms(1) show ?thesis by (simp add: destor_cmd_read_string_def string_bytes_def)
qed

definition job_command :: "int \<Rightarrow> byte list \<Rightarrow> 32 word \<Rightarrow> byte list" where
  "job_command t s w = net_bytes (word_of_int t) @ string_bytes s @ net_bytes w"

lemma length_string_bytes [simp]: "length (string_bytes s) = 4 + length s"
  by (simp add: string_bytes_def)

lemma build_ok:
  assumes "12 + length s \<le> MAX_COMMAND_LEN"
  shows "\<exists>c. buildType0 be t s w new_command = Some c \<and> holds c (job_command t s w)"
    "\<exists>c. buildType1 be t s w new_command = Some c \<and> holds c (job_command t s w)"
proof -
  from writeInt_ok [OF holds_new, of be t] obtain c1 where 1: "writeInt be t new_command = Some c1" "holds c1 (net_bytes (word_of_int t))" by auto
  from writeString_ok [OF 1(2), of s be] assms obtain c2 where
    2: "writeString be s c1 = Some c2" "holds c2 (net_bytes (word_of_int t) @ string_bytes s)" by auto
  from writeUInt_ok [OF 2(2), of be w] assms obtain c3 where
    3: "writeUInt be w c2 = Some c3" "holds c3 (job_command t s w)" by (auto simp: job_command_def)
  from 1 2 3 show "\<exists>c. buildType0 be t s w new_command = Some c \<and> holds c (job_command t s w)"
    "\<exists>c. buildType1 be t s w new_command = Some c \<and> holds c (job_command t s w)" by (simp_all add: buildType0_def buildType1_def)
qed

text \<open>A name that does not fit is written past the end of the buffer.\<close>

lemma build_overflow:
  assumes "MAX_COMMAND_LEN < 12 + length s"
  shows "buildType0 be t s w new_command = None" "buildType1 be t s w new_command = None"
proof -
  from writeInt_ok [OF holds_new, of be t] obtain c1 where 1: "writeInt be t new_command = Some c1" "holds c1 (net_bytes (word_of_int t))" by auto
  have "(do { c \<leftarrow> writeString be s c1; writeUInt be w c }) = None"
  proof (cases "8 + length s \<le> MAX_COMMAND_LEN")
    case True
    with writeString_ok [OF 1(2), of s be] obtain c2 where
      2: "writeString be s c1 = Some c2" "holds c2 (net_bytes (word_of_int t) @ string_bytes s)" by auto
    with assms show ?thesis by (auto simp: writeUInt_def net_bytes_mem intro: cmd_copy_full)
  next
    case False
    from cmd_copy_ok [OF 1(2), of "net_bytes (of_nat (length s))"] obtain c2 where
      2: "cmd_copy (net_bytes (of_nat (length s))) c1 = Some c2" "holds c2 (net_bytes (word_of_int t) @ net_bytes (of_nat (length s)))" by auto
    with False cmd_copy_full [OF 2(2), of s] show ?thesis by (simp add: writeString_def net_bytes_mem)
  qed
  with 1(1) show "buildType0 be t s w new_command = None" "buildType1 be t s w new_command = None" by (simp_all add: buildType0_def buildType1_def)
qed

lemma resolve_ok:
  assumes "dm_cmd m = net_bytes x @ string_bytes s @ net_bytes w @ [0]" "dm_len m = 4" "length s < 2 ^ 31"
  shows "resolve_destor_command_type0 be m = Some (m\<lparr>dm_group_name := s @ [0], dm_len := 12 + length s, dm_size := w\<rparr>)"
    "resolve_destor_command_type1 be m = Some (m\<lparr>dm_to_read_filename := s @ [0], dm_len := 12 + length s, dm_client_ip := w\<rparr>)"
proof -
  have r: "destor_cmd_read_string be m = Some (s @ [0], m\<lparr>dm_len := 8 + length s\<rparr>)"
    using read_string_ok [of m "net_bytes x" s "net_bytes w @ [0]" be] assms by simp
  have u: "destor_cmd_read_uint be m' = Some (w, m'\<lparr>dm_len := 12 + length s\<rparr>)" if "dm_cmd m' = dm_cmd m" "dm_len m' = 8 + length s" for m'
    using read_int_ok(2) [of m' "net_bytes x @ string_bytes s" w "[0]" be] that assms(1) by simp
  from r u show "resolve_destor_command_type0 be m = Some (m\<lparr>dm_group_name := s @ [0], dm_len := 12 + length s, dm_size := w\<rparr>)"
    "resolve_destor_command_type1 be m = Some (m\<lparr>dm_to_read_filename := s @ [0], dm_len := 12 + length s, dm_client_ip := w\<rparr>)"
    by (simp_all add: resolve_destor_command_type0_def resolve_destor_command_type1_def)
qed

lemma process_command:
  assumes "length s < 2 ^ 31" "0 \<notin> set s"
  shows "destor_server_process be (Reply_element (job_command 0 s w @ [0])) = Some (Destor_write s w)"
    "destor_server_process be (Reply_element (job_command 1 s w @ [0])) = Some (Destor_read w s)"
proof -
  have s: "takeWhile (\<lambda>b. b \<noteq> 0) (s @ [0]) = s" using assms(2) by (subst takeWhile_append2) auto
  have r: "destor_cmd_read_int be (calloc_cmd\<lparr>dm_cmd := job_command t s w @ [0], dm_len := 0\<rparr>) =
      Some (sint (word_of_int t :: 32 word), calloc_cmd\<lparr>dm_cmd := job_command t s w @ [0], dm_len := 4\<rparr>)" for t
    using read_int_ok(1) [of _ "[]"] by (simp add: job_command_def)
  show "destor_server_process be (Reply_element (job_command 0 s w @ [0])) = Some (Destor_write s w)"
    using resolve_ok(1) [of "calloc_cmd\<lparr>dm_cmd := job_command 0 s w @ [0], dm_len := 4, dm_type := 0\<rparr>" "word_of_int 0" s w be] assms(1) r [of 0] s
    by (auto simp: destor_server_process_def destor_cmd_init_with_reqstr_def job_command_def Let_def)
  show "destor_server_process be (Reply_element (job_command 1 s w @ [0])) = Some (Destor_read w s)"
    using resolve_ok(2) [of "calloc_cmd\<lparr>dm_cmd := job_command 1 s w @ [0], dm_len := 4, dm_type := 1\<rparr>" "word_of_int 1" s w be] assms(1) r [of 1] s
    by (auto simp: destor_server_process_def destor_cmd_init_with_reqstr_def job_command_def Let_def)
qed

text \<open>C11: a request of the client is the request the server serves. For hosts of any byte order, a command to
  write a group or to read a file that fits the buffer is built, and the server that receives its bytes
  writes the group of that name and size, or reads that file for that client. A name that does not fit
  is copied past the end of the buffer.\<close>

theorem command_served:
  assumes "0 \<notin> set name"
  shows "if 12 + length name \<le> MAX_COMMAND_LEN
     then (\<exists>c. buildType0 cbe 0 name w new_command = Some c \<and> destor_server_process sbe (Reply_element (sent c)) = Some (Destor_write name w))
        \<and> (\<exists>c. buildType1 cbe 1 name w new_command = Some c \<and> destor_server_process sbe (Reply_element (sent c)) = Some (Destor_read w name))
     else buildType0 cbe 0 name w new_command = None \<and> buildType1 cbe 1 name w new_command = None"
proof (cases "12 + length name \<le> MAX_COMMAND_LEN")
  case True
  then have l: "length name < 2 ^ 31" by simp
  show ?thesis using True build_ok [OF True, where be = cbe and w = w] holds_sent process_command [OF l assms, of sbe w] by fastforce
next
  case False
  then show ?thesis using build_overflow [of name] by simp
qed

theorem command_served_witness:
  "\<exists>c. buildType0 False 0 [102, 48] 5 new_command = Some c \<and> destor_server_process True (Reply_element (sent c)) = Some (Destor_write [102, 48] 5)"
  using command_served [of "[102, 48]" False 5 True] by simp

section \<open>Requests to the client\<close>

lemma agent_read_ok:
  "agent_readInt be (pre @ net_bytes w @ y, length pre) = Some (sint w, pre @ net_bytes w @ y, length pre + 4)"
  "length s < 2 ^ 31 \<Longrightarrow> 0 \<notin> set s \<Longrightarrow>
     agent_readString be (pre @ string_bytes s @ y, length pre) = Some (s, pre @ string_bytes s @ y, length pre + length (string_bytes s))"
proof -
  show i: "agent_readInt be (pre @ net_bytes w @ y, length pre) = Some (sint w, pre @ net_bytes w @ y, length pre + 4)" for pre w y
    by (simp add: agent_readInt_def mem_read_mid read_net_bytes)
  assume s: "length s < 2 ^ 31" "0 \<notin> set s"
  have "mem_read ((pre @ net_bytes (of_nat (length s))) @ s @ y) (length pre + 4) (length s) = Some s" by (rule mem_read_mid) simp_all
  moreover have "takeWhile (\<lambda>b. b \<noteq> 0) s = s" using s(2) by (simp add: takeWhile_eq_all_conv) metis
  ultimately show "agent_readString be (pre @ string_bytes s @ y, length pre) = Some (s, pre @ string_bytes s @ y, length pre + length (string_bytes s))"
    using i [of pre "of_nat (length s)" "s @ y"] sint_length [OF s(1)] by (simp add: agent_readString_def string_bytes_def)
qed

lemma agent_build_ok:
  assumes "16 + length p + length s \<le> MAX_COMMAND_LEN"
  shows "\<exists>c. agent_buildType0 be t p s n new_command = Some c \<and> holds c (net_bytes (word_of_int t) @ string_bytes p @ string_bytes s @ net_bytes (word_of_int n))"
    "\<exists>c. agent_buildType1 be t p s new_command = Some c \<and> holds c (net_bytes (word_of_int t) @ string_bytes p @ string_bytes s)"
proof -
  from writeInt_ok [OF holds_new, of be t] obtain c1 where 1: "writeInt be t new_command = Some c1" "holds c1 (net_bytes (word_of_int t))" by auto
  from writeString_ok [OF 1(2), of p be] assms obtain c2 where
    2: "writeString be p c1 = Some c2" "holds c2 (net_bytes (word_of_int t) @ string_bytes p)" by auto
  from writeString_ok [OF 2(2), of s be] assms obtain c3 where
    3: "writeString be s c2 = Some c3" "holds c3 (net_bytes (word_of_int t) @ string_bytes p @ string_bytes s)" by auto
  from writeInt_ok [OF 3(2), of be n] 1 2 3 assms
  show "\<exists>c. agent_buildType0 be t p s n new_command = Some c \<and> holds c (net_bytes (word_of_int t) @ string_bytes p @ string_bytes s @ net_bytes (word_of_int n))"
    "\<exists>c. agent_buildType1 be t p s new_command = Some c \<and> holds c (net_bytes (word_of_int t) @ string_bytes p @ string_bytes s)"
    by (auto simp: agent_buildType0_def agent_buildType1_def)
qed

lemma agent_request_read:
  assumes "16 + length p + length s \<le> MAX_COMMAND_LEN" "0 \<notin> set p" "0 \<notin> set s" "int32_range n"
  shows "\<exists>c. agent_buildType0 cbe 0 p s n new_command = Some c
       \<and> AgentCommand sbe (sent c) a = Some (a\<lparr>ag_type := 0, ag_filepath := p, ag_filesaveas := s, ag_filesize := n\<rparr>)"
    "\<exists>c. agent_buildType1 cbe 1 p s new_command = Some c
       \<and> AgentCommand sbe (sent c) a = Some (a\<lparr>ag_type := 1, ag_to_read_filename := p, ag_to_save_as := s\<rparr>)"
proof -
  have l: "length p < 2 ^ 31" "length s < 2 ^ 31" using assms(1) by simp_all
  have n: "sint (word_of_int n :: 32 word) = n" using assms(4) by (intro sint_int_32) (simp_all add: int32_range_def)
  note rs = agent_read_ok(2) [OF l(1) assms(2)] agent_read_ok(2) [OF l(2) assms(3)]
  have w: "word_of_int 0 = (0 :: 32 word)" "word_of_int 1 = (1 :: 32 word)" by simp_all
  from agent_build_ok(1) [OF assms(1), of cbe 0 n] obtain c where
    c: "agent_buildType0 cbe 0 p s n new_command = Some c" "holds c (net_bytes 0 @ string_bytes p @ string_bytes s @ net_bytes (word_of_int n))"
    unfolding w by blast
  have "AgentCommand sbe (sent c) a = Some (a\<lparr>ag_type := 0, ag_filepath := p, ag_filesaveas := s, ag_filesize := n\<rparr>)"
    using agent_read_ok(1) [of sbe "[]" 0 "string_bytes p @ string_bytes s @ net_bytes (word_of_int n) @ [0]"]
      rs(1) [of sbe "net_bytes 0" "string_bytes s @ net_bytes (word_of_int n) @ [0]"]
      rs(2) [of sbe "net_bytes 0 @ string_bytes p" "net_bytes (word_of_int n) @ [0]"]
      agent_read_ok(1) [of sbe "net_bytes 0 @ string_bytes p @ string_bytes s" "word_of_int n" "[0]"] n
    by (simp add: holds_sent [OF c(2)] AgentCommand_def agent_resolveType0_def Let_def add.assoc)
  with c(1) show "\<exists>c. agent_buildType0 cbe 0 p s n new_command = Some c
       \<and> AgentCommand sbe (sent c) a = Some (a\<lparr>ag_type := 0, ag_filepath := p, ag_filesaveas := s, ag_filesize := n\<rparr>)" by blast
  from agent_build_ok(2) [OF assms(1), of cbe 1] obtain c where
    c: "agent_buildType1 cbe 1 p s new_command = Some c" "holds c (net_bytes 1 @ string_bytes p @ string_bytes s)" unfolding w by blast
  have "AgentCommand sbe (sent c) a = Some (a\<lparr>ag_type := 1, ag_to_read_filename := p, ag_to_save_as := s\<rparr>)"
    using agent_read_ok(1) [of sbe "[]" 1 "string_bytes p @ string_bytes s @ [0]"] rs(1) [of sbe "net_bytes 1" "string_bytes s @ [0]"]
      rs(2) [of sbe "net_bytes 1 @ string_bytes p" "[0]"]
    by (simp add: holds_sent [OF c(2)] AgentCommand_def agent_resolveType1_def Let_def add.assoc)
  with c(1) show "\<exists>c. agent_buildType1 cbe 1 p s new_command = Some c
       \<and> AgentCommand sbe (sent c) a = Some (a\<lparr>ag_type := 1, ag_to_read_filename := p, ag_to_save_as := s\<rparr>)" by blast
qed

end
