(* ===== verification/Task_Codec.thy ===== *)
theory Task_Codec
  imports Ecdag Commands
begin

text \<open>
  The messages of the storage service (\<^verbatim>\<open>storage/src\<close>): a task travels from the coordinator to a worker as the bytes that
  \<open>buildType2\<close> of \<^verbatim>\<open>ec/ECTask.cc\<close> writes and the constructor reads, the instruction for a degraded read as those that
  \<open>onlineDegradedInst\<close> of \<^verbatim>\<open>common/Coordinator.cc\<close> writes and \<open>readOnline\<close> of \<^verbatim>\<open>common/OECWorker.cc\<close> reads. The hosts may
  differ in their byte order.
\<close>

section \<open>Tasks\<close>

abbreviation TASK_COMMAND_LEN :: nat where "TASK_COMMAND_LEN \<equiv> 8192"

definition new_task_command :: command where
  "new_task_command = \<lparr>cmd_buf = replicate TASK_COMMAND_LEN 0, cmd_len = 0\<rparr>"

definition task_writeInt :: "bool \<Rightarrow> int \<Rightarrow> command \<Rightarrow> command option" where
  "task_writeInt be v c = cmd_copy (mem_bytes be 4 (htonl be (word_of_int v))) c"

fun task_writeInts :: "bool \<Rightarrow> int list \<Rightarrow> command \<Rightarrow> command option" where
  "task_writeInts be [] c = Some c"
| "task_writeInts be (v # vs) c = do { c \<leftarrow> task_writeInt be v c; task_writeInts be vs c }"

fun write_coefs :: "bool \<Rightarrow> (nat \<times> byte list) list \<Rightarrow> command \<Rightarrow> command option" where
  "write_coefs be [] c = Some c"
| "write_coefs be ((target, coef) # m) c = do {
     c \<leftarrow> task_writeInt be (int target) c;
     c \<leftarrow> task_writeInt be (int (length coef)) c;
     c \<leftarrow> task_writeInts be (map uint coef) c;
     write_coefs be m c
   }"

definition task_buildType2 :: "bool \<Rightarrow> ectask \<Rightarrow> command \<Rightarrow> command option" where
  "task_buildType2 be t c = do {
     c \<leftarrow> task_writeInt be 2 c;
     c \<leftarrow> task_writeInt be (int (length (et_children t))) c;
     c \<leftarrow> task_writeInts be (map int (et_children t)) c;
     c \<leftarrow> task_writeInt be (int (length (et_coefs t))) c;
     write_coefs be (et_coefs t) c
   }"

text \<open>A coefficient is used as a \<open>char\<close>. An \<open>insert\<close> of a key that is there changes nothing.\<close>

definition task_readInt :: "bool \<Rightarrow> byte list \<times> nat \<Rightarrow> (int \<times> byte list \<times> nat) option" where
  "task_readInt be = (\<lambda>(cmd, pos). do {
     bs \<leftarrow> mem_read cmd pos 4;
     Some (sint (htonl be (mem_word be bs :: 32 word)), cmd, pos + 4)
   })"

fun task_readInts :: "bool \<Rightarrow> nat \<Rightarrow> byte list \<times> nat \<Rightarrow> (int list \<times> byte list \<times> nat) option" where
  "task_readInts be 0 s = Some ([], s)"
| "task_readInts be (Suc n) s = do {
     (v, s) \<leftarrow> task_readInt be s;
     (vs, s) \<leftarrow> task_readInts be n s;
     Some (v # vs, s)
   }"

fun read_coefs :: "bool \<Rightarrow> nat \<Rightarrow> (nat \<times> byte list) list \<Rightarrow> byte list \<times> nat \<Rightarrow> ((nat \<times> byte list) list \<times> byte list \<times> nat) option" where
  "read_coefs be 0 m s = Some (m, s)"
| "read_coefs be (Suc n) m s = do {
     (target, s) \<leftarrow> task_readInt be s;
     (coefnum, s) \<leftarrow> task_readInt be s;
     (coef, s) \<leftarrow> task_readInts be (nat coefnum) s;
     read_coefs be n (if map_of m (nat target) = None then m @ [(nat target, map word_of_int coef)] else m) s
   }"

definition resolveType2 :: "bool \<Rightarrow> byte list \<times> nat \<Rightarrow> ectask option" where
  "resolveType2 be s = do {
     (numchildren, s) \<leftarrow> task_readInt be s;
     (children, s) \<leftarrow> task_readInts be (nat numchildren) s;
     (targetnum, s) \<leftarrow> task_readInt be s;
     (m, s) \<leftarrow> read_coefs be (nat targetnum) [] s;
     Some \<lparr>et_children = map nat children, et_coefs = m\<rparr>
   }"

definition ECTask :: "bool \<Rightarrow> byte list \<Rightarrow> ectask option" where
  "ECTask be reqStr = do {
     (t, s) \<leftarrow> task_readInt be (reqStr, 0);
     if t = 2 then resolveType2 be s else Some \<lparr>et_children = [], et_coefs = []\<rparr>
   }"

text \<open>The tasks of a list, each under a key of its own.\<close>

fun transmit_tasks :: "bool \<Rightarrow> bool \<Rightarrow> ectask list \<Rightarrow> ectask list option" where
  "transmit_tasks cbe be [] = Some []"
| "transmit_tasks cbe be (t # ts) = do {
     c \<leftarrow> task_buildType2 cbe t new_task_command;
     t \<leftarrow> ECTask be (sent c);
     ts \<leftarrow> transmit_tasks cbe be ts;
     Some (t # ts)
   }"

section \<open>The instruction for a degraded read\<close>

definition build_instruction :: "bool \<Rightarrow> nat list \<Rightarrow> nat \<Rightarrow> command option" where
  "build_instruction be loadidx computen = do {
     c \<leftarrow> task_writeInt be (int (length loadidx)) \<lparr>cmd_buf = replicate 1024 0, cmd_len = 0\<rparr>;
     c \<leftarrow> task_writeInts be (map int loadidx) c;
     task_writeInt be (int computen) c
   }"

definition read_instruction :: "bool \<Rightarrow> byte list \<Rightarrow> (nat list \<times> nat) option" where
  "read_instruction be inststr = do {
     (loadn, s) \<leftarrow> task_readInt be (inststr, 0);
     (loadidx, s) \<leftarrow> task_readInts be (nat loadn) s;
     (computen, s) \<leftarrow> task_readInt be s;
     Some (map nat loadidx, nat computen)
   }"

section \<open>What is written\<close>

definition buffer_holds :: "nat \<Rightarrow> command \<Rightarrow> byte list \<Rightarrow> bool" where
  "buffer_holds m c bs = (length (cmd_buf c) = m \<and> cmd_len c = length bs \<and> length bs \<le> m \<and> take (length bs) (cmd_buf c) = bs)"

definition int_bytes :: "int list \<Rightarrow> byte list" where
  "int_bytes vs = concat (map (\<lambda>v. net_bytes (word_of_int v)) vs)"

lemma int_bytes_simps [simp]: "int_bytes [] = []" "int_bytes (v # vs) = net_bytes (word_of_int v) @ int_bytes vs"
    "int_bytes (us @ vs) = int_bytes us @ int_bytes vs" "length (int_bytes vs) = 4 * length vs"
  by (induction vs) (auto simp: int_bytes_def)

lemma writeInts_append: "task_writeInts be (us @ vs) c = do { c \<leftarrow> task_writeInts be us c; task_writeInts be vs c }"
  by (induction us arbitrary: c) (auto split: Option.bind_splits)

lemma writeInts_ok:
  assumes "buffer_holds m c bs"
  shows "if length bs + 4 * length vs \<le> m then \<exists>c'. task_writeInts be vs c = Some c' \<and> buffer_holds m c' (bs @ int_bytes vs)
     else task_writeInts be vs c = None"
  using assms
proof (induction vs arbitrary: c bs)
  case (Cons v vs)
  show ?case
  proof (cases "length bs + 4 \<le> m")
    case True
    then have "\<exists>c1. task_writeInt be v c = Some c1 \<and> buffer_holds m c1 (bs @ net_bytes (word_of_int v))"
      using Cons.prems by (auto simp: task_writeInt_def net_bytes_mem buffer_holds_def cmd_copy_def mem_write_def)
    then obtain c1 where c1: "task_writeInt be v c = Some c1" "buffer_holds m c1 (bs @ net_bytes (word_of_int v))" by blast
    from Cons.IH [OF c1(2)] c1(1) show ?thesis by auto
  next
    case False
    then have "task_writeInt be v c = None"
      using Cons.prems by (simp add: task_writeInt_def net_bytes_mem buffer_holds_def cmd_copy_def mem_write_def)
    then show ?thesis using False by simp
  qed
qed (simp add: buffer_holds_def)

definition coef_ints :: "(nat \<times> byte list) list \<Rightarrow> int list" where
  "coef_ints m = concat (map (\<lambda>(target, coef). int target # int (length coef) # map uint coef) m)"

definition task_ints :: "ectask \<Rightarrow> int list" where
  "task_ints t = 2 # int (length (et_children t)) # map int (et_children t) @ int (length (et_coefs t)) # coef_ints (et_coefs t)"

lemma writeInts_Cons: "task_writeInts be (v # vs) = (\<lambda>c. do { c \<leftarrow> task_writeInt be v c; task_writeInts be vs c })"
  by (simp add: fun_eq_iff)

lemma write_coefs_ints: "write_coefs be m = task_writeInts be (coef_ints m)"
proof (induction m)
  case (Cons x m)
  show ?case
    by (rule ext, cases x) (simp add: Cons coef_ints_def writeInts_append writeInts_Cons del: task_writeInts.simps(2))
qed (simp add: fun_eq_iff coef_ints_def)

lemma build_ints: "task_buildType2 be t c = task_writeInts be (task_ints t) c"
  by (simp add: task_buildType2_def task_ints_def writeInts_append writeInts_Cons write_coefs_ints del: task_writeInts.simps(2))

section \<open>What is read\<close>

definition reader_at :: "byte list \<times> nat \<Rightarrow> int list \<Rightarrow> bool" where
  "reader_at s vs = (snd s \<le> length (fst s) \<and> (\<exists>tail. drop (snd s) (fst s) = int_bytes vs @ tail))"

lemma readInt_ok:
  assumes "reader_at s (v # vs)" "int32_range v"
  obtains s' where "task_readInt be s = Some (v, s')" "reader_at s' vs"
proof -
  obtain cmd pos where s: "s = (cmd, pos)" by fastforce
  from assms(1) obtain tail where t: "pos \<le> length cmd" "drop pos cmd = net_bytes (word_of_int v) @ int_bytes vs @ tail"
    by (auto simp: reader_at_def s)
  have l: "pos + 4 \<le> length cmd" using arg_cong [OF t(2), of length] t(1) by simp
  have "mem_read cmd pos 4 = Some (net_bytes (word_of_int v))" using l t(2) by (simp add: mem_read_def)
  moreover have "drop (pos + 4) cmd = int_bytes vs @ tail" using t(2) by (metis add.commute append_eq_conv_conj drop_drop length_net_bytes)
  moreover have "sint (word_of_int v :: 32 word) = v" using assms(2) by (intro sint_int_32) (simp_all add: int32_range_def)
  ultimately have "task_readInt be s = Some (v, cmd, pos + 4)" "reader_at (cmd, pos + 4) vs"
    using l by (auto simp: task_readInt_def s read_net_bytes reader_at_def)
  then show thesis by (rule that)
qed

lemma readInts_ok:
  assumes "reader_at s (us @ vs)" "\<forall>v \<in> set us. int32_range v"
  obtains s' where "task_readInts be (length us) s = Some (us, s')" "reader_at s' vs"
proof -
  have "\<exists>s'. task_readInts be (length us) s = Some (us, s') \<and> reader_at s' vs"
    using assms
  proof (induction us arbitrary: s)
    case (Cons u us)
    have "reader_at s (u # us @ vs)" "int32_range u" using Cons.prems by simp_all
    then obtain s1 where s1: "task_readInt be s = Some (u, s1)" "reader_at s1 (us @ vs)" by (rule readInt_ok)
    from Cons.IH [OF s1(2)] Cons.prems(2) s1(1) show ?case by auto
  qed simp
  then show thesis using that by blast
qed

text \<open>The numbers of a task fit.\<close>

definition task_fits :: "ectask \<Rightarrow> bool" where
  "task_fits t = (length (et_children t) < 2 ^ 31 \<and> length (et_coefs t) < 2 ^ 31 \<and> (\<forall>c \<in> set (et_children t). c < 2 ^ 31)
     \<and> distinct (map fst (et_coefs t)) \<and> (\<forall>(i, co) \<in> set (et_coefs t). i < 2 ^ 31 \<and> length co < 2 ^ 31))"

lemma int32_nat: "n < 2 ^ 31 \<Longrightarrow> int32_range (int n)"
  by (simp add: int32_range_def)

lemma int32_byte: "int32_range (uint b)" for b :: byte
  using uint_lt2p [of b] by (simp add: int32_range_def order_trans [OF _ uint_ge_0])

lemma read_coefs_ok:
  assumes "reader_at s (coef_ints m @ vs)" "distinct (map fst (m0 @ m))" "\<forall>(i, co) \<in> set m. i < 2 ^ 31 \<and> length co < 2 ^ 31"
  shows "\<exists>s'. read_coefs be (length m) m0 s = Some (m0 @ m, s')"
  using assms
proof (induction m arbitrary: m0 s)
  case (Cons x m)
  obtain i co where x: "x = (i, co)" by fastforce
  have r: "int32_range (int i)" "int32_range (int (length co))" "\<forall>v \<in> set (map uint co). int32_range v"
    using Cons.prems(3) x int32_nat int32_byte by auto
  have "reader_at s (int i # int (length co) # map uint co @ coef_ints m @ vs)" using Cons.prems(1) x by (simp add: coef_ints_def)
  then obtain s1 where s1: "task_readInt be s = Some (int i, s1)" "reader_at s1 (int (length co) # map uint co @ coef_ints m @ vs)"
    using r(1) by (rule readInt_ok)
  from s1(2) r(2) obtain s2 where s2: "task_readInt be s1 = Some (int (length co), s2)" "reader_at s2 (map uint co @ coef_ints m @ vs)" by (rule readInt_ok)
  from s2(2) r(3) obtain s3 where s3: "task_readInts be (length (map uint co)) s2 = Some (map uint co, s3)" "reader_at s3 (coef_ints m @ vs)" by (rule readInts_ok)
  have "map_of m0 i = None" using Cons.prems(2) x by (auto simp: map_of_eq_None_iff)
  moreover have "map (word_of_int :: int \<Rightarrow> byte) (map uint co) = co" by (simp add: comp_def)
  moreover have "\<exists>s'. read_coefs be (length m) ((m0 @ [(i, co)])) s3 = Some ((m0 @ [(i, co)]) @ m, s')"
    by (rule Cons.IH [OF s3(2)]) (use Cons.prems(2,3) x in auto)
  ultimately show ?case using s1(1) s2(1) s3(1) x by (auto simp del: map_map)
qed simp

lemma task_read:
  assumes "task_fits t"
  shows "ECTask be (int_bytes (task_ints t) @ tail) = Some t"
proof -
  have "reader_at (int_bytes (task_ints t) @ tail, 0) (task_ints t)" by (auto simp: reader_at_def)
  then have "reader_at (int_bytes (task_ints t) @ tail, 0)
      (2 # int (length (et_children t)) # map int (et_children t) @ int (length (et_coefs t)) # coef_ints (et_coefs t) @ [])" by (simp add: task_ints_def)
  moreover have "int32_range 2" by (simp add: int32_range_def)
  ultimately obtain s1 where s1: "task_readInt be (int_bytes (task_ints t) @ tail, 0) = Some (2, s1)"
    "reader_at s1 (int (length (et_children t)) # map int (et_children t) @ int (length (et_coefs t)) # coef_ints (et_coefs t) @ [])" by (rule readInt_ok)
  have r: "int32_range (int (length (et_children t)))" "\<forall>v \<in> set (map int (et_children t)). int32_range v" "int32_range (int (length (et_coefs t)))"
    using assms int32_nat by (auto simp: task_fits_def)
  from s1(2) r(1) obtain s2 where s2: "task_readInt be s1 = Some (int (length (et_children t)), s2)"
    "reader_at s2 (map int (et_children t) @ int (length (et_coefs t)) # coef_ints (et_coefs t) @ [])" by (rule readInt_ok)
  from s2(2) r(2) obtain s3 where s3: "task_readInts be (length (map int (et_children t))) s2 = Some (map int (et_children t), s3)"
    "reader_at s3 (int (length (et_coefs t)) # coef_ints (et_coefs t) @ [])" by (rule readInts_ok)
  from s3(2) r(3) obtain s4 where s4: "task_readInt be s3 = Some (int (length (et_coefs t)), s4)" "reader_at s4 (coef_ints (et_coefs t) @ [])" by (rule readInt_ok)
  from read_coefs_ok [OF s4(2), of "[]" be] assms(1) obtain s5 where "read_coefs be (length (et_coefs t)) [] s4 = Some (et_coefs t, s5)"
    by (auto simp: task_fits_def)
  then show ?thesis using s1(1) s2(1) s3(1) s4(1) by (simp add: ECTask_def resolveType2_def comp_def)
qed

section \<open>Messages arrive\<close>

lemma task_arrives:
  assumes "task_fits t" "4 * length (task_ints t) \<le> TASK_COMMAND_LEN"
  shows "\<exists>c. task_buildType2 cbe t new_task_command = Some c \<and> ECTask be (sent c) = Some t"
proof -
  have h: "buffer_holds TASK_COMMAND_LEN new_task_command []" by (simp add: buffer_holds_def new_task_command_def)
  obtain c where "task_buildType2 cbe t new_task_command = Some c" "buffer_holds TASK_COMMAND_LEN c (int_bytes (task_ints t))"
    using writeInts_ok [OF h, of "task_ints t" cbe] assms(2) by (auto simp: build_ints)
  moreover from this(2) have "sent c = int_bytes (task_ints t) @ [0]" by (simp add: buffer_holds_def sent_def)
  ultimately show ?thesis using task_read [OF assms(1), of be "[0]"] by auto
qed

text \<open>C21: A task of the coordinator is the task the worker computes, whatever the byte orders of the two hosts: if its
  numbers take at most 8192 bytes, \<open>buildType2\<close> writes them and the constructor of \<open>ECTask\<close> reads the same children and
  coefficients. A longer task is written past the end of the buffer, since the length is not checked.\<close>

theorem task_travels:
  assumes "task_fits t"
  shows "if 4 * length (task_ints t) \<le> TASK_COMMAND_LEN
     then \<exists>c. task_buildType2 cbe t new_task_command = Some c \<and> ECTask be (sent c) = Some t
     else task_buildType2 cbe t new_task_command = None"
proof (cases "4 * length (task_ints t) \<le> TASK_COMMAND_LEN")
  case True
  then show ?thesis using task_arrives [OF assms True] by simp
next
  case False
  have "buffer_holds TASK_COMMAND_LEN new_task_command []" by (simp add: buffer_holds_def new_task_command_def)
  from writeInts_ok [OF this, of "task_ints t" cbe] False show ?thesis by (simp add: build_ints)
qed

theorem task_travels_witness:
  "\<exists>c. task_buildType2 False \<lparr>et_children = [0, 1], et_coefs = [(2, [1, 255])]\<rparr> new_task_command = Some c
     \<and> ECTask True (sent c) = Some \<lparr>et_children = [0, 1], et_coefs = [(2, [1, 255])]\<rparr>"
  using task_travels [of "\<lparr>et_children = [0, 1], et_coefs = [(2, [1, 255])]\<rparr>" False True]
  by (simp add: task_fits_def task_ints_def coef_ints_def)

lemma small_task_fits: "small_task b k t \<Longrightarrow> b \<le> 2 ^ 31 \<Longrightarrow> k \<le> 1021 \<Longrightarrow> task_fits t \<and> 4 * length (task_ints t) \<le> TASK_COMMAND_LEN"
  by (auto simp: small_task_def task_fits_def task_ints_def coef_ints_def)

lemma transmit_ok:
  assumes "b \<le> 2 ^ 31" "k \<le> 1021" "\<forall>t \<in> set ts. small_task b k t"
  shows "transmit_tasks cbe be ts = Some ts"
  using assms(3)
proof (induction ts)
  case (Cons t ts)
  have f: "task_fits t" "4 * length (task_ints t) \<le> TASK_COMMAND_LEN" using small_task_fits [OF _ assms(1,2)] Cons.prems by auto
  from task_arrives [OF f, of cbe be] Cons show ?case by auto
qed simp

lemma instruction_arrives:
  assumes "length load \<le> 254" "\<forall>i \<in> set load. i < 2 ^ 31" "m < 2 ^ 31"
  shows "\<exists>c. build_instruction cbe load m = Some c \<and> read_instruction be (sent c) = Some (load, m)"
proof -
  let ?vs = "int (length load) # map int load @ [int m]"
  have h: "buffer_holds 1024 \<lparr>cmd_buf = replicate 1024 0, cmd_len = 0\<rparr> []" by (simp add: buffer_holds_def)
  have b: "build_instruction cbe load m = task_writeInts cbe ?vs \<lparr>cmd_buf = replicate 1024 0, cmd_len = 0\<rparr>"
    by (simp add: build_instruction_def writeInts_append writeInts_Cons del: task_writeInts.simps(2))
  from writeInts_ok [OF h, of ?vs cbe] assms(1) obtain c where c: "build_instruction cbe load m = Some c" "buffer_holds 1024 c (int_bytes ?vs)"
    unfolding b by auto
  then have s: "reader_at (sent c, 0) ?vs" by (auto simp: reader_at_def buffer_holds_def sent_def)
  have r: "int32_range (int (length load))" "\<forall>v \<in> set (map int load). int32_range v" "int32_range (int m)" using assms int32_nat by auto
  from s r(1) obtain s1 where s1: "task_readInt be (sent c, 0) = Some (int (length load), s1)" "reader_at s1 (map int load @ [int m])" by (rule readInt_ok)
  from s1(2) r(2) obtain s2 where s2: "task_readInts be (length (map int load)) s1 = Some (map int load, s2)" "reader_at s2 [int m]" by (rule readInts_ok)
  from s2(2) r(3) obtain s3 where s3: "task_readInt be s2 = Some (int m, s3)" by (rule readInt_ok)
  show ?thesis using c(1) s1(1) s2(1) s3 by (simp add: read_instruction_def comp_def)
qed

end
