(* ===== verification/Erasure_Code.thy ===== *)
theory Erasure_Code
  imports Ecdag
begin

unbundle bit_operations_syntax

text \<open>
  Erasure coding of a file that is written and read online (\<^verbatim>\<open>storage/src\<close>: \<^verbatim>\<open>ec/RSCONV.cc\<close>, \<^verbatim>\<open>ec/Computation.cc\<close>,
  \<^verbatim>\<open>registerOnlineEC\<close> and \<^verbatim>\<open>onlineDegradedInst\<close> of \<^verbatim>\<open>common/Coordinator.cc\<close>, the compute workers of
  \<^verbatim>\<open>common/OECWorker.cc\<close>): the Reed-Solomon code, the tasks that the coordinator makes of it, and what a worker does to the
  packets of a stripe. ISA-L, with which the workers compute, is a parameter. A buffer is a list of bytes under the
  identifier of its sub-block; a packet is the sub-blocks of a block one after the other.
\<close>

section \<open>Computation\<close>

fun dotprod_copy :: "gf \<Rightarrow> byte list \<Rightarrow> byte list list \<Rightarrow> bool \<times> byte list \<Rightarrow> bool \<times> byte list" where
  "dotprod_copy F (c # cs) (s # ss) (init, dptr) =
     dotprod_copy F cs ss (if c = 1 then (True, if init then galois_region_xor F s dptr else s) else (init, dptr))"
| "dotprod_copy F _ _ r = r"

fun dotprod_multiply :: "gf \<Rightarrow> byte list \<Rightarrow> byte list list \<Rightarrow> bool \<times> byte list \<Rightarrow> bool \<times> byte list" where
  "dotprod_multiply F (c # cs) (s # ss) (init, dptr) =
     dotprod_multiply F cs ss (if c \<noteq> 0 \<and> c \<noteq> 1 then (True, galois_w08_region_multiply F s c dptr init) else (init, dptr))"
| "dotprod_multiply F _ _ r = r"

definition jerasure_matrix_dotprod :: "gf \<Rightarrow> byte list \<Rightarrow> byte list list \<Rightarrow> byte list \<Rightarrow> byte list" where
  "jerasure_matrix_dotprod F row data dptr = snd (dotprod_multiply F row data (dotprod_copy F row data (False, dptr)))"

definition jerasure_matrix_encode :: "gf \<Rightarrow> matrix \<Rightarrow> byte list list \<Rightarrow> byte list list \<Rightarrow> byte list list" where
  "jerasure_matrix_encode F mat data coding = map2 (\<lambda>row dptr. jerasure_matrix_dotprod F row data dptr) mat coding"

text \<open>\<open>isal len mat src\<close> is what \<open>ec_encode_data\<close> writes.\<close>

type_synonym isal = "nat \<Rightarrow> matrix \<Rightarrow> byte list list \<Rightarrow> byte list list"

definition Multi :: "gf \<Rightarrow> isal \<Rightarrow> string \<Rightarrow> byte list list \<Rightarrow> byte list list \<Rightarrow> matrix \<Rightarrow> nat \<Rightarrow> byte list list" where
  "Multi F isal lib dst src mat len = (if lib = ''Jerasure'' then jerasure_matrix_encode F mat src dst else isal len mat src)"

section \<open>The Reed-Solomon code\<close>

fun power_row :: "gf \<Rightarrow> byte \<Rightarrow> nat \<Rightarrow> byte \<Rightarrow> byte list" where
  "power_row F b 0 tmp = []"
| "power_row F b (Suc k) tmp = tmp # power_row F b k (galois_single_multiply F tmp b)"

definition generate_matrix :: "gf \<Rightarrow> nat \<Rightarrow> nat \<Rightarrow> matrix" where
  "generate_matrix F n k = map (identity_row k) [0..<k] @ map (\<lambda>i. power_row F (of_nat (i + 1)) k 1) [0..<n - k]"

definition encode_joins :: "gf \<Rightarrow> nat \<Rightarrow> nat \<Rightarrow> nat \<Rightarrow> (nat \<times> nat list \<times> byte list) list" where
  "encode_joins F n k w =
     concat (map (\<lambda>wi. map (\<lambda>i. ((k + i) * w + wi, map (\<lambda>j. j * w + wi) [0..<k], generate_matrix F n k ! (k + i))) [0..<n - k]) [0..<w])"

definition RSCONV_Encode :: "gf \<Rightarrow> nat \<Rightarrow> nat \<Rightarrow> nat \<Rightarrow> ecdag option" where
  "RSCONV_Encode F n k w = joins (encode_joins F n k w) new_ecdag"

definition decode_joins :: "nat \<Rightarrow> nat list \<Rightarrow> (nat \<times> byte list) list \<Rightarrow> (nat \<times> nat list \<times> byte list) list" where
  "decode_joins w fromsids coefs =
     concat (map (\<lambda>wi. map (\<lambda>(t, co). (t * w + wi, map (\<lambda>x. x * w + wi) fromsids, co)) coefs) [0..<w])"

text \<open>The stripe identifiers are those of every \<open>w\<close>-th sub-block. Fewer than \<open>k\<close> of them are read past the end of the
  vector. The result of the inversion is not looked at.\<close>

definition stripe_ids :: "nat \<Rightarrow> nat list \<Rightarrow> nat list" where
  "stripe_ids w cidx = map (\<lambda>i. cidx ! (i * w) div w) [0..<(length cidx + w - 1) div w]"

definition RSCONV_Decode :: "gf \<Rightarrow> nat \<Rightarrow> nat \<Rightarrow> nat \<Rightarrow> nat list \<Rightarrow> nat list \<Rightarrow> ecdag option" where
  "RSCONV_Decode F n k w cfrom cto = do {
     let enc = generate_matrix F n k;
     let fromsids = stripe_ids w cfrom;
     let tosids = stripe_ids w cto;
     assertion (k \<le> length fromsids);
     let (ok, imat) = jerasure_invert_matrix F (map (\<lambda>i. enc ! (fromsids ! i)) [0..<k]) k;
     let coefs = map (\<lambda>r. (r, hd (jerasure_matrix_multiply F [enc ! r] imat k k))) tosids;
     joins (decode_joins w (take k fromsids) coefs) new_ecdag
   }"

section \<open>The coordinator\<close>

definition registerOnlineEC ::
    "((nat \<times> ecnode) list \<Rightarrow> (nat \<times> ecnode) list) \<Rightarrow> gf \<Rightarrow> nat \<Rightarrow> nat \<Rightarrow> nat \<Rightarrow> ectask list option" where
  "registerOnlineEC ord F n k w = do {
     d \<leftarrow> RSCONV_Encode F n k w;
     seq \<leftarrow> toposort ord d;
     parse_tasks d seq
   }"

definition sub_blocks :: "nat \<Rightarrow> nat list \<Rightarrow> nat list" where
  "sub_blocks w is = concat (map (\<lambda>i. map (\<lambda>j. i * w + j) [0..<w]) is)"

fun add_new :: "nat list \<Rightarrow> nat list \<Rightarrow> nat list" where
  "add_new [] xs = xs"
| "add_new (i # is) xs = add_new is (if i \<in> set xs then xs else xs @ [i])"

text \<open>The blocks to load and the tasks.\<close>

definition onlineDegradedInst ::
    "((nat \<times> ecnode) list \<Rightarrow> (nat \<times> ecnode) list) \<Rightarrow> gf \<Rightarrow> nat \<Rightarrow> nat \<Rightarrow> nat \<Rightarrow> nat list \<Rightarrow> (nat list \<times> ectask list) option" where
  "onlineDegradedInst ord F n k w corrupt = do {
     let avail = sub_blocks w (filter (\<lambda>i. i \<notin> set corrupt) [0..<n]);
     let torec = sub_blocks w (filter (\<lambda>i. i \<in> set corrupt) [0..<k]);
     d \<leftarrow> RSCONV_Decode F n k w avail torec;
     seq \<leftarrow> toposort ord d;
     let load = add_new (map (\<lambda>c. c div w) (getLeaves d)) [];
     let load = add_new (filter (\<lambda>i. i \<notin> set corrupt) [0..<k]) load;
     ts \<leftarrow> parse_tasks d seq;
     Some (sort load, ts)
   }"

section \<open>The workers\<close>

definition packet_split :: "nat \<Rightarrow> byte list \<Rightarrow> nat \<Rightarrow> byte list" where
  "packet_split ss pkt j = take ss (drop (j * ss) pkt)"

definition packet_join :: "nat \<Rightarrow> nat \<Rightarrow> (nat \<rightharpoonup> byte list) \<Rightarrow> nat \<Rightarrow> byte list \<Rightarrow> byte list" where
  "packet_join w ss bufs i pkt = concat (map (\<lambda>j. case bufs (i * w + j) of Some b \<Rightarrow> b | None \<Rightarrow> []) [0..<w]) @ drop (w * ss) pkt"

text \<open>The rows of the matrix of a task, and its data. The code buffers are apart from the data buffers.\<close>

definition task_rows :: "ectask \<Rightarrow> matrix option" where
  "task_rows t = do {
     assertion (list_all (\<lambda>(i, co). length (et_children t) \<le> length co) (et_coefs t));
     Some (map (\<lambda>(i, co). take (length (et_children t)) co) (et_coefs t))
   }"

definition task_data :: "ectask \<Rightarrow> (nat \<rightharpoonup> byte list) \<Rightarrow> byte list list option" where
  "task_data t bufs = do {
     assertion (list_all (\<lambda>c. bufs c \<noteq> None) (et_children t));
     Some (map (\<lambda>c. the (bufs c)) (et_children t))
   }"

definition code_buf :: "nat \<Rightarrow> (nat \<rightharpoonup> byte list) \<Rightarrow> nat \<Rightarrow> byte list" where
  "code_buf ss bufs i = (case bufs i of Some b \<Rightarrow> b | None \<Rightarrow> replicate ss 0)"

text \<open>\<open>computeWorker\<close> of a degraded read.\<close>

definition decode_task :: "gf \<Rightarrow> isal \<Rightarrow> nat \<Rightarrow> ectask \<Rightarrow> (nat \<rightharpoonup> byte list) \<Rightarrow> (nat \<rightharpoonup> byte list) option" where
  "decode_task F isal ss t bufs =
     (if 1 \<le> length (et_children t) * length (et_coefs t)
      then do {
        data \<leftarrow> task_data t bufs;
        rows \<leftarrow> task_rows t;
        let out = Multi F isal ''Isal'' (map (\<lambda>(i, co). code_buf ss bufs i) (et_coefs t)) data rows ss;
        Some (bufs ++ map_of (zip (map fst (et_coefs t)) out))
      }
      else Some bufs)"

fun decode_tasks :: "gf \<Rightarrow> isal \<Rightarrow> nat \<Rightarrow> ectask list \<Rightarrow> (nat \<rightharpoonup> byte list) \<Rightarrow> (nat \<rightharpoonup> byte list) option" where
  "decode_tasks F isal ss [] bufs = Some bufs"
| "decode_tasks F isal ss (t # ts) bufs = do { bufs \<leftarrow> decode_task F isal ss t bufs; decode_tasks F isal ss ts bufs }"

definition decode_stripe ::
    "gf \<Rightarrow> isal \<Rightarrow> ectask list \<Rightarrow> nat \<Rightarrow> nat \<Rightarrow> nat \<Rightarrow> (nat \<times> byte list) list \<Rightarrow> byte list list option" where
  "decode_stripe F isal ts k w pktsize stripe = do {
     assertion (0 < w);
     let ss = pktsize div w;
     let cur = (\<lambda>i. case map_of stripe i of Some p \<Rightarrow> Some p | None \<Rightarrow> if i < k then Some (replicate pktsize 0) else None);
     let bufs = (\<lambda>c. map_option (\<lambda>p. packet_split ss p (c mod w)) (cur (c div w)));
     bufs \<leftarrow> decode_tasks F isal ss ts bufs;
     Some (map (\<lambda>i. packet_join w ss bufs i (the (cur i))) [0..<k])
   }"

text \<open>\<open>computeWorker\<close> of an online write: the data are in \<open>srcbufMap\<close>, the packets to write in \<open>tarbufMap\<close>. A new buffer
  is in both.\<close>

definition encode_task ::
    "gf \<Rightarrow> isal \<Rightarrow> nat \<Rightarrow> ectask \<Rightarrow> (nat \<rightharpoonup> byte list) \<times> (nat \<rightharpoonup> byte list) \<Rightarrow> ((nat \<rightharpoonup> byte list) \<times> (nat \<rightharpoonup> byte list)) option" where
  "encode_task F isal ss t = (\<lambda>(src, tar).
     if 1 \<le> length (et_children t) * length (et_coefs t)
     then do {
       data \<leftarrow> task_data t src;
       rows \<leftarrow> task_rows t;
       let out = map_of (zip (map fst (et_coefs t)) (Multi F isal ''Isal'' (map (\<lambda>(i, co). code_buf ss tar i) (et_coefs t)) data rows ss));
       Some (src ++ (\<lambda>i. if tar i = None then out i else None), tar ++ out)
     }
     else Some (src, tar))"

fun encode_tasks ::
    "gf \<Rightarrow> isal \<Rightarrow> nat \<Rightarrow> ectask list \<Rightarrow> (nat \<rightharpoonup> byte list) \<times> (nat \<rightharpoonup> byte list) \<Rightarrow> ((nat \<rightharpoonup> byte list) \<times> (nat \<rightharpoonup> byte list)) option" where
  "encode_tasks F isal ss [] m = Some m"
| "encode_tasks F isal ss (t # ts) m = do { m \<leftarrow> encode_task F isal ss t m; encode_tasks F isal ss ts m }"

definition encode_stripe :: "gf \<Rightarrow> isal \<Rightarrow> ectask list \<Rightarrow> nat \<Rightarrow> nat \<Rightarrow> nat \<Rightarrow> nat \<Rightarrow> byte list list \<Rightarrow> byte list list option" where
  "encode_stripe F isal ts n k w pktsize pkts = do {
     assertion (0 < w);
     let ss = pktsize div w;
     let target = map (\<lambda>i. if i < k then pkts ! i else replicate pktsize 0) [0..<n];
     let src = (\<lambda>c. if c < k * w then Some (packet_split ss (pkts ! (c div w)) (c mod w)) else None);
     let tar = (\<lambda>c. if c < n * w then Some (packet_split ss (target ! (c div w)) (c mod w)) else None);
     (src, tar) \<leftarrow> encode_tasks F isal ss ts (src, tar);
     Some (map (\<lambda>i. packet_join w ss tar i (target ! i)) [0..<n])
   }"

section \<open>What a task computes\<close>

locale erasure_library = galois_field +
  fixes isal :: isal
  assumes isal_encode: "(\<And>r. r \<in> set mat \<Longrightarrow> length r = length src) \<Longrightarrow> (\<And>s. s \<in> set src \<Longrightarrow> length s = len) \<Longrightarrow>
      isal len mat src = map (\<lambda>r. map (\<lambda>p. dot F (length src) r (\<lambda>j. src ! j ! p)) [0..<len]) mat"

text \<open>The linear combination that a node of a graph of one level stands for.\<close>

definition combine :: "gf \<Rightarrow> nat \<Rightarrow> (nat \<times> nat list \<times> byte list) list \<Rightarrow> (nat \<rightharpoonup> byte list) \<Rightarrow> nat \<Rightarrow> byte list" where
  "combine F ss js bufs i = (case map_of js i of
      Some (cs, co) \<Rightarrow> map (\<lambda>p. dot F (length cs) co (\<lambda>j. the (bufs (cs ! j)) ! p)) [0..<ss] | None \<Rightarrow> [])"

definition buffers_ready :: "nat \<Rightarrow> (nat \<times> nat list \<times> byte list) list \<Rightarrow> (nat \<rightharpoonup> byte list) \<Rightarrow> bool" where
  "buffers_ready ss js bufs = (\<forall>(p, cs, co) \<in> set js. cs \<noteq> [] \<and> length co = length cs \<and> (\<forall>c \<in> set cs. \<exists>b. bufs c = Some b \<and> length b = ss))"

context erasure_library
begin

lemma level_multi:
  assumes "buffers_ready ss js bufs" "map_of js i = Some (cs, co)"
  shows "Multi F isal ''Isal'' dst (map (\<lambda>c. the (bufs c)) cs) [take (length cs) co] ss = [combine F ss js bufs i]"
proof -
  have m: "(i, cs, co) \<in> set js" using assms(2) by (simp add: map_of_SomeD)
  have r: "length co = length cs" "\<And>c. c \<in> set cs \<Longrightarrow> \<exists>b. bufs c = Some b \<and> length b = ss"
    using assms(1) m unfolding buffers_ready_def by blast+
  have "isal ss [co] (map (\<lambda>c. the (bufs c)) cs)
      = map (\<lambda>r. map (\<lambda>p. dot F (length (map (\<lambda>c. the (bufs c)) cs)) r (\<lambda>j. map (\<lambda>c. the (bufs c)) cs ! j ! p)) [0..<ss]) [co]"
    by (rule isal_encode) (use r in \<open>fastforce+\<close>)
  moreover have "dot F (length cs) co (\<lambda>j. map (\<lambda>c. the (bufs c)) cs ! j ! p) = dot F (length cs) co (\<lambda>j. the (bufs (cs ! j)) ! p)" for p
    unfolding dot_def by (rule xsum_cong) simp
  ultimately show ?thesis using r(1) assms(2) by (simp add: Multi_def combine_def)
qed

lemma level_task_steps:
  assumes "buffers_ready ss js bufs" "i \<in> fst ` set js"
  shows "decode_task F isal ss (level_task js i) bufs = Some (bufs(i \<mapsto> combine F ss js bufs i))"
    "tar i \<noteq> None \<Longrightarrow> encode_task F isal ss (level_task js i) (bufs, tar) = Some (bufs, tar(i \<mapsto> combine F ss js bufs i))"
proof -
  from assms(2) obtain cs co where m: "map_of js i = Some (cs, co)" by (metis map_of_eq_None_iff option.exhaust surj_pair)
  have js: "(i, cs, co) \<in> set js" using m by (simp add: map_of_SomeD)
  have r: "cs \<noteq> []" "length co = length cs" "\<forall>c \<in> set cs. bufs c \<noteq> None" using assms(1) js unfolding buffers_ready_def by force+
  have t: "level_task js i = \<lparr>et_children = cs, et_coefs = [(i, co)]\<rparr>" using m by (simp add: level_task_def)
  have d: "task_data (level_task js i) bufs = Some (map (\<lambda>c. the (bufs c)) cs)" "task_rows (level_task js i) = Some [take (length cs) co]"
    using r by (simp_all add: task_data_def task_rows_def t list_all_iff)
  have le: "1 \<le> length (et_children (level_task js i)) * length (et_coefs (level_task js i))" using r(1) by (simp add: t Suc_le_eq)
  show "decode_task F isal ss (level_task js i) bufs = Some (bufs(i \<mapsto> combine F ss js bufs i))"
    using le d level_multi [OF assms(1) m] by (simp add: decode_task_def t map_add_def fun_eq_iff)
  assume "tar i \<noteq> None"
  then show "encode_task F isal ss (level_task js i) (bufs, tar) = Some (bufs, tar(i \<mapsto> combine F ss js bufs i))"
    using le d level_multi [OF assms(1) m] by (auto simp: encode_task_def t Let_def fun_eq_iff map_add_def split: option.splits)
qed

lemma combine_cong:
  assumes "one_level js" "\<And>c. c \<notin> fst ` set js \<Longrightarrow> bufs' c = bufs c"
  shows "combine F ss js bufs' i = combine F ss js bufs i" "buffers_ready ss js bufs' = buffers_ready ss js bufs"
proof -
  have c: "bufs' c = bufs c" if "(p, cs, co) \<in> set js" "c \<in> set cs" for p cs co c
    using assms(2) one_level_child [OF assms(1) that] by blast
  show "combine F ss js bufs' i = combine F ss js bufs i"
  proof (cases "map_of js i")
    case (Some x)
    obtain cs co where x: "x = (cs, co)" by fastforce
    have "dot F (length cs) co (\<lambda>j. the (bufs' (cs ! j)) ! p) = dot F (length cs) co (\<lambda>j. the (bufs (cs ! j)) ! p)" for p
      unfolding dot_def using c [of i cs co] Some x by (intro xsum_cong) (simp add: map_of_SomeD)
    then show ?thesis using Some x by (simp add: combine_def)
  qed (simp add: combine_def)
  show "buffers_ready ss js bufs' = buffers_ready ss js bufs"
    unfolding buffers_ready_def using c by (intro ball_cong) (auto simp: case_prod_unfold)
qed

lemma decode_level:
  assumes "one_level js" "buffers_ready ss js bufs" "set ids \<subseteq> fst ` set js"
  shows "decode_tasks F isal ss (map (level_task js) ids) bufs = Some (\<lambda>i. if i \<in> set ids then Some (combine F ss js bufs i) else bufs i)"
  using assms(2,3)
proof (induction ids arbitrary: bufs)
  case (Cons i ids)
  let ?b = "bufs(i \<mapsto> combine F ss js bufs i)"
  have i: "i \<in> fst ` set js" "set ids \<subseteq> fst ` set js" using Cons.prems(2) by auto
  have e: "?b c = bufs c" if "c \<notin> fst ` set js" for c using that i(1) by auto
  have c: "combine F ss js ?b x = combine F ss js bufs x" "buffers_ready ss js ?b" for x
    using combine_cong [where bufs' = ?b and bufs = bufs and ss = ss, OF assms(1) e] Cons.prems(1) by blast+
  from Cons.IH [OF c(2) i(2)] level_task_steps(1) [OF Cons.prems(1) i(1)]
  have "decode_tasks F isal ss (map (level_task js) (i # ids)) bufs = Some (\<lambda>x. if x \<in> set ids then Some (combine F ss js ?b x) else ?b x)"
    by (simp del: fun_upd_apply)
  then show ?case unfolding c(1) by (auto simp: fun_eq_iff)
qed (simp add: fun_eq_iff)

lemma encode_level:
  assumes "buffers_ready ss js src" "set ids \<subseteq> fst ` set js" "\<forall>i \<in> set ids. tar i \<noteq> None"
  shows "encode_tasks F isal ss (map (level_task js) ids) (src, tar)
     = Some (src, \<lambda>i. if i \<in> set ids then Some (combine F ss js src i) else tar i)"
  using assms(2,3)
proof (induction ids arbitrary: tar)
  case (Cons i ids)
  have i: "i \<in> fst ` set js" "set ids \<subseteq> fst ` set js" "tar i \<noteq> None" "\<forall>x \<in> set ids. (tar(i \<mapsto> combine F ss js src i)) x \<noteq> None"
    using Cons.prems by auto
  from Cons.IH [OF i(2,4)] level_task_steps(2) [where tar = tar, OF assms(1) i(1,3)]
  have "encode_tasks F isal ss (map (level_task js) (i # ids)) (src, tar)
      = Some (src, \<lambda>x. if x \<in> set ids then Some (combine F ss js src x) else (tar(i \<mapsto> combine F ss js src i)) x)"
    by (simp del: fun_upd_apply)
  then show ?case by (auto simp: fun_eq_iff)
qed (simp add: fun_eq_iff)

end

end
