(* ===== verification/Erasure_Correct.thy ===== *)
theory Erasure_Correct
  imports Erasure_Code
begin

unbundle bit_operations_syntax

text \<open>
  What the Reed-Solomon code of theory \<open>Erasure_Code\<close> keeps: a file that is written online is read back although blocks
  of it are lost, for every loss of at most two blocks of a code with one or two parities, and for other codes where the
  matrix of the blocks that are left can be inverted. For three parities that is not always so.
\<close>

section \<open>Packets\<close>

lemma split_concat: "concat (map (packet_split ss pkt) [0..<w]) = take (w * ss) pkt"
proof (induction w)
  case (Suc w)
  have "take (Suc w * ss) pkt = take (w * ss) pkt @ take ss (drop (w * ss) pkt)" using take_add [of "w * ss" ss pkt] by (simp add: add.commute)
  with Suc show ?case by (simp add: packet_split_def)
qed simp

lemma concat_split:
  assumes "\<And>j. j < w \<Longrightarrow> length (f j) = ss" "j < w"
  shows "packet_split ss (concat (map f [0..<w])) j = f j"
proof -
  have len: "length (concat (map f [0..<m])) = m * ss" if "m \<le> w" for m using that assms(1) by (induction m) auto
  have "[0..<w] = [0..<j] @ j # [Suc j..<w]" using upt_add_eq_append [of 0 j "w - j"] upt_conv_Cons [of j w] assms(2) by simp
  then have "concat (map f [0..<w]) = concat (map f [0..<j]) @ f j @ concat (map f [Suc j..<w])" by simp
  then show ?thesis using len [of j] assms by (simp add: packet_split_def)
qed

lemma packet_join_blocks:
  assumes "\<And>j. j < w \<Longrightarrow> bufs (i * w + j) = Some (f j)" "length pkt = w * ss"
  shows "packet_join w ss bufs i pkt = concat (map f [0..<w])"
proof -
  have e: "map (\<lambda>j. case bufs (i * w + j) of Some b \<Rightarrow> b | None \<Rightarrow> []) [0..<w] = map f [0..<w]" using assms(1) by simp
  show ?thesis unfolding packet_join_def e using assms(2) by simp
qed

section \<open>Sub-blocks\<close>

lemma sub_block_eq: "b * w + j = b' * w + j' \<Longrightarrow> j < w \<Longrightarrow> j' < w \<Longrightarrow> b = b' \<and> j = j'" for b w j b' j' :: nat
  by (metis add.commute add_left_cancel div_mult_self3 div_less add_0 less_nat_zero_code mult.commute not_gr_zero)

lemma sub_block_mem: "b \<in> B \<Longrightarrow> j < w \<Longrightarrow> b * w + j \<in> {t * w + wi |t wi. t \<in> B \<and> wi < w}" for b w j :: nat
  by blast

lemma stripe_ids_sub_blocks: "0 < w \<Longrightarrow> stripe_ids w (sub_blocks w is) = is"
proof -
  assume w: "0 < w"
  have len: "length (sub_blocks w is) = length is * w" for "is" by (induction "is") (auto simp: sub_blocks_def)
  have nth: "i < length is \<Longrightarrow> sub_blocks w is ! (i * w) = is ! i * w" for i "is"
  proof (induction "is" arbitrary: i)
    case (Cons a "is")
    have "sub_blocks w (a # is) = map (\<lambda>j. a * w + j) [0..<w] @ sub_blocks w is" by (simp add: sub_blocks_def)
    with Cons w show ?case by (cases i) (auto simp: nth_append)
  qed simp
  have "(length is * w + w - 1) div w = length is" using w by (metis Nat.add_diff_assoc One_nat_def Suc_leI Suc_pred' add.commute add.right_neutral div_less div_mult_self3 lessI not_less0 neq0_conv)
  then show ?thesis using w nth by (auto simp: stripe_ids_def len intro!: nth_equalityI)
qed

section \<open>The graphs of the code\<close>

lemma decode_joins_set: "(p, cs, co) \<in> set (decode_joins w froms coefs) \<longleftrightarrow>
    (\<exists>wi t. wi < w \<and> (t, co) \<in> set coefs \<and> p = t * w + wi \<and> cs = map (\<lambda>x. x * w + wi) froms)"
  by (auto simp: decode_joins_def)

lemma decode_joins_fst: "fst ` set (decode_joins w froms coefs) = {t * w + wi |t wi. t \<in> fst ` set coefs \<and> wi < w}"
proof (intro set_eqI iffI)
  fix p assume "p \<in> fst ` set (decode_joins w froms coefs)"
  then obtain cs co where "(p, cs, co) \<in> set (decode_joins w froms coefs)" by force
  then show "p \<in> {t * w + wi |t wi. t \<in> fst ` set coefs \<and> wi < w}" by (force simp: decode_joins_set)
next
  fix p assume "p \<in> {t * w + wi |t wi. t \<in> fst ` set coefs \<and> wi < w}"
  then obtain t wi co where "p = t * w + wi" "(t, co) \<in> set coefs" "wi < w" by force
  then have "(p, map (\<lambda>x. x * w + wi) froms, co) \<in> set (decode_joins w froms coefs)" by (auto simp: decode_joins_set)
  then show "p \<in> fst ` set (decode_joins w froms coefs)" by force
qed

lemma distinct_sub_blocks:
  assumes "distinct bs" "m \<le> w"
  shows "distinct (concat (map (\<lambda>wi. map (\<lambda>b. b * w + wi) bs) [0..<m]))"
  using assms(2)
proof (induction m)
  case (Suc m)
  have "distinct (map (\<lambda>b. b * w + m) bs)" using assms(1) Suc.prems by (auto simp: distinct_map inj_on_def)
  moreover have "b * w + m \<noteq> b' * w + j" if "j < m" for b b' j using sub_block_eq [of b w m b' j] that Suc.prems by auto
  ultimately show ?case using Suc by auto
qed simp

lemma decode_one_level:
  assumes "distinct (map fst coefs)" "set froms \<inter> fst ` set coefs = {}"
  shows "one_level (decode_joins w froms coefs)"
proof -
  have "map fst (decode_joins w froms coefs) = concat (map (\<lambda>wi. map (\<lambda>b. b * w + wi) (map fst coefs)) [0..<w])"
    by (simp add: decode_joins_def map_concat comp_def case_prod_unfold)
  then have "distinct (map fst (decode_joins w froms coefs))" using distinct_sub_blocks [OF assms(1), of w w] by simp
  moreover have "c \<notin> fst ` set (decode_joins w froms coefs)" if "(p, cs, co) \<in> set (decode_joins w froms coefs)" "c \<in> set cs" for p cs co c
  proof
    assume "c \<in> fst ` set (decode_joins w froms coefs)"
    then obtain t wi where t: "c = t * w + wi" "t \<in> fst ` set coefs" "wi < w" unfolding decode_joins_fst by blast
    from that obtain x wi' where "c = x * w + wi'" "x \<in> set froms" "wi' < w" by (auto simp: decode_joins_set)
    with t sub_block_eq [of x w wi' t wi] have "t \<in> set froms" by auto
    with t(2) assms(2) show False by blast
  qed
  ultimately show ?thesis unfolding one_level_def by blast
qed

lemma decode_map_of:
  assumes "distinct (map fst coefs)" "set froms \<inter> fst ` set coefs = {}" "(t, co) \<in> set coefs" "wi < w"
  shows "map_of (decode_joins w froms coefs) (t * w + wi) = Some (map (\<lambda>x. x * w + wi) froms, co)"
proof (rule map_of_is_SomeI)
  show "distinct (map fst (decode_joins w froms coefs))" using decode_one_level [OF assms(1,2)] by (simp add: one_level_def)
  show "(t * w + wi, map (\<lambda>x. x * w + wi) froms, co) \<in> set (decode_joins w froms coefs)"
    using assms(3,4) by (auto simp: decode_joins_set)
qed

lemma combine_joins:
  assumes "distinct (map fst coefs)" "set froms \<inter> fst ` set coefs = {}" "(t, co) \<in> set coefs" "wi < w"
  shows "combine F ss (decode_joins w froms coefs) bufs (t * w + wi)
     = map (\<lambda>p. dot F (length froms) co (\<lambda>j. the (bufs (froms ! j * w + wi)) ! p)) [0..<ss]"
proof -
  have "dot F (length froms) co (\<lambda>j. the (bufs (map (\<lambda>x. x * w + wi) froms ! j)) ! p)
      = dot F (length froms) co (\<lambda>j. the (bufs (froms ! j * w + wi)) ! p)" for p
    unfolding dot_def by (rule xsum_cong) simp
  then show ?thesis using decode_map_of [OF assms] by (simp add: combine_def)
qed

text \<open>The tasks that the coordinator makes of such a graph.\<close>

lemma joins_tasks:
  fixes w :: nat
  assumes "distinct (map fst coefs)" "set froms \<inter> fst ` set coefs = {}" "froms \<noteq> []" "\<And>xs. mset (ord xs) = mset xs"
  defines "js \<equiv> decode_joins w froms coefs"
  obtains d seq ids where "joins js new_ecdag = Some d" "toposort ord d = Some seq" "parse_tasks d seq = Some (map (level_task js) ids)"
    "set ids = {t * w + wi |t wi. t \<in> fst ` set coefs \<and> wi < w}" "set ids = fst ` set js" "distinct ids"
    "set (getLeaves d) = (if coefs = [] then {} else {x * w + wi |x wi. x \<in> set froms \<and> wi < w})"
proof -
  have ol: "one_level js" unfolding js_def by (rule decode_one_level [OF assms(1,2)])
  have ne: "\<forall>(p, cs, co) \<in> set js. cs \<noteq> []" using assms(3) by (auto simp: js_def decode_joins_set)
  obtain d where d: "joins js new_ecdag = Some d" "plain_nodes (dg_nodes d)" "node_view (dg_nodes d) = level_view js" by (rule joins_level [OF ol])
  obtain seq ids where t: "toposort ord d = Some seq" "parse_tasks d seq = Some (map (level_task js) ids)" "distinct ids" "set ids = fst ` set js"
    by (rule level_tasks [where ord = ord, OF d(3,2) ol ne assms(4)])
  have "set (getLeaves d) = (\<Union>(p, cs, co) \<in> set js. set cs)" by (rule level_leaves [OF d(3,2) ol ne])
  also have "\<dots> = (if coefs = [] then {} else {x * w + wi |x wi. x \<in> set froms \<and> wi < w})"
    by (cases coefs) (auto simp: js_def decode_joins_def, blast+)
  finally show thesis using that [OF d(1) t(1,2) _ t(4,3)] t(4) by (simp add: js_def decode_joins_fst)
qed

lemma joins_small:
  assumes "i \<in> fst ` set (decode_joins w froms coefs)" "\<forall>x \<in> set froms. x < n" "length froms = k" "\<forall>(t, co) \<in> set coefs. t < n \<and> length co = k"
  shows "small_task (n * w) k (level_task (decode_joins w froms coefs) i)"
proof (rule level_small [OF assms(1)])
  have lt: "x * w + wi < n * w" if "x < n" "wi < w" for x wi using mult_le_mono1 [of "Suc x" n w] that by simp
  fix p cs co assume "(p, cs, co) \<in> set (decode_joins w froms coefs)"
  then obtain wi t where t: "wi < w" "(t, co) \<in> set coefs" "p = t * w + wi" "cs = map (\<lambda>x. x * w + wi) froms" unfolding decode_joins_set by blast
  then have "t < n" "length co = k" using assms(4) by auto
  then show "p < n * w \<and> length cs = k \<and> length co = k \<and> (\<forall>c \<in> set cs. c < n * w)"
    using t(1,3,4) assms(2,3) lt by auto
qed

lemma joins_ready:
  assumes "froms \<noteq> []" "\<forall>(t, co) \<in> set coefs. length co = length froms"
    and "\<And>x wi. coefs \<noteq> [] \<Longrightarrow> x \<in> set froms \<Longrightarrow> wi < w \<Longrightarrow> \<exists>b. bufs (x * w + wi) = Some b \<and> length b = ss"
  shows "buffers_ready ss (decode_joins w froms coefs) bufs"
  unfolding buffers_ready_def
proof (intro ballI, clarify)
  fix p cs co assume "(p, cs, co) \<in> set (decode_joins w froms coefs)"
  then obtain wi t where t: "wi < w" "(t, co) \<in> set coefs" "cs = map (\<lambda>x. x * w + wi) froms" unfolding decode_joins_set by blast
  then have "coefs \<noteq> []" "length co = length froms" using assms(2) by auto
  then show "cs \<noteq> [] \<and> length co = length cs \<and> (\<forall>c \<in> set cs. \<exists>b. bufs c = Some b \<and> length b = ss)"
    using t(1,3) assms(1,3) by auto
qed

lemma encode_joins_decode: "k \<le> n \<Longrightarrow> encode_joins F n k w = decode_joins w [0..<k] (map (\<lambda>b. (b, generate_matrix F n k ! b)) [k..<n])"
proof -
  assume "k \<le> n"
  then have "[k..<n] = map (\<lambda>i. k + i) [0..<n - k]" using map_add_upt [of k "n - k"] by (simp add: add.commute)
  then show ?thesis by (simp add: encode_joins_def decode_joins_def comp_def)
qed

section \<open>The matrix\<close>

lemma length_power_row [simp]: "length (power_row F b k t) = k"
  by (induction k arbitrary: t) auto

lemma generate_rows:
  "k \<le> n \<Longrightarrow> length (generate_matrix F n k) = n"
  "i < k \<Longrightarrow> generate_matrix F n k ! i = identity_row k i"
  "i < n - k \<Longrightarrow> generate_matrix F n k ! (k + i) = power_row F (of_nat (i + 1)) k 1"
  by (simp_all add: generate_matrix_def nth_append)

lemma generate_row_length: "k \<le> n \<Longrightarrow> i < n \<Longrightarrow> length (generate_matrix F n k ! i) = k"
  using generate_rows(2) [of i k F n] generate_rows(3) [of "i - k" n k F] by (cases "i < k") (auto simp: identity_row_def)

lemma fold_xsum: "fold (\<lambda>k acc. acc XOR f k) [0..<n] 0 = xsum f n"
  by (induction n) auto

section \<open>The blocks of a stripe\<close>

definition block_byte :: "gf \<Rightarrow> nat \<Rightarrow> nat \<Rightarrow> nat \<Rightarrow> byte list list \<Rightarrow> nat \<Rightarrow> nat \<Rightarrow> nat \<Rightarrow> byte" where
  "block_byte F n k ss pkts b wi p = dot F k (generate_matrix F n k ! b) (\<lambda>j. pkts ! j ! (wi * ss + p))"

definition stripe_block :: "gf \<Rightarrow> nat \<Rightarrow> nat \<Rightarrow> nat \<Rightarrow> nat \<Rightarrow> byte list list \<Rightarrow> nat \<Rightarrow> byte list" where
  "stripe_block F n k w ss pkts b = concat (map (\<lambda>wi. map (block_byte F n k ss pkts b wi) [0..<ss]) [0..<w])"

lemma packet_split_map:
  assumes "length pkt = w * ss" "wi < w"
  shows "packet_split ss pkt wi = map (\<lambda>p. pkt ! (wi * ss + p)) [0..<ss]"
proof -
  have "wi * ss + ss \<le> length pkt" using assms mult_le_mono1 [of "Suc wi" w ss] by simp
  then show ?thesis by (intro nth_equalityI) (auto simp: packet_split_def)
qed

lemma sub_block_index: "j < k \<Longrightarrow> wi < w \<Longrightarrow> j * w + wi < k * w" "wi < w \<Longrightarrow> (j * w + wi) div w = j" "wi < w \<Longrightarrow> (j * w + wi) mod w = wi"
  for j k wi w :: nat
proof -
  assume "j < k" "wi < w"
  then show "j * w + wi < k * w" using mult_le_mono1 [of "Suc j" k w] by simp
qed auto

lemma split_stripe_block: "wi < w \<Longrightarrow> packet_split ss (stripe_block F n k w ss pkts b) wi = map (block_byte F n k ss pkts b wi) [0..<ss]"
  unfolding stripe_block_def by (rule concat_split) auto

lemma length_stripe_block: "length (stripe_block F n k w ss pkts b) = w * ss"
  by (simp add: stripe_block_def length_concat comp_def sum_list_triv)

lemma set_add_new: "set (add_new is xs) = set is \<union> set xs"
  by (induction "is" xs rule: add_new.induct) auto

lemma distinct_add_new: "distinct xs \<Longrightarrow> distinct (add_new is xs)"
  by (induction "is" xs rule: add_new.induct) auto

context erasure_library
begin

lemma identity_dot: "i < k \<Longrightarrow> dot F k (identity_row k i) v = v i"
  by (rule dot_unit) (auto simp: identity_row_def)

text \<open>The coefficients with which a lost block is computed from those that are left.\<close>

lemma decode_coefs:
  assumes "length A = k" "\<forall>r \<in> set A. length r = k" "jerasure_invert_matrix F A k = (True, imat)" "length e = k"
  shows "dot F k (hd (jerasure_matrix_multiply F [e] imat k k)) (\<lambda>l. dot F k (A ! l) v) = dot F k e v"
proof -
  let ?Av = "\<lambda>l. dot F k (A ! l) v"
  have inv: "dot F k (imat ! x) ?Av = v x" if "x < k" for x using invert_matrix_ok [OF assms(1-3)] that by simp
  have "dot F k (hd (jerasure_matrix_multiply F [e] imat k k)) ?Av
      = xsum (\<lambda>j. gf_multiply F (xsum (\<lambda>x. gf_multiply F (e ! x) (imat ! x ! j)) k) (?Av j)) k"
    unfolding dot_def by (rule xsum_cong) (simp add: jerasure_matrix_multiply_def fold_xsum single_multiply)
  also have "\<dots> = xsum (\<lambda>j. xsum (\<lambda>x. gf_multiply F (e ! x) (gf_multiply F (imat ! x ! j) (?Av j))) k) k"
  proof (rule xsum_cong)
    fix j
    have "gf_multiply F (xsum f k) y = xsum (\<lambda>x. gf_multiply F (f x) y) k" for f y using xsum_mul [of y f k] mul_comm by simp
    then show "gf_multiply F (xsum (\<lambda>x. gf_multiply F (e ! x) (imat ! x ! j)) k) (?Av j)
        = xsum (\<lambda>x. gf_multiply F (e ! x) (gf_multiply F (imat ! x ! j) (?Av j))) k" by (simp add: mul_assoc)
  qed
  also have "\<dots> = xsum (\<lambda>x. gf_multiply F (e ! x) (dot F k (imat ! x) ?Av)) k"
    unfolding dot_def [of F k "imat ! _"] xsum_mul by (rule xsum_swap)
  also have "\<dots> = dot F k e v" unfolding dot_def [of F k e v] by (rule xsum_cong) (simp add: inv)
  finally show ?thesis .
qed

lemma data_byte: "b < k \<Longrightarrow> block_byte F n k ss pkts b wi p = pkts ! b ! (wi * ss + p)"
  by (simp add: block_byte_def generate_rows identity_dot)

lemma data_block: "b < k \<Longrightarrow> length (pkts ! b) = w * ss \<Longrightarrow> stripe_block F n k w ss pkts b = pkts ! b"
proof -
  assume b: "b < k" and l: "length (pkts ! b) = w * ss"
  have e: "map (\<lambda>wi. map (block_byte F n k ss pkts b wi) [0..<ss]) [0..<w] = map (packet_split ss (pkts ! b)) [0..<w]"
    using b packet_split_map [OF l] by (simp add: data_byte)
  show ?thesis unfolding stripe_block_def e using split_concat [of ss "pkts ! b" w] l by simp
qed

text \<open>What a node computes from blocks of the stripe.\<close>

lemma combine_blocks:
  assumes "distinct (map fst coefs)" "set froms \<inter> fst ` set coefs = {}" "(t, co) \<in> set coefs" "wi < w" "length froms = k"
    and "\<And>x. x \<in> set froms \<Longrightarrow> bufs (x * w + wi) = Some (map (block_byte F n k ss pkts x wi) [0..<ss])"
  shows "combine F ss (decode_joins w froms coefs) bufs (t * w + wi)
     = map (\<lambda>p. dot F k co (\<lambda>j. block_byte F n k ss pkts (froms ! j) wi p)) [0..<ss]"
proof -
  have "dot F k co (\<lambda>j. the (bufs (froms ! j * w + wi)) ! p) = dot F k co (\<lambda>j. block_byte F n k ss pkts (froms ! j) wi p)"
    if "p < ss" for p
    unfolding dot_def using assms(5,6) that by (intro xsum_cong) simp
  then show ?thesis using combine_joins [OF assms(1-4), of F ss bufs] assms(5) by simp
qed

lemma encode_ok:
  assumes "0 < w" "0 < k" "k \<le> n" "length pkts = k" "\<forall>p \<in> set pkts. length p = w * ss" "\<And>xs. mset (ord xs) = mset xs"
  shows "\<exists>ts. registerOnlineEC ord F n k w = Some ts \<and> (\<forall>t \<in> set ts. small_task (n * w) k t)
     \<and> encode_stripe F isal ts n k w (w * ss) pkts = Some (map (stripe_block F n k w ss pkts) [0..<n])"
proof -
  let ?E = "generate_matrix F n k"
  define coefs where "coefs = map (\<lambda>b. (b, ?E ! b)) [k..<n]"
  let ?js = "decode_joins w [0..<k] coefs"
  have co: "distinct (map fst coefs)" "fst ` set coefs = {k..<n}" "set [0..<k] \<inter> fst ` set coefs = {}" "[0..<k] \<noteq> []"
    using assms(2) by (auto simp: coefs_def comp_def image_image)
  obtain d seq ids where t: "joins ?js new_ecdag = Some d" "toposort ord d = Some seq" "parse_tasks d seq = Some (map (level_task ?js) ids)"
      "set ids = {t * w + wi |t wi. t \<in> fst ` set coefs \<and> wi < w}" "set ids = fst ` set ?js" "distinct ids"
    by (rule joins_tasks [where ord = ord and w = w, OF co(1,3,4) assms(6)])
  have reg: "registerOnlineEC ord F n k w = Some (map (level_task ?js) ids)"
    using t(1-3) by (simp add: registerOnlineEC_def RSCONV_Encode_def encode_joins_decode [OF assms(3)] coefs_def)
  have len: "length (pkts ! j) = w * ss" if "j < k" for j using assms(4,5) that by simp
  let ?target = "map (\<lambda>i. if i < k then pkts ! i else replicate (w * ss) 0) [0..<n]"
  define src where "src = (\<lambda>c. if c < k * w then Some (packet_split ss (pkts ! (c div w)) (c mod w)) else None)"
  let ?tar = "\<lambda>c. if c < n * w then Some (packet_split ss (?target ! (c div w)) (c mod w)) else None"
  have sp: "packet_split ss (pkts ! j) wi = map (block_byte F n k ss pkts j wi) [0..<ss]" if "j < k" "wi < w" for j wi
    using packet_split_map [OF len [OF that(1)] that(2)] that(1) by (simp add: data_byte)
  have src: "src (j * w + wi) = Some (map (block_byte F n k ss pkts j wi) [0..<ss])" if "j < k" "wi < w" for j wi
    using sub_block_index(1) [OF that] sub_block_index(2,3) [OF that(2)] sp [OF that] by (simp add: src_def)
  have ready: "buffers_ready ss ?js src"
    by (rule joins_ready [OF co(4)]) (use src generate_row_length [OF assms(3)] in \<open>auto simp: coefs_def\<close>)
  have tar: "\<forall>i \<in> set ids. ?tar i \<noteq> None" unfolding t(4) co(2) using sub_block_index(1) [of _ n _ w] by auto
  define res where "res = (\<lambda>i. if i \<in> set ids then Some (combine F ss ?js src i) else ?tar i)"
  have enc: "encode_tasks F isal ss (map (level_task ?js) ids) (src, ?tar) = Some (src, res)"
    unfolding res_def by (rule encode_level [OF ready _ tar]) (simp add: t(5))
  have res: "res (b * w + wi) = Some (map (block_byte F n k ss pkts b wi) [0..<ss])" if b: "b < n" "wi < w" for b wi
  proof (cases "b < k")
    case True
    have "b * w + wi \<notin> set ids" unfolding t(4) co(2) using sub_block_eq [of b w wi] b(2) True by fastforce
    then show ?thesis using True b sub_block_index(1) [OF b] sub_block_index(2,3) [OF b(2)] sp by (simp add: res_def)
  next
    case False
    then have m: "b * w + wi \<in> set ids" "(b, ?E ! b) \<in> set coefs" using sub_block_mem [of b "{k..<n}" wi w] b unfolding t(4) co(2) by (auto simp: coefs_def)
    have "dot F k (?E ! b) (\<lambda>j. block_byte F n k ss pkts ([0..<k] ! j) wi p) = block_byte F n k ss pkts b wi p" for p
      unfolding block_byte_def [of F n k ss pkts b] dot_def [of F k "?E ! b"] by (rule xsum_cong) (simp add: data_byte)
    then show ?thesis using combine_blocks [OF co(1,3) m(2) b(2), of k src n ss pkts] src b(2) m(1) by (simp add: res_def)
  qed
  have join: "packet_join w ss res b (?target ! b) = stripe_block F n k w ss pkts b" if "b < n" for b
    unfolding stripe_block_def by (rule packet_join_blocks) (use that res len in auto)
  have "encode_stripe F isal (map (level_task ?js) ids) n k w (w * ss) pkts = Some (map (\<lambda>i. packet_join w ss res i (?target ! i)) [0..<n])"
    using enc assms(1) by (simp add: encode_stripe_def Let_def src_def)
  also have "\<dots> = Some (map (stripe_block F n k w ss pkts) [0..<n])" using join by simp
  finally have "encode_stripe F isal (map (level_task ?js) ids) n k w (w * ss) pkts = Some (map (stripe_block F n k w ss pkts) [0..<n])" .
  moreover have "small_task (n * w) k (level_task ?js i)" if "i \<in> set ids" for i
    by (rule joins_small) (use that t(5) assms(3) generate_row_length [OF assms(3)] in \<open>auto simp: coefs_def\<close>)
  ultimately show ?thesis using reg by auto
qed

text \<open>The instruction of a degraded read: which blocks are loaded, and which are computed.\<close>

lemma degraded_inst:
  fixes corrupt :: "nat list"
  assumes "0 < w" "0 < k" "k \<le> n" "\<And>xs. mset (ord xs) = mset xs"
  defines "avail \<equiv> filter (\<lambda>i. i \<notin> set corrupt) [0..<n]" and "torec \<equiv> filter (\<lambda>i. i \<in> set corrupt) [0..<k]"
  assumes "k \<le> length avail"
  defines "imat \<equiv> snd (jerasure_invert_matrix F (map (\<lambda>i. generate_matrix F n k ! (avail ! i)) [0..<k]) k)"
  defines "coefs \<equiv> map (\<lambda>r. (r, hd (jerasure_matrix_multiply F [generate_matrix F n k ! r] imat k k))) torec"
  defines "js \<equiv> decode_joins w (take k avail) coefs"
  obtains load ids where "onlineDegradedInst ord F n k w corrupt = Some (load, map (level_task js) ids)"
    "set load \<subseteq> set avail" "torec \<noteq> [] \<longrightarrow> set (take k avail) \<subseteq> set load" "\<forall>i<k. i \<notin> set torec \<longrightarrow> i \<in> set load"
    "set ids = {t * w + wi |t wi. t \<in> set torec \<and> wi < w}" "set ids = fst ` set js" "distinct ids" "distinct load"
proof -
  have fr: "take k avail \<noteq> []" "set (take k avail) \<subseteq> set avail" using assms(2,7) set_take_subset [of k avail] by auto
  have co: "distinct (map fst coefs)" "fst ` set coefs = set torec" "set (take k avail) \<inter> fst ` set coefs = {}"
    using fr(2) by (auto simp: coefs_def torec_def avail_def comp_def image_image)
  obtain d seq ids where t: "joins js new_ecdag = Some d" "toposort ord d = Some seq" "parse_tasks d seq = Some (map (level_task js) ids)"
      "set ids = {t * w + wi |t wi. t \<in> fst ` set coefs \<and> wi < w}" "set ids = fst ` set js" "distinct ids"
      "set (getLeaves d) = (if coefs = [] then {} else {x * w + wi |x wi. x \<in> set (take k avail) \<and> wi < w})"
    unfolding js_def by (rule joins_tasks [where ord = ord and w = w, OF co(1,3) fr(1) assms(4)])
  define load where "load = sort (add_new (filter (\<lambda>i. i \<notin> set corrupt) [0..<k]) (add_new (map (\<lambda>c. c div w) (getLeaves d)) []))"
  have dec: "RSCONV_Decode F n k w (sub_blocks w avail) (sub_blocks w torec) = Some d"
    using assms(7) t(1) unfolding RSCONV_Decode_def Let_def stripe_ids_sub_blocks [OF assms(1)]
    by (simp add: js_def coefs_def imat_def case_prod_unfold)
  have inst: "onlineDegradedInst ord F n k w corrupt = Some (load, map (level_task js) ids)"
    using dec t(2,3) by (simp add: onlineDegradedInst_def Let_def avail_def torec_def load_def)
  have ldset: "set load = {i \<in> {..<k}. i \<notin> set corrupt} \<union> (\<lambda>c. c div w) ` set (getLeaves d)"
    by (auto simp: load_def set_add_new)
  have lv: "(\<lambda>c. c div w) ` set (getLeaves d) = (if coefs = [] then {} else set (take k avail))"
  proof (cases "coefs = []")
    case False
    have "x \<in> (\<lambda>c. c div w) ` set (getLeaves d)" if "x \<in> set (take k avail)" for x
      by (rule image_eqI [where x = "x * w + 0"]) (use sub_block_mem [OF that assms(1)] t(7) False assms(1) in simp_all)
    then show ?thesis unfolding t(7) using False sub_block_index(2) [of _ w] by auto
  qed (simp add: t(7))
  have dl: "distinct load" by (simp add: load_def distinct_add_new)
  have "set load \<subseteq> set avail" using fr(2) assms(3) unfolding ldset lv by (auto simp: avail_def split: if_splits)
  moreover have "coefs = [] \<longleftrightarrow> torec = []" by (simp add: coefs_def)
  ultimately show thesis using that [OF inst _ _ _ _ t(5,6)] t(4) co(2) dl unfolding ldset lv by (auto simp: torec_def)
qed

lemma decode_ok:
  fixes corrupt :: "nat list"
  assumes "0 < w" "0 < k" "k \<le> n" "length pkts = k" "\<forall>p \<in> set pkts. length p = w * ss" "\<And>xs. mset (ord xs) = mset xs"
  defines "avail \<equiv> filter (\<lambda>i. i \<notin> set corrupt) [0..<n]"
  assumes "k \<le> length avail" "fst (jerasure_invert_matrix F (map (\<lambda>i. generate_matrix F n k ! (avail ! i)) [0..<k]) k)"
  shows "\<exists>load ts. onlineDegradedInst ord F n k w corrupt = Some (load, ts) \<and> set load \<subseteq> set avail \<and> distinct load
     \<and> (\<forall>t \<in> set ts. small_task (n * w) k t) \<and> length ts \<le> k * w
     \<and> decode_stripe F isal ts k w (w * ss) (map (\<lambda>i. (i, stripe_block F n k w ss pkts i)) load) = Some pkts"
proof -
  let ?E = "generate_matrix F n k" and ?B = "stripe_block F n k w ss pkts"
  define torec where "torec = filter (\<lambda>i. i \<in> set corrupt) [0..<k]"
  define A where "A = map (\<lambda>i. ?E ! (avail ! i)) [0..<k]"
  define imat where "imat = snd (jerasure_invert_matrix F A k)"
  have im: "jerasure_invert_matrix F A k = (True, imat)" using assms(9) unfolding A_def imat_def by (metis prod.collapse)
  define coefs where "coefs = map (\<lambda>r. (r, hd (jerasure_matrix_multiply F [?E ! r] imat k k))) torec"
  define froms where "froms = take k avail"
  let ?js = "decode_joins w froms coefs"
  obtain load ids where t: "onlineDegradedInst ord F n k w corrupt = Some (load, map (level_task ?js) ids)"
      "set load \<subseteq> set avail" "torec \<noteq> [] \<longrightarrow> set froms \<subseteq> set load" "\<forall>i<k. i \<notin> set torec \<longrightarrow> i \<in> set load"
      "set ids = {t * w + wi |t wi. t \<in> set torec \<and> wi < w}" "set ids = fst ` set ?js" "distinct ids" "distinct load"
    unfolding froms_def coefs_def imat_def A_def torec_def avail_def
    by (rule degraded_inst [where ord = ord and w = w and n = n and k = k and corrupt = corrupt, OF assms(1-3,6) assms(8) [unfolded avail_def]])
  have fr: "length froms = k" "froms \<noteq> []" "set froms \<subseteq> set avail" using assms(2,8) set_take_subset [of k avail] by (auto simp: froms_def)
  have co: "distinct (map fst coefs)" "set froms \<inter> fst ` set coefs = {}"
    using fr(3) by (auto simp: coefs_def torec_def avail_def comp_def)
  have A: "A ! j = ?E ! (froms ! j)" "length (A ! j) = k" if "j < k" for j
  proof -
    have "froms ! j \<in> set avail" using fr(1,3) that nth_mem [of j froms] by blast
    then have "froms ! j < n" by (simp add: avail_def)
    then show "A ! j = ?E ! (froms ! j)" "length (A ! j) = k" using that fr(1) generate_row_length [OF assms(3)] by (simp_all add: A_def froms_def)
  qed
  let ?stripe = "map (\<lambda>i. (i, ?B i)) load"
  have mo: "map_of ?stripe i = (if i \<in> set load then Some (?B i) else None)" for i by (simp add: map_of_map_restrict restrict_map_def)
  let ?cur = "\<lambda>i. case map_of ?stripe i of Some p \<Rightarrow> Some p | None \<Rightarrow> if i < k then Some (replicate (w * ss) 0) else None"
  define bufs where "bufs = (\<lambda>c. map_option (\<lambda>p. packet_split ss p (c mod w)) (?cur (c div w)))"
  have bl: "bufs (i * w + wi) = Some (map (block_byte F n k ss pkts i wi) [0..<ss])" if "i \<in> set load" "wi < w" for i wi
    using that sub_block_index(2,3) [OF that(2)] by (simp add: bufs_def mo split_stripe_block)
  have fl: "set froms \<subseteq> set load" if "coefs \<noteq> []" using t(3) that by (auto simp: coefs_def)
  have ready: "buffers_ready ss ?js bufs"
    by (rule joins_ready [OF fr(2)]) (use bl fl fr(1) in \<open>auto simp: coefs_def jerasure_matrix_multiply_def\<close>)
  define res where "res = (\<lambda>i. if i \<in> set ids then Some (combine F ss ?js bufs i) else bufs i)"
  have dt: "decode_tasks F isal ss (map (level_task ?js) ids) bufs = Some res"
    unfolding res_def by (rule decode_level [OF decode_one_level [OF co] ready]) (simp add: t(6))
  have res: "res (b * w + wi) = Some (map (block_byte F n k ss pkts b wi) [0..<ss])" if b: "b < k" "wi < w" for b wi
  proof (cases "b \<in> set torec")
    case False
    then have "b * w + wi \<notin> set ids" unfolding t(5) using sub_block_eq [of b w wi] b(2) by fastforce
    then show ?thesis using bl [OF _ b(2)] t(4) b(1) False by (simp add: res_def)
  next
    case True
    let ?co = "hd (jerasure_matrix_multiply F [?E ! b] imat k k)"
    have m: "b * w + wi \<in> set ids" "(b, ?co) \<in> set coefs" unfolding t(5) using True b by (auto simp: coefs_def)
    then have "coefs \<noteq> []" by auto
    have "dot F k ?co (\<lambda>j. block_byte F n k ss pkts (froms ! j) wi p) = block_byte F n k ss pkts b wi p" for p
    proof -
      have "dot F k ?co (\<lambda>j. block_byte F n k ss pkts (froms ! j) wi p) = dot F k ?co (\<lambda>l. dot F k (A ! l) (\<lambda>j. pkts ! j ! (wi * ss + p)))"
        unfolding dot_def [of F k ?co] by (rule xsum_cong) (simp add: A block_byte_def)
      also have "\<dots> = dot F k (?E ! b) (\<lambda>j. pkts ! j ! (wi * ss + p))"
        by (rule decode_coefs [OF _ _ im]) (use A(2) generate_row_length [OF assms(3)] b(1) assms(3) in \<open>auto simp: A_def all_set_conv_all_nth\<close>)
      finally show ?thesis by (simp add: block_byte_def)
    qed
    then show ?thesis using combine_blocks [OF co m(2) b(2) fr(1), of bufs n ss pkts] bl [OF _ b(2)] fl [OF \<open>coefs \<noteq> []\<close>] m(1)
      by (auto simp: res_def)
  qed
  have join: "packet_join w ss res b (the (?cur b)) = pkts ! b" if "b < k" for b
  proof -
    have "packet_join w ss res b (the (?cur b)) = ?B b"
      unfolding stripe_block_def [of F n k w ss pkts b]
      by (rule packet_join_blocks) (use that res in \<open>auto simp: mo length_stripe_block\<close>)
    then show ?thesis using data_block [OF that] assms(4,5) that by simp
  qed
  have "decode_stripe F isal (map (level_task ?js) ids) k w (w * ss) ?stripe = Some (map (\<lambda>i. packet_join w ss res i (the (?cur i))) [0..<k])"
    using dt assms(1) by (simp add: decode_stripe_def Let_def bufs_def)
  also have "map (\<lambda>i. packet_join w ss res i (the (?cur i))) [0..<k] = map (\<lambda>i. pkts ! i) [0..<k]"
    by (rule map_cong [OF refl]) (rule join, simp)
  also have "\<dots> = pkts" using map_nth [of pkts] assms(4) by simp
  finally have "decode_stripe F isal (map (level_task ?js) ids) k w (w * ss) ?stripe = Some pkts" .
  moreover have "small_task (n * w) k (level_task ?js i)" if "i \<in> set ids" for i
    by (rule joins_small [OF _ _ fr(1)])
      (use that t(6) fr(3) assms(3) in \<open>auto simp: coefs_def torec_def avail_def jerasure_matrix_multiply_def\<close>)
  moreover have "set ids \<subseteq> {..<k * w}" unfolding t(5) using sub_block_index(1) [of _ k _ w] by (auto simp: torec_def)
  then have "length ids \<le> k * w" using card_mono [of "{..<k * w}" "set ids"] distinct_card [OF t(7)] by simp
  ultimately show ?thesis using t(1,2,8) by auto
qed

end

section \<open>One or two parities\<close>

definition gf_power :: "gf \<Rightarrow> byte \<Rightarrow> nat \<Rightarrow> byte" where
  "gf_power F b j = ((\<lambda>x. gf_multiply F x b) ^^ j) 1"

text \<open>The polynomial \<open>x\<close>, the byte 2, generates the field.\<close>

locale rs_library = erasure_library +
  assumes two_generates: "0 < j \<Longrightarrow> j < 255 \<Longrightarrow> gf_power F 2 j \<noteq> 1"
begin

lemma power_add: "gf_power F b (i + j) = gf_multiply F (gf_power F b i) (gf_power F b j)"
proof (induction i)
  case (Suc i)
  have "gf_power F b (Suc i + j) = gf_multiply F (gf_multiply F (gf_power F b i) (gf_power F b j)) b" using Suc by (simp add: gf_power_def)
  also have "\<dots> = gf_multiply F (gf_multiply F (gf_power F b i) b) (gf_power F b j)" by (metis mul_assoc mul_comm)
  finally show ?case by (simp add: gf_power_def)
qed (simp add: gf_power_def mul_one)

lemma power_nonzero: "b \<noteq> 0 \<Longrightarrow> gf_power F b j \<noteq> 0"
  by (induction j) (auto simp: gf_power_def mul_eq_0)

lemma power_row_nth: "j < k \<Longrightarrow> power_row F b k t ! j = ((\<lambda>x. gf_multiply F x b) ^^ j) t"
  by (induction k arbitrary: t j) (auto simp: nth_Cons single_multiply funpow_swap1 [where f = "\<lambda>x. gf_multiply F x b", symmetric] split: nat.splits)

lemma two_powers_differ: "c < d \<Longrightarrow> d < 255 \<Longrightarrow> gf_power F 2 c \<noteq> gf_power F 2 d"
proof
  assume cd: "c < d" "d < 255" and e: "gf_power F 2 c = gf_power F 2 d"
  have "gf_multiply F (gf_power F 2 c) (1 XOR gf_power F 2 (d - c)) = 0"
    using power_add [of 2 c "d - c"] cd(1) e by (simp add: mul_xor mul_one_right)
  then have "gf_power F 2 (d - c) = 1" using power_nonzero [of 2 c] by (auto simp: mul_eq_0 xor_eq_0)
  moreover have "0 < d - c" "d - c < 255" using cd by simp_all
  ultimately show False using two_generates by blast
qed

text \<open>A row of a parity, applied to a vector with at most two entries.\<close>

lemma dot_two:
  assumes "c < k" "\<And>x. x < k \<Longrightarrow> x \<noteq> c \<Longrightarrow> x \<noteq> d \<Longrightarrow> v x = 0"
  shows "dot F k r v = gf_multiply F (r ! c) (v c) XOR (if d < k \<and> d \<noteq> c then gf_multiply F (r ! d) (v d) else 0)"
proof -
  let ?f = "\<lambda>x. gf_multiply F (r ! x) (v x)"
  have "dot F k r v = ?f c XOR xsum (\<lambda>x. if x = c then 0 else ?f x) k" unfolding dot_def by (rule xsum_remove [OF assms(1)])
  also have "xsum (\<lambda>x. if x = c then 0 else ?f x) k = xsum (\<lambda>x. if x = d then (if d \<noteq> c then ?f d else 0) else 0) k"
    by (rule xsum_cong) (use assms(2) in \<open>auto simp: mul_zero\<close>)
  also have "\<dots> = (if d < k \<and> d \<noteq> c then ?f d else 0)"
  proof (cases "d < k")
    case False
    then have "xsum (\<lambda>x. if x = d then (if d \<noteq> c then ?f d else 0) else 0) k = xsum (\<lambda>_. 0) k" by (intro xsum_cong) auto
    then show ?thesis using False by simp
  qed (simp add: xsum_single)
  finally show ?thesis .
qed

lemma two_parities:
  assumes "k \<le> n" "n \<le> k + 2" "n \<le> 128" "distinct froms" "length froms = k" "set froms \<subseteq> {..<n}"
    and z: "\<And>x. x \<in> set froms \<Longrightarrow> dot F k (generate_matrix F n k ! x) v = 0"
  shows "c < k \<Longrightarrow> v c = 0"
proof (rule ccontr)
  assume c: "c < k" "v c \<noteq> 0"
  let ?U = "{..<n} - set froms"
  have d: "v x = 0" if "x < k" "x \<in> set froms" for x
    using z [OF that(2)] that(1) by (simp add: generate_rows identity_dot)
  have "card ?U = n - k" using assms(4-6) by (simp add: card_Diff_subset distinct_card)
  moreover have cU: "c \<in> ?U" using c d assms(1) by auto
  ultimately have "card (?U - {c}) \<le> 1" using assms(2) by (simp add: card_Diff_singleton)
  then obtain e where e: "?U \<subseteq> {c, e}" "e \<noteq> c" "e \<in> ?U \<or> n \<le> e"
  proof (cases "?U - {c} = {}")
    case True
    then show ?thesis using that [of "n + c"] c(1) assms(1) by auto
  next
    case False
    with \<open>card (?U - {c}) \<le> 1\<close> obtain e where "?U - {c} = {e}" by (metis card_1_singletonE card_0_eq finite_Diff finite_lessThan le_antisym less_one linorder_not_less)
    then show ?thesis using that [of e] by blast
  qed
  have fro: "x \<in> set froms" if "x < n" "x \<noteq> c" "x \<noteq> e" for x using e(1) that by blast
  have v: "v x = 0" if "x < k" "x \<noteq> c" "x \<noteq> e" for x using d [OF that(1)] fro [of x] that assms(1) by simp
  have par: "gf_multiply F (gf_power F (of_nat (i + 1)) c) (v c) XOR (if e < k then gf_multiply F (gf_power F (of_nat (i + 1)) e) (v e) else 0) = 0"
    if "k + i \<in> set froms" "i < n - k" for i
    using z [OF that(1)] dot_two [where c = c and d = e and v = v, OF c(1) v] that(2) c(1) e(2)
    by (cases "e < k") (simp_all add: generate_rows power_row_nth gf_power_def)
  have nz: "of_nat (i + 1) \<noteq> (0 :: byte)" if "i < 2" for i :: nat using that by (cases i) (auto simp: less_Suc_eq numeral_2_eq_2)
  have "card ?U \<noteq> 0" using cU by (metis card_0_eq empty_iff finite_Diff finite_lessThan)
  then have kn: "k < n" using \<open>card ?U = n - k\<close> by simp
  show False
  proof (cases "e < k")
    case False
    have "\<exists>i. i < n - k \<and> i < 2 \<and> k + i \<in> set froms"
    proof (cases "e = k")
      case True
      then have "k \<in> ?U" "n - k = 2" using e cU c(1) kn \<open>card ?U = n - k\<close> assms(2) card_mono [of ?U "{c, e}"] by auto
      then show ?thesis using fro [of "k + 1"] True c(1) by (intro exI [of _ 1]) auto
    next
      case ek: False
      then show ?thesis using fro [of k] c(1) kn by (intro exI [of _ 0]) auto
    qed
    then obtain i where i: "i < n - k" "i < 2" "k + i \<in> set froms" by blast
    from par [OF i(3,1)] False have "gf_multiply F (gf_power F (of_nat (i + 1)) c) (v c) = 0" by simp
    then show False using power_nonzero [OF nz [OF i(2)]] c(2) by (simp add: mul_eq_0)
  next
    case True
    then have "e \<in> ?U" using e(3) assms(1) by auto
    then have "card {c, e} \<le> card ?U" using cU by (intro card_mono) auto
    then have n: "n = k + 2" using e(2) \<open>card ?U = n - k\<close> assms(2) kn by simp
    have "k + i \<in> set froms" if "i < 2" for i using fro [of "k + i"] that c(1) True n by simp
    from par [OF this [of 0]] par [OF this [of 1]] True n
    have p: "gf_multiply F (gf_power F 1 c) (v c) XOR gf_multiply F (gf_power F 1 e) (v e) = 0"
      "gf_multiply F (gf_power F 2 c) (v c) XOR gf_multiply F (gf_power F 2 e) (v e) = 0" by simp_all
    have "gf_power F 1 j = 1" for j by (induction j) (auto simp: gf_power_def mul_one_right)
    with p(1) have "v e = v c" by (simp add: mul_one xor_eq_0)
    with p(2) have "gf_multiply F (gf_power F 2 c XOR gf_power F 2 e) (v c) = 0" by (simp add: mul_xor_left)
    then have "gf_power F 2 c = gf_power F 2 e" using c(2) by (simp add: mul_eq_0 xor_eq_0)
    moreover have "c < 255" "e < 255" using c(1) True assms(1,3) by auto
    ultimately show False using two_powers_differ [of c e] two_powers_differ [of e c] e(2) by (cases c e rule: linorder_cases) auto
  qed
qed

lemma two_parities_invertible:
  assumes "k \<le> n" "n \<le> k + 2" "n \<le> 128" "distinct avail" "k \<le> length avail" "set avail \<subseteq> {..<n}"
  shows "fst (jerasure_invert_matrix F (map (\<lambda>i. generate_matrix F n k ! (avail ! i)) [0..<k]) k)"
proof (rule ccontr)
  let ?E = "generate_matrix F n k" and ?A = "map (\<lambda>i. generate_matrix F n k ! (avail ! i)) [0..<k]"
  assume "\<not> ?thesis"
  then obtain B where b: "jerasure_invert_matrix F ?A k = (False, B)" by (metis prod.collapse)
  have fr: "length (take k avail) = k" "distinct (take k avail)" "set (take k avail) \<subseteq> {..<n}"
    using assms(4-6) set_take_subset [of k avail] by auto
  have A: "?A = map (\<lambda>x. ?E ! x) (take k avail)" using assms(5) by (intro nth_equalityI) auto
  have "\<forall>r \<in> set ?A. length r = k" unfolding A using fr(3) generate_row_length [OF assms(1)] by auto
  from invert_matrix_ok [OF _ this b] obtain v c where v: "c < k" "v c \<noteq> 0" "kernel F k ?A v" by auto
  have "dot F k (?E ! x) v = 0" if "x \<in> set (take k avail)" for x using v(3) that unfolding A kernel_def by auto
  from two_parities [OF assms(1-3) fr(2,1,3) this v(1)] v(2) show False by blast
qed

end

text \<open>The field and the product that the libraries document.\<close>

definition isal_w8 :: isal where
  "isal_w8 len mat src = map (\<lambda>r. map (\<lambda>p. xsum (\<lambda>j. gf_w8_multiply (r ! j) (src ! j ! p)) (length src)) [0..<len]) mat"

interpretation w8rs: rs_library gf_w8 isal_w8
proof unfold_locales
  show "isal_w8 len mat src = map (\<lambda>r. map (\<lambda>p. dot gf_w8 (length src) r (\<lambda>j. src ! j ! p)) [0..<len]) mat" for len mat src
    by (simp add: isal_w8_def dot_def gf_w8_def)
  fix j :: nat assume j: "0 < j" "j < 255"
  have "gf_w8_multiply x 2 = xtime x" for x using w8_shift [of 1 x] by simp
  then have "gf_power gf_w8 2 j = w8_exp j" by (simp add: gf_power_def gf_w8_def w8_exp_def)
  with w8_exp_neq_1 [OF j] show "gf_power gf_w8 2 j \<noteq> 1" by simp
qed

section \<open>The two libraries\<close>

lemma xsum_first: "xsum f (Suc n) = f 0 XOR xsum (\<lambda>i. f (Suc i)) n"
  by (induction n) (auto simp: xor_ac)

text \<open>What the destination holds so far.\<close>

definition dotprod_sum :: "bool \<times> byte list \<Rightarrow> nat \<Rightarrow> byte" where
  "dotprod_sum r p = (if fst r then snd r ! p else 0)"

context galois_field
begin

lemma region_xor: "length s = length d \<Longrightarrow> galois_region_xor F s d = map2 (XOR) d s"
  using region_32 [of d s] by (simp add: galois_region_xor_def galois_w32_region_xor_def)

lemma copy_sum:
  assumes "length cs = length ss" "\<forall>s \<in> set ss. length s = len" "length d = len"
  shows "length (snd (dotprod_copy F cs ss (init, d))) = len
     \<and> fst (dotprod_copy F cs ss (init, d)) = (init \<or> 1 \<in> set cs)
     \<and> (\<forall>p<len. dotprod_sum (dotprod_copy F cs ss (init, d)) p
         = dotprod_sum (init, d) p XOR xsum (\<lambda>j. if cs ! j = 1 then gf_multiply F (cs ! j) (ss ! j ! p) else 0) (length cs))"
  using assms
proof (induction cs ss arbitrary: init d rule: list_induct2)
  case (Cons c cs s ss)
  show ?case
  proof (cases "c = 1")
    case True
    let ?d = "if init then galois_region_xor F s d else s"
    have "length ?d = len" using Cons.prems by (simp add: region_xor)
    moreover have "\<forall>p<len. dotprod_sum (True, ?d) p = dotprod_sum (init, d) p XOR s ! p" using Cons.prems by (simp add: dotprod_sum_def region_xor)
    ultimately show ?thesis using Cons.IH [of ?d True] Cons.prems True
      by (simp add: xsum_first mul_one xor_ac del: xsum.simps cong: if_cong)
  next
    case False
    then show ?thesis using Cons.IH [of d init] Cons.prems by (simp add: xsum_first del: xsum.simps cong: if_cong)
  qed
qed simp

lemma multiply_sum:
  assumes "length cs = length ss" "\<forall>s \<in> set ss. length s = len" "length d = len"
  shows "length (snd (dotprod_multiply F cs ss (init, d))) = len
     \<and> fst (dotprod_multiply F cs ss (init, d)) = (init \<or> (\<exists>c \<in> set cs. c \<noteq> 0 \<and> c \<noteq> 1))
     \<and> (\<forall>p<len. dotprod_sum (dotprod_multiply F cs ss (init, d)) p
         = dotprod_sum (init, d) p XOR xsum (\<lambda>j. if cs ! j = 1 then 0 else gf_multiply F (cs ! j) (ss ! j ! p)) (length cs))"
  using assms
proof (induction cs ss arbitrary: init d rule: list_induct2)
  case (Cons c cs s ss)
  show ?case
  proof (cases "c \<noteq> 0 \<and> c \<noteq> 1")
    case True
    let ?d = "galois_w08_region_multiply F s c d init"
    have d: "?d = map2 (\<lambda>x y. if init then y XOR gf_multiply F x c else gf_multiply F x c) s d"
      unfolding galois_w08_region_multiply_def by (rule region_8) (use Cons.prems in simp)
    then have "length ?d = len" using Cons.prems by simp
    moreover have "\<forall>p<len. dotprod_sum (True, ?d) p = dotprod_sum (init, d) p XOR gf_multiply F c (s ! p)"
      using Cons.prems mul_comm [of c] by (simp add: dotprod_sum_def d)
    ultimately show ?thesis using Cons.IH [of ?d True] Cons.prems True
      by (simp add: xsum_first xor_ac del: xsum.simps cong: if_cong)
  next
    case False
    then show ?thesis using Cons.IH [of d init] Cons.prems by (auto simp: xsum_first mul_zero simp del: xsum.simps cong: if_cong)
  qed
qed simp

lemma dotprod_dot:
  assumes "length row = length src" "\<forall>s \<in> set src. length s = len" "length d = len" "\<exists>c \<in> set row. c \<noteq> 0"
  shows "jerasure_matrix_dotprod F row src d = map (\<lambda>p. dot F (length src) row (\<lambda>j. src ! j ! p)) [0..<len]"
proof -
  obtain i d' where c: "dotprod_copy F row src (False, d) = (i, d')" by fastforce
  note c1 = copy_sum [OF assms(1-3), where init = False, unfolded c]
  have l: "length d' = len" and i: "i = (1 \<in> set row)" using c1 by auto
  note m1 = multiply_sum [OF assms(1,2) l, where init = i]
  have f: "fst (dotprod_multiply F row src (i, d'))" using m1 assms(4) i by auto
  have "snd (dotprod_multiply F row src (i, d')) ! p = dot F (length src) row (\<lambda>j. src ! j ! p)" if "p < len" for p
  proof -
    let ?g = "\<lambda>j. gf_multiply F (row ! j) (src ! j ! p)"
    have "snd (dotprod_multiply F row src (i, d')) ! p = dotprod_sum (dotprod_multiply F row src (i, d')) p" using f by (simp add: dotprod_sum_def)
    also have "\<dots> = dotprod_sum (i, d') p XOR xsum (\<lambda>j. if row ! j = 1 then 0 else ?g j) (length row)" using m1 that by blast
    also have "dotprod_sum (i, d') p = dotprod_sum (False, d) p XOR xsum (\<lambda>j. if row ! j = 1 then ?g j else 0) (length row)" using c1 that by blast
    also have "dotprod_sum (False, d) p = 0" by (simp add: dotprod_sum_def)
    also have "(0 XOR xsum (\<lambda>j. if row ! j = 1 then ?g j else 0) (length row)) XOR xsum (\<lambda>j. if row ! j = 1 then 0 else ?g j) (length row) = xsum ?g (length row)"
      unfolding xor.left_neutral xsum_xor [symmetric] by (rule xsum_cong) simp
    finally show ?thesis using assms(1) by (simp add: dot_def)
  qed
  then show ?thesis using m1 c by (intro nth_equalityI) (auto simp: jerasure_matrix_dotprod_def)
qed

end

text \<open>C23: The two libraries with which \<open>Computation::Multi\<close> can compute give the same: for a matrix without a zero row
  the loops of \<open>jerasure_matrix_encode\<close>, which copy the columns with coefficient 1 before they multiply the others, write
  what \<open>ec_encode_data\<close> of ISA-L is documented to write, whatever the destination held before.\<close>

theorem multi_libraries_agree:
  assumes "erasure_library F isal" "length dst = length mat" "\<forall>d \<in> set dst. length d = len" "\<forall>s \<in> set src. length s = len"
    and "\<forall>row \<in> set mat. length row = length src \<and> (\<exists>c \<in> set row. c \<noteq> 0)"
  shows "Multi F isal ''Jerasure'' dst src mat len = Multi F isal ''Isal'' dst src mat len"
proof -
  have f: "galois_field F" using assms(1) by (simp add: erasure_library_def)
  have "Multi F isal ''Isal'' dst src mat len = map (\<lambda>r. map (\<lambda>p. dot F (length src) r (\<lambda>j. src ! j ! p)) [0..<len]) mat"
    using erasure_library.isal_encode [OF assms(1), of mat src len] assms(4,5) by (simp add: Multi_def)
  moreover have "jerasure_matrix_dotprod F (mat ! i) src (dst ! i) = map (\<lambda>p. dot F (length src) (mat ! i) (\<lambda>j. src ! j ! p)) [0..<len]"
    if "i < length mat" for i
    by (rule galois_field.dotprod_dot [OF f]) (use that assms(2-5) in auto)
  ultimately show ?thesis using assms(2) by (auto simp: Multi_def jerasure_matrix_encode_def intro!: nth_equalityI)
qed

theorem multi_libraries_agree_witness:
  "Multi gf_w8 isal_w8 ''Jerasure'' [[9, 9]] [[1, 2], [3, 4]] [[1, 2]] 2 = Multi gf_w8 isal_w8 ''Isal'' [[9, 9]] [[1, 2], [3, 4]] [[1, 2]] 2
   \<and> Multi gf_w8 isal_w8 ''Isal'' [[9, 9]] [[1, 2], [3, 4]] [[1, 2]] 2 = [[7, 10]]"
proof -
  have "Multi gf_w8 isal_w8 ''Isal'' [[9, 9]] [[1, 2], [3, 4]] [[1, 2]] 2 = [[7, 10]]" by code_simp
  then show ?thesis
    using multi_libraries_agree [OF w8rs.erasure_library_axioms, of "[[9, 9]]" "[[1, 2]]" 2 "[[1, 2], [3, 4]]"] by simp
qed

section \<open>Reading what was written\<close>

text \<open>A stripe that is written online is read back although blocks are lost. For any order in which maps are walked and
  any packets of a size that the sub-packets divide: the coordinator's tasks for an \<open>(n, k)\<close> code let the worker write \<open>n\<close>
  blocks, the first \<open>k\<close> of which are the data; and for every set of lost blocks that leaves \<open>k\<close>, of a code with one or two
  parities or where the matrix of the first \<open>k\<close> blocks that are left is regular, the instruction for the degraded read
  loads only blocks that are not lost, and its tasks let the worker restore exactly the packets that were written. The
  arithmetic is that of any field and library with the documented laws.\<close>

theorem degraded_read_restores:
  assumes "rs_library F isal" "0 < w" "0 < k" "k \<le> n" "n \<le> 128" "length pkts = k" "\<forall>p \<in> set pkts. length p = w * ss"
    and "\<And>xs. mset (ord xs) = mset xs"
  shows "\<exists>ts stripe. registerOnlineEC ord F n k w = Some ts \<and> encode_stripe F isal ts n k w (w * ss) pkts = Some stripe
     \<and> length stripe = n \<and> take k stripe = pkts
     \<and> (\<forall>corrupt. k \<le> length (filter (\<lambda>i. i \<notin> set corrupt) [0..<n]) \<longrightarrow>
          n \<le> k + 2 \<or> fst (jerasure_invert_matrix F (map (\<lambda>i. generate_matrix F n k ! (filter (\<lambda>i. i \<notin> set corrupt) [0..<n] ! i)) [0..<k]) k) \<longrightarrow>
          (\<exists>load ts'. onlineDegradedInst ord F n k w corrupt = Some (load, ts')
             \<and> (\<forall>i \<in> set load. i < n \<and> i \<notin> set corrupt)
             \<and> decode_stripe F isal ts' k w (w * ss) (map (\<lambda>i. (i, stripe ! i)) load) = Some pkts))"
proof -
  have el: "erasure_library F isal" using assms(1) by (simp add: rs_library_def)
  let ?B = "stripe_block F n k w ss pkts"
  obtain ts where ts: "registerOnlineEC ord F n k w = Some ts" "encode_stripe F isal ts n k w (w * ss) pkts = Some (map ?B [0..<n])"
    using erasure_library.encode_ok [OF el assms(2-4,6,7,8)] by blast
  have "take k (map ?B [0..<n]) = pkts"
    using assms(4,6,7) erasure_library.data_block [OF el] by (intro nth_equalityI) (auto simp: nth_append)
  moreover have "\<exists>load ts'. onlineDegradedInst ord F n k w corrupt = Some (load, ts') \<and> (\<forall>i \<in> set load. i < n \<and> i \<notin> set corrupt)
      \<and> decode_stripe F isal ts' k w (w * ss) (map (\<lambda>i. (i, map ?B [0..<n] ! i)) load) = Some pkts"
    if a: "k \<le> length (filter (\<lambda>i. i \<notin> set corrupt) [0..<n])"
      and b: "n \<le> k + 2 \<or> fst (jerasure_invert_matrix F (map (\<lambda>i. generate_matrix F n k ! (filter (\<lambda>i. i \<notin> set corrupt) [0..<n] ! i)) [0..<k]) k)"
    for corrupt
  proof -
    let ?avail = "filter (\<lambda>i. i \<notin> set corrupt) [0..<n]"
    have "fst (jerasure_invert_matrix F (map (\<lambda>i. generate_matrix F n k ! (?avail ! i)) [0..<k]) k)"
      using b rs_library.two_parities_invertible [OF assms(1) assms(4) _ assms(5) _ a] by auto
    from erasure_library.decode_ok [where corrupt = corrupt, OF el assms(2-4,6,7,8) a this] obtain load ts' where
      l: "onlineDegradedInst ord F n k w corrupt = Some (load, ts')" "set load \<subseteq> set ?avail"
        "decode_stripe F isal ts' k w (w * ss) (map (\<lambda>i. (i, ?B i)) load) = Some pkts" by blast
    have e: "map (\<lambda>i. (i, map ?B [0..<n] ! i)) load = map (\<lambda>i. (i, ?B i)) load" using l(2) by (intro map_cong) auto
    have "\<forall>i \<in> set load. i < n \<and> i \<notin> set corrupt" using l(2) by auto
    then show ?thesis using l(1) l(3) [folded e] by blast
  qed
  ultimately show ?thesis using ts by (intro exI [of _ ts] exI [of _ "map ?B [0..<n]"]) simp
qed

theorem degraded_read_restores_witness:
  "\<exists>ts stripe. registerOnlineEC rev gf_w8 3 2 1 = Some ts \<and> encode_stripe gf_w8 isal_w8 ts 3 2 1 1 [[5], [9]] = Some stripe
     \<and> (\<exists>load ts'. onlineDegradedInst rev gf_w8 3 2 1 [0] = Some (load, ts')
          \<and> decode_stripe gf_w8 isal_w8 ts' 2 1 1 (map (\<lambda>i. (i, stripe ! i)) load) = Some [[5], [9]])"
proof -
  have "2 \<le> length (filter (\<lambda>i. i \<notin> set [0 :: nat]) [0..<3])" by code_simp
  moreover obtain ts stripe where s: "registerOnlineEC rev gf_w8 3 2 1 = Some ts" "encode_stripe gf_w8 isal_w8 ts 3 2 1 1 [[5], [9]] = Some stripe"
    "\<And>corrupt. 2 \<le> length (filter (\<lambda>i. i \<notin> set corrupt) [0..<3]) \<Longrightarrow> \<exists>load ts'. onlineDegradedInst rev gf_w8 3 2 1 corrupt = Some (load, ts')
       \<and> decode_stripe gf_w8 isal_w8 ts' 2 1 1 (map (\<lambda>i. (i, stripe ! i)) load) = Some [[5], [9]]"
    using degraded_read_restores [OF w8rs.rs_library_axioms, of 1 2 3 "[[5], [9]]" 1 rev] by fastforce
  ultimately show ?thesis using s(1,2) s(3) [of "[0]"] by blast
qed


end
