(* ===== verification/Online_File.thy ===== *)
theory Online_File
  imports Task_Codec Erasure_Correct
begin

text \<open>
  A file in the erasure-coded store, written and read online (\<^verbatim>\<open>storage/src\<close>: \<open>write\<close> of \<^verbatim>\<open>OECClient.cc\<close>, \<open>onlineWrite\<close> and
  \<open>readOnline\<close> of \<^verbatim>\<open>common/OECWorker.cc\<close>, \<^verbatim>\<open>common/FSObjOutputStream.cc\<close>, \<^verbatim>\<open>common/FSObjInputStream.cc\<close>,
  \<^verbatim>\<open>common/OECInputStream.cc\<close>). The client puts the packets of the file into the redis of its host; the worker takes them
  in stripes, encodes them and writes one object per block; reading goes the other way. The threads of a job are connected
  by queues without a bound, each with one writer and one reader, so what they do is the same in any interleaving and they
  are modelled one after the other; a \<open>pop\<close> from a queue that gets no more elements waits for ever, which is \<open>None\<close>. The
  objects are in the file system, of which a parameter \<open>rd\<close> says how many bytes a call of \<open>readFile\<close> gives.
\<close>

section \<open>Packets\<close>

definition packet_raw :: "bool \<Rightarrow> byte list \<Rightarrow> byte list" where
  "packet_raw be d = mem_bytes be 4 (htonl be (of_nat (length d))) @ d"

definition OECDataPacket :: "bool \<Rightarrow> byte list \<Rightarrow> byte list option" where
  "OECDataPacket be raw = do {
     bs \<leftarrow> mem_read raw 0 4;
     let len = sint (htonl be (mem_word be bs :: 32 word));
     assertion (0 \<le> len);
     mem_read raw 4 (nat len)
   }"

text \<open>What \<open>fread\<close> does not fill stays zero.\<close>

definition client_write :: "bool \<Rightarrow> nat \<Rightarrow> nat \<Rightarrow> byte list \<Rightarrow> nat \<rightharpoonup> byte list" where
  "client_write be pktsize sz input i =
     (if i < sz div pktsize
      then let bs = take pktsize (drop (i * pktsize) input) in Some (packet_raw be (bs @ replicate (pktsize - length bs) 0))
      else None)"

section \<open>Writing\<close>

definition loadWorker :: "bool \<Rightarrow> (nat \<rightharpoonup> byte list) \<Rightarrow> nat \<Rightarrow> nat \<Rightarrow> nat \<Rightarrow> nat \<Rightarrow> bool \<Rightarrow> byte list list option" where
  "loadWorker be store pktsize startid step rnd zeropadding = do {
     ps \<leftarrow> those (map (\<lambda>i. do { raw \<leftarrow> store (startid + i * step); OECDataPacket be raw }) [0..<rnd]);
     Some (ps @ (if zeropadding then [replicate pktsize 0] else []))
   }"

fun encode_stripes ::
    "gf \<Rightarrow> isal \<Rightarrow> ectask list \<Rightarrow> nat \<Rightarrow> nat \<Rightarrow> nat \<Rightarrow> nat \<Rightarrow> nat \<Rightarrow> byte list list list \<Rightarrow> byte list list list option" where
  "encode_stripes F isal ts n k w pktsize 0 qs = Some []"
| "encode_stripes F isal ts n k w pktsize (Suc m) qs = do {
     assertion (list_all (\<lambda>q. q \<noteq> []) qs);
     blocks \<leftarrow> encode_stripe F isal ts n k w pktsize (map hd qs);
     stripes \<leftarrow> encode_stripes F isal ts n k w pktsize m (map tl qs);
     Some (blocks # stripes)
   }"

definition writeObj :: "nat \<Rightarrow> byte list list \<Rightarrow> byte list option" where
  "writeObj totalPktNum q = (if totalPktNum \<le> length q then Some (concat (take totalPktNum q)) else None)"

text \<open>The number of packets of an object.\<close>

definition object_packets :: "nat \<Rightarrow> nat \<Rightarrow> nat \<Rightarrow> nat" where
  "object_packets totalNumPkt k i =
     (let rounds = totalNumPkt div k; lastNum = totalNumPkt mod k in
      rounds + (if 0 < lastNum \<and> i < lastNum then 1 else 0) + (if 0 < lastNum \<and> k \<le> i then 1 else 0))"

definition onlineWrite ::
    "((nat \<times> ecnode) list \<Rightarrow> (nat \<times> ecnode) list) \<Rightarrow> gf \<Rightarrow> isal \<Rightarrow> bool \<Rightarrow> bool \<Rightarrow> nat \<Rightarrow> nat \<Rightarrow> nat \<Rightarrow> nat \<Rightarrow> nat \<Rightarrow>
     (nat \<rightharpoonup> byte list) \<Rightarrow> byte list list option" where
  "onlineWrite ord F isal cbe be n k w pktsize sz store = do {
     ts \<leftarrow> registerOnlineEC ord F n k w;
     ts \<leftarrow> transmit_tasks cbe be ts;
     let totalNumPkt = sz div pktsize;
     let rounds = totalNumPkt div k;
     let lastNum = totalNumPkt mod k;
     qs \<leftarrow> those (map (\<lambda>i. loadWorker be store pktsize i k (if 0 < lastNum \<and> i < lastNum then rounds + 1 else rounds)
                          (0 < lastNum \<and> lastNum \<le> i)) [0..<k]);
     stripes \<leftarrow> encode_stripes F isal ts n k w pktsize (if 0 < lastNum then rounds + 1 else rounds) qs;
     those (map (\<lambda>i. writeObj (object_packets totalNumPkt k i) (map (\<lambda>s. s ! i) stripes)) [0..<n])
   }"

section \<open>Reading\<close>

text \<open>The code is systematic: the branch of \<open>readOnline\<close> for codes that are not is left out.\<close>

function fill_packet :: "(nat \<Rightarrow> nat \<Rightarrow> nat) \<Rightarrow> byte list \<Rightarrow> nat \<Rightarrow> nat \<Rightarrow> byte list" where
  "fill_packet rd obj off want =
     (let len = min (rd off want) (min want (length obj - off)) in
      if len = 0 then [] else take len (drop off obj) @ fill_packet rd obj (off + len) (want - len))"
  by auto
termination
  by (relation "measure (\<lambda>(_, _, _, want). want)") auto

declare fill_packet.simps [simp del]

lemma fill_packet_end: "length obj \<le> off \<Longrightarrow> fill_packet rd obj off want = []"
  by (simp add: fill_packet.simps)

function readObj :: "(nat \<Rightarrow> nat \<Rightarrow> nat) \<Rightarrow> nat \<Rightarrow> byte list \<Rightarrow> nat \<Rightarrow> byte list list" where
  "readObj rd pktsize obj off =
     (let p = fill_packet rd obj off pktsize in if p = [] then [] else p # readObj rd pktsize obj (off + length p))"
  by auto
termination
proof (relation "measure (\<lambda>(_, _, obj, off). length obj - off)")
  fix rd pktsize and obj :: "byte list" and off p
  assume p: "p = fill_packet rd obj off pktsize" "p \<noteq> []"
  then have "off < length obj" using fill_packet_end [of obj off rd pktsize] by (cases "off < length obj") auto
  then show "((rd, pktsize, obj, off + length p), rd, pktsize, obj, off) \<in> measure (\<lambda>(_, _, obj, off). length obj - off)"
    using p(2) by (cases p) auto
qed simp

declare readObj.simps [simp del]

text \<open>A stream is its queue and the bytes that are left of the object. One round takes a packet of every stream that has
  one.\<close>

type_synonym stream = "byte list list \<times> nat"

fun read_round :: "stream list \<Rightarrow> (byte list list \<times> stream list) option" where
  "read_round [] = Some ([], [])"
| "read_round ((q, left) # ss) =
     (if 0 < left
      then case q of
             [] \<Rightarrow> None
           | p # q \<Rightarrow> do { (ps, ss) \<leftarrow> read_round ss; Some (if p = [] then ps else p # ps, (q, left - length p) # ss) }
      else do { (ps, ss) \<leftarrow> read_round ss; Some (ps, (q, left) # ss) })"

lemma read_round_takes:
  "read_round ss = Some (ps, ss') \<Longrightarrow> sum_list (map (\<lambda>s. length (fst s)) ss') \<le> sum_list (map (\<lambda>s. length (fst s)) ss)
     \<and> (\<not> list_all (\<lambda>s. snd s = 0) ss \<longrightarrow> sum_list (map (\<lambda>s. length (fst s)) ss') < sum_list (map (\<lambda>s. length (fst s)) ss))"
proof (induction ss arbitrary: ps ss' rule: read_round.induct)
  case (2 q left ss)
  then show ?case by (cases q) (fastforce split: Option.bind_splits if_splits)+
qed simp

function read_rounds :: "stream list \<Rightarrow> byte list list option" where
  "read_rounds ss =
     (if list_all (\<lambda>s. snd s = 0) ss then Some []
      else case read_round ss of
             None \<Rightarrow> None
           | Some (ps, ss') \<Rightarrow> map_option (\<lambda>qs. ps @ qs) (read_rounds ss'))"
  by auto
termination
  by (relation "measure (\<lambda>ss. sum_list (map (\<lambda>s. length (fst s)) ss))") (auto dest: read_round_takes)

declare read_rounds.simps [simp del]

fun decode_stripes ::
    "gf \<Rightarrow> isal \<Rightarrow> ectask list \<Rightarrow> nat list \<Rightarrow> nat \<Rightarrow> nat \<Rightarrow> nat \<Rightarrow> nat \<Rightarrow> byte list list list \<Rightarrow> byte list list option" where
  "decode_stripes F isal ts idlist k w pktsize 0 qs = Some []"
| "decode_stripes F isal ts idlist k w pktsize (Suc m) qs = do {
     assertion (list_all (\<lambda>q. q \<noteq> []) qs);
     pkts \<leftarrow> decode_stripe F isal ts k w pktsize (zip idlist (map hd qs));
     ps \<leftarrow> decode_stripes F isal ts idlist k w pktsize m (map tl qs);
     Some (pkts @ ps)
   }"

definition cacheWorker :: "byte list list \<Rightarrow> nat \<Rightarrow> byte list list option" where
  "cacheWorker q num = (if num \<le> length q then Some (take num q) else None)"

definition object_exists :: "(nat \<rightharpoonup> byte list) \<Rightarrow> nat \<Rightarrow> bool" where
  "object_exists objs i = (case objs i of None \<Rightarrow> False | Some b \<Rightarrow> b \<noteq> [])"

definition readOnline ::
    "((nat \<times> ecnode) list \<Rightarrow> (nat \<times> ecnode) list) \<Rightarrow> gf \<Rightarrow> isal \<Rightarrow> bool \<Rightarrow> bool \<Rightarrow> (nat \<Rightarrow> nat \<Rightarrow> nat) \<Rightarrow> nat \<Rightarrow> nat \<Rightarrow> nat \<Rightarrow> nat \<Rightarrow> nat \<Rightarrow>
     (nat \<rightharpoonup> byte list) \<Rightarrow> byte list list option" where
  "readOnline ord F isal cbe be rd n k w pktsize sz objs = do {
     let corruptIdx = filter (\<lambda>i. \<not> object_exists objs i) [0..<n];
     let pktnum = sz div pktsize;
     if list_all (\<lambda>i. k \<le> i) corruptIdx
     then do {
       ss \<leftarrow> those (map (\<lambda>i. do { obj \<leftarrow> objs i; Some (readObj rd pktsize obj 0, length obj) }) [0..<k]);
       q \<leftarrow> read_rounds ss;
       cacheWorker q pktnum
     }
     else do {
       (load, ts) \<leftarrow> onlineDegradedInst ord F n k w corruptIdx;
       c \<leftarrow> build_instruction cbe load (length ts);
       (loadidx, computen) \<leftarrow> read_instruction be (sent c);
       ts \<leftarrow> transmit_tasks cbe be (take computen ts);
       qs \<leftarrow> those (map (\<lambda>i. do { obj \<leftarrow> objs i; Some (readObj rd pktsize obj 0) }) loadidx);
       q \<leftarrow> decode_stripes F isal ts loadidx k w pktsize (pktnum div k) qs;
       cacheWorker q pktnum
     }
   }"

fun output2file :: "byte list list \<Rightarrow> byte list" where
  "output2file [] = []"
| "output2file (p # ps) = (if p = [] then [] else p @ output2file ps)"

text \<open>The client gets the packets from redis.\<close>

definition client_read ::
    "((nat \<times> ecnode) list \<Rightarrow> (nat \<times> ecnode) list) \<Rightarrow> gf \<Rightarrow> isal \<Rightarrow> bool \<Rightarrow> bool \<Rightarrow> (nat \<Rightarrow> nat \<Rightarrow> nat) \<Rightarrow> nat \<Rightarrow> nat \<Rightarrow> nat \<Rightarrow> nat \<Rightarrow> nat \<Rightarrow>
     (nat \<rightharpoonup> byte list) \<Rightarrow> byte list option" where
  "client_read ord F isal cbe be rd n k w pktsize sz objs = do {
     q \<leftarrow> readOnline ord F isal cbe be rd n k w pktsize sz objs;
     ps \<leftarrow> those (map (\<lambda>p. OECDataPacket be (packet_raw be p)) q);
     Some (output2file ps)
   }"

section \<open>Packets come back\<close>

lemma packet_read: "length d < 2 ^ 31 \<Longrightarrow> OECDataPacket be (packet_raw be d) = Some d"
  by (simp add: OECDataPacket_def packet_raw_def net_bytes_mem mem_read_def read_net_bytes sint_length)

lemma those_map: "(\<And>x. x \<in> set xs \<Longrightarrow> f x = Some (g x)) \<Longrightarrow> those (map f xs) = Some (map g xs)"
  by (induction xs) auto

lemma output_concat: "[] \<notin> set ps \<Longrightarrow> output2file ps = concat ps"
  by (induction ps) auto

lemma fill_packet_take:
  assumes "\<And>off want. 0 < want \<Longrightarrow> 0 < rd off want"
  shows "fill_packet rd obj off want = take want (drop off obj)"
proof (induction want arbitrary: off rule: less_induct)
  case (less want)
  let ?len = "min (rd off want) (min want (length obj - off))"
  show ?case
  proof (cases "?len = 0")
    case True
    then have "want = 0 \<or> length obj \<le> off" using assms [of want off] by (auto simp: min_def split: if_splits)
    then show ?thesis using True by (auto simp: fill_packet.simps [of rd obj off want])
  next
    case False
    then have "fill_packet rd obj (off + ?len) (want - ?len) = take (want - ?len) (drop (off + ?len) obj)" by (intro less) simp
    then have "fill_packet rd obj off want = take ?len (drop off obj) @ take (want - ?len) (drop (off + ?len) obj)"
      using False by (simp add: fill_packet.simps [of rd obj off want] Let_def)
    also have "\<dots> = take (?len + (want - ?len)) (drop off obj)" unfolding take_add drop_drop by (simp add: add.commute)
    finally show ?thesis using min.cobounded2 [of "rd off want" "min want (length obj - off)"] by simp
  qed
qed

lemma readObj_concat:
  assumes "\<And>off want. 0 < want \<Longrightarrow> 0 < rd off want" "0 < sz" "\<forall>p \<in> set ps. length p = sz"
  shows "readObj rd sz (pre @ concat ps) (length pre) = ps"
  using assms(3)
proof (induction ps arbitrary: pre)
  case Nil
  then show ?case by (simp add: readObj.simps fill_packet_take [OF assms(1)])
next
  case (Cons p ps)
  have p: "fill_packet rd (pre @ concat (p # ps)) (length pre) sz = p" "p \<noteq> []"
    using Cons.prems assms(2) by (auto simp: fill_packet_take [OF assms(1)])
  have "readObj rd sz ((pre @ p) @ concat ps) (length (pre @ p)) = ps" by (rule Cons.IH) (use Cons.prems in simp)
  then show ?case using p by (subst readObj.simps) (simp add: Let_def)
qed

section \<open>Stripes\<close>

text \<open>Packet \<open>i\<close> of stripe \<open>r\<close>. The last stripe is filled with zeros.\<close>

definition stripe_packet :: "byte list list \<Rightarrow> nat \<Rightarrow> nat \<Rightarrow> nat \<Rightarrow> nat \<Rightarrow> byte list" where
  "stripe_packet pkts sz k r i = (if r * k + i < length pkts then pkts ! (r * k + i) else replicate sz 0)"

definition stripe_count :: "nat \<Rightarrow> nat \<Rightarrow> nat" where
  "stripe_count m k = (if 0 < m mod k then m div k + 1 else m div k)"

lemma object_packets_iff: "i < k \<Longrightarrow> r < object_packets m k i \<longleftrightarrow> r * k + i < m"
proof -
  assume i: "i < k"
  have m: "m = m div k * k + m mod k" "m mod k < k" using i by simp_all
  consider "r < m div k" | "r = m div k" | "m div k < r" by linarith
  then show ?thesis
  proof cases
    case 1
    then have "Suc r * k \<le> m div k * k" by (intro mult_le_mono1) simp
    then have "r * k + i < m" using i m(1) unfolding mult_Suc by linarith
    then show ?thesis using 1 by (simp add: object_packets_def Let_def)
  next
    case 2
    then have "r * k + i < m \<longleftrightarrow> i < m mod k" using m(1) by (metis nat_add_left_cancel_less)
    then show ?thesis using 2 i by (auto simp: object_packets_def Let_def)
  next
    case 3
    then have "Suc (m div k) * k \<le> r * k" by (intro mult_le_mono1) simp
    then have "m < r * k + i" using m i unfolding mult_Suc by linarith
    then show ?thesis using 3 i by (simp add: object_packets_def Let_def)
  qed
qed

lemma object_packets_le: "0 < k \<Longrightarrow> object_packets m k i \<le> stripe_count m k"
    "k dvd m \<Longrightarrow> object_packets m k i = m div k" "k dvd m \<Longrightarrow> stripe_count m k = m div k" "m div k \<le> object_packets m k i"
proof -
  assume "0 < k"
  then have "\<not> (i < m mod k \<and> k \<le> i)" using mod_less_divisor [of k m] by linarith
  then show "object_packets m k i \<le> stripe_count m k" by (auto simp: object_packets_def stripe_count_def Let_def)
qed (auto simp: object_packets_def stripe_count_def Let_def)

lemma stripe_packet_length: "\<forall>p \<in> set pkts. length p = sz \<Longrightarrow> length (stripe_packet pkts sz k r i) = sz"
  by (simp add: stripe_packet_def)

lemma load_ok:
  assumes "\<And>j. j < length pkts \<Longrightarrow> store j = Some (packet_raw be (pkts ! j))" "\<forall>p \<in> set pkts. length p = sz" "sz < 2 ^ 31" "i < k"
  defines "m \<equiv> length pkts"
  shows "loadWorker be store sz i k (if 0 < m mod k \<and> i < m mod k then m div k + 1 else m div k) (0 < m mod k \<and> m mod k \<le> i)
     = Some (map (\<lambda>r. stripe_packet pkts sz k r i) [0..<stripe_count m k])"
proof -
  have c: "(if 0 < m mod k \<and> i < m mod k then m div k + 1 else m div k) = object_packets m k i"
    using assms(4) by (simp add: object_packets_def Let_def)
  have "those (map (\<lambda>r. do { raw \<leftarrow> store (i + r * k); OECDataPacket be raw }) [0..<object_packets m k i])
      = Some (map (\<lambda>r. stripe_packet pkts sz k r i) [0..<object_packets m k i])"
  proof (rule those_map)
    fix r assume "r \<in> set [0..<object_packets m k i]"
    then have "i + r * k < length pkts" using object_packets_iff [OF assms(4), of r m] by (simp add: m_def add.commute)
    then show "do { raw \<leftarrow> store (i + r * k); OECDataPacket be raw } = Some (stripe_packet pkts sz k r i)"
      using assms(1-3) packet_read by (simp add: stripe_packet_def add.commute)
  qed
  moreover have "map (\<lambda>r. stripe_packet pkts sz k r i) [0..<object_packets m k i] @ (if 0 < m mod k \<and> m mod k \<le> i then [replicate sz 0] else [])
      = map (\<lambda>r. stripe_packet pkts sz k r i) [0..<stripe_count m k]"
  proof (cases "0 < m mod k \<and> m mod k \<le> i")
    case True
    then have e: "object_packets m k i = m div k" "stripe_count m k = Suc (m div k)" using assms(4) by (auto simp: object_packets_def stripe_count_def Let_def)
    then have "\<not> m div k * k + i < m" using object_packets_iff [OF assms(4), of "m div k" m] by simp
    then show ?thesis using True e by (simp add: stripe_packet_def m_def)
  next
    case False
    then have "object_packets m k i = stripe_count m k" using assms(4) by (auto simp: object_packets_def stripe_count_def Let_def)
    then show ?thesis using False by simp
  qed
  ultimately show ?thesis unfolding loadWorker_def c by simp
qed

lemma map_queue_steps: "a < b \<Longrightarrow> map hd (map (\<lambda>i. map (\<lambda>r. f r i) [a..<b]) is) = map (f a) is"
    "a < b \<Longrightarrow> map tl (map (\<lambda>i. map (\<lambda>r. f r i) [a..<b]) is) = map (\<lambda>i. map (\<lambda>r. f r i) [Suc a..<b]) is"
    "a < b \<Longrightarrow> list_all (\<lambda>q. q \<noteq> []) (map (\<lambda>i. map (\<lambda>r. f r i) [a..<b]) is)"
  by (simp_all add: upt_conv_Cons list_all_iff)

lemma encode_stripes_ok:
  assumes "\<And>r. encode_stripe F isal ts n k w sz (map (f r) [0..<k]) = Some (g r)" "a \<le> b"
  shows "encode_stripes F isal ts n k w sz (b - a) (map (\<lambda>i. map (\<lambda>r. f r i) [a..<b]) [0..<k]) = Some (map g [a..<b])"
  using assms(2)
proof (induction "b - a" arbitrary: a)
  case (Suc m)
  then have "b - a = Suc m" "a < b" and m: "m = b - Suc a" by simp_all
  moreover have "encode_stripes F isal ts n k w sz m (map (\<lambda>i. map (\<lambda>r. f r i) [Suc a..<b]) [0..<k]) = Some (map g [Suc a..<b])"
    using Suc.hyps(1) [of "Suc a"] Suc.hyps(2) by (simp add: m)
  ultimately show ?case using map_queue_steps [of a b f "[0..<k]"] assms(1) by (simp add: upt_conv_Cons del: map_map)
qed simp

lemma decode_stripes_ok:
  assumes "\<And>r. decode_stripe F isal ts k w sz (map (\<lambda>i. (i, f r i)) load) = Some (g r)" "a \<le> b"
  shows "decode_stripes F isal ts load k w sz (b - a) (map (\<lambda>i. map (\<lambda>r. f r i) [a..<b]) load) = Some (concat (map g [a..<b]))"
  using assms(2)
proof (induction "b - a" arbitrary: a)
  case (Suc m)
  then have "b - a = Suc m" "a < b" and m: "m = b - Suc a" by simp_all
  moreover have "decode_stripes F isal ts load k w sz m (map (\<lambda>i. map (\<lambda>r. f r i) [Suc a..<b]) load) = Some (concat (map g [Suc a..<b]))"
    using Suc.hyps(1) [of "Suc a"] Suc.hyps(2) by (simp add: m)
  moreover have "zip load (map (f a) load) = map (\<lambda>i. (i, f a i)) load" by (induction load) auto
  ultimately show ?case using map_queue_steps [of a b f load] assms(1) by (simp add: upt_conv_Cons del: map_map)
qed simp

section \<open>Reading without repair\<close>

lemma filter_less_upt: "filter (\<lambda>i. i < m) [0..<k] = [0..<min k m]"
  by (induction k) auto

lemma stripe_take: "map (stripe_packet pkts sz k a) (filter (\<lambda>i. a * k + i < length pkts) [0..<k]) = take k (drop (a * k) pkts)"
proof -
  have "filter (\<lambda>i. a * k + i < length pkts) [0..<k] = filter (\<lambda>i. i < length pkts - a * k) [0..<k]" by (rule filter_cong) auto
  then have "map (stripe_packet pkts sz k a) (filter (\<lambda>i. a * k + i < length pkts) [0..<k])
      = map (stripe_packet pkts sz k a) [0..<min k (length pkts - a * k)]" by (simp add: filter_less_upt)
  also have "\<dots> = take k (drop (a * k) pkts)" by (rule nth_equalityI) (auto simp: stripe_packet_def)
  finally show ?thesis .
qed

lemma concat_take: "concat (map (\<lambda>r. take k (drop (r * k) xs)) [0..<q]) = take (q * k) xs"
proof (induction q)
  case (Suc q)
  then show ?case using take_add [of "q * k" k xs] by (simp add: add.commute)
qed simp

lemma stream_round:
  assumes "\<And>i. i \<in> set is \<Longrightarrow> length (f i) = sz" "0 < sz"
  shows "read_round (map (\<lambda>i. (if a < c i then f i # q i else [], (c i - a) * sz)) is)
     = Some (map f (filter (\<lambda>i. a < c i) is), map (\<lambda>i. (if a < c i then q i else [], (c i - Suc a) * sz)) is)"
  using assms(1)
proof (induction "is")
  case (Cons i "is")
  show ?case
  proof (cases "a < c i")
    case True
    have "(c i - a) * sz - sz = (c i - Suc a) * sz" using True by (metis Suc_diff_Suc diff_add_inverse mult_Suc)
    moreover have "f i \<noteq> []" "length (f i) = sz" using Cons.prems assms(2) by auto
    ultimately show ?thesis using True Cons assms(2) by simp
  next
    case False
    then show ?thesis using Cons by simp
  qed
qed simp

lemma read_rounds_ok:
  assumes "\<forall>p \<in> set pkts. length p = sz" "0 < sz" "0 < k"
  defines "c \<equiv> object_packets (length pkts) k"
  shows "read_rounds (map (\<lambda>i. (map (\<lambda>r. stripe_packet pkts sz k r i) [a..<c i], (c i - a) * sz)) [0..<k]) = Some (drop (a * k) pkts)"
proof (induction "length pkts - a" arbitrary: a rule: less_induct)
  case less
  let ?s = "\<lambda>a i. (map (\<lambda>r. stripe_packet pkts sz k r i) [a..<c i], (c i - a) * sz)"
  have c: "a < c i \<longleftrightarrow> a * k + i < length pkts" if "i < k" for i a using object_packets_iff [OF that] by (simp add: c_def)
  show ?case
  proof (cases "a * k < length pkts")
    case False
    then have "list_all (\<lambda>s. snd s = 0) (map (?s a) [0..<k])" using c by (fastforce simp: list_all_iff not_less [symmetric])
    then show ?thesis using False by (simp add: read_rounds.simps)
  next
    case True
    have al: "a < length pkts" using True assms(3) by (metis le_less_trans mult.commute mult_le_mono2 nat_mult_1 Suc_leI One_nat_def)
    have ne: "\<not> list_all (\<lambda>s. snd s = 0) (map (?s a) [0..<k])" using c [of 0 a] True assms(2,3) by (auto simp: list_all_iff intro!: bexI [of _ 0])
    have s: "map (?s a) [0..<k] = map (\<lambda>i. (if a < c i then stripe_packet pkts sz k a i # map (\<lambda>r. stripe_packet pkts sz k r i) [Suc a..<c i] else [], (c i - a) * sz)) [0..<k]"
      by (auto simp: upt_conv_Cons)
    have s': "map (\<lambda>i. (if a < c i then map (\<lambda>r. stripe_packet pkts sz k r i) [Suc a..<c i] else [], (c i - Suc a) * sz)) [0..<k] = map (?s (Suc a)) [0..<k]"
      by auto
    have "read_round (map (?s a) [0..<k]) = Some (map (stripe_packet pkts sz k a) (filter (\<lambda>i. a < c i) [0..<k]), map (?s (Suc a)) [0..<k])"
      unfolding s s' [symmetric] by (rule stream_round [OF _ assms(2)]) (simp add: stripe_packet_length [OF assms(1)])
    moreover have "map (stripe_packet pkts sz k a) (filter (\<lambda>i. a < c i) [0..<k]) = take k (drop (a * k) pkts)"
      using stripe_take [of pkts sz k a] c by (metis (mono_tags, lifting) filter_cong atLeast_upt lessThan_iff)
    moreover have "read_rounds (map (?s (Suc a)) [0..<k]) = Some (drop (Suc a * k) pkts)" by (rule less) (use al in simp)
    ultimately have "read_rounds (map (?s a) [0..<k]) = Some (take k (drop (a * k) pkts) @ drop (Suc a * k) pkts)"
      using ne by (simp add: read_rounds.simps [of "map (?s a) [0..<k]"])
    also have "\<dots> = Some (drop (a * k) pkts)" by (metis append_take_drop_id drop_drop mult_Suc)
    finally show ?thesis .
  qed
qed

section \<open>Objects\<close>

text \<open>Object \<open>i\<close>: its blocks of all stripes, without the zeros of the last.\<close>

definition block_of :: "gf \<Rightarrow> nat \<Rightarrow> nat \<Rightarrow> nat \<Rightarrow> nat \<Rightarrow> byte list list \<Rightarrow> nat \<Rightarrow> nat \<Rightarrow> byte list" where
  "block_of F n k w ss pkts r i = stripe_block F n k w ss (map (stripe_packet pkts (w * ss) k r) [0..<k]) i"

definition object_of :: "gf \<Rightarrow> nat \<Rightarrow> nat \<Rightarrow> nat \<Rightarrow> nat \<Rightarrow> byte list list \<Rightarrow> nat \<Rightarrow> byte list" where
  "object_of F n k w ss pkts i = concat (map (\<lambda>r. block_of F n k w ss pkts r i) [0..<object_packets (length pkts) k i])"

lemma block_of_stripe: "block_of F n k w ss pkts r = stripe_block F n k w ss (map (stripe_packet pkts (w * ss) k r) [0..<k])"
  by (simp add: block_of_def fun_eq_iff)

lemma block_length: "length (block_of F n k w ss pkts r i) = w * ss"
  by (simp add: block_of_def length_stripe_block)

lemma object_length: "length (object_of F n k w ss pkts i) = object_packets (length pkts) k i * (w * ss)"
  by (simp add: object_of_def length_concat comp_def block_length sum_list_triv)

lemma object_read:
  assumes "\<And>off want. 0 < want \<Longrightarrow> 0 < rd off want" "0 < w * ss"
  shows "readObj rd (w * ss) (object_of F n k w ss pkts i) 0 = map (\<lambda>r. block_of F n k w ss pkts r i) [0..<object_packets (length pkts) k i]"
  using readObj_concat [where rd = rd and pre = "[]" and ps = "map (\<lambda>r. block_of F n k w ss pkts r i) [0..<object_packets (length pkts) k i]", OF assms]
  by (simp add: object_of_def block_length)

context erasure_library
begin

lemma data_blocks: "\<forall>p \<in> set pkts. length p = w * ss \<Longrightarrow> i < k \<Longrightarrow> block_of F n k w ss pkts r i = stripe_packet pkts (w * ss) k r i"
  using data_block [of i k "map (stripe_packet pkts (w * ss) k r) [0..<k]" w ss n] by (simp add: block_of_def stripe_packet_length)

lemma write_ok:
  assumes "0 < w" "0 < k" "k \<le> n" "n \<le> 128" "n * w \<le> 2 ^ 31" "w * ss < 2 ^ 31" "\<And>xs. mset (ord xs) = mset xs"
    and pk: "\<forall>p \<in> set pkts. length p = w * ss" "sz div (w * ss) = length pkts" "\<And>j. j < length pkts \<Longrightarrow> store j = Some (packet_raw be (pkts ! j))"
  shows "onlineWrite ord F isal cbe be n k w (w * ss) sz store = Some (map (object_of F n k w ss pkts) [0..<n])"
proof -
  let ?sp = "stripe_packet pkts (w * ss) k" and ?m = "length pkts"
  have sl: "\<forall>p \<in> set (map (?sp r) [0..<k]). length p = w * ss" for r by (simp add: stripe_packet_length [OF pk(1)])
  have enc: "\<exists>ts. registerOnlineEC ord F n k w = Some ts \<and> (\<forall>t \<in> set ts. small_task (n * w) k t)
     \<and> encode_stripe F isal ts n k w (w * ss) (map (?sp r) [0..<k]) = Some (map (block_of F n k w ss pkts r) [0..<n])" for r
    using encode_ok [OF assms(1-3) _ sl assms(7), of r] by (simp add: block_of_stripe)
  then obtain ts where ts: "registerOnlineEC ord F n k w = Some ts" "\<forall>t \<in> set ts. small_task (n * w) k t" by blast
  have tr: "transmit_tasks cbe be ts = Some ts" by (rule transmit_ok [OF assms(5) _ ts(2)]) (use assms(3,4) in simp)
  have es: "encode_stripe F isal ts n k w (w * ss) (map (?sp r) [0..<k]) = Some (map (block_of F n k w ss pkts r) [0..<n])" for r
    using enc [of r] ts(1) by auto
  let ?l = "\<lambda>i. loadWorker be store (w * ss) i k (if 0 < ?m mod k \<and> i < ?m mod k then ?m div k + 1 else ?m div k) (0 < ?m mod k \<and> ?m mod k \<le> i)"
  have ld: "those (map ?l [0..<k]) = Some (map (\<lambda>i. map (\<lambda>r. ?sp r i) [0..<stripe_count ?m k]) [0..<k])"
    by (rule those_map) (use load_ok [OF pk(3,1) assms(6)] in simp)
  have st: "encode_stripes F isal ts n k w (w * ss) (if 0 < ?m mod k then ?m div k + 1 else ?m div k)
      (map (\<lambda>i. map (\<lambda>r. ?sp r i) [0..<stripe_count ?m k]) [0..<k]) = Some (map (\<lambda>r. map (block_of F n k w ss pkts r) [0..<n]) [0..<stripe_count ?m k])"
    using encode_stripes_ok [OF es, of 0 "stripe_count ?m k"] by (simp add: stripe_count_def)
  have "those (map (\<lambda>i. writeObj (object_packets ?m k i) (map (\<lambda>s. s ! i) (map (\<lambda>r. map (block_of F n k w ss pkts r) [0..<n]) [0..<stripe_count ?m k]))) [0..<n])
      = Some (map (object_of F n k w ss pkts) [0..<n])"
    by (rule those_map) (use object_packets_le(1) [OF assms(2), of ?m] in \<open>auto simp: writeObj_def object_of_def take_map comp_def\<close>)
  then show ?thesis unfolding onlineWrite_def using ts(1) tr ld st pk(2) by (simp add: Let_def)
qed

lemma read_healthy:
  assumes "0 < k" "0 < w * ss" "\<And>off want. 0 < want \<Longrightarrow> 0 < rd off want" "\<forall>p \<in> set pkts. length p = w * ss" "sz div (w * ss) = length pkts"
    and objs: "\<And>i. i < k \<Longrightarrow> objs i = Some (object_of F n k w ss pkts i)" "k \<le> length pkts"
  shows "readOnline ord F isal cbe be rd n k w (w * ss) sz objs = Some pkts"
proof -
  have "0 < length pkts div k" using objs(2) assms(1) by (simp add: div_greater_zero_iff)
  then have "object_of F n k w ss pkts i \<noteq> []" for i
    using object_length [of F n k w ss pkts i] object_packets_le(4) [of "length pkts" k i] assms(2) by (metis less_le_trans list.size(3) mult_eq_0_iff neq0_conv)
  then have c: "list_all (\<lambda>i. k \<le> i) (filter (\<lambda>i. \<not> object_exists objs i) [0..<n])"
    using objs(1) by (fastforce simp: list_all_iff object_exists_def not_less [symmetric])
  have "those (map (\<lambda>i. do { obj \<leftarrow> objs i; Some (readObj rd (w * ss) obj 0, length obj) }) [0..<k])
      = Some (map (\<lambda>i. (map (\<lambda>r. stripe_packet pkts (w * ss) k r i) [0..<object_packets (length pkts) k i], (object_packets (length pkts) k i - 0) * (w * ss))) [0..<k])"
    by (rule those_map) (simp add: objs(1) object_read [OF assms(3,2)] object_length data_blocks [OF assms(4)])
  moreover note read_rounds_ok [OF assms(4,2,1), of 0]
  ultimately show ?thesis using c assms(5) by (simp add: readOnline_def Let_def cacheWorker_def)
qed

lemma read_degraded:
  fixes lost :: "nat list"
  assumes "0 < w" "0 < k" "k \<le> n" "n \<le> 128" "n * w < 2 ^ 31" "0 < w * ss" "\<And>xs. mset (ord xs) = mset xs" "\<And>off want. 0 < want \<Longrightarrow> 0 < rd off want"
    and pk: "\<forall>p \<in> set pkts. length p = w * ss" "sz div (w * ss) = length pkts" "k \<le> length pkts" "k dvd length pkts"
    and objs: "\<And>i. i < n \<Longrightarrow> objs i = (if i \<in> set lost then None else Some (object_of F n k w ss pkts i))"
  defines "left \<equiv> filter (\<lambda>i. i \<notin> set lost) [0..<n]"
  assumes lf: "k \<le> length left" "fst (jerasure_invert_matrix F (map (\<lambda>i. generate_matrix F n k ! (left ! i)) [0..<k]) k)" "\<exists>i<k. i \<in> set lost"
  shows "readOnline ord F isal cbe be rd n k w (w * ss) sz objs = Some pkts"
proof -
  let ?sp = "stripe_packet pkts (w * ss) k" and ?m = "length pkts" and ?corrupt = "filter (\<lambda>i. \<not> object_exists objs i) [0..<n]"
  have "0 < ?m div k" using pk(3) assms(2) by (simp add: div_greater_zero_iff)
  then have "object_of F n k w ss pkts i \<noteq> []" for i
    using object_length [of F n k w ss pkts i] object_packets_le(4) [of ?m k i] assms(6) by (metis less_le_trans list.size(3) mult_eq_0_iff neq0_conv)
  then have ex: "object_exists objs i \<longleftrightarrow> i \<notin> set lost" if "i < n" for i using objs [OF that] by (simp add: object_exists_def)
  have cor: "filter (\<lambda>i. i \<notin> set ?corrupt) [0..<n] = left" unfolding left_def by (rule filter_cong) (auto simp: ex)
  obtain x where x: "x < k" "x \<in> set lost" using lf(3) by blast
  then have "x \<in> set ?corrupt" using ex [of x] assms(3) by simp
  then have bad: "\<not> list_all (\<lambda>i. k \<le> i) ?corrupt" using x(1) unfolding list_all_iff by (meson leD)
  have sl: "\<forall>p \<in> set (map (?sp r) [0..<k]). length p = w * ss" for r by (simp add: stripe_packet_length [OF pk(1)])
  have dec: "\<exists>load ts. onlineDegradedInst ord F n k w ?corrupt = Some (load, ts) \<and> set load \<subseteq> set left \<and> distinct load
      \<and> (\<forall>t \<in> set ts. small_task (n * w) k t) \<and> length ts \<le> k * w
      \<and> decode_stripe F isal ts k w (w * ss) (map (\<lambda>i. (i, block_of F n k w ss pkts r i)) load) = Some (map (?sp r) [0..<k])" for r
    using decode_ok [where corrupt = ?corrupt and n = n, unfolded cor, OF assms(1-3) _ sl assms(7) lf(1,2), of r] by (simp add: block_of_stripe)
  then obtain load ts where d: "onlineDegradedInst ord F n k w ?corrupt = Some (load, ts)" "set load \<subseteq> set left" "distinct load"
    "\<forall>t \<in> set ts. small_task (n * w) k t" "length ts \<le> k * w" by blast
  have ds: "decode_stripe F isal ts k w (w * ss) (map (\<lambda>i. (i, block_of F n k w ss pkts r i)) load) = Some (map (?sp r) [0..<k])" for r
    using dec [of r] d(1) by auto
  have "length load = card (set load)" using distinct_card [OF d(3)] by simp
  also have "\<dots> \<le> card {..<n}" using d(2) by (intro card_mono) (auto simp: left_def)
  finally have "length load \<le> 254" using assms(4) by simp
  moreover have "\<forall>i \<in> set load. i < 2 ^ 31" using d(2) assms(4) by (auto simp: left_def)
  moreover have "k * w \<le> n * w" using assms(3) by simp
  then have "length ts < 2 ^ 31" using d(5) assms(5) by linarith
  ultimately obtain c where c: "build_instruction cbe load (length ts) = Some c" "read_instruction be (sent c) = Some (load, length ts)"
    using instruction_arrives by blast
  have tr: "transmit_tasks cbe be ts = Some ts" by (rule transmit_ok [OF _ _ d(4)]) (use assms(3-5) in simp_all)
  have qs: "those (map (\<lambda>i. do { obj \<leftarrow> objs i; Some (readObj rd (w * ss) obj 0) }) load) = Some (map (\<lambda>i. map (\<lambda>r. block_of F n k w ss pkts r i) [0..<?m div k]) load)"
  proof (rule those_map)
    fix i assume "i \<in> set load"
    then have "i < n" "i \<notin> set lost" using d(2) by (auto simp: left_def)
    then show "do { obj \<leftarrow> objs i; Some (readObj rd (w * ss) obj 0) } = Some (map (\<lambda>r. block_of F n k w ss pkts r i) [0..<?m div k])"
      using objs object_read [OF assms(8,6)] object_packets_le(2) [OF pk(4)] by simp
  qed
  have "concat (map (\<lambda>r. map (?sp r) [0..<k]) [0..<?m div k]) = pkts"
  proof -
    have "map (?sp r) [0..<k] = take k (drop (r * k) pkts)" if "r < ?m div k" for r
    proof -
      have "r * k + i < ?m" if "i < k" for i using object_packets_iff [OF that, of r ?m] object_packets_le(4) [of ?m k i] \<open>r < ?m div k\<close> by simp
      then have "filter (\<lambda>i. r * k + i < ?m) [0..<k] = [0..<k]" by (simp add: filter_id_conv)
      then show ?thesis using stripe_take [of pkts "w * ss" k r] by simp
    qed
    then have "concat (map (\<lambda>r. map (?sp r) [0..<k]) [0..<?m div k]) = concat (map (\<lambda>r. take k (drop (r * k) pkts)) [0..<?m div k])"
      by (intro arg_cong [where f = concat] map_cong) auto
    then show ?thesis using pk(4) by (simp add: concat_take)
  qed
  then have "decode_stripes F isal ts load k w (w * ss) (?m div k) (map (\<lambda>i. map (\<lambda>r. block_of F n k w ss pkts r i) [0..<?m div k]) load) = Some pkts"
    using decode_stripes_ok [OF ds, of 0 "?m div k"] by simp
  then show ?thesis using bad d(1) c tr qs pk(2) by (simp add: readOnline_def Let_def cacheWorker_def)
qed

end

section \<open>Files come back\<close>

lemma packets_of_file:
  assumes "0 < sz" "sz dvd length input"
  defines "pkts \<equiv> map (packet_split sz input) [0..<length input div sz]"
  shows "\<forall>p \<in> set pkts. length p = sz" "length input div sz = length pkts" "concat pkts = input"
    "\<And>j. j < length pkts \<Longrightarrow> client_write be sz (length input) input j = Some (packet_raw be (pkts ! j))"
proof -
  have l: "length (packet_split sz input j) = sz" if "j < length input div sz" for j
  proof -
    have "Suc j * sz \<le> length input div sz * sz" using that by (intro mult_le_mono1) simp
    then have "j * sz + sz \<le> length input" using assms(2) by simp
    then show ?thesis by (simp add: packet_split_def)
  qed
  then show "\<forall>p \<in> set pkts. length p = sz" "length input div sz = length pkts" by (auto simp: pkts_def)
  show "concat pkts = input" unfolding pkts_def using split_concat [of sz input "length input div sz"] assms(2) by simp
  show "client_write be sz (length input) input j = Some (packet_raw be (pkts ! j))" if "j < length pkts" for j
    using that l [of j] by (simp add: client_write_def pkts_def packet_split_def)
qed

lemma file_delivered:
  assumes "readOnline ord F isal cbe be rd n k w sz total' objs = Some pkts" "\<forall>p \<in> set pkts. length p = sz" "0 < sz" "sz < 2 ^ 31"
  shows "client_read ord F isal cbe be rd n k w sz total' objs = Some (concat pkts)"
proof -
  have "those (map (\<lambda>p. OECDataPacket be (packet_raw be p)) pkts) = Some (map (\<lambda>p. p) pkts)"
    by (rule those_map) (use assms(2,4) packet_read in simp)
  moreover have "[] \<notin> set pkts" using assms(2,3) by auto
  ultimately show ?thesis using assms(1) by (simp add: client_read_def output_concat)
qed



section \<open>Stripes that are not full\<close>

lemma decode_stripes_length: "decode_stripes F isal ts idlist k w pktsize m qs = Some q \<Longrightarrow> length q = m * k"
  by (induction m arbitrary: qs q) (auto simp: decode_stripe_def Let_def split: Option.bind_splits)

text \<open>C20: A file whose packets do not fill the last stripe is not read while a data object is missing: the compute thread
  decodes only the full stripes, and the thread that hands the packets to the client waits for the others. An object
  without bytes counts as missing, so that a file of fewer packets than a stripe is never read back.\<close>

theorem partial_stripe_not_read:
  assumes "\<not> k dvd sz div pktsize" "i < k" "k \<le> n" "\<not> object_exists objs i"
  shows "readOnline ord F isal cbe be rd n k w pktsize sz objs = None"
proof -
  let ?corrupt = "filter (\<lambda>i. \<not> object_exists objs i) [0..<n]"
  have "i \<in> set ?corrupt" using assms(2-4) by simp
  then have "\<not> list_all (\<lambda>i. k \<le> i) ?corrupt" using assms(2) unfolding list_all_iff by (meson leD)
  moreover have "sz div pktsize div k * k < sz div pktsize"
    using assms(1,2) by (metis dvd_eq_mod_eq_0 div_mod_decomp less_add_same_cancel1 neq0_conv)
  then have "cacheWorker q (sz div pktsize) = None" if "decode_stripes F isal ts l k w pktsize (sz div pktsize div k) qs = Some q" for ts l qs q
    using decode_stripes_length [OF that] by (simp add: cacheWorker_def)
  ultimately show ?thesis by (auto simp: readOnline_def Let_def split: Option.bind_splits)
qed

theorem partial_stripe_not_read_witness:
  "case onlineWrite id gf_w8 isal_w8 False False 3 2 1 1 1 (client_write False 1 1 [5]) of None \<Rightarrow> False
   | Some objs \<Rightarrow> objs = [[5], [], [5]] \<and> readOnline id gf_w8 isal_w8 False False (\<lambda>off want. 1) 3 2 1 1 1 (\<lambda>i. Some (objs ! i)) = None"
proof -
  have "onlineWrite id gf_w8 isal_w8 False False 3 2 1 (1 * 1) 1 (client_write False 1 1 [5]) = Some (map (object_of gf_w8 3 2 1 1 [[5]]) [0..<3])"
    by (rule w8rs.write_ok) (simp_all add: client_write_def)
  moreover have "map (object_of gf_w8 3 2 1 1 [[5]]) [0..<3] = [[5], [], [5]]" by code_simp
  ultimately have "onlineWrite id gf_w8 isal_w8 False False 3 2 1 1 1 (client_write False 1 1 [5]) = Some [[5], [], [5]]" by simp
  then show ?thesis
    using partial_stripe_not_read [of 2 1 1 1 3 "\<lambda>i. Some ([[5], [], [5]] ! i)" id gf_w8 isal_w8 False False "\<lambda>off want. 1" 1]
    by (simp add: object_exists_def)
qed

end
