(* ===== verification/Index_Invariant.thy ===== *)
theory Index_Invariant
  imports Fingerprint_Index
begin

unbundle bit_operations_syntax

text \<open>
  The invariant that ties the index buffer to the chunks between the deduplication phase and
  the filter phase. \<open>holds i fp\<close> says that container \<open>i\<close> stores a chunk with fingerprint \<open>fp\<close>;
  \<open>inbuf fp\<close> that the open container does. For every fingerprint the buffer has one element
  per pending chunk; a pending chunk that is not marked as duplicate is the first pending
  chunk with its fingerprint, and its fingerprint is not in the open container.
\<close>

section \<open>Sound units\<close>

type_synonym location = "containerid \<Rightarrow> fingerprint \<Rightarrow> bool"

definition meta_sound :: "location \<Rightarrow> containerMeta \<Rightarrow> bool" where
  "meta_sound holds cm = (\<forall>fp. lookup_fingerprint_in_container_meta cm fp \<longrightarrow> holds (cm_id cm) fp)"

definition recipe_sound :: "location \<Rightarrow> segmentRecipe \<Rightarrow> bool" where
  "recipe_sound holds sr = (\<forall>fp cp. map_of (sr_kvpairs sr) fp = Some cp \<longrightarrow> holds (cp_id cp) fp)"

definition cache_sound :: "location \<Rightarrow> fcache \<Rightarrow> bool" where
  "cache_sound holds fc = (case fc of
      Physical c \<Rightarrow> (\<forall>cm \<in> set (elem_queue c). meta_sound holds cm)
        \<and> hit_elem c = lookup_fingerprint_in_container_meta \<and> lru_inv c
    | Logical c \<Rightarrow> (\<forall>sr \<in> set (elem_queue c). recipe_sound holds sr)
        \<and> hit_elem c = lookup_fingerprint_in_segment_recipe \<and> lru_inv c)"

definition units_sound :: "location \<Rightarrow> units \<Rightarrow> bool" where
  "units_sound holds u =
     ((\<forall>i cm. fetch_container u i = Some cm \<longrightarrow> meta_sound holds cm)
      \<and> (\<forall>i srs. fetch_segments u i = Some srs \<longrightarrow> (\<forall>sr \<in> set srs. recipe_sound holds sr)))"

lemma cache_lookup_sound:
  assumes "cache_sound holds (ix_cache ix)" "fingerprint_cache_lookup ix fp = Some (i, ix')"
  shows "(i \<noteq> TEMPORARY_ID \<longrightarrow> holds i fp) \<and> cache_sound holds (ix_cache ix')
     \<and> (\<exists>fc. ix' = ix\<lparr>ix_cache := fc\<rparr>)"
proof (cases "ix_cache ix")
  case (Physical c)
  let ?c' = "snd (lru_cache_lookup c fp)"
  have c: "\<forall>cm \<in> set (elem_queue c). meta_sound holds cm" "hit_elem c = lookup_fingerprint_in_container_meta" "lru_inv c"
    using assms(1) Physical by (auto simp: cache_sound_def)
  have ix': "ix' = ix\<lparr>ix_cache := Physical ?c'\<rparr>"
    using assms(2) Physical by (auto simp: fingerprint_cache_lookup_def split: prod.splits option.splits)
  moreover have "cache_sound holds (Physical ?c')"
    using c lru.lookup_invar [of c fp] by (simp add: cache_sound_def frame_simps)
  moreover have "holds i fp" if "i \<noteq> TEMPORARY_ID"
    using assms(2) Physical c that lru_lookup_hit [of c fp]
    by (auto simp: fingerprint_cache_lookup_def meta_sound_def split: prod.splits option.splits)
  ultimately show ?thesis by auto
next
  case (Logical c)
  let ?c' = "snd (lru_cache_lookup c fp)"
  have c: "\<forall>sr \<in> set (elem_queue c). recipe_sound holds sr" "hit_elem c = lookup_fingerprint_in_segment_recipe" "lru_inv c"
    using assms(1) Logical by (auto simp: cache_sound_def)
  have ix': "ix' = ix\<lparr>ix_cache := Logical ?c'\<rparr>"
    using assms(2) Logical by (auto simp: fingerprint_cache_lookup_def bind_eq_Some_conv split: prod.splits option.splits)
  moreover have "cache_sound holds (Logical ?c')"
    using c lru.lookup_invar [of c fp] by (simp add: cache_sound_def frame_simps)
  moreover have "holds i fp" if "i \<noteq> TEMPORARY_ID"
    using assms(2) Logical c that lru_lookup_hit [of c fp]
    by (auto simp: fingerprint_cache_lookup_def recipe_sound_def bind_eq_Some_conv split: prod.splits option.splits)
  ultimately show ?thesis by auto
qed

lemma cache_segment_sound:
  assumes "cache_sound holds (Logical c)" "recipe_sound holds sr"
  shows "\<exists>c'. cache_segment sr c = Some c' \<and> cache_sound holds (Logical c')"
proof -
  let ?h = "lru_cache_hits c (sr_id sr) segment_recipe_check_id"
  have h: "cache_sound holds (Logical (snd ?h))"
    using assms(1) lru_inv_hits [of c] by (simp add: cache_sound_def frame_simps)
  then obtain v c' where "lru_cache_insert (snd ?h) sr = Some (v, c')" "lru_inv c'"
    using lru_inv_insert [of "snd ?h" sr] by (auto simp: cache_sound_def)
  moreover from this h assms(2) have "\<forall>e \<in> set (elem_queue c'). recipe_sound holds e"
    using lru.all_elems_insert [of "snd ?h" "recipe_sound holds" sr v c'] by (simp add: cache_sound_def)
  ultimately show ?thesis using h lru_insert_frame [of "snd ?h" sr v c']
    by (auto simp: cache_segment_def cache_sound_def split: prod.splits option.splits)
qed

lemma cache_segments_sound:
  "cache_sound holds (Logical c) \<Longrightarrow> \<forall>sr \<in> set srs. recipe_sound holds sr \<Longrightarrow>
     \<exists>c'. fold_opt cache_segment srs c = Some c' \<and> cache_sound holds (Logical c')"
  using fold_opt_invariant [of "\<lambda>c. cache_sound holds (Logical c)" c srs cache_segment] cache_segment_sound by blast

lemma prefetch_sound:
  assumes "cache_sound holds (ix_cache ix)" "units_sound holds u" "fingerprint_cache_prefetch u ix i = Some ix'"
  shows "cache_sound holds (ix_cache ix') \<and> ix_kv ix' = ix_kv ix
     \<and> buffered_fingerprints ix' = buffered_fingerprints ix \<and> ix_chunk_num ix' = ix_chunk_num ix"
proof (cases "ix_cache ix")
  case (Physical c)
  with assms obtain cm v c' where "fetch_container u i = Some cm" "lru_cache_insert c cm = Some (v, c')"
    "ix' = ix\<lparr>ix_cache := Physical c', read_prefetching_units := read_prefetching_units ix + 1\<rparr>"
    by (auto simp: fingerprint_cache_prefetch_def bind_eq_Some_conv split: prod.splits)
  moreover have "lru_inv c'" using calculation(2) lru_inv_insert [of c cm] assms(1) Physical by (auto simp: cache_sound_def)
  ultimately show ?thesis using assms(1,2) Physical lru_insert_frame [of c cm v c']
    by (auto simp: cache_sound_def units_sound_def)
next
  case (Logical c)
  let ?h = "lru_cache_hits c i segment_recipe_check_id"
  have h: "cache_sound holds (Logical (snd ?h))"
    using assms(1) Logical lru_inv_hits [of c] by (simp add: cache_sound_def frame_simps)
  show ?thesis
  proof (cases "fst ?h")
    case None
    with assms(3) Logical obtain srs c'' where s: "fetch_segments u i = Some srs"
      "fold_opt cache_segment (rev srs) (snd ?h) = Some c''"
      "ix' = ix\<lparr>ix_cache := Logical c'', read_prefetching_units := read_prefetching_units ix + 1\<rparr>"
      by (auto simp: fingerprint_cache_prefetch_def bind_eq_Some_conv split: prod.splits)
    have "\<forall>sr \<in> set (rev srs). recipe_sound holds sr" using s(1) assms(2) by (auto simp: units_sound_def)
    from cache_segments_sound [OF h this] s show ?thesis by auto
  next
    case (Some sr)
    with assms(3) Logical h show ?thesis by (auto simp: fingerprint_cache_prefetch_def split: prod.splits)
  qed
qed

section \<open>The pending chunks of one fingerprint\<close>

abbreviation dup :: "chunk \<Rightarrow> bool" where
  "dup c \<equiv> CHECK_CHUNK c CHUNK_DUPLICATE"

definition occ :: "fingerprint \<Rightarrow> chunk list \<Rightarrow> chunk list" where
  "occ fp P = filter (\<lambda>c. ck_fp c = fp) P"

definition id_ok :: "location \<Rightarrow> containerid \<Rightarrow> fingerprint \<Rightarrow> bool" where
  "id_ok holds i fp = (i = TEMPORARY_ID \<or> holds i fp)"

definition fp_inv :: "location \<Rightarrow> bool \<Rightarrow> fingerprint \<Rightarrow> chunk list \<Rightarrow> indexElem list option \<Rightarrow> bool" where
  "fp_inv holds inb fp cs q = (case q of
      None \<Rightarrow> cs = []
    | Some q \<Rightarrow> cs \<noteq> [] \<and> length q = length cs
        \<and> (\<forall>e \<in> set q. id_ok holds (ie_id e) fp) \<and> (\<forall>c \<in> set cs. id_ok holds (ck_id c) fp)
        \<and> (dup (hd cs) \<longrightarrow> ie_id (hd q) \<noteq> TEMPORARY_ID) \<and> (\<not> dup (hd cs) \<longrightarrow> \<not> inb)
        \<and> (\<forall>c \<in> set (tl cs). dup c))"

definition pending_inv :: "location \<Rightarrow> (fingerprint \<Rightarrow> bool) \<Rightarrow> chunk list \<Rightarrow> fp_index \<Rightarrow> bool" where
  "pending_inv holds inbuf P ix =
     (distinct (map fst (buffered_fingerprints ix)) \<and> ix_chunk_num ix = int (length P)
      \<and> (\<forall>fp. fp_inv holds (inbuf fp) fp (occ fp P) (map_of (buffered_fingerprints ix) fp)))"

lemma fp_inv_mono: "fp_inv holds inb fp cs q \<Longrightarrow> (\<And>i. holds i fp \<Longrightarrow> holds' i fp) \<Longrightarrow> fp_inv holds' inb fp cs q"
  by (auto simp: fp_inv_def id_ok_def split: option.splits)

lemma pending_inv_mono:
  "pending_inv holds inbuf P ix \<Longrightarrow> (\<And>i fp. holds i fp \<Longrightarrow> holds' i fp) \<Longrightarrow> pending_inv holds' inbuf P ix"
  unfolding pending_inv_def using fp_inv_mono by metis

lemma occ_append [simp]: "occ fp (xs @ ys) = occ fp xs @ occ fp ys"
  by (simp add: occ_def)

lemma buffer_insert_inv:
  assumes inv: "pending_inv holds inbuf P ix"
    and c: "id_ok holds (ck_id c) (ck_fp c)"
    and first: "\<not> dup c \<Longrightarrow> occ (ck_fp c) P = [] \<and> \<not> inbuf (ck_fp c)"
    and located: "dup c \<Longrightarrow> occ (ck_fp c) P = [] \<Longrightarrow> ck_id c \<noteq> TEMPORARY_ID"
  shows "pending_inv holds inbuf (P @ [c]) (buffer_insert c ix)"
  unfolding pending_inv_def
proof (intro conjI allI)
  let ?b = "buffered_fingerprints ix"
  show "distinct (map fst (buffered_fingerprints (buffer_insert c ix)))"
    using inv by (simp add: pending_inv_def buffer_insert_def Let_def distinct_update)
  show "ix_chunk_num (buffer_insert c ix) = int (length (P @ [c]))"
    using inv by (simp add: pending_inv_def buffer_insert_def Let_def)
  fix fp
  have old: "fp_inv holds (inbuf fp) fp (occ fp P) (map_of ?b fp)" using inv by (simp add: pending_inv_def)
  show "fp_inv holds (inbuf fp) fp (occ fp (P @ [c])) (map_of (buffered_fingerprints (buffer_insert c ix)) fp)"
  proof (cases "fp = ck_fp c")
    case False
    with old show ?thesis by (simp add: buffer_insert_def Let_def update_conv' occ_def)
  next
    case True
    show ?thesis
    proof (cases "map_of ?b fp")
      case None
      with True old c first located show ?thesis
        by (auto simp: buffer_insert_def Let_def update_conv' fp_inv_def occ_def)
    next
      case (Some q)
      then have "occ fp P \<noteq> []" "q \<noteq> []" using old by (auto simp: fp_inv_def)
      moreover from this have "dup c" using first True by auto
      ultimately show ?thesis using Some True old c
        by (auto simp: buffer_insert_def Let_def update_conv' fp_inv_def occ_def [of _ "[c]"] hd_append tl_append
            split: list.splits)
    qed
  qed
qed

text \<open>A chunk as the hash phase delivers it.\<close>

definition fresh_chunk :: "chunk \<Rightarrow> bool" where
  "fresh_chunk c = (is_file_signal c \<or> (\<not> dup c \<and> ck_id c = TEMPORARY_ID))"

definition buf_has :: "container option \<Rightarrow> fingerprint \<Rightarrow> bool" where
  "buf_has buf fp = (\<exists>b. buf = Some b \<and> lookup_fingerprint_in_container b fp)"

text \<open>What a lookup may change of a chunk: its identifier and the two flags.\<close>

definition same_chunk :: "chunk \<Rightarrow> chunk \<Rightarrow> bool" where
  "same_chunk c c' = (ck_fp c' = ck_fp c \<and> ck_size c' = ck_size c \<and> ck_data c' = ck_data c
     \<and> CHECK_CHUNK c' CHUNK_FILE_START = CHECK_CHUNK c CHUNK_FILE_START
     \<and> CHECK_CHUNK c' CHUNK_FILE_END = CHECK_CHUNK c CHUNK_FILE_END
     \<and> CHECK_CHUNK c' CHUNK_SEGMENT_START = CHECK_CHUNK c CHUNK_SEGMENT_START
     \<and> CHECK_CHUNK c' CHUNK_SEGMENT_END = CHECK_CHUNK c CHUNK_SEGMENT_END)"

lemma same_chunk_refl [simp]: "same_chunk c c"
  by (simp add: same_chunk_def)

lemma same_chunk_trans: "same_chunk a b \<Longrightarrow> same_chunk b c \<Longrightarrow> same_chunk a c"
  by (auto simp: same_chunk_def)

lemma same_chunk_dup [simp]: "same_chunk c (SET_CHUNK (c\<lparr>ck_id := i\<rparr>) CHUNK_DUPLICATE)"
  "same_chunk c (SET_CHUNK (SET_CHUNK (c\<lparr>ck_id := i\<rparr>) CHUNK_DUPLICATE) CHUNK_REWRITE_DENIED)"
  by (simp_all add: same_chunk_def flag_simps)

lemma dup_set [simp]: "dup (SET_CHUNK c CHUNK_DUPLICATE)" "dup (SET_CHUNK c CHUNK_REWRITE_DENIED) = dup c"
  by (simp_all add: flag_simps)

lemma check_cache_step:
  assumes "cache_sound holds (ix_cache ix)" "check_cache c ix = Some (c', ix')" "\<not> dup c" "ck_id c = TEMPORARY_ID"
  shows "cache_sound holds (ix_cache ix') \<and> ix_kv ix' = ix_kv ix
     \<and> buffered_fingerprints ix' = buffered_fingerprints ix \<and> ix_chunk_num ix' = ix_chunk_num ix \<and> same_chunk c c'
     \<and> (if dup c' then ck_id c' \<noteq> TEMPORARY_ID \<and> holds (ck_id c') (ck_fp c) else c' = c)"
proof -
  from assms(2,3) obtain i where i: "fingerprint_cache_lookup ix (ck_fp c) = Some (i, ix')"
    "c' = (if i \<noteq> TEMPORARY_ID then SET_CHUNK (c\<lparr>ck_id := i\<rparr>) CHUNK_DUPLICATE else c)"
    by (auto simp: check_cache_def bind_eq_Some_conv split: prod.splits)
  from cache_lookup_sound [OF assms(1) i(1)] i(2) assms(3) show ?thesis by auto
qed

lemma check_kvstore_step:
  assumes "cache_sound holds (ix_cache ix)" "units_sound holds u" "check_kvstore u d c ix = Some (c', ix')"
    "\<not> dup c" "ck_id c = TEMPORARY_ID"
  shows "cache_sound holds (ix_cache ix') \<and> ix_kv ix' = ix_kv ix
     \<and> buffered_fingerprints ix' = buffered_fingerprints ix \<and> ix_chunk_num ix' = ix_chunk_num ix \<and> same_chunk c c'
     \<and> (if dup c' then ck_id c' \<noteq> TEMPORARY_ID \<and> holds (ck_id c') (ck_fp c) else c' = c)"
proof (cases "kvstore_htable_lookup d (ix_kv ix) (ck_fp c)")
  case None
  with assms show ?thesis by (auto simp: check_kvstore_def)
next
  case (Some ids)
  let ?ix = "ix\<lparr>lookup_requests := lookup_requests ix + 1\<rparr>"
  from assms(3,4) Some obtain ix1 i where
    p: "fingerprint_cache_prefetch u ?ix (hd ids) = Some ix1" "fingerprint_cache_lookup ix1 (ck_fp c) = Some (i, ix')"
    "c' = (if i \<noteq> TEMPORARY_ID then SET_CHUNK (c\<lparr>ck_id := i\<rparr>) CHUNK_DUPLICATE else c)"
    by (auto simp: check_kvstore_def bind_eq_Some_conv Let_def split: prod.splits)
  have "cache_sound holds (ix_cache ?ix)" using assms(1) by simp
  note s = prefetch_sound [OF this assms(2) p(1)]
  from cache_lookup_sound [OF _ p(2), of holds] s p(3) assms(4) show ?thesis by auto
qed

lemma lookup_chunk_inv:
  assumes inv: "pending_inv holds (buf_has buf) P ix" and cs: "cache_sound holds (ix_cache ix)"
    and us: "units_sound holds u" and fresh: "fresh_chunk c"
    and bufh: "\<And>b fp. buf = Some b \<Longrightarrow> lookup_fingerprint_in_container b fp \<Longrightarrow>
          holds (get_container_id b) fp \<and> get_container_id b \<noteq> TEMPORARY_ID"
    and run: "lookup_chunk u d buf use_kv c ix = Some (c', ix')"
  shows "pending_inv holds (buf_has buf) (P @ data_chunks [c']) ix' \<and> cache_sound holds (ix_cache ix')
     \<and> ix_kv ix' = ix_kv ix \<and> same_chunk c c'"
proof (cases "is_file_signal c")
  case True
  with run inv cs show ?thesis by (auto simp: lookup_chunk_def data_chunks_def)
next
  case data: False
  then have c: "\<not> dup c" "ck_id c = TEMPORARY_ID" using fresh by (auto simp: fresh_chunk_def)
  let ?q = "map_of (buffered_fingerprints ix) (ck_fp c)" and ?c0 = "check_storage_buffer buf c"
  have fpinv: "fp_inv holds (buf_has buf (ck_fp c)) (ck_fp c) (occ (ck_fp c) P) ?q"
    using inv by (simp add: pending_inv_def)
  from run data obtain c1 c2 ix2 ix3 where
    s: "check_buffered ix ?c0 = Some c1" "check_cache c1 ix = Some (c2, ix2)"
      "(if use_kv then check_kvstore u d c2 ix2 else Some (c2, ix2)) = Some (c', ix3)" "ix' = buffer_insert c' ix3"
    by (auto simp: lookup_chunk_def bind_eq_Some_conv Let_def split: prod.splits)
  have early: "c' = c1 \<and> ix3 = ix" if "dup c1"
    using that s(2,3) by (auto simp: check_cache_def check_kvstore_def split: if_splits)
  have finish: ?thesis if "ix_kv ix3 = ix_kv ix \<and> buffered_fingerprints ix3 = buffered_fingerprints ix \<and> ix_chunk_num ix3 = ix_chunk_num ix"
      "cache_sound holds (ix_cache ix3)" "same_chunk c c'" "id_ok holds (ck_id c') (ck_fp c)"
      "\<not> dup c' \<Longrightarrow> ?q = None \<and> \<not> buf_has buf (ck_fp c)" "dup c' \<Longrightarrow> ?q = None \<Longrightarrow> ck_id c' \<noteq> TEMPORARY_ID"
  proof -
    have fp: "ck_fp c' = ck_fp c" "\<not> is_file_signal c'" using that(3) data by (auto simp: same_chunk_def)
    have qn: "?q = None \<longleftrightarrow> occ (ck_fp c) P = []" using fpinv by (auto simp: fp_inv_def split: option.splits)
    have "pending_inv holds (buf_has buf) P ix3" "ix_kv ix3 = ix_kv ix"
      using inv that(1) by (auto simp: pending_inv_def)
    from buffer_insert_inv [OF this(1), of c'] that(4-6) fp qn
    have "pending_inv holds (buf_has buf) (P @ [c']) (buffer_insert c' ix3)" by auto
    with fp(2) s(4) that(2,3) \<open>ix_kv ix3 = ix_kv ix\<close> show ?thesis
      by (auto simp: data_chunks_def buffer_insert_def Let_def)
  qed
  show ?thesis
  proof (cases "buf_has buf (ck_fp c)")
    case True
    then obtain b where b: "buf = Some b" "lookup_fingerprint_in_container b (ck_fp c)" by (auto simp: buf_has_def)
    then have c0: "?c0 = SET_CHUNK (SET_CHUNK (c\<lparr>ck_id := get_container_id b\<rparr>) CHUNK_DUPLICATE) CHUNK_REWRITE_DENIED"
      by (simp add: check_storage_buffer_def)
    then have d0: "dup ?c0" by (simp add: flag_simps)
    then have "c1 = ?c0" using s(1) by (auto simp: check_buffered_def split: option.splits)
    note c1 = this
    have "dup c1" unfolding c1 by (rule d0)
    from early [OF this] c1 have "c' = ?c0" "ix3 = ix" by simp_all
    show ?thesis
      by (rule finish) (simp_all add: \<open>c' = ?c0\<close> \<open>ix3 = ix\<close> cs d0, simp_all add: c0 id_ok_def bufh [OF b])
  next
    case nb: False
    then have c0: "?c0 = c" by (auto simp: check_storage_buffer_def buf_has_def split: option.splits)
    show ?thesis
    proof (cases ?q)
      case (Some q)
      with fpinv obtain e q' where e: "q = e # q'" "id_ok holds (ie_id e) (ck_fp c)"
        by (cases q) (auto simp: fp_inv_def)
      with s(1) c0 Some c have c1: "c1 = SET_CHUNK (c\<lparr>ck_id := ie_id e\<rparr>) CHUNK_DUPLICATE"
        by (auto simp: check_buffered_def)
      with early have "c' = c1" "ix3 = ix" by auto
      show ?thesis
        by (rule finish) (simp_all add: \<open>c' = c1\<close> \<open>ix3 = ix\<close> c1 e(2) cs Some)
    next
      case None
      then have c1: "c1 = c" using s(1) c0 by (auto simp: check_buffered_def)
      note cache = check_cache_step [OF cs s(2) [unfolded c1] c]
      have "cache_sound holds (ix_cache ix3) \<and> ix_kv ix3 = ix_kv ix
          \<and> buffered_fingerprints ix3 = buffered_fingerprints ix \<and> ix_chunk_num ix3 = ix_chunk_num ix \<and> same_chunk c c'
          \<and> (if dup c' then ck_id c' \<noteq> TEMPORARY_ID \<and> holds (ck_id c') (ck_fp c) else c' = c)"
      proof (cases "use_kv \<and> \<not> dup c2")
        case True
        then have "c2 = c" using cache by simp
        with True s(3) have "check_kvstore u d c ix2 = Some (c', ix3)" by simp
        from check_kvstore_step [OF _ us this c] cache show ?thesis by simp
      next
        case False
        then have "c' = c2" "ix3 = ix2" using s(3) by (auto simp: check_kvstore_def split: if_splits)
        with cache show ?thesis by simp
      qed
      note last = this
      show ?thesis
        by (rule finish) (use last nb None c in \<open>auto simp: id_ok_def split: if_splits\<close>)
    qed
  qed
qed

lemma lookup_chunks_inv:
  assumes "pending_inv holds (buf_has buf) P ix" "cache_sound holds (ix_cache ix)" "units_sound holds u"
    and "\<forall>c \<in> set cs. fresh_chunk c"
    and bufh: "\<And>b fp. buf = Some b \<Longrightarrow> lookup_fingerprint_in_container b fp \<Longrightarrow>
          holds (get_container_id b) fp \<and> get_container_id b \<noteq> TEMPORARY_ID"
    and "lookup_chunks u d buf use_kv cs ix = Some (cs', ix')"
  shows "pending_inv holds (buf_has buf) (P @ data_chunks cs') ix' \<and> cache_sound holds (ix_cache ix')
     \<and> ix_kv ix' = ix_kv ix \<and> list_all2 same_chunk cs cs'"
  using assms(1,2,4,6)
proof (induction cs arbitrary: P ix cs')
  case Nil
  then show ?case by (simp add: data_chunks_def)
next
  case (Cons c cs)
  from Cons.prems(4) obtain c1 ix1 cs1 where s: "lookup_chunk u d buf use_kv c ix = Some (c1, ix1)"
    "lookup_chunks u d buf use_kv cs ix1 = Some (cs1, ix')" "cs' = c1 # cs1"
    by (auto simp: bind_eq_Some_conv split: prod.splits)
  have "fresh_chunk c" using Cons.prems(3) by simp
  note one = lookup_chunk_inv [OF Cons.prems(1,2) assms(3) this bufh s(1)]
  from Cons.IH [OF one [THEN conjunct1] _ _ s(2)] one Cons.prems(3) s(3) show ?case
    by (auto simp: data_chunks_def)
qed


section \<open>Looking up a segment\<close>

text \<open>Two index states that differ in the cache and the counters only.\<close>

definition same_buffer :: "fp_index \<Rightarrow> fp_index \<Rightarrow> bool" where
  "same_buffer ix ix' = (ix_kv ix' = ix_kv ix \<and> buffered_fingerprints ix' = buffered_fingerprints ix
     \<and> ix_chunk_num ix' = ix_chunk_num ix)"

lemma same_buffer_refl [simp]: "same_buffer ix ix"
  by (simp add: same_buffer_def)

lemma same_buffer_trans: "same_buffer a b \<Longrightarrow> same_buffer b c \<Longrightarrow> same_buffer a c"
  by (simp add: same_buffer_def)

lemma same_buffer_pending: "same_buffer ix ix' \<Longrightarrow> pending_inv holds inbuf P ix' = pending_inv holds inbuf P ix"
  by (simp add: same_buffer_def pending_inv_def)

lemma prefetch_top_sound:
  "cache_sound holds (ix_cache ix) \<Longrightarrow> units_sound holds u \<Longrightarrow> prefetch_top u n sq ix = Some ix' \<Longrightarrow>
     cache_sound holds (ix_cache ix') \<and> same_buffer ix ix'"
proof (induction u n sq ix rule: prefetch_top.induct)
  case (3 u n best sq ix)
  from "3.prems"(3) obtain ix1 where p: "fingerprint_cache_prefetch u ix (sg_id best) = Some ix1"
    "prefetch_top u n (sort_segments (map (features_trim best) sq)) ix1 = Some ix'" by (auto simp: bind_eq_Some_conv)
  note s = prefetch_sound [OF "3.prems"(1,2) p(1)]
  from "3.IH" [OF p(1) s [THEN conjunct1] "3.prems"(2) p(2)] s show ?case by (auto simp: same_buffer_def)
qed auto

lemma similar_features_frame:
  "fold_opt (similar_feature d) fs (sims, ix) = Some (sims', ix') \<Longrightarrow> ix_cache ix' = ix_cache ix \<and> same_buffer ix ix'"
proof (induction fs arbitrary: sims ix)
  case Nil
  then show ?case by simp
next
  case (Cons f fs)
  then obtain sims1 ix1 where s: "similar_feature d f (sims, ix) = Some (sims1, ix1)"
    "fold_opt (similar_feature d) fs (sims1, ix1) = Some (sims', ix')" by (auto simp: bind_eq_Some_conv)
  have "ix_cache ix1 = ix_cache ix \<and> same_buffer ix ix1"
    using s(1) by (auto simp: similar_feature_def same_buffer_def bind_eq_Some_conv split: option.splits)
  with Cons.IH [OF s(2)] show ?case by (auto simp: same_buffer_def)
qed

lemma top_select_sound:
  assumes "cache_sound holds (ix_cache ix)" "units_sound holds u" "top_segment_select ord u d fs ix = Some ix'"
  shows "cache_sound holds (ix_cache ix') \<and> same_buffer ix ix'"
proof -
  from assms(3) obtain sims ix1 n sq where s: "fold_opt (similar_feature d) (ord fs) ([], ix) = Some (sims, ix1)"
    "prefetch_top u n sq ix1 = Some ix'"
    by (auto simp: top_segment_select_def bind_eq_Some_conv Let_def split: prod.splits)
  note f = similar_features_frame [OF s(1)]
  from prefetch_top_sound [OF _ assms(2) s(2)] f assms(1) show ?thesis
    by (auto intro: same_buffer_trans)
qed

lemma index_lookup_inv:
  assumes inv: "pending_inv holds (buf_has buf) P ix" "cache_sound holds (ix_cache ix)" "units_sound holds u"
    and fresh: "\<forall>c \<in> set (sg_chunks s). fresh_chunk c"
    and bufh: "\<And>b fp. buf = Some b \<Longrightarrow> lookup_fingerprint_in_container b fp \<Longrightarrow>
          holds (get_container_id b) fp \<and> get_container_id b \<noteq> TEMPORARY_ID"
    and run: "index_lookup be ord u d thr buf s ix = Some (True, s', ix')"
  shows "pending_inv holds (buf_has buf) (P @ data_chunks (sg_chunks s')) ix' \<and> cache_sound holds (ix_cache ix')
     \<and> ix_kv ix' = ix_kv ix \<and> list_all2 same_chunk (sg_chunks s) (sg_chunks s') \<and> sg_chunk_num s' = sg_chunk_num s"
proof -
  from run obtain ix1 use_kv cs' where r: "cache_sound holds (ix_cache ix1)" "same_buffer ix ix1"
    "lookup_chunks u d buf use_kv (sg_chunks s) ix1 = Some (cs', ix')" "sg_chunks s' = cs'" "sg_chunk_num s' = sg_chunk_num s"
  proof (cases "index_category1 d = INDEX_CATEGORY_LOGICAL_LOCALITY \<and> index_segment_selection_method0 d \<noteq> INDEX_SEGMENT_SELECT_BASE")
    case True
    with run obtain fs ix1 cs' where "top_segment_select ord u d fs ix = Some ix1"
      "lookup_chunks u d buf (index_category0 d = INDEX_CATEGORY_EXACT \<or> index_segment_selection_method0 d = INDEX_SEGMENT_SELECT_MIX)
         (sg_chunks s) ix1 = Some (cs', ix')" "sg_chunks s' = cs'" "sg_chunk_num s' = sg_chunk_num s"
      by (auto simp: index_lookup_def index_lookup_similarity_detection_def bind_eq_Some_conv split: if_splits)
    with top_select_sound [OF inv(2,3)] that show ?thesis by blast
  next
    case False
    with run inv(2) that show ?thesis
      by (auto simp: index_lookup_def index_lookup_base_def bind_eq_Some_conv split: if_splits)
  qed
  have "pending_inv holds (buf_has buf) P ix1" using inv(1) same_buffer_pending [OF r(2)] by blast
  from lookup_chunks_inv [OF this r(1) inv(3) fresh bufh r(3)] r show ?thesis by (auto simp: same_buffer_def)
qed

section \<open>Checking and updating the buffer in the filter phase\<close>

definition checked :: "chunk list \<Rightarrow> location \<Rightarrow> chunk \<Rightarrow> chunk \<Rightarrow> bool" where
  "checked P holds c c' = (same_chunk c c' \<and> (dup c' = dup c)
     \<and> (\<not> is_file_signal c \<longrightarrow> id_ok holds (ck_id c') (ck_fp c))
     \<and> (\<not> is_file_signal c \<longrightarrow> dup c \<longrightarrow> ck_id c' = TEMPORARY_ID \<longrightarrow> \<not> dup (hd (occ (ck_fp c) P)))
     \<and> (CHECK_CHUNK c' CHUNK_SPARSE = CHECK_CHUNK c CHUNK_SPARSE)
     \<and> (CHECK_CHUNK c' CHUNK_OUT_OF_ORDER = CHECK_CHUNK c CHUNK_OUT_OF_ORDER))"

lemma check_buffer_chunk_ok:
  assumes "pending_inv holds inbuf P ix" "is_file_signal c \<or> c \<in> set P"
    and pos: "\<And>i fp. holds i fp \<Longrightarrow> i > TEMPORARY_ID"
  shows "\<exists>c'. check_buffer_chunk ix c = Some c' \<and> checked P holds c c'"
proof (cases "is_file_signal c")
  case True
  then show ?thesis by (auto simp: check_buffer_chunk_def checked_def)
next
  case data: False
  with assms have "c \<in> set (occ (ck_fp c) P)" by (auto simp: occ_def)
  moreover have "fp_inv holds (inbuf (ck_fp c)) (ck_fp c) (occ (ck_fp c) P) (map_of (buffered_fingerprints ix) (ck_fp c))"
    using assms(1) by (simp add: pending_inv_def)
  ultimately obtain q where q: "map_of (buffered_fingerprints ix) (ck_fp c) = Some q" "length q = length (occ (ck_fp c) P)"
    "\<forall>e \<in> set q. id_ok holds (ie_id e) (ck_fp c)" "id_ok holds (ck_id c) (ck_fp c)"
    "dup (hd (occ (ck_fp c) P)) \<longrightarrow> ie_id (hd q) \<noteq> TEMPORARY_ID" "occ (ck_fp c) P \<noteq> []"
    by (auto simp: fp_inv_def split: option.splits)
  then obtain e q' where e: "q = e # q'" by (cases q) auto
  let ?c = "if ie_id e > ck_id c then (if ck_id c \<noteq> TEMPORARY_ID then SET_CHUNK c CHUNK_REWRITE_DENIED else c)\<lparr>ck_id := ie_id e\<rparr> else c"
  let ?g = "(dup c \<and> ck_id c = TEMPORARY_ID) \<or> CHECK_CHUNK c CHUNK_OUT_OF_ORDER \<or> CHECK_CHUNK c CHUNK_SPARSE"
  have "check_buffer_chunk ix c = Some (if ?g then ?c else c)"
    using data q(1) e by (simp add: check_buffer_chunk_def)
  moreover have "checked P holds c ?c"
    using q(3-5) e pos [of "ie_id e" "ck_fp c"] by (auto simp: checked_def same_chunk_def flag_simps id_ok_def)
  moreover have "checked P holds c c" if "\<not> ?g"
    using that q(4) by (auto simp: checked_def)
  ultimately show ?thesis by (cases ?g) auto
qed

lemma map_opt_all2:
  "(\<And>x. x \<in> set xs \<Longrightarrow> \<exists>y. f x = Some y \<and> R x y) \<Longrightarrow> \<exists>ys. map_opt f xs = Some ys \<and> list_all2 R xs ys"
proof (induction xs)
  case Nil
  then show ?case by simp
next
  case (Cons x xs)
  from Cons.prems [of x] Cons.IH Cons.prems show ?case by fastforce
qed

lemma check_buffer_ok:
  assumes "pending_inv holds inbuf P ix" "set (data_chunks (sg_chunks s)) \<subseteq> set P"
    and pos: "\<And>i fp. holds i fp \<Longrightarrow> i > TEMPORARY_ID"
  shows "\<exists>cs. index_check_buffer ix s = Some (s\<lparr>sg_chunks := cs\<rparr>) \<and> list_all2 (checked P holds) (sg_chunks s) cs"
  using map_opt_all2 [of "sg_chunks s" "check_buffer_chunk ix" "checked P holds"] check_buffer_chunk_ok [OF assms(1) _ pos] assms(2)
  by (fastforce simp: index_check_buffer_def data_chunks_def)

lemma update_buffer_chunk_inv:
  assumes inv: "pending_inv holds inbuf (c0 # P) ix"
    and c: "ck_fp c = ck_fp c0" "ck_id c \<noteq> TEMPORARY_ID" "holds (ck_id c) (ck_fp c)" "\<not> is_file_signal c"
  shows "\<exists>ix'. update_buffer_chunk c ix = Some ix' \<and> pending_inv holds inbuf P ix' \<and> ix_kv ix' = ix_kv ix \<and> ix_cache ix' = ix_cache ix"
proof -
  let ?b = "buffered_fingerprints ix" and ?fp = "ck_fp c"
  have all: "fp_inv holds (inbuf fp) fp (occ fp (c0 # P)) (map_of ?b fp)" for fp using inv by (simp add: pending_inv_def)
  have o: "occ ?fp (c0 # P) = c0 # occ ?fp P" using c(1) by (simp add: occ_def)
  from all [of ?fp] obtain q where q: "map_of ?b ?fp = Some q" "length q = Suc (length (occ ?fp P))" "\<forall>c \<in> set (occ ?fp P). dup c"
      "\<forall>e \<in> set q. id_ok holds (ie_id e) ?fp" "\<forall>c \<in> set (occ ?fp P). id_ok holds (ck_id c) ?fp"
    unfolding o by (auto simp: fp_inv_def split: option.splits)
  let ?q = "map (\<lambda>ie. ie\<lparr>ie_id := ck_id c\<rparr>) (tl q)"
  let ?b' = "if tl q = [] then AList.delete ?fp ?b else AList.update ?fp ?q ?b"
  let ?ix = "ix\<lparr>buffered_fingerprints := ?b', ix_chunk_num := ix_chunk_num ix - 1\<rparr>"
  have "update_buffer_chunk c ix = Some ?ix" using c q(1) by (simp add: update_buffer_chunk_def)
  moreover have "pending_inv holds inbuf P ?ix"
    unfolding pending_inv_def
  proof (intro conjI allI)
    show "distinct (map fst (buffered_fingerprints ?ix))"
      using inv by (auto simp: pending_inv_def distinct_update intro: distinct_delete)
    show "ix_chunk_num ?ix = int (length P)" using inv by (simp add: pending_inv_def)
    fix fp
    show "fp_inv holds (inbuf fp) fp (occ fp P) (map_of (buffered_fingerprints ?ix) fp)"
    proof (cases "fp = ?fp")
      case False
      then have "occ fp (c0 # P) = occ fp P" using c(1) by (simp add: occ_def)
      with all [of fp] False show ?thesis by (simp add: update_conv' delete_conv')
    next
      case True
      show ?thesis
      proof (cases "tl q = []")
        case True
        with q(2) have "occ ?fp P = []" by (cases q) auto
        with True \<open>fp = ?fp\<close> show ?thesis by (simp add: delete_conv' fp_inv_def)
      next
        case False
        then obtain x xs where occ: "occ ?fp P = x # xs" using q(2) by (cases q; cases "occ ?fp P") auto
        have len: "length ?q = length (occ ?fp P)" using q(2) by simp
        have "ie_id (hd ?q) = ck_id c" using False by (simp add: hd_map)
        with False \<open>fp = ?fp\<close> q(3,5) occ len c show ?thesis
          by (auto simp: update_conv' fp_inv_def id_ok_def)
      qed
    qed
  qed
  ultimately show ?thesis by auto
qed

text \<open>A segment whose chunks all have their container.\<close>

definition resolved :: "location \<Rightarrow> chunk \<Rightarrow> bool" where
  "resolved holds c = (is_file_signal c \<or> (ck_id c \<noteq> TEMPORARY_ID \<and> holds (ck_id c) (ck_fp c)))"

lemma update_buffer_inv:
  assumes "pending_inv holds inbuf (data_chunks cs @ P) ix"
    and "list_all2 same_chunk cs cs'" "\<forall>c \<in> set cs'. resolved holds c"
  shows "\<exists>ix'. fold_opt update_buffer_chunk cs' ix = Some ix' \<and> pending_inv holds inbuf P ix'
     \<and> ix_kv ix' = ix_kv ix \<and> ix_cache ix' = ix_cache ix"
  using assms
proof (induction cs arbitrary: cs' ix)
  case Nil
  then show ?case by (simp add: data_chunks_def)
next
  case (Cons c cs)
  then obtain c' cs1 where cs': "cs' = c' # cs1" and same: "same_chunk c c'" "list_all2 same_chunk cs cs1"
    by (auto simp: list_all2_Cons1)
  have sig: "is_file_signal c' = is_file_signal c" using same(1) by (auto simp: same_chunk_def)
  show ?case
  proof (cases "is_file_signal c")
    case True
    with Cons.prems(1) have "pending_inv holds inbuf (data_chunks cs @ P) ix" by (auto simp: data_chunks_def)
    from Cons.IH [OF this same(2)] Cons.prems(3) cs' True sig show ?thesis by (simp add: update_buffer_chunk_def)
  next
    case False
    with Cons.prems(1) have "pending_inv holds inbuf (c # (data_chunks cs @ P)) ix" by (simp add: data_chunks_def)
    moreover have "ck_fp c' = ck_fp c" "ck_id c' \<noteq> TEMPORARY_ID" "holds (ck_id c') (ck_fp c')" "\<not> is_file_signal c'"
      using same(1) Cons.prems(3) cs' False sig by (auto simp: resolved_def same_chunk_def)
    ultimately obtain ix1 where ix1: "update_buffer_chunk c' ix = Some ix1" "pending_inv holds inbuf (data_chunks cs @ P) ix1"
      "ix_kv ix1 = ix_kv ix" "ix_cache ix1 = ix_cache ix"
      using update_buffer_chunk_inv by blast
    from Cons.IH [OF ix1(2) same(2)] Cons.prems(3) cs' ix1 show ?thesis by auto
  qed
qed

text \<open>A pending chunk that is not a duplicate has no earlier pending chunk with its
  fingerprint.\<close>

lemma first_is_unique:
  assumes "pending_inv holds inbuf (xs @ c # ys) ix" "\<not> dup c"
  shows "\<forall>x \<in> set xs. ck_fp x \<noteq> ck_fp c" "\<not> inbuf (ck_fp c)"
proof -
  let ?o = "occ (ck_fp c) (xs @ c # ys)"
  have f: "fp_inv holds (inbuf (ck_fp c)) (ck_fp c) ?o (map_of (buffered_fingerprints ix) (ck_fp c))"
    using assms(1) by (simp add: pending_inv_def)
  have o: "?o = occ (ck_fp c) xs @ c # occ (ck_fp c) ys" by (simp add: occ_def)
  have tl: "\<forall>c \<in> set (tl ?o). dup c" "\<not> dup (hd ?o) \<longrightarrow> \<not> inbuf (ck_fp c)"
    using f unfolding o by (auto simp: fp_inv_def split: option.splits)
  have e: "occ (ck_fp c) xs = []" using tl(1) assms(2) unfolding o by (cases "occ (ck_fp c) xs") auto
  then show "\<forall>x \<in> set xs. ck_fp x \<noteq> ck_fp c" by (auto simp: occ_def filter_empty_conv)
  show "\<not> inbuf (ck_fp c)" using tl(2) assms(2) e unfolding o by simp
qed

text \<open>Closing the filter step: the chunks of the segment leave the pending list, and the open
  container has gained fingerprints of the segment only.\<close>

lemma pending_inv_new_buffer:
  assumes "pending_inv holds inbuf (D @ P) ix" "pending_inv holds' inbuf P ix'"
    and "\<And>fp. inbuf' fp \<Longrightarrow> inbuf fp \<or> fp \<in> ck_fp ` set D"
  shows "pending_inv holds' inbuf' P ix'"
proof -
  have "fp_inv holds' (inbuf' fp) fp (occ fp P) q" if f: "fp_inv holds' (inbuf fp) fp (occ fp P) q" for fp q
  proof (cases "occ fp P \<noteq> [] \<and> \<not> dup (hd (occ fp P))")
    case False
    with f show ?thesis by (auto simp: fp_inv_def split: option.splits)
  next
    case True
    then obtain c ys where c: "occ fp P = c # ys" "\<not> dup c" by (cases "occ fp P") auto
    then obtain us vs where P: "P = us @ c # vs" "ck_fp c = fp" by (metis (mono_tags, lifting) filter_eq_Cons_iff occ_def)
    from assms(1) P(1) have "pending_inv holds inbuf ((D @ us) @ c # vs) ix" by simp
    from first_is_unique [OF this c(2)] P(2) have "fp \<notin> ck_fp ` set D" "\<not> inbuf fp" by auto
    then have "\<not> inbuf' fp" using assms(3) by blast
    with f show ?thesis by (auto simp: fp_inv_def split: option.splits)
  qed
  with assms(2) show ?thesis by (simp add: pending_inv_def)
qed

lemma pending_inv_ids:
  assumes "pending_inv holds inbuf P ix" "c \<in> set P"
  shows "id_ok holds (ck_id c) (ck_fp c)"
proof -
  have "fp_inv holds (inbuf (ck_fp c)) (ck_fp c) (occ (ck_fp c) P) (map_of (buffered_fingerprints ix) (ck_fp c))"
    using assms(1) by (simp add: pending_inv_def)
  moreover have "c \<in> set (occ (ck_fp c) P)" using assms(2) by (simp add: occ_def)
  ultimately show ?thesis by (auto simp: fp_inv_def split: option.splits)
qed

end
