(* ===== verification/Rewrite.thy ===== *)
theory Rewrite
  imports Sampling Lru_Cache
begin

unbundle bit_operations_syntax

text \<open>
  The rewrite phase: the rewrite buffer (\<^verbatim>\<open>src/destor/src/rewrite_phase.c\<close>), the four threads that
  mark fragmented chunks (no rewriting, \<^verbatim>\<open>cfl_rewrite.c\<close>, \<^verbatim>\<open>cap_rewrite.c\<close>, \<^verbatim>\<open>cbr_rewrite.c\<close>), the check
  against inherited sparse containers of \<^verbatim>\<open>har_rewrite.c\<close>, and the restore simulation of
  \<^verbatim>\<open>restore_aware.c\<close>.

  A thread is a function from the chunks it pops from \<open>dedup_queue\<close> to the chunks it pushes to
  \<open>rewrite_queue\<close>; \<open>None\<close> is a failed assertion. Ratios and utilities are real
  numbers where the code has doubles. In the thread without rewriting the code pushes a chunk
  before it runs \<open>har_check\<close> on it; the model shows the flags as \<open>har_check\<close> leaves them.
\<close>

section \<open>Container records\<close>

record containerRecord =
  rc_cid :: containerid
  rc_size :: int
  rc_out_of_order :: int

definition g_record_descmp_by_length :: "containerRecord \<Rightarrow> containerRecord \<Rightarrow> int" where
  "g_record_descmp_by_length a b = rc_size b - rc_size a"

text \<open>The 64-bit difference is returned as a 32-bit \<open>gint\<close>.\<close>

definition g_record_cmp_by_id :: "containerRecord \<Rightarrow> containerRecord \<Rightarrow> int" where
  "g_record_cmp_by_id a b = sint (word_of_int (rc_cid a - rc_cid b) :: 32 word)"

record rewrite_buffer =
  rb_queue :: "chunk list"
  rb_records :: "containerRecord list"
  rb_num :: int
  rb_size :: int

definition init_rewrite_buffer :: rewrite_buffer where
  "init_rewrite_buffer = \<lparr>rb_queue = [], rb_records = [], rb_num = 0, rb_size = 0\<rparr>"

text \<open>\<open>g_sequence_lookup\<close> with the identifier of a chunk.\<close>

definition record_lookup :: "containerRecord list \<Rightarrow> containerid \<Rightarrow> containerRecord option" where
  "record_lookup rs i = find (\<lambda>r. g_record_cmp_by_id r \<lparr>rc_cid = i, rc_size = 0, rc_out_of_order = 0\<rparr> = 0) rs"

definition record_update :: "(containerRecord \<Rightarrow> containerRecord) \<Rightarrow> containerid \<Rightarrow> containerRecord list \<Rightarrow> containerRecord list" where
  "record_update f i rs = map (\<lambda>r. if rc_cid r = i then f r else r) rs"

definition rewrite_buffer_push :: "destor \<Rightarrow> chunk \<Rightarrow> rewrite_buffer \<Rightarrow> (bool \<times> rewrite_buffer) option" where
  "rewrite_buffer_push d c rb = do {
     let rb = rb\<lparr>rb_queue := rb_queue rb @ [c]\<rparr>;
     if is_signal c then Some (False, rb)
     else do {
       rb \<leftarrow> (if ck_id c \<noteq> TEMPORARY_ID
             then do {
               assertion (CHECK_CHUNK c CHUNK_DUPLICATE);
               case record_lookup (rb_records rb) (ck_id c) of
                 None \<Rightarrow> Some (rb\<lparr>rb_records := insert_sorted g_record_cmp_by_id
                           \<lparr>rc_cid = ck_id c, rc_size = ck_size c, rc_out_of_order = 1\<rparr> (rb_records rb)\<rparr>)
               | Some r \<Rightarrow> do {
                   assertion (rc_cid r = ck_id c);
                   Some (rb\<lparr>rb_records := record_update (\<lambda>r. r\<lparr>rc_size := rc_size r + ck_size c\<rparr>) (ck_id c) (rb_records rb)\<rparr>)
                 }
             } else Some rb);
       let rb = rb\<lparr>rb_num := rb_num rb + 1, rb_size := rb_size rb + ck_size c\<rparr>;
       if rb_num rb \<ge> rewrite_algorithm1 d
       then do { assertion (rb_num rb = rewrite_algorithm1 d); Some (True, rb) }
       else Some (False, rb)
     }
   }"

definition rewrite_buffer_top :: "rewrite_buffer \<Rightarrow> chunk option" where
  "rewrite_buffer_top rb = (case rb_queue rb of [] \<Rightarrow> None | c # _ \<Rightarrow> Some c)"

text \<open>The table of inherited sparse containers is the list of their identifiers.\<close>

definition har_check :: "containerid list \<Rightarrow> chunk \<Rightarrow> chunk" where
  "har_check inherited c =
     (if \<not> CHECK_CHUNK c CHUNK_FILE_START \<and> \<not> CHECK_CHUNK c CHUNK_FILE_END \<and> CHECK_CHUNK c CHUNK_DUPLICATE
         \<and> ck_id c \<in> set inherited
      then SET_CHUNK c CHUNK_SPARSE else c)"

definition rewrite_buffer_pop ::
    "destor \<Rightarrow> containerid list \<Rightarrow> rewrite_buffer \<Rightarrow> (chunk option \<times> rewrite_buffer) option" where
  "rewrite_buffer_pop d inherited rb =
     (case rb_queue rb of
        [] \<Rightarrow> Some (None, rb)
      | c # cs \<Rightarrow>
          let rb = rb\<lparr>rb_queue := cs\<rparr> in
          if is_signal c then Some (Some c, rb)
          else if CHECK_CHUNK c CHUNK_DUPLICATE \<and> ck_id c \<noteq> TEMPORARY_ID
          then do {
            r \<leftarrow> record_lookup (rb_records rb) (ck_id c);
            let sz = rc_size r - ck_size c;
            Some (Some (if rewrite_enable_har d then har_check inherited c else c),
                  rb\<lparr>rb_records := (if sz = 0 then filter (\<lambda>x. rc_cid x \<noteq> rc_cid r) (rb_records rb)
                                    else record_update (\<lambda>x. x\<lparr>rc_size := sz\<rparr>) (rc_cid r) (rb_records rb)),
                     rb_num := rb_num rb - 1, rb_size := rb_size rb - ck_size c\<rparr>)
          }
          else Some (Some c, rb\<lparr>rb_num := rb_num rb - 1, rb_size := rb_size rb - ck_size c\<rparr>))"

text \<open>Popping until the buffer is empty; \<open>f\<close> is what the loop body does to a chunk.\<close>

fun drain ::
    "destor \<Rightarrow> containerid list \<Rightarrow> (chunk \<Rightarrow> chunk option) \<Rightarrow> nat \<Rightarrow> rewrite_buffer \<Rightarrow> (chunk list \<times> rewrite_buffer) option" where
  "drain d inherited f 0 rb = Some ([], rb)"
| "drain d inherited f (Suc n) rb = do {
     (r, rb) \<leftarrow> rewrite_buffer_pop d inherited rb;
     case r of
       None \<Rightarrow> Some ([], rb)
     | Some c \<Rightarrow> do {
         c \<leftarrow> f c;
         (cs, rb) \<leftarrow> drain d inherited f n rb;
         Some (c # cs, rb)
       }
   }"

definition drain_all ::
    "destor \<Rightarrow> containerid list \<Rightarrow> (chunk \<Rightarrow> chunk option) \<Rightarrow> rewrite_buffer \<Rightarrow> (chunk list \<times> rewrite_buffer) option" where
  "drain_all d inherited f rb = drain d inherited f (Suc (length (rb_queue rb))) rb"

section \<open>The threads\<close>

definition no_rewrite :: "destor \<Rightarrow> containerid list \<Rightarrow> chunk list \<Rightarrow> chunk list" where
  "no_rewrite d inherited cs =
     map (\<lambda>c. if rewrite_enable_har d \<and> CHECK_CHUNK c CHUNK_DUPLICATE then har_check inherited c else c) cs"

definition cfl_mark :: "bool \<Rightarrow> chunk \<Rightarrow> chunk option" where
  "cfl_mark out_of_order c =
     (if is_signal c then Some c
      else if out_of_order \<and> ck_id c \<noteq> TEMPORARY_ID
      then do { assertion (CHECK_CHUNK c CHUNK_DUPLICATE); Some (SET_CHUNK c CHUNK_OUT_OF_ORDER) }
      else Some c)"

definition cfl_flush :: "destor \<Rightarrow> containerid list \<Rightarrow> rewrite_buffer \<Rightarrow> (chunk list \<times> rewrite_buffer) option" where
  "cfl_flush d inherited rb =
     drain_all d inherited
       (cfl_mark (real_of_int (rb_size rb) < rewrite_cfl_usage_threshold d * (4194304 - 32768))) rb"

fun cfl_rewrite_loop ::
    "destor \<Rightarrow> containerid list \<Rightarrow> chunk list \<Rightarrow> containerid \<Rightarrow> bool \<Rightarrow> rewrite_buffer \<Rightarrow> chunk list option" where
  "cfl_rewrite_loop d inherited [] last_id full rb = map_option fst (cfl_flush d inherited rb)"
| "cfl_rewrite_loop d inherited (c # cs) last_id full rb = do {
     (out, full, rb) \<leftarrow> (if (last_id \<noteq> TEMPORARY_ID \<and> last_id \<noteq> ck_id c) \<or> full
                        then do { (out, rb) \<leftarrow> cfl_flush d inherited rb; Some (out, False, rb) }
                        else Some ([], full, rb));
     (r, rb) \<leftarrow> rewrite_buffer_push d c rb;
     more \<leftarrow> cfl_rewrite_loop d inherited cs (ck_id c) (r \<or> full) rb;
     Some (out @ more)
   }"

definition cfl_rewrite :: "destor \<Rightarrow> containerid list \<Rightarrow> chunk list \<Rightarrow> chunk list option" where
  "cfl_rewrite d inherited cs = cfl_rewrite_loop d inherited cs TEMPORARY_ID False init_rewrite_buffer"

text \<open>\<open>cap_segment_get_top\<close> returns the identifiers it puts into the table \<open>top\<close>; the two sorts
  leave the sequence sorted by identifier.\<close>

definition cap_segment_get_top :: "destor \<Rightarrow> rewrite_buffer \<Rightarrow> containerid list \<times> rewrite_buffer" where
  "cap_segment_get_top d rb =
     (let sq = foldl (\<lambda>xs r. insert_sorted g_record_descmp_by_length r xs) [] (rb_records rb);
          num = (if int (length sq) > rewrite_capping_level d then nat (rewrite_capping_level d) else length sq)
      in (map rc_cid (take num sq),
          rb\<lparr>rb_records := foldl (\<lambda>xs r. insert_sorted g_record_cmp_by_id r xs) [] sq\<rparr>))"

definition cap_mark :: "bool \<Rightarrow> containerid list \<Rightarrow> chunk \<Rightarrow> chunk option" where
  "cap_mark check_dup best c =
     Some (if \<not> is_signal c \<and> (check_dup \<longrightarrow> CHECK_CHUNK c CHUNK_DUPLICATE) \<and> ck_id c \<notin> set best
           then SET_CHUNK c CHUNK_OUT_OF_ORDER else c)"

text \<open>The loop asks whether a chunk is a duplicate before it marks it, the final flush does
  not.\<close>

fun cap_rewrite_loop :: "destor \<Rightarrow> containerid list \<Rightarrow> chunk list \<Rightarrow> rewrite_buffer \<Rightarrow> chunk list option" where
  "cap_rewrite_loop d inherited [] rb =
     (let (best, rb) = cap_segment_get_top d rb
      in map_option fst (drain_all d inherited (cap_mark False best) rb))"
| "cap_rewrite_loop d inherited (c # cs) rb = do {
     (r, rb) \<leftarrow> rewrite_buffer_push d c rb;
     if r then do {
       let (best, rb) = cap_segment_get_top d rb;
       (out, rb) \<leftarrow> drain_all d inherited (cap_mark True best) rb;
       more \<leftarrow> cap_rewrite_loop d inherited cs rb;
       Some (out @ more)
     }
     else cap_rewrite_loop d inherited cs rb
   }"

definition cap_rewrite :: "destor \<Rightarrow> containerid list \<Rightarrow> chunk list \<Rightarrow> chunk list option" where
  "cap_rewrite d inherited cs = cap_rewrite_loop d inherited cs init_rewrite_buffer"

record utility_buckets =
  ub_chunk_num :: int
  ub_threshold :: real
  ub_min_index :: int
  ub_buckets :: "int list"

definition init_utility_buckets :: "destor \<Rightarrow> utility_buckets" where
  "init_utility_buckets d = \<lparr>ub_chunk_num = 0, ub_threshold = rewrite_cbr_minimal_utility d,
     ub_min_index = (if rewrite_cbr_minimal_utility d = 1 then 9999 else \<lfloor>rewrite_cbr_minimal_utility d * 10000\<rfloor>),
     ub_buckets = replicate 10000 0\<rparr>"

text \<open>The index at which the scan from the top stops; \<open>min_index - 1\<close> when it runs through.\<close>

function scan_buckets :: "int list \<Rightarrow> int \<Rightarrow> int \<Rightarrow> int \<Rightarrow> int \<Rightarrow> int" where
  "scan_buckets bs best_num min_index i cnt =
     (if i < min_index then i
      else let cnt = cnt + bs ! nat i in
           if cnt \<ge> best_num then i else scan_buckets bs best_num min_index (i - 1) cnt)"
  by pat_completeness auto
termination
  by (relation "measure (\<lambda>(_, _, m, i, _). nat (i - m + 1))") auto

definition utility_buckets_update :: "destor \<Rightarrow> real \<Rightarrow> utility_buckets \<Rightarrow> utility_buckets" where
  "utility_buckets_update d utility ub =
     (let index = (if utility \<ge> 1 then 9999 else nat \<lfloor>utility * 10000\<rfloor>);
          ub = ub\<lparr>ub_chunk_num := ub_chunk_num ub + 1,
                  ub_buckets := (ub_buckets ub)[index := ub_buckets ub ! index + 1]\<rparr>
      in if ub_chunk_num ub \<ge> 100
         then ub\<lparr>ub_threshold := real_of_int (scan_buckets (ub_buckets ub)
                   \<lfloor>real_of_int (ub_chunk_num ub) * rewrite_cbr_limit d\<rfloor> (ub_min_index ub) 9999 0 + 1) / 10000\<rparr>
         else ub)"

definition get_rewrite_utility :: "rewrite_buffer \<Rightarrow> chunk \<Rightarrow> real option" where
  "get_rewrite_utility rb c = do {
     r \<leftarrow> record_lookup (rb_records rb) (ck_id c);
     let coverage = real_of_int (rc_size r + ck_size c) / (4194304 - 32768);
     Some (if coverage \<ge> 1 then 0 else 1 - coverage)
   }"

text \<open>The signals in front of the decision chunk are passed on.\<close>

fun cbr_signals ::
    "destor \<Rightarrow> containerid list \<Rightarrow> nat \<Rightarrow> rewrite_buffer \<Rightarrow> (chunk list \<times> rewrite_buffer) option" where
  "cbr_signals d inherited 0 rb = None"
| "cbr_signals d inherited (Suc n) rb =
     (case rewrite_buffer_top rb of
        None \<Rightarrow> None
      | Some c \<Rightarrow>
          if is_signal c
          then do {
            (_, rb) \<leftarrow> rewrite_buffer_pop d inherited rb;
            (cs, rb) \<leftarrow> cbr_signals d inherited n rb;
            Some (c # cs, rb)
          }
          else Some ([], rb))"

text \<open>The decision on the chunk at the head of the buffer: the marked chunk, the utility
  and the records.\<close>

definition cbr_decide ::
    "destor \<Rightarrow> utility_buckets \<Rightarrow> rewrite_buffer \<Rightarrow> chunk \<Rightarrow> (chunk \<times> real \<times> rewrite_buffer) option" where
  "cbr_decide d ub rb c =
     (if ck_id c \<noteq> TEMPORARY_ID
      then do {
        assertion (CHECK_CHUNK c CHUNK_DUPLICATE);
        r \<leftarrow> record_lookup (rb_records rb) (ck_id c);
        if rc_out_of_order r = 1
        then do {
          utility \<leftarrow> get_rewrite_utility rb c;
          if utility < rewrite_cbr_minimal_utility d \<or> utility < ub_threshold ub
          then Some (c, utility, rb\<lparr>rb_records := record_update (\<lambda>r. r\<lparr>rc_out_of_order := 0\<rparr>) (rc_cid r) (rb_records rb)\<rparr>)
          else Some (SET_CHUNK c CHUNK_OUT_OF_ORDER, utility, rb)
        }
        else Some (c, 0, rb)
      }
      else Some (c, 0, rb))"

fun cbr_rewrite_loop ::
    "destor \<Rightarrow> containerid list \<Rightarrow> chunk list \<Rightarrow> utility_buckets \<Rightarrow> rewrite_buffer \<Rightarrow> chunk list option" where
  "cbr_rewrite_loop d inherited [] ub rb = map_option fst (drain_all d inherited Some rb)"
| "cbr_rewrite_loop d inherited (c # cs) ub rb = do {
     (r, rb) \<leftarrow> rewrite_buffer_push d c rb;
     if r then do {
       (sigs, rb) \<leftarrow> cbr_signals d inherited (Suc (length (rb_queue rb))) rb;
       dc \<leftarrow> rewrite_buffer_top rb;
       (dc, utility, rb) \<leftarrow> cbr_decide d ub rb dc;
       (p, rb) \<leftarrow> rewrite_buffer_pop d inherited (rb\<lparr>rb_queue := dc # tl (rb_queue rb)\<rparr>);
       p \<leftarrow> p;
       more \<leftarrow> cbr_rewrite_loop d inherited cs (utility_buckets_update d utility ub) rb;
       Some (sigs @ p # more)
     }
     else cbr_rewrite_loop d inherited cs ub rb
   }"

definition cbr_rewrite :: "destor \<Rightarrow> containerid list \<Rightarrow> chunk list \<Rightarrow> chunk list option" where
  "cbr_rewrite d inherited cs = cbr_rewrite_loop d inherited cs (init_utility_buckets d) init_rewrite_buffer"

definition rewrite_phase :: "destor \<Rightarrow> containerid list \<Rightarrow> chunk list \<Rightarrow> chunk list option" where
  "rewrite_phase d inherited cs = (case rewrite_algorithm0 d of
      REWRITE_NO \<Rightarrow> Some (no_rewrite d inherited cs)
    | REWRITE_CFL_SELECTIVE_DEDUPLICATION \<Rightarrow> cfl_rewrite d inherited cs
    | REWRITE_CONTEXT_BASED \<Rightarrow> cbr_rewrite d inherited cs
    | REWRITE_CAPPING \<Rightarrow> cap_rewrite d inherited cs)"

section \<open>The restore simulation\<close>

record monitor =
  mo_total_size :: int
  mo_ocf :: int
  mo_ccf :: int
  mo_cfl :: real
  mo_cache :: "(containerid, containerid) lruCache"

definition init_restore_aware :: "destor \<Rightarrow> monitor" where
  "init_restore_aware d = \<lparr>mo_total_size = 0, mo_ocf = 0, mo_ccf = 0, mo_cfl = 0,
     mo_cache = new_lru_cache (restore_cache1 d) (=)\<rparr>"

definition restore_aware_update :: "containerid \<Rightarrow> int \<Rightarrow> monitor \<Rightarrow> monitor option" where
  "restore_aware_update i chunklen mo = do {
     let mo = mo\<lparr>mo_total_size := mo_total_size mo + chunklen + 28\<rparr>;
     mo \<leftarrow> (case lru_cache_lookup (mo_cache mo) i of
             (Some _, c) \<Rightarrow> Some (mo\<lparr>mo_cache := c\<rparr>)
           | (None, c) \<Rightarrow> do {
               (_, c) \<leftarrow> lru_cache_insert c i;
               Some (mo\<lparr>mo_cache := c, mo_ccf := mo_ccf mo + 1\<rparr>)
             });
     let mo = mo\<lparr>mo_ocf := (mo_total_size mo + 4194304 - 1) div 4194304\<rparr>;
     Some (mo\<lparr>mo_cfl := real_of_int (mo_ocf mo) / real_of_int (mo_ccf mo)\<rparr>)
   }"

definition restore_aware_contains :: "monitor \<Rightarrow> containerid \<Rightarrow> bool" where
  "restore_aware_contains mo i = (lru_cache_lookup_without_update (mo_cache mo) i \<noteq> None)"

definition restore_aware_get_cfl :: "monitor \<Rightarrow> real" where
  "restore_aware_get_cfl mo = (if mo_cfl mo > 1 then 1 else mo_cfl mo)"


declare scan_buckets.simps [simp del]

section \<open>Invariant of the buffer\<close>

text \<open>A chunk as the deduplication phase sends it.\<close>

definition dedup_chunk :: "chunk \<Rightarrow> bool" where
  "dedup_chunk c = (\<not> is_signal c \<longrightarrow> 0 < ck_size c \<and>
     (ck_id c \<noteq> TEMPORARY_ID \<longrightarrow> CHECK_CHUNK c CHUNK_DUPLICATE \<and> 0 \<le> ck_id c \<and> ck_id c < 2 ^ 31))"

definition located_in :: "containerid \<Rightarrow> chunk list \<Rightarrow> chunk list" where
  "located_in i cs = filter (\<lambda>c. \<not> is_signal c \<and> ck_id c \<noteq> TEMPORARY_ID \<and> ck_id c = i) cs"

definition bytes_in :: "containerid \<Rightarrow> chunk list \<Rightarrow> int" where
  "bytes_in i cs = sum_list (map ck_size (located_in i cs))"

definition records_inv :: "chunk list \<Rightarrow> containerRecord list \<Rightarrow> bool" where
  "records_inv cs rs =
     (distinct (map rc_cid rs) \<and> (\<forall>r \<in> set rs. 0 \<le> rc_cid r \<and> rc_cid r < 2 ^ 31 \<and> rc_size r = bytes_in (rc_cid r) cs)
      \<and> (\<forall>i. i \<in> rc_cid ` set rs \<longleftrightarrow> located_in i cs \<noteq> []))"

definition rb_inv :: "rewrite_buffer \<Rightarrow> bool" where
  "rb_inv rb = ((\<forall>c \<in> set (rb_queue rb). dedup_chunk c) \<and> records_inv (rb_queue rb) (rb_records rb)
     \<and> rb_num rb = int (length (filter (\<lambda>c. \<not> is_signal c) (rb_queue rb)))
     \<and> rb_size rb = sum_list (map ck_size (filter (\<lambda>c. \<not> is_signal c) (rb_queue rb))))"

lemma rb_inv_init: "rb_inv init_rewrite_buffer"
  by (simp add: rb_inv_def init_rewrite_buffer_def records_inv_def located_in_def)

lemma cmp_by_id_0:
  assumes "0 \<le> rc_cid r" "rc_cid r < 2 ^ 31" "0 \<le> i" "i < 2 ^ 31"
  shows "(g_record_cmp_by_id r \<lparr>rc_cid = i, rc_size = n, rc_out_of_order = m\<rparr> = 0) = (rc_cid r = i)"
  using assms sint_int_32 [of "rc_cid r - i"] by (simp add: g_record_cmp_by_id_def)

lemma record_lookup_find:
  assumes "records_inv cs rs" "0 \<le> i" "i < 2 ^ 31"
  shows "record_lookup rs i = find (\<lambda>r. rc_cid r = i) rs"
proof -
  have "\<forall>r \<in> set rs. 0 \<le> rc_cid r \<and> rc_cid r < 2 ^ 31" using assms(1) by (auto simp: records_inv_def)
  then have "\<And>r. r \<in> set rs \<Longrightarrow> (g_record_cmp_by_id r \<lparr>rc_cid = i, rc_size = 0, rc_out_of_order = 0\<rparr> = 0) = (rc_cid r = i)"
    using cmp_by_id_0 assms(2,3) by blast
  then show ?thesis unfolding record_lookup_def by (intro find_cong refl) blast
qed

lemma record_lookup_some:
  assumes "records_inv cs rs" "located_in i cs \<noteq> []" "0 \<le> i" "i < 2 ^ 31"
  shows "\<exists>r. record_lookup rs i = Some r \<and> r \<in> set rs \<and> rc_cid r = i \<and> rc_size r = bytes_in i cs"
proof -
  have "i \<in> rc_cid ` set rs" using assms(1,2) by (simp add: records_inv_def)
  then have "find (\<lambda>r. rc_cid r = i) rs \<noteq> None" by (auto simp: find_None_iff)
  then obtain r where r: "find (\<lambda>r. rc_cid r = i) rs = Some r" by blast
  then have "r \<in> set rs" "rc_cid r = i" by (auto simp: find_Some_iff)
  with assms(1) r record_lookup_find [OF assms(1,3,4)] show ?thesis by (auto simp: records_inv_def)
qed

lemma record_update_cids [simp]: "map rc_cid (record_update f i rs) = map rc_cid rs" if "\<And>r. rc_cid (f r) = rc_cid r"
  using that by (simp add: record_update_def)

lemma record_update_image [simp]:
  "rc_cid ` set (record_update f i rs) = rc_cid ` set rs" if "\<And>r. rc_cid (f r) = rc_cid r"
  by (metis list.set_map record_update_cids that)

lemma located_snoc: "located_in i (cs @ [c]) = located_in i cs @ (if \<not> is_signal c \<and> ck_id c \<noteq> TEMPORARY_ID \<and> ck_id c = i then [c] else [])"
  by (simp add: located_in_def)

lemma located_Cons: "located_in i (c # cs) = (if \<not> is_signal c \<and> ck_id c \<noteq> TEMPORARY_ID \<and> ck_id c = i then [c] else []) @ located_in i cs"
  by (simp add: located_in_def)

lemma records_inv_other: "records_inv cs rs \<Longrightarrow> is_signal c \<or> ck_id c = TEMPORARY_ID \<Longrightarrow>
    records_inv (cs @ [c]) rs"
  by (auto simp: records_inv_def located_snoc bytes_in_def)

lemma records_inv_new:
  assumes "records_inv cs rs" "located_in (ck_id c) cs = []" "\<not> is_signal c" "0 \<le> ck_id c" "ck_id c < 2 ^ 31"
  shows "records_inv (cs @ [c]) (insert_sorted g_record_cmp_by_id
     \<lparr>rc_cid = ck_id c, rc_size = ck_size c, rc_out_of_order = 1\<rparr> rs)"
proof -
  have t: "ck_id c \<noteq> TEMPORARY_ID" using assms(4) by (simp add: TEMPORARY_ID_def)
  have new: "ck_id c \<notin> rc_cid ` set rs" using assms(1,2) by (simp add: records_inv_def)
  let ?r = "\<lparr>rc_cid = ck_id c, rc_size = ck_size c, rc_out_of_order = 1\<rparr>"
  let ?rs = "insert_sorted g_record_cmp_by_id ?r rs"
  have "mset (map rc_cid ?rs) = mset (rc_cid ?r # map rc_cid rs)"
    using arg_cong [OF mset_insert_sorted [of g_record_cmp_by_id ?r rs], of "image_mset rc_cid"] by simp
  then have "distinct (map rc_cid ?rs)" using assms(1) new
    by (metis (no_types, lifting) containerRecord.select_convs(1) distinct.simps(2) list.set_map mset_eq_imp_distinct_iff records_inv_def)
  moreover have "rc_size r = bytes_in (rc_cid r) (cs @ [c])" if "r \<in> set ?rs" for r
  proof (cases "r = ?r")
    case True
    with assms t show ?thesis by (simp add: bytes_in_def located_snoc)
  next
    case False
    with that have r: "r \<in> set rs" by (auto simp: set_insert_sorted)
    then have "rc_cid r \<noteq> ck_id c" using new by (metis image_eqI)
    with r assms(1) show ?thesis by (auto simp: records_inv_def bytes_in_def located_snoc)
  qed
  ultimately show ?thesis using assms t by (auto simp: records_inv_def set_insert_sorted located_snoc)
qed

lemma records_inv_add:
  assumes "records_inv cs rs" "located_in (ck_id c) cs \<noteq> []" "\<not> is_signal c" "ck_id c \<noteq> TEMPORARY_ID"
  shows "records_inv (cs @ [c]) (record_update (\<lambda>r. r\<lparr>rc_size := rc_size r + ck_size c\<rparr>) (ck_id c) rs)"
proof -
  let ?f = "\<lambda>r. r\<lparr>rc_size := rc_size r + ck_size c\<rparr>"
  have "0 \<le> rc_cid x \<and> rc_cid x < 2 ^ 31 \<and> rc_size x = bytes_in (rc_cid x) (cs @ [c])"
    if "x \<in> set (record_update ?f (ck_id c) rs)" for x
    using that assms by (auto simp: record_update_def records_inv_def bytes_in_def located_snoc split: if_splits)
  moreover have "distinct (map rc_cid (record_update ?f (ck_id c) rs))"
    using assms(1) by (simp add: records_inv_def)
  moreover have "i \<in> rc_cid ` set (record_update ?f (ck_id c) rs) \<longleftrightarrow> located_in i (cs @ [c]) \<noteq> []" for i
    using assms by (auto simp: records_inv_def located_snoc)
  ultimately show ?thesis unfolding records_inv_def by blast
qed

lemma sum_list_pos_int: "xs \<noteq> [] \<Longrightarrow> \<forall>x \<in> set xs. 0 < (f x :: int) \<Longrightarrow> 0 < sum_list (map f xs)"
proof (induction xs)
  case (Cons x xs)
  then show ?case by (cases "xs = []") (auto intro: add_pos_pos)
qed simp

lemma push_ok:
  assumes inv: "rb_inv rb" and c: "dedup_chunk c" and room: "is_signal c \<or> rb_num rb < rewrite_algorithm1 d"
  shows "\<exists>rs. rewrite_buffer_push d c rb = Some (\<not> is_signal c \<and> rb_num rb + 1 = rewrite_algorithm1 d,
       \<lparr>rb_queue = rb_queue rb @ [c], rb_records = rs,
        rb_num = (if is_signal c then rb_num rb else rb_num rb + 1),
        rb_size = (if is_signal c then rb_size rb else rb_size rb + ck_size c)\<rparr>)
     \<and> records_inv (rb_queue rb @ [c]) rs"
proof -
  have r: "records_inv (rb_queue rb) (rb_records rb)" using inv by (simp add: rb_inv_def)
  show ?thesis
  proof (cases "is_signal c")
    case True
    then show ?thesis using records_inv_other [OF r] by (cases rb) (auto simp: rewrite_buffer_push_def Let_def)
  next
    case data: False
    show ?thesis
    proof (cases "ck_id c = TEMPORARY_ID")
      case True
      then show ?thesis using data records_inv_other [OF r, of c] room
        by (cases rb) (auto simp: rewrite_buffer_push_def Let_def)
    next
      case loc: False
      then have i: "CHECK_CHUNK c CHUNK_DUPLICATE" "0 \<le> ck_id c" "ck_id c < 2 ^ 31" using c data by (auto simp: dedup_chunk_def)
      show ?thesis
      proof (cases "located_in (ck_id c) (rb_queue rb) = []")
        case True
        then have "ck_id c \<notin> rc_cid ` set (rb_records rb)" using r by (simp add: records_inv_def)
        then have "record_lookup (rb_records rb) (ck_id c) = None"
          using record_lookup_find [OF r i(2,3)] by (simp add: find_None_iff image_iff) metis
        with data loc i room records_inv_new [OF r True data i(2,3)] show ?thesis
          by (cases rb) (auto simp: rewrite_buffer_push_def Let_def)
      next
        case False
        from record_lookup_some [OF r False i(2,3)] data loc i room records_inv_add [OF r False data loc] show ?thesis
          by (cases rb) (auto simp: rewrite_buffer_push_def Let_def)
      qed
    qed
  qed
qed

lemma push_inv:
  assumes "rb_inv rb" "dedup_chunk c" "is_signal c \<or> rb_num rb < rewrite_algorithm1 d"
  shows "\<exists>rb'. rewrite_buffer_push d c rb = Some (\<not> is_signal c \<and> rb_num rb + 1 = rewrite_algorithm1 d, rb')
     \<and> rb_inv rb' \<and> rb_queue rb' = rb_queue rb @ [c] \<and> rb_num rb' = (if is_signal c then rb_num rb else rb_num rb + 1)"
  using push_ok [OF assms] assms(1,2) by (auto simp: rb_inv_def)

section \<open>Marks\<close>

text \<open>All the rewrite phase may do to a chunk.\<close>

definition marks :: "chunk \<Rightarrow> chunk \<Rightarrow> bool" where
  "marks c c' = (c' \<in> {c, SET_CHUNK c CHUNK_OUT_OF_ORDER, SET_CHUNK c CHUNK_SPARSE,
     SET_CHUNK (SET_CHUNK c CHUNK_SPARSE) CHUNK_OUT_OF_ORDER, SET_CHUNK (SET_CHUNK c CHUNK_OUT_OF_ORDER) CHUNK_SPARSE})"

lemma marks_refl [simp]: "marks c c"
  by (simp add: marks_def)

lemma marks_sel:
  "marks c c' \<Longrightarrow> ck_id c' = ck_id c \<and> ck_fp c' = ck_fp c \<and> ck_size c' = ck_size c \<and> ck_data c' = ck_data c"
  by (auto simp: marks_def)

lemma marks_flag:
  "marks c c' \<Longrightarrow> f AND CHUNK_OUT_OF_ORDER = 0 \<Longrightarrow> f AND CHUNK_SPARSE = 0 \<Longrightarrow> CHECK_CHUNK c' f = CHECK_CHUNK c f"
  by (auto simp: marks_def flag_simps and.commute)

lemma marks_signal: "marks c c' \<Longrightarrow> is_signal c' = is_signal c"
  using marks_flag [of c c' CHUNK_FILE_START] marks_flag [of c c' CHUNK_FILE_END]
    marks_flag [of c c' CHUNK_SEGMENT_START] marks_flag [of c c' CHUNK_SEGMENT_END] by simp

lemma marks_duplicate: "marks c c' \<Longrightarrow> CHECK_CHUNK c' CHUNK_DUPLICATE = CHECK_CHUNK c CHUNK_DUPLICATE"
  by (rule marks_flag) simp_all

lemma har_check_marks: "har_check inherited c = c \<or> har_check inherited c = SET_CHUNK c CHUNK_SPARSE"
  by (simp add: har_check_def)

section \<open>Popping\<close>

lemma records_inv_remove:
  assumes "records_inv (c # cs) rs" "\<forall>x \<in> set cs. dedup_chunk x" "\<not> is_signal c" "ck_id c \<noteq> TEMPORARY_ID"
    and r: "r \<in> set rs" "rc_cid r = ck_id c" "sz = rc_size r - ck_size c"
  shows "records_inv cs (if sz = 0 then filter (\<lambda>x. rc_cid x \<noteq> rc_cid r) rs
            else record_update (\<lambda>x. x\<lparr>rc_size := sz\<rparr>) (rc_cid r) rs)"
proof -
  have sz: "sz = bytes_in (ck_id c) cs"
    using assms(1,3,4) r by (auto simp: records_inv_def bytes_in_def located_Cons)
  have z: "sz = 0 \<longleftrightarrow> located_in (ck_id c) cs = []"
  proof -
    have "\<forall>x \<in> set (located_in (ck_id c) cs). 0 < ck_size x"
      using assms(2) by (auto simp: located_in_def dedup_chunk_def)
    with sum_list_pos_int [of "located_in (ck_id c) cs" ck_size] show ?thesis
      by (cases "located_in (ck_id c) cs = []") (auto simp: sz bytes_in_def)
  qed
  have other: "bytes_in i (c # cs) = bytes_in i cs" "located_in i (c # cs) = located_in i cs" if "i \<noteq> ck_id c" for i
    using that by (auto simp: bytes_in_def located_Cons)
  show ?thesis
  proof (cases "sz = 0")
    case True
    have "i \<in> rc_cid ` set (filter (\<lambda>x. rc_cid x \<noteq> ck_id c) rs) \<longleftrightarrow> located_in i cs \<noteq> []" for i
      using assms(1) True z other [of i] by (cases "i = ck_id c") (auto simp: records_inv_def)
    moreover have "distinct (map rc_cid (filter P rs))" for P
      using assms(1) by (auto simp: records_inv_def intro: distinct_map_filter)
    moreover have "0 \<le> rc_cid x \<and> rc_cid x < 2 ^ 31 \<and> rc_size x = bytes_in (rc_cid x) cs"
      if "x \<in> set (filter (\<lambda>x. rc_cid x \<noteq> ck_id c) rs)" for x
      using that assms(1) other [of "rc_cid x"] by (auto simp: records_inv_def)
    ultimately show ?thesis using True r(2) by (simp add: records_inv_def)
  next
    case False
    let ?rs = "record_update (\<lambda>x. x\<lparr>rc_size := sz\<rparr>) (ck_id c) rs"
    have "i \<in> rc_cid ` set ?rs \<longleftrightarrow> located_in i cs \<noteq> []" for i
    proof (cases "i = ck_id c")
      case True
      have "ck_id c \<in> rc_cid ` set rs" using r by (metis image_eqI)
      with False z True show ?thesis by simp
    next
      case ne: False
      with assms(1) other [of i] show ?thesis by (simp add: records_inv_def)
    qed
    moreover have "distinct (map rc_cid ?rs)" using assms(1) by (simp add: records_inv_def)
    moreover have "0 \<le> rc_cid x \<and> rc_cid x < 2 ^ 31 \<and> rc_size x = bytes_in (rc_cid x) cs" if "x \<in> set ?rs" for x
      using that assms(1) other sz by (auto simp: record_update_def records_inv_def split: if_splits)
    ultimately show ?thesis using False r(2) by (auto simp: records_inv_def)
  qed
qed

lemma pop_ok:
  assumes inv: "rb_inv rb" and q: "rb_queue rb = c # cs"
  shows "\<exists>c' rb'. rewrite_buffer_pop d inherited rb = Some (Some c', rb') \<and> rb_inv rb' \<and> rb_queue rb' = cs
     \<and> (c' = c \<or> c' = SET_CHUNK c CHUNK_SPARSE)
     \<and> rb_num rb' = (if is_signal c then rb_num rb else rb_num rb - 1)"
proof -
  have c: "dedup_chunk c" "\<forall>x \<in> set cs. dedup_chunk x" and r: "records_inv (c # cs) (rb_records rb)"
    using inv q by (auto simp: rb_inv_def)
  show ?thesis
  proof (cases "is_signal c \<or> ck_id c = TEMPORARY_ID")
    case True
    then have "records_inv cs (rb_records rb)" using r by (auto simp: records_inv_def located_Cons bytes_in_def)
    with True inv q show ?thesis
      by (cases "is_signal c") (auto simp: rewrite_buffer_pop_def rb_inv_def)
  next
    case False
    then have i: "CHECK_CHUNK c CHUNK_DUPLICATE" "0 \<le> ck_id c" "ck_id c < 2 ^ 31" using c by (auto simp: dedup_chunk_def)
    have "located_in (ck_id c) (c # cs) \<noteq> []" using False by (simp add: located_Cons)
    from record_lookup_some [OF r this i(2,3)] obtain rec where
      rec: "record_lookup (rb_records rb) (ck_id c) = Some rec" "rec \<in> set (rb_records rb)" "rc_cid rec = ck_id c" by auto
    have inv': "records_inv cs (if rc_size rec - ck_size c = 0 then filter (\<lambda>x. rc_cid x \<noteq> rc_cid rec) (rb_records rb)
            else record_update (\<lambda>x. x\<lparr>rc_size := rc_size rec - ck_size c\<rparr>) (rc_cid rec) (rb_records rb))"
      by (rule records_inv_remove [OF r c(2) _ _ rec(2,3) refl]) (use False in auto)
    with False i rec inv q har_check_marks [of inherited c] show ?thesis
      by (auto simp: rewrite_buffer_pop_def rb_inv_def Let_def)
  qed
qed

lemma pop_empty: "rb_queue rb = [] \<Longrightarrow> rewrite_buffer_pop d inherited rb = Some (None, rb)"
  by (simp add: rewrite_buffer_pop_def)

lemma drain_ok:
  assumes "rb_inv rb" "n = length (rb_queue rb)"
    and f: "\<And>c c'. c \<in> set (rb_queue rb) \<Longrightarrow> c' = c \<or> c' = SET_CHUNK c CHUNK_SPARSE \<Longrightarrow>
         \<exists>c''. f c' = Some c'' \<and> (c'' = c' \<or> c'' = SET_CHUNK c' CHUNK_OUT_OF_ORDER)"
  shows "\<exists>out rb'. drain d inherited f (Suc n) rb = Some (out, rb') \<and> rb_inv rb' \<and> rb_queue rb' = []
     \<and> rb_num rb' = 0 \<and> list_all2 marks (rb_queue rb) out"
  using assms
proof (induction n arbitrary: rb)
  case 0
  then show ?case by (simp add: pop_empty rb_inv_def)
next
  case (Suc n)
  then obtain c cs where q: "rb_queue rb = c # cs" "length cs = n" by (cases "rb_queue rb") auto
  from pop_ok [OF Suc.prems(1) q(1), of d inherited] obtain c' rb1 where
    p: "rewrite_buffer_pop d inherited rb = Some (Some c', rb1)" "rb_inv rb1" "rb_queue rb1 = cs"
      "c' = c \<or> c' = SET_CHUNK c CHUNK_SPARSE" by blast
  from Suc.prems(3) [of c c'] q(1) p(4) obtain c'' where c'': "f c' = Some c''" "c'' = c' \<or> c'' = SET_CHUNK c' CHUNK_OUT_OF_ORDER"
    by auto
  have "\<exists>out rb'. drain d inherited f (Suc n) rb1 = Some (out, rb') \<and> rb_inv rb' \<and> rb_queue rb' = []
     \<and> rb_num rb' = 0 \<and> list_all2 marks (rb_queue rb1) out"
    by (rule Suc.IH [OF p(2)]) (use p(3) q Suc.prems(3) in auto)
  moreover have "marks c c''" using p(4) c''(2) by (auto simp: marks_def)
  ultimately show ?case using p(1,3) c''(1) q(1) by (auto simp del: drain.simps(2) simp: drain.simps(2) [of d inherited f "Suc n"])
qed

lemma drain_all_ok:
  assumes "rb_inv rb"
    and "\<And>c c'. c \<in> set (rb_queue rb) \<Longrightarrow> c' = c \<or> c' = SET_CHUNK c CHUNK_SPARSE \<Longrightarrow>
         \<exists>c''. f c' = Some c'' \<and> (c'' = c' \<or> c'' = SET_CHUNK c' CHUNK_OUT_OF_ORDER)"
  shows "\<exists>out rb'. drain_all d inherited f rb = Some (out, rb') \<and> rb_inv rb' \<and> rb_queue rb' = []
     \<and> rb_num rb' = 0 \<and> list_all2 marks (rb_queue rb) out"
  unfolding drain_all_def by (rule drain_ok [OF assms(1) refl]) (rule assms(2))

section \<open>The threads only mark\<close>

lemma no_rewrite_marks: "list_all2 marks cs (no_rewrite d inherited cs)"
  using har_check_marks by (auto simp: no_rewrite_def list_all2_conv_all_nth marks_def)

lemma cfl_mark_ok:
  assumes "dedup_chunk c" "c' = c \<or> c' = SET_CHUNK c CHUNK_SPARSE"
  shows "\<exists>c''. cfl_mark ooo c' = Some c'' \<and> (c'' = c' \<or> c'' = SET_CHUNK c' CHUNK_OUT_OF_ORDER)"
  using assms by (auto simp: cfl_mark_def dedup_chunk_def flag_simps)

lemma cfl_flush_ok:
  assumes "rb_inv rb"
  shows "\<exists>out rb'. cfl_flush d inherited rb = Some (out, rb') \<and> rb_inv rb' \<and> rb_queue rb' = []
     \<and> rb_num rb' = 0 \<and> list_all2 marks (rb_queue rb) out"
  unfolding cfl_flush_def
  by (rule drain_all_ok [OF assms]) (use assms cfl_mark_ok in \<open>auto simp: rb_inv_def\<close>)

lemma cfl_loop_ok:
  assumes "rb_inv rb" "\<forall>c \<in> set cs. dedup_chunk c" "0 < rewrite_algorithm1 d"
    and "\<not> full \<longrightarrow> rb_num rb < rewrite_algorithm1 d"
  shows "\<exists>out. cfl_rewrite_loop d inherited cs last_id full rb = Some out \<and> list_all2 marks (rb_queue rb @ cs) out"
  using assms
proof (induction cs arbitrary: last_id full rb)
  case Nil
  from cfl_flush_ok [OF Nil.prems(1), of d inherited] show ?case by auto
next
  case (Cons c cs)
  let ?flush = "(last_id \<noteq> TEMPORARY_ID \<and> last_id \<noteq> ck_id c) \<or> full"
  have "\<exists>out full' rb'. (if ?flush then do { (out, rb) \<leftarrow> cfl_flush d inherited rb; Some (out, False, rb) }
      else Some ([], full, rb)) = Some (out, full', rb') \<and> rb_inv rb' \<and> \<not> full'
      \<and> rb_num rb' < rewrite_algorithm1 d \<and> (\<exists>r. rb_queue rb = r @ rb_queue rb' \<and> list_all2 marks r out)"
    using cfl_flush_ok [OF Cons.prems(1), of d inherited] Cons.prems by auto
  then obtain out full' rb1 where 1: "(if ?flush then do { (out, rb) \<leftarrow> cfl_flush d inherited rb; Some (out, False, rb) }
      else Some ([], full, rb)) = Some (out, full', rb1)" "rb_inv rb1" "\<not> full'" "rb_num rb1 < rewrite_algorithm1 d"
    "\<exists>r. rb_queue rb = r @ rb_queue rb1 \<and> list_all2 marks r out" by blast
  from push_inv [OF 1(2), of c d] Cons.prems(2) 1(4) obtain rb2 where
    2: "rewrite_buffer_push d c rb1 = Some (\<not> is_signal c \<and> rb_num rb1 + 1 = rewrite_algorithm1 d, rb2)" "rb_inv rb2"
      "rb_queue rb2 = rb_queue rb1 @ [c]" "rb_num rb2 = (if is_signal c then rb_num rb1 else rb_num rb1 + 1)" by auto
  have "\<exists>more. cfl_rewrite_loop d inherited cs (ck_id c) ((\<not> is_signal c \<and> rb_num rb1 + 1 = rewrite_algorithm1 d) \<or> full') rb2 = Some more
      \<and> list_all2 marks (rb_queue rb2 @ cs) more"
    by (rule Cons.IH [OF 2(2)]) (use Cons.prems 1(4) 2(4) in auto)
  then obtain more where "cfl_rewrite_loop d inherited cs (ck_id c) ((\<not> is_signal c \<and> rb_num rb1 + 1 = rewrite_algorithm1 d) \<or> full') rb2 = Some more"
      "list_all2 marks (rb_queue rb2 @ cs) more" by blast
  with 1(1,5) 2(1,3) show ?case by (auto intro: list_all2_appendI)
qed

lemma sort_records_mset: "mset (foldl (\<lambda>xs r. insert_sorted cmp r xs) ys rs) = mset ys + mset rs"
  by (induction rs arbitrary: ys) (auto simp: mset_insert_sorted)

lemma records_inv_mset: "mset rs = mset rs' \<Longrightarrow> records_inv cs rs = records_inv cs rs'"
proof -
  assume m: "mset rs = mset rs'"
  then have "set rs = set rs'" by (metis set_mset_mset)
  moreover have "distinct (map rc_cid rs) = distinct (map rc_cid rs')"
    using m by (intro mset_eq_imp_distinct_iff) simp
  ultimately show ?thesis by (simp add: records_inv_def)
qed

lemma cap_top_inv:
  assumes "rb_inv rb" "cap_segment_get_top d rb = (best, rb')"
  shows "rb_inv rb' \<and> rb_queue rb' = rb_queue rb \<and> rb_num rb' = rb_num rb"
proof -
  let ?sq = "foldl (\<lambda>xs r. insert_sorted g_record_descmp_by_length r xs) [] (rb_records rb)"
  have "mset (foldl (\<lambda>xs r. insert_sorted g_record_cmp_by_id r xs) [] ?sq) = mset (rb_records rb)"
    by (simp add: sort_records_mset)
  from records_inv_mset [OF this, of "rb_queue rb"] assms show ?thesis
    by (auto simp: cap_segment_get_top_def Let_def rb_inv_def)
qed

lemma cap_drain_ok:
  assumes "rb_inv rb"
  shows "\<exists>out rb'. drain_all d inherited (cap_mark b best) rb = Some (out, rb') \<and> rb_inv rb' \<and> rb_queue rb' = []
     \<and> rb_num rb' = 0 \<and> list_all2 marks (rb_queue rb) out"
  by (rule drain_all_ok [OF assms]) (auto simp: cap_mark_def)

lemma cap_loop_ok:
  assumes "rb_inv rb" "\<forall>c \<in> set cs. dedup_chunk c" "0 < rewrite_algorithm1 d" "rb_num rb < rewrite_algorithm1 d"
  shows "\<exists>out. cap_rewrite_loop d inherited cs rb = Some out \<and> list_all2 marks (rb_queue rb @ cs) out"
  using assms
proof (induction cs arbitrary: rb)
  case Nil
  obtain best rb1 where t: "cap_segment_get_top d rb = (best, rb1)" by fastforce
  from cap_drain_ok [of rb1 d inherited False best] cap_top_inv [OF Nil.prems(1) t] t show ?case by auto
next
  case (Cons c cs)
  from push_inv [OF Cons.prems(1), of c d] Cons.prems(2,4) obtain rb1 where
    1: "rewrite_buffer_push d c rb = Some (\<not> is_signal c \<and> rb_num rb + 1 = rewrite_algorithm1 d, rb1)" "rb_inv rb1"
      "rb_queue rb1 = rb_queue rb @ [c]" "rb_num rb1 = (if is_signal c then rb_num rb else rb_num rb + 1)" by auto
  show ?case
  proof (cases "\<not> is_signal c \<and> rb_num rb + 1 = rewrite_algorithm1 d")
    case True
    obtain best rb2 where t: "cap_segment_get_top d rb1 = (best, rb2)" by fastforce
    from cap_drain_ok [of rb2 d inherited True best] cap_top_inv [OF 1(2) t] obtain out rb3 where
      2: "drain_all d inherited (cap_mark True best) rb2 = Some (out, rb3)" "rb_inv rb3" "rb_queue rb3 = []" "rb_num rb3 = 0"
        "list_all2 marks (rb_queue rb1) out" by auto
    from Cons.IH [OF 2(2)] Cons.prems(2,3) 2(3,4) obtain more where
      "cap_rewrite_loop d inherited cs rb3 = Some more" "list_all2 marks cs more" by auto
    moreover have "list_all2 marks ((rb_queue rb @ [c]) @ cs) (out @ more)"
      using 2(5) 1(3) calculation(2) by (intro list_all2_appendI) simp_all
    ultimately show ?thesis using True t 1(1) 2(1) by simp
  next
    case False
    then have "rb_num rb1 < rewrite_algorithm1 d" using 1(4) Cons.prems(4) by auto
    with Cons.IH [OF 1(2) _ Cons.prems(3)] Cons.prems(2) False 1(1,3) show ?thesis by auto
  qed
qed

lemma cbr_signals_ok:
  assumes "rb_inv rb" "0 < rb_num rb" "length (rb_queue rb) < n"
  shows "\<exists>sigs rb' c cs. cbr_signals d inherited n rb = Some (sigs, rb') \<and> rb_inv rb' \<and> rb_num rb' = rb_num rb
     \<and> rb_queue rb = sigs @ rb_queue rb' \<and> rb_queue rb' = c # cs \<and> \<not> is_signal c"
  using assms
proof (induction n arbitrary: rb)
  case 0
  then show ?case by simp
next
  case (Suc n)
  then obtain c cs where q: "rb_queue rb = c # cs" by (cases "rb_queue rb") (auto simp: rb_inv_def)
  show ?case
  proof (cases "is_signal c")
    case False
    with q Suc.prems show ?thesis by (auto simp: rewrite_buffer_top_def)
  next
    case True
    from pop_ok [OF Suc.prems(1) q, of d inherited] True obtain c' rb1 where
      p: "rewrite_buffer_pop d inherited rb = Some (Some c', rb1)" "rb_inv rb1" "rb_queue rb1 = cs" "rb_num rb1 = rb_num rb" by auto
    have "0 < rb_num rb1" "length (rb_queue rb1) < n" using Suc.prems p q by auto
    from Suc.IH [OF p(2) this] p q True show ?thesis by (auto simp: rewrite_buffer_top_def)
  qed
qed

lemma records_inv_ooo:
  "records_inv cs rs \<Longrightarrow> records_inv cs (record_update (\<lambda>r. r\<lparr>rc_out_of_order := n\<rparr>) i rs)"
proof -
  assume r: "records_inv cs rs"
  have "0 \<le> rc_cid x \<and> rc_cid x < 2 ^ 31 \<and> rc_size x = bytes_in (rc_cid x) cs"
    if "x \<in> set (record_update (\<lambda>r. r\<lparr>rc_out_of_order := n\<rparr>) i rs)" for x
    using that r by (auto simp: record_update_def records_inv_def split: if_splits)
  with r show ?thesis by (simp add: records_inv_def)
qed

lemma cbr_decide_ok:
  assumes inv: "rb_inv rb" and q: "rb_queue rb = c # cs" "\<not> is_signal c"
  shows "\<exists>c' u rb'. cbr_decide d ub rb c = Some (c', u, rb') \<and> rb_inv (rb'\<lparr>rb_queue := c' # cs\<rparr>)
     \<and> rb_num rb' = rb_num rb \<and> rb_queue rb' = c # cs \<and> (c' = c \<or> c' = SET_CHUNK c CHUNK_OUT_OF_ORDER)"
proof -
  have mark: "rb_inv (rb\<lparr>rb_queue := SET_CHUNK c CHUNK_OUT_OF_ORDER # cs\<rparr>)"
    using inv q by (simp add: rb_inv_def records_inv_def bytes_in_def located_Cons dedup_chunk_def flag_simps)
  have same: "rb_inv (rb\<lparr>rb_queue := c # cs\<rparr>)" using inv q by (cases rb) simp
  have upd: "rb_inv (rb\<lparr>rb_records := record_update (\<lambda>r. r\<lparr>rc_out_of_order := 0\<rparr>) i (rb_records rb), rb_queue := c # cs\<rparr>)" for i
    using inv q records_inv_ooo by (simp add: rb_inv_def)
  show ?thesis
  proof (cases "ck_id c = TEMPORARY_ID")
    case True
    with same q show ?thesis by (simp add: cbr_decide_def)
  next
    case False
    have c: "CHECK_CHUNK c CHUNK_DUPLICATE" "0 \<le> ck_id c" "ck_id c < 2 ^ 31"
      using inv q False by (auto simp: rb_inv_def dedup_chunk_def)
    have "records_inv (c # cs) (rb_records rb)" "located_in (ck_id c) (c # cs) \<noteq> []"
      using inv q False by (auto simp: rb_inv_def located_Cons)
    from record_lookup_some [OF this c(2,3)] obtain r where r: "record_lookup (rb_records rb) (ck_id c) = Some r" by blast
    show ?thesis using False c(1) r q same mark upd [of "rc_cid r"]
      by (auto simp: cbr_decide_def get_rewrite_utility_def Let_def)
  qed
qed

lemma cbr_loop_ok:
  assumes "rb_inv rb" "\<forall>c \<in> set cs. dedup_chunk c" "0 < rewrite_algorithm1 d" "rb_num rb < rewrite_algorithm1 d"
  shows "\<exists>out. cbr_rewrite_loop d inherited cs ub rb = Some out \<and> list_all2 marks (rb_queue rb @ cs) out"
  using assms
proof (induction cs arbitrary: rb ub)
  case Nil
  have "\<exists>out rb'. drain_all d inherited Some rb = Some (out, rb') \<and> rb_inv rb' \<and> rb_queue rb' = []
     \<and> rb_num rb' = 0 \<and> list_all2 marks (rb_queue rb) out"
    by (rule drain_all_ok [OF Nil.prems(1)]) simp
  then show ?case by auto
next
  case (Cons c cs)
  from push_inv [OF Cons.prems(1), of c d] Cons.prems(2,4) obtain rb1 where
    1: "rewrite_buffer_push d c rb = Some (\<not> is_signal c \<and> rb_num rb + 1 = rewrite_algorithm1 d, rb1)" "rb_inv rb1"
      "rb_queue rb1 = rb_queue rb @ [c]" "rb_num rb1 = (if is_signal c then rb_num rb else rb_num rb + 1)" by auto
  show ?case
  proof (cases "\<not> is_signal c \<and> rb_num rb + 1 = rewrite_algorithm1 d")
    case False
    then have "rb_num rb1 < rewrite_algorithm1 d" using 1(4) Cons.prems(4) by auto
    with Cons.IH [OF 1(2) _ Cons.prems(3), of ub] Cons.prems(2) False 1(1,3) show ?thesis by auto
  next
    case True
    then have "0 < rb_num rb1" using 1(4) Cons.prems(3) by simp
    from cbr_signals_ok [OF 1(2) this lessI, of d inherited] obtain sigs rb2 dc qs where
      2: "cbr_signals d inherited (Suc (length (rb_queue rb1))) rb1 = Some (sigs, rb2)" "rb_inv rb2" "rb_num rb2 = rb_num rb1"
        "rb_queue rb1 = sigs @ rb_queue rb2" "rb_queue rb2 = dc # qs" "\<not> is_signal dc" by blast
    from cbr_decide_ok [OF 2(2,5,6), of d ub] obtain dc' u rb3 where
      3: "cbr_decide d ub rb2 dc = Some (dc', u, rb3)" "rb_inv (rb3\<lparr>rb_queue := dc' # qs\<rparr>)" "rb_num rb3 = rb_num rb2"
        "rb_queue rb3 = dc # qs" "dc' = dc \<or> dc' = SET_CHUNK dc CHUNK_OUT_OF_ORDER" by blast
    have sig: "\<not> is_signal dc'" using 3(5) 2(6) by (auto simp: flag_simps)
    from pop_ok [OF 3(2), of dc' qs d inherited] sig obtain p rb4 where
      4: "rewrite_buffer_pop d inherited (rb3\<lparr>rb_queue := dc' # qs\<rparr>) = Some (Some p, rb4)" "rb_inv rb4" "rb_queue rb4 = qs"
        "p = dc' \<or> p = SET_CHUNK dc' CHUNK_SPARSE" "rb_num rb4 = rb_num rb3 - 1" by auto
    have "rb_num rb4 < rewrite_algorithm1 d" using 4(5) 3(3) 2(3) 1(4) True by simp
    from Cons.IH [OF 4(2) _ Cons.prems(3) this] Cons.prems(2) obtain more where
      5: "cbr_rewrite_loop d inherited cs (utility_buckets_update d u ub) rb4 = Some more" "list_all2 marks (qs @ cs) more"
      using 4(3) by auto
    have "marks dc p" using 3(5) 4(4) by (auto simp: marks_def)
    moreover have "list_all2 marks sigs sigs" by (simp add: list_all2_same)
    ultimately have "list_all2 marks (sigs @ dc # (qs @ cs)) (sigs @ p # more)" using 5(2) by (intro list_all2_appendI) auto
    moreover have "rb_queue rb @ c # cs = sigs @ dc # (qs @ cs)"
      using 1(3) 2(4,5) by (metis append.assoc append_Cons append_Nil)
    ultimately have "list_all2 marks (rb_queue rb @ c # cs) (sigs @ p # more)" by metis
    moreover have "rewrite_buffer_top rb2 = Some dc" using 2(5) by (simp add: rewrite_buffer_top_def)
    then have "cbr_rewrite_loop d inherited (c # cs) ub rb = Some (sigs @ p # more)"
      using True 1(1) 2(1) 3(1,4) 4(1) 5(1) by (simp del: cbr_signals.simps)
    ultimately show ?thesis by blast
  qed
qed

lemma rewrite_phase_marks:
  assumes "\<forall>c \<in> set cs. dedup_chunk c" "0 < rewrite_algorithm1 d"
  shows "\<exists>out. rewrite_phase d inherited cs = Some out \<and> list_all2 marks cs out"
  using cfl_loop_ok [OF rb_inv_init assms, of False inherited TEMPORARY_ID] cap_loop_ok [OF rb_inv_init assms, of inherited]
    cbr_loop_ok [OF rb_inv_init assms, of inherited "init_utility_buckets d"] no_rewrite_marks [of cs d inherited] assms(2)
  by (cases "rewrite_algorithm0 d")
     (simp_all add: rewrite_phase_def cfl_rewrite_def cap_rewrite_def cbr_rewrite_def init_rewrite_buffer_def)

section \<open>Capping selects the containers with most bytes\<close>

interpretation by_length: comparison g_record_descmp_by_length "\<lambda>_. True"
  by unfold_locales (auto simp: g_record_descmp_by_length_def)

lemma sort_by_length_sorted:
  "sorted_cmp g_record_descmp_by_length ys \<Longrightarrow>
     sorted_cmp g_record_descmp_by_length (foldl (\<lambda>xs r. insert_sorted g_record_descmp_by_length r xs) ys rs)"
  by (induction rs arbitrary: ys) (auto intro: by_length.insert_sorted_sorted)

text \<open>No container outside the selection has more bytes in the buffer than one inside.\<close>

lemma cap_top_largest:
  assumes inv: "rb_inv rb" and top: "cap_segment_get_top d rb = (best, rb')" and level: "0 \<le> rewrite_capping_level d"
    and i: "i \<in> set best" and j: "located_in j (rb_queue rb) \<noteq> []" "j \<notin> set best"
  shows "bytes_in j (rb_queue rb) \<le> bytes_in i (rb_queue rb)" "int (length best) = rewrite_capping_level d"
proof -
  let ?rs = "rb_records rb"
  let ?sq = "foldl (\<lambda>xs r. insert_sorted g_record_descmp_by_length r xs) [] ?rs"
  let ?num = "if int (length ?sq) > rewrite_capping_level d then nat (rewrite_capping_level d) else length ?sq"
  have best: "best = map rc_cid (take ?num ?sq)" using top by (simp add: cap_segment_get_top_def Let_def)
  have set: "set ?sq = set ?rs" using sort_records_mset [of g_record_descmp_by_length "[]" ?rs] by (metis add_0 mset.simps(1) set_mset_mset)
  have srt: "sorted_wrt (\<lambda>x y. g_record_descmp_by_length x y \<le> 0) (take ?num ?sq @ drop ?num ?sq)"
    using sort_by_length_sorted [of "[]" ?rs] by (simp add: sorted_cmp_def)
  have ri: "records_inv (rb_queue rb) ?rs" using inv by (simp add: rb_inv_def)
  from i best obtain r where r: "r \<in> set (take ?num ?sq)" "rc_cid r = i" by auto
  from j(1) ri have "j \<in> rc_cid ` set ?rs" by (simp add: records_inv_def)
  then obtain s where s: "s \<in> set ?rs" "rc_cid s = j" by blast
  with j(2) best set have sd: "s \<in> set (drop ?num ?sq)" by (metis (no_types, lifting) Un_iff append_take_drop_id image_eqI list.set_map set_append)
  have "rc_size s \<le> rc_size r" using srt r(1) sd unfolding sorted_wrt_append g_record_descmp_by_length_def by fastforce
  moreover have "r \<in> set ?rs" using r(1) set by (metis in_set_takeD)
  ultimately show "bytes_in j (rb_queue rb) \<le> bytes_in i (rb_queue rb)"
    using ri r(2) s by (auto simp: records_inv_def)
  have "?num < length ?sq" using sd by (metis drop_all empty_iff list.set(1) not_le)
  then show "int (length best) = rewrite_capping_level d" using best level by (auto split: if_splits)
qed

section \<open>Properties\<close>

text \<open>C38: every rewriting algorithm sends on the chunks it received, in order, and changes at most
  the marks for sparse and out-of-order chunks; no assertion of the rewrite buffer fails.\<close>

theorem rewrite_only_marks:
  assumes "\<forall>c \<in> set cs. dedup_chunk c" "0 < rewrite_algorithm1 d"
  shows "\<exists>out. rewrite_phase d inherited cs = Some out \<and> list_all2 marks cs out"
  using rewrite_phase_marks [OF assms] .

theorem rewrite_only_marks_witness:
  "\<exists>out. rewrite_phase (destor_start_config\<lparr>rewrite_algorithm0 := REWRITE_CAPPING, rewrite_algorithm1 := 2\<rparr>) [5]
       [(SET_CHUNK (new_chunk (\<lambda>_. 0) 4) CHUNK_DUPLICATE)\<lparr>ck_id := 5\<rparr>, new_chunk (\<lambda>_. 0) 4, new_chunk (\<lambda>_. 0) 4] = Some out
     \<and> list_all2 marks [(SET_CHUNK (new_chunk (\<lambda>_. 0) 4) CHUNK_DUPLICATE)\<lparr>ck_id := 5\<rparr>, new_chunk (\<lambda>_. 0) 4, new_chunk (\<lambda>_. 0) 4] out"
  by (rule rewrite_only_marks) (simp_all add: dedup_chunk_def flag_simps new_chunk_def)

text \<open>The containers that capping keeps are those with the most bytes among the buffered
  duplicates, and when it leaves one out it keeps exactly the configured number.\<close>

theorem capping_keeps_largest:
  assumes "rb_inv rb" "cap_segment_get_top d rb = (best, rb')" "0 \<le> rewrite_capping_level d"
    and "i \<in> set best" "located_in j (rb_queue rb) \<noteq> []" "j \<notin> set best"
  shows "bytes_in j (rb_queue rb) \<le> bytes_in i (rb_queue rb) \<and> int (length best) = rewrite_capping_level d"
  using cap_top_largest [OF assms] by blast

theorem capping_keeps_largest_witness:
  "\<exists>rb rb'. rb_inv rb \<and> cap_segment_get_top (destor_start_config\<lparr>rewrite_capping_level := 1\<rparr>) rb = ([6], rb')
     \<and> bytes_in 5 (rb_queue rb) \<le> bytes_in 6 (rb_queue rb)"
proof -
  define c where "c i = (SET_CHUNK (new_chunk (\<lambda>_. 0) 4) CHUNK_DUPLICATE)\<lparr>ck_id := i\<rparr>" for i
  have c: "ck_id (c i) = i" "ck_size (c i) = 4" "\<not> is_signal (c i)" "CHECK_CHUNK (c i) CHUNK_DUPLICATE" for i
    by (simp_all add: c_def flag_simps) (simp add: new_chunk_def)
  let ?d = "destor_start_config\<lparr>rewrite_algorithm1 := 9, rewrite_capping_level := 1\<rparr>"
  let ?rb = "\<lparr>rb_queue = [c 5, c 6, c 6],
     rb_records = [\<lparr>rc_cid = 5, rc_size = 4, rc_out_of_order = 0\<rparr>, \<lparr>rc_cid = 6, rc_size = 8, rc_out_of_order = 0\<rparr>], rb_num = 3, rb_size = 12\<rparr>"
  have l: "located_in i [c 5, c 6, c 6] = (if i = 5 then [c 5] else if i = 6 then [c 6, c 6] else [])" for i
    using c by (auto simp: located_in_def TEMPORARY_ID_def)
  have d: "\<forall>x \<in> set [c 5, c 6, c 6]. dedup_chunk x" using c by (simp add: dedup_chunk_def)
  have inv: "rb_inv ?rb" using c d unfolding rb_inv_def records_inv_def bytes_in_def by (auto simp: l)
  obtain rb' where top: "cap_segment_get_top ?d ?rb = ([6], rb')"
    by (simp add: cap_segment_get_top_def insert_sorted_def g_record_descmp_by_length_def g_record_cmp_by_id_def Let_def)
  from capping_keeps_largest [OF inv top, of 6 5] have "bytes_in 5 (rb_queue ?rb) \<le> bytes_in 6 (rb_queue ?rb)" by (simp add: l)
  moreover have "cap_segment_get_top (destor_start_config\<lparr>rewrite_capping_level := 1\<rparr>) ?rb = cap_segment_get_top ?d ?rb"
    by (simp add: cap_segment_get_top_def)
  ultimately show ?thesis using inv top by (intro exI [of _ ?rb] exI [of _ rb']) simp
qed

end
