(* ===== verification/Filter_Phase.thy ===== *)
theory Filter_Phase
  imports Index_Invariant Rewrite
begin

unbundle bit_operations_syntax

text \<open>
  The filter phase (\<^verbatim>\<open>src/destor/src/filter_phase.c\<close>): it takes the marked segments from the
  rewrite phase, stores unique and rewritten chunks in the open container, writes the recipe
  and updates the index. One call of \<open>filter_segment\<close> is what the thread does while it holds
  \<open>index_lock\<close>; the reconstruction of the segment from the queue is \<open>receive_segment\<close> of theory
  \<open>Segmenting\<close>.

  \<open>fs_written\<close> is the list of the containers that were handed to \<open>write_container_async\<close> in this
  and in earlier jobs; theory \<open>Append_Thread\<close> shows that each of them can be read back from
  then on. The tables of recently unique and rewritten chunks map a fingerprint to the
  container of the chunk.
\<close>

section \<open>State\<close>

record filter_state =
  fs_ix :: fp_index
  fs_buffer :: "container option"
  fs_sample :: "chunk list"
  fs_count :: int
  fs_written :: "container list"
  fs_enable_rewrite :: bool
  fs_har :: "(containerid, int) ghash"
  fs_monitor :: monitor
  fs_bv :: backupVersion
  fs_statics :: recipe_statics
  fs_file :: "fileRecipeMeta option"
  jcr_unique_chunk_num :: int
  jcr_unique_data_size :: int
  jcr_rewritten_chunk_num :: int
  jcr_rewritten_chunk_size :: int
  jcr_chunk_num :: int
  jcr_data_size :: int
  jcr_file_num :: int

text \<open>The parameters of a job: byte order, iteration order of the feature tables, contents of
  fresh memory, wait threshold of the index lock and configuration.\<close>

record job =
  jb_be :: bool
  jb_ord :: "byte list list \<Rightarrow> byte list list"
  jb_junk :: "nat \<Rightarrow> byte"
  jb_threshold :: int
  jb_conf :: destor

type_synonym recent = "(fingerprint, containerid) ghash"

text \<open>The state when the phase starts (\<open>start_filter_phase\<close>, \<open>init_jcr\<close> and the local variables of
  the thread); \<open>ws\<close> are the containers of earlier jobs and \<open>n\<close> is the next container number.\<close>

definition start_filter_phase ::
    "destor \<Rightarrow> int \<Rightarrow> container list \<Rightarrow> backupVersion \<Rightarrow> recipe_statics \<Rightarrow> fp_index \<Rightarrow> filter_state" where
  "start_filter_phase d n ws b s ix =
     \<lparr>fs_ix = ix, fs_buffer = None, fs_sample = [], fs_count = n, fs_written = ws, fs_enable_rewrite = True,
      fs_har = [], fs_monitor = init_restore_aware d, fs_bv = b, fs_statics = s, fs_file = None,
      jcr_unique_chunk_num = 0, jcr_unique_data_size = 0, jcr_rewritten_chunk_num = 0, jcr_rewritten_chunk_size = 0,
      jcr_chunk_num = 0, jcr_data_size = 0, jcr_file_num = 0\<rparr>"

section \<open>One chunk\<close>

definition har_monitor_update :: "containerid \<Rightarrow> int \<Rightarrow> (containerid, int) ghash \<Rightarrow> (containerid, int) ghash" where
  "har_monitor_update i sz t =
     AList.update i ((case map_of t i of Some n \<Rightarrow> n | None \<Rightarrow> 0) + sz) t"

definition cache_aware :: "destor \<Rightarrow> monitor \<Rightarrow> chunk \<Rightarrow> chunk option" where
  "cache_aware d mo c =
     (if rewrite_enable_cache_aware d \<and> restore_aware_contains mo (ck_id c)
      then do { assertion (ck_id c \<noteq> TEMPORARY_ID); Some (SET_CHUNK c CHUNK_IN_CACHE) }
      else Some c)"

definition cfl_switch :: "destor \<Rightarrow> monitor \<Rightarrow> bool \<Rightarrow> bool" where
  "cfl_switch d mo enable =
     (if rewrite_enable_cfl_switch d
      then (let cfl = restore_aware_get_cfl mo in
            if enable \<and> cfl > rewrite_cfl_require d then False
            else if \<not> enable \<and> cfl < rewrite_cfl_require d then True
            else enable)
      else enable)"

definition resolve_recent :: "recent \<Rightarrow> recent \<Rightarrow> chunk \<Rightarrow> chunk option" where
  "resolve_recent uniques rewritten c = do {
     c \<leftarrow> (if CHECK_CHUNK c CHUNK_DUPLICATE \<and> ck_id c = TEMPORARY_ID
          then do { i \<leftarrow> map_of uniques (ck_fp c); Some (c\<lparr>ck_id := i\<rparr>) }
          else Some c);
     Some (case map_of rewritten (ck_fp c) of
             Some i \<Rightarrow> SET_CHUNK (c\<lparr>ck_id := i\<rparr>) CHUNK_REWRITE_DENIED
           | None \<Rightarrow> c)
   }"

definition must_write :: "bool \<Rightarrow> chunk \<Rightarrow> bool" where
  "must_write enable_rewrite c =
     (\<not> CHECK_CHUNK c CHUNK_DUPLICATE
      \<or> (\<not> CHECK_CHUNK c CHUNK_REWRITE_DENIED
         \<and> (CHECK_CHUNK c CHUNK_SPARSE
            \<or> (enable_rewrite \<and> CHECK_CHUNK c CHUNK_OUT_OF_ORDER \<and> \<not> CHECK_CHUNK c CHUNK_IN_CACHE))))"

definition write_async :: "container \<Rightarrow> filter_state \<Rightarrow> filter_state option" where
  "write_async b st = do {
     assertion (cm_chunk_num (con_meta b) = int (length (cm_map (con_meta b))));
     Some (if container_empty b then st\<lparr>fs_count := fs_count st - 1\<rparr>
           else st\<lparr>fs_written := fs_written st @ [b]\<rparr>)
   }"

text \<open>The index update of a finished container under physical locality.\<close>

definition index_container :: "job \<Rightarrow> container \<Rightarrow> filter_state \<Rightarrow> filter_state option" where
  "index_container j b st =
     (if index_category1 (jb_conf j) = INDEX_CATEGORY_PHYSICAL_LOCALITY
      then do {
        features \<leftarrow> sampling (jb_be j) (jb_conf j) (fs_sample st) (int (length (fs_sample st)));
        Some (st\<lparr>fs_ix := index_update (jb_ord j) (jb_conf j) features (get_container_id b) (fs_ix st), fs_sample := []\<rparr>)
      }
      else Some st)"

definition new_buffer :: "job \<Rightarrow> filter_state \<Rightarrow> filter_state" where
  "new_buffer j st =
     (let (b, n) = create_container (simulation_level (jb_conf j)) (fs_count st)
      in st\<lparr>fs_buffer := Some b, fs_count := n\<rparr>)"

definition ensure_container :: "job \<Rightarrow> int \<Rightarrow> filter_state \<Rightarrow> filter_state option" where
  "ensure_container j sz st = do {
     let st = (case fs_buffer st of
                 None \<Rightarrow> (if index_category1 (jb_conf j) = INDEX_CATEGORY_PHYSICAL_LOCALITY
                          then (new_buffer j st)\<lparr>fs_sample := []\<rparr> else new_buffer j st)
               | Some _ \<Rightarrow> st);
     b \<leftarrow> fs_buffer st;
     if container_overflow b sz
     then do {
       st \<leftarrow> index_container j b st;
       st \<leftarrow> write_async b st;
       Some (new_buffer j st)
     }
     else Some st
   }"

definition store_chunk ::
    "job \<Rightarrow> chunk \<Rightarrow> recent \<Rightarrow> recent \<Rightarrow> filter_state \<Rightarrow> (chunk \<times> recent \<times> recent \<times> filter_state) option" where
  "store_chunk j c uniques rewritten st = do {
     st \<leftarrow> ensure_container j (ck_size c) st;
     b \<leftarrow> fs_buffer st;
     (added, b, c) \<leftarrow> add_chunk_to_container (simulation_level (jb_conf j)) b c;
     let st = st\<lparr>fs_buffer := Some b\<rparr>;
     if added
     then do {
       let unique = (\<not> CHECK_CHUNK c CHUNK_DUPLICATE);
       let st = (if unique
                 then st\<lparr>jcr_unique_chunk_num := jcr_unique_chunk_num st + 1,
                         jcr_unique_data_size := jcr_unique_data_size st + ck_size c\<rparr>
                 else st\<lparr>jcr_rewritten_chunk_num := jcr_rewritten_chunk_num st + 1,
                         jcr_rewritten_chunk_size := jcr_rewritten_chunk_size st + ck_size c\<rparr>);
       let st = (if index_category1 (jb_conf j) = INDEX_CATEGORY_PHYSICAL_LOCALITY
                 then st\<lparr>fs_sample := fs_sample st @ [(new_chunk (jb_junk j) 0)\<lparr>ck_fp := ck_fp c\<rparr>]\<rparr> else st);
       Some (c, if unique then AList.update (ck_fp c) (ck_id c) uniques else uniques,
             if unique then rewritten else AList.update (ck_fp c) (ck_id c) rewritten, st)
     }
     else do {
       assertion (index_category0 (jb_conf j) \<noteq> INDEX_CATEGORY_EXACT \<or> rewrite_algorithm0 (jb_conf j) \<noteq> REWRITE_NO);
       Some (c, uniques, rewritten, st)
     }
   }"

definition filter_chunk ::
    "job \<Rightarrow> chunk \<Rightarrow> recent \<times> recent \<times> filter_state \<Rightarrow> (chunk \<times> recent \<times> recent \<times> filter_state) option" where
  "filter_chunk j c = (\<lambda>(uniques, rewritten, st).
     if is_file_signal c then Some (c, uniques, rewritten, st)
     else do {
       let d = jb_conf j;
       c \<leftarrow> cache_aware d (fs_monitor st) c;
       let st = st\<lparr>fs_enable_rewrite := cfl_switch d (fs_monitor st) (fs_enable_rewrite st)\<rparr>;
       c \<leftarrow> resolve_recent uniques rewritten c;
       (c, uniques, rewritten, st) \<leftarrow>
         (if must_write (fs_enable_rewrite st) c then store_chunk j c uniques rewritten st
          else Some (c, uniques, rewritten, st));
       assertion (ck_id c \<noteq> TEMPORARY_ID);
       mo \<leftarrow> restore_aware_update (ck_id c) (ck_size c) (fs_monitor st);
       Some (c, uniques, rewritten, st\<lparr>fs_har := har_monitor_update (ck_id c) (ck_size c) (fs_har st), fs_monitor := mo\<rparr>)
     })"

fun filter_chunks ::
    "job \<Rightarrow> chunk list \<Rightarrow> recent \<times> recent \<times> filter_state \<Rightarrow> (chunk list \<times> recent \<times> recent \<times> filter_state) option" where
  "filter_chunks j [] (uniques, rewritten, st) = Some ([], uniques, rewritten, st)"
| "filter_chunks j (c # cs) (uniques, rewritten, st) = do {
     (c, uniques, rewritten, st) \<leftarrow> filter_chunk j c (uniques, rewritten, st);
     (cs, uniques, rewritten, st) \<leftarrow> filter_chunks j cs (uniques, rewritten, st);
     Some (c # cs, uniques, rewritten, st)
   }"

section \<open>The recipe of a segment\<close>

definition recipe_chunk :: "job \<Rightarrow> chunk \<Rightarrow> filter_state \<Rightarrow> filter_state option" where
  "recipe_chunk j c st =
     (case fs_file st of
        None \<Rightarrow> do {
          assertion (CHECK_CHUNK c CHUNK_FILE_START);
          name \<leftarrow> ck_data c;
          Some (st\<lparr>fs_file := Some (new_file_recipe_meta name)\<rparr>)
        }
      | Some r \<Rightarrow>
          if \<not> CHECK_CHUNK c CHUNK_FILE_END
          then do {
            assertion (ck_id c \<ge> 0);
            (b, s) \<leftarrow> append_n_chunk_pointers (jb_be j) (fs_bv st)
                       [\<lparr>cp_fp = ck_fp c, cp_id = ck_id c, cp_size = ck_size c\<rparr>] (fs_statics st);
            Some (st\<lparr>fs_bv := b, fs_statics := s,
                     fs_file := Some (r\<lparr>fr_chunknum := fr_chunknum r + 1, fr_filesize := fr_filesize r + ck_size c\<rparr>),
                     jcr_chunk_num := jcr_chunk_num st + 1, jcr_data_size := jcr_data_size st + ck_size c\<rparr>)
          }
          else do {
            b \<leftarrow> append_file_recipe_meta (jb_be j) (fs_bv st) r;
            Some (st\<lparr>fs_bv := b, fs_file := None, jcr_file_num := jcr_file_num st + 1\<rparr>)
          })"

definition write_recipe :: "job \<Rightarrow> segment \<Rightarrow> filter_state \<Rightarrow> (segmentid \<times> filter_state) option" where
  "write_recipe j s st = do {
     (sid, b) \<leftarrow> append_segment_flag (jb_be j) (jb_junk j) (fs_bv st) CHUNK_SEGMENT_START (sg_chunk_num s);
     st \<leftarrow> fold_opt (recipe_chunk j) (sg_chunks s) (st\<lparr>fs_bv := b\<rparr>);
     (_, b) \<leftarrow> append_segment_flag (jb_be j) (jb_junk j) (fs_bv st) CHUNK_SEGMENT_END 0;
     Some (sid, st\<lparr>fs_bv := b\<rparr>)
   }"

definition index_segment_update :: "job \<Rightarrow> segment \<Rightarrow> segmentid \<Rightarrow> recent \<Rightarrow> recent \<Rightarrow> fp_index \<Rightarrow> fp_index option" where
  "index_segment_update j s sid uniques rewritten ix =
     (let d = jb_conf j in
      if index_category1 d = INDEX_CATEGORY_LOGICAL_LOCALITY
      then do {
        features \<leftarrow> sampling (jb_be j) d (sg_chunks s) (sg_chunk_num s);
        let features = (if index_category0 d = INDEX_CATEGORY_EXACT
                        then fold (\<lambda>(fp, _) fs. add_feature (feature_of d fp) fs) (uniques @ rewritten) features
                        else features);
        Some (index_update (jb_ord j) d features sid ix)
      }
      else Some ix)"

section \<open>A segment and the end of the job\<close>

text \<open>The result: the buffer remains full, the segment with its final container identifiers,
  the new state.\<close>

definition filter_segment :: "job \<Rightarrow> segment \<Rightarrow> filter_state \<Rightarrow> (bool \<times> segment \<times> filter_state) option" where
  "filter_segment j s st = do {
     s \<leftarrow> index_check_buffer (fs_ix st) s;
     (cs, uniques, rewritten, st) \<leftarrow> filter_chunks j (sg_chunks s) ([], [], st);
     let s = s\<lparr>sg_chunks := cs\<rparr>;
     (full, ix) \<leftarrow> index_update_buffer (jb_threshold j) s (fs_ix st);
     (sid, st) \<leftarrow> write_recipe j s (st\<lparr>fs_ix := ix\<rparr>);
     ix \<leftarrow> index_segment_update j s sid uniques rewritten (fs_ix st);
     Some (full, s, st\<lparr>fs_ix := ix\<rparr>)
   }"

text \<open>At the end of the job the open container is handed over; the pointer to it stays set in the
  code until the next job clears it, nothing reads it in between.\<close>

definition filter_finish :: "job \<Rightarrow> filter_state \<Rightarrow> filter_state option" where
  "filter_finish j st =
     (case fs_buffer st of
        Some b \<Rightarrow>
          if \<not> container_empty b
          then do { st \<leftarrow> index_container j b st; st \<leftarrow> write_async b st; Some (st\<lparr>fs_buffer := None\<rparr>) }
          else Some st
      | None \<Rightarrow> Some st)"

end
