(* ===== verification/Filter_Correct.thy ===== *)
theory Filter_Correct
  imports Filter_Phase
begin

unbundle bit_operations_syntax

text \<open>
  Correctness of the filter phase: no assertion of the thread can fail, every chunk of a
  segment ends with the identifier of a container that stores a chunk with its fingerprint,
  and the containers stay well-formed with contents that match their fingerprints.
  \<open>sha\<close> is the fingerprint function of the hash phase.
\<close>

section \<open>Containers of a job\<close>

definition all_containers :: "filter_state \<Rightarrow> container list" where
  "all_containers st = fs_written st @ (case fs_buffer st of None \<Rightarrow> [] | Some b \<Rightarrow> [b])"

definition st_holds :: "filter_state \<Rightarrow> location" where
  "st_holds st i fp = (\<exists>c \<in> set (all_containers st). get_container_id c = i \<and> lookup_fingerprint_in_container c fp)"

definition con_good :: "simulation_level \<Rightarrow> (byte list \<Rightarrow> fingerprint) \<Rightarrow> container \<Rightarrow> bool" where
  "con_good sim sha c = (container_ok c \<and> (sim < SIMULATION_APPEND \<longrightarrow> con_data c \<noteq> None
     \<and> (\<forall>fp. lookup_fingerprint_in_container c fp \<longrightarrow> (\<exists>bs. entry_data c fp = Some bs \<and> sha bs = fp))))"

definition store_inv :: "simulation_level \<Rightarrow> (byte list \<Rightarrow> fingerprint) \<Rightarrow> filter_state \<Rightarrow> bool" where
  "store_inv sim sha st =
     ((\<forall>c \<in> set (all_containers st). con_good sim sha c \<and> get_container_id c < fs_count st)
      \<and> (\<forall>c \<in> set (fs_written st). \<not> container_empty c)
      \<and> distinct (map get_container_id (all_containers st)) \<and> 0 \<le> fs_count st)"

definition chunk_good :: "simulation_level \<Rightarrow> (byte list \<Rightarrow> fingerprint) \<Rightarrow> chunk \<Rightarrow> bool" where
  "chunk_good sim sha c = (\<not> is_file_signal c \<longrightarrow>
     0 < ck_size c \<and> ck_size c \<le> int CONTAINER_SIZE - int CONTAINER_META_SIZE \<and> length (ck_fp c) = 20
     \<and> (sim < SIMULATION_APPEND \<longrightarrow> (\<exists>bs. ck_data c = Some bs \<and> int (length bs) = ck_size c \<and> sha bs = ck_fp c)))"

text \<open>The sampling parameter is not zero where the method divides by it.\<close>

definition sampling_conf :: "destor \<Rightarrow> bool" where
  "sampling_conf d = (index_sampling_method0 d \<in> {INDEX_SAMPLING_RANDOM, INDEX_SAMPLING_UNIFORM} \<longrightarrow> index_sampling_method1 d \<noteq> 0)"

lemma sampling_total:
  assumes "sampling_conf d" "chunks = [] \<longrightarrow> n = 0"
  shows "\<exists>fs. sampling be d chunks n = Some fs"
proof (cases "index_sampling_method0 d")
  case INDEX_SAMPLING_UNIFORM
  then have m: "index_sampling_method1 d \<noteq> 0" using assms(1) by (simp add: sampling_conf_def)
  show ?thesis
  proof (cases "chunks = []")
    case True
    with INDEX_SAMPLING_UNIFORM m assms(2) show ?thesis by (simp add: sampling_def index_sampling_uniform_def)
  next
    case False
    from sampling_uniform_features [OF m this, of n] INDEX_SAMPLING_UNIFORM show ?thesis by (auto simp: sampling_def)
  qed
next
  case INDEX_SAMPLING_RANDOM
  then show ?thesis using assms(1) by (simp add: sampling_def index_sampling_random_def sampling_conf_def Let_def)
qed (simp_all add: sampling_def)

text \<open>What a chunk's turn leaves alone.\<close>

definition fs_frame :: "filter_state \<Rightarrow> filter_state \<Rightarrow> bool" where
  "fs_frame st st' = (fs_bv st' = fs_bv st \<and> fs_statics st' = fs_statics st \<and> fs_file st' = fs_file st
     \<and> ix_cache (fs_ix st') = ix_cache (fs_ix st)
     \<and> buffered_fingerprints (fs_ix st') = buffered_fingerprints (fs_ix st) \<and> ix_chunk_num (fs_ix st') = ix_chunk_num (fs_ix st))"

lemma fs_frame_refl [simp]: "fs_frame st st"
  by (simp add: fs_frame_def)

lemma fs_frame_trans: "fs_frame a b \<Longrightarrow> fs_frame b c \<Longrightarrow> fs_frame a c"
  by (simp add: fs_frame_def)

lemma index_update_frame:
  "ix_cache (index_update ord d fs i ix) = ix_cache ix"
  "buffered_fingerprints (index_update ord d fs i ix) = buffered_fingerprints ix"
  "ix_chunk_num (index_update ord d fs i ix) = ix_chunk_num ix"
proof -
  have "ix_cache (fold (\<lambda>f ix. ix\<lparr>update_requests := update_requests ix + 1, ix_kv := kvstore_htable_update d (ix_kv ix) f i\<rparr>) xs ix) = ix_cache ix
    \<and> buffered_fingerprints (fold (\<lambda>f ix. ix\<lparr>update_requests := update_requests ix + 1, ix_kv := kvstore_htable_update d (ix_kv ix) f i\<rparr>) xs ix) = buffered_fingerprints ix
    \<and> ix_chunk_num (fold (\<lambda>f ix. ix\<lparr>update_requests := update_requests ix + 1, ix_kv := kvstore_htable_update d (ix_kv ix) f i\<rparr>) xs ix) = ix_chunk_num ix" for xs
    by (induction xs arbitrary: ix) auto
  then show "ix_cache (index_update ord d fs i ix) = ix_cache ix"
    "buffered_fingerprints (index_update ord d fs i ix) = buffered_fingerprints ix"
    "ix_chunk_num (index_update ord d fs i ix) = ix_chunk_num ix"
    by (simp_all add: index_update_def)
qed

lemma index_container_ok:
  assumes "sampling_conf (jb_conf j)"
  shows "\<exists>st'. index_container j b st = Some st' \<and> fs_frame st st' \<and> fs_buffer st' = fs_buffer st
     \<and> fs_written st' = fs_written st \<and> fs_count st' = fs_count st \<and> fs_monitor st' = fs_monitor st"
  using sampling_total [OF assms, of "fs_sample st" "int (length (fs_sample st))" "jb_be j"]
  by (auto simp: index_container_def fs_frame_def index_update_frame)

lemma new_buffer_simps:
  "fs_buffer (new_buffer j st) = Some (fst (create_container (simulation_level (jb_conf j)) (fs_count st)))"
  "fs_count (new_buffer j st) = fs_count st + 1" "fs_written (new_buffer j st) = fs_written st"
  "fs_monitor (new_buffer j st) = fs_monitor st" "fs_frame st (new_buffer j st)"
  by (simp_all add: new_buffer_def create_container_def fs_frame_def)

lemma created_empty [simp]: "\<not> lookup_fingerprint_in_container (fst (create_container sim n)) fp"
  "get_container_id (fst (create_container sim n)) = n"
  by (simp_all add: create_container_def lookup_fingerprint_in_container_def lookup_fingerprint_in_container_meta_def
      init_container_meta_def get_container_id_def)

lemma created_room: "0 < sz \<Longrightarrow> sz \<le> int CONTAINER_SIZE - int CONTAINER_META_SIZE \<Longrightarrow>
    \<not> container_overflow (fst (create_container sim n)) sz"
  by (simp add: create_container_def container_overflow_def init_container_meta_def CONTAINER_META_SIZE_def)

lemma created_good: "0 \<le> n \<Longrightarrow> n < 2 ^ 40 \<Longrightarrow> con_good sim sha (fst (create_container sim n))"
  using create_container_ok [of n sim] by (simp add: con_good_def) (simp add: create_container_def)

text \<open>Opening a fresh container next to a list of containers that are all older.\<close>

lemma store_inv_new_buffer:
  assumes "store_inv sim sha st" "fs_buffer st = None" "fs_count st < 2 ^ 40" "simulation_level (jb_conf j) = sim"
  shows "store_inv sim sha (new_buffer j st) \<and> st_holds (new_buffer j st) = st_holds st
     \<and> (\<forall>fp. \<not> buf_has (fs_buffer (new_buffer j st)) fp)"
proof -
  let ?b = "fst (create_container sim (fs_count st))"
  have all: "all_containers (new_buffer j st) = all_containers st @ [?b]"
    using assms(2,4) by (simp add: all_containers_def new_buffer_simps)
  have "store_inv sim sha (new_buffer j st)"
    using assms(1,3) created_good [of "fs_count st" sim sha] unfolding store_inv_def all
    by (auto simp: new_buffer_simps less_le_not_le) 
  moreover have "st_holds (new_buffer j st) = st_holds st"
    by (intro ext) (simp add: st_holds_def all)
  ultimately show ?thesis using assms(4) by (simp add: buf_has_def new_buffer_simps)
qed

lemma container_not_empty_overflow:
  "container_ok b \<Longrightarrow> 0 < sz \<Longrightarrow> sz \<le> int CONTAINER_SIZE - int CONTAINER_META_SIZE \<Longrightarrow> container_overflow b sz \<Longrightarrow>
     \<not> container_empty b"
proof
  assume b: "container_ok b" "0 < sz" "sz \<le> int CONTAINER_SIZE - int CONTAINER_META_SIZE" "container_overflow b sz" "container_empty b"
  then have "cm_chunk_num (con_meta b) = 0" "cm_data_size (con_meta b) = 0"
    by (auto simp: container_ok_def Let_def container_empty_def)
  with b show False by (simp add: container_overflow_def CONTAINER_META_SIZE_def split: if_splits)
qed

lemma write_async_ok:
  assumes "store_inv sim sha st" "fs_buffer st = Some b" "\<not> container_empty b"
  shows "\<exists>st'. write_async b st = Some st' \<and> store_inv sim sha (st'\<lparr>fs_buffer := None\<rparr>)
     \<and> st_holds (st'\<lparr>fs_buffer := None\<rparr>) = st_holds st \<and> fs_frame st st' \<and> fs_count st' = fs_count st
     \<and> fs_monitor st' = fs_monitor st"
proof -
  have "container_ok b" using assms by (auto simp: store_inv_def all_containers_def con_good_def)
  then have w: "write_async b st = Some (st\<lparr>fs_written := fs_written st @ [b]\<rparr>)"
    using assms(3) by (simp add: write_async_def container_ok_def Let_def)
  have all: "all_containers (st\<lparr>fs_written := fs_written st @ [b], fs_buffer := None\<rparr>) = all_containers st"
    using assms(2) by (simp add: all_containers_def)
  have "store_inv sim sha (st\<lparr>fs_written := fs_written st @ [b], fs_buffer := None\<rparr>)"
    using assms unfolding store_inv_def all by auto
  moreover have "st_holds (st\<lparr>fs_written := fs_written st @ [b], fs_buffer := None\<rparr>) = st_holds st"
    by (intro ext) (simp only: st_holds_def all)
  ultimately show ?thesis using w by (simp add: fs_frame_def)
qed

lemma new_buffer_None: "new_buffer j (st\<lparr>fs_buffer := None\<rparr>) = new_buffer j st"
  by (simp add: new_buffer_def)

lemma store_inv_sample [simp]: "store_inv sim sha (st\<lparr>fs_sample := x\<rparr>) = store_inv sim sha st"
  "st_holds (st\<lparr>fs_sample := x\<rparr>) = st_holds st"
  by (simp_all add: store_inv_def all_containers_def st_holds_def fun_eq_iff)

lemma ensure_container_ok:
  assumes inv: "store_inv sim sha st" and sim: "simulation_level (jb_conf j) = sim" and conf: "sampling_conf (jb_conf j)"
    and sz: "0 < sz" "sz \<le> int CONTAINER_SIZE - int CONTAINER_META_SIZE" and cnt: "fs_count st < 2 ^ 40"
  shows "\<exists>st' b. ensure_container j sz st = Some st' \<and> store_inv sim sha st' \<and> fs_buffer st' = Some b
     \<and> \<not> container_overflow b sz \<and> st_holds st' = st_holds st \<and> fs_frame st st'
     \<and> (\<forall>fp. buf_has (fs_buffer st') fp \<longrightarrow> buf_has (fs_buffer st) fp)
     \<and> fs_count st' \<le> fs_count st + 1 \<and> fs_monitor st' = fs_monitor st"
proof (cases "fs_buffer st")
  case None
  note n = store_inv_new_buffer [OF inv None cnt sim] and s = new_buffer_simps [where j = j and st = st]
  have "\<not> container_overflow (fst (create_container sim (fs_count st))) sz" using created_room [OF sz] .
  with None n s sim show ?thesis by (auto simp: ensure_container_def fs_frame_def)
next
  case (Some b)
  have ok: "container_ok b" using inv Some by (auto simp: store_inv_def all_containers_def con_good_def)
  show ?thesis
  proof (cases "container_overflow b sz")
    case False
    with Some inv show ?thesis by (auto simp: ensure_container_def)
  next
    case True
    from index_container_ok [OF conf, of b st] obtain st1 where
      1: "index_container j b st = Some st1" "fs_frame st st1" "fs_buffer st1 = Some b" "fs_written st1 = fs_written st"
        "fs_count st1 = fs_count st" "fs_monitor st1 = fs_monitor st" using Some by auto
    have inv1: "store_inv sim sha st1" "st_holds st1 = st_holds st"
      using inv 1 Some by (auto simp: store_inv_def all_containers_def st_holds_def fun_eq_iff)
    have ne: "\<not> container_empty b" using container_not_empty_overflow [OF ok sz True] .
    from write_async_ok [OF inv1(1) 1(3) ne] obtain st2 where
      2: "write_async b st1 = Some st2" "store_inv sim sha (st2\<lparr>fs_buffer := None\<rparr>)"
        "st_holds (st2\<lparr>fs_buffer := None\<rparr>) = st_holds st" "fs_frame st1 st2" "fs_count st2 = fs_count st"
        "fs_monitor st2 = fs_monitor st"
      using inv1(2) 1(5,6) by auto
    have cnt2: "fs_count (st2\<lparr>fs_buffer := None\<rparr>) < 2 ^ 40" using 2(5) cnt by simp
    note n = store_inv_new_buffer [OF 2(2) _ cnt2 sim, simplified new_buffer_None]
    note s = new_buffer_simps [where j = j and st = st2]
    have "ensure_container j sz st = Some (new_buffer j st2)"
      using Some True 1(1) 2(1) by (simp add: ensure_container_def)
    moreover have "fs_frame st (new_buffer j st2)" using 1(2) 2(4) s(5) by (blast intro: fs_frame_trans)
    ultimately show ?thesis using n s 2(3,5,6) sim created_room [OF sz, of sim "fs_count st2"] by auto
  qed
qed

section \<open>Storing a chunk\<close>

lemma con_good_add:
  assumes good: "con_good sim sha b" and c: "chunk_good sim sha c" "\<not> is_file_signal c"
    and room: "\<not> container_overflow b (ck_size c)"
  shows "\<exists>added b'. add_chunk_to_container sim b c = Some (added, b', c\<lparr>ck_id := get_container_id b\<rparr>)
     \<and> con_good sim sha b' \<and> get_container_id b' = get_container_id b \<and> \<not> container_empty b'
     \<and> added = (\<not> lookup_fingerprint_in_container b (ck_fp c))
     \<and> (\<forall>fp. lookup_fingerprint_in_container b' fp = (lookup_fingerprint_in_container b fp \<or> fp = ck_fp c))"
proof -
  have sz: "0 \<le> ck_size c" "length (ck_fp c) = 20" using c by (auto simp: chunk_good_def)
  have ok: "container_ok b" using good by (simp add: con_good_def)
  have data: "sim < SIMULATION_APPEND \<longrightarrow> con_data b \<noteq> None \<and> ck_data c \<noteq> None"
    using good c by (auto simp: con_good_def chunk_good_def)
  from add_chunk_ok [OF ok sz room data] obtain added b' where
    a: "add_chunk_to_container sim b c = Some (added, b', c\<lparr>ck_id := get_container_id b\<rparr>)" "container_ok b'"
      "added = (\<not> lookup_fingerprint_in_container b (ck_fp c))" "lookup_fingerprint_in_container b' (ck_fp c)"
      "get_container_id b' = get_container_id b" "\<not> container_empty b'" by blast
  have look: "lookup_fingerprint_in_container b' fp = (lookup_fingerprint_in_container b fp \<or> fp = ck_fp c)" for fp
    using a(1,4)
    by (auto simp: add_chunk_to_container_def Let_def bind_eq_Some_conv lookup_fingerprint_in_container_def
        lookup_fingerprint_in_container_meta_def update_conv' split: if_splits)
  have "con_good sim sha b'"
    unfolding con_good_def
  proof (intro conjI impI allI)
    show "container_ok b'" by (rule a(2))
    assume s: "sim < SIMULATION_APPEND"
    then show "con_data b' \<noteq> None" using a(1) data
      by (auto simp: add_chunk_to_container_def Let_def bind_eq_Some_conv split: if_splits option.splits)
    from s c obtain bs where bs: "ck_data c = Some bs" "ck_size c = int (length bs)" "sha bs = ck_fp c"
      by (auto simp: chunk_good_def)
    note d = add_chunk_data [OF ok bs(2,1) s a(1)]
    fix fp
    assume "lookup_fingerprint_in_container b' fp"
    then show "\<exists>bs. entry_data b' fp = Some bs \<and> sha bs = fp"
      using look [of fp] good s d a(3) bs(3) by (cases "lookup_fingerprint_in_container b fp") (auto simp: con_good_def)
  qed
  with a look show ?thesis by blast
qed

lemma store_chunk_ok:
  assumes inv: "store_inv sim sha st" and sim: "simulation_level (jb_conf j) = sim" and conf: "sampling_conf (jb_conf j)"
    and c: "chunk_good sim sha c" "\<not> is_file_signal c" and cnt: "fs_count st < 2 ^ 40"
    and denied: "buf_has (fs_buffer st) (ck_fp c) \<longrightarrow>
        index_category0 (jb_conf j) \<noteq> INDEX_CATEGORY_EXACT \<or> rewrite_algorithm0 (jb_conf j) \<noteq> REWRITE_NO"
  shows "\<exists>i us rw st'. store_chunk j c us0 rw0 st = Some (c\<lparr>ck_id := i\<rparr>, us, rw, st') \<and> store_inv sim sha st'
     \<and> st_holds st' i (ck_fp c) \<and> (\<forall>i fp. st_holds st i fp \<longrightarrow> st_holds st' i fp) \<and> fs_frame st st'
     \<and> (\<forall>fp. buf_has (fs_buffer st') fp \<longrightarrow> buf_has (fs_buffer st) fp \<or> fp = ck_fp c)
     \<and> fs_count st' \<le> fs_count st + 1 \<and> fs_monitor st' = fs_monitor st
     \<and> (us = us0 \<or> us = AList.update (ck_fp c) i us0) \<and> (rw = rw0 \<or> rw = AList.update (ck_fp c) i rw0)
     \<and> (\<not> dup c \<longrightarrow> \<not> buf_has (fs_buffer st) (ck_fp c) \<longrightarrow> us = AList.update (ck_fp c) i us0)"
proof -
  have sz: "0 < ck_size c" "ck_size c \<le> int CONTAINER_SIZE - int CONTAINER_META_SIZE" using c by (auto simp: chunk_good_def)
  from ensure_container_ok [OF inv sim conf sz cnt] obtain st1 b where
    1: "ensure_container j (ck_size c) st = Some st1" "store_inv sim sha st1" "fs_buffer st1 = Some b"
      "\<not> container_overflow b (ck_size c)" "st_holds st1 = st_holds st" "fs_frame st st1"
      "\<forall>fp. buf_has (fs_buffer st1) fp \<longrightarrow> buf_has (fs_buffer st) fp" "fs_count st1 \<le> fs_count st + 1"
      "fs_monitor st1 = fs_monitor st" by blast
  have good: "con_good sim sha b" using 1(2,3) by (auto simp: store_inv_def all_containers_def)
  from con_good_add [OF good c 1(4)] obtain added b' where
    2: "add_chunk_to_container sim b c = Some (added, b', c\<lparr>ck_id := get_container_id b\<rparr>)" "con_good sim sha b'"
      "get_container_id b' = get_container_id b" "added = (\<not> lookup_fingerprint_in_container b (ck_fp c))"
      "\<forall>fp. lookup_fingerprint_in_container b' fp = (lookup_fingerprint_in_container b fp \<or> fp = ck_fp c)" by blast
  let ?st = "st1\<lparr>fs_buffer := Some b'\<rparr>" and ?i = "get_container_id b"
  have all1: "all_containers st1 = fs_written st1 @ [b]" and all2: "all_containers ?st = fs_written st1 @ [b']"
    using 1(3) by (simp_all add: all_containers_def)
  have inv2: "store_inv sim sha ?st"
    using 1(2) 2(2,3) unfolding store_inv_def all1 all2 by auto
  have h: "st_holds ?st i fp = (st_holds st i fp \<or> (i = ?i \<and> fp = ck_fp c))" for i fp
    using 2(3,5) unfolding 1(5) [symmetric] st_holds_def all1 all2 by auto
  have bh: "buf_has (Some b') fp \<longrightarrow> buf_has (fs_buffer st) fp \<or> fp = ck_fp c" for fp
    using 2(5) 1(3,7) by (auto simp: buf_has_def)
  have flag: "dup (c\<lparr>ck_id := ?i\<rparr>) = dup c" by (simp add: flag_simps)
  have b_in: "\<not> added \<Longrightarrow> buf_has (fs_buffer st) (ck_fp c)" using 2(4) 1(3,7) by (auto simp: buf_has_def)
  have ext: "store_inv sim sha st' = store_inv sim sha ?st" "st_holds st' = st_holds ?st"
    if "fs_buffer st' = Some b'" "fs_written st' = fs_written st1" "fs_count st' = fs_count st1" for st'
    using that by (auto simp: store_inv_def all_containers_def st_holds_def fun_eq_iff)
  show ?thesis
  proof (cases added)
    case True
    let ?us = "if \<not> dup c then AList.update (ck_fp c) ?i us0 else us0"
    let ?rw = "if \<not> dup c then rw0 else AList.update (ck_fp c) ?i rw0"
    obtain st' where st': "store_chunk j c us0 rw0 st = Some (c\<lparr>ck_id := ?i\<rparr>, ?us, ?rw, st')"
      "fs_buffer st' = Some b'" "fs_written st' = fs_written st1" "fs_count st' = fs_count st1" "fs_frame st1 st'"
      "fs_monitor st' = fs_monitor st1"
      using 1(1,3) 2(1) True sim flag by (auto simp: store_chunk_def Let_def fs_frame_def)
    with ext [OF st'(2-4)] inv2 h bh 1(6,8,9) show ?thesis
      by (intro exI [of _ ?i] exI [of _ ?us] exI [of _ ?rw] exI [of _ st']) (auto intro: fs_frame_trans)
  next
    case False
    then have "buf_has (fs_buffer st) (ck_fp c)" by (rule b_in)
    moreover from this denied have "store_chunk j c us0 rw0 st = Some (c\<lparr>ck_id := ?i\<rparr>, us0, rw0, ?st)"
      using 1(1,3) 2(1) False sim by (auto simp: store_chunk_def Let_def)
    moreover have "fs_frame st ?st" using 1(6) by (simp add: fs_frame_def)
    ultimately show ?thesis using inv2 h bh 1(8,9)
      by (intro exI [of _ ?i] exI [of _ us0] exI [of _ rw0] exI [of _ ?st]) auto
  qed
qed
end
