(* ===== verification/Filter_Segment.thy ===== *)
theory Filter_Segment
  imports Filter_Correct Recipe_Segment
begin

unbundle bit_operations_syntax

text \<open>
  The loop of the filter phase over the chunks of a segment and the whole step for a segment.
\<close>

section \<open>The restore-aware monitor\<close>

definition mon_inv :: "monitor \<Rightarrow> bool" where
  "mon_inv mo = (lru_inv (mo_cache mo) \<and> hit_elem (mo_cache mo) = (=) \<and> TEMPORARY_ID \<notin> set (elem_queue (mo_cache mo)))"

lemma mon_inv_init: "mon_inv (init_restore_aware d)"
  by (simp add: mon_inv_def init_restore_aware_def lru_inv_new) (simp add: new_lru_cache_def)

lemma mon_inv_update:
  assumes "mon_inv mo" "i \<noteq> TEMPORARY_ID"
  shows "\<exists>mo'. restore_aware_update i n mo = Some mo' \<and> mon_inv mo'"
proof -
  obtain r c where l: "lru_cache_lookup (mo_cache mo) i = (r, c)" by force
  have c: "lru_inv c" "hit_elem c = (=)" "TEMPORARY_ID \<notin> set (elem_queue c)"
    using assms(1) lru_inv_lookup [of "mo_cache mo" i] lru_lookup_frame [of "mo_cache mo" i]
    unfolding l by (auto simp: mon_inv_def)
  from lru_inv_insert [OF c(1), of i] obtain v c' where i: "lru_cache_insert c i = Some (v, c')" "lru_inv c'" by blast
  from lru_insert_frame [OF i(1)] c assms(2) have "hit_elem c' = (=)" "TEMPORARY_ID \<notin> set (elem_queue c')" by auto
  with l c i show ?thesis by (cases r) (simp_all add: restore_aware_update_def mon_inv_def Let_def)
qed

lemma cache_aware_ok:
  assumes "mon_inv mo"
  shows "cache_aware d mo c \<in> {Some c, Some (SET_CHUNK c CHUNK_IN_CACHE)}"
proof -
  have "ck_id c \<noteq> TEMPORARY_ID" if "restore_aware_contains mo (ck_id c)"
    using that assms
    by (auto simp: restore_aware_contains_def mon_inv_def lru_cache_lookup_without_update_def find_Some_iff)
      (metis nth_mem)
  then show ?thesis by (simp add: cache_aware_def)
qed

section \<open>One chunk\<close>

definition recents_hold :: "location \<Rightarrow> recent \<Rightarrow> recent \<Rightarrow> bool" where
  "recents_hold holds us rw = (\<forall>fp i. map_of us fp = Some i \<or> map_of rw fp = Some i \<longrightarrow> holds i fp)"

definition loop_inv :: "(byte list \<Rightarrow> fingerprint) \<Rightarrow> job \<Rightarrow> recent \<Rightarrow> recent \<Rightarrow> filter_state \<Rightarrow> bool" where
  "loop_inv sha j us rw st =
     (store_inv (simulation_level (jb_conf j)) sha st \<and> mon_inv (fs_monitor st) \<and> recents_hold (st_holds st) us rw)"

definition exact_no_rewrite :: "destor \<Rightarrow> bool" where
  "exact_no_rewrite d = (index_category0 d = INDEX_CATEGORY_EXACT \<and> rewrite_algorithm0 d = REWRITE_NO)"

definition unmarked :: "chunk \<Rightarrow> bool" where
  "unmarked c = (\<not> CHECK_CHUNK c CHUNK_SPARSE \<and> \<not> CHECK_CHUNK c CHUNK_OUT_OF_ORDER)"

text \<open>What the loop needs of a chunk when its turn comes.\<close>

definition turn_ok :: "(byte list \<Rightarrow> fingerprint) \<Rightarrow> job \<Rightarrow> recent \<Rightarrow> filter_state \<Rightarrow> chunk \<Rightarrow> bool" where
  "turn_ok sha j us st c = (chunk_good (simulation_level (jb_conf j)) sha c \<and> (\<not> is_file_signal c \<longrightarrow>
       id_ok (st_holds st) (ck_id c) (ck_fp c)
     \<and> (dup c \<longrightarrow> ck_id c = TEMPORARY_ID \<longrightarrow> ck_fp c \<in> dom (map_of us))
     \<and> (\<not> dup c \<longrightarrow> \<not> buf_has (fs_buffer st) (ck_fp c))
     \<and> (exact_no_rewrite (jb_conf j) \<longrightarrow> unmarked c)))"

text \<open>What a turn leaves behind.\<close>

definition turn_post :: "recent \<Rightarrow> filter_state \<Rightarrow> chunk \<Rightarrow> chunk \<Rightarrow> recent \<Rightarrow> filter_state \<Rightarrow> bool" where
  "turn_post us st c c' us' st' = (same_chunk c c' \<and> dup c' = dup c \<and> resolved (st_holds st') c'
     \<and> (\<forall>i fp. st_holds st i fp \<longrightarrow> st_holds st' i fp) \<and> fs_frame st st'
     \<and> (\<forall>fp. buf_has (fs_buffer st') fp \<longrightarrow> buf_has (fs_buffer st) fp \<or> (\<not> is_file_signal c \<and> fp = ck_fp c))
     \<and> fs_count st' \<le> fs_count st + 1
     \<and> dom (map_of us) \<subseteq> dom (map_of us') \<and> (\<not> is_file_signal c \<longrightarrow> \<not> dup c \<longrightarrow> ck_fp c \<in> dom (map_of us')))"

lemma st_holds_pos: "store_inv sim sha st \<Longrightarrow> st_holds st i fp \<Longrightarrow> 0 \<le> i \<and> i \<noteq> TEMPORARY_ID \<and> TEMPORARY_ID < i"
  by (auto simp: store_inv_def st_holds_def con_good_def container_ok_def Let_def get_container_id_def TEMPORARY_ID_def)

lemma resolve_recent_ok:
  assumes "recents_hold holds us rw" "id_ok holds (ck_id c) (ck_fp c)"
    and "dup c \<longrightarrow> ck_id c = TEMPORARY_ID \<longrightarrow> ck_fp c \<in> dom (map_of us)"
  shows "\<exists>c'. resolve_recent us rw c = Some c' \<and> same_chunk c c' \<and> dup c' = dup c \<and> (dup c \<longrightarrow> holds (ck_id c') (ck_fp c))
     \<and> (unmarked c' = unmarked c)"
proof -
  define c1 where "c1 = (if dup c \<and> ck_id c = TEMPORARY_ID then c\<lparr>ck_id := the (map_of us (ck_fp c))\<rparr> else c)"
  have r: "resolve_recent us rw c = Some (case map_of rw (ck_fp c) of
       Some i \<Rightarrow> SET_CHUNK (c1\<lparr>ck_id := i\<rparr>) CHUNK_REWRITE_DENIED | None \<Rightarrow> c1)"
    using assms(3) by (auto simp: resolve_recent_def c1_def split: option.splits)
  have c1: "same_chunk c c1" "dup c1 = dup c" "dup c \<longrightarrow> holds (ck_id c1) (ck_fp c)" "unmarked c1 = unmarked c"
    using assms by (auto simp: c1_def same_chunk_def flag_simps recents_hold_def id_ok_def unmarked_def)
  show ?thesis
  proof (cases "map_of rw (ck_fp c)")
    case None
    with r c1 show ?thesis by simp
  next
    case (Some i)
    then have "holds i (ck_fp c)" using assms(1) by (auto simp: recents_hold_def)
    with r c1 Some show ?thesis by (simp add: same_chunk_def flag_simps unmarked_def)
  qed
qed

lemma st_holds_ext:
  "fs_buffer st' = fs_buffer st \<Longrightarrow> fs_written st' = fs_written st \<Longrightarrow> st_holds st' = st_holds st"
  "fs_buffer st' = fs_buffer st \<Longrightarrow> fs_written st' = fs_written st \<Longrightarrow> fs_count st' = fs_count st \<Longrightarrow>
     store_inv sim sha st' = store_inv sim sha st"
  by (auto simp: store_inv_def all_containers_def st_holds_def fun_eq_iff)

lemma recents_hold_mono: "recents_hold holds us rw \<Longrightarrow> (\<And>i fp. holds i fp \<Longrightarrow> holds' i fp) \<Longrightarrow> recents_hold holds' us rw"
  by (auto simp: recents_hold_def)

lemma recents_hold_update:
  assumes "recents_hold holds us rw" "holds i fp" "us' = us \<or> us' = AList.update fp i us" "rw' = rw \<or> rw' = AList.update fp i rw"
  shows "recents_hold holds us' rw'"
  using assms unfolding recents_hold_def by (auto simp: update_conv' split: if_splits)

lemma same_chunk_signal: "same_chunk c c' \<Longrightarrow> is_file_signal c' = is_file_signal c"
  by (auto simp: same_chunk_def)

lemma chunk_good_same: "same_chunk c c' \<Longrightarrow> chunk_good sim sha c' = chunk_good sim sha c"
  by (auto simp: same_chunk_def chunk_good_def)

lemma must_write_unmarked: "unmarked c \<Longrightarrow> must_write e c = (\<not> dup c)"
  by (simp add: must_write_def unmarked_def)

lemma write_turn_ok:
  assumes inv: "loop_inv sha j us rw st" and conf: "sampling_conf (jb_conf j)" and cnt: "fs_count st < 2 ^ 40"
    and c: "\<not> is_file_signal c" "chunk_good (simulation_level (jb_conf j)) sha c"
      "dup c \<longrightarrow> st_holds st (ck_id c) (ck_fp c)" "\<not> dup c \<longrightarrow> \<not> buf_has (fs_buffer st) (ck_fp c)"
      "exact_no_rewrite (jb_conf j) \<longrightarrow> unmarked c"
  shows "\<exists>c' us' rw' st'. (if must_write (fs_enable_rewrite st) c then store_chunk j c us rw st else Some (c, us, rw, st))
       = Some (c', us', rw', st') \<and> turn_post us st c c' us' st' \<and> loop_inv sha j us' rw' st'"
proof (cases "must_write (fs_enable_rewrite st) c")
  case False
  then have d: "dup c" by (auto simp: must_write_def)
  have "turn_post us st c c us st"
    using d c st_holds_pos [of _ sha st "ck_id c" "ck_fp c"] inv by (auto simp: turn_post_def resolved_def loop_inv_def)
  with False inv show ?thesis by auto
next
  case True
  have denied: "buf_has (fs_buffer st) (ck_fp c) \<longrightarrow>
      index_category0 (jb_conf j) \<noteq> INDEX_CATEGORY_EXACT \<or> rewrite_algorithm0 (jb_conf j) \<noteq> REWRITE_NO"
    using c True must_write_unmarked [of c] by (auto simp: exact_no_rewrite_def)
  have s: "store_inv (simulation_level (jb_conf j)) sha st" and mon: "mon_inv (fs_monitor st)" and rec: "recents_hold (st_holds st) us rw"
    using inv by (auto simp: loop_inv_def)
  from store_chunk_ok [OF s refl conf c(2,1) cnt denied, of us rw] obtain i us' rw' st' where
    1: "store_chunk j c us rw st = Some (c\<lparr>ck_id := i\<rparr>, us', rw', st')" "store_inv (simulation_level (jb_conf j)) sha st'"
      "st_holds st' i (ck_fp c)" "\<forall>i fp. st_holds st i fp \<longrightarrow> st_holds st' i fp" "fs_frame st st'"
      "\<forall>fp. buf_has (fs_buffer st') fp \<longrightarrow> buf_has (fs_buffer st) fp \<or> fp = ck_fp c"
      "fs_count st' \<le> fs_count st + 1" "fs_monitor st' = fs_monitor st"
      "us' = us \<or> us' = AList.update (ck_fp c) i us" "rw' = rw \<or> rw' = AList.update (ck_fp c) i rw"
      "\<not> dup c \<longrightarrow> \<not> buf_has (fs_buffer st) (ck_fp c) \<longrightarrow> us' = AList.update (ck_fp c) i us"
    by blast
  have rec': "recents_hold (st_holds st') us' rw'"
    proof (rule recents_hold_update [where us = us and rw = rw and i = i and fp = "ck_fp c"])
    show "recents_hold (st_holds st') us rw" using recents_hold_mono [OF rec] 1(4) by blast
  qed (use 1(3,9,10) in auto)
  have dom: "dom (map_of us) \<subseteq> dom (map_of us')" using 1(9) by (auto simp: update_conv')
  have "turn_post us st c (c\<lparr>ck_id := i\<rparr>) us' st'"
    unfolding turn_post_def using 1(3-7,11) dom c st_holds_pos [OF 1(2,3)]
    by (auto simp: same_chunk_def flag_simps resolved_def update_conv')
  moreover have "loop_inv sha j us' rw' st'" using 1(2,8) mon rec' by (simp add: loop_inv_def)
  ultimately show ?thesis using True 1(1) by auto
qed

lemma filter_chunk_ok:
  assumes inv: "loop_inv sha j us rw st" and conf: "sampling_conf (jb_conf j)" and cnt: "fs_count st < 2 ^ 40"
    and c: "turn_ok sha j us st c"
  shows "\<exists>c' us' rw' st'. filter_chunk j c (us, rw, st) = Some (c', us', rw', st')
     \<and> turn_post us st c c' us' st' \<and> loop_inv sha j us' rw' st'"
proof (cases "is_file_signal c")
  case True
  with inv show ?thesis by (auto simp: filter_chunk_def turn_post_def resolved_def)
next
  case data: False
  let ?d = "jb_conf j"
  have mon: "mon_inv (fs_monitor st)" and rec: "recents_hold (st_holds st) us rw" using inv by (auto simp: loop_inv_def)
  from cache_aware_ok [OF mon, of ?d c] obtain c1 where
    c1: "cache_aware ?d (fs_monitor st) c = Some c1" "c1 = c \<or> c1 = SET_CHUNK c CHUNK_IN_CACHE" by auto
  then have c1s: "same_chunk c c1" "dup c1 = dup c" "unmarked c1 = unmarked c" "ck_id c1 = ck_id c" "ck_fp c1 = ck_fp c"
    by (auto simp: same_chunk_def flag_simps unmarked_def)
  define st1 where "st1 = st\<lparr>fs_enable_rewrite := cfl_switch ?d (fs_monitor st) (fs_enable_rewrite st)\<rparr>"
  have st1: "st_holds st1 = st_holds st" "fs_buffer st1 = fs_buffer st" "fs_count st1 = fs_count st" "fs_monitor st1 = fs_monitor st"
    "loop_inv sha j us rw st1" "fs_frame st st1"
    using inv st_holds_ext [of st1 st] by (simp_all add: st1_def loop_inv_def fs_frame_def)
  have "id_ok (st_holds st) (ck_id c1) (ck_fp c1)" "dup c1 \<longrightarrow> ck_id c1 = TEMPORARY_ID \<longrightarrow> ck_fp c1 \<in> dom (map_of us)"
    using c data c1s by (auto simp: turn_ok_def)
  from resolve_recent_ok [OF rec this] obtain c2 where
    c2: "resolve_recent us rw c1 = Some c2" "same_chunk c1 c2" "dup c2 = dup c1" "dup c1 \<longrightarrow> st_holds st (ck_id c2) (ck_fp c1)"
      "unmarked c2 = unmarked c1" by blast
  have same: "same_chunk c c2" using c1s(1) c2(2) by (rule same_chunk_trans)
  then have fp: "ck_fp c2 = ck_fp c" and sig: "\<not> is_file_signal c2" using data by (auto simp: same_chunk_def)
  have p: "chunk_good (simulation_level ?d) sha c2" "dup c2 \<longrightarrow> st_holds st1 (ck_id c2) (ck_fp c2)"
      "\<not> dup c2 \<longrightarrow> \<not> buf_has (fs_buffer st1) (ck_fp c2)" "exact_no_rewrite ?d \<longrightarrow> unmarked c2"
    using c data c1s c2 st1 fp chunk_good_same [OF same] by (auto simp: turn_ok_def)
  have cnt1: "fs_count st1 < 2 ^ 40" using st1 cnt by simp
  from write_turn_ok [OF st1(5) conf cnt1 sig p] obtain c3 us' rw' st2 where
    3: "(if must_write (fs_enable_rewrite st1) c2 then store_chunk j c2 us rw st1 else Some (c2, us, rw, st1)) = Some (c3, us', rw', st2)"
      "turn_post us st1 c2 c3 us' st2" "loop_inv sha j us' rw' st2" by blast
  have sig3: "\<not> is_file_signal c3" using 3(2) sig same_chunk_signal [of c2 c3] by (auto simp: turn_post_def)
  then have id3: "ck_id c3 \<noteq> TEMPORARY_ID" using 3(2) by (auto simp: turn_post_def resolved_def)
  from 3(3) have "mon_inv (fs_monitor st2)" by (simp add: loop_inv_def)
  from mon_inv_update [OF this id3, of "ck_size c3"] obtain mo where
    mo: "restore_aware_update (ck_id c3) (ck_size c3) (fs_monitor st2) = Some mo" "mon_inv mo" by blast
  define st3 where "st3 = st2\<lparr>fs_har := har_monitor_update (ck_id c3) (ck_size c3) (fs_har st2), fs_monitor := mo\<rparr>"
  have st3: "st_holds st3 = st_holds st2" "fs_buffer st3 = fs_buffer st2" "fs_count st3 = fs_count st2"
    "loop_inv sha j us' rw' st3" "fs_frame st2 st3"
    using 3(3) mo(2) st_holds_ext [of st3 st2] by (simp_all add: st3_def loop_inv_def fs_frame_def)
  have "filter_chunk j c (us, rw, st) = Some (c3, us', rw', st3)"
    using data c1(1) c2(1) 3(1) mo(1) id3
    by (cases "must_write (fs_enable_rewrite st1) c2") (auto simp: filter_chunk_def Let_def st1_def st3_def)
  moreover have "turn_post us st c c3 us' st3"
    using 3(2) st1 st3 same c1s(2) c2(3) fp data sig fs_frame_trans [OF st1(6), of st2] fs_frame_trans [of st st2 st3]
      same_chunk_trans [OF same, of c3] unfolding turn_post_def by auto
  ultimately show ?thesis using st3(4) by blast
qed

section \<open>All chunks of a segment\<close>

text \<open>What the loop needs of the whole list: the identifiers that are known hold, a duplicate
  that waits for its container has a unique chunk before it, and a unique chunk is the first
  of its fingerprint.\<close>

definition ordered_ok :: "recent \<Rightarrow> filter_state \<Rightarrow> chunk list \<Rightarrow> bool" where
  "ordered_ok us st cs = (\<forall>xs c ys. cs = xs @ c # ys \<longrightarrow> \<not> is_file_signal c \<longrightarrow>
     (dup c \<longrightarrow> ck_id c = TEMPORARY_ID \<longrightarrow> ck_fp c \<in> dom (map_of us) \<or> (\<exists>x \<in> set (data_chunks xs). \<not> dup x \<and> ck_fp x = ck_fp c))
     \<and> (\<not> dup c \<longrightarrow> \<not> buf_has (fs_buffer st) (ck_fp c) \<and> (\<forall>x \<in> set (data_chunks xs). ck_fp x \<noteq> ck_fp c)))"

definition known_ok :: "(byte list \<Rightarrow> fingerprint) \<Rightarrow> job \<Rightarrow> location \<Rightarrow> chunk \<Rightarrow> bool" where
  "known_ok sha j holds c = (chunk_good (simulation_level (jb_conf j)) sha c \<and> (\<not> is_file_signal c \<longrightarrow>
       id_ok holds (ck_id c) (ck_fp c) \<and> (exact_no_rewrite (jb_conf j) \<longrightarrow> unmarked c)))"

lemma known_ok_mono: "known_ok sha j holds c \<Longrightarrow> (\<And>i fp. holds i fp \<Longrightarrow> holds' i fp) \<Longrightarrow> known_ok sha j holds' c"
  by (auto simp: known_ok_def id_ok_def)

lemma ordered_okD:
  assumes "ordered_ok us st (xs @ c # ys)" "\<not> is_file_signal c"
  shows "dup c \<Longrightarrow> ck_id c = TEMPORARY_ID \<Longrightarrow> ck_fp c \<in> dom (map_of us) \<or> (\<exists>x \<in> set (data_chunks xs). \<not> dup x \<and> ck_fp x = ck_fp c)"
    and "\<not> dup c \<Longrightarrow> \<not> buf_has (fs_buffer st) (ck_fp c) \<and> (\<forall>x \<in> set (data_chunks xs). ck_fp x \<noteq> ck_fp c)"
  using assms(1) [unfolded ordered_ok_def, THEN spec, THEN spec, THEN spec, THEN mp, OF refl, THEN mp, OF assms(2)]
  by blast+

lemma ordered_ok_Cons:
  assumes "ordered_ok us st (c # cs)" "turn_post us st c c' us' st'"
  shows "ordered_ok us' st' cs"
  unfolding ordered_ok_def
proof (intro allI impI)
  fix xs d ys
  assume cs: "cs = xs @ d # ys" "\<not> is_file_signal d"
  then have "ordered_ok us st ((c # xs) @ d # ys)" using assms(1) by simp
  note o = ordered_okD [OF this cs(2)]
  have mem: "x \<in> set (data_chunks (c # xs)) = ((x = c \<and> \<not> is_file_signal c) \<or> x \<in> set (data_chunks xs))" for x
    by (auto simp: data_chunks_def)
  have p: "\<And>fp. buf_has (fs_buffer st') fp \<Longrightarrow> buf_has (fs_buffer st) fp \<or> (\<not> is_file_signal c \<and> fp = ck_fp c)"
    "dom (map_of us) \<subseteq> dom (map_of us')" "\<not> is_file_signal c \<Longrightarrow> \<not> dup c \<Longrightarrow> ck_fp c \<in> dom (map_of us')"
    using assms(2) unfolding turn_post_def by blast+
  show "(dup d \<longrightarrow> ck_id d = TEMPORARY_ID \<longrightarrow>
      ck_fp d \<in> dom (map_of us') \<or> (\<exists>x \<in> set (data_chunks xs). \<not> dup x \<and> ck_fp x = ck_fp d))
     \<and> (\<not> dup d \<longrightarrow> \<not> buf_has (fs_buffer st') (ck_fp d) \<and> (\<forall>x \<in> set (data_chunks xs). ck_fp x \<noteq> ck_fp d))"
  proof (intro conjI impI ballI notI)
    assume "dup d" "ck_id d = TEMPORARY_ID"
    from o(1) [OF this] show "ck_fp d \<in> dom (map_of us') \<or> (\<exists>x \<in> set (data_chunks xs). \<not> dup x \<and> ck_fp x = ck_fp d)"
    proof
      assume "ck_fp d \<in> dom (map_of us)"
      with p(2) show ?thesis by (rule disjI1 [OF subsetD])
    next
      assume "\<exists>x \<in> set (data_chunks (c # xs)). \<not> dup x \<and> ck_fp x = ck_fp d"
      then obtain x where "x \<in> set (data_chunks (c # xs))" "\<not> dup x" "ck_fp x = ck_fp d" by (elim bexE conjE)
      with mem [of x] p(3) show ?thesis by metis
    qed
  next
    assume d: "\<not> dup d"
    note d = o(2) [OF d, THEN conjunct1] o(2) [OF d, THEN conjunct2, THEN bspec]
    show False if "buf_has (fs_buffer st') (ck_fp d)"
      using p(1) [OF that]
    proof
      assume c: "\<not> is_file_signal c \<and> ck_fp d = ck_fp c"
      then have "c \<in> set (data_chunks (c # xs))" unfolding mem by blast
      from d(2) [OF this] c show False by simp
    qed (use d(1) in simp)
    show False if x: "x \<in> set (data_chunks xs)" "ck_fp x = ck_fp d" for x
    proof -
      from x(1) have "x \<in> set (data_chunks (c # xs))" unfolding mem by (rule disjI2)
      from d(2) [OF this] x(2) show False by simp
    qed
  qed
qed

text \<open>What the loop leaves behind.\<close>

definition loop_post :: "filter_state \<Rightarrow> chunk list \<Rightarrow> chunk list \<Rightarrow> filter_state \<Rightarrow> bool" where
  "loop_post st cs cs' st' = (list_all2 (\<lambda>c c'. same_chunk c c' \<and> dup c' = dup c) cs cs' \<and> (\<forall>c \<in> set cs'. resolved (st_holds st') c)
     \<and> (\<forall>i fp. st_holds st i fp \<longrightarrow> st_holds st' i fp) \<and> fs_frame st st'
     \<and> (\<forall>fp. buf_has (fs_buffer st') fp \<longrightarrow> buf_has (fs_buffer st) fp \<or> fp \<in> ck_fp ` set (data_chunks cs))
     \<and> fs_count st' \<le> fs_count st + int (length cs))"

lemma resolved_mono: "resolved holds c \<Longrightarrow> (\<And>i fp. holds i fp \<Longrightarrow> holds' i fp) \<Longrightarrow> resolved holds' c"
  by (auto simp: resolved_def)

lemma loop_post_Cons:
  assumes "turn_post us st c c' us' st1" "loop_post st1 cs cs' st'"
  shows "loop_post st (c # cs) (c' # cs') st'"
proof -
  have d: "set (data_chunks (c # cs)) = (if is_file_signal c then {} else {c}) \<union> set (data_chunks cs)"
    by (auto simp: data_chunks_def)
  have "resolved (st_holds st') c'" using assms unfolding turn_post_def loop_post_def by (metis resolved_mono)
  moreover have "fs_frame st st'" using assms fs_frame_trans unfolding turn_post_def loop_post_def by blast
  moreover have "buf_has (fs_buffer st') fp \<longrightarrow> buf_has (fs_buffer st) fp \<or> fp \<in> ck_fp ` set (data_chunks (c # cs))" for fp
    using assms unfolding turn_post_def loop_post_def d by auto
  ultimately show ?thesis using assms unfolding turn_post_def loop_post_def by auto
qed

lemma filter_chunks_ok:
  assumes "loop_inv sha j us rw st" and conf: "sampling_conf (jb_conf j)" and "fs_count st + int (length cs) \<le> 2 ^ 40"
    and "\<forall>c \<in> set cs. known_ok sha j (st_holds st) c" "ordered_ok us st cs"
  shows "\<exists>cs' us' rw' st'. filter_chunks j cs (us, rw, st) = Some (cs', us', rw', st')
     \<and> loop_post st cs cs' st' \<and> loop_inv sha j us' rw' st'"
  using assms
proof (induction cs arbitrary: us rw st)
  case Nil
  then show ?case by (simp add: loop_post_def)
next
  case (Cons c cs)
  have "ordered_ok us st ([] @ c # cs)" using Cons.prems(5) by simp
  note o = ordered_okD [OF this]
  have k: "known_ok sha j (st_holds st) c" using Cons.prems(4) by simp
  have t: "turn_ok sha j us st c" using k o by (simp add: turn_ok_def known_ok_def data_chunks_def)
  have cnt: "fs_count st < 2 ^ 40" using Cons.prems(3) by simp
  from filter_chunk_ok [OF Cons.prems(1) conf cnt t] obtain c' us1 rw1 st1 where
    1: "filter_chunk j c (us, rw, st) = Some (c', us1, rw1, st1)" "turn_post us st c c' us1 st1" "loop_inv sha j us1 rw1 st1"
    by blast
  have mono: "\<And>i fp. st_holds st i fp \<Longrightarrow> st_holds st1 i fp" "fs_count st1 \<le> fs_count st + 1"
    using 1(2) by (auto simp: turn_post_def)
  have known: "\<forall>c \<in> set cs. known_ok sha j (st_holds st1) c"
  proof
    fix c
    assume "c \<in> set cs"
    then show "known_ok sha j (st_holds st1) c"
      using known_ok_mono [where c = c and holds = "st_holds st"] mono(1) Cons.prems(4) by simp
  qed
  have "fs_count st1 + int (length cs) \<le> 2 ^ 40" using mono(2) Cons.prems(3) by simp
  from Cons.IH [OF 1(3) conf this known ordered_ok_Cons [OF Cons.prems(5) 1(2)]] obtain cs' us' rw' st' where
    2: "filter_chunks j cs (us1, rw1, st1) = Some (cs', us', rw', st')" "loop_post st1 cs cs' st'" "loop_inv sha j us' rw' st'"
    by blast
  have "filter_chunks j (c # cs) (us, rw, st) = Some (c' # cs', us', rw', st')" using 1(1) 2(1) by simp
  with loop_post_Cons [OF 1(2) 2(2)] 2(3) show ?case by blast
qed

section \<open>The order of the pending chunks\<close>

lemma list_all2_fwd: "list_all2 R xs ys \<Longrightarrow> x \<in> set xs \<Longrightarrow> \<exists>y \<in> set ys. R x y"
  by (induction rule: list_all2_induct) auto

lemma list_all2_bwd: "list_all2 R xs ys \<Longrightarrow> y \<in> set ys \<Longrightarrow> \<exists>x \<in> set xs. R x y"
  by (induction rule: list_all2_induct) auto

lemma data_corresponds:
  assumes "list_all2 R xs ys" "\<And>x y. R x y \<Longrightarrow> is_file_signal y = is_file_signal x"
  shows "list_all2 R (data_chunks xs) (data_chunks ys)"
  using assms(1)
proof (induction rule: list_all2_induct)
  case Nil
  then show ?case by (simp add: data_chunks_def)
next
  case (Cons x xs y ys)
  with assms(2) [of x y] show ?case by (auto simp: data_chunks_def)
qed

lemma checked_signal: "checked P holds x y \<Longrightarrow> is_file_signal y = is_file_signal x"
  using same_chunk_signal [of x y] by (simp add: checked_def)

lemma checked_ordered:
  assumes inv: "pending_inv holds (buf_has (fs_buffer st)) (data_chunks cs0 @ P) ix"
    and ch: "list_all2 (checked (data_chunks cs0 @ P) holds) cs0 cs"
  shows "ordered_ok [] st cs"
  unfolding ordered_ok_def
proof (intro allI impI)
  fix xs c ys
  assume cs: "cs = xs @ c # ys" and sig: "\<not> is_file_signal c"
  let ?R = "checked (data_chunks cs0 @ P) holds"
  from ch cs obtain xs0 c0 ys0 where
    cs0: "cs0 = xs0 @ c0 # ys0" "list_all2 ?R xs0 xs" "?R c0 c"
    by (auto simp: list_all2_append2 list_all2_Cons2)
  have sig0: "\<not> is_file_signal c0" using checked_signal [OF cs0(3)] sig by simp
  have c0: "dup c0 = dup c" "ck_fp c0 = ck_fp c" "dup c \<Longrightarrow> ck_id c = TEMPORARY_ID \<Longrightarrow> \<not> dup (hd (occ (ck_fp c) (data_chunks cs0 @ P)))"
    using cs0(3) sig0 by (auto simp: checked_def same_chunk_def)
  have P: "data_chunks cs0 @ P = data_chunks xs0 @ c0 # (data_chunks ys0 @ P)"
    using cs0(1) sig0 by (simp add: data_chunks_def)
  have d: "list_all2 ?R (data_chunks xs0) (data_chunks xs)" using data_corresponds [OF cs0(2)] checked_signal by blast
  have bwd: "\<exists>x0 \<in> set (data_chunks xs0). ck_fp x0 = ck_fp x" if "x \<in> set (data_chunks xs)" for x
    using list_all2_bwd [OF d that] by (elim bexE, intro bexI) (auto simp: checked_def same_chunk_def)
  have fwd: "\<exists>x \<in> set (data_chunks xs). ck_fp x = ck_fp x0 \<and> dup x = dup x0" if "x0 \<in> set (data_chunks xs0)" for x0
    using list_all2_fwd [OF d that] by (elim bexE, intro bexI) (auto simp: checked_def same_chunk_def)
  show "(dup c \<longrightarrow> ck_id c = TEMPORARY_ID \<longrightarrow> ck_fp c \<in> dom (map_of []) \<or> (\<exists>x \<in> set (data_chunks xs). \<not> dup x \<and> ck_fp x = ck_fp c))
     \<and> (\<not> dup c \<longrightarrow> \<not> buf_has (fs_buffer st) (ck_fp c) \<and> (\<forall>x \<in> set (data_chunks xs). ck_fp x \<noteq> ck_fp c))"
  proof (cases "dup c")
    case False
    with c0 first_is_unique [OF inv [unfolded P]] have
      "\<forall>x \<in> set (data_chunks xs0). ck_fp x \<noteq> ck_fp c" "\<not> buf_has (fs_buffer st) (ck_fp c)" by simp_all
    with bwd False show ?thesis by metis
  next
    case True
    show ?thesis
    proof (cases "ck_id c = TEMPORARY_ID")
      case temp: True
      let ?o = "occ (ck_fp c) (data_chunks xs0)"
      have o: "occ (ck_fp c) (data_chunks cs0 @ P) = ?o @ c0 # occ (ck_fp c) (data_chunks ys0 @ P)"
        unfolding P using c0(2) by (simp add: occ_def)
      have nd: "\<not> dup (hd (?o @ c0 # occ (ck_fp c) (data_chunks ys0 @ P)))" using c0(3) [OF True temp] unfolding o .
      then have "?o \<noteq> []" using True c0(1) by auto
      with nd have "hd ?o \<in> set ?o" "\<not> dup (hd ?o)" by simp_all
      then have "hd ?o \<in> set (data_chunks xs0)" "ck_fp (hd ?o) = ck_fp c" "\<not> dup (hd ?o)" by (auto simp: occ_def)
      with fwd [of "hd ?o"] True show ?thesis by metis
    qed (use True in simp)
  qed
qed

section \<open>The recipe of a segment\<close>

text \<open>A reference for the file records: \<open>recipe_files r cs\<close> gives the records of the files that
  end within \<open>cs\<close> and the record of the file that is still open.\<close>

fun recipe_files :: "fileRecipeMeta option \<Rightarrow> chunk list \<Rightarrow> fileRecipeMeta list \<times> fileRecipeMeta option" where
  "recipe_files r [] = ([], r)"
| "recipe_files None (c # cs) = recipe_files (Some (new_file_recipe_meta (the (ck_data c)))) cs"
| "recipe_files (Some r) (c # cs) =
     (if CHECK_CHUNK c CHUNK_FILE_END
      then (let (rs, r') = recipe_files None cs in (r # rs, r'))
      else recipe_files (Some (r\<lparr>fr_chunknum := fr_chunknum r + 1, fr_filesize := fr_filesize r + ck_size c\<rparr>)) cs)"

text \<open>The chunks of a stream come as files: a start signal with the name, data, an end signal.\<close>

fun file_shape :: "bool \<Rightarrow> chunk list \<Rightarrow> bool option" where
  "file_shape inside [] = Some inside"
| "file_shape False (c # cs) = (if CHECK_CHUNK c CHUNK_FILE_START \<and> ck_data c \<noteq> None then file_shape True cs else None)"
| "file_shape True (c # cs) =
     (if CHECK_CHUNK c CHUNK_FILE_END then file_shape False cs
      else if CHECK_CHUNK c CHUNK_FILE_START then None else file_shape True cs)"

lemma recipe_files_same: "list_all2 same_chunk cs cs' \<Longrightarrow> recipe_files r cs' = recipe_files r cs"
proof (induction cs arbitrary: cs' r)
  case (Cons c cs)
  then show ?case by (cases r) (auto simp: list_all2_Cons1 same_chunk_def)
qed simp

lemma file_shape_same: "list_all2 same_chunk cs cs' \<Longrightarrow> file_shape b cs' = file_shape b cs"
proof (induction cs arbitrary: cs' b)
  case (Cons c cs)
  then show ?case by (cases b) (auto simp: list_all2_Cons1 same_chunk_def)
qed simp

definition ptr_of :: "chunk \<Rightarrow> chunkPointer" where
  "ptr_of c = \<lparr>cp_fp = ck_fp c, cp_id = ck_id c, cp_size = ck_size c\<rparr>"

text \<open>What writing the recipe leaves alone.\<close>

definition recipe_frame :: "filter_state \<Rightarrow> filter_state \<Rightarrow> bool" where
  "recipe_frame st st' = (fs_ix st' = fs_ix st \<and> fs_buffer st' = fs_buffer st \<and> fs_sample st' = fs_sample st
     \<and> fs_count st' = fs_count st \<and> fs_written st' = fs_written st \<and> fs_monitor st' = fs_monitor st
     \<and> fs_har st' = fs_har st \<and> fs_enable_rewrite st' = fs_enable_rewrite st)"

lemma recipe_frame_refl [simp]: "recipe_frame st st"
  by (simp add: recipe_frame_def)

lemma recipe_frame_trans: "recipe_frame a b \<Longrightarrow> recipe_frame b c \<Longrightarrow> recipe_frame a c"
  by (simp add: recipe_frame_def)

lemma recipe_frame_holds: "recipe_frame st st' \<Longrightarrow> st_holds st' = st_holds st"
  "recipe_frame st st' \<Longrightarrow> store_inv sim sha st' = store_inv sim sha st"
  by (rule st_holds_ext; simp add: recipe_frame_def)+

lemma recipe_chunks_ok:
  assumes "bv_open (jb_be j) (fs_bv st) (fs_statics st) rs segs n cps"
    and "file_shape (fs_file st \<noteq> None) cs \<noteq> None" "\<forall>c \<in> set (data_chunks cs). data_ptr (ptr_of c)"
    and "length cps + length (data_chunks cs) \<le> n" "\<forall>r \<in> set (fst (recipe_files (fs_file st) cs)). file_ok r"
  shows "\<exists>st'. fold_opt (recipe_chunk j) cs st = Some st'
     \<and> bv_open (jb_be j) (fs_bv st') (fs_statics st') (rs @ fst (recipe_files (fs_file st) cs)) segs n (cps @ map ptr_of (data_chunks cs))
     \<and> same_version (fs_bv st) (fs_bv st') \<and> fs_file st' = snd (recipe_files (fs_file st) cs) \<and> recipe_frame st st'"
  using assms
proof (induction cs arbitrary: st rs cps)
  case Nil
  then show ?case by (simp add: data_chunks_def)
next
  case (Cons c cs)
  let ?ok = "\<lambda>st1 rs1 cps1. recipe_chunk j c st = Some st1 \<and> bv_open (jb_be j) (fs_bv st1) (fs_statics st1) rs1 segs n cps1
     \<and> same_version (fs_bv st) (fs_bv st1) \<and> recipe_frame st st1 \<and> file_shape (fs_file st1 \<noteq> None) cs \<noteq> None
     \<and> length cps1 + length (data_chunks cs) \<le> n \<and> rs1 @ fst (recipe_files (fs_file st1) cs) = rs @ fst (recipe_files (fs_file st) (c # cs))
     \<and> snd (recipe_files (fs_file st1) cs) = snd (recipe_files (fs_file st) (c # cs))
     \<and> cps1 @ map ptr_of (data_chunks cs) = cps @ map ptr_of (data_chunks (c # cs))
     \<and> set (fst (recipe_files (fs_file st1) cs)) \<subseteq> set (fst (recipe_files (fs_file st) (c # cs)))"
  have "\<exists>st1 rs1 cps1. ?ok st1 rs1 cps1"
  proof (cases "fs_file st")
    case None
    with Cons.prems(2) obtain name where c: "CHECK_CHUNK c CHUNK_FILE_START" "ck_data c = Some name" "file_shape True cs \<noteq> None"
      by (auto split: if_splits)
    let ?st1 = "st\<lparr>fs_file := Some (new_file_recipe_meta name)\<rparr>"
    have "?ok ?st1 rs cps"
      using None c Cons.prems(1,4) by (simp add: recipe_chunk_def recipe_frame_def data_chunks_def)
    then show ?thesis by (intro exI)
  next
    case (Some r)
    show ?thesis
    proof (cases "CHECK_CHUNK c CHUNK_FILE_END")
      case True
      have "file_ok r" using Some True Cons.prems(5) by (auto simp: case_prod_beta)
      from open_file [OF Cons.prems(1) this] obtain b where
        b: "append_file_recipe_meta (jb_be j) (fs_bv st) r = Some b" "bv_open (jb_be j) b (fs_statics st) (rs @ [r]) segs n cps"
          "same_version (fs_bv st) b" by blast
      let ?st1 = "st\<lparr>fs_bv := b, fs_file := None, jcr_file_num := jcr_file_num st + 1\<rparr>"
      have "?ok ?st1 (rs @ [r]) cps"
        using Some True b Cons.prems(2,4) by (auto simp: recipe_chunk_def recipe_frame_def data_chunks_def case_prod_beta)
      then show ?thesis by (intro exI)
    next
      case False
      with Some Cons.prems(2) have start: "\<not> CHECK_CHUNK c CHUNK_FILE_START" "file_shape True cs \<noteq> None" by (auto split: if_splits)
      then have dc: "data_chunks (c # cs) = c # data_chunks cs" using False by (simp add: data_chunks_def)
      then have p: "data_ptr (ptr_of c)" "length cps < n" using Cons.prems(3,4) by auto
      from open_pointer [OF Cons.prems(1) p] obtain b s where
        b: "append_n_chunk_pointers (jb_be j) (fs_bv st) [ptr_of c] (fs_statics st) = Some (b, s)"
          "bv_open (jb_be j) b s rs segs n (cps @ [ptr_of c])" "same_version (fs_bv st) b" by blast
      have id: "0 \<le> ck_id c" using p(1) by (simp add: data_ptr_def ptr_of_def TEMPORARY_ID_def)
      let ?st1 = "st\<lparr>fs_bv := b, fs_statics := s,
           fs_file := Some (r\<lparr>fr_chunknum := fr_chunknum r + 1, fr_filesize := fr_filesize r + ck_size c\<rparr>),
           jcr_chunk_num := jcr_chunk_num st + 1, jcr_data_size := jcr_data_size st + ck_size c\<rparr>"
      have "?ok ?st1 rs (cps @ [ptr_of c])"
        using Some False start b id Cons.prems(4) dc by (simp add: recipe_chunk_def recipe_frame_def ptr_of_def)
      then show ?thesis by (intro exI)
    qed
  qed
  then obtain st1 rs1 cps1 where 1: "?ok st1 rs1 cps1" by blast
  have d: "\<forall>c \<in> set (data_chunks cs). data_ptr (ptr_of c)" using Cons.prems(3) by (auto simp: data_chunks_def)
  have f: "\<forall>r \<in> set (fst (recipe_files (fs_file st1) cs)). file_ok r" using Cons.prems(5) 1 by blast
  from Cons.IH [of st1 rs1 cps1] 1 d f obtain st' where
    2: "fold_opt (recipe_chunk j) cs st1 = Some st'"
      "bv_open (jb_be j) (fs_bv st') (fs_statics st') (rs1 @ fst (recipe_files (fs_file st1) cs)) segs n (cps1 @ map ptr_of (data_chunks cs))"
      "same_version (fs_bv st1) (fs_bv st')" "fs_file st' = snd (recipe_files (fs_file st1) cs)" "recipe_frame st1 st'" by blast
  have "fold_opt (recipe_chunk j) (c # cs) st = Some st'" using 1 2(1) by simp
  moreover have "same_version (fs_bv st) (fs_bv st')" "recipe_frame st st'"
    using 1 2(3,5) same_version_trans recipe_frame_trans by blast+
  ultimately show ?case using 1 2(2,4) by simp
qed

lemma write_recipe_ok:
  assumes "bv_holds (jb_be j) (fs_bv st) (fs_statics st) rs segs" "segment_wf s" "int32_range (sg_chunk_num s)"
    and "file_shape (fs_file st \<noteq> None) (sg_chunks s) \<noteq> None" "\<forall>c \<in> set (data_chunks (sg_chunks s)). data_ptr (ptr_of c)"
    and "\<forall>r \<in> set (fst (recipe_files (fs_file st) (sg_chunks s))). file_ok r"
  shows "\<exists>sid st'. write_recipe j s st = Some (sid, st')
     \<and> bv_holds (jb_be j) (fs_bv st') (fs_statics st') (rs @ fst (recipe_files (fs_file st) (sg_chunks s)))
         (segs @ [map ptr_of (data_chunks (sg_chunks s))])
     \<and> same_version (fs_bv st) (fs_bv st') \<and> fs_file st' = snd (recipe_files (fs_file st) (sg_chunks s)) \<and> recipe_frame st st'"
proof -
  let ?n = "length (data_chunks (sg_chunks s))"
  have n: "sg_chunk_num s = int ?n" "int32_range (int ?n)" using assms(2,3) by (simp_all add: segment_wf_def)
  from open_segment [OF assms(1) n(2), of "jb_junk j"] obtain sid b where
    1: "append_segment_flag (jb_be j) (jb_junk j) (fs_bv st) CHUNK_SEGMENT_START (sg_chunk_num s) = Some (sid, b)"
      "bv_open (jb_be j) b (fs_statics st) rs segs ?n []" "same_version (fs_bv st) b" unfolding n(1) by blast
  from recipe_chunks_ok [where st = "st\<lparr>fs_bv := b\<rparr>" and cps = "[]" and cs = "sg_chunks s" and n = ?n and j = j and rs = rs and segs = segs]
    1(2) assms(4-6) obtain st1 where
    2: "fold_opt (recipe_chunk j) (sg_chunks s) (st\<lparr>fs_bv := b\<rparr>) = Some st1"
      "bv_open (jb_be j) (fs_bv st1) (fs_statics st1) (rs @ fst (recipe_files (fs_file st) (sg_chunks s))) segs ?n (map ptr_of (data_chunks (sg_chunks s)))"
      "same_version b (fs_bv st1)" "fs_file st1 = snd (recipe_files (fs_file st) (sg_chunks s))" "recipe_frame (st\<lparr>fs_bv := b\<rparr>) st1"
    by auto
  have len: "length (map ptr_of (data_chunks (sg_chunks s))) = ?n" by simp
  from close_segment [OF 2(2) len, of "jb_junk j"] obtain b' where
    3: "append_segment_flag (jb_be j) (jb_junk j) (fs_bv st1) CHUNK_SEGMENT_END 0 = Some (TEMPORARY_ID, b')"
      "bv_holds (jb_be j) b' (fs_statics st1) (rs @ fst (recipe_files (fs_file st) (sg_chunks s))) (segs @ [map ptr_of (data_chunks (sg_chunks s))])"
      "same_version (fs_bv st1) b'" by blast
  have "write_recipe j s st = Some (sid, st1\<lparr>fs_bv := b'\<rparr>)" using 1(1) 2(1) 3(1) by (simp add: write_recipe_def)
  moreover have "same_version (fs_bv st) b'" using 1(3) 2(3) 3(3) same_version_trans by blast
  moreover have "recipe_frame st (st1\<lparr>fs_bv := b'\<rparr>)" using 2(5) by (simp add: recipe_frame_def)
  ultimately show ?thesis using 2(4) 3(2) by simp
qed

section \<open>A segment\<close>

text \<open>The state between two segments: the stored containers, the monitor, the pending chunks of
  the index and the recipe written so far.\<close>

definition filter_inv ::
    "(byte list \<Rightarrow> fingerprint) \<Rightarrow> job \<Rightarrow> chunk list \<Rightarrow> fileRecipeMeta list \<Rightarrow> chunkPointer list list \<Rightarrow> filter_state \<Rightarrow> bool" where
  "filter_inv sha j P rs segs st =
     (store_inv (simulation_level (jb_conf j)) sha st \<and> mon_inv (fs_monitor st)
      \<and> pending_inv (st_holds st) (buf_has (fs_buffer st)) P (fs_ix st)
      \<and> bv_holds (jb_be j) (fs_bv st) (fs_statics st) rs segs)"

text \<open>What the filter phase relies on for a segment: chunks as the hash and trace phases deliver
  them, a file structure that continues the open file, and no rewrite marks where an exact index is
  used without rewriting.\<close>

definition segment_ok :: "(byte list \<Rightarrow> fingerprint) \<Rightarrow> job \<Rightarrow> segment \<Rightarrow> fileRecipeMeta option \<Rightarrow> bool" where
  "segment_ok sha j s r =
     (segment_wf s \<and> int32_range (sg_chunk_num s) \<and> file_shape (r \<noteq> None) (sg_chunks s) \<noteq> None
      \<and> (\<forall>r' \<in> set (fst (recipe_files r (sg_chunks s))). file_ok r')
      \<and> (\<forall>c \<in> set (sg_chunks s). chunk_good (simulation_level (jb_conf j)) sha c)
      \<and> (exact_no_rewrite (jb_conf j) \<longrightarrow> (\<forall>c \<in> set (data_chunks (sg_chunks s)). unmarked c)))"

lemma checked_known:
  assumes "checked P holds c c'" "chunk_good (simulation_level (jb_conf j)) sha c"
    and "exact_no_rewrite (jb_conf j) \<longrightarrow> \<not> is_file_signal c \<longrightarrow> unmarked c"
  shows "known_ok sha j holds c'"
proof -
  have s: "same_chunk c c'" using assms(1) by (simp add: checked_def)
  from same_chunk_signal [OF s] chunk_good_same [OF s] assms show ?thesis
    by (auto simp: known_ok_def checked_def unmarked_def same_chunk_def)
qed

lemma resolved_ptr:
  assumes "store_inv sim sha st" "resolved (st_holds st) c" "chunk_good sim sha c" "\<not> is_file_signal c"
  shows "data_ptr (ptr_of c)"
proof -
  have h: "st_holds st (ck_id c) (ck_fp c)" using assms(2,4) by (simp add: resolved_def)
  then have "ck_id c < 2 ^ 40" using assms(1)
    by (auto simp: st_holds_def store_inv_def con_good_def container_ok_def Let_def get_container_id_def)
  with st_holds_pos [OF assms(1) h] assms(3,4) show ?thesis
    by (simp add: data_ptr_def ptr_ok_def ptr_of_def chunk_good_def int64_range_def int32_range_def CONTAINER_META_SIZE_def CONTAINER_SIZE_def)
qed

lemma list_all2_weaken: "list_all2 R xs ys \<Longrightarrow> (\<And>x y. R x y \<Longrightarrow> S x y) \<Longrightarrow> list_all2 S xs ys"
  by (rule list_all2_mono)

lemma same_chunks_trans: "list_all2 same_chunk xs ys \<Longrightarrow> list_all2 same_chunk ys zs \<Longrightarrow> list_all2 same_chunk xs zs"
  using list_all2_trans [where ?P1.0 = same_chunk and ?P2.0 = same_chunk and ?P3.0 = same_chunk] same_chunk_trans by blast

lemma index_segment_update_ok:
  assumes "sampling_conf (jb_conf j)" "segment_wf s"
  shows "\<exists>ix'. index_segment_update j s sid us rw ix = Some ix' \<and> ix_cache ix' = ix_cache ix
     \<and> buffered_fingerprints ix' = buffered_fingerprints ix \<and> ix_chunk_num ix' = ix_chunk_num ix"
proof -
  have "sg_chunks s = [] \<longrightarrow> sg_chunk_num s = 0" using assms(2) by (simp add: segment_wf_def data_chunks_def)
  from sampling_total [OF assms(1) this, of "jb_be j"] show ?thesis
    by (auto simp: index_segment_update_def Let_def index_update_frame)
qed

lemma pending_inv_frame:
  "buffered_fingerprints ix' = buffered_fingerprints ix \<Longrightarrow> ix_chunk_num ix' = ix_chunk_num ix \<Longrightarrow>
     pending_inv holds inbuf P ix' = pending_inv holds inbuf P ix"
  by (simp add: pending_inv_def)

lemma filter_segment_ok:
  assumes inv: "filter_inv sha j (data_chunks (sg_chunks s) @ P) rs segs st" and seg: "segment_ok sha j s (fs_file st)"
    and conf: "sampling_conf (jb_conf j)" and cnt: "fs_count st + int (length (sg_chunks s)) \<le> 2 ^ 40"
  shows "\<exists>full s' st'. filter_segment j s st = Some (full, s', st')
     \<and> filter_inv sha j P (rs @ fst (recipe_files (fs_file st) (sg_chunks s))) (segs @ [map ptr_of (data_chunks (sg_chunks s'))]) st'
     \<and> list_all2 same_chunk (sg_chunks s) (sg_chunks s') \<and> (\<forall>c \<in> set (sg_chunks s'). resolved (st_holds st') c)
     \<and> fs_file st' = snd (recipe_files (fs_file st) (sg_chunks s)) \<and> (\<forall>i fp. st_holds st i fp \<longrightarrow> st_holds st' i fp)
     \<and> ix_cache (fs_ix st') = ix_cache (fs_ix st) \<and> same_version (fs_bv st) (fs_bv st')
     \<and> fs_count st' \<le> fs_count st + int (length (sg_chunks s))"
proof -
  let ?sim = "simulation_level (jb_conf j)" and ?P = "data_chunks (sg_chunks s) @ P"
  have inv': "store_inv ?sim sha st" "mon_inv (fs_monitor st)" "pending_inv (st_holds st) (buf_has (fs_buffer st)) ?P (fs_ix st)"
    "bv_holds (jb_be j) (fs_bv st) (fs_statics st) rs segs" using inv by (simp_all add: filter_inv_def)
  have pos: "\<And>i fp. st_holds st i fp \<Longrightarrow> i > TEMPORARY_ID" using st_holds_pos [OF inv'(1)] by blast
  have sub: "set (data_chunks (sg_chunks s)) \<subseteq> set ?P" by simp
  from check_buffer_ok [OF inv'(3) sub] pos obtain cs where
    1: "index_check_buffer (fs_ix st) s = Some (s\<lparr>sg_chunks := cs\<rparr>)" "list_all2 (checked ?P (st_holds st)) (sg_chunks s) cs"
    by blast
  have same1: "list_all2 same_chunk (sg_chunks s) cs" using list_all2_weaken [OF 1(2)] by (simp add: checked_def)
  have known: "\<forall>c \<in> set cs. known_ok sha j (st_holds st) c"
  proof
    fix c
    assume "c \<in> set cs"
    from list_all2_bwd [OF 1(2) this] obtain c0 where c0: "c0 \<in> set (sg_chunks s)" "checked ?P (st_holds st) c0 c" by (elim bexE)
    with seg have "chunk_good ?sim sha c0" "exact_no_rewrite (jb_conf j) \<longrightarrow> \<not> is_file_signal c0 \<longrightarrow> unmarked c0"
      by (auto simp: segment_ok_def data_chunks_def)
    from checked_known [OF c0(2) this] show "known_ok sha j (st_holds st) c" .
  qed
  have loop: "loop_inv sha j [] [] st" using inv' by (simp add: loop_inv_def recents_hold_def)
  have cnt1: "fs_count st + int (length cs) \<le> 2 ^ 40" using cnt list_all2_lengthD [OF same1] by simp
  from filter_chunks_ok [OF loop conf cnt1 known checked_ordered [OF inv'(3) 1(2)]] obtain cs' us rw st1 where
    2: "filter_chunks j cs ([], [], st) = Some (cs', us, rw, st1)" "loop_post st cs cs' st1" "loop_inv sha j us rw st1" by blast
  have p: "list_all2 same_chunk cs cs'" "\<forall>c \<in> set cs'. resolved (st_holds st1) c" "\<And>i fp. st_holds st i fp \<Longrightarrow> st_holds st1 i fp"
    "fs_frame st st1" "\<And>fp. buf_has (fs_buffer st1) fp \<Longrightarrow> buf_has (fs_buffer st) fp \<or> fp \<in> ck_fp ` set (data_chunks cs)"
    "fs_count st1 \<le> fs_count st + int (length cs)"
    using 2(2) list_all2_weaken [of _ cs cs' same_chunk] unfolding loop_post_def by blast+
  have same: "list_all2 same_chunk (sg_chunks s) cs'" using same1 p(1) by (rule same_chunks_trans)
  have inv1: "store_inv ?sim sha st1" "mon_inv (fs_monitor st1)" using 2(3) by (simp_all add: loop_inv_def)
  have "pending_inv (st_holds st1) (buf_has (fs_buffer st)) ?P (fs_ix st1)"
    using pending_inv_mono [OF inv'(3), of "st_holds st1"] p(3,4) pending_inv_frame [of "fs_ix st1" "fs_ix st"] by (auto simp: fs_frame_def)
  from update_buffer_inv [OF this same p(2)] obtain ix where
    3: "fold_opt update_buffer_chunk cs' (fs_ix st1) = Some ix" "pending_inv (st_holds st1) (buf_has (fs_buffer st)) P ix"
      "ix_cache ix = ix_cache (fs_ix st1)" by blast
  have dfp: "ck_fp ` set (data_chunks cs) = ck_fp ` set (data_chunks (sg_chunks s))"
  proof -
    have "list_all2 same_chunk (data_chunks (sg_chunks s)) (data_chunks cs)"
      using data_corresponds [OF same1] same_chunk_signal by blast
    then have "map ck_fp (data_chunks cs) = map ck_fp (data_chunks (sg_chunks s))"
      by (induction rule: list_all2_induct) (auto simp: same_chunk_def)
    then show ?thesis by (metis set_map)
  qed
  have pend: "pending_inv (st_holds st1) (buf_has (fs_buffer st1)) P ix"
    using pending_inv_new_buffer [OF inv'(3) 3(2)] p(5) dfp by blast
  let ?s = "s\<lparr>sg_chunks := cs'\<rparr>" and ?st2 = "st1\<lparr>fs_ix := ix\<rparr>"
  have dc: "list_all2 same_chunk (data_chunks (sg_chunks s)) (data_chunks cs')"
    using data_corresponds [OF same] same_chunk_signal by blast
  have wf: "segment_wf ?s" using seg list_all2_lengthD [OF dc] by (simp add: segment_ok_def segment_wf_def)
  have num: "int32_range (sg_chunk_num ?s)" using seg by (simp add: segment_ok_def)
  have ptrs: "\<forall>c \<in> set (data_chunks cs'). data_ptr (ptr_of c)"
  proof
    fix c
    assume c: "c \<in> set (data_chunks cs')"
    then have c': "c \<in> set cs'" "\<not> is_file_signal c" by (auto simp: data_chunks_def)
    from list_all2_bwd [OF same c'(1)] obtain c0 where "c0 \<in> set (sg_chunks s)" "same_chunk c0 c" by (elim bexE)
    then have "chunk_good ?sim sha c" using seg chunk_good_same [of c0 c] by (simp add: segment_ok_def)
    with resolved_ptr [OF inv1(1) _ _ c'(2)] p(2) c'(1) show "data_ptr (ptr_of c)" by blast
  qed
  have fr: "fs_bv st1 = fs_bv st" "fs_statics st1 = fs_statics st" "fs_file st1 = fs_file st" "ix_cache (fs_ix st1) = ix_cache (fs_ix st)"
    using p(4) by (simp_all add: fs_frame_def)
  have rf: "recipe_files (fs_file ?st2) (sg_chunks ?s) = recipe_files (fs_file st) (sg_chunks s)"
      "file_shape (fs_file ?st2 \<noteq> None) (sg_chunks ?s) = file_shape (fs_file st \<noteq> None) (sg_chunks s)"
    using recipe_files_same [OF same] file_shape_same [OF same] fr(3) by simp_all
  have "bv_holds (jb_be j) (fs_bv ?st2) (fs_statics ?st2) rs segs" using inv'(4) fr by simp
  from write_recipe_ok [OF this wf num] ptrs seg rf obtain sid st3 where
    4: "write_recipe j ?s ?st2 = Some (sid, st3)"
      "bv_holds (jb_be j) (fs_bv st3) (fs_statics st3) (rs @ fst (recipe_files (fs_file st) (sg_chunks s))) (segs @ [map ptr_of (data_chunks cs')])"
      "same_version (fs_bv st) (fs_bv st3)" "fs_file st3 = snd (recipe_files (fs_file st) (sg_chunks s))" "recipe_frame ?st2 st3"
    using fr(1) by (auto simp: segment_ok_def)
  from index_segment_update_ok [OF conf wf] obtain ix' where
    5: "index_segment_update j ?s sid us rw (fs_ix st3) = Some ix'" "ix_cache ix' = ix_cache (fs_ix st3)"
      "buffered_fingerprints ix' = buffered_fingerprints (fs_ix st3)" "ix_chunk_num ix' = ix_chunk_num (fs_ix st3)" by blast
  let ?st = "st3\<lparr>fs_ix := ix'\<rparr>"
  have r3: "fs_ix st3 = ix" "fs_buffer st3 = fs_buffer st1" "fs_written st3 = fs_written st1" "fs_count st3 = fs_count st1"
    "fs_monitor st3 = fs_monitor st1" using 4(5) by (simp_all add: recipe_frame_def)
  have h: "st_holds ?st = st_holds st1" "store_inv ?sim sha ?st = store_inv ?sim sha st1"
    using st_holds_ext [of ?st st1] r3 by simp_all
  obtain full where run: "filter_segment j s st = Some (full, ?s, ?st)"
    using 1(1) 2(1) 3(1) 4(1) 5(1) r3(1) by (auto simp: filter_segment_def index_update_buffer_def Let_def)
  have "filter_inv sha j P (rs @ fst (recipe_files (fs_file st) (sg_chunks s))) (segs @ [map ptr_of (data_chunks (sg_chunks ?s))]) ?st"
    unfolding filter_inv_def h using inv1 r3 4(2) pend pending_inv_frame [of ix' ix] 5(3,4) by simp
  moreover have "ix_cache (fs_ix ?st) = ix_cache (fs_ix st)" using 5(2) r3(1) 3(3) fr(4) by simp
  moreover have "fs_count ?st \<le> fs_count st + int (length (sg_chunks s))" using p(6) r3(4) list_all2_lengthD [OF same1] by simp
  ultimately show ?thesis using run same p(2,3) 4(3,4) unfolding h(1) [symmetric]
    by (intro exI [of _ full] exI [of _ ?s] exI [of _ ?st]) simp
qed

end
