(* ===== verification/Backup.thy ===== *)
theory Backup
  imports Filter_Segment
begin

unbundle bit_operations_syntax

text \<open>
  A backup job as a system of three threads (\<^verbatim>\<open>do_backup.c\<close>, \<^verbatim>\<open>dedup_phase.c\<close>,
  \<^verbatim>\<open>rewrite_phase.c\<close>, \<^verbatim>\<open>filter_phase.c\<close>). A step is what one thread does with a segment
  while it holds \<open>index_lock\<close>, or the marks the rewrite phase puts on the chunks that are between
  the other two. The steps interleave in any order that keeps the queues first-in first-out.

  \<open>ptrs\<close> is the set of the chunk pointers of earlier backups; the prefetching units may return
  any container that was written and any recipe entry of this or of an earlier backup.
\<close>

section \<open>The system\<close>

text \<open>The number of pending chunks at which the deduplication phase waits
  (\<open>start_dedup_phase\<close>).\<close>

definition wait_threshold :: "destor \<Rightarrow> int" where
  "wait_threshold d =
     (case index_segment_algorithm0 d of
        INDEX_SEGMENT_CONTENT_DEFINED \<Rightarrow> rewrite_algorithm1 d + index_segment_max d - 1
      | INDEX_SEGMENT_FIXED \<Rightarrow> rewrite_algorithm1 d + index_segment_algorithm1 d - 1
      | INDEX_SEGMENT_FILE_DEFINED \<Rightarrow> -1)"

record backup_sys =
  bs_todo :: "segment list"
  bs_flight :: "segment list"
  bs_out :: "segment list"
  bs_st :: filter_state

definition chunks_of :: "segment list \<Rightarrow> chunk list" where
  "chunks_of ss = concat (map sg_chunks ss)"

definition ptrs_of :: "segment list \<Rightarrow> chunkPointer list list" where
  "ptrs_of ss = map (\<lambda>s. map ptr_of (data_chunks (sg_chunks s))) ss"

definition units_from :: "filter_state \<Rightarrow> chunkPointer set \<Rightarrow> units \<Rightarrow> bool" where
  "units_from st ptrs u =
     ((\<forall>i cm. fetch_container u i = Some cm \<longrightarrow> (\<exists>c \<in> set (fs_written st). meta_equiv cm (con_meta c)))
      \<and> (\<forall>i srs sr fp cp. fetch_segments u i = Some srs \<longrightarrow> sr \<in> set srs \<longrightarrow> map_of (sr_kvpairs sr) fp = Some cp \<longrightarrow>
           cp \<in> ptrs \<and> cp_fp cp = fp))"

definition may_mark :: "destor \<Rightarrow> chunk \<Rightarrow> chunk \<Rightarrow> bool" where
  "may_mark d c c' = (if rewrite_algorithm0 d = REWRITE_NO \<and> \<not> rewrite_enable_har d then c' = c else marks c c')"

definition marked_segment :: "destor \<Rightarrow> segment \<Rightarrow> segment \<Rightarrow> bool" where
  "marked_segment d s s' = (list_all2 (may_mark d) (sg_chunks s) (sg_chunks s') \<and> sg_chunk_num s' = sg_chunk_num s)"

inductive backup_step :: "job \<Rightarrow> chunkPointer set \<Rightarrow> backup_sys \<Rightarrow> backup_sys \<Rightarrow> bool" for j ptrs where
  dedup_segment:
    "bs_todo b = s # todo \<Longrightarrow> sg_chunk_num s > 0 \<Longrightarrow> units_from (bs_st b) (ptrs \<union> set (concat (ptrs_of (bs_out b)))) u \<Longrightarrow>
     index_lookup (jb_be j) (jb_ord j) u (jb_conf j) (jb_threshold j) (fs_buffer (bs_st b)) s (fs_ix (bs_st b)) = Some (True, s', ix) \<Longrightarrow>
     backup_step j ptrs b (b\<lparr>bs_todo := todo, bs_flight := bs_flight b @ [s'], bs_st := (bs_st b)\<lparr>fs_ix := ix\<rparr>\<rparr>)"
| dedup_empty:
    "bs_todo b = s # todo \<Longrightarrow> sg_chunk_num s \<le> 0 \<Longrightarrow>
     backup_step j ptrs b (b\<lparr>bs_todo := todo, bs_flight := bs_flight b @ [s]\<rparr>)"
| rewrite_marks:
    "list_all2 (marked_segment (jb_conf j)) (bs_flight b) ss \<Longrightarrow> backup_step j ptrs b (b\<lparr>bs_flight := ss\<rparr>)"
| filter_step:
    "bs_flight b = s # later \<Longrightarrow> filter_segment j s (bs_st b) = Some (full, s', st) \<Longrightarrow>
     backup_step j ptrs b (b\<lparr>bs_flight := later, bs_out := bs_out b @ [s'], bs_st := st\<rparr>)"

inductive backup_reach :: "job \<Rightarrow> chunkPointer set \<Rightarrow> backup_sys \<Rightarrow> backup_sys \<Rightarrow> bool" for j ptrs b where
  start: "backup_reach j ptrs b b"
| step: "backup_reach j ptrs b b1 \<Longrightarrow> backup_step j ptrs b1 b2 \<Longrightarrow> backup_reach j ptrs b b2"

text \<open>The stream of a job, as the phases before deliver it.\<close>

definition input_ok :: "(byte list \<Rightarrow> fingerprint) \<Rightarrow> job \<Rightarrow> segment list \<Rightarrow> bool" where
  "input_ok sha j ss =
     ((\<forall>s \<in> set ss. segment_wf s \<and> int32_range (sg_chunk_num s))
      \<and> (\<forall>c \<in> set (chunks_of ss). chunk_good (simulation_level (jb_conf j)) sha c \<and> fresh_chunk c \<and> unmarked c)
      \<and> file_shape False (chunks_of ss) = Some False
      \<and> (\<forall>r \<in> set (fst (recipe_files None (chunks_of ss))). file_ok r))"

text \<open>A job that starts on a store with the containers and recipes of earlier jobs.\<close>

definition start_ok :: "(byte list \<Rightarrow> fingerprint) \<Rightarrow> job \<Rightarrow> chunkPointer set \<Rightarrow> backup_sys \<Rightarrow> bool" where
  "start_ok sha j ptrs b =
     (bs_flight b = [] \<and> bs_out b = [] \<and> fs_file (bs_st b) = None
      \<and> filter_inv sha j [] [] [] (bs_st b)
      \<and> cache_sound (st_holds (bs_st b)) (ix_cache (fs_ix (bs_st b)))
      \<and> (\<forall>cp \<in> ptrs. st_holds (bs_st b) (cp_id cp) (cp_fp cp))
      \<and> input_ok sha j (bs_todo b)
      \<and> fs_count (bs_st b) + int (length (chunks_of (bs_todo b))) \<le> 2 ^ 40)"

definition job_conf :: "job \<Rightarrow> bool" where
  "job_conf j = (sampling_conf (jb_conf j) \<and> (exact_no_rewrite (jb_conf j) \<longrightarrow> \<not> rewrite_enable_har (jb_conf j)))"

definition backup_inv :: "(byte list \<Rightarrow> fingerprint) \<Rightarrow> job \<Rightarrow> chunkPointer set \<Rightarrow> segment list \<Rightarrow> backup_sys \<Rightarrow> bool" where
  "backup_inv sha j ptrs input b =
     (list_all2 same_chunk (chunks_of input) (chunks_of (bs_out b @ bs_flight b @ bs_todo b))
      \<and> filter_inv sha j (data_chunks (chunks_of (bs_flight b))) (fst (recipe_files None (chunks_of (bs_out b)))) (ptrs_of (bs_out b)) (bs_st b)
      \<and> fs_file (bs_st b) = snd (recipe_files None (chunks_of (bs_out b)))
      \<and> cache_sound (st_holds (bs_st b)) (ix_cache (fs_ix (bs_st b)))
      \<and> (\<forall>cp \<in> ptrs. st_holds (bs_st b) (cp_id cp) (cp_fp cp))
      \<and> (\<forall>c \<in> set (chunks_of (bs_out b)). resolved (st_holds (bs_st b)) c)
      \<and> (\<forall>s \<in> set (bs_flight b @ bs_todo b). segment_wf s \<and> int32_range (sg_chunk_num s))
      \<and> (\<forall>c \<in> set (chunks_of (bs_todo b)). fresh_chunk c \<and> unmarked c)
      \<and> (exact_no_rewrite (jb_conf j) \<longrightarrow> (\<forall>c \<in> set (chunks_of (bs_flight b)). unmarked c))
      \<and> fs_count (bs_st b) + int (length (chunks_of (bs_flight b @ bs_todo b))) \<le> 2 ^ 40)"

section \<open>Lemmas on streams\<close>

lemma chunks_of_simps [simp]:
  "chunks_of [] = []" "chunks_of (s # ss) = sg_chunks s @ chunks_of ss" "chunks_of (xs @ ys) = chunks_of xs @ chunks_of ys"
  by (simp_all add: chunks_of_def)

lemma ptrs_of_snoc [simp]: "ptrs_of [] = []" "ptrs_of (xs @ [s]) = ptrs_of xs @ [map ptr_of (data_chunks (sg_chunks s))]"
  by (simp_all add: ptrs_of_def)

lemma concat_ptrs_of: "concat (ptrs_of ss) = map ptr_of (data_chunks (chunks_of ss))"
  by (induction ss) (auto simp: ptrs_of_def data_chunks_def)

lemma recipe_files_append:
  "recipe_files r (xs @ ys) = (fst (recipe_files r xs) @ fst (recipe_files (snd (recipe_files r xs)) ys), snd (recipe_files (snd (recipe_files r xs)) ys))"
proof (induction xs arbitrary: r)
  case (Cons c xs)
  then show ?case by (cases r) (auto simp: case_prod_beta)
qed simp

lemma file_shape_append:
  "file_shape inside (xs @ ys) = (case file_shape inside xs of None \<Rightarrow> None | Some b \<Rightarrow> file_shape b ys)"
proof (induction xs arbitrary: inside)
  case (Cons c xs)
  then show ?case by (cases inside) auto
qed simp

lemma file_shape_open: "file_shape (r \<noteq> None) xs = Some b \<Longrightarrow> b = (snd (recipe_files r xs) \<noteq> None)"
proof (induction xs arbitrary: r)
  case (Cons c xs)
  then show ?case
    by (cases r) (auto simp: case_prod_beta split: if_splits)
qed auto

lemma data_chunks_set: "c \<in> set (data_chunks cs) \<Longrightarrow> c \<in> set cs"
  by (simp add: data_chunks_def)

section \<open>Marks and lookups\<close>

lemma occ_marks: "list_all2 marks P P' \<Longrightarrow> list_all2 marks (occ fp P) (occ fp P')"
  by (induction rule: list_all2_induct) (auto simp: occ_def dest: marks_sel)

lemma pending_inv_marks:
  assumes "pending_inv holds inb P ix" "list_all2 marks P P'"
  shows "pending_inv holds inb P' ix"
proof -
  have "fp_inv holds i fp (occ fp P') q" if f: "fp_inv holds i fp (occ fp P) q" for i fp q
  proof (cases q)
    case None
    with f occ_marks [OF assms(2), of fp] show ?thesis by (auto simp: fp_inv_def)
  next
    case (Some es)
    with f obtain c cs where o: "occ fp P = c # cs" by (cases "occ fp P") (auto simp: fp_inv_def)
    with occ_marks [OF assms(2), of fp] obtain c' cs' where
      o': "occ fp P' = c' # cs'" "marks c c'" "list_all2 marks cs cs'" by (auto simp: list_all2_Cons1)
    have "\<forall>x \<in> set cs'. id_ok holds (ck_id x) fp \<and> dup x"
    proof
      fix x
      assume "x \<in> set cs'"
      from list_all2_bwd [OF o'(3) this] obtain y where "y \<in> set cs" "marks y x" by (elim bexE)
      with f Some o show "id_ok holds (ck_id x) fp \<and> dup x"
        using marks_sel [of y x] marks_duplicate [of y x] by (auto simp: fp_inv_def)
    qed
    with f Some o o' marks_sel [OF o'(2)] marks_duplicate [OF o'(2)] list_all2_lengthD [OF o'(3)]
    show ?thesis by (auto simp: fp_inv_def)
  qed
  with assms list_all2_lengthD [OF assms(2)] show ?thesis by (simp add: pending_inv_def)
qed

lemma marks_same: "marks c c' \<Longrightarrow> same_chunk c c'"
  using marks_sel [of c c'] marks_flag [of c c' CHUNK_FILE_START] marks_flag [of c c' CHUNK_FILE_END]
    marks_flag [of c c' CHUNK_SEGMENT_START] marks_flag [of c c' CHUNK_SEGMENT_END] by (simp add: same_chunk_def)

lemma may_mark_marks: "may_mark d c c' \<Longrightarrow> marks c c'"
  by (auto simp: may_mark_def split: if_splits)

lemma marked_chunks: "list_all2 (marked_segment d) ss ss' \<Longrightarrow> list_all2 (may_mark d) (chunks_of ss) (chunks_of ss')"
  by (induction rule: list_all2_induct) (auto simp: marked_segment_def intro: list_all2_appendI)

lemma marked_wf: "marked_segment d s s' \<Longrightarrow> segment_wf s \<Longrightarrow> segment_wf s'"
proof -
  assume m: "marked_segment d s s'" and wf: "segment_wf s"
  have "list_all2 same_chunk (sg_chunks s) (sg_chunks s')"
    using m list_all2_weaken [of "may_mark d"] may_mark_marks marks_same unfolding marked_segment_def by blast
  then have "list_all2 same_chunk (data_chunks (sg_chunks s)) (data_chunks (sg_chunks s'))"
    using data_corresponds same_chunk_signal by blast
  then show "segment_wf s'" using m wf list_all2_lengthD by (fastforce simp: segment_wf_def marked_segment_def)
qed

lemma unmarked_simps [simp]:
  "unmarked (SET_CHUNK c CHUNK_DUPLICATE) = unmarked c" "unmarked (SET_CHUNK c CHUNK_REWRITE_DENIED) = unmarked c"
  "unmarked (c\<lparr>ck_id := i\<rparr>) = unmarked c"
  by (simp_all add: unmarked_def flag_simps)

lemma checks_unmarked:
  "unmarked (check_storage_buffer buf c) = unmarked c"
  "check_buffered ix c = Some c' \<Longrightarrow> unmarked c' = unmarked c"
  "check_cache c ix = Some (c', ix') \<Longrightarrow> unmarked c' = unmarked c"
  "check_kvstore u d c ix = Some (c', ix') \<Longrightarrow> unmarked c' = unmarked c"
  subgoal by (simp add: check_storage_buffer_def split: option.split)
  subgoal by (auto simp: check_buffered_def split: if_splits option.splits list.splits)
  subgoal by (auto simp: check_cache_def bind_eq_Some_conv split: if_splits)
  subgoal by (auto simp: check_kvstore_def bind_eq_Some_conv Let_def split: if_splits option.splits)
  done

lemma lookup_chunk_unmarked:
  "lookup_chunk u d buf use_kv c ix = Some (c', ix') \<Longrightarrow> unmarked c' = unmarked c"
  by (auto simp: lookup_chunk_def bind_eq_Some_conv Let_def checks_unmarked(1) dest!: checks_unmarked(2-4) split: if_splits)

lemma lookup_chunks_unmarked:
  "lookup_chunks u d buf use_kv cs ix = Some (cs', ix') \<Longrightarrow> \<forall>c \<in> set cs. unmarked c \<Longrightarrow> \<forall>c \<in> set cs'. unmarked c"
  by (induction cs arbitrary: cs' ix) (auto simp: bind_eq_Some_conv dest: lookup_chunk_unmarked)

lemma index_lookup_unmarked:
  assumes "index_lookup be ord u d thr buf s ix = Some (r, s', ix')" "\<forall>c \<in> set (sg_chunks s). unmarked c"
  shows "\<forall>c \<in> set (sg_chunks s'). unmarked c"
proof -
  from assms(1) have "s' = s \<or> (\<exists>kv ix1 ix2. lookup_chunks u d buf kv (sg_chunks s) ix1 = Some (sg_chunks s', ix2))"
    by (auto simp: index_lookup_def index_lookup_base_def index_lookup_similarity_detection_def bind_eq_Some_conv Let_def split: if_splits)
  then show ?thesis using assms(2) lookup_chunks_unmarked by blast
qed

lemma cache_sound_mono: "cache_sound holds fc \<Longrightarrow> (\<And>i fp. holds i fp \<Longrightarrow> holds' i fp) \<Longrightarrow> cache_sound holds' fc"
  by (cases fc) (auto simp: cache_sound_def meta_sound_def recipe_sound_def)

lemma units_from_sound:
  assumes "units_from st ptrs u" "\<forall>cp \<in> ptrs. st_holds st (cp_id cp) (cp_fp cp)"
  shows "units_sound (st_holds st) u"
proof -
  have "meta_sound (st_holds st) cm" if "c \<in> set (fs_written st)" "meta_equiv cm (con_meta c)" for c cm
    using that by (auto simp: meta_sound_def st_holds_def all_containers_def meta_equiv_def get_container_id_def
        lookup_fingerprint_in_container_def lookup_fingerprint_in_container_meta_def)
  with assms show ?thesis unfolding units_sound_def units_from_def recipe_sound_def by metis
qed

section \<open>The invariant\<close>

lemma backup_inv_start: "start_ok sha j ptrs b \<Longrightarrow> backup_inv sha j ptrs (bs_todo b) b"
  by (auto simp: start_ok_def backup_inv_def input_ok_def data_chunks_def list_all2_same)

lemma resolved_ptrs: "\<forall>c \<in> set cs. resolved holds c \<Longrightarrow> \<forall>cp \<in> ptr_of ` set (data_chunks cs). holds (cp_id cp) (cp_fp cp)"
  by (auto simp: resolved_def data_chunks_def ptr_of_def)

lemma fs_ix_holds [simp]: "st_holds (st\<lparr>fs_ix := ix\<rparr>) = st_holds st" "store_inv sim sha (st\<lparr>fs_ix := ix\<rparr>) = store_inv sim sha st"
  by (rule st_holds_ext; simp)+

lemma same_append_mono:
  assumes "list_all2 same_chunk xs (us @ vs @ ws)" "list_all2 same_chunk (vs @ ws) zs"
  shows "list_all2 same_chunk xs (us @ zs)"
proof (rule same_chunks_trans [OF assms(1)])
  show "list_all2 same_chunk (us @ vs @ ws) (us @ zs)"
    using assms(2) by (intro list_all2_appendI) (simp_all add: list_all2_same)
qed

lemma backup_inv_dedup:
  assumes inv: "backup_inv sha j ptrs input b" and todo: "bs_todo b = s # todo"
    and u: "units_from (bs_st b) (ptrs \<union> set (concat (ptrs_of (bs_out b)))) u"
    and run: "index_lookup (jb_be j) (jb_ord j) u (jb_conf j) (jb_threshold j) (fs_buffer (bs_st b)) s (fs_ix (bs_st b)) = Some (True, s', ix)"
  shows "backup_inv sha j ptrs input (b\<lparr>bs_todo := todo, bs_flight := bs_flight b @ [s'], bs_st := (bs_st b)\<lparr>fs_ix := ix\<rparr>\<rparr>)"
proof -
  let ?st = "bs_st b" and ?h = "st_holds (bs_st b)" and ?F = "data_chunks (chunks_of (bs_flight b))"
  have f: "store_inv (simulation_level (jb_conf j)) sha ?st" "pending_inv ?h (buf_has (fs_buffer ?st)) ?F (fs_ix ?st)"
    using inv by (simp_all add: backup_inv_def filter_inv_def)
  have sound: "cache_sound ?h (ix_cache (fs_ix ?st))" using inv by (simp add: backup_inv_def)
  have all_ptrs: "\<forall>cp \<in> ptrs \<union> set (concat (ptrs_of (bs_out b))). ?h (cp_id cp) (cp_fp cp)"
    using inv resolved_ptrs [of "chunks_of (bs_out b)" ?h] unfolding concat_ptrs_of backup_inv_def by auto
  have fresh: "\<forall>c \<in> set (sg_chunks s). fresh_chunk c" "\<forall>c \<in> set (sg_chunks s). unmarked c"
    using inv todo by (simp_all add: backup_inv_def)
  have buf: "?h (get_container_id c) fp \<and> get_container_id c \<noteq> TEMPORARY_ID"
    if "fs_buffer ?st = Some c" "lookup_fingerprint_in_container c fp" for c fp
  proof -
    have "?h (get_container_id c) fp" using that by (auto simp: st_holds_def all_containers_def)
    with st_holds_pos [OF f(1) this] show ?thesis by simp
  qed
  note look = index_lookup_inv [OF f(2) sound units_from_sound [OF u all_ptrs] fresh(1) buf run]
  then have l: "pending_inv ?h (buf_has (fs_buffer ?st)) (?F @ data_chunks (sg_chunks s')) ix" "cache_sound ?h (ix_cache ix)"
    "list_all2 same_chunk (sg_chunks s) (sg_chunks s')" "sg_chunk_num s' = sg_chunk_num s" by blast+
  have dl: "length (data_chunks (sg_chunks s')) = length (data_chunks (sg_chunks s))"
    using data_corresponds [OF l(3)] same_chunk_signal list_all2_lengthD by (metis (no_types, lifting))
  have ws: "segment_wf s" "int32_range (sg_chunk_num s)" using inv todo by (simp_all add: backup_inv_def)
  then have wf: "segment_wf s'" "int32_range (sg_chunk_num s')" using l(4) dl by (simp_all only: segment_wf_def)
  have un: "\<forall>c \<in> set (sg_chunks s'). unmarked c" using index_lookup_unmarked [OF run fresh(2)] .
  have same: "list_all2 same_chunk (chunks_of input)
      (chunks_of (bs_out b) @ (chunks_of (bs_flight b) @ sg_chunks s') @ chunks_of todo)"
  proof (rule same_append_mono)
    show "list_all2 same_chunk (chunks_of input) (chunks_of (bs_out b) @ chunks_of (bs_flight b) @ sg_chunks s @ chunks_of todo)"
      using inv todo by (simp add: backup_inv_def)
    show "list_all2 same_chunk (chunks_of (bs_flight b) @ sg_chunks s @ chunks_of todo) ((chunks_of (bs_flight b) @ sg_chunks s') @ chunks_of todo)"
      using l(3) unfolding append_assoc by (intro list_all2_appendI) (simp_all add: list_all2_same)
  qed
  have len: "length (sg_chunks s') = length (sg_chunks s)" using list_all2_lengthD [OF l(3)] by simp
  have fi: "filter_inv sha j (data_chunks (chunks_of (bs_flight b @ [s']))) rs segs (?st\<lparr>fs_ix := ix\<rparr>)"
    if "filter_inv sha j ?F rs segs ?st" for rs segs
    using that l(1) by (simp add: filter_inv_def)
  from inv todo same fi l(2) wf un len show ?thesis unfolding backup_inv_def by (simp add: ball_Un)
qed

lemma backup_inv_empty:
  assumes inv: "backup_inv sha j ptrs input b" and todo: "bs_todo b = s # todo" and empty: "sg_chunk_num s \<le> 0"
  shows "backup_inv sha j ptrs input (b\<lparr>bs_todo := todo, bs_flight := bs_flight b @ [s]\<rparr>)"
proof -
  have "segment_wf s" using inv todo by (simp add: backup_inv_def)
  with empty have "data_chunks (sg_chunks s) = []" by (simp add: segment_wf_def)
  with inv todo show ?thesis unfolding backup_inv_def by (simp add: ball_Un)
qed

lemma backup_inv_marks:
  assumes inv: "backup_inv sha j ptrs input b" and conf: "job_conf j" and m: "list_all2 (marked_segment (jb_conf j)) (bs_flight b) ss"
  shows "backup_inv sha j ptrs input (b\<lparr>bs_flight := ss\<rparr>)"
proof -
  have mm: "list_all2 (may_mark (jb_conf j)) (chunks_of (bs_flight b)) (chunks_of ss)" using marked_chunks [OF m] .
  have marks: "list_all2 marks (chunks_of (bs_flight b)) (chunks_of ss)"
    using list_all2_weaken [OF mm] may_mark_marks by blast
  then have same: "list_all2 same_chunk (chunks_of (bs_flight b)) (chunks_of ss)"
    using list_all2_weaken [of marks] marks_same by blast
  have "list_all2 marks (data_chunks (chunks_of (bs_flight b))) (data_chunks (chunks_of ss))"
    using data_corresponds [OF marks] marks_same same_chunk_signal by blast
  then have fi: "filter_inv sha j (data_chunks (chunks_of ss)) rs segs (bs_st b)"
    if "filter_inv sha j (data_chunks (chunks_of (bs_flight b))) rs segs (bs_st b)" for rs segs
    using that pending_inv_marks by (auto simp: filter_inv_def)
  have wf: "\<forall>s \<in> set ss. segment_wf s \<and> int32_range (sg_chunk_num s)"
  proof
    fix s
    assume "s \<in> set ss"
    from list_all2_bwd [OF m this] obtain s0 where "s0 \<in> set (bs_flight b)" "marked_segment (jb_conf j) s0 s" by (elim bexE)
    with inv marked_wf [of "jb_conf j" s0 s] show "segment_wf s \<and> int32_range (sg_chunk_num s)"
      by (simp add: backup_inv_def marked_segment_def)
  qed
  have un: "chunks_of ss = chunks_of (bs_flight b)" if "exact_no_rewrite (jb_conf j)"
  proof -
    have "may_mark (jb_conf j) = (\<lambda>c c'. c' = c)"
      using that conf by (auto simp: may_mark_def job_conf_def exact_no_rewrite_def fun_eq_iff)
    with mm show ?thesis by (simp add: list_all2_conv_all_nth nth_equalityI)
  qed
  have app: "list_all2 same_chunk (chunks_of input) (chunks_of (bs_out b) @ chunks_of ss @ chunks_of (bs_todo b))"
  proof (rule same_append_mono)
    show "list_all2 same_chunk (chunks_of input) (chunks_of (bs_out b) @ chunks_of (bs_flight b) @ chunks_of (bs_todo b))"
      using inv by (simp add: backup_inv_def)
    show "list_all2 same_chunk (chunks_of (bs_flight b) @ chunks_of (bs_todo b)) (chunks_of ss @ chunks_of (bs_todo b))"
      using same by (intro list_all2_appendI) (simp_all add: list_all2_same)
  qed
  from inv fi wf un app list_all2_lengthD [OF same] show ?thesis unfolding backup_inv_def by (simp add: ball_Un)
qed

text \<open>The segment at the head of the queue is one the filter phase can handle.\<close>

lemma flight_segment_ok:
  assumes inv: "backup_inv sha j ptrs input b" and input: "input_ok sha j input" and fl: "bs_flight b = s # later"
  shows "segment_ok sha j s (fs_file (bs_st b))"
proof -
  let ?out = "chunks_of (bs_out b)"
  have same: "list_all2 same_chunk (chunks_of input) (?out @ sg_chunks s @ chunks_of later @ chunks_of (bs_todo b))"
    using inv fl by (simp add: backup_inv_def)
  have fi: "fs_file (bs_st b) = snd (recipe_files None ?out)" using inv by (simp add: backup_inv_def)
  have shape: "file_shape False (?out @ sg_chunks s @ chunks_of later @ chunks_of (bs_todo b)) \<noteq> None"
    using file_shape_same [OF same] input by (simp add: input_ok_def)
  then obtain i where i: "file_shape False ?out = Some i" "file_shape i (sg_chunks s) \<noteq> None"
    by (auto simp: file_shape_append split: option.splits)
  from file_shape_open [of None ?out i] i fi have sh: "file_shape (fs_file (bs_st b) \<noteq> None) (sg_chunks s) \<noteq> None" by simp
  have rf: "set (fst (recipe_files (fs_file (bs_st b)) (sg_chunks s))) \<subseteq> set (fst (recipe_files None (chunks_of input)))"
    unfolding fi recipe_files_same [OF same, of None, symmetric] recipe_files_append by auto
  have good: "chunk_good (simulation_level (jb_conf j)) sha c" if "c \<in> set (sg_chunks s)" for c
  proof -
    from that have "c \<in> set (?out @ sg_chunks s @ chunks_of later @ chunks_of (bs_todo b))" by simp
    from list_all2_bwd [OF same this] obtain c0 where "c0 \<in> set (chunks_of input)" "same_chunk c0 c" by (elim bexE)
    with input chunk_good_same [of c0 c] show ?thesis by (simp add: input_ok_def)
  qed
  from inv fl input sh rf good show ?thesis
    unfolding segment_ok_def backup_inv_def input_ok_def by (auto dest: data_chunks_set)
qed

text \<open>The filter phase never gets stuck, and its step keeps the invariant.\<close>

lemma backup_inv_filter:
  assumes inv: "backup_inv sha j ptrs input b" and input: "input_ok sha j input" and conf: "job_conf j"
    and fl: "bs_flight b = s # later"
  shows "\<exists>full s' st. filter_segment j s (bs_st b) = Some (full, s', st)
     \<and> backup_inv sha j ptrs input (b\<lparr>bs_flight := later, bs_out := bs_out b @ [s'], bs_st := st\<rparr>)"
proof -
  let ?st = "bs_st b" and ?out = "chunks_of (bs_out b)"
  let ?rs = "fst (recipe_files None ?out)"
  have f: "filter_inv sha j (data_chunks (sg_chunks s) @ data_chunks (chunks_of later)) ?rs (ptrs_of (bs_out b)) ?st"
    using inv fl by (simp add: backup_inv_def)
  have c: "sampling_conf (jb_conf j)" using conf by (simp add: job_conf_def)
  have cnt: "fs_count ?st + int (length (sg_chunks s)) \<le> 2 ^ 40" using inv fl by (simp add: backup_inv_def)
  from filter_segment_ok [OF f flight_segment_ok [OF inv input fl] c cnt] obtain full s' st where
    1: "filter_segment j s ?st = Some (full, s', st)"
      "filter_inv sha j (data_chunks (chunks_of later)) (?rs @ fst (recipe_files (fs_file ?st) (sg_chunks s)))
         (ptrs_of (bs_out b) @ [map ptr_of (data_chunks (sg_chunks s'))]) st"
      "list_all2 same_chunk (sg_chunks s) (sg_chunks s')" "\<forall>c \<in> set (sg_chunks s'). resolved (st_holds st) c"
      "fs_file st = snd (recipe_files (fs_file ?st) (sg_chunks s))" "\<And>i fp. st_holds ?st i fp \<Longrightarrow> st_holds st i fp"
      "ix_cache (fs_ix st) = ix_cache (fs_ix ?st)" "fs_count st \<le> fs_count ?st + int (length (sg_chunks s))" by blast
  have fin: "fs_file ?st = snd (recipe_files None ?out)" using inv by (simp add: backup_inv_def)
  have rf: "recipe_files None (?out @ sg_chunks s') = (?rs @ fst (recipe_files (fs_file ?st) (sg_chunks s)), snd (recipe_files (fs_file ?st) (sg_chunks s)))"
    unfolding recipe_files_append recipe_files_same [OF 1(3)] fin ..
  have app: "list_all2 same_chunk (chunks_of input) (?out @ sg_chunks s' @ chunks_of later @ chunks_of (bs_todo b))"
  proof (rule same_append_mono)
    show "list_all2 same_chunk (chunks_of input) (?out @ sg_chunks s @ chunks_of later @ chunks_of (bs_todo b))"
      using inv fl by (simp add: backup_inv_def)
    show "list_all2 same_chunk (sg_chunks s @ chunks_of later @ chunks_of (bs_todo b)) (sg_chunks s' @ chunks_of later @ chunks_of (bs_todo b))"
      using 1(3) by (intro list_all2_appendI) (simp_all add: list_all2_same)
  qed
  have res: "\<forall>c \<in> set ?out. resolved (st_holds st) c"
    using inv 1(6) resolved_mono unfolding backup_inv_def by blast
  have old: "\<forall>cp \<in> ptrs. st_holds st (cp_id cp) (cp_fp cp)" using inv 1(6) unfolding backup_inv_def by blast
  have sound: "cache_sound (st_holds st) (ix_cache (fs_ix st))"
    using inv 1(6,7) cache_sound_mono unfolding backup_inv_def by metis
  have "backup_inv sha j ptrs input (b\<lparr>bs_flight := later, bs_out := bs_out b @ [s'], bs_st := st\<rparr>)"
    using inv fl 1(2,4,5,8) rf app res old sound unfolding backup_inv_def by (simp add: ball_Un)
  with 1(1) show ?thesis by blast
qed

lemma backup_inv_step:
  assumes "backup_step j ptrs b b'" "backup_inv sha j ptrs input b" "input_ok sha j input" "job_conf j"
  shows "backup_inv sha j ptrs input b'"
  using assms
proof cases
  case (dedup_segment s todo u s' ix)
  with backup_inv_dedup assms(2) show ?thesis by blast
next
  case (dedup_empty s todo)
  with backup_inv_empty assms(2) show ?thesis by blast
next
  case (rewrite_marks ss)
  with backup_inv_marks assms(2,4) show ?thesis by blast
next
  case (filter_step s later full s' st)
  with backup_inv_filter [OF assms(2-4)] show ?thesis by fastforce
qed

lemma backup_inv_reach:
  assumes "backup_reach j ptrs b b'" "start_ok sha j ptrs b" "job_conf j"
  shows "backup_inv sha j ptrs (bs_todo b) b'"
  using assms(1)
proof induction
  case start
  show ?case using backup_inv_start [OF assms(2)] .
next
  case (step b1 b2)
  have "input_ok sha j (bs_todo b)" using assms(2) by (simp add: start_ok_def)
  with step backup_inv_step assms(3) show ?case by blast
qed

section \<open>A small job\<close>

text \<open>A job for the witnesses: an empty store and a file with the same chunk twice. The
  fingerprint function pads the data.\<close>

definition ex_sha :: "byte list \<Rightarrow> fingerprint" where
  "ex_sha bs = take 20 (bs @ replicate 20 0)"

definition ex_conf :: destor where
  "ex_conf = destor_start_config\<lparr>index_category0 := INDEX_CATEGORY_EXACT\<rparr>"

definition ex_job :: job where
  "ex_job = \<lparr>jb_be = False, jb_ord = id, jb_junk = (\<lambda>_. 0), jb_threshold = wait_threshold ex_conf, jb_conf = ex_conf\<rparr>"

definition ex_chunk :: "32 word \<Rightarrow> byte list \<Rightarrow> chunk" where
  "ex_chunk f bs = \<lparr>ck_size = int (length bs), ck_flag = f, ck_id = TEMPORARY_ID,
     ck_fp = (if f = 0 then ex_sha bs else replicate 20 0), ck_data = (if bs = [] then None else Some bs)\<rparr>"

definition ex_segment :: segment where
  "ex_segment = new_segment\<lparr>sg_chunks := [ex_chunk CHUNK_FILE_START [102, 0], ex_chunk 0 [1, 2, 3], ex_chunk 0 [1, 2, 3],
      ex_chunk CHUNK_FILE_END []], sg_chunk_num := 2\<rparr>"

definition ex_index :: fp_index where
  "ex_index = \<lparr>ix_kv = [], ix_cache = init_fingerprint_cache ex_conf, buffered_fingerprints = [], ix_chunk_num = 0,
      lookup_requests = 0, update_requests = 0, lookup_requests_for_unique = 0, read_prefetching_units = 0\<rparr>"

definition ex_units :: units where
  "ex_units = \<lparr>fetch_container = (\<lambda>_. None), fetch_segments = (\<lambda>_. None)\<rparr>"

definition ex_statics :: recipe_statics where
  "ex_statics = \<lparr>backup_version_count = 0, access_record = TEMPORARY_ID, read_file_num = 0, read_chunk_num = 0, records_end = False\<rparr>"

definition ex_start :: backup_sys where
  "ex_start = (case create_backup_version False [47, 97, 47] ex_statics of
      Some (b, s) \<Rightarrow> \<lparr>bs_todo = [ex_segment], bs_flight = [], bs_out = [], bs_st = start_filter_phase ex_conf 0 [] b s ex_index\<rparr>
    | None \<Rightarrow> undefined)"

lemma start_filter_inv:
  assumes "bv_holds (jb_be j) b s [] []" "0 \<le> n" "buffered_fingerprints ix = []" "ix_chunk_num ix = 0"
  shows "filter_inv sha j [] [] [] (start_filter_phase d n [] b s ix)"
  using assms mon_inv_init [of d]
  by (auto simp: filter_inv_def start_filter_phase_def store_inv_def all_containers_def pending_inv_def fp_inv_def occ_def)

lemma ex_input: "input_ok ex_sha ex_job [ex_segment]"
proof -
  have u: "chunks_of [ex_segment] = sg_chunks ex_segment" by simp
  have c: "CHECK_CHUNK (ex_chunk f bs) g = (g AND f \<noteq> 0)" "ck_size (ex_chunk f bs) = int (length bs)" "ck_data (ex_chunk f bs) = (if bs = [] then None else Some bs)"
    "ck_fp (ex_chunk f bs) = (if f = 0 then ex_sha bs else replicate 20 0)" "ck_id (ex_chunk f bs) = TEMPORARY_ID" "length (ex_sha bs) = 20" for f g bs
    by (simp_all add: ex_chunk_def CHECK_CHUNK_def ex_sha_def and.commute)
  show ?thesis unfolding input_ok_def u
    by (simp add: ex_segment_def segment_wf_def data_chunks_def c int32_range_def chunk_good_def fresh_chunk_def unmarked_def
        CONTAINER_SIZE_def CONTAINER_META_SIZE_def new_file_recipe_meta_def file_ok_def int64_range_def metabufsize_def)
qed

lemma ex_cache_sound: "cache_sound holds (ix_cache ex_index)"
  by (simp add: ex_index_def ex_conf_def init_fingerprint_cache_def destor_start_config_def cache_sound_def lru_inv_new)
     (simp add: new_lru_cache_def)

lemma ex_start_ok: "start_ok ex_sha ex_job {} ex_start" "bs_todo ex_start = [ex_segment]" "fs_ix (bs_st ex_start) = ex_index"
  "fs_buffer (bs_st ex_start) = None"
proof -
  obtain b s where c: "create_backup_version False [47, 97, 47] ex_statics = Some (b, s)"
    by (simp add: create_backup_version_def dir_of_def get_next_version_number_def)
  have h: "bv_holds False b s [] []" using create_holds [OF c] by (simp add: ex_statics_def)
  have e: "ex_start = \<lparr>bs_todo = [ex_segment], bs_flight = [], bs_out = [], bs_st = start_filter_phase ex_conf 0 [] b s ex_index\<rparr>"
    using c by (simp add: ex_start_def)
  have "filter_inv ex_sha ex_job [] [] [] (bs_st ex_start)"
    unfolding e using start_filter_inv [of ex_job b s 0 ex_index] h by (simp add: ex_job_def ex_index_def)
  moreover have "fs_file (bs_st ex_start) = None" "fs_count (bs_st ex_start) = 0" "length (chunks_of [ex_segment]) = 4"
    by (simp_all add: e start_filter_phase_def ex_segment_def)
  ultimately show "start_ok ex_sha ex_job {} ex_start"
    using ex_input ex_cache_sound unfolding start_ok_def e by (simp add: start_filter_phase_def)
  show "bs_todo ex_start = [ex_segment]" "fs_ix (bs_st ex_start) = ex_index" "fs_buffer (bs_st ex_start) = None"
    by (simp_all add: e start_filter_phase_def)
qed

lemma ex_job_conf: "job_conf ex_job"
  by (simp add: job_conf_def ex_job_def ex_conf_def destor_start_config_def sampling_conf_def)

lemma ex_lookup:
  "\<exists>s ix. index_lookup (jb_be ex_job) (jb_ord ex_job) ex_units (jb_conf ex_job) (jb_threshold ex_job) None ex_segment ex_index = Some (True, s, ix)"
proof -
  have "(case index_lookup (jb_be ex_job) (jb_ord ex_job) ex_units (jb_conf ex_job) (jb_threshold ex_job) None ex_segment ex_index of
      Some (True, s, ix) \<Rightarrow> True | _ \<Rightarrow> False)" by code_simp
  then show ?thesis by (auto split: option.splits prod.splits bool.splits)
qed

lemma ex_run_from:
  assumes "start_ok ex_sha ex_job {} b0" "bs_todo b0 = [ex_segment]" "fs_ix (bs_st b0) = ex_index" "fs_buffer (bs_st b0) = None"
  shows "\<exists>b. backup_reach ex_job {} b0 b \<and> bs_todo b = [] \<and> (\<exists>s. bs_flight b = [s] \<and> bs_out b = [])"
    "\<exists>b s. backup_reach ex_job {} b0 b \<and> bs_todo b = [] \<and> bs_flight b = [] \<and> bs_out b = [s]"
proof -
  from ex_lookup obtain s ix where l: "index_lookup (jb_be ex_job) (jb_ord ex_job) ex_units (jb_conf ex_job) (jb_threshold ex_job)
      (fs_buffer (bs_st b0)) ex_segment (fs_ix (bs_st b0)) = Some (True, s, ix)" using assms(3,4) by auto
  let ?b = "b0\<lparr>bs_todo := [], bs_flight := bs_flight b0 @ [s], bs_st := (bs_st b0)\<lparr>fs_ix := ix\<rparr>\<rparr>"
  have "backup_step ex_job {} b0 ?b"
    by (rule backup_step.dedup_segment [OF assms(2) _ _ l]) (simp_all add: ex_segment_def units_from_def ex_units_def)
  with backup_reach.start have r: "backup_reach ex_job {} b0 ?b" by (rule backup_reach.step)
  have f: "bs_flight ?b = [s]" "bs_out ?b = []" using assms(1) by (simp_all add: start_ok_def)
  with r show "\<exists>b. backup_reach ex_job {} b0 b \<and> bs_todo b = [] \<and> (\<exists>s. bs_flight b = [s] \<and> bs_out b = [])"
    by (intro exI [of _ ?b]) simp
  have inv: "backup_inv ex_sha ex_job {} [ex_segment] ?b"
    using backup_inv_reach [OF r assms(1) ex_job_conf] assms(2) by simp
  from backup_inv_filter [OF inv ex_input ex_job_conf f(1)] obtain full s' st where
    "filter_segment ex_job s (bs_st ?b) = Some (full, s', st)" by blast
  from backup_step.filter_step [OF f(1) this] r have
    "backup_reach ex_job {} b0 (?b\<lparr>bs_flight := [], bs_out := bs_out ?b @ [s'], bs_st := st\<rparr>)"
    by (blast intro: backup_reach.step)
  with f(2) show "\<exists>b s. backup_reach ex_job {} b0 b \<and> bs_todo b = [] \<and> bs_flight b = [] \<and> bs_out b = [s]"
    by (intro exI [of _ "?b\<lparr>bs_flight := [], bs_out := bs_out ?b @ [s'], bs_st := st\<rparr>"] exI [of _ s']) simp
qed

lemmas ex_run = ex_run_from [OF ex_start_ok]

section \<open>Properties\<close>

text \<open>C5: in every state that a backup job can reach, with any interleaving of the deduplication,
  rewrite and filter phases, the chunks are still the chunks of the input in order; every chunk that
  passed the filter phase has the identifier of a container that holds its fingerprint; the
  containers are well-formed and store data that has the fingerprint; and the recipe written so far
  lists exactly the files and the chunks that passed, in order.\<close>

theorem backup_safe:
  assumes "start_ok sha j ptrs b0" "job_conf j" "backup_reach j ptrs b0 b"
  shows "list_all2 same_chunk (chunks_of (bs_todo b0)) (chunks_of (bs_out b @ bs_flight b @ bs_todo b))
     \<and> (\<forall>c \<in> set (chunks_of (bs_out b)). resolved (st_holds (bs_st b)) c)
     \<and> store_inv (simulation_level (jb_conf j)) sha (bs_st b)
     \<and> bv_holds (jb_be j) (fs_bv (bs_st b)) (fs_statics (bs_st b)) (fst (recipe_files None (chunks_of (bs_out b)))) (ptrs_of (bs_out b))"
  using backup_inv_reach [OF assms(3,1,2)] by (simp add: backup_inv_def filter_inv_def)

theorem backup_safe_witness:
  "\<exists>b s. backup_reach ex_job {} ex_start b \<and> bs_out b = [s]
     \<and> list_all2 same_chunk (sg_chunks ex_segment) (sg_chunks s) \<and> (\<forall>c \<in> set (sg_chunks s). resolved (st_holds (bs_st b)) c)"
proof -
  from ex_run(2) obtain b s where r: "backup_reach ex_job {} ex_start b" "bs_todo b = []" "bs_flight b = []" "bs_out b = [s]" by blast
  from backup_safe [OF ex_start_ok(1) ex_job_conf r(1)] r ex_start_ok(2) show ?thesis by auto
qed



text \<open>C12: the lookup of a segment, by the base or by the similarity-based method, keeps the buffer of
  pending fingerprints consistent with the chunks on their way to the filter phase; a chunk that
  gets the identifier of a container is really held by that container, and a chunk that stays unique
  is neither in the open container nor pending already. The prefetching units are a parameter whose
  entries are true of the store.\<close>

theorem index_lookup_sound:
  assumes "pending_inv holds (buf_has buf) P ix" "cache_sound holds (ix_cache ix)" "units_sound holds u"
    and "\<forall>c \<in> set (sg_chunks s). fresh_chunk c"
    and "\<And>b fp. buf = Some b \<Longrightarrow> lookup_fingerprint_in_container b fp \<Longrightarrow>
          holds (get_container_id b) fp \<and> get_container_id b \<noteq> TEMPORARY_ID"
    and "index_lookup be ord u d thr buf s ix = Some (True, s', ix')"
  shows "pending_inv holds (buf_has buf) (P @ data_chunks (sg_chunks s')) ix'
     \<and> list_all2 same_chunk (sg_chunks s) (sg_chunks s')
     \<and> (\<forall>c \<in> set (data_chunks (sg_chunks s')). ck_id c \<noteq> TEMPORARY_ID \<longrightarrow> holds (ck_id c) (ck_fp c))
     \<and> (\<forall>xs c ys. data_chunks (sg_chunks s') = xs @ c # ys \<longrightarrow> \<not> dup c \<longrightarrow>
          \<not> buf_has buf (ck_fp c) \<and> (\<forall>x \<in> set (P @ xs). ck_fp x \<noteq> ck_fp c))"
proof -
  let ?D = "data_chunks (sg_chunks s')"
  note inv = index_lookup_inv [OF assms]
  then have p: "pending_inv holds (buf_has buf) (P @ ?D) ix'" by blast
  have "ck_id c \<noteq> TEMPORARY_ID \<longrightarrow> holds (ck_id c) (ck_fp c)" if "c \<in> set ?D" for c
    using pending_inv_ids [OF p, of c] that by (auto simp: id_ok_def)
  moreover have "\<not> buf_has buf (ck_fp c) \<and> (\<forall>x \<in> set (P @ xs). ck_fp x \<noteq> ck_fp c)"
    if "?D = xs @ c # ys" "\<not> dup c" for xs c ys
    using first_is_unique [of holds "buf_has buf" "P @ xs" c ys ix'] p that by simp
  ultimately show ?thesis using inv by blast
qed

theorem index_lookup_sound_witness:
  "\<exists>s ix. index_lookup False id ex_units ex_conf (wait_threshold ex_conf) None ex_segment ex_index = Some (True, s, ix)
     \<and> list_all2 same_chunk (sg_chunks ex_segment) (sg_chunks s) \<and> pending_inv (\<lambda>_ _. False) (\<lambda>_. False) (data_chunks (sg_chunks s)) ix"
proof -
  from ex_lookup obtain s ix where l: "index_lookup False id ex_units ex_conf (wait_threshold ex_conf) None ex_segment ex_index = Some (True, s, ix)"
    by (auto simp: ex_job_def)
  have p: "pending_inv (\<lambda>_ _. False) (buf_has None) [] ex_index"
    by (simp add: pending_inv_def ex_index_def fp_inv_def occ_def)
  have b: "buf_has None = (\<lambda>_. False)" by (simp add: buf_has_def fun_eq_iff)
  have f: "\<forall>c \<in> set (sg_chunks ex_segment). fresh_chunk c" using ex_input by (simp add: input_ok_def)
  have u: "units_sound (\<lambda>_ _. False) ex_units" by (simp add: units_sound_def ex_units_def)
  from index_lookup_sound [OF p ex_cache_sound u f _ l] show ?thesis using l unfolding b by auto
qed

end
