(* ===== verification/Append_Thread.thy ===== *)
theory Append_Thread
  imports Container_Store
begin

text \<open>
  The append thread of \<^verbatim>\<open>src/destor/src/storage/containerstore.c\<close> next to the thread that fills
  containers. The filling thread creates a container, adds chunks to it and hands it to
  \<open>write_container_async\<close>; the append thread looks at the head of the buffer, writes it to the
  pool and only then removes it. A container is therefore in the buffer or in the pool at
  every moment, which is what \<open>retrieve_container_meta_by_id\<close> relies on. When the append thread has stopped the
  store is closed, and a later job opens it again (\<open>reopen\<close>).
\<close>

section \<open>Steps\<close>

datatype append_pc = Idle | Holding container | Wrote container | Stopped

record append_sys =
  ap_buffer :: "container SyncQueue"
  ap_store :: container_store
  ap_open :: "container option"
  ap_pc :: append_pc
  ap_submitted :: "container list"

definition append_init :: "append_sys" where
  "append_init = \<lparr>ap_buffer = sync_queue_new 25,
     ap_store = \<lparr>container_count = 0, pool = \<lparr>f_bytes = (\<lambda>_. 0), f_len = 0\<rparr>\<rparr>,
     ap_open = None, ap_pc = Idle, ap_submitted = []\<rparr>"

inductive append_step ::
    "bool \<Rightarrow> ((fingerprint \<times> metaEntry) list \<Rightarrow> (fingerprint \<times> metaEntry) list) \<Rightarrow> simulation_level \<Rightarrow>
     append_sys \<Rightarrow> append_sys \<Rightarrow> bool"
  for be ord sim where
  create: "ap_open s = None \<Longrightarrow> create_container sim (container_count (ap_store s)) = (c, n) \<Longrightarrow>
     n \<le> 2 ^ 40 \<Longrightarrow>
     append_step be ord sim s (s\<lparr>ap_open := Some c, ap_store := (ap_store s)\<lparr>container_count := n\<rparr>\<rparr>)"
| fill: "ap_open s = Some c \<Longrightarrow> 0 \<le> ck_size ck \<Longrightarrow> length (ck_fp ck) = 20 \<Longrightarrow> ck_data ck \<noteq> None \<Longrightarrow>
     add_chunk_to_container sim c ck = Some (r, c', ck') \<Longrightarrow>
     append_step be ord sim s (s\<lparr>ap_open := Some c'\<rparr>)"
| submit: "ap_open s = Some c \<Longrightarrow> \<not> sq_term (ap_buffer s) \<Longrightarrow>
     write_container_async (ap_buffer s) (ap_store s) c = Some (Returned q, st) \<Longrightarrow>
     append_step be ord sim s (s\<lparr>ap_open := None, ap_buffer := q, ap_store := st,
       ap_submitted := ap_submitted s @ (if container_empty c then [] else [c])\<rparr>)"
| finish: "sync_queue_term True (ap_buffer s) = Returned q \<Longrightarrow>
     append_step be ord sim s (s\<lparr>ap_buffer := q\<rparr>)"
| top: "ap_pc s = Idle \<Longrightarrow> sync_queue_get_top_enter True (ap_buffer s) = Returned (Some c) \<Longrightarrow>
     append_step be ord sim s (s\<lparr>ap_pc := Holding c\<rparr>)"
| stop: "ap_pc s = Idle \<Longrightarrow> sync_queue_get_top_enter True (ap_buffer s) = Returned None \<Longrightarrow>
     append_step be ord sim s (s\<lparr>ap_pc := Stopped\<rparr>)"
| flush: "ap_pc s = Holding c \<Longrightarrow> write_container be ord sim c (ap_store s) = Some st \<Longrightarrow>
     append_step be ord sim s (s\<lparr>ap_pc := Wrote c, ap_store := st\<rparr>)"
| pop: "ap_pc s = Wrote c \<Longrightarrow> sync_queue_pop_enter True (ap_buffer s) = Returned (x, q) \<Longrightarrow>
     append_step be ord sim s (s\<lparr>ap_pc := Idle, ap_buffer := q\<rparr>)"
| reopen: "ap_pc s = Stopped \<Longrightarrow> init_container_store be (Some (close_container_store be (ap_store s))) = Some st \<Longrightarrow>
     append_step be ord sim s (s\<lparr>ap_open := None, ap_buffer := sync_queue_new 25, ap_store := st, ap_pc := Idle\<rparr>)"

inductive append_reach ::
    "bool \<Rightarrow> ((fingerprint \<times> metaEntry) list \<Rightarrow> (fingerprint \<times> metaEntry) list) \<Rightarrow> simulation_level \<Rightarrow>
     append_sys \<Rightarrow> bool"
  for be ord sim where
  append_start: "append_reach be ord sim append_init"
| append_next: "append_reach be ord sim s \<Longrightarrow> append_step be ord sim s t \<Longrightarrow> append_reach be ord sim t"

section \<open>Invariant\<close>

definition storable :: "simulation_level \<Rightarrow> container \<Rightarrow> bool" where
  "storable sim c = (container_ok c \<and> (sim < SIMULATION_APPEND \<longrightarrow> con_data c \<noteq> None))"

text \<open>A container is in the pool: its metadata can be read and, unless writing is simulated, the
  whole container with the bytes it had.\<close>

definition data_in_pool :: "bool \<Rightarrow> container_store \<Rightarrow> container \<Rightarrow> bool" where
  "data_in_pool be st c = (\<exists>c' d d'. retrieve_container_by_id be SIMULATION_NO st (get_container_id c) = Some c'
     \<and> meta_equiv (con_meta c') (con_meta c) \<and> con_data c = Some d \<and> con_data c' = Some d'
     \<and> (\<forall>i < CONTAINER_SIZE - CONTAINER_META_SIZE. d' i = d i))"

definition in_pool :: "bool \<Rightarrow> simulation_level \<Rightarrow> container_store \<Rightarrow> container \<Rightarrow> bool" where
  "in_pool be sim st c = ((\<exists>cm. retrieve_meta_from_pool be sim st (get_container_id c) = Some cm
     \<and> meta_equiv cm (con_meta c)) \<and> (sim = SIMULATION_NO \<longrightarrow> data_in_pool be st c))"

definition flushed :: "bool \<Rightarrow> simulation_level \<Rightarrow> container_store \<Rightarrow> container list \<Rightarrow> container list \<Rightarrow> bool" where
  "flushed be sim st submitted waiting =
     (\<exists>gone. submitted = gone @ waiting \<and> (\<forall>c \<in> set gone. in_pool be sim st c))"

definition append_inv :: "bool \<Rightarrow> simulation_level \<Rightarrow> append_sys \<Rightarrow> bool" where
  "append_inv be sim s =
     ((\<forall>c \<in> set (ap_submitted s). storable sim c \<and> \<not> container_empty c \<and> get_container_id c < container_count (ap_store s))
      \<and> distinct (map get_container_id (ap_submitted s))
      \<and> 0 \<le> container_count (ap_store s) \<and> container_count (ap_store s) \<le> 2 ^ 40
      \<and> (\<forall>c. ap_open s = Some c \<longrightarrow> storable sim c \<and> get_container_id c + 1 = container_count (ap_store s)
           \<and> (\<forall>d \<in> set (ap_submitted s). get_container_id d < get_container_id c))
      \<and> flushed be sim (ap_store s) (ap_submitted s) (sq_queue (ap_buffer s))
      \<and> (case ap_pc s of
           Idle \<Rightarrow> True
         | Holding c \<Rightarrow> (\<exists>r. sq_queue (ap_buffer s) = c # r)
         | Wrote c \<Rightarrow> (\<exists>r. sq_queue (ap_buffer s) = c # r) \<and> in_pool be sim (ap_store s) c
         | Stopped \<Rightarrow> sq_queue (ap_buffer s) = [] \<and> sq_term (ap_buffer s)))"

lemma append_inv_init: "append_inv be sim append_init"
  by (simp add: append_inv_def append_init_def sync_queue_new_def flushed_def)

lemma in_pool_count [simp]: "in_pool be sim (st\<lparr>container_count := n\<rparr>) c = in_pool be sim st c"
  by (simp add: in_pool_def data_in_pool_def retrieve_meta_from_pool_def retrieve_container_by_id_def)

lemma flushed_count [simp]: "flushed be sim (st\<lparr>container_count := n\<rparr>) = flushed be sim st"
  by (intro ext) (simp add: flushed_def)

lemma in_pool_close: "pool st' = close_container_store be st \<Longrightarrow> in_pool be sim st' c = in_pool be sim st c"
  by (simp add: in_pool_def data_in_pool_def close_retrieve)

lemma flushed_submit: "flushed be sim st xs ys \<Longrightarrow> flushed be sim st (xs @ [c]) (ys @ [c])"
  by (auto simp: flushed_def)

lemma flushed_pop: "flushed be sim st xs (c # ys) \<Longrightarrow> in_pool be sim st c \<Longrightarrow> flushed be sim st xs ys"
  by (auto simp: flushed_def intro: exI [of _ "_ @ [c]"])

lemma data_write_other:
  assumes "data_in_pool be st d" "write_container be ord SIMULATION_NO c st = Some st'"
    and "container_ok d" "container_ok c" "get_container_id d \<noteq> get_container_id c"
  shows "data_in_pool be st' d"
proof -
  from assms(1) obtain c0 m m0 where c0: "retrieve_container_by_id be SIMULATION_NO st (get_container_id d) = Some c0"
    "meta_equiv (con_meta c0) (con_meta d)" "con_data d = Some m" "con_data c0 = Some m0"
    "\<forall>i < CONTAINER_SIZE - CONTAINER_META_SIZE. m0 i = m i" by (auto simp: data_in_pool_def)
  have "0 \<le> get_container_id d" "0 \<le> cm_id (con_meta c)" "get_container_id d \<noteq> cm_id (con_meta c)"
    "16 + 28 * nat (cm_chunk_num (con_meta c0)) \<le> CONTAINER_META_SIZE"
    using assms(3-5) c0(2) by (auto simp: container_ok_def get_container_id_def Let_def meta_equiv_def)
  from retrieve_container_frame [OF assms(2) c0(1) this] c0(4) obtain d' where
    "retrieve_container_by_id be SIMULATION_NO st' (get_container_id d) = Some (c0\<lparr>con_data := Some d'\<rparr>)"
    "\<forall>k < CONTAINER_SIZE. d' k = m0 k" by auto
  with c0 show ?thesis unfolding data_in_pool_def by (intro exI [of _ "c0\<lparr>con_data := Some d'\<rparr>"] exI [of _ m] exI [of _ d']) simp
qed

lemma in_pool_write_other:
  assumes "in_pool be sim st d" "write_container be ord sim c st = Some st'"
    and "container_ok d" "container_ok c" "get_container_id d \<noteq> get_container_id c"
  shows "in_pool be sim st' d"
proof -
  from assms(1) obtain cm where cm: "retrieve_meta_from_pool be sim st (get_container_id d) = Some cm"
    "meta_equiv cm (con_meta d)" by (auto simp: in_pool_def)
  have "0 \<le> get_container_id d" "0 \<le> cm_id (con_meta c)" "get_container_id d \<noteq> cm_id (con_meta c)"
    "16 + 28 * nat (cm_chunk_num cm) \<le> CONTAINER_META_SIZE"
    using assms(3-5) cm(2) by (auto simp: container_ok_def get_container_id_def Let_def meta_equiv_def)
  from write_frame [OF assms(2) cm(1) this] cm(2) data_write_other [OF _ _ assms(3-5)] assms(1,2) show ?thesis
    by (auto simp: in_pool_def)
qed

lemma in_pool_write:
  assumes "storable sim c" "\<not> container_empty c" "\<And>t. mset (ord t) = mset t"
    and "write_container be ord sim c st = Some st'"
  shows "in_pool be sim st' c"
  using retrieve_meta_after_write [of c ord be sim st st'] retrieve_after_write [of c ord be sim st st'] assms
  by (auto simp: in_pool_def data_in_pool_def storable_def get_container_id_def)

lemma storable_create: "create_container sim n = (c, n') \<Longrightarrow> 0 \<le> n \<Longrightarrow> n' \<le> 2 ^ 40 \<Longrightarrow>
    storable sim c \<and> get_container_id c = n \<and> n' = n + 1"
  using create_container_ok [of n sim]
  by (auto simp: storable_def create_container_def get_container_id_def)

lemma storable_fill:
  assumes "storable sim c" "0 \<le> ck_size ck" "length (ck_fp ck) = 20" "ck_data ck \<noteq> None"
    and "add_chunk_to_container sim c ck = Some (r, c', ck')"
  shows "storable sim c' \<and> get_container_id c' = get_container_id c"
proof -
  have room: "\<not> container_overflow c (ck_size ck)"
    using assms(5) by (auto simp: add_chunk_to_container_def)
  have "con_data c' \<noteq> None" if "sim < SIMULATION_APPEND"
    using assms(1,4,5) that
    by (auto simp: add_chunk_to_container_def Let_def storable_def bind_eq_Some_conv split: if_splits option.splits)
  with add_chunk_ok [OF _ assms(2,3) room, of sim] assms(1,4,5) show ?thesis by (auto simp: storable_def)
qed

lemma append_inv_step:
  assumes ord: "\<And>t. mset (ord t) = mset t"
  shows "append_step be ord sim s t \<Longrightarrow> append_inv be sim s \<Longrightarrow> append_inv be sim t"
proof (induction rule: append_step.induct)
  case (create s c n)
  then show ?case using storable_create [OF create(2)] by (fastforce simp: append_inv_def split: append_pc.splits)
next
  case (fill s c ck r c' ck')
  then show ?case using storable_fill [OF _ fill(2-5)] by (auto simp: append_inv_def split: append_pc.splits)
next
  case (submit s c q st)
  show ?case
  proof (cases "container_empty c")
    case True
    with submit(3) have "q = ap_buffer s" "st = (ap_store s)\<lparr>container_count := container_count (ap_store s) - 1\<rparr>"
      by (auto simp: write_container_async_def)
    moreover have "0 \<le> get_container_id c" using submit(1,4)
      by (simp add: append_inv_def storable_def container_ok_def Let_def get_container_id_def)
    moreover have "container_count (ap_store s) = get_container_id c + 1" using submit(1,4)
      by (simp add: append_inv_def)
    ultimately show ?thesis using True submit(1,4)
      by (cases "ap_pc s") (auto simp: append_inv_def)
  next
    case False
    with submit(2,3) have "st = ap_store s" "sq_queue q = sq_queue (ap_buffer s) @ [c]" "sq_term q = sq_term (ap_buffer s)"
      by (auto simp: write_container_async_def sq_defs split: if_splits)
    note q = this
    show ?thesis using False q submit(1,2,4) flushed_submit [of be sim "ap_store s" "ap_submitted s" _ c]
      by (cases "ap_pc s") (auto simp: append_inv_def)
  qed
next
  case (finish s q)
  then show ?case by (auto simp: append_inv_def sync_queue_term_def split: append_pc.splits)
next
  case (top s c)
  then show ?case by (auto simp: append_inv_def sq_defs split: list.splits if_splits append_pc.splits)
next
  case (stop s)
  then show ?case by (auto simp: append_inv_def sq_defs split: list.splits if_splits append_pc.splits)
next
  case (flush s c st)
  from flush(1,3) obtain r gone where q: "sq_queue (ap_buffer s) = c # r" "ap_submitted s = gone @ c # r"
    and gone: "\<forall>d \<in> set gone. in_pool be sim (ap_store s) d" by (auto simp: append_inv_def flushed_def)
  with flush(3) have c: "storable sim c" "\<not> container_empty c"
    and d: "\<forall>d \<in> set gone. storable sim d \<and> get_container_id d \<noteq> get_container_id c"
    by (auto simp: append_inv_def image_iff)
  have "\<forall>d \<in> set gone. in_pool be sim st d"
    using in_pool_write_other [OF _ flush(2)] gone c d by (auto simp: storable_def)
  moreover have "in_pool be sim st c" using in_pool_write [OF c ord flush(2)] .
  moreover have "container_count st = container_count (ap_store s)"
    using flush(2) c(2) by (auto simp: write_container_def Let_def split: if_splits option.splits)
  ultimately show ?case using flush(1,3) q by (auto simp: append_inv_def flushed_def)
next
  case (pop s c x q)
  then show ?case
    by (auto simp: append_inv_def sq_defs flushed_pop split: list.splits if_splits append_pc.splits)
next
  case (reopen s st)
  have n: "0 \<le> container_count (ap_store s)" "container_count (ap_store s) < 2 ^ 63" using reopen(3) by (auto simp: append_inv_def)
  have "st = \<lparr>container_count = container_count (ap_store s), pool = close_container_store be (ap_store s)\<rparr>"
    using reopen(2) init_close [OF n, of be] by simp
  then have "container_count st = container_count (ap_store s)" "\<And>c. in_pool be sim st c = in_pool be sim (ap_store s) c"
    by (simp_all add: in_pool_close)
  with reopen(1,3) show ?case by (auto simp: append_inv_def flushed_def sync_queue_new_def)
qed

lemma append_inv_reach:
  assumes "append_reach be ord sim s" "\<And>t. mset (ord t) = mset t"
  shows "append_inv be sim s"
  using assms(1) by induction (auto intro: append_inv_init append_inv_step [OF assms(2)])

lemma duplicate_equiv:
  assumes "container_ok c" "\<And>t. mset (ord t) = mset t"
  shows "meta_equiv (container_meta_duplicate ord c) (con_meta c)"
proof -
  have "fold (\<lambda>(_, me) t. AList.update (me_fp me) me t) es t = fold (\<lambda>me t. AList.update (me_fp me) me t) (map snd es) t"
    for es :: "(fingerprint \<times> metaEntry) list" and t
    by (induction es arbitrary: t) (auto split: prod.splits)
  moreover have "\<forall>(fp, me) \<in> set (cm_map (con_meta c)). me_fp me = fp" "distinct (map fst (cm_map (con_meta c)))"
    using assms(1) by (auto simp: container_ok_def Let_def)
  ultimately show ?thesis using assms map_of_rebuilt [of "ord (cm_map (con_meta c))" "con_meta c"]
    by (simp add: meta_equiv_def container_meta_duplicate_def init_container_meta_def Let_def)
qed

lemma submitted_readable:
  assumes r: "append_reach be ord sim s" and ord: "\<And>t. mset (ord t) = mset t"
    and c: "c \<in> set (ap_submitted s)"
  shows "\<exists>cm. retrieve_container_meta_by_id be ord sim (ap_buffer s) (ap_store s) (get_container_id c) = Some cm
     \<and> meta_equiv cm (con_meta c)"
proof -
  note inv = append_inv_reach [OF r ord]
  then obtain gone where g: "ap_submitted s = gone @ sq_queue (ap_buffer s)"
    "\<forall>c \<in> set gone. in_pool be sim (ap_store s) c" by (auto simp: append_inv_def flushed_def)
  let ?hit = "\<lambda>x. container_check_id x (get_container_id c) = 1"
  have hit: "?hit x = (get_container_id x = get_container_id c)" for x
    by (simp add: container_check_id_def container_meta_check_id_def get_container_id_def)
  show ?thesis
  proof (cases "find ?hit (sq_queue (ap_buffer s))")
    case None
    then have "c \<notin> set (sq_queue (ap_buffer s))" using hit by (auto simp: find_None_iff)
    with c g have "in_pool be sim (ap_store s) c" by auto
    with None show ?thesis
      by (auto simp: retrieve_container_meta_by_id_def sync_queue_find_def in_pool_def)
  next
    case (Some x)
    then have x: "x \<in> set (ap_submitted s)" "get_container_id x = get_container_id c"
      using hit g by (auto simp: find_Some_iff)
    with inv c have "x = c" by (auto simp: append_inv_def distinct_map inj_on_def)
    moreover have "container_ok c" using inv c by (auto simp: append_inv_def storable_def)
    ultimately show ?thesis using Some duplicate_equiv [OF _ ord]
      by (auto simp: retrieve_container_meta_by_id_def sync_queue_find_def)
  qed
qed

lemma all_written_at_stop:
  assumes "append_reach be ord sim s" "\<And>t. mset (ord t) = mset t" "ap_pc s = Stopped" "c \<in> set (ap_submitted s)"
  shows "in_pool be sim (ap_store s) c"
  using append_inv_reach [OF assms(1,2)] assms(3,4) by (auto simp: append_inv_def flushed_def)

text \<open>The append thread never aborts: the container it holds passes the checks of \<open>write_container\<close>.\<close>

lemma append_write_total:
  assumes "append_reach be ord sim s" "\<And>t. mset (ord t) = mset t" "ap_pc s = Holding c"
  shows "\<exists>st. write_container be ord sim c (ap_store s) = Some st"
proof -
  have "c \<in> set (ap_submitted s)" "storable sim c" "\<not> container_empty c"
    using append_inv_reach [OF assms(1,2)] assms(3) by (auto simp: append_inv_def flushed_def)
  with write_container_ok [of c ord sim be "ap_store s"] assms(2) show ?thesis by (auto simp: storable_def)
qed

section \<open>Properties\<close>

text \<open>C13: at every moment of any interleaving of the filling thread and the append thread, the
  metadata of each container handed over so far can be retrieved, from the buffer or from the
  pool.\<close>

theorem submitted_container_readable:
  assumes "append_reach be ord sim s" "\<And>t. mset (ord t) = mset t" "c \<in> set (ap_submitted s)"
  shows "\<exists>cm. retrieve_container_meta_by_id be ord sim (ap_buffer s) (ap_store s) (get_container_id c) = Some cm
     \<and> meta_equiv cm (con_meta c)"
  using submitted_readable [where ord = ord, OF assms] .

text \<open>When the append thread has stopped, each container handed over is in the pool, where
  writing is not simulated with all its data; and the thread never fails to write the container it
  holds.\<close>

theorem append_thread_complete:
  assumes "append_reach be ord sim s" "\<And>t. mset (ord t) = mset t"
  shows "(ap_pc s = Stopped \<longrightarrow> (\<forall>c \<in> set (ap_submitted s). in_pool be sim (ap_store s) c))
     \<and> (\<forall>c. ap_pc s = Holding c \<longrightarrow> (\<exists>st. write_container be ord sim c (ap_store s) = Some st))"
  using all_written_at_stop [where ord = ord, OF assms] append_write_total [where ord = ord, OF assms] by blast

text \<open>A run for the witnesses: one chunk is stored, its container is handed over and written.\<close>

lemma append_example:
  "\<exists>s c. append_reach False id SIMULATION_NO s \<and> ap_submitted s = [c] \<and> get_container_id c = 0 \<and> ap_pc s = Stopped"
proof -
  let ?step = "append_step False id SIMULATION_NO" and ?reach = "append_reach False id SIMULATION_NO"
  let ?c0 = "fst (create_container SIMULATION_NO 0)"
  let ?ck = "\<lparr>ck_size = 3, ck_flag = 0, ck_id = -1, ck_fp = replicate 20 7, ck_data = Some [1, 2, 3]\<rparr>"
  have ok: "container_ok ?c0" using create_container_ok [of 0 SIMULATION_NO] by simp
  have room: "\<not> container_overflow ?c0 (ck_size ?ck)" "con_data ?c0 \<noteq> None"
    by (simp_all add: create_container_def container_overflow_def init_container_meta_def CONTAINER_META_SIZE_def CONTAINER_SIZE_def
        less_simulation_level_def)
  from add_chunk_ok [where ck = ?ck and sim = SIMULATION_NO, OF ok _ _ room(1)] room obtain r c ck where
    a: "add_chunk_to_container SIMULATION_NO ?c0 ?ck = Some (r, c, ck)" "container_ok c" "\<not> container_empty c"
      "get_container_id c = get_container_id ?c0" by auto
  have id: "get_container_id c = 0" using a(4) by (simp add: create_container_def get_container_id_def)
  let ?s1 = "append_init\<lparr>ap_open := Some ?c0, ap_store := (ap_store append_init)\<lparr>container_count := 1\<rparr>\<rparr>"
  have "?step append_init ?s1"
    by (rule append_step.create) (simp_all add: append_init_def create_container_def)
  with append_start have 1: "?reach ?s1" by (rule append_next)
  let ?s2 = "?s1\<lparr>ap_open := Some c\<rparr>"
  have "?step ?s1 ?s2" by (rule append_step.fill [where ck = ?ck]) (use a(1) in simp_all)
  with 1 have 2: "?reach ?s2" by (rule append_next)
  let ?q = "(sync_queue_new 25)\<lparr>sq_queue := [c]\<rparr>"
  let ?s3 = "?s2\<lparr>ap_open := None, ap_buffer := ?q, ap_store := ap_store ?s2, ap_submitted := ap_submitted ?s2 @ (if container_empty c then [] else [c])\<rparr>"
  have "?step ?s2 ?s3"
    by (rule append_step.submit) (use a in \<open>auto simp: append_init_def sync_queue_new_def write_container_async_def container_ok_def Let_def
        sync_queue_push_enter_def sync_queue_push_loop_def sync_queue_size_def\<close>)
  with 2 have 3: "?reach ?s3" by (rule append_next)
  let ?s4 = "?s3\<lparr>ap_pc := Holding c\<rparr>"
  have "?step ?s3 ?s4"
    by (rule append_step.top) (simp_all add: append_init_def sync_queue_new_def sync_queue_get_top_enter_def sync_queue_get_top_loop_def)
  with 3 have 4: "?reach ?s4" by (rule append_next)
  from append_write_total [OF 4, of c] obtain st where w: "write_container False id SIMULATION_NO c (ap_store ?s4) = Some st" by auto
  let ?s5 = "?s4\<lparr>ap_pc := Wrote c, ap_store := st\<rparr>"
  have "?step ?s4 ?s5" by (rule append_step.flush) (use w in simp_all)
  with 4 have 5: "?reach ?s5" by (rule append_next)
  let ?s6 = "?s5\<lparr>ap_pc := Idle, ap_buffer := ?q\<lparr>sq_queue := []\<rparr>\<rparr>"
  have "?step ?s5 ?s6"
    by (rule append_step.pop [where x = "Some c"]) (simp_all add: sync_queue_new_def sync_queue_pop_enter_def sync_queue_pop_loop_def)
  with 5 have 6: "?reach ?s6" by (rule append_next)
  let ?s7 = "?s6\<lparr>ap_buffer := ?q\<lparr>sq_queue := [], sq_term := True\<rparr>\<rparr>"
  have "?step ?s6 ?s7" by (rule append_step.finish) (simp_all add: sync_queue_new_def sync_queue_term_def)
  with 6 have 7: "?reach ?s7" by (rule append_next)
  let ?s8 = "?s7\<lparr>ap_pc := Stopped\<rparr>"
  have "?step ?s7 ?s8"
    by (rule append_step.stop) (simp_all add: sync_queue_new_def sync_queue_get_top_enter_def sync_queue_get_top_loop_def)
  with 7 have "?reach ?s8" by (rule append_next)
  moreover have "ap_submitted ?s8 = [c]" "ap_pc ?s8 = Stopped" using a(3) by (simp_all add: append_init_def)
  ultimately show ?thesis using id by blast
qed

theorem submitted_container_readable_witness:
  "\<exists>s c cm. append_reach False id SIMULATION_NO s \<and> ap_submitted s = [c]
     \<and> retrieve_container_meta_by_id False id SIMULATION_NO (ap_buffer s) (ap_store s) 0 = Some cm \<and> meta_equiv cm (con_meta c)"
proof -
  from append_example obtain s c where s: "append_reach False id SIMULATION_NO s" "ap_submitted s = [c]" "get_container_id c = 0" by blast
  from submitted_container_readable [OF s(1), of c] s(2,3) have
    "\<exists>cm. retrieve_container_meta_by_id False id SIMULATION_NO (ap_buffer s) (ap_store s) 0 = Some cm \<and> meta_equiv cm (con_meta c)" by simp
  with s show ?thesis by blast
qed

theorem append_thread_complete_witness:
  "\<exists>s c. append_reach False id SIMULATION_NO s \<and> ap_submitted s = [c] \<and> in_pool False SIMULATION_NO (ap_store s) c"
proof -
  from append_example obtain s c where s: "append_reach False id SIMULATION_NO s" "ap_submitted s = [c]" "ap_pc s = Stopped" by blast
  from append_thread_complete [OF s(1)] s(2,3) have "in_pool False SIMULATION_NO (ap_store s) c" by simp
  with s show ?thesis by blast
qed

end
