(* ===== verification/Store_Run.thy ===== *)
theory Store_Run
  imports Backup Append_Thread
begin

unbundle bit_operations_syntax

text \<open>
  The filter phase and the append thread together: whatever the filter phase does to its open
  container and to the containers it hands over is a run of the system of
  \<open>Append_Thread\<close>, in which the append thread keeps up. The two models of the
  container store, a list of containers in the filter phase and a queue with a pool file here, agree.
  Along the way every byte string in a container is one of \<open>X\<close>, the data of the input.
\<close>

section \<open>The relation\<close>

definition stored_data :: "container list \<Rightarrow> byte list set" where
  "stored_data cs = {bs. \<exists>c \<in> set cs. \<exists>fp. entry_data c fp = Some bs}"

text \<open>A run of the container store that starts in \<open>z\<close>.\<close>

definition append_run ::
    "bool \<Rightarrow> ((fingerprint \<times> metaEntry) list \<Rightarrow> (fingerprint \<times> metaEntry) list) \<Rightarrow> simulation_level \<Rightarrow>
     append_sys \<Rightarrow> append_sys \<Rightarrow> bool" where
  "append_run be ord sim z s = (append_reach be ord sim s \<and> (append_step be ord sim)\<^sup>*\<^sup>* z s)"

lemma append_run_next: "append_run be ord sim z s \<Longrightarrow> append_step be ord sim s t \<Longrightarrow> append_run be ord sim z t"
  by (auto simp: append_run_def intro: append_next rtranclp.rtrancl_into_rtrancl)

definition drives ::
    "append_sys \<Rightarrow> byte list set \<Rightarrow> bool \<Rightarrow> ((fingerprint \<times> metaEntry) list \<Rightarrow> (fingerprint \<times> metaEntry) list) \<Rightarrow>
     simulation_level \<Rightarrow> filter_state \<Rightarrow> append_sys \<Rightarrow> bool" where
  "drives z X be ord sim st s = (append_run be ord sim z s \<and> ap_open s = fs_buffer st \<and> ap_submitted s = fs_written st
     \<and> container_count (ap_store s) = fs_count st \<and> ap_pc s = Idle \<and> sq_queue (ap_buffer s) = []
     \<and> \<not> sq_term (ap_buffer s) \<and> sq_max_size (ap_buffer s) = 25 \<and> stored_data (all_containers st) \<subseteq> X)"

lemma drives_cong:
  "fs_buffer st' = fs_buffer st \<Longrightarrow> fs_written st' = fs_written st \<Longrightarrow> fs_count st' = fs_count st \<Longrightarrow>
     drives z X be ord sim st s \<Longrightarrow> drives z X be ord sim st' s"
  by (simp add: drives_def all_containers_def)

lemma stored_data_simps [simp]:
  "stored_data [] = {}" "stored_data (xs @ ys) = stored_data xs \<union> stored_data ys"
  "stored_data (c # cs) = {bs. \<exists>fp. entry_data c fp = Some bs} \<union> stored_data cs"
  by (auto simp: stored_data_def)

lemma created_no_data: "entry_data (fst (create_container sim n)) fp = None"
  by (simp add: create_container_def entry_data_def init_container_meta_def)

lemma add_chunk_entries:
  assumes "container_ok c" "ck_size ck = int (length bs)" "ck_data ck = Some bs" "sim < SIMULATION_APPEND"
    and "add_chunk_to_container sim c ck = Some (r, c', ck')" "entry_data c' fp = Some x"
  shows "x = bs \<or> entry_data c fp = Some x"
proof (cases r)
  case False
  with assms(5,6) show ?thesis by (auto simp: add_chunk_to_container_def Let_def bind_eq_Some_conv split: if_splits)
next
  case True
  note d = add_chunk_data [OF assms(1-5)]
  show ?thesis
  proof (cases "fp = ck_fp ck")
    case True
    with d(1) \<open>r\<close> assms(6) show ?thesis by simp
  next
    case False
    then have m: "map_of (cm_map (con_meta c')) fp = map_of (cm_map (con_meta c)) fp" "con_data c \<noteq> None"
      using assms(4,5) True by (auto simp: add_chunk_to_container_def Let_def bind_eq_Some_conv update_conv' split: if_splits option.splits)
    then obtain y where "entry_data c fp = Some y" using assms(6) by (auto simp: entry_data_def split: option.splits)
    with d(2) [OF this] assms(6) show ?thesis by simp
  qed
qed

lemma drives_ok:
  assumes "drives z X be ord sim st s" "\<And>t. mset (ord t) = mset t" "fs_buffer st = Some b"
  shows "container_ok b" "sim < SIMULATION_APPEND \<longrightarrow> con_data b \<noteq> None" "0 \<le> fs_count st"
  using append_inv_reach [where ord = ord, of be sim s] assms by (auto simp: drives_def append_run_def append_inv_def storable_def)

lemma drives_create:
  assumes "drives z X be ord sim st s" "fs_buffer st = None" "create_container sim (fs_count st) = (c, n)" "n \<le> 2 ^ 40"
  shows "\<exists>s'. drives z X be ord sim (st\<lparr>fs_buffer := Some c, fs_count := n\<rparr>) s'"
proof -
  have d: "append_run be ord sim z s" "ap_open s = None" "create_container sim (container_count (ap_store s)) = (c, n)"
    using assms(1-3) by (auto simp: drives_def)
  have "stored_data [c] = {}" using created_no_data [of sim "fs_count st"] assms(3) by simp
  with append_run_next [OF d(1) append_step.create [OF d(2,3) assms(4)]] assms(1,2) show ?thesis
    by (intro exI [of _ "s\<lparr>ap_open := Some c, ap_store := (ap_store s)\<lparr>container_count := n\<rparr>\<rparr>"]) (simp add: drives_def all_containers_def)
qed

lemma drives_fill:
  assumes "drives z X be ord sim st s" "fs_buffer st = Some b" "add_chunk_to_container sim b c = Some (r, b', c')"
    and "ck_size c = int (length bs)" "length (ck_fp c) = 20" "ck_data c = Some bs" "bs \<in> X"
    and "sim < SIMULATION_APPEND" "\<And>t. mset (ord t) = mset t"
  shows "\<exists>s'. drives z X be ord sim (st\<lparr>fs_buffer := Some b'\<rparr>) s'"
proof -
  have d: "append_run be ord sim z s" "ap_open s = Some b" "0 \<le> ck_size c" "ck_data c \<noteq> None" using assms(1,2,4,6) by (auto simp: drives_def)
  have ok: "container_ok b" by (rule drives_ok(1) [OF assms(1,9,2)])
  have "stored_data [b'] \<subseteq> X"
    using add_chunk_entries [OF ok assms(4,6,8,3)] assms(1,2,7) by (auto simp: drives_def all_containers_def stored_data_def)
  with append_run_next [OF d(1) append_step.fill [OF d(2,3) assms(5) d(4) assms(3)]] assms(1) show ?thesis
    by (intro exI [of _ "s\<lparr>ap_open := Some b'\<rparr>"]) (simp add: drives_def all_containers_def)
qed

text \<open>A container handed over is written and removed from the buffer before anything else happens.\<close>

lemma drives_submit:
  assumes "drives z X be ord sim st s" "fs_buffer st = Some b" "\<not> container_empty b" "\<And>t. mset (ord t) = mset t"
  shows "\<exists>s'. drives z X be ord sim (st\<lparr>fs_buffer := None, fs_written := fs_written st @ [b]\<rparr>) s'"
proof -
  have d: "append_run be ord sim z s" "ap_open s = Some b" "ap_pc s = Idle" "sq_queue (ap_buffer s) = []" "\<not> sq_term (ap_buffer s)"
    "sq_max_size (ap_buffer s) = 25" using assms(1,2) by (auto simp: drives_def)
  have "container_ok b" by (rule drives_ok(1) [OF assms(1,4,2)])
  then have cnt: "cm_chunk_num (con_meta b) = int (length (cm_map (con_meta b)))" by (simp add: container_ok_def Let_def)
  let ?q = "(ap_buffer s)\<lparr>sq_queue := [b]\<rparr>"
  have w: "write_container_async (ap_buffer s) (ap_store s) b = Some (Returned ?q, ap_store s)"
    using assms(3) cnt d(4-6) by (simp add: write_container_async_def sync_queue_push_enter_def sync_queue_push_loop_def sync_queue_size_def)
  let ?s1 = "s\<lparr>ap_open := None, ap_buffer := ?q, ap_store := ap_store s, ap_submitted := ap_submitted s @ (if container_empty b then [] else [b])\<rparr>"
  have 1: "append_run be ord sim z ?s1" by (rule append_run_next [OF d(1) append_step.submit [OF d(2,5) w]])
  let ?s2 = "?s1\<lparr>ap_pc := Holding b\<rparr>"
  have 2: "append_run be ord sim z ?s2"
    by (rule append_run_next [OF 1 append_step.top]) (simp_all add: d sync_queue_get_top_enter_def sync_queue_get_top_loop_def)
  from append_write_total [where ord = ord, OF conjunct1 [OF 2 [unfolded append_run_def]] assms(4), of b] obtain st2 where
    w2: "write_container be ord sim b (ap_store ?s2) = Some st2" by auto
  let ?s3 = "?s2\<lparr>ap_pc := Wrote b, ap_store := st2\<rparr>"
  have 3: "append_run be ord sim z ?s3" by (rule append_run_next [OF 2 append_step.flush [OF _ w2]]) simp
  let ?s4 = "?s3\<lparr>ap_pc := Idle, ap_buffer := ?q\<lparr>sq_queue := []\<rparr>\<rparr>"
  have 4: "append_run be ord sim z ?s4"
    by (rule append_run_next [OF 3 append_step.pop [where x = "Some b"]]) (simp_all add: sync_queue_pop_enter_def sync_queue_pop_loop_def)
  have "container_count st2 = container_count (ap_store s)"
    using w2 assms(3) by (auto simp: write_container_def Let_def split: if_splits option.splits)
  with 4 assms(1-3) d show ?thesis by (intro exI [of _ ?s4]) (simp add: drives_def all_containers_def)
qed

section \<open>A chunk\<close>

lemma drives_new_buffer:
  assumes "drives z X be ord (simulation_level (jb_conf j)) st s" "fs_buffer st = None" "fs_count st < 2 ^ 40"
  shows "\<exists>s'. drives z X be ord (simulation_level (jb_conf j)) (new_buffer j st) s'"
  using drives_create [OF assms(1,2)] assms(3) by (auto simp: new_buffer_def create_container_def)

lemma index_container_frame: "index_container j b st = Some st' \<Longrightarrow>
    fs_buffer st' = fs_buffer st \<and> fs_written st' = fs_written st \<and> fs_count st' = fs_count st"
  by (auto simp: index_container_def bind_eq_Some_conv split: if_splits)

lemma drives_ensure:
  assumes "drives z X be ord (simulation_level (jb_conf j)) st s" "\<And>t. mset (ord t) = mset t" "ensure_container j sz st = Some st'"
    and "0 < sz" "sz \<le> int CONTAINER_SIZE - int CONTAINER_META_SIZE" "fs_count st < 2 ^ 40"
  shows "\<exists>s'. drives z X be ord (simulation_level (jb_conf j)) st' s' \<and> fs_count st' \<le> fs_count st + 1"
proof (cases "fs_buffer st")
  case None
  from drives_new_buffer [OF assms(1) None assms(6)] obtain s1 where s1: "drives z X be ord (simulation_level (jb_conf j)) (new_buffer j st) s1" by blast
  have "\<not> container_overflow (fst (create_container (simulation_level (jb_conf j)) (fs_count st))) sz"
    by (rule created_room [OF assms(4,5)])
  with assms(3) None have "st' = (new_buffer j st)\<lparr>fs_sample := []\<rparr> \<or> st' = new_buffer j st"
    by (auto simp: ensure_container_def new_buffer_simps Let_def split: if_splits)
  with s1 show ?thesis by (auto simp: new_buffer_simps intro!: exI [of _ s1] elim: drives_cong [rotated 3])
next
  case (Some b)
  show ?thesis
  proof (cases "container_overflow b sz")
    case False
    with assms(1,3) Some show ?thesis by (auto simp: ensure_container_def)
  next
    case True
    with assms(3) Some obtain st1 st2 where i: "index_container j b st = Some st1" "write_async b st1 = Some st2" "st' = new_buffer j st2"
      by (auto simp: ensure_container_def bind_eq_Some_conv)
    have "container_ok b" by (rule drives_ok(1) [OF assms(1,2) Some])
    from container_not_empty_overflow [OF this assms(4,5) True] have ne: "\<not> container_empty b" .
    from drives_submit [OF assms(1) Some ne assms(2)] obtain s1 where
      s1: "drives z X be ord (simulation_level (jb_conf j)) (st\<lparr>fs_buffer := None, fs_written := fs_written st @ [b]\<rparr>) s1" by blast
    have st2: "fs_written st2 = fs_written st @ [b]" "fs_count st2 = fs_count st" "fs_buffer st2 = Some b"
      using i(2) index_container_frame [OF i(1)] ne Some by (auto simp: write_async_def bind_eq_Some_conv)
    have "drives z X be ord (simulation_level (jb_conf j)) (st2\<lparr>fs_buffer := None\<rparr>) s1" using s1 st2 by (simp add: drives_def all_containers_def)
    from drives_new_buffer [OF this] st2(2) assms(6) obtain s2 where
      "drives z X be ord (simulation_level (jb_conf j)) (new_buffer j (st2\<lparr>fs_buffer := None\<rparr>)) s2" by auto
    then have "drives z X be ord (simulation_level (jb_conf j)) st' s2" unfolding i(3)
      by (simp add: drives_def new_buffer_simps all_containers_def)
    then show ?thesis using i(3) st2(2) by (auto simp: new_buffer_simps)
  qed
qed

lemma drives_store_chunk:
  assumes "drives z X be ord (simulation_level (jb_conf j)) st s" "\<And>t. mset (ord t) = mset t"
    and "store_chunk j c uniques rewritten st = Some (c', u', r', st')" "\<not> is_file_signal c"
    and "chunk_good (simulation_level (jb_conf j)) sha c" "simulation_level (jb_conf j) < SIMULATION_APPEND" "fs_count st < 2 ^ 40"
    and "the (ck_data c) \<in> X"
  shows "\<exists>s'. drives z X be ord (simulation_level (jb_conf j)) st' s' \<and> fs_count st' \<le> fs_count st + 1"
proof -
  from assms(4-6) obtain bs where g: "0 < ck_size c" "ck_size c \<le> int CONTAINER_SIZE - int CONTAINER_META_SIZE" "length (ck_fp c) = 20"
    "ck_data c = Some bs" "int (length bs) = ck_size c" by (auto simp: chunk_good_def)
  from assms(3) obtain st1 b added b' c1 where
    1: "ensure_container j (ck_size c) st = Some st1" "fs_buffer st1 = Some b"
    "add_chunk_to_container (simulation_level (jb_conf j)) b c = Some (added, b', c1)"
    and st': "fs_buffer st' = Some b'" "fs_written st' = fs_written st1" "fs_count st' = fs_count st1"
    by (auto simp: store_chunk_def bind_eq_Some_conv Let_def split: if_splits)
  from drives_ensure [OF assms(1,2) 1(1) g(1,2) assms(7)] obtain s1 where
    s1: "drives z X be ord (simulation_level (jb_conf j)) st1 s1" "fs_count st1 \<le> fs_count st + 1" by blast
  from drives_fill [OF s1(1) 1(2,3) g(5) [symmetric] g(3,4) _ assms(6,2)] assms(8) g(4) obtain s2 where
    "drives z X be ord (simulation_level (jb_conf j)) (st1\<lparr>fs_buffer := Some b'\<rparr>) s2" by auto
  with st' s1(2) show ?thesis by (auto simp: drives_def all_containers_def)
qed

lemma prepared_chunk:
  assumes "cache_aware d mo c = Some c1" "resolve_recent uniques rewritten c1 = Some c2"
  shows "ck_size c2 = ck_size c \<and> ck_fp c2 = ck_fp c \<and> ck_data c2 = ck_data c \<and> is_file_signal c2 = is_file_signal c"
proof -
  have "ck_size c1 = ck_size c \<and> ck_fp c1 = ck_fp c \<and> ck_data c1 = ck_data c \<and> is_file_signal c1 = is_file_signal c"
    using assms(1) by (auto simp: cache_aware_def bind_eq_Some_conv flag_simps split: if_splits)
  moreover have "ck_size c2 = ck_size c1 \<and> ck_fp c2 = ck_fp c1 \<and> ck_data c2 = ck_data c1 \<and> is_file_signal c2 = is_file_signal c1"
    using assms(2) by (auto simp: resolve_recent_def bind_eq_Some_conv flag_simps split: if_splits option.splits)
  ultimately show ?thesis by simp
qed

lemma drives_filter_chunk:
  assumes "drives z X be ord (simulation_level (jb_conf j)) st s" "\<And>t. mset (ord t) = mset t" "simulation_level (jb_conf j) < SIMULATION_APPEND"
    and "filter_chunk j c (uniques, rewritten, st) = Some (c', u', r', st')"
    and "chunk_good (simulation_level (jb_conf j)) sha c" "fs_count st < 2 ^ 40" "is_file_signal c \<or> the (ck_data c) \<in> X"
  shows "\<exists>s'. drives z X be ord (simulation_level (jb_conf j)) st' s' \<and> fs_count st' \<le> fs_count st + 1"
proof (cases "is_file_signal c")
  case True
  with assms(1,4) show ?thesis by (auto simp: filter_chunk_def)
next
  case False
  let ?st = "st\<lparr>fs_enable_rewrite := cfl_switch (jb_conf j) (fs_monitor st) (fs_enable_rewrite st)\<rparr>"
  from assms(4) False obtain c1 c2 c3 u1 r1 st1 where
    1: "cache_aware (jb_conf j) (fs_monitor st) c = Some c1" "resolve_recent uniques rewritten c1 = Some c2"
    "(if must_write (fs_enable_rewrite ?st) c2 then store_chunk j c2 uniques rewritten ?st else Some (c2, uniques, rewritten, ?st)) = Some (c3, u1, r1, st1)"
    and st': "fs_buffer st' = fs_buffer st1" "fs_written st' = fs_written st1" "fs_count st' = fs_count st1"
    by (auto simp: filter_chunk_def bind_eq_Some_conv Let_def)
  note pc = prepared_chunk [OF 1(1,2)]
  have c2: "\<not> is_file_signal c2" "chunk_good (simulation_level (jb_conf j)) sha c2" "the (ck_data c2) \<in> X"
    using pc False assms(5,7) by (auto simp: chunk_good_def)
  have d: "drives z X be ord (simulation_level (jb_conf j)) ?st s" using assms(1) by (simp add: drives_def all_containers_def)
  have "\<exists>s'. drives z X be ord (simulation_level (jb_conf j)) st1 s' \<and> fs_count st1 \<le> fs_count st + 1"
  proof (cases "must_write (fs_enable_rewrite ?st) c2")
    case True
    with 1(3) have "store_chunk j c2 uniques rewritten ?st = Some (c3, u1, r1, st1)" by simp
    from drives_store_chunk [OF d assms(2) this c2(1,2) assms(3) _ c2(3)] assms(6) show ?thesis by simp
  next
    case False
    with 1(3) d show ?thesis by auto
  qed
  with st' show ?thesis by (auto simp: drives_def all_containers_def)
qed

lemma drives_filter_chunks:
  assumes "\<And>t. mset (ord t) = mset t" "simulation_level (jb_conf j) < SIMULATION_APPEND"
  shows "drives z X be ord (simulation_level (jb_conf j)) st s \<Longrightarrow> filter_chunks j cs (uniques, rewritten, st) = Some (cs', u', r', st') \<Longrightarrow>
     \<forall>c \<in> set cs. chunk_good (simulation_level (jb_conf j)) sha c \<and> (is_file_signal c \<or> the (ck_data c) \<in> X) \<Longrightarrow> fs_count st + int (length cs) \<le> 2 ^ 40 \<Longrightarrow>
     \<exists>s'. drives z X be ord (simulation_level (jb_conf j)) st' s'"
proof (induction cs arbitrary: st s uniques rewritten cs' u' r' st')
  case (Cons c cs)
  from Cons.prems(2) obtain c1 u1 r1 st1 cs1 where
    1: "filter_chunk j c (uniques, rewritten, st) = Some (c1, u1, r1, st1)" "filter_chunks j cs (u1, r1, st1) = Some (cs1, u', r', st')"
    by (auto simp: bind_eq_Some_conv)
  from drives_filter_chunk [OF Cons.prems(1) assms 1(1)] Cons.prems(3,4) obtain s1 where
    "drives z X be ord (simulation_level (jb_conf j)) st1 s1" "fs_count st1 \<le> fs_count st + 1" by auto
  with Cons.IH [OF _ 1(2)] Cons.prems(3,4) show ?case by auto
qed auto

section \<open>A segment and a job\<close>

lemma check_buffer_chunks:
  assumes "index_check_buffer ix s = Some s'"
  shows "list_all2 same_chunk (sg_chunks s) (sg_chunks s')"
proof -
  have one: "same_chunk c c'" if "check_buffer_chunk ix c = Some c'" for c c'
    using that by (auto simp: check_buffer_chunk_def same_chunk_def Let_def bind_eq_Some_conv flag_simps split: if_splits option.splits list.splits)
  have "map_opt (check_buffer_chunk ix) cs = Some cs' \<Longrightarrow> list_all2 same_chunk cs cs'" for cs cs'
    by (induction cs arbitrary: cs') (auto simp: bind_eq_Some_conv dest: one)
  with assms show ?thesis by (auto simp: index_check_buffer_def)
qed

lemma write_recipe_frame:
  "write_recipe j s st = Some (sid, st') \<Longrightarrow> fs_buffer st' = fs_buffer st \<and> fs_written st' = fs_written st \<and> fs_count st' = fs_count st"
proof -
  assume w: "write_recipe j s st = Some (sid, st')"
  have one: "fs_buffer y = fs_buffer x \<and> fs_written y = fs_written x \<and> fs_count y = fs_count x" if "recipe_chunk j c x = Some y" for c x y
    using that by (auto simp: recipe_chunk_def bind_eq_Some_conv split: if_splits option.splits)
  have "fold_opt (recipe_chunk j) cs x = Some y \<Longrightarrow> fs_buffer y = fs_buffer x \<and> fs_written y = fs_written x \<and> fs_count y = fs_count x" for cs x y
    by (induction cs arbitrary: x) (auto simp: bind_eq_Some_conv dest!: one)
  with w show ?thesis by (force simp: write_recipe_def bind_eq_Some_conv)
qed

lemma drives_segment:
  assumes "drives z X be ord (simulation_level (jb_conf j)) st s" "\<And>t. mset (ord t) = mset t" "simulation_level (jb_conf j) < SIMULATION_APPEND"
    and "filter_segment j sg st = Some (full, sg', st')" "\<forall>c \<in> set (sg_chunks sg). chunk_good (simulation_level (jb_conf j)) sha c \<and> (is_file_signal c \<or> the (ck_data c) \<in> X)"
    and "fs_count st + int (length (sg_chunks sg)) \<le> 2 ^ 40"
  shows "\<exists>s'. drives z X be ord (simulation_level (jb_conf j)) st' s'"
proof -
  from assms(4) obtain sg1 cs u r st1 full ix sid st2 ix2 where
    1: "index_check_buffer (fs_ix st) sg = Some sg1" "filter_chunks j (sg_chunks sg1) ([], [], st) = Some (cs, u, r, st1)"
    "write_recipe j (sg1\<lparr>sg_chunks := cs\<rparr>) (st1\<lparr>fs_ix := ix\<rparr>) = Some (sid, st2)" "st' = st2\<lparr>fs_ix := ix2\<rparr>"
    by (auto simp: filter_segment_def bind_eq_Some_conv Let_def)
  note same = check_buffer_chunks [OF 1(1)]
  have "\<forall>c \<in> set (sg_chunks sg1). chunk_good (simulation_level (jb_conf j)) sha c \<and> (is_file_signal c \<or> the (ck_data c) \<in> X)"
  proof
    fix c assume "c \<in> set (sg_chunks sg1)"
    from list_all2_bwd [OF same this] obtain c0 where c0: "c0 \<in> set (sg_chunks sg)" "same_chunk c0 c" by blast
    then have "ck_data c = ck_data c0" "is_file_signal c = is_file_signal c0" by (auto simp: same_chunk_def)
    with c0 assms(5) chunk_good_same [OF c0(2), of "simulation_level (jb_conf j)" sha]
    show "chunk_good (simulation_level (jb_conf j)) sha c \<and> (is_file_signal c \<or> the (ck_data c) \<in> X)" by simp
  qed
  from drives_filter_chunks [OF assms(2,3,1) 1(2) this] assms(6) list_all2_lengthD [OF same] obtain s1 where
    "drives z X be ord (simulation_level (jb_conf j)) st1 s1" by auto
  with write_recipe_frame [OF 1(3)] 1(4) show ?thesis by (auto simp: drives_def all_containers_def)
qed

definition input_data :: "chunk list \<Rightarrow> byte list set" where
  "input_data cs = {bs. \<exists>c \<in> set (data_chunks cs). ck_data c = Some bs}"

lemma drives_reach:
  assumes "start_ok sha j ptrs b0" "job_conf j" "simulation_level (jb_conf j) < SIMULATION_APPEND" "\<And>t. mset (ord t) = mset t"
    and "drives z X be ord (simulation_level (jb_conf j)) (bs_st b0) s0" "backup_reach j ptrs b0 b" "input_data (chunks_of (bs_todo b0)) \<subseteq> X"
  shows "\<exists>s. drives z X be ord (simulation_level (jb_conf j)) (bs_st b) s"
  using assms(6)
proof induction
  case start
  with assms(5) show ?case by blast
next
  case (step b1 b2)
  from step.IH obtain s1 where s1: "drives z X be ord (simulation_level (jb_conf j)) (bs_st b1) s1" by blast
  from step.hyps(2) show ?case
  proof cases
    case (filter_step s later full s' st)
    have inv: "backup_inv sha j ptrs (bs_todo b0) b1" by (rule backup_inv_reach [OF step.hyps(1) assms(1,2)])
    have "\<forall>c \<in> set (sg_chunks s). chunk_good (simulation_level (jb_conf j)) sha c \<and> (is_file_signal c \<or> the (ck_data c) \<in> X)"
    proof
      fix c assume "c \<in> set (sg_chunks s)"
      then have "c \<in> set (chunks_of (bs_out b1 @ bs_flight b1 @ bs_todo b1))" using filter_step(2) by simp
      with inv obtain c0 where c0: "c0 \<in> set (chunks_of (bs_todo b0))" "same_chunk c0 c" by (auto simp: backup_inv_def dest: list_all2_bwd)
      have g: "chunk_good (simulation_level (jb_conf j)) sha c0" using assms(1) c0(1) by (simp add: start_ok_def input_ok_def)
      have e: "ck_data c = ck_data c0" "is_file_signal c = is_file_signal c0" using c0(2) by (auto simp: same_chunk_def)
      have "the (ck_data c0) \<in> X" if "\<not> is_file_signal c0"
        using g that assms(3,7) c0(1) by (auto simp: chunk_good_def input_data_def data_chunks_def)
      with e g chunk_good_same [OF c0(2)] show "chunk_good (simulation_level (jb_conf j)) sha c \<and> (is_file_signal c \<or> the (ck_data c) \<in> X)" by auto
    qed
    moreover have "fs_count (bs_st b1) + int (length (sg_chunks s)) \<le> 2 ^ 40" using inv filter_step(2) by (simp add: backup_inv_def)
    ultimately show ?thesis using drives_segment [where sha = sha, OF s1 assms(4,3) filter_step(3)] filter_step(1) by simp
  qed (use s1 in \<open>auto simp: drives_def all_containers_def\<close>)
qed

text \<open>The first job of a store, from the empty pool to the end of the append thread.\<close>

definition first_job :: "backup_sys \<Rightarrow> bool" where
  "first_job b = (fs_buffer (bs_st b) = None \<and> fs_written (bs_st b) = [] \<and> fs_count (bs_st b) = 0)"

lemma drives_init: "first_job b \<Longrightarrow> drives append_init X be ord sim (bs_st b) append_init"
  by (simp add: first_job_def drives_def append_run_def append_start all_containers_def) (simp add: append_init_def sync_queue_new_def)

lemma stop_after:
  assumes "drives z X be ord sim st s"
  shows "\<exists>s'. append_run be ord sim z s' \<and> ap_pc s' = Stopped \<and> ap_submitted s' = fs_written st"
proof -
  have d: "append_run be ord sim z s" "ap_pc s = Idle" "sq_queue (ap_buffer s) = []" using assms by (auto simp: drives_def)
  let ?s1 = "s\<lparr>ap_buffer := (ap_buffer s)\<lparr>sq_term := True\<rparr>\<rparr>"
  have 1: "append_run be ord sim z ?s1" by (rule append_run_next [OF d(1) append_step.finish]) (simp add: sync_queue_term_def)
  have "append_run be ord sim z (?s1\<lparr>ap_pc := Stopped\<rparr>)"
    by (rule append_run_next [OF 1 append_step.stop]) (use d in \<open>simp_all add: sync_queue_get_top_enter_def sync_queue_get_top_loop_def\<close>)
  with assms show ?thesis by (intro exI [of _ "?s1\<lparr>ap_pc := Stopped\<rparr>"]) (simp add: drives_def)
qed

lemma drives_finish:
  assumes "drives z X be ord (simulation_level (jb_conf j)) st s" "\<And>t. mset (ord t) = mset t" "filter_finish j st = Some st'"
  shows "\<exists>s' st1. drives z X be ord (simulation_level (jb_conf j)) st1 s' \<and> fs_written st1 = fs_written st'"
proof (cases "fs_buffer st")
  case None
  with assms(1,3) show ?thesis by (auto simp: filter_finish_def)
next
  case (Some b)
  show ?thesis
  proof (cases "container_empty b")
    case True
    with assms(1,3) Some show ?thesis by (auto simp: filter_finish_def)
  next
    case False
    with assms(3) Some obtain st1 st2 where i: "index_container j b st = Some st1" "write_async b st1 = Some st2" "st' = st2\<lparr>fs_buffer := None\<rparr>"
      by (auto simp: filter_finish_def bind_eq_Some_conv)
    have "fs_written st' = fs_written st @ [b]"
      using i index_container_frame [OF i(1)] False by (auto simp: write_async_def bind_eq_Some_conv)
    with drives_submit [OF assms(1) Some False assms(2)] show ?thesis by fastforce
  qed
qed

lemma stored_by_append:
  assumes "start_ok sha j ptrs b0" "job_conf j" "simulation_level (jb_conf j) < SIMULATION_APPEND" "\<And>t. mset (ord t) = mset t"
    and "first_job b0" "backup_reach j ptrs b0 b" "filter_finish j (bs_st b) = Some st'"
  shows "\<exists>s. append_reach be ord (simulation_level (jb_conf j)) s \<and> ap_pc s = Stopped \<and> ap_submitted s = fs_written st'"
    and "stored_data (fs_written st') \<subseteq> input_data (chunks_of (bs_todo b0))"
proof -
  let ?X = "input_data (chunks_of (bs_todo b0))"
  from drives_reach [where ord = ord, OF assms(1-4) drives_init [OF assms(5)] assms(6) order_refl] obtain s where
    "drives append_init ?X be ord (simulation_level (jb_conf j)) (bs_st b) s" by blast
  from drives_finish [where ord = ord, OF this assms(4,7)] obtain s1 st1 where
    1: "drives append_init ?X be ord (simulation_level (jb_conf j)) st1 s1" "fs_written st1 = fs_written st'" by blast
  from stop_after [OF 1(1)] 1(2) show
    "\<exists>s. append_reach be ord (simulation_level (jb_conf j)) s \<and> ap_pc s = Stopped \<and> ap_submitted s = fs_written st'" by (auto simp: append_run_def)
  show "stored_data (fs_written st') \<subseteq> ?X" using 1 by (simp add: drives_def all_containers_def)
qed

section \<open>Properties\<close>

text \<open>C14: the filter phase and the append thread fit together: for every state that a first backup
  job can reach there is a run of the container store's two threads in which the open container is
  the one of the filter phase, the containers handed over are the ones it has written, the counter
  is the same, and the append thread has them all in the pool and waits for the next one.\<close>

theorem filter_drives_append:
  assumes "start_ok sha j ptrs b0" "job_conf j" "simulation_level (jb_conf j) < SIMULATION_APPEND" "\<And>t. mset (ord t) = mset t"
    and "first_job b0" "backup_reach j ptrs b0 b"
  shows "\<exists>s. append_reach be ord (simulation_level (jb_conf j)) s \<and> ap_open s = fs_buffer (bs_st b)
     \<and> ap_submitted s = fs_written (bs_st b) \<and> container_count (ap_store s) = fs_count (bs_st b)
     \<and> ap_pc s = Idle \<and> sq_queue (ap_buffer s) = []"
  using drives_reach [where ord = ord, OF assms(1-4) drives_init [OF assms(5)] assms(6) order_refl] by (auto simp: drives_def append_run_def)

theorem filter_drives_append_witness:
  "\<exists>b s. backup_reach ex_job {} ex_start b \<and> bs_todo b = [] \<and> append_reach False id SIMULATION_NO s
     \<and> ap_submitted s = fs_written (bs_st b) \<and> ap_open s = fs_buffer (bs_st b)"
proof -
  from ex_run(2) obtain b where r: "backup_reach ex_job {} ex_start b" "bs_todo b = []" by blast
  have f: "first_job ex_start"
    by (simp add: first_job_def ex_start_def create_backup_version_def dir_of_def get_next_version_number_def ex_statics_def start_filter_phase_def)
  have c: "simulation_level (jb_conf ex_job) = SIMULATION_NO" by (simp add: ex_job_def ex_conf_def destor_start_config_def)
  from filter_drives_append [where ord = id and be = False, OF ex_start_ok(1) ex_job_conf _ _ f r(1)] r show ?thesis
    unfolding c by (auto simp: less_simulation_level_def)
qed

end
