(* ===== verification/End_To_End.thy ===== *)
theory End_To_End
  imports Store_Run Restore_Job
begin

unbundle bit_operations_syntax

text \<open>
  From the chunks of a backup job to the bytes the client gets back: the backup phases fill
  containers and write the recipe, the append thread stores the containers in the pool, and a
  later restore job reads the recipe and the pool and sends the data.
\<close>

section \<open>After the last segment\<close>

lemma finish_ok:
  assumes "store_inv sim sha st" "sampling_conf (jb_conf j)"
  shows "\<exists>st'. filter_finish j st = Some st' \<and> fs_bv st' = fs_bv st \<and> fs_statics st' = fs_statics st
     \<and> (\<forall>c \<in> set (fs_written st'). con_good sim sha c)
     \<and> (\<forall>i fp. st_holds st i fp \<longrightarrow> (\<exists>c \<in> set (fs_written st'). get_container_id c = i \<and> lookup_fingerprint_in_container c fp))"
proof (cases "fs_buffer st")
  case None
  with assms(1) show ?thesis by (auto simp: filter_finish_def store_inv_def all_containers_def st_holds_def)
next
  case (Some b)
  have good: "\<forall>c \<in> set (fs_written st @ [b]). con_good sim sha c" using assms(1) Some by (auto simp: store_inv_def all_containers_def)
  show ?thesis
  proof (cases "container_empty b")
    case True
    have "container_ok b" using good by (simp add: con_good_def)
    with True have "cm_map (con_meta b) = []" by (auto simp: container_empty_def container_ok_def Let_def)
    then have "\<not> lookup_fingerprint_in_container b fp" for fp
      by (simp add: lookup_fingerprint_in_container_def lookup_fingerprint_in_container_meta_def)
    with True Some good show ?thesis by (auto simp: filter_finish_def st_holds_def all_containers_def)
  next
    case False
    from index_container_ok [OF assms(2), of b st] obtain st1 where
      1: "index_container j b st = Some st1" "fs_frame st st1" "fs_written st1 = fs_written st" by blast
    have "cm_chunk_num (con_meta b) = int (length (cm_map (con_meta b)))" using good by (simp add: con_good_def container_ok_def Let_def)
    then have "filter_finish j st = Some (st1\<lparr>fs_written := fs_written st @ [b], fs_buffer := None\<rparr>)"
      using 1 False Some by (simp add: filter_finish_def write_async_def)
    with 1(2) Some good show ?thesis by (auto simp: fs_frame_def st_holds_def all_containers_def)
  qed
qed

section \<open>The version of the job\<close>

lemma append_same_version:
  "append_segment_flag be junk b f n = Some (i, b') \<Longrightarrow> same_version b b'"
  "append_file_recipe_meta be b r = Some b' \<Longrightarrow> same_version b b'"
  "append_n_chunk_pointers be b [cp] st = Some (b', st') \<Longrightarrow> same_version b b'"
  by (auto simp: append_segment_flag_def append_file_recipe_meta_def append_n_chunk_pointers_def append_chunk_pointer_def
      segbuf_append_def same_version_def bind_eq_Some_conv Let_def split: if_splits)

lemma recipe_chunk_version: "recipe_chunk j c st = Some st' \<Longrightarrow> same_version (fs_bv st) (fs_bv st')"
  by (auto simp: recipe_chunk_def bind_eq_Some_conv dest: append_same_version split: option.splits if_splits)

lemma recipe_chunks_version: "fold_opt (recipe_chunk j) cs st = Some st' \<Longrightarrow> same_version (fs_bv st) (fs_bv st')"
  by (induction cs arbitrary: st) (auto simp: bind_eq_Some_conv dest: recipe_chunk_version intro: same_version_trans)

lemma write_recipe_version:
  assumes "write_recipe j s st = Some (i, st')"
  shows "same_version (fs_bv st) (fs_bv st')"
proof -
  from assms obtain b st1 i' b' where
    "append_segment_flag (jb_be j) (jb_junk j) (fs_bv st) CHUNK_SEGMENT_START (sg_chunk_num s) = Some (i, b)"
    "fold_opt (recipe_chunk j) (sg_chunks s) (st\<lparr>fs_bv := b\<rparr>) = Some st1"
    "append_segment_flag (jb_be j) (jb_junk j) (fs_bv st1) CHUNK_SEGMENT_END 0 = Some (i', b')" "st' = st1\<lparr>fs_bv := b'\<rparr>"
    by (auto simp: write_recipe_def bind_eq_Some_conv)
  then have "same_version (fs_bv st) b" "same_version b (fs_bv st1)" "same_version (fs_bv st1) (fs_bv st')"
    by (auto dest: append_same_version(1) recipe_chunks_version)
  then show ?thesis by (blast intro: same_version_trans)
qed

lemma ensure_container_version: "ensure_container j sz st = Some st' \<Longrightarrow> fs_bv st' = fs_bv st"
proof -
  assume e: "ensure_container j sz st = Some st'"
  have n: "fs_bv (new_buffer j x) = fs_bv x" for x by (simp add: new_buffer_def create_container_def)
  have "fs_bv y = fs_bv x" if "index_container j b x = Some y \<or> write_async b x = Some y" for b x y
    using that by (auto simp: index_container_def write_async_def bind_eq_Some_conv split: if_splits)
  with e n show ?thesis by (force simp: ensure_container_def bind_eq_Some_conv Let_def split: if_splits option.splits)
qed

lemma store_chunk_version: "store_chunk j c u r st = Some (c', u', r', st') \<Longrightarrow> fs_bv st' = fs_bv st"
  by (auto simp: store_chunk_def bind_eq_Some_conv Let_def dest!: ensure_container_version split: if_splits)

lemma filter_chunk_version:
  assumes "filter_chunk j c (u, r, st) = Some (c', u', r', st')"
  shows "fs_bv st' = fs_bv st"
proof (cases "is_file_signal c")
  case True
  with assms show ?thesis by (auto simp: filter_chunk_def)
next
  case False
  let ?st = "st\<lparr>fs_enable_rewrite := cfl_switch (jb_conf j) (fs_monitor st) (fs_enable_rewrite st)\<rparr>"
  from assms False obtain c2 c3 u1 r1 st1 where
    "(if must_write (fs_enable_rewrite ?st) c2 then store_chunk j c2 u r ?st else Some (c2, u, r, ?st)) = Some (c3, u1, r1, st1)"
    and st': "fs_bv st' = fs_bv st1"
    by (auto simp: filter_chunk_def bind_eq_Some_conv Let_def)
  then have "fs_bv st1 = fs_bv ?st" by (auto dest: store_chunk_version split: if_splits)
  with st' show ?thesis by simp
qed

lemma filter_chunks_version: "filter_chunks j cs (u, r, st) = Some (cs', u', r', st') \<Longrightarrow> fs_bv st' = fs_bv st"
  by (induction cs arbitrary: u r st cs' u' r' st') (fastforce simp: bind_eq_Some_conv dest: filter_chunk_version)+

lemma filter_segment_version: "filter_segment j s st = Some (full, s', st') \<Longrightarrow> same_version (fs_bv st) (fs_bv st')"
  by (auto simp: filter_segment_def bind_eq_Some_conv Let_def dest!: filter_chunks_version write_recipe_version)

lemma backup_version: "backup_reach j ptrs b0 b \<Longrightarrow> same_version (fs_bv (bs_st b0)) (fs_bv (bs_st b))"
proof (induction rule: backup_reach.induct)
  case (step b1 b2)
  from step.hyps(2) have "same_version (fs_bv (bs_st b1)) (fs_bv (bs_st b2))"
    by cases (auto dest: filter_segment_version)
  with step.IH show ?case by (rule same_version_trans)
qed simp

text \<open>A version that was just created.\<close>

definition version_ok :: "backupVersion \<Rightarrow> bool" where
  "version_ok b = (bv_deleted b = 0 \<and> int32_range (bv_num b) \<and> int32_range (int (length (bv_path b))) \<and> 0 \<notin> set (bv_path b))"

section \<open>The recipe counts the chunks\<close>

definition open_chunks :: "fileRecipeMeta option \<Rightarrow> int" where
  "open_chunks r = (case r of None \<Rightarrow> 0 | Some r \<Rightarrow> fr_chunknum r)"

lemma recipe_files_count:
  "file_shape (r \<noteq> None) cs \<noteq> None \<Longrightarrow>
     sum_list (map fr_chunknum (fst (recipe_files r cs))) + open_chunks (snd (recipe_files r cs)) = open_chunks r + int (length (data_chunks cs))"
proof (induction cs arbitrary: r)
  case (Cons c cs)
  show ?case
  proof (cases r)
    case None
    with Cons show ?thesis by (auto simp: open_chunks_def new_file_recipe_meta_def data_chunks_def split: if_splits)
  next
    case (Some x)
    show ?thesis
    proof (cases "CHECK_CHUNK c CHUNK_FILE_END")
      case True
      with Some Cons.prems Cons.IH [of None] show ?thesis
        by (auto simp: open_chunks_def data_chunks_def case_prod_beta split: option.splits)
    next
      case False
      with Some Cons.prems Cons.IH [of "Some (x\<lparr>fr_chunknum := fr_chunknum x + 1, fr_filesize := fr_filesize x + ck_size c\<rparr>)"] show ?thesis
        by (auto simp: open_chunks_def data_chunks_def split: option.splits if_splits)
    qed
  qed
qed (simp add: data_chunks_def)

lemma recipe_files_closed: "file_shape (r \<noteq> None) cs = Some b \<Longrightarrow> b = (snd (recipe_files r cs) \<noteq> None)"
proof (induction cs arbitrary: r)
  case (Cons c cs)
  then show ?case
    by (cases r) (auto simp: case_prod_beta split: if_splits dest: Cons.IH [of "Some _", simplified] Cons.IH [of None, simplified])
qed simp

section \<open>The pool after the append thread\<close>

lemma pool_container:
  assumes "data_in_pool be st c" "container_ok c"
  shows "\<exists>c'. retrieve_container_by_id be SIMULATION_NO st (get_container_id c) = Some c' \<and> get_container_id c' = get_container_id c
     \<and> con_data c' \<noteq> None \<and> (\<forall>fp. entry_data c' fp = entry_data c fp)
     \<and> (\<forall>fp. lookup_fingerprint_in_container c' fp = lookup_fingerprint_in_container c fp)"
proof -
  from assms(1) obtain c' d d' where c: "retrieve_container_by_id be SIMULATION_NO st (get_container_id c) = Some c'"
    "meta_equiv (con_meta c') (con_meta c)" "con_data c = Some d" "con_data c' = Some d'"
    "\<forall>i < CONTAINER_SIZE - CONTAINER_META_SIZE. d' i = d i" by (auto simp: data_in_pool_def)
  with entry_data_equiv [OF assms(2) c(2-5)] show ?thesis
    by (auto simp: meta_equiv_def get_container_id_def lookup_fingerprint_in_container_def lookup_fingerprint_in_container_meta_def)
qed

lemma pool_sound:
  assumes "\<forall>c \<in> set ws. data_in_pool be st c \<and> con_good SIMULATION_NO sha c" "inj_on sha D" "stored_data ws \<subseteq> D"
  shows "fetch_sound (retrieve_container_by_id be SIMULATION_NO st)
     (\<lambda>i. if i \<in> get_container_id ` set ws then retrieve_container_by_id be SIMULATION_NO st i else None) (inv_into D sha)"
  unfolding fetch_sound_def
proof (intro allI impI)
  fix i con
  assume f: "(if i \<in> get_container_id ` set ws then retrieve_container_by_id be SIMULATION_NO st i else None) = Some con"
  then obtain c where c: "c \<in> set ws" "i = get_container_id c" "retrieve_container_by_id be SIMULATION_NO st i = Some con"
    by (auto split: if_splits)
  have g: "container_ok c" "\<And>fp. lookup_fingerprint_in_container c fp \<Longrightarrow> \<exists>bs. entry_data c fp = Some bs \<and> sha bs = fp"
    using assms(1) c(1) by (auto simp: con_good_def less_simulation_level_def)
  from pool_container [OF _ g(1), of be st] assms(1) c have
    p: "get_container_id con = i" "con_data con \<noteq> None" "\<forall>fp. entry_data con fp = entry_data c fp" by auto
  have "bs = inv_into D sha fp" if "entry_data con fp = Some bs" for fp bs
  proof -
    have e: "entry_data c fp = Some bs" using that p(3) by simp
    then have "lookup_fingerprint_in_container c fp"
      by (auto simp: entry_data_def lookup_fingerprint_in_container_def lookup_fingerprint_in_container_meta_def split: option.splits)
    from g(2) [OF this] e have "sha bs = fp" by auto
    moreover have "bs \<in> D" using e c(1) assms(3) by (auto simp: stored_data_def)
    ultimately show ?thesis using inv_into_f_f [OF assms(2), of bs] by simp
  qed
  with p c(3) show "retrieve_container_by_id be SIMULATION_NO st i = Some con \<and> get_container_id con = i \<and> con_data con \<noteq> None
      \<and> (\<forall>fp bs. entry_data con fp = Some bs \<longrightarrow> bs = inv_into D sha fp)" by blast
qed

text \<open>The pointers of the recipe name containers that have the data of the input.\<close>

lemma same_content:
  assumes "same_chunk c c'" "\<not> is_file_signal c" "chunk_good SIMULATION_NO sha c" "inj_on sha D" "input_data cs \<subseteq> D" "c \<in> set cs"
  shows "inv_into D sha (ck_fp c') = the (ck_data c)" "inv_into D sha (ck_fp c') \<noteq> []" "ck_size c' = int (length (inv_into D sha (ck_fp c')))"
proof -
  from assms(2,3) obtain bs where bs: "ck_data c = Some bs" "int (length bs) = ck_size c" "sha bs = ck_fp c" "0 < ck_size c"
    by (auto simp: chunk_good_def less_simulation_level_def)
  have "bs \<in> D" using bs(1) assms(2,5,6) by (auto simp: input_data_def data_chunks_def)
  then have "inv_into D sha (ck_fp c') = bs" using inv_into_f_f [OF assms(4), of bs] bs(3) assms(1) by (simp add: same_chunk_def)
  with bs assms(1) show "inv_into D sha (ck_fp c') = the (ck_data c)" "inv_into D sha (ck_fp c') \<noteq> []"
    "ck_size c' = int (length (inv_into D sha (ck_fp c')))" by (auto simp: same_chunk_def)
qed

lemma data_chunks_same: "list_all2 same_chunk cs cs' \<Longrightarrow> list_all2 same_chunk (data_chunks cs) (data_chunks cs')"
  by (induction rule: list_all2_induct) (auto simp: data_chunks_def dest: same_chunk_signal)

lemma restored_input:
  assumes "list_all2 same_chunk cs cs'" "\<forall>c \<in> set cs. chunk_good SIMULATION_NO sha c" "inj_on sha D" "input_data cs \<subseteq> D"
  shows "map (\<lambda>cp. inv_into D sha (cp_fp cp)) (map ptr_of (data_chunks cs')) = map (\<lambda>c. the (ck_data c)) (data_chunks cs)"
proof -
  have "list_all2 (\<lambda>c c'. inv_into D sha (cp_fp (ptr_of c')) = the (ck_data c)) (data_chunks cs) (data_chunks cs')"
    using data_chunks_same [OF assms(1)]
  proof (rule list.rel_mono_strong)
    fix c c' assume c: "c \<in> set (data_chunks cs)" "same_chunk c c'" and "c' \<in> set (data_chunks cs')"
    then have "c \<in> set cs" "\<not> is_file_signal c" by (auto simp: data_chunks_def)
    with same_content(1) [OF c(2)] assms(2-4) show "inv_into D sha (cp_fp (ptr_of c')) = the (ck_data c)" by (simp add: ptr_of_def)
  qed
  then show ?thesis by (induction rule: list_all2_induct) auto
qed

lemma ptrs_served:
  assumes "list_all2 same_chunk cs cs'" "\<forall>c \<in> set cs. chunk_good SIMULATION_NO sha c" "inj_on sha D" "input_data cs \<subseteq> D"
    and "\<forall>c \<in> set cs'. resolved holds c"
    and "\<And>i fp. holds i fp \<Longrightarrow> \<exists>c \<in> set ws. get_container_id c = i \<and> lookup_fingerprint_in_container c fp"
    and "\<forall>c \<in> set ws. data_in_pool be st c" "\<forall>c \<in> set ws. con_good SIMULATION_NO sha c"
  shows "list_all (ptr_served (\<lambda>i. if i \<in> get_container_id ` set ws then retrieve_container_by_id be SIMULATION_NO st i else None)
     (inv_into D sha)) (map ptr_of (data_chunks cs'))"
proof -
  have "ptr_served (\<lambda>i. if i \<in> get_container_id ` set ws then retrieve_container_by_id be SIMULATION_NO st i else None)
     (inv_into D sha) (ptr_of c')" if c': "c' \<in> set (data_chunks cs')" for c'
  proof -
    have o: "c' \<in> set cs'" "\<not> is_file_signal c'" using c' by (auto simp: data_chunks_def)
    from list_all2_bwd [OF assms(1) o(1)] obtain c where c: "c \<in> set cs" "same_chunk c c'" by blast
    have ns: "\<not> is_file_signal c" using o(2) same_chunk_signal [OF c(2)] by simp
    note sc = same_content [OF c(2) ns _ assms(3,4) c(1)]
    from assms(5) o have "holds (ck_id c') (ck_fp c')" by (auto simp: resolved_def)
    from assms(6) [OF this] obtain w where w: "w \<in> set ws" "get_container_id w = ck_id c'" "lookup_fingerprint_in_container w (ck_fp c')" by blast
    from pool_container [of be st w] assms(7,8) w obtain con where
      "retrieve_container_by_id be SIMULATION_NO st (ck_id c') = Some con" "lookup_fingerprint_in_container con (ck_fp c')" by (auto simp: con_good_def)
    moreover have "ck_id c' \<in> get_container_id ` set ws" using w(1,2) by force
    ultimately show ?thesis using sc(2,3) assms(2) c(1) by (auto simp: ptr_served_def ptr_of_def)
  qed
  then show ?thesis by (auto simp: list_all_iff)
qed

lemma recipe_files_total:
  assumes "file_shape False cs = Some False"
  shows "sum_list (map fr_chunknum (fst (recipe_files None cs))) = int (length (data_chunks cs))"
  using recipe_files_count [of None cs] recipe_files_closed [of None cs False] assms by (simp add: open_chunks_def)

text \<open>A version whose chunks are those of \<open>cs\<close> in order, in a store \<open>ws\<close> that may hold containers of other versions
  too, whose data is in \<open>D\<close>.\<close>

lemma version_restored:
  assumes same: "list_all2 same_chunk cs out" and good: "\<forall>c \<in> set cs. chunk_good SIMULATION_NO sha c" "file_shape False cs = Some False"
    and one: "length (fst (recipe_files None cs)) = 1" and len: "int (length cs) \<le> 2 ^ 40"
    and D: "inj_on sha D" "input_data cs \<subseteq> D" "stored_data ws \<subseteq> D"
    and ws: "\<forall>c \<in> set ws. data_in_pool be pl c \<and> con_good SIMULATION_NO sha c"
    and out: "\<forall>c \<in> set out. resolved holds c" "\<And>i fp. holds i fp \<Longrightarrow> \<exists>c \<in> set ws. get_container_id c = i \<and> lookup_fingerprint_in_container c fp"
    and bv: "bv_holds be b0 st0 (fst (recipe_files None out)) segs" "concat segs = map ptr_of (data_chunks out)" "version_ok b0"
    and up: "update_backup_version be b0 st0 = (b1, st1)"
    and oe: "restore_conf oe" "re_be (oe_env oe) = be" "re_fetch (oe_env oe) = retrieve_container_by_id be SIMULATION_NO pl"
    and rst: "fresh_statics rst" "names_fit path (length (data_chunks cs))"
  shows "\<exists>ps jc. do_restore oe TEMPORARY_ID (free_backup_version b1 fs) rst (bv_num b0) path = Inr (ps, jc, 1)
     \<and> distinct (map fst ps)
     \<and> (\<forall>blpop. packets_delivered blpop ps \<longrightarrow>
          receive_group be blpop path 0 = Some (concat (map (\<lambda>c. the (ck_data c)) (data_chunks cs))))"
proof -
  let ?fetch = "\<lambda>i. if i \<in> get_container_id ` set ws then retrieve_container_by_id be SIMULATION_NO pl i else None"
  have fs: "fetch_sound (re_fetch (oe_env oe)) ?fetch (inv_into D sha)"
    unfolding oe(3) by (rule pool_sound [OF ws D(1,3)])
  have served: "list_all (ptr_served ?fetch (inv_into D sha)) (map ptr_of (data_chunks out))"
    using ptrs_served [OF same good(1) D(1,2) out] ws by simp
  from one obtain r where r: "fst (recipe_files None cs) = [r]" by (cases "fst (recipe_files None cs)") auto
  have n: "length (data_chunks cs) = length (data_chunks out)" using data_chunks_same [OF same] by (rule list_all2_lengthD)
  have cnt: "fr_chunknum r = int (length (concat segs))" using recipe_files_total [OF good(2)] r n bv(2) by simp
  have "length (data_chunks cs) \<le> length cs" by (simp add: data_chunks_def)
  with len bv r recipe_files_same [OF same, of None] n have ok: "bv_ok b0" "bv_deleted b0 = 0"
    by (auto simp: bv_ok_def version_ok_def bv_holds_def int64_range_def int32_range_def)
  have holds: "bv_holds (re_be (oe_env oe)) b0 st0 [r] segs" using bv(1) r recipe_files_same [OF same, of None] oe(2) by simp
  from restore_delivered [OF holds ok(1) up [folded oe(2)] ok(2) cnt rst(1) oe(1) fs _ _, of path fs] served oe(2) rst(2) n bv(2)
    restored_input [OF same good(1) D(1,2)]
  show ?thesis by auto
qed

definition ex_restore_env :: "container_store \<Rightarrow> optimal_env" where
  "ex_restore_env cs = (rx_restore RESTORE_CACHE_OPT)\<lparr>oe_env := (oe_env (rx_restore RESTORE_CACHE_OPT))\<lparr>re_fetch := retrieve_container_by_id False SIMULATION_NO cs\<rparr>\<rparr>"

lemma ex_restore_conf:
  "restore_conf (ex_restore_env cs)" "re_be (oe_env (ex_restore_env cs)) = False"
  "re_fetch (oe_env (ex_restore_env cs)) = retrieve_container_by_id False SIMULATION_NO cs"
  using rx_restore_conf [of RESTORE_CACHE_OPT]
  by (simp_all add: ex_restore_env_def restore_conf_def sequence_functions_def) (simp_all add: rx_restore_def)

lemma ex_stream:
  "data_chunks (sg_chunks ex_segment) = [ex_chunk 0 [1, 2, 3], ex_chunk 0 [1, 2, 3]]" "length (fst (recipe_files None (sg_chunks ex_segment))) = 1"
  "fresh_statics ex_statics" "names_fit [102] (length [ex_chunk 0 [1, 2, 3], ex_chunk 0 [1, 2, 3]])"
proof -
  have ch: "CHECK_CHUNK (ex_chunk f bs) g = (g AND f \<noteq> 0)" for f g bs
    by (simp add: ex_chunk_def CHECK_CHUNK_def and.commute)
  show "data_chunks (sg_chunks ex_segment) = [ex_chunk 0 [1, 2, 3], ex_chunk 0 [1, 2, 3]]" by (simp add: ex_segment_def data_chunks_def ch)
  show "length (fst (recipe_files None (sg_chunks ex_segment))) = 1" by (simp add: ex_segment_def ch)
qed (simp_all add: fresh_statics_def ex_statics_def names_fit_last decimal.simps MAX_OEC_FILENAME_LEN_def)

section \<open>A job restored\<close>

text \<open>What was backed up is what is restored. Take the first backup job of a store that has run
  to its end, with any interleaving of its phases; any run of the container store's two threads in
  which the containers of the job were handed over and the append thread has stopped; and the recipe
  updated and closed. A restore of that version, with any of the three restore caches, ends without
  a failed assertion, its packets have different names, and the client receives exactly the data of
  the chunks of the input, in order. The fingerprint function is assumed to have no collision among
  the data of the input; the job has one file, the only case the restore handles.\<close>

lemma backup_restored:
  assumes "start_ok sha j ptrs b0" "job_conf j" "simulation_level (jb_conf j) = SIMULATION_NO" "first_job b0"
    and "version_ok (fs_bv (bs_st b0))" "length (fst (recipe_files None (chunks_of (bs_todo b0)))) = 1"
    and "inj_on sha (input_data (chunks_of (bs_todo b0)))"
    and "backup_reach j ptrs b0 b" "bs_todo b = []" "bs_flight b = []" "filter_finish j (bs_st b) = Some st'"
    and "append_reach (jb_be j) ord SIMULATION_NO s" "\<And>t. mset (ord t) = mset t" "ap_pc s = Stopped" "ap_submitted s = fs_written st'"
    and "update_backup_version (jb_be j) (fs_bv st') (fs_statics st') = (b1, st1)"
    and "restore_conf oe" "re_be (oe_env oe) = jb_be j" "re_fetch (oe_env oe) = retrieve_container_by_id (jb_be j) SIMULATION_NO (ap_store s)"
    and "fresh_statics rst" "names_fit path (length (data_chunks (chunks_of (bs_todo b0))))"
  shows "\<exists>ps jc. do_restore oe TEMPORARY_ID (free_backup_version b1 fs) rst (bv_num (fs_bv (bs_st b0))) path = Inr (ps, jc, 1)
     \<and> distinct (map fst ps)
     \<and> (\<forall>blpop. packets_delivered blpop ps \<longrightarrow>
          receive_group (jb_be j) blpop path 0 = Some (concat (map (\<lambda>c. the (ck_data c)) (data_chunks (chunks_of (bs_todo b0))))))"
proof -
  let ?in = "chunks_of (bs_todo b0)" and ?ws = "fs_written st'"
  have inv: "backup_inv sha j ptrs (bs_todo b0) b" by (rule backup_inv_reach [OF assms(8,1,2)])
  have same: "list_all2 same_chunk ?in (chunks_of (bs_out b))" using inv assms(9,10) by (simp add: backup_inv_def)
  have good: "\<forall>c \<in> set ?in. chunk_good SIMULATION_NO sha c" "file_shape False ?in = Some False" "int (length ?in) \<le> 2 ^ 40"
    using assms(1,3,4) by (auto simp: start_ok_def input_ok_def first_job_def)
  have store: "store_inv SIMULATION_NO sha (bs_st b)" "\<forall>c \<in> set (chunks_of (bs_out b)). resolved (st_holds (bs_st b)) c"
    "bv_holds (jb_be j) (fs_bv (bs_st b)) (fs_statics (bs_st b)) (fst (recipe_files None (chunks_of (bs_out b)))) (ptrs_of (bs_out b))"
    using inv assms(3) by (auto simp: backup_inv_def filter_inv_def)
  from finish_ok [OF store(1), of j] assms(2,11) have fin: "fs_bv st' = fs_bv (bs_st b)" "fs_statics st' = fs_statics (bs_st b)"
    "\<forall>c \<in> set ?ws. con_good SIMULATION_NO sha c"
    "\<And>i fp. st_holds (bs_st b) i fp \<Longrightarrow> \<exists>c \<in> set ?ws. get_container_id c = i \<and> lookup_fingerprint_in_container c fp"
    by (auto simp: job_conf_def)
  have pool: "\<forall>c \<in> set ?ws. data_in_pool (jb_be j) (ap_store s) c \<and> con_good SIMULATION_NO sha c"
    using all_written_at_stop [where ord = ord, OF assms(12-14)] assms(15) fin(3) by (auto simp: in_pool_def)
  have D: "stored_data ?ws \<subseteq> input_data ?in"
    using stored_by_append(2) [where ord = ord, OF assms(1,2) _ assms(13,4,8,11)] assms(3) by (simp add: less_simulation_level_def)
  have v: "same_version (fs_bv (bs_st b0)) (fs_bv st')" using backup_version [OF assms(8)] fin(1) by simp
  then have vo: "version_ok (fs_bv st')" "bv_num (fs_bv st') = bv_num (fs_bv (bs_st b0))" using assms(5) by (simp_all add: same_version_def version_ok_def)
  show ?thesis
    using version_restored [where sha = sha and D = "input_data ?in", OF same good(1,2) assms(6) good(3) assms(7) order_refl D pool store(2) fin(4)
        store(3) [folded fin(1,2)] concat_ptrs_of vo(1) assms(16-21)] vo(2) by simp
qed

end
