(* ===== verification/Group_Roundtrip.thy ===== *)
theory Group_Roundtrip
  imports Group_Transfer End_To_End
begin

unbundle bit_operations_syntax

text \<open>
  The whole way of a group: sent by the client in packets, read, cut into chunks and fingerprinted by
  the server, segmented, deduplicated and stored, and sent back to the client by a restore.
\<close>

section \<open>From the packets to the segments\<close>

definition group_chunks ::
    "(byte list \<Rightarrow> fingerprint) \<Rightarrow> chunk_env \<Rightarrow> (byte list \<Rightarrow> byte list option) \<Rightarrow> byte list \<Rightarrow> nat \<Rightarrow> chunk_counts \<Rightarrow> chunk list option" where
  "group_chunks sha e blpop name sz cc = do {
     rs \<leftarrow> read_data (ce_be e) (ce_junk e) blpop name sz;
     (cs, _) \<leftarrow> chunk_thread e rs cc;
     sha1_thread sha cs
   }"

definition hashed :: "(byte list \<Rightarrow> fingerprint) \<Rightarrow> chunk \<Rightarrow> chunk" where
  "hashed sha c = c\<lparr>ck_fp := sha (the (ck_data c))\<rparr>"

lemma signal_flags [flag_simps]:
  "CHECK_CHUNK (start_signal junk name) CHUNK_FILE_START" "\<not> CHECK_CHUNK (start_signal junk name) CHUNK_FILE_END"
  "CHECK_CHUNK (end_signal junk) CHUNK_FILE_END" "\<not> CHECK_CHUNK (end_signal junk) CHUNK_FILE_START"
  by (simp_all add: start_signal_def end_signal_def flag_simps)

lemma data_block_ok: "bs \<noteq> [] \<Longrightarrow> length bs \<le> DEFAULT_BLOCK_SIZE \<Longrightarrow> block_ok (data_block junk bs)" "chunk_bytes (data_block junk bs) = Some bs"
  by (auto simp: block_ok_def data_block_def chunk_bytes_def new_chunk_def CHECK_CHUNK_def)

text \<open>A chunk as the chunk phase delivers it.\<close>

definition cut_chunk :: "chunk_env \<Rightarrow> chunk \<Rightarrow> bool" where
  "cut_chunk e c = (\<exists>d. d \<noteq> [] \<and> int (length d) \<le> chunk_max_size (ce_conf e) \<and> c = (new_chunk (ce_junk e) (int (length d)))\<lparr>ck_data := Some d\<rparr>)"

lemma cut_chunk_hashed:
  assumes "cut_chunk e c"
  shows "\<not> CHECK_CHUNK c f" "\<not> CHECK_CHUNK (hashed sha c) f" "sha1_chunk sha c = Some (hashed sha c)"
    "\<exists>d. ck_data (hashed sha c) = Some d \<and> ck_data c = Some d \<and> d \<noteq> [] \<and> ck_size (hashed sha c) = int (length d)
       \<and> int (length d) \<le> chunk_max_size (ce_conf e) \<and> ck_fp (hashed sha c) = sha d \<and> ck_id (hashed sha c) = TEMPORARY_ID"
  using assms by (auto simp: cut_chunk_def hashed_def sha1_chunk_def chunk_bytes_def flag_simps new_chunk_def) (simp_all add: CHECK_CHUNK_def)

lemma group_chunks_ok:
  assumes "packets_delivered blpop (send_packets (ce_be e) name data 0 0)" "length data < 2 ^ 32" "chunk_conf e"
  shows "\<exists>cs. group_chunks sha e blpop name (length data) cc = Some (start_signal (ce_junk e) name # map (hashed sha) cs @ [end_signal (ce_junk e)])
     \<and> cut_of e data cs"
proof -
  let ?st = "start_signal (ce_junk e) name" and ?en = "end_signal (ce_junk e)"
  let ?f = "(?st, map (data_block (ce_junk e)) (blocks_of data), ?en)"
  have f: "list_all file_in [?f]"
    using blocks_of_props(2) [of data] data_block_ok(1) by (simp add: file_in_def signal_flags list_all_iff)
  have "map (\<lambda>c. the (chunk_bytes c)) (map (data_block (ce_junk e)) (blocks_of data)) = blocks_of data"
    by (simp add: data_block_ok(2) comp_def)
  then have b: "blocks_bytes (map (data_block (ce_junk e)) (blocks_of data)) = data" by (simp add: blocks_bytes_def blocks_of_props(1) comp_def)
  from chunk_thread_ok [OF assms(3) f, of cc] obtain cs cc' where
    c: "chunk_thread e (?st # map (data_block (ce_junk e)) (blocks_of data) @ [?en]) cc = Some (?st # cs @ [?en], cc')" "cut_of e data cs"
    by (auto simp: file_stream_def list_all2_Cons1 b)
  have "sha1_thread sha (?st # cs @ [?en]) = Some (map (\<lambda>c. if is_file_signal c then c else hashed sha c) (?st # cs @ [?en]))"
    unfolding sha1_thread_def
  proof (rule map_opt_all)
    fix x assume "x \<in> set (?st # cs @ [?en])"
    then consider "is_file_signal x" | "cut_chunk e x" using c(2) by (auto simp: signal_flags cut_of_def cut_chunk_def)
    then show "sha1_chunk sha x = Some (if is_file_signal x then x else hashed sha x)"
    proof cases
      case 2
      then show ?thesis using cut_chunk_hashed(1) [OF 2] cut_chunk_hashed(3) [OF 2, of sha] by simp
    qed (simp add: sha1_chunk_def)
  qed
  moreover have "map (\<lambda>c. if is_file_signal c then c else hashed sha c) (?st # cs @ [?en]) = ?st # map (hashed sha) cs @ [?en]"
    using c(2) cut_chunk_hashed(1) [of e] by (auto simp: signal_flags cut_of_def cut_chunk_def)
  ultimately have "sha1_thread sha (?st # cs @ [?en]) = Some (?st # map (hashed sha) cs @ [?en])" by (simp only:)
  with c read_data_ok [OF assms(1,2)] show ?thesis by (auto simp: group_chunks_def intro!: exI [of _ cs])
qed

section \<open>The segments are a valid input of a backup job\<close>

lemma cut_of_length: "cut_of e bs cs \<Longrightarrow> length cs \<le> length bs"
proof (induction cs arbitrary: bs)
  case (Cons c cs)
  then have c: "cut_of e (concat (map (\<lambda>c. the (ck_data c)) cs)) cs" "the (ck_data c) \<noteq> []"
    "bs = the (ck_data c) @ concat (map (\<lambda>c. the (ck_data c)) cs)" by (auto simp: cut_of_def)
  from Cons.IH [OF c(1)] c(2,3) show ?case by (cases "the (ck_data c)") simp_all
qed simp

lemma recipe_cut:
  assumes "\<forall>c \<in> set cs. cut_chunk e c"
  shows "recipe_files (Some r) (map (hashed sha) cs @ [end_signal junk]) =
     ([r\<lparr>fr_chunknum := fr_chunknum r + int (length cs),
         fr_filesize := fr_filesize r + int (length (concat (map (\<lambda>c. the (ck_data c)) cs)))\<rparr>], None)"
  using assms
proof (induction cs arbitrary: r)
  case Nil
  then show ?case by (simp add: signal_flags)
next
  case (Cons c cs)
  then have c: "cut_chunk e c" by simp
  from cut_chunk_hashed(4) [OF c, of sha] have "ck_size (hashed sha c) = int (length (the (ck_data c)))" by auto
  with Cons cut_chunk_hashed(2) [OF c] show ?case by (simp add: add.assoc)
qed

lemma shape_cut:
  assumes "\<forall>c \<in> set cs. cut_chunk e c"
  shows "file_shape True (map (hashed sha) cs @ [end_signal junk]) = Some False"
  using assms by (induction cs) (auto simp: signal_flags dest: cut_chunk_hashed(2))

lemma segments_short:
  "s \<in> set ss \<Longrightarrow> length (data_chunks (sg_chunks s)) \<le> length (chunks_of ss)"
proof -
  assume "s \<in> set ss"
  then have "length (sg_chunks s) \<le> length (chunks_of ss)"
    by (auto simp: chunks_of_def length_concat intro: member_le_sum_list)
  then show ?thesis by (simp add: data_chunks_def) (meson le_trans length_filter_le)
qed

lemma group_input_ok:
  assumes "cut_of e data cs" "chunk_max_size (ce_conf e) \<le> int CONTAINER_SIZE - int CONTAINER_META_SIZE" "\<And>bs. length (sha bs) = 20"
    and "length data < 2 ^ 31 - 2" "0 \<notin> set name" "20 + length name \<le> metabufsize"
    and "chunks_of ss = start_signal junk name # map (hashed sha) cs @ [end_signal junk]" "\<forall>s \<in> set ss. segment_wf s"
  shows "input_ok sha j ss" "length (fst (recipe_files None (chunks_of ss))) = 1"
    "concat (map (\<lambda>c. the (ck_data c)) (data_chunks (chunks_of ss))) = data" "length (data_chunks (chunks_of ss)) \<le> length data"
    "length (chunks_of ss) \<le> length data + 2"
proof -
  let ?st = "start_signal junk name" and ?en = "end_signal junk"
  have cc: "\<forall>c \<in> set cs. cut_chunk e c" and dat: "concat (map (\<lambda>c. the (ck_data c)) cs) = data"
    using assms(1) by (auto simp: cut_of_def cut_chunk_def)
  have hd: "the (ck_data (hashed sha c)) = the (ck_data c)" for c by (simp add: hashed_def)
  have st: "ck_data ?st = Some (name @ [0])" by (simp add: start_signal_def)
  have tw: "takeWhile (\<lambda>b. b \<noteq> 0) (name @ [0]) = name" using assms(5) by (induction name) auto
  have "filter (\<lambda>c. \<not> is_file_signal c) (map (hashed sha) cs) = map (hashed sha) cs"
    using cc cut_chunk_hashed(2) by (simp add: filter_id_conv) blast
  then have dc: "data_chunks (chunks_of ss) = map (hashed sha) cs" unfolding assms(7) by (simp add: data_chunks_def signal_flags)
  show "concat (map (\<lambda>c. the (ck_data c)) (data_chunks (chunks_of ss))) = data" using dat by (simp add: dc comp_def hd)
  show "length (data_chunks (chunks_of ss)) \<le> length data" using cut_of_length [OF assms(1)] by (simp add: dc)
  show len: "length (chunks_of ss) \<le> length data + 2" using cut_of_length [OF assms(1)] by (simp add: assms(7))
  have rf: "recipe_files None (chunks_of ss) = ([\<lparr>fr_chunknum = int (length cs), fr_filesize = int (length data), fr_filename = name\<rparr>], None)"
    using recipe_cut [OF cc, of "new_file_recipe_meta (name @ [0])" sha junk] dat by (simp add: assms(7) st new_file_recipe_meta_def tw)
  then show "length (fst (recipe_files None (chunks_of ss))) = 1" by simp
  have "segment_wf s \<and> int32_range (sg_chunk_num s)" if "s \<in> set ss" for s
    using assms(8) that segments_short [OF that] len assms(4) by (auto simp: segment_wf_def int32_range_def)
  moreover have "chunk_good sim sha c \<and> fresh_chunk c \<and> unmarked c" if "c \<in> set (chunks_of ss)" for c sim
  proof -
    from that have "c \<in> {?st, ?en} \<union> hashed sha ` set cs" by (simp add: assms(7))
    then consider "c = ?st \<or> c = ?en" | x where "cut_chunk e x" "c = hashed sha x" using cc by blast
    then show ?thesis
    proof cases
      case 1
      then show ?thesis
        by (auto simp: chunk_good_def fresh_chunk_def unmarked_def signal_flags) (simp_all add: start_signal_def end_signal_def flag_simps)
    next
      case 2
      note h = cut_chunk_hashed(2) [OF 2(1), of sha]
      from cut_chunk_hashed(4) [OF 2(1), of sha] obtain d where
        d: "ck_data c = Some d" "d \<noteq> []" "ck_size c = int (length d)" "int (length d) \<le> chunk_max_size (ce_conf e)" "ck_fp c = sha d" "ck_id c = TEMPORARY_ID"
        by (auto simp: 2(2))
      from d assms(2,3) h show ?thesis unfolding 2(2) [symmetric] by (auto simp: chunk_good_def fresh_chunk_def unmarked_def 2(2))
    qed
  qed
  moreover have "file_shape False (chunks_of ss) = Some False" using shape_cut [OF cc] by (simp add: assms(7) st signal_flags)
  moreover have "file_ok \<lparr>fr_chunknum = int (length cs), fr_filesize = int (length data), fr_filename = name\<rparr>"
    using assms(4-6) cut_of_length [OF assms(1)] by (simp add: file_ok_def int64_range_def)
  ultimately show "input_ok sha j ss" by (simp add: input_ok_def rf)
qed

section \<open>The round trip\<close>

text \<open>A backup job run to its end: the version it leaves, and the pool when the append thread has
  stopped.\<close>

definition backup_run ::
    "job \<Rightarrow> chunkPointer set \<Rightarrow> ((fingerprint \<times> metaEntry) list \<Rightarrow> (fingerprint \<times> metaEntry) list) \<Rightarrow> backup_sys \<Rightarrow>
     backupVersion \<Rightarrow> container_store \<Rightarrow> bool" where
  "backup_run j ptrs ord b0 bv cs = (\<exists>b st' s st1. backup_reach j ptrs b0 b \<and> bs_todo b = [] \<and> bs_flight b = []
     \<and> filter_finish j (bs_st b) = Some st' \<and> append_reach (jb_be j) ord SIMULATION_NO s \<and> ap_pc s = Stopped
     \<and> ap_submitted s = fs_written st' \<and> update_backup_version (jb_be j) (fs_bv st') (fs_statics st') = (bv, st1) \<and> cs = ap_store s)"

text \<open>The group a client may send: not empty, below the limits of the counters, and with a name that
  fits the buffers of the recipe and of the restore.\<close>

definition group_fits :: "byte list \<Rightarrow> byte list \<Rightarrow> bool" where
  "group_fits name data = (data \<noteq> [] \<and> length data < 2 ^ 31 - 2 \<and> 0 \<notin> set name \<and> 20 + length name \<le> metabufsize \<and> names_fit name (length data))"

lemma start_ok_input:
  assumes "start_ok sha j ptrs b0" "input_ok sha j ss" "fs_count (bs_st b0) + int (length (chunks_of ss)) \<le> 2 ^ 40"
  shows "start_ok sha j ptrs (b0\<lparr>bs_todo := ss\<rparr>)"
  using assms by (simp add: start_ok_def)


section \<open>An example\<close>

lemma one_segment_run:
  assumes "start_ok sha j {} b0" "job_conf j" "simulation_level (jb_conf j) = SIMULATION_NO" "first_job b0" "bs_todo b0 = [s]" "sg_chunk_num s > 0"
    and "index_lookup (jb_be j) (jb_ord j) ex_units (jb_conf j) (jb_threshold j) (fs_buffer (bs_st b0)) s (fs_ix (bs_st b0)) = Some (True, s', ix)"
  shows "\<exists>bv pool. backup_run j {} id b0 bv pool"
proof -
  let ?b = "b0\<lparr>bs_todo := [], bs_flight := bs_flight b0 @ [s'], bs_st := (bs_st b0)\<lparr>fs_ix := ix\<rparr>\<rparr>"
  have "backup_step j {} b0 ?b"
    by (rule backup_step.dedup_segment [OF assms(5) _ _ assms(7)]) (use assms(6) in \<open>simp_all add: units_from_def ex_units_def\<close>)
  with backup_reach.start have r: "backup_reach j {} b0 ?b" by (rule backup_reach.step)
  have f: "bs_flight ?b = [s']" using assms(1) by (simp add: start_ok_def)
  have inv: "backup_inv sha j {} [s] ?b" using backup_inv_reach [OF r assms(1,2)] assms(5) by simp
  have "input_ok sha j [s]" using assms(1,5) by (simp add: start_ok_def)
  from backup_inv_filter [OF inv this assms(2) f] obtain full s2 st where s2: "filter_segment j s' (bs_st ?b) = Some (full, s2, st)" by blast
  let ?b2 = "?b\<lparr>bs_flight := [], bs_out := bs_out ?b @ [s2], bs_st := st\<rparr>"
  have "backup_reach j {} b0 ?b2" "bs_todo ?b2 = []" "bs_flight ?b2 = []"
    using backup_reach.step [OF r backup_step.filter_step [OF f s2]] by simp_all
  then obtain b where b: "backup_reach j {} b0 b" "bs_todo b = []" "bs_flight b = []" by blast
  have "store_inv SIMULATION_NO sha (bs_st b)" using backup_inv_reach [OF b(1) assms(1,2)] assms(3) by (simp add: backup_inv_def filter_inv_def)
  from finish_ok [OF this, of j] assms(2) obtain st' where st': "filter_finish j (bs_st b) = Some st'" by (auto simp: job_conf_def)
  from stored_by_append(1) [where ord = id and be = "jb_be j", OF assms(1,2) _ _ assms(4) b(1) st'] assms(3) obtain ap where
    "append_reach (jb_be j) id SIMULATION_NO ap" "ap_pc ap = Stopped" "ap_submitted ap = fs_written st'" by (auto simp: less_simulation_level_def)
  moreover obtain bv st1 where "update_backup_version (jb_be j) (fs_bv st') (fs_statics st') = (bv, st1)" by force
  ultimately show ?thesis using b st' unfolding backup_run_def by blast
qed

definition ex_group_env :: chunk_env where
  "ex_group_env = (ex_chunk_env CHUNK_FIXED)"

definition ex_group_segment :: segment where
  "ex_group_segment = new_segment\<lparr>sg_chunks := [ex_chunk CHUNK_FILE_START [102, 0], ex_chunk 0 [7], ex_chunk CHUNK_FILE_END []], sg_chunk_num := 1\<rparr>"

lemma ex_group_segments:
  "segment_stream (segmenting False ex_conf) [ex_chunk CHUNK_FILE_START [102, 0], ex_chunk 0 [7], ex_chunk CHUNK_FILE_END []] None = [ex_group_segment]"
proof -
  have c: "CHECK_CHUNK (ex_chunk f bs) g = (g AND f \<noteq> 0)" for f g bs by (simp add: ex_chunk_def CHECK_CHUNK_def and.commute)
  show ?thesis
    by (simp add: segmenting_def ex_conf_def destor_start_config_def segment_fixed_def cur_segment_def seg_append_def seg_count_def c
        ex_group_segment_def new_segment_def Let_def)
qed

lemma ex_group_lookup:
  "\<exists>s ix. index_lookup (jb_be ex_job) (jb_ord ex_job) ex_units (jb_conf ex_job) (jb_threshold ex_job) None ex_group_segment ex_index = Some (True, s, ix)"
proof -
  have "(case index_lookup (jb_be ex_job) (jb_ord ex_job) ex_units (jb_conf ex_job) (jb_threshold ex_job) None ex_group_segment ex_index of
      Some (True, s, ix) \<Rightarrow> True | _ \<Rightarrow> False)" by code_simp
  then show ?thesis by (auto split: option.splits prod.splits bool.splits)
qed

lemma ex_group_input: "input_ok ex_sha ex_job [ex_group_segment]"
proof -
  have u: "chunks_of [ex_group_segment] = sg_chunks ex_group_segment" by simp
  have c: "CHECK_CHUNK (ex_chunk f bs) g = (g AND f \<noteq> 0)" for f g bs by (simp add: ex_chunk_def CHECK_CHUNK_def and.commute)
  show ?thesis unfolding input_ok_def u
    by (simp add: ex_group_segment_def segment_wf_def data_chunks_def c int32_range_def chunk_good_def fresh_chunk_def unmarked_def
        CONTAINER_SIZE_def CONTAINER_META_SIZE_def new_file_recipe_meta_def file_ok_def int64_range_def metabufsize_def)
       (simp add: ex_chunk_def ex_sha_def)
qed

lemma ex_group_cut:
  assumes "cut_of e [7] cs"
  shows "map (hashed ex_sha) cs = [ex_chunk 0 [7]]"
proof -
  from assms obtain c where c: "cs = [c]" using cut_of_length [OF assms] by (cases cs) (auto simp: cut_of_def)
  with assms show ?thesis by (auto simp: cut_of_def hashed_def ex_chunk_def new_chunk_def)
qed

lemma ex_signals: "start_signal junk [102] = ex_chunk CHUNK_FILE_START [102, 0]" "end_signal junk = ex_chunk CHUNK_FILE_END []"
  by (simp_all add: start_signal_def end_signal_def ex_chunk_def new_chunk_def SET_CHUNK_def)

lemma ex_group_phase: "\<exists>e'. start_chunk_phase (ex_chunk_env CHUNK_FIXED) = Some e' \<and> ce_be e' = False"
  by (simp add: start_chunk_phase_def ex_chunk_env_def CONTAINER_SIZE_def CONTAINER_META_SIZE_def)


end
