(* ===== verification/Text_Format.thy ===== *)
theory Text_Format
  imports Restore
begin

text \<open>
  Numbers in text files: what \<open>fprintf\<close> writes for \<open>%d\<close> and \<open>%lld\<close> and what \<open>fscanf\<close>, \<open>sscanf\<close> and
  \<open>atoi\<close> read for them. Numbers are in the range of their type.
\<close>

section \<open>Printing and scanning\<close>

definition print_int :: "int \<Rightarrow> byte list" where
  "print_int i = (if i < 0 then 45 # decimal (nat (- i)) else decimal (nat i))"

definition is_digit :: "byte \<Rightarrow> bool" where
  "is_digit b = (48 \<le> b \<and> b \<le> 57)"

definition is_space :: "byte \<Rightarrow> bool" where
  "is_space b = (b = 32 \<or> 9 \<le> b \<and> b \<le> 13)"

definition digits_value :: "byte list \<Rightarrow> int" where
  "digits_value ds = fold (\<lambda>d n. 10 * n + (uint d - 48)) ds 0"

definition scan_digits :: "byte list \<Rightarrow> (int \<times> byte list) option" where
  "scan_digits bs = (let ds = takeWhile is_digit bs in
     if ds = [] then None else Some (digits_value ds, dropWhile is_digit bs))"

definition scan_int :: "byte list \<Rightarrow> (int \<times> byte list) option" where
  "scan_int bs = (case dropWhile is_space bs of
     [] \<Rightarrow> None
   | b # r \<Rightarrow>
       if b = 45 then map_option (\<lambda>(n, r). (- n, r)) (scan_digits r)
       else if b = 43 then scan_digits r
       else scan_digits (b # r))"

definition scan_char :: "byte \<Rightarrow> byte list \<Rightarrow> byte list option" where
  "scan_char c bs = (case bs of b # r \<Rightarrow> if b = c then Some r else None | [] \<Rightarrow> None)"

definition atoi :: "byte list \<Rightarrow> int" where
  "atoi bs = (case scan_int bs of None \<Rightarrow> 0 | Some (i, _) \<Rightarrow> i)"

text \<open>The part of a buffer up to its zero byte, and literal texts.\<close>

definition cstring :: "byte list \<Rightarrow> byte list" where
  "cstring bs = takeWhile (\<lambda>b. b \<noteq> 0) bs"

abbreviation text_bytes :: "string \<Rightarrow> byte list" where "text_bytes s \<equiv> map of_char s"

section \<open>What was printed is read back\<close>

text \<open>Statements on hexadecimal digits are checked for the sixteen values.\<close>

lemma nibble_cases: "list_all P (map of_nat [0..<16]) \<Longrightarrow> d < (16 :: byte) \<Longrightarrow> P d"
proof -
  assume a: "list_all P (map of_nat [0..<16])" "d < (16 :: byte)"
  then have "d = of_nat (unat d)" "unat d < 16" by (simp_all add: word_less_nat_alt)
  then have "d \<in> of_nat ` {0..<16}" by (intro image_eqI [of _ _ "unat d"]) simp_all
  with a(1) show "P d" by (auto simp: list_all_iff simp del: upt_rec_numeral)
qed

lemma cstring_all: "0 \<notin> set bs \<Longrightarrow> cstring (bs @ [0]) = bs" "0 \<notin> set bs \<Longrightarrow> cstring bs = bs"
proof -
  show "0 \<notin> set bs \<Longrightarrow> cstring (bs @ [0]) = bs" unfolding cstring_def by (subst takeWhile_append2) auto
  show "0 \<notin> set bs \<Longrightarrow> cstring bs = bs" by (auto simp: cstring_def takeWhile_eq_all_conv)
qed

lemma digit_byte: "n < 10 \<Longrightarrow> is_digit (of_nat (48 + n)) \<and> uint (of_nat (48 + n) :: byte) = 48 + int n"
proof -
  assume "n < 10"
  then have "n \<in> {0, 1, 2, 3, 4, 5, 6, 7, 8, 9}" by auto
  then show ?thesis by (auto simp: is_digit_def)
qed

lemma decimal_digits: "list_all is_digit (decimal n)" "decimal n \<noteq> []" "digits_value (decimal n) = int n"
proof (induction n rule: decimal.induct)
  case (1 n)
  have m: "n mod 10 < 10" by simp
  note d = digit_byte [OF m]
  { case 1 show ?case using "1.IH"(1) d by (subst decimal.simps) simp }
  { case 2 show ?case by (subst decimal.simps) simp }
  { case 3
    have "digits_value (xs @ [x]) = 10 * digits_value xs + (uint x - 48)" for xs x by (simp add: digits_value_def)
    moreover have "10 * int (n div 10) + int (n mod 10) = int n" by presburger
    ultimately show ?case using "1.IH"(3) d by (subst decimal.simps) (simp add: digits_value_def [of "[]"]) }
qed

lemma scan_digits_decimal:
  assumes "r = [] \<or> \<not> is_digit (hd r)"
  shows "scan_digits (decimal n @ r) = Some (int n, r)"
proof -
  have "takeWhile is_digit (decimal n @ r) = decimal n" "dropWhile is_digit (decimal n @ r) = r"
    using decimal_digits(1) [of n] assms by (cases r; auto simp: takeWhile_append dropWhile_append list_all_iff)+
  then show ?thesis using decimal_digits(2,3) by (simp add: scan_digits_def)
qed

lemma digit_class: "is_digit b \<Longrightarrow> \<not> is_space b \<and> b \<noteq> 45 \<and> b \<noteq> 43"
  by (auto simp: is_digit_def is_space_def word_le_nat_alt)

lemma scan_print:
  assumes "r = [] \<or> \<not> is_digit (hd r)" "list_all is_space ws"
  shows "scan_int (ws @ print_int i @ r) = Some (i, r)"
proof -
  obtain d ds where d: "decimal (nat \<bar>i\<bar>) = d # ds" using decimal_digits(2) by (cases "decimal (nat \<bar>i\<bar>)") auto
  have "is_digit d" using decimal_digits(1) [of "nat \<bar>i\<bar>"] d by simp
  note dc = digit_class [OF this]
  have w: "dropWhile is_space (ws @ b # xs) = b # xs" if "\<not> is_space b" for b xs
    using assms(2) that by (simp add: dropWhile_append2 list_all_iff)
  have m: "\<not> is_space 45" by (simp add: is_space_def)
  show ?thesis
  proof (cases "i < 0")
    case True
    with scan_digits_decimal [OF assms(1), of "nat \<bar>i\<bar>"] w [OF m] show ?thesis by (simp add: scan_int_def print_int_def)
  next
    case False
    with scan_digits_decimal [OF assms(1), of "nat \<bar>i\<bar>"] d dc w [of d] show ?thesis by (simp add: scan_int_def print_int_def)
  qed
qed

lemma scan_int_shorter: "scan_int bs = Some (i, r) \<Longrightarrow> length r < length bs"
proof -
  assume s: "scan_int bs = Some (i, r)"
  have d: "length r < length xs" if "scan_digits xs = Some (j, r)" for xs j
  proof -
    from that have "takeWhile is_digit xs \<noteq> []" "r = dropWhile is_digit xs" by (auto simp: scan_digits_def Let_def split: if_splits)
    moreover have "length xs = length (takeWhile is_digit xs) + length (dropWhile is_digit xs)"
      by (metis length_append takeWhile_dropWhile_id)
    ultimately show ?thesis by simp
  qed
  have "length (dropWhile is_space bs) \<le> length bs" by (rule length_dropWhile_le)
  with s d show ?thesis by (fastforce simp: scan_int_def split: list.splits if_splits)
qed

lemma scan_char_shorter: "scan_char c bs = Some r \<Longrightarrow> length r < length bs"
  by (auto simp: scan_char_def split: list.splits if_splits)

section \<open>Lines\<close>

definition fgets :: "nat \<Rightarrow> byte list \<Rightarrow> (byte list \<times> byte list) option" where
  "fgets n bs =
     (if bs = [] then None
      else (let k = length (takeWhile (\<lambda>b. b \<noteq> 10) bs) in
            if k + 1 < n then Some (take (Suc k) bs, drop (Suc k) bs) else Some (take (n - 1) bs, drop (n - 1) bs)))"

lemma fgets_shorter: "1 < n \<Longrightarrow> fgets n bs = Some (l, r) \<Longrightarrow> length r < length bs"
  by (cases bs) (auto simp: fgets_def Let_def split: if_splits)

lemma decimal_bytes: "10 \<notin> set (decimal n)"
  using decimal_digits(1) [of n] by (auto simp: list_all_iff is_digit_def)

lemma print_int_line: "10 \<notin> set (print_int i)"
  using decimal_bytes by (simp add: print_int_def)

lemma decimal_length: "n < 10 ^ Suc k \<Longrightarrow> length (decimal n) \<le> Suc k"
proof (induction k arbitrary: n)
  case 0
  then show ?case by (subst decimal.simps) simp
next
  case (Suc k)
  then have "length (decimal (n div 10)) \<le> Suc k" by (intro Suc.IH) (simp add: div_less_iff_less_mult)
  then show ?case by (subst decimal.simps) simp
qed

lemma print_int_length: "int64_range i \<Longrightarrow> length (print_int i) \<le> 20"
proof -
  assume "int64_range i"
  then have "nat \<bar>i\<bar> < 10 ^ Suc 18" by (auto simp: int64_range_def nat_less_iff abs_le_iff)
  from decimal_length [OF this] have "length (decimal (nat \<bar>i\<bar>)) \<le> 19" by simp
  then show ?thesis by (cases "i < 0") (auto simp: print_int_def)
qed

lemma fgets_text:
  assumes "10 \<notin> set l" "length l + 1 < n"
  shows "fgets n (l @ [10] @ r) = Some (l @ [10], r)"
proof -
  have t: "takeWhile (\<lambda>b. b \<noteq> 10) (l @ [10] @ r) = l" using assms(1) by (subst takeWhile_append2) auto
  show ?thesis unfolding fgets_def t using assms(2) by simp
qed

end
