(* ===== verification/Sds.thy ===== *)
theory Sds
  imports Text_Format
begin

text \<open>
  The operations of the string library (\<^verbatim>\<open>src/destor/src/utils/sds.c\<close>) that read the configuration file: splitting
  a text into lines, trimming, and splitting a line into arguments with quotes; and \<open>sdscatrepr\<close>, which writes
  an argument in quotes. An \<open>sds\<close> string is the list of its bytes; a pointer into a string that ends with a zero
  byte is the list of the bytes up to it, \<open>[]\<close> when it points to the zero.
\<close>

section \<open>Operations\<close>

definition tolower :: "byte \<Rightarrow> byte" where
  "tolower b = (if 65 \<le> b \<and> b \<le> 90 then b + 32 else b)"

definition sdstolower :: "byte list \<Rightarrow> byte list" where
  "sdstolower s = map tolower s"

definition strcasecmp :: "byte list \<Rightarrow> byte list \<Rightarrow> bool" where
  "strcasecmp a b = (map tolower (cstring a) = map tolower (cstring b))"

text \<open>\<open>sdssplitlen\<close> with a separator of one byte, as it is called; an empty text has no parts.\<close>

fun split_at_byte :: "byte \<Rightarrow> byte list \<Rightarrow> byte list \<Rightarrow> byte list list" where
  "split_at_byte sep cur [] = [rev cur]"
| "split_at_byte sep cur (b # s) = (if b = sep then rev cur # split_at_byte sep [] s else split_at_byte sep (b # cur) s)"

definition sdssplitlen :: "byte list \<Rightarrow> byte \<Rightarrow> byte list list" where
  "sdssplitlen s sep = (if s = [] then [] else split_at_byte sep [] s)"

text \<open>\<open>strchr\<close> finds the zero byte at the end of the set too.\<close>

definition sdstrim :: "byte list \<Rightarrow> byte list \<Rightarrow> byte list" where
  "sdstrim s cset = (let trim = dropWhile (\<lambda>b. b \<in> set cset \<or> b = 0) in rev (trim (rev (trim s))))"

definition isxdigit :: "byte \<Rightarrow> bool" where
  "isxdigit b = (is_digit b \<or> 65 \<le> b \<and> b \<le> 70 \<or> 97 \<le> b \<and> b \<le> 102)"

definition hex_digit_to_int :: "byte \<Rightarrow> byte" where
  "hex_digit_to_int c = (if is_digit c then c - 48 else if 97 \<le> c \<and> c \<le> 102 then c - 87
     else if 65 \<le> c \<and> c \<le> 70 then c - 55 else 0)"

definition isprint :: "byte \<Rightarrow> bool" where
  "isprint b = (32 \<le> b \<and> b \<le> 126)"

definition repr_byte :: "byte \<Rightarrow> byte list" where
  "repr_byte b = (if b = 92 \<or> b = 34 then [92, b]
     else if b = 10 then [92, 110] else if b = 13 then [92, 114] else if b = 9 then [92, 116]
     else if b = 7 then [92, 97] else if b = 8 then [92, 98]
     else if isprint b then [b]
     else [92, 120] @ map (\<lambda>d. if d < 10 then d + 48 else d + 87) [b div 16, b mod 16])"

definition sdscatrepr :: "byte list \<Rightarrow> byte list \<Rightarrow> byte list" where
  "sdscatrepr s p = s @ [34] @ concat (map repr_byte p) @ [34]"

datatype quoting = Plain | Inq | Insq

definition hex_escape :: "byte list \<Rightarrow> (byte \<times> byte list) option" where
  "hex_escape p = (case p of
      c # h # l # r \<Rightarrow> if c = 120 \<and> isxdigit h \<and> isxdigit l then Some (hex_digit_to_int h * 16 + hex_digit_to_int l, r) else None
    | _ \<Rightarrow> None)"

definition escaped :: "byte \<Rightarrow> byte" where
  "escaped c = (if c = 110 then 10 else if c = 114 then 13 else if c = 116 then 9 else if c = 98 then 8 else if c = 97 then 7 else c)"

abbreviation with_byte :: "byte \<Rightarrow> (byte list \<times> byte list) option \<Rightarrow> (byte list \<times> byte list) option" where
  "with_byte b \<equiv> map_option (\<lambda>(t, p). (b # t, p))"

text \<open>The inner loop of \<open>sdssplitargs\<close>: the rest of a token and the text after it.\<close>

lemma hex_escape_shorter: "hex_escape p = Some (x, r) \<Longrightarrow> length r < length p"
  by (auto simp: hex_escape_def split: list.splits if_splits)

function next_token :: "quoting \<Rightarrow> byte list \<Rightarrow> (byte list \<times> byte list) option" where
  "next_token q [] = (if q = Plain then Some ([], []) else None)"
| "next_token Plain (b # p) =
     (if b = 32 \<or> b = 10 \<or> b = 13 \<or> b = 9 then Some ([], p)
      else if b = 34 then next_token Inq p
      else if b = 39 then next_token Insq p
      else with_byte b (next_token Plain p))"
| "next_token Inq (b # p) =
     (if b = 92
      then (case hex_escape p of
              Some (x, r) \<Rightarrow> with_byte x (next_token Inq r)
            | None \<Rightarrow> (case p of [] \<Rightarrow> with_byte b (next_token Inq []) | c # r \<Rightarrow> with_byte (escaped c) (next_token Inq r)))
      else if b = 34 then (if p \<noteq> [] \<and> \<not> is_space (hd p) then None else Some ([], p))
      else with_byte b (next_token Inq p))"
| "next_token Insq (b # p) =
     (if b = 92 \<and> p \<noteq> [] \<and> hd p = 39 then with_byte 39 (next_token Insq (tl p))
      else if b = 39 then (if p \<noteq> [] \<and> \<not> is_space (hd p) then None else Some ([], p))
      else with_byte b (next_token Insq p))"
  by pat_completeness auto
termination
  by (relation "measure (\<lambda>(_, p). length p)") (auto dest: hex_escape_shorter)

lemma next_token_shorter: "next_token q p = Some (t, r) \<Longrightarrow> length r \<le> length p \<and> (p \<noteq> [] \<longrightarrow> length r < length p)"
proof (induction q p arbitrary: t r rule: next_token.induct)
  case (1 q)
  then show ?case by (simp split: if_splits)
next
  case (2 b p)
  then show ?case by (fastforce split: if_splits)
next
  case (3 b p)
  then show ?case using hex_escape_shorter by (fastforce split: if_splits option.splits list.splits)
next
  case (4 b p)
  then show ?case by (cases p) (fastforce split: if_splits)+
qed

function sdssplitargs :: "byte list \<Rightarrow> byte list list option" where
  "sdssplitargs p = (let p = dropWhile is_space p in
     if p = [] then Some []
     else (case next_token Plain p of None \<Rightarrow> None | Some (t, p) \<Rightarrow> map_option ((#) t) (sdssplitargs p)))"
  by pat_completeness auto
termination
proof (relation "measure length", goal_cases)
  case (2 p x x2 t r)
  then show ?case using next_token_shorter [of Plain x t r] length_dropWhile_le [of is_space p] by auto
qed simp

declare sdssplitargs.simps [simp del]

section \<open>A quoted argument is read back\<close>

lemma hex_nibble:
  assumes "d < (16 :: byte)"
  shows "isxdigit (if d < 10 then d + 48 else d + 87)" "hex_digit_to_int (if d < 10 then d + 48 else d + 87) = d"
proof -
  have "isxdigit (if d < 10 then d + 48 else d + 87) \<and> hex_digit_to_int (if d < 10 then d + 48 else d + 87) = d"
    by (rule nibble_cases [OF _ assms]) code_simp
  then show "isxdigit (if d < 10 then d + 48 else d + 87)" "hex_digit_to_int (if d < 10 then d + 48 else d + 87) = d" by blast+
qed

lemma byte_halves: "b div 16 < (16 :: byte)" "b mod 16 < (16 :: byte)" "b div 16 * 16 + b mod 16 = b"
proof -
  have "unat b < 256" using unsigned_less [of b, where 'a = nat] by simp
  then show "b div 16 < 16" "b mod 16 < 16" by (simp_all add: word_less_nat_alt unat_div unat_mod less_mult_imp_div_less)
  show "b div 16 * 16 + b mod 16 = b" by (rule div_mult_mod_eq)
qed

lemma next_token_repr_byte: "next_token Inq (repr_byte b @ p) = with_byte b (next_token Inq p)"
proof (cases "b = 92 \<or> b = 34 \<or> b = 10 \<or> b = 13 \<or> b = 9 \<or> b = 7 \<or> b = 8 \<or> isprint b")
  case True
  have "hex_escape (c # r) = None" if "c \<noteq> 120" for c r using that by (auto simp: hex_escape_def split: list.splits)
  with True show ?thesis by (auto simp: repr_byte_def escaped_def)
next
  case False
  let ?hex = "\<lambda>d :: byte. if d < 10 then d + 48 else d + 87"
  have "hex_escape (120 # ?hex (b div 16) # ?hex (b mod 16) # p) = Some (b, p)"
    using hex_nibble [OF byte_halves(1), of b] hex_nibble [OF byte_halves(2), of b] byte_halves(3) [of b] by (simp add: hex_escape_def del: div_mult_mod_eq)
  moreover have "repr_byte b = [92, 120, ?hex (b div 16), ?hex (b mod 16)]" using False by (simp add: repr_byte_def)
  ultimately show ?thesis by simp
qed

lemma next_token_repr:
  assumes "r = [] \<or> is_space (hd r)"
  shows "next_token Plain (sdscatrepr [] s @ r) = Some (s, r)"
proof -
  have "next_token Inq (concat (map repr_byte s) @ 34 # r) = Some (s, r)"
    using assms by (induction s) (auto simp: next_token_repr_byte)
  then show ?thesis by (simp add: sdscatrepr_def)
qed

text \<open>Arguments in quotes, separated by a space.\<close>

fun repr_line :: "byte list list \<Rightarrow> byte list" where
  "repr_line [] = []"
| "repr_line [a] = sdscatrepr [] a"
| "repr_line (a # b # args) = sdscatrepr [] a @ 32 # repr_line (b # args)"

lemma split_repr: "sdssplitargs (repr_line args) = Some args"
proof (induction args rule: repr_line.induct)
  case 1
  then show ?case by (simp add: sdssplitargs.simps)
next
  case (2 a)
  have p: "dropWhile is_space (sdscatrepr [] a) = sdscatrepr [] a" "sdscatrepr [] a \<noteq> []" by (simp_all add: sdscatrepr_def is_space_def)
  with next_token_repr [of "[]" a] show ?case by (subst sdssplitargs.simps) (simp add: sdssplitargs.simps [of "[]"])
next
  case (3 a b args)
  let ?r = "32 # repr_line (b # args)"
  have p: "dropWhile is_space (sdscatrepr [] a @ ?r) = sdscatrepr [] a @ ?r" "sdscatrepr [] a \<noteq> []" by (simp_all add: sdscatrepr_def is_space_def)
  have s: "sdssplitargs (32 # x) = sdssplitargs x" for x by (subst (1 2) sdssplitargs.simps) (simp add: is_space_def)
  have "next_token Plain (sdscatrepr [] a @ ?r) = Some (a, ?r)" by (rule next_token_repr) (simp add: is_space_def)
  with 3 p s show ?case by (subst sdssplitargs.simps) simp
qed

lemma repr_byte_safe: "0 \<notin> set (repr_byte b) \<and> 10 \<notin> set (repr_byte b)"
proof -
  have h: "(if d < 10 then d + 48 else d + 87) \<noteq> 0 \<and> (if d < 10 then d + 48 else d + 87) \<noteq> 10" if "d < 16" for d :: byte
  proof -
    have "isxdigit x \<Longrightarrow> x \<noteq> 0 \<and> x \<noteq> 10" for x by (auto simp: isxdigit_def is_digit_def)
    with hex_nibble(1) [OF that] show ?thesis by blast
  qed
  have "isprint b \<Longrightarrow> b \<noteq> 0 \<and> b \<noteq> 10" by (auto simp: isprint_def)
  with h [OF byte_halves(1), of b] h [OF byte_halves(2), of b] show ?thesis by (auto simp: repr_byte_def)
qed

lemma repr_safe: "0 \<notin> set (sdscatrepr [] a)" "10 \<notin> set (sdscatrepr [] a)"
  using repr_byte_safe by (auto simp: sdscatrepr_def)

lemma repr_line_safe: "0 \<notin> set (repr_line args) \<and> 10 \<notin> set (repr_line args)"
  by (induction args rule: repr_line.induct) (auto simp: repr_safe)

lemma repr_line_ends: "args \<noteq> [] \<Longrightarrow> repr_line args \<noteq> [] \<and> hd (repr_line args) = 34 \<and> last (repr_line args) = 34"
  by (induction args rule: repr_line.induct) (auto simp: sdscatrepr_def)

section \<open>Lines\<close>

lemma sdstrim_id: "s \<noteq> [] \<Longrightarrow> hd s \<notin> set cset \<union> {0} \<Longrightarrow> last s \<notin> set cset \<union> {0} \<Longrightarrow> sdstrim s cset = s"
proof -
  assume a: "s \<noteq> []" "hd s \<notin> set cset \<union> {0}" "last s \<notin> set cset \<union> {0}"
  then have "dropWhile (\<lambda>b. b \<in> set cset \<or> b = 0) s = s" by (cases s) auto
  moreover have "dropWhile (\<lambda>b. b \<in> set cset \<or> b = 0) (rev s) = rev s" using a by (cases s rule: rev_cases) auto
  ultimately show ?thesis by (simp add: sdstrim_def)
qed

lemma sdstrim_first: "b \<notin> set cset \<union> {0} \<Longrightarrow> sdstrim (b # s) cset = b # rev (dropWhile (\<lambda>b. b \<in> set cset \<or> b = 0) (rev s))"
proof -
  assume b: "b \<notin> set cset \<union> {0}"
  have "dropWhile P (xs @ [b]) = dropWhile P xs @ [b]" if "\<not> P b" for P and xs :: "byte list" using that by (induction xs) auto
  with b show ?thesis by (simp add: sdstrim_def)
qed

lemma sdstrim_blank: "set s \<subseteq> set cset \<union> {0} \<Longrightarrow> sdstrim s cset = []"
proof -
  assume "set s \<subseteq> set cset \<union> {0}"
  then have "dropWhile (\<lambda>b. b \<in> set cset \<or> b = 0) s = []" by (auto simp: dropWhile_eq_Nil_conv)
  then show ?thesis by (simp add: sdstrim_def Let_def del: dropWhile_eq_Nil_conv)
qed

lemma split_at_byte_line: "sep \<notin> set l \<Longrightarrow> split_at_byte sep cur (l @ sep # s) = (rev cur @ l) # split_at_byte sep [] s"
  by (induction l arbitrary: cur) auto

lemma split_lines:
  assumes "\<forall>l \<in> set ls. sep \<notin> set l"
  shows "split_at_byte sep [] (concat (map (\<lambda>l. l @ [sep]) ls)) = ls @ [[]]"
  using assms by (induction ls) (simp_all add: split_at_byte_line)

end
