(* ===== verification/Config.thy ===== *)
theory Config
  imports Sds Fingerprint_Index
begin

text \<open>
  The configuration file (\<^verbatim>\<open>src/destor/src/config.c\<close>). The record \<open>config\<close> extends \<open>destor\<close> by the fields of the
  configuration that the other components do not use. \<open>inet_addr\<close> is a parameter. A negative key size or value
  length is stored as 0: \<open>init_index\<close> rejects both or overwrites them, and the index needs a value length of at least 1.
\<close>

section \<open>Data\<close>

datatype trace_format = TRACE_DESTOR | TRACE_FSL
datatype verbosity = DESTOR_DEBUG | DESTOR_VERBOSE | DESTOR_NOTICE | DESTOR_WARNING
datatype key_value_store = INDEX_KEY_VALUE_HTABLE | INDEX_KEY_VALUE_MYSQL

record config = destor +
  working_directory :: "byte list"
  trace_format :: trace_format
  verbosity :: verbosity
  index_key_value_store :: key_value_store
  index_bloom_filter_size :: int
  local_ip :: "32 word"
  local_ip_str :: "byte list option"
  oec_pktsize :: int
  ecid_pool :: "byte list option"
  oec_mode :: "byte list option"
  oec_agent_ip :: "32 word"

text \<open>A directive that is refused, with the message, and a failed assertion.\<close>

datatype directive_error = Err string | Assert_Failed

datatype config_error = Bad_Line nat string | Config_Assert_Failed

section \<open>Values\<close>

text \<open>Decimal numbers with a fraction and an exponent; the other forms of \<open>atof\<close> are left out.\<close>

definition atof :: "byte list \<Rightarrow> real" where
  "atof bs = (let
     bs = dropWhile is_space bs;
     neg = (bs \<noteq> [] \<and> hd bs = 45);
     bs = (if bs \<noteq> [] \<and> (hd bs = 45 \<or> hd bs = 43) then tl bs else bs);
     whole = takeWhile is_digit bs;
     bs = dropWhile is_digit bs;
     frac = (if bs \<noteq> [] \<and> hd bs = 46 then takeWhile is_digit (tl bs) else []);
     bs = (if bs \<noteq> [] \<and> hd bs = 46 then dropWhile is_digit (tl bs) else bs);
     expo = (case bs of e # r \<Rightarrow> if (e = 101 \<or> e = 69) \<and> (r \<noteq> [] \<and> \<not> is_space (hd r)) then atoi r else 0 | [] \<Rightarrow> 0);
     v = real_of_int (digits_value (whole @ frac)) / 10 ^ length frac
   in if whole = [] \<and> frac = [] then 0 else (if neg then - v else v) * 10 powi expo)"

definition yesnotoi :: "byte list \<Rightarrow> int" where
  "yesnotoi s = (if strcasecmp s (text_bytes ''yes'') then 1 else if strcasecmp s (text_bytes ''no'') then 0 else -1)"

text \<open>The chains of \<open>strcasecmp\<close> that select a value by its name, and an optional argument.\<close>

fun by_name :: "(string \<times> 'a) list \<Rightarrow> byte list \<Rightarrow> 'a option" where
  "by_name [] s = None"
| "by_name ((name, v) # t) s = (if strcasecmp s (text_bytes name) then Some v else by_name t s)"

definition set_choice :: "string \<Rightarrow> (string \<times> 'a) list \<Rightarrow> byte list \<Rightarrow> ('a \<Rightarrow> directive_error + config) \<Rightarrow> directive_error + config" where
  "set_choice err t s k = (case by_name t s of Some v \<Rightarrow> k v | None \<Rightarrow> Inl (Err err))"

section \<open>Directives\<close>

definition set_fingerprint_index :: "byte list list \<Rightarrow> config \<Rightarrow> directive_error + config" where
  "set_fingerprint_index argv c =
     set_choice ''Invalid index category'' [(''exact'', INDEX_CATEGORY_EXACT), (''near-exact'', INDEX_CATEGORY_NEAR_EXACT)] (argv ! 1) (\<lambda>x.
     set_choice ''Invalid index category'' [(''physical'', INDEX_CATEGORY_PHYSICAL_LOCALITY), (''logical'', INDEX_CATEGORY_LOGICAL_LOCALITY)] (argv ! 2) (\<lambda>l.
       let c = c\<lparr>index_category0 := x, index_category1 := l\<rparr> in
       if length argv > 3
       then set_choice ''Invalid index specific''
              [(''ddfs'', (INDEX_CATEGORY_EXACT, INDEX_CATEGORY_PHYSICAL_LOCALITY, INDEX_SPECIFIC_DDFS)),
               (''sampled index'', (INDEX_CATEGORY_NEAR_EXACT, INDEX_CATEGORY_PHYSICAL_LOCALITY, INDEX_SPECIFIC_SAMPLED)),
               (''block locality caching'', (INDEX_CATEGORY_EXACT, INDEX_CATEGORY_LOGICAL_LOCALITY, INDEX_SPECIFIC_BLOCK_LOCALITY_CACHING)),
               (''extreme binning'', (INDEX_CATEGORY_NEAR_EXACT, INDEX_CATEGORY_LOGICAL_LOCALITY, INDEX_SPECIFIC_EXTREME_BINNING)),
               (''sparse index'', (INDEX_CATEGORY_NEAR_EXACT, INDEX_CATEGORY_LOGICAL_LOCALITY, INDEX_SPECIFIC_SPARSE)),
               (''silo'', (INDEX_CATEGORY_NEAR_EXACT, INDEX_CATEGORY_LOGICAL_LOCALITY, INDEX_SPECIFIC_SILO))]
              (argv ! 3) (\<lambda>(x', l', sp). if x = x' \<and> l = l' then Inr (c\<lparr>index_specific := sp\<rparr>) else Inl Assert_Failed)
       else Inr c))"

definition set_sampling_method :: "byte list list \<Rightarrow> config \<Rightarrow> directive_error + config" where
  "set_sampling_method argv c =
     set_choice ''Invalid feature method!'' [(''optmin'', INDEX_SAMPLING_OPTIMIZED_MIN), (''random'', INDEX_SAMPLING_RANDOM),
         (''min'', INDEX_SAMPLING_MIN), (''uniform'', INDEX_SAMPLING_UNIFORM)] (argv ! 1) (\<lambda>m.
       Inr (c\<lparr>index_sampling_method0 := m, index_sampling_method1 := (if length argv > 2 then atoi (argv ! 2) else 0)\<rparr>))"

definition set_segment_algorithm :: "byte list list \<Rightarrow> config \<Rightarrow> directive_error + config" where
  "set_segment_algorithm argv c =
     set_choice ''Invalid segment algorithm'' [(''fixed'', INDEX_SEGMENT_FIXED), (''file-defined'', INDEX_SEGMENT_FILE_DEFINED),
         (''content-defined'', INDEX_SEGMENT_CONTENT_DEFINED)] (argv ! 1) (\<lambda>a.
       let c = c\<lparr>index_segment_algorithm0 := a\<rparr> in
       if length argv > 2
       then (if a = INDEX_SEGMENT_FILE_DEFINED then Inl Assert_Failed else Inr (c\<lparr>index_segment_algorithm1 := atoi (argv ! 2)\<rparr>))
       else Inr c)"

definition set_segment_selection :: "byte list list \<Rightarrow> config \<Rightarrow> directive_error + config" where
  "set_segment_selection argv c =
     set_choice ''Invalid selection method!'' [(''base'', INDEX_SEGMENT_SELECT_BASE), (''top'', INDEX_SEGMENT_SELECT_TOP),
         (''mix'', INDEX_SEGMENT_SELECT_MIX)] (argv ! 1) (\<lambda>m.
       Inr (c\<lparr>index_segment_selection_method0 := m,
              index_segment_selection_method1 := (if m = INDEX_SEGMENT_SELECT_TOP \<and> length argv > 2 then atoi (argv ! 2) else 1)\<rparr>))"

text \<open>The assertion compares the array \<open>rewrite_algorithm\<close> itself, whose address is never 0, with \<open>REWRITE_NO\<close>.\<close>

definition set_rewrite_algorithm :: "byte list list \<Rightarrow> config \<Rightarrow> directive_error + config" where
  "set_rewrite_algorithm argv c =
     set_choice ''Invalid rewriting algorithm'' [(''no'', REWRITE_NO),
         (''cfl-based selective deduplication'', REWRITE_CFL_SELECTIVE_DEDUPLICATION), (''cfl'', REWRITE_CFL_SELECTIVE_DEDUPLICATION),
         (''context-based rewriting'', REWRITE_CONTEXT_BASED), (''cbr'', REWRITE_CONTEXT_BASED),
         (''capping'', REWRITE_CAPPING), (''cap'', REWRITE_CAPPING)] (argv ! 1) (\<lambda>a.
       Inr (c\<lparr>rewrite_algorithm0 := a, rewrite_algorithm1 := (if length argv > 2 then atoi (argv ! 2) else 1024)\<rparr>))"

definition set_restore_cache :: "byte list list \<Rightarrow> config \<Rightarrow> directive_error + config" where
  "set_restore_cache argv c =
     set_choice ''Invalid restore cache'' [(''lru'', RESTORE_CACHE_LRU), (''optimal cache'', RESTORE_CACHE_OPT), (''opt'', RESTORE_CACHE_OPT),
         (''forward assembly'', RESTORE_CACHE_ASM), (''asm'', RESTORE_CACHE_ASM)] (argv ! 1) (\<lambda>a.
       Inr (c\<lparr>restore_cache0 := a, restore_cache1 := atoi (argv ! 2)\<rparr>))"

text \<open>The chain of \<open>load_config_from_string\<close> in two parts; the second begins with the switches and thresholds of rewriting.\<close>

definition apply_later_directive :: "(byte list \<Rightarrow> 32 word) \<Rightarrow> byte list list \<Rightarrow> config \<Rightarrow> directive_error + config" where
  "apply_later_directive inet_addr argv c = (let argc = length argv; name = (\<lambda>s. strcasecmp (argv ! 0) (text_bytes s)) in
     if name ''rewrite-enable-cfl-switch'' \<and> argc = 2 then Inr (c\<lparr>rewrite_enable_cfl_switch := yesnotoi (argv ! 1) \<noteq> 0\<rparr>)
     else if name ''rewrite-cfl-require'' \<and> argc = 2 then Inr (c\<lparr>rewrite_cfl_require := atof (argv ! 1)\<rparr>)
     else if name ''rewrite-cfl-usage-threshold'' \<and> argc = 2 then Inr (c\<lparr>rewrite_cfl_usage_threshold := atof (argv ! 1)\<rparr>)
     else if name ''rewrite-cbr-limit'' \<and> argc = 2 then Inr (c\<lparr>rewrite_cbr_limit := atof (argv ! 1)\<rparr>)
     else if name ''rewrite-cbr-minimal-utility'' \<and> argc = 2 then Inr (c\<lparr>rewrite_cbr_minimal_utility := atof (argv ! 1)\<rparr>)
     else if name ''rewrite-capping-level'' \<and> argc = 2 then Inr (c\<lparr>rewrite_capping_level := atoi (argv ! 1)\<rparr>)
     else if name ''rewrite-enable-har'' \<and> argc = 2 then Inr (c\<lparr>rewrite_enable_har := yesnotoi (argv ! 1) \<noteq> 0\<rparr>)
     else if name ''rewrite-har-utilization-threshold'' \<and> argc = 2 then Inr (c\<lparr>rewrite_har_utilization_threshold := atof (argv ! 1)\<rparr>)
     else if name ''rewrite-har-rewrite-limit'' \<and> argc = 2 then Inr (c\<lparr>rewrite_har_rewrite_limit := atof (argv ! 1)\<rparr>)
     else if name ''rewrite-enable-cache-aware'' \<and> argc = 2 then Inr (c\<lparr>rewrite_enable_cache_aware := yesnotoi (argv ! 1) \<noteq> 0\<rparr>)
     else if name ''restore-cache'' \<and> argc = 3 then set_restore_cache argv c
     else if name ''restore-opt-window-size'' \<and> argc = 2 then Inr (c\<lparr>restore_opt_window_size := atoi (argv ! 1)\<rparr>)
     else if name ''backup-retention-time'' \<and> argc = 2 then Inr (c\<lparr>backup_retention_time := atoi (argv ! 1)\<rparr>)
     else if name ''local_ip'' \<and> argc = 2 then Inr (c\<lparr>local_ip_str := Some (cstring (argv ! 1)), local_ip := inet_addr (cstring (argv ! 1))\<rparr>)
     else if name ''oec_pktsize'' \<and> argc = 2 then Inr (c\<lparr>oec_pktsize := atoi (argv ! 1)\<rparr>)
     else if name ''ecid_pool'' \<and> argc = 2 then Inr (c\<lparr>ecid_pool := Some (cstring (argv ! 1))\<rparr>)
     else if name ''oec_mode'' \<and> argc = 2 then Inr (c\<lparr>oec_mode := Some (cstring (argv ! 1))\<rparr>)
     else if name ''oec_agent_ip'' \<and> argc = 2 then Inr (c\<lparr>oec_agent_ip := inet_addr (cstring (argv ! 1))\<rparr>)
     else Inl (Err ''Bad directive or wrong number of arguments''))"

definition apply_directive :: "(byte list \<Rightarrow> 32 word) \<Rightarrow> byte list list \<Rightarrow> config \<Rightarrow> directive_error + config" where
  "apply_directive inet_addr argv c = (let argc = length argv; name = (\<lambda>s. strcasecmp (argv ! 0) (text_bytes s)) in
     if name ''working-directory'' \<and> argc = 2 then Inr (c\<lparr>working_directory := cstring (argv ! 1) @ [47]\<rparr>)
     else if name ''simulation-level'' \<and> argc = 2 then
       set_choice ''Invalid simulation level'' [(''all'', SIMULATION_ALL), (''append'', SIMULATION_APPEND), (''restore'', SIMULATION_RESTORE),
         (''no'', SIMULATION_NO)] (argv ! 1) (\<lambda>v. Inr (c\<lparr>simulation_level := v\<rparr>))
     else if name ''trace-format'' \<and> argc = 2 then
       set_choice ''Invalid trace format'' [(''destor'', TRACE_DESTOR), (''fsl'', TRACE_FSL)] (argv ! 1) (\<lambda>v. Inr (c\<lparr>trace_format := v\<rparr>))
     else if name ''log-level'' \<and> argc = 2 then
       set_choice ''Invalid log level'' [(''debug'', DESTOR_DEBUG), (''verbose'', DESTOR_VERBOSE), (''notice'', DESTOR_NOTICE),
         (''warning'', DESTOR_WARNING)] (argv ! 1) (\<lambda>v. Inr (c\<lparr>verbosity := v\<rparr>))
     else if name ''chunk-algorithm'' \<and> argc = 2 then
       set_choice ''Invalid chunk algorithm'' [(''fixed'', CHUNK_FIXED), (''rabin'', CHUNK_RABIN), (''normalized rabin'', CHUNK_NORMALIZED_RABIN),
         (''tttd'', CHUNK_TTTD), (''file'', CHUNK_FILE), (''ae'', CHUNK_AE)] (argv ! 1) (\<lambda>v. Inr (c\<lparr>chunk_algorithm := v\<rparr>))
     else if name ''chunk-avg-size'' \<and> argc = 2 then Inr (c\<lparr>chunk_avg_size := atoi (argv ! 1)\<rparr>)
     else if name ''chunk-max-size'' \<and> argc = 2 then Inr (c\<lparr>chunk_max_size := atoi (argv ! 1)\<rparr>)
     else if name ''chunk-min-size'' \<and> argc = 2 then Inr (c\<lparr>chunk_min_size := atoi (argv ! 1)\<rparr>)
     else if name ''fingerprint-index'' \<and> argc \<ge> 3 then set_fingerprint_index argv c
     else if name ''fingerprint-index-cache-size'' \<and> argc = 2 then Inr (c\<lparr>index_cache_size := atoi (argv ! 1)\<rparr>)
     else if name ''fingerprint-index-key-value'' \<and> argc = 2 then
       set_choice ''Invalid key-value store'' [(''htable'', INDEX_KEY_VALUE_HTABLE)] (argv ! 1) (\<lambda>v. Inr (c\<lparr>index_key_value_store := v\<rparr>))
     else if name ''fingerprint-index-key-size'' \<and> argc = 2 then Inr (c\<lparr>index_key_size := nat (atoi (argv ! 1))\<rparr>)
     else if name ''fingerprint-index-value-length'' \<and> argc = 2 then Inr (c\<lparr>index_value_length := nat (atoi (argv ! 1))\<rparr>)
     else if name ''fingerprint-index-bloom-filter'' \<and> argc = 2 then Inr (c\<lparr>index_bloom_filter_size := atoi (argv ! 1)\<rparr>)
     else if name ''fingerprint-index-sampling-method'' \<and> argc \<ge> 2 then set_sampling_method argv c
     else if name ''fingerprint-index-segment-algorithm'' \<and> argc \<ge> 2 then set_segment_algorithm argv c
     else if name ''fingerprint-index-segment-boundary'' \<and> argc = 3 then
       Inr (c\<lparr>index_segment_min := atoi (argv ! 1), index_segment_max := atoi (argv ! 2)\<rparr>)
     else if name ''fingerprint-index-segment-selection'' \<and> argc \<ge> 2 then set_segment_selection argv c
     else if name ''fingerprint-index-segment-prefetching'' \<and> argc = 2 then Inr (c\<lparr>index_segment_prefech := atoi (argv ! 1)\<rparr>)
     else if name ''rewrite-algorithm'' \<and> argc \<ge> 2 then set_rewrite_algorithm argv c
     else apply_later_directive inet_addr argv c)"

section \<open>The loader\<close>

definition run_directive :: "(byte list \<Rightarrow> 32 word) \<Rightarrow> nat \<Rightarrow> byte list list \<Rightarrow> config \<Rightarrow> config_error + config" where
  "run_directive inet_addr linenum argv c = (case argv of
      [] \<Rightarrow> Inr c
    | name # args \<Rightarrow> (case apply_directive inet_addr (sdstolower name # args) c of
          Inr c \<Rightarrow> Inr c
        | Inl (Err msg) \<Rightarrow> Inl (Bad_Line linenum msg)
        | Inl Assert_Failed \<Rightarrow> Inl Config_Assert_Failed))"

definition load_line :: "(byte list \<Rightarrow> 32 word) \<Rightarrow> nat \<Rightarrow> byte list \<Rightarrow> config \<Rightarrow> config_error + config" where
  "load_line inet_addr linenum line c = (let line = sdstrim line [32, 9, 13, 10] in
     if line = [] \<or> hd line = 35 then Inr c
     else (case sdssplitargs line of
        None \<Rightarrow> Inl (Bad_Line linenum ''Unbalanced quotes in configuration line'')
      | Some argv \<Rightarrow> run_directive inet_addr linenum argv c))"

fun load_lines :: "(byte list \<Rightarrow> 32 word) \<Rightarrow> nat \<Rightarrow> byte list list \<Rightarrow> config \<Rightarrow> config_error + config" where
  "load_lines inet_addr i [] c = Inr c"
| "load_lines inet_addr i (l # ls) c = (case load_line inet_addr (i + 1) l c of
      Inl e \<Rightarrow> Inl e
    | Inr c \<Rightarrow> load_lines inet_addr (i + 1) ls c)"

definition load_config_from_string :: "(byte list \<Rightarrow> 32 word) \<Rightarrow> byte list \<Rightarrow> config \<Rightarrow> config_error + config" where
  "load_config_from_string inet_addr conf c = load_lines inet_addr 0 (sdssplitlen (cstring conf) 10) c"

definition DESTOR_CONFIGLINE_MAX :: nat where "DESTOR_CONFIGLINE_MAX = 1024"

function read_config :: "byte list \<Rightarrow> byte list" where
  "read_config f = (case fgets (DESTOR_CONFIGLINE_MAX + 1) f of None \<Rightarrow> [] | Some (l, r) \<Rightarrow> cstring l @ read_config r)"
  by pat_completeness auto
termination by (relation "measure length") (auto simp: DESTOR_CONFIGLINE_MAX_def dest: fgets_shorter [rotated])

declare read_config.simps [simp del]

text \<open>\<open>None\<close>: there is no configuration file.\<close>

definition load_config :: "(byte list \<Rightarrow> 32 word) \<Rightarrow> byte list option \<Rightarrow> config \<Rightarrow> config_error + config" where
  "load_config inet_addr f c = (case f of None \<Rightarrow> Inr c | Some f \<Rightarrow> load_config_from_string inet_addr (read_config f) c)"

section \<open>A configuration that was written is loaded\<close>

lemma fgets_split: "fgets n f = Some (l, r) \<Longrightarrow> l @ r = f"
  by (auto simp: fgets_def Let_def split: if_splits)

lemma read_config_all: "0 \<notin> set f \<Longrightarrow> read_config f = f"
proof (induction f rule: read_config.induct)
  case (1 f)
  show ?case
  proof (cases "fgets (DESTOR_CONFIGLINE_MAX + 1) f")
    case None
    then have "f = []" by (simp add: fgets_def Let_def split: if_splits)
    with None show ?thesis by (simp add: read_config.simps)
  next
    case (Some x)
    obtain l r where x: "x = (l, r)" by force
    have f: "l @ r = f" using fgets_split Some x by simp
    then have "0 \<notin> set l" "0 \<notin> set r" using "1.prems" by auto
    with "1.IH" [OF Some, of l r] x cstring_all(2) [of l] Some f show ?thesis by (subst read_config.simps) simp
  qed
qed

text \<open>The lines of a configuration: directives with their arguments in quotes, comments and blank lines.\<close>

datatype conf_line = Directive "byte list list" | Comment "byte list" | Blank "byte list"

fun line_text :: "conf_line \<Rightarrow> byte list" where
  "line_text (Directive argv) = repr_line argv"
| "line_text (Comment s) = 35 # s"
| "line_text (Blank s) = s"

fun line_ok :: "conf_line \<Rightarrow> bool" where
  "line_ok (Directive argv) = (argv \<noteq> [])"
| "line_ok (Comment s) = (0 \<notin> set s \<and> 10 \<notin> set s)"
| "line_ok (Blank s) = list_all (\<lambda>b. b = 32 \<or> b = 9 \<or> b = 13) s"

definition config_text :: "conf_line list \<Rightarrow> byte list" where
  "config_text ls = concat (map (\<lambda>l. l @ [10]) (map line_text ls))"

fun run_line :: "(byte list \<Rightarrow> 32 word) \<Rightarrow> nat \<Rightarrow> conf_line \<Rightarrow> config \<Rightarrow> config_error + config" where
  "run_line inet_addr n (Directive argv) c = run_directive inet_addr n argv c"
| "run_line inet_addr n (Comment s) c = Inr c"
| "run_line inet_addr n (Blank s) c = Inr c"

fun run_lines :: "(byte list \<Rightarrow> 32 word) \<Rightarrow> nat \<Rightarrow> conf_line list \<Rightarrow> config \<Rightarrow> config_error + config" where
  "run_lines inet_addr n [] c = Inr c"
| "run_lines inet_addr n (l # ls) c = (case run_line inet_addr n l c of Inl e \<Rightarrow> Inl e | Inr c \<Rightarrow> run_lines inet_addr (Suc n) ls c)"

lemma line_text_safe: "line_ok l \<Longrightarrow> 0 \<notin> set (line_text l) \<and> 10 \<notin> set (line_text l)"
  by (cases l) (use repr_line_safe in \<open>auto simp: list_all_iff\<close>)

lemma load_line_text: "line_ok l \<Longrightarrow> load_line inet_addr n (line_text l) c = run_line inet_addr n l c"
proof (cases l)
  case (Directive argv)
  assume "line_ok l"
  with Directive have r: "repr_line argv \<noteq> []" "hd (repr_line argv) = 34" "last (repr_line argv) = 34" using repr_line_ends by auto
  then have "sdstrim (repr_line argv) [32, 9, 13, 10] = repr_line argv" by (intro sdstrim_id) simp_all
  with r Directive show ?thesis by (simp add: load_line_def split_repr)
next
  case (Comment s)
  with sdstrim_first [of 35 "[32, 9, 13, 10]" s] show ?thesis by (simp add: load_line_def)
next
  case (Blank s)
  assume "line_ok l"
  with Blank have "set s \<subseteq> set [32, 9, 13, 10] \<union> {0}" by (auto simp: list_all_iff)
  from sdstrim_blank [OF this] Blank show ?thesis by (simp add: load_line_def)
qed

lemma load_lines_text:
  "list_all line_ok ls \<Longrightarrow> load_lines inet_addr i (map line_text ls @ [[]]) c = run_lines inet_addr (Suc i) ls c"
proof (induction ls arbitrary: i c)
  case Nil
  have "load_line inet_addr (i + 1) [] c = Inr c" by (simp add: load_line_def sdstrim_def)
  then show ?case by simp
next
  case (Cons l ls)
  then show ?case by (simp add: load_line_text split: sum.splits)
qed

lemma load_text:
  assumes "list_all line_ok ls"
  shows "load_config inet_addr (Some (config_text ls)) c = run_lines inet_addr 1 ls c"
proof -
  have safe: "0 \<notin> set (config_text ls)" "\<forall>l \<in> set (map line_text ls). 10 \<notin> set l"
    using assms line_text_safe by (auto simp: config_text_def list_all_iff)
  have "sdssplitlen (config_text ls) 10 = map line_text ls @ (if ls = [] then [] else [[]])"
    using split_lines [OF safe(2)] by (auto simp: sdssplitlen_def config_text_def)
  with safe(1) load_lines_text [OF assms, of inet_addr 0 c] show ?thesis
    by (simp add: load_config_def load_config_from_string_def read_config_all cstring_all split: if_splits)
qed

section \<open>Start and shutdown\<close>

text \<open>The statistics that live across runs (\<^verbatim>\<open>src/destor/src/destor.c\<close>) are kept in \<^verbatim>\<open>destor.stat\<close>. Files are a map from
  paths. A file that is too short leaves variables unset (\<open>Start_Abort\<close>).\<close>

record destor_stats =
  st_chunk_num :: int
  st_stored_chunk_num :: int
  st_data_size :: int
  st_stored_data_size :: int
  st_zero_chunk_num :: int
  st_zero_chunk_size :: int
  st_rewritten_chunk_num :: int
  st_rewritten_chunk_size :: int
  st_index_memory_footprint :: int
  st_live_container_num :: int

definition no_stats :: destor_stats where
  "no_stats = \<lparr>st_chunk_num = 0, st_stored_chunk_num = 0, st_data_size = 0, st_stored_data_size = 0, st_zero_chunk_num = 0,
     st_zero_chunk_size = 0, st_rewritten_chunk_num = 0, st_rewritten_chunk_size = 0, st_index_memory_footprint = 0,
     st_live_container_num = 0\<rparr>"

datatype start_error = Config_Error config_error | Start_Abort

definition start_config :: config where
  "start_config = destor.extend destor_start_config
     \<lparr>working_directory = text_bytes ''/home/openec/working/'', trace_format = TRACE_DESTOR, verbosity = DESTOR_WARNING,
      index_key_value_store = INDEX_KEY_VALUE_HTABLE, index_bloom_filter_size = 0, local_ip = 0, local_ip_str = None,
      oec_pktsize = 0, ecid_pool = None, oec_mode = None, oec_agent_ip = 0\<rparr>"

definition stat_path :: "config \<Rightarrow> byte list" where
  "stat_path c = working_directory c @ text_bytes ''/destor.stat''"

text \<open>\<open>check_simulation_level\<close> on the numbers of the levels.\<close>

definition levels_agree :: "int \<Rightarrow> int \<Rightarrow> bool" where
  "levels_agree last_level current_level = (\<not> (last_level \<le> 1 \<and> current_level \<ge> 2 \<or> last_level \<ge> 2 \<and> current_level \<le> 1))"

definition read_stat :: "bool \<Rightarrow> stream \<Rightarrow> ((destor_stats \<times> int \<times> int) \<times> stream) option" where
  "read_stat be s = do {
     (chunk_num, s) \<leftarrow> s_read_int64 be s;
     (stored_chunk_num, s) \<leftarrow> s_read_int64 be s;
     (data_size, s) \<leftarrow> s_read_int64 be s;
     (stored_data_size, s) \<leftarrow> s_read_int64 be s;
     (zero_chunk_num, s) \<leftarrow> s_read_int64 be s;
     (zero_chunk_size, s) \<leftarrow> s_read_int64 be s;
     (rewritten_chunk_num, s) \<leftarrow> s_read_int64 be s;
     (rewritten_chunk_size, s) \<leftarrow> s_read_int64 be s;
     (footprint, s) \<leftarrow> s_read_int be s;
     (live, s) \<leftarrow> s_read_int be s;
     (last_retention_time, s) \<leftarrow> s_read_int be s;
     (last_level, s) \<leftarrow> s_read_int be s;
     Some ((\<lparr>st_chunk_num = chunk_num, st_stored_chunk_num = stored_chunk_num, st_data_size = data_size,
            st_stored_data_size = stored_data_size, st_zero_chunk_num = zero_chunk_num, st_zero_chunk_size = zero_chunk_size,
            st_rewritten_chunk_num = rewritten_chunk_num, st_rewritten_chunk_size = rewritten_chunk_size,
            st_index_memory_footprint = footprint, st_live_container_num = live\<rparr>, last_retention_time, last_level), s)
   }"

definition destor_start ::
    "bool \<Rightarrow> (byte list \<Rightarrow> 32 word) \<Rightarrow> byte list option \<Rightarrow> (byte list \<rightharpoonup> byte list) \<Rightarrow> start_error + (config \<times> destor_stats)" where
  "destor_start be inet_addr conf fs = (case load_config inet_addr conf start_config of
      Inl e \<Rightarrow> Inl (Config_Error e)
    | Inr c \<Rightarrow> (case fs (stat_path c) of
          None \<Rightarrow> Inr (c, no_stats)
        | Some bs \<Rightarrow> (case read_stat be \<lparr>s_bytes = bs, s_pos = 0\<rparr> of
              None \<Rightarrow> Inl Start_Abort
            | Some ((s, last_retention_time, last_level), _) \<Rightarrow>
                if last_retention_time = backup_retention_time c \<and> levels_agree last_level (int (sim_rank (simulation_level c)))
                then Inr (c, s) else Inl Start_Abort)))"

definition stat_bytes :: "bool \<Rightarrow> config \<Rightarrow> destor_stats \<Rightarrow> byte list" where
  "stat_bytes be c s = int64_bytes be (st_chunk_num s) @ int64_bytes be (st_stored_chunk_num s)
     @ int64_bytes be (st_data_size s) @ int64_bytes be (st_stored_data_size s)
     @ int64_bytes be (st_zero_chunk_num s) @ int64_bytes be (st_zero_chunk_size s)
     @ int64_bytes be (st_rewritten_chunk_num s) @ int64_bytes be (st_rewritten_chunk_size s)
     @ int_bytes be (st_index_memory_footprint s) @ int_bytes be (st_live_container_num s)
     @ int_bytes be (backup_retention_time c) @ int_bytes be (int (sim_rank (simulation_level c)))"

definition destor_shutdown :: "bool \<Rightarrow> config \<Rightarrow> destor_stats \<Rightarrow> (byte list \<rightharpoonup> byte list) \<Rightarrow> (byte list \<rightharpoonup> byte list)" where
  "destor_shutdown be c s fs = fs(stat_path c \<mapsto> stat_bytes be c s)"

definition stats_ok :: "destor_stats \<Rightarrow> bool" where
  "stats_ok s = (int64_range (st_chunk_num s) \<and> int64_range (st_stored_chunk_num s) \<and> int64_range (st_data_size s)
     \<and> int64_range (st_stored_data_size s) \<and> int64_range (st_zero_chunk_num s) \<and> int64_range (st_zero_chunk_size s)
     \<and> int64_range (st_rewritten_chunk_num s) \<and> int64_range (st_rewritten_chunk_size s)
     \<and> int32_range (st_index_memory_footprint s) \<and> int32_range (st_live_container_num s))"

lemma levels_agree_check: "levels_agree (int (sim_rank a)) (int (sim_rank b)) = check_simulation_level a b"
  by (cases a; cases b) (simp_all add: levels_agree_def check_simulation_level_def less_eq_simulation_level_def)

lemma reads_stat:
  assumes "stats_ok s" "int32_range (backup_retention_time c)"
  shows "reads (read_stat be) (stat_bytes be c s) (s, backup_retention_time c, int (sim_rank (simulation_level c)))"
proof -
  have l: "int32_range (int (sim_rank (simulation_level c)))" by (cases "simulation_level c") (simp_all add: int32_range_def)
  note ok = assms(1) [unfolded stats_ok_def]
  have "reads (read_stat be) (stat_bytes be c s @ [])
      (\<lparr>st_chunk_num = st_chunk_num s, st_stored_chunk_num = st_stored_chunk_num s, st_data_size = st_data_size s,
        st_stored_data_size = st_stored_data_size s, st_zero_chunk_num = st_zero_chunk_num s, st_zero_chunk_size = st_zero_chunk_size s,
        st_rewritten_chunk_num = st_rewritten_chunk_num s, st_rewritten_chunk_size = st_rewritten_chunk_size s,
        st_index_memory_footprint = st_index_memory_footprint s, st_live_container_num = st_live_container_num s\<rparr>,
       backup_retention_time c, int (sim_rank (simulation_level c)))"
    unfolding read_stat_def [abs_def] stat_bytes_def append_assoc
    by ((rule reads_bind, rule reads_int64, simp add: ok)+, (rule reads_bind, rule reads_int, simp add: ok assms(2) l)+, rule reads_return)
  then show ?thesis by (cases s) simp
qed

lemma restart:
  assumes "stats_ok s" "int32_range (backup_retention_time c)"
    and "load_config inet_addr conf start_config = Inr c2" "working_directory c2 = working_directory c"
  shows "destor_start be inet_addr conf (destor_shutdown be c s fs) =
     (if backup_retention_time c = backup_retention_time c2 \<and> check_simulation_level (simulation_level c) (simulation_level c2)
      then Inr (c2, s) else Inl Start_Abort)"
proof -
  have "valid \<lparr>s_bytes = stat_bytes be c s, s_pos = 0\<rparr>" "rest \<lparr>s_bytes = stat_bytes be c s, s_pos = 0\<rparr> = stat_bytes be c s @ []"
    by (simp_all add: valid_def rest_def)
  from reads_D [OF reads_stat [OF assms(1,2)] this] assms(3,4) show ?thesis
    by (simp add: destor_start_def destor_shutdown_def stat_path_def levels_agree_check)
qed

section \<open>The configuration the index works with\<close>

text \<open>What the phases rely on after \<open>init_index\<close>: keys fit into a fingerprint, an exact index has whole fingerprints
  as keys, an index of containers cuts fixed segments, and an exact one of them samples every chunk; a named design has the
  category of that design.\<close>

definition index_config_ok :: "destor \<Rightarrow> bool" where
  "index_config_ok d = (0 < index_key_size d \<and> index_key_size d \<le> 20
     \<and> (index_category0 d = INDEX_CATEGORY_EXACT \<longrightarrow> index_key_size d = 20)
     \<and> (index_category1 d = INDEX_CATEGORY_PHYSICAL_LOCALITY \<longrightarrow> index_segment_algorithm0 d = INDEX_SEGMENT_FIXED
          \<and> (index_category0 d = INDEX_CATEGORY_EXACT \<longrightarrow> index_sampling_method0 d = INDEX_SAMPLING_UNIFORM \<and> index_sampling_method1 d = 1))
     \<and> index_specific d \<noteq> INDEX_SPECIFIC_EXTREME_BINNING
     \<and> (index_specific d = INDEX_SPECIFIC_DDFS \<longrightarrow> index_category0 d = INDEX_CATEGORY_EXACT \<and> index_category1 d = INDEX_CATEGORY_PHYSICAL_LOCALITY)
     \<and> (index_specific d = INDEX_SPECIFIC_SAMPLED \<longrightarrow> index_category0 d = INDEX_CATEGORY_NEAR_EXACT \<and> index_category1 d = INDEX_CATEGORY_PHYSICAL_LOCALITY)
     \<and> (index_specific d = INDEX_SPECIFIC_BLOCK_LOCALITY_CACHING \<longrightarrow> index_category0 d = INDEX_CATEGORY_EXACT \<and> index_category1 d = INDEX_CATEGORY_LOGICAL_LOCALITY)
     \<and> (index_specific d = INDEX_SPECIFIC_SPARSE \<or> index_specific d = INDEX_SPECIFIC_SILO \<longrightarrow>
          index_category0 d = INDEX_CATEGORY_NEAR_EXACT \<and> index_category1 d = INDEX_CATEGORY_LOGICAL_LOCALITY))"

lemma init_index_config_ok: "init_index_config d = Some d' \<Longrightarrow> index_config_ok d' \<and> init_index_config d' = Some d'"
proof (cases d)
  case (fields sl ca cmax cmin cavg rc0 rc1 row cat0 cat1 sp)
  assume "init_index_config d = Some d'"
  with fields show ?thesis
    apply (cases sp; cases cat0; cases cat1)
    apply (simp_all add: init_index_config_def index_specific_config_def assertion_def split: if_split_asm)
    apply (hypsubst_thin; simp add: index_config_ok_def)+
    done
qed

section \<open>Properties\<close>

text \<open>C28: a configuration file that is written with the arguments in quotes, with comments and blank lines in any
  places, has the effect of its directives in order: the first directive that is refused is reported with the
  number of its line, and otherwise all take effect.\<close>

theorem config_roundtrip:
  assumes "list_all line_ok ls"
  shows "load_config inet_addr (Some (config_text ls)) c = run_lines inet_addr 1 ls c"
  using load_text [OF assms] .

theorem config_roundtrip_witness:
  "load_config (\<lambda>_. 0) (Some (config_text [Comment (text_bytes '' size''), Directive [text_bytes ''Chunk-Max-Size'', text_bytes ''4096''], Blank [32],
       Directive [text_bytes ''rewrite-algorithm'', text_bytes ''none'']])) start_config
     = Inl (Bad_Line 4 ''Invalid rewriting algorithm'')"
proof -
  let ?ls = "[Comment (text_bytes '' size''), Directive [text_bytes ''Chunk-Max-Size'', text_bytes ''4096''], Blank [32],
       Directive [text_bytes ''rewrite-algorithm'', text_bytes ''none'']]"
  have "run_lines (\<lambda>_. 0) 1 ?ls start_config = Inl (Bad_Line 4 ''Invalid rewriting algorithm'')" by code_simp
  with config_roundtrip [of ?ls "\<lambda>_. 0" start_config] show ?thesis by simp
qed

text \<open>the statistics survive a restart. What a shutdown stores is what the next start has, for any configuration with
  the same working directory; a start with another retention time or a conflicting simulation level is refused.\<close>

theorem restart_keeps_stats:
  assumes "stats_ok s" "int32_range (backup_retention_time c)"
    and "load_config inet_addr conf start_config = Inr c2" "working_directory c2 = working_directory c"
  shows "destor_start be inet_addr conf (destor_shutdown be c s fs) =
     (if backup_retention_time c = backup_retention_time c2 \<and> check_simulation_level (simulation_level c) (simulation_level c2)
      then Inr (c2, s) else Inl Start_Abort)"
  using restart [OF assms] .

theorem restart_keeps_stats_witness:
  "destor_start True (\<lambda>_. 0) None (destor_shutdown True start_config (no_stats\<lparr>st_chunk_num := 12\<rparr>) Map.empty)
     = Inr (start_config, no_stats\<lparr>st_chunk_num := 12\<rparr>)"
  using restart_keeps_stats [of "no_stats\<lparr>st_chunk_num := 12\<rparr>" start_config "\<lambda>_. 0" None start_config True Map.empty]
  by (simp add: stats_ok_def no_stats_def int64_range_def int32_range_def load_config_def start_config_def destor.extend_def destor_start_config_def
      check_simulation_level_def less_eq_simulation_level_def)



end
