(* ===== verification/Job_Stats.thy ===== *)
theory Job_Stats
  imports Store_Run Config
begin

unbundle bit_operations_syntax

text \<open>
  The counters of a job (\<^verbatim>\<open>jcr\<close>) and the statistics of the program that they are added to when the job ends
  (\<^verbatim>\<open>do_backup.c\<close>, \<^verbatim>\<open>destor_server.c\<close>): the counters are what their names say.
  Counters are integers; \<open>counted\<close> bounds them by the number of chunks, so a job of less than \<open>2 ^ 31\<close> chunks does not
  overflow the 32-bit counters of the code.
\<close>

section \<open>Statistics\<close>

text \<open>The counters of the chunk phase for zero chunks are \<open>zn\<close> and \<open>zs\<close>.\<close>

definition add_job_stats :: "int \<Rightarrow> int \<Rightarrow> filter_state \<Rightarrow> destor_stats \<Rightarrow> destor_stats" where
  "add_job_stats zn zs st s = s\<lparr>
     st_data_size := st_data_size s + jcr_data_size st,
     st_stored_data_size := st_stored_data_size s + (jcr_unique_data_size st + jcr_rewritten_chunk_size st),
     st_chunk_num := st_chunk_num s + jcr_chunk_num st,
     st_stored_chunk_num := st_stored_chunk_num s + (jcr_unique_chunk_num st + jcr_rewritten_chunk_num st),
     st_zero_chunk_num := st_zero_chunk_num s + zn,
     st_zero_chunk_size := st_zero_chunk_size s + zs,
     st_rewritten_chunk_num := st_rewritten_chunk_num s + jcr_rewritten_chunk_num st,
     st_rewritten_chunk_size := st_rewritten_chunk_size s + jcr_rewritten_chunk_size st\<rparr>"

section \<open>What is stored\<close>

definition stored_bytes :: "container list \<Rightarrow> int" where
  "stored_bytes ws = sum_list (map (\<lambda>c. cm_data_size (con_meta c)) ws)"

definition stored_chunks :: "container list \<Rightarrow> int" where
  "stored_chunks ws = sum_list (map (\<lambda>c. cm_chunk_num (con_meta c)) ws)"

lemma stored_simps [simp]:
  "stored_bytes [] = 0" "stored_bytes (xs @ ys) = stored_bytes xs + stored_bytes ys" "stored_bytes (c # cs) = cm_data_size (con_meta c) + stored_bytes cs"
  "stored_chunks [] = 0" "stored_chunks (xs @ ys) = stored_chunks xs + stored_chunks ys" "stored_chunks (c # cs) = cm_chunk_num (con_meta c) + stored_chunks cs"
  by (simp_all add: stored_bytes_def stored_chunks_def)

text \<open>The containers hold what the counters say, on top of \<open>B\<close> bytes and \<open>N\<close> chunks of earlier jobs.\<close>

definition balanced :: "int \<Rightarrow> int \<Rightarrow> filter_state \<Rightarrow> bool" where
  "balanced B N st =
     (stored_bytes (all_containers st) = B + jcr_unique_data_size st + jcr_rewritten_chunk_size st
      \<and> stored_chunks (all_containers st) = N + jcr_unique_chunk_num st + jcr_rewritten_chunk_num st
      \<and> (\<forall>b. fs_buffer st = Some b \<longrightarrow> 0 \<le> cm_chunk_num (con_meta b) \<and> (container_empty b \<longrightarrow> cm_data_size (con_meta b) = 0)))"

definition stored_num :: "filter_state \<Rightarrow> int" where
  "stored_num st = jcr_unique_chunk_num st + jcr_rewritten_chunk_num st"

text \<open>The counters of the recipe.\<close>

definition recipe_counts :: "filter_state \<Rightarrow> fileRecipeMeta option \<times> int \<times> int \<times> int" where
  "recipe_counts st = (fs_file st, jcr_chunk_num st, jcr_data_size st, jcr_file_num st)"

lemma balanced_new_buffer: "balanced B N st \<Longrightarrow> fs_buffer st = None \<Longrightarrow> balanced B N (new_buffer j st)"
  by (simp add: balanced_def new_buffer_def create_container_def all_containers_def init_container_meta_def)

lemma index_container_stats: "index_container j b st = Some st' \<Longrightarrow>
    fs_buffer st' = fs_buffer st \<and> fs_written st' = fs_written st \<and> stored_num st' = stored_num st \<and> recipe_counts st' = recipe_counts st
    \<and> (balanced B N st' = balanced B N st)"
  by (auto simp: index_container_def bind_eq_Some_conv balanced_def all_containers_def stored_num_def recipe_counts_def split: if_splits)

lemma balanced_submit:
  assumes "balanced B N st" "fs_buffer st = Some b" "write_async b st = Some st'"
  shows "balanced B N (st'\<lparr>fs_buffer := None\<rparr>)" "stored_num st' = stored_num st" "recipe_counts st' = recipe_counts st"
  using assms by (auto simp: balanced_def all_containers_def write_async_def bind_eq_Some_conv container_empty_def stored_num_def recipe_counts_def)

lemma balanced_sample [simp]: "balanced B N (st\<lparr>fs_sample := xs\<rparr>) = balanced B N st" "stored_num (st\<lparr>fs_sample := xs\<rparr>) = stored_num st"
  "recipe_counts (st\<lparr>fs_sample := xs\<rparr>) = recipe_counts st"
  by (simp_all add: balanced_def all_containers_def stored_num_def recipe_counts_def)

lemma counts_new_buffer [simp]: "stored_num (new_buffer j st) = stored_num st" "recipe_counts (new_buffer j st) = recipe_counts st"
  by (simp_all add: new_buffer_def create_container_def stored_num_def recipe_counts_def)

lemma balanced_ensure:
  assumes "balanced B N st" "ensure_container j sz st = Some st'"
  shows "balanced B N st' \<and> stored_num st' = stored_num st \<and> recipe_counts st' = recipe_counts st"
proof -
  let ?st1 = "case fs_buffer st of
       None \<Rightarrow> (if index_category1 (jb_conf j) = INDEX_CATEGORY_PHYSICAL_LOCALITY then (new_buffer j st)\<lparr>fs_sample := []\<rparr> else new_buffer j st)
     | Some _ \<Rightarrow> st"
  have 0: "balanced B N ?st1" "stored_num ?st1 = stored_num st" "recipe_counts ?st1 = recipe_counts st"
    using assms(1) balanced_new_buffer [of B N st j] by (simp_all split: option.split)
  from assms(2) obtain b where b: "fs_buffer ?st1 = Some b"
    "(if container_overflow b sz then do { st \<leftarrow> index_container j b ?st1; st \<leftarrow> write_async b st; Some (new_buffer j st) } else Some ?st1) = Some st'"
    unfolding ensure_container_def Let_def by (auto simp: bind_eq_Some_conv)
  show ?thesis
  proof (cases "container_overflow b sz")
    case False
    with b(2) 0 show ?thesis by simp
  next
    case True
    with b(2) obtain st1 st2 where i: "index_container j b ?st1 = Some st1" "write_async b st1 = Some st2" "st' = new_buffer j st2"
      by (auto simp: bind_eq_Some_conv)
    have 1: "balanced B N st1" "fs_buffer st1 = Some b" "stored_num st1 = stored_num st" "recipe_counts st1 = recipe_counts st"
      using index_container_stats [OF i(1), of B N] 0 b(1) by simp_all
    note 2 = balanced_submit [OF 1(1,2) i(2)]
    from balanced_new_buffer [OF 2(1), of j] have "balanced B N (new_buffer j (st2\<lparr>fs_buffer := None\<rparr>))" by simp
    then have "balanced B N st'" unfolding i(3) by (simp add: balanced_def new_buffer_def create_container_def all_containers_def)
    then show ?thesis using 1(3,4) 2(2,3) i(3) by simp
  qed
qed

lemma add_chunk_sizes:
  assumes "add_chunk_to_container sim b c = Some (r, b', c')"
  shows "cm_data_size (con_meta b') = cm_data_size (con_meta b) + (if r then ck_size c else 0)"
    "cm_chunk_num (con_meta b') = cm_chunk_num (con_meta b) + (if r then 1 else 0)" "ck_size c' = ck_size c" "\<not> r \<Longrightarrow> b' = b"
  using assms by (auto simp: add_chunk_to_container_def Let_def bind_eq_Some_conv split: if_splits)

lemma balanced_store_chunk:
  assumes "balanced B N st" "store_chunk j c u r st = Some (c', u', r', st')"
  shows "balanced B N st' \<and> stored_num st \<le> stored_num st' \<and> stored_num st' \<le> stored_num st + 1 \<and> recipe_counts st' = recipe_counts st"
proof -
  from assms(2) obtain st1 b added b' c1 where
    1: "ensure_container j (ck_size c) st = Some st1" "fs_buffer st1 = Some b"
      "add_chunk_to_container (simulation_level (jb_conf j)) b c = Some (added, b', c1)"
    by (auto simp: store_chunk_def bind_eq_Some_conv)
  have st': "fs_buffer st' = Some b' \<and> fs_written st' = fs_written st1
      \<and> jcr_unique_data_size st' + jcr_rewritten_chunk_size st' = jcr_unique_data_size st1 + jcr_rewritten_chunk_size st1 + (if added then ck_size c1 else 0)
      \<and> stored_num st' = stored_num st1 + (if added then 1 else 0) \<and> recipe_counts st' = recipe_counts st1"
  proof (cases added)
    case True
    with assms(2) 1 show ?thesis by (auto simp: store_chunk_def Let_def stored_num_def recipe_counts_def)
  next
    case False
    with assms(2) 1 show ?thesis by (auto simp: store_chunk_def Let_def stored_num_def recipe_counts_def bind_eq_Some_conv)
  qed
  from balanced_ensure [OF assms(1) 1(1)] have e: "balanced B N st1" "stored_num st1 = stored_num st" "recipe_counts st1 = recipe_counts st" by auto
  note s = add_chunk_sizes [OF 1(3)]
  have "balanced B N st'"
    using e(1) 1(2) st' s unfolding balanced_def all_containers_def stored_num_def container_empty_def by (auto split: if_splits)
  with st' e(2,3) show ?thesis by simp
qed

lemma balanced_filter_chunk:
  assumes "balanced B N st" "filter_chunk j c (u, r, st) = Some (c', u', r', st')"
  shows "balanced B N st' \<and> stored_num st \<le> stored_num st' \<and> stored_num st' \<le> stored_num st + (if is_file_signal c then 0 else 1)
    \<and> recipe_counts st' = recipe_counts st"
proof (cases "is_file_signal c")
  case True
  with assms show ?thesis by (auto simp: filter_chunk_def)
next
  case False
  let ?st = "st\<lparr>fs_enable_rewrite := cfl_switch (jb_conf j) (fs_monitor st) (fs_enable_rewrite st)\<rparr>"
  have f: "balanced B N ?st" "stored_num ?st = stored_num st" "recipe_counts ?st = recipe_counts st"
    using assms(1) by (simp_all add: balanced_def all_containers_def stored_num_def recipe_counts_def)
  from assms(2) False obtain c2 c3 u1 r1 st1 where
    1: "(if must_write (fs_enable_rewrite ?st) c2 then store_chunk j c2 u r ?st else Some (c2, u, r, ?st)) = Some (c3, u1, r1, st1)"
    and st': "balanced B N st' = balanced B N st1" "stored_num st' = stored_num st1" "recipe_counts st' = recipe_counts st1"
    by (auto simp: filter_chunk_def bind_eq_Some_conv Let_def balanced_def all_containers_def stored_num_def recipe_counts_def)
  from 1 balanced_store_chunk [OF f(1)] f have "balanced B N st1 \<and> stored_num st \<le> stored_num st1 \<and> stored_num st1 \<le> stored_num st + 1 \<and> recipe_counts st1 = recipe_counts st"
    by (auto split: if_splits)
  with st' False show ?thesis by simp
qed

lemma balanced_filter_chunks:
  "balanced B N st \<Longrightarrow> filter_chunks j cs (u, r, st) = Some (cs', u', r', st') \<Longrightarrow>
     balanced B N st' \<and> stored_num st \<le> stored_num st' \<and> stored_num st' \<le> stored_num st + int (length (data_chunks cs))
     \<and> recipe_counts st' = recipe_counts st"
proof (induction cs arbitrary: u r st cs' u' r' st')
  case (Cons c cs)
  from Cons.prems(2) obtain c1 u1 r1 st1 cs1 where
    1: "filter_chunk j c (u, r, st) = Some (c1, u1, r1, st1)" "filter_chunks j cs (u1, r1, st1) = Some (cs1, u', r', st')"
    by (auto simp: bind_eq_Some_conv)
  from balanced_filter_chunk [OF Cons.prems(1) 1(1)] Cons.IH [OF _ 1(2)] show ?case
    by (auto simp: data_chunks_def split: if_splits)
qed (simp add: data_chunks_def)

section \<open>What is counted\<close>

lemma recipe_chunks_counted:
  "fold_opt (recipe_chunk j) cs st = Some st' \<Longrightarrow> file_shape (fs_file st \<noteq> None) cs \<noteq> None \<Longrightarrow>
     jcr_chunk_num st' = jcr_chunk_num st + int (length (data_chunks cs))
     \<and> jcr_data_size st' = jcr_data_size st + sum_list (map ck_size (data_chunks cs))
     \<and> jcr_file_num st' = jcr_file_num st + int (length (fst (recipe_files (fs_file st) cs)))
     \<and> stored_num st' = stored_num st \<and> (balanced B N st' = balanced B N st)"
proof (induction cs arbitrary: st)
  case (Cons c cs)
  from Cons.prems(1) obtain st1 where 1: "recipe_chunk j c st = Some st1" "fold_opt (recipe_chunk j) cs st1 = Some st'"
    by (auto simp: bind_eq_Some_conv)
  have fr: "stored_num st1 = stored_num st" "balanced B N st1 = balanced B N st"
    using 1(1) by (auto simp: recipe_chunk_def bind_eq_Some_conv balanced_def all_containers_def stored_num_def split: option.splits if_splits)
  show ?case
  proof (cases "fs_file st")
    case None
    with 1(1) Cons.prems(2) obtain name where st1: "st1 = st\<lparr>fs_file := Some (new_file_recipe_meta name)\<rparr>" "ck_data c = Some name"
      "CHECK_CHUNK c CHUNK_FILE_START" "file_shape True cs \<noteq> None" by (auto simp: recipe_chunk_def bind_eq_Some_conv split: if_splits)
    with Cons.IH [OF 1(2)] None fr show ?thesis by (simp add: data_chunks_def)
  next
    case (Some r)
    show ?thesis
    proof (cases "CHECK_CHUNK c CHUNK_FILE_END")
      case True
      with 1(1) Some obtain b where st1: "st1 = st\<lparr>fs_bv := b, fs_file := None, jcr_file_num := jcr_file_num st + 1\<rparr>"
        by (auto simp: recipe_chunk_def bind_eq_Some_conv)
      with Cons.IH [OF 1(2)] Cons.prems(2) Some True fr show ?thesis by (simp add: data_chunks_def split: prod.split)
    next
      case False
      with 1(1) Some obtain b s where st1: "st1 = st\<lparr>fs_bv := b, fs_statics := s,
          fs_file := Some (r\<lparr>fr_chunknum := fr_chunknum r + 1, fr_filesize := fr_filesize r + ck_size c\<rparr>),
          jcr_chunk_num := jcr_chunk_num st + 1, jcr_data_size := jcr_data_size st + ck_size c\<rparr>"
        by (auto simp: recipe_chunk_def bind_eq_Some_conv)
      with Cons.IH [OF 1(2)] Cons.prems(2) Some False fr show ?thesis by (auto simp: data_chunks_def split: if_splits)
    qed
  qed
qed (simp add: data_chunks_def)

lemma write_recipe_counted:
  assumes "write_recipe j s st = Some (sid, st')" "file_shape (fs_file st \<noteq> None) (sg_chunks s) \<noteq> None"
  shows "jcr_chunk_num st' = jcr_chunk_num st + int (length (data_chunks (sg_chunks s)))
     \<and> jcr_data_size st' = jcr_data_size st + sum_list (map ck_size (data_chunks (sg_chunks s)))
     \<and> jcr_file_num st' = jcr_file_num st + int (length (fst (recipe_files (fs_file st) (sg_chunks s))))
     \<and> stored_num st' = stored_num st \<and> (balanced B N st' = balanced B N st)"
proof -
  from assms(1) obtain b st1 b1 where 1: "fold_opt (recipe_chunk j) (sg_chunks s) (st\<lparr>fs_bv := b\<rparr>) = Some st1" "st' = st1\<lparr>fs_bv := b1\<rparr>"
    by (auto simp: write_recipe_def bind_eq_Some_conv)
  have f: "balanced B N (x\<lparr>fs_bv := y\<rparr>) = balanced B N x" "stored_num (x\<lparr>fs_bv := y\<rparr>) = stored_num x" for x y
    by (simp_all add: balanced_def all_containers_def stored_num_def)
  from recipe_chunks_counted [OF 1(1), of B N] assms(2) 1(2) f show ?thesis by simp
qed

text \<open>The state of a job after the segments \<open>out\<close>.\<close>

definition counted :: "int \<Rightarrow> int \<Rightarrow> chunk list \<Rightarrow> filter_state \<Rightarrow> bool" where
  "counted B N cs st =
     (balanced B N st \<and> 0 \<le> stored_num st \<and> stored_num st \<le> int (length (data_chunks cs))
      \<and> jcr_chunk_num st = int (length (data_chunks cs)) \<and> jcr_data_size st = sum_list (map ck_size (data_chunks cs))
      \<and> jcr_file_num st = int (length (fst (recipe_files None cs))))"

lemma counted_segment:
  assumes "counted B N cs st" "filter_segment j s st = Some (full, s', st')" "file_shape (fs_file st \<noteq> None) (sg_chunks s) \<noteq> None"
    and "fs_file st = snd (recipe_files None cs)" "list_all2 same_chunk (sg_chunks s) (sg_chunks s')"
  shows "counted B N (cs @ sg_chunks s') st'"
proof -
  from assms(2) obtain s1 cs1 u r st1 ix sid st2 ix2 where
    1: "index_check_buffer (fs_ix st) s = Some s1" "filter_chunks j (sg_chunks s1) ([], [], st) = Some (cs1, u, r, st1)"
    "write_recipe j (s1\<lparr>sg_chunks := cs1\<rparr>) (st1\<lparr>fs_ix := ix\<rparr>) = Some (sid, st2)" "st' = st2\<lparr>fs_ix := ix2\<rparr>" "s' = s1\<lparr>sg_chunks := cs1\<rparr>"
    by (auto simp: filter_segment_def bind_eq_Some_conv Let_def)
  have f: "balanced B N (x\<lparr>fs_ix := y\<rparr>) = balanced B N x" "stored_num (x\<lparr>fs_ix := y\<rparr>) = stored_num x" for x y
    by (simp_all add: balanced_def all_containers_def stored_num_def)
  have n: "length (data_chunks ys) = length (data_chunks xs)" if "list_all2 same_chunk xs ys" for xs ys
    using that by (induction rule: list_all2_induct) (auto simp: data_chunks_def dest: same_chunk_signal)
  have b: "balanced B N st1" "stored_num st \<le> stored_num st1" "stored_num st1 \<le> stored_num st + int (length (data_chunks cs1))"
    "recipe_counts st1 = recipe_counts st"
    using balanced_filter_chunks [OF _ 1(2), of B N] assms(1) n [OF check_buffer_chunks [OF 1(1)]] n [OF assms(5)] 1(5) by (auto simp: counted_def)
  have "file_shape (fs_file (st1\<lparr>fs_ix := ix\<rparr>) \<noteq> None) (sg_chunks (s1\<lparr>sg_chunks := cs1\<rparr>)) \<noteq> None"
    using file_shape_same [OF assms(5)] assms(3) 1(5) b(4) by (simp add: recipe_counts_def)
  note w = write_recipe_counted [OF 1(3) this, of B N]
  have d: "data_chunks (cs @ cs1) = data_chunks cs @ data_chunks cs1" by (simp add: data_chunks_def)
  show ?thesis
    using assms(1,4) b w f unfolding counted_def 1(4,5) recipe_files_append by (simp add: d recipe_counts_def)
qed

lemma counted_start:
  assumes "fs_buffer st = None" "stored_num st = 0" "recipe_counts st = (None, 0, 0, 0)" "jcr_unique_data_size st + jcr_rewritten_chunk_size st = 0"
  shows "counted (stored_bytes (fs_written st)) (stored_chunks (fs_written st)) [] st"
  using assms by (simp add: counted_def balanced_def stored_num_def recipe_counts_def all_containers_def data_chunks_def)

lemma counted_reach:
  assumes "start_ok sha j ptrs b0" "job_conf j" "counted B N [] (bs_st b0)" "backup_reach j ptrs b0 b"
  shows "counted B N (chunks_of (bs_out b)) (bs_st b)"
  using assms(4)
proof induction
  case start
  with assms(1,3) show ?case by (simp add: start_ok_def)
next
  case (step b1 b2)
  from step.hyps(2) show ?case
  proof cases
    case (filter_step s later full s' st)
    have inv: "backup_inv sha j ptrs (bs_todo b0) b1" by (rule backup_inv_reach [OF step.hyps(1) assms(1,2)])
    have inp: "input_ok sha j (bs_todo b0)" using assms(1) by (simp add: start_ok_def)
    have so: "segment_ok sha j s (fs_file (bs_st b1))" by (rule flight_segment_ok [OF inv inp filter_step(2)])
    have f: "filter_inv sha j (data_chunks (sg_chunks s) @ data_chunks (chunks_of later)) (fst (recipe_files None (chunks_of (bs_out b1)))) (ptrs_of (bs_out b1)) (bs_st b1)"
      and fi: "fs_file (bs_st b1) = snd (recipe_files None (chunks_of (bs_out b1)))"
      and cnt: "fs_count (bs_st b1) + int (length (sg_chunks s)) \<le> 2 ^ 40"
      using inv filter_step(2) by (simp_all add: backup_inv_def)
    from filter_segment_ok [OF f so _ cnt] assms(2) filter_step(3) have same: "list_all2 same_chunk (sg_chunks s) (sg_chunks s')"
      by (auto simp: job_conf_def)
    from counted_segment [OF step.IH filter_step(3) _ fi same] so filter_step(1) show ?thesis by (simp add: segment_ok_def)
  qed (use step.IH in \<open>auto simp: counted_def balanced_def all_containers_def stored_num_def\<close>)
qed

lemma counted_finish:
  assumes "counted B N cs st" "filter_finish j st = Some st'"
  shows "counted B N cs st'" "stored_bytes (fs_written st') = B + jcr_unique_data_size st' + jcr_rewritten_chunk_size st'"
    "stored_chunks (fs_written st') = N + jcr_unique_chunk_num st' + jcr_rewritten_chunk_num st'"
proof -
  have "counted B N cs st' \<and> stored_bytes (fs_written st') = stored_bytes (all_containers st') \<and> stored_chunks (fs_written st') = stored_chunks (all_containers st')"
  proof (cases "fs_buffer st")
    case None
    with assms show ?thesis by (auto simp: filter_finish_def all_containers_def)
  next
    case (Some b)
    show ?thesis
    proof (cases "container_empty b")
      case True
      with assms Some show ?thesis by (auto simp: filter_finish_def all_containers_def counted_def balanced_def container_empty_def)
    next
      case False
      with assms(2) Some obtain st1 st2 where i: "index_container j b st = Some st1" "write_async b st1 = Some st2" "st' = st2\<lparr>fs_buffer := None\<rparr>"
        by (auto simp: filter_finish_def bind_eq_Some_conv)
      have 1: "balanced B N st1" "fs_buffer st1 = Some b" "stored_num st1 = stored_num st" "recipe_counts st1 = recipe_counts st"
        using index_container_stats [OF i(1), of B N] assms(1) Some by (auto simp: counted_def)
      note 2 = balanced_submit [OF 1(1,2) i(2)]
      have "stored_num st' = stored_num st2" "recipe_counts st' = recipe_counts st2" by (simp_all add: i(3) stored_num_def recipe_counts_def)
      with 1(3,4) 2 assms(1) i(3) show ?thesis by (simp add: counted_def recipe_counts_def all_containers_def)
    qed
  qed
  then show "counted B N cs st'" "stored_bytes (fs_written st') = B + jcr_unique_data_size st' + jcr_rewritten_chunk_size st'"
    "stored_chunks (fs_written st') = N + jcr_unique_chunk_num st' + jcr_rewritten_chunk_num st'"
    by (simp_all add: counted_def balanced_def)
qed

end
