(* ===== verification/History.thy ===== *)
theory History
  imports End_To_End Job_Stats
begin

unbundle bit_operations_syntax

text \<open>
  Backup jobs one after the other on the same store (\<^verbatim>\<open>do_backup.c\<close>): what a job finds when it starts, what it
  leaves when it ends, and that every version stays restorable while later jobs deduplicate against it. Jobs may
  differ in their configuration; data is written (no simulation). \<^verbatim>\<open>destor_write\<close> in \<^verbatim>\<open>destor_server.c\<close> runs a job in the
  same way.
\<close>

section \<open>Start and end of a job\<close>

text \<open>The files of the store. \<open>hs_sys\<close> is the container store, opened; its list of containers handed over is
  the content of the pool.\<close>

record backup_store =
  hs_sys :: append_sys
  hs_versions :: "int \<rightharpoonup> bv_files"
  hs_count :: "byte list option"
  hs_htable :: "byte list option"
  hs_stats :: destor_stats

definition empty_store :: backup_store where
  "empty_store = \<lparr>hs_sys = append_init, hs_versions = Map.empty, hs_count = None, hs_htable = None,
     hs_stats = no_stats\<rparr>"

text \<open>The job control record of a backup: the identifier of the job is the number of its version.\<close>

definition init_backup_jcr :: "bool \<Rightarrow> byte list \<Rightarrow> recipe_statics \<Rightarrow> (int \<times> backupVersion \<times> recipe_statics) option" where
  "init_backup_jcr be path st = do { (b, st) \<leftarrow> create_backup_version be path st; Some (bv_num b, b, st) }"

definition start_backup ::
    "job \<Rightarrow> byte list \<Rightarrow> segment list \<Rightarrow> recipe_statics \<Rightarrow> backup_store \<Rightarrow> backup_sys option" where
  "start_backup j path ss st h = do {
     st \<leftarrow> init_recipe_store (jb_be j) (hs_count h) st;
     (d, ix) \<leftarrow> init_index (jb_be j) (hs_htable h) (jb_conf j);
     (_, b, st) \<leftarrow> init_backup_jcr (jb_be j) path st;
     Some \<lparr>bs_todo = ss, bs_flight = [], bs_out = [],
           bs_st = start_filter_phase d (container_count (ap_store (hs_sys h))) (ap_submitted (hs_sys h)) b st ix\<rparr>
   }"

text \<open>\<open>zn\<close>, \<open>zs\<close>: the counters of the chunk phase; \<open>s\<close>: the container store when its thread has stopped. It is closed and, for the next job, opened again.\<close>

definition end_backup ::
    "job \<Rightarrow> (kvstore \<Rightarrow> kvstore) \<Rightarrow> int \<Rightarrow> int \<Rightarrow> filter_state \<Rightarrow> append_sys \<Rightarrow> backup_store \<Rightarrow> backup_store option" where
  "end_backup j okv zn zs st s h = do {
     let dump = close_kvstore_htable (jb_be j) okv (jb_conf j) (ix_kv (fs_ix st));
     cst \<leftarrow> init_container_store (jb_be j) (Some (close_container_store (jb_be j) (ap_store s)));
     let cnt = close_recipe_store (jb_be j) (fs_statics st);
     let (b, _) = update_backup_version (jb_be j) (fs_bv st) (fs_statics st);
     Some \<lparr>hs_sys = s\<lparr>ap_open := None, ap_buffer := sync_queue_new 25, ap_store := cst, ap_pc := Idle\<rparr>,
           hs_versions = free_backup_version b (hs_versions h), hs_count = Some cnt, hs_htable = Some dump,
           hs_stats = add_job_stats zn zs st (hs_stats h)\<rparr>
   }"

text \<open>The static variables of the recipe store when the program starts.\<close>

definition program_start :: "recipe_statics \<Rightarrow> bool" where
  "program_start st = (backup_version_count st = 0 \<and> access_record st = TEMPORARY_ID)"

definition backup_conf :: "bool \<Rightarrow> job \<Rightarrow> bool" where
  "backup_conf be j = (job_conf j \<and> jb_be j = be \<and> simulation_level (jb_conf j) = SIMULATION_NO \<and> init_index_config (jb_conf j) = Some (jb_conf j))"

text \<open>A history of jobs: \<open>ptrs\<close> are the chunk pointers of all recipes, \<open>vs\<close> the versions with the chunks they
  were given.\<close>

inductive backups ::
    "(byte list \<Rightarrow> fingerprint) \<Rightarrow> bool \<Rightarrow> ((fingerprint \<times> metaEntry) list \<Rightarrow> (fingerprint \<times> metaEntry) list) \<Rightarrow>
     backup_store \<Rightarrow> chunkPointer set \<Rightarrow> (int \<times> chunk list) list \<Rightarrow> bool"
  for sha be ord where
  no_backup: "backups sha be ord empty_store {} []"
| next_backup: "backups sha be ord h ptrs vs \<Longrightarrow> backup_conf be j \<Longrightarrow> input_ok sha j ss \<Longrightarrow> program_start st0 \<Longrightarrow>
     0 \<notin> set path \<Longrightarrow> length path < 2 ^ 31 \<Longrightarrow> length vs < 2 ^ 31 - 1 \<Longrightarrow>
     container_count (ap_store (hs_sys h)) + int (length (chunks_of ss)) \<le> 2 ^ 40 \<Longrightarrow>
     start_backup j path ss st0 h = Some b0 \<Longrightarrow>
     backup_reach j ptrs b0 b \<Longrightarrow> bs_todo b = [] \<Longrightarrow> bs_flight b = [] \<Longrightarrow>
     filter_finish j (bs_st b) = Some st \<Longrightarrow>
     (append_step be ord SIMULATION_NO)\<^sup>*\<^sup>* (hs_sys h) s \<Longrightarrow> ap_pc s = Stopped \<Longrightarrow> ap_submitted s = fs_written st \<Longrightarrow>
     end_backup j okv zn zs st s h = Some h' \<Longrightarrow>
     backups sha be ord h' (ptrs \<union> set (concat (ptrs_of (bs_out b)))) (vs @ [(bv_num (fs_bv (bs_st b0)), chunks_of ss)])"

section \<open>The counter of versions\<close>

lemma append_statics:
  "append_n_chunk_pointers be b [cp] st = Some (b', st') \<Longrightarrow> backup_version_count st' = backup_version_count st"
  by (auto simp: append_n_chunk_pointers_def append_chunk_pointer_def bind_eq_Some_conv Let_def split: if_splits)

lemma recipe_chunk_statics: "recipe_chunk j c st = Some st' \<Longrightarrow> backup_version_count (fs_statics st') = backup_version_count (fs_statics st)"
  by (auto simp: recipe_chunk_def bind_eq_Some_conv dest: append_statics split: option.splits if_splits)

lemma write_recipe_statics: "write_recipe j s st = Some (i, st') \<Longrightarrow> backup_version_count (fs_statics st') = backup_version_count (fs_statics st)"
proof -
  have "fold_opt (recipe_chunk j) cs x = Some y \<Longrightarrow> backup_version_count (fs_statics y) = backup_version_count (fs_statics x)" for cs x y
    by (induction cs arbitrary: x) (auto simp: bind_eq_Some_conv dest!: recipe_chunk_statics)
  then show "write_recipe j s st = Some (i, st') \<Longrightarrow> backup_version_count (fs_statics st') = backup_version_count (fs_statics st)"
    by (force simp: write_recipe_def bind_eq_Some_conv)
qed

lemma ensure_container_statics: "ensure_container j sz st = Some st' \<Longrightarrow> fs_statics st' = fs_statics st"
proof -
  assume e: "ensure_container j sz st = Some st'"
  have n: "fs_statics (new_buffer j x) = fs_statics x" for x by (simp add: new_buffer_def create_container_def)
  have "fs_statics y = fs_statics x" if "index_container j b x = Some y \<or> write_async b x = Some y" for b x y
    using that by (auto simp: index_container_def write_async_def bind_eq_Some_conv split: if_splits)
  with e n show ?thesis by (force simp: ensure_container_def bind_eq_Some_conv Let_def split: if_splits option.splits)
qed

lemma store_chunk_statics: "store_chunk j c u r st = Some (c', u', r', st') \<Longrightarrow> fs_statics st' = fs_statics st"
  by (auto simp: store_chunk_def bind_eq_Some_conv Let_def dest!: ensure_container_statics split: if_splits)

lemma filter_chunk_statics: "filter_chunk j c (u, r, st) = Some (c', u', r', st') \<Longrightarrow> fs_statics st' = fs_statics st"
proof (cases "is_file_signal c")
  case False
  assume f: "filter_chunk j c (u, r, st) = Some (c', u', r', st')"
  let ?st = "st\<lparr>fs_enable_rewrite := cfl_switch (jb_conf j) (fs_monitor st) (fs_enable_rewrite st)\<rparr>"
  from f False obtain c2 c3 u1 r1 st1 where
    "(if must_write (fs_enable_rewrite ?st) c2 then store_chunk j c2 u r ?st else Some (c2, u, r, ?st)) = Some (c3, u1, r1, st1)"
    and st': "fs_statics st' = fs_statics st1"
    by (auto simp: filter_chunk_def bind_eq_Some_conv Let_def)
  then have "fs_statics st1 = fs_statics ?st" by (auto dest: store_chunk_statics split: if_splits)
  with st' show ?thesis by simp
qed (auto simp: filter_chunk_def)

lemma filter_chunks_statics: "filter_chunks j cs (u, r, st) = Some (cs', u', r', st') \<Longrightarrow> fs_statics st' = fs_statics st"
  by (induction cs arbitrary: u r st cs' u' r' st') (fastforce simp: bind_eq_Some_conv dest: filter_chunk_statics)+

lemma filter_segment_statics:
  "filter_segment j s st = Some (full, s', st') \<Longrightarrow> backup_version_count (fs_statics st') = backup_version_count (fs_statics st)"
  by (auto simp: filter_segment_def bind_eq_Some_conv Let_def dest!: filter_chunks_statics write_recipe_statics)

lemma backup_count: "backup_reach j ptrs b0 b \<Longrightarrow> backup_version_count (fs_statics (bs_st b)) = backup_version_count (fs_statics (bs_st b0))"
proof (induction rule: backup_reach.induct)
  case (step b1 b2)
  from step.hyps(2) have "backup_version_count (fs_statics (bs_st b2)) = backup_version_count (fs_statics (bs_st b1))"
    by cases (auto dest: filter_segment_statics)
  with step.IH show ?case by simp
qed simp

lemma count_file: "int32_range (backup_version_count st) \<Longrightarrow>
    init_recipe_store be (Some (close_recipe_store be st)) st0 = Some (st0\<lparr>backup_version_count := backup_version_count st\<rparr>)"
  by (simp add: init_recipe_store_def close_recipe_store_def s_read_int_def s_read_def int32_range_def sint_int_32 del: word_bytes_numeral)

section \<open>What a history leaves\<close>

definition ws_holds :: "container list \<Rightarrow> location" where
  "ws_holds ws i fp = (\<exists>c \<in> set ws. get_container_id c = i \<and> lookup_fingerprint_in_container c fp)"

definition version_stored ::
    "(byte list \<Rightarrow> fingerprint) \<Rightarrow> bool \<Rightarrow> container list \<Rightarrow> (int \<rightharpoonup> bv_files) \<Rightarrow> int \<Rightarrow> chunk list \<Rightarrow> bool" where
  "version_stored sha be ws fs n cs = (\<exists>b0 st0 b1 st1 segs out. list_all2 same_chunk cs out
     \<and> (\<forall>c \<in> set cs. chunk_good SIMULATION_NO sha c) \<and> file_shape False cs = Some False \<and> int (length cs) \<le> 2 ^ 40
     \<and> (\<forall>c \<in> set out. resolved (ws_holds ws) c)
     \<and> bv_holds be b0 st0 (fst (recipe_files None out)) segs \<and> concat segs = map ptr_of (data_chunks out)
     \<and> version_ok b0 \<and> bv_num b0 = n \<and> update_backup_version be b0 st0 = (b1, st1) \<and> fs n = free_backup_version b1 Map.empty n)"

definition history_data :: "(int \<times> chunk list) list \<Rightarrow> byte list set" where
  "history_data vs = (\<Union>(n, cs) \<in> set vs. input_data cs)"

definition history_inv ::
    "(byte list \<Rightarrow> fingerprint) \<Rightarrow> bool \<Rightarrow> ((fingerprint \<times> metaEntry) list \<Rightarrow> (fingerprint \<times> metaEntry) list) \<Rightarrow>
     backup_store \<Rightarrow> chunkPointer set \<Rightarrow> (int \<times> chunk list) list \<Rightarrow> bool" where
  "history_inv sha be ord h ptrs vs = (let s = hs_sys h; ws = ap_submitted s in
     append_reach be ord SIMULATION_NO s \<and> ap_open s = None \<and> ap_pc s = Idle \<and> ap_buffer s = sync_queue_new 25
     \<and> (\<forall>c \<in> set ws. con_good SIMULATION_NO sha c) \<and> stored_data ws \<subseteq> history_data vs
     \<and> (\<forall>cp \<in> ptrs. ws_holds ws (cp_id cp) (cp_fp cp))
     \<and> (\<forall>(n, cs) \<in> set vs. version_stored sha be ws (hs_versions h) n cs)
     \<and> map fst vs = map int [0..<length vs] \<and> length vs < 2 ^ 31
     \<and> (if vs = [] then hs_count h = None
        else \<exists>st. hs_count h = Some (close_recipe_store be st) \<and> backup_version_count st = int (length vs)))"

lemma dir_of_part: "dir_of path = Some p \<Longrightarrow> set p \<subseteq> set path \<and> length p \<le> length path"
proof -
  assume "dir_of path = Some p"
  then have p: "p = rev (dropWhile (\<lambda>b. b \<noteq> 47) (rev path))" by (simp add: dir_of_def split: if_splits)
  have "set (dropWhile (\<lambda>b. b \<noteq> 47) (rev path)) \<subseteq> set (rev path)" by (rule subsetI, rule set_dropWhileD)
  with length_dropWhile_le [of "\<lambda>b. b \<noteq> 47" "rev path"] show ?thesis unfolding p by simp
qed

lemma new_cache_sound: "cache_sound holds (init_fingerprint_cache d)"
  by (cases "index_category1 d") (simp_all add: init_fingerprint_cache_def cache_sound_def lru_inv_new, simp_all add: new_lru_cache_def)

lemma start_backup_ok:
  assumes inv: "history_inv sha be ord h ptrs vs" and ord: "\<And>t. mset (ord t) = mset t"
    and j: "backup_conf be j" and inp: "input_ok sha j ss" and st0: "program_start st0"
    and path: "0 \<notin> set path" "length path < 2 ^ 31"
    and cnt: "container_count (ap_store (hs_sys h)) + int (length (chunks_of ss)) \<le> 2 ^ 40"
    and b0: "start_backup j path ss st0 h = Some b0"
  shows "start_ok sha j ptrs b0" "version_ok (fs_bv (bs_st b0))" "bv_num (fs_bv (bs_st b0)) = int (length vs)"
    "backup_version_count (fs_statics (bs_st b0)) = int (length vs) + 1" "bs_todo b0 = ss"
    "fs_written (bs_st b0) = ap_submitted (hs_sys h)"
    "history_data vs \<subseteq> X \<Longrightarrow> drives (hs_sys h) X be ord SIMULATION_NO (bs_st b0) (hs_sys h)"
proof -
  note h = inv [unfolded history_inv_def Let_def]
  have c: "jb_be j = be" "init_index_config (jb_conf j) = Some (jb_conf j)" "simulation_level (jb_conf j) = SIMULATION_NO"
    using j by (simp_all add: backup_conf_def)
  have len: "int32_range (int (length vs))" using h by (simp add: int32_range_def)
  have "\<exists>st. init_recipe_store be (hs_count h) st0 = Some st \<and> backup_version_count st = int (length vs) \<and> access_record st = TEMPORARY_ID"
  proof (cases "vs = []")
    case True
    with h st0 show ?thesis by (simp add: init_recipe_store_def program_start_def)
  next
    case False
    with h obtain st where st: "hs_count h = Some (close_recipe_store be st)" "backup_version_count st = int (length vs)" by auto
    with count_file [of st be st0] len st0 show ?thesis by (simp add: program_start_def)
  qed
  then obtain st where st: "init_recipe_store be (hs_count h) st0 = Some st" "backup_version_count st = int (length vs)" "access_record st = TEMPORARY_ID" by blast
  from b0 st(1) obtain ix b st2 where
    i: "init_index be (hs_htable h) (jb_conf j) = Some (jb_conf j, ix)" "create_backup_version be path st = Some (b, st2)"
    and e: "b0 = \<lparr>bs_todo = ss, bs_flight = [], bs_out = [],
           bs_st = start_filter_phase (jb_conf j) (container_count (ap_store (hs_sys h))) (ap_submitted (hs_sys h)) b st2 ix\<rparr>"
    using c(1,2) by (auto simp: start_backup_def init_backup_jcr_def init_index_def bind_eq_Some_conv)
  have ix: "buffered_fingerprints ix = []" "ix_chunk_num ix = 0" "ix_cache ix = init_fingerprint_cache (jb_conf j)"
    using i(1) c(2) by (auto simp: init_index_def bind_eq_Some_conv)
  note cr = create_holds [OF i(2) st(3)]
  have a: "append_inv be SIMULATION_NO (hs_sys h)" using append_inv_reach [where ord = ord, OF _ ord] h by blast
  have sh: "st_holds (bs_st b0) = ws_holds (ap_submitted (hs_sys h))"
    by (simp add: fun_eq_iff st_holds_def ws_holds_def all_containers_def e start_filter_phase_def)
  have "store_inv SIMULATION_NO sha (bs_st b0)"
    using a h by (simp add: store_inv_def all_containers_def e start_filter_phase_def append_inv_def)
  moreover have "pending_inv (st_holds (bs_st b0)) (buf_has None) [] ix"
    by (simp add: pending_inv_def ix fp_inv_def occ_def)
  ultimately have "filter_inv sha j [] [] [] (bs_st b0)"
    using cr mon_inv_init c(1,3) by (simp add: filter_inv_def e start_filter_phase_def)
  then show "start_ok sha j ptrs b0"
    using h inp cnt new_cache_sound unfolding start_ok_def sh by (simp add: e start_filter_phase_def ix)
  show "version_ok (fs_bv (bs_st b0))"
    using cr dir_of_part [of path "bv_path b"] path len st(2) by (auto simp: version_ok_def e start_filter_phase_def int32_range_def)
  show "bv_num (fs_bv (bs_st b0)) = int (length vs)" "backup_version_count (fs_statics (bs_st b0)) = int (length vs) + 1" "bs_todo b0 = ss"
    "fs_written (bs_st b0) = ap_submitted (hs_sys h)"
    using cr st(2) by (simp_all add: e start_filter_phase_def)
  show "drives (hs_sys h) X be ord SIMULATION_NO (bs_st b0) (hs_sys h)" if "history_data vs \<subseteq> X"
    using h that unfolding drives_def append_run_def by (auto simp: e start_filter_phase_def all_containers_def sync_queue_new_def)
qed

lemma ws_holds_mono: "ws_holds ws i fp \<Longrightarrow> set ws \<subseteq> set ws' \<Longrightarrow> ws_holds ws' i fp"
  by (auto simp: ws_holds_def)

lemma version_stored_mono:
  assumes "version_stored sha be ws fs n cs" "set ws \<subseteq> set ws'" "fs' n = fs n"
  shows "version_stored sha be ws' fs' n cs"
proof -
  have "resolved (ws_holds ws') c" if "resolved (ws_holds ws) c" for c
    using that ws_holds_mono [OF _ assms(2)] by (auto simp: resolved_def)
  with assms(1,3) show ?thesis unfolding version_stored_def by metis
qed

lemma append_steps:
  assumes "(append_step be ord sim)\<^sup>*\<^sup>* s t" "append_reach be ord sim s"
  shows "append_reach be ord sim t \<and> set (ap_submitted s) \<subseteq> set (ap_submitted t)"
  using assms(1)
proof induction
  case (step t u)
  from step.hyps(2) have "set (ap_submitted t) \<subseteq> set (ap_submitted u)" by cases auto
  with step append_next show ?case by blast
qed (use assms(2) in simp)

lemma history_data_append [simp]: "history_data (vs @ [(n, cs)]) = history_data vs \<union> input_data cs" "history_data [] = {}"
  by (auto simp: history_data_def)

lemma update_num: "update_backup_version be b st = (b1, st1) \<Longrightarrow> bv_num b1 = bv_num b"
proof -
  have "bv_num (flush_metabuf x) = bv_num x" "bv_num (flush_recordbuf x) = bv_num x" for x
    by (simp_all add: flush_metabuf_def flush_recordbuf_def split: option.splits)
  then show "update_backup_version be b st = (b1, st1) \<Longrightarrow> bv_num b1 = bv_num b"
    by (auto simp: update_backup_version_def Let_def)
qed

lemma history_empty: "history_inv sha be ord empty_store {} []"
  by (simp add: history_inv_def empty_store_def append_start) (simp add: append_init_def)

text \<open>What is true when a job has ended.\<close>

lemma backup_done:
  assumes inv: "history_inv sha be ord h ptrs vs" and ord: "\<And>t. mset (ord t) = mset t"
    and j: "backup_conf be j" and inp: "input_ok sha j ss" and st0: "program_start st0"
    and path: "0 \<notin> set path" "length path < 2 ^ 31"
    and cnt: "container_count (ap_store (hs_sys h)) + int (length (chunks_of ss)) \<le> 2 ^ 40"
    and b0: "start_backup j path ss st0 h = Some b0"
    and run: "backup_reach j ptrs b0 b" "bs_todo b = []" "bs_flight b = []" "filter_finish j (bs_st b) = Some st"
    and up: "update_backup_version be (fs_bv st) (fs_statics st) = (b1, st1)"
    and ws: "set (ap_submitted (hs_sys h)) \<subseteq> set (fs_written st)"
  shows "\<forall>c \<in> set (fs_written st). con_good SIMULATION_NO sha c"
    "stored_data (fs_written st) \<subseteq> history_data vs \<union> input_data (chunks_of ss)"
    "\<forall>cp \<in> ptrs \<union> set (concat (ptrs_of (bs_out b))). ws_holds (fs_written st) (cp_id cp) (cp_fp cp)"
    "version_stored sha be (fs_written st) (free_backup_version b1 fs) (int (length vs)) (chunks_of ss)"
    "backup_version_count (fs_statics st) = int (length vs) + 1"
    "bv_num b1 = int (length vs)"
proof -
  note s = start_backup_ok [OF inv ord j inp st0 path cnt b0]
  let ?in = "chunks_of ss" and ?X = "history_data vs \<union> input_data (chunks_of ss)"
  have c: "job_conf j" "simulation_level (jb_conf j) = SIMULATION_NO" "jb_be j = be" using j by (simp_all add: backup_conf_def)
  have bi: "backup_inv sha j ptrs ss b" using backup_inv_reach [OF run(1) s(1) c(1)] s(5) by simp
  have same: "list_all2 same_chunk ?in (chunks_of (bs_out b))" using bi run(2,3) by (simp add: backup_inv_def)
  have store: "store_inv SIMULATION_NO sha (bs_st b)" "\<forall>c \<in> set (chunks_of (bs_out b)). resolved (st_holds (bs_st b)) c"
    "bv_holds be (fs_bv (bs_st b)) (fs_statics (bs_st b)) (fst (recipe_files None (chunks_of (bs_out b)))) (ptrs_of (bs_out b))"
    "\<forall>cp \<in> ptrs. st_holds (bs_st b) (cp_id cp) (cp_fp cp)"
    using bi c(2,3) by (auto simp: backup_inv_def filter_inv_def)
  from finish_ok [OF store(1), of j] c(1) run(4) have fin: "fs_bv st = fs_bv (bs_st b)" "fs_statics st = fs_statics (bs_st b)"
    "\<forall>c \<in> set (fs_written st). con_good SIMULATION_NO sha c"
    "\<And>i fp. st_holds (bs_st b) i fp \<Longrightarrow> ws_holds (fs_written st) i fp"
    by (auto simp: job_conf_def ws_holds_def)
  show "\<forall>c \<in> set (fs_written st). con_good SIMULATION_NO sha c" by (rule fin(3))
  have lv: "simulation_level (jb_conf j) < SIMULATION_APPEND" using c(2) by (simp add: less_simulation_level_def)
  have d0: "drives (hs_sys h) ?X be ord (simulation_level (jb_conf j)) (bs_st b0) (hs_sys h)" using s(7) [of ?X] c(2) by simp
  from drives_reach [where ord = ord, OF s(1) c(1) lv ord d0 run(1)] s(5) obtain t where
    "drives (hs_sys h) ?X be ord (simulation_level (jb_conf j)) (bs_st b) t" by auto
  from drives_finish [where ord = ord, OF this ord run(4)] show "stored_data (fs_written st) \<subseteq> ?X"
    by (auto simp: drives_def all_containers_def)
  have res: "\<forall>c \<in> set (chunks_of (bs_out b)). resolved (ws_holds (fs_written st)) c" using store(2) fin(4) by (auto simp: resolved_def)
  then have "\<forall>cp \<in> set (concat (ptrs_of (bs_out b))). ws_holds (fs_written st) (cp_id cp) (cp_fp cp)"
    unfolding concat_ptrs_of by (auto simp: ptr_of_def data_chunks_def resolved_def)
  with store(4) fin(4) show "\<forall>cp \<in> ptrs \<union> set (concat (ptrs_of (bs_out b))). ws_holds (fs_written st) (cp_id cp) (cp_fp cp)" by blast
  have v: "version_ok (fs_bv st)" "bv_num (fs_bv st) = int (length vs)"
    using backup_version [OF run(1)] fin(1) s(2,3) by (simp_all add: same_version_def version_ok_def)
  show n: "bv_num b1 = int (length vs)"
    using update_num [OF up] v(2) by simp
  have good: "\<forall>c \<in> set ?in. chunk_good SIMULATION_NO sha c" "file_shape False ?in = Some False" using inp c(2) by (auto simp: input_ok_def)
  have "0 \<le> container_count (ap_store (hs_sys h))"
    using append_inv_reach [where ord = ord, OF _ ord] inv by (auto simp: history_inv_def append_inv_def Let_def)
  with cnt have len: "int (length ?in) \<le> 2 ^ 40" by simp
  have f: "free_backup_version b1 fs (int (length vs)) = free_backup_version b1 Map.empty (int (length vs))" using n by (simp add: free_backup_version_def)
  show "version_stored sha be (fs_written st) (free_backup_version b1 fs) (int (length vs)) ?in"
    unfolding version_stored_def
    using same good len res store(3) [folded fin(1,2)] concat_ptrs_of v up f by blast
  show "backup_version_count (fs_statics st) = int (length vs) + 1" using backup_count [OF run(1)] fin(2) s(4) by simp
qed

lemma history_next:
  assumes inv: "history_inv sha be ord h ptrs vs" and ord: "\<And>t. mset (ord t) = mset t"
    and j: "backup_conf be j" and inp: "input_ok sha j ss" and st0: "program_start st0"
    and path: "0 \<notin> set path" "length path < 2 ^ 31" and vs: "length vs < 2 ^ 31 - 1"
    and cnt: "container_count (ap_store (hs_sys h)) + int (length (chunks_of ss)) \<le> 2 ^ 40"
    and b0: "start_backup j path ss st0 h = Some b0"
    and run: "backup_reach j ptrs b0 b" "bs_todo b = []" "bs_flight b = []" "filter_finish j (bs_st b) = Some st"
    and s: "(append_step be ord SIMULATION_NO)\<^sup>*\<^sup>* (hs_sys h) s" "ap_pc s = Stopped" "ap_submitted s = fs_written st"
    and e: "end_backup j okv zn zs st s h = Some h'"
  shows "history_inv sha be ord h' (ptrs \<union> set (concat (ptrs_of (bs_out b)))) (vs @ [(bv_num (fs_bv (bs_st b0)), chunks_of ss)])"
proof -
  note h = inv [unfolded history_inv_def Let_def]
  have be: "jb_be j = be" using j by (simp add: backup_conf_def)
  have ap: "append_reach be ord SIMULATION_NO s" "set (ap_submitted (hs_sys h)) \<subseteq> set (fs_written st)"
    using append_steps [OF s(1)] h s(3) by auto
  obtain b1 st1 where up: "update_backup_version be (fs_bv st) (fs_statics st) = (b1, st1)" by force
  note d = backup_done [OF inv ord j inp st0 path cnt b0 run up ap(2)]
  have n: "bv_num (fs_bv (bs_st b0)) = int (length vs)" by (rule start_backup_ok(3) [OF inv ord j inp st0 path cnt b0])
  from e up obtain cst where
    cst: "init_container_store be (Some (close_container_store be (ap_store s))) = Some cst"
    and h': "hs_sys h' = s\<lparr>ap_open := None, ap_buffer := sync_queue_new 25, ap_store := cst, ap_pc := Idle\<rparr>"
      "hs_versions h' = free_backup_version b1 (hs_versions h)" "hs_count h' = Some (close_recipe_store be (fs_statics st))"
    unfolding end_backup_def Let_def be by (auto simp: bind_eq_Some_conv)
  have re: "append_reach be ord SIMULATION_NO (hs_sys h')" unfolding h'(1) by (rule append_next [OF ap(1) append_step.reopen [OF s(2) cst]])
  have "version_stored sha be (fs_written st) (hs_versions h') m cs" if m: "(m, cs) \<in> set vs" for m cs
  proof -
    have "m \<in> set (map fst vs)" using m by force
    then have "m \<in> set (map int [0..<length vs])" using h by simp
    then have "m < int (length vs)" by auto
    then have same: "hs_versions h' m = hs_versions h m" using d(6) by (simp add: h'(2) free_backup_version_def)
    have "version_stored sha be (ap_submitted (hs_sys h)) (hs_versions h) m cs" using h m by blast
    from version_stored_mono [where fs' = "hs_versions h'", OF this ap(2) same] show ?thesis .
  qed
  then have "\<forall>(m, cs) \<in> set (vs @ [(int (length vs), chunks_of ss)]). version_stored sha be (fs_written st) (hs_versions h') m cs"
    using d(4) by (auto simp: h'(2))
  moreover have "map fst (vs @ [(int (length vs), chunks_of ss)]) = map int [0..<length (vs @ [(int (length vs), chunks_of ss)])]"
    using h by simp
  moreover have "\<exists>x. hs_count h' = Some (close_recipe_store be x) \<and> backup_version_count x = int (length (vs @ [(int (length vs), chunks_of ss)]))"
    using h'(3) d(5) by auto
  ultimately show ?thesis
    unfolding history_inv_def Let_def n using re d(1-3) s(3) vs by (simp add: h'(1))
qed

lemma history_reach:
  assumes "backups sha be ord h ptrs vs" "\<And>t. mset (ord t) = mset t"
  shows "history_inv sha be ord h ptrs vs"
  using assms(1)
proof induction
  case no_backup
  show ?case by (rule history_empty)
next
  case next_backup
  show ?case by (rule history_next [OF next_backup.IH assms(2) next_backup.hyps(2-17)])
qed

lemma history_pool:
  assumes "history_inv sha be ord h ptrs vs" "\<And>t. mset (ord t) = mset t" "c \<in> set (ap_submitted (hs_sys h))"
  shows "data_in_pool be (ap_store (hs_sys h)) c"
proof -
  have "append_inv be SIMULATION_NO (hs_sys h)" "ap_buffer (hs_sys h) = sync_queue_new 25"
    using append_inv_reach [where ord = ord, OF _ assms(2)] assms(1) by (auto simp: history_inv_def Let_def)
  with assms(3) have "in_pool be SIMULATION_NO (ap_store (hs_sys h)) c" by (auto simp: append_inv_def flushed_def sync_queue_new_def)
  then show ?thesis by (simp add: in_pool_def)
qed

text \<open>A job whose phases have passed all segments can end: the container store stops with the containers of the
  job written, and its file is read again by the next job.\<close>

lemma backup_ends:
  assumes inv: "history_inv sha be ord h ptrs vs" and ord: "\<And>t. mset (ord t) = mset t"
    and j: "backup_conf be j" and inp: "input_ok sha j ss" and st0: "program_start st0"
    and path: "0 \<notin> set path" "length path < 2 ^ 31"
    and cnt: "container_count (ap_store (hs_sys h)) + int (length (chunks_of ss)) \<le> 2 ^ 40"
    and b0: "start_backup j path ss st0 h = Some b0" and run: "backup_reach j ptrs b0 b"
  shows "\<exists>st s h'. filter_finish j (bs_st b) = Some st \<and> (append_step be ord SIMULATION_NO)\<^sup>*\<^sup>* (hs_sys h) s \<and> ap_pc s = Stopped
     \<and> ap_submitted s = fs_written st \<and> end_backup j okv zn zs st s h = Some h'"
proof -
  note s = start_backup_ok [OF inv ord j inp st0 path cnt b0]
  have c: "job_conf j" "simulation_level (jb_conf j) = SIMULATION_NO" "jb_be j = be" using j by (simp_all add: backup_conf_def)
  have "store_inv SIMULATION_NO sha (bs_st b)"
    using backup_inv_reach [OF run s(1) c(1)] c(2) by (simp add: backup_inv_def filter_inv_def)
  from finish_ok [OF this, of j] c(1) obtain st where st: "filter_finish j (bs_st b) = Some st" by (auto simp: job_conf_def)
  have lv: "simulation_level (jb_conf j) < SIMULATION_APPEND" using c(2) by (simp add: less_simulation_level_def)
  have d0: "drives (hs_sys h) UNIV be ord (simulation_level (jb_conf j)) (bs_st b0) (hs_sys h)" using s(7) [of UNIV] c(2) by simp
  from drives_reach [where ord = ord, OF s(1) c(1) lv ord d0 run] obtain t where
    "drives (hs_sys h) UNIV be ord (simulation_level (jb_conf j)) (bs_st b) t" by auto
  from drives_finish [where ord = ord, OF this ord st] obtain t' st1 where
    t': "drives (hs_sys h) UNIV be ord (simulation_level (jb_conf j)) st1 t'" "fs_written st1 = fs_written st" by blast
  from stop_after [OF t'(1)] t'(2) c(2) obtain z where
    z: "append_run be ord SIMULATION_NO (hs_sys h) z" "ap_pc z = Stopped" "ap_submitted z = fs_written st" by auto
  then have r: "append_reach be ord SIMULATION_NO z" "(append_step be ord SIMULATION_NO)\<^sup>*\<^sup>* (hs_sys h) z" by (simp_all add: append_run_def)
  have "0 \<le> container_count (ap_store z)" "container_count (ap_store z) \<le> 2 ^ 40"
    using append_inv_reach [where ord = ord, OF r(1) ord] by (auto simp: append_inv_def)
  then have "init_container_store be (Some (close_container_store be (ap_store z))) \<noteq> None" using init_close [of "ap_store z" be] by simp
  then have "end_backup j okv zn zs st z h \<noteq> None" by (auto simp: end_backup_def c(3) Let_def split: prod.splits)
  with st z r(2) show ?thesis by blast
qed

section \<open>The statistics of a history\<close>

lemma start_counted:
  assumes "history_inv sha be ord h ptrs vs" "start_backup j path ss st0 h = Some b0"
  shows "counted (stored_bytes (ap_submitted (hs_sys h))) (stored_chunks (ap_submitted (hs_sys h))) [] (bs_st b0)"
proof -
  from assms(2) obtain d b st ix where e: "bs_st b0 = start_filter_phase d (container_count (ap_store (hs_sys h))) (ap_submitted (hs_sys h)) b st ix"
    by (auto simp: start_backup_def init_backup_jcr_def bind_eq_Some_conv)
  then have "fs_written (bs_st b0) = ap_submitted (hs_sys h)" by (simp add: start_filter_phase_def)
  with counted_start [of "bs_st b0"] e show ?thesis by (simp add: start_filter_phase_def stored_num_def recipe_counts_def)
qed

definition total_chunks :: "(int \<times> chunk list) list \<Rightarrow> int" where
  "total_chunks vs = sum_list (map (\<lambda>(n, cs). int (length (data_chunks cs))) vs)"

definition total_size :: "(int \<times> chunk list) list \<Rightarrow> int" where
  "total_size vs = sum_list (map (\<lambda>(n, cs). sum_list (map ck_size (data_chunks cs))) vs)"

definition stats_inv :: "backup_store \<Rightarrow> (int \<times> chunk list) list \<Rightarrow> bool" where
  "stats_inv h vs = (let s = hs_stats h; ws = ap_submitted (hs_sys h) in
     st_chunk_num s = total_chunks vs \<and> st_data_size s = total_size vs
     \<and> st_stored_chunk_num s = stored_chunks ws \<and> st_stored_data_size s = stored_bytes ws
     \<and> 0 \<le> st_stored_chunk_num s \<and> st_stored_chunk_num s \<le> st_chunk_num s)"

lemma stats_next:
  assumes inv: "history_inv sha be ord h ptrs vs" and ord: "\<And>t. mset (ord t) = mset t" and stats: "stats_inv h vs"
    and j: "backup_conf be j" and inp: "input_ok sha j ss" and st0: "program_start st0"
    and path: "0 \<notin> set path" "length path < 2 ^ 31"
    and cnt: "container_count (ap_store (hs_sys h)) + int (length (chunks_of ss)) \<le> 2 ^ 40"
    and b0: "start_backup j path ss st0 h = Some b0"
    and run: "backup_reach j ptrs b0 b" "bs_todo b = []" "bs_flight b = []" "filter_finish j (bs_st b) = Some st"
    and s: "ap_submitted s = fs_written st" and e: "end_backup j okv zn zs st s h = Some h'"
  shows "stats_inv h' (vs @ [(n, chunks_of ss)])"
proof -
  let ?ws = "ap_submitted (hs_sys h)" and ?out = "chunks_of (bs_out b)"
  note ok = start_backup_ok [OF inv ord j inp st0 path cnt b0]
  have jc: "job_conf j" using j by (simp add: backup_conf_def)
  note c = counted_finish [OF counted_reach [OF ok(1) jc start_counted [OF inv b0] run(1)] run(4)]
  have "list_all2 same_chunk (chunks_of ss) ?out"
    using backup_inv_reach [OF run(1) ok(1) jc] ok(5) run(2,3) by (simp add: backup_inv_def)
  from data_chunks_same [OF this] have d: "length (data_chunks ?out) = length (data_chunks (chunks_of ss))"
    "map ck_size (data_chunks ?out) = map ck_size (data_chunks (chunks_of ss))"
    by (induction rule: list_all2_induct) (auto simp: same_chunk_def)
  from e have h': "hs_stats h' = add_job_stats zn zs st (hs_stats h)" "ap_submitted (hs_sys h') = fs_written st"
    using s unfolding end_backup_def Let_def case_prod_unfold by (auto simp: bind_eq_Some_conv)
  have n: "jcr_chunk_num st = int (length (data_chunks (chunks_of ss)))" "jcr_data_size st = sum_list (map ck_size (data_chunks (chunks_of ss)))"
    "0 \<le> stored_num st" "stored_num st \<le> int (length (data_chunks (chunks_of ss)))"
    using c(1) d by (auto simp: counted_def)
  show ?thesis
    using stats n c(2,3) unfolding stats_inv_def Let_def h'(2) by (simp add: h'(1) add_job_stats_def total_chunks_def total_size_def stored_num_def)
qed

lemma stats_reach:
  assumes "backups sha be ord h ptrs vs" "\<And>t. mset (ord t) = mset t"
  shows "stats_inv h vs"
  using assms(1)
proof induction
  case no_backup
  show ?case by (simp add: stats_inv_def empty_store_def no_stats_def append_init_def total_chunks_def total_size_def)
next
  case next_backup
  show ?case
    by (rule stats_next [OF history_reach [OF next_backup.hyps(1) assms(2)] assms(2) next_backup.IH next_backup.hyps(2-6) next_backup.hyps(8-13) next_backup.hyps(16,17)])
qed

section \<open>Properties\<close>

text \<open>C2: every version of a history of backups can be restored. Jobs run one after the other on the same store, each
  with its own configuration, with any interleaving of its phases and of the threads of the container store; they
  deduplicate against the containers of all earlier jobs and rewrite some of their chunks. After any number of jobs, a
  restore of any version, with any of the three restore caches, ends without a failed assertion, its packets have
  different names, and the client receives exactly the data of the chunks that this version was given, in order. The
  fingerprint function is assumed to have no collision among the data of the history; the version has one file.\<close>

theorem every_version_restores:
  assumes "backups sha be ord h ptrs vs" "\<And>t. mset (ord t) = mset t" "inj_on sha (history_data vs)"
    and "(n, cs) \<in> set vs" "length (fst (recipe_files None cs)) = 1"
    and "restore_conf oe" "re_be (oe_env oe) = be" "re_fetch (oe_env oe) = retrieve_container_by_id be SIMULATION_NO (ap_store (hs_sys h))"
    and "fresh_statics rst" "names_fit path (length (data_chunks cs))"
  shows "\<exists>ps jc. do_restore oe TEMPORARY_ID (hs_versions h) rst n path = Inr (ps, jc, 1)
     \<and> distinct (map fst ps)
     \<and> (\<forall>blpop. packets_delivered blpop ps \<longrightarrow>
          receive_group be blpop path 0 = Some (concat (map (\<lambda>c. the (ck_data c)) (data_chunks cs))))"
proof -
  let ?ws = "ap_submitted (hs_sys h)"
  have inv: "history_inv sha be ord h ptrs vs" by (rule history_reach [OF assms(1,2)])
  note h = inv [unfolded history_inv_def Let_def]
  have D: "input_data cs \<subseteq> history_data vs" "stored_data ?ws \<subseteq> history_data vs" using assms(4) h by (auto simp: history_data_def)
  have ws: "\<forall>c \<in> set ?ws. data_in_pool be (ap_store (hs_sys h)) c \<and> con_good SIMULATION_NO sha c"
    using h history_pool [OF inv assms(2)] by blast
  from h assms(4) have "version_stored sha be ?ws (hs_versions h) n cs" by blast
  then obtain b0 st0 b1 st1 segs out where v: "list_all2 same_chunk cs out" "\<forall>c \<in> set cs. chunk_good SIMULATION_NO sha c"
    "file_shape False cs = Some False" "int (length cs) \<le> 2 ^ 40" "\<forall>c \<in> set out. resolved (ws_holds ?ws) c"
    "bv_holds be b0 st0 (fst (recipe_files None out)) segs" "concat segs = map ptr_of (data_chunks out)"
    "version_ok b0" "bv_num b0 = n" "update_backup_version be b0 st0 = (b1, st1)" "hs_versions h n = free_backup_version b1 Map.empty n"
    unfolding version_stored_def by blast
  have "do_restore oe TEMPORARY_ID (hs_versions h) rst n path = do_restore oe TEMPORARY_ID (free_backup_version b1 Map.empty) rst n path"
    by (simp add: do_restore_def init_restore_jcr_def open_backup_version_def v(11))
  moreover have "ws_holds ?ws i fp \<Longrightarrow> \<exists>c \<in> set ?ws. get_container_id c = i \<and> lookup_fingerprint_in_container c fp" for i fp
    by (simp add: ws_holds_def)
  ultimately show ?thesis
    using version_restored [where sha = sha and holds = "ws_holds ?ws" and fs = Map.empty, OF v(1-3) assms(5) v(4) assms(3) D ws v(5) _ v(6-8,10) assms(6-10)] v(9) by simp
qed


text \<open>Two jobs on a new store: one with an empty stream, one with a file of two equal chunks.\<close>

lemma ex_backup_conf: "backup_conf False ex_job"
proof -
  have "init_index_config ex_conf = Some ex_conf" by code_simp
  then show ?thesis using ex_job_conf by (simp add: backup_conf_def ex_job_def) (simp add: ex_conf_def destor_start_config_def)
qed

lemma ex_init_index:
  "init_index False None ex_conf = Some (ex_conf, ex_index)"
  "init_index False (Some (close_kvstore_htable False id ex_conf [])) ex_conf = Some (ex_conf, ex_index)"
proof -
  have "init_index_config ex_conf = Some ex_conf" by code_simp
  moreover have "init_kvstore_htable False ex_conf (Some (close_kvstore_htable False id ex_conf [])) = Some []" by code_simp
  moreover have "init_kvstore_htable False ex_conf None = Some []" by (simp add: init_kvstore_htable_def)
  ultimately show "init_index False None ex_conf = Some (ex_conf, ex_index)"
    "init_index False (Some (close_kvstore_htable False id ex_conf [])) ex_conf = Some (ex_conf, ex_index)"
    by (simp_all add: init_index_def ex_index_def)
qed

lemma ex_start_backup:
  assumes "init_recipe_store False (hs_count h) ex_statics = Some st" "init_index False (hs_htable h) ex_conf = Some (ex_conf, ex_index)"
  shows "\<exists>b0. start_backup ex_job [47, 97, 47] ss ex_statics h = Some b0 \<and> bs_todo b0 = ss \<and> bs_flight b0 = [] \<and> bs_out b0 = []
    \<and> fs_ix (bs_st b0) = ex_index \<and> fs_buffer (bs_st b0) = None"
  using assms by (simp add: start_backup_def init_backup_jcr_def ex_job_def create_backup_version_def dir_of_def get_next_version_number_def start_filter_phase_def)

lemma ex_first_backup:
  "\<exists>h. backups ex_sha False id h {} [(0, [])] \<and> container_count (ap_store (hs_sys h)) = 0
     \<and> hs_htable h = Some (close_kvstore_htable False id ex_conf [])"
proof -
  have c: "jb_be ex_job = False" "jb_conf ex_job = ex_conf" by (simp_all add: ex_job_def)
  have "init_recipe_store False (hs_count empty_store) ex_statics = Some ex_statics" by (simp add: init_recipe_store_def empty_store_def ex_statics_def)
  from ex_start_backup [OF this, of "[]"] ex_init_index(1) obtain b0 where
    b0: "start_backup ex_job [47, 97, 47] [] ex_statics empty_store = Some b0" "bs_todo b0 = []" "bs_flight b0 = []" "bs_out b0 = []"
    "fs_ix (bs_st b0) = ex_index" "fs_buffer (bs_st b0) = None" by (auto simp: empty_store_def)
  have inp: "input_ok ex_sha ex_job []" "program_start ex_statics" by (simp_all add: input_ok_def program_start_def ex_statics_def)
  have cnt: "container_count (ap_store (hs_sys empty_store)) + int (length (chunks_of [])) \<le> 2 ^ 40" by (simp add: empty_store_def append_init_def)
  note s = start_backup_ok [OF history_empty [of ex_sha False id] _ ex_backup_conf inp _ _ cnt b0(1), simplified]
  have fin: "filter_finish ex_job (bs_st b0) = Some (bs_st b0)" using b0(6) by (simp add: filter_finish_def)
  let ?s1 = "append_init\<lparr>ap_buffer := (ap_buffer append_init)\<lparr>sq_term := True\<rparr>\<rparr>"
  let ?s2 = "?s1\<lparr>ap_pc := Stopped\<rparr>"
  have "append_step False id SIMULATION_NO append_init ?s1" by (rule append_step.finish) (simp add: sync_queue_term_def)
  moreover have "append_step False id SIMULATION_NO ?s1 ?s2"
    by (rule append_step.stop) (simp_all add: append_init_def sync_queue_new_def sync_queue_get_top_enter_def sync_queue_get_top_loop_def)
  ultimately have st: "(append_step False id SIMULATION_NO)\<^sup>*\<^sup>* (hs_sys empty_store) ?s2" by (simp add: empty_store_def)
  have z: "container_count (ap_store ?s2) = 0" by (simp add: append_init_def)
  obtain b1 st1 where up: "update_backup_version False (fs_bv (bs_st b0)) (fs_statics (bs_st b0)) = (b1, st1)" by force
  have "\<exists>h. end_backup ex_job id 0 0 (bs_st b0) ?s2 empty_store = Some h \<and> container_count (ap_store (hs_sys h)) = 0
     \<and> hs_htable h = Some (close_kvstore_htable False id ex_conf [])"
    using init_close [of "ap_store ?s2" False] z unfolding end_backup_def Let_def c up b0(5) by (simp add: ex_index_def)
  then obtain h where h: "end_backup ex_job id 0 0 (bs_st b0) ?s2 empty_store = Some h" "container_count (ap_store (hs_sys h)) = 0"
    "hs_htable h = Some (close_kvstore_htable False id ex_conf [])" by blast
  have "ap_submitted ?s2 = fs_written (bs_st b0)" using s(6) by (simp add: append_init_def empty_store_def)
  from backups.next_backup [OF backups.no_backup [of ex_sha False id] ex_backup_conf inp _ _ _ cnt b0(1) backup_reach.start b0(2,3) fin st _ this h(1)] b0(4) s(3)
  have "backups ex_sha False id h {} [(0, [])]" by (simp add: ptrs_of_def)
  with h show ?thesis by blast
qed

lemma ex_second_backup:
  obtains b0 b h where "backups ex_sha False id h {} [(0, [])]" "start_backup ex_job [47, 97, 47] [ex_segment] ex_statics h = Some b0"
    "container_count (ap_store (hs_sys h)) = 0" "backup_reach ex_job {} b0 b" "bs_todo b = []" "bs_flight b = []"
proof -
  from ex_first_backup obtain h where h: "backups ex_sha False id h {} [(0, [])]" "container_count (ap_store (hs_sys h)) = 0"
    "hs_htable h = Some (close_kvstore_htable False id ex_conf [])" by blast
  have inv: "history_inv ex_sha False id h {} [(0, [])]" by (rule history_reach [OF h(1)]) simp
  then obtain x where x: "hs_count h = Some (close_recipe_store False x)" "backup_version_count x = 1" by (auto simp: history_inv_def Let_def)
  have "\<exists>st. init_recipe_store False (hs_count h) ex_statics = Some st" using count_file [of x False ex_statics] x by (simp add: int32_range_def)
  with ex_start_backup [of h] ex_init_index(2) h(3) obtain b0 where
    b0: "start_backup ex_job [47, 97, 47] [ex_segment] ex_statics h = Some b0" "bs_todo b0 = [ex_segment]"
    "fs_ix (bs_st b0) = ex_index" "fs_buffer (bs_st b0) = None" by fastforce
  have p: "program_start ex_statics" by (simp add: program_start_def ex_statics_def)
  have cnt: "container_count (ap_store (hs_sys h)) + int (length (chunks_of [ex_segment])) \<le> 2 ^ 40" using h(2) by (simp add: ex_segment_def)
  have "start_ok ex_sha ex_job {} b0" by (rule start_backup_ok(1) [OF inv _ ex_backup_conf ex_input p _ _ cnt b0(1)]) simp_all
  from ex_run_from(2) [OF this b0(2-4)] obtain b where "backup_reach ex_job {} b0 b" "bs_todo b = []" "bs_flight b = []" by blast
  from that [OF h(1) b0(1) h(2) this] show ?thesis .
qed

lemma history_extends:
  assumes "backups sha be ord h ptrs vs" "\<And>t. mset (ord t) = mset t" "backup_conf be j" "input_ok sha j ss" "program_start st0"
    and "0 \<notin> set path" "length path < 2 ^ 31" "length vs < 2 ^ 31 - 1"
    and "container_count (ap_store (hs_sys h)) + int (length (chunks_of ss)) \<le> 2 ^ 40"
    and "start_backup j path ss st0 h = Some b0" "backup_reach j ptrs b0 b" "bs_todo b = []" "bs_flight b = []"
  shows "\<exists>h'. backups sha be ord h' (ptrs \<union> set (concat (ptrs_of (bs_out b)))) (vs @ [(int (length vs), chunks_of ss)])"
proof -
  have inv: "history_inv sha be ord h ptrs vs" by (rule history_reach [OF assms(1,2)])
  from backup_ends [where okv = id and zn = 0 and zs = 0, OF inv assms(2-7,9-11)] obtain st s h' where
    e: "filter_finish j (bs_st b) = Some st" "(append_step be ord SIMULATION_NO)\<^sup>*\<^sup>* (hs_sys h) s" "ap_pc s = Stopped"
    "ap_submitted s = fs_written st" "end_backup j id 0 0 st s h = Some h'" by blast
  from next_backup [OF assms(1,3-13) e] start_backup_ok(3) [OF inv assms(2-7,9,10)] show ?thesis by auto
qed

lemma ex_path: "0 \<notin> set [47, 97, 47 :: byte]" "length [47, 97, 47 :: byte] < 2 ^ 31" "length [(0 :: int, [] :: chunk list)] < 2 ^ 31 - 1"
  "program_start ex_statics" "mset (id xs) = mset xs"
  "[(0, [])] @ [(int (length [(0 :: int, [] :: chunk list)]), chunks_of [ex_segment])] = [(0, []), (1, sg_chunks ex_segment)]"
  "container_count c = 0 \<Longrightarrow> container_count c + int (length (chunks_of [ex_segment])) \<le> 2 ^ 40"
  by (simp_all add: program_start_def ex_statics_def ex_segment_def)

text \<open>C3: a job that has passed all segments ends: the last container is handed over, the append thread can write
  everything and stop, the files are closed and the store can be opened by the next job; the history is longer by one
  version, which has the next number.\<close>

theorem backup_completes:
  assumes "backups sha be ord h ptrs vs" "\<And>t. mset (ord t) = mset t" "backup_conf be j" "input_ok sha j ss" "program_start st0"
    and "0 \<notin> set path" "length path < 2 ^ 31" "length vs < 2 ^ 31 - 1"
    and "container_count (ap_store (hs_sys h)) + int (length (chunks_of ss)) \<le> 2 ^ 40"
    and "start_backup j path ss st0 h = Some b0" "backup_reach j ptrs b0 b" "bs_todo b = []" "bs_flight b = []"
  shows "\<exists>h'. backups sha be ord h' (ptrs \<union> set (concat (ptrs_of (bs_out b)))) (vs @ [(int (length vs), chunks_of ss)])"
  by (rule history_extends) (fact assms)+

theorem backup_completes_witness: "\<exists>h ptrs. backups ex_sha False id h ptrs [(0, []), (1, sg_chunks ex_segment)]"
proof -
  obtain b0 b h where h: "backups ex_sha False id h {} [(0, [])]"
    "start_backup ex_job [47, 97, 47] [ex_segment] ex_statics h = Some b0"
    "container_count (ap_store (hs_sys h)) = 0" "backup_reach ex_job {} b0 b" "bs_todo b = []" "bs_flight b = []" by (rule ex_second_backup)
  from backup_completes [OF h(1) ex_path(5) ex_backup_conf ex_input ex_path(4,1-3) ex_path(7) [OF h(3)] h(2,4-6), unfolded ex_path(6)]
  show ?thesis by blast
qed

theorem every_version_restores_witness:
  "\<exists>h ptrs ps jc. backups ex_sha False id h ptrs [(0, []), (1, sg_chunks ex_segment)]
     \<and> do_restore (ex_restore_env (ap_store (hs_sys h))) TEMPORARY_ID (hs_versions h) ex_statics 1 [102] = Inr (ps, jc, 1)
     \<and> receive_group False (map_of ps) [102] 0 = Some [1, 2, 3, 1, 2, 3]"
proof -
  obtain b0 b h0 where h0: "backups ex_sha False id h0 {} [(0, [])]"
    "start_backup ex_job [47, 97, 47] [ex_segment] ex_statics h0 = Some b0"
    "container_count (ap_store (hs_sys h0)) = 0" "backup_reach ex_job {} b0 b" "bs_todo b = []" "bs_flight b = []" by (rule ex_second_backup)
  from history_extends [OF h0(1) ex_path(5) ex_backup_conf ex_input ex_path(4,1-3) ex_path(7) [OF h0(3)] h0(2,4-6), unfolded ex_path(6)] obtain h ptrs where
    h: "backups ex_sha False id h ptrs [(0, []), (1, sg_chunks ex_segment)]" by blast
  let ?ck = "ex_chunk 0 [1, 2, 3]" and ?cs = "sg_chunks ex_segment" and ?oe = "ex_restore_env (ap_store (hs_sys h))"
  note ex = ex_stream
  have e: "data_chunks [] = []" by (simp add: data_chunks_def)
  have inj: "inj_on ex_sha (history_data [(0, []), (1, ?cs)])"
    by (rule inj_on_subset [of _ "{[1, 2, 3]}"]) (auto simp: history_data_def input_data_def e ex(1) ex_chunk_def)
  from every_version_restores [where path = "[102]" and oe = ?oe and rst = ex_statics and n = 1 and cs = ?cs, OF h _ inj _ ex(2)
      ex_restore_conf ex(3), unfolded ex(1), OF _ _ ex(4)]
  obtain ps jc where p: "do_restore ?oe TEMPORARY_ID (hs_versions h) ex_statics 1 [102] = Inr (ps, jc, 1)" "distinct (map fst ps)"
    "\<forall>blpop. packets_delivered blpop ps \<longrightarrow> receive_group False blpop [102] 0 = Some (concat (map (\<lambda>c. the (ck_data c)) [?ck, ?ck]))"
    by auto
  from p(3) delivered_map_of [OF p(2)] have "receive_group False (map_of ps) [102] 0 = Some [1, 2, 3, 1, 2, 3]" by (simp add: ex_chunk_def)
  with h p(1) show ?thesis by blast
qed



end
