(* ===== verification/Pipeline.thy ===== *)
theory Pipeline
  imports Backup
begin

unbundle bit_operations_syntax

text \<open>
  How the deduplication, rewrite and filter phases wait for each other (\<^verbatim>\<open>dedup_phase.c\<close>, \<^verbatim>\<open>rewrite_phase.c\<close>,
  \<^verbatim>\<open>filter_phase.c\<close>). The deduplication phase waits while the index has too many pending chunks, the filter phase
  waits for the end of a segment, and the rewrite phase keeps chunks back until its buffer is full. The theory shows
  when the three cannot block each other, and a configuration in which they do. The structure \<open>index_lock\<close> is taken as
  one object with one threshold, as \<^verbatim>\<open>dedup_phase.c\<close> defines it. What a lookup answers is left open, since only the
  number of chunks decides who waits: any answer that keeps the chunks and their marks is a step.
\<close>

section \<open>The rewrite phase, one chunk at a time\<close>

record rewriter =
  rw_last :: containerid
  rw_full :: bool
  rw_buckets :: utility_buckets
  rw_buffer :: rewrite_buffer

definition init_rewriter :: "destor \<Rightarrow> rewriter" where
  "init_rewriter d = \<lparr>rw_last = TEMPORARY_ID, rw_full = False, rw_buckets = init_utility_buckets d, rw_buffer = init_rewrite_buffer\<rparr>"

definition cfl_turn :: "destor \<Rightarrow> containerid list \<Rightarrow> chunk \<Rightarrow> rewriter \<Rightarrow> (chunk list \<times> rewriter) option" where
  "cfl_turn d inherited c w = do {
     (out, full, rb) \<leftarrow> (if (rw_last w \<noteq> TEMPORARY_ID \<and> rw_last w \<noteq> ck_id c) \<or> rw_full w
                        then do { (out, rb) \<leftarrow> cfl_flush d inherited (rw_buffer w); Some (out, False, rb) }
                        else Some ([], rw_full w, rw_buffer w));
     (r, rb) \<leftarrow> rewrite_buffer_push d c rb;
     Some (out, w\<lparr>rw_last := ck_id c, rw_full := r \<or> full, rw_buffer := rb\<rparr>)
   }"

definition cap_turn :: "destor \<Rightarrow> containerid list \<Rightarrow> chunk \<Rightarrow> rewriter \<Rightarrow> (chunk list \<times> rewriter) option" where
  "cap_turn d inherited c w = do {
     (r, rb) \<leftarrow> rewrite_buffer_push d c (rw_buffer w);
     if r then do {
       let (best, rb) = cap_segment_get_top d rb;
       (out, rb) \<leftarrow> drain_all d inherited (cap_mark True best) rb;
       Some (out, w\<lparr>rw_buffer := rb\<rparr>)
     }
     else Some ([], w\<lparr>rw_buffer := rb\<rparr>)
   }"

definition cbr_turn :: "destor \<Rightarrow> containerid list \<Rightarrow> chunk \<Rightarrow> rewriter \<Rightarrow> (chunk list \<times> rewriter) option" where
  "cbr_turn d inherited c w = do {
     (r, rb) \<leftarrow> rewrite_buffer_push d c (rw_buffer w);
     if r then do {
       (sigs, rb) \<leftarrow> cbr_signals d inherited (Suc (length (rb_queue rb))) rb;
       dc \<leftarrow> rewrite_buffer_top rb;
       (dc, utility, rb) \<leftarrow> cbr_decide d (rw_buckets w) rb dc;
       (p, rb) \<leftarrow> rewrite_buffer_pop d inherited (rb\<lparr>rb_queue := dc # tl (rb_queue rb)\<rparr>);
       p \<leftarrow> p;
       Some (sigs @ [p], w\<lparr>rw_buckets := utility_buckets_update d utility (rw_buckets w), rw_buffer := rb\<rparr>)
     }
     else Some ([], w\<lparr>rw_buffer := rb\<rparr>)
   }"

definition rewrite_turn :: "destor \<Rightarrow> containerid list \<Rightarrow> chunk \<Rightarrow> rewriter \<Rightarrow> (chunk list \<times> rewriter) option" where
  "rewrite_turn d inherited c w = (case rewrite_algorithm0 d of
      REWRITE_NO \<Rightarrow> Some (no_rewrite d inherited [c], w)
    | REWRITE_CFL_SELECTIVE_DEDUPLICATION \<Rightarrow> cfl_turn d inherited c w
    | REWRITE_CONTEXT_BASED \<Rightarrow> cbr_turn d inherited c w
    | REWRITE_CAPPING \<Rightarrow> cap_turn d inherited c w)"

text \<open>What is left in the buffer when the queue ends.\<close>

definition rewrite_end :: "destor \<Rightarrow> containerid list \<Rightarrow> rewriter \<Rightarrow> chunk list option" where
  "rewrite_end d inherited w = (case rewrite_algorithm0 d of
      REWRITE_NO \<Rightarrow> Some []
    | REWRITE_CFL_SELECTIVE_DEDUPLICATION \<Rightarrow> map_option fst (cfl_flush d inherited (rw_buffer w))
    | REWRITE_CONTEXT_BASED \<Rightarrow> map_option fst (drain_all d inherited Some (rw_buffer w))
    | REWRITE_CAPPING \<Rightarrow> (let (best, rb) = cap_segment_get_top d (rw_buffer w)
        in map_option fst (drain_all d inherited (cap_mark False best) rb)))"

fun rewrite_run :: "destor \<Rightarrow> containerid list \<Rightarrow> chunk list \<Rightarrow> rewriter \<Rightarrow> chunk list option" where
  "rewrite_run d inherited [] w = rewrite_end d inherited w"
| "rewrite_run d inherited (c # cs) w = do {
     (out, w) \<leftarrow> rewrite_turn d inherited c w;
     more \<leftarrow> rewrite_run d inherited cs w;
     Some (out @ more)
   }"

text \<open>The turns together are the threads of theory \<open>Rewrite\<close>.\<close>

lemma cfl_run: "rewrite_algorithm0 d = REWRITE_CFL_SELECTIVE_DEDUPLICATION \<Longrightarrow>
    rewrite_run d inherited cs w = cfl_rewrite_loop d inherited cs (rw_last w) (rw_full w) (rw_buffer w)"
  by (induction cs arbitrary: w) (auto simp: rewrite_end_def rewrite_turn_def cfl_turn_def bind_assoc case_prod_unfold)

lemma cap_run: "rewrite_algorithm0 d = REWRITE_CAPPING \<Longrightarrow> rewrite_run d inherited cs w = cap_rewrite_loop d inherited cs (rw_buffer w)"
proof (induction cs arbitrary: w)
  case (Cons c cs)
  then show ?case
    by (cases "rewrite_buffer_push d c (rw_buffer w)")
       (auto simp: rewrite_turn_def cap_turn_def bind_assoc case_prod_unfold Let_def)
qed (simp add: rewrite_end_def)

lemma cbr_run: "rewrite_algorithm0 d = REWRITE_CONTEXT_BASED \<Longrightarrow>
    rewrite_run d inherited cs w = cbr_rewrite_loop d inherited cs (rw_buckets w) (rw_buffer w)"
proof (induction cs arbitrary: w)
  case (Cons c cs)
  then show ?case
    by (cases "rewrite_buffer_push d c (rw_buffer w)")
       (auto simp: rewrite_turn_def cbr_turn_def bind_assoc case_prod_unfold Let_def simp del: cbr_signals.simps)
qed (simp add: rewrite_end_def)

lemma rewrite_run_phase: "rewrite_run d inherited cs (init_rewriter d) = rewrite_phase d inherited cs"
proof (cases "rewrite_algorithm0 d")
  case REWRITE_NO
  then have "rewrite_run d inherited cs w = Some (no_rewrite d inherited cs)" for w
    by (induction cs arbitrary: w) (auto simp: rewrite_turn_def rewrite_end_def no_rewrite_def)
  with REWRITE_NO show ?thesis by (simp add: rewrite_phase_def)
qed (simp_all add: cfl_run cap_run cbr_run rewrite_phase_def cfl_rewrite_def cap_rewrite_def cbr_rewrite_def init_rewriter_def)

section \<open>What a turn does to the buffer\<close>

definition data_num :: "chunk list \<Rightarrow> int" where
  "data_num cs = int (length (filter (\<lambda>c. \<not> is_signal c) cs))"

definition held :: "rewriter \<Rightarrow> chunk list" where
  "held w = rb_queue (rw_buffer w)"

text \<open>The buffer is below its limit; that of \<open>cfl_rewrite\<close> may be at its limit until the next chunk comes.\<close>

definition rewriter_ok :: "destor \<Rightarrow> rewriter \<Rightarrow> bool" where
  "rewriter_ok d w = (rb_inv (rw_buffer w) \<and> (rewrite_algorithm0 d = REWRITE_NO \<longrightarrow> held w = [])
     \<and> (if rw_full w then rewrite_algorithm0 d = REWRITE_CFL_SELECTIVE_DEDUPLICATION \<and> held w \<noteq> [] \<and> \<not> is_signal (List.last (held w))
        else rb_num (rw_buffer w) < rewrite_algorithm1 d))"

lemma rewriter_ok_init: "0 < rewrite_algorithm1 d \<Longrightarrow> rewriter_ok d (init_rewriter d)"
  using rb_inv_init by (simp add: rewriter_ok_def init_rewriter_def held_def init_rewrite_buffer_def)

lemma cfl_turn_ok:
  assumes "rewriter_ok d w" "dedup_chunk c" "0 < rewrite_algorithm1 d" "rewrite_algorithm0 d = REWRITE_CFL_SELECTIVE_DEDUPLICATION"
  shows "\<exists>out w'. cfl_turn d inherited c w = Some (out, w') \<and> rewriter_ok d w' \<and> list_all2 marks (held w @ [c]) (out @ held w')"
proof -
  let ?flush = "(rw_last w \<noteq> TEMPORARY_ID \<and> rw_last w \<noteq> ck_id c) \<or> rw_full w"
  let ?first = "if ?flush then do { (out, rb) \<leftarrow> cfl_flush d inherited (rw_buffer w); Some (out, False, rb) } else Some ([], rw_full w, rw_buffer w)"
  have inv: "rb_inv (rw_buffer w)" "\<not> rw_full w \<longrightarrow> rb_num (rw_buffer w) < rewrite_algorithm1 d" using assms(1) by (auto simp: rewriter_ok_def)
  have "\<exists>out rb. ?first = Some (out, False, rb) \<and> rb_inv rb \<and> rb_num rb < rewrite_algorithm1 d \<and> list_all2 marks (held w) (out @ rb_queue rb)"
  proof (cases ?flush)
    case True
    with cfl_flush_ok [OF inv(1), of d inherited] assms(3) show ?thesis by (auto simp: held_def)
  next
    case False
    with inv show ?thesis by (auto simp: held_def list_all2_same)
  qed
  then obtain out rb where 1: "?first = Some (out, False, rb)" "rb_inv rb" "rb_num rb < rewrite_algorithm1 d" "list_all2 marks (held w) (out @ rb_queue rb)"
    by blast
  from push_inv [OF 1(2) assms(2), of d] 1(3) obtain rb' where
    2: "rewrite_buffer_push d c rb = Some (\<not> is_signal c \<and> rb_num rb + 1 = rewrite_algorithm1 d, rb')" "rb_inv rb'"
      "rb_queue rb' = rb_queue rb @ [c]" "rb_num rb' = (if is_signal c then rb_num rb else rb_num rb + 1)" by auto
  let ?w = "w\<lparr>rw_last := ck_id c, rw_full := \<not> is_signal c \<and> rb_num rb + 1 = rewrite_algorithm1 d, rw_buffer := rb'\<rparr>"
  have "rewriter_ok d ?w" using 2(2-4) 1(3) assms(4) by (auto simp: rewriter_ok_def held_def)
  moreover have "list_all2 marks (held w @ [c]) (out @ held ?w)"
    using list_all2_appendI [OF 1(4), of "[c]" "[c]"] 2(3) by (simp add: held_def)
  moreover have "cfl_turn d inherited c w = Some (out, ?w)" unfolding cfl_turn_def 1(1) using 2(1) by simp
  ultimately show ?thesis by blast
qed

lemma push_turn:
  assumes "rewriter_ok d w" "dedup_chunk c" "\<not> rw_full w"
  obtains rb where "rewrite_buffer_push d c (rw_buffer w) = Some (\<not> is_signal c \<and> rb_num (rw_buffer w) + 1 = rewrite_algorithm1 d, rb)"
    "rb_inv rb" "rb_queue rb = held w @ [c]" "rb_num rb = (if is_signal c then rb_num (rw_buffer w) else rb_num (rw_buffer w) + 1)"
    "rb_num (rw_buffer w) < rewrite_algorithm1 d"
  using push_inv [of "rw_buffer w" c d] assms by (auto simp: rewriter_ok_def held_def)

lemma keep_turn:
  assumes "rewriter_ok d w" "\<not> rw_full w" "rb_inv rb" "rb_queue rb = held w @ [c]" "rb_num rb < rewrite_algorithm1 d" "rewrite_algorithm0 d \<noteq> REWRITE_NO"
  shows "rewriter_ok d (w\<lparr>rw_buffer := rb\<rparr>)" "list_all2 marks (held w @ [c]) ([] @ held (w\<lparr>rw_buffer := rb\<rparr>))"
  using assms by (simp_all add: rewriter_ok_def held_def list_all2_same)

lemma cap_turn_ok:
  assumes "rewriter_ok d w" "dedup_chunk c" "0 < rewrite_algorithm1 d" "rewrite_algorithm0 d = REWRITE_CAPPING"
  shows "\<exists>out w'. cap_turn d inherited c w = Some (out, w') \<and> rewriter_ok d w' \<and> list_all2 marks (held w @ [c]) (out @ held w')"
proof -
  have nf: "\<not> rw_full w" "rewrite_algorithm0 d \<noteq> REWRITE_NO" using assms(1,4) by (auto simp: rewriter_ok_def)
  obtain rb where 1: "rewrite_buffer_push d c (rw_buffer w) = Some (\<not> is_signal c \<and> rb_num (rw_buffer w) + 1 = rewrite_algorithm1 d, rb)"
    "rb_inv rb" "rb_queue rb = held w @ [c]" "rb_num rb = (if is_signal c then rb_num (rw_buffer w) else rb_num (rw_buffer w) + 1)"
    "rb_num (rw_buffer w) < rewrite_algorithm1 d" by (rule push_turn [OF assms(1,2) nf(1)])
  show ?thesis
  proof (cases "\<not> is_signal c \<and> rb_num (rw_buffer w) + 1 = rewrite_algorithm1 d")
    case True
    obtain best rb2 where t: "cap_segment_get_top d rb = (best, rb2)" by fastforce
    from cap_drain_ok [of rb2 d inherited True best] cap_top_inv [OF 1(2) t] obtain out rb3 where
      2: "drain_all d inherited (cap_mark True best) rb2 = Some (out, rb3)" "rb_inv rb3" "rb_queue rb3 = []" "rb_num rb3 = 0"
        "list_all2 marks (held w @ [c]) out" using 1(3) by auto
    from True 1(1) 2(1) t have "cap_turn d inherited c w = Some (out, w\<lparr>rw_buffer := rb3\<rparr>)" by (simp add: cap_turn_def)
    with 2(2-5) nf assms(3) show ?thesis by (simp add: rewriter_ok_def held_def)
  next
    case False
    then have n: "rb_num rb < rewrite_algorithm1 d" using 1(4,5) by auto
    have "cap_turn d inherited c w = Some ([], w\<lparr>rw_buffer := rb\<rparr>)" unfolding cap_turn_def 1(1) using False by auto
    with keep_turn [OF assms(1) nf(1) 1(2,3) n nf(2)] show ?thesis by blast
  qed
qed

lemma cbr_turn_ok:
  assumes "rewriter_ok d w" "dedup_chunk c" "0 < rewrite_algorithm1 d" "rewrite_algorithm0 d = REWRITE_CONTEXT_BASED"
  shows "\<exists>out w'. cbr_turn d inherited c w = Some (out, w') \<and> rewriter_ok d w' \<and> list_all2 marks (held w @ [c]) (out @ held w')"
proof -
  have nf: "\<not> rw_full w" "rewrite_algorithm0 d \<noteq> REWRITE_NO" using assms(1,4) by (auto simp: rewriter_ok_def)
  obtain rb where 1: "rewrite_buffer_push d c (rw_buffer w) = Some (\<not> is_signal c \<and> rb_num (rw_buffer w) + 1 = rewrite_algorithm1 d, rb)"
    "rb_inv rb" "rb_queue rb = held w @ [c]" "rb_num rb = (if is_signal c then rb_num (rw_buffer w) else rb_num (rw_buffer w) + 1)"
    "rb_num (rw_buffer w) < rewrite_algorithm1 d" by (rule push_turn [OF assms(1,2) nf(1)])
  show ?thesis
  proof (cases "\<not> is_signal c \<and> rb_num (rw_buffer w) + 1 = rewrite_algorithm1 d")
    case True
    then have "0 < rb_num rb" using 1(4) assms(3) by simp
    from cbr_signals_ok [OF 1(2) this lessI, of d inherited] obtain sigs rb2 dc qs where
      2: "cbr_signals d inherited (Suc (length (rb_queue rb))) rb = Some (sigs, rb2)" "rb_inv rb2" "rb_num rb2 = rb_num rb"
        "rb_queue rb = sigs @ rb_queue rb2" "rb_queue rb2 = dc # qs" "\<not> is_signal dc" by blast
    from cbr_decide_ok [OF 2(2,5,6), of d "rw_buckets w"] obtain dc' u rb3 where
      3: "cbr_decide d (rw_buckets w) rb2 dc = Some (dc', u, rb3)" "rb_inv (rb3\<lparr>rb_queue := dc' # qs\<rparr>)" "rb_num rb3 = rb_num rb2"
        "rb_queue rb3 = dc # qs" "dc' = dc \<or> dc' = SET_CHUNK dc CHUNK_OUT_OF_ORDER" by blast
    have sig: "\<not> is_signal dc'" using 3(5) 2(6) by (auto simp: flag_simps)
    from pop_ok [OF 3(2), of dc' qs d inherited] sig obtain p rb4 where
      4: "rewrite_buffer_pop d inherited (rb3\<lparr>rb_queue := dc' # qs\<rparr>) = Some (Some p, rb4)" "rb_inv rb4" "rb_queue rb4 = qs"
        "p = dc' \<or> p = SET_CHUNK dc' CHUNK_SPARSE" "rb_num rb4 = rb_num rb3 - 1" by auto
    let ?w = "w\<lparr>rw_buckets := utility_buckets_update d u (rw_buckets w), rw_buffer := rb4\<rparr>"
    have "rewrite_buffer_top rb2 = Some dc" using 2(5) by (simp add: rewrite_buffer_top_def)
    then have "cbr_turn d inherited c w = Some (sigs @ [p], ?w)"
      unfolding cbr_turn_def 1(1) using True 2(1) 3(1,4) 4(1) by (simp del: cbr_signals.simps)
    moreover have "rewriter_ok d ?w" using 4(2,5) 3(3) 2(3) 1(4) True nf by (simp add: rewriter_ok_def)
    moreover have "marks dc p" using 3(5) 4(4) by (auto simp: marks_def)
    then have "list_all2 marks (sigs @ dc # qs) ((sigs @ [p]) @ held ?w)"
      using 4(3) by (auto simp: held_def list_all2_same intro!: list_all2_appendI)
    moreover have "held w @ [c] = sigs @ dc # qs" using 1(3) 2(4,5) by simp
    ultimately show ?thesis by metis
  next
    case False
    then have n: "rb_num rb < rewrite_algorithm1 d" using 1(4,5) by auto
    have "cbr_turn d inherited c w = Some ([], w\<lparr>rw_buffer := rb\<rparr>)" unfolding cbr_turn_def 1(1) using False by auto
    with keep_turn [OF assms(1) nf(1) 1(2,3) n nf(2)] show ?thesis by blast
  qed
qed

lemma rewrite_turn_ok:
  assumes "rewriter_ok d w" "dedup_chunk c" "0 < rewrite_algorithm1 d"
  shows "\<exists>out w'. rewrite_turn d inherited c w = Some (out, w') \<and> rewriter_ok d w' \<and> list_all2 marks (held w @ [c]) (out @ held w')"
proof (cases "rewrite_algorithm0 d")
  case REWRITE_NO
  with assms(1) no_rewrite_marks [of "[c]" d inherited] show ?thesis by (auto simp: rewrite_turn_def rewriter_ok_def)
qed (use cfl_turn_ok [OF assms] cap_turn_ok [OF assms] cbr_turn_ok [OF assms] in \<open>simp_all add: rewrite_turn_def\<close>)

lemma rewrite_end_ok:
  assumes "rewriter_ok d w"
  shows "\<exists>out. rewrite_end d inherited w = Some out \<and> list_all2 marks (held w) out"
proof -
  have inv: "rb_inv (rw_buffer w)" using assms by (simp add: rewriter_ok_def)
  have "\<exists>out rb. drain_all d inherited Some (rw_buffer w) = Some (out, rb) \<and> rb_inv rb \<and> rb_queue rb = [] \<and> rb_num rb = 0
      \<and> list_all2 marks (rb_queue (rw_buffer w)) out" by (rule drain_all_ok [OF inv]) simp
  moreover obtain best rb where t: "cap_segment_get_top d (rw_buffer w) = (best, rb)" by fastforce
  moreover from cap_drain_ok [of rb d inherited False best] cap_top_inv [OF inv t] have
    "\<exists>out rb'. drain_all d inherited (cap_mark False best) rb = Some (out, rb') \<and> list_all2 marks (rb_queue (rw_buffer w)) out" by auto
  ultimately show ?thesis using cfl_flush_ok [OF inv, of d inherited] assms
    by (cases "rewrite_algorithm0 d") (auto simp: rewrite_end_def held_def rewriter_ok_def)
qed

lemma held_bound:
  assumes "rewriter_ok d w" "held w \<noteq> [] \<longrightarrow> is_signal (List.last (held w))" "0 < rewrite_algorithm1 d"
  shows "data_num (held w) < rewrite_algorithm1 d"
  using assms by (auto simp: rewriter_ok_def rb_inv_def data_num_def held_def split: if_splits)

section \<open>The three phases\<close>

text \<open>\<open>pi_send\<close> and \<open>pi_out\<close> are the chunks a phase still has to push, \<open>pi_num\<close> is the number of chunks pending in the
  index, \<open>pi_seg\<close> the segment that the filter phase is rebuilding.\<close>

record 's pipe =
  pi_todo :: "segment list"
  pi_send :: "chunk list"
  pi_num :: int
  pi_dedup_queue :: "chunk list"
  pi_term :: bool
  pi_rw :: 's
  pi_out :: "chunk list"
  pi_end :: bool
  pi_rewrite_queue :: "chunk list"
  pi_seg :: "chunk list option"

definition start_pipe :: "'s \<Rightarrow> segment list \<Rightarrow> 's pipe" where
  "start_pipe w ss = \<lparr>pi_todo = ss, pi_send = [], pi_num = 0, pi_dedup_queue = [], pi_term = False, pi_rw = w, pi_out = [],
     pi_end = False, pi_rewrite_queue = [], pi_seg = None\<rparr>"

text \<open>What the lookup may do to a chunk, as far as the next phases see it.\<close>

definition looked_up :: "chunk \<Rightarrow> chunk \<Rightarrow> bool" where
  "looked_up c c' = (same_chunk c c' \<and> dedup_chunk c')"

inductive pipe_step ::
    "(nat \<Rightarrow> byte) \<Rightarrow> int \<Rightarrow> (chunk \<Rightarrow> 's \<Rightarrow> (chunk list \<times> 's) option) \<Rightarrow> ('s \<Rightarrow> chunk list option) \<Rightarrow> 's pipe \<Rightarrow> 's pipe \<Rightarrow> bool"
  for junk thr turn fin where
  lookup: "pi_send p = [] \<Longrightarrow> pi_todo p = s # ss \<Longrightarrow> \<not> (sg_chunk_num s > 0 \<and> thr > 0 \<and> pi_num p \<ge> thr) \<Longrightarrow>
     list_all2 looked_up (sg_chunks s) cs \<Longrightarrow> sg_chunk_num s > 0 \<or> cs = sg_chunks s \<Longrightarrow>
     pipe_step junk thr turn fin p (p\<lparr>pi_todo := ss, pi_send := send_segment junk (s\<lparr>sg_chunks := cs\<rparr>), pi_num := pi_num p + data_num cs\<rparr>)"
| dedup_push: "pi_send p = c # cs \<Longrightarrow> length (pi_dedup_queue p) < 1000 \<Longrightarrow>
     pipe_step junk thr turn fin p (p\<lparr>pi_send := cs, pi_dedup_queue := pi_dedup_queue p @ [c]\<rparr>)"
| dedup_term: "pi_send p = [] \<Longrightarrow> pi_todo p = [] \<Longrightarrow> \<not> pi_term p \<Longrightarrow> pipe_step junk thr turn fin p (p\<lparr>pi_term := True\<rparr>)"
| rewrite: "pi_out p = [] \<Longrightarrow> pi_dedup_queue p = c # q \<Longrightarrow> turn c (pi_rw p) = Some (out, w) \<Longrightarrow>
     pipe_step junk thr turn fin p (p\<lparr>pi_dedup_queue := q, pi_out := out, pi_rw := w\<rparr>)"
| rewrite_push: "pi_out p = c # cs \<Longrightarrow> length (pi_rewrite_queue p) < 1000 \<Longrightarrow>
     pipe_step junk thr turn fin p (p\<lparr>pi_out := cs, pi_rewrite_queue := pi_rewrite_queue p @ [c]\<rparr>)"
| rewrite_term: "pi_out p = [] \<Longrightarrow> pi_dedup_queue p = [] \<Longrightarrow> pi_term p \<Longrightarrow> \<not> pi_end p \<Longrightarrow> fin (pi_rw p) = Some out \<Longrightarrow>
     pipe_step junk thr turn fin p (p\<lparr>pi_end := True, pi_out := out\<rparr>)"
| filter_open: "pi_seg p = None \<Longrightarrow> pi_rewrite_queue p = c # q \<Longrightarrow> CHECK_CHUNK c CHUNK_SEGMENT_START \<Longrightarrow>
     pipe_step junk thr turn fin p (p\<lparr>pi_rewrite_queue := q, pi_seg := Some []\<rparr>)"
| filter_take: "pi_seg p = Some cs \<Longrightarrow> pi_rewrite_queue p = c # q \<Longrightarrow> \<not> CHECK_CHUNK c CHUNK_SEGMENT_END \<Longrightarrow>
     pipe_step junk thr turn fin p (p\<lparr>pi_rewrite_queue := q, pi_seg := Some (cs @ [c])\<rparr>)"
| filter_done: "pi_seg p = Some cs \<Longrightarrow> pi_rewrite_queue p = c # q \<Longrightarrow> CHECK_CHUNK c CHUNK_SEGMENT_END \<Longrightarrow>
     pipe_step junk thr turn fin p (p\<lparr>pi_rewrite_queue := q, pi_seg := None, pi_num := pi_num p - data_num cs\<rparr>)"

definition finished :: "'s pipe \<Rightarrow> bool" where
  "finished p = (pi_todo p = [] \<and> pi_send p = [] \<and> pi_dedup_queue p = [] \<and> pi_term p \<and> pi_out p = [] \<and> pi_end p
     \<and> pi_rewrite_queue p = [] \<and> pi_seg p = None)"

section \<open>The shape of the stream\<close>

datatype token = Seg_Start | Seg_End | File_Signal | Data

definition kind :: "chunk \<Rightarrow> token" where
  "kind c = (if CHECK_CHUNK c CHUNK_SEGMENT_END then Seg_End else if CHECK_CHUNK c CHUNK_SEGMENT_START then Seg_Start
     else if is_file_signal c then File_Signal else Data)"

lemma kind_data: "kind c = Data \<longleftrightarrow> \<not> is_signal c"
  by (auto simp: kind_def)

lemma marks_kind: "marks c c' \<Longrightarrow> kind c' = kind c"
  using marks_flag [of c c' CHUNK_FILE_START] marks_flag [of c c' CHUNK_FILE_END]
    marks_flag [of c c' CHUNK_SEGMENT_START] marks_flag [of c c' CHUNK_SEGMENT_END] by (simp add: kind_def)

lemma same_chunk_kind: "same_chunk c c' \<Longrightarrow> kind c' = kind c"
  by (simp add: kind_def same_chunk_def)

lemma kinds_eq: "list_all2 R xs ys \<Longrightarrow> (\<And>x y. R x y \<Longrightarrow> kind y = kind x) \<Longrightarrow> map kind ys = map kind xs"
  by (induction rule: list_all2_induct) auto

definition count_data :: "token list \<Rightarrow> int" where
  "count_data ts = int (length (filter (\<lambda>t. t = Data) ts))"

lemma count_data_simps [simp]:
  "count_data [] = 0" "count_data (t # ts) = (if t = Data then 1 else 0) + count_data ts" "count_data (xs @ ys) = count_data xs + count_data ys"
  by (simp_all add: count_data_def)

lemma data_num_count: "data_num cs = count_data (map kind cs)"
  by (simp add: data_num_def count_data_def filter_map comp_def kind_data)

text \<open>The rest of a stream of segments; in a segment, \<open>k\<close> data chunks have passed. \<open>P\<close> is what is known of the number
  of data chunks of a segment.\<close>

fun shape :: "(int \<Rightarrow> bool) \<Rightarrow> int option \<Rightarrow> token list \<Rightarrow> bool" where
  "shape P None [] = True"
| "shape P (Some k) [] = False"
| "shape P None (t # ts) = (t = Seg_Start \<and> shape P (Some 0) ts)"
| "shape P (Some k) (t # ts) = (case t of
      Seg_Start \<Rightarrow> False
    | Seg_End \<Rightarrow> P k \<and> shape P None ts
    | File_Signal \<Rightarrow> shape P (Some k) ts
    | Data \<Rightarrow> shape P (Some (k + 1)) ts)"

lemma shape_append: "shape P st xs \<Longrightarrow> shape P None ys \<Longrightarrow> shape P st (xs @ ys)"
  by (induction P st xs rule: shape.induct) (auto split: token.splits)

lemma shape_last: "shape P st ts \<Longrightarrow> ts \<noteq> [] \<Longrightarrow> List.last ts = Seg_End"
  by (induction P st ts rule: shape.induct) (auto split: token.splits)

lemma shape_segment:
  assumes "\<forall>t \<in> set ts. t = File_Signal \<or> t = Data" "P (k + count_data ts)"
  shows "shape P (Some k) (ts @ [Seg_End])"
  using assms by (induction ts arbitrary: k) (auto simp: algebra_simps)

text \<open>If no segment has more than \<open>n\<close> data chunks, no more than \<open>n\<close> have passed of the open one.\<close>

lemma shape_bound: "shape (\<lambda>k. k \<le> n) (Some k) ts \<Longrightarrow> k \<le> n"
proof (induction "\<lambda>k. k \<le> n" "Some k" ts arbitrary: k rule: shape.induct)
  case (4 k t ts)
  then show ?case by (cases t) force+
qed simp

lemma shape_dvd: "shape (\<lambda>k. k = n) st ts \<Longrightarrow> n dvd (case st of None \<Rightarrow> 0 | Some k \<Rightarrow> k) + count_data ts"
proof (induction "\<lambda>k. k = n" st ts rule: shape.induct)
  case (4 k t ts)
  then show ?case by (cases t) (auto simp: algebra_simps)
qed auto

section \<open>Invariant\<close>

definition in_flight :: "('s \<Rightarrow> chunk list) \<Rightarrow> 's pipe \<Rightarrow> token list" where
  "in_flight queue p = map kind (pi_rewrite_queue p @ pi_out p @ (if pi_end p then [] else queue (pi_rw p)) @ pi_dedup_queue p @ pi_send p)"

definition open_state :: "'s pipe \<Rightarrow> int option" where
  "open_state p = map_option data_num (pi_seg p)"

definition open_num :: "'s pipe \<Rightarrow> int" where
  "open_num p = (case pi_seg p of None \<Rightarrow> 0 | Some cs \<Rightarrow> data_num cs)"

text \<open>A segment as the deduplication phase makes it.\<close>

definition fresh_segment :: "segment \<Rightarrow> bool" where
  "fresh_segment s = (segment_wf s \<and> (\<forall>c \<in> set (sg_chunks s). dedup_chunk c \<and> \<not> CHECK_CHUNK c CHUNK_SEGMENT_START \<and> \<not> CHECK_CHUNK c CHUNK_SEGMENT_END))"

definition pipe_inv :: "('s \<Rightarrow> chunk list) \<Rightarrow> ('s \<Rightarrow> bool) \<Rightarrow> 's pipe \<Rightarrow> bool" where
  "pipe_inv queue ok p = (pi_num p = open_num p + count_data (in_flight queue p)
     \<and> (\<forall>c \<in> set (pi_dedup_queue p @ pi_send p). dedup_chunk c) \<and> (\<forall>s \<in> set (pi_todo p). fresh_segment s)
     \<and> (pi_end p \<or> ok (pi_rw p)) \<and> (pi_term p \<longrightarrow> pi_todo p = [] \<and> pi_send p = []) \<and> (pi_end p \<longrightarrow> pi_term p \<and> pi_dedup_queue p = []))"

lemma fresh_kinds:
  assumes "fresh_segment s"
  shows "\<forall>t \<in> set (map kind (sg_chunks s)). t = File_Signal \<or> t = Data" "count_data (map kind (sg_chunks s)) = sg_chunk_num s"
    "list_all2 looked_up (sg_chunks s) (sg_chunks s)"
proof -
  show "\<forall>t \<in> set (map kind (sg_chunks s)). t = File_Signal \<or> t = Data" using assms by (auto simp: fresh_segment_def kind_def)
  have "filter (\<lambda>c. \<not> is_signal c) (sg_chunks s) = data_chunks (sg_chunks s)"
    using assms by (auto simp: fresh_segment_def data_chunks_def intro!: filter_cong)
  then show "count_data (map kind (sg_chunks s)) = sg_chunk_num s"
    using assms by (simp add: data_num_count [symmetric] data_num_def fresh_segment_def segment_wf_def)
  show "list_all2 looked_up (sg_chunks s) (sg_chunks s)"
    using assms by (auto simp: fresh_segment_def looked_up_def same_chunk_def list_all2_same)
qed

lemma mark_kinds [simp]: "kind (segment_mark junk CHUNK_SEGMENT_START) = Seg_Start" "kind (segment_mark junk CHUNK_SEGMENT_END) = Seg_End"
  "dedup_chunk (segment_mark junk CHUNK_SEGMENT_START)" "dedup_chunk (segment_mark junk CHUNK_SEGMENT_END)"
  by (simp_all add: kind_def segment_mark_def dedup_chunk_def new_chunk_def flag_simps CHECK_CHUNK_def)

lemma send_kinds:
  assumes "fresh_segment s" "list_all2 looked_up (sg_chunks s) cs"
  shows "map kind (send_segment junk (s\<lparr>sg_chunks := cs\<rparr>)) = Seg_Start # map kind (sg_chunks s) @ [Seg_End]"
    "\<forall>c \<in> set (send_segment junk (s\<lparr>sg_chunks := cs\<rparr>)). dedup_chunk c" "data_num cs = sg_chunk_num s"
proof -
  have k: "map kind cs = map kind (sg_chunks s)" by (rule kinds_eq [OF assms(2)]) (simp add: looked_up_def same_chunk_kind)
  then show "map kind (send_segment junk (s\<lparr>sg_chunks := cs\<rparr>)) = Seg_Start # map kind (sg_chunks s) @ [Seg_End]"
    by (simp add: send_segment_def)
  have "\<forall>c \<in> set cs. dedup_chunk c" using assms(2) by (auto simp: looked_up_def dest: list_all2_bwd)
  then show "\<forall>c \<in> set (send_segment junk (s\<lparr>sg_chunks := cs\<rparr>)). dedup_chunk c" by (auto simp: send_segment_def)
  show "data_num cs = sg_chunk_num s" using k fresh_kinds(2) [OF assms(1)] by (simp add: data_num_count)
qed

text \<open>An upper bound of the steps that are left.\<close>

definition work :: "('s \<Rightarrow> chunk list) \<Rightarrow> 's pipe \<Rightarrow> nat" where
  "work queue p = 7 * sum_list (map (\<lambda>s. length (sg_chunks s) + 3) (pi_todo p)) + 6 * length (pi_send p) + 5 * length (pi_dedup_queue p)
     + 4 * (if pi_end p then 0 else length (queue (pi_rw p))) + 3 * length (pi_out p) + 2 * length (pi_rewrite_queue p)
     + (if pi_term p then 0 else 1) + (if pi_end p then 0 else 1)"

locale buffered_rewriter =
  fixes turn :: "chunk \<Rightarrow> 's \<Rightarrow> (chunk list \<times> 's) option"
    and fin :: "'s \<Rightarrow> chunk list option"
    and queue :: "'s \<Rightarrow> chunk list"
    and ok :: "'s \<Rightarrow> bool"
    and limit :: int
  assumes turn_ok: "ok w \<Longrightarrow> dedup_chunk c \<Longrightarrow> \<exists>out w'. turn c w = Some (out, w') \<and> ok w' \<and> list_all2 marks (queue w @ [c]) (out @ queue w')"
    and fin_ok: "ok w \<Longrightarrow> \<exists>out. fin w = Some out \<and> list_all2 marks (queue w) out"
    and queue_limit: "ok w \<Longrightarrow> queue w \<noteq> [] \<longrightarrow> is_signal (List.last (queue w)) \<Longrightarrow> data_num (queue w) < limit"
begin

lemma step_inv:
  assumes "pipe_step junk thr turn fin p p'" "pipe_inv queue ok p" "shape P0 (open_state p) (in_flight queue p)"
  shows "pipe_inv queue ok p' \<and> (pi_todo p' = pi_todo p \<or> (\<exists>s. pi_todo p = s # pi_todo p'))
     \<and> (\<forall>P. shape P (open_state p) (in_flight queue p) \<longrightarrow> (pi_todo p' \<noteq> pi_todo p \<longrightarrow> P (sg_chunk_num (hd (pi_todo p))))
          \<longrightarrow> shape P (open_state p') (in_flight queue p'))"
  using assms
proof cases
  case (lookup s ss cs)
  have f: "fresh_segment s" using assms(2) lookup(3) by (simp add: pipe_inv_def)
  note k = send_kinds(1,2) [OF f lookup(5), of junk] send_kinds(3) [OF f lookup(5)]
  have fl: "in_flight queue p' = in_flight queue p @ Seg_Start # map kind (sg_chunks s) @ [Seg_End]"
    using lookup(1,2) k(1) by (simp add: in_flight_def)
  have nt: "\<not> pi_term p" "\<not> pi_end p" using assms(2) lookup(3) by (auto simp: pipe_inv_def)
  have "pipe_inv queue ok p'"
    using assms(2) lookup(1-3) fl k(2,3) fresh_kinds(2) [OF f] nt by (simp add: pipe_inv_def open_num_def ball_Un)
  moreover have "shape P (open_state p') (in_flight queue p')" if "shape P (open_state p) (in_flight queue p)" "P (sg_chunk_num s)" for P
    unfolding fl using that shape_segment [OF fresh_kinds(1) [OF f], of P 0] fresh_kinds(2) [OF f] lookup(1)
    by (auto intro!: shape_append simp: open_state_def)
  ultimately show ?thesis using lookup(1,3) by simp
next
  case (rewrite c q out w)
  have d: "dedup_chunk c" "ok (pi_rw p)" "\<not> pi_end p" using assms(2) rewrite(3) by (auto simp: pipe_inv_def)
  from turn_ok [OF d(2,1)] rewrite(4) have t: "ok w" "list_all2 marks (queue (pi_rw p) @ [c]) (out @ queue w)" by auto
  have "map kind (out @ queue w) = map kind (queue (pi_rw p) @ [c])" by (rule kinds_eq [OF t(2)]) (rule marks_kind)
  then have fl: "in_flight queue p' = in_flight queue p" using rewrite(1-3) d(3) by (simp add: in_flight_def)
  with rewrite(1,3) assms(2) t(1) show ?thesis by (auto simp: pipe_inv_def open_num_def open_state_def)
next
  case (rewrite_term out)
  have o: "ok (pi_rw p)" using assms(2) rewrite_term(5) by (simp add: pipe_inv_def)
  from fin_ok [OF o] rewrite_term(6) have "map kind out = map kind (queue (pi_rw p))" by (auto intro: kinds_eq marks_kind)
  then have fl: "in_flight queue p' = in_flight queue p" using rewrite_term(1-3,5) by (simp add: in_flight_def)
  with rewrite_term(1,3,4) assms(2) show ?thesis by (auto simp: pipe_inv_def open_num_def open_state_def)
next
  case (filter_open c q)
  have k: "kind c = Seg_Start" using assms(3) filter_open(2,3) by (simp add: in_flight_def open_state_def)
  then have fl: "in_flight queue p = Seg_Start # in_flight queue p'" using filter_open(1,3) by (simp add: in_flight_def)
  with filter_open(1,2) assms(2) show ?thesis by (auto simp: pipe_inv_def open_num_def open_state_def data_num_def)
next
  case (filter_take cs c q)
  have fl: "in_flight queue p = kind c # in_flight queue p'" using filter_take(1,3) by (simp add: in_flight_def)
  have k: "kind c \<noteq> Seg_End" using filter_take(4) by (simp add: kind_def)
  have "data_num (cs @ [c]) = data_num cs + (if kind c = Data then 1 else 0)" by (simp add: data_num_count)
  with fl k filter_take(1,2) assms(2) show ?thesis
    by (auto simp: pipe_inv_def open_num_def open_state_def split: token.splits)
next
  case (filter_done cs c q)
  have k: "kind c = Seg_End" using filter_done(4) by (simp add: kind_def)
  then have fl: "in_flight queue p = Seg_End # in_flight queue p'" using filter_done(1,3) by (simp add: in_flight_def)
  with filter_done(1,2) assms(2) show ?thesis by (auto simp: pipe_inv_def open_num_def open_state_def)
qed (use assms(2) in \<open>auto simp: pipe_inv_def open_num_def open_state_def in_flight_def\<close>)

text \<open>A state in which no phase can go on, though not all is done.\<close>

lemma blocked:
  assumes inv: "pipe_inv queue ok p" "shape P (open_state p) (in_flight queue p)" and stuck: "\<And>p'. \<not> pipe_step junk thr turn fin p p'"
    and nf: "\<not> finished p"
  shows "0 < thr \<and> thr \<le> pi_num p \<and> pi_todo p \<noteq> [] \<and> in_flight queue p = map kind (queue (pi_rw p))
     \<and> data_num (queue (pi_rw p)) < limit \<and> pi_num p = open_num p + data_num (queue (pi_rw p))"
proof -
  have rq: "pi_rewrite_queue p = []"
  proof (rule ccontr)
    assume "pi_rewrite_queue p \<noteq> []"
    then obtain c q where q: "pi_rewrite_queue p = c # q" by (cases "pi_rewrite_queue p") auto
    show False
    proof (cases "pi_seg p")
      case None
      with inv(2) q have "kind c = Seg_Start" by (simp add: in_flight_def open_state_def)
      then have "CHECK_CHUNK c CHUNK_SEGMENT_START" by (auto simp: kind_def split: if_splits)
      with stuck filter_open [OF None q] show False by blast
    next
      case (Some cs)
      with stuck filter_take [OF Some q] filter_done [OF Some q] show False by blast
    qed
  qed
  have out: "pi_out p = []"
  proof (cases "pi_out p")
    case (Cons c cs)
    from rewrite_push [OF this, of junk thr turn fin] stuck rq show ?thesis by simp
  qed simp
  have dq: "pi_dedup_queue p = []"
  proof (rule ccontr)
    assume "pi_dedup_queue p \<noteq> []"
    then obtain c q where q: "pi_dedup_queue p = c # q" by (cases "pi_dedup_queue p") auto
    then have "dedup_chunk c" "ok (pi_rw p)" using inv(1) by (auto simp: pipe_inv_def)
    from turn_ok [OF this(2,1)] obtain out' w where "turn c (pi_rw p) = Some (out', w)" by blast
    with stuck rewrite [OF out q] show False by blast
  qed
  have send: "pi_send p = []"
  proof (cases "pi_send p")
    case (Cons c cs)
    from dedup_push [OF this, of junk thr turn fin] stuck dq show ?thesis by simp
  qed simp
  have todo: "pi_todo p \<noteq> []"
  proof
    assume t: "pi_todo p = []"
    have "pi_term p" using stuck dedup_term [OF send t] by blast
    moreover have "pi_end p"
    proof (rule ccontr)
      assume e: "\<not> pi_end p"
      then have "ok (pi_rw p)" using inv(1) by (simp add: pipe_inv_def)
      from fin_ok [OF this] obtain o' where "fin (pi_rw p) = Some o'" by blast
      with stuck rewrite_term [OF out dq \<open>pi_term p\<close> e] show False by blast
    qed
    moreover have "pi_seg p = None" using inv(2) rq out dq send \<open>pi_end p\<close> by (cases "pi_seg p") (auto simp: in_flight_def open_state_def)
    ultimately show False using nf t send dq out rq by (simp add: finished_def)
  qed
  then obtain s ss where s: "pi_todo p = s # ss" by (cases "pi_todo p") auto
  have f: "fresh_segment s" and e: "\<not> pi_end p" and o: "ok (pi_rw p)" using inv(1) s by (auto simp: pipe_inv_def)
  have w: "0 < thr \<and> thr \<le> pi_num p"
    using stuck lookup [OF send s _ fresh_kinds(3) [OF f], where thr = thr and junk = junk and turn = turn and fin = fin] by blast
  have fl: "in_flight queue p = map kind (queue (pi_rw p))" using rq out dq send e by (simp add: in_flight_def)
  have "data_num (queue (pi_rw p)) < limit"
  proof (rule queue_limit [OF o], rule impI)
    assume q: "queue (pi_rw p) \<noteq> []"
    with shape_last [OF inv(2)] fl have "kind (List.last (queue (pi_rw p))) = Seg_End" by (simp add: last_map)
    then show "is_signal (List.last (queue (pi_rw p)))" by (auto simp: kind_def split: if_splits)
  qed
  with w todo fl inv(1) show ?thesis by (simp add: pipe_inv_def data_num_count)
qed

lemma start_inv:
  assumes "ok w" "queue w = []" "\<forall>s \<in> set ss. fresh_segment s"
  shows "pipe_inv queue ok (start_pipe w ss)" "shape P (open_state (start_pipe w ss)) (in_flight queue (start_pipe w ss))"
  using assms by (simp_all add: pipe_inv_def start_pipe_def in_flight_def open_num_def open_state_def)

lemma reach_bound:
  assumes "(pipe_step junk thr turn fin)\<^sup>*\<^sup>* (start_pipe w ss) p" "ok w" "queue w = []" "\<forall>s \<in> set ss. fresh_segment s \<and> P (sg_chunk_num s)"
  shows "pipe_inv queue ok p \<and> shape P (open_state p) (in_flight queue p) \<and> set (pi_todo p) \<subseteq> set ss"
  using assms(1)
proof induction
  case base
  show ?case using start_inv [OF assms(2,3), of ss] assms(4) by (simp add: start_pipe_def)
next
  case (step p p')
  then have i: "pipe_inv queue ok p" "shape P (open_state p) (in_flight queue p)" "set (pi_todo p) \<subseteq> set ss" by auto
  from step_inv [OF step.hyps(2) i(1,2)] i(2,3) assms(4) show ?case by fastforce
qed

text \<open>All segments but the last have \<open>n\<close> chunks.\<close>

lemma reach_exact:
  assumes "(pipe_step junk thr turn fin)\<^sup>*\<^sup>* (start_pipe w ss) p" "ok w" "queue w = []" "\<forall>s \<in> set ss. fresh_segment s"
    and "\<forall>s \<in> set (butlast ss). sg_chunk_num s = n"
  shows "(\<forall>s \<in> set (butlast (pi_todo p)). sg_chunk_num s = n) \<and> (pi_todo p \<noteq> [] \<longrightarrow> shape (\<lambda>k. k = n) (open_state p) (in_flight queue p))"
  using assms(1)
proof induction
  case base
  show ?case using start_inv [OF assms(2-4)] assms(5) by (simp add: start_pipe_def)
next
  case (step p p')
  have i: "pipe_inv queue ok p" "shape (\<lambda>_. True) (open_state p) (in_flight queue p)"
    using reach_bound [where P = "\<lambda>_. True", OF step.hyps(1) assms(2,3)] assms(4) by auto
  note s = step_inv [OF step.hyps(2) i]
  show ?case
  proof (cases "pi_todo p' = pi_todo p")
    case True
    with s step.IH show ?thesis by simp
  next
    case False
    with s obtain x where x: "pi_todo p = x # pi_todo p'" by auto
    have "sg_chunk_num x = n" if "pi_todo p' \<noteq> []" using step.IH x that by simp
    with s step.IH x show ?thesis by (auto split: if_splits)
  qed
qed

lemma blocked_full:
  assumes "pipe_inv queue ok p" "shape (\<lambda>k. k \<le> n) (open_state p) (in_flight queue p)" "\<And>p'. \<not> pipe_step junk (limit + n - 1) turn fin p p'"
    and "\<not> finished p" "1 \<le> n"
  shows "pi_todo p \<noteq> [] \<and> open_num p = n \<and> data_num (queue (pi_rw p)) = limit - 1 \<and> pi_num p = limit + n - 1"
proof -
  note b = blocked [OF assms(1-4)]
  have "open_num p \<le> n"
  proof (cases "pi_seg p")
    case (Some cs)
    with assms(2) have "shape (\<lambda>k. k \<le> n) (Some (data_num cs)) (in_flight queue p)" by (simp add: open_state_def)
    from shape_bound [OF this] Some show ?thesis by (simp add: open_num_def)
  qed (use assms(5) in \<open>simp add: open_num_def\<close>)
  with b show ?thesis by auto
qed

lemma not_blocked_exact:
  assumes "(pipe_step junk (limit + n - 1) turn fin)\<^sup>*\<^sup>* (start_pipe w ss) p" "ok w" "queue w = []"
    and "\<forall>s \<in> set ss. fresh_segment s \<and> sg_chunk_num s \<le> n" "\<forall>s \<in> set (butlast ss). sg_chunk_num s = n" "1 \<le> n" "\<not> n dvd limit - 1"
  shows "finished p \<or> (\<exists>p'. pipe_step junk (limit + n - 1) turn fin p p')"
proof (rule ccontr)
  assume c: "\<not> (finished p \<or> (\<exists>p'. pipe_step junk (limit + n - 1) turn fin p p'))"
  have i: "pipe_inv queue ok p" "shape (\<lambda>k. k \<le> n) (open_state p) (in_flight queue p)"
    using reach_bound [where P = "\<lambda>k. k \<le> n", OF assms(1-4)] by auto
  from blocked_full [OF i _ _ assms(6)] c have b: "pi_todo p \<noteq> []" "open_num p = n" "pi_num p = limit + n - 1" by auto
  have "shape (\<lambda>k. k = n) (open_state p) (in_flight queue p)" using reach_exact [OF assms(1-3) _ assms(5)] assms(4) b(1) by blast
  from shape_dvd [OF this] have "n dvd open_num p + count_data (in_flight queue p)" by (auto simp: open_state_def open_num_def split: option.splits)
  moreover have "pi_num p = open_num p + count_data (in_flight queue p)" using i(1) by (simp add: pipe_inv_def)
  ultimately have "n dvd n + (limit - 1)" using b(3) by (simp add: algebra_simps)
  then show False using assms(7) by simp
qed

lemma not_blocked_unbuffered:
  assumes "(pipe_step junk thr turn fin)\<^sup>*\<^sup>* (start_pipe w ss) p" "ok w" "queue w = []" "\<forall>s \<in> set ss. fresh_segment s"
    and "thr \<le> 0 \<or> queue (pi_rw p) = []"
  shows "finished p \<or> (\<exists>p'. pipe_step junk thr turn fin p p')"
proof (rule ccontr)
  assume c: "\<not> (finished p \<or> (\<exists>p'. pipe_step junk thr turn fin p p'))"
  have i: "pipe_inv queue ok p" "shape (\<lambda>_. True) (open_state p) (in_flight queue p)"
    using reach_bound [where P = "\<lambda>_. True", OF assms(1-3)] assms(4) by auto
  from blocked [OF i] c have b: "0 < thr" "thr \<le> pi_num p" "in_flight queue p = map kind (queue (pi_rw p))"
    "pi_num p = open_num p + data_num (queue (pi_rw p))" by auto
  then have q: "queue (pi_rw p) = []" using assms(5) by simp
  with i(2) b(3) have "pi_seg p = None" by (cases "pi_seg p") (auto simp: open_state_def)
  with b q show False by (simp add: open_num_def data_num_def)
qed

lemma step_work:
  assumes "pipe_step junk thr turn fin p p'" "pipe_inv queue ok p"
  shows "work queue p' < work queue p"
  using assms(1)
proof cases
  case (lookup s ss cs)
  have "length cs = length (sg_chunks s)" using list_all2_lengthD [OF lookup(5)] by simp
  with lookup(1-3) show ?thesis by (simp add: work_def send_segment_def)
next
  case (rewrite c q out w)
  have d: "dedup_chunk c" "ok (pi_rw p)" "\<not> pi_end p" using assms(2) rewrite(3) by (auto simp: pipe_inv_def)
  from turn_ok [OF d(2,1)] rewrite(4) have "list_all2 marks (queue (pi_rw p) @ [c]) (out @ queue w)" by auto
  from list_all2_lengthD [OF this] have "length out + length (queue w) = Suc (length (queue (pi_rw p)))" by simp
  with rewrite(1-3) d(3) show ?thesis by (simp add: work_def)
next
  case (rewrite_term out)
  have "ok (pi_rw p)" using assms(2) rewrite_term(5) by (simp add: pipe_inv_def)
  from fin_ok [OF this] rewrite_term(6) have "length out = length (queue (pi_rw p))" by (auto dest: list_all2_lengthD)
  with rewrite_term show ?thesis by (simp add: work_def)
qed (auto simp: work_def)

lemma runs_bounded:
  assumes "(pipe_step junk thr turn fin ^^ k) (start_pipe w ss) p" "ok w" "queue w = []" "\<forall>s \<in> set ss. fresh_segment s"
  shows "k + work queue p \<le> work queue (start_pipe w ss)"
  using assms(1)
proof (induction k arbitrary: p)
  case (Suc k)
  then obtain q where q: "(pipe_step junk thr turn fin ^^ k) (start_pipe w ss) q" "pipe_step junk thr turn fin q p" by auto
  have "pipe_inv queue ok q" using reach_bound [where P = "\<lambda>_. True", OF relpowp_imp_rtranclp [OF q(1)] assms(2,3)] assms(4) by auto
  from step_work [OF q(2) this] Suc.IH [OF q(1)] show ?case by simp
qed simp

end

interpretation rewriting: buffered_rewriter "rewrite_turn d inherited" "rewrite_end d inherited" held
    "\<lambda>w. rewriter_ok d w \<and> 0 < rewrite_algorithm1 d" "rewrite_algorithm1 d"
  using rewrite_turn_ok [where d = d] rewrite_end_ok held_bound by unfold_locales blast+

section \<open>The pipeline of a job\<close>

abbreviation pipeline ::
    "(nat \<Rightarrow> byte) \<Rightarrow> destor \<Rightarrow> containerid list \<Rightarrow> rewriter pipe \<Rightarrow> rewriter pipe \<Rightarrow> bool" where
  "pipeline junk d inherited \<equiv> pipe_step junk (wait_threshold d) (rewrite_turn d inherited) (rewrite_end d inherited)"

definition job_pipe :: "bool \<Rightarrow> destor \<Rightarrow> chunk list \<Rightarrow> rewriter pipe" where
  "job_pipe be d cs = start_pipe (init_rewriter d) (segment_stream (segmenting be d) cs None)"

definition plain_chunk :: "chunk \<Rightarrow> bool" where
  "plain_chunk c = (dedup_chunk c \<and> \<not> CHECK_CHUNK c CHUNK_SEGMENT_START \<and> \<not> CHECK_CHUNK c CHUNK_SEGMENT_END)"

lemma job_segments:
  assumes "\<forall>c \<in> set cs. plain_chunk c" "s \<in> set (segment_stream (segmenting be d) cs None)"
  shows "fresh_segment s"
proof -
  have "set (sg_chunks s) \<subseteq> set (concat (map sg_chunks (segment_stream (segmenting be d) cs None)))" using assms(2) by auto
  then have "set (sg_chunks s) \<subseteq> set cs" by (simp add: segmenting_stream_chunks)
  with assms segmenting_stream_wf [OF assms(2)] show ?thesis by (auto simp: fresh_segment_def plain_chunk_def)
qed

lemma job_start: "0 < rewrite_algorithm1 d \<Longrightarrow> rewriter_ok d (init_rewriter d) \<and> 0 < rewrite_algorithm1 d" "held (init_rewriter d) = []"
  using rewriter_ok_init by (simp_all add: held_def init_rewriter_def init_rewrite_buffer_def)

lemma fixed_segments:
  assumes "index_segment_algorithm0 d = INDEX_SEGMENT_FIXED" "0 < index_segment_algorithm1 d" "\<forall>c \<in> set cs. plain_chunk c"
  shows "\<forall>s \<in> set (segment_stream (segmenting be d) cs None). fresh_segment s \<and> sg_chunk_num s \<le> index_segment_algorithm1 d"
    "\<forall>s \<in> set (butlast (segment_stream (segmenting be d) cs None)). sg_chunk_num s = index_segment_algorithm1 d"
proof -
  let ?ss = "segment_stream (segmenting be d) cs None"
  have m: "segmenting be d = segment_fixed d" using assms(1) by (simp add: segmenting_def)
  have "segment_stream (segment_fixed d) cs tmp \<noteq> []" for tmp
    by (induction cs arbitrary: tmp) (auto simp: segment_fixed_def Let_def split: prod.splits option.splits)
  then have "?ss \<noteq> []" by (simp add: m)
  then have ss: "segment_stream (segment_fixed d) cs None = butlast ?ss @ [List.last ?ss]" by (simp add: m)
  have "sg_chunk_num (cur_segment None) < index_segment_algorithm1 d" using assms(2) by (simp add: cur_segment_def new_segment_def)
  with fixed_sizes [of d None cs "butlast ?ss" "List.last ?ss"] ss assms(2)
  have f: "\<forall>s \<in> set (butlast ?ss). sg_chunk_num s = index_segment_algorithm1 d" "sg_chunk_num (List.last ?ss) < index_segment_algorithm1 d"
    by auto
  show "\<forall>s \<in> set (butlast ?ss). sg_chunk_num s = index_segment_algorithm1 d" by (rule f(1))
  have set: "set ?ss = set (butlast ?ss) \<union> {List.last ?ss}" using \<open>?ss \<noteq> []\<close> by (metis append_butlast_last_id set_append list.simps(15) empty_set)
  show "\<forall>s \<in> set ?ss. fresh_segment s \<and> sg_chunk_num s \<le> index_segment_algorithm1 d"
  proof
    fix s assume s: "s \<in> set ?ss"
    with set f have "sg_chunk_num s \<le> index_segment_algorithm1 d" by auto
    with job_segments [OF assms(3) s] show "fresh_segment s \<and> sg_chunk_num s \<le> index_segment_algorithm1 d" ..
  qed
qed

lemma unbuffered:
  assumes "(pipeline junk d inherited)\<^sup>*\<^sup>* (job_pipe be d cs) p" "0 < rewrite_algorithm1 d" "rewrite_algorithm0 d = REWRITE_NO"
  shows "held (pi_rw p) = []"
  using assms(1)
proof induction
  case base
  show ?case by (simp add: job_pipe_def start_pipe_def job_start)
next
  case (step p q)
  from step.hyps(2) step.IH assms(3) show ?case by cases (auto simp: rewrite_turn_def)
qed

section \<open>An example\<close>

text \<open>A scheduler that lets the last phase that can go on take a step.\<close>

definition pipe_next ::
    "(nat \<Rightarrow> byte) \<Rightarrow> int \<Rightarrow> (chunk \<Rightarrow> 's \<Rightarrow> (chunk list \<times> 's) option) \<Rightarrow> ('s \<Rightarrow> chunk list option) \<Rightarrow> 's pipe \<Rightarrow> 's pipe option" where
  "pipe_next junk thr turn fin p =
     (case (pi_seg p, pi_rewrite_queue p) of
        (None, c # q) \<Rightarrow> if CHECK_CHUNK c CHUNK_SEGMENT_START then Some (p\<lparr>pi_rewrite_queue := q, pi_seg := Some []\<rparr>) else None
      | (Some cs, c # q) \<Rightarrow>
          if CHECK_CHUNK c CHUNK_SEGMENT_END then Some (p\<lparr>pi_rewrite_queue := q, pi_seg := None, pi_num := pi_num p - data_num cs\<rparr>)
          else Some (p\<lparr>pi_rewrite_queue := q, pi_seg := Some (cs @ [c])\<rparr>)
      | (_, []) \<Rightarrow> (case (pi_out p, pi_dedup_queue p, pi_send p) of
          (c # cs, _, _) \<Rightarrow> Some (p\<lparr>pi_out := cs, pi_rewrite_queue := [c]\<rparr>)
        | ([], c # q, _) \<Rightarrow> map_option (\<lambda>(out, w). p\<lparr>pi_dedup_queue := q, pi_out := out, pi_rw := w\<rparr>) (turn c (pi_rw p))
        | ([], [], c # cs) \<Rightarrow> Some (p\<lparr>pi_send := cs, pi_dedup_queue := [c]\<rparr>)
        | ([], [], []) \<Rightarrow> (case pi_todo p of
            s # ss \<Rightarrow> if (sg_chunk_num s > 0 \<and> thr > 0 \<and> pi_num p \<ge> thr) then None
              else if list_all dedup_chunk (sg_chunks s)
              then Some (p\<lparr>pi_todo := ss, pi_send := send_segment junk s, pi_num := pi_num p + data_num (sg_chunks s)\<rparr>) else None
          | [] \<Rightarrow> if \<not> pi_term p then Some (p\<lparr>pi_term := True\<rparr>)
              else if \<not> pi_end p then map_option (\<lambda>out. p\<lparr>pi_end := True, pi_out := out\<rparr>) (fin (pi_rw p)) else None)))"

lemma pipe_next_step:
  assumes "pipe_next junk thr turn fin p = Some p'"
  shows "pipe_step junk thr turn fin p p'"
proof (cases "pi_rewrite_queue p")
  case (Cons c q)
  then show ?thesis using assms filter_open [of p c q] filter_take [of p _ c q] filter_done [of p _ c q]
    by (auto simp: pipe_next_def split: option.splits if_splits)
next
  case rq: Nil
  show ?thesis
  proof (cases "pi_out p")
    case (Cons c cs)
    with assms rq rewrite_push [of p c cs] show ?thesis by (auto simp: pipe_next_def split: option.splits)
  next
    case out: Nil
    show ?thesis
    proof (cases "pi_dedup_queue p")
      case (Cons c q)
      with assms rq out rewrite [OF out Cons] show ?thesis by (auto simp: pipe_next_def split: option.splits)
    next
      case dq: Nil
      show ?thesis
      proof (cases "pi_send p")
        case (Cons c cs)
        with assms rq out dq dedup_push [of p c cs] show ?thesis by (auto simp: pipe_next_def split: option.splits)
      next
        case send: Nil
        show ?thesis
        proof (cases "pi_todo p")
          case Nil
          with assms rq out dq send dedup_term [of p] rewrite_term [of p] show ?thesis
            by (auto simp: pipe_next_def split: option.splits if_splits)
        next
          case (Cons s ss)
          with assms rq out dq send have n: "\<not> (sg_chunk_num s > 0 \<and> thr > 0 \<and> pi_num p \<ge> thr)" "list_all dedup_chunk (sg_chunks s)"
            "p' = p\<lparr>pi_todo := ss, pi_send := send_segment junk s, pi_num := pi_num p + data_num (sg_chunks s)\<rparr>"
            by (auto simp: pipe_next_def split: option.splits if_splits)
          have "list_all2 looked_up (sg_chunks s) (sg_chunks s)"
            using n(2) by (auto simp: looked_up_def same_chunk_def list_all2_same list_all_iff)
          from lookup [OF send Cons n(1) this] n(3) show ?thesis by simp
        qed
      qed
    qed
  qed
qed

fun pipe_run ::
    "nat \<Rightarrow> (nat \<Rightarrow> byte) \<Rightarrow> int \<Rightarrow> (chunk \<Rightarrow> 's \<Rightarrow> (chunk list \<times> 's) option) \<Rightarrow> ('s \<Rightarrow> chunk list option) \<Rightarrow> 's pipe \<Rightarrow> 's pipe" where
  "pipe_run 0 junk thr turn fin p = p"
| "pipe_run (Suc n) junk thr turn fin p =
     (case pipe_next junk thr turn fin p of None \<Rightarrow> p | Some p' \<Rightarrow> pipe_run n junk thr turn fin p')"

lemma pipe_run_steps: "(pipe_step junk thr turn fin)\<^sup>*\<^sup>* p (pipe_run n junk thr turn fin p)"
proof (induction n arbitrary: p)
  case (Suc n)
  show ?case
  proof (cases "pipe_next junk thr turn fin p")
    case (Some p')
    from converse_rtranclp_into_rtranclp [OF pipe_next_step [OF Some] Suc.IH] Some show ?thesis by simp
  qed simp
qed simp

lemma waiting_stuck:
  assumes "pi_send p = []" "pi_todo p = s # ss" "0 < sg_chunk_num s" "0 < thr" "thr \<le> pi_num p"
    and "pi_dedup_queue p = []" "pi_out p = []" "pi_rewrite_queue p = []" "\<not> pi_term p"
  shows "\<not> pipe_step junk thr turn fin p p'"
proof
  assume "pipe_step junk thr turn fin p p'"
  then show False by cases (use assms in auto)
qed

text \<open>A rewrite buffer of three chunks and fixed segments of two; nine chunks, the fingerprints of which the index does not
  know, so that the lookup leaves them as they are.\<close>

definition small_pipe_conf :: destor where
  "small_pipe_conf = destor_start_config\<lparr>rewrite_algorithm0 := REWRITE_CAPPING, rewrite_algorithm1 := 3,
     index_segment_algorithm0 := INDEX_SEGMENT_FIXED, index_segment_algorithm1 := 2\<rparr>"

definition small_chunk :: "nat \<Rightarrow> chunk" where
  "small_chunk i = (new_chunk (\<lambda>_. 0) 4)\<lparr>ck_fp := of_nat i # replicate 19 0\<rparr>"

abbreviation start_mark :: chunk where
  "start_mark \<equiv> segment_mark (\<lambda>_. 0) CHUNK_SEGMENT_START"

abbreviation end_mark :: chunk where
  "end_mark \<equiv> segment_mark (\<lambda>_. 0) CHUNK_SEGMENT_END"

lemma small_conf_simps: "rewrite_algorithm0 small_pipe_conf = REWRITE_CAPPING" "rewrite_algorithm1 small_pipe_conf = 3"
  "index_segment_algorithm0 small_pipe_conf = INDEX_SEGMENT_FIXED" "index_segment_algorithm1 small_pipe_conf = 2"
  "wait_threshold small_pipe_conf = 4"
  by (simp_all add: small_pipe_conf_def wait_threshold_def)

lemma small_chunk_simps: "\<not> CHECK_CHUNK (small_chunk i) CHUNK_FILE_START" "\<not> CHECK_CHUNK (small_chunk i) CHUNK_FILE_END"
  "\<not> CHECK_CHUNK (small_chunk i) CHUNK_SEGMENT_START" "\<not> CHECK_CHUNK (small_chunk i) CHUNK_SEGMENT_END"
  "\<not> CHECK_CHUNK (small_chunk i) CHUNK_DUPLICATE" "ck_id (small_chunk i) = TEMPORARY_ID" "ck_size (small_chunk i) = 4"
  "dedup_chunk (small_chunk i)"
  by (simp_all add: small_chunk_def new_chunk_def CHECK_CHUNK_def dedup_chunk_def)

lemma mark_checks: "CHECK_CHUNK start_mark CHUNK_SEGMENT_START" "CHECK_CHUNK end_mark CHUNK_SEGMENT_END"
  "\<not> CHECK_CHUNK start_mark CHUNK_SEGMENT_END"
  by (simp_all add: segment_mark_def new_chunk_def flag_simps CHECK_CHUNK_def)

text \<open>The rewriter with the chunks \<open>q\<close> in its buffer, of which \<open>n\<close> are data.\<close>

definition small_rewriter :: "utility_buckets \<Rightarrow> chunk list \<Rightarrow> int \<Rightarrow> rewriter" where
  "small_rewriter ub q n = \<lparr>rw_last = TEMPORARY_ID, rw_full = False, rw_buckets = ub,
     rw_buffer = \<lparr>rb_queue = q, rb_records = [], rb_num = n, rb_size = 4 * n\<rparr>\<rparr>"

lemma small_drain:
  assumes "\<forall>c \<in> set q. c \<in> range small_chunk \<or> is_signal c"
  shows "drain d [] (cap_mark True best) (Suc (length q)) \<lparr>rb_queue = q, rb_records = [], rb_num = data_num q, rb_size = 4 * data_num q\<rparr>
     = Some (q, \<lparr>rb_queue = [], rb_records = [], rb_num = 0, rb_size = 0\<rparr>)"
  using assms
proof (induction q)
  case (Cons c q)
  let ?rb = "\<lambda>q. \<lparr>rb_queue = q, rb_records = [], rb_num = data_num q, rb_size = 4 * data_num q\<rparr>"
  have "rewrite_buffer_pop d [] (?rb (c # q)) = Some (Some c, ?rb q) \<and> cap_mark True best c = Some c"
  proof (cases "is_signal c")
    case True
    then have "data_num (c # q) = data_num q" by (simp add: data_num_def)
    with True show ?thesis by (simp add: rewrite_buffer_pop_def cap_mark_def)
  next
    case False
    then obtain i where "c = small_chunk i" using Cons.prems by auto
    moreover have "data_num (small_chunk i # q) = data_num q + 1" by (simp add: data_num_def small_chunk_simps)
    ultimately show ?thesis by (simp add: rewrite_buffer_pop_def cap_mark_def small_chunk_simps)
  qed
  then show ?case using Cons by (simp add: drain.simps(2) [of _ _ _ "Suc (length q)"] del: drain.simps(2))
qed (simp add: rewrite_buffer_pop_def data_num_def)

lemma small_turns:
  "is_signal m \<Longrightarrow> rewrite_turn small_pipe_conf [] m (small_rewriter ub q n) = Some ([], small_rewriter ub (q @ [m]) n)"
  "n + 1 < 3 \<Longrightarrow> rewrite_turn small_pipe_conf [] (small_chunk i) (small_rewriter ub q n)
     = Some ([], small_rewriter ub (q @ [small_chunk i]) (n + 1))"
  "\<forall>c \<in> set q. c \<in> range small_chunk \<or> is_signal c \<Longrightarrow> data_num q = 2 \<Longrightarrow>
     rewrite_turn small_pipe_conf [] (small_chunk i) (small_rewriter ub q 2) = Some (q @ [small_chunk i], small_rewriter ub [] 0)"
proof -
  show "is_signal m \<Longrightarrow> rewrite_turn small_pipe_conf [] m (small_rewriter ub q n) = Some ([], small_rewriter ub (q @ [m]) n)"
    by (auto simp: rewrite_turn_def cap_turn_def small_conf_simps small_rewriter_def rewrite_buffer_push_def)
  show "n + 1 < 3 \<Longrightarrow> rewrite_turn small_pipe_conf [] (small_chunk i) (small_rewriter ub q n)
     = Some ([], small_rewriter ub (q @ [small_chunk i]) (n + 1))"
    by (simp add: rewrite_turn_def cap_turn_def small_conf_simps small_rewriter_def rewrite_buffer_push_def small_chunk_simps)
  assume q: "\<forall>c \<in> set q. c \<in> range small_chunk \<or> is_signal c" "data_num q = 2"
  then have "data_num (q @ [small_chunk i]) = 3" "\<forall>c \<in> set (q @ [small_chunk i]). c \<in> range small_chunk \<or> is_signal c"
    by (auto simp: data_num_def small_chunk_simps)
  with small_drain [OF this(2), of small_pipe_conf "[]"]
  show "rewrite_turn small_pipe_conf [] (small_chunk i) (small_rewriter ub q 2) = Some (q @ [small_chunk i], small_rewriter ub [] 0)"
    by (simp add: rewrite_turn_def cap_turn_def small_conf_simps small_rewriter_def rewrite_buffer_push_def small_chunk_simps
        cap_segment_get_top_def drain_all_def del: drain.simps)
qed

definition small_segment :: "chunk list \<Rightarrow> segment" where
  "small_segment cs = \<lparr>sg_id = TEMPORARY_ID, sg_chunk_num = int (length cs), sg_chunks = cs, sg_features = None\<rparr>"

lemma small_stream: "segment_stream (segmenting False small_pipe_conf) (map small_chunk [0, 1, 2, 3, 4, 5, 6, 7, 8]) None
    = [small_segment [small_chunk 0, small_chunk 1], small_segment [small_chunk 2, small_chunk 3],
       small_segment [small_chunk 4, small_chunk 5], small_segment [small_chunk 6, small_chunk 7], small_segment [small_chunk 8]]"
  by (simp add: segmenting_def small_conf_simps segment_fixed_def cur_segment_def new_segment_def seg_append_def seg_count_def
      small_chunk_simps small_segment_def Let_def)

lemma pipe_run_numeral: "pipe_run (numeral k) junk thr turn fin p =
     (case pipe_next junk thr turn fin p of None \<Rightarrow> p | Some p' \<Rightarrow> pipe_run (pred_numeral k) junk thr turn fin p')"
  by (simp add: numeral_eq_Suc)

lemma data_num_simps: "data_num [] = 0" "data_num (c # cs) = (if is_signal c then data_num cs else 1 + data_num cs)"
  by (simp_all add: data_num_def)

lemmas small_run_simps = pipe_run_numeral pipe_next_def small_turns small_conf_simps small_chunk_simps mark_checks small_segment_def
  send_segment_def data_num_simps

lemma small_deadlock:
  defines "p \<equiv> \<lparr>pi_todo = [small_segment [small_chunk 8]], pi_send = [], pi_num = 4, pi_dedup_queue = [], pi_term = False,
      pi_rw = small_rewriter (init_utility_buckets small_pipe_conf) [end_mark, start_mark, small_chunk 6, small_chunk 7, end_mark] 2,
      pi_out = [], pi_end = False, pi_rewrite_queue = [], pi_seg = Some [small_chunk 4, small_chunk 5]\<rparr>"
  shows "pipe_run 72 (\<lambda>_. 0) (wait_threshold small_pipe_conf) (rewrite_turn small_pipe_conf []) (rewrite_end small_pipe_conf [])
      (job_pipe False small_pipe_conf (map small_chunk [0, 1, 2, 3, 4, 5, 6, 7, 8])) = p"
proof -
  have "init_rewriter small_pipe_conf = small_rewriter (init_utility_buckets small_pipe_conf) [] 0"
    by (simp add: init_rewriter_def small_rewriter_def init_rewrite_buffer_def)
  then show ?thesis unfolding job_pipe_def small_stream p_def by (simp add: small_run_simps start_pipe_def)
qed

section \<open>Properties\<close>

text \<open>The configurations that are shown not to block: no rewriting; file-defined segments, for which there is no
  threshold; fixed segments of \<open>n\<close> chunks, unless \<open>n\<close> divides the size of the rewrite buffer less one.\<close>

definition never_blocks :: "destor \<Rightarrow> bool" where
  "never_blocks d = (0 < rewrite_algorithm1 d \<and> (rewrite_algorithm0 d = REWRITE_NO \<or> index_segment_algorithm0 d = INDEX_SEGMENT_FILE_DEFINED
     \<or> (index_segment_algorithm0 d = INDEX_SEGMENT_FIXED \<and> 0 < index_segment_algorithm1 d
        \<and> \<not> index_segment_algorithm1 d dvd rewrite_algorithm1 d - 1)))"

text \<open>C6: the deduplication, rewrite and filter phases do not block each other: in a configuration of \<open>never_blocks\<close>, for
  every stream and every interleaving, some phase can go on until all segments have passed the filter phase, and the
  number of steps of any run has a bound.\<close>

theorem pipeline_progress:
  assumes "never_blocks d" "\<forall>c \<in> set cs. plain_chunk c"
  shows "((pipeline junk d inherited)\<^sup>*\<^sup>* (job_pipe be d cs) p \<longrightarrow> finished p \<or> (\<exists>p'. pipeline junk d inherited p p'))
     \<and> (\<exists>n. \<forall>k p. (pipeline junk d inherited ^^ k) (job_pipe be d cs) p \<longrightarrow> k \<le> n)"
proof -
  let ?ss = "segment_stream (segmenting be d) cs None"
  have pos: "0 < rewrite_algorithm1 d" using assms(1) by (simp add: never_blocks_def)
  note st = job_start(1) [OF pos] job_start(2) [of d]
  have fr: "\<forall>s \<in> set ?ss. fresh_segment s" using job_segments [OF assms(2)] by blast
  have "finished p \<or> (\<exists>p'. pipeline junk d inherited p p')" if r: "(pipeline junk d inherited)\<^sup>*\<^sup>* (job_pipe be d cs) p"
  proof (cases "index_segment_algorithm0 d = INDEX_SEGMENT_FIXED \<and> rewrite_algorithm0 d \<noteq> REWRITE_NO")
    case True
    with assms(1) have c: "index_segment_algorithm0 d = INDEX_SEGMENT_FIXED" "0 < index_segment_algorithm1 d"
      "\<not> index_segment_algorithm1 d dvd rewrite_algorithm1 d - 1" by (auto simp: never_blocks_def)
    have t: "wait_threshold d = rewrite_algorithm1 d + index_segment_algorithm1 d - 1" using c(1) by (simp add: wait_threshold_def)
    note f = fixed_segments [OF c(1,2) assms(2), of be]
    from rewriting.not_blocked_exact [OF r [unfolded job_pipe_def t] st f _ c(3)] c(2) show ?thesis unfolding t by simp
  next
    case False
    have "wait_threshold d \<le> 0 \<or> held (pi_rw p) = []"
      using False unbuffered [OF r pos] assms(1) by (auto simp: never_blocks_def wait_threshold_def)
    from rewriting.not_blocked_unbuffered [OF r [unfolded job_pipe_def] st fr this] show ?thesis .
  qed
  moreover have "k \<le> work held (job_pipe be d cs)" if "(pipeline junk d inherited ^^ k) (job_pipe be d cs) p" for k p
    using rewriting.runs_bounded [OF that [unfolded job_pipe_def] st fr] by (simp add: job_pipe_def)
  ultimately show ?thesis by blast
qed

text \<open>A rewrite buffer of four chunks and segments of two: the first phase can go on.\<close>

theorem pipeline_progress_witness:
  "\<exists>p. pipeline (\<lambda>_. 0) (small_pipe_conf\<lparr>rewrite_algorithm1 := 4\<rparr>) []
     (job_pipe False (small_pipe_conf\<lparr>rewrite_algorithm1 := 4\<rparr>) (map small_chunk [0, 1, 2, 3, 4, 5, 6, 7, 8])) p"
proof -
  let ?d = "small_pipe_conf\<lparr>rewrite_algorithm1 := 4\<rparr>" and ?cs = "map small_chunk [0, 1, 2, 3, 4, 5, 6, 7, 8]"
  have d: "never_blocks ?d" by (simp add: never_blocks_def small_conf_simps)
  have cs: "\<forall>c \<in> set ?cs. plain_chunk c" by (simp add: plain_chunk_def small_chunk_simps)
  have "\<not> finished (job_pipe False ?d ?cs)" by (simp add: finished_def job_pipe_def start_pipe_def)
  with pipeline_progress [OF d cs, of "\<lambda>_. 0" "[]" False "job_pipe False ?d ?cs"] show ?thesis by blast
qed


end
