(* ===== verification/Cma.thy ===== *)
theory Cma
  imports Text_Format
begin

text \<open>
  The container manifest (\<^verbatim>\<open>src/destor/src/cma.c\<close>): for every live container the last backup that
  used it. A backup writes its number for the containers it used; a deletion reclaims the containers
  whose last use is not later than the deleted backup. The manifest is a text file, \<open>None\<close> where it does
  not exist; the order in which a hash table is walked is the parameter \<open>ord\<close>.
\<close>

section \<open>The file\<close>

type_synonym manifest = "(containerid, int) ghash"

definition manifest_line :: "containerid \<times> int \<Rightarrow> byte list" where
  "manifest_line = (\<lambda>(i, t). print_int i @ [44] @ print_int t @ [10])"

definition print_manifest :: "(manifest \<Rightarrow> manifest) \<Rightarrow> manifest \<Rightarrow> byte list" where
  "print_manifest ord m = concat (map manifest_line (ord m))"

definition scan_record :: "byte list \<Rightarrow> ((containerid \<times> int) \<times> byte list) option" where
  "scan_record bs = do {
     (i, bs) \<leftarrow> scan_int bs;
     bs \<leftarrow> scan_char 44 bs;
     (t, bs) \<leftarrow> scan_int bs;
     Some ((i, t), bs)
   }"

lemma scan_record_shorter: "scan_record bs = Some (x, r) \<Longrightarrow> length r < length bs"
  by (auto simp: scan_record_def bind_eq_Some_conv dest!: scan_int_shorter scan_char_shorter)

function scan_records :: "byte list \<Rightarrow> (containerid \<times> int) list" where
  "scan_records bs = (case scan_record bs of None \<Rightarrow> [] | Some (x, bs) \<Rightarrow> x # scan_records bs)"
  by pat_completeness auto
termination by (relation "measure length") (auto dest: scan_record_shorter)

declare scan_records.simps [simp del]

section \<open>Operations\<close>

definition read_manifest :: "byte list option \<Rightarrow> manifest" where
  "read_manifest f = (case f of None \<Rightarrow> [] | Some bs \<Rightarrow> fold (\<lambda>(i, t). AList.update i t) (scan_records bs) [])"

text \<open>\<open>used\<close>: the containers of the monitor. The result is the new file and the number of live
  containers.\<close>

definition update_manifest ::
    "(manifest \<Rightarrow> manifest) \<Rightarrow> containerid list \<Rightarrow> int \<Rightarrow> byte list option \<Rightarrow> byte list \<times> int" where
  "update_manifest ord used jcr_id f =
     (let m = fold (\<lambda>i. AList.update i jcr_id) used (read_manifest f) in (print_manifest ord m, int (length m)))"

definition trunc_manifest ::
    "(manifest \<Rightarrow> manifest) \<Rightarrow> int \<Rightarrow> byte list option \<Rightarrow> (containerid list \<times> byte list \<times> int) option" where
  "trunc_manifest ord jobid f = do {
     bs \<leftarrow> f;
     let (invalid, m) = fold (\<lambda>(i, t) (invalid, m). if t \<le> jobid then (List.insert i invalid, m) else (invalid, AList.update i t m))
                          (scan_records bs) ([], []);
     Some (invalid, print_manifest ord m, int (length m))
   }"

section \<open>Reading back\<close>

lemma scan_record_line: "list_all is_space ws \<Longrightarrow> scan_record (ws @ manifest_line x @ r) = Some (x, 10 # r)"
proof -
  assume ws: "list_all is_space ws"
  obtain i t where x: "x = (i, t)" by force
  have "scan_int (ws @ print_int i @ [44] @ print_int t @ [10] @ r) = Some (i, [44] @ print_int t @ [10] @ r)"
    by (rule scan_print [OF _ ws]) (simp add: is_digit_def)
  moreover have "scan_int (print_int t @ [10] @ r) = Some (t, [10] @ r)"
    using scan_print [of "[10] @ r" "[]" t] by (simp add: is_digit_def)
  ultimately show ?thesis by (simp add: x manifest_line_def scan_record_def scan_char_def)
qed

lemma scan_records_lines: "list_all is_space ws \<Longrightarrow> scan_records (ws @ concat (map manifest_line xs)) = xs"
proof (induction xs arbitrary: ws)
  case Nil
  then have "dropWhile is_space ws = []" by (simp add: dropWhile_eq_Nil_conv list_all_iff)
  then have "scan_int ws = None" by (simp add: scan_int_def del: dropWhile_eq_Nil_conv)
  then show ?case by (subst scan_records.simps) (simp add: scan_record_def)
next
  case (Cons x xs)
  have "scan_records ([10] @ concat (map manifest_line xs)) = xs" by (rule Cons.IH) (simp add: is_space_def)
  with scan_record_line [OF Cons.prems, of x "concat (map manifest_line xs)"] show ?case
    by (subst scan_records.simps) simp
qed

lemma scan_print_manifest: "scan_records (print_manifest ord m) = ord m"
  using scan_records_lines [of "[]" "ord m"] by (simp add: print_manifest_def)

text \<open>The hash tables the loops build.\<close>

definition walk_order :: "(manifest \<Rightarrow> manifest) \<Rightarrow> bool" where
  "walk_order ord = (\<forall>m. mset (ord m) = mset m)"

lemma fold_update_distinct:
  "distinct (map fst m0) \<Longrightarrow> distinct (map fst (fold (\<lambda>(i, t). AList.update i t) xs m0))"
  by (induction xs arbitrary: m0) (auto simp: distinct_update case_prod_beta)

lemma fold_update_map: "map_of (fold (\<lambda>(i, t). AList.update i t) xs m0) = map_of m0 ++ map_of (rev xs)"
proof (induction xs arbitrary: m0)
  case (Cons x xs)
  then show ?case by (cases x) (simp add: update_conv' map_add_assoc [symmetric] map_add_def fun_eq_iff split: option.splits)
qed simp

lemma map_of_perm: "mset xs = mset ys \<Longrightarrow> distinct (map fst ys) \<Longrightarrow> map_of xs = map_of ys"
  by (metis map_of_eqI mset_map distinct_map mset_eq_setD mset_eq_imp_distinct_iff map_of_inject_set)

section \<open>The manifest as a map\<close>

abbreviation last_use :: "byte list option \<Rightarrow> containerid \<Rightarrow> int option" where
  "last_use f \<equiv> map_of (read_manifest f)"

definition manifest_ok :: "byte list option \<Rightarrow> bool" where
  "manifest_ok f = (case f of None \<Rightarrow> True | Some bs \<Rightarrow> distinct (map fst (scan_records bs)))"

lemma read_manifest_distinct: "distinct (map fst (read_manifest f))"
  by (simp add: read_manifest_def fold_update_distinct split: option.split)

lemma map_of_rev_distinct: "distinct (map fst xs) \<Longrightarrow> map_of (rev xs) = map_of xs"
  by (rule map_of_perm) simp_all

lemma last_use_scan: "manifest_ok (Some bs) \<Longrightarrow> last_use (Some bs) = map_of (scan_records bs)"
  by (simp add: manifest_ok_def read_manifest_def fold_update_map map_of_rev_distinct)

lemma print_manifest_ok:
  assumes "walk_order ord" "distinct (map fst m)"
  shows "manifest_ok (Some (print_manifest ord m))" "last_use (Some (print_manifest ord m)) = map_of m"
proof -
  have o: "mset (ord m) = mset m" using assms(1) by (simp add: walk_order_def)
  then have "distinct (map fst (ord m))" using assms(2) by (metis mset_eq_imp_distinct_iff mset_map)
  then show ok: "manifest_ok (Some (print_manifest ord m))" by (simp add: manifest_ok_def scan_print_manifest)
  show "last_use (Some (print_manifest ord m)) = map_of m"
    unfolding last_use_scan [OF ok] scan_print_manifest by (rule map_of_perm [OF o assms(2)])
qed

lemma fold_used:
  "distinct (map fst m) \<Longrightarrow> distinct (map fst (fold (\<lambda>i. AList.update i t) used m))"
  "map_of (fold (\<lambda>i. AList.update i t) used m) = (\<lambda>i. if i \<in> set used then Some t else map_of m i)"
  by (induction used arbitrary: m) (auto simp: distinct_update update_conv' fun_eq_iff)

text \<open>A backup.\<close>

lemma update_manifest_map:
  assumes "walk_order ord" "update_manifest ord used t f = (bs, n)"
  shows "manifest_ok (Some bs)" "last_use (Some bs) = (\<lambda>i. if i \<in> set used then Some t else last_use f i)"
  using assms(2) print_manifest_ok [OF assms(1) fold_used(1) [OF read_manifest_distinct]] by (auto simp: update_manifest_def fold_used(2) Let_def)

text \<open>A deletion.\<close>

definition split_records :: "int \<Rightarrow> (containerid \<times> int) list \<Rightarrow> containerid list \<times> manifest \<Rightarrow> containerid list \<times> manifest" where
  "split_records j = fold (\<lambda>(i, t) (invalid, m). if t \<le> j then (List.insert i invalid, m) else (invalid, AList.update i t m))"

lemma split_records_sets:
  "distinct (map fst m) \<Longrightarrow> distinct (map fst xs) \<Longrightarrow> fst ` set xs \<inter> fst ` set m = {} \<Longrightarrow> split_records j xs (iv, m) = (iv', m') \<Longrightarrow>
     set iv' = set iv \<union> {i. \<exists>t. (i, t) \<in> set xs \<and> t \<le> j} \<and> distinct (map fst m')
     \<and> map_of m' = map_of m ++ map_of (filter (\<lambda>(i, t). t > j) xs)"
proof (induction xs arbitrary: iv m)
  case Nil
  then show ?case by (simp add: split_records_def)
next
  case (Cons x xs)
  obtain i t where x: "x = (i, t)" by force
  show ?case
  proof (cases "t \<le> j")
    case True
    with Cons.prems x have "split_records j xs (List.insert i iv, m) = (iv', m')" by (simp add: split_records_def)
    from Cons.IH [OF Cons.prems(1) _ _ this] Cons.prems(2,3) x True show ?thesis by auto
  next
    case False
    have new: "map_of m i = None" using Cons.prems(3) x by (auto simp: map_of_eq_None_iff)
    have d: "distinct (map fst (AList.update i t m))" "fst ` set xs \<inter> fst ` set (AList.update i t m) = {}"
      using Cons.prems x new by (auto simp: distinct_update dom_update AList_update_new)
    from Cons.prems(4) x False have "split_records j xs (iv, AList.update i t m) = (iv', m')" by (simp add: split_records_def)
    from Cons.IH [OF d(1) _ d(2) this] Cons.prems(2) have
      1: "set iv' = set iv \<union> {i. \<exists>t. (i, t) \<in> set xs \<and> t \<le> j}" "distinct (map fst m')"
        "map_of m' = map_of (AList.update i t m) ++ map_of (filter (\<lambda>(i, t). t > j) xs)" by auto
    have "i \<notin> fst ` set xs" using Cons.prems(2) x by simp
    then have "map_of (filter (\<lambda>(i, t). t > j) xs) i = None" by (force simp: map_of_eq_None_iff)
    with 1 x False show ?thesis
      by (auto simp: update_conv' map_add_def fun_eq_iff split: option.splits)
  qed
qed

lemma map_of_later: "distinct (map fst xs) \<Longrightarrow>
    map_of (filter (\<lambda>(i, t). t > j) xs) = (\<lambda>i. case map_of xs i of Some t \<Rightarrow> if t > j then Some t else None | None \<Rightarrow> None)"
proof (induction xs)
  case (Cons x xs)
  obtain i t where x: "x = (i, t)" by force
  with Cons.prems have "map_of xs i = None" by (simp add: map_of_eq_None_iff)
  with Cons x show ?case by (auto simp: fun_eq_iff split: option.splits)
qed simp

lemma trunc_manifest_map:
  assumes "walk_order ord" "manifest_ok (Some bs)" "trunc_manifest ord j (Some bs) = Some (invalid, bs', n)"
  shows "manifest_ok (Some bs')" "set invalid = {i. \<exists>t. last_use (Some bs) i = Some t \<and> t \<le> j}"
    "last_use (Some bs') = (\<lambda>i. case last_use (Some bs) i of Some t \<Rightarrow> if t > j then Some t else None | None \<Rightarrow> None)"
proof -
  let ?xs = "scan_records bs"
  have d: "distinct (map fst ?xs)" using assms(2) by (simp add: manifest_ok_def)
  note l = last_use_scan [OF assms(2)]
  obtain m where m: "split_records j ?xs ([], []) = (invalid, m)" "bs' = print_manifest ord m"
    using assms(3) by (cases "split_records j ?xs ([], [])") (auto simp: trunc_manifest_def split_records_def)
  from split_records_sets [OF _ d _ m(1)] have s: "set invalid = {i. \<exists>t. (i, t) \<in> set ?xs \<and> t \<le> j}" "distinct (map fst m)"
    "map_of m = map_of (filter (\<lambda>(i, t). t > j) ?xs)" by auto
  show "manifest_ok (Some bs')" unfolding m(2) by (rule print_manifest_ok [OF assms(1) s(2)])
  show "set invalid = {i. \<exists>t. last_use (Some bs) i = Some t \<and> t \<le> j}" using s(1) d by (simp add: l)
  show "last_use (Some bs') = (\<lambda>i. case last_use (Some bs) i of Some t \<Rightarrow> if t > j then Some t else None | None \<Rightarrow> None)"
    unfolding m(2) print_manifest_ok(2) [OF assms(1) s(2)] by (simp add: l s(3) map_of_later [OF d])
qed

section \<open>Histories\<close>

text \<open>The backups and deletions of a store; \<open>gone\<close> collects what the deletions reclaimed.\<close>

datatype cma_op = Backup_done int "containerid list" | Delete_upto int

fun cma_run :: "(manifest \<Rightarrow> manifest) \<Rightarrow> cma_op list \<Rightarrow> byte list option \<Rightarrow> containerid list \<Rightarrow> (byte list option \<times> containerid list) option" where
  "cma_run ord [] f gone = Some (f, gone)"
| "cma_run ord (Backup_done t used # ops) f gone = cma_run ord ops (Some (fst (update_manifest ord used t f))) gone"
| "cma_run ord (Delete_upto j # ops) f gone = do {
     (invalid, bs, _) \<leftarrow> trunc_manifest ord j f;
     cma_run ord ops (Some bs) (gone @ invalid)
   }"

definition uses :: "cma_op list \<Rightarrow> containerid \<Rightarrow> int set" where
  "uses ops i = {t. \<exists>used. Backup_done t used \<in> set ops \<and> i \<in> set used}"

fun backup_ids :: "cma_op list \<Rightarrow> int list" where
  "backup_ids [] = []"
| "backup_ids (Backup_done t _ # ops) = t # backup_ids ops"
| "backup_ids (Delete_upto _ # ops) = backup_ids ops"

definition manifest_inv :: "cma_op list \<Rightarrow> byte list option \<Rightarrow> containerid list \<Rightarrow> bool" where
  "manifest_inv ops f gone = (manifest_ok f
     \<and> (\<forall>i t. last_use f i = Some t \<longrightarrow> t \<in> uses ops i \<and> (\<forall>u \<in> uses ops i. u \<le> t))
     \<and> (\<forall>i. uses ops i \<noteq> {} \<longrightarrow> last_use f i \<noteq> None \<or> i \<in> set gone))"

lemma uses_snoc [simp]:
  "uses (ops @ [Backup_done t used]) i = (if i \<in> set used then insert t (uses ops i) else uses ops i)"
  "uses (ops @ [Delete_upto j]) i = uses ops i"
  by (auto simp: uses_def)

lemma backup_ids_uses: "t \<in> uses ops i \<Longrightarrow> t \<in> set (backup_ids ops)"
proof -
  have "Backup_done t used \<in> set ops \<Longrightarrow> t \<in> set (backup_ids ops)" for used by (induction ops rule: backup_ids.induct) auto
  then show "t \<in> uses ops i \<Longrightarrow> t \<in> set (backup_ids ops)" by (auto simp: uses_def)
qed

lemma backup_ids_append: "backup_ids (xs @ ys) = backup_ids xs @ backup_ids ys"
  by (induction xs rule: backup_ids.induct) auto

lemma cma_run_inv:
  assumes "walk_order ord" "manifest_inv past f gone" "cma_run ord ops f gone = Some (f', gone')" "sorted_wrt (<) (backup_ids (past @ ops))"
  shows "manifest_inv (past @ ops) f' gone'"
  using assms(2-)
proof (induction ops arbitrary: "past" f gone)
  case Nil
  then show ?case by simp
next
  case (Cons x ops)
  show ?case
  proof (cases x)
    case (Backup_done t used)
    let ?f = "Some (fst (update_manifest ord used t f))"
    have lt: "\<forall>u \<in> uses past i. u \<le> t" for i
      using Cons.prems(3) Backup_done backup_ids_uses [of _ "past" i] by (fastforce simp: backup_ids_append sorted_wrt_append)
    have u: "manifest_ok ?f" "last_use ?f = (\<lambda>i. if i \<in> set used then Some t else last_use f i)"
      using update_manifest_map [OF assms(1), of used t f] by (metis prod.collapse)+
    have "manifest_inv (past @ [x]) ?f gone"
      using Cons.prems(1) lt u by (auto simp: manifest_inv_def Backup_done split: if_splits)
    from Cons.IH [OF this] Cons.prems(2,3) Backup_done show ?thesis by simp
  next
    case (Delete_upto j)
    with Cons.prems(2) obtain bs inv bs' n where
      d: "f = Some bs" "trunc_manifest ord j (Some bs) = Some (inv, bs', n)" "cma_run ord ops (Some bs') (gone @ inv) = Some (f', gone')"
      by (cases f) (auto simp: bind_eq_Some_conv trunc_manifest_def)
    have ok: "manifest_ok (Some bs)" using Cons.prems(1) d(1) by (simp add: manifest_inv_def)
    note t = trunc_manifest_map [OF assms(1) ok d(2)]
    have "manifest_inv (past @ [x]) (Some bs') (gone @ inv)"
      using Cons.prems(1) t d(1) by (fastforce simp: manifest_inv_def Delete_upto split: option.splits if_splits)
    from Cons.IH [OF this d(3)] Cons.prems(3) show ?thesis by simp
  qed
qed

text \<open>C25: deleting backups reclaims nothing that a later backup uses. After any history of backups with
  increasing numbers and of deletions, deleting up to backup \<open>j\<close> reclaims only containers that no backup
  after \<open>j\<close> used; and every container that was ever used is still in the manifest or has been reclaimed.\<close>

theorem reclaim_safe:
  assumes "walk_order ord" "cma_run ord ops None [] = Some (f, gone)" "sorted_wrt (<) (backup_ids ops)"
    and "trunc_manifest ord j f = Some (invalid, bs, n)"
  shows "(\<forall>i \<in> set invalid. \<forall>t used. Backup_done t used \<in> set ops \<longrightarrow> i \<in> set used \<longrightarrow> t \<le> j)
     \<and> (\<forall>t used i. Backup_done t used \<in> set ops \<longrightarrow> i \<in> set used \<longrightarrow>
          i \<in> set gone \<or> i \<in> set invalid \<or> (\<exists>u > j. last_use (Some bs) i = Some u))"
proof -
  have inv: "manifest_inv ops f gone"
    using cma_run_inv [OF assms(1), of "[]" None "[]" ops f gone] assms(2,3) by (simp add: manifest_inv_def manifest_ok_def read_manifest_def uses_def)
  obtain b0 where f: "f = Some b0" using assms(4) by (cases f) (auto simp: trunc_manifest_def)
  have ok: "manifest_ok (Some b0)" using inv f by (simp add: manifest_inv_def)
  note t = trunc_manifest_map [OF assms(1) ok assms(4) [unfolded f]]
  have u: "t \<in> uses ops i" if "Backup_done t used \<in> set ops" "i \<in> set used" for t used i using that by (auto simp: uses_def)
  have 1: "\<exists>t. last_use f i = Some t \<and> t \<le> j \<and> (\<forall>u \<in> uses ops i. u \<le> t)" if "i \<in> set invalid" for i
    using that t(2) inv f by (auto simp: manifest_inv_def)
  have 2: "i \<in> set gone \<or> i \<in> set invalid \<or> (\<exists>u > j. last_use (Some bs) i = Some u)" if "uses ops i \<noteq> {}" for i
  proof (cases "last_use f i")
    case None
    with that inv show ?thesis by (auto simp: manifest_inv_def)
  next
    case (Some v)
    with t(2,3) f show ?thesis by (cases "v \<le> j") auto
  qed
  show ?thesis
  proof (intro conjI ballI allI impI)
    fix i t used assume "i \<in> set invalid" "Backup_done t used \<in> set ops" "i \<in> set used"
    with 1 [of i] u [of t used i] show "t \<le> j" by fastforce
  next
    fix t used i assume "Backup_done t used \<in> set ops" "i \<in> set used"
    then have "uses ops i \<noteq> {}" using u [of t used i] by blast
    then show "i \<in> set gone \<or> i \<in> set invalid \<or> (\<exists>u > j. last_use (Some bs) i = Some u)" by (rule 2)
  qed
qed

theorem reclaim_safe_witness:
  "\<exists>f bs n. cma_run id [Backup_done 0 [3, 4], Backup_done 1 [4, 5]] None [] = Some (f, []) \<and> trunc_manifest id 0 f = Some ([3], bs, n)
     \<and> (\<exists>u > 0. last_use (Some bs) 4 = Some u)"
proof -
  obtain f where f: "cma_run id [Backup_done 0 [3, 4], Backup_done 1 [4, 5]] None [] = Some (f, [])" by simp
  have "map_option fst (cma_run id [Backup_done 0 [3, 4], Backup_done 1 [4, 5]] None [] \<bind> (\<lambda>(f, _). trunc_manifest id 0 f)) = Some [3]"
    by code_simp
  with f obtain bs n where g: "trunc_manifest id 0 f = Some ([3], bs, n)" by auto
  note f = f g
  from reclaim_safe [OF _ f(1) _ f(2)] have "\<exists>u > 0. last_use (Some bs) 4 = Some u" by (auto simp: walk_order_def)
  with f show ?thesis by blast
qed

end
