(* ===== verification/Har.thy ===== *)
theory Har
  imports Cma Rewrite
begin

text \<open>
  History-aware rewriting (\<^verbatim>\<open>src/destor/src/har_rewrite.c\<close>): at the end of a job the containers the
  backup uses little of are recorded in a text file, which the next job reads to mark their chunks
  for rewriting. The monitor of utilisation is the table \<open>har_monitor_update\<close> keeps.
\<close>

section \<open>The end of a job\<close>

type_synonym har_table = "(containerid, int) ghash"

definition har_sparse :: "destor \<Rightarrow> int \<Rightarrow> bool" where
  "har_sparse d sz = (real_of_int sz / real (CONTAINER_SIZE - CONTAINER_META_SIZE) < rewrite_har_utilization_threshold d)"

definition g_record_cmp :: "containerid \<times> int \<Rightarrow> containerid \<times> int \<Rightarrow> int" where
  "g_record_cmp a b = snd a - snd b"

record har_counts =
  total_container_num :: int
  sparse_container_num :: int
  inherited_sparse_num :: int

record har_walk =
  hw_total_size :: int
  hw_sparse_size :: int
  hw_seq :: "(containerid \<times> int) list"
  hw_counts :: har_counts

definition har_collect :: "destor \<Rightarrow> har_table \<Rightarrow> containerid \<times> int \<Rightarrow> har_walk \<Rightarrow> har_walk" where
  "har_collect d inherited cr w =
     (let w = w\<lparr>hw_total_size := hw_total_size w + snd cr\<rparr> in
      if har_sparse d (snd cr)
      then (let c = hw_counts w;
                c = (if map_of inherited (fst cr) \<noteq> None then c\<lparr>inherited_sparse_num := inherited_sparse_num c + 1\<rparr> else c)
            in w\<lparr>hw_counts := c\<lparr>sparse_container_num := sparse_container_num c + 1\<rparr>,
                 hw_sparse_size := hw_sparse_size w + snd cr,
                 hw_seq := insert_sorted g_record_cmp cr (hw_seq w)\<rparr>)
      else w)"

text \<open>Over a total of 0 the quotient is infinite or, for 0 itself, not a number; no comparison holds of the latter.\<close>

definition over_limit :: "destor \<Rightarrow> int \<Rightarrow> int \<Rightarrow> bool" where
  "over_limit d sparse_size total_size = (rewrite_har_rewrite_limit d < 1
     \<and> (if total_size = 0 then sparse_size > 0
         else real_of_int sparse_size / real_of_int total_size > rewrite_har_rewrite_limit d))"

function trim_sparse :: "destor \<Rightarrow> int \<Rightarrow> int \<Rightarrow> (containerid \<times> int) list \<Rightarrow> (containerid \<times> int) list option" where
  "trim_sparse d total_size sparse_size sq =
     (if over_limit d sparse_size total_size
      then (if sq = [] then None
            else trim_sparse d total_size (sparse_size - snd (List.last sq)) (butlast sq))
      else Some sq)"
  by pat_completeness auto
termination by (relation "measure (\<lambda>(_, _, _, sq). length sq)") auto

declare trim_sparse.simps [simp del]

definition sparse_line :: "containerid \<times> int \<Rightarrow> byte list" where
  "sparse_line = (\<lambda>(i, n). print_int i @ [32] @ print_int n @ [10])"

text \<open>The result: the file of sparse containers, the counters and the manifest.\<close>

definition close_har ::
    "(har_table \<Rightarrow> har_table) \<Rightarrow> destor \<Rightarrow> int \<Rightarrow> har_table \<Rightarrow> har_table \<Rightarrow> byte list option \<Rightarrow> har_counts \<Rightarrow>
     (byte list \<times> har_counts \<times> byte list \<times> int) option" where
  "close_har ord d jcr_id monitor inherited mf c = do {
     let w = fold (har_collect d inherited) (ord monitor)
               \<lparr>hw_total_size = 0, hw_sparse_size = 0, hw_seq = [], hw_counts = c\<lparr>total_container_num := int (length monitor)\<rparr>\<rparr>;
     sq \<leftarrow> trim_sparse d (hw_total_size w) (hw_sparse_size w) (hw_seq w);
     let (m, live) = update_manifest ord (map fst (ord monitor)) jcr_id mf;
     Some (concat (map sparse_line sq), hw_counts w, m, live)
   }"

section \<open>The start of a job\<close>

text \<open>The lines of a file; \<open>sscanf\<close> leaves a field it cannot read as \<open>malloc\<close> left it.\<close>

definition scan_sparse :: "containerid \<times> int \<Rightarrow> byte list \<Rightarrow> containerid \<times> int" where
  "scan_sparse junk buf = (case scan_int buf of
     None \<Rightarrow> junk
   | Some (i, r) \<Rightarrow> (i, case scan_int r of Some (n, _) \<Rightarrow> n | None \<Rightarrow> snd junk))"

function read_sparse :: "containerid \<times> int \<Rightarrow> byte list \<Rightarrow> har_table \<Rightarrow> har_table" where
  "read_sparse junk bs t = (case fgets 128 bs of
     None \<Rightarrow> t
   | Some (buf, r) \<Rightarrow> (let (i, n) = scan_sparse junk buf in read_sparse junk r (AList.update i n t)))"
  by pat_completeness auto
termination by (relation "measure (\<lambda>(_, bs, _). length bs)") (auto dest: fgets_shorter [rotated])

declare read_sparse.simps [simp del]

definition init_har :: "containerid \<times> int \<Rightarrow> int \<Rightarrow> byte list option \<Rightarrow> har_table \<times> har_table" where
  "init_har junk jcr_id sparse_file =
     ([], if jcr_id > 0 then (case sparse_file of Some bs \<Rightarrow> read_sparse junk bs [] | None \<Rightarrow> []) else [])"

section \<open>Reading what was written\<close>

definition record_ok :: "containerid \<times> int \<Rightarrow> bool" where
  "record_ok x = (int64_range (fst x) \<and> int32_range (snd x))"

lemma fgets_line:
  assumes "record_ok x"
  shows "fgets 128 (sparse_line x @ r) = Some (sparse_line x, r)" "scan_sparse junk (sparse_line x) = x"
proof -
  obtain i n where x: "x = (i, n)" by force
  let ?l = "print_int i @ [32] @ print_int n"
  have l: "sparse_line x = ?l @ [10]" "10 \<notin> set ?l" using print_int_line by (auto simp: x sparse_line_def)
  have "int64_range i" "int64_range n" using assms x by (auto simp: record_ok_def int64_range_def int32_range_def)
  from print_int_length [OF this(1)] print_int_length [OF this(2)] have "length ?l + 1 < 128" by simp
  from fgets_text [OF l(2) this] show "fgets 128 (sparse_line x @ r) = Some (sparse_line x, r)" unfolding l(1) by simp
  have "scan_int (print_int i @ [32] @ print_int n @ [10]) = Some (i, [32] @ print_int n @ [10])"
    using scan_print [of "[32] @ print_int n @ [10]" "[]" i] by (simp add: is_digit_def)
  moreover have "scan_int ([32] @ print_int n @ [10]) = Some (n, [10])"
    using scan_print [of "[10]" "[32]" n] by (simp add: is_digit_def is_space_def)
  ultimately show "scan_sparse junk (sparse_line x) = x" by (simp add: scan_sparse_def x sparse_line_def)
qed

lemma read_sparse_lines:
  "\<forall>x \<in> set xs. record_ok x \<Longrightarrow> read_sparse junk (concat (map sparse_line xs)) t = fold (\<lambda>(i, n). AList.update i n) xs t"
proof (induction xs arbitrary: t)
  case Nil
  then show ?case by (subst read_sparse.simps) (simp add: fgets_def)
next
  case (Cons x xs)
  have "record_ok x" using Cons.prems by simp
  from fgets_line [OF this] Cons show ?case by (cases x) (subst read_sparse.simps, simp)
qed

lemma fold_update_new: "distinct (map fst (t @ xs)) \<Longrightarrow> fold (\<lambda>(i, n). AList.update i n) xs t = t @ xs"
proof (induction xs arbitrary: t)
  case (Cons x xs)
  obtain i n where x: "x = (i, n)" by force
  with Cons.prems have "map_of t i = None" by (auto simp: map_of_eq_None_iff)
  with Cons x show ?case by (simp add: AList_update_new)
qed simp

section \<open>Which containers are recorded\<close>

interpretation by_size: comparison g_record_cmp "\<lambda>_. True"
  by unfold_locales (auto simp: g_record_cmp_def)

definition sizes_sum :: "(containerid \<times> int) list \<Rightarrow> int" where
  "sizes_sum xs = sum_list (map snd xs)"

lemma har_collect_all:
  assumes "w' = fold (har_collect d inherited) xs w" "sorted_cmp g_record_cmp (hw_seq w)" "hw_sparse_size w = sizes_sum (hw_seq w)"
  shows "sorted_cmp g_record_cmp (hw_seq w') \<and> hw_sparse_size w' = sizes_sum (hw_seq w')
     \<and> mset (hw_seq w') = mset (hw_seq w) + mset (filter (\<lambda>x. har_sparse d (snd x)) xs)
     \<and> hw_total_size w' = hw_total_size w + sizes_sum xs"
  using assms
proof (induction xs arbitrary: w)
  case Nil
  then show ?case by (simp add: sizes_sum_def)
next
  case (Cons x xs)
  let ?w = "har_collect d inherited x w"
  have s: "sizes_sum (insert_sorted g_record_cmp x q) = snd x + sizes_sum q" for q
    using arg_cong [OF mset_insert_sorted [of g_record_cmp x q], of "\<lambda>m. sum_mset (image_mset snd m)"]
    by (simp add: sizes_sum_def sum_mset_sum_list flip: mset_map)
  have "sorted_cmp g_record_cmp (hw_seq ?w)" "hw_sparse_size ?w = sizes_sum (hw_seq ?w)"
    "mset (hw_seq ?w) = mset (hw_seq w) + mset (filter (\<lambda>x. har_sparse d (snd x)) [x])" "hw_total_size ?w = hw_total_size w + snd x"
    using Cons.prems(2,3) s by (auto simp: har_collect_def Let_def mset_insert_sorted intro: by_size.insert_sorted_sorted)
  with Cons.IH [of ?w] Cons.prems(1) show ?case by (simp add: sizes_sum_def)
qed

lemma trim_sparse_prefix:
  assumes "0 \<le> rewrite_har_rewrite_limit d"
  shows "\<exists>k. trim_sparse d tot (sizes_sum sq) sq = Some (take k sq) \<and> \<not> over_limit d (sizes_sum (take k sq)) tot
     \<and> (rewrite_har_rewrite_limit d \<ge> 1 \<longrightarrow> take k sq = sq)"
proof (induction "length sq" arbitrary: sq)
  case 0
  with assms show ?case by (subst trim_sparse.simps) (auto simp: over_limit_def sizes_sum_def)
next
  case (Suc n)
  show ?case
  proof (cases "over_limit d (sizes_sum sq) tot")
    case False
    then show ?thesis by (subst trim_sparse.simps) (auto intro!: exI [of _ "length sq"])
  next
    case True
    have ne: "sq \<noteq> []" using Suc.hyps(2) by auto
    then have e: "sq = butlast sq @ [List.last sq]" by simp
    have s: "sizes_sum sq - snd (List.last sq) = sizes_sum (butlast sq)" by (subst e) (simp add: sizes_sum_def)
    have "n = length (butlast sq)" using Suc.hyps(2) by simp
    from Suc.hyps(1) [OF this] obtain k where
      k: "trim_sparse d tot (sizes_sum (butlast sq)) (butlast sq) = Some (take k (butlast sq))" "\<not> over_limit d (sizes_sum (take k (butlast sq))) tot"
      by blast
    have "trim_sparse d tot (sizes_sum sq) sq = trim_sparse d tot (sizes_sum (butlast sq)) (butlast sq)"
      using True ne s by (subst trim_sparse.simps) simp
    moreover have "take k (butlast sq) = take (min k (length sq - 1)) sq" by (simp add: butlast_conv_take min.commute)
    ultimately show ?thesis using k True by (auto simp: over_limit_def)
  qed
qed

text \<open>C30: history-aware rewriting hands on the right containers. Closing a job never fails; the next job
  reads back exactly the recorded containers with their sizes. They are containers of the monitor whose
  utilisation is below the threshold, all of them where the rewrite limit is at least 1; otherwise their
  size is within the limit and those left out are at least as large as those recorded.\<close>

theorem har_inherits:
  assumes "walk_order ord" "distinct (map fst monitor)" "\<forall>x \<in> set monitor. record_ok x" "0 \<le> rewrite_har_rewrite_limit d" "0 < next_id"
  shows "\<exists>bs counts m live. close_har ord d jcr_id monitor inherited mf c = Some (bs, counts, m, live)
     \<and> (let kept = snd (init_har junk next_id (Some bs)) in
          set kept \<subseteq> {x \<in> set monitor. har_sparse d (snd x)}
          \<and> (rewrite_har_rewrite_limit d \<ge> 1 \<longrightarrow> set kept = {x \<in> set monitor. har_sparse d (snd x)})
          \<and> \<not> over_limit d (sizes_sum kept) (sizes_sum monitor)
          \<and> (\<forall>x \<in> set monitor. har_sparse d (snd x) \<longrightarrow> x \<notin> set kept \<longrightarrow> (\<forall>y \<in> set kept. snd y \<le> snd x)))"
proof -
  define w where "w = fold (har_collect d inherited) (ord monitor)
    \<lparr>hw_total_size = 0, hw_sparse_size = 0, hw_seq = [], hw_counts = c\<lparr>total_container_num := int (length monitor)\<rparr>\<rparr>"
  have o: "mset (ord monitor) = mset monitor" using assms(1) by (simp add: walk_order_def)
  from har_collect_all [OF w_def] have w: "sorted_cmp g_record_cmp (hw_seq w)" "hw_sparse_size w = sizes_sum (hw_seq w)"
    "mset (hw_seq w) = mset (filter (\<lambda>x. har_sparse d (snd x)) (ord monitor))" "hw_total_size w = sizes_sum (ord monitor)"
    by (auto simp: sorted_cmp_def sizes_sum_def)
  have tot: "hw_total_size w = sizes_sum monitor"
    unfolding w(4) sizes_sum_def by (metis o mset_map sum_mset_sum_list)
  have sq: "set (hw_seq w) = {x \<in> set monitor. har_sparse d (snd x)}" "distinct (map fst (hw_seq w))"
  proof -
    have f: "mset (hw_seq w) = mset (filter (\<lambda>x. har_sparse d (snd x)) monitor)" unfolding w(3) mset_filter o ..
    from arg_cong [OF f, of set_mset] show "set (hw_seq w) = {x \<in> set monitor. har_sparse d (snd x)}" by simp
    have "distinct (map fst (filter (\<lambda>x. har_sparse d (snd x)) monitor))" using assms(2) by (rule distinct_map_filter)
    then show "distinct (map fst (hw_seq w))" using f by (metis mset_eq_imp_distinct_iff mset_map)
  qed
  from trim_sparse_prefix [OF assms(4), of "hw_total_size w" "hw_seq w"] obtain k where
    k: "trim_sparse d (hw_total_size w) (hw_sparse_size w) (hw_seq w) = Some (take k (hw_seq w))"
      "\<not> over_limit d (sizes_sum (take k (hw_seq w))) (hw_total_size w)" "rewrite_har_rewrite_limit d \<ge> 1 \<longrightarrow> take k (hw_seq w) = hw_seq w"
    unfolding w(2) by blast
  let ?sq = "take k (hw_seq w)"
  obtain m live where u: "update_manifest ord (map fst (ord monitor)) jcr_id mf = (m, live)" by force
  have c: "close_har ord d jcr_id monitor inherited mf c = Some (concat (map sparse_line ?sq), hw_counts w, m, live)"
    using k(1) u by (simp add: close_har_def w_def [symmetric] Let_def)
  have sub: "set ?sq \<subseteq> set (hw_seq w)" by (rule set_take_subset)
  have "\<forall>x \<in> set ?sq. record_ok x" using sub sq(1) assms(3) by auto
  from read_sparse_lines [OF this, of junk "[]"] have "snd (init_har junk next_id (Some (concat (map sparse_line ?sq)))) = fold (\<lambda>(i, n). AList.update i n) ?sq []"
    using assms(5) by (simp add: init_har_def)
  also have "\<dots> = ?sq" using sq(2) using fold_update_new [of "[]" ?sq] by (simp add: take_map [symmetric] distinct_take)
  finally have kept: "snd (init_har junk next_id (Some (concat (map sparse_line ?sq)))) = ?sq" .
  have "snd y \<le> snd x" if "x \<in> set (hw_seq w)" "x \<notin> set ?sq" "y \<in> set ?sq" for x y
  proof -
    have "sorted_cmp g_record_cmp (?sq @ drop k (hw_seq w))" "x \<in> set (drop k (hw_seq w))"
      using w(1) that by (simp, metis Un_iff append_take_drop_id set_append)
    with that(3) show ?thesis unfolding sorted_cmp_def sorted_wrt_append by (auto simp: g_record_cmp_def)
  qed
  then show ?thesis
    using c k(2,3) sub sq(1) tot kept by (auto simp: Let_def)
qed

theorem har_inherits_witness:
  "\<exists>bs counts m live. close_har id destor_start_config 0 [(3, 100), (4, 4000000)] [] None \<lparr>total_container_num = 0, sparse_container_num = 0, inherited_sparse_num = 0\<rparr>
       = Some (bs, counts, m, live)
     \<and> set (snd (init_har (0, 0) 1 (Some bs))) \<subseteq> {(3, 100)}"
proof -
  have h: "walk_order id" "distinct (map fst [(3 :: int, 100 :: int), (4, 4000000)])"
    "\<forall>x \<in> set [(3 :: int, 100 :: int), (4, 4000000)]. record_ok x" "0 \<le> rewrite_har_rewrite_limit destor_start_config" "(0 :: int) < 1"
    by (simp_all add: walk_order_def record_ok_def int64_range_def int32_range_def destor_start_config_def)
  have s: "{x \<in> set [(3 :: int, 100 :: int), (4, 4000000)]. har_sparse destor_start_config (snd x)} = {(3, 100)}"
    by (auto simp: har_sparse_def CONTAINER_SIZE_def CONTAINER_META_SIZE_def destor_start_config_def)
  show ?thesis
    using har_inherits [OF h, of 0 "[]" None "\<lparr>total_container_num = 0, sparse_container_num = 0, inherited_sparse_num = 0\<rparr>" "(0, 0)"]
    unfolding s by (auto simp: Let_def)
qed

end
