(* ===== verification/Client.thy ===== *)
theory Client
  imports Group_Roundtrip
begin

unbundle bit_operations_syntax

text \<open>
  The client cuts a file into groups, routes each group to a node and keeps the list of groups
  (\<^verbatim>\<open>src/client/src/common\<close>: \<^verbatim>\<open>Reading.cc\<close>, \<^verbatim>\<open>Chunking.cc\<close>, \<^verbatim>\<open>Hashing.cc\<close>, \<^verbatim>\<open>Group.cc\<close>,
  \<^verbatim>\<open>Fingerprint.cc\<close>, \<^verbatim>\<open>FileRecipe.cc\<close>). Its chunking functions are those of destor, with
  \<open>chunkMetaData\<close> for the configuration; the buffer of its chunk thread is handled differently.
\<close>

section \<open>Reading, cutting and hashing\<close>

record client_chunk =
  cl_fp :: fingerprint
  cl_size :: nat
  cl_data :: "byte list option"

definition client_new_chunk :: "(nat \<Rightarrow> byte) \<Rightarrow> nat \<Rightarrow> client_chunk" where
  "client_new_chunk junk n =
     \<lparr>cl_fp = replicate 20 0, cl_size = n, cl_data = if n > 0 then Some (map junk [0..<n]) else None\<rparr>"

text \<open>The list: what the calls of \<open>read\<close> return, \<open>None\<close> for an error.\<close>

fun client_read_file :: "(nat \<Rightarrow> byte) \<Rightarrow> byte list option list \<Rightarrow> client_chunk list" where
  "client_read_file junk (Some bs # rs) =
     (if bs = [] then [] else (client_new_chunk junk (length bs))\<lparr>cl_data := Some bs\<rparr> # client_read_file junk rs)"
| "client_read_file junk _ = []"

definition client_bytes :: "client_chunk \<Rightarrow> byte list option" where
  "client_bytes c = do {
     bs \<leftarrow> cl_data c;
     assertion (cl_size c \<le> length bs);
     Some (take (cl_size c) bs)
   }"

text \<open>Filling the buffer: \<open>null\<close> says that the chunk popped last was \<open>NULL\<close>, as every pop is once the queue
  is empty and terminated.\<close>

fun client_fill ::
    "chunk_env \<Rightarrow> client_chunk list \<Rightarrow> byte list \<Rightarrow> nat \<Rightarrow> nat \<Rightarrow> bool \<Rightarrow> (client_chunk list \<times> byte list \<times> nat \<times> nat \<times> bool) option" where
  "client_fill e q buf off len null =
     (if int len < chunk_max_size (ce_conf e)
      then do {
        left \<leftarrow> mem_read buf off len;
        buf \<leftarrow> mem_write buf 0 left;
        (case q of
           [] \<Rightarrow> Some ([], buf, 0, len, True)
         | c # q \<Rightarrow> do {
             assertion (cl_data c \<noteq> None);
             assertion (cl_size c \<noteq> 0);
             bs \<leftarrow> client_bytes c;
             buf \<leftarrow> mem_write buf len bs;
             client_fill e q buf 0 (len + length bs) False
           })
      }
      else Some (q, buf, off, len, null))"

declare client_fill.simps [simp del]

partial_function (option) client_cut_loop ::
    "chunker \<Rightarrow> chunk_env \<Rightarrow> client_chunk list \<Rightarrow> byte list \<Rightarrow> nat \<Rightarrow> nat \<Rightarrow> bool \<Rightarrow> client_chunk list option" where
  "client_cut_loop cutf e q buf off len null = do {
     (q, buf, off, len, null) \<leftarrow> client_fill e q buf off len null;
     if len = 0 \<and> null then Some []
     else do {
       p \<leftarrow> mem_read buf off len;
       n \<leftarrow> cutf e p;
       assertion (n \<noteq> 0);
       assertion (0 \<le> n \<and> n \<le> int len);
       data \<leftarrow> mem_read buf off (nat n);
       cs \<leftarrow> client_cut_loop cutf e q buf (off + nat n) (len - nat n) null;
       Some ((client_new_chunk (ce_junk e) (nat n))\<lparr>cl_data := Some data\<rparr> # cs)
     }
   }"

definition client_chunk_thread :: "chunk_env \<Rightarrow> client_chunk list \<Rightarrow> client_chunk list option" where
  "client_chunk_thread e q =
     client_cut_loop chunking e q (map (ce_junk e) [0..<DEFAULT_BLOCK_SIZE + nat (chunk_max_size (ce_conf e))]) 0 0 True"

definition client_start_chunk_phase :: "chunk_env \<Rightarrow> chunk_env option" where
  "client_start_chunk_phase e =
     (let d = ce_conf e in
      case chunk_algorithm d of
        CHUNK_FIXED \<Rightarrow> Some (e\<lparr>ce_conf := d\<lparr>chunk_max_size := chunk_avg_size d\<rparr>\<rparr>)
      | CHUNK_FILE \<Rightarrow> Some (e\<lparr>ce_conf := d\<lparr>chunk_avg_size := 4194304 - 32768, chunk_max_size := 4194304 - 32768\<rparr>\<rparr>)
      | CHUNK_AE \<Rightarrow> Some (ae_init e)
      | _ \<Rightarrow> do {
          assertion (chunk_avg_size d > 0);
          chunkAlg_init (e\<lparr>ce_conf := d\<lparr>chunk_avg_size := 2 ^ (bit_length (nat (chunk_avg_size d)) - 1)\<rparr>\<rparr>)
        })"

definition client_sha1 :: "(byte list \<Rightarrow> fingerprint) \<Rightarrow> client_chunk \<Rightarrow> client_chunk option" where
  "client_sha1 sha c = do {
     bs \<leftarrow> client_bytes c;
     Some (c\<lparr>cl_fp := sha bs\<rparr>)
   }"

definition client_sha1_thread :: "(byte list \<Rightarrow> fingerprint) \<Rightarrow> client_chunk list \<Rightarrow> client_chunk list option" where
  "client_sha1_thread sha = map_opt (client_sha1 sha)"

section \<open>Groups\<close>

abbreviation DEFAULT_GROUP_SIZE :: nat where "DEFAULT_GROUP_SIZE \<equiv> 1024"

abbreviation DEFAULT_SAMPLE_UNIT_SIZE :: nat where "DEFAULT_SAMPLE_UNIT_SIZE \<equiv> 128"

abbreviation FP_MAX :: fingerprint where "FP_MAX \<equiv> replicate 20 255"

record group =
  g_name :: "byte list"
  g_delegate :: fingerprint
  g_node :: uint64
  g_size :: "32 word"
  g_data :: "byte list"

fun my_cmp :: "fingerprint \<Rightarrow> fingerprint \<Rightarrow> int" where
  "my_cmp (a # x) (b # y) = (if a < b then -1 else if a > b then 1 else my_cmp x y)"
| "my_cmp _ _ = 0"

text \<open>The numbers of the loops: five passes over the first four bytes.\<close>

definition fp2Int :: "fingerprint \<Rightarrow> uint64" where
  "fp2Int fp = fold (\<lambda>_ res. fold (\<lambda>j res. push_bit 8 (res XOR ucast (fp ! j))) [0..<4] res) [0..<20 div 4] 0"

definition consistentHash :: "fingerprint \<Rightarrow> nat \<Rightarrow> uint64" where
  "consistentHash fp num = (if num = 0 then 0 else fp2Int fp mod of_nat num)"

text \<open>\<open>malloc\<close> of a negative size fails.\<close>

definition new_group :: "(nat \<Rightarrow> byte) \<Rightarrow> byte list \<Rightarrow> 32 word \<Rightarrow> nat \<Rightarrow> group option" where
  "new_group junk fname sz i = do {
     assertion (0 \<le> sint sz);
     Some \<lparr>g_name = fname @ decimal i, g_delegate = map junk [0..<20], g_node = 0, g_size = sz, g_data = map junk [0..<unat sz]\<rparr>
   }"

text \<open>The minimum of the fingerprints as the loop for a full group keeps it, and what the loop for the
  last group does, which takes every fingerprint that is not equal.\<close>

definition min_fingerprint :: "client_chunk list \<Rightarrow> fingerprint" where
  "min_fingerprint cs = fold (\<lambda>c m. if my_cmp (cl_fp c) m < 0 then cl_fp c else m) cs FP_MAX"

definition last_fingerprint :: "client_chunk list \<Rightarrow> fingerprint" where
  "last_fingerprint cs = fold (\<lambda>c m. if my_cmp (cl_fp c) m \<noteq> 0 then cl_fp c else m) cs FP_MAX"

definition group_size :: "client_chunk list \<Rightarrow> 32 word" where
  "group_size cs = fold (\<lambda>c n. n + of_nat (cl_size c)) cs 0"

text \<open>A sample unit: the least fingerprint and the size of 128 chunks. The units of a full group and of the
  last group, which may end with a shorter unit.\<close>

type_synonym sample_unit = "fingerprint \<times> uint64"

definition add_sample :: "nat \<Rightarrow> client_chunk \<Rightarrow> sample_unit \<Rightarrow> sample_unit" where
  "add_sample i c su =
     (let (f, n) = (if i mod DEFAULT_SAMPLE_UNIT_SIZE = 0 then (FP_MAX, 0) else su)
      in (if my_cmp (cl_fp c) f < 0 then cl_fp c else f, n + of_nat (cl_size c)))"

fun sample_units :: "bool \<Rightarrow> nat \<Rightarrow> client_chunk list \<Rightarrow> sample_unit \<Rightarrow> sample_unit list" where
  "sample_units lastg i [] su = []"
| "sample_units lastg i (c # cs) su =
     (let su = add_sample i c su in
      (if (i + 1) mod DEFAULT_SAMPLE_UNIT_SIZE = 0 \<or> (lastg \<and> cs = []) then [su] else []) @ sample_units lastg (i + 1) cs su)"

text \<open>Routing: \<open>stateful\<close> is \<open>getNodeForStatefulRouting\<close>, which asks redis, when it is enabled.\<close>

record client_conf =
  cf_node_num :: nat
  cf_stateful :: "(sample_unit list \<Rightarrow> int) option"

definition fill_group :: "client_chunk list \<Rightarrow> byte list \<Rightarrow> (byte list \<times> nat) option" where
  "fill_group cs buf = fold_opt (\<lambda>c (buf, off). do {
     bs \<leftarrow> client_bytes c;
     buf \<leftarrow> mem_write buf off bs;
     Some (buf, off + length bs)
   }) cs (buf, 0)"

definition make_group ::
    "(nat \<Rightarrow> byte) \<Rightarrow> client_conf \<Rightarrow> byte list \<Rightarrow> bool \<Rightarrow> client_chunk list \<Rightarrow> nat \<Rightarrow> group option" where
  "make_group junk conf fname lastg cs i = do {
     gp \<leftarrow> new_group junk fname (group_size cs) i;
     let delegate = (if lastg then last_fingerprint cs else min_fingerprint cs);
     let node = (case cf_stateful conf of
                   None \<Rightarrow> consistentHash delegate (cf_node_num conf)
                 | Some route \<Rightarrow> word_of_int (route (sample_units lastg 0 cs (map junk [0..<20], 0))));
     (data, _) \<leftarrow> fill_group cs (g_data gp);
     Some (gp\<lparr>g_delegate := delegate, g_node := node, g_data := data\<rparr>)
   }"

fun group_loop ::
    "(nat \<Rightarrow> byte) \<Rightarrow> client_conf \<Rightarrow> byte list \<Rightarrow> client_chunk list \<Rightarrow> client_chunk list \<Rightarrow> nat \<Rightarrow> group list option" where
  "group_loop junk conf fname [] chunkList i =
     (if chunkList \<noteq> [] then map_option (\<lambda>gp. [gp]) (make_group junk conf fname True chunkList i) else Some [])"
| "group_loop junk conf fname (c # q) chunkList i = do {
     assertion (cl_data c \<noteq> None);
     let chunkList = chunkList @ [c];
     if length chunkList = DEFAULT_GROUP_SIZE
     then do {
       gp \<leftarrow> make_group junk conf fname False chunkList i;
       gps \<leftarrow> group_loop junk conf fname q [] (Suc i);
       Some (gp # gps)
     }
     else group_loop junk conf fname q chunkList i
   }"

definition split2Groups ::
    "(byte list \<Rightarrow> fingerprint) \<Rightarrow> chunk_env \<Rightarrow> client_conf \<Rightarrow> byte list \<Rightarrow> byte list option list \<Rightarrow> group list option" where
  "split2Groups sha e conf fname rs = do {
     e \<leftarrow> client_start_chunk_phase e;
     cs \<leftarrow> client_chunk_thread e (client_read_file (ce_junk e) rs);
     hs \<leftarrow> client_sha1_thread sha cs;
     group_loop (ce_junk e) conf fname hs [] 0
   }"

section \<open>The recipe of a file\<close>

record fileRecipe =
  fr_filename :: "byte list"
  fr_gm :: "(byte list \<times> uint64) list"

definition genFileRecipe :: "byte list \<Rightarrow> group list \<Rightarrow> fileRecipe" where
  "genFileRecipe fname gps = \<lparr>fr_filename = fname, fr_gm = map (\<lambda>g. (g_name g, g_node g)) gps\<rparr>"

type_synonym recipes = "(byte list, fileRecipe) ghash"

definition setFileRecipe :: "fileRecipe \<Rightarrow> recipes \<Rightarrow> recipes" where
  "setFileRecipe fr t = AList.update (fr_filename fr) fr t"

definition getFileRecipe :: "byte list \<Rightarrow> recipes \<Rightarrow> fileRecipe option" where
  "getFileRecipe fname t = map_of t fname"

section \<open>The cuts of the client\<close>

text \<open>A chunking function that makes progress, with a maximum that lets the buffer be filled.\<close>

definition client_block :: "client_chunk \<Rightarrow> bool" where
  "client_block c = (\<exists>f bs. c = \<lparr>cl_fp = f, cl_size = length bs, cl_data = Some bs\<rparr> \<and> bs \<noteq> [] \<and> length bs \<le> DEFAULT_BLOCK_SIZE)"

definition client_data :: "client_chunk list \<Rightarrow> byte list" where
  "client_data cs = concat (map (\<lambda>c. the (cl_data c)) cs)"

definition client_cut_of :: "byte list \<Rightarrow> client_chunk list \<Rightarrow> bool" where
  "client_cut_of bs cs = (client_data cs = bs
     \<and> (\<forall>c \<in> set cs. \<exists>d. d \<noteq> [] \<and> c = \<lparr>cl_fp = replicate 20 0, cl_size = length d, cl_data = Some d\<rparr>))"

lemma client_data_simps [simp]:
  "client_data [] = []" "client_data (c # cs) = the (cl_data c) @ client_data cs" "client_data (cs @ ds) = client_data cs @ client_data ds"
  by (simp_all add: client_data_def)

text \<open>Moving the unread bytes to the start of the buffer.\<close>

lemma move_left:
  assumes "buf_ok e buf off len"
  obtains b where "mem_read buf off len = Some (unread buf off len)" "mem_write buf 0 (unread buf off len) = Some b"
    "length b = length buf" "take len b = unread buf off len" "buf_ok e b 0 len"
proof
  let ?u = "unread buf off len"
  have l: "length ?u = len" "len \<le> length buf" "off + len \<le> length buf" using assms by (auto simp: buf_ok_def)
  then show "mem_read buf off len = Some ?u" "mem_write buf 0 ?u = Some (?u @ drop len buf)" by (auto simp: mem_read_def mem_write_def)
  show len: "length (?u @ drop len buf) = length buf" using l by simp
  show "take len (?u @ drop len buf) = ?u" using l by simp
  show "buf_ok e (?u @ drop len buf) 0 len" unfolding buf_ok_def len using assms l by (simp add: buf_ok_def)
qed

lemma client_fill_ok:
  assumes "buf_ok e buf off len" "\<forall>c \<in> set q. client_block c"
  shows "\<exists>b1 q' buf' off' len' null'. client_fill e q buf off len null = Some (q', buf', off', len', null')
     \<and> q = b1 @ q' \<and> buf_ok e buf' off' len' \<and> unread buf' off' len' = unread buf off len @ client_data b1
     \<and> (chunk_max_size (ce_conf e) \<le> int len' \<or> null' \<and> q' = [])"
  using assms
proof (induction q arbitrary: buf off len null)
  case Nil
  obtain b where b: "mem_read buf off len = Some (unread buf off len)" "mem_write buf 0 (unread buf off len) = Some b"
    "take len b = unread buf off len" "buf_ok e b 0 len" using move_left [OF Nil.prems(1)] by metis
  then have "client_fill e [] buf off len null = (if int len < chunk_max_size (ce_conf e) then Some ([], b, 0, len, True) else Some ([], buf, off, len, null))"
    by (subst client_fill.simps) simp
  with b(3,4) Nil.prems(1) show ?case by (cases "int len < chunk_max_size (ce_conf e)") auto
next
  case (Cons c q)
  show ?case
  proof (cases "int len < chunk_max_size (ce_conf e)")
    case False
    with Cons.prems show ?thesis by (subst client_fill.simps) (auto intro!: exI [of _ "[]"])
  next
    case True
    from Cons.prems(2) obtain f bs where bs: "c = \<lparr>cl_fp = f, cl_size = length bs, cl_data = Some bs\<rparr>" "bs \<noteq> []" "length bs \<le> DEFAULT_BLOCK_SIZE"
      by (auto simp: client_block_def)
    have c: "cl_size c = length bs" "cl_data c = Some bs" "client_bytes c = Some bs" by (simp_all add: bs(1) client_bytes_def)
    let ?u = "unread buf off len"
    obtain b1 where b1: "mem_read buf off len = Some ?u" "mem_write buf 0 ?u = Some b1" "length b1 = length buf" "take len b1 = ?u"
      using move_left [OF Cons.prems(1)] by metis
    have l: "length ?u = len" using Cons.prems(1) by (auto simp: buf_ok_def)
    have room: "len + length bs \<le> length buf" using Cons.prems(1) bs(3) True by (simp add: buf_ok_def)
    define b2 where "b2 = take len b1 @ bs @ drop (len + length bs) b1"
    have b2: "mem_write b1 len bs = Some b2" "buf_ok e b2 0 (len + length bs)" "unread b2 0 (len + length bs) = ?u @ bs"
      using room b1(3,4) l Cons.prems(1) by (auto simp: mem_write_def b2_def buf_ok_def)
    have f: "client_fill e (c # q) buf off len null = client_fill e q b2 0 (len + length bs) False"
      using True bs(2) b1 b2 c by (subst client_fill.simps) simp
    have "\<forall>c \<in> set q. client_block c" using Cons.prems(2) by simp
    from Cons.IH [OF b2(2) this, of False] obtain x1 q' buf' off' len' null' where
      i: "client_fill e q b2 0 (len + length bs) False = Some (q', buf', off', len', null')" "q = x1 @ q'"
        "buf_ok e buf' off' len'" "unread buf' off' len' = (?u @ bs) @ client_data x1" "chunk_max_size (ce_conf e) \<le> int len' \<or> null' \<and> q' = []"
      unfolding b2(3) by blast
    show ?thesis unfolding f
      by (rule exI [of _ "c # x1"], intro exI conjI, rule i(1)) (use i c in auto)
  qed
qed

locale stream_cutter = cutter +
  assumes max_positive: "ok e \<Longrightarrow> 0 < chunk_max_size (ce_conf e)"
begin

lemma client_cut_loop_ok:
  assumes "ok e" "buf_ok e buf off len" "\<forall>c \<in> set q. client_block c"
  shows "\<exists>cs. client_cut_loop cutf e q buf off len null = Some cs \<and> client_cut_of (unread buf off len @ client_data q) cs"
  using assms
proof (induction "len + length (client_data q)" arbitrary: buf off len q null rule: less_induct)
  case less
  from client_fill_ok [OF less.prems(2,3), of null] obtain b1 q' buf' off' len' null' where
    f: "client_fill e q buf off len null = Some (q', buf', off', len', null')" "q = b1 @ q'" "buf_ok e buf' off' len'"
      "unread buf' off' len' = unread buf off len @ client_data b1" "chunk_max_size (ce_conf e) \<le> int len' \<or> null' \<and> q' = []" by blast
  have len: "length (unread buf' off' len') = len'" "length (unread buf off len) = len" using f(3) less.prems(2) by (auto simp: buf_ok_def)
  show ?case
  proof (cases "len' = 0")
    case True
    with f max_positive [OF less.prems(1)] have "null'" "q' = []" "unread buf off len = []" "client_data q = []" by auto
    with True f(1) show ?thesis by (subst client_cut_loop.simps) (auto simp: client_cut_of_def)
  next
    case False
    let ?p = "unread buf' off' len'"
    have p: "?p \<noteq> []" using False len(1) by auto
    from cut_progress [OF less.prems(1) p] obtain n where n: "cutf e ?p = Some n" "0 < n" "n \<le> int len'" using len(1) by auto
    define k where "k = nat n"
    have k: "0 < k" "k \<le> len'" "n = int k" using n by (auto simp: k_def)
    have r: "mem_read buf' off' len' = Some ?p" "mem_read buf' off' k = Some (unread buf' off' k)" using f(3) k by (auto simp: mem_read_def buf_ok_def)
    have b: "buf_ok e buf' (off' + k) (len' - k)" using f(3) k by (auto simp: buf_ok_def)
    have u: "?p = unread buf' off' k @ unread buf' (off' + k) (len' - k)"
      using take_add [of k "len' - k" "drop off' buf'"] k by (simp add: add.commute)
    have "len' - k + length (client_data q') < len + length (client_data q)"
      using arg_cong [OF f(4), of length] len k f(2) by simp
    from less.hyps [OF this less.prems(1) b, of null'] less.prems(3) f(2) obtain cs where
      i: "client_cut_loop cutf e q' buf' (off' + k) (len' - k) null' = Some cs"
        "client_cut_of (unread buf' (off' + k) (len' - k) @ client_data q') cs" by auto
    let ?nc = "(client_new_chunk (ce_junk e) k)\<lparr>cl_data := Some (unread buf' off' k)\<rparr>"
    have "client_cut_loop cutf e q buf off len null = Some (?nc # cs)"
      using False f(1) r n i(1) k by (subst client_cut_loop.simps) simp
    moreover have "client_cut_of (unread buf off len @ client_data q) (?nc # cs)"
    proof -
      have "length (unread buf' off' k) = k" "unread buf' off' k \<noteq> []" using f(3) k by (auto simp: buf_ok_def)
      with i(2) k have "client_cut_of (unread buf' off' k @ unread buf' (off' + k) (len' - k) @ client_data q') (?nc # cs)"
        by (auto simp: client_cut_of_def client_new_chunk_def intro!: exI [of _ "unread buf' off' k"])
      then show ?thesis using u f(2,4) by (metis append.assoc client_data_simps(3))
    qed
    ultimately show ?thesis by blast
  qed
qed

end

definition client_cut_conf :: "chunk_env \<Rightarrow> bool" where
  "client_cut_conf e = (0 < chunk_max_size (ce_conf e) \<and> (case chunk_algorithm (ce_conf e) of
     CHUNK_FIXED \<Rightarrow> fixed_ok e | CHUNK_FILE \<Rightarrow> fixed_ok e | CHUNK_AE \<Rightarrow> 0 \<le> ce_window_size e | _ \<Rightarrow> rabin_conf e))"

interpretation client_cut: stream_cutter client_cut_conf chunking
proof
  fix e :: chunk_env and p :: "byte list"
  assume c: "client_cut_conf e" and p: "p \<noteq> []"
  show "\<exists>n. chunking e p = Some n \<and> 0 < n \<and> n \<le> int (length p)"
    using c fixed_cut.cut_progress [OF _ p, of e] rabin_cut.cut_progress [OF _ p, of e] normalized_cut.cut_progress [OF _ p, of e]
      tttd_cut.cut_progress [OF _ p, of e] ae_cut.cut_progress [OF _ p, of e]
    by (auto simp: client_cut_conf_def chunking_def split: chunk_algorithm.splits)
qed (simp add: client_cut_conf_def)

definition client_sizes :: "destor \<Rightarrow> bool" where
  "client_sizes d = (0 < chunk_min_size d \<and> chunk_min_size d \<le> chunk_max_size d \<and> 0 < chunk_avg_size d)"

lemma client_start_ok:
  assumes "client_sizes (ce_conf e)"
  shows "\<exists>e'. client_start_chunk_phase e = Some e' \<and> client_cut_conf e' \<and> ce_junk e' = ce_junk e"
proof -
  let ?r = "e\<lparr>ce_conf := (ce_conf e)\<lparr>chunk_avg_size := 2 ^ (bit_length (nat (chunk_avg_size (ce_conf e))) - 1)\<rparr>\<rparr>"
  obtain e' where r: "chunkAlg_init ?r = Some e'" "rabin_ok (ce_rabin e')" "ce_conf e' = ce_conf ?r" "ce_junk e' = ce_junk e"
    using chunkAlg_init_ok [of ?r] by auto
  have ae: "0 \<le> ce_window_size (ae_init e)" using assms by (simp add: ae_init_def client_sizes_def)
  from assms r ae show ?thesis
    by (cases "chunk_algorithm (ce_conf e)")
      (auto simp: client_start_chunk_phase_def client_cut_conf_def fixed_ok_def rabin_conf_def client_sizes_def ae_init_def Let_def)
qed

lemma client_thread_ok:
  assumes "client_cut_conf e" "\<forall>c \<in> set q. client_block c"
  shows "\<exists>cs. client_chunk_thread e q = Some cs \<and> client_cut_of (client_data q) cs"
  unfolding client_chunk_thread_def
  using client_cut.client_cut_loop_ok [OF assms(1) _ assms(2), of "map (ce_junk e) [0..<DEFAULT_BLOCK_SIZE + nat (chunk_max_size (ce_conf e))]" 0 0 True]
  by (simp add: buf_ok_def)

text \<open>What the calls of \<open>read\<close> give for a file: its bytes in blocks that are not empty, then the end.\<close>

definition reads_of :: "byte list list \<Rightarrow> byte list option list" where
  "reads_of blocks = map Some blocks @ [Some []]"

definition read_blocks :: "byte list list \<Rightarrow> bool" where
  "read_blocks blocks = (\<forall>b \<in> set blocks. b \<noteq> [] \<and> length b \<le> DEFAULT_BLOCK_SIZE)"

lemma client_read_ok:
  "read_blocks blocks \<Longrightarrow> (\<forall>c \<in> set (client_read_file junk (reads_of blocks)). client_block c)
     \<and> client_data (client_read_file junk (reads_of blocks)) = concat blocks"
  by (induction blocks) (auto simp: reads_of_def read_blocks_def client_block_def client_new_chunk_def)

definition client_hashed :: "(byte list \<Rightarrow> fingerprint) \<Rightarrow> client_chunk \<Rightarrow> bool" where
  "client_hashed sha c = (\<exists>d. d \<noteq> [] \<and> c = \<lparr>cl_fp = sha d, cl_size = length d, cl_data = Some d\<rparr>)"

lemma client_sha1_ok:
  "client_cut_of bs cs \<Longrightarrow> \<exists>hs. client_sha1_thread sha cs = Some hs \<and> client_data hs = bs \<and> (\<forall>h \<in> set hs. client_hashed sha h)"
proof (induction cs arbitrary: bs)
  case Nil
  then show ?case by (simp add: client_sha1_thread_def client_cut_of_def)
next
  case (Cons c cs)
  then obtain d where d: "d \<noteq> []" "c = \<lparr>cl_fp = replicate 20 0, cl_size = length d, cl_data = Some d\<rparr>" by (auto simp: client_cut_of_def)
  have "client_cut_of (client_data cs) cs" using Cons.prems by (simp add: client_cut_of_def)
  from Cons.IH [OF this] obtain hs where hs: "client_sha1_thread sha cs = Some hs" "client_data hs = client_data cs" "\<forall>h \<in> set hs. client_hashed sha h" by blast
  show ?case
    by (rule exI [of _ "c\<lparr>cl_fp := sha d\<rparr> # hs"])
      (use hs d Cons.prems in \<open>auto simp: client_sha1_thread_def client_sha1_def client_bytes_def client_hashed_def client_cut_of_def\<close>)
qed

section \<open>Groups of chunks\<close>

lemma fill_group_ok:
  assumes "\<forall>c \<in> set cs. client_hashed sha c" "length pre + length (client_data cs) \<le> length buf" "take (length pre) buf = pre"
  shows "\<exists>buf' off. fold_opt (\<lambda>c (buf, off). do { bs \<leftarrow> client_bytes c; buf \<leftarrow> mem_write buf off bs; Some (buf, off + length bs) }) cs (buf, length pre) = Some (buf', off)
     \<and> length buf' = length buf \<and> take (length pre + length (client_data cs)) buf' = pre @ client_data cs"
  using assms
proof (induction cs arbitrary: buf pre)
  case (Cons c cs)
  from Cons.prems(1) obtain d where d: "c = \<lparr>cl_fp = sha d, cl_size = length d, cl_data = Some d\<rparr>" by (auto simp: client_hashed_def)
  define b where "b = take (length pre) buf @ d @ drop (length pre + length d) buf"
  have b: "mem_write buf (length pre) d = Some b" "length b = length buf" "take (length (pre @ d)) b = pre @ d"
    using Cons.prems(2,3) d by (auto simp: mem_write_def b_def)
  from Cons.IH [of "pre @ d" b] b Cons.prems d show ?case by (auto simp: client_bytes_def add.assoc)
qed simp

lemma group_size_sum: "group_size cs = of_nat (sum_list (map cl_size cs))"
proof -
  have "fold (\<lambda>c n. n + of_nat (cl_size c)) cs m = m + of_nat (sum_list (map cl_size cs))" for m :: "32 word"
    by (induction cs arbitrary: m) (simp_all add: add.assoc)
  then show ?thesis by (simp add: group_size_def)
qed

lemma client_data_length: "\<forall>c \<in> set cs. client_hashed sha c \<Longrightarrow> sum_list (map cl_size cs) = length (client_data cs)"
  by (induction cs) (auto simp: client_hashed_def)

lemma make_group_ok:
  assumes "\<forall>c \<in> set cs. client_hashed sha c" "length (client_data cs) < 2 ^ 31"
  shows "\<exists>g. make_group junk conf fname lastg cs i = Some g \<and> g_data g = client_data cs \<and> g_name g = fname @ decimal i
     \<and> g_delegate g = (if lastg then last_fingerprint cs else min_fingerprint cs) \<and> unat (g_size g) = length (client_data cs)
     \<and> (cf_stateful conf = None \<longrightarrow> g_node g = consistentHash (g_delegate g) (cf_node_num conf))"
proof -
  let ?n = "length (client_data cs)"
  have s: "group_size cs = of_nat ?n" using client_data_length [OF assms(1)] by (simp add: group_size_sum)
  have u: "unat (of_nat ?n :: 32 word) = ?n" using assms(2) by (simp add: unat_of_nat take_bit_nat_eq_self)
  have "sint (word_of_int (int ?n) :: 32 word) = int ?n" using assms(2) by (intro sint_of_int_32) simp_all
  then have i: "0 \<le> sint (of_nat ?n :: 32 word)" by simp
  let ?b = "map junk [0..<?n]"
  from fill_group_ok [OF assms(1), of "[]" ?b] obtain buf off where "fill_group cs ?b = Some (buf, off)" "length buf = ?n" "take ?n buf = client_data cs"
    by (auto simp: fill_group_def)
  then have f: "fill_group cs ?b = Some (client_data cs, off)" by simp
  with i u show ?thesis by (simp add: make_group_def new_group_def s Let_def)
qed

text \<open>The fingerprints are ordered as by \<open>memcmp\<close>.\<close>

lemma my_cmp_memcmp: "my_cmp a b = memcmp a b"
  by (induction a b rule: my_cmp.induct) auto

lemma my_cmp_eq: "length a = length b \<Longrightarrow> (my_cmp a b = 0) = (a = b)"
  by (simp add: my_cmp_memcmp memcmp_eq_0)

lemma my_cmp_refl [simp]: "my_cmp a a = 0"
  by (simp add: my_cmp_memcmp)

lemma my_cmp_antisym: "my_cmp b a = - my_cmp a b"
  by (simp add: my_cmp_memcmp memcmp_antisym [of b a])

lemma my_cmp_max: "length a = n \<Longrightarrow> my_cmp a (replicate n 255) \<le> 0"
proof (induction a arbitrary: n)
  case (Cons x a)
  have "x \<le> (255 :: byte)" using unsigned_less [of x, where 'a = nat] by (simp add: word_le_nat_alt)
  then have "\<not> (255 :: byte) < x" by simp
  with Cons show ?case by (cases n) auto
qed simp

interpretation client_fp: comparison my_cmp "\<lambda>fp. length fp = 20"
proof
  fix a b c :: fingerprint
  show "length a = 20 \<Longrightarrow> length b = 20 \<Longrightarrow> length c = 20 \<Longrightarrow> my_cmp a b \<le> 0 \<Longrightarrow> my_cmp b c \<le> 0 \<Longrightarrow> my_cmp a c \<le> 0"
    using fp_cmp.cmp_trans [of a b c] by (simp add: my_cmp_memcmp g_fingerprint_cmp_def)
  show "length a = 20 \<Longrightarrow> length b = 20 \<Longrightarrow> my_cmp a b > 0 \<Longrightarrow> my_cmp b a \<le> 0"
    by (simp add: my_cmp_antisym [of b a])
qed

definition least_fp :: "fingerprint \<Rightarrow> fingerprint list \<Rightarrow> bool" where
  "least_fp m fs = (m \<in> set fs \<and> (\<forall>f \<in> set fs. my_cmp m f \<le> 0))"

lemma min_fingerprint_least:
  assumes "cs \<noteq> []" "\<forall>c \<in> set cs. length (cl_fp c) = 20"
  shows "least_fp (min_fingerprint cs) (map cl_fp cs)"
proof -
  have "(fold (\<lambda>c m. if my_cmp (cl_fp c) m < 0 then cl_fp c else m) cs m = m \<or> fold (\<lambda>c m. if my_cmp (cl_fp c) m < 0 then cl_fp c else m) cs m \<in> set (map cl_fp cs))
     \<and> (\<forall>f \<in> insert m (set (map cl_fp cs)). my_cmp (fold (\<lambda>c m. if my_cmp (cl_fp c) m < 0 then cl_fp c else m) cs m) f \<le> 0)"
    if "length m = 20" for m
    using assms(2) that
  proof (induction cs arbitrary: m)
    case Nil
    then show ?case using my_cmp_eq [of m m] by simp
  next
    case (Cons c cs)
    let ?f = "fold (\<lambda>c m. if my_cmp (cl_fp c) m < 0 then cl_fp c else m) cs"
    let ?m = "if my_cmp (cl_fp c) m < 0 then cl_fp c else m"
    have l: "length ?m = 20" "length (cl_fp c) = 20" using Cons.prems by auto
    have i: "?f ?m = ?m \<or> ?f ?m \<in> set (map cl_fp cs)" "\<forall>f \<in> insert ?m (set (map cl_fp cs)). my_cmp (?f ?m) f \<le> 0"
      using Cons.IH [OF _ l(1)] Cons.prems by auto
    have "length (?f ?m) = 20" using i(1) l Cons.prems by auto
    moreover have "my_cmp ?m m \<le> 0" "my_cmp ?m (cl_fp c) \<le> 0"
      using my_cmp_antisym [of m "cl_fp c"] by (auto simp: my_cmp_eq)
    ultimately have "my_cmp (?f ?m) m \<le> 0" "my_cmp (?f ?m) (cl_fp c) \<le> 0"
      using i(2) client_fp.cmp_trans [of "?f ?m" ?m] l Cons.prems(2) by auto
    with i show ?case by auto
  qed
  from this [of FP_MAX] have f: "min_fingerprint cs = FP_MAX \<or> min_fingerprint cs \<in> set (map cl_fp cs)"
    "\<forall>f \<in> set (map cl_fp cs). my_cmp (min_fingerprint cs) f \<le> 0" by (auto simp: min_fingerprint_def)
  moreover have "FP_MAX \<in> set (map cl_fp cs)" if "min_fingerprint cs = FP_MAX"
  proof -
    obtain c where c: "c \<in> set cs" using assms(1) by (cases cs) auto
    have "my_cmp FP_MAX (cl_fp c) \<le> 0" "my_cmp (cl_fp c) FP_MAX \<le> 0" using f(2) c that my_cmp_max [of "cl_fp c" 20] assms(2) by auto
    then have "my_cmp (cl_fp c) FP_MAX = 0"
      using my_cmp_antisym [of FP_MAX "cl_fp c"] by linarith
    with my_cmp_eq [of "cl_fp c" FP_MAX] assms(2) c show ?thesis by force
  qed
  ultimately show ?thesis by (auto simp: least_fp_def)
qed

text \<open>The last group: every fingerprint that differs replaces the one before.\<close>

lemma last_fingerprint_last:
  assumes "cs \<noteq> []" "\<forall>c \<in> set cs. length (cl_fp c) = 20"
  shows "last_fingerprint cs = cl_fp (List.last cs)"
proof -
  have "fold (\<lambda>c m. if my_cmp (cl_fp c) m \<noteq> 0 then cl_fp c else m) cs m = (if cs = [] then m else cl_fp (List.last cs))" if "length m = 20" for m
    using assms(2) that by (induction cs arbitrary: m) (auto simp: my_cmp_eq)
  from this [of FP_MAX] assms(1) show ?thesis by (simp add: last_fingerprint_def)
qed

fun groups_ok :: "byte list \<Rightarrow> client_conf \<Rightarrow> nat \<Rightarrow> client_chunk list list \<Rightarrow> group list \<Rightarrow> bool" where
  "groups_ok fname conf i [] [] = True"
| "groups_ok fname conf i (cs # css) (g # gs) = (g_data g = client_data cs \<and> g_name g = fname @ decimal i \<and> unat (g_size g) = length (g_data g)
     \<and> (cf_stateful conf = None \<longrightarrow> g_node g = consistentHash (g_delegate g) (cf_node_num conf))
     \<and> (length cs = DEFAULT_GROUP_SIZE \<and> g_delegate g = min_fingerprint cs
         \<or> css = [] \<and> cs \<noteq> [] \<and> length cs < DEFAULT_GROUP_SIZE \<and> g_delegate g = last_fingerprint cs)
     \<and> groups_ok fname conf (Suc i) css gs)"
| "groups_ok fname conf i _ _ = False"

lemma group_loop_ok:
  assumes "\<forall>c \<in> set (xs @ q). client_hashed sha c" "length xs < DEFAULT_GROUP_SIZE" "length (client_data (xs @ q)) < 2 ^ 31"
  shows "\<exists>css gs. group_loop junk conf fname q xs i = Some gs \<and> concat css = xs @ q \<and> groups_ok fname conf i css gs"
  using assms
proof (induction q arbitrary: xs i)
  case Nil
  show ?case
  proof (cases "xs = []")
    case True
    then show ?thesis by (intro exI [of _ "[]"] exI [of _ "[] :: group list"]) simp
  next
    case False
    from make_group_ok [of xs sha, where lastg = True and junk = junk and conf = conf and fname = fname and i = i] Nil.prems obtain g where "make_group junk conf fname True xs i = Some g"
      "g_data g = client_data xs" "g_name g = fname @ decimal i" "g_delegate g = last_fingerprint xs" "unat (g_size g) = length (client_data xs)"
      "cf_stateful conf = None \<longrightarrow> g_node g = consistentHash (g_delegate g) (cf_node_num conf)" by auto
    with False Nil.prems show ?thesis by (intro exI [of _ "[xs]"] exI [of _ "[g]"]) simp
  qed
next
  case (Cons c q)
  have c: "cl_data c \<noteq> None" using Cons.prems(1) by (auto simp: client_hashed_def)
  show ?case
  proof (cases "length (xs @ [c]) = DEFAULT_GROUP_SIZE")
    case False
    with Cons.IH [of "xs @ [c]" i] Cons.prems c show ?thesis by simp
  next
    case True
    from make_group_ok [of "xs @ [c]" sha, where lastg = False and junk = junk and conf = conf and fname = fname and i = i] Cons.prems obtain g where g: "make_group junk conf fname False (xs @ [c]) i = Some g"
      "g_data g = client_data (xs @ [c])" "g_name g = fname @ decimal i" "g_delegate g = min_fingerprint (xs @ [c])"
      "unat (g_size g) = length (client_data (xs @ [c]))" "cf_stateful conf = None \<longrightarrow> g_node g = consistentHash (g_delegate g) (cf_node_num conf)" by auto
    from Cons.IH [of "[]" "Suc i"] Cons.prems obtain css gs where
      i: "group_loop junk conf fname q [] (Suc i) = Some gs" "concat css = q" "groups_ok fname conf (Suc i) css gs" by auto
    show ?thesis
      by (rule exI [of _ "(xs @ [c]) # css"], rule exI [of _ "g # gs"]) (use g i True c in simp)
  qed
qed

text \<open>The groups of a file: their data, names, sizes and delegates.\<close>

definition group_of_chunks :: "(byte list \<Rightarrow> fingerprint) \<Rightarrow> byte list list \<Rightarrow> group \<Rightarrow> bool" where
  "group_of_chunks sha ds g = (g_data g = concat ds \<and> unat (g_size g) = length (g_data g) \<and> [] \<notin> set ds
     \<and> (if length ds = DEFAULT_GROUP_SIZE then least_fp (g_delegate g) (map sha ds)
         else ds \<noteq> [] \<and> length ds < DEFAULT_GROUP_SIZE \<and> g_delegate g = sha (List.last ds)))"

definition chunk_contents :: "client_chunk list \<Rightarrow> byte list list" where
  "chunk_contents cs = map (\<lambda>c. the (cl_data c)) cs"

lemma groups_ok_chunks:
  assumes "groups_ok fname conf i css gs" "\<forall>c \<in> set (concat css). client_hashed sha c" "\<And>bs. length (sha bs) = 20"
  shows "list_all2 (group_of_chunks sha) (map chunk_contents css) gs \<and> map g_name gs = map (\<lambda>k. fname @ decimal k) [i..<i + length gs]
     \<and> (\<forall>cs \<in> set (butlast css). length cs = DEFAULT_GROUP_SIZE) \<and> concat (map g_data gs) = client_data (concat css)
     \<and> (cf_stateful conf = None \<longrightarrow> (\<forall>g \<in> set gs. g_node g = consistentHash (g_delegate g) (cf_node_num conf)))"
  using assms(1,2)
proof (induction fname conf i css gs rule: groups_ok.induct)
  case (2 fname conf i cs css g gs)
  have h: "\<forall>c \<in> set cs. client_hashed sha c" using "2.prems"(2) by simp
  then have f: "map cl_fp cs = map sha (chunk_contents cs)" "\<forall>c \<in> set cs. length (cl_fp c) = 20" "[] \<notin> set (chunk_contents cs)"
    using assms(3) by (auto simp: chunk_contents_def client_hashed_def)
  have ne: "cs \<noteq> []" using "2.prems"(1) by auto
  have "cl_fp (List.last cs) = sha (List.last (chunk_contents cs))" using f(1) ne by (metis chunk_contents_def last_map map_is_Nil_conv)
  moreover have "least_fp (min_fingerprint cs) (map sha (chunk_contents cs))" using min_fingerprint_least [OF ne f(2)] unfolding f(1) .
  moreover have "length (chunk_contents cs) = length cs" "client_data cs = concat (chunk_contents cs)" by (simp_all add: chunk_contents_def client_data_def)
  ultimately have "group_of_chunks sha (chunk_contents cs) g"
    using "2.prems"(1) f(3) last_fingerprint_last [OF ne f(2)] ne by (auto simp: group_of_chunks_def)
  moreover have "[i..<i + length (g # gs)] = i # [Suc i..<Suc i + length gs]" using upt_conv_Cons [of i "i + length (g # gs)"] by simp
  moreover note "2.IH" "2.prems"
  ultimately show ?case by (cases css) auto
qed auto

text \<open>C10: the client cuts a file into groups without losing or reordering a byte. Whatever blocks the file
  is read in and whichever chunking algorithm is configured, the groups have together exactly the bytes of
  the file; they are numbered in order and consist of 1024 chunks each but the last. The delegate of a full
  group is the least of the fingerprints of its chunks, that of a shorter group the fingerprint of its last
  chunk; without stateful routing it determines the node.\<close>

theorem file_groups_exact:
  assumes "client_sizes (ce_conf e)" "read_blocks blocks" "length (concat blocks) < 2 ^ 31" "\<And>bs. length (sha bs) = 20"
  shows "\<exists>gs dss. split2Groups sha e conf fname (reads_of blocks) = Some gs \<and> concat (map g_data gs) = concat blocks
     \<and> map g_name gs = map (\<lambda>k. fname @ decimal k) [0..<length gs]
     \<and> list_all2 (group_of_chunks sha) dss gs \<and> (\<forall>ds \<in> set (butlast dss). length ds = DEFAULT_GROUP_SIZE)
     \<and> (cf_stateful conf = None \<longrightarrow> (\<forall>g \<in> set gs. g_node g = consistentHash (g_delegate g) (cf_node_num conf)))"
proof -
  from client_start_ok [OF assms(1)] obtain e' where e': "client_start_chunk_phase e = Some e'" "client_cut_conf e'" by blast
  note r = client_read_ok [OF assms(2), of "ce_junk e'"]
  from client_thread_ok [OF e'(2) conjunct1 [OF r]] r obtain cs where
    cs: "client_chunk_thread e' (client_read_file (ce_junk e') (reads_of blocks)) = Some cs" "client_cut_of (concat blocks) cs" by auto
  from client_sha1_ok [OF cs(2), of sha] obtain hs where
    hs: "client_sha1_thread sha cs = Some hs" "client_data hs = concat blocks" "\<forall>h \<in> set hs. client_hashed sha h" by blast
  from group_loop_ok [of "[]" hs sha "ce_junk e'" conf fname 0] hs assms(3) obtain css gs where
    g: "group_loop (ce_junk e') conf fname hs [] 0 = Some gs" "concat css = hs" "groups_ok fname conf 0 css gs" by auto
  from groups_ok_chunks [OF g(3) _ assms(4)] g(2) hs(3) have
    c: "list_all2 (group_of_chunks sha) (map chunk_contents css) gs" "map g_name gs = map (\<lambda>k. fname @ decimal k) [0..<length gs]"
      "\<forall>cs \<in> set (butlast css). length cs = DEFAULT_GROUP_SIZE" "concat (map g_data gs) = client_data hs"
      "cf_stateful conf = None \<longrightarrow> (\<forall>g \<in> set gs. g_node g = consistentHash (g_delegate g) (cf_node_num conf))" by auto
  have "\<forall>ds \<in> set (butlast (map chunk_contents css)). length ds = DEFAULT_GROUP_SIZE"
    using c(3) by (auto simp: map_butlast [symmetric] chunk_contents_def)
  moreover have "split2Groups sha e conf fname (reads_of blocks) = Some gs" using e'(1) cs(1) hs(1) g(1) by (simp add: split2Groups_def)
  ultimately show ?thesis
    by (intro exI [of _ gs], intro exI [of _ "map chunk_contents css"]) (use c hs(2) in simp)
qed

theorem file_groups_exact_witness:
  "\<exists>gs. split2Groups (\<lambda>_. replicate 20 7) (ex_group_env\<lparr>ce_conf := (ce_conf ex_group_env)\<lparr>chunk_min_size := 1, chunk_avg_size := 2, chunk_max_size := 4\<rparr>\<rparr>)
       \<lparr>cf_node_num = 3, cf_stateful = None\<rparr> [102] (reads_of [[1, 2], [3]]) = Some gs
     \<and> concat (map g_data gs) = [1, 2, 3]"
  using file_groups_exact [of "ex_group_env\<lparr>ce_conf := (ce_conf ex_group_env)\<lparr>chunk_min_size := 1, chunk_avg_size := 2, chunk_max_size := 4\<rparr>\<rparr>" "[[1, 2], [3]]"
      "\<lambda>_. replicate 20 7" "\<lparr>cf_node_num = 3, cf_stateful = None\<rparr>" "[102]"]
  by (auto simp: client_sizes_def read_blocks_def DEFAULT_BLOCK_SIZE_def)

section \<open>Routing\<close>

lemma fp2Int_shifted: "\<exists>w. fp2Int fp = push_bit 8 w"
proof -
  have l: "[0..<4] = [0..<3] @ [3 :: nat]" "[0..<20 div 4] = [0..<4] @ [4 :: nat]" by (simp_all add: upt_rec)
  have "\<exists>w. fold (\<lambda>j res. push_bit 8 (res XOR ucast (fp ! j))) [0..<4] r = push_bit 8 w" for r :: uint64
    unfolding l(1) fold_append by (simp only: fold_simps o_apply) blast
  then show ?thesis unfolding fp2Int_def l(2) fold_append by (simp del: upt_rec_numeral)
qed

lemma push_bit_dvd: "256 dvd unat (push_bit 8 w :: uint64)"
proof -
  have "unat (push_bit 8 w) = (unat w * 256) mod 2 ^ 64"
    unfolding unsigned_push_bit_eq by (simp add: push_bit_eq_mult take_bit_eq_mod)
  moreover have "(256 :: nat) dvd 2 ^ 64" by simp
  ultimately show ?thesis by (metis dvd_mod dvd_triv_right)
qed

lemma fp2Int_take: "length f = 20 \<Longrightarrow> length g = 20 \<Longrightarrow> take 4 f = take 4 g \<Longrightarrow> fp2Int f = fp2Int g"
proof -
  assume a: "length f = 20" "length g = 20" "take 4 f = take 4 g"
  have e: "f ! j = g ! j" if "j < 4" for j using a that by (metis nth_take)
  have "fold (\<lambda>j res. push_bit 8 (res XOR ucast (f ! j))) [0..<4] r = fold (\<lambda>j res. push_bit 8 (res XOR ucast (g ! j))) [0..<4] r" for r :: uint64
    by (rule fold_cong) (auto simp: e)
  then show ?thesis by (simp add: fp2Int_def)
qed

text \<open>C32: the hash that routes a group uses only the first four bytes of the delegate, and its low byte is
  always 0. So where the number of nodes divides 256 every group goes to node 0, and otherwise the number
  of the node is a multiple of the greatest common divisor of the two.\<close>

theorem routing_blind:
  assumes "length f = 20" "length g = 20" "take 4 f = take 4 g" "n < 2 ^ 31"
  shows "consistentHash f n = consistentHash g n \<and> gcd 256 n dvd unat (consistentHash f n) \<and> (n dvd 256 \<longrightarrow> consistentHash f n = 0)"
proof -
  have u: "unat (of_nat n :: uint64) = n" using assms(4) by (simp add: unat_of_nat take_bit_nat_eq_self)
  have d: "256 dvd unat (fp2Int f)" using fp2Int_shifted [of f] push_bit_dvd by metis
  have h: "unat (consistentHash f n) = (if n = 0 then 0 else unat (fp2Int f) mod n)" by (simp add: consistentHash_def unat_mod u)
  have g: "gcd 256 n dvd unat (consistentHash f n)" unfolding h using d by (auto simp: dvd_mod_iff intro: dvd_mod dvd_trans)
  have z: "consistentHash f n = 0" if "n dvd 256"
  proof -
    have "unat (fp2Int f) mod n = 0" using d that by (meson dvd_trans mod_eq_0_iff_dvd)
    then have "unat (consistentHash f n) = 0" using h by simp
    then show ?thesis by (simp add: unat_eq_0)
  qed
  show ?thesis using fp2Int_take [OF assms(1-3)] g z by (simp add: consistentHash_def)
qed

theorem routing_blind_witness:
  "consistentHash ([171, 205, 239, 1] @ replicate 16 99) 4 = 0 \<and> consistentHash ([171, 205, 239, 1] @ replicate 16 99) 3 = consistentHash ([171, 205, 239, 1] @ replicate 16 42) 3"
  using routing_blind [of "[171, 205, 239, 1] @ replicate 16 99" "[171, 205, 239, 1] @ replicate 16 42" 4]
    routing_blind [of "[171, 205, 239, 1] @ replicate 16 99" "[171, 205, 239, 1] @ replicate 16 42" 3] by auto

end
