(* ===== verification/Bloom_Filter.thy ===== *)
theory Bloom_Filter
  imports Prelude
begin

unbundle bit_operations_syntax

text \<open>
  The Bloom filter (\<^verbatim>\<open>src/destor/src/utils/bloom_filter.c\<close>): an array of \<open>2 ^ 27\<close> bytes, as a function
  with the range of each access checked, and the hash functions on 32-bit words.
\<close>

section \<open>Hash functions\<close>

type_synonym uint = "32 word"

definition RSHash :: "byte list \<Rightarrow> uint" where
  "RSHash str = fst (fold (\<lambda>b (hash, a). (hash * a + ucast b, a * 378551)) str (0, 63689))"

definition JSHash :: "byte list \<Rightarrow> uint" where
  "JSHash str = fold (\<lambda>b hash. hash XOR (push_bit 5 hash + ucast b + drop_bit 2 hash)) str 1315423911"

definition PJWHash :: "byte list \<Rightarrow> uint" where
  "PJWHash str = fold (\<lambda>b hash.
     let HighBits = push_bit (32 - 4) 0xFFFFFFFF;
         hash = push_bit 4 hash + ucast b;
         test = hash AND HighBits
     in if test \<noteq> 0 then (hash XOR drop_bit 24 test) AND NOT HighBits else hash) str 0"

definition SDBMHash :: "byte list \<Rightarrow> uint" where
  "SDBMHash str = fold (\<lambda>b hash. ucast b + push_bit 6 hash + push_bit 16 hash - hash) str 0"

definition DJBHash :: "byte list \<Rightarrow> uint" where
  "DJBHash str = fold (\<lambda>b hash. push_bit 5 hash + hash + ucast b) str 5381"

definition DEKHash :: "byte list \<Rightarrow> uint" where
  "DEKHash str = fold (\<lambda>b hash. (push_bit 5 hash XOR drop_bit 27 hash) XOR ucast b) str (of_nat (length str))"

definition FNVHash :: "byte list \<Rightarrow> uint" where
  "FNVHash str = fold (\<lambda>b hash. (hash * 0x811C9DC5) XOR ucast b) str 0"

definition hash_func :: "(byte list \<Rightarrow> uint) list" where
  "hash_func = [RSHash, DJBHash, FNVHash, JSHash, PJWHash, SDBMHash, DEKHash]"

section \<open>The filter\<close>

abbreviation NUM_HASHES :: nat where "NUM_HASHES \<equiv> 4"

abbreviation FILTER_SIZE :: nat where "FILTER_SIZE \<equiv> 30"

abbreviation FILTER_SIZE_BYTES :: nat where "FILTER_SIZE_BYTES \<equiv> 2 ^ 27"

definition FILTER_BITMASK :: "'a::len word" where "FILTER_BITMASK = push_bit FILTER_SIZE 1 - 1"

definition bit_at :: "nat \<Rightarrow> byte" where "bit_at n = push_bit n 1"

type_synonym bloom = "nat \<Rightarrow> byte"

text \<open>\<open>insert_word\<close> folds the hash as an \<open>unsigned long\<close>, \<open>in_dict\<close> as an \<open>unsigned int\<close>.\<close>

definition insert_word :: "byte list \<Rightarrow> bloom \<Rightarrow> bloom option" where
  "insert_word str = fold_opt (\<lambda>i flt. do {
     let h = (ucast ((hash_func ! i) str) :: 64 word);
     let h = drop_bit FILTER_SIZE h XOR (h AND FILTER_BITMASK);
     assertion (unat (drop_bit 3 h) < FILTER_SIZE_BYTES);
     Some (flt(unat (drop_bit 3 h) := flt (unat (drop_bit 3 h)) OR bit_at (unat (h AND 7))))
   }) [0..<NUM_HASHES]"

fun in_dict_from :: "nat list \<Rightarrow> byte list \<Rightarrow> bloom \<Rightarrow> bool option" where
  "in_dict_from [] str flt = Some True"
| "in_dict_from (i # ks) str flt = do {
     let h = (hash_func ! i) str;
     let h = drop_bit FILTER_SIZE h XOR (h AND FILTER_BITMASK);
     assertion (unat (drop_bit 3 h) < FILTER_SIZE_BYTES);
     if flt (unat (drop_bit 3 h)) AND bit_at (unat (h AND 7)) = 0 then Some False
     else in_dict_from ks str flt
   }"

definition in_dict :: "byte list \<Rightarrow> bloom \<Rightarrow> bool option" where
  "in_dict str flt = in_dict_from [0..<NUM_HASHES] str flt"

section \<open>The bit of a hash\<close>

definition fold_hash :: "uint \<Rightarrow> nat" where
  "fold_hash w = drop_bit FILTER_SIZE (unat w) XOR take_bit FILTER_SIZE (unat w)"

lemma fold_hash_words:
  "unat (drop_bit FILTER_SIZE w XOR (w AND FILTER_BITMASK)) = fold_hash w"
  "unat (drop_bit FILTER_SIZE (ucast w :: 64 word) XOR (ucast w AND FILTER_BITMASK)) = fold_hash w"
proof -
  have t: "take_bit 32 (unat w) = unat w" "take_bit 64 (unat w) = unat w"
    using unsigned_less [of w, where 'a = nat] by (auto intro!: take_bit_nat_eq_self)
  have m: "x AND FILTER_BITMASK = take_bit FILTER_SIZE x" for x :: "'a::len word"
    by (simp add: FILTER_BITMASK_def take_bit_eq_mask mask_eq_exp_minus_1 push_bit_eq_mult)
  show "unat (drop_bit FILTER_SIZE w XOR (w AND FILTER_BITMASK)) = fold_hash w"
    unfolding m by (simp add: fold_hash_def unsigned_xor_eq unsigned_drop_bit_eq unsigned_take_bit_eq t)
  show "unat (drop_bit FILTER_SIZE (ucast w :: 64 word) XOR (ucast w AND FILTER_BITMASK)) = fold_hash w"
    unfolding m by (simp add: fold_hash_def unsigned_xor_eq unsigned_drop_bit_eq unsigned_take_bit_eq unsigned_ucast_eq t)
qed

lemma fold_hash_bound: "fold_hash w < 2 ^ FILTER_SIZE"
proof -
  have "drop_bit FILTER_SIZE (unat w) < 4" using unsigned_less [of w, where 'a = nat] by (simp add: drop_bit_eq_div less_mult_imp_div_less)
  then have "take_bit FILTER_SIZE (drop_bit FILTER_SIZE (unat w)) = drop_bit FILTER_SIZE (unat w)" by (intro take_bit_nat_eq_self) simp
  then have "take_bit FILTER_SIZE (fold_hash w) = fold_hash w" by (simp add: fold_hash_def take_bit_xor)
  then show ?thesis by (metis take_bit_nat_less_exp)
qed

lemma byte_of_bit:
  fixes h :: "'a::len word"
  assumes "2 < LENGTH('a)"
  shows "unat (drop_bit 3 h) = unat h div 8" "unat (h AND 7) = unat h mod 8"
proof -
  have t: "take_bit LENGTH('a) (unat h) = unat h" using unsigned_less [of h, where 'a = nat] by (intro take_bit_nat_eq_self) simp
  show "unat (drop_bit 3 h) = unat h div 8" unfolding unsigned_drop_bit_eq t by (simp add: drop_bit_eq_div)
  have "h AND 7 = take_bit 3 h" by (simp add: take_bit_eq_mask mask_eq_exp_minus_1)
  then have "unat (h AND 7) = take_bit 3 (unat h)" using assms by (simp only: unsigned_take_bit_eq)
  then show "unat (h AND 7) = unat h mod 8" by (simp add: take_bit_eq_mod)
qed

text \<open>Bit \<open>n\<close> of the filter, and setting it.\<close>

definition filter_bit :: "bloom \<Rightarrow> nat \<Rightarrow> bool" where
  "filter_bit f n = bit (f (n div 8)) (n mod 8)"

definition set_filter_bit :: "nat \<Rightarrow> bloom \<Rightarrow> bloom" where
  "set_filter_bit n f = f(n div 8 := f (n div 8) OR bit_at (n mod 8))"

lemma filter_bit_set: "filter_bit (set_filter_bit n f) m = (m = n \<or> filter_bit f m)"
proof -
  have b: "bit (bit_at (n mod 8)) k = (k = n mod 8)" for k by (auto simp: bit_at_def bit_push_bit_iff bit_1_iff simp del: push_bit_of_1)
  show ?thesis
  proof (cases "m div 8 = n div 8")
    case True
    then have "(m mod 8 = n mod 8) = (m = n)" by (metis div_mod_decomp)
    with True show ?thesis by (auto simp: filter_bit_def set_filter_bit_def bit_or_iff b)
  qed (auto simp: filter_bit_def set_filter_bit_def)
qed

abbreviation hash_bit :: "nat \<Rightarrow> byte list \<Rightarrow> nat" where
  "hash_bit i str \<equiv> fold_hash ((hash_func ! i) str)"

lemma hash_bit_in_range: "fold_hash w div 8 < FILTER_SIZE_BYTES" "fold_hash w div 8 < 134217728"
  using fold_hash_bound [of w] by (simp_all add: less_mult_imp_div_less)

lemma insert_word_bits: "insert_word str f = Some (fold (\<lambda>i. set_filter_bit (hash_bit i str)) [0..<NUM_HASHES] f)"
proof -
  have "fold_opt (\<lambda>i flt. do {
      let h = (ucast ((hash_func ! i) str) :: 64 word);
      let h = drop_bit FILTER_SIZE h XOR (h AND FILTER_BITMASK);
      assertion (unat (drop_bit 3 h) < FILTER_SIZE_BYTES);
      Some (flt(unat (drop_bit 3 h) := flt (unat (drop_bit 3 h)) OR bit_at (unat (h AND 7))))
    }) ks f = Some (fold (\<lambda>i. set_filter_bit (hash_bit i str)) ks f)" for ks
    by (induction ks arbitrary: f) (simp_all add: Let_def byte_of_bit fold_hash_words hash_bit_in_range set_filter_bit_def)
  then show ?thesis by (simp add: insert_word_def)
qed

lemma in_dict_bits: "in_dict str f = Some (\<forall>i < NUM_HASHES. filter_bit f (hash_bit i str))"
proof -
  have b: "(x AND bit_at n = 0) = (\<not> bit x n)" for x n by (simp add: bit_at_def bit_iff_and_push_bit_not_eq_0)
  have "in_dict_from ks str f = Some (\<forall>i \<in> set ks. filter_bit f (hash_bit i str))" for ks
    by (induction ks) (simp_all add: Let_def byte_of_bit fold_hash_words hash_bit_in_range filter_bit_def b)
  then show ?thesis by (auto simp: in_dict_def simp del: upt_rec_numeral)
qed

lemma fold_set_bits: "filter_bit (fold (\<lambda>i. set_filter_bit (g i)) ks f) m = (filter_bit f m \<or> (\<exists>i \<in> set ks. m = g i))"
  by (induction ks arbitrary: f) (auto simp: filter_bit_set)

lemma insert_word_sets:
  "\<exists>f'. insert_word str f = Some f' \<and> (\<forall>n. filter_bit f' n = (filter_bit f n \<or> (\<exists>k < NUM_HASHES. n = hash_bit k str)))"
proof -
  have "filter_bit (fold (\<lambda>i. set_filter_bit (hash_bit i str)) [0..<NUM_HASHES] f) n = (filter_bit f n \<or> (\<exists>k < NUM_HASHES. n = hash_bit k str))" for n
    unfolding fold_set_bits set_upt atLeast0LessThan Bex_def lessThan_iff ..
  then show ?thesis unfolding insert_word_bits by blast
qed

text \<open>C31: the filter has no false negatives. No access leaves the array; the filter answers that it has
  every word that was inserted, in whatever order and with whatever words in between; and it answers so
  for another word only if each of its bits was set by some inserted word.\<close>

theorem bloom_no_false_negative:
  "\<exists>f. fold_opt insert_word ws (\<lambda>_. 0) = Some f
     \<and> (\<forall>w. in_dict w f = Some (\<forall>i < NUM_HASHES. \<exists>v \<in> set ws. \<exists>k < NUM_HASHES. hash_bit i w = hash_bit k v))
     \<and> (\<forall>w \<in> set ws. in_dict w f = Some True)"
proof -
  have "\<exists>f. fold_opt insert_word ws f0 = Some f \<and> (\<forall>n. filter_bit f n = (filter_bit f0 n \<or> (\<exists>v \<in> set ws. \<exists>k < NUM_HASHES. n = hash_bit k v)))" for f0
  proof (induction ws arbitrary: f0)
    case (Cons v ws)
    from insert_word_sets [of v f0] obtain f1 where f1: "insert_word v f0 = Some f1"
      "\<And>n. filter_bit f1 n = (filter_bit f0 n \<or> (\<exists>k < NUM_HASHES. n = hash_bit k v))" by blast
    from Cons.IH [of f1] obtain f where "fold_opt insert_word ws f1 = Some f"
      "\<And>n. filter_bit f n = (filter_bit f1 n \<or> (\<exists>v \<in> set ws. \<exists>k < NUM_HASHES. n = hash_bit k v))" by blast
    with f1 show ?case by (intro exI [of _ f]) auto
  qed simp
  from this [of "\<lambda>_. 0"] obtain f where f: "fold_opt insert_word ws (\<lambda>_. 0) = Some f"
    "\<And>n. filter_bit f n = (\<exists>v \<in> set ws. \<exists>k < NUM_HASHES. n = hash_bit k v)" by (auto simp: filter_bit_def)
  then show ?thesis by (intro exI [of _ f]) (auto simp: in_dict_bits)
qed

theorem bloom_no_false_negative_witness:
  "\<exists>f. fold_opt insert_word [[97], [98, 99]] (\<lambda>_. 0) = Some f \<and> in_dict [98, 99] f = Some True"
  using bloom_no_false_negative [of "[[97], [98, 99]]"] by auto

end
