(* ===== verification/Trace.thy ===== *)
theory Trace
  imports Text_Format Group_Roundtrip
begin

unbundle bit_operations_syntax

text \<open>
  Traces (\<^verbatim>\<open>src/destor/src/trace_phase.c\<close>): a job can write the fingerprints and sizes of its chunks to a text
  file instead of storing them, and a later job can read its chunks from such a file.
\<close>

section \<open>Fingerprints in hexadecimal\<close>

definition code_digit :: "byte \<Rightarrow> byte" where
  "code_digit b = (if b = 10 then 65 else if b = 11 then 66 else if b = 12 then 67 else if b = 13 then 68
     else if b = 14 then 69 else if b = 15 then 70 else b + 48)"

definition code_byte :: "byte \<Rightarrow> byte list" where
  "code_byte a = [code_digit (a div 16), code_digit (push_bit 4 a div 16)]"

definition hash2code :: "fingerprint \<Rightarrow> byte list" where
  "hash2code hash = concat (map code_byte (take 20 hash))"

definition digit_value :: "byte \<Rightarrow> byte" where
  "digit_value a = (if a = 65 \<or> a = 97 then 10 else if a = 66 \<or> a = 98 then 11 else if a = 67 \<or> a = 99 then 12
     else if a = 68 \<or> a = 100 then 13 else if a = 69 \<or> a = 101 then 14 else if a = 70 \<or> a = 102 then 15 else a - 48)"

definition code2hash :: "byte list \<Rightarrow> fingerprint" where
  "code2hash code = map (\<lambda>i. fold (\<lambda>j h. h * 16 + digit_value (code ! (2 * i + j))) [0..<2] 0) [0..<20]"

section \<open>Writing a trace\<close>

definition trace_chunk :: "chunk \<Rightarrow> byte list option" where
  "trace_chunk c =
     (if CHECK_CHUNK c CHUNK_FILE_START
      then map_option (\<lambda>d. text_bytes ''file start '' @ print_int (int (length (cstring d))) @ [10] @ cstring d @ [10]) (ck_data c)
      else if CHECK_CHUNK c CHUNK_FILE_END then Some (text_bytes ''file end'' @ [10])
      else Some (hash2code (ck_fp c) @ [32] @ print_int (ck_size c) @ [10]))"

definition make_trace :: "chunk list \<Rightarrow> byte list option" where
  "make_trace cs = map_option (\<lambda>ls. concat ls @ text_bytes ''stream end'') (map_opt trace_chunk cs)"

section \<open>Reading a trace\<close>

text \<open>At the end of the file \<open>fgets\<close> leaves the line as it is; its result is not checked.\<close>

definition next_line :: "byte list \<Rightarrow> byte list \<Rightarrow> byte list \<times> byte list" where
  "next_line line bs = (case fgets 128 bs of None \<Rightarrow> (line, bs) | Some (l, r) \<Rightarrow> (cstring l, r))"

definition starts_with :: "byte list \<Rightarrow> byte list \<Rightarrow> bool" where
  "starts_with p line = (take (length p) line = p)"

text \<open>The name of the file, read into a buffer that was allocated for it and the end of its line.\<close>

definition read_name :: "(nat \<Rightarrow> byte) \<Rightarrow> int \<Rightarrow> byte list \<Rightarrow> (chunk \<times> byte list) option" where
  "read_name junk n bs = do {
     assertion (0 \<le> n);
     let buf = map junk [0..<nat n + 2];
     let (buf, bs) = (case fgets (nat n + 2) bs of
                        None \<Rightarrow> (buf, bs)
                      | Some (l, r) \<Rightarrow> (l @ [0] @ drop (length l + 1) buf, r));
     Some (SET_CHUNK ((new_chunk junk (n + 2))\<lparr>ck_data := Some (buf[nat n := 0])\<rparr>) CHUNK_FILE_START, bs)
   }"

text \<open>A line that is too short for a code and a size is read past its end.\<close>

definition read_trace_chunk :: "(nat \<Rightarrow> byte) \<Rightarrow> byte list \<Rightarrow> chunk option" where
  "read_trace_chunk junk line = do {
     assertion (41 \<le> length line);
     Some ((new_chunk junk 0)\<lparr>ck_fp := code2hash (take 40 line), ck_size := atoi (drop 41 line)\<rparr>)
   }"

partial_function (option) read_trace_chunks ::
    "(nat \<Rightarrow> byte) \<Rightarrow> byte list \<Rightarrow> byte list \<Rightarrow> (chunk list \<times> byte list \<times> byte list) option" where
  "read_trace_chunks junk line bs =
     (if starts_with (text_bytes ''file end'') line then Some ([], line, bs)
      else do {
        c \<leftarrow> read_trace_chunk junk line;
        let (line, bs) = next_line line bs;
        (cs, line, bs) \<leftarrow> read_trace_chunks junk line bs;
        Some (c # cs, line, bs)
      })"

text \<open>\<open>stack_len\<close>: the variable \<open>filenamelen\<close> where the number can not be read.\<close>

partial_function (option) read_trace_thread :: "(nat \<Rightarrow> byte) \<Rightarrow> int \<Rightarrow> byte list \<Rightarrow> byte list \<Rightarrow> chunk list option" where
  "read_trace_thread junk stack_len line bs = (let (line, bs) = next_line line bs in
     if line = text_bytes ''stream end'' then Some []
     else do {
       assertion (starts_with (text_bytes ''file start '') line);
       let filenamelen = (case scan_int (drop 11 line) of Some (n, _) \<Rightarrow> n | None \<Rightarrow> stack_len);
       (c, bs) \<leftarrow> read_name junk filenamelen bs;
       let (line, bs) = next_line line bs;
       (cs, line, bs) \<leftarrow> read_trace_chunks junk line bs;
       cs2 \<leftarrow> read_trace_thread junk filenamelen line bs;
       Some (c # cs @ SET_CHUNK (new_chunk junk 0) CHUNK_FILE_END # cs2)
     })"

section \<open>Hexadecimal codes\<close>

lemma hex_digits:
  assumes "b < (16 :: byte)"
  shows "digit_value (code_digit b) = b" "code_digit b \<noteq> 0" "code_digit b \<noteq> 10" "code_digit b \<noteq> 102"
proof -
  have "digit_value (code_digit b) = b \<and> code_digit b \<noteq> 0 \<and> code_digit b \<noteq> 10 \<and> code_digit b \<noteq> 102"
    by (rule nibble_cases [OF _ assms]) code_simp
  then show "digit_value (code_digit b) = b" "code_digit b \<noteq> 0" "code_digit b \<noteq> 10" "code_digit b \<noteq> 102" by blast+
qed

lemma nibbles:
  "a div 16 < (16 :: byte)" "push_bit 4 a div 16 < (16 :: byte)" "(a div 16) * 16 + push_bit 4 a div 16 = a"
proof -
  have p: "unat (push_bit 4 a) = (unat a * 16) mod 256" unfolding unsigned_push_bit_eq by (simp add: push_bit_eq_mult take_bit_eq_mod)
  have a: "unat a < 256" using unsigned_less [of a, where 'a = nat] by simp
  show 1: "a div 16 < 16" "push_bit 4 a div 16 < 16" using a p by (simp_all add: word_less_nat_alt unat_div less_mult_imp_div_less)
  have m: "(unat a * 16) mod 256 div 16 = unat a mod 16" using mult_mod_right [of 16 "unat a" 16] by (simp add: mult.commute)
  have "unat ((a div 16) * 16 + push_bit 4 a div 16) = (unat a div 16 * 16 + unat a mod 16) mod 256"
    by (simp add: unat_word_ariths unat_div p m mod_simps)
  also have "\<dots> = unat a" using a by simp
  finally show "(a div 16) * 16 + push_bit 4 a div 16 = a" by (simp add: unsigned_word_eqI)
qed

lemma length_hash2code: "length hash = 20 \<Longrightarrow> length (hash2code hash) = 40"
  by (simp add: hash2code_def length_concat code_byte_def comp_def sum_list_triv)

lemma hash2code_bytes: "b \<in> set (hash2code hash) \<Longrightarrow> b \<noteq> 0 \<and> b \<noteq> 10 \<and> b \<noteq> 102"
  using hex_digits nibbles by (auto simp: hash2code_def code_byte_def)

lemma nth_code: "i < length xs \<Longrightarrow> concat (map code_byte xs) ! (2 * i) = code_digit (xs ! i div 16)
    \<and> concat (map code_byte xs) ! (2 * i + 1) = code_digit (push_bit 4 (xs ! i) div 16)"
proof (induction xs arbitrary: i)
  case (Cons x xs)
  then show ?case by (cases i) (simp_all add: code_byte_def)
qed simp

lemma code_hash: "length hash = 20 \<Longrightarrow> code2hash (hash2code hash) = hash"
proof (rule nth_equalityI)
  assume l: "length hash = 20"
  then show "length (code2hash (hash2code hash)) = length hash" by (simp add: code2hash_def)
  fix i assume "i < length (code2hash (hash2code hash))"
  then have i: "i < 20" by (simp add: code2hash_def)
  have two: "[0..<2] = [0, 1 :: nat]" by (simp add: upt_rec)
  show "code2hash (hash2code hash) ! i = hash ! i"
    using nth_code [of i hash] i l nibbles [of "hash ! i"] hex_digits(1)
    by (simp add: code2hash_def hash2code_def two del: upt_rec_numeral)
qed

section \<open>What was written is read\<close>

lemma fgets_last: "bs \<noteq> [] \<Longrightarrow> 10 \<notin> set bs \<Longrightarrow> length bs + 1 < n \<Longrightarrow> fgets n bs = Some (bs, [])"
proof -
  assume a: "bs \<noteq> []" "10 \<notin> set bs" "length bs + 1 < n"
  have t: "takeWhile (\<lambda>b. b \<noteq> 10) bs = bs" using a(2) by (auto simp: takeWhile_eq_all_conv)
  show ?thesis unfolding fgets_def t using a by simp
qed

lemma next_line_text: "10 \<notin> set l \<Longrightarrow> 0 \<notin> set l \<Longrightarrow> length l < 127 \<Longrightarrow> next_line line (l @ 10 # r) = (l @ [10], r)"
  using fgets_text [of l 128 r] cstring_all(2) [of "l @ [10]"] by (simp add: next_line_def)

lemma print_int_no_zero: "0 \<notin> set (print_int i)"
proof -
  have "\<not> is_digit 0" by (simp add: is_digit_def)
  then have "0 \<notin> set (decimal n)" for n using decimal_digits(1) [of n] by (auto simp: list_all_iff)
  then show ?thesis by (simp add: print_int_def)
qed

text \<open>The chunks of a trace: fingerprints of twenty bytes and sizes of a file below 2 GB, as the phases make them.\<close>

definition data_chunk :: "chunk \<Rightarrow> bool" where
  "data_chunk c = (\<not> is_file_signal c \<and> length (ck_fp c) = 20 \<and> int32_range (ck_size c))"

definition read_back :: "(nat \<Rightarrow> byte) \<Rightarrow> chunk \<Rightarrow> chunk" where
  "read_back junk c = (new_chunk junk 0)\<lparr>ck_fp := ck_fp c, ck_size := ck_size c\<rparr>"

lemma chunk_line:
  assumes "data_chunk c"
  shows "\<exists>l. trace_chunk c = Some (l @ [10]) \<and> (\<forall>line r. next_line line (l @ 10 # r) = (l @ [10], r))
     \<and> \<not> starts_with (text_bytes ''file end'') (l @ [10]) \<and> read_trace_chunk junk (l @ [10]) = Some (read_back junk c)"
proof -
  let ?l = "hash2code (ck_fp c) @ [32] @ print_int (ck_size c)"
  have c: "\<not> CHECK_CHUNK c CHUNK_FILE_START" "\<not> CHECK_CHUNK c CHUNK_FILE_END" "length (ck_fp c) = 20" "int64_range (ck_size c)"
    using assms by (auto simp: data_chunk_def int32_range_def int64_range_def)
  note len = length_hash2code [OF c(3)] print_int_length [OF c(4)]
  have "10 \<notin> set ?l" "0 \<notin> set ?l" using hash2code_bytes print_int_line print_int_no_zero by auto
  then have 1: "next_line line (?l @ 10 # r) = (?l @ [10], r)" for line r using len by (intro next_line_text) simp_all
  obtain h hs where h: "hash2code (ck_fp c) = h # hs" using len(1) by (cases "hash2code (ck_fp c)") auto
  have "h \<noteq> 102" using hash2code_bytes [of h "ck_fp c"] h by simp
  then have 2: "\<not> starts_with (text_bytes ''file end'') (?l @ [10])" by (simp add: starts_with_def h of_char_def)
  have "scan_int (print_int (ck_size c) @ [10]) = Some (ck_size c, [10])"
    using scan_print [of "[10]" "[]" "ck_size c"] by (simp add: is_digit_def)
  then have "read_trace_chunk junk (?l @ [10]) = Some (read_back junk c)"
    using len code_hash [OF c(3)] by (simp add: read_trace_chunk_def read_back_def atoi_def)
  with 1 2 c(1,2) show ?thesis by (intro exI [of _ ?l]) (simp add: trace_chunk_def)
qed

lemma map_opt_append: "map_opt f (xs @ ys) = do { us \<leftarrow> map_opt f xs; vs \<leftarrow> map_opt f ys; Some (us @ vs) }"
  by (induction xs) (auto split: option.splits simp: bind_eq_Some_conv)

abbreviation end_line :: "byte list" where "end_line \<equiv> text_bytes ''file end'' @ [10]"

lemma end_line_text: "next_line line (end_line @ r) = (end_line, r)"
  using next_line_text [of "text_bytes ''file end''" line r] by (simp add: of_char_def)

lemma trace_lines:
  assumes "\<forall>c \<in> set cs. data_chunk c"
  shows "\<exists>ls. map_opt trace_chunk cs = Some ls
     \<and> (\<forall>line r. (case next_line line (concat ls @ end_line @ r) of (l, b) \<Rightarrow> read_trace_chunks junk l b) = Some (map (read_back junk) cs, end_line, r))"
  using assms
proof (induction cs)
  case Nil
  have "read_trace_chunks junk end_line r = Some ([], end_line, r)" for r
    by (subst read_trace_chunks.simps) (simp add: starts_with_def)
  then have "(case next_line line (end_line @ r) of (l, b) \<Rightarrow> read_trace_chunks junk l b) = Some ([], end_line, r)" for line r
    unfolding end_line_text by simp
  then show ?case by (intro exI [of _ "[]"]) simp
next
  case (Cons c cs)
  then obtain ls where ls: "map_opt trace_chunk cs = Some ls"
    "\<And>line r. (case next_line line (concat ls @ end_line @ r) of (l, b) \<Rightarrow> read_trace_chunks junk l b) = Some (map (read_back junk) cs, end_line, r)" by auto
  from chunk_line [of c junk] Cons.prems obtain l where l: "trace_chunk c = Some (l @ [10])" "\<not> starts_with (text_bytes ''file end'') (l @ [10])"
    "read_trace_chunk junk (l @ [10]) = Some (read_back junk c)" and n: "\<And>line r. next_line line (l @ 10 # r) = (l @ [10], r)" by auto
  have "(case next_line line (concat ((l @ [10]) # ls) @ end_line @ r) of (l, b) \<Rightarrow> read_trace_chunks junk l b) = Some (map (read_back junk) (c # cs), end_line, r)" for line r
    using ls(2) [of "l @ [10]" r] l(2,3) n by (simp add: read_trace_chunks.simps [of junk "l @ [10]"] split: prod.splits)
  with ls(1) l(1) show ?case by (intro exI [of _ "(l @ [10]) # ls"]) simp
qed

definition traced_start :: "(nat \<Rightarrow> byte) \<Rightarrow> byte list \<Rightarrow> chunk" where
  "traced_start junk name = SET_CHUNK ((new_chunk junk (int (length name) + 2))\<lparr>ck_data := Some (name @ [0, 0])\<rparr>) CHUNK_FILE_START"

definition name_ok :: "byte list \<Rightarrow> bool" where
  "name_ok name = (0 \<notin> set name \<and> 10 \<notin> set name \<and> length name < 2 ^ 31 - 2)"

lemma read_name_ok: "10 \<notin> set name \<Longrightarrow> read_name junk (int (length name)) (name @ 10 # r) = Some (traced_start junk name, r)"
  using fgets_text [of name "length name + 2" r] by (simp add: read_name_def traced_start_def add.commute [of _ 2])

lemma start_line:
  fixes name :: "byte list"
  assumes "name_ok name"
  defines "l \<equiv> text_bytes ''file start '' @ print_int (int (length name))"
  shows "next_line line (l @ 10 # r) = (l @ [10], r)" "l @ [10] \<noteq> text_bytes ''stream end''"
    "starts_with (text_bytes ''file start '') (l @ [10])" "scan_int (drop 11 (l @ [10])) = Some (int (length name), [10])"
proof -
  have len: "length (print_int (int (length name))) \<le> 20" using assms(1) by (intro print_int_length) (simp add: name_ok_def int64_range_def)
  have "10 \<notin> set l" "0 \<notin> set l" using print_int_line print_int_no_zero by (auto simp: l_def)
  with len show "next_line line (l @ 10 # r) = (l @ [10], r)" by (intro next_line_text) (simp_all add: l_def)
  show "l @ [10] \<noteq> text_bytes ''stream end''" "starts_with (text_bytes ''file start '') (l @ [10])" by (simp_all add: l_def starts_with_def)
  show "scan_int (drop 11 (l @ [10])) = Some (int (length name), [10])"
    using scan_print [of "[10]" "[]" "int (length name)"] by (simp add: l_def is_digit_def)
qed

type_synonym traced_file = "byte list \<times> chunk list"

definition file_chunks :: "(nat \<Rightarrow> byte) \<Rightarrow> traced_file \<Rightarrow> chunk list" where
  "file_chunks junk = (\<lambda>(name, cs). start_signal junk name # cs @ [end_signal junk])"

definition file_read_back :: "(nat \<Rightarrow> byte) \<Rightarrow> traced_file \<Rightarrow> chunk list" where
  "file_read_back junk = (\<lambda>(name, cs). traced_start junk name # map (read_back junk) cs @ [end_signal junk])"

lemma trace_file:
  assumes "name_ok name" "\<forall>c \<in> set cs. data_chunk c"
  shows "\<exists>ls. map_opt trace_chunk (file_chunks junk (name, cs)) = Some ls
     \<and> (\<forall>n line r. read_trace_thread junk n line (concat ls @ r) =
          map_option (\<lambda>cs2. file_read_back junk (name, cs) @ cs2) (read_trace_thread junk (int (length name)) end_line r))"
proof -
  from trace_lines [OF assms(2), of junk] obtain ls where ls: "map_opt trace_chunk cs = Some ls"
    "\<And>line r. (case next_line line (concat ls @ end_line @ r) of (l, b) \<Rightarrow> read_trace_chunks junk l b) = Some (map (read_back junk) cs, end_line, r)" by blast
  let ?s = "text_bytes ''file start '' @ print_int (int (length name))"
  have nm: "0 \<notin> set name" "10 \<notin> set name" using assms(1) by (auto simp: name_ok_def)
  have st: "trace_chunk (start_signal junk name) = Some (?s @ [10] @ name @ [10])" "trace_chunk (end_signal junk) = Some end_line"
    using cstring_all(1) [OF nm(1)] signal_flags by (simp_all add: trace_chunk_def start_signal_def end_signal_def flag_simps)
  let ?ls = "(?s @ [10] @ name @ [10]) # ls @ [end_line]"
  have 1: "map_opt trace_chunk (file_chunks junk (name, cs)) = Some ?ls"
    by (simp add: file_chunks_def st map_opt_append ls(1))
  have "read_trace_thread junk n line (concat ?ls @ r) =
      map_option (\<lambda>cs2. file_read_back junk (name, cs) @ cs2) (read_trace_thread junk (int (length name)) end_line r)" for n line r
  proof -
    have c: "concat ?ls @ r = ?s @ 10 # (name @ 10 # (concat ls @ end_line @ r))" by simp
    obtain l2 b2 where nl: "next_line (?s @ [10]) (concat ls @ end_line @ r) = (l2, b2)" by force
    with ls(2) [of "?s @ [10]" r] have rt: "read_trace_chunks junk l2 b2 = Some (map (read_back junk) cs, end_line, r)" by simp
    show ?thesis
      unfolding c using start_line [OF assms(1)] read_name_ok [OF nm(2)] nl rt
      by (subst read_trace_thread.simps) (simp add: file_read_back_def end_signal_def map_option_case del: append_assoc list.map split: option.splits)
  qed
  with 1 show ?thesis by blast
qed

text \<open>C27: a trace gives back the stream it was made from. For files with names that have neither a zero nor
  a line feed, the trace that is written is read without a failed assertion, and the stream that is read
  has the same files in the same order, with the fingerprint and size of every chunk.\<close>

theorem trace_roundtrip:
  assumes "\<forall>(name, cs) \<in> set fs. name_ok name \<and> (\<forall>c \<in> set cs. data_chunk c)"
  shows "\<exists>t. make_trace (concat (map (file_chunks junk) fs)) = Some t \<and> read_trace_thread junk n line t = Some (concat (map (file_read_back junk) fs))"
proof -
  have e: "next_line line (text_bytes ''stream end'') = (text_bytes ''stream end'', [])" for line
    using fgets_last [of "text_bytes ''stream end''" 128] cstring_all(2) [of "text_bytes ''stream end''"] by (simp add: next_line_def)
  have "\<exists>ls. map_opt trace_chunk (concat (map (file_chunks junk) fs)) = Some ls
     \<and> (\<forall>n line. read_trace_thread junk n line (concat ls @ text_bytes ''stream end'') = Some (concat (map (file_read_back junk) fs)))"
    using assms
  proof (induction fs)
    case Nil
    then show ?case by (subst read_trace_thread.simps) (simp add: e [simplified])
  next
    case (Cons f fs)
    obtain name cs where f: "f = (name, cs)" by force
    from Cons obtain ls where ls: "map_opt trace_chunk (concat (map (file_chunks junk) fs)) = Some ls"
      "\<And>n line. read_trace_thread junk n line (concat ls @ text_bytes ''stream end'') = Some (concat (map (file_read_back junk) fs))" by auto
    from trace_file [of name cs junk] Cons.prems f obtain l1 where l1: "map_opt trace_chunk (file_chunks junk f) = Some l1"
      "\<And>n line r. read_trace_thread junk n line (concat l1 @ r) = map_option (\<lambda>cs2. file_read_back junk f @ cs2) (read_trace_thread junk (int (length name)) end_line r)"
      by auto
    have c: "concat (map g (f # fs)) = g f @ concat (map g fs)" for g :: "traced_file \<Rightarrow> chunk list" by simp
    show ?case unfolding c map_opt_append by (rule exI [of _ "l1 @ ls"]) (use ls l1 in \<open>simp del: list.map(2)\<close>)
  qed
  then show ?thesis by (auto simp: make_trace_def)
qed

theorem trace_roundtrip_witness:
  "\<exists>t. make_trace (file_chunks (\<lambda>_. 0) ([97], [(new_chunk (\<lambda>_. 0) 5)\<lparr>ck_fp := replicate 20 171\<rparr>])) = Some t
     \<and> read_trace_thread (\<lambda>_. 0) 0 [] t = Some (file_read_back (\<lambda>_. 0) ([97], [(new_chunk (\<lambda>_. 0) 5)\<lparr>ck_fp := replicate 20 171\<rparr>]))"
  using trace_roundtrip [of "[([97], [(new_chunk (\<lambda>_. 0) 5)\<lparr>ck_fp := replicate 20 171\<rparr>])]" "\<lambda>_. 0" 0 "[]"]
  by (simp add: name_ok_def data_chunk_def int32_range_def CHECK_CHUNK_def new_chunk_def)

end
