(* ===== verification/Delete.thy ===== *)
theory Delete
  imports Cma Fingerprint_Index Recipe_Segment
begin

text \<open>
  The deletion of a backup (\<^verbatim>\<open>src/destor/src/do_delete.c\<close>): the manifest is cut, the entries of the index that
  point to what is given up are removed, and the reclaimed containers are recorded. The files of the working
  directory are the record \<open>work_files\<close>; the walk orders of the hash tables are the record \<open>walks\<close>.
  The line in \<^verbatim>\<open>delete.log\<close> is not modelled.
\<close>

section \<open>Operations\<close>

record work_files =
  wf_manifest :: "byte list option"
  wf_htable :: "byte list option"
  wf_count :: "byte list option"
  wf_pool :: "FILE option"
  wf_versions :: "int \<rightharpoonup> bv_files"
  wf_deleted :: "int \<rightharpoonup> byte list"

record walks =
  walk_manifest :: "manifest \<Rightarrow> manifest"
  walk_invalid :: "containerid list \<Rightarrow> containerid list"
  walk_meta :: "(fingerprint \<times> metaEntry) list \<Rightarrow> (fingerprint \<times> metaEntry) list"
  walk_segment :: "(fingerprint \<times> chunkPointer) list \<Rightarrow> (fingerprint \<times> chunkPointer) list"
  walk_htable :: "kvstore \<Rightarrow> kvstore"

definition delete_an_entry :: "destor \<Rightarrow> int \<Rightarrow> fingerprint \<Rightarrow> fp_index \<Rightarrow> fp_index option" where
  "delete_an_entry d i fp ix = index_delete d fp i ix"

text \<open>The container store has just been opened, so that its buffer is empty.\<close>

definition reclaim_container :: "bool \<Rightarrow> walks \<Rightarrow> destor \<Rightarrow> container_store \<Rightarrow> containerid \<Rightarrow> fp_index \<Rightarrow> fp_index option" where
  "reclaim_container be w d cst i ix = do {
     cm \<leftarrow> retrieve_container_meta_by_id be (walk_meta w) (simulation_level d) (sync_queue_new 25) cst i;
     container_meta_foreach (walk_meta w) cm (delete_an_entry d i) ix
   }"

lemma read_kvpairs_pos: "read_kvpairs be n s kv = Some (kv', s') \<Longrightarrow> s_pos s \<le> s_pos s' \<and> s_bytes s' = s_bytes s"
  by (induction be n s kv rule: read_kvpairs.induct)
    (fastforce simp: bind_eq_Some_conv assertion_def read_ptr_def s_read_def s_read_int_def s_read_int64_def split: if_splits)+

lemma read_ptr_pos: "read_ptr be s = Some (cp, s') \<Longrightarrow> s_pos s' = s_pos s + 32 \<and> s_pos s' \<le> length (s_bytes s) \<and> s_bytes s' = s_bytes s"
  by (auto simp: bind_eq_Some_conv read_ptr_def s_read_def s_read_int_def s_read_int64_def split: if_splits)

lemma read_next_segment_pos:
  assumes "read_next_segment be b = Some (Some sr, b')"
  shows "s_pos (recipe_fp b) < s_pos (recipe_fp b') \<and> s_pos (recipe_fp b') \<le> length (s_bytes (recipe_fp b))
     \<and> s_bytes (recipe_fp b') = s_bytes (recipe_fp b)"
proof -
  from assms obtain flag s s1 where f: "read_ptr be (recipe_fp b) = Some (flag, s)"
    "read_segment_body be (bv_num b) (s_pos (recipe_fp b)) flag s = Some (sr, s1)" "b' = b\<lparr>recipe_fp := s1\<rparr>"
    by (auto simp: read_next_segment_def bind_eq_Some_conv split: option.splits if_splits)
  from f(2) obtain kv s2 fin where g: "read_kvpairs be (nat (cp_size flag)) s [] = Some (kv, s2)" "read_ptr be s2 = Some (fin, s1)"
    by (auto simp: read_segment_body_def bind_eq_Some_conv)
  from read_ptr_pos [OF f(1)] read_kvpairs_pos [OF g(1)] read_ptr_pos [OF g(2)] f(3) show ?thesis by simp
qed

function delete_segments :: "bool \<Rightarrow> walks \<Rightarrow> destor \<Rightarrow> backupVersion \<Rightarrow> fp_index \<Rightarrow> fp_index option" where
  "delete_segments be w d b ix = (case read_next_segment be b of
      Some (Some sr, b) \<Rightarrow> segment_recipe_foreach (walk_segment w) sr (delete_an_entry d (sr_id sr)) ix \<bind> delete_segments be w d b
    | Some (None, b) \<Rightarrow> Some ix
    | None \<Rightarrow> None)"
  by pat_completeness auto
termination
  by (relation "measure (\<lambda>(_, _, _, b, _). length (s_bytes (recipe_fp b)) - s_pos (recipe_fp b))")
    (auto dest!: read_next_segment_pos)

declare delete_segments.simps [simp del]

text \<open>\<open>bv->deleted\<close> is set and \<open>update_backup_version\<close> called, but \<open>open_backup_version\<close> opens the files with mode
  \<open>r\<close>: each \<open>fwrite\<close> fails, its result is not looked at, and the files stay as they are.\<close>

definition print_ids :: "containerid list \<Rightarrow> byte list" where
  "print_ids ids = concat (map (\<lambda>i. print_int i @ [10]) ids)"

definition do_delete :: "bool \<Rightarrow> walks \<Rightarrow> destor \<Rightarrow> recipe_statics \<Rightarrow> int \<Rightarrow> work_files \<Rightarrow> work_files option" where
  "do_delete be w d st jobid fs = do {
     (invalid, manifest, _) \<leftarrow> trunc_manifest (walk_manifest w) jobid (wf_manifest fs);
     let fs = fs\<lparr>wf_manifest := Some manifest\<rparr>;
     (d, ix) \<leftarrow> init_index be (wf_htable fs) d;
     st \<leftarrow> init_recipe_store be (wf_count fs) st;
     (fs, ix) \<leftarrow> (case index_category1 d of
         INDEX_CATEGORY_PHYSICAL_LOCALITY \<Rightarrow> do {
           cst \<leftarrow> init_container_store be (wf_pool fs);
           _ \<leftarrow> open_backup_version be (wf_versions fs) jobid;
           ix \<leftarrow> fold_opt (reclaim_container be w d cst) (walk_invalid w invalid) ix;
           Some (fs\<lparr>wf_pool := Some (close_container_store be cst)\<rparr>, ix)
         }
       | INDEX_CATEGORY_LOGICAL_LOCALITY \<Rightarrow> do {
           b \<leftarrow> open_backup_version be (wf_versions fs) jobid;
           ix \<leftarrow> delete_segments be w d b ix;
           Some (fs, ix)
         });
     let fs = fs\<lparr>wf_count := Some (close_recipe_store be st)\<rparr>;
     let fs = fs\<lparr>wf_htable := Some (close_kvstore_htable be (walk_htable w) d (ix_kv ix))\<rparr>;
     Some (fs\<lparr>wf_deleted := (wf_deleted fs)(jobid \<mapsto> print_ids (walk_invalid w invalid))\<rparr>)
   }"

section \<open>Entries that are removed\<close>

text \<open>\<open>pruned d ps t t'\<close>: the table \<open>t'\<close> is \<open>t\<close> without the entries that name \<open>i\<close> under the feature of \<open>fp\<close>, for
  the pairs \<open>(fp, i)\<close> of \<open>ps\<close>.\<close>

definition names :: "destor \<Rightarrow> (fingerprint \<times> int) set \<Rightarrow> kvstore \<Rightarrow> byte list \<Rightarrow> bool" where
  "names d ps t key = (\<exists>(fp, i) \<in> ps. take (index_key_size d) fp = take (index_key_size d) key \<and> kvstore_htable_lookup d t key = Some [i])"

definition pruned :: "destor \<Rightarrow> (fingerprint \<times> int) set \<Rightarrow> kvstore \<Rightarrow> kvstore \<Rightarrow> bool" where
  "pruned d ps t t' = (kv_inv d t' \<and> set t' \<subseteq> set t
     \<and> (\<forall>key. kvstore_htable_lookup d t' key = (if names d ps t key then None else kvstore_htable_lookup d t key)))"

lemma pruned_refl: "kv_inv d t \<Longrightarrow> pruned d {} t t"
  by (simp add: pruned_def names_def)

lemma pruned_trans: "pruned d ps t t1 \<Longrightarrow> pruned d qs t1 t2 \<Longrightarrow> pruned d (ps \<union> qs) t t2"
  by (fastforce simp: pruned_def names_def split: if_splits)

lemma delete_pruned:
  assumes "kv_inv d t" "index_value_length d = 1" "index_key_size d \<le> length fp"
  shows "\<exists>t'. kvstore_htable_delete d t fp i = Some t' \<and> pruned d {(fp, i)} t t'"
proof (cases "kvstore_htable_lookup d t fp")
  case None
  with assms show ?thesis by (auto simp: kvstore_htable_delete_def pruned_def names_def kvstore_htable_lookup_def)
next
  case (Some v)
  let ?k = "take (index_key_size d) fp"
  from kv_inv_lookup [OF assms(1) Some] assms(2) obtain x where x: "v = [x]" "x \<noteq> TEMPORARY_ID" by (cases v) auto
  have m: "map_of t ?k = Some [x]" using Some x by (simp add: kvstore_htable_lookup_def)
  show ?thesis
  proof (cases "x = i")
    case True
    then have d: "kvstore_htable_delete d t fp i = Some (AList.delete ?k t)"
      using Some x by (simp add: kvstore_htable_delete_def assertion_def)
    moreover have "set (AList.delete ?k t) \<subseteq> set t" by (auto simp: AList.delete_eq)
    ultimately show ?thesis using kv_inv_delete [OF assms(1) d assms(3)] m True
      by (auto simp: pruned_def names_def kvstore_htable_lookup_def delete_conv')
  next
    case False
    then have d: "kvstore_htable_delete d t fp i = Some (AList.update ?k [x] t)"
      using Some x by (simp add: kvstore_htable_delete_def)
    have "set (AList.update ?k [x] t) \<subseteq> set t" using set_update_subset [of ?k "[x]" t] map_of_SomeD [OF m] by auto
    with kv_inv_delete [OF assms(1) d assms(3)] d m False show ?thesis
      by (auto simp: pruned_def names_def kvstore_htable_lookup_def update_conv')
  qed
qed

lemma entry_pruned:
  assumes "kv_inv d (ix_kv ix)" "index_value_length d = 1" "index_key_size d \<le> length fp"
  shows "\<exists>ix'. delete_an_entry d i fp ix = Some ix' \<and> pruned d {(fp, i)} (ix_kv ix) (ix_kv ix')"
  using delete_pruned [OF assms, of i] by (auto simp: delete_an_entry_def index_delete_def)

lemma fold_pruned:
  assumes "kv_inv d (ix_kv ix)"
    and "\<And>x ix. x \<in> set xs \<Longrightarrow> kv_inv d (ix_kv ix) \<Longrightarrow> \<exists>ix'. f x ix = Some ix' \<and> pruned d (ps x) (ix_kv ix) (ix_kv ix')"
  shows "\<exists>ix'. fold_opt f xs ix = Some ix' \<and> pruned d (\<Union>x \<in> set xs. ps x) (ix_kv ix) (ix_kv ix')"
  using assms
proof (induction xs arbitrary: ix)
  case Nil
  then show ?case by (simp add: pruned_refl)
next
  case (Cons x xs)
  from Cons.prems obtain ix1 where 1: "f x ix = Some ix1" "pruned d (ps x) (ix_kv ix) (ix_kv ix1)" by (meson list.set_intros(1))
  then have "kv_inv d (ix_kv ix1)" by (simp add: pruned_def)
  with Cons.IH [of ix1] Cons.prems(2) obtain ix2 where
    2: "fold_opt f xs ix1 = Some ix2" "pruned d (\<Union>x \<in> set xs. ps x) (ix_kv ix1) (ix_kv ix2)" by auto
  with pruned_trans [OF 1(2) 2(2)] 1(1) show ?case by simp
qed

lemma entries_pruned:
  assumes "kv_inv d (ix_kv ix)" "index_value_length d = 1" "index_key_size d \<le> 20"
    and "\<forall>fp \<in> fst ` set kvs. length fp = 20" "mset (ord kvs) = mset kvs"
  shows "\<exists>ix'. fold_opt (\<lambda>(fp, _). delete_an_entry d i fp) (ord kvs) ix = Some ix'
     \<and> pruned d ((\<lambda>fp. (fp, i)) ` fst ` set kvs) (ix_kv ix) (ix_kv ix')"
proof -
  have s: "set (ord kvs) = set kvs" using assms(5) by (metis set_mset_mset)
  have "\<exists>ix'. fold_opt (\<lambda>(fp, _). delete_an_entry d i fp) (ord kvs) ix = Some ix'
      \<and> pruned d (\<Union>x \<in> set (ord kvs). {(fst x, i)}) (ix_kv ix) (ix_kv ix')"
  proof (rule fold_pruned [OF assms(1)])
    fix x and ix :: fp_index assume x: "x \<in> set (ord kvs)" and inv: "kv_inv d (ix_kv ix)"
    from x s assms(3,4) have "index_key_size d \<le> length (fst x)" by auto
    from entry_pruned [OF inv assms(2) this, of i]
    show "\<exists>ix'. (case x of (fp, _) \<Rightarrow> delete_an_entry d i fp) ix = Some ix' \<and> pruned d {(fst x, i)} (ix_kv ix) (ix_kv ix')"
      by (simp add: case_prod_beta)
  qed
  moreover have "(\<Union>x \<in> set kvs. {(fst x, i)}) = (\<lambda>fp. (fp, i)) ` fst ` set kvs" by auto
  ultimately show ?thesis by (simp add: s)
qed

section \<open>Reclaimed containers\<close>

lemma unser_entries_keys: "\<forall>fp \<in> fst ` set t. length fp = 20 \<Longrightarrow> \<forall>fp \<in> fst ` set (unser_entries be m p n t). length fp = 20"
proof (induction be m p n t rule: unser_entries.induct)
  case (2 be m p n t)
  then show ?case by (simp add: Let_def dom_update [unfolded dom_def])
qed simp

lemma pool_meta_keys: "retrieve_meta_from_pool be sim cst i = Some cm \<Longrightarrow> fp \<in> fst ` set (cm_map cm) \<Longrightarrow> length fp = 20"
  using unser_entries_keys [of "[]"] by (fastforce simp: retrieve_meta_from_pool_def unser_meta_def bind_eq_Some_conv)

lemma reclaim_pruned:
  assumes "kv_inv d (ix_kv ix)" "index_value_length d = 1" "index_key_size d \<le> 20"
    and "retrieve_meta_from_pool be (simulation_level d) cst i = Some cm" "mset (walk_meta w (cm_map cm)) = mset (cm_map cm)"
  shows "\<exists>ix'. reclaim_container be w d cst i ix = Some ix' \<and> pruned d ((\<lambda>fp. (fp, i)) ` fst ` set (cm_map cm)) (ix_kv ix) (ix_kv ix')"
  using entries_pruned [where ord = "walk_meta w" and i = i, OF assms(1-3) _ assms(5)] pool_meta_keys [OF assms(4)] assms(4)
  by (simp add: reclaim_container_def retrieve_container_meta_by_id_def sync_queue_find_def sync_queue_new_def container_meta_foreach_def)

section \<open>Segments of a version\<close>

lemma recipe_keys: "fst ` set (sr_kvpairs (recipe_of num off cps)) = cp_fp ` set cps"
proof -
  have "fst ` set (fold (\<lambda>cp t. AList.update (cp_fp cp) cp t) cps t) = fst ` set t \<union> cp_fp ` set cps" for t :: "(fingerprint \<times> chunkPointer) list"
  proof (induction cps arbitrary: t)
    case (Cons cp cps)
    have "fst ` set (AList.update (cp_fp cp) cp t) = insert (cp_fp cp) (fst ` set t)" by (simp add: dom_update)
    with Cons show ?case by auto
  qed simp
  from this [of "[]"] show ?thesis by (simp add: recipe_of_def)
qed

lemma read_next_segment_items:
  assumes "valid (recipe_fp b)" "rest (recipe_fp b) = segs_bytes be (cps # segs)" "seg_ok cps"
  shows "\<exists>s. read_next_segment be b = Some (Some (recipe_of (bv_num b) (s_pos (recipe_fp b)) cps), b\<lparr>recipe_fp := s\<rparr>)
     \<and> valid s \<and> rest s = segs_bytes be segs \<and> s_pos s = s_pos (recipe_fp b) + 32 * (length cps + 2)"
proof -
  have "rest (recipe_fp b) = items_bytes be (seg_items cps) @ segs_bytes be segs" using assms(2) by (simp add: segs_bytes_def)
  from read_segment_items [OF assms(1) this, of "bv_num b"] assms(3) show ?thesis
    by (auto simp: seg_ok_def read_next_segment_def flag_ptr_def)
qed

definition segment_pairs :: "segmentRecipe \<Rightarrow> (fingerprint \<times> int) set" where
  "segment_pairs sr = (\<lambda>fp. (fp, sr_id sr)) ` fst ` set (sr_kvpairs sr)"

lemma foreach_pruned:
  assumes "kv_inv d (ix_kv ix)" "index_value_length d = 1" "index_key_size d \<le> 20"
    and "\<forall>fp \<in> fst ` set (sr_kvpairs sr). length fp = 20" "mset (walk_segment w (sr_kvpairs sr)) = mset (sr_kvpairs sr)"
  shows "\<exists>ix'. segment_recipe_foreach (walk_segment w) sr (delete_an_entry d (sr_id sr)) ix = Some ix'
     \<and> pruned d (segment_pairs sr) (ix_kv ix) (ix_kv ix')"
  using entries_pruned [where ord = "walk_segment w" and i = "sr_id sr", OF assms]
  by (simp add: segment_recipe_foreach_def segment_pairs_def)

lemma delete_segments_pruned:
  assumes "kv_inv d (ix_kv ix)" "index_value_length d = 1" "index_key_size d \<le> 20" "\<And>t. mset (walk_segment w t) = mset t"
    and "valid (recipe_fp b)" "rest (recipe_fp b) = segs_bytes be segs" "\<forall>cps \<in> set segs. seg_ok cps"
  shows "\<exists>ix'. delete_segments be w d b ix = Some ix'
     \<and> pruned d (\<Union>sr \<in> set (recipes_of (bv_num b) (s_pos (recipe_fp b)) segs). segment_pairs sr) (ix_kv ix) (ix_kv ix')"
  using assms
proof (induction segs arbitrary: b ix)
  case Nil
  then have "read_next_segment be b = Some (None, b\<lparr>recipe_fp := (recipe_fp b)\<lparr>s_pos := length (s_bytes (recipe_fp b))\<rparr>\<rparr>)"
    by (simp add: read_next_segment_def segs_bytes_def read_ptr_eof)
  with Nil show ?case by (simp add: delete_segments.simps pruned_refl)
next
  case (Cons cps segs)
  let ?sr = "recipe_of (bv_num b) (s_pos (recipe_fp b)) cps"
  have ok: "seg_ok cps" "\<forall>fp \<in> fst ` set (sr_kvpairs ?sr). length fp = 20"
    using Cons.prems(7) by (auto simp: recipe_keys seg_ok_def data_ptr_def ptr_ok_def)
  from read_next_segment_items [OF Cons.prems(5,6) ok(1)] obtain s where
    s: "read_next_segment be b = Some (Some ?sr, b\<lparr>recipe_fp := s\<rparr>)" "valid s" "rest s = segs_bytes be segs"
      "s_pos s = s_pos (recipe_fp b) + 32 * (length cps + 2)" by blast
  from foreach_pruned [OF Cons.prems(1-3) ok(2) Cons.prems(4)] obtain ix1 where
    1: "segment_recipe_foreach (walk_segment w) ?sr (delete_an_entry d (sr_id ?sr)) ix = Some ix1"
      "pruned d (segment_pairs ?sr) (ix_kv ix) (ix_kv ix1)" by blast
  then have "kv_inv d (ix_kv ix1)" by (simp add: pruned_def)
  with Cons.IH [of ix1 "b\<lparr>recipe_fp := s\<rparr>"] Cons.prems s obtain ix2 where
    2: "delete_segments be w d (b\<lparr>recipe_fp := s\<rparr>) ix1 = Some ix2"
      "pruned d (\<Union>sr \<in> set (recipes_of (bv_num b) (s_pos s) segs). segment_pairs sr) (ix_kv ix1) (ix_kv ix2)" by auto
  with pruned_trans [OF 1(2) 2(2)] s 1(1) show ?case by (subst delete_segments.simps) simp
qed

section \<open>The whole job\<close>

definition table_ok :: "destor \<Rightarrow> kvstore \<Rightarrow> bool" where
  "table_ok d t = (kv_inv d t \<and> (\<forall>(key, v) \<in> set t. \<forall>x \<in> set v. int64_range x) \<and> int32_range (int (length t)))"

definition walks_ok :: "walks \<Rightarrow> bool" where
  "walks_ok w = ((\<forall>t. mset (walk_invalid w t) = mset t) \<and> (\<forall>t. mset (walk_meta w t) = mset t)
     \<and> (\<forall>t. mset (walk_segment w t) = mset t) \<and> (\<forall>t. mset (walk_htable w t) = mset t))"

lemma pruned_reload:
  assumes "pruned d ps t t'" "table_ok d t" "index_value_length d = 1" "mset (ord t') = mset t'"
  shows "\<exists>t2. init_kvstore_htable be d (Some (close_kvstore_htable be ord d t')) = Some t2
     \<and> (\<forall>key. kvstore_htable_lookup d t2 key = (if names d ps t key then None else kvstore_htable_lookup d t key))"
proof -
  have p: "kv_inv d t'" "set t' \<subseteq> set t" using assms(1) by (auto simp: pruned_def)
  then have "distinct t'" by (simp add: kv_inv_def distinct_map)
  then have "length t' \<le> length t" using p(2) card_mono [of "set t" "set t'"] card_length [of t] by (simp add: distinct_card)
  then have l: "int32_range (int (length t'))" using assms(2) by (simp add: table_ok_def int32_range_def)
  have r: "\<forall>(key, v) \<in> set t'. \<forall>x \<in> set v. int64_range x" using assms(2) p(2) by (fastforce simp: table_ok_def)
  have "int32_range (int (index_value_length d))" using assms(3) by (simp add: int32_range_def)
  from kvstore_reload [where ord = ord, OF p(1) r this l assms(4), of be] assms(1) show ?thesis
    by (auto simp: pruned_def kvstore_htable_lookup_def)
qed

lemma init_index_config_key: "init_index_config d = Some d' \<Longrightarrow> index_key_size d' \<le> 20"
  by (auto simp: init_index_config_def bind_eq_Some_conv assertion_def Let_def split: if_splits)

lemma init_index_table:
  assumes "init_index_config d = Some d'" "init_kvstore_htable be d' f = Some t"
  shows "\<exists>ix. init_index be f d = Some (d', ix) \<and> ix_kv ix = t"
  using assms by (simp add: init_index_def)

lemma reclaim_all_pruned:
  assumes "kv_inv d (ix_kv ix)" "index_value_length d = 1" "index_key_size d \<le> 20" "walks_ok w"
    and "\<forall>i \<in> set ids. retrieve_meta_from_pool be (simulation_level d) cst i = Some (metas i)"
  shows "\<exists>ix'. fold_opt (reclaim_container be w d cst) (walk_invalid w ids) ix = Some ix'
     \<and> pruned d (\<Union>i \<in> set ids. (\<lambda>fp. (fp, i)) ` fst ` set (cm_map (metas i))) (ix_kv ix) (ix_kv ix')"
proof -
  have s: "set (walk_invalid w ids) = set ids" using assms(4) unfolding walks_ok_def by (metis set_mset_mset)
  have "\<exists>ix'. fold_opt (reclaim_container be w d cst) (walk_invalid w ids) ix = Some ix'
     \<and> pruned d (\<Union>i \<in> set (walk_invalid w ids). (\<lambda>fp. (fp, i)) ` fst ` set (cm_map (metas i))) (ix_kv ix) (ix_kv ix')"
    using assms(4,5) by (intro fold_pruned [OF assms(1)] reclaim_pruned assms) (simp_all add: s walks_ok_def)
  then show ?thesis by (simp add: s)
qed

section \<open>A store for the witnesses\<close>

abbreviation small_config :: destor where "small_config \<equiv> destor_start_config\<lparr>index_key_size := 1\<rparr>"

abbreviation logical_config :: destor where "logical_config \<equiv> small_config\<lparr>index_category1 := INDEX_CATEGORY_LOGICAL_LOCALITY\<rparr>"

abbreviation walks_id :: walks where
  "walks_id \<equiv> \<lparr>walk_manifest = id, walk_invalid = id, walk_meta = id, walk_segment = id, walk_htable = id\<rparr>"

definition small_files :: "kvstore \<Rightarrow> FILE option \<Rightarrow> byte list \<Rightarrow> work_files" where
  "small_files t p recipe = \<lparr>wf_manifest = Some (print_manifest id [(0, 0), (5, 1)]),
     wf_htable = Some (close_kvstore_htable False id small_config t), wf_count = None, wf_pool = p,
     wf_versions = [0 \<mapsto> \<lparr>meta_bytes = replicate 28 0, recipe_bytes = recipe, records_bytes = []\<rparr>], wf_deleted = Map.empty\<rparr>"

lemma small_config_init:
  "init_index_config small_config = Some small_config"
  "init_index_config logical_config = Some logical_config"
  by (simp_all add: init_index_config_def index_specific_config_def destor_start_config_def)

lemma small_manifest: "trunc_manifest id 0 (Some (print_manifest id [(0, 0), (5, 1)])) = Some ([0], print_manifest id [(5, 1)], 1)"
  by code_simp

lemma small_version:
  "\<exists>b. open_backup_version False [0 \<mapsto> \<lparr>meta_bytes = replicate 28 0, recipe_bytes = recipe, records_bytes = []\<rparr>] 0 = Some b
     \<and> s_bytes (recipe_fp b) = recipe"
proof -
  have z: "bytes_word (replicate n 0) = (0 :: 'a::len word)" for n by (induction n) simp_all
  show ?thesis by (simp add: open_backup_version_def s_read_int_def s_read_int64_def s_read_def mem_word_def z)
qed

text \<open>C26: deleting a backup with an index of containers reclaims exactly what the manifest gives up. The job ends
  without a failed assertion; afterwards the index that the next job loads has lost the entries that name a reclaimed
  container and kept all others; the reclaimed containers are recorded; the files of the version are as before.\<close>

theorem delete_physical:
  assumes "init_index_config d = Some d'" "index_category1 d' = INDEX_CATEGORY_PHYSICAL_LOCALITY" "index_value_length d' = 1"
    and "init_kvstore_htable be d' (wf_htable fs) = Some t" "table_ok d' t" "walks_ok w"
    and "trunc_manifest (walk_manifest w) j (wf_manifest fs) = Some (invalid, mf, n)"
    and "init_recipe_store be (wf_count fs) st = Some st'" "open_backup_version be (wf_versions fs) j = Some b"
    and "init_container_store be (wf_pool fs) = Some cst"
    and "\<forall>i \<in> set invalid. retrieve_meta_from_pool be (simulation_level d') cst i = Some (metas i)"
    and "\<forall>i \<in> set invalid. \<forall>key. kvstore_htable_lookup d' t key = Some [i] \<longrightarrow>
           (\<exists>fp \<in> fst ` set (cm_map (metas i)). take (index_key_size d') fp = take (index_key_size d') key)"
  shows "\<exists>fs' t'. do_delete be w d st j fs = Some fs' \<and> wf_manifest fs' = Some mf \<and> wf_versions fs' = wf_versions fs
     \<and> wf_deleted fs' j = Some (print_ids (walk_invalid w invalid))
     \<and> init_kvstore_htable be d' (wf_htable fs') = Some t'
     \<and> (\<forall>key. kvstore_htable_lookup d' t' key =
          (if \<exists>i \<in> set invalid. kvstore_htable_lookup d' t key = Some [i] then None else kvstore_htable_lookup d' t key))"
proof -
  let ?ps = "\<Union>i \<in> set invalid. (\<lambda>fp. (fp, i)) ` fst ` set (cm_map (metas i))"
  obtain ix where ix: "init_index be (wf_htable fs) d = Some (d', ix)" "ix_kv ix = t"
    using init_index_table [OF assms(1,4)] by blast
  have inv: "kv_inv d' (ix_kv ix)" using assms(5) ix(2) by (simp add: table_ok_def)
  from reclaim_all_pruned [OF inv assms(3) init_index_config_key [OF assms(1)] assms(6,11)] obtain ix' where
    r: "fold_opt (reclaim_container be w d' cst) (walk_invalid w invalid) ix = Some ix'" "pruned d' ?ps t (ix_kv ix')"
    unfolding ix(2) by blast
  have "names d' ?ps t key = (\<exists>i \<in> set invalid. kvstore_htable_lookup d' t key = Some [i])" for key
    using assms(12) by (fastforce simp: names_def)
  moreover from pruned_reload [where ord = "walk_htable w" and be = be, OF r(2) assms(5,3)] assms(6) obtain t2 where
    "init_kvstore_htable be d' (Some (close_kvstore_htable be (walk_htable w) d' (ix_kv ix'))) = Some t2"
    "\<forall>key. kvstore_htable_lookup d' t2 key = (if names d' ?ps t key then None else kvstore_htable_lookup d' t key)"
    by (auto simp: walks_ok_def)
  ultimately show ?thesis using assms(2,7-10) ix(1) r(1) by (simp add: do_delete_def)
qed

lemma small_container:
  "\<exists>p cst cm. init_container_store False (Some p) = Some cst \<and> retrieve_meta_from_pool False SIMULATION_NO cst 0 = Some cm
     \<and> replicate 20 7 \<in> fst ` set (cm_map cm)"
proof -
  obtain c st' where a: "container_ok c" "\<not> container_empty c" "cm_id (con_meta c) = 0" "entry_data c (replicate 20 7) = Some [1, 2, 3]"
    and w: "write_container False id SIMULATION_NO c \<lparr>container_count = 1, pool = \<lparr>f_bytes = (\<lambda>_. 0), f_len = 8\<rparr>\<rparr> = Some st'"
      "container_count st' = 1"
    using sample_container by blast
  have d: "map_of (cm_map (con_meta c)) (replicate 20 7) \<noteq> None" using a(4) by (auto simp: entry_data_def split: option.splits)
  have m: "mset (id (cm_map (con_meta c))) = mset (cm_map (con_meta c))" by simp
  from retrieve_meta_after_write [where ord = id, OF a(1,2) m w(1)] a(3) obtain cm where
    r: "retrieve_meta_from_pool False SIMULATION_NO st' 0 = Some cm" "meta_equiv cm (con_meta c)" by auto
  let ?cst = "\<lparr>container_count = container_count st', pool = close_container_store False st'\<rparr>"
  have "init_container_store False (Some (close_container_store False st')) = Some ?cst" "retrieve_meta_from_pool False SIMULATION_NO ?cst 0 = Some cm"
    using w(2) r(1) close_retrieve(1) [of ?cst False st' False SIMULATION_NO 0] by (simp_all add: init_close)
  moreover have "map_of (cm_map cm) (replicate 20 7) \<noteq> None" using r(2) d by (simp add: meta_equiv_def)
  then have "replicate 20 7 \<in> fst ` set (cm_map cm)" unfolding map_of_eq_None_iff by blast
  ultimately show ?thesis by blast
qed

theorem delete_physical_witness:
  "\<exists>p fs' t'. do_delete False walks_id small_config (\<lparr>backup_version_count = 0, access_record = TEMPORARY_ID, read_file_num = 0, read_chunk_num = 0,
         records_end = False\<rparr>) 0 (small_files [([7], [0]), ([9], [5])] (Some p) []) = Some fs'
     \<and> init_kvstore_htable False small_config (wf_htable fs') = Some t'
     \<and> kvstore_htable_lookup small_config t' [7] = None \<and> kvstore_htable_lookup small_config t' [9] = Some [5]"
proof -
  let ?st = "\<lparr>backup_version_count = 0, access_record = TEMPORARY_ID, read_file_num = 0, read_chunk_num = 0, records_end = False\<rparr>"
  let ?t = "[([7], [0]), ([9], [5])]"
  obtain p cst cm where c: "init_container_store False (Some p) = Some cst" "retrieve_meta_from_pool False SIMULATION_NO cst 0 = Some cm"
    "replicate 20 7 \<in> fst ` set (cm_map cm)" using small_container by blast
  obtain b where b: "open_backup_version False [0 \<mapsto> \<lparr>meta_bytes = replicate 28 0, recipe_bytes = [], records_bytes = []\<rparr>] 0 = Some b"
    using small_version by blast
  have t: "init_kvstore_htable False small_config (wf_htable (small_files ?t (Some p) [])) = Some ?t"
    unfolding small_files_def work_files.simps by code_simp
  have k: "\<exists>fp \<in> fst ` set (cm_map cm). take 1 fp = take 1 key" if "kvstore_htable_lookup small_config ?t key = Some [0]" for key
  proof -
    have "take 1 key = [7]" using that by (auto simp: kvstore_htable_lookup_def split: if_splits)
    with c(3) show ?thesis by (intro bexI [of _ "replicate 20 7"]) simp_all
  qed
  have "\<exists>fs' t'. do_delete False walks_id small_config ?st 0 (small_files ?t (Some p) []) = Some fs'
     \<and> wf_manifest fs' = Some (print_manifest id [(5, 1)]) \<and> wf_versions fs' = wf_versions (small_files ?t (Some p) [])
     \<and> wf_deleted fs' 0 = Some (print_ids (walk_invalid walks_id [0]))
     \<and> init_kvstore_htable False small_config (wf_htable fs') = Some t'
     \<and> (\<forall>key. kvstore_htable_lookup small_config t' key =
          (if \<exists>i \<in> set [0]. kvstore_htable_lookup small_config ?t key = Some [i] then None else kvstore_htable_lookup small_config ?t key))"
    by (rule delete_physical [where metas = "\<lambda>_. cm" and cst = cst and b = b and n = 1 and st' = ?st, OF small_config_init(1) _ _ t])
      (use c b small_manifest k in \<open>simp_all add: small_files_def destor_start_config_def table_ok_def walks_ok_def kv_inv_def int64_range_def
         int32_range_def TEMPORARY_ID_def init_recipe_store_def\<close>)
  then obtain fs' t' where r: "do_delete False walks_id small_config ?st 0 (small_files ?t (Some p) []) = Some fs'"
    "init_kvstore_htable False small_config (wf_htable fs') = Some t'"
    "\<And>key. kvstore_htable_lookup small_config t' key =
       (if \<exists>i \<in> set [0]. kvstore_htable_lookup small_config ?t key = Some [i] then None else kvstore_htable_lookup small_config ?t key)" by blast
  have "kvstore_htable_lookup small_config t' [7] = None" "kvstore_htable_lookup small_config t' [9] = Some [5]"
    unfolding r(3) by (simp_all add: kvstore_htable_lookup_def)
  with r(1,2) show ?thesis by blast
qed

text \<open>deleting a backup with an index of segments removes exactly the entries that name a segment of that backup
  under a feature of the segment; the job ends without a failed assertion.\<close>

theorem delete_logical:
  assumes "init_index_config d = Some d'" "index_category1 d' = INDEX_CATEGORY_LOGICAL_LOCALITY" "index_value_length d' = 1"
    and "init_kvstore_htable be d' (wf_htable fs) = Some t" "table_ok d' t" "walks_ok w"
    and "trunc_manifest (walk_manifest w) j (wf_manifest fs) = Some (invalid, mf, n)"
    and "init_recipe_store be (wf_count fs) st = Some st'" "open_backup_version be (wf_versions fs) j = Some b"
    and "s_bytes (recipe_fp b) = segs_bytes be segs" "\<forall>cps \<in> set segs. seg_ok cps"
  shows "\<exists>fs' t'. do_delete be w d st j fs = Some fs' \<and> wf_manifest fs' = Some mf \<and> wf_versions fs' = wf_versions fs
     \<and> wf_deleted fs' j = Some (print_ids (walk_invalid w invalid))
     \<and> init_kvstore_htable be d' (wf_htable fs') = Some t'
     \<and> (\<forall>key. kvstore_htable_lookup d' t' key =
          (if \<exists>sr \<in> set (recipes_of j 0 segs). kvstore_htable_lookup d' t key = Some [sr_id sr]
                \<and> (\<exists>fp \<in> fst ` set (sr_kvpairs sr). take (index_key_size d') fp = take (index_key_size d') key)
           then None else kvstore_htable_lookup d' t key))"
proof -
  let ?ps = "\<Union>sr \<in> set (recipes_of j 0 segs). segment_pairs sr"
  obtain ix where ix: "init_index be (wf_htable fs) d = Some (d', ix)" "ix_kv ix = t"
    using init_index_table [OF assms(1,4)] by blast
  have inv: "kv_inv d' (ix_kv ix)" using assms(5) ix(2) by (simp add: table_ok_def)
  have b: "bv_num b = j" "s_pos (recipe_fp b) = 0"
    using assms(9) by (auto simp: open_backup_version_def bind_eq_Some_conv Let_def assertion_def split: if_splits)
  then have s: "valid (recipe_fp b)" "rest (recipe_fp b) = segs_bytes be segs" using assms(10) by (simp_all add: valid_def rest_def)
  have w: "mset (walk_segment w x) = mset x" for x using assms(6) by (simp add: walks_ok_def)
  from delete_segments_pruned [OF inv assms(3) init_index_config_key [OF assms(1)] w s assms(11)] obtain ix' where
    r: "delete_segments be w d' b ix = Some ix'" "pruned d' ?ps t (ix_kv ix')"
    unfolding ix(2) b by blast
  have "names d' ?ps t key = (\<exists>sr \<in> set (recipes_of j 0 segs). kvstore_htable_lookup d' t key = Some [sr_id sr]
      \<and> (\<exists>fp \<in> fst ` set (sr_kvpairs sr). take (index_key_size d') fp = take (index_key_size d') key))" for key
    by (auto simp: names_def segment_pairs_def)
  moreover from pruned_reload [where ord = "walk_htable w" and be = be, OF r(2) assms(5,3)] assms(6) obtain t2 where
    "init_kvstore_htable be d' (Some (close_kvstore_htable be (walk_htable w) d' (ix_kv ix'))) = Some t2"
    "\<forall>key. kvstore_htable_lookup d' t2 key = (if names d' ?ps t key then None else kvstore_htable_lookup d' t key)"
    by (auto simp: walks_ok_def)
  ultimately show ?thesis using assms(2,7-9) ix(1) r(1) by (simp add: do_delete_def)
qed

theorem delete_logical_witness:
  "\<exists>fs' t'. do_delete False walks_id logical_config
       \<lparr>backup_version_count = 0, access_record = TEMPORARY_ID, read_file_num = 0, read_chunk_num = 0, records_end = False\<rparr> 0
       (small_files [([7], [1]), ([9], [1])] None (segs_bytes False [[\<lparr>cp_fp = replicate 20 7, cp_id = 0, cp_size = 3\<rparr>]])) = Some fs'
     \<and> init_kvstore_htable False logical_config (wf_htable fs') = Some t'
     \<and> kvstore_htable_lookup logical_config t' [7] = None \<and> kvstore_htable_lookup logical_config t' [9] = Some [1]"
proof -
  let ?st = "\<lparr>backup_version_count = 0, access_record = TEMPORARY_ID, read_file_num = 0, read_chunk_num = 0, records_end = False\<rparr>"
  let ?t = "[([7], [1]), ([9], [1])]" and ?segs = "[[\<lparr>cp_fp = replicate 20 7, cp_id = 0, cp_size = 3\<rparr>]]"
  let ?fs = "small_files ?t None (segs_bytes False ?segs)"
  obtain b where b: "open_backup_version False [0 \<mapsto> \<lparr>meta_bytes = replicate 28 0, recipe_bytes = segs_bytes False ?segs, records_bytes = []\<rparr>] 0 = Some b"
    "s_bytes (recipe_fp b) = segs_bytes False ?segs" using small_version by blast
  have t: "init_kvstore_htable False logical_config (wf_htable ?fs) = Some ?t"
    unfolding small_files_def work_files.simps by code_simp
  obtain fs' t' where r: "do_delete False walks_id logical_config ?st 0 ?fs = Some fs'" "init_kvstore_htable False logical_config (wf_htable fs') = Some t'"
    "\<And>key. kvstore_htable_lookup logical_config t' key =
          (if \<exists>sr \<in> set (recipes_of 0 0 ?segs). kvstore_htable_lookup logical_config ?t key = Some [sr_id sr]
                \<and> (\<exists>fp \<in> fst ` set (sr_kvpairs sr). take (index_key_size logical_config) fp = take (index_key_size logical_config) key)
           then None else kvstore_htable_lookup logical_config ?t key)"
    using delete_logical [where b = b and n = 1 and st' = ?st and st = ?st and segs = ?segs and j = 0 and invalid = "[0]" and mf = "print_manifest id [(5, 1)]"
        and w = walks_id, OF small_config_init(2) _ _ t] b small_manifest
    by (auto simp: small_files_def destor_start_config_def table_ok_def walks_ok_def kv_inv_def int64_range_def
         int32_range_def TEMPORARY_ID_def init_recipe_store_def seg_ok_def data_ptr_def ptr_ok_def)
  have "kvstore_htable_lookup logical_config t' [7] = None" "kvstore_htable_lookup logical_config t' [9] = Some [1]"
    using r(3) [of "[7]"] r(3) [of "[9]"] by (simp_all add: kvstore_htable_lookup_def recipe_of_def make_segment_id_def)
  with r(1,2) show ?thesis by blast
qed

end
